(* ===== verification/Net_Prelude.thy ===== *)
theory Net_Prelude
  imports Main "HOL-Library.Word"
begin

text \<open>
  Shared vocabulary of the development.

  The sources are C99. The conventions used by every component theory are:

  \<^item> a struct is a record whose fields carry a short prefix of the struct's name, an enum is a
    datatype with the source's enumerators;
  \<^item> an array together with its element counter (\<open>participants\<close>, \<open>participant_count\<close>) is the list
    of the slots in use, the counter being its length; a capacity constant bounds that length;
  \<^item> a NUL-terminated buffer filled by \<open>strncpy\<close> followed by a forced terminator is the string
    \<open>strncpy_z n s\<close>, that is the first \<open>n - 1\<close> characters of the source;
  \<^item> a linear search that returns an index or \<open>-1\<close> is \<open>find_index\<close>, with \<open>None\<close> for \<open>-1\<close>;
  \<^item> shifting an array left over a deleted slot is \<open>remove_at\<close>;
  \<^item> signed counters are \<open>int\<close> (their overflow is undefined in C and the invariants bound them or say
    where they are not bounded); unsigned 64-bit values are 64-bit words;
  \<^item> a function pointer is an optional HOL function on an explicit world \<open>'w\<close>, \<open>None\<close> being the null
    pointer; a \<open>void *\<close> context is an optional value, \<open>None\<close> being \<open>NULL\<close>.
\<close>

section \<open>Fact collections\<close>

named_theorems table_simps \<open>linear search, slot update and slot removal\<close>
named_theorems status_simps \<open>unfolding of status changes on slots\<close>

section \<open>Bounded C strings\<close>

definition strncpy_z :: "nat \<Rightarrow> string \<Rightarrow> string" where
  "strncpy_z n s = take (n - 1) s"

lemma strncpy_z_id [simp]: "length s < n \<Longrightarrow> strncpy_z n s = s"
  by (simp add: strncpy_z_def)

lemma length_strncpy_z: "0 < n \<Longrightarrow> length (strncpy_z n s) < n"
  by (auto simp: strncpy_z_def min_def)

lemma strncpy_z_idem [simp]: "strncpy_z n (strncpy_z n s) = strncpy_z n s"
  by (simp add: strncpy_z_def)

section \<open>Linear search\<close>

fun find_index :: "('a \<Rightarrow> bool) \<Rightarrow> 'a list \<Rightarrow> nat option" where
  "find_index P [] = None"
| "find_index P (x # xs) = (if P x then Some 0 else map_option Suc (find_index P xs))"

lemma find_index_None_iff [table_simps]: "find_index P xs = None \<longleftrightarrow> (\<forall>x \<in> set xs. \<not> P x)"
  by (induction xs) auto

lemma find_index_SomeD:
  assumes "find_index P xs = Some i"
  shows "i < length xs" and "P (xs ! i)" and "\<And>j. j < i \<Longrightarrow> \<not> P (xs ! j)"
proof -
  have "i < length xs \<and> P (xs ! i) \<and> (\<forall>j<i. \<not> P (xs ! j))"
    using assms
  proof (induction xs arbitrary: i)
    case Nil
    then show ?case by simp
  next
    case (Cons x xs)
    show ?case
    proof (cases "P x")
      case True
      with Cons.prems show ?thesis by simp
    next
      case False
      with Cons.prems obtain k where k: "find_index P xs = Some k" "i = Suc k" by auto
      from Cons.IH [OF k(1)] False k(2) show ?thesis
        by (auto simp: less_Suc_eq_0_disj)
    qed
  qed
  then show "i < length xs" and "P (xs ! i)" and "\<And>j. j < i \<Longrightarrow> \<not> P (xs ! j)" by auto
qed

lemma find_index_SomeI:
  "i < length xs \<Longrightarrow> P (xs ! i) \<Longrightarrow> (\<And>j. j < i \<Longrightarrow> \<not> P (xs ! j)) \<Longrightarrow> find_index P xs = Some i"
proof (induction xs arbitrary: i)
  case Nil
  then show ?case by simp
next
  case (Cons x xs)
  show ?case
  proof (cases i)
    case 0
    with Cons.prems show ?thesis by simp
  next
    case (Suc k)
    have "find_index P xs = Some k"
    proof (rule Cons.IH)
      show "k < length xs" and "P (xs ! k)" using Cons.prems Suc by auto
      fix j
      assume "j < k"
      then show "\<not> P (xs ! j)" using Cons.prems(3) [of "Suc j"] Suc by simp
    qed
    moreover have "\<not> P x" using Cons.prems(3) [of 0] Suc by simp
    ultimately show ?thesis using Suc by simp
  qed
qed

lemma find_index_append [table_simps]:
  "find_index P (xs @ ys) =
     (case find_index P xs of Some i \<Rightarrow> Some i
      | None \<Rightarrow> map_option (\<lambda>j. length xs + j) (find_index P ys))"
proof (induction xs)
  case Nil
  show ?case by (cases "find_index P ys") auto
next
  case (Cons x xs)
  then show ?case
    by (cases "find_index P xs"; cases "find_index P ys") auto
qed

lemma find_index_update_same:
  assumes "find_index P xs = Some i" and "P y"
  shows "find_index P (xs[i := y]) = Some i"
proof (rule find_index_SomeI)
  show "i < length (xs[i := y])" using find_index_SomeD(1) [OF assms(1)] by simp
  show "P (xs[i := y] ! i)" using find_index_SomeD(1) [OF assms(1)] assms(2) by simp
  show "\<not> P (xs[i := y] ! j)" if "j < i" for j
    using find_index_SomeD(3) [OF assms(1) that] that by simp
qed

lemma find_index_update_other:
  assumes "P y \<longleftrightarrow> P (xs ! i)"
  shows "find_index P (xs[i := y]) = find_index P xs"
  using assms
proof (induction xs arbitrary: i)
  case Nil
  then show ?case by simp
next
  case (Cons x xs)
  then show ?case by (cases i) auto
qed

lemma find_index_cong_keys:
  assumes "map f xs = map f ys"
  shows "find_index (\<lambda>x. f x = k) xs = find_index (\<lambda>x. f x = k) ys"
proof -
  have gen: "find_index (\<lambda>x. f x = k) zs = find_index (\<lambda>y. y = k) (map f zs)" for zs
    by (induction zs) auto
  show ?thesis by (simp add: gen assms)
qed

section \<open>Deleting a slot\<close>

definition remove_at :: "nat \<Rightarrow> 'a list \<Rightarrow> 'a list" where
  "remove_at i xs = take i xs @ drop (Suc i) xs"

lemma length_remove_at [table_simps]: "i < length xs \<Longrightarrow> length (remove_at i xs) = length xs - 1"
  by (simp add: remove_at_def)

lemma remove_at_0 [simp]: "remove_at 0 xs = tl xs"
  by (simp add: remove_at_def drop_Suc)

lemma map_remove_at: "map f (remove_at i xs) = remove_at i (map f xs)"
  by (simp add: remove_at_def take_map drop_map)

lemma set_remove_at_subset: "set (remove_at i xs) \<subseteq> set xs"
  by (auto simp: remove_at_def dest: in_set_takeD in_set_dropD)

lemma distinct_remove_at: "distinct xs \<Longrightarrow> distinct (remove_at i xs)"
proof -
  assume d: "distinct xs"
  have "set (take i xs) \<inter> set (drop (Suc i) xs) \<subseteq> set (take i xs) \<inter> set (drop i xs)"
    using set_drop_subset_set_drop [of i "Suc i" xs] by auto
  also have "\<dots> = {}" using d by (simp add: set_take_disj_set_drop_if_distinct)
  finally show ?thesis using d by (auto simp: remove_at_def)
qed

lemma set_remove_at_distinct:
  assumes "distinct xs" and "i < length xs"
  shows "set (remove_at i xs) = set xs - {xs ! i}"
proof -
  have eq: "xs = take i xs @ xs ! i # drop (Suc i) xs" using assms(2) by (rule id_take_nth_drop)
  from assms(1) have "distinct (take i xs @ xs ! i # drop (Suc i) xs)" by (subst (asm) eq) simp
  then have "xs ! i \<notin> set (take i xs)" and "xs ! i \<notin> set (drop (Suc i) xs)" by auto
  moreover have "set xs = set (take i xs) \<union> {xs ! i} \<union> set (drop (Suc i) xs)"
    by (subst eq) auto
  ultimately show ?thesis by (auto simp: remove_at_def)
qed

lemma nth_remove_at: "j < length xs - 1 \<Longrightarrow> i < length xs \<Longrightarrow>
  remove_at i xs ! j = (if j < i then xs ! j else xs ! Suc j)"
  by (auto simp: remove_at_def nth_append)

lemma find_index_remove_at:
  assumes "find_index P xs = Some i" and "m < length xs" and "m \<noteq> i"
  shows "\<exists>j. find_index P (remove_at m xs) = Some j \<and> remove_at m xs ! j = xs ! i"
proof -
  note i = find_index_SomeD [OF assms(1)]
  let ?j = "if m < i then i - 1 else i"
  have j: "?j < length xs - 1" using i(1) assms(2,3) by auto
  have "remove_at m xs ! ?j = xs ! i"
    using j assms(2,3) by (subst nth_remove_at) auto
  moreover have "\<not> P (remove_at m xs ! l)" if "l < ?j" for l
  proof -
    have "l < length xs - 1" using that j by linarith
    then show ?thesis
      using that i(3) [of l] i(3) [of "Suc l"] assms(2,3) by (subst nth_remove_at) (auto split: if_splits)
  qed
  ultimately have "find_index P (remove_at m xs) = Some ?j"
    using j i(2) assms(2) by (intro find_index_SomeI) (simp_all add: length_remove_at)
  then show ?thesis using \<open>remove_at m xs ! ?j = xs ! i\<close> by blast
qed

section \<open>Counting loops\<close>

definition count_if :: "('a \<Rightarrow> bool) \<Rightarrow> 'a list \<Rightarrow> nat" where
  "count_if P xs = length (filter P xs)"

lemma count_if_simps [simp]:
  "count_if P [] = 0"
  "count_if P (x # xs) = (if P x then Suc (count_if P xs) else count_if P xs)"
  by (simp_all add: count_if_def)

lemma count_if_le: "count_if P xs \<le> length xs"
  by (simp add: count_if_def)

lemma count_if_eq_length [table_simps]: "count_if P xs = length xs \<longleftrightarrow> (\<forall>x \<in> set xs. P x)"
  by (induction xs) (auto simp: count_if_le le_imp_less_Suc less_imp_neq)

lemma count_if_eq_0 [table_simps]: "count_if P xs = 0 \<longleftrightarrow> (\<forall>x \<in> set xs. \<not> P x)"
  by (auto simp: count_if_def filter_empty_conv)

section \<open>Pointwise maximum of counter arrays\<close>

text \<open>The loop that raises each of the first \<open>n\<close> counters to the other array's.\<close>

definition raise_upto :: "nat \<Rightarrow> 'a :: linorder list \<Rightarrow> 'a list \<Rightarrow> 'a list" where
  "raise_upto n cs xs = fold (\<lambda>i xs. if cs ! i > xs ! i then xs[i := cs ! i] else xs) [0..<n] xs"

lemma raise_upto:
  assumes "n \<le> length xs"
  shows "length (raise_upto n cs xs) = length xs"
    and "i < length xs \<Longrightarrow> raise_upto n cs xs ! i = (if i < n then max (xs ! i) (cs ! i) else xs ! i)"
proof -
  have "length (raise_upto n cs xs) = length xs \<and>
      (\<forall>i < length xs. raise_upto n cs xs ! i = (if i < n then max (xs ! i) (cs ! i) else xs ! i))"
    using assms unfolding raise_upto_def
  proof (induction n)
    case (Suc n)
    then show ?case by (auto simp: nth_list_update max_def less_Suc_eq)
  qed simp
  then show "length (raise_upto n cs xs) = length xs"
    and "i < length xs \<Longrightarrow> raise_upto n cs xs ! i = (if i < n then max (xs ! i) (cs ! i) else xs ! i)" by auto
qed

section \<open>Clock readings\<close>

text \<open>The \<open>struct timespec\<close> of \<open>clock_gettime\<close>.\<close>

record timespec =
  tv_sec :: int
  tv_nsec :: int

section \<open>Null pointers and contexts\<close>

text \<open>
  \<open>contexts ? contexts[i] : NULL\<close>. The caller owns the array and supplies one entry per slot;
  a read past its end is undefined in C and left unspecified here.
\<close>

definition ctx_at :: "'p option list option \<Rightarrow> nat \<Rightarrow> 'p option" where
  "ctx_at cs i = (case cs of None \<Rightarrow> None | Some xs \<Rightarrow> xs ! i)"

text \<open>
  Calling a \<open>bool (*)(void *)\<close> pointer: \<open>call_ptr\<close> is the guarded call whose result stays false on a null
  pointer, \<open>run_ptr\<close> the guarded call whose result is discarded.
\<close>

type_synonym ('p, 'w) callback = "('p option \<Rightarrow> 'w \<Rightarrow> bool \<times> 'w) option"

definition call_ptr :: "('p, 'w) callback \<Rightarrow> 'p option \<Rightarrow> 'w \<Rightarrow> bool \<times> 'w" where
  "call_ptr f ctx w = (case f of None \<Rightarrow> (False, w) | Some g \<Rightarrow> g ctx w)"

definition run_ptr :: "('p, 'w) callback \<Rightarrow> 'p option \<Rightarrow> 'w \<Rightarrow> 'w" where
  "run_ptr f ctx w = (case f of None \<Rightarrow> w | Some g \<Rightarrow> snd (g ctx w))"

text \<open>
  \<open>undone_by act cmp\<close>: when \<open>act\<close> reports success, \<open>cmp\<close> brings the world back to where \<open>act\<close> found it;
  when it reports failure it has changed nothing. The law the callers of sagas and of
  try-confirm-cancel transactions are asked to respect.
\<close>

definition undone_by :: "('w \<Rightarrow> bool \<times> 'w) \<Rightarrow> ('w \<Rightarrow> 'w) \<Rightarrow> bool" where
  "undone_by act cmp \<longleftrightarrow> (\<forall>w. case act w of (ok, w1) \<Rightarrow> if ok then cmp w1 = w else w1 = w)"

lemma undone_byD: "undone_by act cmp \<Longrightarrow> act w = (ok, w1) \<Longrightarrow> if ok then cmp w1 = w else w1 = w"
  by (auto simp: undone_by_def dest: spec [of _ w])

section \<open>Reachable states and invariants\<close>

inductive reach :: "('s \<Rightarrow> bool) \<Rightarrow> ('s \<Rightarrow> 's \<Rightarrow> bool) \<Rightarrow> 's \<Rightarrow> bool"
  for init :: "'s \<Rightarrow> bool" and step :: "'s \<Rightarrow> 's \<Rightarrow> bool" where
  reach_init: "init s \<Longrightarrow> reach init step s"
| reach_step: "reach init step s \<Longrightarrow> step s t \<Longrightarrow> reach init step t"

text \<open>The contract every state machine of the development meets: an inductive invariant.\<close>

locale invariant_system =
  fixes init :: "'s \<Rightarrow> bool" and step :: "'s \<Rightarrow> 's \<Rightarrow> bool" and inv :: "'s \<Rightarrow> bool"
  assumes init_inv: "init s \<Longrightarrow> inv s"
    and step_inv: "inv s \<Longrightarrow> step s t \<Longrightarrow> inv t"
begin

lemma reach_inv: "reach init step s \<Longrightarrow> inv s"
  by (induction rule: reach.induct) (auto intro: init_inv step_inv)

lemma reach_inv_rtranclp: "inv s \<Longrightarrow> step\<^sup>*\<^sup>* s t \<Longrightarrow> inv t"
  by (rotate_tac, induction rule: rtranclp_induct) (auto intro: step_inv)

end

section \<open>Tables of named slots\<close>

text \<open>
  The contract shared by the tables that several components keep: a bounded array of entries, each
  with a truncated string key, searched linearly and extended on a miss. \<open>foc\<close> is the component's
  find-or-create operation.
\<close>

locale slot_table =
  fixes slots :: "'s \<Rightarrow> 'e list" and key :: "'e \<Rightarrow> string" and fresh :: "string \<Rightarrow> 'e"
    and cap :: nat and klen :: nat
    and foc :: "'s \<Rightarrow> string \<Rightarrow> 's \<times> nat option"
  assumes foc_hit: "find_index (\<lambda>e. key e = k) (slots s) = Some i \<Longrightarrow> foc s k = (s, Some i)"
    and foc_full: "find_index (\<lambda>e. key e = k) (slots s) = None \<Longrightarrow> cap \<le> length (slots s) \<Longrightarrow>
      foc s k = (s, None)"
    and foc_new: "find_index (\<lambda>e. key e = k) (slots s) = None \<Longrightarrow> length (slots s) < cap \<Longrightarrow>
      snd (foc s k) = Some (length (slots s)) \<and> slots (fst (foc s k)) = slots s @ [fresh k]"
    and key_fresh: "key (fresh k) = strncpy_z klen k"
begin

lemma foc_cases:
  obtains (hit) i where "find_index (\<lambda>e. key e = k) (slots s) = Some i" "foc s k = (s, Some i)"
  | (full) "find_index (\<lambda>e. key e = k) (slots s) = None" "cap \<le> length (slots s)" "foc s k = (s, None)"
  | (new) s' where "find_index (\<lambda>e. key e = k) (slots s) = None" "length (slots s) < cap"
      "foc s k = (s', Some (length (slots s)))" "slots s' = slots s @ [fresh k]"
proof (cases "find_index (\<lambda>e. key e = k) (slots s)")
  case (Some i)
  then show ?thesis using foc_hit hit by blast
next
  case None
  show ?thesis
  proof (cases "cap \<le> length (slots s)")
    case True
    then show ?thesis using None foc_full full by blast
  next
    case False
    then have lt: "length (slots s) < cap" by simp
    obtain s' r where r: "foc s k = (s', r)" by (cases "foc s k")
    with foc_new [OF None lt] have "r = Some (length (slots s))" "slots s' = slots s @ [fresh k]"
      by auto
    with r None lt new show ?thesis by blast
  qed
qed

lemma foc_index_lt: "foc s k = (s', Some i) \<Longrightarrow> i < length (slots s')"
  by (cases rule: foc_cases [of k s]) (auto dest: find_index_SomeD(1))

lemma foc_key: "foc s k = (s', Some i) \<Longrightarrow> length k < klen \<Longrightarrow> key (slots s' ! i) = k"
  by (cases rule: foc_cases [of k s]) (auto dest: find_index_SomeD(2) simp: key_fresh)

lemma foc_find: 
  assumes "foc s k = (s', Some i)" and "length k < klen"
  shows "find_index (\<lambda>e. key e = k) (slots s') = Some i"
  using assms
  by (cases rule: foc_cases [of k s]) (auto simp: find_index_append key_fresh)

lemma foc_other:
  assumes "foc s k = (s', r)" and "length k < klen" and "k' \<noteq> k"
  shows "find_index (\<lambda>e. key e = k') (slots s') = find_index (\<lambda>e. key e = k') (slots s)"
  using assms
  by (cases rule: foc_cases [of k s])
    (auto simp: find_index_append key_fresh split: option.splits)

lemma foc_bounded: "length (slots s) \<le> cap \<Longrightarrow> length (slots (fst (foc s k))) \<le> cap"
  by (cases rule: foc_cases [of k s]) auto

lemma foc_distinct:
  "distinct (map key (slots s)) \<Longrightarrow> length k < klen \<Longrightarrow>
   distinct (map key (slots (fst (foc s k))))"
  by (cases rule: foc_cases [of k s]) (auto simp: key_fresh find_index_None_iff)

lemma foc_keeps:
  assumes "find_index (\<lambda>e. key e = r) (slots s) = Some i" and "foc s k = (s', x)"
  shows "find_index (\<lambda>e. key e = r) (slots s') = Some i" and "slots s' ! i = slots s ! i"
  using assms find_index_SomeD(1) [OF assms(1)]
  by (cases rule: foc_cases [of k s]; auto simp: find_index_append nth_append)+

lemma foc_other_index:
  assumes "find_index (\<lambda>e. key e = r) (slots s) = Some i" and "foc s k = (s', Some j)" and "k \<noteq> r"
  shows "j \<noteq> i"
  using assms find_index_SomeD(1,2) [OF assms(1)]
  by (cases rule: foc_cases [of k s]) (auto dest: find_index_SomeD(2))

lemma foc_prefix: "\<exists>es. slots (fst (foc s k)) = slots s @ es \<and> set es \<subseteq> {fresh k}"
  by (cases rule: foc_cases [of k s]) auto

end

section \<open>Quorums\<close>

text \<open>
  The contract of every majority vote of the development: two quorums share a member. A grant that
  needs a quorum therefore excludes a second grant as long as the first one's members refuse it.
\<close>

locale quorum_system =
  fixes quorum :: "'a set \<Rightarrow> bool"
  assumes quorum_intersect: "quorum A \<Longrightarrow> quorum B \<Longrightarrow> A \<inter> B \<noteq> {}"
begin

lemma exclusive:
  assumes "quorum A" and "quorum B"
  obtains x where "x \<in> A" and "x \<in> B"
  using quorum_intersect [OF assms] by blast

lemma refused_no_quorum: "quorum A \<Longrightarrow> (\<And>x. x \<in> A \<Longrightarrow> x \<notin> B) \<Longrightarrow> \<not> quorum B"
  using quorum_intersect by blast

end

definition majority_of :: "nat \<Rightarrow> nat set \<Rightarrow> bool" where
  "majority_of n A \<longleftrightarrow> A \<subseteq> {..<n} \<and> n div 2 < card A"

interpretation majority: quorum_system "majority_of n" for n
proof
  fix A B
  assume maj: "majority_of n A" "majority_of n B"
  then have fin: "finite A" "finite B" by (auto simp: majority_of_def intro: finite_subset)
  show "A \<inter> B \<noteq> {}"
  proof
    assume "A \<inter> B = {}"
    with fin have "card A + card B = card (A \<union> B)" by (simp add: card_Un_disjoint)
    also have "card (A \<union> B) \<le> card {..<n}" using maj by (intro card_mono) (auto simp: majority_of_def)
    finally have "card A + card B \<le> n" by simp
    moreover have "n div 2 < card A" and "n div 2 < card B" using maj by (simp_all add: majority_of_def)
    ultimately show False by linarith
  qed
qed

lemma count_if_card: "count_if P xs = card {i. i < length xs \<and> P (xs ! i)}"
  by (simp add: count_if_def length_filter_conv_card)

lemma count_if_majority:
  "length xs div 2 < count_if P xs \<Longrightarrow> majority_of (length xs) {i. i < length xs \<and> P (xs ! i)}"
  by (auto simp: majority_of_def count_if_card)

section \<open>Rings under churn\<close>

text \<open>
  The promise of a hash ring: adding a node moves keys only to that node, removing one moves only the keys it owned. It
  holds then for sequences of changes.
\<close>

locale hash_ring =
  fixes wf :: "'r \<Rightarrow> bool" and owner :: "'r \<Rightarrow> 'k \<Rightarrow> 'n" and add :: "'p \<Rightarrow> 'r \<Rightarrow> 'r" and node :: "'p \<Rightarrow> 'n"
    and remove :: "'q \<Rightarrow> 'r \<Rightarrow> 'r" and left :: "'q \<Rightarrow> 'n"
  assumes add_wf: "wf r \<Longrightarrow> wf (add p r)" and remove_wf: "wf r \<Longrightarrow> wf (remove q r)"
    and add_owner: "wf r \<Longrightarrow> owner (add p r) k \<in> {owner r k, node p}"
    and remove_owner: "wf r \<Longrightarrow> owner r k \<noteq> left q \<Longrightarrow> owner (remove q r) k = owner r k"
begin

lemma adds_owner: "wf r \<Longrightarrow> owner (fold add ps r) k \<in> insert (owner r k) (node ` set ps)"
proof (induction ps arbitrary: r)
  case (Cons p ps)
  show ?case using Cons.IH [OF add_wf [OF Cons.prems], of p] add_owner [OF Cons.prems, of p k] by auto
qed simp

lemma removes_owner:
  "wf r \<Longrightarrow> owner r k \<notin> left ` set qs \<Longrightarrow> wf (fold remove qs r) \<and> owner (fold remove qs r) k = owner r k"
proof (induction qs arbitrary: r)
  case (Cons q qs)
  then show ?case using remove_owner [of r k q] remove_wf by simp
qed simp

lemma churn_owner:
  "wf r \<Longrightarrow> owner r k \<notin> left ` set qs \<Longrightarrow>
    owner (fold add ps (fold remove qs r)) k \<in> insert (owner r k) (node ` set ps)"
  using adds_owner [of "fold remove qs r" ps k] removes_owner by simp

end

section \<open>Decimal numbers\<close>

text \<open>What \<open>%d\<close> prints.\<close>

fun nat_string :: "nat \<Rightarrow> string" where
  "nat_string n = (if n < 10 then [char_of (48 + n)] else nat_string (n div 10) @ [char_of (48 + n mod 10)])"

declare nat_string.simps [simp del]

definition int_string :: "int \<Rightarrow> string" where
  "int_string i = (if i < 0 then CHR ''-'' # nat_string (nat (- i)) else nat_string (nat i))"

end
