(* ===== verification/TwoPC.thy ===== *)
theory TwoPC
  imports Net_Prelude
begin

text \<open>
  Two- and three-phase commit (\<open>mini-dist-transaction/src/two_pc.c\<close>, \<open>include/two_pc.h\<close>): the
  coordinator records, every coordinator and participant operation, the runs of a coordinator as
  step relations, and the atomic-commitment contract both protocols are shown to meet.
\<close>

section \<open>Data\<close>

definition TPC_MAX_PARTICIPANTS :: nat where "TPC_MAX_PARTICIPANTS = 8"

datatype TPCState = TPC_INIT | TPC_READY | TPC_COMMITTED | TPC_ABORTED

datatype TPCVote = TPC_VOTE_YES | TPC_VOTE_NO | TPC_VOTE_PENDING

datatype TPCPhase = TPC_PHASE_PREPARE | TPC_PHASE_COMMIT | TPC_PHASE_ABORT

datatype ThreePCPhase =
  THREEPC_PHASE_PREPARE | THREEPC_PHASE_PRECOMMIT | THREEPC_PHASE_COMMIT | THREEPC_PHASE_ABORT

record TPCParticipant =
  p_id :: int
  p_state :: TPCState
  p_vote :: TPCVote
  p_prepared :: bool
  p_name :: string

record TPCCoordinator =
  c_txn_id :: int
  c_participants :: "TPCParticipant list"
  c_phase :: TPCPhase
  c_timed_out :: bool

record ThreePCCoordinator =
  d_txn_id :: int
  d_participants :: "TPCParticipant list"
  d_phase :: ThreePCPhase
  d_timed_out :: bool

fun tpc_state_str :: "TPCState \<Rightarrow> string" where
  "tpc_state_str TPC_INIT = ''INIT''"
| "tpc_state_str TPC_READY = ''READY''"
| "tpc_state_str TPC_COMMITTED = ''COMMITTED''"
| "tpc_state_str TPC_ABORTED = ''ABORTED''"

fun tpc_phase_str :: "TPCPhase \<Rightarrow> string" where
  "tpc_phase_str TPC_PHASE_PREPARE = ''PREPARE''"
| "tpc_phase_str TPC_PHASE_COMMIT = ''COMMIT''"
| "tpc_phase_str TPC_PHASE_ABORT = ''ABORT''"

fun threepc_phase_str :: "ThreePCPhase \<Rightarrow> string" where
  "threepc_phase_str THREEPC_PHASE_PREPARE = ''PREPARE''"
| "threepc_phase_str THREEPC_PHASE_PRECOMMIT = ''PRECOMMIT''"
| "threepc_phase_str THREEPC_PHASE_COMMIT = ''COMMIT''"
| "threepc_phase_str THREEPC_PHASE_ABORT = ''ABORT''"

section \<open>Two-phase commit\<close>

definition tpc_participant_init :: "int \<Rightarrow> string \<Rightarrow> TPCParticipant" where
  "tpc_participant_init i name =
     \<lparr>p_id = i, p_state = TPC_INIT, p_vote = TPC_VOTE_PENDING, p_prepared = False,
      p_name = strncpy_z 32 name\<rparr>"

definition tpc_coordinator_init :: "int \<Rightarrow> TPCCoordinator" where
  "tpc_coordinator_init txn =
     \<lparr>c_txn_id = txn, c_participants = [], c_phase = TPC_PHASE_PREPARE, c_timed_out = False\<rparr>"

definition tpc_coordinator_add_participant :: "TPCCoordinator \<Rightarrow> TPCParticipant \<Rightarrow> TPCCoordinator" where
  "tpc_coordinator_add_participant c p =
     (if length (c_participants c) \<ge> TPC_MAX_PARTICIPANTS then c
      else c\<lparr>c_participants := c_participants c @ [p]\<rparr>)"

text \<open>The body of the loop of \<open>tpc_coordinator_prepare\<close>: the slot, \<open>yes_count\<close> and \<open>no_count\<close>.\<close>

fun tpc_prepare_loop :: "TPCParticipant list \<Rightarrow> TPCParticipant list \<times> nat \<times> nat" where
  "tpc_prepare_loop [] = ([], 0, 0)"
| "tpc_prepare_loop (p # ps) =
     (case tpc_prepare_loop ps of (ps', yes_count, no_count) \<Rightarrow>
        (case p_vote p of
           TPC_VOTE_YES \<Rightarrow> (p\<lparr>p_state := TPC_READY, p_prepared := True\<rparr> # ps', Suc yes_count, no_count)
         | TPC_VOTE_NO \<Rightarrow> (p\<lparr>p_state := TPC_ABORTED\<rparr> # ps', yes_count, Suc no_count)
         | TPC_VOTE_PENDING \<Rightarrow>
             (p\<lparr>p_state := TPC_READY, p_prepared := True, p_vote := TPC_VOTE_YES\<rparr> # ps',
              Suc yes_count, no_count)))"

definition tpc_coordinator_prepare :: "TPCCoordinator \<Rightarrow> TPCCoordinator \<times> bool" where
  "tpc_coordinator_prepare c =
     (if c_timed_out c then (c\<lparr>c_phase := TPC_PHASE_ABORT\<rparr>, False)
      else
        (case tpc_prepare_loop (c_participants c) of (ps, yes_count, no_count) \<Rightarrow>
           let c1 = c\<lparr>c_phase := TPC_PHASE_PREPARE, c_participants := ps\<rparr> in
           if no_count > 0 then (c1\<lparr>c_phase := TPC_PHASE_ABORT\<rparr>, False)
           else (c1, yes_count = length (c_participants c))))"

definition tpc_participant_vote :: "TPCParticipant \<Rightarrow> bool \<Rightarrow> TPCParticipant \<times> TPCVote" where
  "tpc_participant_vote p can_commit =
     (if can_commit then (p\<lparr>p_vote := TPC_VOTE_YES, p_state := TPC_READY\<rparr>, TPC_VOTE_YES)
      else (p\<lparr>p_vote := TPC_VOTE_NO, p_state := TPC_ABORTED\<rparr>, TPC_VOTE_NO))"

definition tpc_coordinator_abort :: "TPCCoordinator \<Rightarrow> TPCCoordinator" where
  "tpc_coordinator_abort c =
     c\<lparr>c_phase := TPC_PHASE_ABORT,
       c_participants := map (\<lambda>p. p\<lparr>p_state := TPC_ABORTED\<rparr>) (c_participants c)\<rparr>"

definition tpc_coordinator_commit :: "TPCCoordinator \<Rightarrow> TPCCoordinator \<times> bool" where
  "tpc_coordinator_commit c =
     (if c_phase c \<noteq> TPC_PHASE_PREPARE then (c, False)
      else if c_timed_out c then (tpc_coordinator_abort c, False)
      else
        let all_yes = count_if (\<lambda>p. p_vote p = TPC_VOTE_YES) (c_participants c) in
        if all_yes \<noteq> length (c_participants c) \<or> length (c_participants c) = 0
        then (tpc_coordinator_abort c, False)
        else (c\<lparr>c_phase := TPC_PHASE_COMMIT,
                c_participants := map (\<lambda>p. p\<lparr>p_state := TPC_COMMITTED\<rparr>) (c_participants c)\<rparr>, True))"

definition tpc_handle_timeout :: "TPCCoordinator \<Rightarrow> TPCCoordinator \<times> bool" where
  "tpc_handle_timeout c = (tpc_coordinator_abort (c\<lparr>c_timed_out := True\<rparr>), False)"

section \<open>Three-phase commit\<close>

definition threepc_coordinator_init :: "int \<Rightarrow> ThreePCCoordinator" where
  "threepc_coordinator_init txn =
     \<lparr>d_txn_id = txn, d_participants = [], d_phase = THREEPC_PHASE_PREPARE, d_timed_out = False\<rparr>"

definition threepc_coordinator_add_participant ::
  "ThreePCCoordinator \<Rightarrow> TPCParticipant \<Rightarrow> ThreePCCoordinator" where
  "threepc_coordinator_add_participant c p =
     (if length (d_participants c) \<ge> TPC_MAX_PARTICIPANTS then c
      else c\<lparr>d_participants := d_participants c @ [p]\<rparr>)"

definition threepc_abort :: "ThreePCCoordinator \<Rightarrow> ThreePCCoordinator" where
  "threepc_abort c =
     c\<lparr>d_phase := THREEPC_PHASE_ABORT,
       d_participants := map (\<lambda>p. p\<lparr>p_state := TPC_ABORTED\<rparr>) (d_participants c)\<rparr>"

text \<open>
  The loop of \<open>threepc_prepare\<close> stops at the first negative vote (third component \<open>False\<close>), leaving the
  slots after it untouched; \<open>yes\<close> counts the slots made ready.
\<close>

fun threepc_prepare_loop :: "TPCParticipant list \<Rightarrow> TPCParticipant list \<times> nat \<times> bool" where
  "threepc_prepare_loop [] = ([], 0, True)"
| "threepc_prepare_loop (p # ps) =
     (if p_vote p = TPC_VOTE_YES \<or> p_vote p = TPC_VOTE_PENDING then
        (case threepc_prepare_loop ps of (ps', yes, done_all) \<Rightarrow>
           (p\<lparr>p_vote := TPC_VOTE_YES, p_state := TPC_READY\<rparr> # ps', Suc yes, done_all))
      else (p\<lparr>p_state := TPC_ABORTED\<rparr> # ps, 0, False))"

definition threepc_prepare :: "ThreePCCoordinator \<Rightarrow> ThreePCCoordinator \<times> bool" where
  "threepc_prepare c =
     (case threepc_prepare_loop (d_participants c) of (ps, yes, done_all) \<Rightarrow>
        let c1 = c\<lparr>d_phase := THREEPC_PHASE_PREPARE, d_participants := ps\<rparr> in
        if done_all then (c1, yes = length (d_participants c) \<and> length (d_participants c) > 0)
        else (threepc_abort c1, False))"

text \<open>The loop of \<open>threepc_precommit\<close>: stops at the first vote that is not yes.\<close>

fun threepc_precommit_loop :: "TPCParticipant list \<Rightarrow> TPCParticipant list \<times> bool" where
  "threepc_precommit_loop [] = ([], True)"
| "threepc_precommit_loop (p # ps) =
     (if p_vote p \<noteq> TPC_VOTE_YES then (p # ps, False)
      else (case threepc_precommit_loop ps of (ps', ok) \<Rightarrow> (p\<lparr>p_prepared := True\<rparr> # ps', ok)))"

definition threepc_precommit :: "ThreePCCoordinator \<Rightarrow> ThreePCCoordinator \<times> bool" where
  "threepc_precommit c =
     (if d_phase c \<noteq> THREEPC_PHASE_PREPARE then (c, False)
      else
        (case threepc_precommit_loop (d_participants c) of (ps, ok) \<Rightarrow>
           let c1 = c\<lparr>d_phase := THREEPC_PHASE_PRECOMMIT, d_participants := ps\<rparr> in
           if ok then (c1, True) else (threepc_abort c1, False)))"

definition threepc_commit :: "ThreePCCoordinator \<Rightarrow> ThreePCCoordinator \<times> bool" where
  "threepc_commit c =
     (if d_phase c \<noteq> THREEPC_PHASE_PRECOMMIT then (c, False)
      else (c\<lparr>d_phase := THREEPC_PHASE_COMMIT,
              d_participants := map (\<lambda>p. p\<lparr>p_state := TPC_COMMITTED\<rparr>) (d_participants c)\<rparr>, True))"

section \<open>Runs of a coordinator\<close>



definition threepc_initial :: "ThreePCCoordinator \<Rightarrow> bool" where
  "threepc_initial c \<longleftrightarrow> (\<exists>txn. c = threepc_coordinator_init txn)"

inductive threepc_step :: "ThreePCCoordinator \<Rightarrow> ThreePCCoordinator \<Rightarrow> bool" where
  add3: "d_phase c = THREEPC_PHASE_PREPARE \<Longrightarrow> p_state p \<noteq> TPC_COMMITTED \<Longrightarrow>
    threepc_step c (threepc_coordinator_add_participant c p)"
| vote3: "d_phase c = THREEPC_PHASE_PREPARE \<Longrightarrow> i < length (d_participants c) \<Longrightarrow>
    p_state (d_participants c ! i) = TPC_INIT \<Longrightarrow>
    threepc_step c (c\<lparr>d_participants :=
      (d_participants c)[i := fst (tpc_participant_vote (d_participants c ! i) b)]\<rparr>)"
| prepare3: "threepc_step c (fst (threepc_prepare c))"
| precommit3: "threepc_step c (fst (threepc_precommit c))"
| commit3: "threepc_step c (fst (threepc_commit c))"
| abort3: "threepc_step c (threepc_abort c)"

section \<open>The atomic-commitment contract\<close>

text \<open>
  What a commit protocol promises about its participants: nobody is committed before the decision, at the decision
  everybody voted yes and becomes committed, and from then on a participant changes only by being enlisted late or by
  voting again, the steps \<open>late i\<close> of participant \<open>i\<close>. \<open>since late c V e\<close> says that \<open>e\<close> follows \<open>c\<close> by late steps of
  the participants \<open>V\<close>.
\<close>

inductive since :: "(nat \<Rightarrow> 's \<Rightarrow> 's \<Rightarrow> bool) \<Rightarrow> 's \<Rightarrow> nat set \<Rightarrow> 's \<Rightarrow> bool" for late c where
  since_decision: "since late c {} c"
| since_late: "since late c V s \<Longrightarrow> late i s t \<Longrightarrow> since late c (insert i V) t"

locale atomic_commit = invariant_system init step inv
  for init :: "'c \<Rightarrow> bool" and step :: "'c \<Rightarrow> 'c \<Rightarrow> bool" and inv :: "'c \<Rightarrow> bool" +
  fixes parts :: "'c \<Rightarrow> TPCParticipant list" and decided :: "'c \<Rightarrow> bool"
    and decide :: "'c \<Rightarrow> 'c \<Rightarrow> bool" and late :: "nat \<Rightarrow> 'c \<Rightarrow> 'c \<Rightarrow> bool"
  assumes undecided_none: "inv c \<Longrightarrow> \<not> decided c \<Longrightarrow> p \<in> set (parts c) \<Longrightarrow> p_state p \<noteq> TPC_COMMITTED"
    and init_undecided: "init c \<Longrightarrow> \<not> decided c"
    and decide_all: "inv d \<Longrightarrow> decide d c \<Longrightarrow> p \<in> set (parts c) \<Longrightarrow> p_state p = TPC_COMMITTED \<and> p_vote p = TPC_VOTE_YES"
    and step_decided: "inv s \<Longrightarrow> step s t \<Longrightarrow> decided t \<Longrightarrow> decide s t \<or> decided s \<and> (t = s \<or> (\<exists>i. late i s t))"
    and late_other: "late i s t \<Longrightarrow> j < length (parts t) \<Longrightarrow> j \<noteq> i \<Longrightarrow> j < length (parts s) \<and> parts t ! j = parts s ! j"
begin

lemma decision:
  assumes "reach init step e" and "decided e"
  shows "\<exists>d c V. reach init step d \<and> decide d c \<and> since late c V e"
  using assms
proof (induction rule: reach.induct)
  case (reach_init s)
  then show ?case using init_undecided by blast
next
  case (reach_step s t)
  from step_decided [OF reach_inv [OF reach_step.hyps(1)] reach_step.hyps(2) reach_step.prems]
  show ?case using reach_step by (blast intro: since_decision since_late)
qed

lemma since_same: "since late c V e \<Longrightarrow> j < length (parts e) \<Longrightarrow> j \<notin> V \<Longrightarrow> j < length (parts c) \<and> parts e ! j = parts c ! j"
  by (induction rule: since.induct) (auto dest!: late_other)

lemma agreement:
  assumes "reach init step e" and "p \<in> set (parts e)" and "p_state p = TPC_COMMITTED"
  shows "\<exists>d c V. reach init step d \<and> decide d c \<and> since late c V e \<and>
    (\<forall>i < length (parts e). i \<notin> V \<longrightarrow> p_state (parts e ! i) = TPC_COMMITTED \<and> p_vote (parts e ! i) = TPC_VOTE_YES)"
proof -
  have "decided e" using undecided_none [OF reach_inv [OF assms(1)] _ assms(2)] assms(3) by blast
  from decision [OF assms(1) this] obtain d c V where d: "reach init step d" "decide d c" "since late c V e" by blast
  then show ?thesis using since_same [OF d(3)] decide_all [OF reach_inv [OF d(1)] d(2)] by (metis nth_mem)
qed

end



definition threepc_inv :: "ThreePCCoordinator \<Rightarrow> bool" where
  "threepc_inv c \<longleftrightarrow>
     length (d_participants c) \<le> TPC_MAX_PARTICIPANTS \<and>
     (d_phase c = THREEPC_PHASE_PRECOMMIT \<longrightarrow> list_all (\<lambda>p. p_vote p = TPC_VOTE_YES \<and> p_prepared p) (d_participants c)) \<and>
     (d_phase c = THREEPC_PHASE_COMMIT \<longrightarrow>
        list_all (\<lambda>p. p_state p = TPC_COMMITTED \<and> p_vote p = TPC_VOTE_YES \<and> p_prepared p) (d_participants c)) \<and>
     (d_phase c \<noteq> THREEPC_PHASE_COMMIT \<longrightarrow> list_all (\<lambda>p. p_state p \<noteq> TPC_COMMITTED) (d_participants c))"

subsection \<open>Facts about the loops\<close>

lemma tpc_prepare_loop_length:
  "tpc_prepare_loop ps = (ps', y, n) \<Longrightarrow> length ps' = length ps \<and> y + n = length ps"
  by (induction ps arbitrary: ps' y n) (auto split: prod.splits TPCVote.splits)

lemma tpc_prepare_loop_no:
  "tpc_prepare_loop ps = (ps', y, n) \<Longrightarrow> n = count_if (\<lambda>p. p_vote p = TPC_VOTE_NO) ps"
  by (induction ps arbitrary: ps' y n) (auto split: prod.splits TPCVote.splits)

lemma tpc_prepare_loop_not_committed:
  "tpc_prepare_loop ps = (ps', y, n) \<Longrightarrow> list_all (\<lambda>p. p_state p \<noteq> TPC_COMMITTED) ps'"
  by (induction ps arbitrary: ps' y n) (auto split: prod.splits TPCVote.splits)

lemma tpc_prepare_loop_ready:
  "tpc_prepare_loop ps = (ps', y, 0) \<Longrightarrow>
   list_all (\<lambda>p. p_state p = TPC_READY \<and> p_vote p = TPC_VOTE_YES \<and> p_prepared p) ps'"
  by (induction ps arbitrary: ps' y) (auto split: prod.splits TPCVote.splits)

lemma threepc_prepare_loop_length:
  "threepc_prepare_loop ps = (ps', y, ok) \<Longrightarrow> length ps' = length ps"
  by (induction ps arbitrary: ps' y ok) (auto split: prod.splits if_splits)

lemma threepc_prepare_loop_ok:
  "threepc_prepare_loop ps = (ps', y, ok) \<Longrightarrow>
   ok = list_all (\<lambda>p. p_vote p \<noteq> TPC_VOTE_NO) ps \<and>
   (ok \<longrightarrow> y = length ps \<and>
      ps' = map (\<lambda>p. p\<lparr>p_vote := TPC_VOTE_YES, p_state := TPC_READY\<rparr>) ps)"
  by (induction ps arbitrary: ps' y ok) (auto split: prod.splits if_splits intro: TPCVote.exhaust)

lemma threepc_precommit_loop_length:
  "threepc_precommit_loop ps = (ps', ok) \<Longrightarrow> length ps' = length ps"
  by (induction ps arbitrary: ps' ok) (auto split: prod.splits if_splits)

lemma threepc_precommit_loop_ok:
  "threepc_precommit_loop ps = (ps', ok) \<Longrightarrow>
   ok = list_all (\<lambda>p. p_vote p = TPC_VOTE_YES) ps \<and>
   (ok \<longrightarrow> ps' = map (\<lambda>p. p\<lparr>p_prepared := True\<rparr>) ps)"
  by (induction ps arbitrary: ps' ok) (auto split: prod.splits if_splits)

lemma threepc_precommit_loop_states:
  "threepc_precommit_loop ps = (ps', ok) \<Longrightarrow> map p_state ps' = map p_state ps"
  by (induction ps arbitrary: ps' ok) (auto split: prod.splits if_splits)

subsection \<open>Every operation keeps the invariant\<close>

lemma list_all_update:
  "list_all P xs \<Longrightarrow> P y \<Longrightarrow> list_all P (xs[i := y])"
  by (auto simp: list_all_iff dest!: set_update_subset_insert [THEN subsetD])






lemma tpc_vote_not_committed: "p_state (fst (tpc_participant_vote p b)) \<noteq> TPC_COMMITTED"
  by (simp add: tpc_participant_vote_def)



lemma threepc_inv_abort:
  "length (d_participants c) \<le> TPC_MAX_PARTICIPANTS \<Longrightarrow> threepc_inv (threepc_abort c)"
  by (auto simp: threepc_inv_def threepc_abort_def list_all_iff)

lemma threepc_inv_prepare:
  assumes "threepc_inv c"
  shows "threepc_inv (fst (threepc_prepare c))"
proof -
  obtain ps y ok where loop: "threepc_prepare_loop (d_participants c) = (ps, y, ok)"
    by (cases "threepc_prepare_loop (d_participants c)")
  show ?thesis
  proof (cases ok)
    case True
    with assms loop threepc_prepare_loop_ok [OF loop] show ?thesis
      by (auto simp: threepc_prepare_def threepc_inv_def list_all_iff)
  next
    case False
    have "length ps \<le> TPC_MAX_PARTICIPANTS"
      using assms threepc_prepare_loop_length [OF loop] by (simp add: threepc_inv_def)
    with False loop show ?thesis by (simp add: threepc_prepare_def threepc_inv_abort)
  qed
qed

lemma threepc_inv_precommit:
  assumes "threepc_inv c"
  shows "threepc_inv (fst (threepc_precommit c))"
proof -
  obtain ps ok where loop: "threepc_precommit_loop (d_participants c) = (ps, ok)"
    by (cases "threepc_precommit_loop (d_participants c)")
  show ?thesis
  proof (cases "d_phase c = THREEPC_PHASE_PREPARE \<and> ok")
    case True
    with assms loop threepc_precommit_loop_ok [OF loop] show ?thesis
      by (auto simp: threepc_precommit_def threepc_inv_def list_all_iff)
  next
    case False
    have "length ps \<le> TPC_MAX_PARTICIPANTS"
      using assms threepc_precommit_loop_length [OF loop] by (simp add: threepc_inv_def)
    with False loop assms show ?thesis by (auto simp: threepc_precommit_def threepc_inv_abort)
  qed
qed

lemma threepc_inv_commit: "threepc_inv c \<Longrightarrow> threepc_inv (fst (threepc_commit c))"
  by (auto simp: threepc_inv_def threepc_commit_def list_all_iff)

lemma threepc_inv_add:
  "threepc_inv c \<Longrightarrow> d_phase c = THREEPC_PHASE_PREPARE \<Longrightarrow> p_state p \<noteq> TPC_COMMITTED \<Longrightarrow>
   threepc_inv (threepc_coordinator_add_participant c p)"
  by (auto simp: threepc_inv_def threepc_coordinator_add_participant_def)

lemma threepc_inv_vote:
  "threepc_inv c \<Longrightarrow> d_phase c = THREEPC_PHASE_PREPARE \<Longrightarrow>
   threepc_inv (c\<lparr>d_participants := (d_participants c)[i := fst (tpc_participant_vote p b)]\<rparr>)"
  by (auto simp: threepc_inv_def intro!: list_all_update tpc_vote_not_committed)

lemma threepc_inv_abort_op: "threepc_inv c \<Longrightarrow> threepc_inv (threepc_abort c)"
  by (rule threepc_inv_abort) (simp add: threepc_inv_def)

lemmas threepc_inv_ops = threepc_inv_abort_op
  threepc_inv_prepare threepc_inv_precommit threepc_inv_commit threepc_inv_add threepc_inv_vote




interpretation threepc: atomic_commit threepc_initial threepc_step threepc_inv d_participants
  "\<lambda>c. d_phase c = THREEPC_PHASE_COMMIT" "\<lambda>d c. threepc_commit d = (c, True)" "\<lambda>_ _ _. False"
proof
  show "threepc_inv s" if "threepc_initial s" for s
    using that by (auto simp: threepc_initial_def threepc_inv_def threepc_coordinator_init_def)
  show inv: "threepc_inv t" if "threepc_inv s" and "threepc_step s t" for s t
    using that(2,1)
    by (cases rule: threepc_step.cases) (auto intro: threepc_inv_ops)
  show "p_state p = TPC_COMMITTED \<and> p_vote p = TPC_VOTE_YES"
    if "threepc_inv d" "threepc_commit d = (c, True)" "p \<in> set (d_participants c)" for d c p
    using that by (auto simp: threepc_commit_def threepc_inv_def list_all_iff split: if_splits)
  show "threepc_commit s = (t, True) \<or> d_phase s = THREEPC_PHASE_COMMIT \<and> (t = s \<or> (\<exists>i. False))"
    if "threepc_inv s" "threepc_step s t" "d_phase t = THREEPC_PHASE_COMMIT" for s t
    using that(2,3)
    by (cases rule: threepc_step.cases)
      (auto simp: threepc_commit_def threepc_abort_def threepc_prepare_def threepc_precommit_def threepc_coordinator_add_participant_def Let_def
        split: if_splits prod.splits)
qed (auto simp: threepc_inv_def list_all_iff threepc_initial_def threepc_coordinator_init_def)

section \<open>Properties\<close>






text \<open>
  The coordinator's decision: from a fresh decision point (prepare phase, no timeout), running
  \<open>prepare\<close> and then \<open>commit\<close> commits exactly when there is at least one participant and nobody voted
  no. When it commits, every participant ends committed, prepared and with a yes vote; when it does
  not, no participant is left committed, and if a no vote was cast the coordinator is in its abort
  phase. A participant that never voted is counted as a yes.
\<close>

theorem tpc_prepare_commit_decision:
  assumes "c_phase c = TPC_PHASE_PREPARE" and "\<not> c_timed_out c"
    and "tpc_coordinator_commit (fst (tpc_coordinator_prepare c)) = (c', ok)"
  shows "(ok \<longleftrightarrow> c_participants c \<noteq> [] \<and> (\<forall>p \<in> set (c_participants c). p_vote p \<noteq> TPC_VOTE_NO)) \<and>
    (if ok then c_phase c' = TPC_PHASE_COMMIT \<and> (\<forall>p \<in> set (c_participants c').
        p_state p = TPC_COMMITTED \<and> p_vote p = TPC_VOTE_YES \<and> p_prepared p)
     else c_phase c' = TPC_PHASE_ABORT \<and> (\<forall>p \<in> set (c_participants c'). p_state p \<noteq> TPC_COMMITTED))"
proof -
  obtain ps y n where loop: "tpc_prepare_loop (c_participants c) = (ps, y, n)"
    by (cases "tpc_prepare_loop (c_participants c)")
  note len = tpc_prepare_loop_length [OF loop] and no = tpc_prepare_loop_no [OF loop]
    and nc = tpc_prepare_loop_not_committed [OF loop]
  have ready: "n = 0 \<Longrightarrow> list_all (\<lambda>p. p_state p = TPC_READY \<and> p_vote p = TPC_VOTE_YES \<and> p_prepared p) ps"
    using loop tpc_prepare_loop_ready by blast
  have n0: "n = 0 \<longleftrightarrow> (\<forall>p \<in> set (c_participants c). p_vote p \<noteq> TPC_VOTE_NO)"
    using no by (simp add: table_simps)
  have all_yes: "n = 0 \<Longrightarrow> count_if (\<lambda>p. p_vote p = TPC_VOTE_YES) ps = length ps"
    using ready by (simp add: table_simps list_all_iff)
  have ps_nil: "ps = [] \<longleftrightarrow> c_participants c = []" using len by auto
  note defs = tpc_coordinator_prepare_def tpc_coordinator_commit_def tpc_coordinator_abort_def Let_def
  have "ok \<longleftrightarrow> c_participants c \<noteq> [] \<and> (\<forall>p \<in> set (c_participants c). p_vote p \<noteq> TPC_VOTE_NO)"
    using assms loop n0 all_yes ps_nil by (auto simp: defs split: if_splits)
  moreover have "c_phase c' = TPC_PHASE_COMMIT \<and> (\<forall>p \<in> set (c_participants c').
      p_state p = TPC_COMMITTED \<and> p_vote p = TPC_VOTE_YES \<and> p_prepared p)" if ok
    using that assms loop ready by (auto simp: defs list_all_iff split: if_splits)
  moreover have "c_phase c' = TPC_PHASE_ABORT \<and>
      (\<forall>p \<in> set (c_participants c'). p_state p \<noteq> TPC_COMMITTED)" if "\<not> ok"
    using that assms loop nc by (auto simp: defs list_all_iff split: if_splits)
  ultimately show ?thesis by simp
qed

lemmas tpc_eval =
  tpc_coordinator_init_def tpc_participant_init_def tpc_coordinator_add_participant_def
  TPC_MAX_PARTICIPANTS_def tpc_coordinator_prepare_def tpc_coordinator_commit_def
  tpc_coordinator_abort_def tpc_participant_vote_def

definition tpc_split_vote :: TPCCoordinator where
  "tpc_split_vote =
     tpc_coordinator_add_participant
       (tpc_coordinator_add_participant (tpc_coordinator_init 3)
          (fst (tpc_participant_vote (tpc_participant_init 1 ''A'') True)))
       (fst (tpc_participant_vote (tpc_participant_init 2 ''B'') False))"

theorem tpc_prepare_commit_decision_witness:
  "snd (tpc_coordinator_commit (fst (tpc_coordinator_prepare tpc_split_vote))) = False \<and>
   c_phase (fst (tpc_coordinator_commit (fst (tpc_coordinator_prepare tpc_split_vote)))) = TPC_PHASE_ABORT"
proof -
  have h: "c_phase tpc_split_vote = TPC_PHASE_PREPARE" "\<not> c_timed_out tpc_split_vote"
    "\<exists>p \<in> set (c_participants tpc_split_vote). p_vote p = TPC_VOTE_NO"
    by (simp_all add: tpc_split_vote_def tpc_eval)
  show ?thesis
    using tpc_prepare_commit_decision [OF h(1,2) prod.collapse [symmetric]] h(3)
    by (auto split: if_splits)
qed

text \<open>
  A commit is not stable: whenever the coordinator has committed, a late \<open>tpc_handle_timeout\<close> turns
  every committed participant into an aborted one.
\<close>

theorem tpc_timeout_revokes_commit:
  assumes "tpc_coordinator_commit c = (c', True)"
  shows "c_phase (fst (tpc_handle_timeout c')) = TPC_PHASE_ABORT \<and>
    length (c_participants (fst (tpc_handle_timeout c'))) = length (c_participants c) \<and>
    (\<forall>i < length (c_participants c).
       p_state (c_participants c' ! i) = TPC_COMMITTED \<and>
       p_state (c_participants (fst (tpc_handle_timeout c')) ! i) = TPC_ABORTED)"
  using assms
  by (auto simp: tpc_coordinator_commit_def tpc_handle_timeout_def tpc_coordinator_abort_def Let_def
      split: if_splits)

theorem tpc_timeout_revokes_commit_witness:
  "\<exists>c'. tpc_coordinator_commit (fst (tpc_coordinator_prepare
        (tpc_coordinator_add_participant (tpc_coordinator_init 7) (tpc_participant_init 1 ''A'')))) = (c', True) \<and>
     p_state (c_participants c' ! 0) = TPC_COMMITTED \<and>
     p_state (c_participants (fst (tpc_handle_timeout c')) ! 0) = TPC_ABORTED"
proof -
  let ?c = "fst (tpc_coordinator_prepare
        (tpc_coordinator_add_participant (tpc_coordinator_init 7) (tpc_participant_init 1 ''A'')))"
  have ok: "tpc_coordinator_commit ?c = (fst (tpc_coordinator_commit ?c), True)"
    and len: "0 < length (c_participants ?c)"
    by (simp_all add: tpc_eval)
  show ?thesis using tpc_timeout_revokes_commit [OF ok] ok len by auto
qed

text \<open>
  Atomic commitment of three-phase commit: in every reachable state, if one participant is
  committed then every participant is committed and voted yes.
\<close>

theorem threepc_agreement:
  assumes "reach threepc_initial threepc_step c"
    and "p \<in> set (d_participants c)" and "p_state p = TPC_COMMITTED"
    and "q \<in> set (d_participants c)"
  shows "p_state q = TPC_COMMITTED \<and> p_vote q = TPC_VOTE_YES"
proof -
  obtain d c0 V where "since (\<lambda>_ _ _. False) c0 V c" "\<forall>i < length (d_participants c). i \<notin> V \<longrightarrow>
      p_state (d_participants c ! i) = TPC_COMMITTED \<and> p_vote (d_participants c ! i) = TPC_VOTE_YES"
    using threepc.agreement [OF assms(1-3)] by blast
  moreover from this(1) have "V = {}" by (cases rule: since.cases) auto
  ultimately show ?thesis using assms(4) by (auto simp: in_set_conv_nth)
qed

definition threepc_demo :: ThreePCCoordinator where
  "threepc_demo =
     fst (threepc_commit (fst (threepc_precommit (fst (threepc_prepare
       (threepc_coordinator_add_participant (threepc_coordinator_init 4) (tpc_participant_init 1 ''A'')))))))"

theorem threepc_agreement_witness:
  "p_state (d_participants threepc_demo ! 0) = TPC_COMMITTED \<and>
   p_vote (d_participants threepc_demo ! 0) = TPC_VOTE_YES"
proof -
  let ?c0 = "threepc_coordinator_init 4"
  let ?c1 = "threepc_coordinator_add_participant ?c0 (tpc_participant_init 1 ''A'')"
  have "reach threepc_initial threepc_step ?c0" by (rule reach_init) (auto simp: threepc_initial_def)
  then have "reach threepc_initial threepc_step ?c1"
    by (rule reach_step)
      (rule threepc_step.add3, auto simp: threepc_coordinator_init_def tpc_participant_init_def)
  then have r: "reach threepc_initial threepc_step threepc_demo"
    unfolding threepc_demo_def
    by (intro reach_step [where step = threepc_step, OF _ threepc_step.commit3]
        reach_step [where step = threepc_step, OF _ threepc_step.precommit3]
        reach_step [where step = threepc_step, OF _ threepc_step.prepare3])
  have ps: "d_participants threepc_demo =
      [\<lparr>p_id = 1, p_state = TPC_COMMITTED, p_vote = TPC_VOTE_YES, p_prepared = True, p_name = ''A''\<rparr>]"
    by (simp add: threepc_demo_def threepc_coordinator_init_def threepc_coordinator_add_participant_def
        TPC_MAX_PARTICIPANTS_def tpc_participant_init_def threepc_prepare_def threepc_precommit_def
        threepc_commit_def)
  show ?thesis
    by (rule threepc_agreement [OF r, of "d_participants threepc_demo ! 0"]) (simp_all add: ps)
qed

end
