(* ===== verification/Saga.thy ===== *)
theory Saga
  imports Net_Prelude
begin

text \<open>
  The saga orchestrator (\<open>mini-dist-transaction/src/saga.c\<close>, \<open>include/saga.h\<close>). Actions and
  compensations are the caller's function pointers; they are parameters of the model, functions of the
  context pointer and of a world \<open>'w\<close> that holds everything they may change. The console output of
  the loop is not part of the state.
\<close>

section \<open>Data\<close>

definition SAGA_MAX_STEPS :: nat where "SAGA_MAX_STEPS = 16"

datatype SagaStepStatus = SAGA_STEP_PENDING | SAGA_STEP_SUCCEEDED | SAGA_STEP_FAILED | SAGA_STEP_RUNNING

datatype SagaTxnStatus =
  SAGA_TXN_CREATED | SAGA_TXN_RUNNING | SAGA_TXN_COMPLETED | SAGA_TXN_COMPENSATING
  | SAGA_TXN_COMPENSATED | SAGA_TXN_FAILED

record ('p, 'w) SagaStep =
  sg_id :: int
  sg_action :: "('p, 'w) callback"
  sg_compensate :: "('p, 'w) callback"
  sg_status :: SagaStepStatus
  sg_name :: string

record ('p, 'w) SagaTransaction =
  st_txn_id :: int
  st_steps :: "('p, 'w) SagaStep list"
  st_current_step :: nat
  st_status :: SagaTxnStatus

fun saga_step_status_str :: "SagaStepStatus \<Rightarrow> string" where
  "saga_step_status_str SAGA_STEP_PENDING = ''PENDING''"
| "saga_step_status_str SAGA_STEP_SUCCEEDED = ''SUCCEEDED''"
| "saga_step_status_str SAGA_STEP_FAILED = ''FAILED''"
| "saga_step_status_str SAGA_STEP_RUNNING = ''RUNNING''"

fun saga_txn_status_str :: "SagaTxnStatus \<Rightarrow> string" where
  "saga_txn_status_str SAGA_TXN_CREATED = ''CREATED''"
| "saga_txn_status_str SAGA_TXN_RUNNING = ''RUNNING''"
| "saga_txn_status_str SAGA_TXN_COMPLETED = ''COMPLETED''"
| "saga_txn_status_str SAGA_TXN_COMPENSATING = ''COMPENSATING''"
| "saga_txn_status_str SAGA_TXN_COMPENSATED = ''COMPENSATED''"
| "saga_txn_status_str SAGA_TXN_FAILED = ''FAILED''"

section \<open>Operations\<close>

definition saga_step_init ::
  "int \<Rightarrow> string \<Rightarrow> ('p, 'w) callback \<Rightarrow> ('p, 'w) callback \<Rightarrow> ('p, 'w) SagaStep" where
  "saga_step_init i name action compensate =
     \<lparr>sg_id = i, sg_action = action, sg_compensate = compensate, sg_status = SAGA_STEP_PENDING,
      sg_name = strncpy_z 48 name\<rparr>"

definition saga_transaction_init :: "int \<Rightarrow> ('p, 'w) SagaTransaction" where
  "saga_transaction_init txn =
     \<lparr>st_txn_id = txn, st_steps = [], st_current_step = 0, st_status = SAGA_TXN_CREATED\<rparr>"

definition saga_transaction_add_step ::
  "('p, 'w) SagaTransaction \<Rightarrow> ('p, 'w) SagaStep \<Rightarrow> ('p, 'w) SagaTransaction" where
  "saga_transaction_add_step st s =
     (if length (st_steps st) \<ge> SAGA_MAX_STEPS then st
      else st\<lparr>st_steps := st_steps st @ [s]\<rparr>)"

definition saga_set_status ::
  "('p, 'w) SagaTransaction \<Rightarrow> nat \<Rightarrow> SagaStepStatus \<Rightarrow> ('p, 'w) SagaTransaction" where
  "saga_set_status st i s = st\<lparr>st_steps := (st_steps st)[i := (st_steps st ! i)\<lparr>sg_status := s\<rparr>]\<rparr>"

text \<open>The inner loop \<open>for (j = i - 1; j >= 0; j--)\<close>: the first argument is \<open>j + 1\<close>.\<close>

fun saga_compensate_loop ::
  "nat \<Rightarrow> 'p option list option \<Rightarrow> ('p, 'w) SagaTransaction \<Rightarrow> 'w \<Rightarrow> ('p, 'w) SagaTransaction \<times> 'w" where
  "saga_compensate_loop 0 cs st w = (st, w)"
| "saga_compensate_loop (Suc j) cs st w =
     (let w1 = run_ptr (sg_compensate (st_steps st ! j)) (ctx_at cs j) w
      in saga_compensate_loop j cs (saga_set_status st j SAGA_STEP_PENDING) w1)"

lemma saga_set_status_length [simp]: "length (st_steps (saga_set_status st i s)) = length (st_steps st)"
  by (simp add: saga_set_status_def)

text \<open>The outer loop of \<open>saga_execute\<close> from step \<open>i\<close> on, with the assignments that follow it.\<close>

function saga_loop ::
  "'p option list option \<Rightarrow> ('p, 'w) SagaTransaction \<Rightarrow> 'w \<Rightarrow> nat \<Rightarrow> ('p, 'w) SagaTransaction \<times> 'w \<times> bool" where
  "saga_loop cs st w i =
     (if i < length (st_steps st) then
        let st1 = saga_set_status (st\<lparr>st_current_step := i\<rparr>) i SAGA_STEP_RUNNING in
        (case call_ptr (sg_action (st_steps st1 ! i)) (ctx_at cs i) w of (ok, w1) \<Rightarrow>
           if \<not> ok then
             (case saga_compensate_loop i cs
                 ((saga_set_status st1 i SAGA_STEP_FAILED)\<lparr>st_status := SAGA_TXN_COMPENSATING\<rparr>) w1 of
                (st2, w2) \<Rightarrow> (st2\<lparr>st_status := SAGA_TXN_COMPENSATED\<rparr>, w2, False))
           else saga_loop cs (saga_set_status st1 i SAGA_STEP_SUCCEEDED) w1 (Suc i))
      else (st\<lparr>st_status := SAGA_TXN_COMPLETED\<rparr>, w, True))"
  by pat_completeness auto
termination
  by (relation "measure (\<lambda>(cs, st, w, i). length (st_steps st) - i)") auto

declare saga_loop.simps [simp del]

definition saga_execute ::
  "('p, 'w) SagaTransaction \<Rightarrow> 'p option list option \<Rightarrow> 'w \<Rightarrow> ('p, 'w) SagaTransaction \<times> 'w \<times> bool" where
  "saga_execute st cs w =
     (if length (st_steps st) = 0 then (st, w, False)
      else saga_loop cs (st\<lparr>st_status := SAGA_TXN_RUNNING, st_current_step := 0\<rparr>) w 0)"

definition saga_pend_all :: "('p, 'w) SagaTransaction \<Rightarrow> ('p, 'w) SagaTransaction" where
  "saga_pend_all st = st\<lparr>st_steps := map (\<lambda>s. s\<lparr>sg_status := SAGA_STEP_PENDING\<rparr>) (st_steps st)\<rparr>"

definition saga_retry ::
  "('p, 'w) SagaTransaction \<Rightarrow> 'p option list option \<Rightarrow> 'w \<Rightarrow> ('p, 'w) SagaTransaction \<times> 'w \<times> bool" where
  "saga_retry st cs w =
     (if st_status st \<noteq> SAGA_TXN_COMPENSATED \<and> st_status st \<noteq> SAGA_TXN_FAILED then (st, w, False)
      else saga_execute (saga_pend_all st) cs w)"

definition saga_count_succeeded :: "('p, 'w) SagaTransaction \<Rightarrow> nat" where
  "saga_count_succeeded st = count_if (\<lambda>s. sg_status s = SAGA_STEP_SUCCEEDED) (st_steps st)"

definition saga_count_failed :: "('p, 'w) SagaTransaction \<Rightarrow> nat" where
  "saga_count_failed st = count_if (\<lambda>s. sg_status s = SAGA_STEP_FAILED) (st_steps st)"

definition saga_reset_steps :: "('p, 'w) SagaTransaction \<Rightarrow> ('p, 'w) SagaTransaction" where
  "saga_reset_steps st = (saga_pend_all st)\<lparr>st_current_step := 0, st_status := SAGA_TXN_CREATED\<rparr>"

definition saga_is_compensated :: "('p, 'w) SagaTransaction \<Rightarrow> bool" where
  "saga_is_compensated st \<longleftrightarrow> st_status st = SAGA_TXN_COMPENSATED"

definition saga_is_completed :: "('p, 'w) SagaTransaction \<Rightarrow> bool" where
  "saga_is_completed st \<longleftrightarrow> st_status st = SAGA_TXN_COMPLETED"

definition saga_get_step_index :: "('p, 'w) SagaTransaction \<Rightarrow> int \<Rightarrow> int" where
  "saga_get_step_index st step_id =
     (case find_index (\<lambda>s. sg_id s = step_id) (st_steps st) of Some i \<Rightarrow> int i | None \<Rightarrow> -1)"

section \<open>Abstract specification\<close>

text \<open>
  A saga as nested scopes: run the first action; if it succeeds, run the rest of the saga, and if the
  rest fails run the first action's compensation on the way out.
\<close>

fun saga_spec :: "(('w \<Rightarrow> bool \<times> 'w) \<times> ('w \<Rightarrow> 'w)) list \<Rightarrow> 'w \<Rightarrow> bool \<times> 'w" where
  "saga_spec [] w = (True, w)"
| "saga_spec ((act, cmp) # rest) w =
     (case act w of (ok, w1) \<Rightarrow>
        if \<not> ok then (False, w1)
        else (case saga_spec rest w1 of (ok2, w2) \<Rightarrow> if ok2 then (True, w2) else (False, cmp w2)))"

definition saga_ops ::
  "'p option list option \<Rightarrow> ('p, 'w) SagaTransaction \<Rightarrow> (('w \<Rightarrow> bool \<times> 'w) \<times> ('w \<Rightarrow> 'w)) list" where
  "saga_ops cs st =
     map (\<lambda>i. (call_ptr (sg_action (st_steps st ! i)) (ctx_at cs i),
               run_ptr (sg_compensate (st_steps st ! i)) (ctx_at cs i))) [0..<length (st_steps st)]"

lemma length_saga_ops [simp]: "length (saga_ops cs st) = length (st_steps st)"
  by (simp add: saga_ops_def)

lemma saga_ops_nth [simp]:
  "i < length (st_steps st) \<Longrightarrow> saga_ops cs st ! i =
     (call_ptr (sg_action (st_steps st ! i)) (ctx_at cs i),
      run_ptr (sg_compensate (st_steps st ! i)) (ctx_at cs i))"
  by (simp add: saga_ops_def)

lemma saga_set_status_nth:
  "i < length (st_steps st) \<Longrightarrow> st_steps (saga_set_status st i s) ! j =
     (if i = j then (st_steps st ! j)\<lparr>sg_status := s\<rparr> else st_steps st ! j)"
  by (simp add: saga_set_status_def)

lemma saga_ops_set_status [simp]:
  "i < length (st_steps st) \<Longrightarrow> saga_ops cs (saga_set_status st i s) = saga_ops cs st"
  by (simp add: saga_ops_def saga_set_status_nth)

lemma saga_ops_frame [simp]:
  "saga_ops cs (st\<lparr>st_status := a\<rparr>) = saga_ops cs st"
  "saga_ops cs (st\<lparr>st_current_step := n\<rparr>) = saga_ops cs st"
  by (simp_all add: saga_ops_def)

lemma saga_set_status_frame [simp]:
  "st_status (saga_set_status st i s) = st_status st"
  "st_current_step (saga_set_status st i s) = st_current_step st"
  "st_txn_id (saga_set_status st i s) = st_txn_id st"
  by (simp_all add: saga_set_status_def)

subsection \<open>The compensation loop\<close>

lemma saga_compensate_loop_world:
  "j \<le> length (st_steps st) \<Longrightarrow>
   snd (saga_compensate_loop j cs st w) = fold snd (rev (take j (saga_ops cs st))) w"
proof (induction j arbitrary: st w)
  case 0
  then show ?case by simp
next
  case (Suc j)
  then have j: "j < length (st_steps st)" by simp
  have "take (Suc j) (saga_ops cs st) = take j (saga_ops cs st) @ [saga_ops cs st ! j]"
    using j by (simp add: take_Suc_conv_app_nth)
  with Suc.IH [of "saga_set_status st j SAGA_STEP_PENDING"] j show ?case by (simp add: Let_def)
qed

lemma saga_compensate_loop_frame:
  "j \<le> length (st_steps st) \<Longrightarrow>
   length (st_steps (fst (saga_compensate_loop j cs st w))) = length (st_steps st) \<and>
   st_current_step (fst (saga_compensate_loop j cs st w)) = st_current_step st"
  by (induction j arbitrary: st w) (auto simp: Let_def)

lemma saga_compensate_loop_status:
  "j \<le> length (st_steps st) \<Longrightarrow>
   st_steps (fst (saga_compensate_loop j cs st w)) ! k =
     (if k < j then (st_steps st ! k)\<lparr>sg_status := SAGA_STEP_PENDING\<rparr> else st_steps st ! k)"
proof (induction j arbitrary: st w)
  case 0
  then show ?case by simp
next
  case (Suc j)
  then show ?case by (auto simp: Let_def saga_set_status_nth)
qed

subsection \<open>The main loop\<close>

lemma saga_loop_done:
  "\<not> i < length (st_steps st) \<Longrightarrow> saga_loop cs st w i = (st\<lparr>st_status := SAGA_TXN_COMPLETED\<rparr>, w, True)"
  by (simp add: saga_loop.simps)

lemma saga_loop_step:
  assumes "i < length (st_steps st)"
    and "call_ptr (sg_action (st_steps st ! i)) (ctx_at cs i) w = (ok, w1)"
  obtains st1 where "length (st_steps st1) = length (st_steps st)"
    and "\<And>s k. st_steps (saga_set_status st1 i s) ! k =
           (if k = i then (st_steps st ! i)\<lparr>sg_status := s\<rparr> else st_steps st ! k)"
    and "\<And>s. saga_ops cs (saga_set_status st1 i s) = saga_ops cs st"
    and "st_current_step st1 = i"
    and "saga_loop cs st w i =
      (if \<not> ok then
         (case saga_compensate_loop i cs
             ((saga_set_status st1 i SAGA_STEP_FAILED)\<lparr>st_status := SAGA_TXN_COMPENSATING\<rparr>) w1 of
            (st2, w2) \<Rightarrow> (st2\<lparr>st_status := SAGA_TXN_COMPENSATED\<rparr>, w2, False))
       else saga_loop cs (saga_set_status st1 i SAGA_STEP_SUCCEEDED) w1 (Suc i))"
proof -
  let ?st1 = "saga_set_status (st\<lparr>st_current_step := i\<rparr>) i SAGA_STEP_RUNNING"
  have "sg_action (st_steps ?st1 ! i) = sg_action (st_steps st ! i)"
    using assms(1) by (simp add: saga_set_status_nth)
  with assms have "saga_loop cs st w i =
      (if \<not> ok then
         (case saga_compensate_loop i cs
             ((saga_set_status ?st1 i SAGA_STEP_FAILED)\<lparr>st_status := SAGA_TXN_COMPENSATING\<rparr>) w1 of
            (st2, w2) \<Rightarrow> (st2\<lparr>st_status := SAGA_TXN_COMPENSATED\<rparr>, w2, False))
       else saga_loop cs (saga_set_status ?st1 i SAGA_STEP_SUCCEEDED) w1 (Suc i))"
    by (simp add: saga_loop.simps [of cs st w i])
  with assms(1) show ?thesis by (intro that [of ?st1]) (simp_all add: saga_set_status_nth)
qed

lemma saga_loop_refines:
  "i \<le> length (st_steps st) \<Longrightarrow>
   snd (saga_loop cs st w i) =
     (case saga_spec (drop i (saga_ops cs st)) w of (ok, w') \<Rightarrow>
        (if ok then w' else fold snd (rev (take i (saga_ops cs st))) w', ok))"
proof (induction "length (st_steps st) - i" arbitrary: st w i)
  case 0
  then show ?case by (simp add: saga_loop_done)
next
  case (Suc n)
  then have i: "i < length (st_steps st)" by simp
  obtain ok w1 where call: "call_ptr (sg_action (st_steps st ! i)) (ctx_at cs i) w = (ok, w1)"
    by fastforce
  obtain st1 where len: "length (st_steps st1) = length (st_steps st)"
    and ops: "\<And>s. saga_ops cs (saga_set_status st1 i s) = saga_ops cs st"
    and eq: "saga_loop cs st w i =
      (if \<not> ok then
         (case saga_compensate_loop i cs
             ((saga_set_status st1 i SAGA_STEP_FAILED)\<lparr>st_status := SAGA_TXN_COMPENSATING\<rparr>) w1 of
            (st2, w2) \<Rightarrow> (st2\<lparr>st_status := SAGA_TXN_COMPENSATED\<rparr>, w2, False))
       else saga_loop cs (saga_set_status st1 i SAGA_STEP_SUCCEEDED) w1 (Suc i))"
    using saga_loop_step [OF i call] by metis
  have dr: "drop i (saga_ops cs st) = saga_ops cs st ! i # drop (Suc i) (saga_ops cs st)"
    by (rule Cons_nth_drop_Suc [symmetric]) (simp add: i)
  have tk: "take (Suc i) (saga_ops cs st) = take i (saga_ops cs st) @ [saga_ops cs st ! i]"
    using i by (simp add: take_Suc_conv_app_nth)
  show ?case
  proof (cases ok)
    case False
    let ?st2 = "(saga_set_status st1 i SAGA_STEP_FAILED)\<lparr>st_status := SAGA_TXN_COMPENSATING\<rparr>"
    have "snd (saga_compensate_loop i cs ?st2 w1) = fold snd (rev (take i (saga_ops cs st))) w1"
      using i len ops by (subst saga_compensate_loop_world) simp_all
    then show ?thesis using False i call by (auto simp: eq dr split: prod.splits)
  next
    case True
    have "snd (saga_loop cs (saga_set_status st1 i SAGA_STEP_SUCCEEDED) w1 (Suc i)) =
      (case saga_spec (drop (Suc i) (saga_ops cs st)) w1 of (ok, w') \<Rightarrow>
         (if ok then w' else fold snd (rev (take (Suc i) (saga_ops cs st))) w', ok))"
      using Suc.hyps(1) [of "saga_set_status st1 i SAGA_STEP_SUCCEEDED" "Suc i" w1]
        Suc.hyps(2) i len unfolding ops by simp
    then show ?thesis using True i call by (simp add: eq dr tk split: prod.splits)
  qed
qed

text \<open>The step statuses a run of the loop leaves behind, on both exits.\<close>

definition saga_outcome ::
  "nat \<Rightarrow> ('p, 'w) SagaTransaction \<Rightarrow> ('p, 'w) SagaTransaction \<Rightarrow> bool \<Rightarrow> bool" where
  "saga_outcome i st st' ok \<longleftrightarrow>
     length (st_steps st') = length (st_steps st) \<and>
     (if ok then st_status st' = SAGA_TXN_COMPLETED \<and>
         (\<forall>j < length (st_steps st). st_steps st' ! j =
            (if i \<le> j then (st_steps st ! j)\<lparr>sg_status := SAGA_STEP_SUCCEEDED\<rparr> else st_steps st ! j))
      else st_status st' = SAGA_TXN_COMPENSATED \<and> i \<le> st_current_step st' \<and>
         st_current_step st' < length (st_steps st) \<and>
         (\<forall>j < length (st_steps st). st_steps st' ! j =
            (if j < st_current_step st' then (st_steps st ! j)\<lparr>sg_status := SAGA_STEP_PENDING\<rparr>
             else if j = st_current_step st' then (st_steps st ! j)\<lparr>sg_status := SAGA_STEP_FAILED\<rparr>
             else st_steps st ! j)))"

lemma saga_loop_outcome:
  "saga_loop cs st w i = (st', w', ok) \<Longrightarrow> i \<le> length (st_steps st) \<Longrightarrow> saga_outcome i st st' ok"
proof (induction "length (st_steps st) - i" arbitrary: st w i)
  case 0
  then show ?case by (auto simp: saga_loop_done saga_outcome_def)
next
  case (Suc n)
  then have i: "i < length (st_steps st)" by simp
  obtain ok1 w1 where call: "call_ptr (sg_action (st_steps st ! i)) (ctx_at cs i) w = (ok1, w1)"
    by fastforce
  obtain st1 where len: "length (st_steps st1) = length (st_steps st)"
    and nth: "\<And>s k. st_steps (saga_set_status st1 i s) ! k =
           (if k = i then (st_steps st ! i)\<lparr>sg_status := s\<rparr> else st_steps st ! k)"
    and cur: "st_current_step st1 = i"
    and eq: "saga_loop cs st w i =
      (if \<not> ok1 then
         (case saga_compensate_loop i cs
             ((saga_set_status st1 i SAGA_STEP_FAILED)\<lparr>st_status := SAGA_TXN_COMPENSATING\<rparr>) w1 of
            (st2, w2) \<Rightarrow> (st2\<lparr>st_status := SAGA_TXN_COMPENSATED\<rparr>, w2, False))
       else saga_loop cs (saga_set_status st1 i SAGA_STEP_SUCCEEDED) w1 (Suc i))"
    using saga_loop_step [OF i call] by metis
  show ?case
  proof (cases ok1)
    case True
    have "saga_outcome (Suc i) (saga_set_status st1 i SAGA_STEP_SUCCEEDED) st' ok"
      using Suc.hyps(1) [of "saga_set_status st1 i SAGA_STEP_SUCCEEDED" "Suc i" w1]
        Suc.hyps(2) Suc.prems(1) eq True len i by simp
    then show ?thesis using i len nth
      by (auto simp: saga_outcome_def Suc_le_eq order_le_less split: if_splits)
  next
    case False
    let ?st2 = "(saga_set_status st1 i SAGA_STEP_FAILED)\<lparr>st_status := SAGA_TXN_COMPENSATING\<rparr>"
    have "i \<le> length (st_steps ?st2)" using i len by simp
    note c = saga_compensate_loop_frame [OF this, of cs w1] saga_compensate_loop_status [OF this, of cs w1]
    from False eq Suc.prems(1) have
      "st' = (fst (saga_compensate_loop i cs ?st2 w1))\<lparr>st_status := SAGA_TXN_COMPENSATED\<rparr>" "ok = False"
      by (auto split: prod.splits)
    then show ?thesis using c i len nth cur by (auto simp: saga_outcome_def)
  qed
qed

section \<open>Properties\<close>

lemma saga_execute_refines:
  "st_steps st \<noteq> [] \<Longrightarrow>
   snd (saga_execute st cs w) = (case saga_spec (saga_ops cs st) w of (ok, w') \<Rightarrow> (w', ok))"
proof -
  assume ne: "st_steps st \<noteq> []"
  let ?st = "st\<lparr>st_status := SAGA_TXN_RUNNING, st_current_step := 0\<rparr>"
  have ops: "saga_ops cs ?st = saga_ops cs st" by (simp add: saga_ops_def)
  show ?thesis
    using saga_loop_refines [of 0 ?st cs w] ne ops
    by (simp add: saga_execute_def split: prod.splits)
qed

text \<open>
  C22. The saga loop refines nested scopes: on a saga with at least one step, \<open>saga_execute\<close> returns the
  result and leaves the world that the recursive specification gives, in which every step that
  succeeded before the failing one is compensated, innermost (latest) first, and nothing else is.
\<close>

theorem saga_execute_nested:
  assumes "st_steps st \<noteq> []"
  shows "(snd (snd (saga_execute st cs w)), fst (snd (saga_execute st cs w))) = saga_spec (saga_ops cs st) w"
  using saga_execute_refines [OF assms, of cs w] by (simp split: prod.splits)

definition saga_incr :: "(unit, int) callback" where
  "saga_incr = Some (\<lambda>_ w. (True, w + 1))"

definition saga_decr :: "(unit, int) callback" where
  "saga_decr = Some (\<lambda>_ w. (True, w - 1))"

definition saga_refuse :: "(unit, int) callback" where
  "saga_refuse = Some (\<lambda>_ w. (False, w))"

definition saga_demo :: "(unit, int) SagaTransaction" where
  "saga_demo =
     saga_transaction_add_step
       (saga_transaction_add_step (saga_transaction_init 102) (saga_step_init 1 ''S1'' saga_incr saga_decr))
       (saga_step_init 2 ''S2'' saga_refuse saga_decr)"

lemma saga_demo_steps:
  "st_steps saga_demo = [saga_step_init 1 ''S1'' saga_incr saga_decr, saga_step_init 2 ''S2'' saga_refuse saga_decr]"
  by (simp add: saga_demo_def saga_transaction_init_def saga_transaction_add_step_def SAGA_MAX_STEPS_def)

lemma saga_demo_ops:
  "saga_ops None saga_demo = [(\<lambda>w. (True, w + 1), \<lambda>w. w - 1), (\<lambda>w. (False, w), \<lambda>w. w - 1)]"
  by (simp add: saga_ops_def saga_demo_steps saga_step_init_def call_ptr_def run_ptr_def fun_eq_iff
      saga_incr_def saga_decr_def saga_refuse_def ctx_at_def upt_rec)

theorem saga_execute_nested_witness:
  "st_steps saga_demo \<noteq> [] \<and> snd (snd (saga_execute saga_demo None 5)) = False"
  using saga_execute_nested [of saga_demo None 5]
  by (simp add: saga_demo_ops) (simp add: saga_demo_steps)

lemma saga_triple: "x = (fst x, fst (snd x), snd (snd x))"
  by simp

text \<open>
  The statuses a saga run leaves: on success the saga is completed and every step is marked
  succeeded; on failure it is compensated, the step at \<open>current_step\<close> is the one marked failed, every
  earlier step has been put back to pending, and every later step has not been touched.
\<close>

theorem saga_execute_statuses:
  assumes "st_steps st \<noteq> []" and "saga_execute st cs w = (st', w', ok)"
  shows "if ok then saga_is_completed st' \<and> saga_count_succeeded st' = length (st_steps st)
    else saga_is_compensated st' \<and> st_current_step st' < length (st_steps st) \<and>
      (\<forall>j < length (st_steps st).
         (j < st_current_step st' \<longrightarrow> sg_status (st_steps st' ! j) = SAGA_STEP_PENDING) \<and>
         (j = st_current_step st' \<longrightarrow> sg_status (st_steps st' ! j) = SAGA_STEP_FAILED) \<and>
         (st_current_step st' < j \<longrightarrow> st_steps st' ! j = st_steps st ! j))"
proof -
  have "saga_outcome 0 (st\<lparr>st_status := SAGA_TXN_RUNNING, st_current_step := 0\<rparr>) st' ok"
    using assms by (intro saga_loop_outcome [of cs _ w]) (auto simp: saga_execute_def)
  then have o: "saga_outcome 0 st st' ok" by (cases ok) (simp_all add: saga_outcome_def)
  have "saga_count_succeeded st' = length (st_steps st)" if ok
  proof -
    have "\<forall>s \<in> set (st_steps st'). sg_status s = SAGA_STEP_SUCCEEDED"
      using o that by (auto simp: saga_outcome_def in_set_conv_nth)
    then have "saga_count_succeeded st' = length (st_steps st')"
      by (simp add: saga_count_succeeded_def table_simps)
    with o show ?thesis by (simp add: saga_outcome_def)
  qed
  with o show ?thesis
    by (auto simp: saga_outcome_def saga_is_completed_def saga_is_compensated_def)
qed

theorem saga_execute_statuses_witness:
  "saga_is_compensated (fst (saga_execute saga_demo None 5)) \<and>
   st_current_step (fst (saga_execute saga_demo None 5)) < 2"
proof -
  have ne: "st_steps saga_demo \<noteq> []" by (simp add: saga_demo_steps)
  have f: "snd (snd (saga_execute saga_demo None 5)) = False"
    using saga_execute_refines [OF ne, of None 5] by (simp add: saga_demo_ops)
  show ?thesis
    using saga_execute_statuses [OF ne, of None 5, OF saga_triple] by (simp add: f saga_demo_steps)
qed

lemma saga_spec_restores:
  assumes "\<And>act cmp. (act, cmp) \<in> set ops \<Longrightarrow> undone_by act cmp"
    and "saga_spec ops w = (False, w')"
  shows "w' = w"
  using assms
proof (induction ops arbitrary: w w')
  case Nil
  then show ?case by simp
next
  case (Cons op ops)
  obtain act cmp where op: "op = (act, cmp)" by (cases op)
  obtain ok w1 where act: "act w = (ok, w1)" by (cases "act w")
  have law: "if ok then cmp w1 = w else w1 = w"
    using undone_byD [of act cmp, OF Cons.prems(1)] op act by auto
  show ?case
  proof (cases ok)
    case False
    with Cons.prems(2) op act law show ?thesis by simp
  next
    case True
    then obtain w2 where w2: "saga_spec ops w1 = (False, w2)" "w' = cmp w2"
      using Cons.prems(2) op act by (auto split: prod.splits if_splits)
    have "w2 = w1" by (rule Cons.IH [OF _ w2(1)]) (use Cons.prems(1) in auto)
    with True law w2(2) show ?thesis by simp
  qed
qed

text \<open>
  C11. Backward recovery: if every action that reports failure leaves the world unchanged and every
  compensation undoes its own action, then a saga that returns false leaves the world exactly as it
  found it.
\<close>

theorem saga_backward_recovery:
  assumes "\<And>act cmp. (act, cmp) \<in> set (saga_ops cs st) \<Longrightarrow> undone_by act cmp"
    and "saga_execute st cs w = (st', w', False)"
  shows "w' = w"
proof (cases "st_steps st = []")
  case True
  with assms(2) show ?thesis by (simp add: saga_execute_def)
next
  case False
  have "saga_spec (saga_ops cs st) w = (False, w')"
    using saga_execute_refines [OF False, of cs w] assms(2) by (auto split: prod.splits)
  with assms(1) show ?thesis by (rule saga_spec_restores)
qed

theorem saga_backward_recovery_witness: "fst (snd (saga_execute saga_demo None 5)) = 5"
proof -
  have "st_steps saga_demo \<noteq> []" by (simp add: saga_demo_steps)
  then have "snd (snd (saga_execute saga_demo None 5)) = False"
    using saga_execute_refines [of saga_demo None 5] by (simp add: saga_demo_ops)
  with saga_triple [of "saga_execute saga_demo None 5"] have "saga_execute saga_demo None 5 =
      (fst (saga_execute saga_demo None 5), fst (snd (saga_execute saga_demo None 5)), False)"
    by simp
  then show ?thesis
    by (rule saga_backward_recovery [rotated]) (auto simp: saga_demo_ops undone_by_def)
qed

text \<open>A compensated saga can be retried, and the retry runs the same actions from the start.\<close>

lemma saga_ops_pend_all [simp]: "saga_ops cs (saga_pend_all st) = saga_ops cs st"
  by (simp add: saga_ops_def saga_pend_all_def)

lemma saga_retry_refines:
  assumes "saga_is_compensated st" and "st_steps st \<noteq> []"
  shows "snd (saga_retry st cs w) = snd (saga_execute st cs w)"
proof -
  have "st_steps (saga_pend_all st) \<noteq> []" using assms(2) by (simp add: saga_pend_all_def)
  then have "snd (saga_execute (saga_pend_all st) cs w) = snd (saga_execute st cs w)"
    by (simp add: saga_execute_refines assms(2))
  then show ?thesis using assms(1) by (simp add: saga_retry_def saga_is_compensated_def)
qed

end
