(* ===== verification/Tcc.thy ===== *)
theory Tcc
  imports Net_Prelude
begin

text \<open>
  Try-Confirm-Cancel (\<open>mini-dist-transaction/src/tcc.c\<close>, \<open>include/tcc.h\<close>). The resources' three
  callbacks are parameters of the model, as in the saga theory.
\<close>

section \<open>Data\<close>

definition TCC_MAX_RESOURCES :: nat where "TCC_MAX_RESOURCES = 4"

datatype TCCPhase = TCC_PHASE_TRY | TCC_PHASE_CONFIRM | TCC_PHASE_CANCEL

datatype TCCResState =
  TCC_RES_IDLE | TCC_RES_RESERVED | TCC_RES_CONFIRMED | TCC_RES_CANCELLED | TCC_RES_FAILED

datatype TCCTxnStatus =
  TCC_TXN_CREATED | TCC_TXN_TRYING | TCC_TXN_CONFIRMING | TCC_TXN_CANCELLING | TCC_TXN_CONFIRMED
  | TCC_TXN_CANCELLED

record ('p, 'w) TCCResource =
  r_id :: int
  r_try_fn :: "('p, 'w) callback"
  r_confirm_fn :: "('p, 'w) callback"
  r_cancel_fn :: "('p, 'w) callback"
  r_state :: TCCResState
  r_name :: string

record ('p, 'w) TCCTransaction =
  t_resources :: "('p, 'w) TCCResource list"
  t_phase :: TCCPhase
  t_status :: TCCTxnStatus
  t_tried_count :: nat
  t_txn_name :: string

fun tcc_res_state_str :: "TCCResState \<Rightarrow> string" where
  "tcc_res_state_str TCC_RES_IDLE = ''IDLE''"
| "tcc_res_state_str TCC_RES_RESERVED = ''RESERVED''"
| "tcc_res_state_str TCC_RES_CONFIRMED = ''CONFIRMED''"
| "tcc_res_state_str TCC_RES_CANCELLED = ''CANCELLED''"
| "tcc_res_state_str TCC_RES_FAILED = ''FAILED''"

fun tcc_txn_status_str :: "TCCTxnStatus \<Rightarrow> string" where
  "tcc_txn_status_str TCC_TXN_CREATED = ''CREATED''"
| "tcc_txn_status_str TCC_TXN_TRYING = ''TRYING''"
| "tcc_txn_status_str TCC_TXN_CONFIRMING = ''CONFIRMING''"
| "tcc_txn_status_str TCC_TXN_CANCELLING = ''CANCELLING''"
| "tcc_txn_status_str TCC_TXN_CONFIRMED = ''CONFIRMED''"
| "tcc_txn_status_str TCC_TXN_CANCELLED = ''CANCELLED''"

fun tcc_phase_str :: "TCCPhase \<Rightarrow> string" where
  "tcc_phase_str TCC_PHASE_TRY = ''TRY''"
| "tcc_phase_str TCC_PHASE_CONFIRM = ''CONFIRM''"
| "tcc_phase_str TCC_PHASE_CANCEL = ''CANCEL''"

section \<open>Operations\<close>

definition tcc_resource_init ::
  "int \<Rightarrow> string \<Rightarrow> ('p, 'w) callback \<Rightarrow> ('p, 'w) callback \<Rightarrow> ('p, 'w) callback \<Rightarrow> ('p, 'w) TCCResource" where
  "tcc_resource_init i name try_fn confirm_fn cancel_fn =
     \<lparr>r_id = i, r_try_fn = try_fn, r_confirm_fn = confirm_fn, r_cancel_fn = cancel_fn,
      r_state = TCC_RES_IDLE, r_name = strncpy_z 32 name\<rparr>"

definition tcc_transaction_init :: "string \<Rightarrow> ('p, 'w) TCCTransaction" where
  "tcc_transaction_init name =
     \<lparr>t_resources = [], t_phase = TCC_PHASE_TRY, t_status = TCC_TXN_CREATED, t_tried_count = 0,
      t_txn_name = strncpy_z 64 name\<rparr>"

definition tcc_transaction_add_resource ::
  "('p, 'w) TCCTransaction \<Rightarrow> ('p, 'w) TCCResource \<Rightarrow> ('p, 'w) TCCTransaction" where
  "tcc_transaction_add_resource t r =
     (if length (t_resources t) \<ge> TCC_MAX_RESOURCES then t
      else t\<lparr>t_resources := t_resources t @ [r]\<rparr>)"

text \<open>
  The loop of \<open>tcc_try_all\<close> from slot \<open>i\<close> on: the slots, the number of successful tries, the world and
  whether the loop ran to its end (it stops at the first failed try).
\<close>

fun tcc_try_loop ::
  "'p option list option \<Rightarrow> nat \<Rightarrow> ('p, 'w) TCCResource list \<Rightarrow> 'w \<Rightarrow>
   ('p, 'w) TCCResource list \<times> nat \<times> 'w \<times> bool" where
  "tcc_try_loop cs i [] w = ([], 0, w, True)"
| "tcc_try_loop cs i (r # rs) w =
     (case call_ptr (r_try_fn r) (ctx_at cs i) w of (ok, w1) \<Rightarrow>
        if \<not> ok then (r\<lparr>r_state := TCC_RES_FAILED\<rparr> # rs, 0, w1, False)
        else (case tcc_try_loop cs (Suc i) rs w1 of (rs', n, w2, done_all) \<Rightarrow>
                (r\<lparr>r_state := TCC_RES_RESERVED\<rparr> # rs', Suc n, w2, done_all)))"

definition tcc_try_all ::
  "('p, 'w) TCCTransaction \<Rightarrow> 'p option list option \<Rightarrow> 'w \<Rightarrow> ('p, 'w) TCCTransaction \<times> 'w \<times> bool" where
  "tcc_try_all t cs w =
     (case tcc_try_loop cs 0 (t_resources t) w of (rs, n, w', done_all) \<Rightarrow>
        (t\<lparr>t_phase := TCC_PHASE_TRY, t_status := TCC_TXN_TRYING, t_tried_count := n, t_resources := rs\<rparr>, w',
         done_all \<and> n = length (t_resources t) \<and> length (t_resources t) > 0))"

text \<open>The loop of \<open>tcc_cancel_all\<close>; the second argument is the number of slots still to visit.\<close>

fun tcc_cancel_loop ::
  "'p option list option \<Rightarrow> nat \<Rightarrow> nat \<Rightarrow> ('p, 'w) TCCResource list \<Rightarrow> 'w \<Rightarrow> ('p, 'w) TCCResource list \<times> 'w" where
  "tcc_cancel_loop cs i 0 rs w = (rs, w)"
| "tcc_cancel_loop cs i (Suc n) [] w = ([], w)"
| "tcc_cancel_loop cs i (Suc n) (r # rs) w =
     (if r_state r = TCC_RES_CONFIRMED \<or> r_state r = TCC_RES_IDLE then
        (case tcc_cancel_loop cs (Suc i) n rs w of (rs', w') \<Rightarrow> (r # rs', w'))
      else
        (case tcc_cancel_loop cs (Suc i) n rs (run_ptr (r_cancel_fn r) (ctx_at cs i) w) of (rs', w') \<Rightarrow>
           (r\<lparr>r_state := TCC_RES_CANCELLED\<rparr> # rs', w')))"

definition tcc_cancel_all ::
  "('p, 'w) TCCTransaction \<Rightarrow> 'p option list option \<Rightarrow> 'w \<Rightarrow> ('p, 'w) TCCTransaction \<times> 'w \<times> bool" where
  "tcc_cancel_all t cs w =
     (case tcc_cancel_loop cs 0 (t_tried_count t) (t_resources t) w of (rs, w') \<Rightarrow>
        (t\<lparr>t_phase := TCC_PHASE_CANCEL, t_resources := rs, t_status := TCC_TXN_CANCELLED\<rparr>, w', True))"

text \<open>The loop of \<open>tcc_confirm_all\<close>; it stops at the first slot that is not reserved.\<close>

fun tcc_confirm_loop ::
  "'p option list option \<Rightarrow> nat \<Rightarrow> ('p, 'w) TCCResource list \<Rightarrow> 'w \<Rightarrow> ('p, 'w) TCCResource list \<times> 'w \<times> bool" where
  "tcc_confirm_loop cs i [] w = ([], w, True)"
| "tcc_confirm_loop cs i (r # rs) w =
     (if r_state r \<noteq> TCC_RES_RESERVED then (r # rs, w, False)
      else
        (case tcc_confirm_loop cs (Suc i) rs (run_ptr (r_confirm_fn r) (ctx_at cs i) w) of (rs', w', ok) \<Rightarrow>
           (r\<lparr>r_state := TCC_RES_CONFIRMED\<rparr> # rs', w', ok)))"

definition tcc_confirm_all ::
  "('p, 'w) TCCTransaction \<Rightarrow> 'p option list option \<Rightarrow> 'w \<Rightarrow> ('p, 'w) TCCTransaction \<times> 'w \<times> bool" where
  "tcc_confirm_all t cs w =
     (if t_phase t \<noteq> TCC_PHASE_TRY then (t, w, False)
      else if t_tried_count t \<noteq> length (t_resources t) then (t, w, False)
      else
        (case tcc_confirm_loop cs 0 (t_resources t) w of (rs, w', ok) \<Rightarrow>
           let t1 = t\<lparr>t_phase := TCC_PHASE_CONFIRM, t_status := TCC_TXN_CONFIRMING, t_resources := rs\<rparr> in
           if ok then (t1\<lparr>t_status := TCC_TXN_CONFIRMED\<rparr>, w', True)
           else (case tcc_cancel_all t1 cs w' of (t2, w2, _) \<Rightarrow> (t2, w2, False))))"

definition tcc_execute ::
  "('p, 'w) TCCTransaction \<Rightarrow> 'p option list option \<Rightarrow> 'w \<Rightarrow> ('p, 'w) TCCTransaction \<times> 'w \<times> bool" where
  "tcc_execute t cs w =
     (case tcc_try_all t cs w of (t1, w1, ok) \<Rightarrow>
        if \<not> ok then (case tcc_cancel_all t1 cs w1 of (t2, w2, _) \<Rightarrow> (t2, w2, False))
        else tcc_confirm_all t1 cs w1)"

section \<open>The loops\<close>

lemma tcc_try_loop_spec:
  "tcc_try_loop cs i rs w = (rs', n, w', ok) \<Longrightarrow>
   n \<le> length rs \<and> (ok \<longleftrightarrow> n = length rs) \<and>
   rs' = map (\<lambda>r. r\<lparr>r_state := TCC_RES_RESERVED\<rparr>) (take n rs) @
         (case drop n rs of [] \<Rightarrow> [] | r # rest \<Rightarrow> r\<lparr>r_state := TCC_RES_FAILED\<rparr> # rest)"
proof (induction rs arbitrary: i w rs' n w' ok)
  case Nil
  then show ?case by simp
next
  case (Cons r rs)
  obtain ok1 w1 where call: "call_ptr (r_try_fn r) (ctx_at cs i) w = (ok1, w1)" by fastforce
  obtain rs2 m w2 ok2 where rest: "tcc_try_loop cs (Suc i) rs w1 = (rs2, m, w2, ok2)"
    by (cases "tcc_try_loop cs (Suc i) rs w1")
  show ?case using Cons.prems call rest Cons.IH [OF rest] by (auto split: if_splits)
qed

lemma tcc_cancel_loop_reserved:
  "list_all (\<lambda>r. r_state r = TCC_RES_RESERVED) (take n rs) \<Longrightarrow>
   fst (tcc_cancel_loop cs i n rs w) =
     map (\<lambda>r. r\<lparr>r_state := TCC_RES_CANCELLED\<rparr>) (take n rs) @ drop n rs"
  by (induction cs i n rs w rule: tcc_cancel_loop.induct) (auto split: prod.splits)

lemma tcc_confirm_loop_reserved:
  "list_all (\<lambda>r. r_state r = TCC_RES_RESERVED) rs \<Longrightarrow>
   tcc_confirm_loop cs i rs w = (rs', w', ok) \<Longrightarrow>
   ok \<and> rs' = map (\<lambda>r. r\<lparr>r_state := TCC_RES_CONFIRMED\<rparr>) rs"
  by (induction rs arbitrary: i w rs' w' ok) (fastforce split: prod.splits)+

text \<open>The two exits of \<open>tcc_execute\<close>, in terms of the number \<open>n\<close> of successful tries.\<close>

lemma tcc_execute_cases:
  assumes "tcc_execute t cs w = (t', w', ok)"
  obtains rs n w1 all where "tcc_try_loop cs 0 (t_resources t) w = (rs, n, w1, all)"
    and "ok \<longleftrightarrow> n = length (t_resources t) \<and> t_resources t \<noteq> []"
    and "ok \<Longrightarrow> t_status t' = TCC_TXN_CONFIRMED \<and>
      t_resources t' = map (\<lambda>r. r\<lparr>r_state := TCC_RES_CONFIRMED\<rparr>) (t_resources t)"
    and "\<not> ok \<Longrightarrow> t_status t' = TCC_TXN_CANCELLED \<and> w' = snd (tcc_cancel_loop cs 0 n rs w1) \<and>
      t_resources t' = map (\<lambda>r. r\<lparr>r_state := TCC_RES_CANCELLED\<rparr>) (take n (t_resources t)) @
        (case drop n (t_resources t) of [] \<Rightarrow> [] | r # rest \<Rightarrow> r\<lparr>r_state := TCC_RES_FAILED\<rparr> # rest)"
proof -
  obtain rs n w1 all where loop: "tcc_try_loop cs 0 (t_resources t) w = (rs, n, w1, all)"
    by (cases "tcc_try_loop cs 0 (t_resources t) w")
  note sp = tcc_try_loop_spec [OF loop]
  let ?rsv = "map (\<lambda>r. r\<lparr>r_state := TCC_RES_RESERVED\<rparr>) (take n (t_resources t))"
  have tk: "take n rs = ?rsv" and dr: "drop n rs =
      (case drop n (t_resources t) of [] \<Rightarrow> [] | r # rest \<Rightarrow> r\<lparr>r_state := TCC_RES_FAILED\<rparr> # rest)"
    using sp by auto
  have res: "list_all (\<lambda>r. r_state r = TCC_RES_RESERVED) (take n rs)" by (simp add: tk list_all_iff)
  have cancel: "fst (tcc_cancel_loop cs 0 n rs w1) =
      map (\<lambda>r. r\<lparr>r_state := TCC_RES_CANCELLED\<rparr>) (take n (t_resources t)) @ drop n rs"
    using tcc_cancel_loop_reserved [OF res] by (simp add: tk)
  have ok: "ok \<longleftrightarrow> n = length (t_resources t) \<and> t_resources t \<noteq> []" and
    yes: "ok \<Longrightarrow> t_status t' = TCC_TXN_CONFIRMED \<and>
      t_resources t' = map (\<lambda>r. r\<lparr>r_state := TCC_RES_CONFIRMED\<rparr>) (t_resources t)"
  proof -
    have full: "all \<Longrightarrow> list_all (\<lambda>r. r_state r = TCC_RES_RESERVED) rs \<and>
        rs = map (\<lambda>r. r\<lparr>r_state := TCC_RES_RESERVED\<rparr>) (t_resources t)"
      using sp by (simp add: list_all_iff)
    show "ok \<longleftrightarrow> n = length (t_resources t) \<and> t_resources t \<noteq> []"
      using assms loop sp full
      by (auto simp: tcc_execute_def tcc_try_all_def tcc_confirm_all_def Let_def
          dest: tcc_confirm_loop_reserved split: prod.splits if_splits)
    show "t_status t' = TCC_TXN_CONFIRMED \<and>
      t_resources t' = map (\<lambda>r. r\<lparr>r_state := TCC_RES_CONFIRMED\<rparr>) (t_resources t)" if ok
      using that assms loop sp full
      by (auto simp: tcc_execute_def tcc_try_all_def tcc_confirm_all_def Let_def
          dest: tcc_confirm_loop_reserved split: prod.splits if_splits)
  qed
  have "t_status t' = TCC_TXN_CANCELLED \<and> w' = snd (tcc_cancel_loop cs 0 n rs w1) \<and>
      t_resources t' = fst (tcc_cancel_loop cs 0 n rs w1)" if "\<not> ok"
    using that assms loop ok sp
    by (auto simp: tcc_execute_def tcc_try_all_def tcc_cancel_all_def split: prod.splits if_splits)
  with that [OF loop ok] yes cancel dr show ?thesis by simp
qed

section \<open>Cancelling undoes trying\<close>

definition tcc_cancels :: "'p option list option \<Rightarrow> nat \<Rightarrow> ('p, 'w) TCCResource list \<Rightarrow> ('w \<Rightarrow> 'w) list" where
  "tcc_cancels cs i rs = map (\<lambda>j. run_ptr (r_cancel_fn (rs ! j)) (ctx_at cs (i + j))) [0..<length rs]"

lemma tcc_cancels_Cons:
  "tcc_cancels cs i (r # rs) = run_ptr (r_cancel_fn r) (ctx_at cs i) # tcc_cancels cs (Suc i) rs"
  by (simp add: tcc_cancels_def upt_conv_Cons map_Suc_upt [symmetric] comp_def del: upt_Suc)

lemma tcc_cancels_alt:
  "tcc_cancels cs i rs =
     map (\<lambda>j. run_ptr (map r_cancel_fn rs ! j) (ctx_at cs (i + j))) [0..<length (map r_cancel_fn rs)]"
  by (simp add: tcc_cancels_def)

lemma tcc_cancels_cong:
  "map r_cancel_fn rs = map r_cancel_fn rs' \<Longrightarrow> tcc_cancels cs i rs = tcc_cancels cs i rs'"
  by (simp only: tcc_cancels_alt)

lemma tcc_cancel_loop_world:
  "list_all (\<lambda>r. r_state r = TCC_RES_RESERVED) (take n rs) \<Longrightarrow>
   snd (tcc_cancel_loop cs i n rs w) = fold (\<lambda>f. f) (take n (tcc_cancels cs i rs)) w"
proof (induction n arbitrary: i rs w)
  case 0
  then show ?case by simp
next
  case (Suc n)
  show ?case
  proof (cases rs)
    case Nil
    then show ?thesis by (simp add: tcc_cancels_def)
  next
    case (Cons r rest)
    with Suc.prems Suc.IH [of rest "Suc i"] show ?thesis
      by (auto simp: tcc_cancels_Cons simp flip: Suc.IH split: prod.splits)
  qed
qed

definition tcc_undoable :: "'p option list option \<Rightarrow> nat \<Rightarrow> ('p, 'w) TCCResource list \<Rightarrow> bool" where
  "tcc_undoable cs i rs \<longleftrightarrow> (\<forall>j < length rs.
     undone_by (call_ptr (r_try_fn (rs ! j)) (ctx_at cs (i + j))) (run_ptr (r_cancel_fn (rs ! j)) (ctx_at cs (i + j))))"

lemma tcc_undoable_Cons:
  "tcc_undoable cs i (r # rs) \<longleftrightarrow>
     undone_by (call_ptr (r_try_fn r) (ctx_at cs i)) (run_ptr (r_cancel_fn r) (ctx_at cs i)) \<and>
     tcc_undoable cs (Suc i) rs"
  by (simp add: tcc_undoable_def All_less_Suc2)

lemma tcc_try_loop_undo:
  "tcc_undoable cs i rs \<Longrightarrow> tcc_try_loop cs i rs w = (rs', n, w', ok) \<Longrightarrow>
   fold (\<lambda>f. f) (rev (take n (tcc_cancels cs i rs))) w' = w"
proof (induction rs arbitrary: i w rs' n w' ok)
  case Nil
  then show ?case by simp
next
  case (Cons r rs)
  obtain ok1 w1 where call: "call_ptr (r_try_fn r) (ctx_at cs i) w = (ok1, w1)" by fastforce
  have law: "if ok1 then run_ptr (r_cancel_fn r) (ctx_at cs i) w1 = w else w1 = w"
    using Cons.prems(1) call unfolding tcc_undoable_Cons by (blast dest: undone_byD)
  obtain rs2 m w2 ok2 where rest: "tcc_try_loop cs (Suc i) rs w1 = (rs2, m, w2, ok2)"
    by (cases "tcc_try_loop cs (Suc i) rs w1")
  have IH: "fold (\<lambda>f. f) (rev (take m (tcc_cancels cs (Suc i) rs))) w2 = w1"
    by (rule Cons.IH [OF _ rest]) (use Cons.prems(1) in \<open>simp add: tcc_undoable_Cons\<close>)
  show ?case
    using Cons.prems(2) call rest law IH by (cases ok1) (auto simp: tcc_cancels_Cons)
qed

section \<open>Properties\<close>

text \<open>
  TCC is all or nothing: started with every resource idle, \<open>tcc_execute\<close> either returns true, with
  the transaction confirmed and every one of its (at least one) resources confirmed, or returns false
  with the transaction cancelled: the resources tried before the failing one are cancelled, the failing
  one is marked failed and the later ones are still idle, so none stays reserved or confirmed.
\<close>

theorem tcc_execute_all_or_nothing:
  assumes "list_all (\<lambda>r. r_state r = TCC_RES_IDLE) (t_resources t)"
    and "tcc_execute t cs w = (t', w', ok)"
  shows "length (t_resources t') = length (t_resources t) \<and>
    (if ok then t_status t' = TCC_TXN_CONFIRMED \<and> t_resources t' \<noteq> [] \<and>
        list_all (\<lambda>r. r_state r = TCC_RES_CONFIRMED) (t_resources t')
     else t_status t' = TCC_TXN_CANCELLED \<and>
       (\<exists>k. list_all (\<lambda>r. r_state r = TCC_RES_CANCELLED) (take k (t_resources t')) \<and>
            (case drop k (t_resources t') of [] \<Rightarrow> t_resources t = []
             | r # rest \<Rightarrow> r_state r = TCC_RES_FAILED \<and> list_all (\<lambda>r. r_state r = TCC_RES_IDLE) rest)))"
proof -
  obtain rs n w1 all where loop: "tcc_try_loop cs 0 (t_resources t) w = (rs, n, w1, all)"
    and ok: "ok \<longleftrightarrow> n = length (t_resources t) \<and> t_resources t \<noteq> []"
    and yes: "ok \<Longrightarrow> t_status t' = TCC_TXN_CONFIRMED \<and>
      t_resources t' = map (\<lambda>r. r\<lparr>r_state := TCC_RES_CONFIRMED\<rparr>) (t_resources t)"
    and no: "\<not> ok \<Longrightarrow> t_status t' = TCC_TXN_CANCELLED \<and> w' = snd (tcc_cancel_loop cs 0 n rs w1) \<and>
      t_resources t' = map (\<lambda>r. r\<lparr>r_state := TCC_RES_CANCELLED\<rparr>) (take n (t_resources t)) @
        (case drop n (t_resources t) of [] \<Rightarrow> [] | r # rest \<Rightarrow> r\<lparr>r_state := TCC_RES_FAILED\<rparr> # rest)"
    by (rule tcc_execute_cases [OF assms(2)]) blast
  show ?thesis
  proof (cases ok)
    case True
    with yes ok show ?thesis by (auto simp: list_all_iff)
  next
    case False
    have n: "n \<le> length (t_resources t)" using tcc_try_loop_spec [OF loop] by simp
    have idle: "list_all (\<lambda>r. r_state r = TCC_RES_IDLE) (drop n (t_resources t))"
      using assms(1) by (auto simp: list_all_iff dest: in_set_dropD)
    show ?thesis
    proof (cases "drop n (t_resources t)")
      case Nil
      with n ok False no show ?thesis by (auto simp: list_all_iff intro!: exI [of _ n])
    next
      case (Cons r rest)
      have "length (t_resources t) = n + Suc (length rest)"
        using n Cons by (metis length_drop le_add_diff_inverse length_Cons)
      with Cons no False idle n show ?thesis
        by (auto simp: list_all_iff intro!: exI [of _ n])
    qed
  qed
qed

definition tcc_reserve :: "(nat, nat \<Rightarrow> int) callback" where
  "tcc_reserve = Some (\<lambda>p w. case p of None \<Rightarrow> (False, w) | Some a \<Rightarrow> (if w a \<le> 0 then (False, w) else (True, w(a := w a - 1))))"

definition tcc_giveback :: "(nat, nat \<Rightarrow> int) callback" where
  "tcc_giveback = Some (\<lambda>p w. case p of None \<Rightarrow> (False, w) | Some a \<Rightarrow> (True, w(a := w a + 1)))"

definition tcc_demo :: "(nat, nat \<Rightarrow> int) TCCTransaction" where
  "tcc_demo = tcc_transaction_add_resource
     (tcc_transaction_add_resource (tcc_transaction_init ''t2'') (tcc_resource_init 1 ''R1'' tcc_reserve None tcc_giveback))
     (tcc_resource_init 2 ''R2'' tcc_reserve None tcc_giveback)"

definition tcc_demo_ctx :: "nat option list option" where
  "tcc_demo_ctx = Some [Some 0, Some 1]"

definition tcc_demo_world :: "nat \<Rightarrow> int" where
  "tcc_demo_world = (\<lambda>_. 0)(0 := 5)"

lemma tcc_demo_resources:
  "t_resources tcc_demo = [tcc_resource_init 1 ''R1'' tcc_reserve None tcc_giveback,
     tcc_resource_init 2 ''R2'' tcc_reserve None tcc_giveback]"
  by (simp add: tcc_demo_def tcc_transaction_init_def tcc_transaction_add_resource_def TCC_MAX_RESOURCES_def)

lemma tcc_demo_fails: "snd (snd (tcc_execute tcc_demo tcc_demo_ctx tcc_demo_world)) = False"
  by (simp add: tcc_execute_def tcc_try_all_def tcc_cancel_all_def tcc_demo_resources tcc_resource_init_def
      call_ptr_def run_ptr_def tcc_reserve_def tcc_giveback_def tcc_demo_ctx_def tcc_demo_world_def ctx_at_def)

lemma tcc_triple: "snd (snd x) = b \<Longrightarrow> x = (fst x, fst (snd x), b)"
  by auto

theorem tcc_execute_all_or_nothing_witness:
  "t_status (fst (tcc_execute tcc_demo tcc_demo_ctx tcc_demo_world)) = TCC_TXN_CANCELLED"
  using tcc_execute_all_or_nothing [OF _ tcc_triple [OF tcc_demo_fails]]
  by (simp add: tcc_demo_resources tcc_resource_init_def)

text \<open>
  Cancelling releases what trying reserved: if a failed try changes nothing, each resource's cancel
  undoes its own try, and the cancels of different resources commute (they run in slot order, the same
  order as the tries), then a \<open>tcc_execute\<close> that returns false leaves the world as it found it.
\<close>

theorem tcc_cancel_restores:
  assumes "tcc_undoable cs 0 (t_resources t)"
    and "\<And>f g. f \<in> set (tcc_cancels cs 0 (t_resources t)) \<Longrightarrow> g \<in> set (tcc_cancels cs 0 (t_resources t)) \<Longrightarrow>
      f \<circ> g = g \<circ> f"
    and "tcc_execute t cs w = (t', w', False)"
  shows "w' = w"
proof -
  obtain rs n w1 all where loop: "tcc_try_loop cs 0 (t_resources t) w = (rs, n, w1, all)"
    and w': "w' = snd (tcc_cancel_loop cs 0 n rs w1)"
    by (rule tcc_execute_cases [OF assms(3)]) blast
  note sp = tcc_try_loop_spec [OF loop]
  have "list_all (\<lambda>r. r_state r = TCC_RES_RESERVED) (take n rs)" using sp by (simp add: list_all_iff)
  moreover have "tcc_cancels cs 0 rs = tcc_cancels cs 0 (t_resources t)"
  proof (rule tcc_cancels_cong)
    have "map r_cancel_fn rs = map r_cancel_fn (take n (t_resources t)) @ map r_cancel_fn (drop n (t_resources t))"
      using sp by (auto split: list.splits)
    then show "map r_cancel_fn rs = map r_cancel_fn (t_resources t)"
      by (simp flip: map_append)
  qed
  ultimately have "w' = fold (\<lambda>f. f) (take n (tcc_cancels cs 0 (t_resources t))) w1"
    using w' tcc_cancel_loop_world by fastforce
  also have "\<dots> = fold (\<lambda>f. f) (rev (take n (tcc_cancels cs 0 (t_resources t)))) w1"
    by (subst fold_rev) (auto intro: assms(2) dest: in_set_takeD)
  also have "\<dots> = w" by (rule tcc_try_loop_undo [OF assms(1) loop])
  finally show ?thesis .
qed

theorem tcc_cancel_restores_witness:
  "fst (snd (tcc_execute tcc_demo tcc_demo_ctx tcc_demo_world)) = tcc_demo_world"
proof (rule tcc_cancel_restores [OF _ _ tcc_triple [OF tcc_demo_fails]])
  show "tcc_undoable tcc_demo_ctx 0 (t_resources tcc_demo)"
    by (auto simp: tcc_undoable_def undone_by_def tcc_demo_resources less_Suc_eq tcc_resource_init_def call_ptr_def run_ptr_def
        tcc_reserve_def tcc_giveback_def tcc_demo_ctx_def ctx_at_def)
  show "f \<circ> g = g \<circ> f"
    if "f \<in> set (tcc_cancels tcc_demo_ctx 0 (t_resources tcc_demo))"
      and "g \<in> set (tcc_cancels tcc_demo_ctx 0 (t_resources tcc_demo))" for f g
    using that
    by (auto simp: tcc_cancels_def tcc_demo_resources tcc_resource_init_def run_ptr_def less_Suc_eq
        tcc_giveback_def tcc_demo_ctx_def ctx_at_def fun_eq_iff)
qed

end
