(* ===== verification/Xa.thy ===== *)
theory Xa
  imports Net_Prelude
begin

text \<open>
  The XA transaction coordinator (\<open>mini-dist-transaction/src/xa.c\<close>, \<open>include/xa.h\<close>). The resource
  managers' entry points are the caller's function pointers: parameters of the model, functions of the
  manager's context pointer, of the XID (which they only read) and of the world. Return codes are the
  integers the enumeration gives them, two of which coincide.
\<close>

section \<open>Data\<close>

definition XA_MAX_RMS :: nat where "XA_MAX_RMS = 8"
definition XA_MAX_XID_LEN :: nat where "XA_MAX_XID_LEN = 64"

definition XA_OK :: int where "XA_OK = 0"
definition XA_RBDEADLOCK :: int where "XA_RBDEADLOCK = 3"
definition XA_RDONLY :: int where "XA_RDONLY = 3"
definition XA_HEURHAZ :: int where "XA_HEURHAZ = 8"
definition XAER_PROTO :: int where "XAER_PROTO = -4"

datatype XATxnState =
  XA_TXN_ACTIVE | XA_TXN_IDLE | XA_TXN_PREPARED | XA_TXN_COMMITTED | XA_TXN_ROLLED_BACK | XA_TXN_HEURISTIC

record XID =
  x_format_id :: int
  x_gtrid_len :: nat
  x_bqual_len :: nat
  x_data :: string

type_synonym ('p, 'w) xa_fn = "('p option \<Rightarrow> XID \<Rightarrow> 'w \<Rightarrow> int \<times> 'w) option"

record ('p, 'w) XAResourceManager =
  rm_name :: string
  rm_ctx :: "'p option"
  rm_open :: "('p option \<Rightarrow> string \<Rightarrow> 'w \<Rightarrow> bool \<times> 'w) option"
  rm_close :: "('p option \<Rightarrow> 'w \<Rightarrow> bool \<times> 'w) option"
  rm_start :: "('p option \<Rightarrow> XID \<Rightarrow> int \<Rightarrow> 'w \<Rightarrow> int \<times> 'w) option"
  rm_end :: "('p option \<Rightarrow> XID \<Rightarrow> int \<Rightarrow> 'w \<Rightarrow> int \<times> 'w) option"
  rm_prepare :: "('p, 'w) xa_fn"
  rm_commit :: "('p option \<Rightarrow> XID \<Rightarrow> bool \<Rightarrow> 'w \<Rightarrow> int \<times> 'w) option"
  rm_rollback :: "('p, 'w) xa_fn"

record ('p, 'w) XATransaction =
  xt_rms :: "('p, 'w) XAResourceManager list"
  xt_state :: XATxnState
  xt_current_xid :: XID
  xt_txn_name :: string

definition xa_ret_code_str :: "int \<Rightarrow> string" where
  "xa_ret_code_str code =
     (if code = 0 then ''XA_OK'' else if code = 1 then ''XA_RBROLLBACK''
      else if code = 2 then ''XA_RBCOMMFAIL'' else if code = 3 then ''XA_RBDEADLOCK''
      else if code = 4 then ''XA_RBINTEGRITY'' else if code = 5 then ''XA_RBOTHER''
      else if code = 6 then ''XA_RBPROTO'' else if code = 7 then ''XA_RBTIMEOUT''
      else if code = 8 then ''XA_HEURHAZ'' else if code = 9 then ''XA_HEURCOM''
      else if code = 10 then ''XA_HEURRB'' else if code = 11 then ''XA_HEURMIX''
      else if code = 12 then ''XA_RETRY'' else if code = -1 then ''XAER_RMERR''
      else if code = -2 then ''XAER_NOTA'' else if code = -3 then ''XAER_INVAL''
      else if code = -4 then ''XAER_PROTO'' else if code = -5 then ''XAER_RMFAIL''
      else if code = -6 then ''XAER_DUPID'' else if code = -7 then ''XAER_OUTSIDE''
      else ''XA_UNKNOWN'')"

fun xa_state_str :: "XATxnState \<Rightarrow> string" where
  "xa_state_str XA_TXN_ACTIVE = ''ACTIVE''"
| "xa_state_str XA_TXN_IDLE = ''IDLE''"
| "xa_state_str XA_TXN_PREPARED = ''PREPARED''"
| "xa_state_str XA_TXN_COMMITTED = ''COMMITTED''"
| "xa_state_str XA_TXN_ROLLED_BACK = ''ROLLED_BACK''"
| "xa_state_str XA_TXN_HEURISTIC = ''HEURISTIC''"

section \<open>Operations\<close>

text \<open>
  \<open>xid_init\<close> copies both parts into a 64-byte buffer without a bound check; a null part is copied as
  nothing. \<open>None\<close> is the write past the end of the buffer.
\<close>

definition xid_init :: "int \<Rightarrow> string option \<Rightarrow> string option \<Rightarrow> XID option" where
  "xid_init format_id gtrid bqual =
     (let g = (case gtrid of None \<Rightarrow> [] | Some s \<Rightarrow> s); b = (case bqual of None \<Rightarrow> [] | Some s \<Rightarrow> s) in
      if length g + length b > XA_MAX_XID_LEN then None
      else Some \<lparr>x_format_id = format_id, x_gtrid_len = length g, x_bqual_len = length b,
                 x_data = g @ b @ replicate (XA_MAX_XID_LEN - (length g + length b)) (CHR 0x00)\<rparr>)"

definition xid_zero :: XID where
  "xid_zero = \<lparr>x_format_id = 0, x_gtrid_len = 0, x_bqual_len = 0, x_data = replicate XA_MAX_XID_LEN (CHR 0x00)\<rparr>"

definition xa_rm_init ::
  "string \<Rightarrow> 'p option \<Rightarrow> ('p option \<Rightarrow> string \<Rightarrow> 'w \<Rightarrow> bool \<times> 'w) option \<Rightarrow>
   ('p option \<Rightarrow> 'w \<Rightarrow> bool \<times> 'w) option \<Rightarrow>
   ('p option \<Rightarrow> XID \<Rightarrow> int \<Rightarrow> 'w \<Rightarrow> int \<times> 'w) option \<Rightarrow>
   ('p option \<Rightarrow> XID \<Rightarrow> int \<Rightarrow> 'w \<Rightarrow> int \<times> 'w) option \<Rightarrow> ('p, 'w) xa_fn \<Rightarrow>
   ('p option \<Rightarrow> XID \<Rightarrow> bool \<Rightarrow> 'w \<Rightarrow> int \<times> 'w) option \<Rightarrow> ('p, 'w) xa_fn \<Rightarrow> ('p, 'w) XAResourceManager" where
  "xa_rm_init name ctx open_fn close_fn start_fn end_fn prepare_fn commit_fn rollback_fn =
     \<lparr>rm_name = strncpy_z 48 name, rm_ctx = ctx, rm_open = open_fn, rm_close = close_fn,
      rm_start = start_fn, rm_end = end_fn, rm_prepare = prepare_fn, rm_commit = commit_fn,
      rm_rollback = rollback_fn\<rparr>"

definition xa_transaction_init :: "string option \<Rightarrow> ('p, 'w) XATransaction" where
  "xa_transaction_init name =
     \<lparr>xt_rms = [], xt_state = XA_TXN_IDLE, xt_current_xid = xid_zero,
      xt_txn_name = strncpy_z 64 (case name of None \<Rightarrow> ''unnamed'' | Some s \<Rightarrow> s)\<rparr>"

definition xa_enlist_rm ::
  "('p, 'w) XATransaction \<Rightarrow> ('p, 'w) XAResourceManager \<Rightarrow> ('p, 'w) XATransaction \<times> bool" where
  "xa_enlist_rm txn rm =
     (if length (xt_rms txn) \<ge> XA_MAX_RMS then (txn, False)
      else (txn\<lparr>xt_rms := xt_rms txn @ [rm]\<rparr>, True))"

fun xa_start_loop :: "XID \<Rightarrow> ('p, 'w) XAResourceManager list \<Rightarrow> 'w \<Rightarrow> 'w \<times> bool" where
  "xa_start_loop xid [] w = (w, True)"
| "xa_start_loop xid (rm # rms) w =
     (case rm_start rm of
        None \<Rightarrow> xa_start_loop xid rms w
      | Some f \<Rightarrow> (case f (rm_ctx rm) xid 0 w of (rc, w1) \<Rightarrow>
                   if rc < 0 then (w1, False) else xa_start_loop xid rms w1))"

definition xa_start ::
  "('p, 'w) XATransaction \<Rightarrow> XID option \<Rightarrow> 'w \<Rightarrow> ('p, 'w) XATransaction \<times> 'w \<times> bool" where
  "xa_start txn xid w =
     (if xt_state txn \<noteq> XA_TXN_IDLE then (txn, w, False)
      else
        let txn1 = txn\<lparr>xt_state := XA_TXN_ACTIVE,
                       xt_current_xid := (case xid of None \<Rightarrow> xt_current_xid txn | Some x \<Rightarrow> x)\<rparr> in
        (case xa_start_loop (xt_current_xid txn1) (xt_rms txn1) w of (w1, ok) \<Rightarrow> (txn1, w1, ok)))"

fun xa_end_loop :: "XID \<Rightarrow> ('p, 'w) XAResourceManager list \<Rightarrow> 'w \<Rightarrow> 'w" where
  "xa_end_loop xid [] w = w"
| "xa_end_loop xid (rm # rms) w =
     xa_end_loop xid rms (case rm_end rm of None \<Rightarrow> w | Some f \<Rightarrow> snd (f (rm_ctx rm) xid 0 w))"

definition xa_end :: "('p, 'w) XATransaction \<Rightarrow> 'w \<Rightarrow> ('p, 'w) XATransaction \<times> 'w \<times> bool" where
  "xa_end txn w =
     (if xt_state txn \<noteq> XA_TXN_ACTIVE then (txn, w, False)
      else (txn\<lparr>xt_state := XA_TXN_IDLE\<rparr>, xa_end_loop (xt_current_xid txn) (xt_rms txn) w, True))"

definition xa_ask :: "('p, 'w) xa_fn \<Rightarrow> 'p option \<Rightarrow> XID \<Rightarrow> 'w \<Rightarrow> int \<times> 'w" where
  "xa_ask f ctx xid w = (case f of None \<Rightarrow> (XA_OK, w) | Some g \<Rightarrow> g ctx xid w)"

text \<open>The loop of \<open>xa_prepare_all\<close> from manager \<open>i\<close> on; \<open>Inl i\<close> is the early exit at manager \<open>i\<close>.\<close>

fun xa_prepare_loop ::
  "XID \<Rightarrow> nat \<Rightarrow> nat \<Rightarrow> ('p, 'w) XAResourceManager list \<Rightarrow> 'w \<Rightarrow> 'w \<times> (nat + nat)" where
  "xa_prepare_loop xid i ok [] w = (w, Inr ok)"
| "xa_prepare_loop xid i ok (rm # rms) w =
     (case xa_ask (rm_prepare rm) (rm_ctx rm) xid w of (rc, w1) \<Rightarrow>
        if rc = XA_OK \<or> rc = XA_RDONLY then xa_prepare_loop xid (Suc i) (Suc ok) rms w1
        else (w1, Inl i))"

definition xa_prepare_all :: "('p, 'w) XATransaction \<Rightarrow> 'w \<Rightarrow> ('p, 'w) XATransaction \<times> 'w \<times> int" where
  "xa_prepare_all txn w =
     (case xa_prepare_loop (xt_current_xid txn) 0 0 (xt_rms txn) w of
        (w1, Inl i) \<Rightarrow> (txn, w1, - (int i + 1))
      | (w1, Inr ok) \<Rightarrow>
          (if ok = length (xt_rms txn) then txn\<lparr>xt_state := XA_TXN_PREPARED\<rparr> else txn, w1, int ok))"

fun xa_commit_loop ::
  "XID \<Rightarrow> nat \<Rightarrow> bool \<Rightarrow> ('p, 'w) XAResourceManager list \<Rightarrow> 'w \<Rightarrow> 'w \<times> nat \<times> bool" where
  "xa_commit_loop xid ok heuristic [] w = (w, ok, heuristic)"
| "xa_commit_loop xid ok heuristic (rm # rms) w =
     (case (case rm_commit rm of None \<Rightarrow> (XA_OK, w) | Some f \<Rightarrow> f (rm_ctx rm) xid False w) of (rc, w1) \<Rightarrow>
        if rc = XA_OK then xa_commit_loop xid (Suc ok) heuristic rms w1
        else xa_commit_loop xid ok (heuristic \<or> rc \<ge> XA_HEURHAZ) rms w1)"

definition xa_commit_all :: "('p, 'w) XATransaction \<Rightarrow> 'w \<Rightarrow> ('p, 'w) XATransaction \<times> 'w \<times> int" where
  "xa_commit_all txn w =
     (if xt_state txn \<noteq> XA_TXN_PREPARED then (txn, w, XAER_PROTO)
      else (case xa_commit_loop (xt_current_xid txn) 0 False (xt_rms txn) w of (w1, ok, heuristic) \<Rightarrow>
              (txn\<lparr>xt_state := (if heuristic then XA_TXN_HEURISTIC else XA_TXN_COMMITTED)\<rparr>, w1, int ok)))"

fun xa_rollback_loop :: "XID \<Rightarrow> nat \<Rightarrow> ('p, 'w) XAResourceManager list \<Rightarrow> 'w \<Rightarrow> 'w \<times> nat" where
  "xa_rollback_loop xid ok [] w = (w, ok)"
| "xa_rollback_loop xid ok (rm # rms) w =
     (case xa_ask (rm_rollback rm) (rm_ctx rm) xid w of (rc, w1) \<Rightarrow>
        xa_rollback_loop xid (if rc = XA_OK then Suc ok else ok) rms w1)"

definition xa_rollback_all :: "('p, 'w) XATransaction \<Rightarrow> 'w \<Rightarrow> ('p, 'w) XATransaction \<times> 'w \<times> int" where
  "xa_rollback_all txn w =
     (case xa_rollback_loop (xt_current_xid txn) 0 (xt_rms txn) w of (w1, ok) \<Rightarrow>
        (txn\<lparr>xt_state := XA_TXN_ROLLED_BACK\<rparr>, w1, int ok))"

definition xa_two_phase_execute ::
  "('p, 'w) XATransaction \<Rightarrow> XID option \<Rightarrow> 'w \<Rightarrow> ('p, 'w) XATransaction \<times> 'w \<times> bool" where
  "xa_two_phase_execute txn xid w =
     (case xa_start txn xid w of (txn1, w1, started) \<Rightarrow>
        if \<not> started then (txn1, w1, False)
        else
          (case xa_end txn1 w1 of (txn2, w2, _) \<Rightarrow>
             (case xa_prepare_all txn2 w2 of (txn3, w3, n) \<Rightarrow>
                if n = int (length (xt_rms txn3))
                then (case xa_commit_all txn3 w3 of (txn4, w4, _) \<Rightarrow> (txn4, w4, True))
                else (case xa_rollback_all txn3 w3 of (txn4, w4, _) \<Rightarrow> (txn4, w4, False)))))"

fun xa_count_prepared_loop :: "XID \<Rightarrow> nat \<Rightarrow> ('p, 'w) XAResourceManager list \<Rightarrow> 'w \<Rightarrow> 'w \<times> nat" where
  "xa_count_prepared_loop xid c [] w = (w, c)"
| "xa_count_prepared_loop xid c (rm # rms) w =
     (case rm_prepare rm of
        None \<Rightarrow> xa_count_prepared_loop xid c rms w
      | Some f \<Rightarrow> (case f (rm_ctx rm) xid w of (rc, w1) \<Rightarrow>
                   xa_count_prepared_loop xid (if rc = XA_OK then Suc c else c) rms w1))"

definition xa_count_prepared :: "('p, 'w) XATransaction \<Rightarrow> 'w \<Rightarrow> 'w \<times> nat" where
  "xa_count_prepared txn w = xa_count_prepared_loop (xt_current_xid txn) 0 (xt_rms txn) w"

fun xa_heuristic_loop :: "XID \<Rightarrow> nat \<Rightarrow> ('p, 'w) XAResourceManager list \<Rightarrow> 'w \<Rightarrow> 'w \<times> nat" where
  "xa_heuristic_loop xid hc [] w = (w, hc)"
| "xa_heuristic_loop xid hc (rm # rms) w =
     (case rm_commit rm of
        None \<Rightarrow> xa_heuristic_loop xid hc rms w
      | Some f \<Rightarrow> (case f (rm_ctx rm) xid False w of (rc, w1) \<Rightarrow>
                   xa_heuristic_loop xid (if rc \<ge> XA_HEURHAZ then Suc hc else hc) rms w1))"

definition xa_handle_heuristic :: "('p, 'w) XATransaction \<Rightarrow> 'w \<Rightarrow> 'w \<times> nat" where
  "xa_handle_heuristic txn w = xa_heuristic_loop (xt_current_xid txn) 0 (xt_rms txn) w"

section \<open>The votes of a prepare round\<close>

text \<open>The return codes of the managers asked to prepare one after the other, without the early exit.\<close>

fun xa_votes :: "XID \<Rightarrow> ('p, 'w) XAResourceManager list \<Rightarrow> 'w \<Rightarrow> int list" where
  "xa_votes xid [] w = []"
| "xa_votes xid (rm # rms) w =
     (case xa_ask (rm_prepare rm) (rm_ctx rm) xid w of (rc, w1) \<Rightarrow> rc # xa_votes xid rms w1)"

lemma xa_prepare_loop_votes:
  "xa_prepare_loop xid i ok rms w = (w', r) \<Longrightarrow>
   (list_all (\<lambda>rc. rc = XA_OK \<or> rc = XA_RDONLY) (xa_votes xid rms w) \<longrightarrow> r = Inr (ok + length rms)) \<and>
   (\<not> list_all (\<lambda>rc. rc = XA_OK \<or> rc = XA_RDONLY) (xa_votes xid rms w) \<longrightarrow>
      (\<exists>k. r = Inl k \<and> i \<le> k \<and> k < i + length rms))"
proof (induction rms arbitrary: i ok w)
  case Nil
  then show ?case by simp
next
  case (Cons rm rms)
  obtain rc w1 where ask: "xa_ask (rm_prepare rm) (rm_ctx rm) xid w = (rc, w1)" by fastforce
  show ?case
  proof (cases "rc = XA_OK \<or> rc = XA_RDONLY")
    case True
    then have "xa_prepare_loop xid (Suc i) (Suc ok) rms w1 = (w', r)" using Cons.prems ask by simp
    from Cons.IH [OF this] show ?thesis using ask True by auto
  next
    case False
    then show ?thesis using Cons.prems ask by auto
  qed
qed

lemma xa_prepare_all_result:
  assumes "xa_prepare_all txn w = (txn', w', n)"
  defines "yes \<equiv> list_all (\<lambda>rc. rc = XA_OK \<or> rc = XA_RDONLY) (xa_votes (xt_current_xid txn) (xt_rms txn) w)"
  shows "xt_rms txn' = xt_rms txn" and "n = int (length (xt_rms txn)) \<longleftrightarrow> yes"
    and "xt_state txn' = (if yes then XA_TXN_PREPARED else xt_state txn)"
proof -
  obtain w1 r where loop: "xa_prepare_loop (xt_current_xid txn) 0 0 (xt_rms txn) w = (w1, r)" by fastforce
  note v = xa_prepare_loop_votes [OF loop, folded yes_def]
  show "xt_rms txn' = xt_rms txn" and "n = int (length (xt_rms txn)) \<longleftrightarrow> yes"
    and "xt_state txn' = (if yes then XA_TXN_PREPARED else xt_state txn)"
    using assms(1) loop v by (cases yes; auto simp: xa_prepare_all_def)+
qed

section \<open>Properties\<close>

text \<open>
  Unanimity of the XA coordinator: a run of \<open>xa_two_phase_execute\<close> on an idle transaction whose
  managers all start returns true exactly when every manager, asked in turn, answers \<open>XA_OK\<close> or
  \<open>XA_RDONLY\<close> to prepare. When it returns true the transaction ends committed, or in the heuristic
  state if some manager's commit reported a heuristic outcome; when it returns false it ends rolled
  back.
\<close>

theorem xa_two_phase_unanimity:
  assumes "xa_start txn xid w = (txn1, w1, True)"
    and "xa_two_phase_execute txn xid w = (txn', w', ok)"
  shows "(ok \<longleftrightarrow> list_all (\<lambda>rc. rc = XA_OK \<or> rc = XA_RDONLY)
           (xa_votes (xt_current_xid txn1) (xt_rms txn) (xa_end_loop (xt_current_xid txn1) (xt_rms txn) w1))) \<and>
    (if ok then xt_state txn' = XA_TXN_COMMITTED \<or> xt_state txn' = XA_TXN_HEURISTIC
     else xt_state txn' = XA_TXN_ROLLED_BACK)"
proof -
  from assms(1) have act: "xt_state txn1 = XA_TXN_ACTIVE" and rms: "xt_rms txn1 = xt_rms txn"
    by (auto simp: xa_start_def Let_def split: if_splits prod.splits)
  let ?w2 = "xa_end_loop (xt_current_xid txn1) (xt_rms txn1) w1"
  let ?txn2 = "txn1\<lparr>xt_state := XA_TXN_IDLE\<rparr>"
  obtain txn3 w3 n where prep: "xa_prepare_all ?txn2 ?w2 = (txn3, w3, n)"
    by (cases "xa_prepare_all ?txn2 ?w2")
  note pr = xa_prepare_all_result [OF prep]
  have n: "n = int (length (xt_rms txn3)) \<longleftrightarrow>
      list_all (\<lambda>rc. rc = XA_OK \<or> rc = XA_RDONLY) (xa_votes (xt_current_xid txn1) (xt_rms txn1) ?w2)"
    using pr(1,2) by simp
  show ?thesis
    using assms act prep pr(3) n rms
    by (auto simp: xa_two_phase_execute_def xa_end_def xa_commit_all_def xa_rollback_all_def
        split: prod.splits if_splits)
qed

definition xa_rm_voting :: "int \<Rightarrow> (unit, nat) XAResourceManager" where
  "xa_rm_voting rc =
     xa_rm_init ''DB'' None None None None None (Some (\<lambda>_ _ w. (rc, w + 1))) (Some (\<lambda>_ _ _ w. (XA_OK, w + 10))) None"

definition xa_demo :: "int \<Rightarrow> (unit, nat) XATransaction" where
  "xa_demo rc = fst (xa_enlist_rm (fst (xa_enlist_rm (xa_transaction_init None) (xa_rm_voting XA_OK))) (xa_rm_voting rc))"

lemmas xa_eval =
  xa_demo_def xa_rm_voting_def xa_rm_init_def xa_enlist_rm_def xa_transaction_init_def XA_MAX_RMS_def
  xa_start_def xa_ask_def

theorem xa_two_phase_unanimity_witness:
  "snd (snd (xa_two_phase_execute (xa_demo 5) None 0)) = False \<and>
   xt_state (fst (xa_two_phase_execute (xa_demo 5) None 0)) = XA_TXN_ROLLED_BACK"
proof -
  have st: "xa_start (xa_demo 5) None 0 = (fst (xa_start (xa_demo 5) None 0), 0, True)"
    by (simp add: xa_eval)
  have "xa_two_phase_execute (xa_demo 5) None 0 =
      (fst (xa_two_phase_execute (xa_demo 5) None 0), fst (snd (xa_two_phase_execute (xa_demo 5) None 0)),
       snd (snd (xa_two_phase_execute (xa_demo 5) None 0)))" by simp
  from xa_two_phase_unanimity [OF st this] show ?thesis
    by (simp add: xa_eval XA_OK_def XA_RDONLY_def split: if_splits)
qed

text \<open>
  The two codes that share the value 3: a resource manager that answers prepare with
  \<open>XA_RBDEADLOCK\<close>, its refusal because of a deadlock, is counted as prepared, and the transaction is
  committed.
\<close>

theorem xa_deadlock_vote_commits:
  assumes "xa_start txn xid w = (txn1, w1, True)"
    and "list_all (\<lambda>rc. rc = XA_RBDEADLOCK)
       (xa_votes (xt_current_xid txn1) (xt_rms txn) (xa_end_loop (xt_current_xid txn1) (xt_rms txn) w1))"
  shows "snd (snd (xa_two_phase_execute txn xid w))"
proof -
  from assms(1) have act: "xt_state txn1 = XA_TXN_ACTIVE" and rms: "xt_rms txn1 = xt_rms txn"
    by (auto simp: xa_start_def Let_def split: if_splits prod.splits)
  let ?w2 = "xa_end_loop (xt_current_xid txn1) (xt_rms txn1) w1"
  let ?txn2 = "txn1\<lparr>xt_state := XA_TXN_IDLE\<rparr>"
  obtain txn3 w3 n where prep: "xa_prepare_all ?txn2 ?w2 = (txn3, w3, n)"
    by (cases "xa_prepare_all ?txn2 ?w2")
  have "list_all (\<lambda>rc. rc = XA_OK \<or> rc = XA_RDONLY) (xa_votes (xt_current_xid txn1) (xt_rms txn1) ?w2)"
    using assms(2) rms by (simp add: XA_RBDEADLOCK_def XA_RDONLY_def list_all_iff)
  with xa_prepare_all_result [OF prep] have "n = int (length (xt_rms txn3))" by simp
  with assms(1) act prep show ?thesis
    by (simp add: xa_two_phase_execute_def xa_end_def split: prod.splits)
qed

theorem xa_deadlock_vote_commits_witness:
  "snd (snd (xa_two_phase_execute
     (fst (xa_enlist_rm (xa_transaction_init None) (xa_rm_voting XA_RBDEADLOCK))) None 0))"
  by (rule xa_deadlock_vote_commits) (simp_all add: xa_eval)

end
