(* ===== verification/Fencing.thy ===== *)
theory Fencing
  imports Net_Prelude
begin

text \<open>
  Fencing tokens (\<open>mini-dist-transaction/src/fencing.c\<close>, \<open>include/fencing.h\<close>): the token store, the
  guard on the storage side, and the safety theorem their header states. The result of \<open>time(NULL)\<close> is
  an argument. The store hands out pointers to its own slots, which a later issue for the same resource overwrites, so
  a token is passed by reference: to a slot of the store, or to a copy that the client has made.
\<close>

section \<open>Data\<close>

definition FENCING_MAX_TOKENS :: nat where "FENCING_MAX_TOKENS = 128"
definition FENCING_MAX_OWNER_LEN :: nat where "FENCING_MAX_OWNER_LEN = 48"
definition FENCING_MAX_RESOURCE_LEN :: nat where "FENCING_MAX_RESOURCE_LEN = 64"

record FencingToken =
  ft_value :: int
  ft_generation :: int
  ft_issued_at_ms :: int
  ft_owner :: string
  ft_resource :: string
  ft_valid :: bool

record FencingTokenStore =
  fs_tokens :: "FencingToken list"
  fs_global_counter :: int
  fs_validator_id :: string

record FencingGuard =
  fg_highest_seen :: int
  fg_rejected_count :: int
  fg_accepted_count :: int

datatype fencing_ptr = NULL | Slot nat | Copy FencingToken

fun fencing_deref :: "FencingTokenStore \<Rightarrow> fencing_ptr \<Rightarrow> FencingToken option" where
  "fencing_deref store NULL = None"
| "fencing_deref store (Slot idx) = Some (fs_tokens store ! idx)"
| "fencing_deref store (Copy t) = Some t"

section \<open>Operations\<close>

definition str_or :: "string \<Rightarrow> string option \<Rightarrow> string" where
  "str_or d s = (case s of None \<Rightarrow> d | Some x \<Rightarrow> x)"

definition fencing_token_init :: "string option \<Rightarrow> string option \<Rightarrow> FencingToken" where
  "fencing_token_init resource owner =
     \<lparr>ft_value = 0, ft_generation = 0, ft_issued_at_ms = 0,
      ft_owner = strncpy_z FENCING_MAX_OWNER_LEN (str_or [] owner),
      ft_resource = strncpy_z FENCING_MAX_RESOURCE_LEN (str_or [] resource), ft_valid = False\<rparr>"

definition fencing_store_init :: "string option \<Rightarrow> FencingTokenStore" where
  "fencing_store_init validator_id =
     \<lparr>fs_tokens = [], fs_global_counter = 1, fs_validator_id = strncpy_z 32 (str_or ''default'' validator_id)\<rparr>"

definition fencing_guard_init :: FencingGuard where
  "fencing_guard_init = \<lparr>fg_highest_seen = 0, fg_rejected_count = 0, fg_accepted_count = 0\<rparr>"

definition fencing_find_token :: "FencingTokenStore \<Rightarrow> string \<Rightarrow> nat option" where
  "fencing_find_token store resource = find_index (\<lambda>t. ft_resource t = resource) (fs_tokens store)"

text \<open>The first half of \<open>fencing_issue_token\<close>: the slot of the resource, created on a miss.\<close>

definition fencing_slot ::
  "FencingTokenStore \<Rightarrow> string \<Rightarrow> string \<Rightarrow> FencingTokenStore \<times> nat option" where
  "fencing_slot store resource owner =
     (case fencing_find_token store resource of
        Some idx \<Rightarrow> (store, Some idx)
      | None \<Rightarrow>
          if length (fs_tokens store) \<ge> FENCING_MAX_TOKENS then (store, None)
          else (store\<lparr>fs_tokens := fs_tokens store @ [fencing_token_init (Some resource) (Some owner)]\<rparr>,
                Some (length (fs_tokens store))))"

definition fencing_issue_token ::
  "FencingTokenStore \<Rightarrow> string \<Rightarrow> string \<Rightarrow> int \<Rightarrow> FencingTokenStore \<times> fencing_ptr" where
  "fencing_issue_token store resource owner now =
     (case fencing_slot store resource owner of
        (store1, None) \<Rightarrow> (store1, NULL)
      | (store1, Some idx) \<Rightarrow>
          let t = fs_tokens store1 ! idx in
          (store1\<lparr>fs_tokens := (fs_tokens store1)[idx :=
               t\<lparr>ft_value := fs_global_counter store1, ft_generation := ft_generation t + 1,
                 ft_issued_at_ms := now, ft_valid := True,
                 ft_owner := strncpy_z FENCING_MAX_OWNER_LEN owner\<rparr>],
             fs_global_counter := fs_global_counter store1 + 1\<rparr>, Slot idx))"

definition fencing_check_and_advance :: "FencingGuard \<Rightarrow> int \<Rightarrow> FencingGuard \<times> bool" where
  "fencing_check_and_advance guard token_value =
     (if token_value < fg_highest_seen guard
      then (guard\<lparr>fg_rejected_count := fg_rejected_count guard + 1\<rparr>, False)
      else
        let g1 = (if token_value > fg_highest_seen guard then guard\<lparr>fg_highest_seen := token_value\<rparr> else guard)
        in (g1\<lparr>fg_accepted_count := fg_accepted_count g1 + 1\<rparr>, True))"

text \<open>\<open>fencing_validate_token\<close> reads the token through the pointer, from the store as it is at the time of the call.\<close>

definition fencing_validate_token :: "FencingGuard \<Rightarrow> FencingTokenStore \<Rightarrow> fencing_ptr \<Rightarrow> FencingGuard \<times> bool" where
  "fencing_validate_token guard store token =
     (case fencing_deref store token of None \<Rightarrow> (guard, False)
      | Some t \<Rightarrow> if \<not> ft_valid t then (guard, False) else fencing_check_and_advance guard (ft_value t))"

definition fencing_revoke_token :: "FencingTokenStore \<Rightarrow> string \<Rightarrow> FencingTokenStore \<times> bool" where
  "fencing_revoke_token store resource =
     (case fencing_find_token store resource of
        None \<Rightarrow> (store, False)
      | Some idx \<Rightarrow>
          (store\<lparr>fs_tokens := (fs_tokens store)[idx := (fs_tokens store ! idx)\<lparr>ft_valid := False\<rparr>]\<rparr>, True))"

definition fencing_get_current :: "FencingTokenStore \<Rightarrow> string \<Rightarrow> fencing_ptr" where
  "fencing_get_current store resource =
     (case fencing_find_token store resource of
        None \<Rightarrow> NULL
      | Some idx \<Rightarrow> if \<not> ft_valid (fs_tokens store ! idx) then NULL else Slot idx)"

definition fencing_next_value :: "FencingTokenStore \<Rightarrow> int" where
  "fencing_next_value store = fs_global_counter store"

definition fencing_is_monotonic :: "FencingTokenStore \<Rightarrow> bool" where
  "fencing_is_monotonic store \<longleftrightarrow>
     length (fs_tokens store) \<le> 1 \<or>
     list_all (\<lambda>t. \<not> ft_valid t \<or> \<not> ft_value t \<ge> fs_global_counter store) (fs_tokens store)"

section \<open>Runs\<close>

definition fencing_initial :: "FencingTokenStore \<Rightarrow> bool" where
  "fencing_initial s \<longleftrightarrow> (\<exists>v. s = fencing_store_init v)"

inductive fencing_step :: "FencingTokenStore \<Rightarrow> FencingTokenStore \<Rightarrow> bool" where
  issue: "fencing_step s (fst (fencing_issue_token s r ow now))"
| revoke: "fencing_step s (fst (fencing_revoke_token s r))"

inductive guard_step :: "FencingGuard \<Rightarrow> FencingGuard \<Rightarrow> bool" where
  validate: "guard_step g (fst (fencing_validate_token g s t))"
| check: "guard_step g (fst (fencing_check_and_advance g v))"

section \<open>The store as a slot table, and its invariant\<close>

interpretation fence: slot_table fs_tokens ft_resource "\<lambda>r. fencing_token_init (Some r) (Some ow)"
  FENCING_MAX_TOKENS FENCING_MAX_RESOURCE_LEN "\<lambda>s r. fencing_slot s r ow" for ow
  by unfold_locales
    (simp_all add: fencing_slot_def fencing_find_token_def fencing_token_init_def str_or_def)

definition fencing_inv :: "FencingTokenStore \<Rightarrow> bool" where
  "fencing_inv s \<longleftrightarrow>
     length (fs_tokens s) \<le> FENCING_MAX_TOKENS \<and> 1 \<le> fs_global_counter s \<and>
     distinct (map ft_value (fs_tokens s)) \<and>
     list_all (\<lambda>t. 1 \<le> ft_value t \<and> ft_value t < fs_global_counter s \<and>
                   length (ft_resource t) < FENCING_MAX_RESOURCE_LEN) (fs_tokens s)"

lemma fencing_issue_cases:
  obtains (full) "fencing_issue_token s r ow now = (s, NULL)"
  | (slot) ts idx where "idx < length ts"
    and "fencing_slot s r ow = (s\<lparr>fs_tokens := ts\<rparr>, Some idx)"
    and "fencing_issue_token s r ow now =
      (s\<lparr>fs_tokens := ts[idx := (ts ! idx)\<lparr>ft_value := fs_global_counter s,
            ft_generation := ft_generation (ts ! idx) + 1, ft_issued_at_ms := now, ft_valid := True,
            ft_owner := strncpy_z FENCING_MAX_OWNER_LEN ow\<rparr>],
         fs_global_counter := fs_global_counter s + 1\<rparr>, Slot idx)"
    and "ts = fs_tokens s \<or> (ts = fs_tokens s @ [fencing_token_init (Some r) (Some ow)] \<and>
           idx = length (fs_tokens s) \<and> length ts \<le> FENCING_MAX_TOKENS)"
proof (cases rule: fence.foc_cases [of r s ow])
  case (hit i)
  then show ?thesis
    using slot [of i "fs_tokens s"] find_index_SomeD(1) [OF hit(1)]
    by (simp add: fencing_issue_token_def Let_def)
next
  case full
  then show ?thesis using that(1) by (simp add: fencing_issue_token_def)
next
  case (new s')
  have s': "s' = s\<lparr>fs_tokens := fs_tokens s @ [fencing_token_init (Some r) (Some ow)]\<rparr>"
    using new by (auto simp: fencing_slot_def fencing_find_token_def)
  show ?thesis
    using new s' slot [of "length (fs_tokens s)" "fs_tokens s @ [fencing_token_init (Some r) (Some ow)]"]
    by (simp add: fencing_issue_token_def Let_def Suc_le_eq)
qed

lemma fencing_token_init_fields:
  "length (ft_resource (fencing_token_init r ow)) < FENCING_MAX_RESOURCE_LEN"
  by (simp add: fencing_token_init_def length_strncpy_z FENCING_MAX_RESOURCE_LEN_def)

lemma distinct_map_update_fresh:
  assumes "distinct (map f xs)" and "f y \<notin> f ` set xs"
  shows "distinct (map f (xs[i := y]))"
proof -
  have "set (map f xs) = f ` set xs" by simp
  with assms show ?thesis by (auto simp: map_update intro!: distinct_list_update)
qed

lemma fencing_inv_issue:
  assumes "fencing_inv s"
  shows "fencing_inv (fst (fencing_issue_token s r ow now))"
proof (cases rule: fencing_issue_cases [of s r ow now])
  case full
  with assms show ?thesis by simp
next
  case (slot ts idx)
  let ?t = "(ts ! idx)\<lparr>ft_value := fs_global_counter s, ft_generation := ft_generation (ts ! idx) + 1,
    ft_issued_at_ms := now, ft_valid := True, ft_owner := strncpy_z FENCING_MAX_OWNER_LEN ow\<rparr>"
  have old: "t \<in> set (fs_tokens s) \<Longrightarrow> 1 \<le> ft_value t \<and> ft_value t < fs_global_counter s \<and>
      length (ft_resource t) < FENCING_MAX_RESOURCE_LEN" for t
    using assms by (auto simp: fencing_inv_def list_all_iff)
  have res: "length (ft_resource (ts ! idx)) < FENCING_MAX_RESOURCE_LEN"
    using slot(1,4) old fencing_token_init_fields by (auto simp: nth_append)
  have len: "length ts \<le> FENCING_MAX_TOKENS" using slot(4) assms by (auto simp: fencing_inv_def)
  have "distinct (map ft_value (ts[idx := ?t])) \<and>
      list_all (\<lambda>t. 1 \<le> ft_value t \<and> ft_value t < fs_global_counter s + 1 \<and>
        length (ft_resource t) < FENCING_MAX_RESOURCE_LEN) (ts[idx := ?t])"
    using slot(4)
  proof
    assume ts: "ts = fs_tokens s"
    have "distinct (map ft_value (ts[idx := ?t]))"
      by (rule distinct_map_update_fresh) (use assms ts old in \<open>fastforce simp: fencing_inv_def\<close>)+
    moreover have "t \<in> set (ts[idx := ?t]) \<Longrightarrow> t = ?t \<or> t \<in> set (fs_tokens s)" for t
      using ts set_update_subset_insert by fastforce
    ultimately show ?thesis using old res assms by (fastforce simp: list_all_iff fencing_inv_def)
  next
    assume ts: "ts = fs_tokens s @ [fencing_token_init (Some r) (Some ow)] \<and> idx = length (fs_tokens s) \<and>
      length ts \<le> FENCING_MAX_TOKENS"
    then have "ts[idx := ?t] = fs_tokens s @ [?t]" by simp
    then show ?thesis using old res assms by (fastforce simp: list_all_iff fencing_inv_def)
  qed
  with slot(3) len assms show ?thesis by (simp add: fencing_inv_def)
qed

lemma fencing_inv_revoke:
  assumes "fencing_inv s"
  shows "fencing_inv (fst (fencing_revoke_token s r))"
proof (cases "fencing_find_token s r")
  case None
  with assms show ?thesis by (simp add: fencing_revoke_token_def)
next
  case (Some i)
  then have i: "i < length (fs_tokens s)"
    unfolding fencing_find_token_def by (rule find_index_SomeD(1))
  have "map ft_value ((fs_tokens s)[i := (fs_tokens s ! i)\<lparr>ft_valid := False\<rparr>]) = map ft_value (fs_tokens s)"
    using i by (simp add: map_update list_update_same_conv)
  moreover have "t \<in> set ((fs_tokens s)[i := (fs_tokens s ! i)\<lparr>ft_valid := False\<rparr>]) \<Longrightarrow>
      \<exists>u \<in> set (fs_tokens s). ft_value t = ft_value u \<and> ft_resource t = ft_resource u" for t
    using i set_update_subset_insert [of "fs_tokens s" i] by (fastforce dest: subsetD nth_mem)
  ultimately show ?thesis
    using assms Some by (fastforce simp: fencing_revoke_token_def fencing_inv_def list_all_iff)
qed

interpretation fence_sys: invariant_system fencing_initial fencing_step fencing_inv
proof
  show "fencing_inv s" if "fencing_initial s" for s
    using that by (auto simp: fencing_initial_def fencing_inv_def fencing_store_init_def)
  show "fencing_inv t" if "fencing_inv s" and "fencing_step s t" for s t
    using that(2,1) by cases (auto intro: fencing_inv_issue fencing_inv_revoke)
qed

section \<open>Fenced resources\<close>

text \<open>
  The interface between an issuer of increasing epochs and the guard in front of a resource: the
  issuer's next epoch never decreases, the guard's high-water mark never decreases, the guard refuses
  everything below its mark and remembers what it accepts.
\<close>

locale fenced_resource =
  fixes nxt :: "'s \<Rightarrow> int" and issuer :: "'s \<Rightarrow> 's \<Rightarrow> bool"
    and mark :: "'g \<Rightarrow> int" and keeper :: "'g \<Rightarrow> 'g \<Rightarrow> bool" and admit :: "'g \<Rightarrow> int \<Rightarrow> 'g \<times> bool"
  assumes nxt_mono: "issuer s t \<Longrightarrow> nxt s \<le> nxt t"
    and mark_mono: "keeper g h \<Longrightarrow> mark g \<le> mark h"
    and admit_low: "v < mark g \<Longrightarrow> \<not> snd (admit g v)"
    and admit_marks: "snd (admit g v) \<Longrightarrow> v \<le> mark (fst (admit g v))"
begin

lemma nxt_mono_star: "issuer\<^sup>*\<^sup>* s t \<Longrightarrow> nxt s \<le> nxt t"
  by (induction rule: rtranclp_induct) (auto dest: nxt_mono)

lemma mark_mono_star: "keeper\<^sup>*\<^sup>* g h \<Longrightarrow> mark g \<le> mark h"
  by (induction rule: rtranclp_induct) (auto dest: mark_mono)

lemma stale_refused:
  assumes "old < nxt s" and "issuer\<^sup>*\<^sup>* s t" and "nxt t \<le> new"
    and "snd (admit g new)" and "keeper\<^sup>*\<^sup>* (fst (admit g new)) h"
  shows "\<not> snd (admit h old)"
  using assms nxt_mono_star [OF assms(2)] admit_marks [OF assms(4)] mark_mono_star [OF assms(5)]
  by (intro admit_low) linarith

end

lemma fencing_counter_mono:
  assumes "fencing_step s t"
  shows "fencing_next_value s \<le> fencing_next_value t"
  using assms
proof cases
  case (issue r ow now)
  then show ?thesis
    by (cases rule: fencing_issue_cases [of s r ow now]) (auto simp: fencing_next_value_def)
qed (auto simp: fencing_revoke_token_def fencing_next_value_def split: option.splits)

lemma guard_mark_mono: "guard_step g h \<Longrightarrow> fg_highest_seen g \<le> fg_highest_seen h"
  by (cases rule: guard_step.cases)
    (auto simp: fencing_validate_token_def fencing_check_and_advance_def split: option.splits)

interpretation fenced: fenced_resource fencing_next_value fencing_step fg_highest_seen guard_step
  fencing_check_and_advance
  by unfold_locales
    (auto simp: fencing_counter_mono guard_mark_mono fencing_check_and_advance_def)

lemma fencing_issue_value:
  assumes "fencing_issue_token s r ow now = (s', p)" and "fencing_deref s' p = Some tok"
  shows "ft_value tok = fencing_next_value s" and "ft_valid tok" and "fencing_next_value s' = fencing_next_value s + 1"
  using assms
  by (cases rule: fencing_issue_cases [of s r ow now]; auto simp: fencing_next_value_def)+

lemma fencing_validate_value:
  "snd (fencing_validate_token g s p) \<longleftrightarrow> (\<exists>tok. fencing_deref s p = Some tok \<and> ft_valid tok \<and> snd (fencing_check_and_advance g (ft_value tok)))"
  "fencing_deref s p = Some tok \<Longrightarrow> ft_valid tok \<Longrightarrow> fencing_validate_token g s p = fencing_check_and_advance g (ft_value tok)"
  by (auto simp: fencing_validate_token_def split: if_splits option.splits)

lemma fencing_first_issue_reach:
  "reach fencing_initial fencing_step (fst (fencing_issue_token (fencing_store_init v) r ow now))"
proof (rule reach_step)
  show "reach fencing_initial fencing_step (fencing_store_init v)"
    by (rule reach_init) (auto simp: fencing_initial_def)
qed (rule fencing_step.issue)

section \<open>Properties\<close>

text \<open>
  C12. Fencing token safety: let a writer obtain a token, and let some writer (for any resource) obtain a
  later one from the same store, with any number of issues and revocations in between. Once the guard
  has accepted the later token, then whatever it is asked next, it refuses the earlier token as it was issued, by its
  value or as a copy that the writer has kept. Through a pointer, whose slot a later issue for the same resource
  overwrites, it accepts only a token that is at least as new as the one it had accepted.
\<close>

theorem fencing_stale_writer_refused:
  assumes "fencing_issue_token s r ow now = (s1, p)" and "fencing_deref s1 p = Some old"
    and "fencing_step\<^sup>*\<^sup>* s1 s2"
    and "fencing_issue_token s2 r' ow' now' = (s3, q)" and "fencing_deref s3 q = Some new"
    and "fencing_validate_token g s3 q = (g1, True)"
    and "guard_step\<^sup>*\<^sup>* g1 h"
  shows "\<not> snd (fencing_check_and_advance h (ft_value old)) \<and> \<not> snd (fencing_validate_token h t (Copy old)) \<and>
    (snd (fencing_validate_token h t x) \<longrightarrow> (\<exists>tok. fencing_deref t x = Some tok \<and> ft_value new \<le> ft_value tok))"
proof -
  note new = fencing_issue_value [OF assms(4,5)] and old = fencing_issue_value [OF assms(1,2)]
  have v: "fencing_check_and_advance g (ft_value new) = (g1, True)" using fencing_validate_value(2) [OF assms(5) new(2)] assms(6) by simp
  have refused: "\<not> snd (fencing_check_and_advance h (ft_value old))"
    by (rule fenced.stale_refused [where g = g and new = "ft_value new", OF _ assms(3)]) (use old(1,3) new(1) v assms(7) in simp_all)
  have "ft_value new \<le> fg_highest_seen h"
    using fenced.admit_marks [of g "ft_value new"] fenced.mark_mono_star [OF assms(7)] v by simp
  then have "ft_value new \<le> ft_value tok" if "snd (fencing_check_and_advance h (ft_value tok))" for tok
    using fenced.admit_low [of "ft_value tok" h] that by force
  then show ?thesis using refused by (auto simp: fencing_validate_value(1))
qed

lemmas fencing_eval = fencing_store_init_def fencing_issue_token_def fencing_slot_def fencing_find_token_def fencing_token_init_def
  str_or_def FENCING_MAX_TOKENS_def FENCING_MAX_RESOURCE_LEN_def FENCING_MAX_OWNER_LEN_def fencing_validate_token_def
  fencing_check_and_advance_def fencing_guard_init_def

definition fencing_demo :: FencingTokenStore where
  "fencing_demo = fst (fencing_issue_token (fencing_store_init None) ''r'' ''A'' 0)"

definition fencing_demo_later :: FencingTokenStore where
  "fencing_demo_later = fst (fencing_issue_token fencing_demo ''r'' ''B'' 9)"

lemma fencing_demo_issues:
  "fencing_issue_token (fencing_store_init None) ''r'' ''A'' 0 = (fencing_demo, Slot 0)"
  "fencing_issue_token fencing_demo ''r'' ''B'' 9 = (fencing_demo_later, Slot 0)"
  "fencing_validate_token fencing_guard_init fencing_demo_later (Slot 0) =
     (fst (fencing_validate_token fencing_guard_init fencing_demo_later (Slot 0)), True)"
  by (simp_all add: fencing_demo_def fencing_demo_later_def fencing_eval)

theorem fencing_stale_writer_refused_witness:
  "let h = fst (fencing_validate_token fencing_guard_init fencing_demo_later (Slot 0)) in
   ft_value (fs_tokens fencing_demo ! 0) = 1 \<and> snd (fencing_check_and_advance h 1) = False \<and>
   snd (fencing_validate_token h fencing_demo_later (Copy (fs_tokens fencing_demo ! 0))) = False"
proof -
  have v: "ft_value (fs_tokens fencing_demo ! 0) = 1" by (simp add: fencing_demo_def fencing_eval)
  show ?thesis
    using fencing_stale_writer_refused [OF fencing_demo_issues(1) _ rtranclp.rtrancl_refl fencing_demo_issues(2) _ fencing_demo_issues(3)
        rtranclp.rtrancl_refl, of "fs_tokens fencing_demo ! 0" "fs_tokens fencing_demo_later ! 0" fencing_demo_later NULL] v
    by (simp add: Let_def)
qed

text \<open>
  The pointer that the first writer got denotes the slot of the resource: after the resource has been issued again, it
  presents the new token, and the guard lets the stale writer through.
\<close>

lemma fencing_reissue_aliases:
  "let h = fst (fencing_validate_token fencing_guard_init fencing_demo_later (Slot 0))
   in snd (fencing_issue_token (fencing_store_init None) ''r'' ''A'' 0) = Slot 0 \<and> snd (fencing_validate_token h fencing_demo_later (Slot 0))"
  by (simp add: fencing_demo_def fencing_demo_later_def fencing_eval)

text \<open>
  The store's invariant: in every reachable store the tokens carry pairwise different values, all of
  them at least 1 and below the next value to be issued, so the store's own check
  \<open>fencing_is_monotonic\<close> always passes, and at most 128 slots are in use.
\<close>

theorem fencing_store_monotonic:
  assumes "reach fencing_initial fencing_step s"
  shows "distinct (map ft_value (fs_tokens s)) \<and>
    (\<forall>t \<in> set (fs_tokens s). 1 \<le> ft_value t \<and> ft_value t < fencing_next_value s) \<and>
    fencing_is_monotonic s \<and> length (fs_tokens s) \<le> FENCING_MAX_TOKENS"
  using fence_sys.reach_inv [OF assms]
  by (auto simp: fencing_inv_def fencing_is_monotonic_def fencing_next_value_def list_all_iff)

theorem fencing_store_monotonic_witness:
  "fencing_is_monotonic (fst (fencing_issue_token (fencing_store_init None) ''r'' ''A'' 0))"
  using fencing_store_monotonic [OF fencing_first_issue_reach] by blast

text \<open>
  Long resource names are lost: for a resource name of 64 or more characters, \<open>fencing_issue_token\<close>
  may hand out a token, but in every reachable store neither \<open>fencing_get_current\<close> nor
  \<open>fencing_revoke_token\<close> finds any token for that name, because the stored name is truncated.
\<close>

theorem fencing_long_name_lost:
  assumes "reach fencing_initial fencing_step s"
    and "FENCING_MAX_RESOURCE_LEN \<le> length r"
  shows "fencing_get_current s r = NULL \<and> fencing_revoke_token s r = (s, False)"
proof -
  have "\<forall>t \<in> set (fs_tokens s). ft_resource t \<noteq> r"
    using fence_sys.reach_inv [OF assms(1)] assms(2) by (auto simp: fencing_inv_def list_all_iff)
  then have "fencing_find_token s r = None"
    by (simp add: fencing_find_token_def find_index_None_iff)
  then show ?thesis by (simp add: fencing_get_current_def fencing_revoke_token_def)
qed

theorem fencing_long_name_lost_witness:
  "snd (fencing_issue_token (fencing_store_init None) (replicate 64 CHR ''x'') ''A'' 0) = Slot 0 \<and>
   fencing_get_current (fst (fencing_issue_token (fencing_store_init None) (replicate 64 CHR ''x'') ''A'' 0))
     (replicate 64 CHR ''x'') = NULL"
proof -
  let ?s = "fst (fencing_issue_token (fencing_store_init None) (replicate 64 CHR ''x'') ''A'' 0)"
  have "fencing_get_current ?s (replicate 64 CHR ''x'') = NULL"
    using fencing_long_name_lost [OF fencing_first_issue_reach, of "replicate 64 CHR ''x''"]
    by (simp add: FENCING_MAX_RESOURCE_LEN_def)
  moreover have "snd (fencing_issue_token (fencing_store_init None) (replicate 64 CHR ''x'') ''A'' 0) = Slot 0"
    by (simp add: fencing_store_init_def fencing_issue_token_def fencing_slot_def
        fencing_find_token_def FENCING_MAX_TOKENS_def Let_def)
  ultimately show ?thesis by simp
qed

end
