(* ===== verification/DistLock.thy ===== *)
theory DistLock
  imports Net_Prelude
begin

text \<open>
  The distributed lock manager and Redlock (\<open>mini-dist-transaction/src/dist_lock.c\<close>,
  \<open>include/dist_lock.h\<close>): leases, the wait queue, majority locking over several managers. Times are the
  caller's arguments; the managers of a Redlock are distinct objects. Deadlock detection is in the theory
  \<open>LockGraph\<close>; \<open>lock_contention_ratio\<close> (a floating-point statistic) and the printing function are not
  modelled.
\<close>

section \<open>Data\<close>

definition DIST_LOCK_MAX_LOCKS :: nat where "DIST_LOCK_MAX_LOCKS = 64"
definition DIST_LOCK_DEFAULT_LEASE_MS :: int where "DIST_LOCK_DEFAULT_LEASE_MS = 30000"
definition DIST_LOCK_MAX_OWNER_LEN :: nat where "DIST_LOCK_MAX_OWNER_LEN = 64"
definition DIST_LOCK_MAX_RESOURCE_LEN :: nat where "DIST_LOCK_MAX_RESOURCE_LEN = 64"
definition DIST_LOCK_WAIT_QUEUE_SIZE :: nat where "DIST_LOCK_WAIT_QUEUE_SIZE = 16"

datatype LockState = LOCK_FREE | LOCK_ACQUIRED | LOCK_EXPIRED | LOCK_WAITING

record DistLock =
  l_resource :: string
  l_owner :: string
  l_lease_timeout_ms :: int
  l_acquired_at_ms :: int
  l_version :: int
  l_state :: LockState

record LockWaitEntry =
  w_owner :: string
  w_wait_since_ms :: int

record LockManager =
  lm_locks :: "DistLock list"
  lm_wait_queue :: "LockWaitEntry list"
  lm_current_time_ms :: int

fun lock_state_str :: "LockState \<Rightarrow> string" where
  "lock_state_str LOCK_FREE = ''FREE''"
| "lock_state_str LOCK_ACQUIRED = ''ACQUIRED''"
| "lock_state_str LOCK_EXPIRED = ''EXPIRED''"
| "lock_state_str LOCK_WAITING = ''WAITING''"

section \<open>Operations\<close>

definition dist_lock_init :: "string \<Rightarrow> DistLock" where
  "dist_lock_init resource =
     \<lparr>l_resource = strncpy_z DIST_LOCK_MAX_RESOURCE_LEN resource, l_owner = [], l_lease_timeout_ms = 0,
      l_acquired_at_ms = 0, l_version = 0, l_state = LOCK_FREE\<rparr>"

definition lock_manager_init :: LockManager where
  "lock_manager_init = \<lparr>lm_locks = [], lm_wait_queue = [], lm_current_time_ms = 0\<rparr>"

definition lock_manager_find_or_create :: "LockManager \<Rightarrow> string \<Rightarrow> LockManager \<times> nat option" where
  "lock_manager_find_or_create lm resource =
     (case find_index (\<lambda>l. l_resource l = resource) (lm_locks lm) of
        Some i \<Rightarrow> (lm, Some i)
      | None \<Rightarrow>
          if length (lm_locks lm) \<ge> DIST_LOCK_MAX_LOCKS then (lm, None)
          else (lm\<lparr>lm_locks := lm_locks lm @ [dist_lock_init resource]\<rparr>, Some (length (lm_locks lm))))"

definition lock_put :: "LockManager \<Rightarrow> nat \<Rightarrow> DistLock \<Rightarrow> LockManager" where
  "lock_put lm idx l = lm\<lparr>lm_locks := (lm_locks lm)[idx := l]\<rparr>"

definition lock_acquire :: "LockManager \<Rightarrow> string \<Rightarrow> string \<Rightarrow> int \<Rightarrow> int \<Rightarrow> LockManager \<times> bool" where
  "lock_acquire lm resource owner lease_ms now_ms =
     (case lock_manager_find_or_create lm resource of
        (lm1, None) \<Rightarrow> (lm1, False)
      | (lm1, Some idx) \<Rightarrow>
          let lock = lm_locks lm1 ! idx in
          if l_state lock = LOCK_ACQUIRED \<and> l_acquired_at_ms lock + l_lease_timeout_ms lock > now_ms then
            (if length (lm_wait_queue lm1) < DIST_LOCK_WAIT_QUEUE_SIZE
             then lm1\<lparr>lm_wait_queue := lm_wait_queue lm1 @
                    [\<lparr>w_owner = strncpy_z DIST_LOCK_MAX_OWNER_LEN owner, w_wait_since_ms = now_ms\<rparr>]\<rparr>
             else lm1, False)
          else
            (lock_put lm1 idx (lock\<lparr>l_owner := strncpy_z DIST_LOCK_MAX_OWNER_LEN owner,
               l_lease_timeout_ms := lease_ms, l_acquired_at_ms := now_ms,
               l_version := l_version lock + 1, l_state := LOCK_ACQUIRED\<rparr>), True))"

definition lock_release :: "LockManager \<Rightarrow> string \<Rightarrow> string \<Rightarrow> LockManager \<times> bool" where
  "lock_release lm resource owner =
     (case lock_manager_find_or_create lm resource of
        (lm1, None) \<Rightarrow> (lm1, False)
      | (lm1, Some idx) \<Rightarrow>
          let lock = lm_locks lm1 ! idx in
          if l_state lock \<noteq> LOCK_ACQUIRED then (lm1, False)
          else if l_owner lock \<noteq> owner then (lm1, False)
          else
            let lm2 = lock_put lm1 idx (lock\<lparr>l_state := LOCK_FREE, l_owner := [], l_lease_timeout_ms := 0\<rparr>) in
            (if length (lm_wait_queue lm2) > 0 then lm2\<lparr>lm_wait_queue := tl (lm_wait_queue lm2)\<rparr> else lm2, True))"

definition lock_renew_lease ::
  "LockManager \<Rightarrow> string \<Rightarrow> string \<Rightarrow> int \<Rightarrow> int \<Rightarrow> LockManager \<times> bool" where
  "lock_renew_lease lm resource owner extend_ms now_ms =
     (case lock_manager_find_or_create lm resource of
        (lm1, None) \<Rightarrow> (lm1, False)
      | (lm1, Some idx) \<Rightarrow>
          let lock = lm_locks lm1 ! idx in
          if l_state lock \<noteq> LOCK_ACQUIRED then (lm1, False)
          else if l_owner lock \<noteq> owner then (lm1, False)
          else (lock_put lm1 idx (lock\<lparr>l_lease_timeout_ms := l_lease_timeout_ms lock + extend_ms,
                  l_acquired_at_ms := now_ms\<rparr>), True))"

definition lock_expire_one :: "int \<Rightarrow> DistLock \<Rightarrow> DistLock" where
  "lock_expire_one now_ms lock =
     (if l_state lock = LOCK_ACQUIRED \<and> l_acquired_at_ms lock + l_lease_timeout_ms lock \<le> now_ms
      then lock\<lparr>l_state := LOCK_EXPIRED\<rparr> else lock)"

definition lock_handle_expiry :: "LockManager \<Rightarrow> int \<Rightarrow> LockManager \<times> nat" where
  "lock_handle_expiry lm now_ms =
     (lm\<lparr>lm_locks := map (lock_expire_one now_ms) (lm_locks lm)\<rparr>,
      count_if (\<lambda>lock. l_state lock = LOCK_ACQUIRED \<and>
        l_acquired_at_ms lock + l_lease_timeout_ms lock \<le> now_ms) (lm_locks lm))"

definition lock_is_owned_by :: "LockManager \<Rightarrow> string \<Rightarrow> string \<Rightarrow> LockManager \<times> bool" where
  "lock_is_owned_by lm resource owner =
     (case lock_manager_find_or_create lm resource of
        (lm1, None) \<Rightarrow> (lm1, False)
      | (lm1, Some idx) \<Rightarrow>
          (lm1, l_state (lm_locks lm1 ! idx) = LOCK_ACQUIRED \<and> l_owner (lm_locks lm1 ! idx) = owner))"

definition lock_remaining_lease_ms :: "LockManager \<Rightarrow> string \<Rightarrow> int \<Rightarrow> LockManager \<times> int" where
  "lock_remaining_lease_ms lm resource now_ms =
     (case lock_manager_find_or_create lm resource of
        (lm1, None) \<Rightarrow> (lm1, 0)
      | (lm1, Some idx) \<Rightarrow>
          let lock = lm_locks lm1 ! idx in
          if l_state lock \<noteq> LOCK_ACQUIRED then (lm1, 0)
          else
            let remaining = l_acquired_at_ms lock + l_lease_timeout_ms lock - now_ms in
            (lm1, if remaining > 0 then remaining else 0))"

definition redlock_majority :: "nat \<Rightarrow> nat \<Rightarrow> int \<Rightarrow> bool" where
  "redlock_majority votes_for total_n quorum \<longleftrightarrow> int votes_for \<ge> quorum \<and> votes_for > total_n div 2"

fun redlock_release_loop ::
  "LockManager list \<Rightarrow> string \<Rightarrow> string \<Rightarrow> LockManager list \<times> nat" where
  "redlock_release_loop [] resource owner = ([], 0)"
| "redlock_release_loop (lm # nodes) resource owner =
     (case lock_release lm resource owner of (lm', ok) \<Rightarrow>
        (case redlock_release_loop nodes resource owner of (nodes', released) \<Rightarrow>
           (lm' # nodes', if ok then Suc released else released)))"

definition redlock_release :: "LockManager list \<Rightarrow> string \<Rightarrow> string \<Rightarrow> LockManager list \<times> bool" where
  "redlock_release nodes resource owner =
     (case redlock_release_loop nodes resource owner of (nodes', released) \<Rightarrow> (nodes', released > 0))"

fun redlock_acquire_loop ::
  "LockManager list \<Rightarrow> string \<Rightarrow> string \<Rightarrow> int \<Rightarrow> int \<Rightarrow> LockManager list \<times> nat" where
  "redlock_acquire_loop [] resource owner lease_ms now_ms = ([], 0)"
| "redlock_acquire_loop (lm # nodes) resource owner lease_ms now_ms =
     (case lock_acquire lm resource owner lease_ms now_ms of (lm', ok) \<Rightarrow>
        (case redlock_acquire_loop nodes resource owner lease_ms now_ms of (nodes', acquired) \<Rightarrow>
           (lm' # nodes', if ok then Suc acquired else acquired)))"

definition redlock_acquire ::
  "LockManager list \<Rightarrow> int \<Rightarrow> string \<Rightarrow> string \<Rightarrow> int \<Rightarrow> int \<Rightarrow> LockManager list \<times> bool" where
  "redlock_acquire nodes quorum resource owner lease_ms now_ms =
     (case redlock_acquire_loop nodes resource owner lease_ms now_ms of (nodes', acquired) \<Rightarrow>
        if \<not> redlock_majority acquired (length nodes) quorum
        then (fst (redlock_release nodes' resource owner), False)
        else (nodes', True))"

definition lock_process_wait_queue :: "LockManager \<Rightarrow> string \<Rightarrow> int \<Rightarrow> LockManager \<times> bool" where
  "lock_process_wait_queue lm resource now_ms =
     (if length (lm_wait_queue lm) = 0 then (lm, False)
      else
        (case lock_manager_find_or_create lm resource of
           (lm1, None) \<Rightarrow> (lm1, False)
         | (lm1, Some idx) \<Rightarrow>
             let lock = lm_locks lm1 ! idx in
             if l_state lock \<noteq> LOCK_WAITING \<and> l_state lock \<noteq> LOCK_FREE then (lm1, False)
             else
               let w = hd (lm_wait_queue lm1) in
               (case lock_acquire lm1 resource (w_owner w) DIST_LOCK_DEFAULT_LEASE_MS now_ms of (lm2, ok) \<Rightarrow>
                  (if ok then lm2\<lparr>lm_wait_queue := tl (lm_wait_queue lm2)\<rparr> else lm2, ok))))"

definition lock_try_upgrade :: "LockManager \<Rightarrow> string \<Rightarrow> string \<Rightarrow> int \<Rightarrow> LockManager \<times> bool" where
  "lock_try_upgrade lm resource owner now_ms =
     (case lock_manager_find_or_create lm resource of
        (lm1, None) \<Rightarrow> (lm1, False)
      | (lm1, Some idx) \<Rightarrow>
          let lock = lm_locks lm1 ! idx in
          if l_state lock \<noteq> LOCK_ACQUIRED then (lm1, False)
          else if l_owner lock \<noteq> owner then (lm1, False)
          else if list_ex (\<lambda>w. w_owner w \<noteq> owner) (lm_wait_queue lm1) then (lm1, False)
          else (lock_put lm1 idx (lock\<lparr>l_version := l_version lock + 1, l_acquired_at_ms := now_ms\<rparr>), True))"

section \<open>Operations as events\<close>

text \<open>
  One event per operation of the manager, with the caller's arguments; a run is a sequence of events.
\<close>

datatype lock_op =
  Acquire string string int int
| Release string string
| Renew string string int int
| Expire int
| Owned string string
| Remaining string int
| ProcessQueue string int
| Upgrade string string int

fun lock_exec :: "lock_op \<Rightarrow> LockManager \<Rightarrow> LockManager" where
  "lock_exec (Acquire r ow lease now) lm = fst (lock_acquire lm r ow lease now)"
| "lock_exec (Release r ow) lm = fst (lock_release lm r ow)"
| "lock_exec (Renew r ow ext now) lm = fst (lock_renew_lease lm r ow ext now)"
| "lock_exec (Expire now) lm = fst (lock_handle_expiry lm now)"
| "lock_exec (Owned r ow) lm = fst (lock_is_owned_by lm r ow)"
| "lock_exec (Remaining r now) lm = fst (lock_remaining_lease_ms lm r now)"
| "lock_exec (ProcessQueue r now) lm = fst (lock_process_wait_queue lm r now)"
| "lock_exec (Upgrade r ow now) lm = fst (lock_try_upgrade lm r ow now)"

text \<open>
  An event that happens before time \<open>T\<close> and is not a request of owner \<open>ow\<close> about resource \<open>r\<close> that
  changes its own lock.
\<close>

fun lock_foreign :: "string \<Rightarrow> string \<Rightarrow> int \<Rightarrow> lock_op \<Rightarrow> bool" where
  "lock_foreign r ow T (Acquire r' ow' lease now) \<longleftrightarrow> now < T"
| "lock_foreign r ow T (Release r' ow') \<longleftrightarrow> r' \<noteq> r \<or> ow' \<noteq> ow"
| "lock_foreign r ow T (Renew r' ow' ext now) \<longleftrightarrow> r' \<noteq> r \<or> ow' \<noteq> ow"
| "lock_foreign r ow T (Expire now) \<longleftrightarrow> now < T"
| "lock_foreign r ow T (Owned r' ow') \<longleftrightarrow> True"
| "lock_foreign r ow T (Remaining r' now) \<longleftrightarrow> True"
| "lock_foreign r ow T (ProcessQueue r' now) \<longleftrightarrow> now < T"
| "lock_foreign r ow T (Upgrade r' ow' now) \<longleftrightarrow> r' \<noteq> r \<or> ow' \<noteq> ow"

definition lock_entry :: "LockManager \<Rightarrow> string \<Rightarrow> DistLock option" where
  "lock_entry lm r = map_option (\<lambda>i. lm_locks lm ! i) (find_index (\<lambda>l. l_resource l = r) (lm_locks lm))"

text \<open>The lock of \<open>r\<close> is held by \<open>ow\<close> under a lease that ends at \<open>T\<close>.\<close>

definition lock_held :: "LockManager \<Rightarrow> string \<Rightarrow> string \<Rightarrow> int \<Rightarrow> bool" where
  "lock_held lm r ow T \<longleftrightarrow>
     (\<exists>l. lock_entry lm r = Some l \<and> l_state l = LOCK_ACQUIRED \<and> l_owner l = ow \<and>
          l_acquired_at_ms l + l_lease_timeout_ms l = T)"

section \<open>The lock table\<close>

interpretation locks: slot_table lm_locks l_resource dist_lock_init DIST_LOCK_MAX_LOCKS
  DIST_LOCK_MAX_RESOURCE_LEN lock_manager_find_or_create
  by unfold_locales (simp_all add: lock_manager_find_or_create_def dist_lock_init_def)

lemma lock_foc_queue:
  "lock_manager_find_or_create lm r = (lm', x) \<Longrightarrow> lm_wait_queue lm' = lm_wait_queue lm"
  by (auto simp: lock_manager_find_or_create_def split: option.splits if_splits)

lemma lock_entry_queue [simp]: "lock_entry (lm\<lparr>lm_wait_queue := q\<rparr>) r = lock_entry lm r"
  by (simp add: lock_entry_def)

lemma lock_entry_foc:
  assumes "lock_entry lm r = Some l" and "lock_manager_find_or_create lm k = (lm', x)"
  shows "lock_entry lm' r = Some l"
proof -
  obtain i where i: "find_index (\<lambda>l. l_resource l = r) (lm_locks lm) = Some i" "lm_locks lm ! i = l"
    using assms(1) by (auto simp: lock_entry_def)
  from locks.foc_keeps [OF i(1) assms(2)] i(2) show ?thesis by (simp add: lock_entry_def)
qed

lemma lock_foc_entry:
  assumes "lock_entry lm r = Some l"
  obtains i where "lock_manager_find_or_create lm r = (lm, Some i)" and "lm_locks lm ! i = l"
  using assms by (auto simp: lock_entry_def lock_manager_find_or_create_def)

lemma lock_entry_put_other:
  assumes "lock_entry lm r = Some l" and "lock_manager_find_or_create lm k = (lm1, Some j)" and "k \<noteq> r"
    and "l_resource l' = l_resource (lm_locks lm1 ! j)"
  shows "lock_entry (lock_put lm1 j l') r = Some l"
proof -
  obtain i where i: "find_index (\<lambda>l. l_resource l = r) (lm_locks lm) = Some i" "lm_locks lm ! i = l"
    using assms(1) by (auto simp: lock_entry_def)
  note keep = locks.foc_keeps [OF i(1) assms(2)]
  have "j \<noteq> i" by (rule locks.foc_other_index [OF i(1) assms(2,3)])
  moreover have "find_index (\<lambda>l. l_resource l = r) ((lm_locks lm1)[j := l']) = Some i"
    using keep(1) assms(4) by (subst find_index_update_other) auto
  ultimately show ?thesis using keep(2) i(2) by (simp add: lock_entry_def lock_put_def)
qed

lemma find_index_map:
  "(\<And>x. x \<in> set xs \<Longrightarrow> P (f x) = P x) \<Longrightarrow> find_index P (map f xs) = find_index P xs"
  by (induction xs) auto

lemma lock_entry_expire:
  assumes "lock_entry lm r = Some l" and "now < l_acquired_at_ms l + l_lease_timeout_ms l"
  shows "lock_entry (fst (lock_handle_expiry lm now)) r = Some l"
proof -
  obtain i where i: "find_index (\<lambda>l. l_resource l = r) (lm_locks lm) = Some i" "lm_locks lm ! i = l"
    using assms(1) by (auto simp: lock_entry_def)
  have "find_index (\<lambda>l. l_resource l = r) (map (lock_expire_one now) (lm_locks lm)) = Some i"
    using i(1) by (subst find_index_map) (auto simp: lock_expire_one_def)
  then show ?thesis
    using i find_index_SomeD(1) [OF i(1)] assms(2)
    by (simp add: lock_entry_def lock_handle_expiry_def lock_expire_one_def)
qed

section \<open>A held lock under foreign events\<close>

lemma lock_acquire_keeps:
  assumes "lock_entry lm r = Some l" and "l_state l = LOCK_ACQUIRED"
    and "now < l_acquired_at_ms l + l_lease_timeout_ms l"
  shows "lock_entry (fst (lock_acquire lm r' ow' lease now)) r = Some l"
proof (cases "r' = r")
  case True
  obtain i where "lock_manager_find_or_create lm r = (lm, Some i)" and "lm_locks lm ! i = l"
    by (rule lock_foc_entry [OF assms(1)])
  with True assms show ?thesis by (simp add: lock_acquire_def Let_def)
next
  case False
  obtain lm1 x where foc: "lock_manager_find_or_create lm r' = (lm1, x)" by fastforce
  note keep = lock_entry_foc [OF assms(1) foc]
  show ?thesis
  proof (cases x)
    case (Some j)
    from lock_entry_put_other [OF assms(1) foc [unfolded Some] False]
    have "l_resource l' = l_resource (lm_locks lm1 ! j) \<Longrightarrow> lock_entry (lock_put lm1 j l') r = Some l" for l' .
    with foc Some keep show ?thesis by (simp add: lock_acquire_def Let_def)
  qed (use foc keep in \<open>simp add: lock_acquire_def\<close>)
qed

text \<open>The owner-checked updates: a request for another resource, or from another owner, is harmless.\<close>

lemma lock_owner_op_keeps:
  assumes "lock_entry lm r = Some l" and "l_owner l = ow" and "r' \<noteq> r \<or> ow' \<noteq> ow"
  shows "lock_entry (fst (lock_release lm r' ow')) r = Some l"
    and "lock_entry (fst (lock_renew_lease lm r' ow' ext now)) r = Some l"
    and "lock_entry (fst (lock_try_upgrade lm r' ow' now)) r = Some l"
proof -
  obtain lm1 x where foc: "lock_manager_find_or_create lm r' = (lm1, x)" by fastforce
  note keep = lock_entry_foc [OF assms(1) foc]
  have put: "lock_entry (lock_put lm1 j l') r = Some l"
    if "x = Some j" "r' \<noteq> r" "l_resource l' = l_resource (lm_locks lm1 ! j)" for j l'
    using lock_entry_put_other [OF assms(1) foc [unfolded that(1)] that(2,3)] .
  have same: "l_owner (lm_locks lm1 ! j) \<noteq> ow'" if "x = Some j" "r' = r" for j
  proof -
    obtain i where "lock_manager_find_or_create lm r = (lm, Some i)" and "lm_locks lm ! i = l"
      by (rule lock_foc_entry [OF assms(1)])
    with foc that assms(2,3) show ?thesis by auto
  qed
  have "lock_entry (fst (lock_release lm r' ow')) r = Some l \<and>
      lock_entry (fst (lock_renew_lease lm r' ow' ext now)) r = Some l \<and>
      lock_entry (fst (lock_try_upgrade lm r' ow' now)) r = Some l"
  proof (cases x)
    case None
    with foc keep show ?thesis
      by (simp add: lock_release_def lock_renew_lease_def lock_try_upgrade_def)
  next
    case (Some j)
    show ?thesis
    proof (cases "r' = r")
      case True
      with foc keep Some same [OF Some True] show ?thesis
        by (simp add: lock_release_def lock_renew_lease_def lock_try_upgrade_def Let_def)
    next
      case False
      with foc keep Some put [OF Some False] show ?thesis
        by (simp add: lock_release_def lock_renew_lease_def lock_try_upgrade_def Let_def)
    qed
  qed
  then show "lock_entry (fst (lock_release lm r' ow')) r = Some l"
    and "lock_entry (fst (lock_renew_lease lm r' ow' ext now)) r = Some l"
    and "lock_entry (fst (lock_try_upgrade lm r' ow' now)) r = Some l" by auto
qed

lemma lock_process_keeps:
  assumes "lock_entry lm r = Some l" and "l_state l = LOCK_ACQUIRED"
    and "now < l_acquired_at_ms l + l_lease_timeout_ms l"
  shows "lock_entry (fst (lock_process_wait_queue lm r' now)) r = Some l"
proof -
  obtain lm1 x where foc: "lock_manager_find_or_create lm r' = (lm1, x)" by fastforce
  note keep = lock_entry_foc [OF assms(1) foc]
  obtain lm2 ok where acq: "lock_acquire lm1 r' (w_owner (hd (lm_wait_queue lm1))) DIST_LOCK_DEFAULT_LEASE_MS now =
      (lm2, ok)" by fastforce
  with lock_acquire_keeps [OF keep assms(2,3)] have "lock_entry lm2 r = Some l" by (metis fst_conv)
  with foc keep acq assms(1) show ?thesis
    by (cases x) (auto simp: lock_process_wait_queue_def Let_def)
qed

lemma lock_query_keeps:
  assumes "lock_entry lm r = Some l"
  shows "lock_entry (fst (lock_is_owned_by lm r' ow')) r = Some l"
    and "lock_entry (fst (lock_remaining_lease_ms lm r' now)) r = Some l"
proof -
  obtain lm1 x where foc: "lock_manager_find_or_create lm r' = (lm1, x)" by fastforce
  note keep = lock_entry_foc [OF assms(1) foc]
  from foc keep show "lock_entry (fst (lock_is_owned_by lm r' ow')) r = Some l"
    and "lock_entry (fst (lock_remaining_lease_ms lm r' now)) r = Some l"
    by (cases x; simp add: lock_is_owned_by_def lock_remaining_lease_ms_def Let_def)+
qed

lemmas lock_keeps =
  lock_acquire_keeps lock_owner_op_keeps lock_process_keeps lock_query_keeps lock_entry_expire

lemma lock_exec_keeps:
  assumes "lock_entry lm r = Some l" and "l_state l = LOCK_ACQUIRED" and "l_owner l = ow"
    and "l_acquired_at_ms l + l_lease_timeout_ms l = T" and "lock_foreign r ow T op"
  shows "lock_entry (lock_exec op lm) r = Some l"
  using assms by (cases op) (auto intro: lock_keeps)

lemma lock_run_keeps:
  assumes "lock_entry lm r = Some l" and "l_state l = LOCK_ACQUIRED" and "l_owner l = ow"
    and "l_acquired_at_ms l + l_lease_timeout_ms l = T" and "list_all (lock_foreign r ow T) ops"
  shows "lock_entry (fold lock_exec ops lm) r = Some l"
  using assms
proof (induction ops arbitrary: lm)
  case (Cons op ops)
  then show ?case using lock_exec_keeps [OF Cons.prems(1-4), of op] by simp
qed simp

text \<open>What a successful acquisition leaves behind.\<close>

lemma lock_acquire_entry:
  assumes "lock_acquire lm r ow lease now = (lm', True)" and "length r < DIST_LOCK_MAX_RESOURCE_LEN"
  shows "\<exists>l. lock_entry lm' r = Some l \<and> l_state l = LOCK_ACQUIRED \<and>
    l_owner l = strncpy_z DIST_LOCK_MAX_OWNER_LEN ow \<and> l_acquired_at_ms l = now \<and> l_lease_timeout_ms l = lease"
proof -
  obtain lm1 x where foc: "lock_manager_find_or_create lm r = (lm1, x)" by fastforce
  with assms(1) obtain i where x: "x = Some i" by (cases x) (auto simp: lock_acquire_def)
  note foc = foc [unfolded x]
  have find: "find_index (\<lambda>l. l_resource l = r) (lm_locks lm1) = Some i"
    by (rule locks.foc_find [OF foc assms(2)])
  note key = find_index_SomeD(2) [OF find]
  have lt: "i < length (lm_locks lm1)" by (rule find_index_SomeD(1) [OF find])
  show ?thesis
    using assms(1) foc find lt find_index_update_same [OF find] key
    by (auto simp: lock_acquire_def Let_def lock_entry_def lock_put_def split: if_splits)
qed

lemma lock_acquire_refused:
  assumes "lock_entry lm r = Some l" and "l_state l = LOCK_ACQUIRED"
    and "now < l_acquired_at_ms l + l_lease_timeout_ms l"
  shows "\<not> snd (lock_acquire lm r ow' lease now)"
proof -
  obtain i where "lock_manager_find_or_create lm r = (lm, Some i)" and "lm_locks lm ! i = l"
    by (rule lock_foc_entry [OF assms(1)])
  with assms show ?thesis by (simp add: lock_acquire_def Let_def)
qed

section \<open>Redlock as votes of the nodes\<close>

lemma redlock_acquire_loop_eq:
  "redlock_acquire_loop nodes r ow lease now =
     (map (\<lambda>lm. fst (lock_acquire lm r ow lease now)) nodes,
      count_if (\<lambda>lm. snd (lock_acquire lm r ow lease now)) nodes)"
  by (induction nodes) (auto split: prod.splits)

lemma redlock_release_loop_eq:
  "redlock_release_loop nodes r ow =
     (map (\<lambda>lm. fst (lock_release lm r ow)) nodes, count_if (\<lambda>lm. snd (lock_release lm r ow)) nodes)"
  by (induction nodes) (auto split: prod.splits)



lemma lock_release_not_owned:
  assumes "length r < DIST_LOCK_MAX_RESOURCE_LEN"
  shows "\<not> snd (lock_is_owned_by (fst (lock_release lm r ow)) r ow)"
proof -
  obtain lm1 x where foc: "lock_manager_find_or_create lm r = (lm1, x)" by fastforce
  show ?thesis
  proof (cases x)
    case None
    with foc have "lm1 = lm" by (cases rule: locks.foc_cases [of r lm]) auto
    with foc None show ?thesis by (simp add: lock_release_def lock_is_owned_by_def)
  next
    case (Some i)
    note foc = foc [unfolded Some]
    have find: "find_index (\<lambda>l. l_resource l = r) (lm_locks lm1) = Some i"
      by (rule locks.foc_find [OF foc assms])
    note key = find_index_SomeD(2) [OF find]
    have lt: "i < length (lm_locks lm1)" by (rule find_index_SomeD(1) [OF find])
    have "lock_manager_find_or_create lm1 r = (lm1, Some i)"
      using find by (simp add: lock_manager_find_or_create_def)
    moreover have "find_index (\<lambda>l. l_resource l = r) ((lm_locks lm1)[i := l']) = Some i"
      if "l_resource l' = r" for l' using find_index_update_same [OF find that] .
    ultimately show ?thesis
      using foc find lt key
      by (simp add: lock_release_def lock_is_owned_by_def Let_def lock_put_def lock_manager_find_or_create_def)
  qed
qed

section \<open>Properties\<close>

text \<open>
  C10. Mutual exclusion under a lease, for a resource name and an owner name of less than 64 characters (longer ones are
  stored cut): once an owner has acquired the resource, then whatever requests reach the manager at times before the end of the
  lease, except releases, renewals and upgrades of this resource by this owner, the resource stays owned by it; every
  further acquisition before the end of the lease is refused, and the remaining lease is reported exactly. Times are
  unbounded integers.
\<close>

theorem lock_mutual_exclusion:
  assumes "lock_acquire lm r ow lease now = (lm1, True)"
    and "length r < DIST_LOCK_MAX_RESOURCE_LEN" and "length ow < DIST_LOCK_MAX_OWNER_LEN"
    and "list_all (lock_foreign r ow (now + lease)) ops" and "t < now + lease"
  shows "snd (lock_is_owned_by (fold lock_exec ops lm1) r ow) \<and>
    \<not> snd (lock_acquire (fold lock_exec ops lm1) r ow' lease' t) \<and>
    snd (lock_remaining_lease_ms (fold lock_exec ops lm1) r t) = now + lease - t"
proof -
  obtain l where l: "lock_entry lm1 r = Some l" "l_state l = LOCK_ACQUIRED" "l_owner l = ow"
      "l_acquired_at_ms l = now" "l_lease_timeout_ms l = lease"
    using lock_acquire_entry [OF assms(1,2)] assms(3) by auto
  have e: "lock_entry (fold lock_exec ops lm1) r = Some l"
    by (rule lock_run_keeps [OF l(1-3) _ assms(4)]) (simp add: l)
  obtain i where i: "lock_manager_find_or_create (fold lock_exec ops lm1) r = (fold lock_exec ops lm1, Some i)"
      "lm_locks (fold lock_exec ops lm1) ! i = l"
    by (rule lock_foc_entry [OF e])
  have "\<not> snd (lock_acquire (fold lock_exec ops lm1) r ow' lease' t)"
    by (rule lock_acquire_refused [OF e l(2)]) (simp add: l assms(5))
  with i l assms(5) show ?thesis by (simp add: lock_is_owned_by_def lock_remaining_lease_ms_def Let_def)
qed

theorem lock_mutual_exclusion_witness:
  "\<not> snd (lock_acquire (fold lock_exec [Release ''db'' ''B'', ProcessQueue ''db'' 20, Expire 30]
      (fst (lock_acquire lock_manager_init ''db'' ''A'' 100 0))) ''db'' ''B'' 100 99)"
proof -
  have "lock_acquire lock_manager_init ''db'' ''A'' 100 0 =
      (fst (lock_acquire lock_manager_init ''db'' ''A'' 100 0), True)"
    by (simp add: lock_acquire_def lock_manager_init_def lock_manager_find_or_create_def dist_lock_init_def
        DIST_LOCK_MAX_LOCKS_def Let_def)
  from lock_mutual_exclusion [OF this, of "[Release ''db'' ''B'', ProcessQueue ''db'' 20, Expire 30]" 99]
  show ?thesis by (simp add: DIST_LOCK_MAX_RESOURCE_LEN_def DIST_LOCK_MAX_OWNER_LEN_def)
qed



text \<open>
  A failed \<open>redlock_acquire\<close> leaves nothing behind: when no majority was obtained, no node reports the
  resource as owned by the requester afterwards.
\<close>

theorem redlock_failure_releases:
  assumes "redlock_acquire nodes q r ow lease now = (nodes1, False)"
    and "length r < DIST_LOCK_MAX_RESOURCE_LEN"
  shows "list_all (\<lambda>lm. \<not> snd (lock_is_owned_by lm r ow)) nodes1"
  using assms lock_release_not_owned [OF assms(2)]
  by (auto simp: redlock_acquire_def redlock_release_def redlock_acquire_loop_eq redlock_release_loop_eq
      list_all_iff split: if_splits)

theorem redlock_failure_releases_witness:
  "list_all (\<lambda>lm. \<not> snd (lock_is_owned_by lm ''db'' ''B''))
     (fst (redlock_acquire [lock_manager_init, fst (lock_acquire lock_manager_init ''db'' ''A'' 9 0)]
        2 ''db'' ''B'' 9 1))"
proof -
  let ?n = "[lock_manager_init, fst (lock_acquire lock_manager_init ''db'' ''A'' 9 0)]"
  have "snd (redlock_acquire ?n 2 ''db'' ''B'' 9 1) = False"
    by (simp add: redlock_acquire_def redlock_acquire_loop_eq redlock_majority_def
        lock_acquire_def lock_manager_init_def lock_manager_find_or_create_def dist_lock_init_def
        DIST_LOCK_MAX_LOCKS_def DIST_LOCK_MAX_RESOURCE_LEN_def Let_def lock_put_def)
  then have "redlock_acquire ?n 2 ''db'' ''B'' 9 1 = (fst (redlock_acquire ?n 2 ''db'' ''B'' 9 1), False)"
    by (metis prod.collapse)
  from redlock_failure_releases [OF this] show ?thesis by (simp add: DIST_LOCK_MAX_RESOURCE_LEN_def)
qed

section \<open>Divergences from the comments\<close>

text \<open>
  The comment at \<open>lock_process_wait_queue\<close> promises that every waiter reaches the head of the queue and is
  granted the lock. \<open>lock_release\<close> already drops the head without granting it, so a single waiter is lost.
\<close>

lemma lock_release_drops_waiter:
  assumes "lock_entry lm r = Some l" and "l_state l = LOCK_ACQUIRED" and "l_owner l = ow"
    and "lm_wait_queue lm = [w]"
  shows "snd (lock_release lm r ow) \<and> snd (lock_process_wait_queue (fst (lock_release lm r ow)) r now) = False"
proof -
  obtain i where "lock_manager_find_or_create lm r = (lm, Some i)" and "lm_locks lm ! i = l"
    by (rule lock_foc_entry [OF assms(1)])
  with assms show ?thesis
    by (simp add: lock_release_def lock_process_wait_queue_def Let_def lock_put_def)
qed

text \<open>An owner name of 64 or more characters is stored truncated, so its owner can never release the lock.\<close>

lemma lock_long_owner_stuck:
  assumes "lock_acquire lm r ow lease now = (lm1, True)" and "length r < DIST_LOCK_MAX_RESOURCE_LEN"
    and "DIST_LOCK_MAX_OWNER_LEN \<le> length ow"
  shows "lock_release lm1 r ow = (lm1, False)"
proof -
  obtain l where l: "lock_entry lm1 r = Some l" "l_owner l = strncpy_z DIST_LOCK_MAX_OWNER_LEN ow"
    using lock_acquire_entry [OF assms(1,2)] by auto
  obtain i where "lock_manager_find_or_create lm1 r = (lm1, Some i)" and "lm_locks lm1 ! i = l"
    by (rule lock_foc_entry [OF l(1)])
  moreover have "strncpy_z DIST_LOCK_MAX_OWNER_LEN ow \<noteq> ow"
    using assms(3) length_strncpy_z [of DIST_LOCK_MAX_OWNER_LEN ow]
    by (auto simp: DIST_LOCK_MAX_OWNER_LEN_def)
  ultimately show ?thesis using l by (simp add: lock_release_def Let_def)
qed

text \<open>
  A resource name of 64 or more characters is stored truncated and compared in full, so it is never found again: two owners
  acquire it at the same time.
\<close>

lemma lock_long_name_two_owners:
  "let r = replicate 64 (CHR ''r''); lm1 = fst (lock_acquire lock_manager_init r ''A'' 100 0)
   in snd (lock_acquire lock_manager_init r ''A'' 100 0) \<and> snd (lock_acquire lm1 r ''B'' 100 0)"
  by code_simp

end
