(* ===== verification/LockGraph.thy ===== *)
theory LockGraph
  imports DistLock
begin

text \<open>
  Deadlock detection of the lock manager (\<open>lock_deadlock_detect\<close> in
  \<open>mini-dist-transaction/src/dist_lock.c\<close>): the construction of the adjacency matrix, the in-place
  Floyd-Warshall closure and the count of the diagonal. The closure is proved equal to the transitive closure
  of the edges; the edges themselves do not follow the owners' waits, which the last lemma states.
\<close>

section \<open>The code\<close>

type_synonym graph = "nat \<Rightarrow> nat \<Rightarrow> bool"

definition lock_graph_size :: "LockManager \<Rightarrow> nat" where
  "lock_graph_size lm = (if length (lm_locks lm) > 16 then 16 else length (lm_locks lm))"

definition lock_wait_graph :: "LockManager \<Rightarrow> graph" where
  "lock_wait_graph lm = (\<lambda>i j.
     i < lock_graph_size lm \<and> j < lock_graph_size lm \<and> i \<noteq> j \<and>
     l_state (lm_locks lm ! i) = LOCK_ACQUIRED \<and>
     l_owner (lm_locks lm ! i) = l_owner (lm_locks lm ! j) \<and>
     list_ex (\<lambda>w. w_owner w = l_owner (lm_locks lm ! j)) (lm_wait_queue lm))"

definition fw_relax :: "nat \<Rightarrow> nat \<Rightarrow> nat \<Rightarrow> graph \<Rightarrow> graph" where
  "fw_relax k i j g = (if g i k \<and> g k j then g(i := (g i)(j := True)) else g)"

definition fw_round :: "nat \<Rightarrow> nat \<Rightarrow> graph \<Rightarrow> graph" where
  "fw_round n k = fold (\<lambda>i. fold (fw_relax k i) [0..<n]) [0..<n]"

definition floyd_warshall :: "nat \<Rightarrow> graph \<Rightarrow> graph" where
  "floyd_warshall n = fold (fw_round n) [0..<n]"

definition lock_deadlock_detect :: "LockManager \<Rightarrow> nat" where
  "lock_deadlock_detect lm =
     (let n = lock_graph_size lm; graph = floyd_warshall n (lock_wait_graph lm)
      in count_if (\<lambda>i. graph i i) [0..<n])"

section \<open>The in-place closure\<close>

definition rel_of :: "graph \<Rightarrow> (nat \<times> nat) set" where
  "rel_of g = {(i, j). g i j}"

lemma rel_of_iff [simp]: "(i, j) \<in> rel_of g \<longleftrightarrow> g i j"
  by (simp add: rel_of_def)

text \<open>A fold of steps that only add edges: what a step adds is there at the end.\<close>

lemma fold_mono_graph:
  assumes "\<And>x g. rel_of g \<subseteq> rel_of (f x g)"
  shows "rel_of g \<subseteq> rel_of (fold f xs g)"
proof (induction xs arbitrary: g)
  case (Cons x xs)
  from assms [of g x] Cons.IH [of "f x g"] show ?case by simp
qed simp

lemma fold_establishes:
  assumes mono: "\<And>x g. rel_of g \<subseteq> rel_of (f x g)"
    and est: "\<And>h. rel_of g \<subseteq> rel_of h \<Longrightarrow> e \<in> rel_of (f x h)" and "x \<in> set xs"
  shows "e \<in> rel_of (fold f xs g)"
proof -
  obtain ys zs where "xs = ys @ x # zs" using assms(3) by (auto simp: in_set_conv_decomp)
  moreover have "e \<in> rel_of (f x (fold f ys g))" by (rule est) (rule fold_mono_graph [OF mono])
  ultimately show ?thesis using fold_mono_graph [where f = f and g = "f x (fold f ys g)" and xs = zs, OF mono] by auto
qed

lemma fold_graph_inv:
  assumes "\<And>x g. P g \<Longrightarrow> P (f x g)" and "P g"
  shows "P (fold f xs g)"
  using assms(2) by (induction xs arbitrary: g) (auto intro: assms(1))

lemma fw_relax_mono: "rel_of g \<subseteq> rel_of (fw_relax k i j g)"
  by (auto simp: fw_relax_def)

lemma fw_row_mono: "rel_of g \<subseteq> rel_of (fold (fw_relax k i) js g)"
  by (rule fold_mono_graph) (rule fw_relax_mono)

lemma fw_round_mono: "rel_of g \<subseteq> rel_of (fw_round n k g)"
  unfolding fw_round_def by (rule fold_mono_graph) (rule fw_row_mono)

lemma fw_round_adds:
  assumes "g i k" and "g k j" and "i < n" and "j < n"
  shows "(i, j) \<in> rel_of (fw_round n k g)"
  unfolding fw_round_def
proof (rule fold_establishes [where x = i])
  fix h
  assume h: "rel_of g \<subseteq> rel_of h"
  show "(i, j) \<in> rel_of (fold (fw_relax k i) [0..<n] h)"
  proof (rule fold_establishes [where x = j])
    fix h'
    assume "rel_of h \<subseteq> rel_of h'"
    with h assms(1,2) have "h' i k" and "h' k j" using rel_of_iff by blast+
    then show "(i, j) \<in> rel_of (fw_relax k i j h')" by (simp add: fw_relax_def)
  qed (use assms in \<open>auto intro: subsetD [OF fw_relax_mono]\<close>)
qed (use assms in \<open>auto intro: subsetD [OF fw_row_mono]\<close>)

lemma fw_relax_sound:
  assumes "rel_of g \<subseteq> E\<^sup>+"
  shows "rel_of (fw_relax k i j g) \<subseteq> E\<^sup>+"
proof (cases "g i k \<and> g k j")
  case True
  then have "(i, k) \<in> E\<^sup>+" and "(k, j) \<in> E\<^sup>+" using assms by auto
  then have "(i, j) \<in> E\<^sup>+" by (rule trancl_trans)
  with assms True show ?thesis by (auto simp: fw_relax_def rel_of_def split: if_splits)
qed (use assms in \<open>auto simp: fw_relax_def\<close>)

lemma floyd_warshall_sound: "rel_of (floyd_warshall n g) \<subseteq> (rel_of g)\<^sup>+"
proof -
  let ?P = "\<lambda>h. rel_of h \<subseteq> (rel_of g)\<^sup>+"
  have row: "?P h \<Longrightarrow> ?P (fold (fw_relax k i) [0..<n] h)" for h k i
    by (rule fold_graph_inv [where P = ?P]) (auto dest: fw_relax_sound)
  have round: "?P h \<Longrightarrow> ?P (fw_round n k h)" for h k
    unfolding fw_round_def by (rule fold_graph_inv [where P = ?P]) (auto dest: row)
  show ?thesis
    unfolding floyd_warshall_def by (rule fold_graph_inv [where P = ?P]) (auto dest: round)
qed

section \<open>Paths through the first nodes\<close>

inductive via :: "(nat \<times> nat) set \<Rightarrow> nat \<Rightarrow> nat \<Rightarrow> nat \<Rightarrow> bool" for E and k where
  via_edge: "(i, j) \<in> E \<Longrightarrow> via E k i j"
| via_node: "via E k i m \<Longrightarrow> m < k \<Longrightarrow> (m, j) \<in> E \<Longrightarrow> via E k i j"

lemma via_Suc: "via E (Suc k) i j \<Longrightarrow> via E k i j \<or> via E k i k \<and> via E k k j"
proof (induction rule: via.induct)
  case (via_node i m j)
  show ?case
  proof (cases "m = k")
    case True
    with via_node show ?thesis by (auto intro: via.via_edge)
  next
    case False
    with via_node show ?thesis by (auto intro: via.via_node)
  qed
qed (auto intro: via.via_edge)

lemma via_0: "via E 0 i j \<Longrightarrow> (i, j) \<in> E"
  by (induction rule: via.induct) auto

lemma via_field: "E \<subseteq> {..<n} \<times> {..<n} \<Longrightarrow> via E k i j \<Longrightarrow> i < n \<and> j < n"
  by (rotate_tac, induction rule: via.induct) auto

lemma trancl_via:
  assumes "(i, j) \<in> E\<^sup>+" and "E \<subseteq> {..<n} \<times> {..<n}"
  shows "via E n i j"
  using assms(1)
  by (induction rule: trancl_induct) (use assms(2) in \<open>auto intro: via.intros\<close>)

lemma floyd_warshall_complete:
  assumes "rel_of g \<subseteq> {..<n} \<times> {..<n}" and "k \<le> n" and "via (rel_of g) k i j"
  shows "(i, j) \<in> rel_of (fold (fw_round n) [0..<k] g)"
  using assms(2,3)
proof (induction k arbitrary: i j)
  case 0
  then show ?case by (auto dest: via_0)
next
  case (Suc k)
  let ?h = "fold (fw_round n) [0..<k] g"
  have IH: "via (rel_of g) k a b \<Longrightarrow> ?h a b" for a b using Suc.IH [of a b] Suc.prems(1) by simp
  have "(i, j) \<in> rel_of (fw_round n k ?h)"
    using via_Suc [OF Suc.prems(2)]
  proof
    assume "via (rel_of g) k i j"
    then show ?thesis using IH subsetD [OF fw_round_mono] rel_of_iff by blast
  next
    assume v: "via (rel_of g) k i k \<and> via (rel_of g) k k j"
    then have "i < n" and "j < n" using via_field [OF assms(1)] by blast+
    with v IH show ?thesis by (intro fw_round_adds) blast+
  qed
  then show ?case by simp
qed

lemma floyd_warshall_trancl:
  assumes "rel_of g \<subseteq> {..<n} \<times> {..<n}"
  shows "rel_of (floyd_warshall n g) = (rel_of g)\<^sup>+"
proof
  show "(rel_of g)\<^sup>+ \<subseteq> rel_of (floyd_warshall n g)"
    unfolding floyd_warshall_def
    by (auto intro: floyd_warshall_complete [OF assms] trancl_via [OF _ assms])
qed (rule floyd_warshall_sound)

lemma lock_graph_closure:
  "floyd_warshall (lock_graph_size lm) (lock_wait_graph lm) i j \<longleftrightarrow>
   (i, j) \<in> {(a, b). lock_wait_graph lm a b}\<^sup>+"
proof -
  have "rel_of (lock_wait_graph lm) \<subseteq> {..<lock_graph_size lm} \<times> {..<lock_graph_size lm}"
    by (auto simp: rel_of_def lock_wait_graph_def)
  from floyd_warshall_trancl [OF this] show ?thesis by (auto simp: rel_of_def)
qed

section \<open>Properties\<close>

text \<open>
  Correctness of the Floyd-Warshall pass: \<open>lock_deadlock_detect\<close> returns the number of locks, among the
  first 16, that lie on a cycle of the matrix it builds, although it updates the matrix in place.
\<close>

theorem lock_deadlock_detect_cycles:
  "lock_deadlock_detect lm =
     card {i. i < lock_graph_size lm \<and> (i, i) \<in> {(a, b). lock_wait_graph lm a b}\<^sup>+}"
  by (simp add: lock_deadlock_detect_def Let_def count_if_card lock_graph_closure cong: conj_cong)

section \<open>Divergences from the comments\<close>

text \<open>
  The matrix has an edge only between two locks of the same owner. When every lock has its own owner the
  function reports no deadlock, whatever the waits are: two owners that wait for each other's locks are missed.
\<close>

lemma lock_deadlock_undetected:
  assumes "distinct (map l_owner (lm_locks lm))"
  shows "lock_deadlock_detect lm = 0"
proof -
  have "\<not> lock_wait_graph lm i j" for i j
    using assms by (auto simp: lock_wait_graph_def lock_graph_size_def distinct_conv_nth split: if_splits)
  then show ?thesis by (simp add: lock_deadlock_detect_def Let_def lock_graph_closure count_if_eq_0)
qed

end
