(* ===== verification/Idempotency.thy ===== *)
theory Idempotency
  imports Net_Prelude
begin

text \<open>
  Idempotent request store and retries (\<open>mini-dist-transaction/src/idempotency.c\<close>,
  \<open>include/idempotency.h\<close>): the bounded cache with least-recently-used eviction, the exponential backoff and
  the retry loop. The slot array is kept whole, also past \<open>count\<close>, because slots are reused without being
  cleared. \<open>time(NULL)\<close> is the argument \<open>now\<close>. The jittered delay, computed in floating point from
  \<open>rand()\<close>, is the parameter \<open>jitter\<close>. The printing function is not modelled.
\<close>

section \<open>Data\<close>

definition IDEMPOTENT_CACHE_SIZE :: nat where "IDEMPOTENT_CACHE_SIZE = 1024"

datatype IdempotentStatus = REQ_NEW | REQ_PROCESSING | REQ_PROCESSED

record IdempotentRequest =
  r_request_id :: string
  r_method :: string
  r_resource :: string
  r_body_hash :: "64 word"
  r_timestamp :: int
  r_status :: IdempotentStatus
  r_cached_result :: string
  r_lru_counter :: int

record IdempotentStore =
  is_processed_ids :: "IdempotentRequest list"
  is_count :: nat
  is_lru_counter :: int

record RetryPolicy =
  rp_max_retries :: int
  rp_base_delay_ms :: int
  rp_max_delay_ms :: int
  rp_use_jitter :: bool

fun idempotent_status_str :: "IdempotentStatus \<Rightarrow> string" where
  "idempotent_status_str REQ_NEW = ''NEW''"
| "idempotent_status_str REQ_PROCESSING = ''PROCESSING''"
| "idempotent_status_str REQ_PROCESSED = ''PROCESSED''"

section \<open>The store\<close>

definition idem_zero :: IdempotentRequest where
  "idem_zero = \<lparr>r_request_id = [], r_method = [], r_resource = [], r_body_hash = 0, r_timestamp = 0,
     r_status = REQ_NEW, r_cached_result = [], r_lru_counter = 0\<rparr>"

definition idempotent_store_init :: IdempotentStore where
  "idempotent_store_init =
     \<lparr>is_processed_ids = replicate IDEMPOTENT_CACHE_SIZE idem_zero, is_count = 0, is_lru_counter = 0\<rparr>"

text \<open>The slots in use.\<close>

definition idem_used :: "IdempotentStore \<Rightarrow> IdempotentRequest list" where
  "idem_used s = take (is_count s) (is_processed_ids s)"

definition idempotent_store_find :: "IdempotentStore \<Rightarrow> string \<Rightarrow> IdempotentStore \<times> nat option" where
  "idempotent_store_find s request_id =
     (case find_index (\<lambda>r. r_request_id r = request_id) (idem_used s) of
        Some i \<Rightarrow>
          (s\<lparr>is_processed_ids := (is_processed_ids s)[i :=
                (is_processed_ids s ! i)\<lparr>r_lru_counter := is_lru_counter s + 1\<rparr>],
             is_lru_counter := is_lru_counter s + 1\<rparr>, Some i)
      | None \<Rightarrow> (s, None))"

text \<open>
  \<open>idempotent_check\<close>; the third result is what is written to the caller's buffer, \<open>None\<close> when nothing is
  (\<open>want\<close> is false for a null buffer).
\<close>

definition idempotent_check ::
  "IdempotentStore \<Rightarrow> string \<Rightarrow> string \<Rightarrow> string \<Rightarrow> 64 word \<Rightarrow> bool \<Rightarrow>
   IdempotentStore \<times> IdempotentStatus \<times> string option" where
  "idempotent_check s request_id mthd rsrc body_hash want =
     (case idempotent_store_find s request_id of
        (s1, Some idx) \<Rightarrow>
          let req = is_processed_ids s1 ! idx in
          (s1, r_status req,
           if r_status req = REQ_PROCESSED \<and> want then Some (strncpy_z 256 (r_cached_result req)) else None)
      | (s1, None) \<Rightarrow> (s1, REQ_NEW, None))"

fun evict_scan :: "IdempotentRequest list \<Rightarrow> nat \<Rightarrow> nat \<Rightarrow> int \<Rightarrow> nat" where
  "evict_scan [] i min_idx min_lru = min_idx"
| "evict_scan (r # rs) i min_idx min_lru =
     (if r_lru_counter r < min_lru then evict_scan rs (Suc i) i (r_lru_counter r)
      else evict_scan rs (Suc i) min_idx min_lru)"

text \<open>
  \<open>idempotent_store_evict_lru\<close>, called on a non-empty store. The shift leaves the last used slot as it
  was, so it is duplicated past the new count.
\<close>

definition evict_victim :: "IdempotentRequest list \<Rightarrow> nat" where
  "evict_victim rs = evict_scan (tl rs) 1 0 (r_lru_counter (hd rs))"

definition idempotent_store_evict_lru :: "IdempotentStore \<Rightarrow> IdempotentStore" where
  "idempotent_store_evict_lru s =
     s\<lparr>is_processed_ids := remove_at (evict_victim (idem_used s)) (idem_used s) @
          drop (is_count s - 1) (is_processed_ids s),
       is_count := is_count s - 1\<rparr>"

definition idempotent_record ::
  "IdempotentStore \<Rightarrow> string \<Rightarrow> string \<Rightarrow> string \<Rightarrow> 64 word \<Rightarrow> string option \<Rightarrow> int \<Rightarrow>
   IdempotentStore \<times> bool" where
  "idempotent_record s request_id mthd rsrc body_hash result now =
     (let (s3, idx) =
        (case idempotent_store_find s request_id of
           (s1, Some i) \<Rightarrow> (s1, i)
         | (s1, None) \<Rightarrow>
             let s2 = (if is_count s1 \<ge> IDEMPOTENT_CACHE_SIZE then idempotent_store_evict_lru s1 else s1);
                 i = is_count s2 in
             (s2\<lparr>is_count := i + 1,
                 is_processed_ids := (is_processed_ids s2)[i := (is_processed_ids s2 ! i)
                   \<lparr>r_request_id := strncpy_z 64 request_id, r_method := strncpy_z 16 mthd,
                    r_resource := strncpy_z 128 rsrc, r_body_hash := body_hash, r_timestamp := now\<rparr>]\<rparr>, i));
        req = (is_processed_ids s3 ! idx)\<lparr>r_status := REQ_PROCESSED, r_lru_counter := is_lru_counter s3 + 1\<rparr>;
        req' = (case result of Some res \<Rightarrow> req\<lparr>r_cached_result := strncpy_z 256 res\<rparr> | None \<Rightarrow> req)
      in (s3\<lparr>is_processed_ids := (is_processed_ids s3)[idx := req'], is_lru_counter := is_lru_counter s3 + 1\<rparr>,
          True))"

section \<open>Backoff and retry\<close>

definition retry_policy_init :: "int \<Rightarrow> int \<Rightarrow> int \<Rightarrow> bool \<Rightarrow> RetryPolicy" where
  "retry_policy_init max_retries base_delay_ms max_delay_ms use_jitter =
     \<lparr>rp_max_retries = max_retries, rp_base_delay_ms = base_delay_ms, rp_max_delay_ms = max_delay_ms,
      rp_use_jitter = use_jitter\<rparr>"

fun backoff_loop :: "int \<Rightarrow> nat \<Rightarrow> int \<Rightarrow> int" where
  "backoff_loop max_delay 0 delay = delay"
| "backoff_loop max_delay (Suc n) delay =
     (if delay < max_delay then backoff_loop max_delay n (delay * 2) else delay)"

definition idempotent_compute_backoff :: "(int \<Rightarrow> int) \<Rightarrow> RetryPolicy \<Rightarrow> nat \<Rightarrow> int" where
  "idempotent_compute_backoff jitter policy attempt =
     (let d0 = backoff_loop (rp_max_delay_ms policy) attempt (rp_base_delay_ms policy);
          d1 = (if d0 > rp_max_delay_ms policy then rp_max_delay_ms policy else d0);
          d2 = (if rp_use_jitter policy then jitter d1 else d1)
      in if d2 < 1 then 1 else d2)"

text \<open>
  The retry loop over the attempt numbers still to make; besides the result it returns the world and the
  delays slept, in order.
\<close>

fun retry_loop ::
  "('w \<Rightarrow> bool \<times> 'w) \<Rightarrow> (int \<Rightarrow> int) \<Rightarrow> RetryPolicy \<Rightarrow> nat list \<Rightarrow> 'w \<Rightarrow> bool \<times> 'w \<times> int list" where
  "retry_loop operation jitter policy [] w = (False, w, [])"
| "retry_loop operation jitter policy (attempt # rest) w =
     (let slept = (if attempt > 0 then [idempotent_compute_backoff jitter policy (attempt - 1)] else []) in
      case operation w of
        (True, w1) \<Rightarrow> (True, w1, slept)
      | (False, w1) \<Rightarrow>
          (case retry_loop operation jitter policy rest w1 of (ok, w2, ds) \<Rightarrow> (ok, w2, slept @ ds)))"

definition idempotent_retry_with_backoff ::
  "('p, 'w) callback \<Rightarrow> 'p option \<Rightarrow> (int \<Rightarrow> int) \<Rightarrow> RetryPolicy \<Rightarrow> 'w \<Rightarrow> bool \<times> 'w \<times> int list" where
  "idempotent_retry_with_backoff operation ctx jitter policy w =
     (case operation of
        None \<Rightarrow> (False, w, [])
      | Some f \<Rightarrow> retry_loop (f ctx) jitter policy [0..<nat (rp_max_retries policy + 1)] w)"

section \<open>Events and invariant\<close>

datatype idem_op =
  Check string string string "64 word" bool
| Record string string string "64 word" "string option" int

fun idem_exec :: "idem_op \<Rightarrow> IdempotentStore \<Rightarrow> IdempotentStore" where
  "idem_exec (Check i m r h b) s = fst (idempotent_check s i m r h b)"
| "idem_exec (Record i m r h res now) s = fst (idempotent_record s i m r h res now)"

definition idem_run :: "idem_op list \<Rightarrow> IdempotentStore \<Rightarrow> IdempotentStore" where
  "idem_run = fold idem_exec"

definition idem_inv :: "IdempotentStore \<Rightarrow> bool" where
  "idem_inv s \<longleftrightarrow>
     length (is_processed_ids s) = IDEMPOTENT_CACHE_SIZE \<and> is_count s \<le> IDEMPOTENT_CACHE_SIZE \<and>
     distinct (map r_lru_counter (idem_used s)) \<and>
     (\<forall>r \<in> set (idem_used s). r_lru_counter r \<le> is_lru_counter s)"

definition idem_entry :: "IdempotentStore \<Rightarrow> string \<Rightarrow> IdempotentRequest option" where
  "idem_entry s k =
     map_option (\<lambda>i. idem_used s ! i) (find_index (\<lambda>r. r_request_id r = k) (idem_used s))"

lemma length_idem_used: "idem_inv s \<Longrightarrow> length (idem_used s) = is_count s"
  by (simp add: idem_inv_def idem_used_def)

section \<open>Eviction\<close>

lemma evict_scan_min:
  assumes "m < length pre" and "ml = r_lru_counter (pre ! m)"
    and "\<forall>r \<in> set pre. ml \<le> r_lru_counter r"
  shows "evict_scan rs (length pre) m ml < length (pre @ rs) \<and>
    (\<forall>r \<in> set (pre @ rs). r_lru_counter ((pre @ rs) ! evict_scan rs (length pre) m ml) \<le> r_lru_counter r)"
  using assms
proof (induction rs arbitrary: pre m ml)
  case Nil
  then show ?case by simp
next
  case (Cons r rs)
  show ?case
  proof (cases "r_lru_counter r < ml")
    case True
    have "\<forall>x \<in> set (pre @ [r]). r_lru_counter r \<le> r_lru_counter x" using True Cons.prems(3) by auto
    with Cons.IH [of "length pre" "pre @ [r]" "r_lru_counter r"] True show ?thesis by simp
  next
    case False
    have "\<forall>x \<in> set (pre @ [r]). ml \<le> r_lru_counter x" using False Cons.prems(3) by auto
    with Cons.IH [of m "pre @ [r]" ml] Cons.prems(1,2) False show ?thesis by (simp add: nth_append)
  qed
qed

lemma evict_victim_min:
  assumes "rs \<noteq> []"
  shows "evict_victim rs < length rs"
    and "r \<in> set rs \<Longrightarrow> r_lru_counter (rs ! evict_victim rs) \<le> r_lru_counter r"
  using evict_scan_min [of 0 "[hd rs]" "r_lru_counter (hd rs)" "tl rs"] assms
  by (auto simp: evict_victim_def)

lemma idem_used_evict:
  assumes "idem_inv s" and "0 < is_count s"
  shows "idem_used (idempotent_store_evict_lru s) = remove_at (evict_victim (idem_used s)) (idem_used s)"
    and "length (is_processed_ids (idempotent_store_evict_lru s)) = IDEMPOTENT_CACHE_SIZE"
    and "is_count (idempotent_store_evict_lru s) = is_count s - 1"
    and "is_lru_counter (idempotent_store_evict_lru s) = is_lru_counter s"
proof -
  have ne: "idem_used s \<noteq> []" using length_idem_used [OF assms(1)] assms(2) by auto
  have len: "length (remove_at (evict_victim (idem_used s)) (idem_used s)) = is_count s - 1"
    using evict_victim_min(1) [OF ne] length_idem_used [OF assms(1)] by (simp add: length_remove_at)
  then show "idem_used (idempotent_store_evict_lru s) = remove_at (evict_victim (idem_used s)) (idem_used s)"
    unfolding idempotent_store_evict_lru_def by (subst idem_used_def) simp
  show "length (is_processed_ids (idempotent_store_evict_lru s)) = IDEMPOTENT_CACHE_SIZE"
    using len assms by (auto simp: idempotent_store_evict_lru_def idem_inv_def)
qed (simp_all add: idempotent_store_evict_lru_def)

section \<open>The operations on the slots in use\<close>

lemma idem_find_used:
  assumes "idem_inv s"
  shows "idempotent_store_find s k = (s', Some i) \<Longrightarrow>
      find_index (\<lambda>r. r_request_id r = k) (idem_used s) = Some i \<and> i < is_count s \<and>
      idem_used s' = (idem_used s)[i := (idem_used s ! i)\<lparr>r_lru_counter := is_lru_counter s + 1\<rparr>] \<and>
      is_processed_ids s' ! i = (idem_used s ! i)\<lparr>r_lru_counter := is_lru_counter s + 1\<rparr> \<and>
      length (is_processed_ids s') = IDEMPOTENT_CACHE_SIZE \<and> is_count s' = is_count s \<and>
      is_lru_counter s' = is_lru_counter s + 1"
    and "idempotent_store_find s k = (s', None) \<Longrightarrow>
      find_index (\<lambda>r. r_request_id r = k) (idem_used s) = None \<and> s' = s"
proof -
  show "find_index (\<lambda>r. r_request_id r = k) (idem_used s) = Some i \<and> i < is_count s \<and>
      idem_used s' = (idem_used s)[i := (idem_used s ! i)\<lparr>r_lru_counter := is_lru_counter s + 1\<rparr>] \<and>
      is_processed_ids s' ! i = (idem_used s ! i)\<lparr>r_lru_counter := is_lru_counter s + 1\<rparr> \<and>
      length (is_processed_ids s') = IDEMPOTENT_CACHE_SIZE \<and> is_count s' = is_count s \<and>
      is_lru_counter s' = is_lru_counter s + 1"
    if h: "idempotent_store_find s k = (s', Some i)"
  proof -
    have f: "find_index (\<lambda>r. r_request_id r = k) (idem_used s) = Some i"
      and s': "s' = s\<lparr>is_processed_ids := (is_processed_ids s)[i :=
                (is_processed_ids s ! i)\<lparr>r_lru_counter := is_lru_counter s + 1\<rparr>],
             is_lru_counter := is_lru_counter s + 1\<rparr>"
      using h by (auto simp: idempotent_store_find_def split: option.splits)
    have i: "i < is_count s" using find_index_SomeD(1) [OF f] length_idem_used [OF assms] by simp
    with f s' assms show ?thesis by (auto simp: idem_used_def take_update_swap idem_inv_def)
  qed
qed (auto simp: idempotent_store_find_def split: option.splits)

text \<open>The slot a new request is written to, whose old contents stay where they are not overwritten.\<close>

definition idem_slot :: "IdempotentStore \<Rightarrow> IdempotentRequest" where
  "idem_slot s = is_processed_ids s ! (if is_count s \<ge> IDEMPOTENT_CACHE_SIZE then is_count s - 1 else is_count s)"

definition idem_room :: "IdempotentStore \<Rightarrow> IdempotentRequest list" where
  "idem_room s = (if is_count s \<ge> IDEMPOTENT_CACHE_SIZE
     then remove_at (evict_victim (idem_used s)) (idem_used s) else idem_used s)"

definition idem_cached :: "string option \<Rightarrow> IdempotentRequest \<Rightarrow> string" where
  "idem_cached result r = (case result of Some res \<Rightarrow> strncpy_z 256 res | None \<Rightarrow> r_cached_result r)"

definition idem_new ::
  "IdempotentStore \<Rightarrow> string \<Rightarrow> string \<Rightarrow> string \<Rightarrow> 64 word \<Rightarrow> string option \<Rightarrow> int \<Rightarrow> IdempotentRequest" where
  "idem_new s k m rs h result now =
     (idem_slot s)\<lparr>r_request_id := strncpy_z 64 k, r_method := strncpy_z 16 m, r_resource := strncpy_z 128 rs,
       r_body_hash := h, r_timestamp := now, r_status := REQ_PROCESSED, r_lru_counter := is_lru_counter s + 1,
       r_cached_result := idem_cached result (idem_slot s)\<rparr>"

lemma idem_new_fields [simp]:
  "r_request_id (idem_new s k m rs h result now) = strncpy_z 64 k"
  "r_status (idem_new s k m rs h result now) = REQ_PROCESSED"
  "r_lru_counter (idem_new s k m rs h result now) = is_lru_counter s + 1"
  "r_cached_result (idem_new s k m rs h result now) = idem_cached result (idem_slot s)"
  by (simp_all add: idem_new_def)

lemma idem_record_hit:
  assumes "idem_inv s" and "find_index (\<lambda>r. r_request_id r = k) (idem_used s) = Some i"
    and "idempotent_record s k m rs h result now = (s', ok)"
  shows "idem_used s' = (idem_used s)[i := (idem_used s ! i)\<lparr>r_status := REQ_PROCESSED,
      r_lru_counter := is_lru_counter s + 2, r_cached_result := idem_cached result (idem_used s ! i)\<rparr>]"
    and "length (is_processed_ids s') = IDEMPOTENT_CACHE_SIZE" and "is_count s' = is_count s"
    and "is_lru_counter s' = is_lru_counter s + 2"
proof -
  obtain s1 where s1: "idempotent_store_find s k = (s1, Some i)"
    using assms(2) by (auto simp: idempotent_store_find_def)
  note f = idem_find_used(1) [OF assms(1) s1]
  have rec: "s' = s1\<lparr>is_processed_ids := (is_processed_ids s1)[i := (is_processed_ids s1 ! i)
      \<lparr>r_status := REQ_PROCESSED, r_lru_counter := is_lru_counter s1 + 1,
       r_cached_result := idem_cached result (is_processed_ids s1 ! i)\<rparr>], is_lru_counter := is_lru_counter s1 + 1\<rparr>"
    using assms(3) s1 by (auto simp: idempotent_record_def Let_def idem_cached_def split: option.splits)
  have "idem_used s' = (idem_used s1)[i := (is_processed_ids s1 ! i)
      \<lparr>r_status := REQ_PROCESSED, r_lru_counter := is_lru_counter s1 + 1,
       r_cached_result := idem_cached result (is_processed_ids s1 ! i)\<rparr>]"
    by (simp add: rec idem_used_def take_update_swap)
  with f show "idem_used s' = (idem_used s)[i := (idem_used s ! i)\<lparr>r_status := REQ_PROCESSED,
      r_lru_counter := is_lru_counter s + 2, r_cached_result := idem_cached result (idem_used s ! i)\<rparr>]"
    by (simp add: idem_cached_def add.commute split: option.splits)
  show "length (is_processed_ids s') = IDEMPOTENT_CACHE_SIZE" and "is_count s' = is_count s"
    and "is_lru_counter s' = is_lru_counter s + 2" using f by (simp_all add: rec)
qed

lemma idem_record_miss:
  assumes "idem_inv s" and "find_index (\<lambda>r. r_request_id r = k) (idem_used s) = None"
    and "idempotent_record s k m rs h result now = (s', ok)"
  shows "idem_used s' = idem_room s @ [idem_new s k m rs h result now]"
    and "length (is_processed_ids s') = IDEMPOTENT_CACHE_SIZE"
    and "is_count s' = length (idem_room s) + 1" and "is_count s' \<le> IDEMPOTENT_CACHE_SIZE"
    and "is_lru_counter s' = is_lru_counter s + 1"
proof -
  let ?s2 = "if is_count s \<ge> IDEMPOTENT_CACHE_SIZE then idempotent_store_evict_lru s else s"
  have pos: "0 < IDEMPOTENT_CACHE_SIZE" by (simp add: IDEMPOTENT_CACHE_SIZE_def)
  have s1: "idempotent_store_find s k = (s, None)" using assms(2) by (simp add: idempotent_store_find_def)
  have used2: "idem_used ?s2 = idem_room s" and lens2: "length (is_processed_ids ?s2) = IDEMPOTENT_CACHE_SIZE"
    and lru2: "is_lru_counter ?s2 = is_lru_counter s"
    using idem_used_evict [OF assms(1)] assms(1) pos by (auto simp: idem_room_def idem_inv_def)
  have c2: "is_count ?s2 < IDEMPOTENT_CACHE_SIZE" and cr: "is_count ?s2 = length (idem_room s)"
    and slot2: "is_processed_ids ?s2 ! is_count ?s2 = idem_slot s"
  proof -
    show "is_count ?s2 < IDEMPOTENT_CACHE_SIZE"
      using assms(1) pos by (auto simp: idempotent_store_evict_lru_def idem_inv_def)
    with lens2 have "length (idem_used ?s2) = is_count ?s2" unfolding idem_used_def by simp
    then show cr: "is_count ?s2 = length (idem_room s)" by (simp only: used2)
    show "is_processed_ids ?s2 ! is_count ?s2 = idem_slot s"
    proof (cases "is_count s \<ge> IDEMPOTENT_CACHE_SIZE")
      case True
      then have "length (remove_at (evict_victim (idem_used s)) (idem_used s)) = is_count s - 1"
        using cr by (simp add: idem_room_def idempotent_store_evict_lru_def)
      moreover have "is_count s - 1 < length (is_processed_ids s)" using True assms(1) pos by (simp add: idem_inv_def)
      ultimately show ?thesis using True by (simp add: idempotent_store_evict_lru_def idem_slot_def nth_append)
    qed (simp add: idem_slot_def)
  qed
  let ?r = "idem_new s k m rs h result now"
  have rec: "s' = ?s2\<lparr>is_count := is_count ?s2 + 1, is_processed_ids := (is_processed_ids ?s2)[is_count ?s2 := ?r],
      is_lru_counter := is_lru_counter s + 1\<rparr>"
    using assms(3) s1 c2 lens2 slot2 lru2
    by (auto simp: idempotent_record_def Let_def idem_cached_def idem_new_def simp del: if_split split: option.splits)
  have "idem_used s' = idem_used ?s2 @ [?r]"
    using c2 lens2 by (simp add: rec idem_used_def take_Suc_conv_app_nth)
  then show "idem_used s' = idem_room s @ [?r]" by (simp only: used2)
  show "length (is_processed_ids s') = IDEMPOTENT_CACHE_SIZE" using lens2 by (simp add: rec)
  show "is_count s' = length (idem_room s) + 1" using cr by (simp add: rec)
  show "is_count s' \<le> IDEMPOTENT_CACHE_SIZE" using c2 by (simp add: rec)
  show "is_lru_counter s' = is_lru_counter s + 1" by (simp add: rec)
qed

section \<open>The invariant\<close>

lemma evict_room:
  assumes "idem_inv s"
  shows "distinct (map r_lru_counter (idem_room s))" and "set (idem_room s) \<subseteq> set (idem_used s)"
  using assms set_remove_at_subset [of "evict_victim (idem_used s)" "idem_used s"]
  by (auto simp: idem_room_def idem_inv_def map_remove_at intro: distinct_remove_at)

lemma idem_inv_touch:
  assumes "idem_inv s" and "i < is_count s" and "r_lru_counter r = is_lru_counter s + d" and "0 < d"
    and "idem_used s' = (idem_used s)[i := r]" and "length (is_processed_ids s') = IDEMPOTENT_CACHE_SIZE"
    and "is_count s' = is_count s" and "is_lru_counter s' = is_lru_counter s + d"
  shows "idem_inv s'"
proof -
  have "r_lru_counter r \<notin> set (map r_lru_counter (idem_used s))"
    using assms(1,3,4) by (auto simp: idem_inv_def)
  then have "distinct (map r_lru_counter (idem_used s'))"
    using assms(1,5) by (auto simp: idem_inv_def map_update intro: distinct_list_update)
  moreover have "\<forall>x \<in> set (idem_used s'). r_lru_counter x \<le> is_lru_counter s'"
  proof
    fix x
    assume "x \<in> set (idem_used s')"
    then have "x = r \<or> x \<in> set (idem_used s)"
      using assms(5) set_update_subset_insert [of "idem_used s" i r] by auto
    then show "r_lru_counter x \<le> is_lru_counter s'" using assms(1,3,4,8) by (auto simp: idem_inv_def)
  qed
  ultimately show ?thesis using assms(1,6,7) by (simp add: idem_inv_def)
qed

lemma idem_inv_record:
  assumes "idem_inv s"
  shows "idem_inv (fst (idempotent_record s k m rs h result now))"
proof -
  obtain s' ok where rec: "idempotent_record s k m rs h result now = (s', ok)" by fastforce
  show ?thesis
  proof (cases "find_index (\<lambda>r. r_request_id r = k) (idem_used s)")
    case (Some i)
    note hit = idem_record_hit [OF assms Some rec]
    have "i < is_count s" using find_index_SomeD(1) [OF Some] length_idem_used [OF assms] by simp
    from idem_inv_touch [OF assms this _ _ hit(1-4)] rec show ?thesis by simp
  next
    case None
    note miss = idem_record_miss [OF assms None rec]
    have "\<forall>r \<in> set (idem_room s). r_lru_counter r < is_lru_counter s + 1"
      using evict_room(2) [OF assms] assms by (fastforce simp: idem_inv_def)
    then have "idem_inv s'"
      using miss evict_room(1) [OF assms] by (fastforce simp: idem_inv_def)
    with rec show ?thesis by simp
  qed
qed

lemma idem_check_state: "fst (idempotent_check s k m rs h want) = fst (idempotent_store_find s k)"
  by (auto simp: idempotent_check_def Let_def split: prod.splits option.splits)

lemma idem_inv_find:
  assumes "idem_inv s"
  shows "idem_inv (fst (idempotent_store_find s k))"
proof (cases "idempotent_store_find s k")
  case (Pair s' x)
  show ?thesis
  proof (cases x)
    case None
    with Pair idem_find_used(2) [OF assms Pair [unfolded None]] assms show ?thesis by simp
  next
    case (Some i)
    note f = idem_find_used(1) [OF assms Pair [unfolded Some]]
    have "idem_inv s'"
      by (rule idem_inv_touch [OF assms, of i "(idem_used s ! i)\<lparr>r_lru_counter := is_lru_counter s + 1\<rparr>" 1])
        (use f in simp_all)
    with Pair show ?thesis by simp
  qed
qed

lemma idem_inv_exec: "idem_inv s \<Longrightarrow> idem_inv (idem_exec op s)"
  by (cases op) (auto simp: idem_check_state intro: idem_inv_record idem_inv_find)

lemma idem_inv_run: "idem_inv s \<Longrightarrow> idem_inv (idem_run ops s)"
  unfolding idem_run_def by (induction ops arbitrary: s) (auto intro: idem_inv_exec)

lemma idem_inv_init: "idem_inv idempotent_store_init"
  by (simp add: idem_inv_def idempotent_store_init_def idem_used_def)

section \<open>How long a recorded request is remembered\<close>

text \<open>
  In a full store every slot but the victim's was touched after it, and each touch has its own counter
  value: the victim is at least 1023 ticks old.
\<close>

lemma victim_age:
  assumes "idem_inv s" and "is_count s \<ge> IDEMPOTENT_CACHE_SIZE"
  shows "r_lru_counter (idem_used s ! evict_victim (idem_used s)) + 1023 \<le> is_lru_counter s"
proof -
  let ?u = "idem_used s"
  let ?v = "r_lru_counter (?u ! evict_victim ?u)"
  have len: "length ?u = 1024"
    using assms length_idem_used [OF assms(1)] by (simp add: idem_inv_def IDEMPOTENT_CACHE_SIZE_def)
  then have ne: "?u \<noteq> []" by auto
  have "r_lru_counter ` set ?u \<subseteq> {?v..is_lru_counter s}"
    using evict_victim_min(2) [OF ne] assms(1) by (auto simp: idem_inv_def)
  then have "card (r_lru_counter ` set ?u) \<le> card {?v..is_lru_counter s}" by (intro card_mono) auto
  moreover have "card (r_lru_counter ` set ?u) = 1024"
    using assms(1) len distinct_card [of "map r_lru_counter ?u"] by (simp add: idem_inv_def)
  ultimately show ?thesis by simp
qed

lemma idem_entry_find:
  assumes "idem_inv s" and "idem_entry s k = Some e"
  shows "\<exists>s' i. idempotent_store_find s k = (s', Some i) \<and>
    is_processed_ids s' ! i = e\<lparr>r_lru_counter := is_lru_counter s + 1\<rparr>"
proof -
  obtain i where i: "find_index (\<lambda>r. r_request_id r = k) (idem_used s) = Some i" "idem_used s ! i = e"
    using assms(2) by (auto simp: idem_entry_def)
  then obtain s' where s': "idempotent_store_find s k = (s', Some i)" by (auto simp: idempotent_store_find_def)
  with idem_find_used(1) [OF assms(1) s'] i show ?thesis by auto
qed

lemma idem_entry_update:
  assumes "idem_entry s k = Some e" and "i < length (idem_used s)"
    and "idem_used s' = (idem_used s)[i := r]" and "r_request_id r = r_request_id (idem_used s ! i)"
  shows "idem_entry s' k = Some e \<or> idem_entry s' k = Some r \<and> idem_used s ! i = e \<and> r_request_id r = k"
proof -
  obtain j where j: "find_index (\<lambda>r. r_request_id r = k) (idem_used s) = Some j" "idem_used s ! j = e"
    using assms(1) by (auto simp: idem_entry_def)
  have "find_index (\<lambda>r. r_request_id r = k) (idem_used s') = Some j"
    unfolding assms(3) using j(1) assms(4) by (subst find_index_update_other) auto
  then show ?thesis
    using j assms(2,3,4) find_index_SomeD(1,2) [OF j(1)] by (cases "i = j") (auto simp: idem_entry_def)
qed

definition idem_remembers :: "IdempotentStore \<Rightarrow> string \<Rightarrow> string \<Rightarrow> int \<Rightarrow> bool" where
  "idem_remembers s k res c \<longleftrightarrow>
     (\<exists>e. idem_entry s k = Some e \<and> r_status e = REQ_PROCESSED \<and> r_cached_result e = res \<and> c \<le> r_lru_counter e)"

fun idem_foreign :: "string \<Rightarrow> idem_op \<Rightarrow> bool" where
  "idem_foreign k (Check k' m r h b) \<longleftrightarrow> True"
| "idem_foreign k (Record k' m r h res now) \<longleftrightarrow> k' \<noteq> k"

lemma idem_remembers_find:
  assumes "idem_inv s" and "idem_remembers s k res c"
  shows "idem_remembers (fst (idempotent_store_find s k')) k res c"
proof (cases "idempotent_store_find s k'")
  case (Pair s' x)
  obtain e where e: "idem_entry s k = Some e" "r_status e = REQ_PROCESSED" "r_cached_result e = res"
      "c \<le> r_lru_counter e" using assms(2) by (auto simp: idem_remembers_def)
  have "e \<in> set (idem_used s)" using e(1) by (auto simp: idem_entry_def dest: find_index_SomeD(1))
  then have le: "c \<le> is_lru_counter s + 1" using e(4) assms(1) by (fastforce simp: idem_inv_def)
  show ?thesis
  proof (cases x)
    case None
    with Pair idem_find_used(2) [OF assms(1) Pair [unfolded None]] assms(2) show ?thesis by simp
  next
    case (Some i)
    note f = idem_find_used(1) [OF assms(1) Pair [unfolded Some]]
    with idem_entry_update [OF e(1), of i s' "(idem_used s ! i)\<lparr>r_lru_counter := is_lru_counter s + 1\<rparr>"]
    show ?thesis
      using e le Pair length_idem_used [OF assms(1)] by (auto simp: idem_remembers_def)
  qed
qed

lemma idem_remembers_record:
  assumes "idem_inv s" and "idem_remembers s k res c" and "k' \<noteq> k" and "is_lru_counter s - c < 1023"
  shows "idem_remembers (fst (idempotent_record s k' m rs h result now)) k res c"
proof -
  obtain s' ok where rec: "idempotent_record s k' m rs h result now = (s', ok)" by fastforce
  obtain e where e: "idem_entry s k = Some e" "r_status e = REQ_PROCESSED" "r_cached_result e = res"
      "c \<le> r_lru_counter e" using assms(2) by (auto simp: idem_remembers_def)
  obtain j where j: "find_index (\<lambda>r. r_request_id r = k) (idem_used s) = Some j" "idem_used s ! j = e"
    using e(1) by (auto simp: idem_entry_def)
  have "idem_entry s' k = Some e"
  proof (cases "find_index (\<lambda>r. r_request_id r = k') (idem_used s)")
    case (Some i)
    show ?thesis
      using idem_entry_update [OF e(1) find_index_SomeD(1) [OF Some] idem_record_hit(1) [OF assms(1) Some rec]]
        find_index_SomeD(2) [OF Some] assms(3) by auto
  next
    case None
    have "\<exists>l. find_index (\<lambda>r. r_request_id r = k) (idem_room s) = Some l \<and> idem_room s ! l = e"
    proof (cases "is_count s \<ge> IDEMPOTENT_CACHE_SIZE")
      case True
      have "evict_victim (idem_used s) \<noteq> j"
        using victim_age [OF assms(1) True] j(2) e(4) assms(4) by auto
      moreover have "evict_victim (idem_used s) < length (idem_used s)"
        using j(1) by (intro evict_victim_min(1)) auto
      ultimately show ?thesis
        using find_index_remove_at [OF j(1)] j(2) True by (simp add: idem_room_def)
    qed (use j in \<open>auto simp: idem_room_def\<close>)
    then show ?thesis
      using idem_record_miss(1) [OF assms(1) None rec] find_index_SomeD(1)
      by (fastforce simp: idem_entry_def find_index_append nth_append)
  qed
  with e rec show ?thesis by (auto simp: idem_remembers_def)
qed

lemma idem_lru_exec:
  assumes "idem_inv s"
  shows "is_lru_counter s \<le> is_lru_counter (idem_exec op s)"
proof (cases op)
  case (Check k m rs h b)
  then show ?thesis by (simp add: idem_check_state idempotent_store_find_def split: option.splits)
next
  case (Record k m rs h result now)
  obtain s' ok where rec: "idempotent_record s k m rs h result now = (s', ok)" by fastforce
  with Record idem_record_hit(4) [OF assms _ rec] idem_record_miss(5) [OF assms _ rec] show ?thesis
    by (cases "find_index (\<lambda>r. r_request_id r = k) (idem_used s)") auto
qed

lemma idem_lru_run: "idem_inv s \<Longrightarrow> is_lru_counter s \<le> is_lru_counter (idem_run ops s)"
proof (induction ops arbitrary: s)
  case (Cons op ops)
  then show ?case
    using idem_lru_exec [OF Cons.prems, of op] Cons.IH [OF idem_inv_exec [OF Cons.prems, of op]]
    by (simp add: idem_run_def)
qed (simp add: idem_run_def)

lemma idem_remembers_run:
  assumes "idem_inv s" and "idem_remembers s k res c" and "list_all (idem_foreign k) ops"
    and "is_lru_counter (idem_run ops s) - c < 1023"
  shows "idem_remembers (idem_run ops s) k res c"
  using assms
proof (induction ops arbitrary: s)
  case Nil
  then show ?case by (simp add: idem_run_def)
next
  case (Cons op ops)
  have run: "idem_run (op # ops) s = idem_run ops (idem_exec op s)" by (simp add: idem_run_def)
  have age: "is_lru_counter s - c < 1023"
    using idem_lru_run [OF Cons.prems(1), of "op # ops"] Cons.prems(4) by simp
  have "idem_remembers (idem_exec op s) k res c"
    using Cons.prems(1-3) age
    by (cases op) (auto simp: idem_check_state intro: idem_remembers_find idem_remembers_record)
  then show ?case
    unfolding run using Cons.IH [OF idem_inv_exec [OF Cons.prems(1)]] Cons.prems(3,4) run by simp
qed

lemma idem_record_remembers:
  assumes "idem_inv s" and "length k < 64"
  shows "idem_remembers (fst (idempotent_record s k m rs h (Some res) now)) k (strncpy_z 256 res)
    (is_lru_counter (fst (idempotent_record s k m rs h (Some res) now)))"
proof -
  obtain s' ok where rec: "idempotent_record s k m rs h (Some res) now = (s', ok)" by fastforce
  show ?thesis
  proof (cases "find_index (\<lambda>r. r_request_id r = k) (idem_used s)")
    case (Some i)
    note hit = idem_record_hit [OF assms(1) Some rec]
    from find_index_update_same [OF Some] find_index_SomeD(1,2) [OF Some] hit(1,4) rec show ?thesis
      by (simp add: idem_remembers_def idem_entry_def idem_cached_def)
  next
    case None
    have "find_index (\<lambda>r. r_request_id r = k) (idem_room s) = None"
      using None evict_room(2) [OF assms(1)] by (auto simp: find_index_None_iff)
    with idem_record_miss(1,5) [OF assms(1) None rec] rec assms(2) show ?thesis
      by (simp add: idem_remembers_def idem_entry_def idem_cached_def find_index_append nth_append)
  qed
qed

lemma idem_remembers_check:
  assumes "idem_inv s" and "idem_remembers s k res c"
  shows "snd (idempotent_check s k m rs h True) = (REQ_PROCESSED, Some (strncpy_z 256 res))"
proof -
  obtain e where e: "idem_entry s k = Some e" "r_status e = REQ_PROCESSED" "r_cached_result e = res"
    using assms(2) by (auto simp: idem_remembers_def)
  from idem_entry_find [OF assms(1) e(1)] e(2,3) show ?thesis
    by (auto simp: idempotent_check_def Let_def)
qed

section \<open>Properties\<close>

text \<open>
  Duplicate requests are recognised: from any state the store can reach, after a request with an id of
  fewer than 64 characters is recorded with a result, every later check of that id answers
  \<open>REQ_PROCESSED\<close> with the first 255 characters of that result, whatever is checked or recorded under
  other ids, as long as the store's use counter has advanced by less than 1023 (the least-recently-used
  entry of the 1024 slots is at least that old when it is evicted).
\<close>

theorem idempotent_duplicate_recognised:
  assumes "s = idem_run before idempotent_store_init" and "length k < 64"
    and "s1 = fst (idempotent_record s k m rs h (Some res) now)"
    and "list_all (idem_foreign k) ops"
    and "is_lru_counter (idem_run ops s1) - is_lru_counter s1 < 1023"
  shows "snd (idempotent_check (idem_run ops s1) k m' rs' h' True) = (REQ_PROCESSED, Some (strncpy_z 256 res))"
proof -
  have inv: "idem_inv s" unfolding assms(1) by (rule idem_inv_run [OF idem_inv_init])
  then have inv1: "idem_inv s1" unfolding assms(3) by (rule idem_inv_record)
  have "idem_remembers s1 k (strncpy_z 256 res) (is_lru_counter s1)"
    unfolding assms(3) by (rule idem_record_remembers [OF inv assms(2)])
  from idem_remembers_run [OF inv1 this assms(4,5)] idem_inv_run [OF inv1]
  show ?thesis using idem_remembers_check by fastforce
qed

definition idem_demo :: IdempotentStore where
  "idem_demo = fst (idempotent_record idempotent_store_init ''id1'' ''POST'' ''/pay'' 7 (Some ''ok'') 0)"

lemma idem_demo_lru: "is_lru_counter (idem_run [Check ''zz'' [] [] 0 True] idem_demo) - is_lru_counter idem_demo < 1023"
  by (simp add: idem_run_def idem_check_state idempotent_store_find_def split: option.splits)

theorem idempotent_duplicate_recognised_witness:
  "snd (idempotent_check (idem_run [Check ''zz'' [] [] 0 True] idem_demo) ''id1'' ''POST'' ''/pay'' 7 True) =
     (REQ_PROCESSED, Some ''ok'')"
  using idempotent_duplicate_recognised [of idempotent_store_init "[]" "''id1''" idem_demo "''POST''" "''/pay''" 7
      "''ok''" 0 "[Check ''zz'' [] [] 0 True]" "''POST''" "''/pay''" 7] idem_demo_lru
  by (simp add: idem_demo_def idem_run_def)

text \<open>
  A full store answers a new request with another request's result: when all 1024 slots are in use
  and a new id is recorded without a result, the next check of that id answers \<open>REQ_PROCESSED\<close> with the
  cached result of the request that was in the last slot, because the reused slot is not cleared.
\<close>

theorem idempotent_stale_result_leaks:
  assumes "s = idem_run before idempotent_store_init" and "is_count s = IDEMPOTENT_CACHE_SIZE"
    and "length k < 64" and "list_all (\<lambda>r. r_request_id r \<noteq> k) (idem_used s)"
  shows "snd (idempotent_check (fst (idempotent_record s k m rs h None now)) k m rs h True) =
    (REQ_PROCESSED, Some (strncpy_z 256 (r_cached_result (last (idem_used s)))))"
proof -
  have inv: "idem_inv s" unfolding assms(1) by (rule idem_inv_run [OF idem_inv_init])
  obtain s' ok where rec: "idempotent_record s k m rs h None now = (s', ok)" by fastforce
  have none: "find_index (\<lambda>r. r_request_id r = k) (idem_used s) = None"
    using assms(4) by (auto simp: find_index_None_iff list_all_iff)
  then have "find_index (\<lambda>r. r_request_id r = k) (idem_room s) = None"
    using evict_room(2) [OF inv] by (auto simp: find_index_None_iff)
  moreover have "r_cached_result (idem_slot s) = r_cached_result (last (idem_used s))"
    using inv assms(2)
    by (simp add: idem_slot_def idem_used_def idem_inv_def IDEMPOTENT_CACHE_SIZE_def last_conv_nth length_0_conv [symmetric] del: length_0_conv)
  ultimately have "idem_remembers s' k (r_cached_result (last (idem_used s))) (is_lru_counter s + 1)"
    using idem_record_miss(1) [OF inv none rec] assms(3)
    by (simp add: idem_remembers_def idem_entry_def idem_cached_def find_index_append nth_append)
  moreover have "idem_inv s'" using idem_inv_record [OF inv, of k m rs h None now] rec by simp
  ultimately show ?thesis using idem_remembers_check rec by auto
qed

text \<open>
  A store filled up: ids of 64 characters are stored truncated and never found again, so recording the same
  long id fills one slot after the other.
\<close>

definition idem_fill_op :: idem_op where
  "idem_fill_op = Record (replicate 64 CHR ''x'') ''POST'' ''/a'' 0 (Some ''secret'') 0"

lemma idem_fill:
  "n \<le> IDEMPOTENT_CACHE_SIZE \<Longrightarrow>
   is_count (idem_run (replicate n idem_fill_op) idempotent_store_init) = n \<and>
   list_all (\<lambda>r. r_request_id r = replicate 63 CHR ''x'' \<and> r_cached_result r = ''secret'')
     (idem_used (idem_run (replicate n idem_fill_op) idempotent_store_init))"
proof (induction n)
  case 0
  show ?case by (simp add: idem_run_def idempotent_store_init_def idem_used_def)
next
  case (Suc n)
  let ?s = "idem_run (replicate n idem_fill_op) idempotent_store_init"
  let ?k = "replicate 64 CHR ''x''"
  have inv: "idem_inv ?s" by (rule idem_inv_run [OF idem_inv_init])
  note IH = Suc.IH [OF Suc_leD [OF Suc.prems]]
  have run: "idem_run (replicate (Suc n) idem_fill_op) idempotent_store_init = idem_exec idem_fill_op ?s"
    by (simp add: idem_run_def replicate_append_same [symmetric] del: replicate.simps)
  have "replicate 63 CHR ''x'' \<noteq> ?k" by (rule notI, drule arg_cong [of _ _ length]) simp
  then have none: "find_index (\<lambda>r. r_request_id r = ?k) (idem_used ?s) = None"
    using IH by (auto simp: find_index_None_iff list_all_iff)
  have room: "idem_room ?s = idem_used ?s" using IH Suc.prems by (simp add: idem_room_def)
  obtain s' ok where rec: "idempotent_record ?s ?k ''POST'' ''/a'' 0 (Some ''secret'') 0 = (s', ok)" by fastforce
  have exec: "idem_exec idem_fill_op ?s = s'" using rec by (simp add: idem_fill_op_def)
  show ?case
    using idem_record_miss(1,3) [OF inv none rec] room IH length_idem_used [OF inv]
    unfolding run exec by (simp add: idem_cached_def strncpy_z_def take_replicate)
qed

theorem idempotent_stale_result_leaks_witness:
  "snd (idempotent_check (fst (idempotent_record
      (idem_run (replicate 1024 idem_fill_op) idempotent_store_init) ''new'' [] [] 0 None 0)) ''new'' [] [] 0 True) =
   (REQ_PROCESSED, Some ''secret'')"
proof -
  let ?s = "idem_run (replicate 1024 idem_fill_op) idempotent_store_init"
  have fill: "is_count ?s = 1024"
    "list_all (\<lambda>r. r_request_id r = replicate 63 CHR ''x'' \<and> r_cached_result r = ''secret'') (idem_used ?s)"
    using idem_fill [of 1024] by (simp_all add: IDEMPOTENT_CACHE_SIZE_def)
  have "''new'' \<noteq> replicate 63 CHR ''x''" by (rule notI, drule arg_cong [of _ _ length]) simp
  then have fresh: "list_all (\<lambda>r. r_request_id r \<noteq> ''new'') (idem_used ?s)"
    using fill(2) by (auto simp: list_all_iff)
  have "idem_used ?s \<noteq> []"
    using fill(1) length_idem_used [OF idem_inv_run [OF idem_inv_init], of "replicate 1024 idem_fill_op"] by auto
  then have "r_cached_result (last (idem_used ?s)) = ''secret''"
    using fill(2) last_in_set by (auto simp: list_all_iff)
  with idempotent_stale_result_leaks [OF refl, of "replicate 1024 idem_fill_op" "''new''" "[]" "[]" 0 0] fill(1) fresh
  show ?thesis by (simp add: IDEMPOTENT_CACHE_SIZE_def)
qed

lemma backoff_loop_min:
  assumes "0 < delay"
  shows "min mx (backoff_loop mx n delay) = min mx (delay * 2 ^ n)"
  using assms
proof (induction n arbitrary: delay)
  case (Suc n)
  have "1 \<le> (2 :: int) ^ Suc n" by (rule one_le_power) simp
  then have le: "delay \<le> delay * 2 ^ Suc n" using Suc.prems by (simp del: power_Suc)
  show ?case
  proof (cases "delay < mx")
    case True
    with Suc.IH [of "delay * 2"] Suc.prems show ?thesis by (simp add: mult.assoc)
  next
    case False
    with le show ?thesis by (simp add: min_absorb1)
  qed
qed simp

lemma compute_backoff_exact:
  assumes "\<not> rp_use_jitter p" and "0 < rp_base_delay_ms p" and "0 < rp_max_delay_ms p"
  shows "idempotent_compute_backoff jitter p i = min (rp_max_delay_ms p) (rp_base_delay_ms p * 2 ^ i)"
proof -
  have "0 < rp_base_delay_ms p * 2 ^ i" using assms(2) by simp
  then have "1 \<le> rp_base_delay_ms p * 2 ^ i" by linarith
  with assms backoff_loop_min [OF assms(2), of "rp_max_delay_ms p" i] show ?thesis
    by (auto simp: idempotent_compute_backoff_def Let_def min_def split: if_splits)
qed

definition retry_slept :: "(int \<Rightarrow> int) \<Rightarrow> RetryPolicy \<Rightarrow> nat \<Rightarrow> int list" where
  "retry_slept jitter p a = (if a > 0 then [idempotent_compute_backoff jitter p (a - 1)] else [])"

lemma retry_loop_calls:
  assumes "\<And>i. i < f \<Longrightarrow> \<not> fst (op (((snd \<circ> op) ^^ i) w))" and "f < n \<Longrightarrow> fst (op (((snd \<circ> op) ^^ f) w))"
  shows "retry_loop op jitter p [a..<a + n] w =
    (f < n, ((snd \<circ> op) ^^ min (Suc f) n) w, concat (map (retry_slept jitter p) [a..<a + min (Suc f) n]))"
  using assms
proof (induction n arbitrary: a w f)
  case (Suc n)
  obtain ok w1 where op: "op w = (ok, w1)" by fastforce
  have upt: "[a..<a + Suc m] = a # [Suc a..<Suc a + m]" for m by (simp add: upt_conv_Cons)
  show ?case
  proof (cases f)
    case 0
    with Suc.prems op upt [of n] show ?thesis by (simp add: retry_slept_def)
  next
    case (Suc f')
    have "\<not> ok" using Suc.prems(1) [of 0] op Suc by simp
    have shift: "((snd \<circ> op) ^^ Suc i) w = ((snd \<circ> op) ^^ i) w1" for i
      using op by (simp add: funpow_Suc_right del: funpow.simps)
    have tl: "\<not> fst (op (((snd \<circ> op) ^^ i) w1))" if "i < f'" for i
      using Suc.prems(1) [of "Suc i"] Suc that by (simp only: shift Suc_less_eq not_False_eq_True)
    have hd: "fst (op (((snd \<circ> op) ^^ f') w1))" if "f' < n"
      using Suc.prems(2) Suc that by (simp only: shift Suc_less_eq)
    have split: "retry_loop op jitter p [Suc a..<Suc a + n] w1 =
      (f' < n, ((snd \<circ> op) ^^ min (Suc f') n) w1,
       concat (map (retry_slept jitter p) [Suc a..<Suc a + min (Suc f') n]))"
      by (rule Suc.IH [OF tl hd])
    have m: "min (Suc f) (Suc n) = Suc (min (Suc f') n)" using Suc by simp
    show ?thesis
      unfolding m upt shift using split \<open>\<not> ok\<close> op Suc
      by (simp add: retry_slept_def [of jitter p a] del: upt_Suc)
  qed
qed simp

lemma concat_slept:
  "concat (map (retry_slept jitter p) [0..<Suc k]) = map (idempotent_compute_backoff jitter p) [0..<k]"
proof -
  have "concat (map (retry_slept jitter p) (map Suc xs)) = map (idempotent_compute_backoff jitter p) xs" for xs
    by (induction xs) (simp_all add: retry_slept_def)
  then have "concat (map (retry_slept jitter p) [Suc 0..<Suc k]) = map (idempotent_compute_backoff jitter p) [0..<k]"
    by (metis map_Suc_upt)
  then show ?thesis by (simp add: upt_conv_Cons retry_slept_def del: upt_Suc)
qed

text \<open>
  The retry loop: let \<open>op\<close> fail on its first \<open>f\<close> calls and succeed on the next one if it is made. With
  jitter off and positive delays, \<open>idempotent_retry_with_backoff\<close> succeeds exactly when \<open>f\<close> is at most
  \<open>max_retries\<close>, calls \<open>op\<close> \<open>min (f + 1) (max_retries + 1)\<close> times, and sleeps
  \<open>min max_delay (base_delay * 2 ^ i)\<close> before retry number \<open>i\<close>, counted from 0.
\<close>

theorem idempotent_retry_exponential:
  assumes "\<not> rp_use_jitter p" and "0 < rp_base_delay_ms p" and "0 < rp_max_delay_ms p"
    and "0 \<le> rp_max_retries p"
    and "\<And>i. i < f \<Longrightarrow> \<not> fst (op (((snd \<circ> op) ^^ i) w))"
    and "f \<le> nat (rp_max_retries p) \<Longrightarrow> fst (op (((snd \<circ> op) ^^ f) w))"
  shows "idempotent_retry_with_backoff (Some (\<lambda>_. op)) ctx jitter p w =
    (f \<le> nat (rp_max_retries p), ((snd \<circ> op) ^^ min (Suc f) (Suc (nat (rp_max_retries p)))) w,
     map (\<lambda>i. min (rp_max_delay_ms p) (rp_base_delay_ms p * 2 ^ i)) [0..<min f (nat (rp_max_retries p))])"
proof -
  let ?n = "Suc (nat (rp_max_retries p))"
  have n: "nat (rp_max_retries p + 1) = ?n" using assms(4) by (simp add: Suc_nat_eq_nat_zadd1 add.commute)
  have m: "min (Suc f) ?n = Suc (min f (nat (rp_max_retries p)))" by simp
  have "retry_loop op jitter p [0..<0 + ?n] w =
      (f < ?n, ((snd \<circ> op) ^^ min (Suc f) ?n) w, concat (map (retry_slept jitter p) [0..<0 + min (Suc f) ?n]))"
    by (rule retry_loop_calls) (use assms(5,6) in auto)
  then show ?thesis
    unfolding idempotent_retry_with_backoff_def option.case n m
    by (simp only: add_0 concat_slept less_Suc_eq_le)
       (simp add: compute_backoff_exact [OF assms(1-3)])
qed

theorem idempotent_retry_exponential_witness:
  "idempotent_retry_with_backoff (Some (\<lambda>_ (n :: nat). (n \<ge> 3, Suc n))) (None :: unit option) (\<lambda>d. d)
     (retry_policy_init 5 100 350 False) 0 = (True, 4, [100, 200, 350])"
proof -
  let ?op = "\<lambda>n :: nat. (n \<ge> 3, Suc n)"
  have it: "((snd \<circ> ?op) ^^ i) 0 = i" for i by (induction i) auto
  have "idempotent_retry_with_backoff (Some (\<lambda>_. ?op)) (None :: unit option) (\<lambda>d. d)
      (retry_policy_init 5 100 350 False) 0 = (3 \<le> nat 5, ((snd \<circ> ?op) ^^ min (Suc 3) (Suc (nat 5))) 0,
       map (\<lambda>i. min 350 (100 * 2 ^ i)) [0..<min 3 (nat 5)])"
    using idempotent_retry_exponential [of "retry_policy_init 5 100 350 False" 3 ?op 0 None "\<lambda>d. d"]
    by (simp only: it) (simp add: retry_policy_init_def)
  then show ?thesis by (simp only: it) (simp add: upt_rec)
qed

end
