(* ===== verification/Wal.thy ===== *)
theory Wal
  imports Net_Prelude
begin

text \<open>
  Write-ahead log and crash recovery (\<open>mini-dist-transaction/src/wal.c\<close>, \<open>include/wal.h\<close>): the bounded
  record array with its wrap-around, flushing, checkpoints, the analysis, redo and undo passes and
  \<open>wal_recover\<close>. \<open>time(NULL)\<close> is the argument \<open>now\<close>; the apply and rollback callbacks are parameters on an
  explicit world. A checkpoint taken on a full array writes past its end in C: the model returns \<open>None\<close>
  there. The printing functions are not modelled.
\<close>

section \<open>Data\<close>

definition WAL_MAX_RECORDS :: nat where "WAL_MAX_RECORDS = 512"
definition WAL_KEY_LEN :: nat where "WAL_KEY_LEN = 32"
definition WAL_VAL_LEN :: nat where "WAL_VAL_LEN = 128"

datatype WALRecordType =
  WAL_REC_INSERT | WAL_REC_UPDATE | WAL_REC_DELETE | WAL_REC_BEGIN | WAL_REC_COMMIT | WAL_REC_ABORT
| WAL_REC_CHECKPOINT

record WALRecord =
  lr_lsn :: int
  lr_type :: WALRecordType
  lr_txn_id :: int
  lr_key :: string
  lr_old_value :: string
  lr_new_value :: string
  lr_prev_lsn :: int
  lr_timestamp :: int

record WALManager =
  wm_records :: "WALRecord list"
  wm_count :: nat
  wm_next_lsn :: int
  wm_flushed_lsn :: int
  wm_checkpoint_lsn :: int
  wm_write_pos :: nat
  wm_flush_pos :: nat
  wm_is_circular :: bool

fun wal_record_type_str :: "WALRecordType \<Rightarrow> string" where
  "wal_record_type_str WAL_REC_INSERT = ''INSERT''"
| "wal_record_type_str WAL_REC_UPDATE = ''UPDATE''"
| "wal_record_type_str WAL_REC_DELETE = ''DELETE''"
| "wal_record_type_str WAL_REC_BEGIN = ''BEGIN''"
| "wal_record_type_str WAL_REC_COMMIT = ''COMMIT''"
| "wal_record_type_str WAL_REC_ABORT = ''ABORT''"
| "wal_record_type_str WAL_REC_CHECKPOINT = ''CHECKPOINT''"

definition wal_zero :: WALRecord where
  "wal_zero = \<lparr>lr_lsn = 0, lr_type = WAL_REC_INSERT, lr_txn_id = 0, lr_key = [], lr_old_value = [],
     lr_new_value = [], lr_prev_lsn = 0, lr_timestamp = 0\<rparr>"

definition wal_manager_init :: WALManager where
  "wal_manager_init = \<lparr>wm_records = replicate WAL_MAX_RECORDS wal_zero, wm_count = 0, wm_next_lsn = 1,
     wm_flushed_lsn = 0, wm_checkpoint_lsn = 0, wm_write_pos = 0, wm_flush_pos = 0, wm_is_circular = False\<rparr>"

definition str_field :: "nat \<Rightarrow> string option \<Rightarrow> string" where
  "str_field n s = (case s of Some x \<Rightarrow> strncpy_z n x | None \<Rightarrow> [])"

definition wal_record_init ::
  "WALRecordType \<Rightarrow> int \<Rightarrow> string option \<Rightarrow> string option \<Rightarrow> string option \<Rightarrow> int \<Rightarrow> WALRecord" where
  "wal_record_init typ txn_id k old_val new_val now =
     \<lparr>lr_lsn = 0, lr_type = typ, lr_txn_id = txn_id, lr_key = str_field WAL_KEY_LEN k,
      lr_old_value = str_field WAL_VAL_LEN old_val, lr_new_value = str_field WAL_VAL_LEN new_val,
      lr_prev_lsn = 0, lr_timestamp = now\<rparr>"

section \<open>Appending, flushing, checkpoints\<close>

definition wal_append :: "WALManager \<Rightarrow> WALRecord \<Rightarrow> WALManager \<times> int" where
  "wal_append wm rc =
     (let wm1 = (if wm_count wm \<ge> WAL_MAX_RECORDS \<and> \<not> wm_is_circular wm
                 then wm\<lparr>wm_is_circular := True, wm_write_pos := 0\<rparr> else wm);
          lsn = wm_next_lsn wm1 in
      if wm_count wm1 \<ge> WAL_MAX_RECORDS \<and> wm_is_circular wm1 then
        (wm1\<lparr>wm_records := (wm_records wm1)[wm_write_pos wm1 :=
                rc\<lparr>lr_lsn := lsn, lr_prev_lsn := lr_lsn (wm_records wm1 ! wm_write_pos wm1)\<rparr>],
             wm_write_pos := (wm_write_pos wm1 + 1) mod WAL_MAX_RECORDS,
             wm_next_lsn := lsn + 1\<rparr>, lsn)
      else
        (wm1\<lparr>wm_records := (wm_records wm1)[wm_count wm1 :=
                rc\<lparr>lr_lsn := lsn,
                  lr_prev_lsn := (if wm_count wm1 > 0 then lr_lsn (wm_records wm1 ! (wm_count wm1 - 1)) else 0)\<rparr>],
             wm_write_pos := wm_count wm1, wm_count := wm_count wm1 + 1,
             wm_next_lsn := lsn + 1\<rparr>, lsn))"

definition wal_flush :: "WALManager \<Rightarrow> WALManager \<times> bool" where
  "wal_flush wm =
     (if wm_write_pos wm = wm_flush_pos wm \<and> wm_flushed_lsn wm \<ge> wm_next_lsn wm - 1 then (wm, True)
      else (wm\<lparr>wm_flushed_lsn := wm_next_lsn wm - 1, wm_flush_pos := wm_write_pos wm\<rparr>, True))"

function flush_to_loop :: "int \<Rightarrow> int \<Rightarrow> int \<Rightarrow> nat \<Rightarrow> int \<times> nat" where
  "flush_to_loop target_lsn next_lsn flushed_lsn flushed =
     (if flushed_lsn < target_lsn \<and> flushed_lsn < next_lsn - 1
      then flush_to_loop target_lsn next_lsn (flushed_lsn + 1) (flushed + 1)
      else (flushed_lsn, flushed))"
  by pat_completeness auto
termination by (relation "measure (\<lambda>(t, n, f, c). nat (n - 1 - f))") auto

declare flush_to_loop.simps [simp del]

definition wal_flush_to :: "WALManager \<Rightarrow> int \<Rightarrow> WALManager \<times> nat" where
  "wal_flush_to wm target_lsn =
     (case flush_to_loop target_lsn (wm_next_lsn wm) (wm_flushed_lsn wm) 0 of (lsn, flushed) \<Rightarrow>
        (wm\<lparr>wm_flushed_lsn := lsn, wm_flush_pos := wm_write_pos wm\<rparr>, flushed))"

definition wal_checkpoint :: "WALManager \<Rightarrow> int \<Rightarrow> WALManager option" where
  "wal_checkpoint wm now =
     (if wm_count wm \<ge> WAL_MAX_RECORDS then None
      else Some (wm\<lparr>
        wm_records := (wm_records wm)[wm_count wm :=
          (wal_record_init WAL_REC_CHECKPOINT (-1) None None None now)
            \<lparr>lr_lsn := wm_next_lsn wm, lr_prev_lsn := wm_checkpoint_lsn wm\<rparr>],
        wm_count := wm_count wm + 1, wm_checkpoint_lsn := wm_next_lsn wm,
        wm_next_lsn := wm_next_lsn wm + 1\<rparr>))"

definition wal_used :: "WALManager \<Rightarrow> WALRecord list" where
  "wal_used wm = take (wm_count wm) (wm_records wm)"

definition wal_find_by_lsn :: "WALManager \<Rightarrow> int \<Rightarrow> nat option" where
  "wal_find_by_lsn wm lsn = find_index (\<lambda>r. lr_lsn r = lsn) (wal_used wm)"

text \<open>The start index and the count that \<open>wal_scan_from\<close> hands out.\<close>

definition wal_scan_from :: "WALManager \<Rightarrow> int \<Rightarrow> nat \<times> nat" where
  "wal_scan_from wm start_lsn =
     (let start = (case find_index (\<lambda>r. lr_lsn r \<ge> start_lsn) (wal_used wm) of Some i \<Rightarrow> i | None \<Rightarrow> 0)
      in (start, wm_count wm - start))"

section \<open>Recovery\<close>

text \<open>
  The analysis tables \<open>txn_ids\<close> and \<open>txn_ended\<close> as a list of pairs, together with \<open>*first_undone_lsn\<close>. The
  callers pass at most 64 for \<open>max_txn\<close>, within the 256 slots of the C arrays, and a non-null pointer.
\<close>

definition wal_ends :: "WALRecord \<Rightarrow> bool" where
  "wal_ends r \<longleftrightarrow> lr_type r = WAL_REC_COMMIT \<or> lr_type r = WAL_REC_ABORT"

definition analyze_step :: "nat \<Rightarrow> WALRecord \<Rightarrow> (int \<times> bool) list \<times> int \<Rightarrow> (int \<times> bool) list \<times> int" where
  "analyze_step max_txn r st =
     (case st of (txns, first) \<Rightarrow>
        let t = find_index (\<lambda>p. fst p = lr_txn_id r) txns;
            (txns1, t1) = (if t = None \<and> length txns < max_txn \<and> lr_txn_id r > 0
                           then (txns @ [(lr_txn_id r, False)], Some (length txns)) else (txns, t))
        in case t1 of
             None \<Rightarrow> (txns1, first)
           | Some i \<Rightarrow>
               let txns2 = (if wal_ends r then txns1[i := (fst (txns1 ! i), True)] else txns1)
               in (txns2, if \<not> snd (txns2 ! i) \<and> lr_lsn r < first then lr_lsn r else first))"

definition INT64_MAX :: int where "INT64_MAX = 2 ^ 63 - 1"

definition analyze_records :: "WALRecord list \<Rightarrow> nat \<Rightarrow> int list \<times> int" where
  "analyze_records rs max_txn =
     (case fold (analyze_step max_txn) rs ([], INT64_MAX) of (txns, first) \<Rightarrow>
        (map fst (filter (\<lambda>p. \<not> snd p) txns), first))"

definition wal_analyze_pass :: "WALManager \<Rightarrow> nat \<Rightarrow> int list \<times> int" where
  "wal_analyze_pass wm max_txn = analyze_records (wal_used wm) max_txn"

type_synonym 'w wal_fn = "(string \<Rightarrow> string option \<Rightarrow> int \<Rightarrow> 'w \<Rightarrow> 'w) option"

definition wal_call :: "'w wal_fn \<Rightarrow> string \<Rightarrow> string option \<Rightarrow> int \<Rightarrow> 'w \<Rightarrow> 'w" where
  "wal_call f k v ver w = (case f of None \<Rightarrow> w | Some g \<Rightarrow> g k v ver w)"

definition redo_step :: "int \<Rightarrow> 'w wal_fn \<Rightarrow> WALRecord \<Rightarrow> 'w \<times> nat \<Rightarrow> 'w \<times> nat" where
  "redo_step start_lsn f r st =
     (case st of (w, redone) \<Rightarrow>
        if lr_lsn r < start_lsn then (w, redone)
        else if lr_type r = WAL_REC_INSERT \<or> lr_type r = WAL_REC_UPDATE
        then (wal_call f (lr_key r) (Some (lr_new_value r)) (lr_lsn r) w, redone + 1)
        else if lr_type r = WAL_REC_DELETE
        then (wal_call f (lr_key r) None (lr_lsn r) w, redone + 1)
        else (w, redone))"

definition wal_redo_pass :: "WALManager \<Rightarrow> int \<Rightarrow> 'w wal_fn \<Rightarrow> 'w \<Rightarrow> 'w \<times> nat" where
  "wal_redo_pass wm start_lsn f w = fold (redo_step start_lsn f) (wal_used wm) (w, 0)"

definition undo_step :: "int list \<Rightarrow> 'w wal_fn \<Rightarrow> WALRecord \<Rightarrow> 'w \<times> nat \<Rightarrow> 'w \<times> nat" where
  "undo_step losers f r st =
     (case st of (w, undone) \<Rightarrow>
        if \<not> list_ex (\<lambda>t. lr_txn_id r = t) losers then (w, undone)
        else if lr_type r = WAL_REC_INSERT
        then (wal_call f (lr_key r) None (lr_lsn r) w, undone + 1)
        else if lr_type r = WAL_REC_UPDATE \<or> lr_type r = WAL_REC_DELETE
        then (wal_call f (lr_key r) (Some (lr_old_value r)) (lr_lsn r) w, undone + 1)
        else (w, undone))"

definition wal_undo_pass :: "WALManager \<Rightarrow> int list \<Rightarrow> 'w wal_fn \<Rightarrow> 'w \<Rightarrow> 'w \<times> nat" where
  "wal_undo_pass wm losers f w = fold (undo_step losers f) (rev (wal_used wm)) (w, 0)"

definition wal_recover_start :: "WALManager \<Rightarrow> int" where
  "wal_recover_start wm = (if wm_checkpoint_lsn wm > 0 then wm_checkpoint_lsn wm else 1)"

definition append_abort :: "int \<Rightarrow> int \<Rightarrow> WALManager \<Rightarrow> WALManager" where
  "append_abort now txn wm = fst (wal_append wm (wal_record_init WAL_REC_ABORT txn None None None now))"

definition wal_recover ::
  "WALManager \<Rightarrow> 'w wal_fn \<Rightarrow> 'w wal_fn \<Rightarrow> int \<Rightarrow> 'w \<Rightarrow> WALManager \<times> 'w \<times> bool" where
  "wal_recover wm redo_fn undo_fn now w =
     (let w1 = fst (wal_redo_pass wm (wal_recover_start wm) redo_fn w);
          losers = fst (wal_analyze_pass wm 64);
          w2 = (if length losers > 0 then fst (wal_undo_pass wm losers undo_fn w1) else w1);
          wm1 = fold (append_abort now) losers wm
      in (fst (wal_flush wm1), w2, True))"

definition wal_crash_recovery_simulate :: "WALManager \<Rightarrow> bool" where
  "wal_crash_recovery_simulate wm =
     (length (fst (wal_analyze_pass (wm\<lparr>wm_count := wm_flush_pos wm + 1, wm_write_pos := wm_flush_pos wm\<rparr>) 64)) > 0)"

definition wal_get_next_lsn :: "WALManager \<Rightarrow> int" where "wal_get_next_lsn wm = wm_next_lsn wm"
definition wal_get_flushed_lsn :: "WALManager \<Rightarrow> int" where "wal_get_flushed_lsn wm = wm_flushed_lsn wm"

section \<open>The log as a state machine\<close>

definition wal_initial :: "WALManager \<Rightarrow> bool" where
  "wal_initial wm \<longleftrightarrow> wm = wal_manager_init"

inductive wal_step :: "WALManager \<Rightarrow> WALManager \<Rightarrow> bool" where
  step_append: "wal_step wm (fst (wal_append wm rc))"
| step_flush: "wal_step wm (fst (wal_flush wm))"
| step_flush_to: "wal_step wm (fst (wal_flush_to wm lsn))"
| step_checkpoint: "wal_checkpoint wm now = Some wm' \<Longrightarrow> wal_step wm wm'"

text \<open>
  Log sequence numbers are unique, and until the array wraps around the records are in their order.
\<close>

definition wal_inv :: "WALManager \<Rightarrow> bool" where
  "wal_inv wm \<longleftrightarrow>
     length (wm_records wm) = WAL_MAX_RECORDS \<and> wm_count wm \<le> WAL_MAX_RECORDS \<and>
     wm_write_pos wm < WAL_MAX_RECORDS \<and> 1 \<le> wm_next_lsn wm \<and>
     0 \<le> wm_flushed_lsn wm \<and> wm_flushed_lsn wm < wm_next_lsn wm \<and>
     0 \<le> wm_checkpoint_lsn wm \<and> wm_checkpoint_lsn wm < wm_next_lsn wm \<and>
     distinct (map lr_lsn (wal_used wm)) \<and>
     (\<forall>r \<in> set (wal_used wm). 1 \<le> lr_lsn r \<and> lr_lsn r < wm_next_lsn wm) \<and>
     (\<not> wm_is_circular wm \<longrightarrow> sorted (map lr_lsn (wal_used wm))) \<and>
     (wm_is_circular wm \<longrightarrow> wm_count wm = WAL_MAX_RECORDS)"

lemma length_wal_used: "wal_inv wm \<Longrightarrow> length (wal_used wm) = wm_count wm"
  by (simp add: wal_inv_def wal_used_def)

text \<open>Adding a record at the end of the used part, shared by appends and checkpoints.\<close>

lemma wal_used_snoc:
  assumes "wal_inv wm" and "wm_count wm < WAL_MAX_RECORDS"
    and "wm_records wm' = (wm_records wm)[wm_count wm := r]" and "wm_count wm' = wm_count wm + 1"
  shows "wal_used wm' = wal_used wm @ [r]"
  using assms by (simp add: wal_used_def wal_inv_def take_Suc_conv_app_nth)

lemma wal_append_room:
  assumes "wal_inv wm" and "wm_count wm < WAL_MAX_RECORDS"
  obtains r where "wal_used (fst (wal_append wm rc)) = wal_used wm @ [r]" and "lr_lsn r = wm_next_lsn wm"
    and "lr_type r = lr_type rc" and "lr_txn_id r = lr_txn_id rc" and "lr_key r = lr_key rc"
    and "lr_old_value r = lr_old_value rc" and "lr_new_value r = lr_new_value rc"
    and "lr_prev_lsn r = (if wal_used wm = [] then 0 else lr_lsn (last (wal_used wm)))"
    and "wm_count (fst (wal_append wm rc)) = wm_count wm + 1"
    and "wm_next_lsn (fst (wal_append wm rc)) = wm_next_lsn wm + 1"
    and "wm_is_circular (fst (wal_append wm rc)) = wm_is_circular wm"
proof -
  let ?r = "rc\<lparr>lr_lsn := wm_next_lsn wm,
    lr_prev_lsn := (if wm_count wm > 0 then lr_lsn (wm_records wm ! (wm_count wm - 1)) else 0)\<rparr>"
  have eq: "fst (wal_append wm rc) = wm\<lparr>wm_records := (wm_records wm)[wm_count wm := ?r],
      wm_write_pos := wm_count wm, wm_count := wm_count wm + 1, wm_next_lsn := wm_next_lsn wm + 1\<rparr>"
    using assms(2) by (simp add: wal_append_def Let_def)
  have used: "wal_used (fst (wal_append wm rc)) = wal_used wm @ [?r]"
    by (rule wal_used_snoc [OF assms]) (simp_all add: eq)
  have ne: "wal_used wm = [] \<longleftrightarrow> wm_count wm = 0" using length_wal_used [OF assms(1)] by auto
  have "last (wal_used wm) = wm_records wm ! (wm_count wm - 1)" if "0 < wm_count wm"
    using that ne length_wal_used [OF assms(1)] by (simp add: last_conv_nth) (simp add: wal_used_def)
  with ne have prev: "lr_prev_lsn ?r = (if wal_used wm = [] then 0 else lr_lsn (last (wal_used wm)))" by simp
  show thesis by (rule that [OF used _ _ _ _ _ _ prev]) (simp_all add: eq)
qed

lemma wal_inv_snoc:
  assumes "wal_inv wm" and "wm_count wm < WAL_MAX_RECORDS"
    and "wm_records wm' = (wm_records wm)[wm_count wm := r]" and "wm_count wm' = wm_count wm + 1"
    and "lr_lsn r = wm_next_lsn wm" and "wm_next_lsn wm' = wm_next_lsn wm + 1"
    and "wm_is_circular wm' = wm_is_circular wm" and "wm_flushed_lsn wm' = wm_flushed_lsn wm"
    and "wm_checkpoint_lsn wm' = wm_checkpoint_lsn wm \<or> wm_checkpoint_lsn wm' = wm_next_lsn wm"
    and "wm_write_pos wm' < WAL_MAX_RECORDS"
  shows "wal_inv wm'"
proof -
  have used: "wal_used wm' = wal_used wm @ [r]" by (rule wal_used_snoc [OF assms(1-4)])
  have "\<forall>x \<in> set (wal_used wm). lr_lsn x < lr_lsn r" using assms(1,5) by (simp add: wal_inv_def)
  then have "distinct (map lr_lsn (wal_used wm'))"
    and "sorted (map lr_lsn (wal_used wm)) \<Longrightarrow> sorted (map lr_lsn (wal_used wm'))"
    using assms(1) by (auto simp: used wal_inv_def sorted_append)
  moreover have "\<forall>x \<in> set (wal_used wm'). 1 \<le> lr_lsn x \<and> lr_lsn x < wm_next_lsn wm'"
    using assms(1,5,6) by (auto simp: used wal_inv_def)
  ultimately show ?thesis using assms by (auto simp: wal_inv_def)
qed

lemma wal_inv_append:
  assumes "wal_inv wm"
  shows "wal_inv (fst (wal_append wm rc))"
proof (cases "wm_count wm < WAL_MAX_RECORDS")
  case True
  let ?r = "rc\<lparr>lr_lsn := wm_next_lsn wm,
    lr_prev_lsn := (if wm_count wm > 0 then lr_lsn (wm_records wm ! (wm_count wm - 1)) else 0)\<rparr>"
  show ?thesis
    by (rule wal_inv_snoc [OF assms True, of _ ?r]) (use True in \<open>simp_all add: wal_append_def Let_def\<close>)
next
  case False
  then have full: "wm_count wm = WAL_MAX_RECORDS" using assms by (simp add: wal_inv_def)
  define p where "p = (if wm_is_circular wm then wm_write_pos wm else 0)"
  define r where "r = rc\<lparr>lr_lsn := wm_next_lsn wm, lr_prev_lsn := lr_lsn (wm_records wm ! p)\<rparr>"
  have eq: "fst (wal_append wm rc) = wm\<lparr>wm_records := (wm_records wm)[p := r], wm_is_circular := True,
      wm_write_pos := (p + 1) mod WAL_MAX_RECORDS, wm_next_lsn := wm_next_lsn wm + 1\<rparr>"
    using full by (simp add: wal_append_def Let_def p_def r_def)
  have used: "wal_used wm = wm_records wm" "wal_used (fst (wal_append wm rc)) = (wm_records wm)[p := r]"
    using full assms by (simp_all add: wal_used_def eq wal_inv_def)
  have new: "lr_lsn r \<notin> lr_lsn ` set (wm_records wm)" using assms used(1) by (auto simp: wal_inv_def r_def)
  have "distinct (map lr_lsn ((wm_records wm)[p := r]))"
    using assms used(1) new by (auto simp: map_update wal_inv_def intro!: distinct_list_update)
  moreover have "1 \<le> lr_lsn x \<and> lr_lsn x < wm_next_lsn wm + 1" if "x \<in> set ((wm_records wm)[p := r])" for x
  proof -
    from that have "x = r \<or> x \<in> set (wm_records wm)" using set_update_subset_insert by fastforce
    then show ?thesis using assms used(1) by (auto simp: wal_inv_def r_def)
  qed
  ultimately show ?thesis
    using assms full used(2) by (simp add: wal_inv_def eq WAL_MAX_RECORDS_def)
qed

lemma flush_to_loop_result:
  "f \<le> n - 1 \<Longrightarrow> flush_to_loop t n f c = (max f (min t (n - 1)), c + nat (max f (min t (n - 1)) - f))"
proof (induction t n f c rule: flush_to_loop.induct)
  case (1 t n f c)
  show ?case
  proof (cases "f < t \<and> f < n - 1")
    case True
    then have "flush_to_loop t n f c = flush_to_loop t n (f + 1) (c + 1)"
      by (subst flush_to_loop.simps) simp
    with 1 True show ?thesis by auto
  next
    case False
    with 1(2) show ?thesis by (subst flush_to_loop.simps) auto
  qed
qed

lemma wal_inv_flush: "wal_inv wm \<Longrightarrow> wal_inv (fst (wal_flush wm))"
  by (auto simp: wal_flush_def wal_inv_def wal_used_def)

lemma wal_inv_flush_to: "wal_inv wm \<Longrightarrow> wal_inv (fst (wal_flush_to wm lsn))"
  by (auto simp: wal_flush_to_def wal_inv_def wal_used_def flush_to_loop_result)

lemma wal_inv_checkpoint:
  assumes "wal_inv wm" and "wal_checkpoint wm now = Some wm'"
  shows "wal_inv wm'"
proof -
  have room: "wm_count wm < WAL_MAX_RECORDS" using assms(2) by (simp add: wal_checkpoint_def split: if_splits)
  show ?thesis
    by (rule wal_inv_snoc [OF assms(1) room])
      (use assms room in \<open>auto simp: wal_checkpoint_def wal_inv_def\<close>)
qed

lemmas wal_inv_ops = wal_inv_append wal_inv_flush wal_inv_flush_to wal_inv_checkpoint

interpretation wal: invariant_system wal_initial wal_step wal_inv
proof
  show "wal_inv s" if "wal_initial s" for s
    using that by (simp add: wal_initial_def wal_manager_init_def wal_inv_def wal_used_def WAL_MAX_RECORDS_def)
  show "wal_inv t" if "wal_inv s" and "wal_step s t" for s t
    using that(2,1) by cases (auto intro: wal_inv_ops)
qed

section \<open>The analysis pass\<close>

definition wal_txns :: "WALRecord list \<Rightarrow> int set" where
  "wal_txns rs = {lr_txn_id r |r. r \<in> set rs \<and> lr_txn_id r > 0}"

definition wal_losers :: "WALRecord list \<Rightarrow> int set" where
  "wal_losers rs = {t \<in> wal_txns rs. \<forall>r \<in> set rs. lr_txn_id r = t \<longrightarrow> \<not> wal_ends r}"

lemma wal_txns_snoc: "wal_txns (rs @ [r]) = wal_txns rs \<union> (if lr_txn_id r > 0 then {lr_txn_id r} else {})"
  by (auto simp: wal_txns_def)

text \<open>What the tables hold after a prefix of the log; \<open>T\<close> are the transactions they know.\<close>

definition analyze_inv :: "int set \<Rightarrow> WALRecord list \<Rightarrow> (int \<times> bool) list \<Rightarrow> bool" where
  "analyze_inv T rs txns \<longleftrightarrow>
     distinct (map fst txns) \<and> set (map fst txns) = T \<and>
     (\<forall>(t, e) \<in> set txns. e \<longleftrightarrow> (\<exists>r \<in> set rs. lr_txn_id r = t \<and> wal_ends r))"

lemma distinct_fst_nth:
  "distinct (map fst xs) \<Longrightarrow> i < length xs \<Longrightarrow> p \<in> set xs \<Longrightarrow> fst p = fst (xs ! i) \<Longrightarrow> p = xs ! i"
  by (metis distinct_conv_nth in_set_conv_nth length_map nth_map)

lemma analyze_inv_touch:
  assumes "analyze_inv T rs txns" and "i < length txns" and "fst (txns ! i) = lr_txn_id r"
  shows "analyze_inv T (rs @ [r]) (if wal_ends r then txns[i := (fst (txns ! i), True)] else txns)"
proof -
  let ?t = "if wal_ends r then txns[i := (fst (txns ! i), True)] else txns"
  have fst: "map fst ?t = map fst txns"
    using assms(2) by (simp add: map_update list_update_same_conv)
  have "e \<longleftrightarrow> (\<exists>x \<in> set (rs @ [r]). lr_txn_id x = t \<and> wal_ends x)" if "(t, e) \<in> set ?t" for t e
  proof (cases "t = lr_txn_id r \<and> wal_ends r")
    case True
    have "distinct (map fst ?t)" using fst assms(1) by (simp add: analyze_inv_def)
    then have "(t, e) = ?t ! i"
      using True that assms(2,3) by (intro distinct_fst_nth) auto
    then show ?thesis using True assms(2) by auto
  next
    case False
    then have "(t, e) \<in> set txns"
      using that assms(3) set_update_subset_insert [of txns i "(fst (txns ! i), True)"] by (auto split: if_splits)
    with False assms(1) show ?thesis by (auto simp: analyze_inv_def)
  qed
  then have "\<forall>(t, e) \<in> set ?t. e \<longleftrightarrow> (\<exists>x \<in> set (rs @ [r]). lr_txn_id x = t \<and> wal_ends x)" by blast
  then show ?thesis unfolding analyze_inv_def fst using assms(1) by (simp add: analyze_inv_def)
qed

lemma analyze_step_inv:
  assumes "analyze_inv (wal_txns rs) rs txns" and "card (wal_txns (rs @ [r])) \<le> max_txn"
  shows "analyze_inv (wal_txns (rs @ [r])) (rs @ [r]) (fst (analyze_step max_txn r (txns, first)))"
proof (cases "find_index (\<lambda>p. fst p = lr_txn_id r) txns")
  case (Some i)
  note i = find_index_SomeD(1,2) [OF Some]
  have "lr_txn_id r \<in> wal_txns rs"
    using assms(1) imageI [OF nth_mem [OF i(1)], of fst] i(2) by (simp add: analyze_inv_def)
  then have "wal_txns (rs @ [r]) = wal_txns rs" by (auto simp: wal_txns_snoc)
  with analyze_inv_touch [OF assms(1) i] Some show ?thesis by (simp add: analyze_step_def Let_def)
next
  case None
  have "wal_txns rs = fst ` set txns" using assms(1) by (simp add: analyze_inv_def)
  with None have new: "lr_txn_id r \<notin> wal_txns rs" by (auto simp: find_index_None_iff)
  show ?thesis
  proof (cases "lr_txn_id r > 0")
    case True
    have len: "length txns = card (wal_txns rs)"
      using assms(1) distinct_card [of "map fst txns"] by (simp add: analyze_inv_def)
    have T: "wal_txns (rs @ [r]) = insert (lr_txn_id r) (wal_txns rs)" using True by (simp add: wal_txns_snoc)
    have "finite (wal_txns rs)" using assms(1) by (metis List.finite_set analyze_inv_def)
    with new T assms(2) len have room: "length txns < max_txn" by simp
    let ?t = "txns @ [(lr_txn_id r, False)]"
    have "\<not> wal_ends x" if "x \<in> set rs" "lr_txn_id x = lr_txn_id r" for x
      using new that True by (auto simp: wal_txns_def)
    then have "analyze_inv (wal_txns (rs @ [r])) rs ?t"
      using assms(1) new T by (auto simp: analyze_inv_def)
    from analyze_inv_touch [OF this, of "length txns" r] None True room show ?thesis
      by (simp add: analyze_step_def Let_def)
  next
    case False
    then have "t \<in> wal_txns rs \<Longrightarrow> t \<noteq> lr_txn_id r" for t by (auto simp: wal_txns_def)
    moreover have "wal_txns (rs @ [r]) = wal_txns rs" using False by (simp add: wal_txns_snoc)
    ultimately show ?thesis
      using None False assms(1) by (fastforce simp: analyze_step_def Let_def analyze_inv_def)
  qed
qed

lemma analyze_fold_inv:
  "card (wal_txns rs) \<le> max_txn \<Longrightarrow>
   analyze_inv (wal_txns rs) rs (fst (fold (analyze_step max_txn) rs ([], first)))"
proof (induction rs rule: rev_induct)
  case Nil
  show ?case by (simp add: analyze_inv_def wal_txns_def)
next
  case (snoc r rs)
  have "finite (wal_txns (rs @ [r]))" by (simp add: wal_txns_def)
  then have "card (wal_txns rs) \<le> max_txn"
    using snoc.prems card_mono [of "wal_txns (rs @ [r])" "wal_txns rs"] by (auto simp: wal_txns_snoc)
  from analyze_step_inv [OF snoc.IH [OF this] snoc.prems, of "snd (fold (analyze_step max_txn) rs ([], first))"]
  show ?case by simp
qed

lemma analyze_records_losers:
  assumes "card (wal_txns rs) \<le> max_txn"
  shows "distinct (fst (analyze_records rs max_txn))" and "set (fst (analyze_records rs max_txn)) = wal_losers rs"
proof -
  obtain txns first where f: "fold (analyze_step max_txn) rs ([], INT64_MAX) = (txns, first)" by fastforce
  have inv: "analyze_inv (wal_txns rs) rs txns" using analyze_fold_inv [OF assms, of INT64_MAX] f by simp
  show "distinct (fst (analyze_records rs max_txn))"
    using inv by (auto simp: analyze_records_def f analyze_inv_def distinct_map intro: inj_on_subset)
  have ends: "e \<longleftrightarrow> (\<exists>r \<in> set rs. lr_txn_id r = t \<and> wal_ends r)" if "(t, e) \<in> set txns" for t e
    using inv that by (auto simp: analyze_inv_def)
  have T: "t \<in> wal_txns rs \<longleftrightarrow> (\<exists>e. (t, e) \<in> set txns)" for t
    using inv by (force simp: analyze_inv_def)
  have "t \<in> wal_losers rs \<longleftrightarrow> (t, False) \<in> set txns" for t
  proof
    assume "t \<in> wal_losers rs"
    then obtain e where e: "(t, e) \<in> set txns" and "\<not> (\<exists>r \<in> set rs. lr_txn_id r = t \<and> wal_ends r)"
      using T by (auto simp: wal_losers_def)
    with ends [OF e] show "(t, False) \<in> set txns" by simp
  next
    assume "(t, False) \<in> set txns"
    then show "t \<in> wal_losers rs" using T [of t] ends [of t False] by (auto simp: wal_losers_def)
  qed
  then show "set (fst (analyze_records rs max_txn)) = wal_losers rs"
    by (force simp: analyze_records_def f)
qed

section \<open>Replaying a log on a key-value store\<close>

type_synonym db = "string \<Rightarrow> string option"

definition kv_put :: "string \<Rightarrow> string option \<Rightarrow> int \<Rightarrow> db \<Rightarrow> db" where
  "kv_put k v ver d = d(k := v)"

definition wal_data :: "WALRecord \<Rightarrow> bool" where
  "wal_data r \<longleftrightarrow> lr_type r = WAL_REC_INSERT \<or> lr_type r = WAL_REC_UPDATE \<or> lr_type r = WAL_REC_DELETE"

definition after_image :: "WALRecord \<Rightarrow> string option" where
  "after_image r = (if lr_type r = WAL_REC_DELETE then None else Some (lr_new_value r))"

definition before_image :: "WALRecord \<Rightarrow> string option" where
  "before_image r = (if lr_type r = WAL_REC_INSERT then None else Some (lr_old_value r))"

fun wal_replay :: "WALRecord list \<Rightarrow> db \<Rightarrow> db" where
  "wal_replay [] d = d"
| "wal_replay (r # rs) d = wal_replay rs (if wal_data r then d(lr_key r := after_image r) else d)"

text \<open>Each data record carries the value its key had when it was written, starting from \<open>d\<close>.\<close>

fun wal_images :: "db \<Rightarrow> WALRecord list \<Rightarrow> bool" where
  "wal_images d [] \<longleftrightarrow> True"
| "wal_images d (r # rs) \<longleftrightarrow>
     (wal_data r \<longrightarrow> d (lr_key r) = before_image r) \<and> wal_images (wal_replay [r] d) rs"

text \<open>Nobody but transactions of \<open>L\<close> overwrites what a transaction of \<open>L\<close> wrote.\<close>

fun wal_strict :: "int set \<Rightarrow> WALRecord list \<Rightarrow> bool" where
  "wal_strict L [] \<longleftrightarrow> True"
| "wal_strict L (r # rs) \<longleftrightarrow>
     (wal_data r \<and> lr_txn_id r \<in> L \<longrightarrow>
        list_all (\<lambda>q. wal_data q \<and> lr_key q = lr_key r \<longrightarrow> lr_txn_id q \<in> L) rs) \<and> wal_strict L rs"

definition wal_unreplay :: "int set \<Rightarrow> WALRecord list \<Rightarrow> db \<Rightarrow> db" where
  "wal_unreplay L rs =
     foldr (\<lambda>r d. if wal_data r \<and> lr_txn_id r \<in> L then d(lr_key r := before_image r) else d) rs"

lemma wal_replay_append: "wal_replay (xs @ ys) d = wal_replay ys (wal_replay xs d)"
  by (induction xs arbitrary: d) auto

lemma wal_replay_upd:
  assumes "list_all (\<lambda>r. wal_data r \<longrightarrow> lr_key r \<noteq> k) rs"
  shows "wal_replay rs (d(k := v)) = (wal_replay rs d)(k := v)" and "wal_replay rs d k = d k"
proof -
  show "wal_replay rs (d(k := v)) = (wal_replay rs d)(k := v)"
    using assms
  proof (induction rs arbitrary: d)
    case (Cons r rs)
    have IH: "wal_replay rs (e(k := v)) = (wal_replay rs e)(k := v)" for e
      by (rule Cons.IH) (use Cons.prems in simp)
    show ?case
    proof (cases "wal_data r")
      case True
      with Cons.prems have "d(k := v, lr_key r := after_image r) = d(lr_key r := after_image r, k := v)"
        by (intro fun_upd_twist) auto
      with True show ?thesis by (simp only: wal_replay.simps if_True IH)
    qed (simp only: wal_replay.simps if_False IH)
  qed simp
  show "wal_replay rs d k = d k" using assms by (induction rs arbitrary: d) auto
qed

lemma wal_replay_nodata: "list_all (\<lambda>r. \<not> wal_data r) rs \<Longrightarrow> wal_replay rs d = d"
  by (induction rs arbitrary: d) auto

lemma redo_fold:
  "fst (fold (redo_step start (Some kv_put)) rs (d, n)) = wal_replay (filter (\<lambda>r. start \<le> lr_lsn r) rs) d"
  by (induction rs arbitrary: d n)
    (auto simp: redo_step_def wal_call_def kv_put_def wal_data_def after_image_def)

lemma wal_unreplay_simps [simp]:
  "wal_unreplay L [] d = d"
  "wal_unreplay L (r # rs) d = (if wal_data r \<and> lr_txn_id r \<in> L
     then (wal_unreplay L rs d)(lr_key r := before_image r) else wal_unreplay L rs d)"
  by (simp_all add: wal_unreplay_def)

lemma undo_step_world:
  "fst (undo_step losers (Some kv_put) r st) =
   (if wal_data r \<and> lr_txn_id r \<in> set losers then (fst st)(lr_key r := before_image r) else fst st)"
  by (cases st) (auto simp: undo_step_def wal_call_def kv_put_def wal_data_def before_image_def list_ex_iff)

lemma undo_foldr:
  "fst (foldr (undo_step losers (Some kv_put)) rs (d, n)) = wal_unreplay (set losers) rs d"
proof (induction rs)
  case (Cons r rs)
  then show ?case by (simp only: foldr_Cons o_apply undo_step_world wal_unreplay_simps)
qed simp

lemma wal_unreplay_correct:
  assumes "wal_images d rs" and "wal_strict L rs"
  shows "wal_unreplay L rs (wal_replay rs d) = wal_replay (filter (\<lambda>r. lr_txn_id r \<notin> L) rs) d"
  using assms
proof (induction rs arbitrary: d)
  case Nil
  show ?case by simp
next
  case (Cons r rs)
  let ?W = "filter (\<lambda>r. lr_txn_id r \<notin> L) rs"
  have IH: "wal_unreplay L rs (wal_replay rs (wal_replay [r] d)) = wal_replay ?W (wal_replay [r] d)"
    using Cons by simp
  show ?case
  proof (cases "wal_data r \<and> lr_txn_id r \<in> L")
    case True
    have "list_all (\<lambda>q. wal_data q \<longrightarrow> lr_key q \<noteq> lr_key r) ?W"
      using Cons.prems(2) True by (auto simp: list_all_iff)
    note upd = wal_replay_upd [OF this]
    have "(wal_replay ?W d)(lr_key r := before_image r) = wal_replay ?W d"
      using upd(2) Cons.prems(1) True by (simp add: fun_upd_idem)
    with IH True upd(1) show ?thesis by simp
  qed (use IH in auto)
qed

lemma sorted_filter_split:
  "sorted (map f xs) \<Longrightarrow> filter (\<lambda>x. f x < c) xs @ filter (\<lambda>x. (c :: int) \<le> f x) xs = xs"
proof (induction xs)
  case (Cons a xs)
  show ?case
  proof (cases "f a < c")
    case False
    with Cons.prems have ge: "\<forall>x \<in> set xs. c \<le> f x" by auto
    then have "filter (\<lambda>x. f x < c) xs = []" and "filter (\<lambda>x. c \<le> f x) xs = xs"
      by (auto simp: filter_empty_conv)
    with False show ?thesis by simp
  qed (use Cons in simp)
qed simp

lemma wal_recover_world:
  assumes "wal_inv wm" and "\<not> wm_is_circular wm" and "card (wal_txns (wal_used wm)) \<le> 64"
    and "d = wal_replay (filter (\<lambda>r. lr_lsn r < wal_recover_start wm) (wal_used wm)) d0"
  shows "fst (snd (wal_recover wm (Some kv_put) (Some kv_put) now d)) =
    wal_unreplay (wal_losers (wal_used wm)) (wal_used wm) (wal_replay (wal_used wm) d0)"
proof -
  let ?u = "wal_used wm"
  let ?L = "fst (analyze_records ?u 64)"
  have "sorted (map lr_lsn ?u)" using assms(1,2) by (simp add: wal_inv_def)
  from sorted_filter_split [OF this, of "wal_recover_start wm"]
  have redo: "wal_replay (filter (\<lambda>r. wal_recover_start wm \<le> lr_lsn r) ?u) d = wal_replay ?u d0"
    unfolding assms(4) by (metis wal_replay_append)
  have L: "set ?L = wal_losers ?u" by (rule analyze_records_losers(2) [OF assms(3)])
  have nil: "wal_unreplay {} rs x = x" for rs x by (induction rs) auto
  show ?thesis
    by (cases "?L = []")
      (use L in \<open>simp_all add: wal_recover_def Let_def wal_redo_pass_def wal_undo_pass_def wal_analyze_pass_def
         redo_fold redo foldr_conv_fold [symmetric] undo_foldr nil\<close>)
qed

lemma wal_append_slot:
  assumes "wal_inv wm"
  shows "\<exists>i prev. i < length (wal_used (fst (wal_append wm rc))) \<and>
    wal_used (fst (wal_append wm rc)) ! i = rc\<lparr>lr_lsn := wm_next_lsn wm, lr_prev_lsn := prev\<rparr>"
proof (cases "wm_count wm < WAL_MAX_RECORDS")
  case True
  with assms show ?thesis
    by (intro exI [of _ "wm_count wm"]) (auto simp: wal_append_def Let_def wal_used_def wal_inv_def)
next
  case False
  with assms show ?thesis
    by (intro exI [of _ "if wm_is_circular wm then wm_write_pos wm else 0"])
      (auto simp: wal_append_def Let_def wal_used_def wal_inv_def WAL_MAX_RECORDS_def)
qed

text \<open>The abort records that recovery appends.\<close>

lemma append_aborts:
  assumes "wal_inv wm" and "wm_count wm + length ts \<le> WAL_MAX_RECORDS"
  shows "wal_inv (fold (append_abort now) ts wm) \<and>
    wm_is_circular (fold (append_abort now) ts wm) = wm_is_circular wm \<and>
    wm_checkpoint_lsn (fold (append_abort now) ts wm) = wm_checkpoint_lsn wm \<and>
    (\<exists>as. wal_used (fold (append_abort now) ts wm) = wal_used wm @ as \<and> map lr_txn_id as = ts \<and>
       list_all (\<lambda>r. lr_type r = WAL_REC_ABORT) as)"
  using assms
proof (induction ts arbitrary: wm)
  case (Cons t ts)
  let ?rc = "wal_record_init WAL_REC_ABORT t None None None now"
  obtain r where r: "wal_used (append_abort now t wm) = wal_used wm @ [r]" "lr_type r = WAL_REC_ABORT"
      "lr_txn_id r = t" "wm_count (append_abort now t wm) = wm_count wm + 1"
      "wm_is_circular (append_abort now t wm) = wm_is_circular wm"
    using wal_append_room [OF Cons.prems(1), of ?rc] Cons.prems(2)
    by (auto simp: append_abort_def wal_record_init_def)
  have "wal_inv (append_abort now t wm)" unfolding append_abort_def by (rule wal_inv_append [OF Cons.prems(1)])
  note IH = Cons.IH [OF this]
  have "wm_checkpoint_lsn (append_abort now t wm) = wm_checkpoint_lsn wm"
    by (simp add: append_abort_def wal_append_def Let_def)
  with IH r Cons.prems(2) show ?case by auto
qed simp

lemma wal_flush_used [simp]: "wal_used (fst (wal_flush wm)) = wal_used wm"
  "wm_is_circular (fst (wal_flush wm)) = wm_is_circular wm"
  "wm_checkpoint_lsn (fst (wal_flush wm)) = wm_checkpoint_lsn wm"
  by (simp_all add: wal_flush_def wal_used_def)

lemma wal_recover_log:
  assumes "wal_inv wm" and "card (wal_txns (wal_used wm)) \<le> 64"
    and "wm_count wm + card (wal_losers (wal_used wm)) \<le> WAL_MAX_RECORDS"
    and "wm' = fst (wal_recover wm f g now w)"
  shows "wal_inv wm' \<and> wm_is_circular wm' = wm_is_circular wm \<and> wm_checkpoint_lsn wm' = wm_checkpoint_lsn wm \<and>
    (\<exists>as. wal_used wm' = wal_used wm @ as \<and> set (map lr_txn_id as) = wal_losers (wal_used wm) \<and>
       list_all (\<lambda>r. lr_type r = WAL_REC_ABORT) as)"
proof -
  let ?L = "fst (analyze_records (wal_used wm) 64)"
  note L = analyze_records_losers [OF assms(2)]
  have "length ?L = card (wal_losers (wal_used wm))" using L distinct_card by metis
  with append_aborts [OF assms(1), of ?L now] assms(3) obtain as where
    as: "wal_inv (fold (append_abort now) ?L wm)"
      "wm_is_circular (fold (append_abort now) ?L wm) = wm_is_circular wm"
      "wm_checkpoint_lsn (fold (append_abort now) ?L wm) = wm_checkpoint_lsn wm"
      "wal_used (fold (append_abort now) ?L wm) = wal_used wm @ as" "map lr_txn_id as = ?L"
      "list_all (\<lambda>r. lr_type r = WAL_REC_ABORT) as" by auto
  have wm': "wm' = fst (wal_flush (fold (append_abort now) ?L wm))"
    by (simp add: assms(4) wal_recover_def Let_def wal_analyze_pass_def)
  have "set (map lr_txn_id as) = wal_losers (wal_used wm)" unfolding as(5) by (rule L(2))
  with as show ?thesis
    unfolding wm' by (intro conjI exI [of _ as] wal_inv_flush) simp_all
qed

lemma wal_losers_closed:
  assumes "set (map lr_txn_id as) = wal_losers rs" and "list_all (\<lambda>r. lr_type r = WAL_REC_ABORT) as"
  shows "wal_losers (rs @ as) = {}" and "wal_txns (rs @ as) = wal_txns rs"
proof -
  have sub: "wal_losers rs \<subseteq> wal_txns rs" by (auto simp: wal_losers_def)
  have "wal_txns as \<subseteq> set (map lr_txn_id as)" by (auto simp: wal_txns_def)
  moreover have "wal_txns (rs @ as) = wal_txns rs \<union> wal_txns as" by (auto simp: wal_txns_def)
  ultimately show txns: "wal_txns (rs @ as) = wal_txns rs" using sub assms(1) by auto
  show "wal_losers (rs @ as) = {}"
  proof (rule equals0I)
    fix t
    assume t: "t \<in> wal_losers (rs @ as)"
    then have "t \<in> wal_losers rs" using txns by (auto simp: wal_losers_def)
    then have "t \<in> set (map lr_txn_id as)" using assms(1) by simp
    then obtain a where "a \<in> set as" "lr_txn_id a = t" by auto
    moreover from this have "wal_ends a" using assms(2) by (auto simp: wal_ends_def list_all_iff)
    ultimately show False using t by (auto simp: wal_losers_def)
  qed
qed

section \<open>Properties\<close>

text \<open>
  The log keeps what is appended: in every reachable log, also after the array has wrapped around,
  \<open>wal_append\<close> returns a sequence number larger than every number in the log, \<open>wal_find_by_lsn\<close> finds the
  record under it unchanged, the numbers stay pairwise different, and a following \<open>wal_flush\<close> covers it.
\<close>

theorem wal_append_find:
  assumes "reach wal_initial wal_step wm" and "wal_append wm rc = (wm', lsn)"
  shows "(\<forall>r \<in> set (wal_used wm). lr_lsn r < lsn) \<and> distinct (map lr_lsn (wal_used wm')) \<and>
    (\<exists>i prev. wal_find_by_lsn wm' lsn = Some i \<and>
       wal_used wm' ! i = rc\<lparr>lr_lsn := lsn, lr_prev_lsn := prev\<rparr>) \<and>
    wal_get_flushed_lsn (fst (wal_flush wm')) = lsn"
proof -
  have inv: "wal_inv wm" by (rule wal.reach_inv [OF assms(1)])
  have lsn: "lsn = wm_next_lsn wm" and nxt: "wm_next_lsn wm' = wm_next_lsn wm + 1"
    and fl: "wm_flushed_lsn wm' = wm_flushed_lsn wm"
    using assms(2) by (auto simp: wal_append_def Let_def split: if_splits)
  have inv': "wal_inv wm'" using wal_inv_append [OF inv, of rc] assms(2) by simp
  then have dist: "distinct (map lr_lsn (wal_used wm'))" by (simp add: wal_inv_def)
  obtain i prev where i: "i < length (wal_used wm')" "wal_used wm' ! i = rc\<lparr>lr_lsn := lsn, lr_prev_lsn := prev\<rparr>"
    using wal_append_slot [OF inv, of rc] assms(2) lsn by auto
  have "wal_find_by_lsn wm' lsn = Some i"
    unfolding wal_find_by_lsn_def
  proof (rule find_index_SomeI)
    fix j
    assume "j < i"
    with dist i show "lr_lsn (wal_used wm' ! j) \<noteq> lsn"
      using nth_eq_iff_index_eq [OF dist, of j i] by simp
  qed (use i in simp_all)
  moreover have "wal_get_flushed_lsn (fst (wal_flush wm')) = lsn"
    using inv lsn nxt fl by (auto simp: wal_get_flushed_lsn_def wal_flush_def wal_inv_def)
  ultimately show ?thesis using i(2) dist inv lsn by (auto simp: wal_inv_def)
qed

definition wal_demo_insert :: WALRecord where
  "wal_demo_insert = wal_record_init WAL_REC_INSERT 1 (Some ''k'') None (Some ''v'') 0"

lemma wal_init_reach: "reach wal_initial wal_step wal_manager_init"
  by (rule reach_init) (simp add: wal_initial_def)

theorem wal_append_find_witness:
  "wal_get_flushed_lsn (fst (wal_flush (fst (wal_append wal_manager_init wal_demo_insert)))) = 1"
proof -
  have "wal_append wal_manager_init wal_demo_insert = (fst (wal_append wal_manager_init wal_demo_insert), 1)"
    by (simp add: wal_append_def wal_manager_init_def Let_def)
  from wal_append_find [OF wal_init_reach this] show ?thesis by simp
qed

text \<open>
  What recovery does with the store: it keeps the writes of the transactions that logged a commit or an abort, and those logged under a number
  that is not positive, and reverses the others.
\<close>

lemma wal_recover_store:
  assumes "reach wal_initial wal_step wm" and "\<not> wm_is_circular wm"
    and "card (wal_txns (wal_used wm)) \<le> 64"
    and "wal_images d0 (wal_used wm)" and "wal_strict (wal_losers (wal_used wm)) (wal_used wm)"
    and "d = wal_replay (filter (\<lambda>r. lr_lsn r < wal_recover_start wm) (wal_used wm)) d0"
  shows "fst (snd (wal_recover wm (Some kv_put) (Some kv_put) now d)) =
    wal_replay (filter (\<lambda>r. lr_txn_id r \<notin> wal_losers (wal_used wm)) (wal_used wm)) d0"
  using wal_recover_world [OF wal.reach_inv [OF assms(1)] assms(2,3,6)] wal_unreplay_correct [OF assms(4,5)]
  by simp

definition wal_committed :: "WALRecord list \<Rightarrow> int set" where
  "wal_committed rs = {t. \<exists>r \<in> set rs. lr_type r = WAL_REC_COMMIT \<and> lr_txn_id r = t}"

lemma wal_replay_filter_cong:
  "(\<And>r. r \<in> set rs \<Longrightarrow> wal_data r \<Longrightarrow> P r = Q r) \<Longrightarrow> wal_replay (filter P rs) d = wal_replay (filter Q rs) d"
  by (induction rs arbitrary: d) auto

lemma wal_strict_cong:
  "(\<And>r. r \<in> set rs \<Longrightarrow> wal_data r \<Longrightarrow> (lr_txn_id r \<in> L) = (lr_txn_id r \<in> M)) \<Longrightarrow> wal_strict L rs = wal_strict M rs"
  by (induction rs) (auto simp: list_all_iff)

text \<open>In a log without abort records, whose writes carry positive transaction numbers, the losers are the transactions that did not commit.\<close>

lemma wal_losers_uncommitted:
  assumes "\<forall>r \<in> set rs. lr_type r \<noteq> WAL_REC_ABORT" and "\<forall>r \<in> set rs. wal_data r \<longrightarrow> 0 < lr_txn_id r"
    and "r \<in> set rs" and "wal_data r"
  shows "lr_txn_id r \<in> wal_losers rs \<longleftrightarrow> lr_txn_id r \<notin> wal_committed rs"
  using assms by (auto simp: wal_losers_def wal_txns_def wal_committed_def wal_ends_def)

text \<open>
  C5. Crash recovery is correct for one crash: take any log the manager can reach without wrapping
  around, with at most 64 transactions, in which no abort was logged and every write carries a positive transaction number, whose
  records carry the true before-images starting from a store \<open>d0\<close> (none for an insertion), and in which no committed transaction overwrote
  a write of an uncommitted one. If the store on disk holds the effects of all records before the last
  checkpoint, \<open>wal_recover\<close> with callbacks that store and erase values turns it into the store in which exactly the writes of
  the transactions that logged a commit have been made, in the order of the log.
\<close>

theorem wal_recover_correct:
  assumes "reach wal_initial wal_step wm" and "\<not> wm_is_circular wm"
    and "card (wal_txns (wal_used wm)) \<le> 64"
    and "\<forall>r \<in> set (wal_used wm). lr_type r \<noteq> WAL_REC_ABORT"
    and "\<forall>r \<in> set (wal_used wm). wal_data r \<longrightarrow> 0 < lr_txn_id r"
    and "wal_images d0 (wal_used wm)" and "wal_strict (- wal_committed (wal_used wm)) (wal_used wm)"
    and "d = wal_replay (filter (\<lambda>r. lr_lsn r < wal_recover_start wm) (wal_used wm)) d0"
  shows "fst (snd (wal_recover wm (Some kv_put) (Some kv_put) now d)) =
    wal_replay (filter (\<lambda>r. lr_txn_id r \<in> wal_committed (wal_used wm)) (wal_used wm)) d0"
proof -
  note losers = wal_losers_uncommitted [OF assms(4,5)]
  have "wal_strict (wal_losers (wal_used wm)) (wal_used wm)"
    using assms(7) wal_strict_cong [of "wal_used wm" "- wal_committed (wal_used wm)" "wal_losers (wal_used wm)"] losers by simp
  from wal_recover_store [OF assms(1-3,6) this assms(8)] show ?thesis
    using wal_replay_filter_cong [of "wal_used wm" "\<lambda>r. lr_txn_id r \<notin> wal_losers (wal_used wm)"] losers by simp
qed

definition wal_demo :: WALManager where
  "wal_demo = fst (wal_append wal_manager_init wal_demo_insert)"

lemma wal_demo_reach: "reach wal_initial wal_step wal_demo"
  unfolding wal_demo_def
proof (rule reach_step)
  show "reach wal_initial wal_step wal_manager_init" by (rule wal_init_reach)
qed (rule wal_step.step_append)

lemma wal_demo_used: "wal_used wal_demo = [wal_demo_insert\<lparr>lr_lsn := 1\<rparr>]"
  by (simp add: wal_demo_def wal_append_def wal_manager_init_def Let_def wal_used_def WAL_MAX_RECORDS_def
      wal_demo_insert_def wal_record_init_def take_Suc_conv_app_nth)

lemma wal_demo_state: "\<not> wm_is_circular wal_demo" "wm_checkpoint_lsn wal_demo = 0" "wm_count wal_demo = 1"
  by (simp_all add: wal_demo_def wal_append_def wal_manager_init_def Let_def WAL_MAX_RECORDS_def)

lemma wal_demo_txns: "wal_txns (wal_used wal_demo) = {1}" "wal_losers (wal_used wal_demo) = {1}"
  by (auto simp: wal_demo_used wal_txns_def wal_losers_def wal_demo_insert_def wal_record_init_def wal_ends_def)

theorem wal_recover_correct_witness:
  "fst (snd (wal_recover wal_demo (Some kv_put) (Some kv_put) 0 Map.empty)) = Map.empty"
proof -
  have start: "wal_recover_start wal_demo = 1" by (simp add: wal_recover_start_def wal_demo_state)
  have recs: "\<forall>r \<in> set (wal_used wal_demo). lr_type r \<noteq> WAL_REC_ABORT" "\<forall>r \<in> set (wal_used wal_demo). wal_data r \<longrightarrow> 0 < lr_txn_id r"
    by (simp_all add: wal_demo_used wal_demo_insert_def wal_record_init_def)
  have img: "wal_images Map.empty (wal_used wal_demo)"
    by (simp add: wal_demo_used wal_demo_insert_def wal_record_init_def before_image_def)
  have strict: "wal_strict (- wal_committed (wal_used wal_demo)) (wal_used wal_demo)" by (simp add: wal_demo_used)
  have disk: "Map.empty = wal_replay (filter (\<lambda>r. lr_lsn r < wal_recover_start wal_demo) (wal_used wal_demo)) Map.empty"
    by (simp add: wal_demo_used start)
  have "filter (\<lambda>r. lr_txn_id r \<in> wal_committed (wal_used wal_demo)) (wal_used wal_demo) = []"
    by (simp add: wal_demo_used wal_committed_def wal_demo_insert_def wal_record_init_def)
  with wal_recover_correct [OF wal_demo_reach wal_demo_state(1) _ recs img strict disk, of 0] show ?thesis
    by (simp add: wal_demo_txns)
qed

text \<open>
  Recovery is not repeatable: recovery logs an abort for each unfinished transaction but no record of
  what it undid. If the machine crashes again before the disk is written, the second \<open>wal_recover\<close> on the same
  disk takes those transactions for finished, and the store ends with the writes of all transactions in the
  log, the unfinished ones included.
\<close>

theorem wal_second_recovery_redoes_losers:
  assumes "reach wal_initial wal_step wm" and "\<not> wm_is_circular wm" and "wm_checkpoint_lsn wm = 0"
    and "card (wal_txns (wal_used wm)) \<le> 64"
    and "wm_count wm + card (wal_losers (wal_used wm)) \<le> WAL_MAX_RECORDS"
  shows "fst (snd (wal_recover (fst (wal_recover wm f g now w)) (Some kv_put) (Some kv_put) now' d0)) =
    wal_replay (wal_used wm) d0"
proof -
  define wm' where "wm' = fst (wal_recover wm f g now w)"
  note inv = wal.reach_inv [OF assms(1)]
  from wal_recover_log [OF inv assms(4,5) wm'_def] obtain as where
    log: "wal_inv wm'" "wm_is_circular wm' = wm_is_circular wm" "wm_checkpoint_lsn wm' = wm_checkpoint_lsn wm"
      "wal_used wm' = wal_used wm @ as" "set (map lr_txn_id as) = wal_losers (wal_used wm)"
      "list_all (\<lambda>r. lr_type r = WAL_REC_ABORT) as" by auto
  note closed = wal_losers_closed [OF log(5,6)]
  have start: "wal_recover_start wm' = 1" using log(3) assms(3) by (simp add: wal_recover_start_def)
  have disk: "d0 = wal_replay (filter (\<lambda>r. lr_lsn r < wal_recover_start wm') (wal_used wm')) d0"
  proof -
    have "filter (\<lambda>r. lr_lsn r < 1) (wal_used wm') = []"
      using log(1) by (force simp: wal_inv_def filter_empty_conv)
    then show ?thesis by (simp add: start)
  qed
  have circ: "\<not> wm_is_circular wm'" using log(2) assms(2) by simp
  have few: "card (wal_txns (wal_used wm')) \<le> 64" using assms(4) closed(2) log(4) by simp
  have nil: "wal_unreplay {} rs x = x" for rs x by (induction rs) auto
  have "list_all (\<lambda>r. \<not> wal_data r) as" using log(6) by (auto simp: wal_data_def list_all_iff)
  with wal_recover_world [OF log(1) circ few disk, of now'] closed(1) log(4) nil show ?thesis
    by (simp add: wm'_def [symmetric] wal_replay_append wal_replay_nodata)
qed

theorem wal_second_recovery_redoes_losers_witness:
  "fst (snd (wal_recover (fst (wal_recover wal_demo (Some kv_put) (Some kv_put) 0 Map.empty))
     (Some kv_put) (Some kv_put) 0 Map.empty)) = [''k'' \<mapsto> ''v'']"
proof -
  have "wm_count wal_demo + card (wal_losers (wal_used wal_demo)) \<le> WAL_MAX_RECORDS"
    by (simp add: wal_demo_state wal_demo_txns WAL_MAX_RECORDS_def)
  with wal_second_recovery_redoes_losers [OF wal_demo_reach wal_demo_state(1,2)]
  show ?thesis
    by (simp add: wal_demo_txns)
      (simp add: wal_demo_used wal_demo_insert_def wal_record_init_def wal_data_def after_image_def str_field_def
        WAL_KEY_LEN_def WAL_VAL_LEN_def)
qed

section \<open>Divergences from the comments\<close>

text \<open>
  \<open>wal_scan_from\<close> with a start number beyond the log hands out the whole log instead of nothing.
\<close>

lemma wal_scan_from_beyond:
  "list_all (\<lambda>r. lr_lsn r < lsn) (wal_used wm) \<Longrightarrow> wal_scan_from wm lsn = (0, wm_count wm)"
proof -
  assume "list_all (\<lambda>r. lr_lsn r < lsn) (wal_used wm)"
  then have "find_index (\<lambda>r. lr_lsn r \<ge> lsn) (wal_used wm) = None"
    by (auto simp: find_index_None_iff list_all_iff)
  then show ?thesis by (simp add: wal_scan_from_def)
qed

end
