(* ===== verification/Mvcc.thy ===== *)
theory Mvcc
  imports Net_Prelude
begin

text \<open>
  Multi-version concurrency control with snapshot isolation (\<open>mini-dist-transaction/src/mvcc.c\<close>,
  \<open>include/mvcc.h\<close>). A version chain linked by \<open>prev\<close> is the list of its versions, the head first; the
  array the versions are allocated from is represented by the number of slots used. A transaction object
  belongs to its client and is passed to every operation; the store keeps the copy made by
  \<open>mvcc_txn_begin\<close>. Key pointers kept in read and write sets are the strings they point to. The null checks
  on pointers and the printing functions are not modelled.
\<close>

section \<open>Data\<close>

definition MVCC_MAX_KEYS :: nat where "MVCC_MAX_KEYS = 128"
definition MVCC_MAX_VERSIONS :: nat where "MVCC_MAX_VERSIONS = 1024"
definition MVCC_MAX_TXN :: nat where "MVCC_MAX_TXN = 64"
definition MVCC_KEY_LEN :: nat where "MVCC_KEY_LEN = 32"
definition MVCC_VAL_LEN :: nat where "MVCC_VAL_LEN = 128"

datatype MVCCTxnStatus = MVCC_TXN_ACTIVE | MVCC_TXN_COMMITTED | MVCC_TXN_ABORTED

datatype MVCCRecStatus = MVCC_REC_INIT | MVCC_REC_COMMITTED | MVCC_REC_ABORTED

record MVCCVersion =
  mv_txn_id :: int
  mv_commit_ts :: int
  mv_value :: string
  mv_status :: MVCCRecStatus

record MVCCRecord =
  mr_key :: string
  mr_chain :: "MVCCVersion list"
  mr_version_count :: int

record MVCCTransaction =
  mt_txn_id :: int
  mt_read_ts :: int
  mt_commit_ts :: int
  mt_status :: MVCCTxnStatus
  mt_read_keys :: "string list"
  mt_writes :: "(string \<times> string) list"

record MVCCStore =
  ms_records :: "MVCCRecord list"
  ms_version_count :: nat
  ms_global_ts :: int
  ms_active_txns :: "MVCCTransaction list"

fun mvcc_txn_status_str :: "MVCCTxnStatus \<Rightarrow> string" where
  "mvcc_txn_status_str MVCC_TXN_ACTIVE = ''ACTIVE''"
| "mvcc_txn_status_str MVCC_TXN_COMMITTED = ''COMMITTED''"
| "mvcc_txn_status_str MVCC_TXN_ABORTED = ''ABORTED''"

fun mvcc_rec_status_str :: "MVCCRecStatus \<Rightarrow> string" where
  "mvcc_rec_status_str MVCC_REC_INIT = ''INIT''"
| "mvcc_rec_status_str MVCC_REC_COMMITTED = ''COMMITTED''"
| "mvcc_rec_status_str MVCC_REC_ABORTED = ''ABORTED''"

section \<open>Operations\<close>

definition mvcc_store_init :: MVCCStore where
  "mvcc_store_init = \<lparr>ms_records = [], ms_version_count = 0, ms_global_ts = 1, ms_active_txns = []\<rparr>"

definition mvcc_version_init :: "int \<Rightarrow> int \<Rightarrow> string \<Rightarrow> MVCCRecStatus \<Rightarrow> MVCCVersion" where
  "mvcc_version_init txn_id commit_ts val st =
     \<lparr>mv_txn_id = txn_id, mv_commit_ts = commit_ts, mv_value = strncpy_z MVCC_VAL_LEN val, mv_status = st\<rparr>"

definition mvcc_record_init :: "string \<Rightarrow> MVCCRecord" where
  "mvcc_record_init key = \<lparr>mr_key = strncpy_z MVCC_KEY_LEN key, mr_chain = [], mr_version_count = 0\<rparr>"

definition mvcc_txn_init :: "int \<Rightarrow> MVCCTransaction" where
  "mvcc_txn_init txn_id = \<lparr>mt_txn_id = txn_id, mt_read_ts = 0, mt_commit_ts = 0, mt_status = MVCC_TXN_ACTIVE,
     mt_read_keys = [], mt_writes = []\<rparr>"

definition mvcc_allocate_ts :: "MVCCStore \<Rightarrow> MVCCStore \<times> int" where
  "mvcc_allocate_ts s = (s\<lparr>ms_global_ts := ms_global_ts s + 1\<rparr>, ms_global_ts s)"

text \<open>On failure the client's transaction object is left as it was (\<open>None\<close>).\<close>

definition mvcc_txn_begin :: "MVCCStore \<Rightarrow> int \<Rightarrow> MVCCStore \<times> MVCCTransaction option" where
  "mvcc_txn_begin s txn_id =
     (if length (ms_active_txns s) \<ge> MVCC_MAX_TXN then (s, None)
      else
        case mvcc_allocate_ts s of (s1, ts) \<Rightarrow>
          let txn = (mvcc_txn_init txn_id)\<lparr>mt_read_ts := ts\<rparr> in
          (s1\<lparr>ms_active_txns := ms_active_txns s1 @ [txn]\<rparr>, Some txn))"

definition mvcc_chain :: "MVCCStore \<Rightarrow> string \<Rightarrow> MVCCVersion list" where
  "mvcc_chain s key = (case find_index (\<lambda>r. mr_key r = key) (ms_records s) of
     None \<Rightarrow> [] | Some i \<Rightarrow> mr_chain (ms_records s ! i))"

definition mvcc_version_chain_head :: "MVCCStore \<Rightarrow> string \<Rightarrow> MVCCVersion option" where
  "mvcc_version_chain_head s key = (case mvcc_chain s key of [] \<Rightarrow> None | v # _ \<Rightarrow> Some v)"

fun visible_loop :: "int \<Rightarrow> MVCCVersion list \<Rightarrow> MVCCVersion option" where
  "visible_loop read_ts [] = None"
| "visible_loop read_ts (cur # rest) =
     (if mv_status cur = MVCC_REC_COMMITTED \<and> mv_commit_ts cur \<le> read_ts then Some cur
      else visible_loop read_ts rest)"

definition mvcc_visible_version :: "MVCCStore \<Rightarrow> string \<Rightarrow> int \<Rightarrow> MVCCVersion option" where
  "mvcc_visible_version s key read_ts = visible_loop read_ts (mvcc_chain s key)"

definition mvcc_find_or_create_record :: "MVCCStore \<Rightarrow> string \<Rightarrow> MVCCStore \<times> nat option" where
  "mvcc_find_or_create_record s key =
     (case find_index (\<lambda>r. mr_key r = key) (ms_records s) of
        Some i \<Rightarrow> (s, Some i)
      | None \<Rightarrow>
          if length (ms_records s) \<ge> MVCC_MAX_KEYS then (s, None)
          else (s\<lparr>ms_records := ms_records s @ [mvcc_record_init key]\<rparr>, Some (length (ms_records s))))"

text \<open>\<open>mvcc_version_chain_append\<close> with \<open>mvcc_link_version\<close>: the new version becomes the head.\<close>

definition mvcc_link_version :: "MVCCVersion list \<Rightarrow> MVCCVersion \<Rightarrow> MVCCVersion list" where
  "mvcc_link_version chain v = v # chain"

definition mvcc_version_chain_append :: "MVCCStore \<Rightarrow> string \<Rightarrow> MVCCVersion \<Rightarrow> MVCCStore" where
  "mvcc_version_chain_append s key v =
     (case mvcc_find_or_create_record s key of
        (s1, None) \<Rightarrow> s1
      | (s1, Some idx) \<Rightarrow>
          if ms_version_count s1 \<ge> MVCC_MAX_VERSIONS then s1
          else
            let r = ms_records s1 ! idx in
            s1\<lparr>ms_version_count := ms_version_count s1 + 1,
               ms_records := (ms_records s1)[idx := r\<lparr>mr_chain := mvcc_link_version (mr_chain r) v,
                 mr_version_count := mr_version_count r + 1\<rparr>]\<rparr>)"

definition read_own :: "MVCCTransaction \<Rightarrow> string \<Rightarrow> string option" where
  "read_own txn key = (case find_index (\<lambda>w. fst w = key) (mt_writes txn) of
     None \<Rightarrow> None | Some i \<Rightarrow> Some (strncpy_z MVCC_VAL_LEN (snd (mt_writes txn ! i))))"

definition mvcc_snapshot_read :: "MVCCStore \<Rightarrow> MVCCTransaction \<Rightarrow> string \<Rightarrow> MVCCTransaction \<times> bool \<times> string" where
  "mvcc_snapshot_read s txn key =
     (case read_own txn key of
        Some v \<Rightarrow> (txn, True, v)
      | None \<Rightarrow>
          (case mvcc_visible_version s key (mt_read_ts txn) of
             None \<Rightarrow> (txn, False, [])
           | Some v \<Rightarrow>
               (if length (mt_read_keys txn) < MVCC_MAX_KEYS
                then txn\<lparr>mt_read_keys := mt_read_keys txn @ [key]\<rparr> else txn,
                True, strncpy_z MVCC_VAL_LEN (mv_value v))))"

definition mvcc_read_your_writes :: "MVCCTransaction \<Rightarrow> string \<Rightarrow> string option" where
  "mvcc_read_your_writes txn key = read_own txn key"

definition mvcc_prepare_write :: "MVCCTransaction \<Rightarrow> string \<Rightarrow> string \<Rightarrow> MVCCTransaction \<times> bool" where
  "mvcc_prepare_write txn key val =
     (if mt_status txn \<noteq> MVCC_TXN_ACTIVE then (txn, False)
      else if length (mt_writes txn) \<ge> MVCC_MAX_KEYS then (txn, False)
      else
        (case find_index (\<lambda>w. fst w = key) (mt_writes txn) of
           Some i \<Rightarrow> (txn\<lparr>mt_writes := (mt_writes txn)[i := (fst (mt_writes txn ! i), strncpy_z MVCC_VAL_LEN val)]\<rparr>, True)
         | None \<Rightarrow> (txn\<lparr>mt_writes := mt_writes txn @ [(key, strncpy_z MVCC_VAL_LEN val)]\<rparr>, True)))"

definition mvcc_validate_write_set :: "MVCCStore \<Rightarrow> MVCCTransaction \<Rightarrow> bool" where
  "mvcc_validate_write_set s txn =
     list_all (\<lambda>w. case mvcc_version_chain_head s (fst w) of None \<Rightarrow> True
                   | Some h \<Rightarrow> \<not> mv_commit_ts h > mt_read_ts txn) (mt_writes txn)"

definition mvcc_check_write_conflict :: "MVCCTransaction \<Rightarrow> MVCCTransaction \<Rightarrow> bool" where
  "mvcc_check_write_conflict txn other =
     (if mt_txn_id txn = mt_txn_id other then False
      else if mt_status other \<noteq> MVCC_TXN_COMMITTED then False
      else list_ex (\<lambda>w. list_ex (\<lambda>w'. fst w = fst w') (mt_writes other)) (mt_writes txn))"

definition drop_active :: "MVCCStore \<Rightarrow> int \<Rightarrow> MVCCStore" where
  "drop_active s txn_id =
     (case find_index (\<lambda>t. mt_txn_id t = txn_id) (ms_active_txns s) of
        None \<Rightarrow> s | Some i \<Rightarrow> s\<lparr>ms_active_txns := remove_at i (ms_active_txns s)\<rparr>)"

definition mvcc_txn_abort :: "MVCCStore \<Rightarrow> MVCCTransaction \<Rightarrow> MVCCStore \<times> MVCCTransaction" where
  "mvcc_txn_abort s txn = (drop_active s (mt_txn_id txn), txn\<lparr>mt_status := MVCC_TXN_ABORTED\<rparr>)"

text \<open>Stamping the head of a key's chain after the append.\<close>

definition mvcc_stamp_head :: "MVCCStore \<Rightarrow> string \<Rightarrow> int \<Rightarrow> MVCCStore" where
  "mvcc_stamp_head s key ts =
     (case find_index (\<lambda>r. mr_key r = key) (ms_records s) of
        None \<Rightarrow> s
      | Some i \<Rightarrow>
          (case mr_chain (ms_records s ! i) of
             [] \<Rightarrow> s
           | h # rest \<Rightarrow> s\<lparr>ms_records := (ms_records s)[i := (ms_records s ! i)\<lparr>mr_chain :=
               h\<lparr>mv_status := MVCC_REC_COMMITTED, mv_commit_ts := ts\<rparr> # rest\<rparr>]\<rparr>))"

fun mvcc_install :: "int \<Rightarrow> int \<Rightarrow> (string \<times> string) list \<Rightarrow> MVCCStore \<Rightarrow> MVCCStore" where
  "mvcc_install txn_id ts [] s = s"
| "mvcc_install txn_id ts ((key, val) # ws) s =
     mvcc_install txn_id ts ws
       (mvcc_stamp_head (mvcc_version_chain_append s key (mvcc_version_init txn_id ts val MVCC_REC_INIT)) key ts)"

definition mvcc_txn_commit :: "MVCCStore \<Rightarrow> MVCCTransaction \<Rightarrow> MVCCStore \<times> MVCCTransaction \<times> bool" where
  "mvcc_txn_commit s txn =
     (if mt_status txn \<noteq> MVCC_TXN_ACTIVE then (s, txn, False)
      else
        case mvcc_allocate_ts s of (s1, ts) \<Rightarrow>
          let txn1 = txn\<lparr>mt_commit_ts := ts\<rparr> in
          if \<not> mvcc_validate_write_set s1 txn1
          then (case mvcc_txn_abort s1 txn1 of (s2, txn2) \<Rightarrow> (s2, txn2, False))
          else
            (drop_active (mvcc_install (mt_txn_id txn1) ts (mt_writes txn1) s1) (mt_txn_id txn1),
             txn1\<lparr>mt_status := MVCC_TXN_COMMITTED\<rparr>, True))"

definition mvcc_check_serializable :: "MVCCStore \<Rightarrow> MVCCTransaction \<Rightarrow> bool" where
  "mvcc_check_serializable s txn =
     (mvcc_validate_write_set s txn \<and>
      list_all (\<lambda>other. mt_txn_id other = mt_txn_id txn \<or> mt_status other \<noteq> MVCC_TXN_ACTIVE \<or>
        \<not> list_ex (\<lambda>r. list_ex (\<lambda>w. r = fst w) (mt_writes other)) (mt_read_keys txn)) (ms_active_txns s))"

definition mvcc_count_active_txns :: "MVCCStore \<Rightarrow> nat" where
  "mvcc_count_active_txns s = count_if (\<lambda>t. mt_status t = MVCC_TXN_ACTIVE) (ms_active_txns s)"

definition MVCC_INT64_MAX :: int where "MVCC_INT64_MAX = 2 ^ 63 - 1"

definition mvcc_oldest_snapshot_ts :: "MVCCStore \<Rightarrow> int" where
  "mvcc_oldest_snapshot_ts s =
     (if ms_active_txns s = [] then ms_global_ts s
      else
        let oldest = fold (\<lambda>t oldest. if mt_status t = MVCC_TXN_ACTIVE \<and> mt_read_ts t < oldest
                                      then mt_read_ts t else oldest) (ms_active_txns s) MVCC_INT64_MAX
        in if oldest = MVCC_INT64_MAX then ms_global_ts s else oldest)"

definition gc_chain_count :: "int \<Rightarrow> MVCCRecord \<Rightarrow> nat" where
  "gc_chain_count oldest r = count_if (\<lambda>v. mv_commit_ts v < oldest) (tl (mr_chain r))"

definition mvcc_gc_old_versions :: "MVCCStore \<Rightarrow> int \<Rightarrow> MVCCStore \<times> nat" where
  "mvcc_gc_old_versions s oldest =
     (s\<lparr>ms_records := map (\<lambda>r. r\<lparr>mr_version_count := mr_version_count r - int (gc_chain_count oldest r)\<rparr>) (ms_records s)\<rparr>,
      sum_list (map (gc_chain_count oldest) (ms_records s)))"

definition mvcc_serializable_si_validation :: "MVCCStore \<Rightarrow> MVCCTransaction \<Rightarrow> bool" where
  "mvcc_serializable_si_validation s txn =
     (mvcc_validate_write_set s txn \<and>
      list_all (\<lambda>other. mt_txn_id other = mt_txn_id txn \<or> mt_status other = MVCC_TXN_ABORTED \<or>
        \<not> (list_ex (\<lambda>r. list_ex (\<lambda>w. r = fst w) (mt_writes txn)) (mt_read_keys other) \<and>
           list_ex (\<lambda>r. list_ex (\<lambda>w. r = fst w) (mt_writes other)) (mt_read_keys txn))) (ms_active_txns s))"

definition mvcc_abort_rate :: "MVCCStore \<Rightarrow> nat" where
  "mvcc_abort_rate s =
     (let committed = count_if (\<lambda>t. mt_status t = MVCC_TXN_COMMITTED) (ms_active_txns s);
          aborted = count_if (\<lambda>t. mt_status t = MVCC_TXN_ABORTED) (ms_active_txns s)
      in if committed + aborted = 0 then 0 else (aborted * 100) div (committed + aborted))"

section \<open>Chains under the operations\<close>

interpretation mvrec: slot_table ms_records mr_key mvcc_record_init MVCC_MAX_KEYS MVCC_KEY_LEN
  mvcc_find_or_create_record
  by unfold_locales (simp_all add: mvcc_find_or_create_record_def mvcc_record_init_def)

lemma mvcc_chain_frame [simp]:
  "mvcc_chain (s\<lparr>ms_global_ts := g\<rparr>) k = mvcc_chain s k"
  "mvcc_chain (s\<lparr>ms_active_txns := a\<rparr>) k = mvcc_chain s k"
  "mvcc_chain (s\<lparr>ms_version_count := n\<rparr>) k = mvcc_chain s k"
  by (simp_all add: mvcc_chain_def split: option.splits)

lemma mvcc_chain_drop [simp]: "mvcc_chain (drop_active s i) k = mvcc_chain s k"
  "ms_global_ts (drop_active s i) = ms_global_ts s" "ms_version_count (drop_active s i) = ms_version_count s"
  "ms_records (drop_active s i) = ms_records s"
  by (simp_all add: drop_active_def split: option.splits)

lemma mvcc_chain_put:
  assumes "find_index (\<lambda>r. mr_key r = key) (ms_records s) = Some i" and "mr_key r = key"
  shows "mvcc_chain (s\<lparr>ms_records := (ms_records s)[i := r]\<rparr>) k = (if k = key then mr_chain r else mvcc_chain s k)"
proof (cases "k = key")
  case True
  with assms find_index_update_same [OF assms] find_index_SomeD(1) [OF assms(1)] show ?thesis
    by (simp add: mvcc_chain_def)
next
  case False
  have key: "mr_key (ms_records s ! i) = key" using find_index_SomeD(2) [OF assms(1)] by simp
  have "find_index (\<lambda>r. mr_key r = k) ((ms_records s)[i := r]) = find_index (\<lambda>r. mr_key r = k) (ms_records s)"
    using False assms(2) key by (intro find_index_update_other) auto
  moreover have "j \<noteq> i" if "find_index (\<lambda>r. mr_key r = k) (ms_records s) = Some j" for j
    using find_index_SomeD(2) [OF that] key False by auto
  ultimately show ?thesis using False by (auto simp: mvcc_chain_def split: option.splits)
qed

lemma mvcc_foc_chain:
  assumes "length key < MVCC_KEY_LEN" and "mvcc_find_or_create_record s key = (s', x)"
  shows "mvcc_chain s' k = mvcc_chain s k" and "ms_version_count s' = ms_version_count s"
    and "ms_global_ts s' = ms_global_ts s" and "length (ms_records s') \<le> length (ms_records s) + 1"
    and "length (ms_records s) < MVCC_MAX_KEYS \<Longrightarrow> \<exists>i. x = Some i"
proof -
  show "ms_version_count s' = ms_version_count s" and "ms_global_ts s' = ms_global_ts s"
    and "length (ms_records s') \<le> length (ms_records s) + 1"
    using assms(2) by (auto simp: mvcc_find_or_create_record_def split: option.splits if_splits)
  show "length (ms_records s) < MVCC_MAX_KEYS \<Longrightarrow> \<exists>i. x = Some i"
    by (cases rule: mvrec.foc_cases [of key s]) (use assms(2) in \<open>simp_all\<close>)
  show "mvcc_chain s' k = mvcc_chain s k"
  proof (cases rule: mvrec.foc_cases [of key s])
    case (new s'')
    then have s': "ms_records s' = ms_records s @ [mvcc_record_init key]" using assms(2) by simp
    show ?thesis
      using find_index_SomeD(1)
      by (fastforce simp: mvcc_chain_def s' find_index_append nth_append mvcc_record_init_def split: option.splits)
  qed (use assms(2) in auto)
qed

text \<open>Installing one write on a store with room: the key's chain gets the new committed version in front.\<close>

definition mvcc_new_version :: "int \<Rightarrow> int \<Rightarrow> string \<Rightarrow> MVCCVersion" where
  "mvcc_new_version txn_id ts val = mvcc_version_init txn_id ts val MVCC_REC_COMMITTED"

lemma mvcc_install_one:
  assumes "length key < MVCC_KEY_LEN" and "ms_version_count s < MVCC_MAX_VERSIONS"
    and "length (ms_records s) < MVCC_MAX_KEYS"
    and "s' = mvcc_stamp_head (mvcc_version_chain_append s key (mvcc_version_init txn_id ts val MVCC_REC_INIT)) key ts"
  shows "mvcc_chain s' k = (if k = key then mvcc_new_version txn_id ts val # mvcc_chain s k else mvcc_chain s k)"
    and "ms_version_count s' = ms_version_count s + 1" and "ms_global_ts s' = ms_global_ts s"
    and "length (ms_records s') \<le> length (ms_records s) + 1"
proof -
  obtain s1 x where foc: "mvcc_find_or_create_record s key = (s1, x)" by fastforce
  note f = mvcc_foc_chain [OF assms(1) foc]
  from f(5) [OF assms(3)] obtain i where x: "x = Some i" ..
  have find: "find_index (\<lambda>r. mr_key r = key) (ms_records s1) = Some i"
    using foc x by (intro mvrec.foc_find [OF _ assms(1)]) simp
  note key = find_index_SomeD(2) [OF find]
  define r where "r = (ms_records s1 ! i)\<lparr>mr_chain := mvcc_version_init txn_id ts val MVCC_REC_INIT # mr_chain (ms_records s1 ! i),
    mr_version_count := mr_version_count (ms_records s1 ! i) + 1\<rparr>"
  define s2 where "s2 = s1\<lparr>ms_version_count := ms_version_count s1 + 1, ms_records := (ms_records s1)[i := r]\<rparr>"
  have app: "mvcc_version_chain_append s key (mvcc_version_init txn_id ts val MVCC_REC_INIT) = s2"
    using foc x f(2) assms(2)
    by (simp add: mvcc_version_chain_append_def Let_def mvcc_link_version_def s2_def r_def)
  have find2: "find_index (\<lambda>r. mr_key r = key) (ms_records s2) = Some i" and ri: "ms_records s2 ! i = r"
    using find_index_update_same [OF find] key find_index_SomeD(1) [OF find] by (simp_all add: s2_def r_def)
  define r' where "r' = r\<lparr>mr_chain := mvcc_new_version txn_id ts val # mr_chain (ms_records s1 ! i)\<rparr>"
  have s': "s' = s2\<lparr>ms_records := (ms_records s2)[i := r']\<rparr>"
    unfolding assms(4) app mvcc_stamp_head_def
    using find2 ri by (simp add: r_def r'_def mvcc_new_version_def mvcc_version_init_def)
  have "mr_chain (ms_records s1 ! i) = mvcc_chain s1 key" using find by (simp add: mvcc_chain_def)
  moreover have "mr_key r' = key" and "mr_key r = key" using key by (simp_all add: r'_def r_def)
  moreover have "mvcc_chain s2 k = (if k = key then mr_chain r else mvcc_chain s1 k)"
    using mvcc_chain_put [of key "s1\<lparr>ms_version_count := ms_version_count s1 + 1\<rparr>" i r k] find key
    by (simp add: s2_def r_def)
  ultimately show "mvcc_chain s' k = (if k = key then mvcc_new_version txn_id ts val # mvcc_chain s k else mvcc_chain s k)"
    unfolding s' using mvcc_chain_put [OF find2] f(1) by (simp add: r'_def)
  show "ms_version_count s' = ms_version_count s + 1" and "ms_global_ts s' = ms_global_ts s"
    and "length (ms_records s') \<le> length (ms_records s) + 1"
    using f(2-4) by (simp_all add: s' s2_def)
qed

lemma mvcc_install_chain:
  assumes "list_all (\<lambda>w. length (fst w) < MVCC_KEY_LEN) ws" and "distinct (map fst ws)"
    and "ms_version_count s + length ws \<le> MVCC_MAX_VERSIONS"
    and "length (ms_records s) + length ws \<le> MVCC_MAX_KEYS"
  shows "mvcc_chain (mvcc_install i ts ws s) k =
      (case map_of ws k of None \<Rightarrow> mvcc_chain s k | Some v \<Rightarrow> mvcc_new_version i ts v # mvcc_chain s k) \<and>
    ms_global_ts (mvcc_install i ts ws s) = ms_global_ts s"
  using assms
proof (induction ws arbitrary: s)
  case (Cons w ws)
  obtain key val where w: "w = (key, val)" by fastforce
  define s' where "s' = mvcc_stamp_head (mvcc_version_chain_append s key (mvcc_version_init i ts val MVCC_REC_INIT)) key ts"
  have one: "length key < MVCC_KEY_LEN" "ms_version_count s < MVCC_MAX_VERSIONS"
    "length (ms_records s) < MVCC_MAX_KEYS" using Cons.prems w by auto
  note inst = mvcc_install_one [OF one s'_def]
  have IH: "mvcc_chain (mvcc_install i ts ws s') k =
      (case map_of ws k of None \<Rightarrow> mvcc_chain s' k | Some v \<Rightarrow> mvcc_new_version i ts v # mvcc_chain s' k) \<and>
    ms_global_ts (mvcc_install i ts ws s') = ms_global_ts s'"
    by (rule Cons.IH) (use Cons.prems inst in auto)
  have "map_of ws key = None" using Cons.prems(2) w by (auto simp: map_of_eq_None_iff)
  with IH inst show ?case by (auto simp: w s'_def [symmetric] split: option.splits)
qed simp

section \<open>Well-formed transactions, room, steps\<close>

definition mvcc_txn_ok :: "MVCCTransaction \<Rightarrow> bool" where
  "mvcc_txn_ok txn \<longleftrightarrow> distinct (map fst (mt_writes txn)) \<and> length (mt_writes txn) \<le> MVCC_MAX_KEYS"

lemma mvcc_txn_ok_begin: "mvcc_txn_begin s i = (s', Some txn) \<Longrightarrow> mvcc_txn_ok txn"
  by (auto simp: mvcc_txn_begin_def mvcc_allocate_ts_def mvcc_txn_init_def mvcc_txn_ok_def Let_def split: if_splits)

lemma mvcc_txn_ok_write: "mvcc_txn_ok txn \<Longrightarrow> mvcc_txn_ok (fst (mvcc_prepare_write txn k v))"
proof -
  assume ok: "mvcc_txn_ok txn"
  show ?thesis
  proof (cases "find_index (\<lambda>w. fst w = k) (mt_writes txn)")
    case (Some i)
    then have "i < length (mt_writes txn)" by (rule find_index_SomeD(1))
    then have "map fst ((mt_writes txn)[i := (fst (mt_writes txn ! i), strncpy_z MVCC_VAL_LEN v)]) = map fst (mt_writes txn)"
      by (simp add: map_update list_update_same_conv)
    with Some ok show ?thesis by (simp add: mvcc_prepare_write_def mvcc_txn_ok_def)
  next
    case None
    then have "k \<notin> fst ` set (mt_writes txn)" by (auto simp: find_index_None_iff)
    with None ok show ?thesis by (simp add: mvcc_prepare_write_def mvcc_txn_ok_def)
  qed
qed

definition mvcc_room :: "MVCCStore \<Rightarrow> MVCCTransaction \<Rightarrow> bool" where
  "mvcc_room s txn \<longleftrightarrow>
     list_all (\<lambda>w. length (fst w) < MVCC_KEY_LEN) (mt_writes txn) \<and>
     ms_version_count s + length (mt_writes txn) \<le> MVCC_MAX_VERSIONS \<and>
     length (ms_records s) + length (mt_writes txn) \<le> MVCC_MAX_KEYS"

text \<open>
  The operations of any number of clients on one store, commits being made with room for their writes.
\<close>

inductive mvcc_step :: "MVCCStore \<Rightarrow> MVCCStore \<Rightarrow> bool" where
  step_begin: "mvcc_step s (fst (mvcc_txn_begin s i))"
| step_commit: "mvcc_txn_ok txn \<Longrightarrow> mvcc_room s txn \<Longrightarrow> mvcc_step s (fst (mvcc_txn_commit s txn))"
| step_abort: "mvcc_step s (fst (mvcc_txn_abort s txn))"
| step_gc: "mvcc_step s (fst (mvcc_gc_old_versions s ts))"

definition mvcc_initial :: "MVCCStore \<Rightarrow> bool" where
  "mvcc_initial s \<longleftrightarrow> s = mvcc_store_init"

text \<open>All versions are older than the clock.\<close>

definition mvcc_inv :: "MVCCStore \<Rightarrow> bool" where
  "mvcc_inv s \<longleftrightarrow> (\<forall>k. \<forall>v \<in> set (mvcc_chain s k). mv_commit_ts v < ms_global_ts s)"

lemma mvcc_commit_result:
  assumes "mvcc_txn_ok txn" and "mvcc_room s txn" and "mvcc_txn_commit s txn = (s', txn', ok)"
  shows "ok \<Longrightarrow> mvcc_chain s' k = (case map_of (mt_writes txn) k of None \<Rightarrow> mvcc_chain s k
      | Some v \<Rightarrow> mvcc_new_version (mt_txn_id txn) (ms_global_ts s) v # mvcc_chain s k)"
    and "ok \<Longrightarrow> ms_global_ts s' = ms_global_ts s + 1 \<and> mt_commit_ts txn' = ms_global_ts s \<and>
      mt_status txn' = MVCC_TXN_COMMITTED"
    and "\<not> ok \<Longrightarrow> mvcc_chain s' k = mvcc_chain s k \<and> ms_global_ts s \<le> ms_global_ts s'"
proof -
  define s1 where "s1 = s\<lparr>ms_global_ts := ms_global_ts s + 1\<rparr>"
  have inst: "mvcc_chain (mvcc_install (mt_txn_id txn) (ms_global_ts s) (mt_writes txn) s1) k =
      (case map_of (mt_writes txn) k of None \<Rightarrow> mvcc_chain s1 k
       | Some v \<Rightarrow> mvcc_new_version (mt_txn_id txn) (ms_global_ts s) v # mvcc_chain s1 k) \<and>
    ms_global_ts (mvcc_install (mt_txn_id txn) (ms_global_ts s) (mt_writes txn) s1) = ms_global_ts s1" for k
    by (rule mvcc_install_chain) (use assms(1,2) in \<open>simp_all add: mvcc_txn_ok_def mvcc_room_def s1_def\<close>)
  show "ok \<Longrightarrow> mvcc_chain s' k = (case map_of (mt_writes txn) k of None \<Rightarrow> mvcc_chain s k
      | Some v \<Rightarrow> mvcc_new_version (mt_txn_id txn) (ms_global_ts s) v # mvcc_chain s k)"
    and "ok \<Longrightarrow> ms_global_ts s' = ms_global_ts s + 1 \<and> mt_commit_ts txn' = ms_global_ts s \<and>
      mt_status txn' = MVCC_TXN_COMMITTED"
    and "\<not> ok \<Longrightarrow> mvcc_chain s' k = mvcc_chain s k \<and> ms_global_ts s \<le> ms_global_ts s'"
    using assms(3) inst
    by (auto simp: mvcc_txn_commit_def mvcc_allocate_ts_def mvcc_txn_abort_def Let_def s1_def
        split: if_splits option.splits)
qed

lemma mvcc_chain_begin [simp]: "mvcc_chain (fst (mvcc_txn_begin s i)) k = mvcc_chain s k"
  "ms_global_ts s \<le> ms_global_ts (fst (mvcc_txn_begin s i))"
  by (simp_all add: mvcc_txn_begin_def mvcc_allocate_ts_def Let_def)

lemma mvcc_chain_abort [simp]: "mvcc_chain (fst (mvcc_txn_abort s txn)) k = mvcc_chain s k"
  "ms_global_ts (fst (mvcc_txn_abort s txn)) = ms_global_ts s"
  by (simp_all add: mvcc_txn_abort_def)

lemma mvcc_chain_gc [simp]: "mvcc_chain (fst (mvcc_gc_old_versions s ts)) k = mvcc_chain s k"
  "ms_global_ts (fst (mvcc_gc_old_versions s ts)) = ms_global_ts s"
proof -
  let ?f = "\<lambda>r. r\<lparr>mr_version_count := mr_version_count r - int (gc_chain_count ts r)\<rparr>"
  have "find_index (\<lambda>r. mr_key r = k) (map ?f (ms_records s)) = find_index (\<lambda>r. mr_key r = k) (ms_records s)"
    by (rule find_index_cong_keys) simp
  then show "mvcc_chain (fst (mvcc_gc_old_versions s ts)) k = mvcc_chain s k"
    by (auto simp: mvcc_chain_def mvcc_gc_old_versions_def dest: find_index_SomeD(1) split: option.splits)
qed (simp add: mvcc_gc_old_versions_def)

text \<open>One step adds at most one version, stamped with the clock, in front of a chain, and the clock advances.\<close>

lemma mvcc_step_chain:
  assumes "mvcc_step s t"
  shows "(mvcc_chain t k = mvcc_chain s k \<or>
      (\<exists>v. mvcc_chain t k = v # mvcc_chain s k \<and> mv_commit_ts v = ms_global_ts s \<and>
        ms_global_ts s < ms_global_ts t)) \<and> ms_global_ts s \<le> ms_global_ts t"
  using assms
proof cases
  case (step_commit txn)
  obtain s' txn' ok where c: "mvcc_txn_commit s txn = (s', txn', ok)" by (cases "mvcc_txn_commit s txn") auto
  note res = mvcc_commit_result [OF step_commit(2,3) c]
  show ?thesis
    using res(1) [of k] res(2) res(3) [of k] step_commit(1) c
    by (cases ok) (auto simp: mvcc_new_version_def mvcc_version_init_def split: option.splits)
qed simp_all

interpretation mvcc: invariant_system mvcc_initial mvcc_step mvcc_inv
proof
  show "mvcc_inv s" if "mvcc_initial s" for s
    using that by (simp add: mvcc_initial_def mvcc_store_init_def mvcc_inv_def mvcc_chain_def)
  show "mvcc_inv t" if "mvcc_inv s" and "mvcc_step s t" for s t
    unfolding mvcc_inv_def
  proof (intro allI ballI)
    fix k v
    assume "v \<in> set (mvcc_chain t k)"
    with mvcc_step_chain [OF that(2), of k] that(1) show "mv_commit_ts v < ms_global_ts t"
      by (fastforce simp: mvcc_inv_def)
  qed
qed

lemma mvcc_step_visible:
  assumes "mvcc_step s t" and "ts < ms_global_ts s"
  shows "mvcc_visible_version t k ts = mvcc_visible_version s k ts"
  using mvcc_step_chain [OF assms(1), of k] assms(2) by (auto simp: mvcc_visible_version_def)

definition head_ts :: "MVCCStore \<Rightarrow> string \<Rightarrow> int" where
  "head_ts s k = mv_commit_ts (hd (mvcc_chain s k))"

lemma mvcc_step_head:
  assumes "mvcc_step s t" and "mvcc_inv s" and "mvcc_chain s k \<noteq> []"
  shows "mvcc_chain t k \<noteq> [] \<and> head_ts s k \<le> head_ts t k"
proof -
  have "head_ts s k < ms_global_ts s"
    using assms(2) hd_in_set [OF assms(3)] unfolding mvcc_inv_def head_ts_def by blast
  with mvcc_step_chain [OF assms(1), of k] assms(3) show ?thesis by (auto simp: head_ts_def)
qed

lemma mvcc_run_head:
  assumes "mvcc_step\<^sup>*\<^sup>* s t" and "mvcc_inv s" and "mvcc_chain s k \<noteq> []"
  shows "mvcc_inv t \<and> mvcc_chain t k \<noteq> [] \<and> head_ts s k \<le> head_ts t k"
  using assms(1)
proof (induction rule: rtranclp_induct)
  case (step t u)
  with mvcc_step_head [OF step.hyps(2), of k] mvcc.step_inv [OF _ step.hyps(2)] show ?case by fastforce
qed (use assms in simp)

section \<open>Properties\<close>

text \<open>
  A successful commit publishes exactly its write set: on a store with room for the writes, reading any
  key at any timestamp afterwards gives the committed value if the key was written and the timestamp is not
  before the commit timestamp, and otherwise what it gave before.
\<close>

theorem mvcc_commit_publishes:
  assumes "mvcc_txn_ok txn" and "mvcc_room s txn" and "mvcc_txn_commit s txn = (s', txn', True)"
  shows "map_option mv_value (mvcc_visible_version s' k ts) =
    (case map_of (mt_writes txn) k of
       Some v \<Rightarrow> if mt_commit_ts txn' \<le> ts then Some (strncpy_z MVCC_VAL_LEN v)
                 else map_option mv_value (mvcc_visible_version s k ts)
     | None \<Rightarrow> map_option mv_value (mvcc_visible_version s k ts))"
  using mvcc_commit_result(1,2) [OF assms]
  by (auto simp: mvcc_visible_version_def mvcc_new_version_def mvcc_version_init_def split: option.splits)

definition mvcc_demo_txn :: "int \<Rightarrow> int \<Rightarrow> string \<Rightarrow> MVCCTransaction" where
  "mvcc_demo_txn i rts v =
     fst (mvcc_prepare_write ((mvcc_txn_init i)\<lparr>mt_read_ts := rts\<rparr>) ''x'' v)"

lemmas mvcc_eval = mvcc_txn_commit_def mvcc_demo_txn_def mvcc_prepare_write_def mvcc_txn_init_def
  mvcc_allocate_ts_def mvcc_validate_write_set_def mvcc_version_chain_head_def mvcc_chain_def mvcc_store_init_def
  MVCC_MAX_KEYS_def MVCC_VAL_LEN_def

theorem mvcc_commit_publishes_witness:
  "map_option mv_value (mvcc_visible_version (fst (mvcc_txn_commit mvcc_store_init (mvcc_demo_txn 1 0 ''a''))) ''x'' 1) =
     Some ''a''"
proof -
  let ?c = "mvcc_txn_commit mvcc_store_init (mvcc_demo_txn 1 0 ''a'')"
  have c: "?c = (fst ?c, fst (snd ?c), True)" by (simp add: mvcc_eval)
  have ts: "mt_commit_ts (fst (snd ?c)) = 1" by (simp add: mvcc_eval)
  show ?thesis
    using mvcc_commit_publishes [OF _ _ c, of "''x''" 1] ts
    by (simp add: mvcc_txn_ok_def mvcc_room_def mvcc_demo_txn_def mvcc_prepare_write_def mvcc_txn_init_def
        mvcc_store_init_def MVCC_KEY_LEN_def MVCC_MAX_KEYS_def MVCC_MAX_VERSIONS_def MVCC_VAL_LEN_def)
qed

text \<open>
  C24. Snapshots are stable: from the moment a transaction has its read timestamp, whatever other
  transactions begin, commit (distinct keys of less than 32 characters, with room in the tables), abort or garbage-collect, a
  snapshot read of any key returns the same answer.
\<close>

theorem mvcc_snapshot_stable:
  assumes "mvcc_txn_begin s0 i = (s, Some txn)" and "mvcc_step\<^sup>*\<^sup>* s t"
    and "mt_read_ts txn' = mt_read_ts txn"
  shows "mvcc_snapshot_read t txn' k = mvcc_snapshot_read s txn' k"
proof -
  have ts: "mt_read_ts txn < ms_global_ts s"
    using assms(1) by (auto simp: mvcc_txn_begin_def mvcc_allocate_ts_def Let_def split: if_splits)
  have "mt_read_ts txn < ms_global_ts t \<and>
      mvcc_visible_version t k (mt_read_ts txn) = mvcc_visible_version s k (mt_read_ts txn)"
    using assms(2)
  proof (induction rule: rtranclp_induct)
    case (step t u)
    with mvcc_step_visible [OF step.hyps(2), of "mt_read_ts txn" k] mvcc_step_chain [OF step.hyps(2), of k]
    show ?case by auto
  qed (use ts in simp)
  then have "mvcc_visible_version t k (mt_read_ts txn') = mvcc_visible_version s k (mt_read_ts txn')"
    using assms(3) by simp
  then show ?thesis unfolding mvcc_snapshot_read_def by (simp only:)
qed

theorem mvcc_snapshot_stable_witness:
  "\<exists>s txn. mvcc_txn_begin mvcc_store_init 7 = (s, Some txn) \<and>
     mvcc_snapshot_read (fst (mvcc_txn_begin s 8)) txn ''x'' = mvcc_snapshot_read s txn ''x''"
proof -
  let ?s = "fst (mvcc_txn_begin mvcc_store_init 7)"
  let ?t = "(mvcc_txn_init 7)\<lparr>mt_read_ts := 1\<rparr>"
  have b: "mvcc_txn_begin mvcc_store_init 7 = (?s, Some ?t)"
    by (simp add: mvcc_txn_begin_def mvcc_allocate_ts_def mvcc_store_init_def MVCC_MAX_TXN_def Let_def)
  have "mvcc_step\<^sup>*\<^sup>* ?s (fst (mvcc_txn_begin ?s 8))" by (rule r_into_rtranclp) (rule mvcc_step.step_begin)
  from mvcc_snapshot_stable [OF b this refl] b show ?thesis by blast
qed

text \<open>
  C6. First committer wins, in runs where every commit writes distinct keys of less than 32 characters, as \<open>mvcc_prepare_write\<close> collects
  them, and finds room for its keys and versions in the tables of the store (128 keys, 1024 versions): when a transaction has
  committed a write of a key, any other active transaction whose read timestamp is older and that also writes the key fails
  to commit, whatever transactions began, committed or aborted and whatever versions were collected in between; it is aborted and
  no version of any key changes.
\<close>

theorem mvcc_first_committer_wins:
  assumes "reach mvcc_initial mvcc_step s" and "mvcc_txn_ok txn" and "mvcc_room s txn"
    and "mvcc_txn_commit s txn = (s1, txn1, True)" and "k \<in> fst ` set (mt_writes txn)"
    and "mvcc_step\<^sup>*\<^sup>* s1 t"
    and "mt_status other = MVCC_TXN_ACTIVE" and "mt_read_ts other < mt_commit_ts txn1"
    and "k \<in> fst ` set (mt_writes other)" and "mvcc_txn_commit t other = (t', other', ok)"
  shows "ok = False \<and> mt_status other' = MVCC_TXN_ABORTED \<and> mvcc_chain t' q = mvcc_chain t q"
proof -
  note res = mvcc_commit_result [OF assms(2,3,4)]
  obtain v where v: "map_of (mt_writes txn) k = Some v" using assms(5) by (metis map_of_eq_None_iff not_Some_eq)
  have c1: "mvcc_chain s1 k \<noteq> []" and h1: "head_ts s1 k = mt_commit_ts txn1"
    using res(1) [of k] res(2) v by (simp_all add: head_ts_def mvcc_new_version_def mvcc_version_init_def)
  have "mvcc_step s s1" using mvcc_step.step_commit [OF assms(2,3)] assms(4) by simp
  then have "mvcc_inv s1" by (rule mvcc.step_inv [OF mvcc.reach_inv [OF assms(1)]])
  from mvcc_run_head [OF assms(6) this c1] h1 assms(8)
  have "mvcc_chain t k \<noteq> []" and newer: "mt_read_ts other < head_ts t k" by auto
  then have head: "mvcc_version_chain_head (t\<lparr>ms_global_ts := g\<rparr>) k = Some (hd (mvcc_chain t k))" for g
    by (cases "mvcc_chain t k") (simp_all add: mvcc_version_chain_head_def)
  obtain w where w: "w \<in> set (mt_writes other)" "fst w = k" using assms(9) by auto
  then have "\<not> mvcc_validate_write_set (t\<lparr>ms_global_ts := g\<rparr>) (other\<lparr>mt_commit_ts := c\<rparr>)" for g c
    using head newer by (auto simp: mvcc_validate_write_set_def list_all_iff head_ts_def intro!: bexI [of _ w])
  then show ?thesis
    using assms(7,10) by (auto simp: mvcc_txn_commit_def mvcc_allocate_ts_def mvcc_txn_abort_def Let_def)
qed

theorem mvcc_first_committer_wins_witness:
  "snd (snd (mvcc_txn_commit (fst (mvcc_txn_commit mvcc_store_init (mvcc_demo_txn 1 0 ''a'')))
     (mvcc_demo_txn 2 0 ''b''))) = False"
proof -
  let ?c = "mvcc_txn_commit mvcc_store_init (mvcc_demo_txn 1 0 ''a'')"
  let ?d = "mvcc_txn_commit (fst ?c) (mvcc_demo_txn 2 0 ''b'')"
  have c: "?c = (fst ?c, fst (snd ?c), True)" by (simp add: mvcc_eval)
  have d: "?d = (fst ?d, fst (snd ?d), snd (snd ?d))" by simp
  have ts: "mt_commit_ts (fst (snd ?c)) = 1" by (simp add: mvcc_eval)
  have r: "reach mvcc_initial mvcc_step mvcc_store_init" by (rule reach_init) (simp add: mvcc_initial_def)
  show ?thesis
    using mvcc_first_committer_wins [OF r _ _ c _ rtranclp.rtrancl_refl _ _ _ d, of "''x''"] ts
    by (simp add: mvcc_txn_ok_def mvcc_room_def mvcc_demo_txn_def mvcc_prepare_write_def mvcc_txn_init_def
        mvcc_store_init_def MVCC_KEY_LEN_def MVCC_MAX_KEYS_def MVCC_MAX_VERSIONS_def MVCC_VAL_LEN_def)
qed

section \<open>Divergences from the comments\<close>

text \<open>
  When all 1024 version slots are used, a commit that validates reports success but stamps the key's old
  version with the new commit timestamp: the written value is lost, and older snapshots lose the old one too.
\<close>

lemma mvcc_full_store_loses_write:
  assumes "MVCC_MAX_VERSIONS \<le> ms_version_count s" and "find_index (\<lambda>r. mr_key r = key) (ms_records s) = Some i"
    and "mr_chain (ms_records s ! i) = h # rest" and "mt_status txn = MVCC_TXN_ACTIVE"
    and "mt_writes txn = [(key, val)]" and "mv_commit_ts h \<le> mt_read_ts txn"
    and "mvcc_txn_commit s txn = (s', txn', ok)"
  shows "ok \<and> mvcc_chain s' key = h\<lparr>mv_status := MVCC_REC_COMMITTED, mv_commit_ts := ms_global_ts s\<rparr> # rest"
proof -
  let ?s1 = "s\<lparr>ms_global_ts := ms_global_ts s + 1\<rparr>"
  let ?r = "(ms_records s ! i)\<lparr>mr_chain := h\<lparr>mv_status := MVCC_REC_COMMITTED, mv_commit_ts := ms_global_ts s\<rparr> # rest\<rparr>"
  have find1: "find_index (\<lambda>r. mr_key r = key) (ms_records ?s1) = Some i" using assms(2) by simp
  have "mr_key ?r = key" using find_index_SomeD(2) [OF assms(2)] by simp
  note put = mvcc_chain_put [OF find1 this, of key]
  have valid: "mvcc_validate_write_set ?s1 (txn\<lparr>mt_commit_ts := ms_global_ts s\<rparr>)"
    using assms(2,3,5,6) by (simp add: mvcc_validate_write_set_def mvcc_version_chain_head_def mvcc_chain_def)
  have app: "mvcc_version_chain_append ?s1 key v = ?s1" for v
    using assms(1,2) by (simp add: mvcc_version_chain_append_def mvcc_find_or_create_record_def)
  have "mvcc_install (mt_txn_id txn) (ms_global_ts s) (mt_writes txn) ?s1 = ?s1\<lparr>ms_records := (ms_records ?s1)[i := ?r]\<rparr>"
    using assms(2,3) by (simp add: assms(5) app mvcc_stamp_head_def)
  with assms(4,7) valid put show ?thesis
    by (auto simp: mvcc_txn_commit_def mvcc_allocate_ts_def Let_def)
qed

text \<open>
  The store's copies of active transactions are made at the beginning and never updated, so the
  serializability check sees empty write sets and comes down to the write-write validation.
\<close>

lemma mvcc_install_active: "ms_active_txns (mvcc_install i ts ws s) = ms_active_txns s"
proof (induction i ts ws s rule: mvcc_install.induct)
  case (2 i ts key val ws s)
  have stamp: "ms_active_txns (mvcc_stamp_head u k t) = ms_active_txns u" for u k t
    by (simp add: mvcc_stamp_head_def split: option.splits list.splits)
  have foc: "ms_active_txns (fst (mvcc_find_or_create_record u k)) = ms_active_txns u" for u k
    by (simp add: mvcc_find_or_create_record_def split: option.splits)
  have "ms_active_txns (mvcc_version_chain_append u k v) = ms_active_txns u" for u k v
    using foc [of u k]
    by (cases "mvcc_find_or_create_record u k") (auto simp: mvcc_version_chain_append_def Let_def split: option.splits)
  with 2 stamp show ?case by simp
qed simp

lemma mvcc_step_copies:
  assumes "mvcc_step s t" and "list_all (\<lambda>x. mt_writes x = [] \<and> mt_read_keys x = []) (ms_active_txns s)"
  shows "list_all (\<lambda>x. mt_writes x = [] \<and> mt_read_keys x = []) (ms_active_txns t)"
proof -
  have drop: "list_all P (ms_active_txns (drop_active u i))" if "list_all P (ms_active_txns u)" for P u i
    using that set_remove_at_subset by (fastforce simp: drop_active_def list_all_iff split: option.splits)
  from assms show ?thesis
  proof cases
    case (step_commit txn)
    then show ?thesis
      using assms(2)
      by (auto simp: mvcc_txn_commit_def mvcc_allocate_ts_def mvcc_txn_abort_def Let_def mvcc_install_active intro!: drop)
  qed (auto simp: mvcc_txn_begin_def mvcc_allocate_ts_def mvcc_txn_init_def mvcc_txn_abort_def
        mvcc_gc_old_versions_def Let_def intro!: drop)
qed

lemma mvcc_check_serializable_blind:
  assumes "reach mvcc_initial mvcc_step s"
  shows "mvcc_check_serializable s txn = mvcc_validate_write_set s txn"
proof -
  have "list_all (\<lambda>x. mt_writes x = [] \<and> mt_read_keys x = []) (ms_active_txns s)"
    using assms
  proof (induction rule: reach.induct)
    case (reach_step s t)
    show ?case by (rule mvcc_step_copies [OF reach_step.hyps(2) reach_step.IH])
  qed (simp add: mvcc_initial_def mvcc_store_init_def)
  then show ?thesis by (auto simp: mvcc_check_serializable_def list_all_iff list_ex_iff)
qed

text \<open>
  A key of 32 or more characters is stored truncated and compared in full, so the validation does not see its versions: of two concurrent
  writers of the key both commit.
\<close>

lemma mvcc_long_key_lost_update:
  "let k = replicate 32 (CHR ''k'');
       (s1, a) = mvcc_txn_begin mvcc_store_init 1; (s2, b) = mvcc_txn_begin s1 2;
       (s3, _, ok_a) = mvcc_txn_commit s2 (fst (mvcc_prepare_write (the a) k ''x''));
       (s4, _, ok_b) = mvcc_txn_commit s3 (fst (mvcc_prepare_write (the b) k ''y''))
   in ok_a \<and> ok_b"
  by code_simp

end
