(* ===== verification/Occ.thy ===== *)
theory Occ
  imports Net_Prelude
begin

text \<open>
  Optimistic concurrency control (\<open>mini-dist-transaction/src/occ.c\<close>, \<open>include/occ.h\<close>): read, validate and
  write phases over a versioned record table. A transaction object belongs to its client and is passed to every
  operation; the manager keeps the copy made by \<open>occ_txn_begin\<close>. The null checks on pointers,
  \<open>occ_abort_probability\<close> (a floating-point statistic) and the printing functions are not modelled.
\<close>

section \<open>Data\<close>

definition OCC_MAX_KEYS :: nat where "OCC_MAX_KEYS = 64"
definition OCC_MAX_TXN :: nat where "OCC_MAX_TXN = 32"
definition OCC_KEY_LEN :: nat where "OCC_KEY_LEN = 32"
definition OCC_VAL_LEN :: nat where "OCC_VAL_LEN = 128"

datatype OCCTxnPhase =
  OCC_TXN_READ_PHASE | OCC_TXN_VALIDATE_PHASE | OCC_TXN_WRITE_PHASE | OCC_TXN_COMMITTED | OCC_TXN_ABORTED

datatype OCCConflictType = OCC_CONFLICT_NONE | OCC_CONFLICT_BACKWARD | OCC_CONFLICT_FORWARD

record OCCReadEntry =
  re_key :: string
  re_version_at_read :: int

record OCCWriteEntry =
  we_key :: string
  we_value :: string

record OCCTransaction =
  ot_txn_id :: int
  ot_phase :: OCCTxnPhase
  ot_start_ts :: int
  ot_commit_ts :: int
  ot_read_set :: "OCCReadEntry list"
  ot_write_set :: "OCCWriteEntry list"
  ot_abort_count :: int

record OCCRecord =
  or_key :: string
  or_value :: string
  or_version :: int
  or_last_committed_ts :: int

record OCCManager =
  om_records :: "OCCRecord list"
  om_global_version :: int
  om_active_txns :: "OCCTransaction list"
  om_low_watermark :: int
  om_high_watermark :: int

fun occ_phase_str :: "OCCTxnPhase \<Rightarrow> string" where
  "occ_phase_str OCC_TXN_READ_PHASE = ''READ''"
| "occ_phase_str OCC_TXN_VALIDATE_PHASE = ''VALIDATE''"
| "occ_phase_str OCC_TXN_WRITE_PHASE = ''WRITE''"
| "occ_phase_str OCC_TXN_COMMITTED = ''COMMITTED''"
| "occ_phase_str OCC_TXN_ABORTED = ''ABORTED''"

fun occ_conflict_str :: "OCCConflictType \<Rightarrow> string" where
  "occ_conflict_str OCC_CONFLICT_NONE = ''NONE''"
| "occ_conflict_str OCC_CONFLICT_BACKWARD = ''BACKWARD''"
| "occ_conflict_str OCC_CONFLICT_FORWARD = ''FORWARD''"

section \<open>Operations\<close>

definition occ_manager_init :: OCCManager where
  "occ_manager_init = \<lparr>om_records = [], om_global_version = 1, om_active_txns = [], om_low_watermark = 1,
     om_high_watermark = 1\<rparr>"

definition occ_record_init :: "string \<Rightarrow> string \<Rightarrow> int \<Rightarrow> OCCRecord" where
  "occ_record_init key val version = \<lparr>or_key = strncpy_z OCC_KEY_LEN key, or_value = strncpy_z OCC_VAL_LEN val,
     or_version = version, or_last_committed_ts = version\<rparr>"

definition occ_txn_init :: "int \<Rightarrow> OCCTransaction" where
  "occ_txn_init txn_id = \<lparr>ot_txn_id = txn_id, ot_phase = OCC_TXN_READ_PHASE, ot_start_ts = 0, ot_commit_ts = 0,
     ot_read_set = [], ot_write_set = [], ot_abort_count = 0\<rparr>"

definition occ_find_record :: "OCCManager \<Rightarrow> string \<Rightarrow> nat option" where
  "occ_find_record m key = find_index (\<lambda>r. or_key r = key) (om_records m)"

definition occ_ensure_record :: "string \<Rightarrow> OCCManager \<Rightarrow> string \<Rightarrow> OCCManager \<times> nat option" where
  "occ_ensure_record init_val m key =
     (case occ_find_record m key of
        Some idx \<Rightarrow> (m, Some idx)
      | None \<Rightarrow>
          if length (om_records m) \<ge> OCC_MAX_KEYS then (m, None)
          else (m\<lparr>om_records := om_records m @ [occ_record_init key init_val 0]\<rparr>, Some (length (om_records m))))"

definition occ_txn_begin :: "OCCManager \<Rightarrow> int \<Rightarrow> OCCManager \<times> OCCTransaction option" where
  "occ_txn_begin m txn_id =
     (if length (om_active_txns m) \<ge> OCC_MAX_TXN then (m, None)
      else
        let txn = (occ_txn_init txn_id)\<lparr>ot_start_ts := om_global_version m\<rparr> in
        (m\<lparr>om_global_version := om_global_version m + 1, om_active_txns := om_active_txns m @ [txn]\<rparr>, Some txn))"

text \<open>\<open>occ_txn_read\<close>: the value and the version handed out, or \<open>None\<close> for a failure.\<close>

definition occ_txn_read ::
  "OCCManager \<Rightarrow> OCCTransaction \<Rightarrow> string \<Rightarrow> OCCManager \<times> OCCTransaction \<times> (string \<times> int) option" where
  "occ_txn_read m txn key =
     (if ot_phase txn \<noteq> OCC_TXN_READ_PHASE then (m, txn, None)
      else
        (case find_index (\<lambda>w. we_key w = key) (ot_write_set txn) of
           Some i \<Rightarrow> (m, txn, Some (strncpy_z OCC_VAL_LEN (we_value (ot_write_set txn ! i)), -1))
         | None \<Rightarrow>
             (case occ_ensure_record [] m key of
                (m1, None) \<Rightarrow> (m1, txn, None)
              | (m1, Some idx) \<Rightarrow>
                  let r = om_records m1 ! idx in
                  (m1,
                   if length (ot_read_set txn) < OCC_MAX_KEYS
                   then txn\<lparr>ot_read_set := ot_read_set txn @
                     [\<lparr>re_key = strncpy_z OCC_KEY_LEN key, re_version_at_read = or_version r\<rparr>]\<rparr> else txn,
                   Some (strncpy_z OCC_VAL_LEN (or_value r), or_version r)))))"

definition occ_txn_write :: "OCCTransaction \<Rightarrow> string \<Rightarrow> string \<Rightarrow> OCCTransaction \<times> bool" where
  "occ_txn_write txn key val =
     (if ot_phase txn \<noteq> OCC_TXN_READ_PHASE then (txn, False)
      else if length (ot_write_set txn) \<ge> OCC_MAX_KEYS then (txn, False)
      else
        (case find_index (\<lambda>w. we_key w = key) (ot_write_set txn) of
           Some i \<Rightarrow> (txn\<lparr>ot_write_set := (ot_write_set txn)[i :=
                       (ot_write_set txn ! i)\<lparr>we_value := strncpy_z OCC_VAL_LEN val\<rparr>]\<rparr>, True)
         | None \<Rightarrow> (txn\<lparr>ot_write_set := ot_write_set txn @
                       [\<lparr>we_key = strncpy_z OCC_KEY_LEN key, we_value = strncpy_z OCC_VAL_LEN val\<rparr>]\<rparr>, True)))"

definition occ_backward_validation :: "OCCManager \<Rightarrow> OCCTransaction \<Rightarrow> bool" where
  "occ_backward_validation m txn =
     list_all (\<lambda>re. case occ_find_record m (re_key re) of None \<Rightarrow> True
                    | Some idx \<Rightarrow> \<not> or_version (om_records m ! idx) > re_version_at_read re) (ot_read_set txn)"

definition occ_forward_validation :: "OCCManager \<Rightarrow> OCCTransaction \<Rightarrow> bool" where
  "occ_forward_validation m txn =
     list_all (\<lambda>other. ot_txn_id other = ot_txn_id txn \<or> ot_phase other = OCC_TXN_ABORTED \<or>
       \<not> list_ex (\<lambda>w. list_ex (\<lambda>r. we_key w = re_key r) (ot_read_set other)) (ot_write_set txn)) (om_active_txns m)"

definition occ_txn_validate :: "OCCManager \<Rightarrow> OCCTransaction \<Rightarrow> OCCTransaction \<times> bool" where
  "occ_txn_validate m txn =
     (let txn1 = txn\<lparr>ot_phase := OCC_TXN_VALIDATE_PHASE\<rparr> in
      if \<not> occ_backward_validation m txn1 then (txn1\<lparr>ot_phase := OCC_TXN_ABORTED\<rparr>, False)
      else if \<not> occ_forward_validation m txn1 then (txn1\<lparr>ot_phase := OCC_TXN_ABORTED\<rparr>, False)
      else (txn1\<lparr>ot_phase := OCC_TXN_WRITE_PHASE\<rparr>, True))"

definition occ_detect_conflict :: "OCCTransaction \<Rightarrow> OCCTransaction \<Rightarrow> OCCConflictType" where
  "occ_detect_conflict txn other =
     (if list_ex (\<lambda>r. list_ex (\<lambda>w. re_key r = we_key w) (ot_write_set other)) (ot_read_set txn)
      then OCC_CONFLICT_BACKWARD
      else if list_ex (\<lambda>w. list_ex (\<lambda>r. we_key w = re_key r) (ot_read_set other)) (ot_write_set txn)
      then OCC_CONFLICT_FORWARD
      else OCC_CONFLICT_NONE)"

definition occ_advance_watermarks :: "OCCManager \<Rightarrow> OCCManager" where
  "occ_advance_watermarks m = m\<lparr>om_low_watermark := om_high_watermark m, om_high_watermark := om_global_version m\<rparr>"

definition occ_install_one :: "int \<Rightarrow> OCCWriteEntry \<Rightarrow> OCCManager \<Rightarrow> OCCManager" where
  "occ_install_one ts w m =
     (case occ_ensure_record (we_value w) m (we_key w) of
        (m1, None) \<Rightarrow> m1
      | (m1, Some idx) \<Rightarrow>
          m1\<lparr>om_records := (om_records m1)[idx := (om_records m1 ! idx)
            \<lparr>or_value := strncpy_z OCC_VAL_LEN (we_value w), or_version := ts, or_last_committed_ts := ts\<rparr>]\<rparr>)"

definition occ_txn_commit :: "OCCManager \<Rightarrow> OCCTransaction \<Rightarrow> OCCManager \<times> OCCTransaction \<times> bool" where
  "occ_txn_commit m txn =
     (case occ_txn_validate m txn of
        (txn1, False) \<Rightarrow> (m, txn1\<lparr>ot_phase := OCC_TXN_ABORTED\<rparr>, False)
      | (txn1, True) \<Rightarrow>
          let ts = om_global_version m;
              m1 = m\<lparr>om_global_version := ts + 1\<rparr>;
              m2 = fold (occ_install_one ts) (ot_write_set txn1) m1
          in (occ_advance_watermarks m2, txn1\<lparr>ot_commit_ts := ts, ot_phase := OCC_TXN_COMMITTED\<rparr>, True))"

definition occ_txn_abort :: "OCCTransaction \<Rightarrow> OCCTransaction" where
  "occ_txn_abort txn = txn\<lparr>ot_phase := OCC_TXN_ABORTED, ot_abort_count := ot_abort_count txn + 1\<rparr>"

definition occ_timestamp_ordering_check :: "OCCManager \<Rightarrow> OCCTransaction \<Rightarrow> bool" where
  "occ_timestamp_ordering_check m txn =
     list_all (\<lambda>re. case occ_find_record m (re_key re) of None \<Rightarrow> True
                    | Some idx \<Rightarrow> \<not> or_version (om_records m ! idx) > ot_start_ts txn) (ot_read_set txn)"

definition occ_get_version :: "OCCManager \<Rightarrow> string \<Rightarrow> int" where
  "occ_get_version m key = (case occ_find_record m key of Some idx \<Rightarrow> or_version (om_records m ! idx) | None \<Rightarrow> 0)"

definition occ_count_conflicts :: "OCCManager \<Rightarrow> nat" where
  "occ_count_conflicts m = count_if (\<lambda>t. ot_phase t = OCC_TXN_ABORTED) (om_active_txns m)"

section \<open>The record table\<close>

interpretation occrec: slot_table om_records or_key "\<lambda>k. occ_record_init k v 0" OCC_MAX_KEYS OCC_KEY_LEN
  "occ_ensure_record v" for v
  by unfold_locales (simp_all add: occ_ensure_record_def occ_find_record_def occ_record_init_def)

text \<open>The record a key leads to.\<close>

definition occ_lookup :: "OCCManager \<Rightarrow> string \<Rightarrow> OCCRecord option" where
  "occ_lookup m k = map_option (\<lambda>i. om_records m ! i) (occ_find_record m k)"

inductive occ_step :: "OCCManager \<Rightarrow> OCCManager \<Rightarrow> bool" where
  step_begin: "occ_step m (fst (occ_txn_begin m i))"
| step_read: "occ_step m (fst (occ_txn_read m txn k))"
| step_commit: "occ_step m (fst (occ_txn_commit m txn))"

definition occ_initial :: "OCCManager \<Rightarrow> bool" where
  "occ_initial m \<longleftrightarrow> m = occ_manager_init"

definition occ_inv :: "OCCManager \<Rightarrow> bool" where
  "occ_inv m \<longleftrightarrow> 1 \<le> om_global_version m \<and>
     list_all (\<lambda>r. 0 \<le> or_version r \<and> or_version r < om_global_version m) (om_records m) \<and>
     list_all (\<lambda>t. ot_read_set t = [] \<and> ot_write_set t = []) (om_active_txns m)"

text \<open>
  How a record evolves: it is never removed, and it is either left alone or gets a version that the clock had not
  reached before.
\<close>

definition occ_evolves :: "OCCManager \<Rightarrow> OCCManager \<Rightarrow> bool" where
  "occ_evolves m m' \<longleftrightarrow> om_global_version m \<le> om_global_version m' \<and>
     (\<forall>k r. occ_lookup m k = Some r \<longrightarrow>
        (\<exists>r'. occ_lookup m' k = Some r' \<and> (r' = r \<or> om_global_version m \<le> or_version r')))"

lemma occ_evolves_refl: "occ_evolves m m"
  by (simp add: occ_evolves_def)

lemma occ_evolves_trans:
  assumes "occ_evolves a b" and "occ_evolves b c"
  shows "occ_evolves a c"
  unfolding occ_evolves_def
proof (intro conjI allI impI)
  show "om_global_version a \<le> om_global_version c" using assms by (simp add: occ_evolves_def)
  fix k r
  assume "occ_lookup a k = Some r"
  then obtain r' where r': "occ_lookup b k = Some r'" "r' = r \<or> om_global_version a \<le> or_version r'"
    using assms(1) by (auto simp: occ_evolves_def)
  then obtain r'' where "occ_lookup c k = Some r''" "r'' = r' \<or> om_global_version b \<le> or_version r''"
    using assms(2) by (auto simp: occ_evolves_def)
  with r' assms(1) show "\<exists>r'. occ_lookup c k = Some r' \<and> (r' = r \<or> om_global_version a \<le> or_version r')"
    by (auto simp: occ_evolves_def)
qed

lemma occ_ensure_lookup:
  assumes "occ_ensure_record v m k = (m', x)" and "occ_lookup m q = Some r"
  shows "occ_lookup m' q = Some r"
proof -
  obtain i where i: "find_index (\<lambda>r. or_key r = q) (om_records m) = Some i" "om_records m ! i = r"
    using assms(2) by (auto simp: occ_lookup_def occ_find_record_def)
  from occrec.foc_keeps [OF i(1) assms(1)] i(2) show ?thesis by (simp add: occ_lookup_def occ_find_record_def)
qed

lemma occ_ensure_frame:
  assumes "occ_ensure_record v m k = (m', x)"
  shows "om_global_version m' = om_global_version m" and "om_active_txns m' = om_active_txns m"
    and "occ_inv m \<Longrightarrow> occ_inv m'"
  using assms
  by (auto simp: occ_ensure_record_def occ_inv_def occ_record_init_def split: option.splits if_splits)

lemma occ_ensure_evolves: "occ_ensure_record v m k = (m', x) \<Longrightarrow> occ_evolves m m'"
  by (auto simp: occ_evolves_def occ_ensure_frame intro: occ_ensure_lookup)

section \<open>Installing the write set\<close>

lemma occ_lookup_put:
  assumes "find_index (\<lambda>r. or_key r = key) (om_records m) = Some i" and "or_key r = key"
  shows "occ_lookup (m\<lparr>om_records := (om_records m)[i := r]\<rparr>) k = (if k = key then Some r else occ_lookup m k)"
proof (cases "k = key")
  case True
  with find_index_update_same [OF assms] find_index_SomeD(1) [OF assms(1)] show ?thesis
    by (simp add: occ_lookup_def occ_find_record_def)
next
  case False
  have key: "or_key (om_records m ! i) = key" using find_index_SomeD(2) [OF assms(1)] by simp
  have "find_index (\<lambda>r. or_key r = k) ((om_records m)[i := r]) = find_index (\<lambda>r. or_key r = k) (om_records m)"
    using False assms(2) key by (intro find_index_update_other) auto
  moreover have "j \<noteq> i" if "find_index (\<lambda>r. or_key r = k) (om_records m) = Some j" for j
    using find_index_SomeD(2) [OF that] key False by auto
  ultimately show ?thesis using False
    by (cases "find_index (\<lambda>r. or_key r = k) (om_records m)") (auto simp: occ_lookup_def occ_find_record_def)
qed

lemma occ_ensure_lookup_other:
  assumes "occ_ensure_record v m key = (m', x)" and "k \<noteq> key" and "length key < OCC_KEY_LEN"
  shows "occ_lookup m' k = occ_lookup m k"
proof -
  have "find_index (\<lambda>r. or_key r = k) (om_records m') = find_index (\<lambda>r. or_key r = k) (om_records m)"
    by (rule occrec.foc_other [OF assms(1) assms(3,2)])
  moreover have "om_records m' ! i = om_records m ! i" if "find_index (\<lambda>r. or_key r = k) (om_records m) = Some i" for i
    using occrec.foc_keeps(2) [OF that assms(1)] .
  ultimately show ?thesis
    by (cases "find_index (\<lambda>r. or_key r = k) (om_records m)") (auto simp: occ_lookup_def occ_find_record_def)
qed

definition occ_written :: "int \<Rightarrow> OCCWriteEntry \<Rightarrow> OCCRecord \<Rightarrow> bool" where
  "occ_written ts w r \<longleftrightarrow> or_value r = strncpy_z OCC_VAL_LEN (we_value w) \<and> or_version r = ts"

lemma occ_install_one_lookup:
  assumes "length (we_key w) < OCC_KEY_LEN"
  shows "k \<noteq> we_key w \<Longrightarrow> occ_lookup (occ_install_one ts w m) k = occ_lookup m k"
    and "length (om_records m) < OCC_MAX_KEYS \<or> occ_lookup m (we_key w) \<noteq> None \<Longrightarrow>
      \<exists>r. occ_lookup (occ_install_one ts w m) (we_key w) = Some r \<and> occ_written ts w r"
    and "om_global_version (occ_install_one ts w m) = om_global_version m"
    and "om_active_txns (occ_install_one ts w m) = om_active_txns m"
    and "length (om_records (occ_install_one ts w m)) \<le> length (om_records m) + 1"
proof -
  obtain m1 x where foc: "occ_ensure_record (we_value w) m (we_key w) = (m1, x)" by fastforce
  note frame = occ_ensure_frame [OF foc]
  have len: "length (om_records m1) \<le> length (om_records m) + 1"
    using foc by (auto simp: occ_ensure_record_def split: option.splits if_splits)
  show "om_global_version (occ_install_one ts w m) = om_global_version m"
    and "om_active_txns (occ_install_one ts w m) = om_active_txns m"
    and "length (om_records (occ_install_one ts w m)) \<le> length (om_records m) + 1"
    using frame(1,2) len foc by (cases x; simp add: occ_install_one_def)+
  show "occ_lookup (occ_install_one ts w m) k = occ_lookup m k" if "k \<noteq> we_key w"
  proof (cases x)
    case (Some i)
    have find: "find_index (\<lambda>r. or_key r = we_key w) (om_records m1) = Some i"
      using foc Some by (intro occrec.foc_find [OF _ assms]) simp
    show ?thesis
      using occ_lookup_put [OF find] find_index_SomeD(2) [OF find] that foc Some
        occ_ensure_lookup_other [OF foc that assms] by (simp add: occ_install_one_def)
  qed (use foc occ_ensure_lookup_other [OF foc that assms] in \<open>simp add: occ_install_one_def\<close>)
  show "\<exists>r. occ_lookup (occ_install_one ts w m) (we_key w) = Some r \<and> occ_written ts w r"
    if "length (om_records m) < OCC_MAX_KEYS \<or> occ_lookup m (we_key w) \<noteq> None"
  proof -
    have "x \<noteq> None"
      by (cases rule: occrec.foc_cases [of "we_key w" m "we_value w"])
        (use that foc in \<open>simp_all add: occ_lookup_def occ_find_record_def\<close>)
    then obtain i where x: "x = Some i" by auto
    have find: "find_index (\<lambda>r. or_key r = we_key w) (om_records m1) = Some i"
      using foc x by (intro occrec.foc_find [OF _ assms]) simp
    show ?thesis
      using occ_lookup_put [OF find] find_index_SomeD(2) [OF find] foc x
      by (simp add: occ_install_one_def occ_written_def)
  qed
qed

definition occ_txn_ok :: "OCCTransaction \<Rightarrow> bool" where
  "occ_txn_ok txn \<longleftrightarrow> distinct (map we_key (ot_write_set txn)) \<and>
     list_all (\<lambda>w. length (we_key w) < OCC_KEY_LEN) (ot_write_set txn)"

lemma occ_txn_ok_write:
  assumes "occ_txn_ok txn" and "length k < OCC_KEY_LEN"
  shows "occ_txn_ok (fst (occ_txn_write txn k v))"
proof (cases "find_index (\<lambda>w. we_key w = k) (ot_write_set txn)")
  case (Some i)
  then have i: "i < length (ot_write_set txn)" by (rule find_index_SomeD(1))
  let ?ws = "(ot_write_set txn)[i := (ot_write_set txn ! i)\<lparr>we_value := strncpy_z OCC_VAL_LEN v\<rparr>]"
  have keys: "map we_key ?ws = map we_key (ot_write_set txn)"
    using i by (simp add: map_update list_update_same_conv)
  have "\<forall>k \<in> set (map we_key ?ws). length k < OCC_KEY_LEN"
    unfolding keys using assms(1) by (simp add: occ_txn_ok_def list_all_iff)
  then have "list_all (\<lambda>w. length (we_key w) < OCC_KEY_LEN) ?ws" by (simp add: list_all_iff)
  with keys Some assms(1) show ?thesis by (simp add: occ_txn_write_def occ_txn_ok_def)
next
  case None
  then have "k \<notin> we_key ` set (ot_write_set txn)" by (auto simp: find_index_None_iff)
  with None assms show ?thesis by (simp add: occ_txn_write_def occ_txn_ok_def)
qed

lemma occ_install_lookup:
  assumes "distinct (map we_key ws)" and "list_all (\<lambda>w. length (we_key w) < OCC_KEY_LEN) ws"
  shows "k \<notin> we_key ` set ws \<Longrightarrow> occ_lookup (fold (occ_install_one ts) ws m) k = occ_lookup m k"
    and "length (om_records m) + length ws \<le> OCC_MAX_KEYS \<Longrightarrow> w \<in> set ws \<Longrightarrow>
      \<exists>r. occ_lookup (fold (occ_install_one ts) ws m) (we_key w) = Some r \<and> occ_written ts w r"
proof -
  show other: "occ_lookup (fold (occ_install_one ts) ws m) k = occ_lookup m k" if "k \<notin> we_key ` set ws" for k m
    using that assms(2)
    by (induction ws arbitrary: m) (auto simp: occ_install_one_lookup(1))
  show "\<exists>r. occ_lookup (fold (occ_install_one ts) ws m) (we_key w) = Some r \<and> occ_written ts w r"
    if "length (om_records m) + length ws \<le> OCC_MAX_KEYS" and "w \<in> set ws"
    using that assms
  proof (induction ws arbitrary: m)
    case (Cons a ws)
    let ?m = "occ_install_one ts a m"
    have len: "length (om_records ?m) \<le> length (om_records m) + 1"
      using occ_install_one_lookup(5) [of a] Cons.prems(4) by simp
    show ?case
    proof (cases "w \<in> set ws")
      case True
      with Cons.IH [of ?m] Cons.prems len show ?thesis by simp
    next
      case False
      then have "w = a" using Cons.prems(2) by simp
      have "we_key a \<notin> we_key ` set ws" using Cons.prems(3) by simp
      moreover have "occ_lookup (fold (occ_install_one ts) ws m') q = occ_lookup m' q"
        if "q \<notin> we_key ` set ws" for q m'
        using that Cons.prems(4) by (induction ws arbitrary: m') (auto simp: occ_install_one_lookup(1))
      moreover have "\<exists>r. occ_lookup ?m (we_key a) = Some r \<and> occ_written ts a r"
        using Cons.prems(1,4) by (intro occ_install_one_lookup(2)) auto
      ultimately show ?thesis using \<open>w = a\<close> by simp
    qed
  qed simp
qed

section \<open>Runs\<close>

lemma occ_install_evolve:
  assumes "occ_lookup m k = Some r"
  shows "\<exists>r'. occ_lookup (occ_install_one ts w m) k = Some r' \<and> (r' = r \<or> or_version r' = ts)"
proof -
  obtain m1 x where foc: "occ_ensure_record (we_value w) m (we_key w) = (m1, x)" by fastforce
  have k: "occ_lookup m1 k = Some r" by (rule occ_ensure_lookup [OF foc assms])
  show ?thesis
  proof (cases x)
    case None
    with foc k show ?thesis by (simp add: occ_install_one_def)
  next
    case (Some j)
    obtain i where i: "find_index (\<lambda>r. or_key r = k) (om_records m1) = Some i" "om_records m1 ! i = r"
      using k by (auto simp: occ_lookup_def occ_find_record_def)
    let ?r = "(om_records m1 ! j)\<lparr>or_value := strncpy_z OCC_VAL_LEN (we_value w), or_version := ts,
      or_last_committed_ts := ts\<rparr>"
    have "find_index (\<lambda>r. or_key r = k) ((om_records m1)[j := ?r]) = Some i"
      using i(1) by (subst find_index_update_other) auto
    then show ?thesis
      using foc Some i find_index_SomeD(1) [OF i(1)]
      by (cases "j = i") (auto simp: occ_install_one_def occ_lookup_def occ_find_record_def)
  qed
qed

lemma occ_installs_evolve:
  "occ_lookup m k = Some r \<Longrightarrow>
   \<exists>r'. occ_lookup (fold (occ_install_one ts) ws m) k = Some r' \<and> (r' = r \<or> or_version r' = ts)"
proof (induction ws arbitrary: m r)
  case (Cons w ws)
  from occ_install_evolve [OF Cons.prems, of ts w] obtain r1 where
    r1: "occ_lookup (occ_install_one ts w m) k = Some r1" "r1 = r \<or> or_version r1 = ts" by auto
  from Cons.IH [OF r1(1)] r1(2) show ?case by auto
qed simp

lemma occ_install_inv:
  assumes "occ_inv m" and "0 \<le> ts" and "ts < om_global_version m"
  shows "occ_inv (occ_install_one ts w m) \<and> om_global_version (occ_install_one ts w m) = om_global_version m"
proof -
  obtain m1 x where foc: "occ_ensure_record (we_value w) m (we_key w) = (m1, x)" by fastforce
  have inv: "occ_inv m1" and g: "om_global_version m1 = om_global_version m"
    using occ_ensure_frame [OF foc] assms(1) by auto
  show ?thesis
  proof (cases x)
    case None
    with foc inv g show ?thesis by (simp add: occ_install_one_def)
  next
    case (Some i)
    have "list_all P (xs[i := y])" if "list_all P xs" and "P y" for P and xs :: "OCCRecord list" and y
      using that set_update_subset_insert [of xs i y] by (auto simp: list_all_iff)
    with foc Some inv g assms(2,3) show ?thesis by (simp add: occ_install_one_def occ_inv_def)
  qed
qed

lemma occ_installs_inv:
  "occ_inv m \<Longrightarrow> 0 \<le> ts \<Longrightarrow> ts < om_global_version m \<Longrightarrow>
   occ_inv (fold (occ_install_one ts) ws m) \<and>
   om_global_version (fold (occ_install_one ts) ws m) = om_global_version m"
proof (induction ws arbitrary: m)
  case (Cons w ws)
  from occ_install_inv [OF Cons.prems, of w] Cons.IH [of "occ_install_one ts w m"] Cons.prems show ?case by simp
qed simp

lemma occ_lookup_frame [simp]:
  "occ_lookup (m\<lparr>om_global_version := g\<rparr>) k = occ_lookup m k"
  "occ_lookup (m\<lparr>om_active_txns := a\<rparr>) k = occ_lookup m k"
  "occ_lookup (occ_advance_watermarks m) k = occ_lookup m k"
  "om_global_version (occ_advance_watermarks m) = om_global_version m"
  "occ_inv (occ_advance_watermarks m) = occ_inv m"
  by (simp_all add: occ_lookup_def occ_find_record_def occ_advance_watermarks_def occ_inv_def)

lemma occ_commit_evolves:
  assumes "occ_inv m"
  shows "occ_inv (fst (occ_txn_commit m txn)) \<and> occ_evolves m (fst (occ_txn_commit m txn))"
proof (cases "occ_txn_validate m txn")
  case (Pair txn1 ok)
  let ?m1 = "m\<lparr>om_global_version := om_global_version m + 1\<rparr>"
  have inv1: "occ_inv ?m1" using assms by (auto simp: occ_inv_def list_all_iff)
  have pos: "0 \<le> om_global_version m" using assms by (simp add: occ_inv_def)
  note inst = occ_installs_inv [OF inv1, of "om_global_version m" "ot_write_set txn1"]
  show ?thesis
  proof (cases ok)
    case True
    have "occ_lookup m k = Some r \<Longrightarrow>
        \<exists>r'. occ_lookup (fold (occ_install_one (om_global_version m)) (ot_write_set txn1) ?m1) k = Some r' \<and>
          (r' = r \<or> om_global_version m \<le> or_version r')" for k r
      using occ_installs_evolve [of ?m1 k r "om_global_version m" "ot_write_set txn1"] by auto
    with True Pair inst pos show ?thesis by (simp add: occ_txn_commit_def Let_def occ_evolves_def)
  qed (use Pair assms in \<open>simp add: occ_txn_commit_def occ_evolves_refl\<close>)
qed

lemma occ_read_state: "fst (occ_txn_read m txn k) = m \<or> fst (occ_txn_read m txn k) = fst (occ_ensure_record [] m k)"
  by (auto simp: occ_txn_read_def Let_def split: option.splits prod.splits)

lemma occ_step_evolves:
  assumes "occ_step m m'" and "occ_inv m"
  shows "occ_inv m' \<and> occ_evolves m m'"
  using assms
proof cases
  case (step_begin i)
  then show ?thesis
    using assms(2) by (auto simp: occ_txn_begin_def Let_def occ_inv_def occ_evolves_def list_all_iff occ_txn_init_def)
next
  case (step_read txn k)
  obtain m1 x where foc: "occ_ensure_record [] m k = (m1, x)" by fastforce
  from occ_read_state [of m txn k] step_read foc occ_ensure_frame(3) [OF foc] occ_ensure_evolves [OF foc] assms(2)
  show ?thesis by (auto simp: occ_evolves_refl)
next
  case (step_commit txn)
  with occ_commit_evolves [OF assms(2)] show ?thesis by simp
qed

interpretation occ: invariant_system occ_initial occ_step occ_inv
  by unfold_locales (auto simp: occ_initial_def occ_manager_init_def occ_inv_def [of occ_manager_init] occ_inv_def
      dest: occ_step_evolves)

lemma occ_run_evolves: "occ_step\<^sup>*\<^sup>* m m' \<Longrightarrow> occ_inv m \<Longrightarrow> occ_inv m' \<and> occ_evolves m m'"
  by (induction rule: rtranclp_induct)
    (auto intro: occ_evolves_refl dest: occ_step_evolves intro: occ_evolves_trans)

section \<open>Properties\<close>

text \<open>
  C25. Committed transactions read current data (serializability in commit order): if a transaction read a
  key that fits its array (less than \<open>OCC_KEY_LEN\<close> characters) from the table, not from its own write set and with its read set
  not yet full, and whatever other transactions did since, its commit succeeds with that read still in its read set, then at the
  moment of the commit the key still has the value and the version it read. The commit is atomic in the model,
  so every committed transaction acts as if it had run alone at its commit point.
\<close>

theorem occ_commit_reads_current:
  assumes "reach occ_initial occ_step m" and "length k < OCC_KEY_LEN"
    and "length (ot_read_set txn) < OCC_MAX_KEYS" and "list_all (\<lambda>w. we_key w \<noteq> k) (ot_write_set txn)"
    and "occ_txn_read m txn k = (m1, txn1, Some (v, ver))"
    and "occ_step\<^sup>*\<^sup>* m1 t" and "set (ot_read_set txn1) \<subseteq> set (ot_read_set txn2)"
    and "occ_txn_commit t txn2 = (t', txn2', True)"
  shows "map_option (\<lambda>r. (strncpy_z OCC_VAL_LEN (or_value r), or_version r)) (occ_lookup t k) = Some (v, ver)"
proof -
  have none: "find_index (\<lambda>w. we_key w = k) (ot_write_set txn) = None"
    using assms(4) by (auto simp: find_index_None_iff list_all_iff)
  obtain n x where foc: "occ_ensure_record [] m k = (n, x)" by fastforce
  obtain i where x: "x = Some i" and n: "n = m1" and r: "v = strncpy_z OCC_VAL_LEN (or_value (om_records m1 ! i))"
      "ver = or_version (om_records m1 ! i)"
    and entry: "\<lparr>re_key = k, re_version_at_read = ver\<rparr> \<in> set (ot_read_set txn1)"
    using assms(2,3,5) foc none
    by (auto simp: occ_txn_read_def Let_def split: if_splits option.splits)
  have find: "find_index (\<lambda>r. or_key r = k) (om_records m1) = Some i"
    using foc x n by (intro occrec.foc_find [OF _ assms(2)]) simp
  then have look: "occ_lookup m1 k = Some (om_records m1 ! i)" by (simp add: occ_lookup_def occ_find_record_def)
  have "occ_inv m" by (rule occ.reach_inv [OF assms(1)])
  then have inv: "occ_inv m1" using occ_ensure_frame(3) [OF foc] n by simp
  have old: "ver < om_global_version m1"
    using inv find_index_SomeD(1) [OF find] r(2) by (simp add: occ_inv_def list_all_iff)
  have "occ_evolves m1 t" using occ_run_evolves [OF assms(6) inv] by simp
  then obtain r' where r': "occ_lookup t k = Some r'" "r' = om_records m1 ! i \<or> om_global_version m1 \<le> or_version r'"
    using look by (auto simp: occ_evolves_def)
  have "occ_backward_validation t txn2"
    using assms(8) by (auto simp: occ_txn_commit_def occ_txn_validate_def Let_def occ_backward_validation_def
        split: if_splits)
  then have "\<not> or_version r' > ver"
    using entry assms(7) r'(1)
    by (fastforce simp: occ_backward_validation_def list_all_iff occ_lookup_def split: option.splits)
  with r' old r show ?thesis by auto
qed

definition occ_demo_txn :: OCCTransaction where
  "occ_demo_txn = (occ_txn_init 1)\<lparr>ot_start_ts := 1\<rparr>"

lemmas occ_eval = occ_demo_txn_def occ_txn_init_def occ_txn_read_def occ_ensure_record_def occ_find_record_def
  occ_manager_init_def occ_record_init_def OCC_MAX_KEYS_def OCC_KEY_LEN_def OCC_VAL_LEN_def Let_def

theorem occ_commit_reads_current_witness:
  "map_option (\<lambda>r. (strncpy_z OCC_VAL_LEN (or_value r), or_version r))
     (occ_lookup (fst (occ_txn_read occ_manager_init occ_demo_txn ''x'')) ''x'') = Some ([], 0)"
proof -
  let ?r = "occ_txn_read occ_manager_init occ_demo_txn ''x''"
  let ?c = "occ_txn_commit (fst ?r) (fst (snd ?r))"
  have r: "?r = (fst ?r, fst (snd ?r), Some ([], 0))" by (simp add: occ_eval)
  have c: "?c = (fst ?c, fst (snd ?c), True)"
    by (simp add: occ_txn_commit_def occ_txn_validate_def occ_backward_validation_def occ_forward_validation_def occ_eval)
  have i: "reach occ_initial occ_step occ_manager_init" by (rule reach_init) (simp add: occ_initial_def)
  show ?thesis
    using occ_commit_reads_current [OF i _ _ _ r rtranclp.rtrancl_refl subset_refl c]
    by (simp add: occ_demo_txn_def occ_txn_init_def OCC_MAX_KEYS_def OCC_KEY_LEN_def)
qed

text \<open>
  A successful commit installs the whole write set under one version: with room in the table, every
  written key afterwards has the written value and the commit timestamp as its version, and every other key is
  unchanged; a failed commit changes no record.
\<close>

theorem occ_commit_installs:
  assumes "occ_txn_ok txn" and "length (om_records m) + length (ot_write_set txn) \<le> OCC_MAX_KEYS"
    and "occ_txn_commit m txn = (m', txn', ok)"
  shows "(ok \<longrightarrow> ot_commit_ts txn' = om_global_version m \<and>
      (\<forall>w \<in> set (ot_write_set txn). \<exists>r. occ_lookup m' (we_key w) = Some r \<and>
         or_value r = strncpy_z OCC_VAL_LEN (we_value w) \<and> or_version r = ot_commit_ts txn') \<and>
      (\<forall>k. k \<notin> we_key ` set (ot_write_set txn) \<longrightarrow> occ_lookup m' k = occ_lookup m k)) \<and>
    (\<not> ok \<longrightarrow> m' = m \<and> ot_phase txn' = OCC_TXN_ABORTED)"
proof -
  let ?m1 = "m\<lparr>om_global_version := om_global_version m + 1\<rparr>"
  let ?m2 = "fold (occ_install_one (om_global_version m)) (ot_write_set txn) ?m1"
  note keys = assms(1) [unfolded occ_txn_ok_def]
  have written: "\<exists>r. occ_lookup ?m2 (we_key w) = Some r \<and> occ_written (om_global_version m) w r"
    if "w \<in> set (ot_write_set txn)" for w
    by (rule occ_install_lookup(2)) (use keys assms(2) that in simp_all)
  have other: "occ_lookup ?m2 k = occ_lookup m k" if "k \<notin> we_key ` set (ot_write_set txn)" for k
    using occ_install_lookup(1) [of "ot_write_set txn" k "om_global_version m" ?m1] keys that by simp
  have res: "m' = occ_advance_watermarks ?m2 \<and> ot_commit_ts txn' = om_global_version m" if ok
    using assms(3) that by (auto simp: occ_txn_commit_def occ_txn_validate_def Let_def split: if_splits)
  have fail: "m' = m \<and> ot_phase txn' = OCC_TXN_ABORTED" if "\<not> ok"
    using assms(3) that by (auto simp: occ_txn_commit_def occ_txn_validate_def Let_def split: if_splits)
  show ?thesis
    using written other res fail by (auto simp: occ_written_def)
qed

theorem occ_commit_installs_witness:
  "map_option (\<lambda>r. (or_value r, or_version r))
     (occ_lookup (fst (occ_txn_commit occ_manager_init (fst (occ_txn_write occ_demo_txn ''x'' ''v'')))) ''x'') =
   Some (''v'', 1)"
proof -
  let ?t = "fst (occ_txn_write occ_demo_txn ''x'' ''v'')"
  let ?c = "occ_txn_commit occ_manager_init ?t"
  have c: "?c = (fst ?c, fst (snd ?c), True)"
    by (simp add: occ_txn_commit_def occ_txn_validate_def occ_backward_validation_def occ_forward_validation_def
        occ_txn_write_def occ_eval)
  have w: "ot_write_set ?t = [\<lparr>we_key = ''x'', we_value = ''v''\<rparr>]" by (simp add: occ_txn_write_def occ_eval)
  have ok: "occ_txn_ok ?t" by (simp add: occ_txn_ok_def w OCC_KEY_LEN_def)
  have room: "length (om_records occ_manager_init) + length (ot_write_set ?t) \<le> OCC_MAX_KEYS"
    by (simp add: w occ_manager_init_def OCC_MAX_KEYS_def)
  show ?thesis
    using occ_commit_installs [OF ok room c] by (auto simp: w occ_manager_init_def OCC_VAL_LEN_def)
qed

section \<open>Divergences from the comments\<close>

text \<open>
  The manager's copies of active transactions are made at the beginning with empty read sets, so forward
  validation accepts everything in every reachable manager.
\<close>

lemma occ_forward_validation_vacuous:
  assumes "reach occ_initial occ_step m"
  shows "occ_forward_validation m txn"
  using occ.reach_inv [OF assms] by (auto simp: occ_forward_validation_def occ_inv_def list_all_iff list_ex_iff)

text \<open>A commit does not look at the phase: an aborted or already committed transaction can be committed.\<close>

lemma occ_commit_ignores_phase: "occ_txn_commit m (txn\<lparr>ot_phase := p\<rparr>) = occ_txn_commit m txn"
  by (simp add: occ_txn_commit_def occ_txn_validate_def Let_def)

text \<open>The copies are never removed: after 32 transactions no further one can begin.\<close>

lemma occ_step_active:
  "occ_step m m' \<Longrightarrow> length (om_active_txns m) \<le> length (om_active_txns m')"
proof (induction rule: occ_step.induct)
  case (step_commit m txn)
  have "om_active_txns (fold (occ_install_one ts) ws n) = om_active_txns n" for ts ws n
  proof (induction ws arbitrary: n)
    case (Cons w ws)
    have "om_active_txns (occ_install_one ts w n) = om_active_txns n"
      using occ_ensure_frame(2)
      by (cases "occ_ensure_record (we_value w) n (we_key w)")
        (auto simp: occ_install_one_def split: option.splits)
    with Cons show ?case by simp
  qed simp
  then show ?case
    by (auto simp: occ_txn_commit_def Let_def occ_advance_watermarks_def split: prod.splits bool.splits)
next
  case (step_read m txn k)
  with occ_read_state [of m txn k] show ?case
    by (auto simp: occ_ensure_record_def split: option.splits)
qed (simp add: occ_txn_begin_def Let_def)

lemma occ_begin_exhausted:
  assumes "OCC_MAX_TXN \<le> length (om_active_txns m)" and "occ_step\<^sup>*\<^sup>* m m'"
  shows "occ_txn_begin m' i = (m', None)"
proof -
  have "length (om_active_txns m) \<le> length (om_active_txns m')"
    using assms(2) by (induction rule: rtranclp_induct) (auto dest: occ_step_active)
  with assms(1) show ?thesis by (simp add: occ_txn_begin_def)
qed

end
