(* ===== verification/Crdt.thy ===== *)
theory Crdt
  imports Net_Prelude
begin

text \<open>
  Conflict-free replicated data types (\<open>mini-dist-system-theory/src/crdt.c\<close>, \<open>include/crdt.h\<close>): grow-only and
  positive-negative counters, grow-only and two-phase sets as bit vectors, the observed-remove set and the
  last-writer-wins register. Counters and bit vectors are lists of 64-bit words. The locale \<open>convergent\<close>
  states what state-based replication asks of a merge and is interpreted for the counters, the sets and the
  register.
\<close>

unbundle bit_operations_syntax

section \<open>Data\<close>

definition CRDT_MAX_NODES :: nat where "CRDT_MAX_NODES = 8"
definition CRDT_MAX_ELEMENTS :: nat where "CRDT_MAX_ELEMENTS = 256"
definition CRDT_SET_SIZE :: int where "CRDT_SET_SIZE = 256"
definition CRDT_LWW_VALUE_LEN :: nat where "CRDT_LWW_VALUE_LEN = 64"
definition ORSET_TAG_LEN :: nat where "ORSET_TAG_LEN = 32"

record GCounter =
  gc_counters :: "64 word list"
  gc_node_count :: int

record PNCounter =
  pn_incs :: GCounter
  pn_decs :: GCounter

record GSet =
  gs_bits :: "64 word list"

record TwoPSet =
  tp_bits :: "64 word list"
  tp_tombstone_bits :: "64 word list"

record ORSetEntry =
  oe_tag :: string
  oe_element :: int

record ORSet =
  os_entries :: "ORSetEntry list"
  os_node_id :: int
  os_seq_counter :: int

record LWWRegister =
  lww_value :: string
  lww_timestamp :: "64 word"
  lww_node_id :: int

section \<open>Counters\<close>

definition gc_init :: "int \<Rightarrow> GCounter" where
  "gc_init node_count = \<lparr>gc_counters = replicate CRDT_MAX_NODES 0, gc_node_count = node_count\<rparr>"

definition gc_inc :: "GCounter \<Rightarrow> int \<Rightarrow> GCounter" where
  "gc_inc gc node_id =
     (if node_id \<ge> 0 \<and> node_id < gc_node_count gc
      then gc\<lparr>gc_counters := (gc_counters gc)[nat node_id := gc_counters gc ! nat node_id + 1]\<rparr> else gc)"

definition gc_value :: "GCounter \<Rightarrow> 64 word" where
  "gc_value gc = fold (\<lambda>i acc. acc + gc_counters gc ! i) [0..<nat (gc_node_count gc)] 0"

definition gc_merge :: "GCounter \<Rightarrow> GCounter \<Rightarrow> GCounter" where
  "gc_merge gc other =
     (let n0 = (if gc_node_count gc > gc_node_count other then gc_node_count gc else gc_node_count other);
          n = (if n0 > int CRDT_MAX_NODES then int CRDT_MAX_NODES else n0)
      in fold (\<lambda>i g. if gc_counters other ! i > gc_counters g ! i
                     then g\<lparr>gc_counters := (gc_counters g)[i := gc_counters other ! i]\<rparr> else g)
           [0..<nat n] gc)"

definition pn_init :: "int \<Rightarrow> PNCounter" where
  "pn_init node_count = \<lparr>pn_incs = gc_init node_count, pn_decs = gc_init node_count\<rparr>"

definition pn_inc :: "PNCounter \<Rightarrow> int \<Rightarrow> PNCounter" where
  "pn_inc pn node_id = pn\<lparr>pn_incs := gc_inc (pn_incs pn) node_id\<rparr>"

definition pn_dec :: "PNCounter \<Rightarrow> int \<Rightarrow> PNCounter" where
  "pn_dec pn node_id = pn\<lparr>pn_decs := gc_inc (pn_decs pn) node_id\<rparr>"

text \<open>\<open>(int64_t) a - (int64_t) b\<close>, read back as a signed value.\<close>

definition pn_value :: "PNCounter \<Rightarrow> int" where
  "pn_value pn = sint (gc_value (pn_incs pn) - gc_value (pn_decs pn))"

definition pn_merge :: "PNCounter \<Rightarrow> PNCounter \<Rightarrow> PNCounter" where
  "pn_merge pn other = \<lparr>pn_incs = gc_merge (pn_incs pn) (pn_incs other), pn_decs = gc_merge (pn_decs pn) (pn_decs other)\<rparr>"

section \<open>Bit-vector sets\<close>

definition bit_index :: "int \<Rightarrow> int" where
  "bit_index element = (if element < 0 \<or> element \<ge> CRDT_SET_SIZE then -1 else element)"

definition set_bit_at :: "64 word list \<Rightarrow> nat \<Rightarrow> 64 word list" where
  "set_bit_at bits idx = bits[idx div 64 := bits ! (idx div 64) OR push_bit (idx mod 64) 1]"

definition clear_bit_at :: "64 word list \<Rightarrow> nat \<Rightarrow> 64 word list" where
  "clear_bit_at bits idx = bits[idx div 64 := bits ! (idx div 64) AND NOT (push_bit (idx mod 64) 1)]"

definition test_bit_at :: "64 word list \<Rightarrow> nat \<Rightarrow> bool" where
  "test_bit_at bits idx \<longleftrightarrow> bits ! (idx div 64) AND push_bit (idx mod 64) 1 \<noteq> 0"

definition gset_init :: GSet where
  "gset_init = \<lparr>gs_bits = replicate 4 0\<rparr>"

definition gset_add :: "GSet \<Rightarrow> int \<Rightarrow> GSet" where
  "gset_add gs element =
     (let idx = bit_index element in if idx < 0 then gs else gs\<lparr>gs_bits := set_bit_at (gs_bits gs) (nat idx)\<rparr>)"

definition gset_remove :: "GSet \<Rightarrow> int \<Rightarrow> GSet" where
  "gset_remove gs element =
     (let idx = bit_index element in if idx < 0 then gs else gs\<lparr>gs_bits := clear_bit_at (gs_bits gs) (nat idx)\<rparr>)"

definition gset_contains :: "GSet \<Rightarrow> int \<Rightarrow> bool" where
  "gset_contains gs element =
     (let idx = bit_index element in if idx < 0 then False else test_bit_at (gs_bits gs) (nat idx))"

definition gset_merge :: "GSet \<Rightarrow> GSet \<Rightarrow> GSet" where
  "gset_merge gs other = gs\<lparr>gs_bits := map2 (OR) (gs_bits gs) (gs_bits other)\<rparr>"

definition twopset_init :: TwoPSet where
  "twopset_init = \<lparr>tp_bits = replicate 4 0, tp_tombstone_bits = replicate 4 0\<rparr>"

definition twopset_add :: "TwoPSet \<Rightarrow> int \<Rightarrow> TwoPSet" where
  "twopset_add tps element =
     (let idx = bit_index element in if idx < 0 then tps else tps\<lparr>tp_bits := set_bit_at (tp_bits tps) (nat idx)\<rparr>)"

definition twopset_remove :: "TwoPSet \<Rightarrow> int \<Rightarrow> TwoPSet" where
  "twopset_remove tps element =
     (let idx = bit_index element in if idx < 0 then tps
      else tps\<lparr>tp_tombstone_bits := set_bit_at (tp_tombstone_bits tps) (nat idx)\<rparr>)"

definition twopset_contains :: "TwoPSet \<Rightarrow> int \<Rightarrow> bool" where
  "twopset_contains tps element =
     (let idx = bit_index element in
      if idx < 0 then False
      else test_bit_at (tp_bits tps) (nat idx) \<and> \<not> test_bit_at (tp_tombstone_bits tps) (nat idx))"

definition twopset_merge :: "TwoPSet \<Rightarrow> TwoPSet \<Rightarrow> TwoPSet" where
  "twopset_merge tps other =
     \<lparr>tp_bits = map2 (OR) (tp_bits tps) (tp_bits other),
      tp_tombstone_bits = map2 (OR) (tp_tombstone_bits tps) (tp_tombstone_bits other)\<rparr>"

section \<open>Observed-remove set\<close>

fun dec_nat :: "nat \<Rightarrow> string" where
  "dec_nat n = (if n < 10 then [char_of (48 + n)] else dec_nat (n div 10) @ [char_of (48 + n mod 10)])"

declare dec_nat.simps [simp del]

definition dec_int :: "int \<Rightarrow> string" where
  "dec_int i = (if i < 0 then CHR ''-'' # dec_nat (nat (- i)) else dec_nat (nat i))"

definition orset_init :: "int \<Rightarrow> ORSet" where
  "orset_init node_id = \<lparr>os_entries = [], os_node_id = node_id, os_seq_counter = 0\<rparr>"

definition ors_add :: "ORSet \<Rightarrow> int \<Rightarrow> ORSet" where
  "ors_add ors element =
     (if list_ex (\<lambda>e. oe_element e = element) (os_entries ors) then ors
      else if length (os_entries ors) \<ge> CRDT_MAX_ELEMENTS then ors
      else ors\<lparr>os_entries := os_entries ors @ [\<lparr>oe_tag = strncpy_z ORSET_TAG_LEN
               (''n'' @ dec_int (os_node_id ors) @ ''-s'' @ dec_int (os_seq_counter ors)), oe_element = element\<rparr>],
             os_seq_counter := os_seq_counter ors + 1\<rparr>)"

definition ors_live :: "ORSetEntry \<Rightarrow> bool" where
  "ors_live e \<longleftrightarrow> (case oe_tag e of [] \<Rightarrow> True | c # _ \<Rightarrow> c \<noteq> CHR ''!'')"

definition ors_remove :: "ORSet \<Rightarrow> int \<Rightarrow> ORSet" where
  "ors_remove ors element =
     (if length (os_entries ors) \<ge> CRDT_MAX_ELEMENTS then ors
      else
        (case find_index (\<lambda>e. oe_element e = element \<and> ors_live e) (os_entries ors) of
           None \<Rightarrow> ors
         | Some i \<Rightarrow> ors\<lparr>os_entries := (os_entries ors)[i :=
             \<lparr>oe_tag = CHR ''!'' # tl (oe_tag (os_entries ors ! i)), oe_element = -1\<rparr>]\<rparr>))"

definition ors_contains :: "ORSet \<Rightarrow> int \<Rightarrow> bool" where
  "ors_contains ors element = list_ex (\<lambda>e. oe_element e = element \<and> ors_live e) (os_entries ors)"

definition ors_count :: "ORSet \<Rightarrow> nat" where
  "ors_count ors = count_if (\<lambda>e. oe_element e \<ge> 0 \<and> ors_live e) (os_entries ors)"

definition ors_merge_add :: "ORSetEntry \<Rightarrow> ORSetEntry list \<Rightarrow> ORSetEntry list" where
  "ors_merge_add oe es =
     (if \<not> list_ex (\<lambda>e. oe_tag e = oe_tag oe) es \<and> length es < CRDT_MAX_ELEMENTS then es @ [oe] else es)"

definition ors_merge_fix :: "nat \<Rightarrow> nat \<Rightarrow> ORSetEntry list \<Rightarrow> ORSetEntry list" where
  "ors_merge_fix i j es =
     (if i \<noteq> j \<and> oe_tag (es ! i) = oe_tag (es ! j) \<and> ors_live (es ! j) \<and> \<not> ors_live (es ! i)
      then es[j := es ! i] else es)"

definition ors_merge :: "ORSet \<Rightarrow> ORSet \<Rightarrow> ORSet" where
  "ors_merge ors other =
     (let es = fold ors_merge_add (os_entries other) (os_entries ors);
          es' = fold (\<lambda>i. fold (ors_merge_fix i) [0..<length es]) [0..<length es] es
      in ors\<lparr>os_entries := es'\<rparr>)"

section \<open>Last-writer-wins register\<close>

definition lww_init :: "int \<Rightarrow> LWWRegister" where
  "lww_init node_id = \<lparr>lww_value = [], lww_timestamp = 0, lww_node_id = node_id\<rparr>"

definition lww_set :: "LWWRegister \<Rightarrow> string \<Rightarrow> LWWRegister" where
  "lww_set lww val = lww\<lparr>lww_timestamp := lww_timestamp lww + 1, lww_value := strncpy_z CRDT_LWW_VALUE_LEN val\<rparr>"

definition lww_get :: "LWWRegister \<Rightarrow> string" where
  "lww_get lww = lww_value lww"

definition lww_merge :: "LWWRegister \<Rightarrow> LWWRegister \<Rightarrow> LWWRegister" where
  "lww_merge lww other =
     (if lww_timestamp other > lww_timestamp lww \<or>
         lww_timestamp other = lww_timestamp lww \<and> lww_node_id other > lww_node_id lww
      then \<lparr>lww_value = strncpy_z CRDT_LWW_VALUE_LEN (lww_value other), lww_timestamp = lww_timestamp other,
            lww_node_id = lww_node_id other\<rparr>
      else lww)"

section \<open>Convergence\<close>

text \<open>
  The contract of state-based replication: on the states of one replicated object a merge is an
  associative, commutative and idempotent join. Then the result of any sequence of merges depends only on which
  states went in, not on their order, grouping or repetition.
\<close>

locale convergent =
  fixes ok :: "'s \<Rightarrow> bool" and mrg :: "'s \<Rightarrow> 's \<Rightarrow> 's"
  assumes mrg_ok: "ok a \<Longrightarrow> ok b \<Longrightarrow> ok (mrg a b)"
    and mrg_idem: "ok a \<Longrightarrow> mrg a a = a"
    and mrg_comm: "ok a \<Longrightarrow> ok b \<Longrightarrow> mrg a b = mrg b a"
    and mrg_assoc: "ok a \<Longrightarrow> ok b \<Longrightarrow> ok c \<Longrightarrow> mrg (mrg a b) c = mrg a (mrg b c)"
begin

definition below :: "'s \<Rightarrow> 's \<Rightarrow> bool" where
  "below a b \<longleftrightarrow> mrg a b = b"

lemma below_mrg: "ok a \<Longrightarrow> ok b \<Longrightarrow> below a (mrg a b)"
  by (metis below_def mrg_assoc mrg_idem)

lemma below_trans: "ok a \<Longrightarrow> ok b \<Longrightarrow> ok c \<Longrightarrow> below a b \<Longrightarrow> below b c \<Longrightarrow> below a c"
  by (metis below_def mrg_assoc)

lemma below_antisym: "ok a \<Longrightarrow> ok b \<Longrightarrow> below a b \<Longrightarrow> below b a \<Longrightarrow> a = b"
  by (metis below_def mrg_comm)

lemma mrg_least: "ok a \<Longrightarrow> ok b \<Longrightarrow> ok c \<Longrightarrow> below a c \<Longrightarrow> below b c \<Longrightarrow> below (mrg a b) c"
  by (metis below_def mrg_assoc)

lemma merge_all_upper:
  assumes "ok a" and "\<And>x. x \<in> set xs \<Longrightarrow> ok x"
  shows "ok (foldl mrg a xs) \<and> (\<forall>x \<in> insert a (set xs). below x (foldl mrg a xs)) \<and>
    (\<forall>c. ok c \<longrightarrow> (\<forall>x \<in> insert a (set xs). below x c) \<longrightarrow> below (foldl mrg a xs) c)"
  using assms
proof (induction xs arbitrary: a)
  case Nil
  then show ?case by (simp add: below_def mrg_idem)
next
  case (Cons y ys)
  then have y: "ok y" and okm: "ok (mrg a y)" by (auto intro: mrg_ok)
  note IH = Cons.IH [OF okm]
  let ?r = "foldl mrg (mrg a y) ys"
  have r: "ok ?r" "below (mrg a y) ?r" "\<forall>x \<in> set ys. below x ?r" using IH Cons.prems(2) by auto
  have "below a ?r" by (rule below_trans [OF Cons.prems(1) okm r(1) below_mrg r(2)]) (use Cons.prems(1) y in auto)
  moreover have "below y (mrg a y)" using below_mrg [OF y Cons.prems(1)] mrg_comm [OF y Cons.prems(1)] by simp
  then have "below y ?r" by (rule below_trans [OF y okm r(1) _ r(2)])
  ultimately show ?case using IH Cons.prems r y by (auto intro: mrg_least)
qed

lemma merge_all_cong:
  assumes "ok a" and "ok b" and "\<And>x. x \<in> set xs \<union> set ys \<Longrightarrow> ok x" and "insert a (set xs) = insert b (set ys)"
  shows "foldl mrg a xs = foldl mrg b ys"
proof (rule below_antisym)
  note u = merge_all_upper [OF assms(1), of xs] and v = merge_all_upper [OF assms(2), of ys]
  show "ok (foldl mrg a xs)" and "ok (foldl mrg b ys)" using u v assms(3) by auto
  show "below (foldl mrg a xs) (foldl mrg b ys)" and "below (foldl mrg b ys) (foldl mrg a xs)"
    using u v assms(3,4) by auto
qed

end

section \<open>Counters converge\<close>

definition gc_ok :: "nat \<Rightarrow> GCounter \<Rightarrow> bool" where
  "gc_ok N gc \<longleftrightarrow> N \<le> CRDT_MAX_NODES \<and> length (gc_counters gc) = CRDT_MAX_NODES \<and> gc_node_count gc = int N \<and>
     (\<forall>i. N \<le> i \<and> i < CRDT_MAX_NODES \<longrightarrow> gc_counters gc ! i = 0)"

lemma gc_merge_loop:
  "fold (\<lambda>i g. if cs ! i > gc_counters g ! i then g\<lparr>gc_counters := (gc_counters g)[i := cs ! i]\<rparr> else g) [0..<n] gc =
   gc\<lparr>gc_counters := raise_upto n cs (gc_counters gc)\<rparr>"
  by (induction n) (simp_all add: raise_upto_def)

lemma gc_merge_fields:
  assumes "gc_ok N a" and "gc_ok N b"
  shows "length (gc_counters (gc_merge a b)) = CRDT_MAX_NODES" and "gc_node_count (gc_merge a b) = int N"
    and "i < CRDT_MAX_NODES \<Longrightarrow> gc_counters (gc_merge a b) ! i = max (gc_counters a ! i) (gc_counters b ! i)"
proof -
  have m: "gc_merge a b = a\<lparr>gc_counters := raise_upto N (gc_counters b) (gc_counters a)\<rparr>"
    using assms by (simp add: gc_merge_def gc_ok_def gc_merge_loop)
  have "N \<le> length (gc_counters a)" using assms(1) by (simp add: gc_ok_def)
  note r = raise_upto [OF this, where cs = "gc_counters b"]
  show "length (gc_counters (gc_merge a b)) = CRDT_MAX_NODES" and "gc_node_count (gc_merge a b) = int N"
    using r(1) assms by (simp_all add: m gc_ok_def)
  show "gc_counters (gc_merge a b) ! i = max (gc_counters a ! i) (gc_counters b ! i)" if "i < CRDT_MAX_NODES"
    using r(2) [of i] assms that by (auto simp: m gc_ok_def)
qed

lemma gc_eqI:
  assumes "gc_ok N a" and "gc_ok N b" and "\<And>i. i < CRDT_MAX_NODES \<Longrightarrow> gc_counters a ! i = gc_counters b ! i"
  shows "a = b"
  using assms by (intro GCounter.equality nth_equalityI) (auto simp: gc_ok_def)

lemma gc_merge_ok: "gc_ok N a \<Longrightarrow> gc_ok N b \<Longrightarrow> gc_ok N (gc_merge a b)"
  using gc_merge_fields [of N a b] by (auto simp: gc_ok_def)

interpretation gcc: convergent "gc_ok N" gc_merge for N
proof
  fix a b c
  show "gc_ok N (gc_merge a b)" if "gc_ok N a" "gc_ok N b" using that by (rule gc_merge_ok)
  show "gc_merge a a = a" if "gc_ok N a"
    by (rule gc_eqI [of N]) (use that gc_merge_fields [OF that that] in \<open>auto intro: gc_merge_ok\<close>)
  show "gc_merge a b = gc_merge b a" if "gc_ok N a" "gc_ok N b"
    by (rule gc_eqI [of N]) (use that in \<open>auto simp: gc_merge_fields max.commute intro: gc_merge_ok\<close>)
  show "gc_merge (gc_merge a b) c = gc_merge a (gc_merge b c)" if "gc_ok N a" "gc_ok N b" "gc_ok N c"
    by (rule gc_eqI [of N])
      (use that gc_merge_ok in \<open>auto simp: gc_merge_fields [of N] max.assoc intro!: gc_merge_ok\<close>)
qed

interpretation pnc: convergent "\<lambda>p. gc_ok N (pn_incs p) \<and> gc_ok N (pn_decs p)" pn_merge for N
  by unfold_locales
    (auto simp: pn_merge_def gcc.mrg_idem gcc.mrg_assoc intro: gc_merge_ok gcc.mrg_comm)

section \<open>Sets converge and refine finite sets\<close>

lemma test_bit_at_iff: "test_bit_at bits idx \<longleftrightarrow> bit (bits ! (idx div 64)) (idx mod 64)"
  by (simp add: test_bit_at_def and_exp_eq_0_iff_not_bit push_bit_eq_mult)

lemma word_index: "(j :: nat) div 64 = i div 64 \<and> j mod 64 = i mod 64 \<longleftrightarrow> j = i"
  by (metis div_mult_mod_eq)

lemma set_bit_test:
  assumes "length bits = 4" and "i < 256"
  shows "test_bit_at (set_bit_at bits i) j \<longleftrightarrow> j = i \<or> test_bit_at bits j"
  using assms word_index [of j i]
  by (cases "j div 64 = i div 64") (auto simp: test_bit_at_iff set_bit_at_def bit_simps)

lemma clear_bit_test:
  assumes "length bits = 4" and "i < 256"
  shows "test_bit_at (clear_bit_at bits i) j \<longleftrightarrow> j \<noteq> i \<and> test_bit_at bits j"
  using assms word_index [of j i]
  by (cases "j div 64 = i div 64") (auto simp: test_bit_at_iff clear_bit_at_def bit_simps)

lemma or_bits_test:
  assumes "length as = 4" and "length bs = 4" and "j < 256"
  shows "test_bit_at (map2 (OR) as bs) j \<longleftrightarrow> test_bit_at as j \<or> test_bit_at bs j"
  using assms by (simp add: test_bit_at_iff bit_simps)

lemma length_bits [simp]: "length (set_bit_at bs i) = length bs" "length (clear_bit_at bs i) = length bs"
  by (simp_all add: set_bit_at_def clear_bit_at_def)

lemma or_bits_idem: "map2 (OR) as as = (as :: 64 word list)"
  by (auto intro!: nth_equalityI)

lemma or_bits_laws:
  fixes as bs cs :: "64 word list"
  assumes "length as = 4" and "length bs = 4" and "length cs = 4"
  shows "map2 (OR) as bs = map2 (OR) bs as"
    and "map2 (OR) (map2 (OR) as bs) cs = map2 (OR) as (map2 (OR) bs cs)"
  using assms by (auto intro!: nth_equalityI simp: or.commute or.assoc or.left_commute)

text \<open>The elements a set answers yes to.\<close>

definition gset_elems :: "GSet \<Rightarrow> int set" where
  "gset_elems gs = {e. gset_contains gs e}"

definition twopset_elems :: "TwoPSet \<Rightarrow> int set" where
  "twopset_elems t = {e. twopset_contains t e}"

definition gset_ok :: "GSet \<Rightarrow> bool" where
  "gset_ok gs \<longleftrightarrow> length (gs_bits gs) = 4"

definition twopset_ok :: "TwoPSet \<Rightarrow> bool" where
  "twopset_ok t \<longleftrightarrow> length (tp_bits t) = 4 \<and> length (tp_tombstone_bits t) = 4"

lemma bit_index_simps:
  "0 \<le> e \<Longrightarrow> e < 256 \<Longrightarrow> bit_index e = e" "e < 0 \<or> 256 \<le> e \<Longrightarrow> bit_index e = -1"
  by (auto simp: bit_index_def CRDT_SET_SIZE_def)

lemma gset_contains_iff: "gset_contains gs e \<longleftrightarrow> 0 \<le> e \<and> e < 256 \<and> test_bit_at (gs_bits gs) (nat e)"
  by (auto simp: gset_contains_def bit_index_def CRDT_SET_SIZE_def Let_def)

definition twopset_added :: "TwoPSet \<Rightarrow> int set" where
  "twopset_added t = {e. 0 \<le> e \<and> e < 256 \<and> test_bit_at (tp_bits t) (nat e)}"

definition twopset_removed :: "TwoPSet \<Rightarrow> int set" where
  "twopset_removed t = {e. 0 \<le> e \<and> e < 256 \<and> test_bit_at (tp_tombstone_bits t) (nat e)}"

definition twopset_sets :: "TwoPSet \<Rightarrow> int set \<times> int set" where
  "twopset_sets t = (twopset_added t, twopset_removed t)"

lemma twopset_elems_eq: "twopset_elems t = twopset_added t - twopset_removed t"
  by (auto simp: twopset_elems_def twopset_added_def twopset_removed_def twopset_contains_def bit_index_def
      CRDT_SET_SIZE_def Let_def split: if_splits)

lemma twopset_ops:
  assumes "twopset_ok t" and "twopset_ok u"
  shows "twopset_ok (twopset_add t e) \<and> twopset_ok (twopset_remove t e) \<and> twopset_ok (twopset_merge t u)"
    and "twopset_added (twopset_add t e) = twopset_added t \<union> {x. x = e \<and> 0 \<le> e \<and> e < 256}"
    and "twopset_removed (twopset_add t e) = twopset_removed t"
    and "twopset_added (twopset_remove t e) = twopset_added t"
    and "twopset_removed (twopset_remove t e) = twopset_removed t \<union> {x. x = e \<and> 0 \<le> e \<and> e < 256}"
    and "twopset_added (twopset_merge t u) = twopset_added t \<union> twopset_added u"
    and "twopset_removed (twopset_merge t u) = twopset_removed t \<union> twopset_removed u"
proof -
  show "twopset_ok (twopset_add t e) \<and> twopset_ok (twopset_remove t e) \<and> twopset_ok (twopset_merge t u)"
    using assms by (simp add: twopset_ok_def twopset_add_def twopset_remove_def twopset_merge_def Let_def)
  have nat_iff: "nat x = nat e \<longleftrightarrow> x = e" if "0 \<le> x" "0 \<le> e" for x using that by auto
  show "twopset_added (twopset_add t e) = twopset_added t \<union> {x. x = e \<and> 0 \<le> e \<and> e < 256}"
    and "twopset_removed (twopset_add t e) = twopset_removed t"
    and "twopset_added (twopset_remove t e) = twopset_added t"
    and "twopset_removed (twopset_remove t e) = twopset_removed t \<union> {x. x = e \<and> 0 \<le> e \<and> e < 256}"
    using assms nat_iff
    by (cases "0 \<le> e \<and> e < 256"; force simp: twopset_ok_def twopset_add_def twopset_remove_def twopset_added_def
        twopset_removed_def bit_index_simps set_bit_test Let_def)+
  show "twopset_added (twopset_merge t u) = twopset_added t \<union> twopset_added u"
    and "twopset_removed (twopset_merge t u) = twopset_removed t \<union> twopset_removed u"
    using assms by (auto simp: twopset_ok_def twopset_merge_def twopset_added_def twopset_removed_def or_bits_test)
qed

interpretation tps: convergent twopset_ok twopset_merge
proof
  fix a b c
  show "twopset_ok (twopset_merge a b)" if "twopset_ok a" "twopset_ok b" using twopset_ops(1) [OF that] by simp
  show "twopset_merge a a = a" if "twopset_ok a"
    using that by (simp add: twopset_ok_def twopset_merge_def or_bits_idem)
  show "twopset_merge a b = twopset_merge b a" if "twopset_ok a" "twopset_ok b"
    using that or_bits_laws(1) [of "tp_bits a" "tp_bits b" "tp_bits b"]
      or_bits_laws(1) [of "tp_tombstone_bits a" "tp_tombstone_bits b" "tp_tombstone_bits b"]
    by (simp add: twopset_ok_def twopset_merge_def)
  show "twopset_merge (twopset_merge a b) c = twopset_merge a (twopset_merge b c)"
    if "twopset_ok a" "twopset_ok b" "twopset_ok c"
    using that or_bits_laws(2) by (simp add: twopset_ok_def twopset_merge_def)
qed

interpretation gsc: convergent gset_ok gset_merge
proof
  fix a b c
  show "gset_ok (gset_merge a b)" if "gset_ok a" "gset_ok b" using that by (simp add: gset_ok_def gset_merge_def)
  show "gset_merge a a = a" if "gset_ok a" using that by (simp add: gset_ok_def gset_merge_def or_bits_idem)
  show "gset_merge a b = gset_merge b a" if "gset_ok a" "gset_ok b"
    using that or_bits_laws(1) [of "gs_bits a" "gs_bits b" "gs_bits b"] by (simp add: gset_ok_def gset_merge_def)
  show "gset_merge (gset_merge a b) c = gset_merge a (gset_merge b c)" if "gset_ok a" "gset_ok b" "gset_ok c"
    using that or_bits_laws(2) by (simp add: gset_ok_def gset_merge_def)
qed

interpretation lwwc: convergent "\<lambda>r. lww_value r = val (lww_timestamp r) (lww_node_id r) \<and>
    length (lww_value r) < CRDT_LWW_VALUE_LEN" lww_merge for val
proof
  fix a b c :: LWWRegister
  assume a: "lww_value a = val (lww_timestamp a) (lww_node_id a) \<and> length (lww_value a) < CRDT_LWW_VALUE_LEN"
  then show "lww_merge a a = a" by (simp add: lww_merge_def)
  assume b: "lww_value b = val (lww_timestamp b) (lww_node_id b) \<and> length (lww_value b) < CRDT_LWW_VALUE_LEN"
  then show "lww_value (lww_merge a b) = val (lww_timestamp (lww_merge a b)) (lww_node_id (lww_merge a b)) \<and>
      length (lww_value (lww_merge a b)) < CRDT_LWW_VALUE_LEN"
    using a by (auto simp: lww_merge_def)
  show "lww_merge a b = lww_merge b a" using a b by (auto simp: lww_merge_def)
  assume c: "lww_value c = val (lww_timestamp c) (lww_node_id c) \<and> length (lww_value c) < CRDT_LWW_VALUE_LEN"
  show "lww_merge (lww_merge a b) c = lww_merge a (lww_merge b c)"
    using a b c by (auto simp: lww_merge_def)
qed

section \<open>A replicated grow-only counter\<close>

text \<open>
  \<open>N\<close> replicas, replica \<open>i\<close> incrementing its own slot; \<open>incs i\<close> counts the increments made there. Any
  replica may merge the current state of any other at any time.
\<close>

type_synonym gc_sys = "GCounter list \<times> (nat \<Rightarrow> nat)"

definition gc_start :: "nat \<Rightarrow> gc_sys \<Rightarrow> bool" where
  "gc_start N s \<longleftrightarrow> N \<le> CRDT_MAX_NODES \<and> s = (replicate N (gc_init (int N)), \<lambda>_. 0)"

inductive gc_step :: "nat \<Rightarrow> gc_sys \<Rightarrow> gc_sys \<Rightarrow> bool" for N where
  gc_local: "i < N \<Longrightarrow> gc_step N (rs, incs) (rs[i := gc_inc (rs ! i) (int i)], incs(i := Suc (incs i)))"
| gc_receive: "i < N \<Longrightarrow> j < N \<Longrightarrow> gc_step N (rs, incs) (rs[i := gc_merge (rs ! i) (rs ! j)], incs)"

definition gc_sys_inv :: "nat \<Rightarrow> gc_sys \<Rightarrow> bool" where
  "gc_sys_inv N s \<longleftrightarrow> (case s of (rs, incs) \<Rightarrow>
     length rs = N \<and> (\<forall>i < N. gc_ok N (rs ! i)) \<and>
     ((\<Sum>j < N. incs j) < 2 ^ 64 \<longrightarrow>
        (\<forall>i < N. unat (gc_counters (rs ! i) ! i) = incs i \<and>
           (\<forall>j < N. unat (gc_counters (rs ! i) ! j) \<le> incs j))))"

lemma gc_inc_ok: "gc_ok N g \<Longrightarrow> gc_ok N (gc_inc g k)"
  by (auto simp: gc_ok_def gc_inc_def nth_list_update)

lemma gc_sys_inv_local:
  assumes "gc_sys_inv N (rs, incs)" and "i < N"
  shows "gc_sys_inv N (rs[i := gc_inc (rs ! i) (int i)], incs(i := Suc (incs i)))"
proof -
  have len: "length rs = N" and ok: "\<And>k. k < N \<Longrightarrow> gc_ok N (rs ! k)" using assms(1) by (auto simp: gc_sys_inv_def)
  have sum: "(\<Sum>j < N. (incs(i := Suc (incs i))) j) = (\<Sum>j < N. incs j) + 1"
    using assms(2) by (simp add: sum.remove [of "{..<N}" i])
  have upd: "gc_counters (gc_inc (rs ! i) (int i)) = (gc_counters (rs ! i))[i := gc_counters (rs ! i) ! i + 1]"
    using ok [OF assms(2)] assms(2) by (simp add: gc_inc_def gc_ok_def)
  have li: "i < length (gc_counters (rs ! i))" using ok [OF assms(2)] assms(2) by (simp add: gc_ok_def)
  have "unat (gc_counters (rs[i := gc_inc (rs ! i) (int i)] ! k) ! k) = (incs(i := Suc (incs i))) k \<and>
      (\<forall>j < N. unat (gc_counters (rs[i := gc_inc (rs ! i) (int i)] ! k) ! j) \<le> (incs(i := Suc (incs i))) j)"
    if small: "(\<Sum>j < N. (incs(i := Suc (incs i))) j) < 2 ^ 64" and k: "k < N" for k
  proof -
    have old: "unat (gc_counters (rs ! l) ! l) = incs l" "\<And>j. j < N \<Longrightarrow> unat (gc_counters (rs ! l) ! j) \<le> incs j"
      if "l < N" for l using assms(1) small sum that by (auto simp: gc_sys_inv_def)
    have "incs i \<le> (\<Sum>j < N. incs j)" using assms(2) by (intro member_le_sum) auto
    then have "unat (gc_counters (rs ! i) ! i) + 1 < 2 ^ 64" using small sum old(1) [OF assms(2)] by simp
    then have "unat (gc_counters (rs ! i) ! i + 1) = incs i + 1"
      using old(1) [OF assms(2)] unat_add_lem [of "gc_counters (rs ! i) ! i" 1] by simp
    then show ?thesis using old k len li upd by (auto simp: nth_list_update intro: le_SucI)
  qed
  moreover have "gc_ok N (rs[i := gc_inc (rs ! i) (int i)] ! k)" if "k < N" for k
    using ok [OF that] gc_inc_ok [OF ok [OF assms(2)]] len that by (cases "k = i") simp_all
  ultimately show ?thesis using len by (auto simp: gc_sys_inv_def)
qed

lemma gc_sys_inv_receive:
  assumes "gc_sys_inv N (rs, incs)" and "i < N" and "j < N"
  shows "gc_sys_inv N (rs[i := gc_merge (rs ! i) (rs ! j)], incs)"
proof -
  have len: "length rs = N" and ok: "\<And>k. k < N \<Longrightarrow> gc_ok N (rs ! k)" using assms(1) by (auto simp: gc_sys_inv_def)
  note m = gc_merge_fields [OF ok [OF assms(2)] ok [OF assms(3)]]
  have N: "N \<le> CRDT_MAX_NODES" using ok [OF assms(2)] by (simp add: gc_ok_def)
  have "unat (gc_counters (rs[i := gc_merge (rs ! i) (rs ! j)] ! k) ! k) = incs k \<and>
      (\<forall>l < N. unat (gc_counters (rs[i := gc_merge (rs ! i) (rs ! j)] ! k) ! l) \<le> incs l)"
    if small: "(\<Sum>j < N. incs j) < 2 ^ 64" and k: "k < N" for k
  proof -
    have old: "unat (gc_counters (rs ! l) ! l) = incs l" "\<And>q. q < N \<Longrightarrow> unat (gc_counters (rs ! l) ! q) \<le> incs q"
      if "l < N" for l using assms(1) small that by (auto simp: gc_sys_inv_def)
    have mx: "unat (max a b) = max (unat a) (unat b)" for a b :: "64 word"
      by (auto simp: max_def word_le_nat_alt)
    have "unat (gc_counters (gc_merge (rs ! i) (rs ! j)) ! l) =
        max (unat (gc_counters (rs ! i) ! l)) (unat (gc_counters (rs ! j) ! l))" if "l < N" for l
      using that N m(3) [of l] mx by simp
    then show ?thesis using k len assms(2,3) old by (cases "k = i") auto
  qed
  moreover have "gc_ok N (rs[i := gc_merge (rs ! i) (rs ! j)] ! k)" if "k < N" for k
    using ok [OF that] gc_merge_ok [OF ok [OF assms(2)] ok [OF assms(3)]] len that by (cases "k = i") simp_all
  ultimately show ?thesis using len by (auto simp: gc_sys_inv_def)
qed

interpretation gcsys: invariant_system "gc_start N" "gc_step N" "gc_sys_inv N" for N
proof
  show "gc_sys_inv N s" if "gc_start N s" for s
    using that by (auto simp: gc_start_def gc_sys_inv_def gc_ok_def gc_init_def)
  show "gc_sys_inv N t" if "gc_sys_inv N s" and "gc_step N s t" for s t
    using that(2,1) by cases (auto intro: gc_sys_inv_local gc_sys_inv_receive)
qed

lemma gc_foldl_bound:
  assumes "gc_ok N a" and "\<And>x. x \<in> set xs \<Longrightarrow> gc_ok N x" and "\<And>x. x \<in> insert a (set xs) \<Longrightarrow> gc_counters x ! j \<le> B"
    and "j < CRDT_MAX_NODES"
  shows "gc_counters (foldl gc_merge a xs) ! j \<le> B"
  using assms
proof (induction xs arbitrary: a)
  case (Cons x xs)
  have x: "gc_ok N x" using Cons.prems(2) by simp
  have "gc_counters (gc_merge a x) ! j \<le> B"
    using gc_merge_fields(3) [OF Cons.prems(1) x Cons.prems(4)] Cons.prems(3) by simp
  then have "gc_counters (foldl gc_merge (gc_merge a x) xs) ! j \<le> B"
    by (intro Cons.IH) (use Cons.prems gc_merge_ok [OF Cons.prems(1) x] in auto)
  then show ?case by simp
qed simp

lemma gc_value_sum: "gc_value g = (\<Sum>i < nat (gc_node_count g). gc_counters g ! i)"
proof -
  have "fold (\<lambda>i acc. acc + f i) [0..<n] 0 = (\<Sum>i < n. f i)" for f :: "nat \<Rightarrow> 64 word" and n
    by (induction n) simp_all
  then show ?thesis by (simp add: gc_value_def)
qed

section \<open>The observed-remove set\<close>

text \<open>The second loop of \<open>ors_merge\<close> never changes anything: equal tags have equal first characters.\<close>

lemma ors_merge_fix_id: "ors_merge_fix i j es = es"
  by (auto simp: ors_merge_fix_def ors_live_def)

lemma ors_merge_eq: "ors_merge ors other = ors\<lparr>os_entries := fold ors_merge_add (os_entries other) (os_entries ors)\<rparr>"
proof -
  have "fold (ors_merge_fix i) js es = es" for i js es by (induction js) (simp_all add: ors_merge_fix_id)
  then have "fold (\<lambda>i. fold (ors_merge_fix i) js) is es = es" for js "is" es by (induction "is") simp_all
  then show ?thesis by (simp add: ors_merge_def Let_def)
qed

lemma ors_merge_add_mono: "set es \<subseteq> set (ors_merge_add oe es)" "length (ors_merge_add oe es) \<le> Suc (length es)"
  by (auto simp: ors_merge_add_def)

lemma ors_fold_mono: "set es \<subseteq> set (fold ors_merge_add os es)"
proof (induction os arbitrary: es)
  case (Cons x os)
  from ors_merge_add_mono(1) [of es x] Cons [of "ors_merge_add x es"] show ?case by simp
qed simp

text \<open>With room, every tag of the other replica is present after the merge.\<close>

lemma ors_fold_tags:
  assumes "length es + length os \<le> CRDT_MAX_ELEMENTS" and "x \<in> set os" and "distinct (map oe_tag os)"
    and "oe_tag x \<notin> oe_tag ` set es"
  shows "x \<in> set (fold ors_merge_add os es)"
  using assms
proof (induction os arbitrary: es)
  case (Cons y os)
  have len: "length (ors_merge_add y es) + length os \<le> CRDT_MAX_ELEMENTS"
    using Cons.prems(1) ors_merge_add_mono(2) [of y es] by simp
  show ?case
  proof (cases "x = y")
    case True
    have "\<not> list_ex (\<lambda>e. oe_tag e = oe_tag x) es"
      unfolding list_ex_iff using Cons.prems(4) by (metis image_eqI)
    with True Cons.prems(1) have "x \<in> set (ors_merge_add y es)" by (simp add: ors_merge_add_def)
    then show ?thesis using ors_fold_mono by fastforce
  next
    case False
    then have "x \<in> set os" using Cons.prems(2) by simp
    moreover have "oe_tag y \<notin> oe_tag ` set os" using Cons.prems(3) by simp
    ultimately have "oe_tag x \<noteq> oe_tag y" by (metis image_eqI)
    then have "oe_tag x \<notin> oe_tag ` set (ors_merge_add y es)" using Cons.prems(4) by (auto simp: ors_merge_add_def)
    with Cons.IH [OF len] Cons.prems False show ?thesis by simp
  qed
qed simp

section \<open>Properties\<close>

text \<open>
  C26. The replicated counter counts exactly. Take between 1 and 8 (\<open>CRDT_MAX_NODES\<close>) replicas, all created for that
  number of nodes, each of which increments its own entry and merges the state of any other, in whatever order. As long as
  fewer than \<open>2 ^ 64\<close> increments were made, merging all replicas gives a counter whose value is the number of increments.
\<close>

theorem gc_counts_all_increments:
  assumes "reach (gc_start N) (gc_step N) (rs, incs)" and "0 < N" and "(\<Sum>j < N. incs j) < 2 ^ 64"
  shows "gc_value (foldl gc_merge (hd rs) (tl rs)) = of_nat (\<Sum>j < N. incs j)"
proof -
  have len: "length rs = N" and ok: "\<And>i. i < N \<Longrightarrow> gc_ok N (rs ! i)"
    and own: "\<And>i. i < N \<Longrightarrow> unat (gc_counters (rs ! i) ! i) = incs i"
    and le: "\<And>i j. i < N \<Longrightarrow> j < N \<Longrightarrow> unat (gc_counters (rs ! i) ! j) \<le> incs j"
    using gcsys.reach_inv [OF assms(1)] assms(3) by (auto simp: gc_sys_inv_def)
  let ?m = "foldl gc_merge (hd rs) (tl rs)"
  obtain r0 rest where rs: "rs = r0 # rest" using len assms(2) by (cases rs) auto
  have oks: "gc_ok N x" if "x \<in> set rs" for x using ok len that by (auto simp: in_set_conv_nth)
  then have r0: "gc_ok N r0" and rest: "\<And>x. x \<in> set rest \<Longrightarrow> gc_ok N x" using rs by auto
  have upper: "gc_ok N ?m" "\<forall>x \<in> insert r0 (set rest). gcc.below x ?m"
    using gcc.merge_all_upper [OF r0, of rest] rest by (simp_all add: rs)
  have N: "N \<le> CRDT_MAX_NODES" using r0 by (simp add: gc_ok_def)
  note okm = upper(1)
  have "gc_counters ?m ! j = of_nat (incs j)" if j: "j < N" for j
  proof (rule antisym)
    have w: "gc_counters (rs ! j) ! j = of_nat (incs j)" by (simp add: own [OF j, symmetric])
    have "rs ! j \<in> insert r0 (set rest)" using j len nth_mem [of j rs] rs by simp
    then have "gcc.below (rs ! j) ?m" using upper(2) by blast
    then have "max (gc_counters (rs ! j) ! j) (gc_counters ?m ! j) = gc_counters ?m ! j"
      using gc_merge_fields(3) [OF ok [OF j] okm, of j] j N by (simp add: gcc.below_def)
    then show "of_nat (incs j) \<le> gc_counters ?m ! j" unfolding w by (metis max.cobounded1)
    show "gc_counters ?m ! j \<le> of_nat (incs j)"
      unfolding rs list.sel
    proof (rule gc_foldl_bound [OF r0 rest])
      fix x
      assume "x \<in> insert r0 (set rest)"
      then obtain i where i: "i < N" "x = rs ! i" using rs len by (metis in_set_conv_nth list.simps(15))
      have "unat (gc_counters x ! j) \<le> unat (gc_counters (rs ! j) ! j)" using le [OF i(1) j] own [OF j] i(2) by simp
      then show "gc_counters x ! j \<le> of_nat (incs j)" unfolding w by (simp add: word_le_nat_alt w)
    qed (use j N in simp_all)
  qed
  moreover have "nat (gc_node_count ?m) = N" using okm by (simp add: gc_ok_def)
  ultimately show ?thesis by (simp add: gc_value_sum)
qed

theorem gc_counts_all_increments_witness:
  "gc_value (gc_merge (gc_inc (gc_init 2) 0) (gc_init 2)) = 1"
proof -
  let ?s0 = "(replicate 2 (gc_init (int 2)), \<lambda>_. 0) :: gc_sys"
  let ?s1 = "((replicate 2 (gc_init 2))[0 := gc_inc (replicate 2 (gc_init 2) ! 0) (int 0)], (\<lambda>_. 0)(0 := Suc 0)) :: gc_sys"
  have "reach (gc_start 2) (gc_step 2) ?s1"
  proof (rule reach_step)
    show "reach (gc_start 2) (gc_step 2) ?s0" by (rule reach_init) (simp add: gc_start_def CRDT_MAX_NODES_def)
    show "gc_step 2 ?s0 ?s1" using gc_step.gc_local [of 0 2 "replicate 2 (gc_init 2)" "\<lambda>_. 0"] by simp
  qed
  moreover have "(\<Sum>j < 2. f j) = f 0 + f 1" for f :: "nat \<Rightarrow> nat" by (simp add: numeral_2_eq_2)
  moreover have "replicate 2 x = [x, x]" for x :: GCounter by (simp add: numeral_2_eq_2)
  ultimately show ?thesis using gc_counts_all_increments [of 2 "fst ?s1" "snd ?s1"] by simp
qed

text \<open>
  Counters that saw the same states agree: two replicas of a positive-negative counter that merged the
  same set of states, in any order and any number of times, have the same value.
\<close>

theorem pn_replicas_agree:
  assumes "\<And>p. p \<in> insert a (set xs) \<Longrightarrow> gc_ok N (pn_incs p) \<and> gc_ok N (pn_decs p)"
    and "insert a (set xs) = insert b (set ys)"
  shows "pn_value (foldl pn_merge a xs) = pn_value (foldl pn_merge b ys)"
proof -
  have "foldl pn_merge a xs = foldl pn_merge b ys"
  proof (rule pnc.merge_all_cong)
    show "insert a (set xs) = insert b (set ys)" by (rule assms(2))
    show "gc_ok N (pn_incs a) \<and> gc_ok N (pn_decs a)" using assms(1) by simp
    have "b \<in> insert a (set xs)" using assms(2) by simp
    then show "gc_ok N (pn_incs b) \<and> gc_ok N (pn_decs b)" by (rule assms(1))
    fix x
    assume "x \<in> set xs \<union> set ys"
    then have "x \<in> insert a (set xs)" using assms(2) by auto
    then show "gc_ok N (pn_incs x) \<and> gc_ok N (pn_decs x)" by (rule assms(1))
  qed
  then show ?thesis by simp
qed

theorem pn_replicas_agree_witness:
  "pn_value (foldl pn_merge (pn_inc (pn_init 2) 0) [pn_dec (pn_init 2) 1]) =
   pn_value (foldl pn_merge (pn_dec (pn_init 2) 1) [pn_inc (pn_init 2) 0, pn_inc (pn_init 2) 0])"
proof -
  have i: "gc_ok 2 (gc_init 2)" by (simp add: gc_ok_def gc_init_def CRDT_MAX_NODES_def)
  have ok: "gc_ok 2 (pn_incs p) \<and> gc_ok 2 (pn_decs p)"
    if "p \<in> insert (pn_inc (pn_init 2) 0) (set [pn_dec (pn_init 2) 1])" for p
    using that i by (auto simp: pn_inc_def pn_dec_def pn_init_def intro: gc_inc_ok)
  show ?thesis by (rule pn_replicas_agree [OF ok]) auto
qed

text \<open>
  C17. The two-phase set refines a pair of finite sets, that of the added and that of the removed elements: a new set is the pair of
  empty sets; for an element from 0 to 255 adding inserts it into the added set and removing inserts it into the removed set, whether
  or not it was added, and neither changes the other set; other elements are ignored; merging is the union of both; and
  the members are the added elements that are not removed. So an element that has been removed in one replica is not a member
  of any later merge with it.
\<close>

theorem twopset_refines_sets:
  assumes "twopset_ok t" and "twopset_ok u"
  shows "twopset_sets twopset_init = ({}, {}) \<and>
    twopset_sets (twopset_add t e) = (if 0 \<le> e \<and> e < 256 then (insert e (fst (twopset_sets t)), snd (twopset_sets t)) else twopset_sets t) \<and>
    twopset_sets (twopset_remove t e) = (if 0 \<le> e \<and> e < 256 then (fst (twopset_sets t), insert e (snd (twopset_sets t))) else twopset_sets t) \<and>
    twopset_sets (twopset_merge t u) = (fst (twopset_sets t) \<union> fst (twopset_sets u), snd (twopset_sets t) \<union> snd (twopset_sets u)) \<and>
    twopset_ok (twopset_add t e) \<and> twopset_ok (twopset_remove t e) \<and> twopset_ok (twopset_merge t u) \<and>
    (twopset_contains t e \<longleftrightarrow> e \<in> fst (twopset_sets t) \<and> e \<notin> snd (twopset_sets t))"
proof -
  have "twopset_sets twopset_init = ({}, {})"
    by (auto simp: twopset_sets_def twopset_init_def twopset_added_def twopset_removed_def test_bit_at_def)
  moreover have "twopset_contains t e \<longleftrightarrow> e \<in> twopset_elems t" by (simp add: twopset_elems_def)
  ultimately show ?thesis using twopset_ops(1-5) [OF assms, of e] twopset_ops(6,7) [OF assms]
    by (auto simp: twopset_sets_def twopset_elems_eq)
qed

theorem twopset_refines_sets_witness:
  "let r = twopset_remove twopset_init 70 in
   70 \<in> snd (twopset_sets r) \<and> twopset_sets (twopset_merge r (twopset_add twopset_init 70)) = ({70}, {70})"
proof -
  have i: "twopset_ok twopset_init" by (simp add: twopset_ok_def twopset_init_def)
  note ops = twopset_refines_sets [OF i i, of 70]
  then show ?thesis using twopset_refines_sets [of "twopset_remove twopset_init 70" "twopset_add twopset_init 70"]
    by (simp add: Let_def)
qed

text \<open>
  A removal from the observed-remove set does not survive a merge: if another replica still holds the
  removed element's live entry, merging that replica (with room) brings the element back, because the tombstone is
  stored under a changed tag and matches nothing.
\<close>

theorem ors_removed_comes_back:
  assumes "x \<in> set (os_entries other)" and "oe_element x = e" and "ors_live x"
    and "distinct (map oe_tag (os_entries other))" and "oe_tag x \<notin> oe_tag ` set (os_entries (ors_remove ors e))"
    and "length (os_entries (ors_remove ors e)) + length (os_entries other) \<le> CRDT_MAX_ELEMENTS"
  shows "ors_contains (ors_merge (ors_remove ors e) other) e"
  using ors_fold_tags [OF assms(6,1,4,5)] assms(2,3)
  by (auto simp: ors_merge_eq ors_contains_def list_ex_iff)

definition ors_demo_a :: ORSet where "ors_demo_a = ors_add (orset_init 0) 5"
definition ors_demo_b :: ORSet where "ors_demo_b = ors_merge (orset_init 1) ors_demo_a"

lemma ors_demo_entries:
  "os_entries ors_demo_a = [\<lparr>oe_tag = ''n0-s0'', oe_element = 5\<rparr>]"
  "os_entries ors_demo_b = [\<lparr>oe_tag = ''n0-s0'', oe_element = 5\<rparr>]"
  "os_entries (ors_remove ors_demo_a 5) = [\<lparr>oe_tag = ''!0-s0'', oe_element = -1\<rparr>]"
proof -
  show a: "os_entries ors_demo_a = [\<lparr>oe_tag = ''n0-s0'', oe_element = 5\<rparr>]"
    by (simp add: ors_demo_a_def ors_add_def orset_init_def CRDT_MAX_ELEMENTS_def ORSET_TAG_LEN_def dec_int_def
        dec_nat.simps char_of_def bit_0)
  then show "os_entries ors_demo_b = [\<lparr>oe_tag = ''n0-s0'', oe_element = 5\<rparr>]"
    by (simp add: ors_demo_b_def ors_merge_eq orset_init_def ors_merge_add_def CRDT_MAX_ELEMENTS_def)
  show "os_entries (ors_remove ors_demo_a 5) = [\<lparr>oe_tag = ''!0-s0'', oe_element = -1\<rparr>]"
    using a by (simp add: ors_remove_def CRDT_MAX_ELEMENTS_def ors_live_def)
qed

theorem ors_removed_comes_back_witness:
  "ors_contains (ors_merge (ors_remove ors_demo_a 5) ors_demo_b) 5"
  by (rule ors_removed_comes_back [of "\<lparr>oe_tag = ''n0-s0'', oe_element = 5\<rparr>"])
    (simp_all add: ors_demo_entries ors_live_def CRDT_MAX_ELEMENTS_def)

section \<open>Divergences from the comments\<close>

text \<open>
  \<open>lww_merge\<close> overwrites the register's own node identity, so two replicas can later write different
  values under the same timestamp and the same identity, and no exchange of states brings them together again.
\<close>

definition lww_demo_a :: LWWRegister where "lww_demo_a = lww_set (lww_set (lww_init 1) ''a'') ''c''"
definition lww_demo_b :: LWWRegister where
  "lww_demo_b = lww_set (lww_merge (lww_init 2) (lww_set (lww_init 1) ''a'')) ''b''"

lemma lww_replicas_diverge:
  "lww_get (lww_merge lww_demo_a lww_demo_b) = ''c'' \<and> lww_get (lww_merge lww_demo_b lww_demo_a) = ''b''"
  by (simp add: lww_demo_a_def lww_demo_b_def lww_set_def lww_init_def lww_merge_def lww_get_def CRDT_LWW_VALUE_LEN_def)

text \<open>
  \<open>gc_merge\<close> does not widen \<open>node_count\<close>: a replica created for fewer nodes stores the others' counts but
  leaves them out of its value.
\<close>

lemma gc_merge_narrow:
  "gc_value (gc_merge (gc_init 1) (gc_inc (gc_init 2) 1)) = 0 \<and>
   gc_value (gc_merge (gc_inc (gc_init 2) 1) (gc_init 1)) = 1"
  by (simp add: gc_value_def gc_merge_def gc_inc_def gc_init_def CRDT_MAX_NODES_def upt_rec numeral_eq_Suc)

end
