(* ===== verification/TimeOrdering.thy ===== *)
theory TimeOrdering
  imports Net_Prelude
begin

text \<open>
  Logical clocks (\<open>mini-dist-system-theory/src/time_ordering.c\<close>, \<open>include/time_ordering.h\<close>): Lamport clocks,
  vector clocks and hybrid logical clocks on 64-bit counters. The wall clock read by \<open>get_wall_time_us\<close> is the
  argument \<open>wall\<close>. The second part runs the clock operations over message-passing executions and relates the
  timestamps to the happens-before relation of the execution.
\<close>

section \<open>Data\<close>

definition VECTOR_CLOCK_MAX_NODES :: nat where "VECTOR_CLOCK_MAX_NODES = 8"

record LamportClock =
  lc_counter :: "64 word"

record VectorClock =
  vc_counters :: "64 word list"
  vc_node_count :: int

record HybridLogicalClock =
  hlc_physical_time_us :: "64 word"
  hlc_logical_counter :: "64 word"

datatype VCCompareResult = VC_BEFORE | VC_AFTER | VC_CONCURRENT | VC_EQUAL

section \<open>Operations\<close>

definition lamport_increment :: "LamportClock \<Rightarrow> LamportClock \<times> 64 word" where
  "lamport_increment lc = (let c = lc_counter lc + 1 in (lc\<lparr>lc_counter := c\<rparr>, c))"

definition lamport_tick :: "LamportClock \<Rightarrow> 64 word \<Rightarrow> LamportClock \<times> 64 word" where
  "lamport_tick lc received_clock =
     (let c0 = (if received_clock > lc_counter lc then received_clock else lc_counter lc); c = c0 + 1
      in (lc\<lparr>lc_counter := c\<rparr>, c))"

definition lamport_compare :: "64 word \<Rightarrow> 64 word \<Rightarrow> int" where
  "lamport_compare a b = (if a < b then -1 else if a > b then 1 else 0)"

definition lamport_reset :: "LamportClock \<Rightarrow> LamportClock" where
  "lamport_reset lc = lc\<lparr>lc_counter := 0\<rparr>"

definition vector_clock_init :: "int \<Rightarrow> VectorClock" where
  "vector_clock_init node_count = \<lparr>vc_counters = replicate VECTOR_CLOCK_MAX_NODES 0, vc_node_count = node_count\<rparr>"

definition vector_clock_increment :: "VectorClock \<Rightarrow> int \<Rightarrow> VectorClock \<times> 64 word" where
  "vector_clock_increment vc node_id =
     (if node_id < 0 \<or> node_id \<ge> vc_node_count vc then (vc, 0)
      else let c = vc_counters vc ! nat node_id + 1 in (vc\<lparr>vc_counters := (vc_counters vc)[nat node_id := c]\<rparr>, c))"

definition vector_clock_merge :: "VectorClock \<Rightarrow> VectorClock \<Rightarrow> VectorClock" where
  "vector_clock_merge vc other =
     (let n0 = (if vc_node_count vc > vc_node_count other then vc_node_count vc else vc_node_count other);
          n = (if n0 > int VECTOR_CLOCK_MAX_NODES then int VECTOR_CLOCK_MAX_NODES else n0)
      in fold (\<lambda>i v. if vc_counters other ! i > vc_counters v ! i
                     then v\<lparr>vc_counters := (vc_counters v)[i := vc_counters other ! i]\<rparr> else v)
           [0..<nat n] (vc\<lparr>vc_node_count := n\<rparr>))"

definition vc_read :: "VectorClock \<Rightarrow> nat \<Rightarrow> 64 word" where
  "vc_read v i = (if int i < vc_node_count v then vc_counters v ! i else 0)"

definition vector_clock_compare :: "VectorClock \<Rightarrow> VectorClock \<Rightarrow> VCCompareResult" where
  "vector_clock_compare a b =
     (let n = nat (if vc_node_count a > vc_node_count b then vc_node_count a else vc_node_count b);
          a_leq_b = list_all (\<lambda>i. \<not> vc_read a i > vc_read b i) [0..<n];
          b_leq_a = list_all (\<lambda>i. \<not> vc_read b i > vc_read a i) [0..<n]
      in if a_leq_b \<and> b_leq_a then VC_EQUAL
         else if a_leq_b then VC_BEFORE
         else if b_leq_a then VC_AFTER
         else VC_CONCURRENT)"

definition vector_clock_get :: "VectorClock \<Rightarrow> int \<Rightarrow> 64 word" where
  "vector_clock_get vc node_id = (if node_id < 0 \<or> node_id \<ge> vc_node_count vc then 0 else vc_counters vc ! nat node_id)"

definition vector_clock_equals :: "VectorClock \<Rightarrow> VectorClock \<Rightarrow> bool" where
  "vector_clock_equals a b =
     list_all (\<lambda>i. vc_read a i = vc_read b i)
       [0..<nat (if vc_node_count a > vc_node_count b then vc_node_count a else vc_node_count b)]"

fun vc_compare_string :: "VCCompareResult \<Rightarrow> string" where
  "vc_compare_string VC_BEFORE = ''happens-before''"
| "vc_compare_string VC_AFTER = ''happens-after''"
| "vc_compare_string VC_CONCURRENT = ''concurrent''"
| "vc_compare_string VC_EQUAL = ''equal''"

definition hlc_update :: "HybridLogicalClock \<Rightarrow> 64 word \<Rightarrow> HybridLogicalClock" where
  "hlc_update hlc wall_time_us =
     (if wall_time_us > hlc_physical_time_us hlc
      then \<lparr>hlc_physical_time_us = wall_time_us, hlc_logical_counter = 0\<rparr>
      else hlc\<lparr>hlc_logical_counter := hlc_logical_counter hlc + 1\<rparr>)"

definition hlc_tick :: "HybridLogicalClock \<Rightarrow> 64 word \<Rightarrow> HybridLogicalClock" where
  "hlc_tick hlc wall =
     (if wall > hlc_physical_time_us hlc
      then \<lparr>hlc_physical_time_us = wall, hlc_logical_counter = 0\<rparr>
      else hlc\<lparr>hlc_logical_counter := hlc_logical_counter hlc + 1\<rparr>)"

definition hlc_on_receive :: "HybridLogicalClock \<Rightarrow> 64 word \<Rightarrow> 64 word \<Rightarrow> 64 word \<Rightarrow> HybridLogicalClock" where
  "hlc_on_receive hlc msg_physical msg_logical wall =
     (let m0 = hlc_physical_time_us hlc;
          m1 = (if msg_physical > m0 then msg_physical else m0);
          max_pt = (if wall > m1 then wall else m1);
          h1 = hlc\<lparr>hlc_physical_time_us := max_pt\<rparr>
      in if max_pt = hlc_physical_time_us h1 \<and> max_pt = msg_physical
         then let max_lc = (if msg_logical > hlc_logical_counter h1 then msg_logical else hlc_logical_counter h1)
              in h1\<lparr>hlc_logical_counter := max_lc + 1\<rparr>
         else if max_pt = hlc_physical_time_us h1
         then h1\<lparr>hlc_logical_counter := hlc_logical_counter h1 + 1\<rparr>
         else h1\<lparr>hlc_logical_counter := 0\<rparr>)"

definition hlc_compare :: "HybridLogicalClock \<Rightarrow> HybridLogicalClock \<Rightarrow> int" where
  "hlc_compare a b =
     (if hlc_physical_time_us a < hlc_physical_time_us b then -1
      else if hlc_physical_time_us a > hlc_physical_time_us b then 1
      else if hlc_logical_counter a < hlc_logical_counter b then -1
      else if hlc_logical_counter a > hlc_logical_counter b then 1
      else 0)"

section \<open>Executions\<close>

text \<open>
  An execution is a sequence of events; an event is local to a process (sending included) or receives the
  message sent at an earlier event, which carries the sender's clock right after that event.
\<close>

datatype event = Local nat | Recv nat nat

fun proc :: "event \<Rightarrow> nat" where
  "proc (Local p) = p"
| "proc (Recv p k) = p"

definition valid_run :: "nat \<Rightarrow> event list \<Rightarrow> bool" where
  "valid_run N E \<longleftrightarrow> length E < 2 ^ 64 \<and>
     (\<forall>i < length E. proc (E ! i) < N \<and> (\<forall>p k. E ! i = Recv p k \<longrightarrow> k < i))"

inductive hb :: "event list \<Rightarrow> nat \<Rightarrow> nat \<Rightarrow> bool" for E where
  hb_proc: "i < j \<Longrightarrow> j < length E \<Longrightarrow> proc (E ! i) = proc (E ! j) \<Longrightarrow> hb E i j"
| hb_msg: "j < length E \<Longrightarrow> E ! j = Recv p i \<Longrightarrow> hb E i j"
| hb_trans: "hb E i j \<Longrightarrow> hb E j k \<Longrightarrow> hb E i k"

text \<open>The Lamport clock of process \<open>p\<close> after the first \<open>n\<close> events.\<close>

function lam_at :: "event list \<Rightarrow> nat \<Rightarrow> nat \<Rightarrow> LamportClock" where
  "lam_at E 0 p = \<lparr>lc_counter = 0\<rparr>"
| "lam_at E (Suc n) p =
     (if proc (E ! n) \<noteq> p then lam_at E n p
      else case E ! n of
        Local _ \<Rightarrow> fst (lamport_increment (lam_at E n p))
      | Recv _ k \<Rightarrow> if k < n then fst (lamport_tick (lam_at E n p) (lc_counter (lam_at E (Suc k) (proc (E ! k)))))
                    else lam_at E n p)"
  by pat_completeness auto
termination by (relation "measure (\<lambda>(E, n, p). n)") auto

text \<open>Likewise the vector clock, for \<open>N\<close> processes.\<close>

function vc_at :: "nat \<Rightarrow> event list \<Rightarrow> nat \<Rightarrow> nat \<Rightarrow> VectorClock" where
  "vc_at N E 0 p = vector_clock_init (int N)"
| "vc_at N E (Suc n) p =
     (if proc (E ! n) \<noteq> p then vc_at N E n p
      else case E ! n of
        Local _ \<Rightarrow> fst (vector_clock_increment (vc_at N E n p) (int p))
      | Recv _ k \<Rightarrow> if k < n
          then fst (vector_clock_increment (vector_clock_merge (vc_at N E n p) (vc_at N E (Suc k) (proc (E ! k)))) (int p))
          else vc_at N E n p)"
  by pat_completeness auto
termination by (relation "measure (\<lambda>(N, E, n, p). n)") auto

text \<open>The timestamps of event \<open>i\<close>.\<close>

definition lam_stamp :: "event list \<Rightarrow> nat \<Rightarrow> 64 word" where
  "lam_stamp E i = lc_counter (lam_at E (Suc i) (proc (E ! i)))"

definition vc_stamp :: "nat \<Rightarrow> event list \<Rightarrow> nat \<Rightarrow> VectorClock" where
  "vc_stamp N E i = vc_at N E (Suc i) (proc (E ! i))"

section \<open>Lamport clocks\<close>

lemma unat_Suc: "unat w < 2 ^ 64 - 1 \<Longrightarrow> unat (w + 1) = unat w + 1" for w :: "64 word"
  using unat_add_lem [of w 1] by simp

lemma lam_step:
  assumes "valid_run N E" and "n < length E"
    and "\<And>m q. m \<le> n \<Longrightarrow> unat (lc_counter (lam_at E m q)) \<le> m"
  shows "unat (lc_counter (lam_at E (Suc n) p)) \<le> Suc n \<and>
    unat (lc_counter (lam_at E n p)) \<le> unat (lc_counter (lam_at E (Suc n) p)) \<and>
    (proc (E ! n) = p \<longrightarrow> unat (lc_counter (lam_at E n p)) < unat (lc_counter (lam_at E (Suc n) p))) \<and>
    (\<forall>k. E ! n = Recv p k \<longrightarrow> unat (lam_stamp E k) < unat (lc_counter (lam_at E (Suc n) p)))"
proof (cases "E ! n")
  case (Local q)
  have "unat (lc_counter (lam_at E n p) + 1) = unat (lc_counter (lam_at E n p)) + 1"
    using assms(1,2) assms(3) [of n p] by (intro unat_Suc) (simp add: valid_run_def)
  with Local show ?thesis using assms(3) [of n p] by (auto simp: lamport_increment_def Let_def)
next
  case (Recv q j)
  then have j: "j < n" using assms(1,2) by (auto simp: valid_run_def)
  let ?a = "lc_counter (lam_at E n p)" and ?b = "lc_counter (lam_at E (Suc j) (proc (E ! j)))"
  have b: "unat ?b \<le> n" using assms(3) [of "Suc j" "proc (E ! j)"] j by simp
  define c where "c = (if ?b > ?a then ?b else ?a)"
  have c: "unat c \<le> n" "unat ?a \<le> unat c" "unat ?b \<le> unat c"
    using b assms(3) [of n p] by (auto simp: c_def word_less_nat_alt simp del: lam_at.simps)
  then have c1: "unat (c + 1) = unat c + 1" using assms(1,2) by (intro unat_Suc) (simp add: valid_run_def)
  show ?thesis
  proof (cases "q = p")
    case True
    with Recv j have "lc_counter (lam_at E (Suc n) p) = c + 1"
      by (simp add: lamport_tick_def Let_def c_def del: lam_at.simps) (simp add: lamport_tick_def Let_def)
    with c c1 Recv True show ?thesis by (simp add: lam_stamp_def del: lam_at.simps)
  next
    case False
    with Recv assms(3) [of n p] show ?thesis by simp
  qed
qed

lemma lam_bound:
  assumes "valid_run N E"
  shows "n \<le> length E \<Longrightarrow> unat (lc_counter (lam_at E n p)) \<le> n"
proof (induction n arbitrary: p rule: less_induct)
  case (less n)
  show ?case
  proof (cases n)
    case (Suc m)
    have IH: "unat (lc_counter (lam_at E l q)) \<le> l" if "l \<le> m" for l q
      using less that Suc by simp
    have "m < length E" using less.prems Suc by simp
    from lam_step [OF assms this IH, of p] Suc show ?thesis by simp
  qed simp
qed

lemma lam_mono:
  assumes "valid_run N E" and "m \<le> n" and "n \<le> length E"
  shows "unat (lc_counter (lam_at E m p)) \<le> unat (lc_counter (lam_at E n p))"
  using assms(2,3)
proof (induction rule: dec_induct)
  case (step l)
  have "unat (lc_counter (lam_at E l p)) \<le> unat (lc_counter (lam_at E (Suc l) p))"
    using lam_step [OF assms(1), of l p] lam_bound [OF assms(1)] step by (simp del: lam_at.simps)
  with step show ?case by (simp del: lam_at.simps)
qed simp

section \<open>Causal pasts\<close>

text \<open>The events known to process \<open>p\<close> after the first \<open>n\<close> events.\<close>

function past_at :: "event list \<Rightarrow> nat \<Rightarrow> nat \<Rightarrow> nat set" where
  "past_at E 0 p = {}"
| "past_at E (Suc n) p =
     (if proc (E ! n) \<noteq> p then past_at E n p
      else insert n (past_at E n p \<union> (case E ! n of
        Local _ \<Rightarrow> {}
      | Recv _ k \<Rightarrow> if k < n then past_at E (Suc k) (proc (E ! k)) else {})))"
  by pat_completeness auto
termination by (relation "measure (\<lambda>(E, n, p). n)") auto

abbreviation past :: "event list \<Rightarrow> nat \<Rightarrow> nat set" where
  "past E i \<equiv> past_at E (Suc i) (proc (E ! i))"

declare past_at.simps(2) [simp del] and vc_at.simps(2) [simp del] and lam_at.simps(2) [simp del]

lemma past_at_other: "proc (E ! n) \<noteq> p \<Longrightarrow> past_at E (Suc n) p = past_at E n p"
  by (simp add: past_at.simps(2))

lemma past_at_local: "E ! n = Local p \<Longrightarrow> past_at E (Suc n) p = insert n (past_at E n p)"
  by (simp add: past_at.simps(2))

lemma past_at_recv:
  "E ! n = Recv p k \<Longrightarrow> k < n \<Longrightarrow> past_at E (Suc n) p = insert n (past_at E n p \<union> past E k)"
  by (simp add: past_at.simps(2))

lemma event_cases:
  assumes "valid_run N E" and "n < length E"
  obtains (other) "proc (E ! n) \<noteq> p" | (local) "E ! n = Local p" | (recv) k where "E ! n = Recv p k" "k < n"
  using assms by (cases "E ! n") (auto simp: valid_run_def)

lemma past_at_lt:
  assumes "valid_run N E"
  shows "n \<le> length E \<Longrightarrow> past_at E n p \<subseteq> {..<n}"
proof (induction n arbitrary: p rule: less_induct)
  case (less n)
  show ?case
  proof (cases n)
    case (Suc m)
    then have m: "m < length E" using less.prems by simp
    have IH: "past_at E l q \<subseteq> {..<l}" if "l \<le> m" for l q using less that Suc by simp
    show ?thesis
      unfolding Suc using assms m
    proof (cases rule: event_cases [where p = p])
      case other
      with IH [of m p] show "past_at E (Suc m) p \<subseteq> {..<Suc m}" by (auto simp: past_at_other)
    next
      case local
      with IH [of m p] show "past_at E (Suc m) p \<subseteq> {..<Suc m}" by (auto simp: past_at_local)
    next
      case (recv k)
      with IH [of m p] IH [of "Suc k" "proc (E ! k)"] show "past_at E (Suc m) p \<subseteq> {..<Suc m}"
        by (auto simp: past_at_recv)
    qed
  qed simp
qed

lemma past_at_own:
  assumes "i < n" and "proc (E ! i) = p"
  shows "i \<in> past_at E n p"
  using assms(1)
proof (induction n)
  case (Suc n)
  then show ?case using assms(2) by (cases "i = n") (auto simp: past_at.simps(2))
qed simp

lemma past_at_mono: "past_at E n p \<subseteq> past_at E (Suc n) p"
  by (auto simp: past_at.simps(2))

lemma past_at_mono_le: "m \<le> n \<Longrightarrow> past_at E m p \<subseteq> past_at E n p"
  by (rule lift_Suc_mono_le [of "\<lambda>n. past_at E n p"]) (rule past_at_mono)

lemma past_closed:
  assumes "valid_run N E"
  shows "n \<le> length E \<Longrightarrow> j \<in> past_at E n p \<Longrightarrow> past E j \<subseteq> past_at E n p"
proof (induction n arbitrary: p rule: less_induct)
  case (less n)
  show ?case
  proof (cases n)
    case (Suc m)
    then have m: "m < length E" using less.prems by simp
    have IH: "past E j \<subseteq> past_at E l q" if "l \<le> m" "j \<in> past_at E l q" for l q using less that Suc by simp
    have j: "j \<in> past_at E (Suc m) p" using less.prems Suc by simp
    show ?thesis
      unfolding Suc using assms m
    proof (cases rule: event_cases [where p = p])
      case other
      with IH [of m p] j show "past E j \<subseteq> past_at E (Suc m) p" by (simp add: past_at_other)
    next
      case local
      with IH [of m p] j show "past E j \<subseteq> past_at E (Suc m) p"
        by (cases "j = m") (auto simp: past_at_local)
    next
      case (recv k)
      with IH [of m p] IH [of "Suc k" "proc (E ! k)"] j show "past E j \<subseteq> past_at E (Suc m) p"
        by (cases "j = m") (auto simp: past_at_recv)
    qed
  qed (use less in simp)
qed

lemma past_at_hb:
  assumes "valid_run N E"
  shows "n \<le> length E \<Longrightarrow> i \<in> past_at E n p \<Longrightarrow> \<exists>l < n. proc (E ! l) = p \<and> (i = l \<or> hb E i l)"
proof (induction n arbitrary: p rule: less_induct)
  case (less n)
  show ?case
  proof (cases n)
    case (Suc m)
    then have m: "m < length E" using less.prems by simp
    have IH: "\<exists>l < q. proc (E ! l) = r \<and> (i = l \<or> hb E i l)" if "q \<le> m" "i \<in> past_at E q r" for q r
      using less.IH [of q r] less.prems that Suc by simp
    have i: "i \<in> past_at E (Suc m) p" using less.prems Suc by simp
    have old: "\<exists>l < Suc m. proc (E ! l) = p \<and> (i = l \<or> hb E i l)" if "i \<in> past_at E m p"
      using IH [of m p] that by (auto intro: less_SucI)
    show ?thesis
      unfolding Suc using assms m
    proof (cases rule: event_cases [where p = p])
      case other
      with i old show "\<exists>l < Suc m. proc (E ! l) = p \<and> (i = l \<or> hb E i l)" by (simp add: past_at_other)
    next
      case local
      with i old show "\<exists>l < Suc m. proc (E ! l) = p \<and> (i = l \<or> hb E i l)" by (auto simp: past_at_local)
    next
      case (recv k)
      have "hb E i m" if "i \<in> past E k"
      proof -
        from IH [of "Suc k" "proc (E ! k)"] that recv obtain l where
          l: "l < Suc k" "proc (E ! l) = proc (E ! k)" "i = l \<or> hb E i l" by auto
        have "hb E k m" by (rule hb.hb_msg [OF m recv(1)])
        moreover have "l = k \<or> hb E l k" using l m recv(2) by (auto intro: hb.hb_proc)
        ultimately show ?thesis using l(3) by (auto intro: hb.hb_trans)
      qed
      with recv i old show "\<exists>l < Suc m. proc (E ! l) = p \<and> (i = l \<or> hb E i l)"
        by (auto simp: past_at_recv)
    qed
  qed (use less in simp)
qed

lemma hb_bounds:
  assumes "valid_run N E" and "hb E i j"
  shows "i < j \<and> j < length E"
  using assms(2)
proof (induction rule: hb.induct)
  case (hb_msg j p i)
  then show ?case using assms(1) by (auto simp: valid_run_def)
qed auto

lemma past_iff_hb:
  assumes "valid_run N E" and "j < length E"
  shows "i \<in> past E j \<longleftrightarrow> i = j \<or> hb E i j"
proof
  assume "i \<in> past E j"
  from past_at_hb [OF assms(1) _ this] assms(2) obtain l where
    l: "l < Suc j" "proc (E ! l) = proc (E ! j)" "i = l \<or> hb E i l" by auto
  then have "l = j \<or> hb E l j" using assms(2) by (auto intro: hb.hb_proc)
  with l(3) show "i = j \<or> hb E i j" by (auto intro: hb.hb_trans)
next
  have own: "k \<in> past E k" for k by (rule past_at_own) simp_all
  have "hb E i j \<Longrightarrow> i \<in> past E j"
  proof (induction rule: hb.induct)
    case (hb_proc i j)
    then show ?case by (intro past_at_own) auto
  next
    case (hb_msg j p i)
    then have "i < j" using assms(1) by (auto simp: valid_run_def)
    with hb_msg own [of i] show ?case by (simp add: past_at_recv)
  next
    case (hb_trans i j k)
    have "k < length E" using hb_bounds [OF assms(1) hb_trans.hyps(2)] by simp
    then have "past E j \<subseteq> past E k" using hb_trans.IH(2) by (intro past_closed [OF assms(1)]) auto
    with hb_trans.IH(1) show ?case by auto
  qed
  then show "i \<in> past E j" if "i = j \<or> hb E i j" using that own by auto
qed

section \<open>Vector clocks count the past\<close>

definition vc_ok :: "nat \<Rightarrow> VectorClock \<Rightarrow> bool" where
  "vc_ok N v \<longleftrightarrow> N \<le> VECTOR_CLOCK_MAX_NODES \<and> length (vc_counters v) = VECTOR_CLOCK_MAX_NODES \<and> vc_node_count v = int N"

lemma vc_merge_loop:
  "fold (\<lambda>i v. if cs ! i > vc_counters v ! i then v\<lparr>vc_counters := (vc_counters v)[i := cs ! i]\<rparr> else v) [0..<n] vc =
   vc\<lparr>vc_counters := raise_upto n cs (vc_counters vc)\<rparr>"
  by (induction n) (simp_all add: raise_upto_def)

lemma vc_merge_fields:
  assumes "vc_ok N a" and "vc_ok N b"
  shows "vc_ok N (vector_clock_merge a b)"
    and "i < N \<Longrightarrow> vc_counters (vector_clock_merge a b) ! i = max (vc_counters a ! i) (vc_counters b ! i)"
proof -
  have m: "vector_clock_merge a b = a\<lparr>vc_counters := raise_upto N (vc_counters b) (vc_counters a)\<rparr>"
    using assms by (simp add: vector_clock_merge_def vc_ok_def vc_merge_loop)
  have "N \<le> length (vc_counters a)" using assms(1) by (simp add: vc_ok_def)
  note r = raise_upto [OF this, where cs = "vc_counters b"]
  show "vc_ok N (vector_clock_merge a b)" using r(1) assms by (simp add: m vc_ok_def)
  show "vc_counters (vector_clock_merge a b) ! i = max (vc_counters a ! i) (vc_counters b ! i)" if "i < N"
    using r(2) [of i] assms that by (auto simp: m vc_ok_def)
qed

lemma vc_increment_fields:
  assumes "vc_ok N a" and "p < N"
  shows "vc_ok N (fst (vector_clock_increment a (int p)))"
    and "q < N \<Longrightarrow> vc_counters (fst (vector_clock_increment a (int p))) ! q =
      (if q = p then vc_counters a ! p + 1 else vc_counters a ! q)"
  using assms by (auto simp: vector_clock_increment_def vc_ok_def Let_def nth_list_update)

text \<open>The events of process \<open>q\<close> in a set of events.\<close>

definition of_proc :: "event list \<Rightarrow> nat \<Rightarrow> nat set \<Rightarrow> nat set" where
  "of_proc E q A = {i \<in> A. proc (E ! i) = q}"

lemma past_prefix:
  assumes "valid_run N E" and "n \<le> length E" and "i \<in> past_at E n p" and "j < i" and "proc (E ! j) = proc (E ! i)"
  shows "j \<in> past_at E n p"
  using past_closed [OF assms(1-3)] past_at_own [of j "Suc i" E "proc (E ! i)"] assms(4,5) by auto

lemma of_proc_comparable:
  assumes "valid_run N E" and "m \<le> length E" and "n \<le> length E"
  shows "of_proc E q (past_at E m p) \<subseteq> of_proc E q (past_at E n r) \<or>
    of_proc E q (past_at E n r) \<subseteq> of_proc E q (past_at E m p)"
proof (rule disjCI)
  assume "\<not> of_proc E q (past_at E n r) \<subseteq> of_proc E q (past_at E m p)"
  then obtain b where b: "b \<in> past_at E n r" "b \<notin> past_at E m p" "proc (E ! b) = q" by (auto simp: of_proc_def)
  show "of_proc E q (past_at E m p) \<subseteq> of_proc E q (past_at E n r)"
  proof
    fix a
    assume "a \<in> of_proc E q (past_at E m p)"
    then have a: "a \<in> past_at E m p" "proc (E ! a) = q" by (auto simp: of_proc_def)
    have "\<not> b < a" using past_prefix [OF assms(1,2) a(1)] a(2) b by auto
    then have "a < b \<or> a = b" by auto
    then have "a \<in> past_at E n r" using past_prefix [OF assms(1,3) b(1)] a(2) b by auto
    with a(2) show "a \<in> of_proc E q (past_at E n r)" by (simp add: of_proc_def)
  qed
qed

lemma card_comparable: "finite A \<Longrightarrow> finite B \<Longrightarrow> A \<subseteq> B \<or> B \<subseteq> A \<Longrightarrow> card (A \<union> B) = max (card A) (card B)"
  by (metis Un_absorb1 Un_absorb2 card_mono max.absorb1 max.absorb2)

lemma past_at_finite: "valid_run N E \<Longrightarrow> n \<le> length E \<Longrightarrow> finite (past_at E n p)"
  by (rule finite_subset [OF past_at_lt]) auto

lemma unat_max: "unat (max a b) = max (unat a) (unat b)" for a b :: "64 word"
  by (auto simp: max_def word_le_nat_alt)

lemma vc_tick_count:
  assumes "vc_ok N v" and "p < N" and "n < 2 ^ 64 - 1" and "A \<subseteq> {..<n}" and "proc (E ! n) = p"
    and "\<And>q. q < N \<Longrightarrow> unat (vc_counters v ! q) = card (of_proc E q A)" and "q < N"
  shows "unat (vc_counters (fst (vector_clock_increment v (int p))) ! q) = card (of_proc E q (insert n A))"
proof -
  have fin: "finite A" and n: "n \<notin> A" using assms(4) finite_subset by auto
  show ?thesis
  proof (cases "q = p")
    case True
    have "card (of_proc E p A) \<le> card A" using fin by (intro card_mono) (auto simp: of_proc_def)
    also have "\<dots> \<le> n" using card_mono [OF _ assms(4)] by simp
    finally have "unat (vc_counters v ! p + 1) = card (of_proc E p A) + 1"
      using assms(2,3,6) by (subst unat_Suc) auto
    moreover have "of_proc E p (insert n A) = insert n (of_proc E p A)" using assms(5) by (auto simp: of_proc_def)
    ultimately show ?thesis
      using True vc_increment_fields(2) [OF assms(1,2,7)] n fin by (simp add: of_proc_def)
  next
    case False
    then have "of_proc E q (insert n A) = of_proc E q A" using assms(5) by (auto simp: of_proc_def)
    with False show ?thesis using vc_increment_fields(2) [OF assms(1,2,7)] assms(6,7) by simp
  qed
qed

lemma vc_at_count:
  assumes "valid_run N E" and "N \<le> VECTOR_CLOCK_MAX_NODES"
  shows "n \<le> length E \<Longrightarrow> vc_ok N (vc_at N E n p) \<and>
    (\<forall>q < N. unat (vc_counters (vc_at N E n p) ! q) = card (of_proc E q (past_at E n p)))"
proof (induction n arbitrary: p rule: less_induct)
  case (less n)
  show ?case
  proof (cases n)
    case 0
    then show ?thesis using assms(2) by (simp add: vc_ok_def vector_clock_init_def of_proc_def)
  next
    case (Suc m)
    then have m: "m < length E" using less.prems by simp
    have small: "m < 2 ^ 64 - 1" using m assms(1) by (simp add: valid_run_def)
    have ok: "vc_ok N (vc_at N E l r)"
      and cnt: "\<And>q. q < N \<Longrightarrow> unat (vc_counters (vc_at N E l r) ! q) = card (of_proc E q (past_at E l r))"
      if "l \<le> m" for l r using less.IH [of l r] less.prems that Suc by auto
    have lt: "past_at E m r \<subseteq> {..<m}" for r using past_at_lt [OF assms(1)] m by simp
    from assms(1) m show ?thesis
      unfolding Suc
    proof (cases rule: event_cases [where p = p])
      case other
      then show "vc_ok N (vc_at N E (Suc m) p) \<and>
          (\<forall>q < N. unat (vc_counters (vc_at N E (Suc m) p) ! q) = card (of_proc E q (past_at E (Suc m) p)))"
        using ok [of m p] cnt [of m] by (simp add: past_at_other vc_at.simps(2))
    next
      case local
      have p: "p < N" using assms(1) m local by (auto simp: valid_run_def)
      have "vc_at N E (Suc m) p = fst (vector_clock_increment (vc_at N E m p) (int p))"
        using local by (simp add: vc_at.simps(2))
      then show "vc_ok N (vc_at N E (Suc m) p) \<and>
          (\<forall>q < N. unat (vc_counters (vc_at N E (Suc m) p) ! q) = card (of_proc E q (past_at E (Suc m) p)))"
        using vc_tick_count [OF ok p small lt [of p] _ cnt] vc_increment_fields(1) [OF ok p] local
        by (simp add: past_at_local)
    next
      case (recv k)
      have p: "p < N" using assms(1) m recv by (auto simp: valid_run_def)
      let ?v = "vector_clock_merge (vc_at N E m p) (vc_at N E (Suc k) (proc (E ! k)))"
      have k: "Suc k \<le> m" using recv by simp
      note mrg = vc_merge_fields [OF ok [of m p] ok [OF k, of "proc (E ! k)"]]
      have "unat (vc_counters ?v ! q) = card (of_proc E q (past_at E m p \<union> past E k))" if "q < N" for q
      proof -
        have "of_proc E q (past_at E m p \<union> past E k) = of_proc E q (past_at E m p) \<union> of_proc E q (past E k)"
          by (auto simp: of_proc_def)
        moreover have "finite (of_proc E q (past_at E m p))" "finite (of_proc E q (past E k))"
          using past_at_finite [OF assms(1)] m k by (auto simp: of_proc_def)
        moreover have "of_proc E q (past_at E m p) \<subseteq> of_proc E q (past E k) \<or>
            of_proc E q (past E k) \<subseteq> of_proc E q (past_at E m p)"
          using m k by (intro of_proc_comparable [OF assms(1)]) auto
        ultimately show ?thesis
          using mrg(2) [OF _ that] cnt [of m q p] cnt [OF k that, of "proc (E ! k)"] that
          by (simp add: card_comparable unat_max)
      qed
      moreover have "past_at E m p \<union> past E k \<subseteq> {..<m}"
        using lt [of p] past_at_lt [OF assms(1), of "Suc k" "proc (E ! k)"] m k by auto
      moreover have "vc_at N E (Suc m) p = fst (vector_clock_increment ?v (int p))"
        using recv by (simp add: vc_at.simps(2))
      ultimately show "vc_ok N (vc_at N E (Suc m) p) \<and>
          (\<forall>q < N. unat (vc_counters (vc_at N E (Suc m) p) ! q) = card (of_proc E q (past_at E (Suc m) p)))"
        using vc_tick_count [OF mrg(1) p small] vc_increment_fields(1) [OF mrg(1) p] recv
        by (simp add: past_at_recv)
    qed
  qed
qed

lemma vc_read_stamp: "vc_ok N v \<Longrightarrow> i < N \<Longrightarrow> vc_read v i = vc_counters v ! i"
  by (simp add: vc_read_def vc_ok_def)

lemma vc_stamp_le_iff:
  assumes "valid_run N E" and "N \<le> VECTOR_CLOCK_MAX_NODES" and "i < length E" and "j < length E"
  shows "list_all (\<lambda>q. \<not> vc_read (vc_stamp N E i) q > vc_read (vc_stamp N E j) q) [0..<N] \<longleftrightarrow> i \<in> past E j"
proof -
  have ok: "vc_ok N (vc_stamp N E l)"
    and cnt: "\<And>q. q < N \<Longrightarrow> unat (vc_counters (vc_stamp N E l) ! q) = card (of_proc E q (past E l))"
    if "l < length E" for l
    using vc_at_count [OF assms(1,2), of "Suc l" "proc (E ! l)"] that by (auto simp: vc_stamp_def)
  have le: "list_all (\<lambda>q. \<not> vc_read (vc_stamp N E i) q > vc_read (vc_stamp N E j) q) [0..<N] \<longleftrightarrow>
      (\<forall>q < N. card (of_proc E q (past E i)) \<le> card (of_proc E q (past E j)))"
  proof -
    have "unat (vc_read (vc_stamp N E l) q) = card (of_proc E q (past E l))" if "l < length E" "q < N" for l q
      using vc_read_stamp [OF ok [OF that(1)] that(2)] cnt [OF that] by simp
    then show ?thesis using assms(3,4) by (auto simp: list_all_iff not_less word_le_nat_alt)
  qed
  have fin: "finite (past E l)" if "l < length E" for l using past_at_finite [OF assms(1)] that by simp
  show ?thesis
    unfolding le
  proof
    assume "i \<in> past E j"
    then have "past E i \<subseteq> past E j" using assms(4) by (intro past_closed [OF assms(1)]) auto
    then show "\<forall>q < N. card (of_proc E q (past E i)) \<le> card (of_proc E q (past E j))"
      using fin [OF assms(4)] by (auto simp: of_proc_def intro!: card_mono)
  next
    assume all: "\<forall>q < N. card (of_proc E q (past E i)) \<le> card (of_proc E q (past E j))"
    show "i \<in> past E j"
    proof (rule ccontr)
      assume notin: "i \<notin> past E j"
      let ?q = "proc (E ! i)"
      have q: "?q < N" using assms(1,3) by (auto simp: valid_run_def)
      have own: "i \<in> past E i" by (rule past_at_own) simp_all
      have "l \<in> of_proc E ?q (past E i) - {i}" if "l \<in> of_proc E ?q (past E j)" for l
      proof -
        have l: "l \<in> past E j" "proc (E ! l) = ?q" using that by (auto simp: of_proc_def)
        have "i \<noteq> l" using l(1) notin by auto
        moreover have "\<not> i < l"
        proof
          assume "i < l"
          have "i \<in> past E j"
            by (rule past_prefix [OF assms(1) _ l(1)]) (use assms(4) l(2) \<open>i < l\<close> in simp_all)
          with notin show False ..
        qed
        ultimately have "l < i" by simp
        then show ?thesis using l(2) past_at_own [of l "Suc i" E ?q] by (auto simp: of_proc_def)
      qed
      then have "of_proc E ?q (past E j) \<subseteq> of_proc E ?q (past E i) - {i}" by blast
      then have "card (of_proc E ?q (past E j)) \<le> card (of_proc E ?q (past E i) - {i})"
        using fin [OF assms(3)] by (intro card_mono) (auto simp: of_proc_def)
      also have "\<dots> < card (of_proc E ?q (past E i))"
        using own fin [OF assms(3)] by (intro card_Diff1_less) (auto simp: of_proc_def)
      finally show False using all q by (meson not_le)
    qed
  qed
qed

section \<open>Properties\<close>

text \<open>
  Lamport's clock condition: in every execution of processes that call \<open>lamport_increment\<close> on local events
  and \<open>lamport_tick\<close> on receipt (fewer than \<open>2 ^ 64\<close> events, so no counter wraps), an event that happens before
  another has the smaller timestamp.
\<close>

theorem lamport_clock_condition:
  assumes "valid_run N E" and "hb E i j"
  shows "lamport_compare (lam_stamp E i) (lam_stamp E j) = -1"
proof -
  have bound: "unat (lc_counter (lam_at E m q)) \<le> m" if "m \<le> length E" for m q
    using lam_bound [OF assms(1) that] .
  have "unat (lam_stamp E i) < unat (lam_stamp E j)"
    using assms(2)
  proof (induction rule: hb.induct)
    case (hb_proc i j)
    have "unat (lc_counter (lam_at E j (proc (E ! j)))) < unat (lam_stamp E j)"
      using lam_step [OF assms(1) hb_proc(2), of "proc (E ! j)"] bound hb_proc by (simp add: lam_stamp_def)
    moreover have "unat (lam_stamp E i) \<le> unat (lc_counter (lam_at E j (proc (E ! j))))"
      using lam_mono [OF assms(1), of "Suc i" j "proc (E ! j)"] hb_proc by (simp add: lam_stamp_def)
    ultimately show ?case by simp
  next
    case (hb_msg j p i)
    then show ?case
      using lam_step [OF assms(1) hb_msg(1), of p] bound by (auto simp: lam_stamp_def [of E j])
  qed simp
  then show ?thesis by (simp add: lamport_compare_def word_less_nat_alt)
qed

theorem lamport_clock_condition_witness:
  "lamport_compare (lam_stamp [Local 0, Recv 1 0] 0) (lam_stamp [Local 0, Recv 1 0] 1) = -1"
proof (rule lamport_clock_condition)
  show "valid_run 2 [Local 0, Recv 1 0]" by (auto simp: valid_run_def less_Suc_eq)
  show "hb [Local 0, Recv 1 0] 0 1" by (rule hb.hb_msg [where p = 1]) simp_all
qed

text \<open>
  C13. Vector clocks characterise causality: in every execution of at most 8 processes and fewer than 2^64 events that call
  \<open>vector_clock_increment\<close> on local events and \<open>vector_clock_merge\<close> then \<open>vector_clock_increment\<close> on receipt,
  \<open>vector_clock_compare\<close> of the timestamps of two events answers \<open>VC_BEFORE\<close> exactly when the first happens
  before the second, \<open>VC_AFTER\<close> when the second happens before the first, \<open>VC_EQUAL\<close> only for the same
  event and \<open>VC_CONCURRENT\<close> otherwise.
\<close>

theorem vector_clock_characterises_causality:
  assumes "valid_run N E" and "N \<le> VECTOR_CLOCK_MAX_NODES" and "i < length E" and "j < length E"
  shows "vector_clock_compare (vc_stamp N E i) (vc_stamp N E j) =
    (if i = j then VC_EQUAL else if hb E i j then VC_BEFORE else if hb E j i then VC_AFTER else VC_CONCURRENT)"
proof -
  have n: "vc_node_count (vc_stamp N E l) = int N" if "l < length E" for l
    using vc_at_count [OF assms(1,2), of "Suc l" "proc (E ! l)"] that by (simp add: vc_stamp_def vc_ok_def)
  have ij: "list_all (\<lambda>q. \<not> vc_read (vc_stamp N E i) q > vc_read (vc_stamp N E j) q) [0..<N] \<longleftrightarrow> i = j \<or> hb E i j"
    unfolding vc_stamp_le_iff [OF assms] by (rule past_iff_hb [OF assms(1,4)])
  have ji: "list_all (\<lambda>q. \<not> vc_read (vc_stamp N E j) q > vc_read (vc_stamp N E i) q) [0..<N] \<longleftrightarrow> j = i \<or> hb E j i"
    unfolding vc_stamp_le_iff [OF assms(1,2,4,3)] by (rule past_iff_hb [OF assms(1,3)])
  have "\<not> (hb E i j \<and> hb E j i)" using hb_bounds [OF assms(1), of i j] hb_bounds [OF assms(1), of j i] by auto
  then show ?thesis
    using n [OF assms(3)] n [OF assms(4)] by (auto simp: vector_clock_compare_def Let_def ij ji)
qed

theorem vector_clock_characterises_causality_witness:
  "vector_clock_compare (vc_stamp 2 [Local 0, Local 1] 0) (vc_stamp 2 [Local 0, Local 1] 1) \<noteq> VC_EQUAL"
proof -
  have v: "valid_run 2 [Local 0, Local 1]" by (auto simp: valid_run_def less_Suc_eq)
  show ?thesis
    using vector_clock_characterises_causality [OF v, of 0 1] by (simp add: VECTOR_CLOCK_MAX_NODES_def)
qed

text \<open>
  Hybrid logical clocks move forward: as long as the logical counters are not at their maximum, an update and
  a receipt leave the clock strictly later than it was, and a receipt also leaves it strictly later than the
  message's timestamp; the physical part is never behind the wall clock.
\<close>

theorem hlc_moves_forward:
  assumes "hlc_logical_counter h \<noteq> - 1" and "ml \<noteq> - 1"
  shows "hlc_compare h (hlc_update h wall) = -1 \<and> hlc_compare h (hlc_tick h wall) = -1 \<and>
    hlc_compare h (hlc_on_receive h mp ml wall) = -1 \<and>
    hlc_compare \<lparr>hlc_physical_time_us = mp, hlc_logical_counter = ml\<rparr> (hlc_on_receive h mp ml wall) = -1 \<and>
    wall \<le> hlc_physical_time_us (hlc_on_receive h mp ml wall)"
proof -
  have inc: "x < x + 1" if "x \<noteq> - 1" for x :: "64 word"
  proof -
    have "1 + x \<noteq> 0" using that max_word_wrap [of x] by (auto simp: add.commute)
    then show ?thesis using unatSuc [of x] by (simp add: word_less_nat_alt add.commute)
  qed
  have "hlc_logical_counter h < hlc_logical_counter h + 1" and "ml < ml + 1"
    using inc assms by auto
  moreover have "a < b + 1" if "a \<le> b" "b \<noteq> - 1" for a b :: "64 word"
    using inc [OF that(2)] that(1) by (rule le_less_trans [rotated])
  ultimately show ?thesis
    using assms
    by (auto simp: hlc_compare_def hlc_update_def hlc_tick_def hlc_on_receive_def Let_def)
qed

theorem hlc_moves_forward_witness:
  "hlc_compare \<lparr>hlc_physical_time_us = 5, hlc_logical_counter = 3\<rparr>
     (hlc_on_receive \<lparr>hlc_physical_time_us = 5, hlc_logical_counter = 3\<rparr> 5 7 1) = -1"
  using hlc_moves_forward [of "\<lparr>hlc_physical_time_us = 5, hlc_logical_counter = 3\<rparr>" 7 1 5] by simp

section \<open>Divergences from the comments\<close>

text \<open>
  \<open>hlc_on_receive\<close> overwrites the physical part before it is compared, so the branch that resets the logical
  counter is dead: when the wall clock has overtaken both, the counter still grows.
\<close>

lemma hlc_receive_no_reset:
  assumes "hlc_physical_time_us h < wall" and "mp < wall"
  shows "hlc_on_receive h mp ml wall = \<lparr>hlc_physical_time_us = wall, hlc_logical_counter = hlc_logical_counter h + 1\<rparr>"
  using assms by (auto simp: hlc_on_receive_def Let_def)

end
