(* ===== verification/CircuitBreaker.thy ===== *)
theory CircuitBreaker
  imports Net_Prelude
begin

text \<open>
  The circuit breaker of the gateway (\<open>mini-gateway-proxy/src/circuit_breaker.c\<close>): the closed, open and
  half-open states, the counters that drive them and the guarded call.

  The wrapped function is a state transformer on a world \<open>'w\<close> that returns C's \<open>int\<close>. Each reading of
  the monotonic clock is an argument: \<open>clk_now\<close> is the reading of \<open>cb_call\<close>, \<open>clk_fail\<close> and \<open>clk_open\<close>
  are the two readings of \<open>cb_on_failure\<close>. The null breaker is \<open>None\<close>. Console output is not modelled.
\<close>

section \<open>Data\<close>

datatype CBCircuitState = CB_CLOSED | CB_OPEN | CB_HALF_OPEN

record CBCircuit =
  cb_state :: CBCircuitState
  failure_count :: int
  failure_threshold :: int
  success_count_in_half_open :: int
  success_threshold :: int
  half_open_max_requests :: int
  half_open_current_requests :: int
  cb_timeout_ms :: "64 word"
  last_failure_time :: timespec
  opened_at :: timespec
  total_successes :: int
  total_failures :: int
  total_rejected :: int
  cb_name :: string

record cb_clock =
  clk_now :: timespec
  clk_fail :: timespec
  clk_open :: timespec

section \<open>Operations\<close>

definition timespec_to_ms :: "timespec \<Rightarrow> 64 word" where
  "timespec_to_ms ts = word_of_int (tv_sec ts) * 1000 + word_of_int (tv_nsec ts) div 1000000"

definition elapsed_ms :: "timespec \<Rightarrow> timespec \<Rightarrow> 64 word" where
  "elapsed_ms start now =
     (let start_ms = timespec_to_ms start; now_ms = timespec_to_ms now
      in if now_ms > start_ms then now_ms - start_ms else 0)"

fun cb_state_name :: "CBCircuitState \<Rightarrow> string" where
  "cb_state_name CB_CLOSED = ''CLOSED''"
| "cb_state_name CB_OPEN = ''OPEN''"
| "cb_state_name CB_HALF_OPEN = ''HALF_OPEN''"

definition cb_init :: "string option \<Rightarrow> int \<Rightarrow> int \<Rightarrow> 64 word \<Rightarrow> CBCircuit" where
  "cb_init name ft st timeout_ms =
     \<lparr>cb_state = CB_CLOSED, failure_count = 0,
      failure_threshold = (if ft > 0 then ft else 5),
      success_count_in_half_open = 0,
      success_threshold = (if st > 0 then st else 3),
      half_open_max_requests = st, half_open_current_requests = 0,
      cb_timeout_ms = (if timeout_ms > 0 then timeout_ms else 30000),
      last_failure_time = \<lparr>tv_sec = 0, tv_nsec = 0\<rparr>, opened_at = \<lparr>tv_sec = 0, tv_nsec = 0\<rparr>,
      total_successes = 0, total_failures = 0, total_rejected = 0,
      cb_name = (case name of Some s \<Rightarrow> strncpy_z 128 s | None \<Rightarrow> [])\<rparr>"

definition cb_set_half_open_max :: "CBCircuit option \<Rightarrow> int \<Rightarrow> CBCircuit option" where
  "cb_set_half_open_max cb m = map_option (\<lambda>c. c\<lparr>half_open_max_requests := m\<rparr>) cb"

definition cb_is_open :: "CBCircuit option \<Rightarrow> bool" where
  "cb_is_open cb = (case cb of Some c \<Rightarrow> cb_state c = CB_OPEN | None \<Rightarrow> False)"

definition cb_on_success :: "CBCircuit \<Rightarrow> CBCircuit" where
  "cb_on_success c0 =
     (let c = c0\<lparr>total_successes := total_successes c0 + 1\<rparr>
      in case cb_state c of
           CB_CLOSED \<Rightarrow> c\<lparr>failure_count := 0\<rparr>
         | CB_HALF_OPEN \<Rightarrow>
             (let c' = c\<lparr>success_count_in_half_open := success_count_in_half_open c + 1\<rparr>
              in if success_count_in_half_open c' \<ge> success_threshold c'
                 then c'\<lparr>cb_state := CB_CLOSED, failure_count := 0, half_open_current_requests := 0\<rparr>
                 else c')
         | CB_OPEN \<Rightarrow> c)"

definition cb_on_failure :: "cb_clock \<Rightarrow> CBCircuit \<Rightarrow> CBCircuit" where
  "cb_on_failure k c0 =
     (let c = c0\<lparr>total_failures := total_failures c0 + 1, last_failure_time := clk_fail k\<rparr>
      in case cb_state c of
           CB_CLOSED \<Rightarrow>
             (let c' = c\<lparr>failure_count := failure_count c + 1\<rparr>
              in if failure_count c' \<ge> failure_threshold c'
                 then c'\<lparr>cb_state := CB_OPEN, opened_at := clk_open k, half_open_current_requests := 0\<rparr>
                 else c')
         | CB_HALF_OPEN \<Rightarrow>
             c\<lparr>cb_state := CB_OPEN, opened_at := clk_open k, half_open_current_requests := 0\<rparr>
         | CB_OPEN \<Rightarrow> c)"

text \<open>The call of \<open>func\<close> and the bookkeeping on its result, the block that occurs three times.\<close>

definition cb_attempt :: "cb_clock \<Rightarrow> ('w \<Rightarrow> int \<times> 'w) \<Rightarrow> CBCircuit \<Rightarrow> 'w \<Rightarrow> int \<times> CBCircuit \<times> 'w" where
  "cb_attempt k func c w =
     (let (ret, w') = func w
      in (ret, if ret = 0 then cb_on_success c else cb_on_failure k c, w'))"

definition cb_call :: "cb_clock \<Rightarrow> ('w \<Rightarrow> int \<times> 'w) \<Rightarrow> CBCircuit \<Rightarrow> 'w \<Rightarrow> int \<times> CBCircuit \<times> 'w" where
  "cb_call k func c w =
     (case cb_state c of
        CB_CLOSED \<Rightarrow> cb_attempt k func c w
      | CB_OPEN \<Rightarrow>
          (let elapsed = elapsed_ms (opened_at c) (clk_now k)
           in if elapsed \<ge> cb_timeout_ms c
              then let c1 = c\<lparr>cb_state := CB_HALF_OPEN, success_count_in_half_open := 0,
                              half_open_current_requests := 0\<rparr>;
                       c2 = c1\<lparr>half_open_current_requests := half_open_current_requests c1 + 1\<rparr>
                   in cb_attempt k func c2 w
              else (-1, c\<lparr>total_rejected := total_rejected c + 1\<rparr>, w))
      | CB_HALF_OPEN \<Rightarrow>
          (if half_open_current_requests c \<ge> half_open_max_requests c
           then (-1, c\<lparr>total_rejected := total_rejected c + 1\<rparr>, w)
           else cb_attempt k func
                  (c\<lparr>half_open_current_requests := half_open_current_requests c + 1\<rparr>) w))"

text \<open>The entry point on a pointer.\<close>

definition cb_call_ptr ::
    "cb_clock \<Rightarrow> ('w \<Rightarrow> int \<times> 'w) \<Rightarrow> CBCircuit option \<Rightarrow> 'w \<Rightarrow> int \<times> CBCircuit option \<times> 'w" where
  "cb_call_ptr k func cb w =
     (case cb of None \<Rightarrow> (-1, None, w)
      | Some c \<Rightarrow> (let (r, c', w') = cb_call k func c w in (r, Some c', w')))"

definition cb_reset :: "CBCircuit \<Rightarrow> CBCircuit" where
  "cb_reset c = c\<lparr>cb_state := CB_CLOSED, failure_count := 0, success_count_in_half_open := 0,
                  half_open_current_requests := 0\<rparr>"

section \<open>Sequences of calls\<close>

type_synonym 'w cb_request = "cb_clock \<times> ('w \<Rightarrow> int \<times> 'w)"

fun cb_run :: "'w cb_request list \<Rightarrow> CBCircuit \<Rightarrow> 'w \<Rightarrow> int list \<times> CBCircuit \<times> 'w" where
  "cb_run [] c w = ([], c, w)"
| "cb_run ((k, f) # rs) c w =
     (let (r, c', w') = cb_call k f c w; (out, c'', w'') = cb_run rs c' w' in (r # out, c'', w''))"

text \<open>The same requests sent to the service with no breaker in between.\<close>

fun direct_run :: "'w cb_request list \<Rightarrow> 'w \<Rightarrow> int list \<times> 'w" where
  "direct_run [] w = ([], w)"
| "direct_run ((k, f) # rs) w =
     (let (r, w') = f w; (out, w'') = direct_run rs w' in (r # out, w''))"

text \<open>\<open>streak n out\<close>: the run of failures that ends \<open>out\<close>, \<open>n\<close> of them before it started.\<close>

fun streak :: "int \<Rightarrow> int list \<Rightarrow> int" where
  "streak n [] = n"
| "streak n (r # rs) = streak (if r = 0 then 0 else n + 1) rs"

text \<open>No prefix of \<open>out\<close> ends in a run of \<open>t\<close> failures.\<close>

fun below_threshold :: "int \<Rightarrow> int \<Rightarrow> int list \<Rightarrow> bool" where
  "below_threshold t n [] \<longleftrightarrow> n < t"
| "below_threshold t n (r # rs) \<longleftrightarrow> n < t \<and> below_threshold t (if r = 0 then 0 else n + 1) rs"

lemmas cb_defs = cb_call_def cb_attempt_def cb_on_success_def cb_on_failure_def Let_def

section \<open>The closed breaker is transparent\<close>

lemma cb_call_closed_ok:
  "cb_state c = CB_CLOSED \<Longrightarrow> f w = (0, w') \<Longrightarrow>
   cb_call k f c w = (0, c\<lparr>total_successes := total_successes c + 1, failure_count := 0\<rparr>, w')"
  by (simp add: cb_defs)

lemma cb_call_closed_fail:
  "cb_state c = CB_CLOSED \<Longrightarrow> f w = (r, w') \<Longrightarrow> r \<noteq> 0 \<Longrightarrow>
   \<exists>c'. cb_call k f c w = (r, c', w') \<and> failure_threshold c' = failure_threshold c \<and>
     failure_count c' = failure_count c + 1 \<and> cb_timeout_ms c' = cb_timeout_ms c \<and>
     cb_state c' = (if failure_threshold c \<le> failure_count c + 1 then CB_OPEN else CB_CLOSED) \<and>
     (cb_state c' = CB_OPEN \<longrightarrow> opened_at c' = clk_open k)"
  by (simp add: cb_defs)

lemma below_thresholdD: "below_threshold t n rs \<Longrightarrow> n < t"
  by (cases rs) auto

lemma cb_run_transparent:
  assumes "cb_state c = CB_CLOSED" and "direct_run rs w = (out, w')"
    and "below_threshold (failure_threshold c) (failure_count c) out"
  shows "\<exists>c'. cb_run rs c w = (out, c', w') \<and> cb_state c' = CB_CLOSED \<and>
    failure_threshold c' = failure_threshold c \<and> cb_timeout_ms c' = cb_timeout_ms c \<and>
    failure_count c' = streak (failure_count c) out"
  using assms
proof (induction rs arbitrary: c w out)
  case Nil
  then show ?case by simp
next
  case (Cons q rs)
  obtain k f where q: "q = (k, f)" by (cases q)
  obtain r w1 where f: "f w = (r, w1)" by (cases "f w")
  obtain out' where d: "direct_run rs w1 = (out', w')" "out = r # out'"
    using Cons.prems(2) by (auto simp: q f split: prod.splits)
  show ?case
  proof (cases "r = 0")
    case True
    let ?c = "c\<lparr>total_successes := total_successes c + 1, failure_count := 0\<rparr>"
    have "cb_call k f c w = (0, ?c, w1)" using Cons.prems(1) f True by (intro cb_call_closed_ok) auto
    moreover have "\<exists>c'. cb_run rs ?c w1 = (out', c', w') \<and> cb_state c' = CB_CLOSED \<and>
        failure_threshold c' = failure_threshold c \<and> cb_timeout_ms c' = cb_timeout_ms c \<and>
        failure_count c' = streak 0 out'"
      using Cons.IH [of ?c w1 out'] Cons.prems d True by simp
    ultimately show ?thesis using d True by (auto simp: q)
  next
    case False
    from cb_call_closed_fail [of c f w r w1 k] Cons.prems(1) f False obtain c1 where
      c1: "cb_call k f c w = (r, c1, w1)" "failure_threshold c1 = failure_threshold c"
        "failure_count c1 = failure_count c + 1" "cb_timeout_ms c1 = cb_timeout_ms c"
        "cb_state c1 = (if failure_threshold c \<le> failure_count c + 1 then CB_OPEN else CB_CLOSED)"
      by blast
    have b: "below_threshold (failure_threshold c) (failure_count c + 1) out'"
      using Cons.prems(3) d(2) False by simp
    then have "cb_state c1 = CB_CLOSED" using c1(5) below_thresholdD [OF b] by simp
    with Cons.IH [of c1 w1 out'] c1 d b show ?thesis using False by (auto simp: q)
  qed
qed

lemma cb_run_append:
  "cb_run (rs @ qs) c w =
     (let (o1, c1, w1) = cb_run rs c w; (o2, c2, w2) = cb_run qs c1 w1 in (o1 @ o2, c2, w2))"
  by (induction rs arbitrary: c w) (auto simp: Let_def split: prod.splits)

section \<open>The open breaker shields the service\<close>

lemma cb_call_rejects:
  "cb_state c = CB_OPEN \<Longrightarrow> elapsed_ms (opened_at c) (clk_now k) < cb_timeout_ms c \<Longrightarrow>
   cb_call k f c w = (-1, c\<lparr>total_rejected := total_rejected c + 1\<rparr>, w)"
  by (auto simp: cb_call_def Let_def)

lemma cb_run_rejects:
  assumes "cb_state c = CB_OPEN"
    and "\<forall>q \<in> set rs. elapsed_ms (opened_at c) (clk_now (fst q)) < cb_timeout_ms c"
  shows "cb_run rs c w =
    (replicate (length rs) (-1), c\<lparr>total_rejected := total_rejected c + int (length rs)\<rparr>, w)"
  using assms
proof (induction rs arbitrary: c)
  case (Cons q rs)
  obtain k f where q: "q = (k, f)" by (cases q)
  let ?c = "c\<lparr>total_rejected := total_rejected c + 1\<rparr>"
  have "cb_call k f c w = (-1, ?c, w)"
    using Cons.prems q by (intro cb_call_rejects) auto
  moreover have "cb_run rs ?c w =
      (replicate (length rs) (-1), ?c\<lparr>total_rejected := total_rejected ?c + int (length rs)\<rparr>, w)"
    using Cons.prems by (intro Cons.IH) auto
  ultimately show ?case by (simp add: q algebra_simps)
qed simp

text \<open>
  Milliseconds of a sane reading: no wrap-around below \<open>2^64\<close>.
\<close>

definition ts_ms :: "timespec \<Rightarrow> nat" where
  "ts_ms t = nat (tv_sec t) * 1000 + nat (tv_nsec t) div 1000000"

definition sane_ts :: "timespec \<Rightarrow> bool" where
  "sane_ts t \<longleftrightarrow> 0 \<le> tv_sec t \<and> tv_sec t < 2 ^ 53 \<and> 0 \<le> tv_nsec t \<and> tv_nsec t < 1000000000"

lemma unat_timespec_to_ms:
  assumes "sane_ts t"
  shows "unat (timespec_to_ms t) = ts_ms t"
proof -
  have s: "tv_sec t = int (nat (tv_sec t))" "nat (tv_sec t) < 2 ^ 53" using assms by (auto simp: sane_ts_def)
  have n: "tv_nsec t = int (nat (tv_nsec t))" "nat (tv_nsec t) < 1000000000"
    using assms by (auto simp: sane_ts_def)
  have ws: "(word_of_int (tv_sec t) :: 64 word) = of_nat (nat (tv_sec t))"
    by (subst s(1)) simp
  have wn: "(word_of_int (tv_nsec t) :: 64 word) = of_nat (nat (tv_nsec t))"
    by (subst n(1)) simp
  have us: "unat (of_nat (nat (tv_sec t)) :: 64 word) = nat (tv_sec t)"
    using s(2) by (simp add: unat_of_nat)
  have un: "unat (of_nat (nat (tv_nsec t)) :: 64 word) = nat (tv_nsec t)"
    using n(2) by (simp add: unat_of_nat)
  show ?thesis
    using s(2) n(2)
    by (simp add: timespec_to_ms_def ts_ms_def ws wn unat_word_ariths us un unat_div_distrib)
qed

lemma unat_elapsed_ms:
  assumes "sane_ts s" and "sane_ts t"
  shows "unat (elapsed_ms s t) = ts_ms t - ts_ms s"
proof (cases "timespec_to_ms t > timespec_to_ms s")
  case True
  then have "unat (timespec_to_ms t - timespec_to_ms s) = unat (timespec_to_ms t) - unat (timespec_to_ms s)"
    by (intro unat_sub) simp
  with True show ?thesis by (simp add: elapsed_ms_def unat_timespec_to_ms assms)
next
  case False
  then have "ts_ms t \<le> ts_ms s"
    by (simp add: not_less word_le_nat_alt unat_timespec_to_ms assms)
  with False show ?thesis by (simp add: elapsed_ms_def)
qed

lemma within_timeout:
  "sane_ts s \<Longrightarrow> sane_ts t \<Longrightarrow>
   elapsed_ms s t < x \<longleftrightarrow> ts_ms t - ts_ms s < unat x"
  by (simp add: word_less_nat_alt unat_elapsed_ms)

section \<open>Recovery\<close>

text \<open>Requests that the service answers with success whatever its state.\<close>

definition all_succeed :: "'w cb_request list \<Rightarrow> bool" where
  "all_succeed rs \<longleftrightarrow> (\<forall>q \<in> set rs. \<forall>w. fst (snd q w) = 0)"

lemma all_succeed_Cons: "all_succeed ((k, f) # rs) \<longleftrightarrow> (\<forall>w. \<exists>w'. f w = (0, w')) \<and> all_succeed rs"
  by (auto simp: all_succeed_def) (metis prod.collapse, metis fst_conv)

lemma all_succeed_direct: "all_succeed rs \<Longrightarrow> fst (direct_run rs w) = replicate (length rs) 0"
proof (induction rs arbitrary: w)
  case (Cons q rs)
  obtain k f where q: "q = (k, f)" by (cases q)
  with Cons.prems obtain w' where "f w = (0, w')" by (auto simp: all_succeed_Cons)
  with Cons.IH [of w'] Cons.prems q show ?case by (auto simp: all_succeed_Cons split: prod.splits)
qed simp

lemma below_threshold_replicate: "0 < t \<Longrightarrow> n < t \<Longrightarrow> below_threshold t n (replicate m 0)"
  by (induction m arbitrary: n) auto

lemma cb_run_closed_succeed:
  assumes "cb_state c = CB_CLOSED" and "all_succeed rs" and "failure_count c < failure_threshold c"
    and "0 < failure_threshold c"
  shows "fst (cb_run rs c w) = replicate (length rs) 0" and "cb_state (fst (snd (cb_run rs c w))) = CB_CLOSED"
    and "snd (snd (cb_run rs c w)) = snd (direct_run rs w)"
proof -
  obtain out w' where d: "direct_run rs w = (out, w')" by (cases "direct_run rs w")
  have out: "out = replicate (length rs) 0" using all_succeed_direct [OF assms(2), of w] d by simp
  have "\<exists>c'. cb_run rs c w = (out, c', w') \<and> cb_state c' = CB_CLOSED"
    using cb_run_transparent [OF assms(1) d] out assms(3,4) below_threshold_replicate by blast
  then show "fst (cb_run rs c w) = replicate (length rs) 0" "cb_state (fst (snd (cb_run rs c w))) = CB_CLOSED"
    "snd (snd (cb_run rs c w)) = snd (direct_run rs w)" using out d by auto
qed

text \<open>What the breaker keeps between calls, \<open>m\<close> being its limit of half-open probes.\<close>

definition cb_inv :: "int \<Rightarrow> CBCircuit \<Rightarrow> bool" where
  "cb_inv m c \<longleftrightarrow> 0 < failure_threshold c \<and> 0 < success_threshold c \<and> half_open_max_requests c = m \<and>
     success_threshold c = (if m > 0 then m else 3) \<and>
     (cb_state c = CB_CLOSED \<longrightarrow> failure_count c < failure_threshold c) \<and>
     (cb_state c = CB_HALF_OPEN \<longrightarrow>
        success_count_in_half_open c = half_open_current_requests c \<and>
        0 < half_open_current_requests c \<and> half_open_current_requests c < success_threshold c)"

inductive cb_step :: "CBCircuit \<times> 'w \<Rightarrow> CBCircuit \<times> 'w \<Rightarrow> bool" where
  cb_step_call: "cb_step (c, w) (snd (cb_call k f c w))"
| cb_step_reset: "cb_step (c, w) (cb_reset c, w)"

inductive_cases cb_stepE: "cb_step s t"

definition cb_fresh :: "int \<Rightarrow> CBCircuit \<times> 'w \<Rightarrow> bool" where
  "cb_fresh m s \<longleftrightarrow> (\<exists>name ft to. fst s = cb_init name ft m to)"

lemma cb_inv_success: "cb_state c = CB_CLOSED \<Longrightarrow> cb_inv m c \<Longrightarrow> cb_inv m (cb_on_success c)"
  by (simp add: cb_inv_def cb_on_success_def)

lemma cb_inv_failure: "cb_state c = CB_CLOSED \<Longrightarrow> cb_inv m c \<Longrightarrow> cb_inv m (cb_on_failure k c)"
  by (simp add: cb_inv_def cb_on_failure_def Let_def)

text \<open>The state in which a half-open probe is made: the probe is counted before its result is known.\<close>

definition probing :: "int \<Rightarrow> CBCircuit \<Rightarrow> bool" where
  "probing m c \<longleftrightarrow> cb_state c = CB_HALF_OPEN \<and> 0 < failure_threshold c \<and> 0 < success_threshold c \<and>
     half_open_max_requests c = m \<and> success_threshold c = (if m > 0 then m else 3) \<and>
     half_open_current_requests c = success_count_in_half_open c + 1 \<and>
     0 \<le> success_count_in_half_open c \<and> success_count_in_half_open c < success_threshold c"

lemma probing_success: "probing m c \<Longrightarrow> cb_inv m (cb_on_success c)"
  by (simp add: cb_inv_def cb_on_success_def Let_def probing_def)

lemma probing_failure: "probing m c \<Longrightarrow> cb_inv m (cb_on_failure k c)"
  by (simp add: cb_inv_def cb_on_failure_def Let_def probing_def)

lemma probing_open:
  "cb_inv m c \<Longrightarrow> cb_state c = CB_OPEN \<Longrightarrow>
   probing m (c\<lparr>cb_state := CB_HALF_OPEN, success_count_in_half_open := 0, half_open_current_requests := 1\<rparr>)"
  by (simp add: cb_inv_def probing_def)

lemma probing_half_open:
  "cb_inv m c \<Longrightarrow> cb_state c = CB_HALF_OPEN \<Longrightarrow>
   probing m (c\<lparr>half_open_current_requests := half_open_current_requests c + 1\<rparr>)"
  by (simp add: cb_inv_def probing_def)

lemma probing_attempt: "probing m c \<Longrightarrow> cb_inv m (fst (snd (cb_attempt k f c w)))"
  by (simp add: cb_attempt_def probing_success probing_failure split: prod.splits)

lemma cb_inv_rejected: "cb_inv m c \<Longrightarrow> cb_inv m (c\<lparr>total_rejected := x\<rparr>)"
  by (auto simp: cb_inv_def)

lemma cb_inv_call:
  assumes "cb_inv m c"
  shows "cb_inv m (fst (snd (cb_call k f c w)))"
proof (cases "cb_state c")
  case CB_CLOSED
  then show ?thesis
    using assms cb_inv_success cb_inv_failure by (simp add: cb_call_def cb_attempt_def split: prod.splits)
next
  case CB_OPEN
  then show ?thesis
    using assms by (auto simp: cb_call_def Let_def intro: probing_attempt probing_open cb_inv_rejected)
next
  case CB_HALF_OPEN
  then show ?thesis
    using assms by (auto simp: cb_call_def intro: probing_attempt probing_half_open cb_inv_rejected)
qed

lemma cb_inv_reset: "cb_inv m c \<Longrightarrow> cb_inv m (cb_reset c)"
  by (simp add: cb_inv_def cb_reset_def)

interpretation breaker: invariant_system "cb_fresh m" cb_step "\<lambda>s. cb_inv m (fst s)" for m
proof
  fix s :: "CBCircuit \<times> 'w" assume "cb_fresh m s"
  then show "cb_inv m (fst s)" by (auto simp: cb_fresh_def cb_init_def cb_inv_def)
next
  fix s t :: "CBCircuit \<times> 'w" assume "cb_inv m (fst s)" "cb_step s t"
  then show "cb_inv m (fst t)" by (auto elim!: cb_stepE intro: cb_inv_call cb_inv_reset)
qed

lemma cb_probe_success:
  assumes "probing m c" and "f w = (0, w')"
  shows "\<exists>c'. cb_attempt k f c w = (0, c', w') \<and>
    (if success_count_in_half_open c + 1 < success_threshold c
     then cb_state c' = CB_HALF_OPEN \<and> half_open_current_requests c' = half_open_current_requests c
     else cb_state c' = CB_CLOSED)"
  using assms by (simp add: cb_attempt_def cb_on_success_def Let_def probing_def)

text \<open>All the requests reach the service, succeed, and the breaker ends closed.\<close>

definition served :: "'w cb_request list \<Rightarrow> CBCircuit \<Rightarrow> 'w \<Rightarrow> bool" where
  "served rs c w \<longleftrightarrow> fst (cb_run rs c w) = replicate (length rs) 0 \<and>
     cb_state (fst (snd (cb_run rs c w))) = CB_CLOSED \<and>
     snd (snd (cb_run rs c w)) = snd (direct_run rs w)"

lemma served_Cons:
  "cb_call k f c w = (0, c', w') \<Longrightarrow> f w = (0, w') \<Longrightarrow> served rs c' w' \<Longrightarrow> served ((k, f) # rs) c w"
  by (auto simp: served_def split: prod.splits)

lemma served_closed:
  assumes "cb_inv m c" and "cb_state c = CB_CLOSED" and "all_succeed rs"
  shows "served rs c w"
  using cb_run_closed_succeed [OF assms(2,3)] assms(1,2) by (auto simp: cb_inv_def served_def)

lemma cb_run_probes:
  assumes "cb_inv m c" and "0 < m" and "cb_state c = CB_HALF_OPEN" and "all_succeed rs"
    and "m \<le> half_open_current_requests c + int (length rs)"
  shows "served rs c w"
  using assms
proof (induction rs arbitrary: c w)
  case Nil
  then show ?case by (simp add: cb_inv_def)
next
  case (Cons q rs c w)
  obtain k f where q: "q = (k, f)" by (cases q)
  with Cons.prems(4) obtain w' where f: "f w = (0, w')" and ok: "all_succeed rs"
    by (auto simp: all_succeed_Cons)
  let ?c = "c\<lparr>half_open_current_requests := half_open_current_requests c + 1\<rparr>"
  have lt: "half_open_current_requests c < half_open_max_requests c"
    using Cons.prems(1,2,3) by (simp add: cb_inv_def)
  have call: "cb_call k f c w = cb_attempt k f ?c w"
    using Cons.prems(3) lt by (simp add: cb_call_def)
  have p: "probing m ?c" using Cons.prems(1,3) by (rule probing_half_open)
  obtain c' where c': "cb_call k f c w = (0, c', w')"
    and st: "if success_count_in_half_open c + 1 < success_threshold c
        then cb_state c' = CB_HALF_OPEN \<and> half_open_current_requests c' = half_open_current_requests c + 1
        else cb_state c' = CB_CLOSED"
    using cb_probe_success [OF p, of f w w' k] f call by auto
  have inv: "cb_inv m c'" using cb_inv_call [OF Cons.prems(1), of k f w] c' by simp
  have "served rs c' w'"
  proof (cases "cb_state c' = CB_HALF_OPEN")
    case True
    then have "half_open_current_requests c' = half_open_current_requests c + 1" using st by (auto split: if_splits)
    then show ?thesis using Cons.IH [OF inv Cons.prems(2) True ok, of w'] Cons.prems(5) by simp
  next
    case False
    then have "cb_state c' = CB_CLOSED" using st by (auto split: if_splits)
    then show ?thesis using inv ok by (blast intro: served_closed)
  qed
  then show ?case unfolding q by (rule served_Cons [OF c' f])
qed

lemma cb_run_timed_out:
  assumes "cb_inv m c" and "0 < m" and "cb_state c = CB_OPEN" and "all_succeed rs" and "m \<le> int (length rs)"
    and "cb_timeout_ms c \<le> elapsed_ms (opened_at c) (clk_now (fst (hd rs)))"
  shows "served rs c w"
proof (cases rs)
  case Nil
  then show ?thesis using assms by simp
next
  case (Cons q qs)
  obtain k f where q: "q = (k, f)" by (cases q)
  with assms(4) Cons obtain w' where f: "f w = (0, w')" and ok: "all_succeed qs"
    by (auto simp: all_succeed_Cons)
  let ?c = "c\<lparr>cb_state := CB_HALF_OPEN, success_count_in_half_open := 0, half_open_current_requests := 1\<rparr>"
  have call: "cb_call k f c w = cb_attempt k f ?c w"
    using assms(3,6) Cons q by (simp add: cb_call_def Let_def)
  obtain c' where c': "cb_call k f c w = (0, c', w')"
    and st: "if 1 < success_threshold c
        then cb_state c' = CB_HALF_OPEN \<and> half_open_current_requests c' = 1
        else cb_state c' = CB_CLOSED"
    using cb_probe_success [OF probing_open [OF assms(1,3)], of f w w' k] f call by auto
  have inv: "cb_inv m c'" using cb_inv_call [OF assms(1), of k f w] c' by simp
  have "served qs c' w'"
  proof (cases "cb_state c' = CB_HALF_OPEN")
    case True
    then have "half_open_current_requests c' = 1" using st by (auto split: if_splits)
    then show ?thesis using cb_run_probes [OF inv assms(2) True ok, of w'] assms(5) Cons by simp
  next
    case False
    then have "cb_state c' = CB_CLOSED" using st by (auto split: if_splits)
    then show ?thesis using inv ok by (blast intro: served_closed)
  qed
  then show ?thesis unfolding Cons q by (rule served_Cons [OF c' f])
qed

section \<open>The half-open trap\<close>

lemma cb_run_trapped:
  assumes "cb_state c = CB_HALF_OPEN" and "half_open_max_requests c \<le> half_open_current_requests c"
  shows "cb_run rs c w =
    (replicate (length rs) (-1), c\<lparr>total_rejected := total_rejected c + int (length rs)\<rparr>, w)"
  using assms
proof (induction rs arbitrary: c)
  case (Cons q rs)
  obtain k f where q: "q = (k, f)" by (cases q)
  let ?c = "c\<lparr>total_rejected := total_rejected c + 1\<rparr>"
  have "cb_call k f c w = (-1, ?c, w)" using Cons.prems by (simp add: cb_call_def)
  moreover have "cb_run rs ?c w =
      (replicate (length rs) (-1), ?c\<lparr>total_rejected := total_rejected ?c + int (length rs)\<rparr>, w)"
    using Cons.prems by (intro Cons.IH) auto
  ultimately show ?case by (simp add: q algebra_simps)
qed simp

section \<open>Properties\<close>

text \<open>
  The breaker is transparent until \<open>failure_threshold\<close> calls fail in a row, and then opens. Let \<open>rs\<close> be
  requests whose answers, sent directly to the service, contain no such run: through a closed breaker
  they get the same answers, leave the service in the same state and the breaker closed. If one more
  request fails and completes the run, it still gets its own answer and leaves the breaker open,
  stamped with that call's clock reading; if it does not complete the run, the breaker stays closed.
\<close>

theorem cb_opens_at_threshold:
  fixes w :: 'w
  assumes "cb_state c = CB_CLOSED" and "direct_run rs w = (out, w1)"
    and "below_threshold (failure_threshold c) (failure_count c) out"
    and "f w1 = (r, w2)"
  shows "\<exists>c'. cb_run (rs @ [(k, f)]) c w = (out @ [r], c', w2) \<and>
    (if failure_threshold c \<le> streak (failure_count c) (out @ [r]) \<and> r \<noteq> 0
     then cb_state c' = CB_OPEN \<and> opened_at c' = clk_open k
     else cb_state c' = CB_CLOSED)"
proof -
  obtain c1 where c1: "cb_run rs c w = (out, c1, w1)" "cb_state c1 = CB_CLOSED"
      "failure_threshold c1 = failure_threshold c" "failure_count c1 = streak (failure_count c) out"
    using cb_run_transparent [OF assms(1-3)] by blast
  have s: "streak n (out @ [r]) = (if r = 0 then 0 else streak n out + 1)" for n
    by (induction out arbitrary: n) auto
  show ?thesis
  proof (cases "r = 0")
    case True
    then show ?thesis
      using cb_call_closed_ok [of c1 f w1 w2 k] c1 assms(4) by (simp add: cb_run_append)
  next
    case False
    then show ?thesis
      using cb_call_closed_fail [of c1 f w1 r w2 k] c1 assms(4) by (auto simp: cb_run_append s)
  qed
qed

definition demo_clock :: "int \<Rightarrow> cb_clock" where
  "demo_clock t = \<lparr>clk_now = \<lparr>tv_sec = t, tv_nsec = 0\<rparr>, clk_fail = \<lparr>tv_sec = t, tv_nsec = 1000000\<rparr>,
     clk_open = \<lparr>tv_sec = t, tv_nsec = 2000000\<rparr>\<rparr>"

definition demo_service :: "int \<Rightarrow> nat \<Rightarrow> int \<times> nat" where
  "demo_service r n = (r, Suc n)"

theorem cb_opens_at_threshold_witness:
  "\<exists>c'. cb_run ([(demo_clock 1, demo_service 7), (demo_clock 2, demo_service 0), (demo_clock 3, demo_service 7)] @
      [(demo_clock 4, demo_service 9)]) (cb_init (Some ''svc'') 2 2 1000) 0 = ([7, 0, 7] @ [9], c', 4) \<and>
    cb_state c' = CB_OPEN \<and> opened_at c' = \<lparr>tv_sec = 4, tv_nsec = 2000000\<rparr>"
  using cb_opens_at_threshold [of "cb_init (Some ''svc'') 2 2 1000"
      "[(demo_clock 1, demo_service 7), (demo_clock 2, demo_service 0), (demo_clock 3, demo_service 7)]" 0
      "[7, 0, 7]" 3 "demo_service 9" 9 4 "demo_clock 4"]
  by (simp add: cb_init_def demo_service_def demo_clock_def)

text \<open>
  C14. An open breaker with a positive timeout shields the service until this timeout: whatever requests arrive less than
  \<open>timeout_ms\<close> milliseconds after it opened, each is answered \<open>-1\<close> at once, the service is never called
  (its state is untouched) and the breaker itself only counts the rejections. Time is measured on
  clock readings of non-negative seconds below \<open>2^53\<close>, where the 64-bit arithmetic does not wrap.
\<close>

theorem cb_open_shields_service:
  assumes "cb_state c = CB_OPEN" and "sane_ts (opened_at c)"
    and "\<forall>q \<in> set rs. sane_ts (clk_now (fst q)) \<and>
      ts_ms (clk_now (fst q)) < ts_ms (opened_at c) + unat (cb_timeout_ms c)"
    and "0 < cb_timeout_ms c"
  shows "cb_run rs c w =
    (replicate (length rs) (-1), c\<lparr>total_rejected := total_rejected c + int (length rs)\<rparr>, w)"
proof (rule cb_run_rejects [OF assms(1)], rule ballI)
  fix q assume q: "q \<in> set rs"
  have "0 < unat (cb_timeout_ms c)" using assms(4) by (simp add: word_less_nat_alt)
  then have "ts_ms (clk_now (fst q)) - ts_ms (opened_at c) < unat (cb_timeout_ms c)"
    using assms(3) q by fastforce
  then show "elapsed_ms (opened_at c) (clk_now (fst q)) < cb_timeout_ms c"
    using assms(2,3) q by (simp add: within_timeout)
qed

theorem cb_open_shields_service_witness:
  "cb_run [(demo_clock 4, demo_service 0), (demo_clock 5, demo_service 3)]
     ((cb_init None 1 1 5000)\<lparr>cb_state := CB_OPEN, opened_at := \<lparr>tv_sec = 3, tv_nsec = 0\<rparr>\<rparr>) 0 =
   ([-1, -1], (cb_init None 1 1 5000)\<lparr>cb_state := CB_OPEN, opened_at := \<lparr>tv_sec = 3, tv_nsec = 0\<rparr>,
      total_rejected := 2\<rparr>, 0)"
  using cb_open_shields_service [of
      "(cb_init None 1 1 5000)\<lparr>cb_state := CB_OPEN, opened_at := \<lparr>tv_sec = 3, tv_nsec = 0\<rparr>\<rparr>"
      "[(demo_clock 4, demo_service 0), (demo_clock 5, demo_service 3)]" 0]
  by (simp add: cb_init_def demo_clock_def sane_ts_def ts_ms_def)

text \<open>
  C31. A breaker created with a positive success threshold \<open>m\<close> recovers. From any state reached by calls
  and resets, once the timeout has passed (if it is open), \<open>m\<close> or more requests that the service
  answers with success are all let through with the service's own answers and leave it closed.
\<close>

theorem cb_recovers:
  fixes w :: 'w
  assumes "reach (cb_fresh m) cb_step (c, w)" and "0 < m" and "all_succeed rs" and "m \<le> int (length rs)"
    and "cb_state c = CB_OPEN \<longrightarrow> cb_timeout_ms c \<le> elapsed_ms (opened_at c) (clk_now (fst (hd rs)))"
  shows "fst (cb_run rs c w) = replicate (length rs) 0 \<and>
    cb_state (fst (snd (cb_run rs c w))) = CB_CLOSED \<and>
    snd (snd (cb_run rs c w)) = snd (direct_run rs w)"
proof -
  have inv: "cb_inv m c" using breaker.reach_inv [OF assms(1)] by simp
  have "served rs c w"
  proof (cases "cb_state c")
    case CB_CLOSED
    then show ?thesis using inv assms(3) by (blast intro: served_closed)
  next
    case CB_OPEN
    then show ?thesis using inv assms by (intro cb_run_timed_out [of m]) auto
  next
    case CB_HALF_OPEN
    then have "0 < half_open_current_requests c" using inv by (simp add: cb_inv_def)
    then show ?thesis using inv assms CB_HALF_OPEN by (intro cb_run_probes [of m]) auto
  qed
  then show ?thesis by (simp add: served_def)
qed

lemma cb_reach_first: "reach (cb_fresh m) cb_step (snd (cb_call k f (cb_init name ft m to) w))"
proof (rule reach_step)
  show "reach (cb_fresh m) cb_step (cb_init name ft m to, w)" by (rule reach_init) (auto simp: cb_fresh_def)
  show "cb_step (cb_init name ft m to, w) (snd (cb_call k f (cb_init name ft m to) w))" by (rule cb_step_call)
qed

lemma demo_tripped: "reach (cb_fresh 2) cb_step (snd (cb_call (demo_clock 3) (demo_service 1) (cb_init None 1 2 5000) 0))"
  by (rule cb_reach_first)

lemma demo_succeeds: "all_succeed [(demo_clock 9, demo_service 0), (demo_clock 10, demo_service 0)]"
  by (simp add: all_succeed_def demo_service_def)

theorem cb_recovers_witness:
  "fst (cb_run [(demo_clock 9, demo_service 0), (demo_clock 10, demo_service 0)]
     (fst (snd (cb_call (demo_clock 3) (demo_service 1) (cb_init None 1 2 5000) 0))) 1) = [0, 0]"
proof -
  let ?c = "fst (snd (cb_call (demo_clock 3) (demo_service 1) (cb_init None 1 2 5000) (0 :: nat)))"
  have w: "snd (cb_call (demo_clock 3) (demo_service 1) (cb_init None 1 2 5000) 0) = (?c, 1)"
    by (simp add: cb_defs cb_init_def demo_service_def)
  have t: "cb_timeout_ms ?c \<le> elapsed_ms (opened_at ?c) (clk_now (demo_clock 9))"
    by (simp add: cb_defs cb_init_def demo_service_def demo_clock_def elapsed_ms_def timespec_to_ms_def)
  show ?thesis
    using cb_recovers [of 2 ?c 1, OF _ _ demo_succeeds] demo_tripped w t by simp
qed

text \<open>
  \<open>cb_init\<close> replaces a success threshold \<open>st \<le> 0\<close> by 3 but takes the limit of half-open probes from
  the raw argument, so such a breaker never recovers: once it has opened and the timeout has passed,
  the first successful probe leaves it half-open, and from then on it answers \<open>-1\<close> to every request,
  whatever the service and the clock say, until it is reset by hand.
\<close>

theorem cb_half_open_trap:
  fixes w :: 'w
  assumes "reach (cb_fresh st) cb_step (c, w)" and "st \<le> 0"
    and "cb_state c = CB_OPEN" and "cb_timeout_ms c \<le> elapsed_ms (opened_at c) (clk_now k)"
    and "f w = (0, w')"
  shows "\<exists>c'. cb_call k f c w = (0, c', w') \<and> cb_state c' = CB_HALF_OPEN \<and>
    (\<forall>rs. \<exists>c''. cb_run rs c' w' = (replicate (length rs) (-1), c'', w') \<and> cb_state c'' = CB_HALF_OPEN)"
proof -
  have inv: "cb_inv st c" using breaker.reach_inv [OF assms(1)] by simp
  let ?c = "c\<lparr>cb_state := CB_HALF_OPEN, success_count_in_half_open := 0, half_open_current_requests := 1\<rparr>"
  have call: "cb_call k f c w = cb_attempt k f ?c w"
    using assms(3,4) by (simp add: cb_call_def Let_def)
  let ?d = "cb_on_success ?c"
  have "cb_call k f c w = (0, ?d, w')" using call assms(5) by (simp add: cb_attempt_def)
  moreover have d: "cb_state ?d = CB_HALF_OPEN" "half_open_max_requests ?d \<le> half_open_current_requests ?d"
    using inv assms(2) by (simp_all add: cb_on_success_def cb_inv_def)
  moreover have "\<exists>c''. cb_run rs ?d w' = (replicate (length rs) (-1), c'', w') \<and> cb_state c'' = CB_HALF_OPEN" for rs
    using cb_run_trapped [OF d, of rs w'] d(1) by simp
  ultimately show ?thesis by blast
qed

theorem cb_half_open_trap_witness:
  "\<exists>c'. cb_call (demo_clock 9) (demo_service 0)
     (fst (snd (cb_call (demo_clock 3) (demo_service 1) (cb_init None 1 0 5000) 0))) 1 = (0, c', 2) \<and>
     cb_state c' = CB_HALF_OPEN \<and>
     (\<forall>rs. \<exists>c''. cb_run rs c' (2 :: nat) = (replicate (length rs) (-1), c'', 2) \<and> cb_state c'' = CB_HALF_OPEN)"
proof -
  let ?c = "fst (snd (cb_call (demo_clock 3) (demo_service 1) (cb_init None 1 0 5000) (0 :: nat)))"
  have w: "snd (cb_call (demo_clock 3) (demo_service 1) (cb_init None 1 0 5000) 0) = (?c, 1)"
    by (simp add: cb_defs cb_init_def demo_service_def)
  have r: "reach (cb_fresh 0) cb_step (?c, 1 :: nat)"
    using cb_reach_first [of 0 "demo_clock 3" "demo_service 1" None 1 5000 0] by (subst (asm) w)
  have t: "cb_timeout_ms ?c \<le> elapsed_ms (opened_at ?c) (clk_now (demo_clock 9))"
    by (simp add: cb_defs cb_init_def demo_service_def demo_clock_def elapsed_ms_def timespec_to_ms_def)
  have "cb_state ?c = CB_OPEN"
    by (simp add: cb_defs cb_init_def demo_service_def)
  moreover have "demo_service 0 1 = (0, 2)" by (simp add: demo_service_def)
  ultimately show ?thesis by (rule cb_half_open_trap [OF r order_refl _ t])
qed

end
