(* ===== verification/Paxos.thy ===== *)
theory Paxos
  imports Net_Prelude
begin

text \<open>
  Single-decree Paxos and its multi-Paxos wrapper (\<open>mini-dist-protocol/src/paxos.c\<close>): acceptor handlers,
  the two proposer phases, a full instance, and the leader and replication calls.

  The first \<open>node_count\<close> slots of the arrays of a cluster are lists, so the parameter \<open>n\<close> of the phases is
  the length of the acceptor list. Proposal numbers are 64-bit words. The file's static variables
  (\<open>multi_paxos_log\<close>, its counter, \<open>multi_paxos_leader\<close>) are the record \<open>multi_paxos\<close>.

  Two views are verified: whole instances run one after the other, as \<open>paxos_run_instance\<close> runs them,
  and a message-level system in which the two acceptor handlers are called by any number of proposers
  in any order, with messages lost or delayed.
\<close>

section \<open>Data\<close>

definition PAXOS_MAX_LOG_ENTRIES :: nat where "PAXOS_MAX_LOG_ENTRIES = 512"

record PaxosProposer =
  proposer_id :: int
  proposal_num :: "64 word"
  pr_value :: int

record PaxosAcceptor =
  acceptor_id :: int
  promised_num :: "64 word"
  accepted_num :: "64 word"
  accepted_value :: int
  has_accepted :: bool

record PaxosLearner =
  learner_id :: int
  learned_value :: int
  learned_round :: "64 word"
  has_learned :: bool

record PaxosCluster =
  proposers :: "PaxosProposer list"
  acceptors :: "PaxosAcceptor list"
  learners :: "PaxosLearner list"
  node_count :: nat
  px_quorum :: nat

record multi_paxos =
  mp_log :: "int list"
  mp_leader :: int

section \<open>Operations\<close>

definition paxos_reset_proposer :: "int \<Rightarrow> PaxosProposer" where
  "paxos_reset_proposer i = \<lparr>proposer_id = i, proposal_num = 0, pr_value = 0\<rparr>"

definition paxos_init_cluster :: "nat \<Rightarrow> PaxosCluster" where
  "paxos_init_cluster n =
     \<lparr>proposers = map (\<lambda>i. \<lparr>proposer_id = int i, proposal_num = 0, pr_value = 0\<rparr>) [0..<n],
      acceptors = map (\<lambda>i. \<lparr>acceptor_id = int i, promised_num = 0, accepted_num = 0,
                             accepted_value = 0, has_accepted = False\<rparr>) [0..<n],
      learners = map (\<lambda>i. \<lparr>learner_id = int i, learned_value = 0, learned_round = 0,
                            has_learned = False\<rparr>) [0..<n],
      node_count = n, px_quorum = n div 2 + 1\<rparr>"

text \<open>A reply carries the acceptor's previous vote; \<open>None\<close> is the refusal (the handler's \<open>false\<close>).\<close>

type_synonym reply = "64 word \<times> int \<times> bool"

definition paxos_promise :: "PaxosAcceptor \<Rightarrow> 64 word \<Rightarrow> (PaxosAcceptor \<times> reply) option" where
  "paxos_promise a num =
     (if num \<le> promised_num a then None
      else Some (a\<lparr>promised_num := num\<rparr>, (accepted_num a, accepted_value a, has_accepted a)))"

definition paxos_accepted :: "PaxosAcceptor \<Rightarrow> 64 word \<Rightarrow> int \<Rightarrow> PaxosAcceptor option" where
  "paxos_accepted a num v =
     (if num < promised_num a then None
      else Some (a\<lparr>accepted_num := num, accepted_value := v, has_accepted := True\<rparr>))"

text \<open>The body of the prepare loop on a granted promise: keep the highest previous vote.\<close>

definition scan_reply :: "reply \<Rightarrow> 64 word \<times> int \<Rightarrow> 64 word \<times> int" where
  "scan_reply r h =
     (case r of (prev_num, prev_val, has_prev) \<Rightarrow>
        if has_prev \<and> prev_num > fst h then (prev_num, prev_val) else h)"

fun prepare_loop ::
    "64 word \<Rightarrow> PaxosAcceptor list \<Rightarrow> nat \<Rightarrow> 64 word \<times> int \<Rightarrow> PaxosAcceptor list \<times> nat \<times> 64 word \<times> int" where
  "prepare_loop num [] cnt h = ([], cnt, h)"
| "prepare_loop num (a # as) cnt h =
     (case paxos_promise a num of
        None \<Rightarrow> (let (as', res) = prepare_loop num as cnt h in (a # as', res))
      | Some (a', r) \<Rightarrow>
          (let (as', res) = prepare_loop num as (cnt + 1) (scan_reply r h) in (a' # as', res)))"

text \<open>
  Result: the verdict, the updated proposer and acceptors, and the three output parameters
  (promise count, highest accepted number and value).
\<close>

definition paxos_prepare ::
    "PaxosProposer \<Rightarrow> PaxosAcceptor list \<Rightarrow>
     bool \<times> PaxosProposer \<times> PaxosAcceptor list \<times> nat \<times> 64 word \<times> int" where
  "paxos_prepare p as =
     (case prepare_loop (proposal_num p) as 0 (0, 0) of (as', cnt, hn, hv) \<Rightarrow>
        (cnt \<ge> length as div 2 + 1, if hn > 0 then p\<lparr>pr_value := hv\<rparr> else p, as', cnt, hn, hv))"

fun accept_loop :: "64 word \<Rightarrow> int \<Rightarrow> PaxosAcceptor list \<Rightarrow> nat \<Rightarrow> PaxosAcceptor list \<times> nat" where
  "accept_loop num v [] cnt = ([], cnt)"
| "accept_loop num v (a # as) cnt =
     (case paxos_accepted a num v of
        None \<Rightarrow> (let (as', c) = accept_loop num v as cnt in (a # as', c))
      | Some a' \<Rightarrow> (let (as', c) = accept_loop num v as (cnt + 1) in (a' # as', c)))"

definition paxos_accept ::
    "PaxosProposer \<Rightarrow> PaxosAcceptor list \<Rightarrow> int \<Rightarrow> bool \<times> PaxosAcceptor list \<times> nat" where
  "paxos_accept p as v =
     (case accept_loop (proposal_num p) v as 0 of (as', cnt) \<Rightarrow> (cnt \<ge> length as div 2 + 1, as', cnt))"

definition paxos_learn_all :: "int \<Rightarrow> 64 word \<Rightarrow> PaxosLearner list \<Rightarrow> PaxosLearner list" where
  "paxos_learn_all v num ls =
     map (\<lambda>l. l\<lparr>learned_value := v, learned_round := num, has_learned := True\<rparr>) ls"

definition next_num :: "nat \<Rightarrow> 64 word \<Rightarrow> 64 word" where
  "next_num pid num = word_of_int ((int pid + 1) * 1000) + num mod 1000 + 1"

definition paxos_run_instance :: "PaxosCluster \<Rightarrow> nat \<Rightarrow> int \<Rightarrow> bool \<times> PaxosCluster" where
  "paxos_run_instance c pid v =
     (let p0 = proposers c ! pid;
          p1 = p0\<lparr>proposal_num := next_num pid (proposal_num p0), pr_value := v\<rparr>
      in case paxos_prepare p1 (acceptors c) of (prepared, p2, as2, cnt, hn, hv) \<Rightarrow>
           (let c2 = c\<lparr>proposers := (proposers c)[pid := p2], acceptors := as2\<rparr>
            in if \<not> prepared then (False, c2)
               else let final_value = (if hn > 0 then hv else v)
                    in case paxos_accept p2 as2 final_value of (ok, as3, acc_cnt) \<Rightarrow>
                         (let c3 = c2\<lparr>acceptors := as3\<rparr>
                          in if ok
                             then (True, c3\<lparr>learners :=
                                     paxos_learn_all final_value (proposal_num p2) (learners c3)\<rparr>)
                             else (False, c3))))"

text \<open>The three attempts of a would-be leader, each under a number raised by 1000.\<close>

fun leader_attempts :: "nat \<Rightarrow> PaxosCluster \<Rightarrow> nat \<Rightarrow> bool \<times> PaxosCluster" where
  "leader_attempts 0 c lid = (False, c)"
| "leader_attempts (Suc k) c lid =
     (let p0 = proposers c ! lid; p1 = p0\<lparr>proposal_num := proposal_num p0 + 1000\<rparr>
      in case paxos_prepare p1 (acceptors c) of (ok, p2, as2, _) \<Rightarrow>
           (let c2 = c\<lparr>proposers := (proposers c)[lid := p2], acceptors := as2\<rparr>
            in if ok then (True, c2) else leader_attempts k c2 lid))"

definition multi_paxos_become_leader :: "multi_paxos \<Rightarrow> PaxosCluster \<Rightarrow> nat \<Rightarrow> multi_paxos \<times> PaxosCluster" where
  "multi_paxos_become_leader g c lid =
     (case leader_attempts 3 c lid of (success, c') \<Rightarrow>
        (g\<lparr>mp_leader := if success then int lid else -1\<rparr>, c'))"

definition multi_paxos_replicate ::
    "multi_paxos \<Rightarrow> PaxosCluster \<Rightarrow> nat \<Rightarrow> int \<Rightarrow> bool \<times> multi_paxos \<times> PaxosCluster" where
  "multi_paxos_replicate g c lid v =
     (if int lid \<noteq> mp_leader g then (False, g, c)
      else if length (mp_log g) \<ge> PAXOS_MAX_LOG_ENTRIES then (False, g, c)
      else let g' = g\<lparr>mp_log := mp_log g @ [v]\<rparr>; p = proposers c ! lid
           in case paxos_accept p (acceptors c) v of (_, as', cnt) \<Rightarrow>
                (let c' = c\<lparr>acceptors := as'\<rparr>
                 in if cnt \<ge> px_quorum c'
                    then (True, g', c'\<lparr>learners := paxos_learn_all v (proposal_num p) (learners c')\<rparr>)
                    else (False, g', c')))"

definition paxos_phase_name :: "int \<Rightarrow> string" where
  "paxos_phase_name ph =
     (if ph = 1 then ''Prepare (Phase 1a)'' else if ph = 2 then ''Promise (Phase 1b)''
      else if ph = 3 then ''Accept (Phase 2a)'' else if ph = 4 then ''Accepted (Phase 2b)''
      else ''Unknown'')"

section \<open>The message-level system\<close>

text \<open>
  \<open>ps_promises\<close> holds the replies in flight or received, \<open>ps_proposals\<close> the value each proposal number
  was given, \<open>ps_votes\<close> every acceptance that ever happened. The acceptors are changed by the handlers of
  the source only.
\<close>

record paxos_sys =
  ps_acc :: "PaxosAcceptor list"
  ps_promises :: "(nat \<times> 64 word \<times> reply) set"
  ps_proposals :: "64 word \<rightharpoonup> int"
  ps_votes :: "(nat \<times> 64 word \<times> int) set"

definition paxos_sys_init :: "nat \<Rightarrow> paxos_sys \<Rightarrow> bool" where
  "paxos_sys_init n s \<longleftrightarrow> s = \<lparr>ps_acc = acceptors (paxos_init_cluster n), ps_promises = {},
     ps_proposals = Map.empty, ps_votes = {}\<rparr>"

text \<open>
  \<open>propose\<close> is the choice made by \<open>paxos_prepare\<close> and \<open>paxos_run_instance\<close> on the replies of a majority;
  a number is used for one value. \<open>accept\<close> delivers an accept request to an acceptor that granted the
  promise of the same number.
\<close>

inductive paxos_step :: "paxos_sys \<Rightarrow> paxos_sys \<Rightarrow> bool" where
  promise: "i < length (ps_acc s) \<Longrightarrow> paxos_promise (ps_acc s ! i) b = Some (a, r) \<Longrightarrow>
    paxos_step s (s\<lparr>ps_acc := (ps_acc s)[i := a], ps_promises := insert (i, b, r) (ps_promises s)\<rparr>)"
| propose: "ps_proposals s b = None \<Longrightarrow> majority_of (length (ps_acc s)) (fst ` set qs) \<Longrightarrow>
    \<forall>(i, r) \<in> set qs. (i, b, r) \<in> ps_promises s \<Longrightarrow>
    fold scan_reply (map snd qs) (0, 0) = (hn, hv) \<Longrightarrow>
    paxos_step s (s\<lparr>ps_proposals := (ps_proposals s)(b \<mapsto> if hn > 0 then hv else v)\<rparr>)"
| accept: "i < length (ps_acc s) \<Longrightarrow> (i, b, r) \<in> ps_promises s \<Longrightarrow> ps_proposals s b = Some v \<Longrightarrow>
    paxos_accepted (ps_acc s ! i) b v = Some a \<Longrightarrow>
    paxos_step s (s\<lparr>ps_acc := (ps_acc s)[i := a], ps_votes := insert (i, b, v) (ps_votes s)\<rparr>)"

text \<open>A value is chosen under a number when a majority of the acceptors voted for it.\<close>

definition chosen :: "paxos_sys \<Rightarrow> 64 word \<Rightarrow> int \<Rightarrow> bool" where
  "chosen s b v \<longleftrightarrow> majority_of (length (ps_acc s)) {i. (i, b, v) \<in> ps_votes s}"

section \<open>Invariants of the message-level system\<close>

definition inv_promises :: "paxos_sys \<Rightarrow> bool" where
  "inv_promises s \<longleftrightarrow> (\<forall>i b r. (i, b, r) \<in> ps_promises s \<longrightarrow>
     i < length (ps_acc s) \<and> b \<le> promised_num (ps_acc s ! i))"

definition inv_votes :: "paxos_sys \<Rightarrow> bool" where
  "inv_votes s \<longleftrightarrow> (\<forall>i b v. (i, b, v) \<in> ps_votes s \<longrightarrow>
     i < length (ps_acc s) \<and> 0 < b \<and> b \<le> promised_num (ps_acc s ! i) \<and> ps_proposals s b = Some v)"

text \<open>An acceptor remembers its highest vote.\<close>

definition inv_memory :: "paxos_sys \<Rightarrow> bool" where
  "inv_memory s \<longleftrightarrow> (\<forall>i < length (ps_acc s). let a = ps_acc s ! i in
     (has_accepted a \<longrightarrow> (i, accepted_num a, accepted_value a) \<in> ps_votes s) \<and>
     (\<forall>c w. (i, c, w) \<in> ps_votes s \<longrightarrow> has_accepted a \<and> c \<le> accepted_num a))"

text \<open>A reply to number \<open>b\<close> reports the acceptor's last vote below \<open>b\<close>, for ever.\<close>

definition inv_replies :: "paxos_sys \<Rightarrow> bool" where
  "inv_replies s \<longleftrightarrow> (\<forall>i b pn pv has. (i, b, pn, pv, has) \<in> ps_promises s \<longrightarrow>
     0 < b \<and> (has \<longrightarrow> (i, pn, pv) \<in> ps_votes s \<and> pn < b) \<and>
     (\<forall>c w. (i, c, w) \<in> ps_votes s \<longrightarrow> c < b \<longrightarrow> has \<and> c \<le> pn))"

text \<open>
  \<open>v\<close> is safe under \<open>b\<close>: a majority promised \<open>b\<close>, and either none of it voted below \<open>b\<close> or \<open>v\<close> is the value
  of its highest vote below \<open>b\<close>.
\<close>

definition safe_value :: "paxos_sys \<Rightarrow> 64 word \<Rightarrow> int \<Rightarrow> bool" where
  "safe_value s b v \<longleftrightarrow> (\<exists>Q. majority_of (length (ps_acc s)) Q \<and> (\<forall>i \<in> Q. \<exists>r. (i, b, r) \<in> ps_promises s) \<and>
     ((\<forall>i \<in> Q. \<forall>c w. (i, c, w) \<in> ps_votes s \<longrightarrow> \<not> c < b) \<or>
      (\<exists>c j. c < b \<and> (j, c, v) \<in> ps_votes s \<and>
         (\<forall>i \<in> Q. \<forall>c' w. (i, c', w) \<in> ps_votes s \<longrightarrow> c' < b \<longrightarrow> c' \<le> c))))"

definition inv_proposals :: "paxos_sys \<Rightarrow> bool" where
  "inv_proposals s \<longleftrightarrow> (\<forall>b v. ps_proposals s b = Some v \<longrightarrow> safe_value s b v)"

definition paxos_inv :: "paxos_sys \<Rightarrow> bool" where
  "paxos_inv s \<longleftrightarrow> inv_promises s \<and> inv_votes s \<and> inv_memory s \<and> inv_replies s \<and> inv_proposals s"

lemma paxos_promise_Some:
  "paxos_promise a b = Some (a', r) \<longleftrightarrow>
     promised_num a < b \<and> a' = a\<lparr>promised_num := b\<rparr> \<and> r = (accepted_num a, accepted_value a, has_accepted a)"
  by (auto simp: paxos_promise_def not_le)

lemma paxos_accepted_Some:
  "paxos_accepted a b v = Some a' \<longleftrightarrow>
     promised_num a \<le> b \<and> a' = a\<lparr>accepted_num := b, accepted_value := v, has_accepted := True\<rparr>"
  by (auto simp: paxos_accepted_def not_less)

lemmas handler_simps = paxos_promise_Some paxos_accepted_Some

lemma paxos_inv_init: "paxos_sys_init n s \<Longrightarrow> paxos_inv s"
  by (auto simp: paxos_sys_init_def paxos_inv_def inv_promises_def inv_votes_def inv_memory_def
      inv_replies_def inv_proposals_def paxos_init_cluster_def Let_def)

lemma paxos_invD:
  assumes "paxos_inv s"
  shows "(i, b, r) \<in> ps_promises s \<Longrightarrow> i < length (ps_acc s) \<and> b \<le> promised_num (ps_acc s ! i)"
    and "(i, b, v) \<in> ps_votes s \<Longrightarrow>
      i < length (ps_acc s) \<and> 0 < b \<and> b \<le> promised_num (ps_acc s ! i) \<and> ps_proposals s b = Some v"
    and "i < length (ps_acc s) \<Longrightarrow> has_accepted (ps_acc s ! i) \<Longrightarrow>
      (i, accepted_num (ps_acc s ! i), accepted_value (ps_acc s ! i)) \<in> ps_votes s"
    and "(i, c, w) \<in> ps_votes s \<Longrightarrow> has_accepted (ps_acc s ! i) \<and> c \<le> accepted_num (ps_acc s ! i)"
    and "(i, b, pn, pv, has) \<in> ps_promises s \<Longrightarrow>
      0 < b \<and> (has \<longrightarrow> (i, pn, pv) \<in> ps_votes s \<and> pn < b) \<and>
      (\<forall>c w. (i, c, w) \<in> ps_votes s \<longrightarrow> c < b \<longrightarrow> has \<and> c \<le> pn)"
    and "ps_proposals s b = Some v \<Longrightarrow> safe_value s b v"
proof -
  show "(i, b, r) \<in> ps_promises s \<Longrightarrow> i < length (ps_acc s) \<and> b \<le> promised_num (ps_acc s ! i)"
    using assms unfolding paxos_inv_def inv_promises_def by blast
  show v: "(i, b, v) \<in> ps_votes s \<Longrightarrow>
      i < length (ps_acc s) \<and> 0 < b \<and> b \<le> promised_num (ps_acc s ! i) \<and> ps_proposals s b = Some v" for i b v
    using assms by (simp add: paxos_inv_def inv_votes_def)
  show "i < length (ps_acc s) \<Longrightarrow> has_accepted (ps_acc s ! i) \<Longrightarrow>
      (i, accepted_num (ps_acc s ! i), accepted_value (ps_acc s ! i)) \<in> ps_votes s"
    using assms by (simp add: paxos_inv_def inv_memory_def Let_def)
  show "(i, c, w) \<in> ps_votes s \<Longrightarrow> has_accepted (ps_acc s ! i) \<and> c \<le> accepted_num (ps_acc s ! i)"
    using assms v [of i c w] by (auto simp: paxos_inv_def inv_memory_def Let_def)
  show "(i, b, pn, pv, has) \<in> ps_promises s \<Longrightarrow>
      0 < b \<and> (has \<longrightarrow> (i, pn, pv) \<in> ps_votes s \<and> pn < b) \<and>
      (\<forall>c w. (i, c, w) \<in> ps_votes s \<longrightarrow> c < b \<longrightarrow> has \<and> c \<le> pn)"
    using assms unfolding paxos_inv_def inv_replies_def by blast
  show "ps_proposals s b = Some v \<Longrightarrow> safe_value s b v"
    using assms by (simp add: paxos_inv_def inv_proposals_def)
qed

lemma safe_value_mono:
  assumes "safe_value s b v" and "length (ps_acc t) = length (ps_acc s)"
    and "ps_promises s \<subseteq> ps_promises t" and "ps_votes s \<subseteq> ps_votes t"
    and "\<And>i c w r. (i, c, w) \<in> ps_votes t \<Longrightarrow> (i, b, r) \<in> ps_promises s \<Longrightarrow> c < b \<Longrightarrow> (i, c, w) \<in> ps_votes s"
  shows "safe_value t b v"
proof -
  from assms(1) obtain Q where Q: "majority_of (length (ps_acc s)) Q" "\<forall>i \<in> Q. \<exists>r. (i, b, r) \<in> ps_promises s"
    and split: "(\<forall>i \<in> Q. \<forall>c w. (i, c, w) \<in> ps_votes s \<longrightarrow> \<not> c < b) \<or>
      (\<exists>c j. c < b \<and> (j, c, v) \<in> ps_votes s \<and>
         (\<forall>i \<in> Q. \<forall>c' w. (i, c', w) \<in> ps_votes s \<longrightarrow> c' < b \<longrightarrow> c' \<le> c))"
    unfolding safe_value_def by blast
  have earlier: "(i, c, w) \<in> ps_votes s" if "i \<in> Q" "(i, c, w) \<in> ps_votes t" "c < b" for i c w
    using Q(2) assms(5) that by blast
  have "majority_of (length (ps_acc t)) Q" "\<forall>i \<in> Q. \<exists>r. (i, b, r) \<in> ps_promises t"
    using Q assms(2,3) by (simp, blast)
  moreover have "(\<forall>i \<in> Q. \<forall>c w. (i, c, w) \<in> ps_votes t \<longrightarrow> \<not> c < b) \<or>
      (\<exists>c j. c < b \<and> (j, c, v) \<in> ps_votes t \<and>
         (\<forall>i \<in> Q. \<forall>c' w. (i, c', w) \<in> ps_votes t \<longrightarrow> c' < b \<longrightarrow> c' \<le> c))"
    using split
  proof
    assume "\<forall>i \<in> Q. \<forall>c w. (i, c, w) \<in> ps_votes s \<longrightarrow> \<not> c < b"
    then show ?thesis using earlier by blast
  next
    assume "\<exists>c j. c < b \<and> (j, c, v) \<in> ps_votes s \<and>
         (\<forall>i \<in> Q. \<forall>c' w. (i, c', w) \<in> ps_votes s \<longrightarrow> c' < b \<longrightarrow> c' \<le> c)"
    then obtain c j where "c < b" "(j, c, v) \<in> ps_votes s"
      "\<forall>i \<in> Q. \<forall>c' w. (i, c', w) \<in> ps_votes s \<longrightarrow> c' < b \<longrightarrow> c' \<le> c" by blast
    then have "c < b \<and> (j, c, v) \<in> ps_votes t \<and>
        (\<forall>i \<in> Q. \<forall>c' w. (i, c', w) \<in> ps_votes t \<longrightarrow> c' < b \<longrightarrow> c' \<le> c)" using earlier assms(4) by blast
    then show ?thesis by blast
  qed
  ultimately show ?thesis unfolding safe_value_def by blast
qed

lemma paxos_inv_promise:
  assumes inv: "paxos_inv s" and i: "i < length (ps_acc s)"
    and pr: "paxos_promise (ps_acc s ! i) b = Some (a, r)"
  shows "paxos_inv (s\<lparr>ps_acc := (ps_acc s)[i := a], ps_promises := insert (i, b, r) (ps_promises s)\<rparr>)"
    (is "paxos_inv ?t")
proof -
  note I = paxos_invD [OF inv]
  have lt: "promised_num (ps_acc s ! i) < b" and a: "a = (ps_acc s ! i)\<lparr>promised_num := b\<rparr>"
    and r: "r = (accepted_num (ps_acc s ! i), accepted_value (ps_acc s ! i), has_accepted (ps_acc s ! i))"
    using pr by (auto simp: handler_simps)
  have up: "promised_num (ps_acc s ! j) \<le> promised_num (ps_acc ?t ! j)" for j
    using lt a i by (cases "i = j") auto
  have pos: "0 < b" using lt by (metis word_greater_zero_iff word_not_simps(1))
  have "inv_promises ?t" using I(1) i a lt by (fastforce simp: inv_promises_def nth_list_update)
  moreover have "inv_votes ?t"
    unfolding inv_votes_def
  proof (intro allI impI)
    fix j c v
    assume "(j, c, v) \<in> ps_votes ?t"
    then have "j < length (ps_acc s) \<and> 0 < c \<and> c \<le> promised_num (ps_acc s ! j) \<and> ps_proposals s c = Some v"
      using I(2) by simp
    then show "j < length (ps_acc ?t) \<and> 0 < c \<and> c \<le> promised_num (ps_acc ?t ! j) \<and> ps_proposals ?t c = Some v"
      using order_trans [OF _ up [of j]] by simp
  qed
  moreover have "inv_memory ?t" using I(3,4) a i by (auto simp: inv_memory_def Let_def nth_list_update)
  moreover have "inv_replies ?t"
    unfolding inv_replies_def
  proof (intro allI impI)
    fix j b' pn pv has
    assume "(j, b', pn, pv, has) \<in> ps_promises ?t"
    then consider (old) "(j, b', pn, pv, has) \<in> ps_promises s"
      | (new) "j = i" "b' = b" "r = (pn, pv, has)" by auto
    then show "0 < b' \<and> (has \<longrightarrow> (j, pn, pv) \<in> ps_votes ?t \<and> pn < b') \<and>
        (\<forall>c w. (j, c, w) \<in> ps_votes ?t \<longrightarrow> c < b' \<longrightarrow> has \<and> c \<le> pn)"
    proof cases
      case old
      then show ?thesis using I(5) [OF old] by simp
    next
      case new
      then have eq: "pn = accepted_num (ps_acc s ! i)" "pv = accepted_value (ps_acc s ! i)"
        "has = has_accepted (ps_acc s ! i)" using r by auto
      have "(i, pn, pv) \<in> ps_votes s \<and> pn < b" if "has"
      proof -
        have v: "(i, pn, pv) \<in> ps_votes s" using I(3) [OF i] that eq by simp
        then have "pn \<le> promised_num (ps_acc s ! i)" using I(2) by blast
        with v lt show ?thesis by simp
      qed
      moreover have "\<forall>c w. (i, c, w) \<in> ps_votes s \<longrightarrow> has \<and> c \<le> pn"
        using I(4) unfolding eq by blast
      ultimately show ?thesis using new pos by simp
    qed
  qed
  moreover have "inv_proposals ?t"
    unfolding inv_proposals_def
  proof (intro allI impI)
    fix c v
    assume "ps_proposals ?t c = Some v"
    then have "safe_value s c v" using I(6) by simp
    then show "safe_value ?t c v" by (rule safe_value_mono) auto
  qed
  ultimately show ?thesis by (simp add: paxos_inv_def)
qed

lemma paxos_inv_accept:
  assumes inv: "paxos_inv s" and i: "i < length (ps_acc s)" and pm: "(i, b, r) \<in> ps_promises s"
    and prv: "ps_proposals s b = Some v" and ac: "paxos_accepted (ps_acc s ! i) b v = Some a"
  shows "paxos_inv (s\<lparr>ps_acc := (ps_acc s)[i := a], ps_votes := insert (i, b, v) (ps_votes s)\<rparr>)"
    (is "paxos_inv ?t")
proof -
  note I = paxos_invD [OF inv]
  have ge: "promised_num (ps_acc s ! i) \<le> b"
    and a: "a = (ps_acc s ! i)\<lparr>accepted_num := b, accepted_value := v, has_accepted := True\<rparr>"
    using ac by (auto simp: handler_simps)
  have le: "b \<le> promised_num (ps_acc s ! i)" using I(1) [OF pm] by simp
  have pos: "0 < b" using I(5) pm by (cases r) blast
  have same: "promised_num (ps_acc ?t ! j) = promised_num (ps_acc s ! j)" for j
    using a i by (cases "i = j") auto
  have old: "\<not> b < c" if "(i, c, r') \<in> ps_promises s" for c r'
    using I(1) [OF that] ge by (auto simp: not_less intro: order_trans)
  have "inv_promises ?t" using I(1) a i unfolding inv_promises_def by (auto simp: nth_list_update)
  moreover have "inv_votes ?t"
    using I(2) i pos le prv by (auto simp: inv_votes_def nth_list_update a)
  moreover have "inv_memory ?t"
  proof -
    have "c \<le> b" if "(i, c, w) \<in> ps_votes s" for c w using I(2) [OF that] ge by (auto intro: order_trans)
    then show ?thesis using I(3,4) a i by (auto simp: inv_memory_def Let_def nth_list_update)
  qed
  moreover have "inv_replies ?t"
    using I(5) old unfolding inv_replies_def by simp blast
  moreover have "inv_proposals ?t"
    unfolding inv_proposals_def
  proof (intro allI impI)
    fix c w
    assume "ps_proposals ?t c = Some w"
    then have "safe_value s c w" using I(6) by simp
    then show "safe_value ?t c w" by (rule safe_value_mono) (use old in auto)
  qed
  ultimately show ?thesis by (simp add: paxos_inv_def)
qed

subsection \<open>Propose\<close>

text \<open>The scan returns the highest of the reported votes.\<close>

lemma fold_scan_reply:
  assumes "fold scan_reply rs h = (hn, hv)"
  shows "fst h \<le> hn" and "(hn, hv) = h \<or> (hn, hv, True) \<in> set rs"
    and "\<forall>(pn, pv, has) \<in> set rs. has \<longrightarrow> pn \<le> hn"
proof -
  have "fst h \<le> hn \<and> ((hn, hv) = h \<or> (hn, hv, True) \<in> set rs) \<and> (\<forall>(pn, pv, has) \<in> set rs. has \<longrightarrow> pn \<le> hn)"
    using assms
  proof (induction rs arbitrary: h)
    case (Cons r rs)
    obtain pn pv has where r: "r = (pn, pv, has)" by (cases r)
    from Cons.IH [of "scan_reply r h"] Cons.prems
    have ih: "fst (scan_reply r h) \<le> hn" "(hn, hv) = scan_reply r h \<or> (hn, hv, True) \<in> set rs"
      "\<forall>(pn, pv, has) \<in> set rs. has \<longrightarrow> pn \<le> hn" by auto
    show ?case
    proof (cases "has \<and> fst h < pn")
      case True
      then have "scan_reply r h = (pn, pv)" by (simp add: scan_reply_def r)
      then show ?thesis using ih True r by auto
    next
      case False
      then have "scan_reply r h = h" by (auto simp: scan_reply_def r)
      then show ?thesis using ih False r by (auto simp: not_less intro: order_trans)
    qed
  qed simp
  then show "fst h \<le> hn" and "(hn, hv) = h \<or> (hn, hv, True) \<in> set rs"
    and "\<forall>(pn, pv, has) \<in> set rs. has \<longrightarrow> pn \<le> hn" by auto
qed

lemma safe_value_of_replies:
  assumes inv: "paxos_inv s" and maj: "majority_of (length (ps_acc s)) (fst ` set qs)"
    and qs: "\<forall>(i, r) \<in> set qs. (i, b, r) \<in> ps_promises s"
    and scan: "fold scan_reply (map snd qs) (0, 0) = (hn, hv)"
  shows "safe_value s b (if hn > 0 then hv else v)"
proof -
  note I = paxos_invD [OF inv]
  note F = fold_scan_reply [OF scan]
  have below: "c \<le> hn" if "i \<in> fst ` set qs" "(i, c, w) \<in> ps_votes s" "c < b" for i c w
  proof -
    from that(1) obtain pn pv has where q: "(i, pn, pv, has) \<in> set qs" by force
    with qs have "(i, b, pn, pv, has) \<in> ps_promises s" by auto
    from I(5) [OF this] that(2,3) have "has" "c \<le> pn" by blast+
    moreover have "(pn, pv, has) \<in> set (map snd qs)" using q by force
    ultimately show ?thesis using F(3) by (auto intro: order_trans)
  qed
  have pm: "\<forall>i \<in> fst ` set qs. \<exists>r. (i, b, r) \<in> ps_promises s" using qs by force
  have *: "safe_value s b v" if "(\<forall>i \<in> fst ` set qs. \<forall>c w. (i, c, w) \<in> ps_votes s \<longrightarrow> \<not> c < b) \<or>
      (\<exists>c j. c < b \<and> (j, c, v) \<in> ps_votes s \<and>
         (\<forall>i \<in> fst ` set qs. \<forall>c' w. (i, c', w) \<in> ps_votes s \<longrightarrow> c' < b \<longrightarrow> c' \<le> c))" for v
    unfolding safe_value_def using maj pm that by blast
  show ?thesis
  proof (cases "0 < hn")
    case True
    then have "(hn, hv, True) \<in> set (map snd qs)" using F(2) by auto
    then obtain j where "(j, hn, hv, True) \<in> set qs" by force
    then have "(j, b, hn, hv, True) \<in> ps_promises s" using qs by auto
    from I(5) [OF this] have "hn < b" "(j, hn, hv) \<in> ps_votes s" by auto
    then have "safe_value s b hv" using below by (intro *) blast
    then show ?thesis using True by simp
  next
    case False
    then have "\<not> c < b" if "i \<in> fst ` set qs" "(i, c, w) \<in> ps_votes s" for i c w
      using below [OF that] I(2) [OF that(2)] by (metis order_less_le_trans)
    then show ?thesis by (intro *) blast
  qed
qed

lemma paxos_inv_propose:
  assumes inv: "paxos_inv s" and new: "ps_proposals s b = None" and safe: "safe_value s b v"
  shows "paxos_inv (s\<lparr>ps_proposals := (ps_proposals s)(b \<mapsto> v)\<rparr>)" (is "paxos_inv ?t")
proof -
  have "inv_votes ?t" using inv new by (auto simp: paxos_inv_def inv_votes_def)
  moreover have "safe_value ?t c w = safe_value s c w" for c w by (simp add: safe_value_def)
  then have "inv_proposals ?t" using inv safe by (auto simp: paxos_inv_def inv_proposals_def)
  moreover have "inv_promises ?t = inv_promises s" "inv_memory ?t = inv_memory s" "inv_replies ?t = inv_replies s"
    by (simp_all add: inv_promises_def inv_memory_def inv_replies_def)
  ultimately show ?thesis using inv by (simp add: paxos_inv_def)
qed

interpretation paxos: invariant_system "paxos_sys_init n" paxos_step paxos_inv for n
proof
  show "paxos_inv s" if "paxos_sys_init n s" for s using that by (rule paxos_inv_init)
  show "paxos_inv t" if "paxos_inv s" and "paxos_step s t" for s t
    using that(2,1)
  proof cases
    case (propose b qs hn hv v)
    then show ?thesis using that(1) by (simp add: paxos_inv_propose safe_value_of_replies)
  qed (auto intro: paxos_inv_promise paxos_inv_accept)
qed

section \<open>One value is chosen\<close>

lemma chosen_proposal:
  assumes "paxos_inv s" and "chosen s b v"
  shows "ps_proposals s b = Some v"
proof -
  from assms(2) have "{i. (i, b, v) \<in> ps_votes s} \<noteq> {}"
    unfolding chosen_def using majority.quorum_intersect by blast
  then show ?thesis using paxos_invD(2) [OF assms(1)] by blast
qed

lemma later_proposal_agrees:
  assumes inv: "paxos_inv s" and ch: "chosen s b v"
  shows "ps_proposals s b' = Some v' \<Longrightarrow> b < b' \<Longrightarrow> v' = v"
proof (induction "unat b'" arbitrary: b' v' rule: less_induct)
  case less
  note I = paxos_invD [OF inv]
  obtain Q where Q: "majority_of (length (ps_acc s)) Q"
    and split: "(\<forall>i \<in> Q. \<forall>c w. (i, c, w) \<in> ps_votes s \<longrightarrow> \<not> c < b') \<or>
      (\<exists>c j. c < b' \<and> (j, c, v') \<in> ps_votes s \<and>
         (\<forall>i \<in> Q. \<forall>c' w. (i, c', w) \<in> ps_votes s \<longrightarrow> c' < b' \<longrightarrow> c' \<le> c))"
    using I(6) [OF less.prems(1)] unfolding safe_value_def by blast
  obtain i where i: "i \<in> Q" "(i, b, v) \<in> ps_votes s"
    using majority.quorum_intersect [OF Q ch [unfolded chosen_def]] by blast
  then obtain c j where c: "c < b'" "(j, c, v') \<in> ps_votes s" "b \<le> c"
    using split less.prems(2) by blast
  have pc: "ps_proposals s c = Some v'" using I(2) [OF c(2)] by simp
  show ?case
  proof (cases "b = c")
    case True
    then show ?thesis using pc chosen_proposal [OF inv ch] by simp
  next
    case False
    then have "b < c" using c(3) by simp
    then show ?thesis using less.hyps [OF _ pc] c(1) by (simp add: word_less_nat_alt)
  qed
qed

section \<open>Whole instances\<close>

text \<open>When instances run one after the other the acceptors move together.\<close>

definition uniform :: "PaxosAcceptor list \<Rightarrow> 64 word \<Rightarrow> reply \<Rightarrow> bool" where
  "uniform as pn r \<longleftrightarrow>
     (\<forall>a \<in> set as. promised_num a = pn \<and> (accepted_num a, accepted_value a, has_accepted a) = r)"

lemma scan_reply_idem: "scan_reply r (scan_reply r h) = scan_reply r h"
  by (cases r) (auto simp: scan_reply_def)

lemma prepare_loop_refused:
  "\<forall>a \<in> set as. num \<le> promised_num a \<Longrightarrow> prepare_loop num as cnt h = (as, cnt, h)"
  by (induction as arbitrary: cnt h) (auto simp: paxos_promise_def)

lemma prepare_loop_granted:
  "uniform as pn r \<Longrightarrow> pn < num \<Longrightarrow>
   prepare_loop num as cnt h =
     (map (\<lambda>a. a\<lparr>promised_num := num\<rparr>) as, cnt + length as, if as = [] then h else scan_reply r h)"
proof (induction as arbitrary: cnt h)
  case (Cons a as)
  have a: "paxos_promise a num = Some (a\<lparr>promised_num := num\<rparr>, r)" and u: "uniform as pn r"
    using Cons.prems by (auto simp: uniform_def paxos_promise_def)
  show ?case using Cons.IH [OF u Cons.prems(2)] a by (auto simp: scan_reply_idem)
qed simp

lemma accept_loop_granted:
  "\<forall>a \<in> set as. promised_num a \<le> num \<Longrightarrow>
   accept_loop num v as cnt =
     (map (\<lambda>a. a\<lparr>accepted_num := num, accepted_value := v, has_accepted := True\<rparr>) as, cnt + length as)"
  by (induction as arbitrary: cnt) (auto simp: paxos_accepted_def)

lemma run_instance_refused:
  assumes "\<forall>a \<in> set (acceptors c). next_num pid (proposal_num (proposers c ! pid)) \<le> promised_num a"
  shows "\<exists>c'. paxos_run_instance c pid v = (False, c') \<and> acceptors c' = acceptors c \<and> learners c' = learners c"
  using prepare_loop_refused [OF assms] by (simp add: paxos_run_instance_def paxos_prepare_def Let_def)

lemma run_instance_granted:
  assumes "uniform (acceptors c) pn (an, av, has)" and "acceptors c \<noteq> []"
    and "pn < next_num pid (proposal_num (proposers c ! pid))" (is "_ < ?num")
  shows "\<exists>c'. paxos_run_instance c pid v = (True, c') \<and>
    uniform (acceptors c') ?num (?num, if has \<and> 0 < an then av else v, True) \<and>
    length (acceptors c') = length (acceptors c) \<and>
    learners c' = paxos_learn_all (if has \<and> 0 < an then av else v) ?num (learners c)"
proof -
  let ?as = "map (\<lambda>a. a\<lparr>promised_num := ?num\<rparr>) (acceptors c)"
  have loop: "prepare_loop ?num (acceptors c) 0 (0, 0) =
      (?as, length (acceptors c), if has \<and> 0 < an then (an, av) else (0, 0))"
    using prepare_loop_granted [OF assms(1,3)] assms(2) by (simp add: scan_reply_def)
  have acc: "accept_loop ?num w ?as 0 =
      (map (\<lambda>a. a\<lparr>accepted_num := ?num, accepted_value := w, has_accepted := True\<rparr>) ?as, length (acceptors c))" for w
    by (subst accept_loop_granted) auto
  have maj: "length (acceptors c) div 2 + 1 \<le> length (acceptors c)" using assms(2) by (cases "acceptors c") auto
  show ?thesis
    using loop acc maj by (simp add: paxos_run_instance_def paxos_prepare_def paxos_accept_def Let_def uniform_def)
qed

definition decided :: "PaxosCluster \<Rightarrow> int \<Rightarrow> bool" where
  "decided c v \<longleftrightarrow> acceptors c \<noteq> [] \<and> (\<exists>pn an. uniform (acceptors c) pn (an, v, True) \<and> 0 < an) \<and>
     (\<forall>l \<in> set (learners c). has_learned l \<and> learned_value l = v)"

lemma decided_run_instance:
  assumes "decided c v"
  shows "decided (snd (paxos_run_instance c pid w)) v"
proof -
  from assms obtain pn an where u: "uniform (acceptors c) pn (an, v, True)" "0 < an" and ne: "acceptors c \<noteq> []"
    and l: "\<forall>l \<in> set (learners c). has_learned l \<and> learned_value l = v" by (auto simp: decided_def)
  let ?num = "next_num pid (proposal_num (proposers c ! pid))"
  show ?thesis
  proof (cases "pn < ?num")
    case True
    from run_instance_granted [OF u(1) ne True, of w] u(2)
    obtain c' where c': "paxos_run_instance c pid w = (True, c')" "uniform (acceptors c') ?num (?num, v, True)"
      "length (acceptors c') = length (acceptors c)" "learners c' = paxos_learn_all v ?num (learners c)" by auto
    have "0 < ?num" using True by (metis word_greater_zero_iff word_not_simps(1))
    with c' ne show ?thesis by (auto simp: decided_def paxos_learn_all_def)
  next
    case False
    then have "\<forall>a \<in> set (acceptors c). ?num \<le> promised_num a" using u(1) by (auto simp: uniform_def)
    from run_instance_refused [OF this, of w] assms show ?thesis by (simp add: decided_def) (metis snd_conv)
  qed
qed

text \<open>A sequence of instances: proposer and value of each.\<close>

fun paxos_runs :: "(nat \<times> int) list \<Rightarrow> PaxosCluster \<Rightarrow> PaxosCluster" where
  "paxos_runs [] c = c"
| "paxos_runs ((pid, v) # rs) c = paxos_runs rs (snd (paxos_run_instance c pid v))"

lemma decided_runs: "decided c v \<Longrightarrow> decided (paxos_runs rs c) v"
  by (induction rs c rule: paxos_runs.induct) (auto intro: decided_run_instance)

text \<open>Numbers of proposer \<open>pid\<close> lie above \<open>1000 (pid + 1)\<close> and never above \<open>1000 (pid + 2)\<close>.\<close>

lemma unat_next_num:
  assumes "pid < 8"
  shows "unat (next_num pid num) = (pid + 1) * 1000 + unat num mod 1000 + 1"
proof -
  let ?k = "(pid + 1) * 1000 + unat num mod 1000 + 1"
  have "num mod 1000 = of_nat (unat num mod 1000)"
  proof -
    have "unat (num mod 1000) = unat num mod 1000" by (simp add: unat_mod_distrib)
    then have "of_nat (unat num mod 1000) = (of_nat (unat (num mod 1000)) :: 64 word)" by simp
    then show ?thesis by simp
  qed
  then have "next_num pid num = of_nat ?k" by (simp add: next_num_def algebra_simps)
  moreover have "?k < 2 ^ 64"
  proof -
    have "unat num mod 1000 < 1000" by simp
    with assms show ?thesis by simp
  qed
  ultimately show ?thesis by (simp only: unat_of_nat) simp
qed

lemma next_num_bounds:
  assumes "pid < 8"
  shows "1000 * (pid + 1) < unat (next_num pid num)" and "unat (next_num pid num) \<le> 1000 * (pid + 2)"
proof -
  have "unat num mod 1000 < 1000" by simp
  then show "1000 * (pid + 1) < unat (next_num pid num)" "unat (next_num pid num) \<le> 1000 * (pid + 2)"
    using unat_next_num [OF assms, of num] by (simp_all add: algebra_simps)
qed

lemma run_instance_fresh:
  assumes "0 < n" and "pid < n" and "n \<le> 8"
  shows "\<exists>c'. paxos_run_instance (paxos_init_cluster n) pid v = (True, c') \<and> decided c' v"
proof -
  let ?c = "paxos_init_cluster n" and ?num = "next_num pid (proposal_num (proposers (paxos_init_cluster n) ! pid))"
  have pos: "0 < ?num"
    using next_num_bounds(1) [of pid "proposal_num (proposers ?c ! pid)"] assms by (simp add: word_less_nat_alt)
  have "uniform (acceptors ?c) 0 (0, 0, False)" "acceptors ?c \<noteq> []"
    using assms(1) by (auto simp: paxos_init_cluster_def uniform_def)
  from run_instance_granted [OF this pos, of v] obtain c' where
    "paxos_run_instance ?c pid v = (True, c')" "uniform (acceptors c') ?num (?num, v, True)"
    "length (acceptors c') = length (acceptors ?c)" "learners c' = paxos_learn_all v ?num (learners ?c)" by auto
  moreover have "acceptors c' \<noteq> []" using calculation(3) assms(1) by (auto simp: paxos_init_cluster_def)
  ultimately show ?thesis using pos by (auto simp: decided_def paxos_learn_all_def)
qed

section \<open>Findings\<close>

text \<open>
  Once a proposer with a higher identifier has run, a lower one is refused however often it retries:
  its numbers wrap modulo 1000 inside its own range.
\<close>

lemma paxos_lower_proposer_locked_out:
  assumes "i < j" and "j < 8" and "\<forall>a \<in> set (acceptors c). 1000 * (j + 1) < unat (promised_num a)"
  shows "\<exists>c'. paxos_run_instance c i v = (False, c') \<and> acceptors c' = acceptors c \<and> learners c' = learners c"
proof (rule run_instance_refused, rule ballI)
  fix a assume "a \<in> set (acceptors c)"
  then have "1000 * (j + 1) < unat (promised_num a)" using assms(3) by blast
  moreover have "unat (next_num i (proposal_num (proposers c ! i))) \<le> 1000 * (i + 2)"
    using next_num_bounds(2) assms(1,2) by simp
  moreover have "1000 * (i + 2) \<le> 1000 * (j + 1)" using assms(1) by simp
  ultimately show "next_num i (proposal_num (proposers c ! i)) \<le> promised_num a"
    by (simp add: word_le_nat_alt)
qed

text \<open>
  \<open>multi_paxos_replicate\<close> writes every log entry into the same single-decree acceptors and ignores the
  value reported by the prepare phase: it replaces a value that was already decided and learned.
\<close>

lemma multi_paxos_overwrites_decision:
  "let c = snd (paxos_run_instance (paxos_init_cluster 3) 0 7);
       (g, c1) = multi_paxos_become_leader \<lparr>mp_log = [], mp_leader = -1\<rparr> c 0;
       (ok, g2, c2) = multi_paxos_replicate g c1 0 9
   in map learned_value (learners c) = [7, 7, 7] \<and> ok \<and> map learned_value (learners c2) = [9, 9, 9]"
  by code_simp

section \<open>Properties\<close>

text \<open>
  C2. Paxos safety at message level. Any number of proposers call the acceptors' handlers in any order,
  with requests lost, repeated or delayed; a proposer picks its value from the replies of a majority as
  \<open>paxos_prepare\<close> does, uses each number for one value, and sends its accept requests to acceptors that
  promised that number. Then at most one value is ever chosen: if majorities accepted \<open>v\<close> under \<open>b\<close> and \<open>v'\<close>
  under \<open>b'\<close>, the two values are equal.
\<close>

theorem paxos_chosen_unique:
  assumes "reach (paxos_sys_init n) paxos_step s" and "chosen s b v" and "chosen s b' v'"
  shows "v = v'"
proof -
  have inv: "paxos_inv s" using assms(1) by (rule paxos.reach_inv)
  note p = chosen_proposal [OF inv assms(2)] chosen_proposal [OF inv assms(3)]
  consider "b < b'" | "b = b'" | "b' < b" by (rule linorder_cases)
  then show ?thesis
    using later_proposal_agrees [OF inv assms(2) p(2)] later_proposal_agrees [OF inv assms(3) p(1)] p
    by cases auto
qed

definition demo_acc :: "64 word \<Rightarrow> 64 word \<Rightarrow> int \<Rightarrow> bool \<Rightarrow> nat \<Rightarrow> PaxosAcceptor" where
  "demo_acc pn an av has i = \<lparr>acceptor_id = int i, promised_num = pn, accepted_num = an,
     accepted_value = av, has_accepted = has\<rparr>"

definition demo_first :: paxos_sys where
  "demo_first =
     \<lparr>ps_acc = [demo_acc 5 5 7 True 0, demo_acc 5 5 7 True 1, demo_acc 0 0 0 False 2],
      ps_promises = {(1, 5, 0, 0, False), (0, 5, 0, 0, False)},
      ps_proposals = [5 \<mapsto> 7], ps_votes = {(1, 5, 7), (0, 5, 7)}\<rparr>"

definition demo_second :: paxos_sys where
  "demo_second =
     \<lparr>ps_acc = [demo_acc 5 5 7 True 0, demo_acc 9 9 7 True 1, demo_acc 9 9 7 True 2],
      ps_promises = {(2, 9, 0, 0, False), (1, 9, 5, 7, True), (1, 5, 0, 0, False), (0, 5, 0, 0, False)},
      ps_proposals = [5 \<mapsto> 7, 9 \<mapsto> 7],
      ps_votes = {(2, 9, 7), (1, 9, 7), (1, 5, 7), (0, 5, 7)}\<rparr>"

lemma majority_pair: "i < 3 \<Longrightarrow> j < 3 \<Longrightarrow> i \<noteq> j \<Longrightarrow> majority_of 3 {i, j}"
  by (auto simp: majority_of_def)

text \<open>A ballot \<open>b\<close> carried through at acceptors \<open>i\<close> and \<open>j\<close>: both promise, a value is picked, both accept.\<close>

lemma demo_ballot:
  assumes "reach I paxos_step s" and "length (ps_acc s) = 3" and "i < 3" and "j < 3" and "i \<noteq> j"
    and "paxos_promise (ps_acc s ! i) b = Some (a, r)" and "paxos_promise (ps_acc s ! j) b = Some (a', r')"
    and "ps_proposals s b = None" and "fold scan_reply [r, r'] (0, 0) = (hn, hv)"
    and "w = (if hn > 0 then hv else v)"
    and "paxos_accepted a b w = Some a2" and "paxos_accepted a' b w = Some a2'"
  shows "reach I paxos_step (s\<lparr>ps_acc := (ps_acc s)[i := a2, j := a2'],
    ps_promises := insert (j, b, r') (insert (i, b, r) (ps_promises s)),
    ps_proposals := (ps_proposals s)(b \<mapsto> w), ps_votes := insert (j, b, w) (insert (i, b, w) (ps_votes s))\<rparr>)"
proof -
  let ?s1 = "s\<lparr>ps_acc := (ps_acc s)[i := a], ps_promises := insert (i, b, r) (ps_promises s)\<rparr>"
  let ?s2 = "?s1\<lparr>ps_acc := (ps_acc ?s1)[j := a'], ps_promises := insert (j, b, r') (ps_promises ?s1)\<rparr>"
  let ?s3 = "?s2\<lparr>ps_proposals := (ps_proposals ?s2)(b \<mapsto> w)\<rparr>"
  let ?s4 = "?s3\<lparr>ps_acc := (ps_acc ?s3)[i := a2], ps_votes := insert (i, b, w) (ps_votes ?s3)\<rparr>"
  let ?s5 = "?s4\<lparr>ps_acc := (ps_acc ?s4)[j := a2'], ps_votes := insert (j, b, w) (ps_votes ?s4)\<rparr>"
  have "reach I paxos_step ?s1" using assms by (intro reach_step [OF assms(1)] promise) auto
  then have "reach I paxos_step ?s2" using assms by (elim reach_step) (intro promise, auto)
  moreover have "paxos_step ?s2 ?s3"
    unfolding assms(10)
    using assms majority_pair [of i j] by (intro propose [where qs = "[(i, r), (j, r')]"]) auto
  ultimately have "reach I paxos_step ?s3" by (rule reach_step)
  moreover have "paxos_step ?s3 ?s4" using assms by (intro accept [where r = r]) auto
  ultimately have "reach I paxos_step ?s4" by (rule reach_step)
  moreover have "paxos_step ?s4 ?s5" using assms by (intro accept [where r = r']) auto
  ultimately have "reach I paxos_step ?s5" by (rule reach_step)
  moreover have "(ps_acc s)[i := a, j := a', i := a2, j := a2'] = (ps_acc s)[i := a2, j := a2']"
    using assms(5) by (metis list_update_overwrite list_update_swap)
  ultimately show ?thesis by (cases s) simp
qed

lemma demo_first_reach: "reach (paxos_sys_init 3) paxos_step demo_first"
proof -
  let ?s = "\<lparr>ps_acc = acceptors (paxos_init_cluster 3), ps_promises = {}, ps_proposals = Map.empty, ps_votes = {}\<rparr>"
  have "reach (paxos_sys_init 3) paxos_step ?s" by (rule reach_init) (simp add: paxos_sys_init_def)
  from demo_ballot [OF this, where i = 0 and j = 1 and b = 5 and v = 7 and w = 7 and hn = 0 and hv = 0]
  show ?thesis
    by (simp add: demo_first_def demo_acc_def paxos_init_cluster_def upt_rec paxos_promise_def
        paxos_accepted_def scan_reply_def)
qed

lemma demo_second_reach: "reach (paxos_sys_init 3) paxos_step demo_second"
  using demo_ballot [OF demo_first_reach, where i = 1 and j = 2 and b = 9 and v = 8 and w = 7 and hn = 5 and hv = 7]
  by (simp add: demo_first_def demo_second_def demo_acc_def paxos_promise_def paxos_accepted_def scan_reply_def)

theorem paxos_chosen_unique_witness: "7 = the (ps_proposals demo_second 9)"
proof (rule paxos_chosen_unique [OF demo_second_reach])
  have "{i. (i, 5, 7) \<in> ps_votes demo_second} = {1, 0}" by (auto simp: demo_second_def)
  then show "chosen demo_second 5 7" using majority_pair [of 1 0] by (simp add: chosen_def demo_second_def numeral_3_eq_3)
  have "{i. (i, 9, 7) \<in> ps_votes demo_second} = {2, 1}" by (auto simp: demo_second_def)
  then show "chosen demo_second 9 (the (ps_proposals demo_second 9))"
    using majority_pair [of 2 1] by (simp add: chosen_def demo_second_def numeral_3_eq_3)
qed

text \<open>
  Instances run one after the other decide once: on a fresh cluster of \<open>n\<close> nodes the first call of
  \<open>paxos_run_instance\<close> succeeds with its own value, and whatever instances follow, by whichever proposers
  and with whatever values, every learner holds that first value.
\<close>

theorem paxos_first_value_decided:
  assumes "0 < n" and "n \<le> 8" and "pid < n" and "l \<in> set (learners (paxos_runs ((pid, v) # rs) (paxos_init_cluster n)))"
  shows "fst (paxos_run_instance (paxos_init_cluster n) pid v) \<and> has_learned l \<and> learned_value l = v"
proof -
  from run_instance_fresh [OF assms(1,3,2), of v] obtain c' where
    c': "paxos_run_instance (paxos_init_cluster n) pid v = (True, c')" "decided c' v" by blast
  then have "decided (paxos_runs ((pid, v) # rs) (paxos_init_cluster n)) v" by (simp add: decided_runs)
  with c' assms(4) show ?thesis by (simp add: decided_def)
qed

theorem paxos_first_value_decided_witness:
  "learned_value (learners (paxos_runs [(1, 5), (2, 8), (0, 9)] (paxos_init_cluster 3)) ! 0) = 5"
proof -
  have "learners (paxos_runs [(1, 5), (2, 8), (0, 9)] (paxos_init_cluster 3)) ! 0 \<in>
      set (learners (paxos_runs ((1, 5) # [(2, 8), (0, 9)]) (paxos_init_cluster 3)))"
    by (rule nth_mem) code_simp
  then show ?thesis
    using paxos_first_value_decided [of 3 1 _ 5 "[(2, 8), (0, 9)]"] by simp
qed

text \<open>Requests delivered to single acceptors, and what each acceptor answers.\<close>

datatype paxos_event = Prepare nat "64 word" | Accept nat "64 word" int

datatype paxos_answer = Promised reply | Accepted | Refused

fun deliver :: "paxos_event list \<Rightarrow> PaxosAcceptor list \<Rightarrow> paxos_answer list" where
  "deliver [] as = []"
| "deliver (Prepare i b # es) as =
     (case paxos_promise (as ! i) b of
        Some (a, r) \<Rightarrow> Promised r # deliver es (as[i := a]) | None \<Rightarrow> Refused # deliver es as)"
| "deliver (Accept i b v # es) as =
     (case paxos_accepted (as ! i) b v of
        Some a \<Rightarrow> Accepted # deliver es (as[i := a]) | None \<Rightarrow> Refused # deliver es as)"

text \<open>
  \<open>paxos_accepted\<close> does not raise \<open>promised_num\<close>, so the restriction to acceptors that promised the
  number is needed. Of three acceptors, 0 and 1 promise number 1 and 1 and 2 promise number 2, none of
  them having voted, which leaves both proposers free to pick their values 10 and 20. Number 2 is then
  accepted by 0 and 1: value 20 is chosen. The delayed request of number 1 is still accepted by 0 and
  replaces its vote. A third proposer asks 0 and 2, is told of (1, 10) only, and has value 10 accepted
  under number 3 by both: a second value is chosen.
\<close>

theorem paxos_unpromised_accept_unsafe:
  "deliver [Prepare 0 1, Prepare 1 1, Prepare 1 2, Prepare 2 2, Accept 0 2 20, Accept 1 2 20, Accept 0 1 10,
      Prepare 0 3, Prepare 2 3, Accept 0 3 10, Accept 2 3 10] (acceptors (paxos_init_cluster 3)) =
    [Promised (0, 0, False), Promised (0, 0, False), Promised (0, 0, False), Promised (0, 0, False),
     Accepted, Accepted, Accepted, Promised (1, 10, True), Promised (0, 0, False), Accepted, Accepted] \<and>
   fold scan_reply [(1, 10, True), (0, 0, False)] (0, 0) = (1, 10)"
  by code_simp

end
