(* ===== verification/Raft.thy ===== *)
theory Raft
  imports Net_Prelude
begin

text \<open>
  The Raft simulation (\<open>mini-dist-protocol/src/raft.c\<close>): role changes, the two RPC handlers, the sending
  loops, the clock tick, command submission, and isolation and reconnection of nodes.

  The nodes are a list indexed as the C array; the senders work on the array, so the sender itself is
  given by its index \<open>me\<close> and every handler call updates the list. The in-use part of \<open>log\<close> is a list, so
  \<open>log_count\<close> is its length. \<open>g_seed\<close>, the static seed of the pseudo-random election timeouts, is passed
  along. Casts from \<open>uint64_t\<close> to \<open>int\<close> keep the low 32 bits as a signed number (\<open>as_int\<close>).
\<close>

section \<open>Data\<close>

definition RAFT_MAX_LOG_ENTRIES :: nat where "RAFT_MAX_LOG_ENTRIES = 1024"
definition RAFT_ELECTION_TIMEOUT_MIN_MS :: "64 word" where "RAFT_ELECTION_TIMEOUT_MIN_MS = 150"
definition RAFT_ELECTION_TIMEOUT_MAX_MS :: "64 word" where "RAFT_ELECTION_TIMEOUT_MAX_MS = 300"
definition RAFT_HEARTBEAT_INTERVAL_MS :: "64 word" where "RAFT_HEARTBEAT_INTERVAL_MS = 50"

datatype RaftState = RAFT_FOLLOWER | RAFT_CANDIDATE | RAFT_LEADER

record LogEntry =
  le_term :: "64 word"
  le_command :: int

record AppendEntriesRPC =
  ae_term :: "64 word"
  ae_leader_id :: int
  ae_prev_log_index :: "64 word"
  ae_prev_log_term :: "64 word"
  ae_entries :: "LogEntry list"
  ae_leader_commit :: "64 word"

record RequestVoteRPC =
  rv_term :: "64 word"
  rv_candidate_id :: int
  rv_last_log_index :: "64 word"
  rv_last_log_term :: "64 word"

record RaftNode =
  rn_id :: int
  rn_state :: RaftState
  current_term :: "64 word"
  voted_for :: int
  rn_log :: "LogEntry list"
  commit_index :: "64 word"
  last_applied :: "64 word"
  next_index :: "64 word list"
  match_index :: "64 word list"
  election_timeout_ms :: "64 word"
  election_elapsed_ms :: "64 word"
  heartbeat_elapsed_ms :: "64 word"
  votes_received :: int
  cluster_ids :: "int list"
  cluster_size :: nat
  active :: bool

section \<open>Timeouts and quorums\<close>

type_synonym seed = "64 word"

definition raft_rand :: "seed \<Rightarrow> 64 word \<times> seed" where
  "raft_rand g = (let g' = g * 1103515245 + 12345 in (g' div 65536 mod 32768, g'))"

definition raft_random_timeout :: "seed \<Rightarrow> 64 word \<times> seed" where
  "raft_random_timeout g =
     (case raft_rand g of (r, g') \<Rightarrow>
        (RAFT_ELECTION_TIMEOUT_MIN_MS +
           r mod (RAFT_ELECTION_TIMEOUT_MAX_MS - RAFT_ELECTION_TIMEOUT_MIN_MS + 1), g'))"

definition raft_quorum_size :: "nat \<Rightarrow> nat" where
  "raft_quorum_size n = n div 2 + 1"

fun raft_state_name :: "RaftState \<Rightarrow> string" where
  "raft_state_name RAFT_FOLLOWER = ''FOLLOWER''"
| "raft_state_name RAFT_CANDIDATE = ''CANDIDATE''"
| "raft_state_name RAFT_LEADER = ''LEADER''"

text \<open>\<open>(int) x\<close> of a 64-bit unsigned value.\<close>

definition as_int :: "64 word \<Rightarrow> int" where
  "as_int x = sint (ucast x :: 32 word)"

section \<open>Role changes\<close>

fun raft_init_nodes :: "nat \<Rightarrow> nat list \<Rightarrow> seed \<Rightarrow> RaftNode list \<times> seed" where
  "raft_init_nodes n [] g = ([], g)"
| "raft_init_nodes n (i # is) g =
     (case raft_random_timeout g of (tmo, g1) \<Rightarrow>
      case raft_init_nodes n is g1 of (nds, g2) \<Rightarrow>
        (\<lparr>rn_id = int i, rn_state = RAFT_FOLLOWER, current_term = 0, voted_for = -1, rn_log = [],
          commit_index = 0, last_applied = 0, next_index = replicate n 1, match_index = replicate n 0,
          election_timeout_ms = tmo, election_elapsed_ms = 0, heartbeat_elapsed_ms = 0,
          votes_received = 0, cluster_ids = map int [0..<n], cluster_size = n, active = True\<rparr> # nds, g2))"

text \<open>The initial seed (wall clock and address of the array) is an argument.\<close>

definition raft_init_cluster :: "nat \<Rightarrow> seed \<Rightarrow> RaftNode list \<times> seed" where
  "raft_init_cluster n g = raft_init_nodes n [0..<n] g"

definition raft_become_follower :: "RaftNode \<Rightarrow> 64 word \<Rightarrow> seed \<Rightarrow> RaftNode \<times> seed" where
  "raft_become_follower nd term g =
     (case raft_random_timeout g of (tmo, g') \<Rightarrow>
        (nd\<lparr>current_term := if term > current_term nd then term else current_term nd,
            rn_state := RAFT_FOLLOWER, voted_for := -1, votes_received := 0,
            election_timeout_ms := tmo, election_elapsed_ms := 0\<rparr>, g'))"

definition raft_become_candidate :: "RaftNode \<Rightarrow> seed \<Rightarrow> RaftNode \<times> seed" where
  "raft_become_candidate nd g =
     (case raft_random_timeout g of (tmo, g') \<Rightarrow>
        (nd\<lparr>rn_state := RAFT_CANDIDATE, current_term := current_term nd + 1, voted_for := rn_id nd,
            votes_received := 1, election_timeout_ms := tmo, election_elapsed_ms := 0\<rparr>, g'))"

definition raft_become_leader :: "RaftNode \<Rightarrow> RaftNode" where
  "raft_become_leader nd =
     nd\<lparr>rn_state := RAFT_LEADER, voted_for := -1, votes_received := 0,
        next_index := map (\<lambda>_. of_nat (length (rn_log nd) + 1)) (take (cluster_size nd) (next_index nd)) @
                      drop (cluster_size nd) (next_index nd),
        match_index := map (\<lambda>_. 0) (take (cluster_size nd) (match_index nd)) @
                      drop (cluster_size nd) (match_index nd),
        heartbeat_elapsed_ms := 0\<rparr>"

section \<open>RPC handlers\<close>

definition raft_last_log_index :: "RaftNode \<Rightarrow> 64 word" where
  "raft_last_log_index nd = (if rn_log nd = [] then 0 else of_nat (length (rn_log nd)))"

definition raft_last_log_term :: "RaftNode \<Rightarrow> 64 word" where
  "raft_last_log_term nd = (if rn_log nd = [] then 0 else le_term (rn_log nd ! (length (rn_log nd) - 1)))"

definition raft_log_ok :: "RaftNode \<Rightarrow> 64 word \<Rightarrow> 64 word \<Rightarrow> bool" where
  "raft_log_ok nd prev_index prev_term =
     (if prev_index = 0 then True
      else if as_int prev_index > int (length (rn_log nd)) then False
      else le_term (rn_log nd ! unat (prev_index - 1)) = prev_term)"

text \<open>
  The loop over the received entries, \<open>pos\<close> being the slot of the next one: a conflicting entry cuts the
  log there, an entry past the end is appended, an entry of the same term is skipped.
\<close>

fun append_loop :: "int \<Rightarrow> LogEntry list \<Rightarrow> LogEntry list \<Rightarrow> LogEntry list" where
  "append_loop pos [] log = log"
| "append_loop pos (e # es) log =
     (if pos \<ge> int RAFT_MAX_LOG_ENTRIES then log
      else if pos < int (length log)
           then append_loop (pos + 1) es
                  (if le_term (log ! nat pos) \<noteq> le_term e then take (nat pos) log @ [e] else log)
           else append_loop (pos + 1) es (log @ [e]))"

text \<open>The reply is filled in before anything else and carries the term the request met; the senders drop it.\<close>

definition raft_append_reply :: "RaftNode \<Rightarrow> AppendEntriesRPC \<Rightarrow> AppendEntriesRPC" where
  "raft_append_reply nd reply = reply\<lparr>ae_term := current_term nd, ae_entries := [], ae_leader_id := rn_id nd\<rparr>"

definition raft_handle_append_entries ::
    "RaftNode \<Rightarrow> AppendEntriesRPC \<Rightarrow> seed \<Rightarrow> bool \<times> RaftNode \<times> seed" where
  "raft_handle_append_entries nd rpc g =
     (if ae_term rpc < current_term nd then (False, nd, g)
      else case (if ae_term rpc > current_term nd then raft_become_follower nd (ae_term rpc) g else (nd, g)) of
             (nd1, g1) \<Rightarrow>
               (let nd2 = nd1\<lparr>election_elapsed_ms := 0, heartbeat_elapsed_ms := 0\<rparr>
                in if \<not> raft_log_ok nd2 (ae_prev_log_index rpc) (ae_prev_log_term rpc) then (False, nd2, g1)
                   else let conflict_index = as_int (ae_prev_log_index rpc) + 1;
                            nd3 = nd2\<lparr>rn_log := append_loop (conflict_index - 1) (ae_entries rpc) (rn_log nd2)\<rparr>;
                            last_new = word_of_int (conflict_index + int (length (ae_entries rpc)) - 1);
                            new_commit = min (ae_leader_commit rpc) last_new
                        in if ae_leader_commit rpc > commit_index nd3 \<and> new_commit > commit_index nd3
                           then (True, nd3\<lparr>commit_index := new_commit\<rparr>, g1)
                           else (True, nd3, g1)))"

text \<open>The results are the returned flag and the output parameter \<open>vote_granted\<close>.\<close>

definition raft_handle_request_vote ::
    "RaftNode \<Rightarrow> RequestVoteRPC \<Rightarrow> seed \<Rightarrow> bool \<times> bool \<times> RaftNode \<times> seed" where
  "raft_handle_request_vote nd rpc g =
     (if rv_term rpc < current_term nd then (False, False, nd, g)
      else case (if rv_term rpc > current_term nd then raft_become_follower nd (rv_term rpc) g else (nd, g)) of
             (nd1, g1) \<Rightarrow>
               (if \<not> (voted_for nd1 = -1 \<or> voted_for nd1 = rv_candidate_id rpc) then (False, False, nd1, g1)
                else let my_last_term = raft_last_log_term nd1; my_last_index = raft_last_log_index nd1;
                         log_ok = (rv_last_log_term rpc > my_last_term \<or>
                                   rv_last_log_term rpc = my_last_term \<and> rv_last_log_index rpc \<ge> my_last_index)
                     in if log_ok
                        then (True, True, nd1\<lparr>voted_for := rv_candidate_id rpc, election_elapsed_ms := 0\<rparr>, g1)
                        else (True, False, nd1, g1)))"

section \<open>Sending loops\<close>

type_synonym net = "RaftNode list \<times> seed"

definition raft_send_request_vote_body :: "nat \<Rightarrow> RequestVoteRPC \<Rightarrow> nat \<Rightarrow> net \<Rightarrow> net" where
  "raft_send_request_vote_body me rpc i st =
     (case st of (nodes, g) \<Rightarrow>
        if int i = rn_id (nodes ! me) \<or> \<not> active (nodes ! i) then st
        else case raft_handle_request_vote (nodes ! i) rpc g of (_, granted, nd', g') \<Rightarrow>
               (let nodes' = nodes[i := nd'];
                    self = nodes' ! me
                in if granted \<and> current_term (nodes' ! i) \<ge> current_term self
                   then (nodes'[me := self\<lparr>votes_received := votes_received self + 1\<rparr>], g')
                   else (nodes', g')))"

definition raft_send_request_vote :: "nat \<Rightarrow> net \<Rightarrow> net" where
  "raft_send_request_vote me st =
     (let node = fst st ! me;
          rpc = \<lparr>rv_term = current_term node, rv_candidate_id = rn_id node,
                 rv_last_log_index = raft_last_log_index node, rv_last_log_term = raft_last_log_term node\<rparr>
      in fold (raft_send_request_vote_body me rpc) [0..<cluster_size node] st)"

definition prev_term_of :: "RaftNode \<Rightarrow> 64 word \<Rightarrow> 64 word" where
  "prev_term_of node prev =
     (if prev > 0 \<and> as_int prev \<le> int (length (rn_log node)) then le_term (rn_log node ! unat (prev - 1)) else 0)"

definition raft_send_heartbeat_body :: "nat \<Rightarrow> 64 word \<Rightarrow> 64 word \<Rightarrow> nat \<Rightarrow> net \<Rightarrow> net" where
  "raft_send_heartbeat_body me term commit i st =
     (case st of (nodes, g) \<Rightarrow>
        let node = nodes ! me
        in if int i = rn_id node \<or> \<not> active (nodes ! i) then st
           else let prev = next_index node ! i - 1;
                    rpc = \<lparr>ae_term = term, ae_leader_id = rn_id node, ae_prev_log_index = prev,
                           ae_prev_log_term = prev_term_of node prev, ae_entries = [], ae_leader_commit = commit\<rparr>
                in case raft_handle_append_entries (nodes ! i) rpc g of (_, nd', g') \<Rightarrow> (nodes[i := nd'], g'))"

definition raft_send_heartbeat :: "nat \<Rightarrow> net \<Rightarrow> net" where
  "raft_send_heartbeat me st =
     (let node = fst st ! me
      in fold (raft_send_heartbeat_body me (current_term node) (commit_index node)) [0..<cluster_size node] st)"

definition raft_append_rpc :: "RaftNode \<Rightarrow> nat \<Rightarrow> AppendEntriesRPC" where
  "raft_append_rpc node i =
     (let prev = next_index node ! i - 1; start = nat (as_int (next_index node ! i) - 1)
      in \<lparr>ae_term = current_term node, ae_leader_id = rn_id node, ae_prev_log_index = prev,
          ae_prev_log_term = prev_term_of node prev,
          ae_entries = take 128 (drop start (rn_log node)), ae_leader_commit = commit_index node\<rparr>)"

definition raft_send_append_entries_body :: "nat \<Rightarrow> nat \<Rightarrow> net \<Rightarrow> net" where
  "raft_send_append_entries_body me i st =
     (case st of (nodes, g) \<Rightarrow>
        if int i = rn_id (nodes ! me) \<or> \<not> active (nodes ! i) then st
        else let rpc = raft_append_rpc (nodes ! me) i
             in case raft_handle_append_entries (nodes ! i) rpc g of (success, nd', g') \<Rightarrow>
                  (let nodes' = nodes[i := nd']; self = nodes' ! me;
                       self' = (if success
                                then let nx = next_index self ! i + of_nat (length (ae_entries rpc))
                                     in self\<lparr>next_index := (next_index self)[i := nx],
                                             match_index := (match_index self)[i := nx - 1]\<rparr>
                                else if next_index self ! i > 1
                                     then self\<lparr>next_index := (next_index self)[i := next_index self ! i - 1]\<rparr>
                                     else self)
                   in (nodes'[me := self'], g')))"

text \<open>\<open>matched\<close> of the commit loop: the leader itself and the active peers known to hold entry \<open>n\<close>.\<close>

definition raft_matched :: "RaftNode list \<Rightarrow> nat \<Rightarrow> 64 word \<Rightarrow> nat" where
  "raft_matched nodes me n =
     1 + count_if (\<lambda>i. int i \<noteq> rn_id (nodes ! me) \<and> active (nodes ! i) \<and> match_index (nodes ! me) ! i \<ge> n)
           [0..<cluster_size (nodes ! me)]"

text \<open>The commit loop runs \<open>n\<close> down from the last log index to the commit index, \<open>m\<close> steps at most.\<close>

fun raft_commit_scan :: "RaftNode list \<Rightarrow> nat \<Rightarrow> nat \<Rightarrow> 64 word" where
  "raft_commit_scan nodes me 0 = commit_index (nodes ! me)"
| "raft_commit_scan nodes me (Suc m) =
     (let node = nodes ! me; n = of_nat (Suc m) :: 64 word
      in if \<not> n > commit_index node then commit_index node
         else if le_term (rn_log node ! m) \<noteq> current_term node then raft_commit_scan nodes me m
         else if raft_matched nodes me n \<ge> raft_quorum_size (cluster_size node) then n
         else raft_commit_scan nodes me m)"

definition raft_send_append_entries :: "nat \<Rightarrow> net \<Rightarrow> net" where
  "raft_send_append_entries me st =
     (case fold (raft_send_append_entries_body me) [0..<cluster_size (fst st ! me)] st of (nodes, g) \<Rightarrow>
        (nodes[me := (nodes ! me)\<lparr>commit_index := raft_commit_scan nodes me (length (rn_log (nodes ! me)))\<rparr>], g))"

section \<open>Tick, commands and the network\<close>

definition raft_tick_node :: "nat \<Rightarrow> 64 word \<Rightarrow> nat \<Rightarrow> net \<Rightarrow> net" where
  "raft_tick_node n delta i st =
     (case st of (nodes, g) \<Rightarrow>
        let nd = nodes ! i
        in if \<not> active nd then st
           else case rn_state nd of
             RAFT_FOLLOWER \<Rightarrow>
               (let nd1 = nd\<lparr>election_elapsed_ms := election_elapsed_ms nd + delta\<rparr>
                in if election_elapsed_ms nd1 \<ge> election_timeout_ms nd1
                   then case raft_become_candidate nd1 g of (nd2, g') \<Rightarrow> (nodes[i := nd2], g')
                   else (nodes[i := nd1], g))
           | RAFT_CANDIDATE \<Rightarrow>
               (let nd1 = nd\<lparr>election_elapsed_ms := election_elapsed_ms nd + delta\<rparr>
                in if election_elapsed_ms nd1 \<ge> election_timeout_ms nd1
                   then case raft_become_candidate nd1 g of (nd2, g') \<Rightarrow> (nodes[i := nd2], g')
                   else case raft_send_request_vote i (nodes[i := nd1], g) of (nodes', g') \<Rightarrow>
                          (if votes_received (nodes' ! i) \<ge> int (raft_quorum_size n)
                           then (nodes'[i := raft_become_leader (nodes' ! i)], g')
                           else (nodes', g')))
           | RAFT_LEADER \<Rightarrow>
               (let nd1 = nd\<lparr>heartbeat_elapsed_ms := heartbeat_elapsed_ms nd + delta\<rparr>
                in if heartbeat_elapsed_ms nd1 \<ge> RAFT_HEARTBEAT_INTERVAL_MS
                   then case raft_send_append_entries i (raft_send_heartbeat i (nodes[i := nd1], g)) of (nodes', g') \<Rightarrow>
                          (nodes'[i := (nodes' ! i)\<lparr>heartbeat_elapsed_ms := 0\<rparr>], g')
                   else (nodes[i := nd1], g)))"

definition raft_tick :: "nat \<Rightarrow> 64 word \<Rightarrow> net \<Rightarrow> net" where
  "raft_tick n delta st = fold (raft_tick_node n delta) [0..<n] st"

definition raft_submit_command :: "nat \<Rightarrow> int \<Rightarrow> net \<Rightarrow> bool \<times> net" where
  "raft_submit_command me cmd st =
     (case st of (nodes, g) \<Rightarrow>
        let leader = nodes ! me
        in if rn_state leader \<noteq> RAFT_LEADER then (False, st)
           else if length (rn_log leader) \<ge> RAFT_MAX_LOG_ENTRIES then (False, st)
           else let entry = \<lparr>le_term = current_term leader, le_command = cmd\<rparr>
                in (True, raft_send_append_entries me (nodes[me := leader\<lparr>rn_log := rn_log leader @ [entry]\<rparr>], g)))"

definition raft_isolate_node :: "RaftNode \<Rightarrow> RaftNode" where
  "raft_isolate_node nd = nd\<lparr>active := False\<rparr>"

definition raft_reconnect_node :: "int \<Rightarrow> net \<Rightarrow> net" where
  "raft_reconnect_node node_id st =
     (case st of (nodes, g) \<Rightarrow>
        if node_id < 0 \<or> node_id \<ge> int (length nodes) then st
        else let nd = (nodes ! nat node_id)\<lparr>active := True\<rparr>
             in case raft_become_follower nd (current_term nd) g of (nd', g') \<Rightarrow> (nodes[nat node_id := nd'], g'))"

definition raft_find_leader :: "RaftNode list \<Rightarrow> nat option" where
  "raft_find_leader nodes = find_index (\<lambda>nd. active nd \<and> rn_state nd = RAFT_LEADER) nodes"

definition raft_follower_count :: "RaftNode list \<Rightarrow> nat" where
  "raft_follower_count nodes = count_if (\<lambda>nd. active nd \<and> rn_state nd = RAFT_FOLLOWER) nodes"

definition raft_candidate_count :: "RaftNode list \<Rightarrow> nat" where
  "raft_candidate_count nodes = count_if (\<lambda>nd. active nd \<and> rn_state nd = RAFT_CANDIDATE) nodes"

definition raft_quorum_active :: "RaftNode list \<Rightarrow> bool" where
  "raft_quorum_active nodes \<longleftrightarrow> count_if active nodes \<ge> raft_quorum_size (length nodes)"

section \<open>Casts and timeouts\<close>

lemma as_int_small:
  assumes "unat x < 2 ^ 31"
  shows "as_int x = int (unat x)"
proof -
  have eq: "(ucast x :: 32 word) = of_nat (unat x)" by simp
  have "unat (ucast x :: 32 word) = unat x" using assms by (simp only: eq unat_of_nat) simp
  then have u: "uint (ucast x :: 32 word) = int (unat x)" by (metis uint_nat)
  have lt: "int (unat x) < 2 ^ 31" using assms by (metis of_nat_less_iff of_nat_numeral of_nat_power)
  have "sint (ucast x :: 32 word) = signed_take_bit 31 (int (unat x))" by (simp only: sint_uint u) simp
  moreover have "signed_take_bit 31 (int (unat x)) = int (unat x)"
    by (rule signed_take_bit_int_eq_self) (use lt in linarith)+
  ultimately show ?thesis unfolding as_int_def by (rule trans)
qed

lemma raft_random_timeout_range:
  "150 \<le> unat (fst (raft_random_timeout g)) \<and> unat (fst (raft_random_timeout g)) \<le> 300"
proof -
  define r where "r = fst (raft_rand g)"
  have eq: "fst (raft_random_timeout g) = 150 + r mod 151"
    by (simp add: raft_random_timeout_def r_def RAFT_ELECTION_TIMEOUT_MIN_MS_def RAFT_ELECTION_TIMEOUT_MAX_MS_def
        split: prod.splits)
  have m: "unat (r mod 151) < 151" by (simp add: unat_mod_distrib)
  then have "unat (150 + r mod 151) = 150 + unat (r mod 151)" by (simp add: unat_word_ariths)
  then show ?thesis using m eq by simp
qed

section \<open>Votes\<close>

datatype raft_rpc = Vote RequestVoteRPC | Append AppendEntriesRPC

text \<open>A node answering RPCs, with the set of the votes it granted as (term, candidate).\<close>

inductive rpc_step ::
    "RaftNode \<times> seed \<times> (64 word \<times> int) set \<Rightarrow> RaftNode \<times> seed \<times> (64 word \<times> int) set \<Rightarrow> bool" where
  vote: "raft_handle_request_vote nd rpc g = (ok, granted, nd', g') \<Longrightarrow> rv_candidate_id rpc \<noteq> -1 \<Longrightarrow>
    rpc_step (nd, g, V) (nd', g', if granted then insert (rv_term rpc, rv_candidate_id rpc) V else V)"
| append: "raft_handle_append_entries nd rpc g = (ok, nd', g') \<Longrightarrow> rpc_step (nd, g, V) (nd', g', V)"

definition vote_inv :: "RaftNode \<times> seed \<times> (64 word \<times> int) set \<Rightarrow> bool" where
  "vote_inv s \<longleftrightarrow> (case s of (nd, g, V) \<Rightarrow>
     \<forall>(t, c) \<in> V. c \<noteq> -1 \<and> t \<le> current_term nd \<and> (t = current_term nd \<longrightarrow> voted_for nd = c) \<and>
       (\<forall>c'. (t, c') \<in> V \<longrightarrow> c' = c))"

lemma become_follower_term:
  "raft_become_follower nd t g = (nd', g') \<Longrightarrow> current_term nd < t \<Longrightarrow>
   current_term nd' = t \<and> voted_for nd' = -1 \<and> rn_log nd' = rn_log nd \<and> commit_index nd' = commit_index nd \<and>
   active nd' = active nd \<and> rn_id nd' = rn_id nd \<and> cluster_size nd' = cluster_size nd"
  by (auto simp: raft_become_follower_def split: prod.splits)

text \<open>The step-down prologue of both handlers.\<close>

lemma step_down:
  assumes "(if current_term nd < t then raft_become_follower nd t g else (nd, g)) = (nd1, g1)"
    and "\<not> t < current_term nd"
  shows "current_term nd1 = t" and "rn_log nd1 = rn_log nd" and "commit_index nd1 = commit_index nd"
    and "current_term nd < t \<longrightarrow> voted_for nd1 = -1" and "t = current_term nd \<longrightarrow> nd1 = nd"
  using assms become_follower_term [of nd t g nd1 g1] by (auto split: if_splits)

lemma handle_request_vote_cases:
  assumes "raft_handle_request_vote nd rpc g = (ok, granted, nd', g')"
  shows "current_term nd' = max (current_term nd) (rv_term rpc)"
    and "rv_term rpc \<le> current_term nd \<and> voted_for nd \<noteq> -1 \<longrightarrow> voted_for nd' = voted_for nd"
    and "granted \<longrightarrow> current_term nd \<le> rv_term rpc \<and> voted_for nd' = rv_candidate_id rpc"
    and "granted \<and> rv_term rpc = current_term nd \<longrightarrow> voted_for nd = -1 \<or> voted_for nd = rv_candidate_id rpc"
proof -
  have "current_term nd' = max (current_term nd) (rv_term rpc) \<and>
    (rv_term rpc \<le> current_term nd \<and> voted_for nd \<noteq> -1 \<longrightarrow> voted_for nd' = voted_for nd) \<and>
    (granted \<longrightarrow> current_term nd \<le> rv_term rpc \<and> voted_for nd' = rv_candidate_id rpc) \<and>
    (granted \<and> rv_term rpc = current_term nd \<longrightarrow> voted_for nd = -1 \<or> voted_for nd = rv_candidate_id rpc)"
  proof (cases "rv_term rpc < current_term nd")
    case True
    then show ?thesis using assms by (auto simp: raft_handle_request_vote_def max_def)
  next
    case False
    obtain nd1 g1 where d: "(if current_term nd < rv_term rpc then raft_become_follower nd (rv_term rpc) g else (nd, g)) = (nd1, g1)"
      by force
    note D = step_down [OF d False]
    show ?thesis
      using assms False D
      by (cases "rv_term rpc = current_term nd")
        (auto simp: raft_handle_request_vote_def d Let_def max_def split: if_splits)
  qed
  then show "current_term nd' = max (current_term nd) (rv_term rpc)"
    and "rv_term rpc \<le> current_term nd \<and> voted_for nd \<noteq> -1 \<longrightarrow> voted_for nd' = voted_for nd"
    and "granted \<longrightarrow> current_term nd \<le> rv_term rpc \<and> voted_for nd' = rv_candidate_id rpc"
    and "granted \<and> rv_term rpc = current_term nd \<longrightarrow> voted_for nd = -1 \<or> voted_for nd = rv_candidate_id rpc"
    by blast+
qed

lemma handle_append_entries_vote:
  assumes "raft_handle_append_entries nd rpc g = (ok, nd', g')"
  shows "current_term nd' = max (current_term nd) (ae_term rpc) \<and>
    (ae_term rpc \<le> current_term nd \<longrightarrow> voted_for nd' = voted_for nd)"
proof (cases "ae_term rpc < current_term nd")
  case True
  then show ?thesis using assms by (auto simp: raft_handle_append_entries_def max_def)
next
  case False
  obtain nd1 g1 where d: "(if current_term nd < ae_term rpc then raft_become_follower nd (ae_term rpc) g else (nd, g)) = (nd1, g1)"
    by force
  note D = step_down [OF d False]
  show ?thesis
    using assms False D
    by (cases "ae_term rpc = current_term nd")
      (auto simp: raft_handle_append_entries_def d Let_def max_def split: if_splits)
qed

lemma vote_inv_step:
  assumes "vote_inv s" and "rpc_step s t"
  shows "vote_inv t"
  using assms(2)
proof cases
  case (vote nd rpc g ok granted nd' g' V)
  note H = handle_request_vote_cases [OF vote(3)]
  have V: "c \<noteq> -1" "u \<le> current_term nd" "u = current_term nd \<longrightarrow> voted_for nd = c" "\<forall>c'. (u, c') \<in> V \<longrightarrow> c' = c"
    if "(u, c) \<in> V" for u c using assms(1) that vote(1) by (auto simp: vote_inv_def)
  have le: "current_term nd \<le> current_term nd'" using H(1) by simp
  have old: "u \<le> current_term nd' \<and> (u = current_term nd' \<longrightarrow> voted_for nd' = c)" if "(u, c) \<in> V" for u c
  proof -
    have "voted_for nd' = c" if "u = current_term nd'"
    proof -
      have eq: "u = current_term nd" "rv_term rpc \<le> current_term nd"
        using that V(2) [OF \<open>(u, c) \<in> V\<close>] H(1) le by (auto simp: max_def split: if_splits)
      then have "voted_for nd = c" "voted_for nd \<noteq> -1" using V(1,3) [OF \<open>(u, c) \<in> V\<close>] by auto
      then show ?thesis using H(2) eq(2) by simp
    qed
    then show ?thesis using V(2) [OF that] le by auto
  qed
  have new: "c = rv_candidate_id rpc" if "granted" "(rv_term rpc, c) \<in> V" for c
    using V [OF that(2)] H(3,4) that(1) by auto
  show ?thesis
    unfolding vote(2) vote_inv_def using old new V vote(4) H(1,3) by (auto dest: V(1))
next
  case (append nd rpc g ok nd' g' V)
  note H = handle_append_entries_vote [OF append(3)]
  have keep: "u \<le> current_term nd' \<and> (u = current_term nd' \<longrightarrow> voted_for nd' = c)"
    if "u \<le> current_term nd" "u = current_term nd \<longrightarrow> voted_for nd = c" for u c
  proof (cases "ae_term rpc \<le> current_term nd")
    case True
    then show ?thesis using H that by (simp add: max_def)
  next
    case False
    then have "current_term nd' = ae_term rpc" "u < ae_term rpc" using H that(1) by (auto simp: max_def)
    then show ?thesis by auto
  qed
  have "\<forall>(u, c) \<in> V. c \<noteq> -1 \<and> u \<le> current_term nd \<and> (u = current_term nd \<longrightarrow> voted_for nd = c) \<and>
      (\<forall>c'. (u, c') \<in> V \<longrightarrow> c' = c)"
    using assms(1) append(1) by (simp add: vote_inv_def)
  then have "\<forall>(u, c) \<in> V. c \<noteq> -1 \<and> (u \<le> current_term nd' \<and> (u = current_term nd' \<longrightarrow> voted_for nd' = c)) \<and>
      (\<forall>c'. (u, c') \<in> V \<longrightarrow> c' = c)" using keep by fast
  then show ?thesis unfolding append(2) vote_inv_def by simp
qed

definition vote_init :: "RaftNode \<times> seed \<times> (64 word \<times> int) set \<Rightarrow> bool" where
  "vote_init s \<longleftrightarrow> snd (snd s) = {}"

interpretation voter: invariant_system vote_init rpc_step vote_inv
proof
  show "vote_inv s" if "vote_init s" for s using that by (auto simp: vote_init_def vote_inv_def)
qed (rule vote_inv_step)

section \<open>Log replication\<close>

text \<open>The log matching relation: an entry of equal term at equal index means equal logs up to it.\<close>

definition log_matching :: "LogEntry list \<Rightarrow> LogEntry list \<Rightarrow> bool" where
  "log_matching f l \<longleftrightarrow> (\<forall>k < length f. k < length l \<longrightarrow> le_term (f ! k) = le_term (l ! k) \<longrightarrow>
     take (Suc k) f = take (Suc k) l)"

lemma log_matching_prefix: "log_matching (take m l) l"
  by (auto simp: log_matching_def)

lemma take_drop_length: "take (min (length xs - p) n) (drop p xs) = take n (drop p xs)"
  by (simp add: min_def)

lemma append_loop_appends:
  assumes "f = take p l" and "p + length es \<le> length l" and "es = take (length es) (drop p l)"
    and "length l \<le> RAFT_MAX_LOG_ENTRIES"
  shows "append_loop (int p) es f = take (p + length es) l"
  using assms
proof (induction es arbitrary: p f)
  case (Cons e es)
  have p: "p < length l" using Cons.prems(2) by simp
  have len: "length f = p" using Cons.prems(1) p by simp
  have e: "e = l ! p" and es: "es = take (length es) (drop (Suc p) l)"
    using Cons.prems(3) p by (auto simp: Cons_nth_drop_Suc [symmetric])
  have ext: "f @ [e] = take (Suc p) l" using Cons.prems(1) p e by (simp add: take_Suc_conv_app_nth)
  have "append_loop (int (Suc p)) es (f @ [e]) = take (Suc p + length es) l"
    using Cons.prems(2,4) es by (intro Cons.IH [OF ext]) auto
  then show ?case using len p Cons.prems(4) by (simp add: add.commute)
qed simp

lemma append_loop_spec:
  assumes "log_matching f l" and "take p f = take p l" and "p \<le> length f" and "p + length es \<le> length l"
    and "es = take (length es) (drop p l)" and "length l \<le> RAFT_MAX_LOG_ENTRIES"
  shows "append_loop (int p) es f =
    (if p + length es \<le> length f \<and> take (p + length es) f = take (p + length es) l then f
     else take (p + length es) l)"
  using assms
proof (induction es arbitrary: p)
  case (Cons e es)
  have p: "p < length l" "int p < int RAFT_MAX_LOG_ENTRIES" using Cons.prems(4,6) by auto
  have e: "e = l ! p" and es: "es = take (length es) (drop (Suc p) l)"
    using Cons.prems(5) p by (auto simp: Cons_nth_drop_Suc [symmetric])
  show ?case
  proof (cases "p < length f")
    case False
    then have "f = take p l" using Cons.prems(2,3) by simp
    then have "append_loop (int p) (e # es) f = take (p + length (e # es)) l"
      using Cons.prems by (intro append_loop_appends) auto
    then show ?thesis using False by simp
  next
    case True
    show ?thesis
    proof (cases "le_term (f ! p) = le_term e")
      case eq: True
      then have "take (Suc p) f = take (Suc p) l" using Cons.prems(1) True p e by (auto simp: log_matching_def)
      then have "append_loop (int (Suc p)) es f =
          (if Suc p + length es \<le> length f \<and> take (Suc p + length es) f = take (Suc p + length es) l then f
           else take (Suc p + length es) l)"
        using Cons.prems True es by (intro Cons.IH) auto
      then show ?thesis using True eq p by (simp add: add.commute)
    next
      case ne: False
      have ext: "take p f @ [e] = take (Suc p) l" using Cons.prems(2) p e by (simp add: take_Suc_conv_app_nth)
      have "append_loop (int (Suc p)) es (take p f @ [e]) = take (Suc p + length es) l"
        using Cons.prems(4,6) es by (intro append_loop_appends [OF ext]) auto
      moreover have "take (Suc (p + length es)) f \<noteq> take (Suc (p + length es)) l"
      proof
        assume "take (Suc (p + length es)) f = take (Suc (p + length es)) l"
        then have "take (Suc (p + length es)) f ! p = take (Suc (p + length es)) l ! p" by simp
        then show False using ne True e by simp
      qed
      ultimately show ?thesis using True ne p by (simp add: add.commute)
    qed
  qed
qed simp

text \<open>A request built by a leader for peer \<open>i\<close> and accepted by it.\<close>

lemma handle_append_success:
  assumes "raft_handle_append_entries nd rpc g = (True, nd', g')"
  shows "raft_log_ok nd (ae_prev_log_index rpc) (ae_prev_log_term rpc)"
    and "rn_log nd' = append_loop (as_int (ae_prev_log_index rpc)) (ae_entries rpc) (rn_log nd)"
    and "\<not> ae_term rpc < current_term nd"
proof -
  show nlt: "\<not> ae_term rpc < current_term nd" using assms by (auto simp: raft_handle_append_entries_def)
  obtain nd1 g1 where d: "(if current_term nd < ae_term rpc then raft_become_follower nd (ae_term rpc) g else (nd, g)) = (nd1, g1)"
    by force
  note D = step_down [OF d nlt]
  show "raft_log_ok nd (ae_prev_log_index rpc) (ae_prev_log_term rpc)"
    "rn_log nd' = append_loop (as_int (ae_prev_log_index rpc)) (ae_entries rpc) (rn_log nd)"
    using assms nlt D(2) by (auto simp: raft_handle_append_entries_def d Let_def raft_log_ok_def split: if_splits)
qed

lemma handle_append_failure:
  assumes "raft_handle_append_entries nd rpc g = (False, nd', g')"
  shows "rn_log nd' = rn_log nd"
proof (cases "ae_term rpc < current_term nd")
  case True
  then show ?thesis using assms by (auto simp: raft_handle_append_entries_def)
next
  case False
  obtain nd1 g1 where d: "(if current_term nd < ae_term rpc then raft_become_follower nd (ae_term rpc) g else (nd, g)) = (nd1, g1)"
    by force
  from step_down(2) [OF d False] show ?thesis
    using assms False by (auto simp: raft_handle_append_entries_def d Let_def split: if_splits)
qed

text \<open>What a leader may ask of peer \<open>i\<close>: a next index inside its own log, at most the log's capacity.\<close>

definition next_ok :: "RaftNode \<Rightarrow> nat \<Rightarrow> bool" where
  "next_ok node i \<longleftrightarrow> length (rn_log node) \<le> RAFT_MAX_LOG_ENTRIES \<and>
     1 \<le> unat (next_index node ! i) \<and> unat (next_index node ! i) \<le> length (rn_log node) + 1"

lemma raft_append_rpc_simps:
  assumes "next_ok node i"
  shows "unat (ae_prev_log_index (raft_append_rpc node i)) = unat (next_index node ! i) - 1"
    and "as_int (ae_prev_log_index (raft_append_rpc node i)) = int (unat (next_index node ! i) - 1)"
    and "ae_entries (raft_append_rpc node i) = take 128 (drop (unat (next_index node ! i) - 1) (rn_log node))"
    and "0 < unat (next_index node ! i) - 1 \<Longrightarrow>
      ae_prev_log_term (raft_append_rpc node i) = le_term (rn_log node ! (unat (next_index node ! i) - 2))"
proof -
  let ?nx = "next_index node ! i"
  have b: "1 \<le> unat ?nx" "unat ?nx \<le> 1025" using assms by (auto simp: next_ok_def RAFT_MAX_LOG_ENTRIES_def)
  then have one: "1 \<le> ?nx" by (simp add: word_le_nat_alt)
  have prev: "unat (?nx - 1) = unat ?nx - 1" using one by (simp add: unat_sub)
  show p: "unat (ae_prev_log_index (raft_append_rpc node i)) = unat ?nx - 1"
    by (simp add: raft_append_rpc_def Let_def prev)
  show "as_int (ae_prev_log_index (raft_append_rpc node i)) = int (unat ?nx - 1)"
    using b p by (subst as_int_small) auto
  have ai: "as_int ?nx = int (unat ?nx)" using b by (intro as_int_small) simp
  have "nat (int k - 1) = k - 1" for k by simp
  then have "nat (as_int ?nx - 1) = unat ?nx - 1" unfolding ai .
  then show "ae_entries (raft_append_rpc node i) = take 128 (drop (unat ?nx - 1) (rn_log node))"
    by (simp add: raft_append_rpc_def Let_def)
  assume pos: "0 < unat ?nx - 1"
  then have "0 < ?nx - 1" "1 \<le> ?nx - 1" using prev by (simp_all add: word_less_nat_alt word_le_nat_alt)
  moreover have "as_int (?nx - 1) \<le> int (length (rn_log node))"
  proof -
    have "as_int (?nx - 1) = int (unat (?nx - 1))" using prev b by (intro as_int_small) simp
    moreover have "unat (?nx - 1) \<le> length (rn_log node)" using prev assms by (auto simp: next_ok_def)
    ultimately show ?thesis by (simp only: of_nat_le_iff)
  qed
  moreover have "unat (?nx - 1 - 1) = unat ?nx - 2" using unat_sub [OF calculation(2)] prev by simp
  ultimately show "ae_prev_log_term (raft_append_rpc node i) = le_term (rn_log node ! (unat ?nx - 2))"
    by (simp add: raft_append_rpc_def Let_def prev_term_of_def)
qed

lemma log_ok_prefix:
  assumes ok: "raft_log_ok nd (ae_prev_log_index (raft_append_rpc node i)) (ae_prev_log_term (raft_append_rpc node i))"
    and nx: "next_ok node i" and m: "log_matching (rn_log nd) (rn_log node)"
    and p: "p = unat (next_index node ! i) - 1"
  shows "take p (rn_log nd) = take p (rn_log node)" and "p \<le> length (rn_log nd)"
proof -
  note R = raft_append_rpc_simps [OF nx]
  let ?prev = "ae_prev_log_index (raft_append_rpc node i)"
  have "take p (rn_log nd) = take p (rn_log node) \<and> p \<le> length (rn_log nd)"
  proof (cases "p = 0")
    case False
    then have ne: "?prev \<noteq> 0" "1 \<le> ?prev" using R(1) p by (auto simp: word_le_nat_alt)
    then have len: "p \<le> length (rn_log nd)" using ok R(2) p by (auto simp: raft_log_ok_def split: if_splits)
    have "unat (?prev - 1) = p - 1" using ne R(1) p by (simp add: unat_sub)
    then have "le_term (rn_log nd ! (p - 1)) = le_term (rn_log node ! (p - 1))"
      using ok ne R(4) p False by (auto simp: raft_log_ok_def numeral_2_eq_2 split: if_splits)
    moreover have "p - 1 < length (rn_log nd)" "p - 1 < length (rn_log node)"
      using len False nx p by (auto simp: next_ok_def)
    ultimately have "take (Suc (p - 1)) (rn_log nd) = take (Suc (p - 1)) (rn_log node)"
      using m by (auto simp: log_matching_def)
    then show ?thesis using False len by simp
  qed simp
  then show "take p (rn_log nd) = take p (rn_log node)" and "p \<le> length (rn_log nd)" by auto
qed

lemma append_from_leader:
  assumes h: "raft_handle_append_entries nd (raft_append_rpc node i) g = (True, nd', g')"
    and nx: "next_ok node i" and m: "log_matching (rn_log nd) (rn_log node)"
    and n: "n = min (length (rn_log node)) (unat (next_index node ! i) - 1 + 128)"
  shows "rn_log nd' =
    (if n \<le> length (rn_log nd) \<and> take n (rn_log nd) = take n (rn_log node) then rn_log nd else take n (rn_log node))"
proof -
  note R = raft_append_rpc_simps [OF nx]
  define p where "p = unat (next_index node ! i) - 1"
  let ?es = "ae_entries (raft_append_rpc node i)"
  have pl: "p \<le> length (rn_log node)" "length (rn_log node) \<le> RAFT_MAX_LOG_ENTRIES"
    using nx by (auto simp: next_ok_def p_def)
  have es: "?es = take 128 (drop p (rn_log node))" using R(3) by (simp add: p_def)
  have sum: "p + length ?es = n" unfolding n es p_def [symmetric] using pl by simp
  have "append_loop (int p) ?es (rn_log nd) =
      (if p + length ?es \<le> length (rn_log nd) \<and>
          take (p + length ?es) (rn_log nd) = take (p + length ?es) (rn_log node)
       then rn_log nd else take (p + length ?es) (rn_log node))"
    using log_ok_prefix [OF handle_append_success(1) [OF h] nx m p_def] m pl
    by (intro append_loop_spec) (auto simp: es take_drop_length)
  then show ?thesis unfolding handle_append_success(2) [OF h] R(2) p_def [symmetric] sum .
qed

section \<open>Commitment\<close>

text \<open>
  What a leader \<open>me\<close> knows of its peers: their logs match its own, its next indices are in range and each
  match index counts entries the peer really holds.
\<close>

definition holds_prefix :: "RaftNode list \<Rightarrow> nat \<Rightarrow> nat \<Rightarrow> nat \<Rightarrow> bool" where
  "holds_prefix nodes me n i \<longleftrightarrow> n \<le> length (rn_log (nodes ! i)) \<and>
     take n (rn_log (nodes ! i)) = take n (rn_log (nodes ! me))"

definition peer_ok :: "RaftNode list \<Rightarrow> nat \<Rightarrow> nat \<Rightarrow> bool" where
  "peer_ok nodes me i \<longleftrightarrow> log_matching (rn_log (nodes ! i)) (rn_log (nodes ! me)) \<and> next_ok (nodes ! me) i \<and>
     holds_prefix nodes me (unat (match_index (nodes ! me) ! i)) i"

definition leader_view :: "RaftNode list \<Rightarrow> nat \<Rightarrow> bool" where
  "leader_view nodes me \<longleftrightarrow> me < length nodes \<and> rn_id (nodes ! me) = int me \<and>
     cluster_size (nodes ! me) = length nodes \<and> length (next_index (nodes ! me)) = length nodes \<and>
     length (match_index (nodes ! me)) = length nodes \<and>
     length (rn_log (nodes ! me)) \<le> RAFT_MAX_LOG_ENTRIES \<and>
     (\<forall>i < length nodes. i \<noteq> me \<longrightarrow> peer_ok nodes me i)"

text \<open>What the replication loop leaves alone at the leader.\<close>

definition same_leader :: "RaftNode \<Rightarrow> RaftNode \<Rightarrow> bool" where
  "same_leader a b \<longleftrightarrow> rn_log b = rn_log a \<and> rn_id b = rn_id a \<and> cluster_size b = cluster_size a \<and>
     commit_index b = commit_index a \<and> current_term b = current_term a \<and> rn_state b = rn_state a"

lemma log_matching_after_append:
  assumes "raft_handle_append_entries nd (raft_append_rpc node i) g = (ok, nd', g')"
    and "next_ok node i" and "log_matching (rn_log nd) (rn_log node)"
  shows "log_matching (rn_log nd') (rn_log node)"
proof (cases ok)
  case True
  then show ?thesis
    using append_from_leader [OF _ assms(2,3) refl, of g nd' g'] assms(1,3) log_matching_prefix
    by (metis (full_types))
next
  case False
  then show ?thesis using handle_append_failure [of nd _ g nd' g'] assms(1,3) by simp
qed

lemma append_success_prefix:
  assumes "raft_handle_append_entries nd (raft_append_rpc node i) g = (True, nd', g')"
    and "next_ok node i" and "log_matching (rn_log nd) (rn_log node)"
    and "n = unat (next_index node ! i) - 1 + length (ae_entries (raft_append_rpc node i))"
  shows "n \<le> length (rn_log node)" and "n \<le> length (rn_log nd')" and "take n (rn_log nd') = take n (rn_log node)"
proof -
  have p: "unat (next_index node ! i) - 1 \<le> length (rn_log node)" using assms(2) by (auto simp: next_ok_def)
  have n: "n = min (length (rn_log node)) (unat (next_index node ! i) - 1 + 128)"
    using assms(4) p by (auto simp: raft_append_rpc_simps [OF assms(2)] min_def)
  show le: "n \<le> length (rn_log node)" using n by simp
  show "n \<le> length (rn_log nd')" "take n (rn_log nd') = take n (rn_log node)"
    using append_from_leader [OF assms(1-3) n] le by (auto split: if_splits)
qed

text \<open>The leader's record after the answer of peer \<open>i\<close>.\<close>

definition after_answer :: "RaftNode \<Rightarrow> nat \<Rightarrow> bool \<Rightarrow> RaftNode" where
  "after_answer self i success =
     (if success
      then let nx = next_index self ! i + of_nat (length (ae_entries (raft_append_rpc self i)))
           in self\<lparr>next_index := (next_index self)[i := nx], match_index := (match_index self)[i := nx - 1]\<rparr>
      else if next_index self ! i > 1
           then self\<lparr>next_index := (next_index self)[i := next_index self ! i - 1]\<rparr>
           else self)"

lemma send_append_body_cases:
  assumes "raft_send_append_entries_body me i (nodes, g) = (nodes', g')" and "rn_id (nodes ! me) = int me"
  obtains (skip) "nodes' = nodes"
  | (sent) ok nd' where "i \<noteq> me" "raft_handle_append_entries (nodes ! i) (raft_append_rpc (nodes ! me) i) g = (ok, nd', g')"
      "nodes' = nodes[i := nd', me := after_answer (nodes ! me) i ok]"
proof (cases "i = me \<or> \<not> active (nodes ! i)")
  case True
  then show ?thesis using assms skip by (auto simp: raft_send_append_entries_body_def)
next
  case False
  obtain ok nd' g2 where h: "raft_handle_append_entries (nodes ! i) (raft_append_rpc (nodes ! me) i) g = (ok, nd', g2)"
    by (cases "raft_handle_append_entries (nodes ! i) (raft_append_rpc (nodes ! me) i) g")
  have self: "nodes[i := nd'] ! me = nodes ! me" using False by simp
  have "(nodes', g') = (nodes[i := nd', me := after_answer (nodes ! me) i ok], g2)"
    using assms False h
    by (simp add: raft_send_append_entries_body_def Let_def self after_answer_def split: if_splits)
  then show ?thesis using sent [of ok nd'] h False by auto
qed

lemma same_leader_after_answer: "same_leader self (after_answer self i ok)"
  by (simp add: same_leader_def after_answer_def Let_def)

lemma after_answer_other:
  "j \<noteq> i \<Longrightarrow> next_index (after_answer self i ok) ! j = next_index self ! j \<and>
   match_index (after_answer self i ok) ! j = match_index self ! j"
  by (simp add: after_answer_def Let_def)

lemma length_after_answer:
  "length (next_index (after_answer self i ok)) = length (next_index self)"
  "length (match_index (after_answer self i ok)) = length (match_index self)"
  by (simp_all add: after_answer_def Let_def)

lemma after_answer_success:
  assumes "next_ok self i" and "i < length (next_index self)" and "i < length (match_index self)"
    and "n = unat (next_index self ! i) - 1 + length (ae_entries (raft_append_rpc self i))"
    and "n \<le> length (rn_log self)"
  shows "unat (next_index (after_answer self i True) ! i) = n + 1"
    and "unat (match_index (after_answer self i True) ! i) = n"
proof -
  let ?k = "length (ae_entries (raft_append_rpc self i))"
  let ?nx = "next_index self ! i + of_nat ?k :: 64 word"
  have b: "1 \<le> unat (next_index self ! i)" "n \<le> 1024"
    using assms(1,5) by (auto simp: next_ok_def RAFT_MAX_LOG_ENTRIES_def)
  have k: "unat (of_nat ?k :: 64 word) = ?k"
    using b assms(4) by (simp only: unat_of_nat) simp
  have nx: "unat ?nx = n + 1" using b assms(4) k by (simp only: unat_word_ariths k) simp
  then have "1 \<le> ?nx" by (simp add: word_le_nat_alt)
  then have m: "unat (?nx - 1) = n" using nx by (simp add: unat_sub)
  show "unat (next_index (after_answer self i True) ! i) = n + 1"
    "unat (match_index (after_answer self i True) ! i) = n"
    using nx m assms(2,3) by (simp_all add: after_answer_def Let_def)
qed

lemma after_answer_failure:
  assumes "next_ok self i" and "i < length (next_index self)"
  shows "next_ok (after_answer self i False) i" and "match_index (after_answer self i False) = match_index self"
proof -
  have "unat (next_index self ! i - 1) = unat (next_index self ! i) - 1" if "1 < next_index self ! i"
    using that by (simp add: unat_sub)
  then show "next_ok (after_answer self i False) i"
    using assms by (auto simp: after_answer_def next_ok_def word_less_nat_alt)
  show "match_index (after_answer self i False) = match_index self" by (simp add: after_answer_def)
qed

lemma next_ok_cong: "rn_log a = rn_log b \<Longrightarrow> next_index a ! i = next_index b ! i \<Longrightarrow> next_ok a i = next_ok b i"
  by (simp add: next_ok_def)

lemma send_append_body_view:
  assumes view: "leader_view nodes me" and i: "i < length nodes"
    and step: "raft_send_append_entries_body me i (nodes, g) = (nodes', g')"
  shows "leader_view nodes' me \<and> length nodes' = length nodes \<and> same_leader (nodes ! me) (nodes' ! me)"
proof -
  have me: "me < length nodes" "rn_id (nodes ! me) = int me"
    and len: "length (next_index (nodes ! me)) = length nodes" "length (match_index (nodes ! me)) = length nodes"
    and peers: "\<And>j. j < length nodes \<Longrightarrow> j \<noteq> me \<Longrightarrow> peer_ok nodes me j"
    using view by (auto simp: leader_view_def)
  from step me(2) show ?thesis
  proof (cases rule: send_append_body_cases)
    case skip
    then show ?thesis using view by (simp add: same_leader_def)
  next
    case (sent ok nd')
    let ?self = "nodes ! me" and ?self' = "after_answer (nodes ! me) i ok"
    have p: "log_matching (rn_log (nodes ! i)) (rn_log ?self)" "next_ok ?self i"
      "holds_prefix nodes me (unat (match_index ?self ! i)) i"
      using peers [OF i sent(1)] by (auto simp: peer_ok_def)
    have at: "nodes' ! me = ?self'" "nodes' ! i = nd'" "\<And>j. j \<noteq> me \<Longrightarrow> j \<noteq> i \<Longrightarrow> nodes' ! j = nodes ! j"
      "length nodes' = length nodes"
      using sent(1,3) me(1) i by auto
    have same: "same_leader ?self ?self'" by (rule same_leader_after_answer)
    have peer_i: "peer_ok nodes' me i"
    proof (cases ok)
      case True
      define n where "n = unat (next_index ?self ! i) - 1 + length (ae_entries (raft_append_rpc ?self i))"
      have h: "raft_handle_append_entries (nodes ! i) (raft_append_rpc ?self i) g = (True, nd', g')"
        using sent(2) True by simp
      note P = append_success_prefix [OF h p(2,1) n_def]
      have il: "i < length (next_index ?self)" "i < length (match_index ?self)" using i len by auto
      note A = after_answer_success [OF p(2) il n_def P(1)]
      show ?thesis
        using log_matching_after_append [OF sent(2) p(2,1)] P A p(2) True same
        by (simp add: peer_ok_def at holds_prefix_def same_leader_def next_ok_def)
    next
      case False
      have il: "i < length (next_index ?self)" using i len by auto
      have log: "rn_log nd' = rn_log (nodes ! i)" using handle_append_failure [of "nodes ! i" _ g nd' g'] sent(2) False by simp
      show ?thesis
        using after_answer_failure [OF p(2) il] p same False log
        by (simp add: peer_ok_def at holds_prefix_def same_leader_def)
    qed
    have peer_j: "peer_ok nodes' me j" if "j < length nodes" "j \<noteq> me" "j \<noteq> i" for j
      using peers [OF that(1,2)] after_answer_other [OF that(3), of ?self ok] same at(1) at(3) [OF that(2,3)]
        next_ok_cong [of ?self' ?self j]
      by (simp add: peer_ok_def holds_prefix_def same_leader_def)
    have "leader_view nodes' me"
      unfolding leader_view_def
      using view same at(1,4) length_after_answer [of ?self i ok] len peer_i peer_j
      by (auto simp: leader_view_def same_leader_def)
    then show ?thesis using same at by simp
  qed
qed

lemma same_leader_trans: "same_leader a b \<Longrightarrow> same_leader b c \<Longrightarrow> same_leader a c"
  by (simp add: same_leader_def)

lemma send_append_fold_view:
  assumes "leader_view nodes me" and "\<forall>i \<in> set is. i < length nodes"
    and "fold (raft_send_append_entries_body me) is (nodes, g) = (nodes', g')"
  shows "leader_view nodes' me \<and> length nodes' = length nodes \<and> same_leader (nodes ! me) (nodes' ! me)"
  using assms
proof (induction "is" arbitrary: nodes g)
  case Nil
  then show ?case by (simp add: same_leader_def)
next
  case (Cons i "is")
  obtain n1 g1 where b: "raft_send_append_entries_body me i (nodes, g) = (n1, g1)" by force
  have 1: "leader_view n1 me \<and> length n1 = length nodes \<and> same_leader (nodes ! me) (n1 ! me)"
    using Cons.prems by (intro send_append_body_view [OF _ _ b]) auto
  then have "leader_view nodes' me \<and> length nodes' = length n1 \<and> same_leader (n1 ! me) (nodes' ! me)"
    using Cons.prems b by (intro Cons.IH [of n1 g1]) auto
  then show ?case using 1 same_leader_trans by auto
qed

lemma raft_commit_scan_cases:
  assumes "raft_commit_scan nodes me m = n" and "m \<le> RAFT_MAX_LOG_ENTRIES"
  shows "n = commit_index (nodes ! me) \<or>
    (commit_index (nodes ! me) < n \<and> 1 \<le> unat n \<and> unat n \<le> m \<and>
     le_term (rn_log (nodes ! me) ! (unat n - 1)) = current_term (nodes ! me) \<and>
     raft_quorum_size (cluster_size (nodes ! me)) \<le> raft_matched nodes me n)"
  using assms
proof (induction m)
  case 0
  then show ?case by simp
next
  case (Suc m)
  let ?n = "of_nat (Suc m) :: 64 word"
  have u: "unat ?n = Suc m" using Suc.prems(2) by (simp only: unat_of_nat RAFT_MAX_LOG_ENTRIES_def) simp
  have ih: "raft_commit_scan nodes me m = n \<Longrightarrow> ?case" using Suc.IH Suc.prems(2) by auto
  show ?case
  proof (cases "commit_index (nodes ! me) < ?n \<and> le_term (rn_log (nodes ! me) ! m) = current_term (nodes ! me) \<and>
      raft_quorum_size (cluster_size (nodes ! me)) \<le> raft_matched nodes me ?n")
    case True
    then have "n = ?n" using Suc.prems(1) by (simp only: raft_commit_scan.simps Let_def) simp
    then show ?thesis using True u by (simp del: of_nat_Suc)
  next
    case False
    then have "n = commit_index (nodes ! me) \<or> raft_commit_scan nodes me m = n"
      using Suc.prems(1) by (auto simp del: of_nat_Suc simp: Let_def split: if_splits)
    then show ?thesis using ih by blast
  qed
qed

lemma holds_prefix_le:
  assumes "holds_prefix nodes me m i" and "n \<le> m"
  shows "holds_prefix nodes me n i"
proof -
  have cut: "take n (take m xs) = take n xs" for xs :: "LogEntry list" using assms(2) by (simp add: min_def)
  from assms have "take n (take m (rn_log (nodes ! i))) = take n (take m (rn_log (nodes ! me)))"
    by (simp add: holds_prefix_def)
  then show ?thesis using assms by (simp add: holds_prefix_def cut)
qed

lemma count_if_upt: "count_if P [0..<k] = card {i. i < k \<and> P i}"
proof -
  have "length (filter P [0..<k]) = card (set (filter P [0..<k]))"
    by (rule distinct_card [symmetric]) simp
  moreover have "set (filter P [0..<k]) = {i. i < k \<and> P i}" by auto
  ultimately show ?thesis by (simp only: count_if_def)
qed

lemma matched_majority:
  assumes view: "leader_view nodes me" and n: "unat n \<le> length (rn_log (nodes ! me))"
    and q: "raft_quorum_size (length nodes) \<le> raft_matched nodes me n"
  shows "majority_of (length nodes) {i. i < length nodes \<and> holds_prefix nodes me (unat n) i}"
proof -
  let ?A = "{i. i < length nodes \<and> i \<noteq> me \<and> active (nodes ! i) \<and> match_index (nodes ! me) ! i \<ge> n}"
  let ?H = "{i. i < length nodes \<and> holds_prefix nodes me (unat n) i}"
  have me: "me < length nodes" "rn_id (nodes ! me) = int me" "cluster_size (nodes ! me) = length nodes"
    using view by (auto simp: leader_view_def)
  have "raft_matched nodes me n = 1 + card ?A"
    unfolding raft_matched_def count_if_upt me(2,3) of_nat_eq_iff by (rule refl)
  then have card: "raft_matched nodes me n = card (insert me ?A)" by simp
  have "insert me ?A \<subseteq> ?H"
  proof
    fix i assume "i \<in> insert me ?A"
    then consider "i = me" | "i \<in> ?A" by blast
    then show "i \<in> ?H"
    proof cases
      case 1
      then show ?thesis using me n by (simp add: holds_prefix_def)
    next
      case 2
      then have "holds_prefix nodes me (unat (match_index (nodes ! me) ! i)) i" and le: "unat n \<le> unat (match_index (nodes ! me) ! i)"
        using view by (auto simp: leader_view_def peer_ok_def word_le_nat_alt)
      then have "holds_prefix nodes me (unat n) i" by (rule holds_prefix_le)
      then show ?thesis using 2 by simp
    qed
  qed
  then have "card (insert me ?A) \<le> card ?H" by (intro card_mono) auto
  then show ?thesis using q card by (auto simp: majority_of_def raft_quorum_size_def)
qed

lemma leader_view_commit:
  "leader_view nodes me \<Longrightarrow> leader_view (nodes[me := (nodes ! me)\<lparr>commit_index := c\<rparr>]) me"
proof -
  assume v: "leader_view nodes me"
  let ?N = "nodes[me := (nodes ! me)\<lparr>commit_index := c\<rparr>]"
  have "peer_ok ?N me i" if "i < length nodes" "i \<noteq> me" for i
    using v that by (auto simp: leader_view_def peer_ok_def holds_prefix_def next_ok_def)
  then show ?thesis using v by (auto simp: leader_view_def)
qed

section \<open>Properties\<close>

text \<open>
  A node votes once per term while it answers RPCs: whatever vote requests and append requests it
  handles, from any state, two votes it grants in the same term go to the same candidate.
\<close>

theorem raft_vote_once:
  assumes "reach vote_init rpc_step (nd, g, V)" and "(t, c) \<in> V" and "(t, c') \<in> V"
  shows "c = c'"
  using voter.reach_inv [OF assms(1)] assms(2,3) by (auto simp: vote_inv_def)

definition demo_node :: "nat \<Rightarrow> (nat \<times> int) list \<Rightarrow> 64 word list \<Rightarrow> RaftNode" where
  "demo_node i es nx = \<lparr>rn_id = int i, rn_state = RAFT_FOLLOWER, current_term = 2, voted_for = -1,
     rn_log = map (\<lambda>(t, c). \<lparr>le_term = of_nat t, le_command = c\<rparr>) es, commit_index = 0, last_applied = 0,
     next_index = nx, match_index = [0, 0, 0], election_timeout_ms = 150, election_elapsed_ms = 0,
     heartbeat_elapsed_ms = 0, votes_received = 0, cluster_ids = [0, 1, 2], cluster_size = 3, active = True\<rparr>"

definition demo_request :: "64 word \<Rightarrow> RequestVoteRPC" where
  "demo_request n = \<lparr>rv_term = 3, rv_candidate_id = 1, rv_last_log_index = n, rv_last_log_term = 2\<rparr>"

lemma demo_vote_step:
  assumes "raft_handle_request_vote nd (demo_request n) g = (ok, True, nd', g')"
  shows "rpc_step (nd, g, V) (nd', g', insert (3, rv_candidate_id (demo_request n)) V)"
proof -
  have "rv_candidate_id (demo_request n) \<noteq> -1" "rv_term (demo_request n) = 3" by (simp_all add: demo_request_def)
  then show ?thesis using rpc_step.vote [OF assms, of V] by simp
qed

definition demo_voter :: RaftNode where
  "demo_voter = demo_node 0 [(2, 9)] [1, 1, 1]"

lemma demo_votes_reach:
  "\<exists>nd g. reach vote_init rpc_step (nd, g,
      {(3, rv_candidate_id (demo_request 5)), (3, rv_candidate_id (demo_request 4))})"
proof -
  obtain ok1 gr1 nd1 g1 where s1: "raft_handle_request_vote demo_voter (demo_request 4) 0 = (ok1, gr1, nd1, g1)"
    by (cases "raft_handle_request_vote demo_voter (demo_request 4) 0")
  have gr1: "gr1"
  proof -
    have "fst (snd (raft_handle_request_vote demo_voter (demo_request 4) 0))" by code_simp
    then show ?thesis by (simp add: s1)
  qed
  obtain ok2 gr2 nd2 g2 where s2: "raft_handle_request_vote nd1 (demo_request 5) g1 = (ok2, gr2, nd2, g2)"
    by (cases "raft_handle_request_vote nd1 (demo_request 5) g1")
  have gr2: "gr2"
  proof -
    have "fst (snd (case raft_handle_request_vote demo_voter (demo_request 4) 0 of
        (_, _, nd, g) \<Rightarrow> raft_handle_request_vote nd (demo_request 5) g))" by code_simp
    then show ?thesis by (simp add: s1 s2)
  qed
  have 0: "reach vote_init rpc_step (demo_voter, 0, {})" by (rule reach_init) (simp add: vote_init_def)
  have 1: "rpc_step (demo_voter, 0, {}) (nd1, g1, {(3, rv_candidate_id (demo_request 4))})"
    using s1 gr1 by (intro demo_vote_step) simp
  have 2: "rpc_step (nd1, g1, {(3, rv_candidate_id (demo_request 4))})
      (nd2, g2, {(3, rv_candidate_id (demo_request 5)), (3, rv_candidate_id (demo_request 4))})"
    using s2 gr2 by (intro demo_vote_step) simp
  from reach_step [OF reach_step [OF 0 1] 2] show ?thesis by blast
qed

theorem raft_vote_once_witness: "rv_candidate_id (demo_request 4) = rv_candidate_id (demo_request 5)"
proof -
  obtain nd g where "reach vote_init rpc_step (nd, g,
      {(3, rv_candidate_id (demo_request 5)), (3, rv_candidate_id (demo_request 4))})"
    using demo_votes_reach by blast
  then show ?thesis by (rule raft_vote_once [where t = 3]) simp_all
qed

text \<open>
  C16. Log replication: a request that a leader builds for a peer whose next index lies in the leader's log or just behind it (at most 128 entries
  from the next index, preceded by the index and term of the entry before) and that the peer accepts makes the peer's log
  agree with the leader's up to the last entry sent. If it already agreed that far nothing is cut off
  the peer's log, not even entries beyond; otherwise the peer's log becomes exactly that prefix of the
  leader's. The logs are assumed to satisfy the log matching relation before, and do afterwards.
\<close>

theorem raft_append_matches_leader:
  assumes "raft_handle_append_entries nd (raft_append_rpc leader i) g = (True, nd', g')"
    and "next_ok leader i" and "log_matching (rn_log nd) (rn_log leader)"
  shows "let n = min (length (rn_log leader)) (unat (next_index leader ! i) - 1 + 128)
    in take n (rn_log nd') = take n (rn_log leader) \<and> log_matching (rn_log nd') (rn_log leader) \<and>
       rn_log nd' = (if n \<le> length (rn_log nd) \<and> take n (rn_log nd) = take n (rn_log leader) then rn_log nd
                     else take n (rn_log leader))"
  using append_from_leader [OF assms refl] log_matching_after_append [OF assms]
  by (auto simp: Let_def)

lemma demo_matching: "log_matching (rn_log (demo_node 1 [(1, 5), (1, 6)] [1, 1, 1])) (rn_log (demo_node 0 [(1, 5), (2, 7), (2, 8)] [1, 2, 1]))"
  by (auto simp: log_matching_def demo_node_def less_Suc_eq)

theorem raft_append_matches_leader_witness:
  "rn_log (fst (snd (raft_handle_append_entries (demo_node 1 [(1, 5), (1, 6)] [1, 1, 1])
     (raft_append_rpc (demo_node 0 [(1, 5), (2, 7), (2, 8)] [1, 2, 1]) 1) 0))) =
   rn_log (demo_node 0 [(1, 5), (2, 7), (2, 8)] [1, 2, 1])"
proof -
  let ?l = "demo_node 0 [(1, 5), (2, 7), (2, 8)] [1, 2, 1]" and ?f = "demo_node 1 [(1, 5), (1, 6)] [1, 1, 1]"
  let ?r = "raft_handle_append_entries ?f (raft_append_rpc ?l 1) 0"
  have ok: "?r = (True, fst (snd ?r), snd (snd ?r))" by code_simp
  have nx: "next_ok ?l 1" by (simp add: next_ok_def demo_node_def RAFT_MAX_LOG_ENTRIES_def)
  have len: "length (rn_log ?l) = 3" "unat (next_index ?l ! 1) = 2" "length (rn_log ?f) = 2"
    by (simp_all add: demo_node_def)
  have "take 3 (rn_log ?l) = rn_log ?l" using len by simp
  then show ?thesis using raft_append_matches_leader [OF ok nx demo_matching] unfolding Let_def len by simp
qed

text \<open>
  The replication round of a leader that views its peers correctly: when the commit index moves to \<open>n\<close>, a majority of the
  cluster (the leader included) holds the leader's first \<open>n\<close> log entries and entry \<open>n\<close> is of the leader's own term; the
  commit index never moves back and the view stays correct.
\<close>

lemma raft_round_commits:
  assumes "leader_view nodes me" and "raft_send_append_entries me (nodes, g) = (nodes', g')"
  shows "leader_view nodes' me \<and> rn_log (nodes' ! me) = rn_log (nodes ! me) \<and>
    commit_index (nodes ! me) \<le> commit_index (nodes' ! me) \<and>
    (commit_index (nodes' ! me) = commit_index (nodes ! me) \<or>
     majority_of (length nodes) {i. i < length nodes \<and> holds_prefix nodes' me (unat (commit_index (nodes' ! me))) i} \<and>
     le_term (rn_log (nodes ! me) ! (unat (commit_index (nodes' ! me)) - 1)) = current_term (nodes ! me))"
proof -
  obtain n1 g1 where f: "fold (raft_send_append_entries_body me) [0..<cluster_size (nodes ! me)] (nodes, g) = (n1, g1)"
    by force
  define c where "c = raft_commit_scan n1 me (length (rn_log (n1 ! me)))"
  have nodes': "nodes' = n1[me := (n1 ! me)\<lparr>commit_index := c\<rparr>]"
    using assms(2) f by (simp add: raft_send_append_entries_def c_def)
  have "cluster_size (nodes ! me) = length nodes" using assms(1) by (simp add: leader_view_def)
  then have v: "leader_view n1 me" "length n1 = length nodes" "same_leader (nodes ! me) (n1 ! me)"
    using send_append_fold_view [OF assms(1) _ f] by auto
  have me: "me < length n1" "length (rn_log (n1 ! me)) \<le> RAFT_MAX_LOG_ENTRIES" "cluster_size (n1 ! me) = length n1"
    using v(1) by (auto simp: leader_view_def)
  have prefix: "holds_prefix nodes' me k i = holds_prefix n1 me k i" for k i
    using me(1) by (cases "i = me") (auto simp: holds_prefix_def nodes')
  have at: "nodes' ! me = (n1 ! me)\<lparr>commit_index := c\<rparr>" using me(1) nodes' by simp
  from raft_commit_scan_cases [OF c_def [symmetric] me(2)]
  have "c = commit_index (n1 ! me) \<or> (commit_index (n1 ! me) < c \<and>
      majority_of (length n1) {i. i < length n1 \<and> holds_prefix n1 me (unat c) i} \<and>
      le_term (rn_log (n1 ! me) ! (unat c - 1)) = current_term (n1 ! me))"
    using matched_majority [OF v(1), of c] me(3) by auto
  then show ?thesis
    using leader_view_commit [OF v(1), of c] v(2,3) at prefix nodes'
    by (auto simp: same_leader_def)
qed

text \<open>
  Two leaders in one term. In a fresh cluster of three nodes, nodes 0 and 1 time out in the same tick
  and become candidates of term 1. In the next tick node 0 wins the vote of node 2 and becomes leader,
  and \<open>raft_become_leader\<close> clears its vote; node 1, still a candidate of term 1, is then granted the
  leader's own vote and becomes a second leader of term 1.
\<close>

theorem raft_two_leaders_one_term:
  "let nodes = fst (raft_tick 3 1 (raft_tick 3 200 (raft_init_cluster 3 2)))
   in map rn_state nodes = [RAFT_LEADER, RAFT_LEADER, RAFT_FOLLOWER] \<and> map current_term nodes = [1, 1, 1]"
  by code_simp

text \<open>Five nodes of which three are isolated, and the state after three ticks.\<close>

definition demo_minority :: net where
  "demo_minority =
     (case raft_init_cluster 5 2 of (nodes, g) \<Rightarrow>
        (nodes[2 := raft_isolate_node (nodes ! 2), 3 := raft_isolate_node (nodes ! 3),
               4 := raft_isolate_node (nodes ! 4)], g))"

text \<open>
  A candidate counts the same voter again in every tick. In a cluster of five nodes of which three
  are isolated, so that no majority is active, node 0 asks node 1 for its vote twice and becomes leader
  with two of five nodes behind it.
\<close>

theorem raft_leader_without_quorum:
  "\<not> raft_quorum_active (fst (raft_tick 5 1 (raft_tick 5 1 (raft_tick 5 160 demo_minority)))) \<and>
   raft_find_leader (fst (raft_tick 5 1 (raft_tick 5 1 (raft_tick 5 160 demo_minority)))) = Some 0"
proof
  show "\<not> raft_quorum_active (fst (raft_tick 5 1 (raft_tick 5 1 (raft_tick 5 160 demo_minority))))"
    by code_simp
  show "raft_find_leader (fst (raft_tick 5 1 (raft_tick 5 1 (raft_tick 5 160 demo_minority)))) = Some 0"
    by code_simp
qed

end
