(* ===== verification/RaftReplication.thy ===== *)
theory RaftReplication
  imports Raft
begin

text \<open>
  Commitment over whole runs of the Raft simulation of \<open>mini-dist-protocol/src/raft.c\<close> in which a single node leads. The
  runs start in the initial cluster and go through ticks, submitted commands, isolation and reconnection of nodes; node
  \<open>me\<close> may win, lose and win again, but no other node becomes leader. That what the leader knows of its peers is true,
  the premise of the lemma on a replication round, is an invariant of these runs.
\<close>

section \<open>Runs\<close>

inductive raft_call :: "net \<Rightarrow> net \<Rightarrow> bool" where
  tick: "i < length (fst st) \<Longrightarrow> raft_call st (raft_tick_node (length (fst st)) delta i st)"
| submit: "i < length (fst st) \<Longrightarrow> raft_call st (snd (raft_submit_command i cmd st))"
| isolate: "raft_call (nodes, g) (nodes[i := raft_isolate_node (nodes ! i)], g)"
| reconnect: "raft_call st (raft_reconnect_node k st)"

definition only_leader :: "nat \<Rightarrow> net \<Rightarrow> bool" where
  "only_leader me st \<longleftrightarrow> (\<forall>i < length (fst st). i \<noteq> me \<longrightarrow> rn_state (fst st ! i) \<noteq> RAFT_LEADER)"

text \<open>The arrays of a node have room for a cluster of 8 nodes (\<open>RAFT_MAX_NODES\<close>).\<close>

definition reign_start :: "nat \<Rightarrow> nat \<Rightarrow> net \<Rightarrow> bool" where
  "reign_start n me st \<longleftrightarrow> me < n \<and> n \<le> 8 \<and> (\<exists>g. st = raft_init_cluster n g)"

definition reign_step :: "nat \<Rightarrow> net \<Rightarrow> net \<Rightarrow> bool" where
  "reign_step me st st' \<longleftrightarrow> raft_call st st' \<and> only_leader me st'"

text \<open>
  The invariant: the leader's view is correct, every log is a prefix of the leader's, nobody has committed more than the
  leader or more than its own log, and a majority holds what the leader has committed.
\<close>

definition node_ok :: "RaftNode \<Rightarrow> RaftNode \<Rightarrow> bool" where
  "node_ok leader nd \<longleftrightarrow> rn_log nd = take (length (rn_log nd)) (rn_log leader) \<and>
     commit_index nd \<le> commit_index leader \<and> unat (commit_index nd) \<le> length (rn_log nd)"

definition holders :: "nat \<Rightarrow> RaftNode list \<Rightarrow> nat set" where
  "holders c nodes = {i. i < length nodes \<and> c \<le> length (rn_log (nodes ! i))}"

definition reign_inv :: "nat \<Rightarrow> RaftNode list \<Rightarrow> bool" where
  "reign_inv me nodes \<longleftrightarrow> leader_view nodes me \<and> (\<forall>i < length nodes. node_ok (nodes ! me) (nodes ! i)) \<and>
     (commit_index (nodes ! me) = 0 \<or> majority_of (length nodes) (holders (unat (commit_index (nodes ! me))) nodes))"

lemma take_of_prefix: "xs = take (length xs) ys \<Longrightarrow> m \<le> length xs \<Longrightarrow> take m xs = take m ys"
  using take_take [of m "length xs" ys] by (simp add: min_def)

section \<open>What elections leave alone\<close>

definition core :: "RaftNode \<Rightarrow> LogEntry list \<times> int \<times> nat \<times> 64 word \<times> 64 word list \<times> 64 word list" where
  "core nd = (rn_log nd, rn_id nd, cluster_size nd, commit_index nd, next_index nd, match_index nd)"

lemma core_eqD:
  assumes "map core nodes' = map core nodes"
  shows "length nodes' = length nodes" "i < length nodes \<Longrightarrow> core (nodes' ! i) = core (nodes ! i)"
proof -
  show len: "length nodes' = length nodes" using assms map_eq_imp_length_eq by blast
  show "core (nodes' ! i) = core (nodes ! i)" if "i < length nodes"
    using arg_cong [where f = "\<lambda>xs. xs ! i", OF assms] that len by simp
qed

lemma reign_inv_core:
  assumes "map core nodes' = map core nodes" and "reign_inv me nodes"
  shows "reign_inv me nodes'"
proof -
  note len = core_eqD(1) [OF assms(1)]
  have at: "rn_log (nodes' ! i) = rn_log (nodes ! i)" "rn_id (nodes' ! i) = rn_id (nodes ! i)"
      "cluster_size (nodes' ! i) = cluster_size (nodes ! i)" "commit_index (nodes' ! i) = commit_index (nodes ! i)"
      "next_index (nodes' ! i) = next_index (nodes ! i)" "match_index (nodes' ! i) = match_index (nodes ! i)"
    if "i < length nodes" for i
    using core_eqD(2) [OF assms(1) that] by (simp_all add: core_def)
  have me: "me < length nodes" using assms(2) by (simp add: reign_inv_def leader_view_def)
  have "leader_view nodes' me"
    using assms(2) by (simp add: reign_inv_def leader_view_def peer_ok_def next_ok_def holds_prefix_def len at me)
  moreover have "\<forall>i < length nodes. node_ok (nodes' ! me) (nodes' ! i)"
    using assms(2) by (simp add: reign_inv_def node_ok_def at me)
  moreover have "holders c nodes' = holders c nodes" for c using at(1) by (auto simp: holders_def len)
  ultimately show ?thesis using assms(2) by (simp add: reign_inv_def len at(4) [OF me])
qed

lemma core_update: "core nd = core (nodes ! i) \<Longrightarrow> map core (nodes[i := nd]) = map core nodes"
  by (cases "i < length nodes") (simp_all add: map_update list_update_same_conv list_update_beyond)

lemma core_follower: "raft_become_follower nd t g = (nd', g') \<Longrightarrow> core nd' = core nd"
  by (auto simp: raft_become_follower_def core_def split: prod.splits)

lemma core_candidate: "raft_become_candidate nd g = (nd', g') \<Longrightarrow> core nd' = core nd"
  by (auto simp: raft_become_candidate_def core_def split: prod.splits)

lemma core_vote: "raft_handle_request_vote nd rpc g = (ok, granted, nd', g') \<Longrightarrow> core nd' = core nd"
proof -
  assume h: "raft_handle_request_vote nd rpc g = (ok, granted, nd', g')"
  obtain nd1 g1 where d: "(if current_term nd < rv_term rpc then raft_become_follower nd (rv_term rpc) g else (nd, g)) = (nd1, g1)"
    by force
  then have "core nd1 = core nd" using core_follower by (auto split: if_splits)
  then show ?thesis using h d by (auto simp: raft_handle_request_vote_def core_def Let_def split: if_splits)
qed

lemma core_request_vote_body: "map core (fst (raft_send_request_vote_body me rpc i st)) = map core (fst st)"
proof -
  obtain nodes g where st: "st = (nodes, g)" by force
  obtain ok granted nd' g' where h: "raft_handle_request_vote (nodes ! i) rpc g = (ok, granted, nd', g')"
    by (cases "raft_handle_request_vote (nodes ! i) rpc g")
  let ?n = "nodes[i := nd']"
  have n: "map core ?n = map core nodes" by (rule core_update [OF core_vote [OF h]])
  have "core ((?n ! me)\<lparr>votes_received := v\<rparr>) = core (?n ! me)" for v by (simp add: core_def)
  then have "map core (?n[me := (?n ! me)\<lparr>votes_received := v\<rparr>]) = map core ?n" for v by (rule core_update)
  then show ?thesis using n by (simp add: raft_send_request_vote_body_def st h Let_def)
qed

lemma core_request_vote: "map core (fst (raft_send_request_vote me st)) = map core (fst st)"
proof -
  have "map core (fst (fold (raft_send_request_vote_body me rpc) is st)) = map core (fst st)" for rpc "is"
    by (induction "is" arbitrary: st) (simp_all add: core_request_vote_body)
  then show ?thesis by (simp add: raft_send_request_vote_def Let_def)
qed

lemma core_reconnect: "map core (fst (raft_reconnect_node k st)) = map core (fst st)"
proof -
  obtain nodes g where st: "st = (nodes, g)" by force
  obtain nd' g' where f: "raft_become_follower ((nodes ! nat k)\<lparr>active := True\<rparr>) (current_term (nodes ! nat k)) g = (nd', g')" by force
  have "core nd' = core (nodes ! nat k)" using core_follower [OF f] by (simp add: core_def)
  then have "map core (nodes[nat k := nd']) = map core nodes" by (rule core_update)
  then show ?thesis by (simp add: raft_reconnect_node_def st f Let_def)
qed

section \<open>Requests of the leader\<close>

lemma handle_append_commit:
  assumes "raft_handle_append_entries nd rpc g = (ok, nd', g')"
  shows "commit_index nd' = commit_index nd \<or> (ok \<and> commit_index nd' \<le> ae_leader_commit rpc \<and>
    commit_index nd' \<le> word_of_int (as_int (ae_prev_log_index rpc) + int (length (ae_entries rpc))))"
proof (cases "ae_term rpc < current_term nd")
  case True
  then show ?thesis using assms by (simp add: raft_handle_append_entries_def)
next
  case False
  obtain nd1 g1 where d: "(if current_term nd < ae_term rpc then raft_become_follower nd (ae_term rpc) g else (nd, g)) = (nd1, g1)"
    by force
  have "commit_index nd1 = commit_index nd" by (rule step_down(3) [OF d False])
  then show ?thesis
    using assms False d by (auto simp: raft_handle_append_entries_def Let_def split: if_splits)
qed

lemma log_ok_length:
  assumes "next_ok leader i" and "raft_log_ok nd (ae_prev_log_index (raft_append_rpc leader i)) t"
  shows "unat (next_index leader ! i) - 1 \<le> length (rn_log nd)"
  using assms(2) raft_append_rpc_simps(1,2) [OF assms(1)] by (auto simp: raft_log_ok_def split: if_splits)

lemma commit_bound:
  fixes c :: "64 word"
  assumes "next_ok leader i" and "n = unat (next_index leader ! i) - 1 + k" and "n \<le> RAFT_MAX_LOG_ENTRIES"
    and "c \<le> word_of_int (as_int (ae_prev_log_index (raft_append_rpc leader i)) + int k)"
  shows "unat c \<le> n"
proof -
  have "as_int (ae_prev_log_index (raft_append_rpc leader i)) + int k = int n"
    using raft_append_rpc_simps(2) [OF assms(1)] assms(2) by simp
  then have "c \<le> of_nat n" using assms(4) by simp
  then have "unat c \<le> unat (of_nat n :: 64 word)" by (simp add: word_le_nat_alt)
  also have "\<dots> = n" using assms(3) by (simp only: unat_of_nat) (simp add: RAFT_MAX_LOG_ENTRIES_def)
  finally show ?thesis .
qed

lemma append_keeps_node:
  assumes "node_ok leader nd" and "next_ok leader i" and "raft_handle_append_entries nd (raft_append_rpc leader i) g = (ok, nd', g')"
  shows "node_ok leader nd' \<and> length (rn_log nd) \<le> length (rn_log nd')"
proof -
  let ?f = "rn_log nd" and ?l = "rn_log leader"
  have f: "?f = take (length ?f) ?l" and c: "commit_index nd \<le> commit_index leader" "unat (commit_index nd) \<le> length ?f"
    using assms(1) unfolding node_ok_def by blast+
  have m: "log_matching ?f ?l" using log_matching_prefix [of "length ?f" ?l] f by simp
  show ?thesis
  proof (cases ok)
    case False
    then show ?thesis
      using handle_append_failure [of nd _ g nd' g'] handle_append_commit [OF assms(3)] assms(1,3) by (auto simp: node_ok_def)
  next
    case True
    then have h: "raft_handle_append_entries nd (raft_append_rpc leader i) g = (True, nd', g')" using assms(3) by simp
    define n where "n = unat (next_index leader ! i) - 1 + length (ae_entries (raft_append_rpc leader i))"
    note P = append_success_prefix [OF h assms(2) m n_def]
    have grow: "rn_log nd' = ?f \<or> (rn_log nd' = take n ?l \<and> length ?f \<le> n)"
    proof -
      define k where "k = min (length ?l) (unat (next_index leader ! i) - 1 + 128)"
      have a: "rn_log nd' = (if k \<le> length ?f \<and> take k ?f = take k ?l then ?f else take k ?l)"
        by (rule append_from_leader [OF h assms(2) m k_def])
      have "take k ?f = take k ?l" if "k \<le> length ?f" by (rule take_of_prefix [OF f that])
      moreover have "k = n"
        using raft_append_rpc_simps(3) [OF assms(2)] assms(2) unfolding k_def n_def next_ok_def by auto
      ultimately show ?thesis using a by auto
    qed
    have "n \<le> RAFT_MAX_LOG_ENTRIES" using P(1) assms(2) by (simp add: next_ok_def)
    then have b: "unat (commit_index nd') \<le> n" if "commit_index nd' \<noteq> commit_index nd"
      using handle_append_commit [OF h] that by (intro commit_bound [OF assms(2) n_def]) auto
    have lc: "commit_index nd' \<le> commit_index leader"
      using handle_append_commit [OF h] c(1) by (auto simp: raft_append_rpc_def Let_def)
    have len: "length ?f \<le> length (rn_log nd')" using grow P(1) by auto
    have "rn_log nd' = take (length (rn_log nd')) ?l" using grow f P(1) by auto
    moreover have "unat (commit_index nd') \<le> length (rn_log nd')"
      using b P(2) c(2) len by (cases "commit_index nd' = commit_index nd") auto
    ultimately show ?thesis using lc len unfolding node_ok_def by blast
  qed
qed

text \<open>A heartbeat is the same request without entries.\<close>

lemma heartbeat_keeps_node:
  assumes "node_ok leader nd" and "next_ok leader i"
    and h: "raft_handle_append_entries nd ((raft_append_rpc leader i)\<lparr>ae_entries := []\<rparr>) g = (ok, nd', g')"
  shows "node_ok leader nd' \<and> rn_log nd' = rn_log nd"
proof -
  have log: "rn_log nd' = rn_log nd"
    using handle_append_success(2) [of nd _ g nd' g'] handle_append_failure [of nd _ g nd' g'] h by (cases ok) auto
  have "unat (commit_index nd') \<le> length (rn_log nd)" if new: "commit_index nd' \<noteq> commit_index nd"
  proof -
    from handle_append_commit [OF h] new have ok: ok
      and c: "commit_index nd' \<le> word_of_int (as_int (ae_prev_log_index (raft_append_rpc leader i)) + int 0)" by auto
    have "unat (next_index leader ! i) - 1 \<le> length (rn_log nd)"
      using handle_append_success(1) [OF h [unfolded eqTrueI [OF ok]]] by (intro log_ok_length [OF assms(2)]) simp
    moreover have "unat (commit_index nd') \<le> unat (next_index leader ! i) - 1"
      using assms(2) by (intro commit_bound [OF assms(2) _ _ c]) (auto simp: next_ok_def)
    ultimately show ?thesis by simp
  qed
  then have "unat (commit_index nd') \<le> length (rn_log nd)" using assms(1) unfolding node_ok_def by metis
  then show ?thesis
    using assms(1) log handle_append_commit [OF h] by (auto simp: node_ok_def raft_append_rpc_def Let_def)
qed

section \<open>Rounds of the leader\<close>

lemma majority_mono: "majority_of n A \<Longrightarrow> A \<subseteq> B \<Longrightarrow> B \<subseteq> {..<n} \<Longrightarrow> majority_of n B"
  unfolding majority_of_def using card_mono [of B A] finite_subset [of B "{..<n}"] by fastforce

lemma reign_inv_peer:
  assumes inv: "reign_inv me nodes" and i: "i < length nodes" "i \<noteq> me" and view: "leader_view nodes' me"
    and len: "length nodes' = length nodes" and same: "same_leader (nodes ! me) (nodes' ! me)"
    and nd: "node_ok (nodes ! me) (nodes' ! i)" "length (rn_log (nodes ! i)) \<le> length (rn_log (nodes' ! i))"
    and rest: "\<And>j. j \<noteq> i \<Longrightarrow> j \<noteq> me \<Longrightarrow> nodes' ! j = nodes ! j"
  shows "reign_inv me nodes'"
proof -
  have cong: "node_ok (nodes' ! me) x = node_ok (nodes ! me) x" for x using same by (simp add: node_ok_def same_leader_def)
  have ok: "node_ok (nodes ! me) (nodes ! j)" if "j < length nodes" for j using inv that by (simp add: reign_inv_def)
  have me: "me < length nodes" using inv by (simp add: reign_inv_def leader_view_def)
  have me': "node_ok (nodes ! me) (nodes' ! me)" using ok [OF me] same by (simp add: node_ok_def same_leader_def)
  have "node_ok (nodes' ! me) (nodes' ! j)" if "j < length nodes" for j
    unfolding cong using nd(1) me' ok [OF that] rest [of j] by (cases "j = i \<or> j = me") auto
  moreover have "length (rn_log (nodes ! j)) \<le> length (rn_log (nodes' ! j))" for j
    using nd(2) rest [of j] same by (cases "j = i \<or> j = me") (auto simp: same_leader_def)
  then have "holders c nodes \<subseteq> holders c nodes'" for c using len by (auto simp: holders_def intro: order_trans)
  then have "majority_of (length nodes) (holders c nodes')" if "majority_of (length nodes) (holders c nodes)" for c
    by (rule majority_mono [OF that]) (auto simp: holders_def len)
  ultimately show ?thesis
    using inv view same unfolding reign_inv_def len same_leader_def by auto
qed

lemma append_body_inv:
  assumes inv: "reign_inv me nodes" and i: "i < length nodes"
    and step: "raft_send_append_entries_body me i (nodes, g) = (nodes', g')"
  shows "reign_inv me nodes' \<and> length nodes' = length nodes"
proof -
  have v: "leader_view nodes me" using inv by (simp add: reign_inv_def)
  have me: "me < length nodes" "rn_id (nodes ! me) = int me" using v by (auto simp: leader_view_def)
  note W = send_append_body_view [OF v i step]
  from step me(2) show ?thesis
  proof (cases rule: send_append_body_cases)
    case skip
    then show ?thesis using inv by simp
  next
    case (sent ok nd')
    have "node_ok (nodes ! me) (nodes ! i)" "next_ok (nodes ! me) i"
      using inv i sent(1) by (auto simp: reign_inv_def leader_view_def peer_ok_def)
    note A = append_keeps_node [OF this sent(2)]
    have at: "nodes' ! i = nd'" "\<And>j. j \<noteq> i \<Longrightarrow> j \<noteq> me \<Longrightarrow> nodes' ! j = nodes ! j" using sent(1,3) i by simp_all
    have "reign_inv me nodes'" by (rule reign_inv_peer [OF inv i sent(1)]) (use W A at in simp_all)
    then show ?thesis using W by simp
  qed
qed

lemma append_fold_inv:
  assumes "reign_inv me nodes" and "\<forall>i \<in> set is. i < length nodes"
    and "fold (raft_send_append_entries_body me) is (nodes, g) = (nodes', g')"
  shows "reign_inv me nodes' \<and> length nodes' = length nodes"
  using assms
proof (induction "is" arbitrary: nodes g)
  case Nil
  then show ?case by simp
next
  case (Cons i "is")
  obtain n1 g1 where b: "raft_send_append_entries_body me i (nodes, g) = (n1, g1)" by force
  have "reign_inv me n1 \<and> length n1 = length nodes" using Cons.prems by (intro append_body_inv [OF _ _ b]) auto
  then show ?case using Cons.prems b Cons.IH [of n1 g1] by simp
qed

lemma replication_inv:
  assumes inv: "reign_inv me nodes" and step: "raft_send_append_entries me (nodes, g) = (nodes', g')"
  shows "reign_inv me nodes' \<and> length nodes' = length nodes"
proof -
  obtain n1 g1 where f: "fold (raft_send_append_entries_body me) [0..<cluster_size (nodes ! me)] (nodes, g) = (n1, g1)" by force
  define c where "c = raft_commit_scan n1 me (length (rn_log (n1 ! me)))"
  let ?l = "(n1 ! me)\<lparr>commit_index := c\<rparr>"
  have nodes': "nodes' = n1[me := ?l]" using step f by (simp add: raft_send_append_entries_def c_def)
  have "cluster_size (nodes ! me) = length nodes" using inv by (simp add: reign_inv_def leader_view_def)
  then have n1: "reign_inv me n1" "length n1 = length nodes" using append_fold_inv [OF inv _ f] by auto
  then have v: "leader_view n1 me" and ok: "\<And>i. i < length n1 \<Longrightarrow> node_ok (n1 ! me) (n1 ! i)" by (simp_all add: reign_inv_def)
  have me: "me < length n1" "length (rn_log (n1 ! me)) \<le> RAFT_MAX_LOG_ENTRIES" "cluster_size (n1 ! me) = length n1"
    using v by (auto simp: leader_view_def)
  have "c = commit_index (n1 ! me) \<or> (commit_index (n1 ! me) < c \<and> unat c \<le> length (rn_log (n1 ! me)) \<and>
      majority_of (length n1) (holders (unat c) n1))"
  proof -
    have "majority_of (length n1) (holders (unat c) n1)"
      if "unat c \<le> length (rn_log (n1 ! me))" "raft_quorum_size (length n1) \<le> raft_matched n1 me c"
      by (rule majority_mono [OF matched_majority [OF v that]]) (auto simp: holders_def holds_prefix_def)
    then show ?thesis using raft_commit_scan_cases [OF c_def [symmetric] me(2)] me(3) by auto
  qed
  then have c: "commit_index (n1 ! me) \<le> c" "unat c \<le> length (rn_log (n1 ! me))"
      "c = 0 \<or> majority_of (length n1) (holders (unat c) n1)"
    using n1(1) ok [OF me(1)] unfolding reign_inv_def node_ok_def by auto
  have "node_ok ?l (nodes' ! i)" if "i < length n1" for i
    using ok [OF that] ok [OF me(1)] c(1,2) me(1) by (cases "i = me") (auto simp: node_ok_def nodes')
  moreover have "holders (unat c) nodes' = holders (unat c) n1" using me(1) by (auto simp: holders_def nodes' nth_list_update)
  moreover have "leader_view nodes' me" using leader_view_commit [OF v] nodes' by simp
  ultimately show ?thesis using c(3) n1(2) me(1) by (simp add: reign_inv_def nodes')
qed

lemma heartbeat_fold_inv:
  assumes "reign_inv me nodes" and "\<forall>i \<in> set is. i < length nodes"
  shows "let nodes' = fst (fold (raft_send_heartbeat_body me (current_term (nodes ! me)) (commit_index (nodes ! me))) is (nodes, g))
    in reign_inv me nodes' \<and> length nodes' = length nodes"
  using assms
proof (induction "is" arbitrary: nodes g)
  case Nil
  then show ?case by simp
next
  case (Cons i "is")
  let ?l = "nodes ! me"
  have v: "leader_view nodes me" using Cons.prems(1) by (simp add: reign_inv_def)
  then have me: "me < length nodes" "rn_id ?l = int me" by (auto simp: leader_view_def)
  show ?case
  proof (cases "i = me \<or> \<not> active (nodes ! i)")
    case True
    then show ?thesis using Cons.IH [OF Cons.prems(1)] Cons.prems(2) me by (simp add: raft_send_heartbeat_body_def)
  next
    case False
    have i: "i < length nodes" "i \<noteq> me" using Cons.prems(2) False by auto
    obtain ok nd' g' where h: "raft_handle_append_entries (nodes ! i) ((raft_append_rpc ?l i)\<lparr>ae_entries := []\<rparr>) g = (ok, nd', g')"
      by (cases "raft_handle_append_entries (nodes ! i) ((raft_append_rpc ?l i)\<lparr>ae_entries := []\<rparr>) g")
    then have b: "raft_send_heartbeat_body me (current_term ?l) (commit_index ?l) i (nodes, g) = (nodes[i := nd'], g')"
      using False me by (simp add: raft_send_heartbeat_body_def raft_append_rpc_def Let_def)
    have "node_ok ?l (nodes ! i)" "next_ok ?l i"
      using Cons.prems(1) i by (auto simp: reign_inv_def leader_view_def peer_ok_def)
    note H = heartbeat_keeps_node [OF this h]
    have "peer_ok (nodes[i := nd']) me j" if "j < length nodes" "j \<noteq> me" for j
      using v that H i by (cases "j = i") (auto simp: leader_view_def peer_ok_def holds_prefix_def)
    then have "leader_view (nodes[i := nd']) me" using v i by (simp add: leader_view_def)
    then have inv: "reign_inv me (nodes[i := nd'])"
      by (rule reign_inv_peer [OF Cons.prems(1) i]) (use i H in \<open>simp_all add: same_leader_def\<close>)
    have "nodes[i := nd'] ! me = ?l" using i by simp
    then show ?thesis using Cons.IH [OF inv, of g'] Cons.prems(2) b by (simp add: Let_def)
  qed
qed

section \<open>Every step of a run\<close>

lemma unat_Suc_small:
  assumes "k \<le> 1024"
  shows "unat (1 + of_nat k :: 64 word) = k + 1"
proof -
  have "unat (of_nat (Suc k) :: 64 word) = Suc k" using assms by (simp only: unat_of_nat) simp
  then show ?thesis by simp
qed

lemma become_leader_inv:
  assumes "reign_inv me nodes"
  shows "reign_inv me (nodes[me := raft_become_leader (nodes ! me)])"
proof -
  let ?l = "raft_become_leader (nodes ! me)" and ?n = "nodes[me := raft_become_leader (nodes ! me)]"
  have v: "leader_view nodes me" and ok: "\<And>i. i < length nodes \<Longrightarrow> node_ok (nodes ! me) (nodes ! i)"
    using assms by (simp_all add: reign_inv_def)
  then have me: "me < length nodes" "length (rn_log (nodes ! me)) \<le> RAFT_MAX_LOG_ENTRIES" by (auto simp: leader_view_def)
  have log: "rn_log ?l = rn_log (nodes ! me)" "commit_index ?l = commit_index (nodes ! me)" by (simp_all add: raft_become_leader_def)
  have unat: "unat (1 + of_nat (length (rn_log (nodes ! me))) :: 64 word) = length (rn_log (nodes ! me)) + 1"
    by (rule unat_Suc_small) (use me(2) in \<open>simp add: RAFT_MAX_LOG_ENTRIES_def\<close>)
  have "peer_ok ?n me i" if "i < length nodes" "i \<noteq> me" for i
  proof -
    have "log_matching (rn_log (nodes ! i)) (rn_log (nodes ! me))" using v that by (simp add: leader_view_def peer_ok_def)
    moreover have "next_index ?l ! i = 1 + of_nat (length (rn_log (nodes ! me)))" "match_index ?l ! i = 0"
      using v that by (simp_all add: leader_view_def raft_become_leader_def)
    ultimately show ?thesis using that me log unat by (simp add: peer_ok_def next_ok_def holds_prefix_def)
  qed
  moreover have "rn_id ?l = rn_id (nodes ! me)" "cluster_size ?l = cluster_size (nodes ! me)"
      "length (next_index ?l) = length (next_index (nodes ! me))" "length (match_index ?l) = length (match_index (nodes ! me))"
    using v by (simp_all add: leader_view_def raft_become_leader_def)
  ultimately have "leader_view ?n me" using v me log by (simp add: leader_view_def)
  moreover have "node_ok ?l (?n ! i)" if "i < length nodes" for i
    using ok [OF that] ok [OF me(1)] me(1) log by (cases "i = me") (simp_all add: node_ok_def)
  moreover have "holders c ?n = holders c nodes" for c using me log by (auto simp: holders_def nth_list_update)
  ultimately show ?thesis using assms me log by (simp add: reign_inv_def)
qed

lemma log_append_inv:
  assumes "reign_inv me nodes" and "length (rn_log (nodes ! me)) < RAFT_MAX_LOG_ENTRIES"
  shows "reign_inv me (nodes[me := (nodes ! me)\<lparr>rn_log := rn_log (nodes ! me) @ [e]\<rparr>])"
proof -
  let ?l = "(nodes ! me)\<lparr>rn_log := rn_log (nodes ! me) @ [e]\<rparr>"
  let ?n = "nodes[me := ?l]"
  have v: "leader_view nodes me" and ok: "\<And>i. i < length nodes \<Longrightarrow> node_ok (nodes ! me) (nodes ! i)"
    using assms by (simp_all add: reign_inv_def)
  then have me: "me < length nodes" by (auto simp: leader_view_def)
  have ext: "node_ok ?l (?n ! i)" if "i < length nodes" for i
  proof (cases "i = me")
    case False
    have p: "rn_log (nodes ! i) = take (length (rn_log (nodes ! i))) (rn_log (nodes ! me))" using ok [OF that] by (simp add: node_ok_def)
    then have "length (rn_log (nodes ! i)) \<le> length (rn_log (nodes ! me))" by (metis length_take min.cobounded1)
    then show ?thesis using False ok [OF that] p by (simp add: node_ok_def)
  qed (use ok [OF me] me in \<open>simp add: node_ok_def\<close>)
  have "peer_ok ?n me i" if "i < length nodes" "i \<noteq> me" for i
  proof -
    have old: "next_ok (nodes ! me) i" "holds_prefix nodes me (unat (match_index (nodes ! me) ! i)) i"
      using v that by (simp_all add: leader_view_def peer_ok_def)
    have p: "rn_log (nodes ! i) = take (length (rn_log (nodes ! i))) (rn_log ?l)" using ext [OF that(1)] that by (simp add: node_ok_def)
    have "log_matching (rn_log (nodes ! i)) (rn_log ?l)" by (subst p) (rule log_matching_prefix)
    moreover have "next_ok ?l i" using old(1) assms(2) by (simp add: next_ok_def)
    moreover have "holds_prefix ?n me (unat (match_index (nodes ! me) ! i)) i"
      using old(2) take_of_prefix [OF p, of "unat (match_index (nodes ! me) ! i)"] that me
      unfolding holds_prefix_def nth_list_update_eq [OF me] by (simp del: take_append)
    ultimately show ?thesis using that me by (simp add: peer_ok_def)
  qed
  then have "leader_view ?n me" using v me assms(2) by (simp add: leader_view_def)
  moreover have "holders c nodes \<subseteq> holders c ?n" for c using me by (auto simp: holders_def nth_list_update)
  then have "majority_of (length nodes) (holders c ?n)" if "majority_of (length nodes) (holders c nodes)" for c
    by (rule majority_mono [OF that]) (auto simp: holders_def)
  ultimately show ?thesis using assms(1) ext me by (auto simp: reign_inv_def)
qed

lemma submit_inv:
  assumes "reign_inv me (fst st)" and "only_leader me st" and "i < length (fst st)"
  shows "let st' = snd (raft_submit_command i cmd st) in reign_inv me (fst st') \<and> length (fst st') = length (fst st)"
proof -
  obtain nodes g where st: "st = (nodes, g)" by force
  show ?thesis
  proof (cases "rn_state (nodes ! i) = RAFT_LEADER \<and> length (rn_log (nodes ! i)) < RAFT_MAX_LOG_ENTRIES")
    case True
    then have "i = me" using assms(2,3) by (auto simp: only_leader_def st)
    define n1 where "n1 = nodes[me := (nodes ! me)\<lparr>rn_log := rn_log (nodes ! me) @ [\<lparr>le_term = current_term (nodes ! me), le_command = cmd\<rparr>]\<rparr>]"
    have "reign_inv me n1" unfolding n1_def using assms(1) True \<open>i = me\<close> by (intro log_append_inv) (simp_all add: st)
    then have "reign_inv me (fst (raft_send_append_entries me (n1, g))) \<and> length (fst (raft_send_append_entries me (n1, g))) = length n1"
      by (rule replication_inv [OF _ prod.collapse [symmetric]])
    then show ?thesis using True \<open>i = me\<close> by (simp add: st raft_submit_command_def n1_def Let_def)
  qed (use assms(1) in \<open>auto simp: raft_submit_command_def st Let_def\<close>)
qed

lemma leader_tick_inv:
  assumes "reign_inv me nodes" and "rn_state (nodes ! me) = RAFT_LEADER"
  shows "let st' = raft_tick_node n delta me (nodes, g) in reign_inv me (fst st') \<and> length (fst st') = length nodes"
proof -
  have set_hb: "reign_inv me (ns[me := (ns ! me)\<lparr>heartbeat_elapsed_ms := x\<rparr>])" if "reign_inv me ns" for ns x
    by (rule reign_inv_core [OF core_update that]) (simp add: core_def)
  define n1 where "n1 = nodes[me := (nodes ! me)\<lparr>heartbeat_elapsed_ms := heartbeat_elapsed_ms (nodes ! me) + delta\<rparr>]"
  have n1: "reign_inv me n1" "length n1 = length nodes" using set_hb [OF assms(1)] by (simp_all add: n1_def)
  have "cluster_size (n1 ! me) = length n1" using n1(1) by (simp add: reign_inv_def leader_view_def)
  then have h: "reign_inv me (fst (raft_send_heartbeat me (n1, g))) \<and> length (fst (raft_send_heartbeat me (n1, g))) = length n1"
    using heartbeat_fold_inv [OF n1(1), of "[0..<length n1]" g] by (simp add: raft_send_heartbeat_def Let_def)
  define r where "r = raft_send_append_entries me (raft_send_heartbeat me (n1, g))"
  have "raft_send_append_entries me (fst (raft_send_heartbeat me (n1, g)), snd (raft_send_heartbeat me (n1, g))) = (fst r, snd r)"
    by (simp add: r_def)
  from replication_inv [OF conjunct1 [OF h] this] have r: "reign_inv me (fst r)" "length (fst r) = length n1" using h by simp_all
  have me: "me < length nodes" using assms(1) by (simp add: reign_inv_def leader_view_def)
  show ?thesis
    using assms n1 r set_hb [OF r(1), of 0] me
    by (auto simp: raft_tick_node_def Let_def n1_def [symmetric] r_def [symmetric] split: prod.splits)
qed

lemma election_tick_inv:
  assumes "reign_inv me nodes" and "rn_state (nodes ! i) \<noteq> RAFT_LEADER" and "i < length nodes"
    and "only_leader me (raft_tick_node n delta i (nodes, g))"
  shows "let st' = raft_tick_node n delta i (nodes, g) in reign_inv me (fst st') \<and> length (fst st') = length nodes"
proof -
  let ?nd = "(nodes ! i)\<lparr>election_elapsed_ms := election_elapsed_ms (nodes ! i) + delta\<rparr>"
  have nd: "core ?nd = core (nodes ! i)" by (simp add: core_def)
  obtain nd2 g2 where c: "raft_become_candidate ?nd g = (nd2, g2)" by force
  obtain n3 g3 where q: "raft_send_request_vote i (nodes[i := ?nd], g) = (n3, g3)" by force
  have n3: "map core n3 = map core nodes" using core_request_vote [of i "(nodes[i := ?nd], g)"] core_update [OF nd] q by simp
  have len: "length n3 = length nodes" by (rule core_eqD(1) [OF n3])
  have k: "reign_inv me (nodes[i := nd2])" "reign_inv me (nodes[i := ?nd])" "reign_inv me n3"
    using reign_inv_core [OF core_update assms(1)] core_candidate [OF c] nd reign_inv_core [OF n3 assms(1)] by auto
  have "raft_tick_node n delta i (nodes, g) \<in> {(nodes, g), (nodes[i := nd2], g2), (nodes[i := ?nd], g), (n3, g3),
      (n3[i := raft_become_leader (n3 ! i)], g3)}"
    using assms(2) c q by (cases "rn_state (nodes ! i)") (simp_all add: raft_tick_node_def Let_def)
  then consider "raft_tick_node n delta i (nodes, g) = (nodes, g)" | "raft_tick_node n delta i (nodes, g) = (nodes[i := nd2], g2)"
    | "raft_tick_node n delta i (nodes, g) = (nodes[i := ?nd], g)" | "raft_tick_node n delta i (nodes, g) = (n3, g3)"
    | "raft_tick_node n delta i (nodes, g) = (n3[i := raft_become_leader (n3 ! i)], g3)" by blast
  then show ?thesis
  proof cases
    case 5
    have "rn_state (raft_become_leader (n3 ! i)) = RAFT_LEADER" by (simp add: raft_become_leader_def)
    then have "i = me" using assms(3,4) len by (auto simp: only_leader_def 5)
    then show ?thesis using become_leader_inv [OF k(3)] 5 len by (simp add: Let_def)
  qed (use assms(1) k len in simp_all)
qed

lemma raft_call_inv:
  assumes "raft_call st st'" and "reign_inv me (fst st)" and "only_leader me st" and "only_leader me st'"
  shows "reign_inv me (fst st') \<and> length (fst st') = length (fst st)"
  using assms
proof (induction rule: raft_call.induct)
  case (tick i st delta)
  obtain nodes g where st: "st = (nodes, g)" by force
  show ?case
  proof (cases "rn_state (nodes ! i) = RAFT_LEADER")
    case True
    then have "i = me" using tick.prems(2) tick.hyps by (auto simp: only_leader_def st)
    then show ?thesis using leader_tick_inv [of me nodes] tick True by (simp add: st Let_def)
  next
    case False
    then show ?thesis using election_tick_inv [of me nodes i] tick by (simp add: st Let_def)
  qed
next
  case (submit i st cmd)
  then show ?case using submit_inv by (simp add: Let_def)
next
  case (isolate nodes g i)
  have "map core (nodes[i := raft_isolate_node (nodes ! i)]) = map core nodes"
    by (rule core_update) (simp add: core_def raft_isolate_node_def)
  then show ?case using isolate reign_inv_core by simp
next
  case (reconnect st k)
  then show ?case using reign_inv_core [OF core_reconnect] core_eqD(1) [OF core_reconnect] by simp
qed

section \<open>Commitment in reachable states\<close>

definition reign_ok :: "nat \<Rightarrow> nat \<Rightarrow> net \<Rightarrow> bool" where
  "reign_ok n me st \<longleftrightarrow> length (fst st) = n \<and> reign_inv me (fst st) \<and> only_leader me st"

lemma init_nodes_at:
  "length (fst (raft_init_nodes n is g)) = length is \<and> (\<forall>k < length is. let nd = fst (raft_init_nodes n is g) ! k in
     rn_id nd = int (is ! k) \<and> rn_state nd = RAFT_FOLLOWER \<and> rn_log nd = [] \<and> commit_index nd = 0 \<and> cluster_size nd = n \<and>
     next_index nd = replicate n 1 \<and> match_index nd = replicate n 0)"
proof (induction "is" arbitrary: g)
  case (Cons i "is")
  obtain tmo g1 where t: "raft_random_timeout g = (tmo, g1)" by force
  obtain nds g2 where n: "raft_init_nodes n is g1 = (nds, g2)" by force
  show ?case using Cons.IH [of g1] by (auto simp: t n nth_Cons less_Suc_eq_0_disj)
qed simp

lemma reign_start_ok:
  assumes "reign_start n me st"
  shows "reign_ok n me st"
proof -
  obtain g where st: "st = raft_init_cluster n g" and me: "me < n" using assms by (auto simp: reign_start_def)
  have at: "length (fst st) = n" "\<And>k. k < n \<Longrightarrow> rn_id (fst st ! k) = int k \<and> rn_state (fst st ! k) = RAFT_FOLLOWER \<and>
      rn_log (fst st ! k) = [] \<and> commit_index (fst st ! k) = 0 \<and> cluster_size (fst st ! k) = n \<and>
      next_index (fst st ! k) = replicate n 1 \<and> match_index (fst st ! k) = replicate n 0"
    using init_nodes_at [of n "[0..<n]" g] unfolding st raft_init_cluster_def by (simp_all add: Let_def)
  have "leader_view (fst st) me"
    using at me by (simp add: leader_view_def peer_ok_def log_matching_def next_ok_def holds_prefix_def RAFT_MAX_LOG_ENTRIES_def)
  moreover have "node_ok (fst st ! me) (fst st ! i)" if "i < n" for i using at(2) [OF that] at(2) [OF me] by (simp add: node_ok_def)
  ultimately show ?thesis using at me by (simp add: reign_ok_def reign_inv_def only_leader_def)
qed

interpretation reign: invariant_system "reign_start n me" "reign_step me" "reign_ok n me" for n me
proof unfold_locales
  fix st st'
  show "reign_start n me st \<Longrightarrow> reign_ok n me st" by (rule reign_start_ok)
  assume "reign_ok n me st" and "reign_step me st st'"
  then show "reign_ok n me st'" using raft_call_inv [of st st' me] by (auto simp: reign_ok_def reign_step_def)
qed

text \<open>
  C4. Commitment, for a run that starts in the initial cluster of at most 8 nodes and goes through ticks of nodes, submitted commands, isolation
  and reconnection in any order, in which no node other than \<open>me\<close> ever becomes leader (\<open>me\<close> itself may lose and regain
  the leadership). In every state of such a run a majority of the cluster holds all that \<open>me\<close> has committed, in the order
  of its log, and whatever any node has committed is committed by \<open>me\<close> and equal to the beginning of its log. A replication
  round of \<open>me\<close> keeps its log, never moves the commit index back, and moves it only to an entry of its current term.
\<close>

theorem raft_commit_replicated:
  assumes "reach (reign_start n me) (reign_step me) (nodes, g)"
  shows "(commit_index (nodes ! me) = 0 \<or> majority_of n {i. i < n \<and> holds_prefix nodes me (unat (commit_index (nodes ! me))) i}) \<and>
    (\<forall>i < n. commit_index (nodes ! i) \<le> commit_index (nodes ! me) \<and> holds_prefix nodes me (unat (commit_index (nodes ! i))) i) \<and>
    (let nodes' = fst (raft_send_append_entries me (nodes, g)) in
      rn_log (nodes' ! me) = rn_log (nodes ! me) \<and> commit_index (nodes ! me) \<le> commit_index (nodes' ! me) \<and>
      (commit_index (nodes' ! me) = commit_index (nodes ! me) \<or>
       majority_of n {i. i < n \<and> holds_prefix nodes' me (unat (commit_index (nodes' ! me))) i} \<and>
       le_term (rn_log (nodes ! me) ! (unat (commit_index (nodes' ! me)) - 1)) = current_term (nodes ! me)))"
proof -
  have len: "length nodes = n" and inv: "reign_inv me nodes" using reign.reach_inv [OF assms] by (simp_all add: reign_ok_def)
  have v: "leader_view nodes me" and ok: "\<And>i. i < n \<Longrightarrow> node_ok (nodes ! me) (nodes ! i)" using inv len by (auto simp: reign_inv_def)
  have holds: "holds_prefix nodes me c i" if "i < n" "c \<le> length (rn_log (nodes ! i))" for c i
    using ok [OF that(1)] take_of_prefix [OF _ that(2)] that(2) by (auto simp: holds_prefix_def node_ok_def)
  then have "{i. i < n \<and> holds_prefix nodes me c i} = holders c nodes" for c
    by (auto simp: holders_def holds_prefix_def len)
  moreover have "\<forall>i < n. commit_index (nodes ! i) \<le> commit_index (nodes ! me) \<and> holds_prefix nodes me (unat (commit_index (nodes ! i))) i"
    using ok holds unfolding node_ok_def by blast
  ultimately show ?thesis
    using raft_round_commits [OF v prod.collapse [symmetric], of g] inv unfolding reign_inv_def len Let_def by auto
qed

text \<open>Node 0 of three nodes times out, wins the election and submits a command, which is committed at once.\<close>

definition demo_reign :: "nat \<Rightarrow> net" where
  "demo_reign k = (let s0 = raft_init_cluster 3 2; s1 = raft_tick_node 3 200 0 s0; s2 = raft_tick_node 3 1 0 s1;
     s3 = snd (raft_submit_command 0 7 s2) in [s0, s1, s2, s3] ! k)"

theorem raft_commit_replicated_witness:
  "majority_of 3 {i. i < 3 \<and> holds_prefix (fst (demo_reign 3)) 0 1 i}"
proof -
  have len: "length (fst (demo_reign 0)) = 3" "length (fst (demo_reign 1)) = 3" "length (fst (demo_reign 2)) = 3" by code_simp+
  have steps: "demo_reign 1 = raft_tick_node 3 200 0 (demo_reign 0)" "demo_reign 2 = raft_tick_node 3 1 0 (demo_reign 1)"
      "demo_reign 3 = snd (raft_submit_command 0 7 (demo_reign 2))"
    by (simp_all add: demo_reign_def Let_def numeral_3_eq_3)
  have "reach (reign_start 3 0) (reign_step 0) (demo_reign 0)"
    by (rule reach_init) (auto simp: reign_start_def demo_reign_def Let_def)
  moreover have "only_leader 0 (demo_reign 1)" "only_leader 0 (demo_reign 2)" "only_leader 0 (demo_reign 3)" by code_simp+
  moreover have "raft_call (demo_reign 0) (demo_reign 1)"
    unfolding steps(1) using raft_call.tick [of 0 "demo_reign 0" 200] unfolding len by simp
  moreover have "raft_call (demo_reign 1) (demo_reign 2)"
    unfolding steps(2) using raft_call.tick [of 0 "demo_reign 1" 1] unfolding len by simp
  moreover have "raft_call (demo_reign 2) (demo_reign 3)"
    unfolding steps(3) using raft_call.submit [of 0 "demo_reign 2" 7] unfolding len by simp
  ultimately have "reach (reign_start 3 0) (reign_step 0) (demo_reign 3)" by (meson reach_step reign_step_def)
  then have r: "reach (reign_start 3 0) (reign_step 0) (fst (demo_reign 3), snd (demo_reign 3))" by simp
  have "commit_index (fst (demo_reign 3) ! 0) = 1" by code_simp
  then show ?thesis using raft_commit_replicated [OF r] by simp
qed

end
