(* ===== verification/RaftCluster.thy ===== *)
theory RaftCluster
  imports Net_Prelude
begin

text \<open>
  The message-passing Raft of \<open>mini-dist-system-theory/src/raft.c\<close>: elections, the four message handlers, heartbeats,
  commitment and the queries. Messages travel through the queue of the cluster; its ring buffer of
  \<open>RAFT_MAX_MSG_QUEUE\<close> slots, one of which stays free, is a list, and a message that does not fit is dropped.

  The nodes in use are a list, the identifier of a node is its position, and the used part of a log is a list. Terms and
  times are 64-bit words. \<open>rc_rand\<close> holds the results of the coming calls of \<open>rand()\<close>; used up, it yields 0. A function
  that shares its name with one of \<open>mini-dist-protocol\<close> carries the suffix \<open>_rc\<close>.
\<close>

section \<open>Data\<close>

abbreviation RAFT_MAX_NODES :: nat where "RAFT_MAX_NODES \<equiv> 7"
abbreviation RAFT_MAX_LOG :: nat where "RAFT_MAX_LOG \<equiv> 256"
abbreviation RAFT_MAX_MSG_QUEUE :: nat where "RAFT_MAX_MSG_QUEUE \<equiv> 128"

datatype raft_role = RAFT_FOLLOWER | RAFT_CANDIDATE | RAFT_LEADER

datatype raft_msg_type =
  RAFT_MSG_REQUEST_VOTE | RAFT_MSG_REQUEST_VOTE_REPLY | RAFT_MSG_APPEND_ENTRIES | RAFT_MSG_APPEND_ENTRIES_REPLY |
  RAFT_MSG_CLIENT_COMMAND

record raft_log_entry =
  rl_term :: "64 word"
  rl_command :: int

record raft_node =
  rd_role :: raft_role
  rd_term :: "64 word"
  rd_voted_for :: int
  rd_log :: "raft_log_entry list"
  rd_commit_index :: int
  rd_last_applied :: int
  rd_next_index :: "int list"
  rd_match_index :: "int list"
  rd_votes :: nat
  rd_deadline :: "64 word"
  rd_heartbeat :: "64 word"

record raft_message =
  rm_type :: raft_msg_type
  rm_from :: nat
  rm_to :: nat
  rm_term :: "64 word"
  rm_last_log_index :: int
  rm_last_log_term :: "64 word"
  rm_vote_granted :: bool
  rm_prev_log_index :: int
  rm_prev_log_term :: "64 word"
  rm_entries :: "raft_log_entry list"
  rm_leader_commit :: int
  rm_success :: bool
  rm_match_index :: int
  rm_command :: int

record raft_cluster =
  rc_nodes :: "raft_node list"
  rc_queue :: "raft_message list"
  rc_leader_id :: int
  rc_time :: "64 word"
  rc_rand :: "nat list"

definition update_node :: "nat \<Rightarrow> (raft_node \<Rightarrow> raft_node) \<Rightarrow> raft_cluster \<Rightarrow> raft_cluster" where
  "update_node i f rc = rc\<lparr>rc_nodes := (rc_nodes rc)[i := f (rc_nodes rc ! i)]\<rparr>"

section \<open>Helpers\<close>

definition raft_random_election_timeout :: "raft_cluster \<Rightarrow> 64 word \<times> raft_cluster" where
  "raft_random_election_timeout rc =
     (case rc_rand rc of [] \<Rightarrow> (150, rc) | r # rs \<Rightarrow> (150 + of_nat (r mod 151), rc\<lparr>rc_rand := rs\<rparr>))"

definition raft_set_deadline :: "nat \<Rightarrow> raft_cluster \<Rightarrow> raft_cluster" where
  "raft_set_deadline i rc =
     (case raft_random_election_timeout rc of (t, rc) \<Rightarrow> update_node i (\<lambda>n. n\<lparr>rd_deadline := rc_time rc + t\<rparr>) rc)"

definition raft_last_log_index_rc :: "raft_node \<Rightarrow> int" where
  "raft_last_log_index_rc n = int (length (rd_log n)) - 1"

definition raft_last_log_term_rc :: "raft_node \<Rightarrow> 64 word" where
  "raft_last_log_term_rc n = (if rd_log n = [] then 0 else rl_term (last (rd_log n)))"

definition raft_enqueue_msg :: "raft_message \<Rightarrow> raft_cluster \<Rightarrow> raft_cluster" where
  "raft_enqueue_msg m rc =
     (if length (rc_queue rc) \<ge> RAFT_MAX_MSG_QUEUE - 1 then rc else rc\<lparr>rc_queue := rc_queue rc @ [m]\<rparr>)"

definition raft_dequeue_msg :: "raft_cluster \<Rightarrow> (raft_message \<times> raft_cluster) option" where
  "raft_dequeue_msg rc = (case rc_queue rc of [] \<Rightarrow> None | m # q \<Rightarrow> Some (m, rc\<lparr>rc_queue := q\<rparr>))"

definition raft_log_ok_rc :: "raft_node \<Rightarrow> int \<Rightarrow> 64 word \<Rightarrow> bool" where
  "raft_log_ok_rc n pi pt \<longleftrightarrow>
     pi < 0 \<or> \<not> pi \<ge> int (length (rd_log n)) \<and> rl_term (rd_log n ! nat pi) = pt"

definition raft_quorum_size_rc :: "nat \<Rightarrow> nat" where
  "raft_quorum_size_rc n = n div 2 + 1"

definition raft_advance_commit :: "nat \<Rightarrow> raft_cluster \<Rightarrow> raft_cluster" where
  "raft_advance_commit lid rc =
     (let l = rc_nodes rc ! lid; q = raft_quorum_size_rc (length (rc_nodes rc)) in
      update_node lid (\<lambda>nd. nd\<lparr>rd_commit_index :=
        fold (\<lambda>k ci. if rl_term (rd_log l ! nat k) \<noteq> rd_term l then ci
                 else if 1 + count_if (\<lambda>i. i \<noteq> lid \<and> rd_match_index l ! i \<ge> k) [0..<length (rc_nodes rc)] \<ge> q then k else ci)
          [rd_commit_index l + 1..int (length (rd_log l)) - 1] (rd_commit_index l)\<rparr>) rc)"

section \<open>Messages\<close>

definition raft_zero_message :: raft_message where
  "raft_zero_message = \<lparr>rm_type = RAFT_MSG_REQUEST_VOTE, rm_from = 0, rm_to = 0, rm_term = 0, rm_last_log_index = 0,
     rm_last_log_term = 0, rm_vote_granted = False, rm_prev_log_index = 0, rm_prev_log_term = 0, rm_entries = [],
     rm_leader_commit = 0, rm_success = False, rm_match_index = 0, rm_command = 0\<rparr>"

definition raft_build_request_vote :: "raft_cluster \<Rightarrow> nat \<Rightarrow> nat \<Rightarrow> raft_message" where
  "raft_build_request_vote rc from to =
     (let c = rc_nodes rc ! from in
      raft_zero_message\<lparr>rm_type := RAFT_MSG_REQUEST_VOTE, rm_from := from, rm_to := to, rm_term := rd_term c,
        rm_last_log_index := raft_last_log_index_rc c, rm_last_log_term := raft_last_log_term_rc c\<rparr>)"

definition raft_build_request_vote_reply :: "nat \<Rightarrow> nat \<Rightarrow> 64 word \<Rightarrow> bool \<Rightarrow> raft_message" where
  "raft_build_request_vote_reply from to t g =
     raft_zero_message\<lparr>rm_type := RAFT_MSG_REQUEST_VOTE_REPLY, rm_from := from, rm_to := to, rm_term := t, rm_vote_granted := g\<rparr>"

definition raft_build_append_entries :: "raft_cluster \<Rightarrow> nat \<Rightarrow> nat \<Rightarrow> raft_message" where
  "raft_build_append_entries rc from to =
     (let l = rc_nodes rc ! from; prev = rd_next_index l ! to - 1 in
      raft_zero_message\<lparr>rm_type := RAFT_MSG_APPEND_ENTRIES, rm_from := from, rm_to := to, rm_term := rd_term l,
        rm_prev_log_index := prev,
        rm_prev_log_term := if prev \<ge> 0 \<and> prev < int (length (rd_log l)) then rl_term (rd_log l ! nat prev) else 0,
        rm_entries := [], rm_leader_commit := rd_commit_index l\<rparr>)"

definition raft_build_append_entries_reply :: "nat \<Rightarrow> nat \<Rightarrow> 64 word \<Rightarrow> bool \<Rightarrow> int \<Rightarrow> raft_message" where
  "raft_build_append_entries_reply from to t s mi =
     raft_zero_message\<lparr>rm_type := RAFT_MSG_APPEND_ENTRIES_REPLY, rm_from := from, rm_to := to, rm_term := t,
       rm_success := s, rm_match_index := mi\<rparr>"

section \<open>Role changes\<close>

definition raft_leader_send_heartbeats :: "raft_cluster \<Rightarrow> raft_cluster" where
  "raft_leader_send_heartbeats rc =
     (if rc_leader_id rc < 0 then rc
      else let lid = nat (rc_leader_id rc) in
      fold (\<lambda>i rc. if i = lid then rc else raft_enqueue_msg (raft_build_append_entries rc lid i) rc) [0..<length (rc_nodes rc)] rc)"

definition raft_become_leader_rc :: "nat \<Rightarrow> raft_cluster \<Rightarrow> raft_cluster" where
  "raft_become_leader_rc i rc =
     raft_leader_send_heartbeats
       (update_node i (\<lambda>n. n\<lparr>rd_role := RAFT_LEADER, rd_next_index := replicate RAFT_MAX_NODES (int (length (rd_log n))),
            rd_match_index := replicate RAFT_MAX_NODES (-1)\<rparr>) (rc\<lparr>rc_leader_id := int i\<rparr>))"

definition raft_become_follower_rc :: "nat \<Rightarrow> 64 word \<Rightarrow> raft_cluster \<Rightarrow> raft_cluster" where
  "raft_become_follower_rc i t rc =
     raft_set_deadline i (update_node i (\<lambda>n. n\<lparr>rd_role := RAFT_FOLLOWER, rd_term := t, rd_voted_for := -1\<rparr>) rc)"

definition raft_start_election :: "nat \<Rightarrow> raft_cluster \<Rightarrow> raft_cluster" where
  "raft_start_election i rc =
     (let rc = raft_set_deadline i (update_node i (\<lambda>n. n\<lparr>rd_role := RAFT_CANDIDATE, rd_term := rd_term n + 1,
            rd_voted_for := int i, rd_votes := 1\<rparr>) rc);
          rc = fold (\<lambda>j rc. if j = i then rc else raft_enqueue_msg (raft_build_request_vote rc i j) rc) [0..<length (rc_nodes rc)] rc in
      if rd_votes (rc_nodes rc ! i) \<ge> raft_quorum_size_rc (length (rc_nodes rc)) then raft_become_leader_rc i rc else rc)"

section \<open>Message handlers\<close>

definition raft_handle_request_vote_rc :: "raft_message \<Rightarrow> raft_cluster \<Rightarrow> raft_cluster" where
  "raft_handle_request_vote_rc m rc =
     (let me = rm_to m in
      if rm_term m < rd_term (rc_nodes rc ! me)
      then raft_enqueue_msg (raft_build_request_vote_reply me (rm_from m) (rd_term (rc_nodes rc ! me)) False) rc
      else
        let rc = (if rm_term m > rd_term (rc_nodes rc ! me) then raft_become_follower_rc me (rm_term m) rc else rc);
            nd = rc_nodes rc ! me;
            grant = ((rd_voted_for nd = -1 \<or> rd_voted_for nd = int (rm_from m)) \<and>
              (rm_last_log_term m > raft_last_log_term_rc nd \<or>
               rm_last_log_term m = raft_last_log_term_rc nd \<and> rm_last_log_index m \<ge> raft_last_log_index_rc nd));
            rc = (if grant then raft_set_deadline me (update_node me (\<lambda>n. n\<lparr>rd_voted_for := int (rm_from m)\<rparr>) rc) else rc) in
        raft_enqueue_msg (raft_build_request_vote_reply me (rm_from m) (rd_term (rc_nodes rc ! me)) grant) rc)"

definition raft_handle_request_vote_reply :: "raft_message \<Rightarrow> raft_cluster \<Rightarrow> raft_cluster" where
  "raft_handle_request_vote_reply m rc =
     (let me = rm_to m; nd = rc_nodes rc ! me in
      if rm_term m > rd_term nd then raft_become_follower_rc me (rm_term m) rc
      else if rm_term m < rd_term nd then rc
      else if rd_role nd = RAFT_CANDIDATE \<and> rm_vote_granted m then
        let rc = update_node me (\<lambda>n. n\<lparr>rd_votes := rd_votes n + 1\<rparr>) rc in
        if rd_votes (rc_nodes rc ! me) \<ge> raft_quorum_size_rc (length (rc_nodes rc)) then raft_become_leader_rc me rc else rc
      else rc)"

definition append_entry_loop :: "int \<Rightarrow> raft_log_entry \<Rightarrow> raft_log_entry list \<Rightarrow> raft_log_entry list" where
  "append_entry_loop idx e log =
     (let log = (if idx < int (length log) \<and> rl_term (log ! nat idx) \<noteq> rl_term e then take (nat idx) log else log) in
      if idx \<ge> int (length log) \<and> length log < RAFT_MAX_LOG then log @ [e] else log)"

definition append_entries_loop :: "int \<Rightarrow> raft_log_entry list \<Rightarrow> raft_log_entry list \<Rightarrow> raft_log_entry list" where
  "append_entries_loop prev es log = fold (\<lambda>(k, e) log. append_entry_loop (prev + 1 + int k) e log) (enumerate 0 es) log"

definition raft_handle_append_entries_rc :: "raft_message \<Rightarrow> raft_cluster \<Rightarrow> raft_cluster" where
  "raft_handle_append_entries_rc m rc =
     (let me = rm_to m in
      if rm_term m < rd_term (rc_nodes rc ! me)
      then raft_enqueue_msg (raft_build_append_entries_reply me (rm_from m) (rd_term (rc_nodes rc ! me)) False (-1)) rc
      else
        let rc = raft_set_deadline me rc;
            rc = update_node me (\<lambda>n. n\<lparr>rd_heartbeat := rc_time rc\<rparr>) rc;
            rc = (if rm_term m > rd_term (rc_nodes rc ! me) then raft_become_follower_rc me (rm_term m) rc else rc);
            rc = update_node me (\<lambda>n. if rd_role n = RAFT_CANDIDATE then n\<lparr>rd_role := RAFT_FOLLOWER\<rparr> else n) rc;
            rc = (if rc_leader_id rc \<noteq> int (rm_from m) then rc\<lparr>rc_leader_id := int (rm_from m)\<rparr> else rc) in
        if \<not> raft_log_ok_rc (rc_nodes rc ! me) (rm_prev_log_index m) (rm_prev_log_term m)
        then raft_enqueue_msg (raft_build_append_entries_reply me (rm_from m) (rd_term (rc_nodes rc ! me)) False (-1)) rc
        else
          let rc = update_node me (\<lambda>n. n\<lparr>rd_log := append_entries_loop (rm_prev_log_index m) (rm_entries m) (rd_log n)\<rparr>) rc;
              rc = update_node me (\<lambda>n. if rm_leader_commit m > rd_commit_index n
                     then n\<lparr>rd_commit_index := if rm_leader_commit m \<ge> int (length (rd_log n)) then int (length (rd_log n)) - 1
                       else rm_leader_commit m\<rparr> else n) rc in
          raft_enqueue_msg (raft_build_append_entries_reply me (rm_from m) (rd_term (rc_nodes rc ! me)) True
            (rm_prev_log_index m + int (length (rm_entries m)))) rc)"

definition raft_handle_append_entries_reply :: "raft_message \<Rightarrow> raft_cluster \<Rightarrow> raft_cluster" where
  "raft_handle_append_entries_reply m rc =
     (let me = rm_to m; l = rc_nodes rc ! me in
      if rm_term m > rd_term l then (raft_become_follower_rc me (rm_term m) rc)\<lparr>rc_leader_id := -1\<rparr>
      else if rd_role l \<noteq> RAFT_LEADER then rc
      else if rm_success m
      then raft_advance_commit me (update_node me (\<lambda>n. n\<lparr>rd_match_index := (rd_match_index n)[rm_from m := rm_match_index m],
             rd_next_index := (rd_next_index n)[rm_from m := rm_match_index m + 1]\<rparr>) rc)
      else if rd_next_index l ! rm_from m > 0
      then update_node me (\<lambda>n. n\<lparr>rd_next_index := (rd_next_index n)[rm_from m := rd_next_index n ! rm_from m - 1]\<rparr>) rc
      else rc)"

definition raft_leader_append_entry :: "int \<Rightarrow> raft_cluster \<Rightarrow> raft_cluster" where
  "raft_leader_append_entry cmd rc =
     (if rc_leader_id rc < 0 then rc
      else let lid = nat (rc_leader_id rc); l = rc_nodes rc ! lid in
      if length (rd_log l) \<ge> RAFT_MAX_LOG then rc
      else update_node lid (\<lambda>n. n\<lparr>rd_log := rd_log n @ [\<lparr>rl_term = rd_term n, rl_command = cmd\<rparr>],
             rd_match_index := (rd_match_index n)[lid := int (length (rd_log n))],
             rd_next_index := (rd_next_index n)[lid := int (length (rd_log n)) + 1]\<rparr>) rc)"

definition raft_process_message :: "raft_message \<Rightarrow> raft_cluster \<Rightarrow> raft_cluster" where
  "raft_process_message m rc =
     (case rm_type m of
        RAFT_MSG_REQUEST_VOTE \<Rightarrow> raft_handle_request_vote_rc m rc
      | RAFT_MSG_REQUEST_VOTE_REPLY \<Rightarrow> raft_handle_request_vote_reply m rc
      | RAFT_MSG_APPEND_ENTRIES \<Rightarrow> raft_handle_append_entries_rc m rc
      | RAFT_MSG_APPEND_ENTRIES_REPLY \<Rightarrow> raft_handle_append_entries_reply m rc
      | RAFT_MSG_CLIENT_COMMAND \<Rightarrow> if rc_leader_id rc \<ge> 0 then raft_leader_append_entry (rm_command m) rc else rc)"

section \<open>The cluster\<close>

definition raft_fresh_node :: "64 word \<Rightarrow> raft_node" where
  "raft_fresh_node t = \<lparr>rd_role = RAFT_FOLLOWER, rd_term = 0, rd_voted_for = -1, rd_log = [],
     rd_commit_index = -1, rd_last_applied = -1, rd_next_index = replicate RAFT_MAX_NODES 0,
     rd_match_index = replicate RAFT_MAX_NODES (-1), rd_votes = 0, rd_deadline = t, rd_heartbeat = 0\<rparr>"

fun raft_init_nodes_rc :: "nat \<Rightarrow> raft_cluster \<Rightarrow> raft_cluster" where
  "raft_init_nodes_rc 0 rc = rc"
| "raft_init_nodes_rc (Suc k) rc =
     (case raft_random_election_timeout rc of (t, rc) \<Rightarrow>
        raft_init_nodes_rc k (rc\<lparr>rc_nodes := rc_nodes rc @ [raft_fresh_node t]\<rparr>))"

definition raft_init_cluster_rc :: "int \<Rightarrow> nat list \<Rightarrow> raft_cluster" where
  "raft_init_cluster_rc n rands =
     raft_init_nodes_rc (let n = (if n > int RAFT_MAX_NODES then int RAFT_MAX_NODES else n) in nat (if n < 1 then 3 else n))
       \<lparr>rc_nodes = [], rc_queue = [], rc_leader_id = -1, rc_time = 0, rc_rand = rands\<rparr>"

definition raft_tick_node_rc :: "nat \<Rightarrow> raft_cluster \<Rightarrow> raft_cluster" where
  "raft_tick_node_rc i rc =
     (if rd_role (rc_nodes rc ! i) = RAFT_LEADER then rc
      else if rc_time rc \<ge> rd_deadline (rc_nodes rc ! i) then raft_set_deadline i (raft_start_election i rc)
      else rc)"

definition raft_tick_rc :: "raft_cluster \<Rightarrow> raft_cluster" where
  "raft_tick_rc rc = (let rc = rc\<lparr>rc_time := rc_time rc + 1\<rparr> in fold raft_tick_node_rc [0..<length (rc_nodes rc)] rc)"

definition raft_is_running :: "raft_cluster \<Rightarrow> bool" where
  "raft_is_running rc \<longleftrightarrow> rc_leader_id rc \<ge> 0"

definition raft_leader_commit_entries :: "raft_cluster \<Rightarrow> bool \<times> raft_cluster" where
  "raft_leader_commit_entries rc =
     (if rc_leader_id rc < 0 then (False, rc) else (True, raft_advance_commit (nat (rc_leader_id rc)) rc))"

definition raft_client_submit :: "int \<Rightarrow> raft_cluster \<Rightarrow> int option \<times> raft_cluster" where
  "raft_client_submit cmd rc =
     (if rc_leader_id rc < 0 then (None, rc)
      else let rc = raft_leader_append_entry cmd rc in
        (Some (int (length (rd_log (rc_nodes rc ! nat (rc_leader_id rc)))) - 1), rc))"

definition raft_get_committed :: "raft_cluster \<Rightarrow> int \<Rightarrow> int" where
  "raft_get_committed rc i =
     (if i < 0 \<or> i \<ge> int (length (rc_nodes rc)) then -1
      else let nd = rc_nodes rc ! nat i in
      if rd_commit_index nd < 0 \<or> rd_commit_index nd \<ge> int (length (rd_log nd)) then -1
      else rl_command (rd_log nd ! nat (rd_commit_index nd)))"

definition raft_is_leader :: "raft_cluster \<Rightarrow> int \<Rightarrow> bool" where
  "raft_is_leader rc i \<longleftrightarrow> \<not> (i < 0 \<or> i \<ge> int (length (rc_nodes rc))) \<and> rd_role (rc_nodes rc ! nat i) = RAFT_LEADER"

definition raft_get_leader :: "raft_cluster \<Rightarrow> int" where
  "raft_get_leader rc = rc_leader_id rc"

definition raft_safety_check :: "raft_cluster \<Rightarrow> bool" where
  "raft_safety_check rc \<longleftrightarrow>
     (\<forall>i \<in> {1..<length (rc_nodes rc)}. \<not> (raft_get_committed rc (int i) \<ge> 0 \<and> raft_get_committed rc 0 \<ge> 0 \<and>
        raft_get_committed rc (int i) \<noteq> raft_get_committed rc 0))"

definition raft_agreement_percent :: "raft_cluster \<Rightarrow> int" where
  "raft_agreement_percent rc =
     (case fold (\<lambda>i (ag, rcmd). let cmd = raft_get_committed rc (int i) in
          if cmd < 0 then (ag, rcmd)
          else let rcmd = (if rcmd < 0 then cmd else rcmd) in (if cmd = rcmd then ag + 1 else ag, rcmd))
        [0..<length (rc_nodes rc)] (0, -1 :: int) of (ag, _) \<Rightarrow>
        if rc_nodes rc \<noteq> [] then ag * 100 div int (length (rc_nodes rc)) else 0)"

section \<open>What an operation changes of the votes\<close>

text \<open>The part of a node that the election protocol is about: role, term, vote and vote count.\<close>

definition ballot :: "raft_node \<Rightarrow> raft_role \<times> 64 word \<times> int \<times> nat" where
  "ballot n = (rd_role n, rd_term n, rd_voted_for n, rd_votes n)"

abbreviation ballots :: "raft_cluster \<Rightarrow> (raft_role \<times> 64 word \<times> int \<times> nat) list" where
  "ballots rc \<equiv> map ballot (rc_nodes rc)"

named_theorems effect_simps \<open>nodes, queue and leader after a helper\<close>

lemma update_node_effect [effect_simps]:
  "rc_nodes (update_node i f rc) = (rc_nodes rc)[i := f (rc_nodes rc ! i)]"
  "rc_queue (update_node i f rc) = rc_queue rc" "rc_leader_id (update_node i f rc) = rc_leader_id rc"
  "rc_time (update_node i f rc) = rc_time rc"
  by (simp_all add: update_node_def)

lemma random_effect [effect_simps]:
  "rc_nodes (snd (raft_random_election_timeout rc)) = rc_nodes rc"
  "rc_queue (snd (raft_random_election_timeout rc)) = rc_queue rc"
  "rc_leader_id (snd (raft_random_election_timeout rc)) = rc_leader_id rc"
  by (simp_all add: raft_random_election_timeout_def split: list.split)

lemma map_update_same: "g x = g (ns ! i) \<Longrightarrow> map g (ns[i := x]) = map g ns"
proof (cases "i < length ns")
  case True
  assume "g x = g (ns ! i)"
  then show ?thesis using True by (metis list_update_id map_update nth_map)
qed (simp add: not_less list_update_beyond)

lemma set_deadline_effect [effect_simps]:
  "ballots (raft_set_deadline i rc) = ballots rc" "rc_queue (raft_set_deadline i rc) = rc_queue rc"
  "rc_leader_id (raft_set_deadline i rc) = rc_leader_id rc"
  "length (rc_nodes (raft_set_deadline i rc)) = length (rc_nodes rc)"
  "map rd_log (rc_nodes (raft_set_deadline i rc)) = map rd_log (rc_nodes rc)"
proof -
  obtain d rc' where "raft_random_election_timeout rc = (d, rc')" by (cases "raft_random_election_timeout rc")
  moreover from this have "rc_nodes rc' = rc_nodes rc" "rc_queue rc' = rc_queue rc" "rc_leader_id rc' = rc_leader_id rc"
    using random_effect [of rc] by simp_all
  ultimately show "ballots (raft_set_deadline i rc) = ballots rc" "rc_queue (raft_set_deadline i rc) = rc_queue rc"
    "rc_leader_id (raft_set_deadline i rc) = rc_leader_id rc"
    "length (rc_nodes (raft_set_deadline i rc)) = length (rc_nodes rc)"
    "map rd_log (rc_nodes (raft_set_deadline i rc)) = map rd_log (rc_nodes rc)"
    by (simp_all add: raft_set_deadline_def effect_simps map_update_same ballot_def del: map_update)
qed

lemma enqueue_effect [effect_simps]:
  "rc_nodes (raft_enqueue_msg m rc) = rc_nodes rc" "rc_leader_id (raft_enqueue_msg m rc) = rc_leader_id rc"
  "rc_queue (raft_enqueue_msg m rc) = rc_queue rc @ take (RAFT_MAX_MSG_QUEUE - 1 - length (rc_queue rc)) [m]"
  by (simp_all add: raft_enqueue_msg_def)

lemma enqueue_all_effect [effect_simps]:
  "rc_nodes (fold raft_enqueue_msg ms rc) = rc_nodes rc" "rc_leader_id (fold raft_enqueue_msg ms rc) = rc_leader_id rc"
  by (induction ms arbitrary: rc) (simp_all add: effect_simps)

lemma enqueue_all_queue: "\<exists>k. rc_queue (fold raft_enqueue_msg ms rc) = rc_queue rc @ take k ms"
proof (induction ms arbitrary: rc)
  case (Cons m ms)
  show ?case
  proof (cases "length (rc_queue rc) < RAFT_MAX_MSG_QUEUE - 1")
    case True
    then obtain k where "rc_queue (fold raft_enqueue_msg ms (raft_enqueue_msg m rc)) = (rc_queue rc @ [m]) @ take k ms"
      using Cons.IH [of "raft_enqueue_msg m rc"] by (auto simp: effect_simps)
    then show ?thesis by (intro exI [of _ "Suc k"]) simp
  next
    case False
    have full: "fold raft_enqueue_msg ms rc = rc" for ms
      using False by (induction ms) (simp_all add: raft_enqueue_msg_def)
    show ?thesis using full [of "m # ms"] by (intro exI [of _ 0]) simp
  qed
qed simp

text \<open>The sending loops skip one node; what they send depends on the nodes alone.\<close>

lemma send_loop:
  assumes "\<And>rc' j. rc_nodes rc' = rc_nodes rc \<Longrightarrow> b rc' j = b rc j"
  shows "fold (\<lambda>j rc. if j = i then rc else raft_enqueue_msg (b rc j) rc) js rc =
    fold raft_enqueue_msg (map (b rc) (filter (\<lambda>j. j \<noteq> i) js)) rc"
proof -
  have "rc_nodes rc' = rc_nodes rc \<Longrightarrow> fold (\<lambda>j rc. if j = i then rc else raft_enqueue_msg (b rc j) rc) js rc' =
    fold raft_enqueue_msg (map (b rc) (filter (\<lambda>j. j \<noteq> i) js)) rc'" for rc'
  proof (induction js arbitrary: rc')
    case (Cons j js)
    show ?case
    proof (cases "j = i")
      case False
      have "b rc' j = b rc j" using Cons.prems by (rule assms)
      then show ?thesis using False Cons.IH [of "raft_enqueue_msg (b rc j) rc'"] Cons.prems by (simp add: enqueue_effect(1))
    qed (use Cons in simp)
  qed simp
  then show ?thesis by simp
qed

lemma heartbeats_effect:
  assumes "-1 \<le> rc_leader_id rc" and "rc_leader_id rc < int (length (rc_nodes rc))"
  obtains hb where "rc_queue (raft_leader_send_heartbeats rc) = rc_queue rc @ hb"
    and "\<forall>m \<in> set hb. rm_type m = RAFT_MSG_APPEND_ENTRIES \<and> rm_from m < length (rc_nodes rc) \<and> rm_to m < length (rc_nodes rc) \<and>
      rm_from m \<noteq> rm_to m \<and> rm_entries m = []"
proof (cases "rc_leader_id rc < 0")
  case True
  then show ?thesis using that [of "[]"] by (simp add: raft_leader_send_heartbeats_def)
next
  case False
  let ?l = "nat (rc_leader_id rc)"
  let ?ms = "map (raft_build_append_entries rc ?l) (filter (\<lambda>j. j \<noteq> ?l) [0..<length (rc_nodes rc)])"
  have eq: "raft_leader_send_heartbeats rc = fold raft_enqueue_msg ?ms rc"
    using False send_loop [of rc "\<lambda>rc. raft_build_append_entries rc ?l" ?l]
    by (simp add: raft_leader_send_heartbeats_def raft_build_append_entries_def Let_def)
  obtain k where k: "rc_queue (raft_leader_send_heartbeats rc) = rc_queue rc @ take k ?ms"
    unfolding eq using enqueue_all_queue by blast
  have "m \<in> set ?ms" if "m \<in> set (take k ?ms)" for m using that by (rule in_set_takeD)
  then have "\<forall>m \<in> set (take k ?ms). rm_type m = RAFT_MSG_APPEND_ENTRIES \<and> rm_from m < length (rc_nodes rc) \<and>
      rm_to m < length (rc_nodes rc) \<and> rm_from m \<noteq> rm_to m \<and> rm_entries m = []"
    using assms False by (fastforce simp: raft_build_append_entries_def Let_def raft_zero_message_def)
  then show ?thesis using that [OF k] by blast
qed

lemma heartbeats_nodes [effect_simps]:
  "rc_nodes (raft_leader_send_heartbeats rc) = rc_nodes rc" "rc_leader_id (raft_leader_send_heartbeats rc) = rc_leader_id rc"
proof -
  have "rc_nodes rc' = rc_nodes rc \<Longrightarrow> rc_leader_id rc' = rc_leader_id rc \<Longrightarrow>
    rc_nodes (fold (\<lambda>i rc. if i = l then rc else raft_enqueue_msg (raft_build_append_entries rc l i) rc) js rc') = rc_nodes rc \<and>
    rc_leader_id (fold (\<lambda>i rc. if i = l then rc else raft_enqueue_msg (raft_build_append_entries rc l i) rc) js rc') = rc_leader_id rc"
    for l js rc' by (induction js arbitrary: rc') (simp_all add: effect_simps)
  then show "rc_nodes (raft_leader_send_heartbeats rc) = rc_nodes rc" "rc_leader_id (raft_leader_send_heartbeats rc) = rc_leader_id rc"
    by (simp_all add: raft_leader_send_heartbeats_def Let_def)
qed

section \<open>One leader per term\<close>

definition is_token :: "nat \<Rightarrow> nat \<Rightarrow> 64 word \<Rightarrow> raft_message \<Rightarrow> bool" where
  "is_token c v t m \<longleftrightarrow> rm_term m = t \<and>
     (rm_type m = RAFT_MSG_REQUEST_VOTE \<and> rm_from m = c \<and> rm_to m = v \<or>
      rm_type m = RAFT_MSG_REQUEST_VOTE_REPLY \<and> rm_vote_granted m \<and> rm_from m = v \<and> rm_to m = c)"

abbreviation tokens :: "nat \<Rightarrow> nat \<Rightarrow> 64 word \<Rightarrow> raft_message list \<Rightarrow> nat" where
  "tokens c v t q \<equiv> count_if (is_token c v t) q"

type_synonym vote_history = "(nat \<times> 64 word \<times> int) set"

definition votes_of :: "raft_node list \<Rightarrow> vote_history" where
  "votes_of ns = {(v, rd_term (ns ! v), rd_voted_for (ns ! v)) | v. v < length ns \<and> rd_voted_for (ns ! v) \<noteq> -1}"

definition counted :: "raft_node list \<Rightarrow> raft_message list \<Rightarrow> vote_history \<Rightarrow> nat \<Rightarrow> nat set" where
  "counted ns q H c = {v. v < length ns \<and> (v, rd_term (ns ! c), int c) \<in> H \<and> tokens c v (rd_term (ns ! c)) q = 0}"

definition message_ok :: "raft_node list \<Rightarrow> vote_history \<Rightarrow> raft_message \<Rightarrow> bool" where
  "message_ok ns H m \<longleftrightarrow> rm_from m < length ns \<and> rm_to m < length ns \<and> rm_from m \<noteq> rm_to m \<and>
     (rm_type m = RAFT_MSG_REQUEST_VOTE \<longrightarrow> rm_term m \<le> rd_term (ns ! rm_from m)) \<and>
     (rm_type m = RAFT_MSG_REQUEST_VOTE_REPLY \<and> rm_vote_granted m \<longrightarrow>
        rm_term m \<le> rd_term (ns ! rm_to m) \<and> (rm_from m, rm_term m, int (rm_to m)) \<in> H)"

definition history_ok :: "raft_node list \<Rightarrow> vote_history \<Rightarrow> bool" where
  "history_ok ns H \<longleftrightarrow> votes_of ns \<subseteq> H \<and>
     (\<forall>(v, t, c) \<in> H. v < length ns \<and> c \<noteq> -1 \<and> t \<le> rd_term (ns ! v) \<and> (t = rd_term (ns ! v) \<longrightarrow> rd_voted_for (ns ! v) = c)) \<and>
     (\<forall>v t c c'. (v, t, c) \<in> H \<and> (v, t, c') \<in> H \<longrightarrow> c' = c)"

definition counts_ok :: "raft_node list \<Rightarrow> raft_message list \<Rightarrow> vote_history \<Rightarrow> nat \<Rightarrow> bool" where
  "counts_ok ns q H c \<longleftrightarrow> (rd_role (ns ! c) \<noteq> RAFT_FOLLOWER \<longrightarrow> rd_votes (ns ! c) \<le> card (counted ns q H c)) \<and>
     (rd_role (ns ! c) = RAFT_LEADER \<longrightarrow> raft_quorum_size_rc (length ns) \<le> rd_votes (ns ! c))"

definition election_inv :: "raft_cluster \<times> vote_history \<Rightarrow> bool" where
  "election_inv s \<longleftrightarrow> (case s of (rc, H) \<Rightarrow>
     -1 \<le> rc_leader_id rc \<and> rc_leader_id rc < int (length (rc_nodes rc)) \<and> history_ok (rc_nodes rc) H \<and>
     (\<forall>m \<in> set (rc_queue rc). message_ok (rc_nodes rc) H m) \<and> (\<forall>c v t. tokens c v t (rc_queue rc) \<le> 1) \<and>
     (\<forall>c < length (rc_nodes rc). counts_ok (rc_nodes rc) (rc_queue rc) H c))"

lemma ballot_nth:
  assumes "map ballot ns' = (map ballot ns)[i := (r, t, f, k)]"
  shows "length ns' = length ns"
    and "i < length ns \<Longrightarrow> rd_role (ns' ! i) = r \<and> rd_term (ns' ! i) = t \<and> rd_voted_for (ns' ! i) = f \<and> rd_votes (ns' ! i) = k"
    and "j < length ns \<Longrightarrow> j \<noteq> i \<Longrightarrow> rd_role (ns' ! j) = rd_role (ns ! j) \<and> rd_term (ns' ! j) = rd_term (ns ! j) \<and>
      rd_voted_for (ns' ! j) = rd_voted_for (ns ! j) \<and> rd_votes (ns' ! j) = rd_votes (ns ! j)"
proof -
  show len: "length ns' = length ns" using arg_cong [OF assms, of length] by simp
  have "ballot (ns' ! j) = (if j = i then (r, t, f, k) else ballot (ns ! j))" if "j < length ns" for j
    using arg_cong [OF assms, of "\<lambda>xs. xs ! j"] that len by (simp add: nth_list_update)
  note eq = this
  show "i < length ns \<Longrightarrow> rd_role (ns' ! i) = r \<and> rd_term (ns' ! i) = t \<and> rd_voted_for (ns' ! i) = f \<and> rd_votes (ns' ! i) = k"
    and "j < length ns \<Longrightarrow> j \<noteq> i \<Longrightarrow> rd_role (ns' ! j) = rd_role (ns ! j) \<and> rd_term (ns' ! j) = rd_term (ns ! j) \<and>
      rd_voted_for (ns' ! j) = rd_voted_for (ns ! j) \<and> rd_votes (ns' ! j) = rd_votes (ns ! j)"
    using eq [of i] eq [of j] by (simp_all add: ballot_def)
qed

lemma finite_counted: "finite (counted ns q H c)"
  by (simp add: counted_def)

text \<open>The general step: one node's ballot changes, its term does not fall and its vote in a term is not taken back.\<close>

lemma history_ok_update:
  assumes H: "history_ok ns H" and i: "i < length ns" and ns': "map ballot ns' = (map ballot ns)[i := (r, t, f, k)]"
    and t: "rd_term (ns ! i) \<le> t" and f: "t = rd_term (ns ! i) \<Longrightarrow> rd_voted_for (ns ! i) \<noteq> -1 \<Longrightarrow> f = rd_voted_for (ns ! i)"
  shows "history_ok ns' (H \<union> votes_of ns')"
proof -
  note b = ballot_nth [OF ns']
  have old: "v < length ns \<and> c \<noteq> -1 \<and> u \<le> rd_term (ns' ! v) \<and> (u = rd_term (ns' ! v) \<longrightarrow> rd_voted_for (ns' ! v) = c)"
    if "(v, u, c) \<in> H" for v u c
  proof -
    have h: "v < length ns" "c \<noteq> -1" "u \<le> rd_term (ns ! v)" "u = rd_term (ns ! v) \<longrightarrow> rd_voted_for (ns ! v) = c"
      using H that by (auto simp: history_ok_def)
    show ?thesis
    proof (cases "v = i")
      case True
      then show ?thesis using h b(2) [OF i] t f by (auto simp: order_antisym_conv)
    qed (use h b(3) in auto)
  qed
  have new: "v < length ns \<and> c \<noteq> -1 \<and> u = rd_term (ns' ! v) \<and> rd_voted_for (ns' ! v) = c" if "(v, u, c) \<in> votes_of ns'" for v u c
    using that b(1) by (auto simp: votes_of_def)
  have fn: "(v, u, c) \<in> H \<Longrightarrow> (v, u, c') \<in> H \<Longrightarrow> c' = c" for v u c c' using H by (auto simp: history_ok_def)
  have "c' = c" if "(v, u, c) \<in> H \<union> votes_of ns'" "(v, u, c') \<in> H \<union> votes_of ns'" for v u c c'
    using that old [of v u c] old [of v u c'] new [of v u c] new [of v u c'] fn [of v u c c'] by blast
  moreover have "v < length ns' \<and> c \<noteq> -1 \<and> u \<le> rd_term (ns' ! v) \<and> (u = rd_term (ns' ! v) \<longrightarrow> rd_voted_for (ns' ! v) = c)"
    if "(v, u, c) \<in> H \<union> votes_of ns'" for v u c
    using that old [of v u c] new [of v u c] b(1) by auto
  ultimately show ?thesis unfolding history_ok_def by blast
qed

lemma message_ok_mono:
  assumes "message_ok ns H m" and "length ns' = length ns" and "\<And>v. v < length ns \<Longrightarrow> rd_term (ns ! v) \<le> rd_term (ns' ! v)" and "H \<subseteq> H'"
  shows "message_ok ns' H' m"
  using assms by (auto simp: message_ok_def intro: order_trans)

lemma election_inv_update:
  assumes inv: "election_inv (rc, H)" and i: "i < length (rc_nodes rc)"
    and ns': "ballots rc' = (ballots rc)[i := (r, t, f, k)]"
    and t: "rd_term (rc_nodes rc ! i) \<le> t"
    and f: "t = rd_term (rc_nodes rc ! i) \<Longrightarrow> rd_voted_for (rc_nodes rc ! i) \<noteq> -1 \<Longrightarrow> f = rd_voted_for (rc_nodes rc ! i)"
    and lid: "rc_leader_id rc' \<in> {-1, rc_leader_id rc} \<or> (\<exists>j < length (rc_nodes rc). rc_leader_id rc' = int j)"
    and msgs: "\<And>m. m \<in> set (rc_queue rc') \<Longrightarrow> m \<in> set (rc_queue rc) \<or> message_ok (rc_nodes rc') (H \<union> votes_of (rc_nodes rc')) m"
    and one: "\<And>c v u. tokens c v u (rc_queue rc') \<le> 1"
    and others: "\<And>c v. c < length (rc_nodes rc) \<Longrightarrow> c \<noteq> i \<Longrightarrow>
      tokens c v (rd_term (rc_nodes rc ! c)) (rc_queue rc') \<le> tokens c v (rd_term (rc_nodes rc ! c)) (rc_queue rc)"
    and self: "counts_ok (rc_nodes rc') (rc_queue rc') (H \<union> votes_of (rc_nodes rc')) i"
  shows "election_inv (rc', H \<union> votes_of (rc_nodes rc'))"
proof -
  let ?ns = "rc_nodes rc" and ?ns' = "rc_nodes rc'" and ?H' = "H \<union> votes_of (rc_nodes rc')"
  note b = ballot_nth [OF ns']
  have H: "history_ok ?ns H" using inv by (simp add: election_inv_def)
  have terms: "rd_term (?ns ! v) \<le> rd_term (?ns' ! v)" if "v < length ?ns" for v
    using that b(2) [OF i] b(3) [of v] t by (cases "v = i") auto
  have hist: "history_ok ?ns' ?H'" using H i ns' t f by (rule history_ok_update)
  have "message_ok ?ns' ?H' m" if "m \<in> set (rc_queue rc')" for m
  proof (cases "m \<in> set (rc_queue rc)")
    case True
    then have "message_ok ?ns H m" using inv by (auto simp: election_inv_def)
    then show ?thesis using message_ok_mono b(1) terms by auto
  qed (use msgs [OF that] in auto)
  moreover have "counts_ok ?ns' (rc_queue rc') ?H' c" if c: "c < length ?ns" for c
  proof (cases "c = i")
    case False
    have old: "counts_ok ?ns (rc_queue rc) H c" using inv c by (simp add: election_inv_def)
    have le: "tokens c v (rd_term (?ns ! c)) (rc_queue rc') = 0" if "tokens c v (rd_term (?ns ! c)) (rc_queue rc) = 0" for v
      using others [OF c False, of v] that by simp
    have "counted ?ns (rc_queue rc) H c \<subseteq> counted ?ns' (rc_queue rc') ?H' c"
      using b(1) b(3) [OF c False] le unfolding counted_def by auto
    then have "card (counted ?ns (rc_queue rc) H c) \<le> card (counted ?ns' (rc_queue rc') ?H' c)"
      by (intro card_mono finite_counted)
    then show ?thesis using old b(1) b(3) [OF c False] by (auto simp: counts_ok_def)
  qed (use self in simp)
  ultimately show ?thesis using inv hist lid one b(1) by (auto simp: election_inv_def)
qed

text \<open>A step that touches no ballot and sends no vote message.\<close>

definition vote_message :: "raft_message \<Rightarrow> bool" where
  "vote_message m \<longleftrightarrow> rm_type m = RAFT_MSG_REQUEST_VOTE \<or> rm_type m = RAFT_MSG_REQUEST_VOTE_REPLY \<and> rm_vote_granted m"

definition plain_message :: "nat \<Rightarrow> raft_message \<Rightarrow> bool" where
  "plain_message n m \<longleftrightarrow> \<not> vote_message m \<and> rm_from m < n \<and> rm_to m < n \<and> rm_from m \<noteq> rm_to m"

lemma tokens_plain: "(\<And>m. m \<in> set new \<Longrightarrow> \<not> vote_message m) \<Longrightarrow> tokens c v t (q @ new) = tokens c v t q"
  by (induction new) (auto simp: count_if_def is_token_def vote_message_def filter_empty_conv)

lemma plain_message_ok: "plain_message (length ns) m \<Longrightarrow> message_ok ns H m"
  by (auto simp: plain_message_def message_ok_def vote_message_def)

lemma ballots_self: "i < length ns \<Longrightarrow> map ballot ns = (map ballot ns)[i := (rd_role (ns ! i), rd_term (ns ! i), rd_voted_for (ns ! i), rd_votes (ns ! i))]"
  by (metis ballot_def list_update_id nth_map)

lemma counted_mono:
  assumes "length ns' = length ns" and "rd_term (ns' ! c) = rd_term (ns ! c)" and "H \<subseteq> H'"
    and "\<And>v. tokens c v (rd_term (ns ! c)) q' \<le> tokens c v (rd_term (ns ! c)) q"
  shows "counted ns q H c \<subseteq> counted ns' q' H' c"
proof -
  have "tokens c v (rd_term (ns ! c)) q' = 0" if "tokens c v (rd_term (ns ! c)) q = 0" for v using assms(4) [of v] that by simp
  then show ?thesis using assms(1-3) by (auto simp: counted_def)
qed

lemma election_inv_shrink:
  assumes inv: "election_inv (rc, H)" and i: "i < length (rc_nodes rc)"
    and ns': "ballots rc' = (ballots rc)[i := (r, t, f, k)]"
    and t: "rd_term (rc_nodes rc ! i) \<le> t"
    and f: "t = rd_term (rc_nodes rc ! i) \<Longrightarrow> rd_voted_for (rc_nodes rc ! i) \<noteq> -1 \<Longrightarrow> f = rd_voted_for (rc_nodes rc ! i)"
    and lid: "rc_leader_id rc' \<in> {-1, rc_leader_id rc} \<or> (\<exists>j < length (rc_nodes rc). rc_leader_id rc' = int j)"
    and msgs: "\<And>m. m \<in> set (rc_queue rc') \<Longrightarrow> m \<in> set (rc_queue rc) \<or> message_ok (rc_nodes rc') (H \<union> votes_of (rc_nodes rc')) m"
    and tok: "\<And>c v u. tokens c v u (rc_queue rc') \<le> tokens c v u (rc_queue rc)"
    and self: "r = RAFT_FOLLOWER \<or> r = rd_role (rc_nodes rc ! i) \<and> t = rd_term (rc_nodes rc ! i) \<and> k = rd_votes (rc_nodes rc ! i)"
  shows "election_inv (rc', H \<union> votes_of (rc_nodes rc'))"
proof (rule election_inv_update [OF inv i ns' t f lid msgs])
  show "tokens c v u (rc_queue rc') \<le> 1" for c v u
    using tok [of c v u] inv by (auto simp: election_inv_def intro: order_trans)
  show "tokens c v (rd_term (rc_nodes rc ! c)) (rc_queue rc') \<le> tokens c v (rd_term (rc_nodes rc ! c)) (rc_queue rc)" for c v
    by (rule tok)
  note b = ballot_nth [OF ns']
  show "counts_ok (rc_nodes rc') (rc_queue rc') (H \<union> votes_of (rc_nodes rc')) i"
  proof (cases "r = RAFT_FOLLOWER")
    case True
    then show ?thesis using b(2) [OF i] by (simp add: counts_ok_def)
  next
    case False
    then have same: "rd_role (rc_nodes rc' ! i) = rd_role (rc_nodes rc ! i)" "rd_term (rc_nodes rc' ! i) = rd_term (rc_nodes rc ! i)"
        "rd_votes (rc_nodes rc' ! i) = rd_votes (rc_nodes rc ! i)"
      using self b(2) [OF i] by auto
    have "counted (rc_nodes rc) (rc_queue rc) H i \<subseteq> counted (rc_nodes rc') (rc_queue rc') (H \<union> votes_of (rc_nodes rc')) i"
      using b(1) same(2) tok by (intro counted_mono) auto
    then have "card (counted (rc_nodes rc) (rc_queue rc) H i) \<le> card (counted (rc_nodes rc') (rc_queue rc') (H \<union> votes_of (rc_nodes rc')) i)"
      by (intro card_mono finite_counted)
    moreover have "counts_ok (rc_nodes rc) (rc_queue rc) H i" using inv i by (simp add: election_inv_def)
    ultimately show ?thesis using same b(1) by (auto simp: counts_ok_def)
  qed
qed

lemma tokens_suffix: "rc_queue rc = pre @ q \<Longrightarrow> (\<And>m. m \<in> set new \<Longrightarrow> \<not> vote_message m) \<Longrightarrow> tokens c v u (q @ new) \<le> tokens c v u (rc_queue rc)"
  by (simp add: tokens_plain) (simp add: count_if_def)

text \<open>Handlers that deal with no vote: the node keeps its ballot or becomes a follower, only plain messages are sent.\<close>

lemma election_inv_passive:
  assumes inv: "election_inv (rc, H)" and i: "i < length (rc_nodes rc)"
    and ns': "ballots rc' = (ballots rc)[i := (r, t, f, k)]"
    and ballot: "t > rd_term (rc_nodes rc ! i) \<and> r = RAFT_FOLLOWER \<or>
      t = rd_term (rc_nodes rc ! i) \<and> f = rd_voted_for (rc_nodes rc ! i) \<and> k = rd_votes (rc_nodes rc ! i) \<and> r \<in> {RAFT_FOLLOWER, rd_role (rc_nodes rc ! i)}"
    and lid: "rc_leader_id rc' \<in> {-1, rc_leader_id rc} \<or> (\<exists>j < length (rc_nodes rc). rc_leader_id rc' = int j)"
    and q: "rc_queue rc = pre @ q" "rc_queue rc' = q @ new" and new: "\<And>m. m \<in> set new \<Longrightarrow> plain_message (length (rc_nodes rc)) m"
  shows "election_inv (rc', H \<union> votes_of (rc_nodes rc'))"
proof (rule election_inv_shrink [OF inv i ns' _ _ lid])
  show "rd_term (rc_nodes rc ! i) \<le> t" using ballot by auto
  show "f = rd_voted_for (rc_nodes rc ! i)" if "t = rd_term (rc_nodes rc ! i)" using ballot that by auto
  show "r = RAFT_FOLLOWER \<or> r = rd_role (rc_nodes rc ! i) \<and> t = rd_term (rc_nodes rc ! i) \<and> k = rd_votes (rc_nodes rc ! i)"
    using ballot by auto
  show "m \<in> set (rc_queue rc) \<or> message_ok (rc_nodes rc') (H \<union> votes_of (rc_nodes rc')) m" if "m \<in> set (rc_queue rc')" for m
    using that q new [of m] ballot_nth(1) [OF ns'] plain_message_ok by auto
  show "tokens c v u (rc_queue rc') \<le> tokens c v u (rc_queue rc)" for c v u
    unfolding q(2) using q(1) new by (intro tokens_suffix) (auto simp: plain_message_def)
qed

lemma election_inv_quiet:
  assumes "election_inv (rc, H)" and "rc_nodes rc \<noteq> []" and "ballots rc' = ballots rc"
    and "rc_leader_id rc' \<in> {-1, rc_leader_id rc} \<or> (\<exists>j < length (rc_nodes rc). rc_leader_id rc' = int j)"
    and "rc_queue rc = pre @ q" "rc_queue rc' = q @ new" and "\<And>m. m \<in> set new \<Longrightarrow> plain_message (length (rc_nodes rc)) m"
  shows "election_inv (rc', H \<union> votes_of (rc_nodes rc'))"
proof (rule election_inv_passive [OF assms(1) _ _ _ assms(4-7)])
  show "0 < length (rc_nodes rc)" using assms(2) by simp
  then show "ballots rc' = (ballots rc)[0 := (rd_role (rc_nodes rc ! 0), rd_term (rc_nodes rc ! 0), rd_voted_for (rc_nodes rc ! 0), rd_votes (rc_nodes rc ! 0))]"
    unfolding assms(3) by (rule ballots_self)
qed auto

section \<open>The handlers keep the invariant\<close>

lemma become_follower_effect [effect_simps]:
  "ballots (raft_become_follower_rc i t rc) = (ballots rc)[i := (RAFT_FOLLOWER, t, -1, rd_votes (rc_nodes rc ! i))]"
  "rc_queue (raft_become_follower_rc i t rc) = rc_queue rc" "rc_leader_id (raft_become_follower_rc i t rc) = rc_leader_id rc"
  "length (rc_nodes (raft_become_follower_rc i t rc)) = length (rc_nodes rc)"
  "map rd_log (rc_nodes (raft_become_follower_rc i t rc)) = map rd_log (rc_nodes rc)"
  by (simp_all add: raft_become_follower_rc_def effect_simps map_update_same [of rd_log]) (simp add: map_update ballot_def)

lemma election_inv_leader: "election_inv (rc, H) \<Longrightarrow> -1 \<le> rc_leader_id rc \<and> rc_leader_id rc < int (length (rc_nodes rc))"
  by (simp add: election_inv_def)

lemma head_message_ok: "election_inv (rc, H) \<Longrightarrow> rc_queue rc = m # q \<Longrightarrow> message_ok (rc_nodes rc) H m"
  by (simp add: election_inv_def)

lemma reply_simps [simp]:
  "rm_type (raft_build_request_vote_reply a b t g) = RAFT_MSG_REQUEST_VOTE_REPLY" "rm_from (raft_build_request_vote_reply a b t g) = a"
  "rm_to (raft_build_request_vote_reply a b t g) = b" "rm_term (raft_build_request_vote_reply a b t g) = t"
  "rm_vote_granted (raft_build_request_vote_reply a b t g) = g"
  "rm_type (raft_build_append_entries_reply a b t s mi) = RAFT_MSG_APPEND_ENTRIES_REPLY" "rm_from (raft_build_append_entries_reply a b t s mi) = a"
  "rm_to (raft_build_append_entries_reply a b t s mi) = b"
  by (simp_all add: raft_build_request_vote_reply_def raft_build_append_entries_reply_def)

text \<open>Plain messages may be sent at any time.\<close>

lemma election_inv_append:
  assumes inv: "election_inv (rc, H)" and "rc_nodes rc' = rc_nodes rc"
    and "-1 \<le> rc_leader_id rc' \<and> rc_leader_id rc' < int (length (rc_nodes rc))"
    and "rc_queue rc' = rc_queue rc @ new" and new: "\<And>m. m \<in> set new \<Longrightarrow> plain_message (length (rc_nodes rc)) m"
  shows "election_inv (rc', H)"
proof -
  have tok: "tokens c v u (rc_queue rc @ new) = tokens c v u (rc_queue rc)" for c v u
    using new by (intro tokens_plain) (auto simp: plain_message_def)
  then have "counted (rc_nodes rc) (rc_queue rc @ new) H c = counted (rc_nodes rc) (rc_queue rc) H c" for c
    by (simp add: counted_def)
  then show ?thesis using assms tok plain_message_ok by (auto simp: election_inv_def counts_ok_def)
qed

lemma election_inv_send:
  assumes "election_inv (rc, H)" and "plain_message (length (rc_nodes rc)) m"
  shows "election_inv (raft_enqueue_msg m rc, H)"
proof (rule election_inv_append [OF assms(1)])
  show "x \<in> set (take (RAFT_MAX_MSG_QUEUE - 1 - length (rc_queue rc)) [m]) \<Longrightarrow> plain_message (length (rc_nodes rc)) x" for x
    using assms(2) by (auto dest!: in_set_takeD)
qed (use election_inv_leader [OF assms(1)] in \<open>simp_all add: effect_simps\<close>)

lemma election_inv_heartbeats: "election_inv (rc, H) \<Longrightarrow> election_inv (raft_leader_send_heartbeats rc, H)"
proof -
  assume inv: "election_inv (rc, H)"
  obtain hb where "rc_queue (raft_leader_send_heartbeats rc) = rc_queue rc @ hb"
      "\<forall>m \<in> set hb. rm_type m = RAFT_MSG_APPEND_ENTRIES \<and> rm_from m < length (rc_nodes rc) \<and> rm_to m < length (rc_nodes rc) \<and>
        rm_from m \<noteq> rm_to m \<and> rm_entries m = []"
    using heartbeats_effect [of rc] election_inv_leader [OF inv] by blast
  then show ?thesis using election_inv_append [OF inv, of "raft_leader_send_heartbeats rc" hb] election_inv_leader [OF inv]
    by (auto simp: effect_simps plain_message_def vote_message_def)
qed

text \<open>A vote is granted: the request is replaced by the answer, so that one of the two is under way.\<close>

lemma election_inv_grant:
  assumes inv: "election_inv (rc, H)" and q: "rc_queue rc = m # q" and m: "rm_type m = RAFT_MSG_REQUEST_VOTE"
    and b: "ballots rc' = (ballots rc)[rm_to m := (r, rm_term m, int (rm_from m), k)]" and lid: "rc_leader_id rc' = rc_leader_id rc"
    and q': "rc_queue rc' = q @ take n [raft_build_request_vote_reply (rm_to m) (rm_from m) (rm_term m) True]"
    and r: "rm_term m > rd_term (rc_nodes rc ! rm_to m) \<and> r = RAFT_FOLLOWER \<or>
      rm_term m = rd_term (rc_nodes rc ! rm_to m) \<and> rd_voted_for (rc_nodes rc ! rm_to m) \<in> {-1, int (rm_from m)} \<and>
      k = rd_votes (rc_nodes rc ! rm_to m) \<and> r = rd_role (rc_nodes rc ! rm_to m)"
  shows "election_inv (rc', H \<union> votes_of (rc_nodes rc'))"
proof -
  let ?i = "rm_to m" and ?c = "rm_from m" and ?t = "rm_term m"
  let ?reply = "raft_build_request_vote_reply ?i ?c ?t True"
  have ok: "?i < length (rc_nodes rc)" "?c < length (rc_nodes rc)" "?c \<noteq> ?i" "?t \<le> rd_term (rc_nodes rc ! ?c)"
    using head_message_ok [OF inv q] m by (auto simp: message_ok_def)
  note nth = ballot_nth [OF b]
  have same: "is_token a v u ?reply \<longleftrightarrow> is_token a v u m" for a v u using m by (auto simp: is_token_def)
  have "(?i, ?t, int ?c) \<in> votes_of (rc_nodes rc')" using nth ok by (auto simp: votes_of_def)
  then have reply: "message_ok (rc_nodes rc') (H \<union> votes_of (rc_nodes rc')) ?reply"
    using ok nth(1) nth(3) [of ?c] by (auto simp: message_ok_def)
  show ?thesis
  proof (rule election_inv_shrink [OF inv ok(1) b])
    show "rc_leader_id rc' \<in> {-1, rc_leader_id rc} \<or> (\<exists>j < length (rc_nodes rc). rc_leader_id rc' = int j)" by (simp add: lid)
    show "x \<in> set (rc_queue rc) \<or> message_ok (rc_nodes rc') (H \<union> votes_of (rc_nodes rc')) x" if "x \<in> set (rc_queue rc')" for x
      using that q reply by (auto simp: q' dest!: in_set_takeD)
    show "tokens a v u (rc_queue rc') \<le> tokens a v u (rc_queue rc)" for a v u
      using same [of a v u] by (cases n) (simp_all add: q' q count_if_def)
  qed (use r in auto)
qed

text \<open>The prologue of the handlers: a higher term makes the node a follower.\<close>

definition raft_see_term :: "nat \<Rightarrow> 64 word \<Rightarrow> raft_cluster \<Rightarrow> raft_cluster" where
  "raft_see_term i t rc = (if t > rd_term (rc_nodes rc ! i) then raft_become_follower_rc i t rc else rc)"

lemma see_term_effect:
  assumes "i < length (rc_nodes rc)" and "\<not> t < rd_term (rc_nodes rc ! i)"
  obtains r f k where "ballots (raft_see_term i t rc) = (ballots rc)[i := (r, t, f, k)]"
    and "t > rd_term (rc_nodes rc ! i) \<and> r = RAFT_FOLLOWER \<and> f = -1 \<or>
      t = rd_term (rc_nodes rc ! i) \<and> f = rd_voted_for (rc_nodes rc ! i) \<and> k = rd_votes (rc_nodes rc ! i) \<and> r = rd_role (rc_nodes rc ! i)"
proof (cases "t > rd_term (rc_nodes rc ! i)")
  case True
  then show ?thesis using that [of RAFT_FOLLOWER "-1" "rd_votes (rc_nodes rc ! i)"] by (simp add: raft_see_term_def effect_simps)
next
  case False
  then have "t = rd_term (rc_nodes rc ! i)" using assms(2) by simp
  then show ?thesis using that [OF _ disjI2] ballots_self [OF assms(1)] False by (simp add: raft_see_term_def)
qed

lemma see_term_queue [effect_simps]:
  "rc_queue (raft_see_term i t rc) = rc_queue rc" "rc_leader_id (raft_see_term i t rc) = rc_leader_id rc"
  "length (rc_nodes (raft_see_term i t rc)) = length (rc_nodes rc)"
  "map rd_log (rc_nodes (raft_see_term i t rc)) = map rd_log (rc_nodes rc)"
  by (simp_all add: raft_see_term_def effect_simps)

lemma request_vote_inv:
  assumes inv: "election_inv (rc, H)" and q: "rc_queue rc = m # q" and m: "rm_type m = RAFT_MSG_REQUEST_VOTE"
  defines "rc' \<equiv> raft_handle_request_vote_rc m (rc\<lparr>rc_queue := q\<rparr>)"
  shows "election_inv (rc', H \<union> votes_of (rc_nodes rc'))"
proof -
  let ?i = "rm_to m" and ?c = "rm_from m" and ?t = "rm_term m" and ?rc1 = "rc\<lparr>rc_queue := q\<rparr>"
  have ok: "?i < length (rc_nodes rc)" "?c < length (rc_nodes rc)" "?c \<noteq> ?i"
    using head_message_ok [OF inv q] m by (auto simp: message_ok_def)
  have q1: "rc_queue rc = [m] @ q" using q by simp
  have send: "election_inv (raft_enqueue_msg (raft_build_request_vote_reply ?i ?c u False) r, H')"
    if "election_inv (r, H')" "length (rc_nodes r) = length (rc_nodes rc)" for u r H'
    using that ok by (intro election_inv_send) (simp_all add: plain_message_def vote_message_def)
  show ?thesis
  proof (cases "?t < rd_term (rc_nodes rc ! ?i)")
    case True
    have "rc_nodes rc \<noteq> []" using ok(1) by auto
    then have "election_inv (?rc1, H \<union> votes_of (rc_nodes rc))" using election_inv_quiet [OF inv _ _ _ q1, of ?rc1 "[]"] by simp
    then show ?thesis using True send by (simp add: rc'_def raft_handle_request_vote_rc_def Let_def effect_simps)
  next
    case False
    define rc2 where "rc2 = raft_see_term ?i ?t ?rc1"
    obtain r f k where b2: "ballots rc2 = (ballots rc)[?i := (r, ?t, f, k)]" and r: "?t > rd_term (rc_nodes rc ! ?i) \<and> r = RAFT_FOLLOWER \<and> f = -1 \<or>
        ?t = rd_term (rc_nodes rc ! ?i) \<and> f = rd_voted_for (rc_nodes rc ! ?i) \<and> k = rd_votes (rc_nodes rc ! ?i) \<and> r = rd_role (rc_nodes rc ! ?i)"
      using see_term_effect [of ?i ?rc1 ?t] False ok(1) by (auto simp: rc2_def)
    have q2: "rc_queue rc2 = q" "rc_leader_id rc2 = rc_leader_id rc" by (simp_all add: rc2_def effect_simps)
    note n2 = ballot_nth [OF b2]
    define grant where "grant = ((rd_voted_for (rc_nodes rc2 ! ?i) = -1 \<or> rd_voted_for (rc_nodes rc2 ! ?i) = int ?c) \<and>
      (rm_last_log_term m > raft_last_log_term_rc (rc_nodes rc2 ! ?i) \<or>
       rm_last_log_term m = raft_last_log_term_rc (rc_nodes rc2 ! ?i) \<and> rm_last_log_index m \<ge> raft_last_log_index_rc (rc_nodes rc2 ! ?i)))"
    define rc3 where "rc3 = (if grant then raft_set_deadline ?i (update_node ?i (\<lambda>n. n\<lparr>rd_voted_for := int ?c\<rparr>) rc2) else rc2)"
    have rc': "rc' = raft_enqueue_msg (raft_build_request_vote_reply ?i ?c (rd_term (rc_nodes rc3 ! ?i)) grant) rc3"
      using False unfolding rc'_def raft_handle_request_vote_rc_def Let_def rc3_def grant_def rc2_def raft_see_term_def by simp
    show ?thesis
    proof (cases grant)
      case False
      have "election_inv (rc2, H \<union> votes_of (rc_nodes rc2))"
        using r by (intro election_inv_passive [OF inv ok(1) b2 _ _ q1, of "[]"]) (auto simp: q2)
      then show ?thesis using send False n2(1) by (simp add: rc' rc3_def effect_simps)
    next
      case True
      have b3: "ballots rc3 = (ballots rc)[?i := (r, ?t, int ?c, k)]"
        using True n2(2) [OF ok(1)] ok(1) n2(1) by (simp add: rc3_def effect_simps map_update b2 ballot_def)
      have reply: "rd_term (rc_nodes rc3 ! ?i) = ?t" using ballot_nth(2) [OF b3 ok(1)] by simp
      have "rd_voted_for (rc_nodes rc ! ?i) \<in> {-1, int ?c}" if "?t = rd_term (rc_nodes rc ! ?i)"
        using that r True n2(2) [OF ok(1)] by (auto simp: grant_def)
      then show ?thesis
        using r True b3 reply
        by (intro election_inv_grant [OF inv q m, where r = r and k = k]) (auto simp: rc' effect_simps, auto simp: rc3_def effect_simps q2)
    qed
  qed
qed

text \<open>Becoming leader is a change of role followed by heartbeats.\<close>

definition raft_crown :: "nat \<Rightarrow> raft_cluster \<Rightarrow> raft_cluster" where
  "raft_crown i rc = update_node i (\<lambda>n. n\<lparr>rd_role := RAFT_LEADER, rd_next_index := replicate RAFT_MAX_NODES (int (length (rd_log n))),
     rd_match_index := replicate RAFT_MAX_NODES (-1)\<rparr>) (rc\<lparr>rc_leader_id := int i\<rparr>)"

lemma become_leader_crown: "raft_become_leader_rc i rc = raft_leader_send_heartbeats (raft_crown i rc)"
  by (simp add: raft_become_leader_rc_def raft_crown_def)

lemma crown_effect [effect_simps]:
  "ballots (raft_crown i rc) = (ballots rc)[i := (RAFT_LEADER, rd_term (rc_nodes rc ! i), rd_voted_for (rc_nodes rc ! i), rd_votes (rc_nodes rc ! i))]"
  "rc_queue (raft_crown i rc) = rc_queue rc" "rc_leader_id (raft_crown i rc) = int i"
  "length (rc_nodes (raft_crown i rc)) = length (rc_nodes rc)"
  "map rd_log (rc_nodes (raft_crown i rc)) = map rd_log (rc_nodes rc)"
  by (simp_all add: raft_crown_def effect_simps map_update_same [of rd_log]) (simp add: map_update ballot_def)

text \<open>A granted vote is counted: the answer is no longer under way, so the voter joins the counted ones.\<close>

lemma election_inv_count:
  assumes inv: "election_inv (rc, H)" and q: "rc_queue rc = m # q" and m: "rm_type m = RAFT_MSG_REQUEST_VOTE_REPLY" "rm_vote_granted m"
    and t: "rm_term m = rd_term (rc_nodes rc ! rm_to m)" and cand: "rd_role (rc_nodes rc ! rm_to m) = RAFT_CANDIDATE"
    and b: "ballots rc' = (ballots rc)[rm_to m := (r, rm_term m, rd_voted_for (rc_nodes rc ! rm_to m), rd_votes (rc_nodes rc ! rm_to m) + 1)]"
    and lid: "rc_leader_id rc' \<in> {rc_leader_id rc, int (rm_to m)}" and q': "rc_queue rc' = q"
    and r: "r = RAFT_LEADER \<Longrightarrow> raft_quorum_size_rc (length (rc_nodes rc)) \<le> rd_votes (rc_nodes rc ! rm_to m) + 1"
  shows "election_inv (rc', H \<union> votes_of (rc_nodes rc'))"
proof -
  let ?i = "rm_to m" and ?v = "rm_from m" and ?t = "rm_term m" and ?H' = "H \<union> votes_of (rc_nodes rc')"
  have ok: "?i < length (rc_nodes rc)" "?v < length (rc_nodes rc)" "(?v, ?t, int ?i) \<in> H"
    using head_message_ok [OF inv q] m by (auto simp: message_ok_def)
  note nth = ballot_nth [OF b]
  have le: "tokens a v u (rc_queue rc') \<le> tokens a v u (rc_queue rc)" for a v u by (simp add: q q' count_if_def)
  have one: "tokens a v u (rc_queue rc) \<le> 1" for a v u using inv by (auto simp: election_inv_def)
  have tok: "is_token ?i ?v ?t m" using m by (simp add: is_token_def)
  then have here: "tokens ?i ?v ?t (rc_queue rc) \<noteq> 0" and gone: "tokens ?i ?v ?t (rc_queue rc') = 0"
    using one [of ?i ?v ?t] by (simp_all add: q q' count_if_def)
  have "insert ?v (counted (rc_nodes rc) (rc_queue rc) H ?i) \<subseteq> counted (rc_nodes rc') (rc_queue rc') ?H' ?i"
    using counted_mono [of "rc_nodes rc'" "rc_nodes rc" ?i H ?H' "rc_queue rc'" "rc_queue rc"] nth(1) nth(2) [OF ok(1)] ok gone le t
    by (auto simp: counted_def)
  then have "card (insert ?v (counted (rc_nodes rc) (rc_queue rc) H ?i)) \<le> card (counted (rc_nodes rc') (rc_queue rc') ?H' ?i)"
    by (intro card_mono finite_counted)
  moreover have "?v \<notin> counted (rc_nodes rc) (rc_queue rc) H ?i" using here t by (simp add: counted_def)
  moreover have "rd_votes (rc_nodes rc ! ?i) \<le> card (counted (rc_nodes rc) (rc_queue rc) H ?i)"
    using inv ok(1) cand by (simp add: election_inv_def counts_ok_def)
  ultimately have self: "counts_ok (rc_nodes rc') (rc_queue rc') ?H' ?i"
    using nth(1) nth(2) [OF ok(1)] r finite_counted [of "rc_nodes rc" "rc_queue rc" H ?i] by (simp add: counts_ok_def)
  show ?thesis
  proof (rule election_inv_update [OF inv ok(1) b])
    show "rc_leader_id rc' \<in> {-1, rc_leader_id rc} \<or> (\<exists>j < length (rc_nodes rc). rc_leader_id rc' = int j)" using lid ok(1) by auto
    show "tokens a v u (rc_queue rc') \<le> 1" for a v u using le [of a v u] one [of a v u] by linarith
  qed (use t self le in \<open>auto simp: q q'\<close>)
qed

lemma votes_of_heartbeats: "votes_of (rc_nodes (raft_leader_send_heartbeats rc)) = votes_of (rc_nodes rc)"
  by (simp add: effect_simps)

lemma election_inv_votes: "election_inv (rc, H) \<Longrightarrow> H \<union> votes_of (rc_nodes rc) = H"
  by (auto simp: election_inv_def history_ok_def)

lemma votes_of_cong:
  assumes "map (\<lambda>n. (rd_term n, rd_voted_for n)) ns' = map (\<lambda>n. (rd_term n, rd_voted_for n)) ns"
  shows "votes_of ns' = votes_of ns"
proof -
  have len: "length ns' = length ns" using assms by (rule map_eq_imp_length_eq)
  have "rd_term (ns' ! v) = rd_term (ns ! v)" "rd_voted_for (ns' ! v) = rd_voted_for (ns ! v)" if "v < length ns" for v
    using arg_cong [OF assms, of "\<lambda>xs. xs ! v"] that len by simp_all
  then show ?thesis using len by (auto simp: votes_of_def)
qed

lemma votes_of_ballots: "map ballot ns' = map ballot ns \<Longrightarrow> votes_of ns' = votes_of ns"
proof (rule votes_of_cong)
  assume "map ballot ns' = map ballot ns"
  from arg_cong [OF this, of "map (\<lambda>(r, t, f, k). (t, f))"]
  show "map (\<lambda>n. (rd_term n, rd_voted_for n)) ns' = map (\<lambda>n. (rd_term n, rd_voted_for n)) ns" by (simp add: ballot_def comp_def)
qed

lemma election_inv_nonempty: "election_inv (rc, H) \<Longrightarrow> rc_queue rc = m # q \<Longrightarrow> rc_nodes rc \<noteq> []"
  by (auto simp: election_inv_def message_ok_def)

lemma election_inv_drop:
  assumes inv: "election_inv (rc, H)" and q: "rc_queue rc = m # q"
  shows "election_inv (rc\<lparr>rc_queue := q\<rparr>, H)"
  using election_inv_quiet [OF inv election_inv_nonempty [OF inv q], of "rc\<lparr>rc_queue := q\<rparr>" "[m]" q "[]"] q election_inv_votes [OF inv] by simp

lemma election_inv_ballots:
  assumes inv: "election_inv (rc, H)" and "rc_nodes rc \<noteq> []" and b: "ballots rc' = ballots rc" and "rc_queue rc' = rc_queue rc"
    and "rc_leader_id rc' \<in> {-1, rc_leader_id rc} \<or> (\<exists>j < length (rc_nodes rc). rc_leader_id rc' = int j)"
  shows "election_inv (rc', H)"
  using election_inv_quiet [OF assms(1-3,5), of "[]" "rc_queue rc" "[]"] assms(4) votes_of_ballots [OF b] election_inv_votes [OF inv] by simp

lemma election_inv_see_term:
  assumes inv: "election_inv (rc, H)" and i: "i < length (rc_nodes rc)" and t: "\<not> t < rd_term (rc_nodes rc ! i)"
  shows "election_inv (raft_see_term i t rc, H \<union> votes_of (rc_nodes (raft_see_term i t rc)))"
proof -
  obtain r f k where b: "ballots (raft_see_term i t rc) = (ballots rc)[i := (r, t, f, k)]"
    and r: "t > rd_term (rc_nodes rc ! i) \<and> r = RAFT_FOLLOWER \<and> f = -1 \<or>
      t = rd_term (rc_nodes rc ! i) \<and> f = rd_voted_for (rc_nodes rc ! i) \<and> k = rd_votes (rc_nodes rc ! i) \<and> r = rd_role (rc_nodes rc ! i)"
    using see_term_effect [OF i t] by blast
  then show ?thesis by (intro election_inv_passive [OF inv i b, of "[]" "rc_queue rc" "[]"]) (auto simp: effect_simps)
qed

lemma request_vote_reply_inv:
  assumes inv: "election_inv (rc, H)" and q: "rc_queue rc = m # q" and m: "rm_type m = RAFT_MSG_REQUEST_VOTE_REPLY"
  defines "rc' \<equiv> raft_handle_request_vote_reply m (rc\<lparr>rc_queue := q\<rparr>)"
  shows "election_inv (rc', H \<union> votes_of (rc_nodes rc'))"
proof -
  let ?i = "rm_to m" and ?rc1 = "rc\<lparr>rc_queue := q\<rparr>" and ?nd = "rc_nodes rc ! rm_to m"
  have i: "?i < length (rc_nodes rc)" using head_message_ok [OF inv q] by (simp add: message_ok_def)
  have drop: "election_inv (?rc1, H)" using inv q by (rule election_inv_drop)
  consider (higher) "rm_term m > rd_term ?nd" | (lower) "rm_term m < rd_term ?nd"
    | (count) "rm_term m = rd_term ?nd" "rd_role ?nd = RAFT_CANDIDATE" "rm_vote_granted m"
    | (ignore) "rm_term m = rd_term ?nd" "\<not> (rd_role ?nd = RAFT_CANDIDATE \<and> rm_vote_granted m)" by force
  then show ?thesis
  proof cases
    case higher
    then have "rc' = raft_see_term ?i (rm_term m) ?rc1" by (simp add: rc'_def raft_handle_request_vote_reply_def raft_see_term_def Let_def)
    then show ?thesis using election_inv_see_term [OF drop] i higher by simp
  next
    case count
    let ?rc2 = "update_node ?i (\<lambda>n. n\<lparr>rd_votes := rd_votes n + 1\<rparr>) ?rc1"
    let ?win = "rd_votes ?nd + 1 \<ge> raft_quorum_size_rc (length (rc_nodes rc))"
    let ?rc3 = "if ?win then raft_crown ?i ?rc2 else ?rc2"
    have b: "ballots ?rc3 = (ballots rc)[?i := (if ?win then RAFT_LEADER else RAFT_CANDIDATE, rm_term m, rd_voted_for ?nd, rd_votes ?nd + 1)]"
      using count i by (simp add: effect_simps map_update ballot_def)
    have "election_inv (?rc3, H \<union> votes_of (rc_nodes ?rc3))"
      using count by (intro election_inv_count [OF inv q m count(3) count(1) count(2) b]) (auto simp: effect_simps split: if_splits)
    moreover have "rc' = (if ?win then raft_leader_send_heartbeats ?rc3 else ?rc3)"
      using count i by (simp add: rc'_def raft_handle_request_vote_reply_def Let_def effect_simps become_leader_crown)
    ultimately show ?thesis using election_inv_heartbeats votes_of_heartbeats by (auto split: if_splits)
  qed (use drop election_inv_votes [OF drop] in \<open>auto simp: rc'_def raft_handle_request_vote_reply_def Let_def\<close>)
qed

text \<open>The handler of append requests, cut into the part that may change a role and the part that works on the log.\<close>

definition raft_hear_leader :: "raft_message \<Rightarrow> raft_cluster \<Rightarrow> raft_cluster" where
  "raft_hear_leader m rc =
     (let me = rm_to m; rc = raft_set_deadline me rc;
          rc = update_node me (\<lambda>n. n\<lparr>rd_heartbeat := rc_time rc\<rparr>) rc;
          rc = raft_see_term me (rm_term m) rc;
          rc = update_node me (\<lambda>n. if rd_role n = RAFT_CANDIDATE then n\<lparr>rd_role := RAFT_FOLLOWER\<rparr> else n) rc in
      rc\<lparr>rc_leader_id := int (rm_from m)\<rparr>)"

definition raft_take_entries :: "raft_message \<Rightarrow> raft_cluster \<Rightarrow> raft_cluster" where
  "raft_take_entries m rc =
     (let me = rm_to m;
          rc = update_node me (\<lambda>n. n\<lparr>rd_log := append_entries_loop (rm_prev_log_index m) (rm_entries m) (rd_log n)\<rparr>) rc in
      update_node me (\<lambda>n. if rm_leader_commit m > rd_commit_index n
        then n\<lparr>rd_commit_index := if rm_leader_commit m \<ge> int (length (rd_log n)) then int (length (rd_log n)) - 1 else rm_leader_commit m\<rparr>
        else n) rc)"

lemma handle_append_entries_parts:
  "raft_handle_append_entries_rc m rc =
     (let me = rm_to m; answer = raft_build_append_entries_reply me (rm_from m) in
      if rm_term m < rd_term (rc_nodes rc ! me) then raft_enqueue_msg (answer (rd_term (rc_nodes rc ! me)) False (-1)) rc
      else let rc = raft_hear_leader m rc in
        if \<not> raft_log_ok_rc (rc_nodes rc ! me) (rm_prev_log_index m) (rm_prev_log_term m)
        then raft_enqueue_msg (answer (rd_term (rc_nodes rc ! me)) False (-1)) rc
        else let rc = raft_take_entries m rc in
          raft_enqueue_msg (answer (rd_term (rc_nodes rc ! me)) True (rm_prev_log_index m + int (length (rm_entries m)))) rc)"
proof -
  have "(if rc_leader_id rc \<noteq> l then rc\<lparr>rc_leader_id := l\<rparr> else rc) = rc\<lparr>rc_leader_id := l\<rparr>" for rc :: raft_cluster and l by simp
  then show ?thesis unfolding raft_handle_append_entries_rc_def raft_hear_leader_def raft_take_entries_def raft_see_term_def Let_def
    by (simp only:)
qed

lemma take_entries_effect [effect_simps]:
  "ballots (raft_take_entries m rc) = ballots rc" "rc_queue (raft_take_entries m rc) = rc_queue rc"
  "rc_leader_id (raft_take_entries m rc) = rc_leader_id rc" "length (rc_nodes (raft_take_entries m rc)) = length (rc_nodes rc)"
  "rm_entries m = [] \<Longrightarrow> map rd_log (rc_nodes (raft_take_entries m rc)) = map rd_log (rc_nodes rc)"
proof -
  show "ballots (raft_take_entries m rc) = ballots rc"
    unfolding raft_take_entries_def Let_def update_node_effect by (subst map_update_same, simp add: ballot_def)+ simp
  show "map rd_log (rc_nodes (raft_take_entries m rc)) = map rd_log (rc_nodes rc)" if "rm_entries m = []"
    unfolding raft_take_entries_def Let_def update_node_effect
    by (subst map_update_same, simp add: that append_entries_loop_def)+ simp
qed (simp_all add: raft_take_entries_def Let_def effect_simps)

lemma hear_leader_effect [effect_simps]:
  "rc_queue (raft_hear_leader m rc) = rc_queue rc" "rc_leader_id (raft_hear_leader m rc) = int (rm_from m)"
  "length (rc_nodes (raft_hear_leader m rc)) = length (rc_nodes rc)"
  "map rd_log (rc_nodes (raft_hear_leader m rc)) = map rd_log (rc_nodes rc)"
  by (simp_all add: raft_hear_leader_def Let_def effect_simps map_update_same [of rd_log])

lemma hear_leader_inv:
  assumes inv: "election_inv (rc, H)" and i: "rm_to m < length (rc_nodes rc)" and c: "rm_from m < length (rc_nodes rc)"
    and t: "\<not> rm_term m < rd_term (rc_nodes rc ! rm_to m)"
  defines "rc' \<equiv> raft_hear_leader m rc"
  shows "election_inv (rc', H \<union> votes_of (rc_nodes rc'))"
proof -
  let ?i = "rm_to m"
  define rc1 where "rc1 = (let rc = raft_set_deadline ?i rc in update_node ?i (\<lambda>n. n\<lparr>rd_heartbeat := rc_time rc\<rparr>) rc)"
  define rc2 where "rc2 = raft_see_term ?i (rm_term m) rc1"
  define rc3 where "rc3 = update_node ?i (\<lambda>n. if rd_role n = RAFT_CANDIDATE then n\<lparr>rd_role := RAFT_FOLLOWER\<rparr> else n) rc2"
  have rc': "rc' = rc3\<lparr>rc_leader_id := int (rm_from m)\<rparr>"
    by (simp add: rc'_def raft_hear_leader_def rc3_def rc2_def rc1_def Let_def)
  have ne: "rc_nodes rc \<noteq> []" using i by auto
  have b1: "ballots rc1 = ballots rc"
    unfolding rc1_def Let_def update_node_effect by (subst map_update_same) (simp_all add: ballot_def effect_simps)
  have inv1: "election_inv (rc1, H)"
    using b1 ne by (intro election_inv_ballots [OF inv]) (simp_all add: rc1_def Let_def effect_simps)
  have len1: "length (rc_nodes rc1) = length (rc_nodes rc)" using b1 by (rule map_eq_imp_length_eq)
  have "rd_term (rc_nodes rc1 ! ?i) = rd_term (rc_nodes rc ! ?i)"
    using arg_cong [OF b1, of "\<lambda>xs. xs ! ?i"] i len1 by (simp add: ballot_def)
  then have inv2: "election_inv (rc2, H \<union> votes_of (rc_nodes rc2))"
    unfolding rc2_def using t i len1 by (intro election_inv_see_term [OF inv1]) auto
  have len2: "length (rc_nodes rc2) = length (rc_nodes rc)" by (simp add: rc2_def effect_simps len1)
  have "map (\<lambda>n. (rd_term n, rd_voted_for n)) (rc_nodes rc3) = map (\<lambda>n. (rd_term n, rd_voted_for n)) (rc_nodes rc2)"
    unfolding rc3_def update_node_effect by (rule map_update_same) simp
  then have v3: "votes_of (rc_nodes rc3) = votes_of (rc_nodes rc2)" by (rule votes_of_cong)
  let ?nd = "rc_nodes rc2 ! ?i"
  have b3: "ballots rc3 = (ballots rc2)[?i := (if rd_role ?nd = RAFT_CANDIDATE then RAFT_FOLLOWER else rd_role ?nd, rd_term ?nd, rd_voted_for ?nd, rd_votes ?nd)]"
    by (simp add: rc3_def effect_simps map_update ballot_def)
  have "election_inv (rc3, (H \<union> votes_of (rc_nodes rc2)) \<union> votes_of (rc_nodes rc3))"
    using i len2 by (intro election_inv_passive [OF inv2 _ b3, of "[]" "rc_queue rc2" "[]"]) (auto simp: rc3_def effect_simps)
  then have inv3: "election_inv (rc3, H \<union> votes_of (rc_nodes rc3))" by (simp add: v3)
  have "election_inv (rc', H \<union> votes_of (rc_nodes rc3))"
    using c len2 ne by (intro election_inv_ballots [OF inv3]) (auto simp: rc' rc3_def effect_simps)
  then show ?thesis by (simp add: rc')
qed

lemma append_entries_inv:
  assumes inv: "election_inv (rc, H)" and i: "rm_to m < length (rc_nodes rc)" and c: "rm_from m < length (rc_nodes rc)" "rm_from m \<noteq> rm_to m"
  defines "rc' \<equiv> raft_handle_append_entries_rc m rc"
  shows "election_inv (rc', H \<union> votes_of (rc_nodes rc'))"
proof -
  have send: "election_inv (raft_enqueue_msg (raft_build_append_entries_reply (rm_to m) (rm_from m) u s mi) r, H')"
    if "election_inv (r, H')" "length (rc_nodes r) = length (rc_nodes rc)" for u s mi r H'
    using that i c by (intro election_inv_send) (simp_all add: plain_message_def vote_message_def)
  show ?thesis
  proof (cases "rm_term m < rd_term (rc_nodes rc ! rm_to m)")
    case True
    then show ?thesis using send [OF inv] election_inv_votes [OF inv] by (simp add: rc'_def handle_append_entries_parts Let_def effect_simps)
  next
    case False
    let ?rc1 = "raft_hear_leader m rc" and ?rc2 = "raft_take_entries m (raft_hear_leader m rc)"
    have inv1: "election_inv (?rc1, H \<union> votes_of (rc_nodes ?rc1))" using inv i c(1) False by (rule hear_leader_inv)
    have "rc_nodes ?rc1 \<noteq> []" using i by (auto simp: effect_simps simp flip: length_0_conv)
    then have inv2: "election_inv (?rc2, H \<union> votes_of (rc_nodes ?rc1))" by (intro election_inv_ballots [OF inv1]) (simp_all add: effect_simps)
    have "votes_of (rc_nodes ?rc2) = votes_of (rc_nodes ?rc1)" by (rule votes_of_ballots) (simp add: effect_simps)
    then show ?thesis using False send [OF inv1] send [OF inv2]
      by (simp add: rc'_def handle_append_entries_parts Let_def effect_simps)
  qed
qed

lemma advance_commit_effect [effect_simps]:
  "ballots (raft_advance_commit l rc) = ballots rc" "rc_queue (raft_advance_commit l rc) = rc_queue rc"
  "rc_leader_id (raft_advance_commit l rc) = rc_leader_id rc" "map rd_log (rc_nodes (raft_advance_commit l rc)) = map rd_log (rc_nodes rc)"
  by (simp_all add: raft_advance_commit_def Let_def effect_simps map_update_same [of rd_log] map_update_same [of ballot] ballot_def)

lemma append_entries_reply_inv:
  assumes inv: "election_inv (rc, H)" and i: "rm_to m < length (rc_nodes rc)"
  defines "rc' \<equiv> raft_handle_append_entries_reply m rc"
  shows "election_inv (rc', H \<union> votes_of (rc_nodes rc'))"
proof (cases "rm_term m > rd_term (rc_nodes rc ! rm_to m)")
  case True
  let ?rc1 = "raft_see_term (rm_to m) (rm_term m) rc"
  have rc': "rc' = ?rc1\<lparr>rc_leader_id := -1\<rparr>" using True by (simp add: rc'_def raft_handle_append_entries_reply_def raft_see_term_def Let_def)
  have inv1: "election_inv (?rc1, H \<union> votes_of (rc_nodes ?rc1))" using True i by (intro election_inv_see_term [OF inv]) auto
  have "rc_nodes ?rc1 \<noteq> []" using i by (auto simp: effect_simps simp flip: length_0_conv)
  then have "election_inv (rc', H \<union> votes_of (rc_nodes ?rc1))" by (rule election_inv_ballots [OF inv1]) (simp_all add: rc')
  then show ?thesis by (simp add: rc')
next
  case False
  then have b: "ballots rc' = ballots rc" and "rc_queue rc' = rc_queue rc" "rc_leader_id rc' = rc_leader_id rc"
    by (simp_all add: rc'_def raft_handle_append_entries_reply_def Let_def effect_simps map_update_same [of ballot] ballot_def)
  moreover have "rc_nodes rc \<noteq> []" using i by auto
  ultimately have "election_inv (rc', H)" by (intro election_inv_ballots [OF inv]) simp_all
  then show ?thesis using election_inv_votes [of rc' H] by simp
qed

lemma leader_append_effect [effect_simps]:
  "ballots (raft_leader_append_entry cmd rc) = ballots rc" "rc_queue (raft_leader_append_entry cmd rc) = rc_queue rc"
  "rc_leader_id (raft_leader_append_entry cmd rc) = rc_leader_id rc"
  by (simp_all add: raft_leader_append_entry_def Let_def effect_simps map_update_same [of ballot] ballot_def)

lemma process_message_inv:
  assumes inv: "election_inv (rc, H)" and q: "rc_queue rc = m # q"
  defines "rc' \<equiv> raft_process_message m (rc\<lparr>rc_queue := q\<rparr>)"
  shows "election_inv (rc', H \<union> votes_of (rc_nodes rc'))"
proof -
  have ok: "rm_to m < length (rc_nodes rc)" "rm_from m < length (rc_nodes rc)" "rm_from m \<noteq> rm_to m"
    using head_message_ok [OF inv q] by (simp_all add: message_ok_def)
  have drop: "election_inv (rc\<lparr>rc_queue := q\<rparr>, H)" using inv q by (rule election_inv_drop)
  show ?thesis
  proof (cases "rm_type m")
    case RAFT_MSG_REQUEST_VOTE
    then show ?thesis using request_vote_inv [OF inv q] by (simp add: rc'_def raft_process_message_def)
  next
    case RAFT_MSG_REQUEST_VOTE_REPLY
    then show ?thesis using request_vote_reply_inv [OF inv q] by (simp add: rc'_def raft_process_message_def)
  next
    case RAFT_MSG_APPEND_ENTRIES
    then show ?thesis using append_entries_inv [OF drop] ok by (simp add: rc'_def raft_process_message_def)
  next
    case RAFT_MSG_APPEND_ENTRIES_REPLY
    then show ?thesis using append_entries_reply_inv [OF drop] ok by (simp add: rc'_def raft_process_message_def)
  next
    case RAFT_MSG_CLIENT_COMMAND
    then have "ballots rc' = ballots rc" "rc_queue rc' = q" "rc_leader_id rc' = rc_leader_id rc"
      by (simp_all add: rc'_def raft_process_message_def effect_simps)
    moreover have "rc_nodes rc \<noteq> []" using ok(1) by auto
    ultimately have "election_inv (rc', H)" using election_inv_ballots [OF drop, of rc'] by simp
    then show ?thesis using election_inv_votes [of rc' H] by simp
  qed
qed

section \<open>Elections\<close>

lemma count_if_distinct:
  assumes "distinct (map f xs)" and "\<And>x. x \<in> set xs \<Longrightarrow> P x \<Longrightarrow> f x = y"
  shows "count_if P xs \<le> 1"
proof -
  have d: "distinct (map f (filter P xs))" using assms(1) by (simp add: distinct_map_filter)
  have "set (map f (filter P xs)) \<subseteq> {y}" using assms(2) by auto
  then have "card (set (map f (filter P xs))) \<le> 1" by (metis card.empty card_mono finite.emptyI finite_insert card_insert_le_m1 One_nat_def card_1_singleton_iff)
  then show ?thesis using distinct_card [OF d] by (simp add: count_if_def)
qed

text \<open>The candidate's side of an election: a new term, its own vote, and one request to every other node.\<close>

lemma election_inv_campaign:
  assumes inv: "election_inv (rc, H)" and i: "i < length (rc_nodes rc)" and t: "rd_term (rc_nodes rc ! i) < t"
    and b: "ballots rc' = (ballots rc)[i := (r, t, int i, 1)]" and lid: "rc_leader_id rc' \<in> {rc_leader_id rc, int i}"
    and q': "rc_queue rc' = rc_queue rc @ new" and new: "distinct (map rm_to new)"
      "\<And>m. m \<in> set new \<Longrightarrow> rm_type m = RAFT_MSG_REQUEST_VOTE \<and> rm_from m = i \<and> rm_to m \<noteq> i \<and> rm_to m < length (rc_nodes rc) \<and> rm_term m = t"
    and r: "r = RAFT_LEADER \<Longrightarrow> raft_quorum_size_rc (length (rc_nodes rc)) \<le> 1"
  shows "election_inv (rc', H \<union> votes_of (rc_nodes rc'))"
proof -
  let ?H' = "H \<union> votes_of (rc_nodes rc')"
  note nth = ballot_nth [OF b]
  have ok: "message_ok (rc_nodes rc) H m" if "m \<in> set (rc_queue rc)" for m using inv that by (auto simp: election_inv_def)
  have old: "tokens i v t (rc_queue rc) = 0" for v
    unfolding count_if_eq_0 using ok t by (fastforce simp: is_token_def message_ok_def)
  have other: "tokens c v u new = 0" if "c \<noteq> i \<or> u \<noteq> t" for c v u
    unfolding count_if_eq_0 using new(2) that by (fastforce simp: is_token_def)
  have mine: "tokens i v t new \<le> 1" for v
    using new by (intro count_if_distinct [of rm_to _ _ v]) (auto simp: is_token_def)
  have sum: "tokens c v u (rc_queue rc') = tokens c v u (rc_queue rc) + tokens c v u new" for c v u by (simp add: q' count_if_def)
  show ?thesis
  proof (rule election_inv_update [OF inv i b])
    show "tokens c v u (rc_queue rc') \<le> 1" for c v u
    proof (cases "c = i \<and> u = t")
      case False
      then show ?thesis using sum [of c v u] other [of c u v] inv by (auto simp: election_inv_def)
    qed (use sum old mine in simp)
    show "tokens c v (rd_term (rc_nodes rc ! c)) (rc_queue rc') \<le> tokens c v (rd_term (rc_nodes rc ! c)) (rc_queue rc)" if "c \<noteq> i" for c v
      using sum other that by simp
    show "m \<in> set (rc_queue rc) \<or> message_ok (rc_nodes rc') ?H' m" if "m \<in> set (rc_queue rc')" for m
      using that new(2) [of m] nth(1) nth(2) [OF i] i by (auto simp: q' message_ok_def)
    have "(i, t, int i) \<in> ?H'" using nth(1) nth(2) [OF i] i by (auto simp: votes_of_def)
    moreover have "tokens i i t (rc_queue rc') = 0"
    proof -
      have "tokens i i t new = 0" unfolding count_if_eq_0 using new(2) by (fastforce simp: is_token_def)
      then show ?thesis using sum old by simp
    qed
    ultimately have "i \<in> counted (rc_nodes rc') (rc_queue rc') ?H' i" using nth(1) nth(2) [OF i] i by (simp add: counted_def)
    then have "0 < card (counted (rc_nodes rc') (rc_queue rc') ?H' i)" using finite_counted by (auto simp: card_gt_0_iff)
    then show "counts_ok (rc_nodes rc') (rc_queue rc') ?H' i" using nth(1) nth(2) [OF i] r by (simp add: counts_ok_def)
  qed (use t lid i in auto)
qed

lemma word_less_Suc: "(x :: 64 word) \<noteq> -1 \<Longrightarrow> x < x + 1"
proof -
  assume "x \<noteq> -1"
  then have "unat (1 + x) = Suc (unat x)" by (metis add.commute max_word_wrap unatSuc)
  then show ?thesis by (simp add: word_less_nat_alt add.commute)
qed

lemma start_election_inv:
  assumes inv: "election_inv (rc, H)" and i: "i < length (rc_nodes rc)" and t: "rd_term (rc_nodes rc ! i) \<noteq> -1"
  defines "rc' \<equiv> raft_start_election i rc"
  shows "election_inv (rc', H \<union> votes_of (rc_nodes rc'))" and "length (rc_nodes rc') = length (rc_nodes rc)"
    and "j \<noteq> i \<Longrightarrow> j < length (rc_nodes rc) \<Longrightarrow> ballot (rc_nodes rc' ! j) = ballot (rc_nodes rc ! j)"
proof -
  let ?n = "length (rc_nodes rc)" and ?t = "rd_term (rc_nodes rc ! i) + 1"
  define rc1 where "rc1 = raft_set_deadline i (update_node i (\<lambda>n. n\<lparr>rd_role := RAFT_CANDIDATE, rd_term := rd_term n + 1,
    rd_voted_for := int i, rd_votes := 1\<rparr>) rc)"
  define ms where "ms = map (raft_build_request_vote rc1 i) (filter (\<lambda>j. j \<noteq> i) [0..<?n])"
  define rc2 where "rc2 = fold raft_enqueue_msg ms rc1"
  define rc3 where "rc3 = (if 1 \<ge> raft_quorum_size_rc ?n then raft_crown i rc2 else rc2)"
  have b1: "ballots rc1 = (ballots rc)[i := (RAFT_CANDIDATE, ?t, int i, 1)]"
    by (simp add: rc1_def effect_simps map_update ballot_def)
  have len1: "length (rc_nodes rc1) = ?n" by (simp add: rc1_def effect_simps)
  note n1 = ballot_nth(2) [OF b1 i]
  have n2: "rc_nodes rc2 = rc_nodes rc1" "rc_leader_id rc2 = rc_leader_id rc" by (simp_all add: rc2_def rc1_def effect_simps)
  have loop: "fold (\<lambda>j rc. if j = i then rc else raft_enqueue_msg (raft_build_request_vote rc i j) rc) [0..<?n] rc1 = rc2"
    unfolding rc2_def ms_def by (rule send_loop) (simp add: raft_build_request_vote_def)
  have rc': "rc' = (if 1 \<ge> raft_quorum_size_rc ?n then raft_leader_send_heartbeats rc3 else rc3)"
    unfolding rc'_def raft_start_election_def Let_def rc1_def [symmetric] len1 loop n2(1)
    using n1 by (simp add: rc3_def become_leader_crown)
  have b3: "ballots rc3 = (ballots rc)[i := (if 1 \<ge> raft_quorum_size_rc ?n then RAFT_LEADER else RAFT_CANDIDATE, ?t, int i, 1)]"
    using n1 by (simp add: rc3_def effect_simps n2 b1)
  obtain k where q2: "rc_queue rc2 = rc_queue rc @ take k ms"
    using enqueue_all_queue [of ms rc1] by (auto simp: rc2_def rc1_def effect_simps)
  have "map rm_to ms = filter (\<lambda>j. j \<noteq> i) [0..<?n]" by (simp add: ms_def raft_build_request_vote_def Let_def comp_def)
  then have d: "distinct (map rm_to (take k ms))" by (simp add: take_map [symmetric] distinct_take)
  have m: "rm_type m = RAFT_MSG_REQUEST_VOTE \<and> rm_from m = i \<and> rm_to m \<noteq> i \<and> rm_to m < ?n \<and> rm_term m = ?t" if "m \<in> set (take k ms)" for m
    using in_set_takeD [OF that] n1 by (auto simp: ms_def raft_build_request_vote_def Let_def)
  have "election_inv (rc3, H \<union> votes_of (rc_nodes rc3))"
  proof (rule election_inv_campaign [OF inv i _ b3 _ _ d m])
    show "rd_term (rc_nodes rc ! i) < ?t" using t by (rule word_less_Suc)
  qed (auto simp: rc3_def effect_simps n2 q2 split: if_splits)
  then show "election_inv (rc', H \<union> votes_of (rc_nodes rc'))"
    using election_inv_heartbeats votes_of_heartbeats by (auto simp: rc')
  show "length (rc_nodes rc') = ?n" using ballot_nth(1) [OF b3] by (simp add: rc' effect_simps)
  show "ballot (rc_nodes rc' ! j) = ballot (rc_nodes rc ! j)" if "j \<noteq> i" "j < ?n"
    using ballot_nth(3) [OF b3 that(2,1)] by (simp add: rc' effect_simps ballot_def)
qed

lemma tick_node_inv:
  assumes inv: "election_inv (rc, H)" and i: "i < length (rc_nodes rc)" and t: "rd_term (rc_nodes rc ! i) \<noteq> -1"
  defines "rc' \<equiv> raft_tick_node_rc i rc"
  shows "election_inv (rc', H \<union> votes_of (rc_nodes rc'))" and "length (rc_nodes rc') = length (rc_nodes rc)"
    and "j \<noteq> i \<Longrightarrow> j < length (rc_nodes rc) \<Longrightarrow> ballot (rc_nodes rc' ! j) = ballot (rc_nodes rc ! j)"
proof -
  let ?e = "raft_start_election i rc"
  note e = start_election_inv [OF inv i t]
  have b: "ballots (raft_set_deadline i ?e) = ballots ?e" by (simp add: effect_simps)
  have same: "ballot (rc_nodes (raft_set_deadline i ?e) ! j) = ballot (rc_nodes ?e ! j)" if "j < length (rc_nodes rc)" for j
    using b that e(2) by (metis length_map nth_map)
  have "rc_nodes ?e \<noteq> []" using e(2) i by auto
  then have "election_inv (raft_set_deadline i ?e, H \<union> votes_of (rc_nodes ?e))"
    by (rule election_inv_ballots [OF e(1)]) (simp_all add: effect_simps)
  then show "election_inv (rc', H \<union> votes_of (rc_nodes rc'))"
    using inv election_inv_votes [OF inv] votes_of_ballots [OF b] by (auto simp: rc'_def raft_tick_node_rc_def)
  show "length (rc_nodes rc') = length (rc_nodes rc)" using e(2) by (simp add: rc'_def raft_tick_node_rc_def effect_simps)
  show "ballot (rc_nodes rc' ! j) = ballot (rc_nodes rc ! j)" if "j \<noteq> i" "j < length (rc_nodes rc)"
    using e(3) same that by (simp add: rc'_def raft_tick_node_rc_def)
qed

lemma votes_of_subset:
  assumes "length ns' = length ns" and "\<And>v. v < length ns \<Longrightarrow> v \<noteq> i \<Longrightarrow> ballot (ns' ! v) = ballot (ns ! v)"
    and "rd_voted_for (ns ! i) \<noteq> -1 \<Longrightarrow> i < length ns \<Longrightarrow> (i, rd_term (ns ! i), rd_voted_for (ns ! i)) \<in> H"
  shows "votes_of ns \<subseteq> H \<union> votes_of ns'"
proof
  fix x
  assume "x \<in> votes_of ns"
  then obtain v where v: "x = (v, rd_term (ns ! v), rd_voted_for (ns ! v))" "v < length ns" "rd_voted_for (ns ! v) \<noteq> -1"
    by (auto simp: votes_of_def)
  show "x \<in> H \<union> votes_of ns'"
  proof (cases "v = i")
    case False
    then show ?thesis using v assms(1) assms(2) [of v] by (auto simp: votes_of_def ballot_def)
  qed (use v assms(3) in simp)
qed

lemma tick_inv:
  assumes inv: "election_inv (rc, H)" and t: "\<forall>n \<in> set (rc_nodes rc). rd_term n \<noteq> -1"
  shows "election_inv (raft_tick_rc rc, H \<union> votes_of (rc_nodes (raft_tick_rc rc)))"
proof -
  let ?n = "length (rc_nodes rc)" and ?rc0 = "rc\<lparr>rc_time := rc_time rc + 1\<rparr>"
  let ?R = "\<lambda>k. fold raft_tick_node_rc [0..<k] ?rc0"
  have start: "election_inv (?rc0, H)" using inv by (simp add: election_inv_def)
  have "election_inv (?R k, H \<union> votes_of (rc_nodes (?R k))) \<and> length (rc_nodes (?R k)) = ?n \<and>
      (\<forall>j. k \<le> j \<and> j < ?n \<longrightarrow> ballot (rc_nodes (?R k) ! j) = ballot (rc_nodes rc ! j))" if "k \<le> ?n" for k
    using that
  proof (induction k)
    case 0
    then show ?case using start election_inv_votes [OF inv] by simp
  next
    case (Suc k)
    then have IH: "election_inv (?R k, H \<union> votes_of (rc_nodes (?R k)))" and len: "length (rc_nodes (?R k)) = ?n"
      and same: "\<And>j. k \<le> j \<Longrightarrow> j < ?n \<Longrightarrow> ballot (rc_nodes (?R k) ! j) = ballot (rc_nodes rc ! j)" by auto
    have k: "k < length (rc_nodes (?R k))" and b: "ballot (rc_nodes (?R k) ! k) = ballot (rc_nodes rc ! k)" using Suc.prems len same by auto
    have "rd_term (rc_nodes (?R k) ! k) \<noteq> -1" using b t Suc.prems by (auto simp: ballot_def)
    note step = tick_node_inv [OF IH k this]
    have "votes_of (rc_nodes (?R k)) \<subseteq> H \<union> votes_of (rc_nodes (?R (Suc k)))"
    proof (rule votes_of_subset [where i = k])
      have "votes_of (rc_nodes rc) \<subseteq> H" using election_inv_votes [OF inv] by auto
      then show "(k, rd_term (rc_nodes (?R k) ! k), rd_voted_for (rc_nodes (?R k) ! k)) \<in> H" if "rd_voted_for (rc_nodes (?R k) ! k) \<noteq> -1"
        using that b Suc.prems by (auto simp: votes_of_def ballot_def)
    qed (use step in auto)
    then have "H \<union> votes_of (rc_nodes (?R k)) \<union> votes_of (rc_nodes (?R (Suc k))) = H \<union> votes_of (rc_nodes (?R (Suc k)))" by auto
    then show ?case using step same len by (simp add: Suc_le_eq)
  qed
  then show ?thesis by (simp add: raft_tick_rc_def Let_def)
qed

section \<open>Runs of the cluster\<close>

text \<open>
  The driver ticks the clock, delivers the first message of the queue, lets clients submit, sends heartbeats and asks for
  commitment. The history of votes is recorded along. No term reaches the end of its counter, which takes 2 to the power
  of 64 elections.
\<close>

inductive cluster_step :: "raft_cluster \<times> vote_history \<Rightarrow> raft_cluster \<times> vote_history \<Rightarrow> bool" where
  tick: "\<forall>n \<in> set (rc_nodes rc). rd_term n \<noteq> -1 \<Longrightarrow>
    cluster_step (rc, H) (raft_tick_rc rc, H \<union> votes_of (rc_nodes (raft_tick_rc rc)))"
| deliver: "raft_dequeue_msg rc = Some (m, rc1) \<Longrightarrow> rc' = raft_process_message m rc1 \<Longrightarrow>
    cluster_step (rc, H) (rc', H \<union> votes_of (rc_nodes rc'))"
| submit: "raft_client_submit cmd rc = (r, rc') \<Longrightarrow> cluster_step (rc, H) (rc', H)"
| heartbeat: "cluster_step (rc, H) (raft_leader_send_heartbeats rc, H)"
| commit: "raft_leader_commit_entries rc = (ok, rc') \<Longrightarrow> cluster_step (rc, H) (rc', H)"

definition cluster_init :: "raft_cluster \<times> vote_history \<Rightarrow> bool" where
  "cluster_init s \<longleftrightarrow> (\<exists>n rands. s = (raft_init_cluster_rc n rands, {}))"

lemma init_nodes_effect:
  "(\<forall>nd \<in> set (rc_nodes rc). ballot nd = (RAFT_FOLLOWER, 0, -1, 0)) \<Longrightarrow>
   rc_queue (raft_init_nodes_rc k rc) = rc_queue rc \<and> rc_leader_id (raft_init_nodes_rc k rc) = rc_leader_id rc \<and>
   length (rc_nodes (raft_init_nodes_rc k rc)) = length (rc_nodes rc) + k \<and>
   (\<forall>nd \<in> set (rc_nodes (raft_init_nodes_rc k rc)). ballot nd = (RAFT_FOLLOWER, 0, -1, 0))"
proof (induction k arbitrary: rc)
  case (Suc k)
  obtain d rc' where d: "raft_random_election_timeout rc = (d, rc')" by (cases "raft_random_election_timeout rc")
  then have "rc_nodes rc' = rc_nodes rc" "rc_queue rc' = rc_queue rc" "rc_leader_id rc' = rc_leader_id rc"
    using random_effect [of rc] by simp_all
  then show ?case using Suc.prems Suc.IH [of "rc'\<lparr>rc_nodes := rc_nodes rc' @ [raft_fresh_node d]\<rparr>"]
    by (simp add: d ballot_def raft_fresh_node_def)
qed simp

lemma cluster_init_inv: "cluster_init s \<Longrightarrow> election_inv s"
proof -
  assume "cluster_init s"
  then obtain n rands where s: "s = (raft_init_cluster_rc n rands, {})" by (auto simp: cluster_init_def)
  let ?rc = "raft_init_cluster_rc n rands"
  have q: "rc_queue ?rc = []" "rc_leader_id ?rc = -1" and b: "\<forall>nd \<in> set (rc_nodes ?rc). ballot nd = (RAFT_FOLLOWER, 0, -1, 0)"
    using init_nodes_effect [of "\<lparr>rc_nodes = [], rc_queue = [], rc_leader_id = -1, rc_time = 0, rc_rand = rands\<rparr>"]
    unfolding raft_init_cluster_rc_def by simp_all
  have "rd_voted_for (rc_nodes ?rc ! v) = -1" "rd_role (rc_nodes ?rc ! v) = RAFT_FOLLOWER" if "v < length (rc_nodes ?rc)" for v
    using b that by (auto simp: ballot_def)
  then show ?thesis by (auto simp: s election_inv_def history_ok_def votes_of_def counts_ok_def q)
qed

lemma election_inv_ballots':
  assumes inv: "election_inv (rc, H)" and "rc_leader_id rc \<ge> 0" and "ballots rc' = ballots rc" and "rc_queue rc' = rc_queue rc"
    and "rc_leader_id rc' = rc_leader_id rc"
  shows "election_inv (rc', H)"
  using election_inv_ballots [OF inv] election_inv_leader [OF inv] assms(2-5) by fastforce

lemma cluster_step_inv:
  assumes inv: "election_inv s" and step: "cluster_step s s'"
  shows "election_inv s'"
  using step inv
proof cases
  case (tick rc H)
  then show ?thesis using tick_inv inv by simp
next
  case (deliver rc m rc1 rc' H)
  then obtain q where "rc_queue rc = m # q" "rc1 = rc\<lparr>rc_queue := q\<rparr>" by (auto simp: raft_dequeue_msg_def split: list.splits)
  then show ?thesis using process_message_inv inv deliver by simp
next
  case (submit cmd rc r rc' H)
  then have "rc' = rc \<or> rc_leader_id rc \<ge> 0 \<and> rc' = raft_leader_append_entry cmd rc"
    by (auto simp: raft_client_submit_def Let_def split: if_splits)
  then show ?thesis using election_inv_ballots' [of rc H rc'] inv submit(1,2) leader_append_effect [of cmd rc] by auto
next
  case (heartbeat rc H)
  then show ?thesis using election_inv_heartbeats inv by simp
next
  case (commit rc ok rc' H)
  then have "rc' = rc \<or> rc_leader_id rc \<ge> 0 \<and> rc' = raft_advance_commit (nat (rc_leader_id rc)) rc"
    by (auto simp: raft_leader_commit_entries_def split: if_splits)
  then show ?thesis using election_inv_ballots' [of rc H rc'] inv commit(1,2) advance_commit_effect [of "nat (rc_leader_id rc)" rc] by auto
qed

interpretation cluster: invariant_system cluster_init cluster_step election_inv
  by unfold_locales (rule cluster_init_inv, assumption, rule cluster_step_inv)

text \<open>A leader has been voted for by a majority in its term; the votes stay in the history.\<close>

definition elected :: "nat \<Rightarrow> vote_history \<Rightarrow> nat \<Rightarrow> 64 word \<Rightarrow> bool" where
  "elected n H c t \<longleftrightarrow> (\<exists>S. majority_of n S \<and> (\<forall>v \<in> S. (v, t, int c) \<in> H))"

lemma leader_elected:
  assumes "election_inv (rc, H)" and "c < length (rc_nodes rc)" and "rd_role (rc_nodes rc ! c) = RAFT_LEADER"
  shows "elected (length (rc_nodes rc)) H c (rd_term (rc_nodes rc ! c))"
proof -
  let ?S = "counted (rc_nodes rc) (rc_queue rc) H c"
  have "raft_quorum_size_rc (length (rc_nodes rc)) \<le> card ?S" using assms by (auto simp: election_inv_def counts_ok_def)
  then have "majority_of (length (rc_nodes rc)) ?S" by (auto simp: majority_of_def raft_quorum_size_rc_def counted_def)
  then show ?thesis by (auto simp: elected_def counted_def)
qed

lemma elected_unique:
  assumes "history_ok ns H" and "elected n H c t" and "elected n H c' t"
  shows "c = c'"
proof -
  obtain S S' where S: "majority_of n S" "\<forall>v \<in> S. (v, t, int c) \<in> H" and S': "majority_of n S'" "\<forall>v \<in> S'. (v, t, int c') \<in> H"
    using assms(2,3) by (auto simp: elected_def)
  obtain v where "v \<in> S" "v \<in> S'" using majority.exclusive [OF S(1) S'(1)] .
  then have "(v, t, int c) \<in> H" "(v, t, int c') \<in> H" using S S' by auto
  then have "int c' = int c" using assms(1) unfolding history_ok_def by blast
  then show ?thesis by simp
qed

lemma send_loop_nodes [effect_simps]:
  "rc_nodes (fold (\<lambda>j rc. if j = i then rc else raft_enqueue_msg (b rc j) rc) js rc) = rc_nodes rc"
  by (induction js arbitrary: rc) (simp_all add: effect_simps)

lemma start_election_length: "length (rc_nodes (raft_start_election i rc)) = length (rc_nodes rc)"
  by (simp add: raft_start_election_def Let_def become_leader_crown effect_simps)

lemma tick_length: "length (rc_nodes (raft_tick_rc rc)) = length (rc_nodes rc)"
proof -
  have "length (rc_nodes (fold raft_tick_node_rc js rc)) = length (rc_nodes rc)" for js rc
    by (induction js arbitrary: rc) (simp_all add: raft_tick_node_rc_def start_election_length effect_simps)
  then show ?thesis by (simp add: raft_tick_rc_def Let_def)
qed

lemma ballots_length: "ballots rc' = ballots rc \<Longrightarrow> length (rc_nodes rc') = length (rc_nodes rc)"
  by (rule map_eq_imp_length_eq)

lemma process_message_length: "length (rc_nodes (raft_process_message m rc)) = length (rc_nodes rc)"
  using ballots_length [OF leader_append_effect(1)] ballots_length [OF advance_commit_effect(1)]
  by (cases "rm_type m")
    (simp_all add: raft_process_message_def raft_handle_request_vote_rc_def raft_handle_request_vote_reply_def handle_append_entries_parts
      raft_handle_append_entries_reply_def Let_def become_leader_crown effect_simps)

lemma cluster_step_grows:
  assumes "cluster_step s s'"
  shows "snd s \<subseteq> snd s' \<and> length (rc_nodes (fst s')) = length (rc_nodes (fst s))"
  using assms
proof cases
  case (deliver rc m rc1 rc' H)
  then have "rc_nodes rc1 = rc_nodes rc" by (auto simp: raft_dequeue_msg_def split: list.splits)
  then show ?thesis using deliver process_message_length [of m rc1] by simp
next
  case (submit cmd rc r rc' H)
  then have "rc' = rc \<or> rc' = raft_leader_append_entry cmd rc" by (auto simp: raft_client_submit_def Let_def split: if_splits)
  then show ?thesis using submit ballots_length [OF leader_append_effect(1)] by auto
next
  case (commit rc ok rc' H)
  then have "rc' = rc \<or> rc' = raft_advance_commit (nat (rc_leader_id rc)) rc" by (auto simp: raft_leader_commit_entries_def split: if_splits)
  then show ?thesis using commit ballots_length [OF advance_commit_effect(1)] by auto
qed (auto simp: tick_length effect_simps)

lemma cluster_run_grows:
  "cluster_step\<^sup>*\<^sup>* s s' \<Longrightarrow> snd s \<subseteq> snd s' \<and> length (rc_nodes (fst s')) = length (rc_nodes (fst s))"
proof (induction rule: rtranclp_induct)
  case (step y z)
  then show ?case using cluster_step_grows [of y z] by auto
qed simp

text \<open>
  C3. Election safety: at most one node leads a term, not only at a time but over the whole run. A node that has led a
  term in some state is the only one that can lead it in any later state, whatever the clock, the clients and the random
  timeouts do and whichever messages are dropped at a full queue.
\<close>

theorem raft_election_safety:
  assumes "reach cluster_init cluster_step (rc, H)" and "cluster_step\<^sup>*\<^sup>* (rc, H) (rc', H')"
    and "a < length (rc_nodes rc)" and "rd_role (rc_nodes rc ! a) = RAFT_LEADER"
    and "b < length (rc_nodes rc')" and "rd_role (rc_nodes rc' ! b) = RAFT_LEADER"
    and "rd_term (rc_nodes rc ! a) = rd_term (rc_nodes rc' ! b)"
  shows "a = b"
proof -
  have inv: "election_inv (rc, H)" using assms(1) by (rule cluster.reach_inv)
  then have inv': "election_inv (rc', H')" using assms(2) by (rule cluster.reach_inv_rtranclp)
  have grow: "H \<subseteq> H'" "length (rc_nodes rc') = length (rc_nodes rc)" using cluster_run_grows [OF assms(2)] by simp_all
  have "elected (length (rc_nodes rc)) H' a (rd_term (rc_nodes rc ! a))"
    using leader_elected [OF inv assms(3,4)] grow(1) unfolding elected_def by blast
  moreover have "elected (length (rc_nodes rc)) H' b (rd_term (rc_nodes rc ! a))"
    using leader_elected [OF inv' assms(5,6)] grow(2) assms(7) by simp
  ultimately show ?thesis using inv' elected_unique [of "rc_nodes rc'" H'] by (simp add: election_inv_def)
qed

text \<open>A run of three nodes: the first one times out, and the vote of the second one makes it leader.\<close>

definition demo_trio :: raft_cluster where
  "demo_trio = raft_init_cluster_rc 3 [0, 1, 2]"

definition demo_deliver :: "raft_cluster \<Rightarrow> raft_cluster" where
  "demo_deliver rc = (case raft_dequeue_msg rc of None \<Rightarrow> rc | Some (m, rc1) \<Rightarrow> raft_process_message m rc1)"

definition demo_elected :: raft_cluster where
  "demo_elected = demo_deliver (demo_deliver (demo_deliver (raft_tick_rc (demo_trio\<lparr>rc_time := 149\<rparr>))))"

lemma demo_trio_nodes:
  "rc_nodes demo_trio = [raft_fresh_node 150, raft_fresh_node 151, raft_fresh_node 152]"
  by (simp add: demo_trio_def raft_init_cluster_rc_def raft_random_election_timeout_def numeral_3_eq_3)

lemma demo_idle_tick:
  assumes "k < 149"
  shows "raft_tick_rc (demo_trio\<lparr>rc_time := of_nat k\<rparr>) = demo_trio\<lparr>rc_time := of_nat (Suc k)\<rparr>"
proof -
  have "unat (of_nat k + 1 :: 64 word) = k + 1"
    using assms by (simp add: unat_word_ariths unsigned_of_nat take_bit_nat_eq_self)
  then have "of_nat k + 1 < (150 :: 64 word)" "of_nat k + 1 < (151 :: 64 word)" "of_nat k + 1 < (152 :: 64 word)"
    using assms by (simp_all add: word_less_nat_alt)
  then show ?thesis
    by (simp add: raft_tick_rc_def Let_def demo_trio_nodes raft_tick_node_rc_def raft_fresh_node_def upt_rec add.commute)
qed

lemma demo_idle_reach: "k \<le> 149 \<Longrightarrow> reach cluster_init cluster_step (demo_trio\<lparr>rc_time := of_nat k\<rparr>, {})"
proof (induction k)
  case 0
  have "demo_trio\<lparr>rc_time := 0\<rparr> = demo_trio"
    by (simp add: demo_trio_def raft_init_cluster_rc_def raft_random_election_timeout_def numeral_3_eq_3)
  then show ?case by (auto simp: cluster_init_def demo_trio_def intro!: reach_init)
next
  case (Suc k)
  let ?rc = "demo_trio\<lparr>rc_time := of_nat k\<rparr>"
  have "cluster_step (?rc, {}) (raft_tick_rc ?rc, {} \<union> votes_of (rc_nodes (raft_tick_rc ?rc)))"
    by (rule cluster_step.tick) (simp add: demo_trio_nodes raft_fresh_node_def)
  moreover have "votes_of (rc_nodes demo_trio) = {}"
  proof -
    have "\<forall>nd \<in> set (rc_nodes demo_trio). rd_voted_for nd = -1" by (simp add: demo_trio_nodes raft_fresh_node_def)
    then show ?thesis by (auto simp: votes_of_def)
  qed
  ultimately show ?case using Suc demo_idle_tick [of k] by (auto intro: reach_step)
qed

lemma demo_deliver_reach:
  "reach cluster_init cluster_step (rc, H) \<Longrightarrow> \<exists>H'. reach cluster_init cluster_step (demo_deliver rc, H')"
  by (auto simp: demo_deliver_def split: option.split intro: reach_step cluster_step.deliver)

lemma demo_elected_reach: "\<exists>H. reach cluster_init cluster_step (demo_elected, H)"
proof -
  let ?rc = "demo_trio\<lparr>rc_time := 149\<rparr>"
  have "cluster_step (?rc, {}) (raft_tick_rc ?rc, {} \<union> votes_of (rc_nodes (raft_tick_rc ?rc)))"
    by (rule cluster_step.tick) (simp add: demo_trio_nodes raft_fresh_node_def)
  moreover have "reach cluster_init cluster_step (?rc, {})" using demo_idle_reach [of 149] by simp
  ultimately have "\<exists>H. reach cluster_init cluster_step (raft_tick_rc ?rc, H)" by (blast intro: reach_step)
  then show ?thesis unfolding demo_elected_def using demo_deliver_reach by blast
qed

lemma demo_elected_leader: "map rd_role (rc_nodes demo_elected) = [RAFT_LEADER, RAFT_FOLLOWER, RAFT_FOLLOWER]"
  by code_simp

theorem raft_election_safety_witness:
  "\<exists>H. reach cluster_init cluster_step (demo_elected, H) \<and>
    {b. b < 3 \<and> rd_role (rc_nodes demo_elected ! b) = RAFT_LEADER \<and>
       rd_term (rc_nodes demo_elected ! 0) = rd_term (rc_nodes demo_elected ! b)} = {0}"
proof -
  obtain H where H: "reach cluster_init cluster_step (demo_elected, H)" using demo_elected_reach by blast
  have n: "length (rc_nodes demo_elected) = 3" using arg_cong [OF demo_elected_leader, of length] by simp
  have "rd_role (rc_nodes demo_elected ! 0) = RAFT_LEADER"
    using arg_cong [OF demo_elected_leader, of hd] n by (simp add: hd_conv_nth flip: length_greater_0_conv)
  then show ?thesis using H raft_election_safety [OF H rtranclp.rtrancl_refl, of 0] n by auto
qed

section \<open>Logs are never replicated\<close>

text \<open>
  Append requests carry no entries, since nothing fills them in. The log of a node grows by the commands that clients
  submit while it is the leader, and by nothing else.
\<close>

definition empty_request :: "raft_message \<Rightarrow> bool" where
  "empty_request m \<longleftrightarrow> rm_entries m = [] \<and> rm_type m \<noteq> RAFT_MSG_CLIENT_COMMAND"

definition empty_requests :: "raft_cluster \<Rightarrow> bool" where
  "empty_requests rc \<longleftrightarrow> list_all empty_request (rc_queue rc)"

lemma built_empty:
  "empty_request (raft_build_request_vote rc a b)" "empty_request (raft_build_request_vote_reply a b t g)"
  "empty_request (raft_build_append_entries rc a b)" "empty_request (raft_build_append_entries_reply a b t s mi)"
  by (simp_all add: empty_request_def raft_build_request_vote_def raft_build_request_vote_reply_def raft_build_append_entries_def
      raft_build_append_entries_reply_def raft_zero_message_def Let_def)

lemma enqueue_empty: "empty_requests rc \<Longrightarrow> empty_request m \<Longrightarrow> empty_requests (raft_enqueue_msg m rc)"
  by (simp add: empty_requests_def raft_enqueue_msg_def)

lemma send_loop_empty:
  assumes "\<And>rc j. empty_request (b rc j)"
  shows "empty_requests rc \<Longrightarrow> empty_requests (fold (\<lambda>j rc. if j = i then rc else raft_enqueue_msg (b rc j) rc) js rc)"
proof (induction js arbitrary: rc)
  case (Cons j js)
  show ?case
  proof (cases "j = i")
    case True
    then show ?thesis using Cons.IH [OF Cons.prems] by simp
  next
    case False
    then show ?thesis using Cons.IH [OF enqueue_empty [OF Cons.prems assms [of rc j]]] by simp
  qed
qed simp

lemma empty_cong: "rc_queue rc' = rc_queue rc \<Longrightarrow> empty_requests rc' = empty_requests rc"
  by (simp add: empty_requests_def)

lemma heartbeats_empty: "empty_requests rc \<Longrightarrow> empty_requests (raft_leader_send_heartbeats rc)"
  unfolding raft_leader_send_heartbeats_def Let_def
  using send_loop_empty [of "\<lambda>rc. raft_build_append_entries rc l" rc l js for l js] built_empty(3) by simp

lemma become_leader_empty: "empty_requests rc \<Longrightarrow> empty_requests (raft_become_leader_rc i rc)"
  unfolding become_leader_crown by (rule heartbeats_empty) (simp add: empty_cong [OF crown_effect(2)])

text \<open>Logs and queue after the operations that touch no log.\<close>

abbreviation logs :: "raft_cluster \<Rightarrow> raft_log_entry list list" where
  "logs rc \<equiv> map rd_log (rc_nodes rc)"

lemmas queue_kept = empty_cong [OF set_deadline_effect(2)] empty_cong [OF become_follower_effect(2)] empty_cong [OF update_node_effect(2)]
  empty_cong [OF see_term_queue(1)] empty_cong [OF hear_leader_effect(1)] empty_cong [OF take_entries_effect(2)]
  empty_cong [OF advance_commit_effect(2)] empty_cong [OF leader_append_effect(2)]

lemma request_vote_logs:
  assumes "empty_requests rc"
  shows "logs (raft_handle_request_vote_rc m rc) = logs rc" and "empty_requests (raft_handle_request_vote_rc m rc)"
proof -
  show "logs (raft_handle_request_vote_rc m rc) = logs rc"
    by (simp add: raft_handle_request_vote_rc_def Let_def effect_simps map_update_same [of rd_log])
  show "empty_requests (raft_handle_request_vote_rc m rc)"
    unfolding raft_handle_request_vote_rc_def Let_def using assms by (simp add: enqueue_empty built_empty queue_kept)
qed

lemma request_vote_reply_logs:
  assumes "empty_requests rc"
  shows "logs (raft_handle_request_vote_reply m rc) = logs rc" and "empty_requests (raft_handle_request_vote_reply m rc)"
proof -
  show "logs (raft_handle_request_vote_reply m rc) = logs rc"
    by (simp add: raft_handle_request_vote_reply_def Let_def become_leader_crown effect_simps map_update_same [of rd_log])
  show "empty_requests (raft_handle_request_vote_reply m rc)"
    unfolding raft_handle_request_vote_reply_def Let_def using assms by (simp add: become_leader_empty queue_kept)
qed

lemma append_entries_logs:
  assumes "empty_requests rc" and "rm_entries m = []"
  shows "logs (raft_handle_append_entries_rc m rc) = logs rc" and "empty_requests (raft_handle_append_entries_rc m rc)"
  using assms by (simp_all add: handle_append_entries_parts Let_def effect_simps enqueue_empty built_empty queue_kept)

lemma append_entries_reply_logs:
  assumes "empty_requests rc"
  shows "logs (raft_handle_append_entries_reply m rc) = logs rc" and "empty_requests (raft_handle_append_entries_reply m rc)"
proof -
  show "logs (raft_handle_append_entries_reply m rc) = logs rc"
    by (simp add: raft_handle_append_entries_reply_def Let_def effect_simps map_update_same [of rd_log])
  have "empty_requests (rc'\<lparr>rc_leader_id := l\<rparr>) = empty_requests rc'" for rc' :: raft_cluster and l by (rule empty_cong) simp
  then show "empty_requests (raft_handle_append_entries_reply m rc)"
    unfolding raft_handle_append_entries_reply_def Let_def using assms by (simp add: queue_kept)
qed

lemma process_message_logs:
  assumes "empty_requests rc" and "empty_request m"
  shows "logs (raft_process_message m rc) = logs rc" and "empty_requests (raft_process_message m rc)"
  using assms request_vote_logs request_vote_reply_logs append_entries_logs append_entries_reply_logs
  by (cases "rm_type m"; simp add: raft_process_message_def empty_request_def)+

lemma start_election_logs:
  assumes "empty_requests rc"
  shows "logs (raft_start_election i rc) = logs rc" and "empty_requests (raft_start_election i rc)"
proof -
  show "logs (raft_start_election i rc) = logs rc"
    by (simp add: raft_start_election_def Let_def become_leader_crown effect_simps map_update_same [of rd_log])
  have "empty_requests (fold (\<lambda>j rc. if j = i then rc else raft_enqueue_msg (raft_build_request_vote rc i j) rc) js rc')"
    if "empty_requests rc'" for js rc' using that built_empty(1) by (intro send_loop_empty)
  then show "empty_requests (raft_start_election i rc)"
    unfolding raft_start_election_def Let_def using assms by (simp add: become_leader_empty queue_kept)
qed

lemma tick_logs:
  assumes "empty_requests rc"
  shows "logs (raft_tick_rc rc) = logs rc \<and> empty_requests (raft_tick_rc rc)"
proof -
  have "empty_requests r \<Longrightarrow> logs (fold raft_tick_node_rc js r) = logs r \<and> empty_requests (fold raft_tick_node_rc js r)" for js r
  proof (induction js arbitrary: r)
    case (Cons j js)
    have "logs (raft_tick_node_rc j r) = logs r" "empty_requests (raft_tick_node_rc j r)"
      using start_election_logs [OF Cons.prems] Cons.prems by (simp_all add: raft_tick_node_rc_def effect_simps queue_kept)
    then show ?case using Cons.IH [of "raft_tick_node_rc j r"] by simp
  qed simp
  moreover have "empty_requests (rc\<lparr>rc_time := rc_time rc + 1\<rparr>)" using assms by (simp add: empty_requests_def)
  ultimately show ?thesis by (simp add: raft_tick_rc_def Let_def)
qed

definition log_inv :: "raft_cluster \<times> vote_history \<Rightarrow> bool" where
  "log_inv s \<longleftrightarrow> empty_requests (fst s)"

lemma log_step:
  assumes "log_inv s" and "cluster_step s s'"
  shows "log_inv s'"
    and "logs (fst s') = logs (fst s) \<or> (\<exists>e. 0 \<le> rc_leader_id (fst s) \<and>
      logs (fst s') = (logs (fst s))[nat (rc_leader_id (fst s)) := rd_log (rc_nodes (fst s) ! nat (rc_leader_id (fst s))) @ [e]])"
proof -
  have "log_inv s' \<and> (logs (fst s') = logs (fst s) \<or> (\<exists>e. 0 \<le> rc_leader_id (fst s) \<and>
      logs (fst s') = (logs (fst s))[nat (rc_leader_id (fst s)) := rd_log (rc_nodes (fst s) ! nat (rc_leader_id (fst s))) @ [e]]))"
    using assms(2,1)
  proof cases
    case (tick rc H)
    then show ?thesis using tick_logs [of rc] assms(1) by (simp add: log_inv_def)
  next
    case (deliver rc m rc1 rc' H)
    then have "empty_requests rc1" "empty_request m" "logs rc1 = logs rc"
      using assms(1) by (auto simp: raft_dequeue_msg_def log_inv_def empty_requests_def split: list.splits)
    then show ?thesis using process_message_logs [of rc1 m] deliver by (simp add: log_inv_def)
  next
    case (submit cmd rc r rc' H)
    then have "rc' = rc \<or> 0 \<le> rc_leader_id rc \<and> rc' = raft_leader_append_entry cmd rc"
      by (auto simp: raft_client_submit_def Let_def split: if_splits)
    moreover have "0 \<le> rc_leader_id rc \<Longrightarrow> logs (raft_leader_append_entry cmd rc) = logs rc \<or>
        (\<exists>e. logs (raft_leader_append_entry cmd rc) = (logs rc)[nat (rc_leader_id rc) := rd_log (rc_nodes rc ! nat (rc_leader_id rc)) @ [e]])"
      by (auto simp: raft_leader_append_entry_def Let_def effect_simps map_update)
    ultimately show ?thesis using submit assms(1) by (auto simp: log_inv_def queue_kept)
  next
    case (heartbeat rc H)
    then show ?thesis using heartbeats_empty [of rc] assms(1) by (simp add: log_inv_def effect_simps)
  next
    case (commit rc ok rc' H)
    then have "rc' = rc \<or> rc' = raft_advance_commit (nat (rc_leader_id rc)) rc" by (auto simp: raft_leader_commit_entries_def split: if_splits)
    then show ?thesis using commit assms(1) by (auto simp: log_inv_def queue_kept effect_simps)
  qed
  then show "log_inv s'" and "logs (fst s') = logs (fst s) \<or> (\<exists>e. 0 \<le> rc_leader_id (fst s) \<and>
      logs (fst s') = (logs (fst s))[nat (rc_leader_id (fst s)) := rd_log (rc_nodes (fst s) ! nat (rc_leader_id (fst s))) @ [e]])" by auto
qed

interpretation log_growth: invariant_system cluster_init cluster_step log_inv
proof
  show "log_inv s" if "cluster_init s" for s
    using that init_nodes_effect [of "\<lparr>rc_nodes = [], rc_queue = [], rc_leader_id = -1, rc_time = 0, rc_rand = r\<rparr>" k for r k]
    by (auto simp: cluster_init_def log_inv_def empty_requests_def raft_init_cluster_rc_def)
qed (rule log_step(1))

text \<open>No replication: a step changes at most the log of the leader, by one command of a client.\<close>

lemma raft_no_replication:
  assumes "reach cluster_init cluster_step s" and "cluster_step s s'" and "i < length (rc_nodes (fst s))" and "int i \<noteq> rc_leader_id (fst s)"
  shows "rd_log (rc_nodes (fst s') ! i) = rd_log (rc_nodes (fst s) ! i)"
proof -
  have len: "length (rc_nodes (fst s')) = length (rc_nodes (fst s))" using cluster_step_grows [OF assms(2)] by simp
  have "logs (fst s') ! i = logs (fst s) ! i"
    using log_step(2) [OF log_growth.reach_inv [OF assms(1)] assms(2)] assms(3,4) by (auto simp: nth_list_update)
  then show ?thesis using assms(3) len by simp
qed

end
