(* ===== verification/Dht.thy ===== *)
theory Dht
  imports Net_Prelude
begin

text \<open>
  Distributed hash tables (\<open>mini-dist-system-theory/src/dht.c\<close>): a Chord ring with finger tables, and consistent hashing
  with virtual nodes. The used part of an array is a list; \<open>-1\<close> as an index is \<open>None\<close>. The finger table keeps its 64 rows.
  \<open>%\<close> on \<open>int\<close> is \<open>c_rem\<close>, which truncates towards zero. Hash spaces are positive, as the initialisers make them.
  \<open>ch_load_variance\<close> computes with \<open>double\<close> and is not modelled, nor are the printing functions.
\<close>

section \<open>Data\<close>

definition DHT_MAX_NODES :: nat where "DHT_MAX_NODES = 64"
definition DHT_HASH_SPACE :: int where "DHT_HASH_SPACE = 256"
definition DHT_FINGER_TABLE_SIZE :: nat where "DHT_FINGER_TABLE_SIZE = 8"
definition DHT_MAX_VNODES :: nat where "DHT_MAX_VNODES = 4"

record DHTNode =
  dn_id :: int
  dn_active :: bool
  dn_keys :: "int list"

record DHTFingerEntry =
  fe_start :: int
  fe_node_id :: int

record ChordRing =
  cr_nodes :: "DHTNode list"
  cr_hash_space :: int
  cr_replication_factor :: int
  cr_finger_table :: "DHTFingerEntry list list"

record VirtualNode =
  vn_id :: nat
  vn_physical_node :: int
  vn_position :: int

record ConsistentHashRing =
  ch_vnodes :: "VirtualNode list"
  ch_total_slots :: int

section \<open>Hashing and distances\<close>

definition c_rem :: "int \<Rightarrow> int \<Rightarrow> int" where
  "c_rem a b = (if a \<ge> 0 then a mod \<bar>b\<bar> else - (- a mod \<bar>b\<bar>))"

definition dht_hash :: "int \<Rightarrow> int \<Rightarrow> int" where
  "dht_hash key space = uint (of_int key * 2654435761 :: 32 word) mod space"

definition dht_distance :: "int \<Rightarrow> int \<Rightarrow> int \<Rightarrow> int" where
  "dht_distance a b space = (if a \<le> b then b - a else space - a + b)"

definition dht_in_range :: "int \<Rightarrow> int \<Rightarrow> int \<Rightarrow> bool \<Rightarrow> bool" where
  "dht_in_range key start stop inclusive_end =
     (if start < stop then (if inclusive_end then key > start \<and> key \<le> stop else key > start \<and> key < stop)
      else if inclusive_end then key > start \<or> key \<le> stop else key > start \<or> key < stop)"

text \<open>
  The search for the nearest entry: the index and distance of the best one so far, replaced when a strictly smaller
  distance is found; entries without a distance are skipped.
\<close>

fun scan_nearest :: "('a \<Rightarrow> int option) \<Rightarrow> nat \<Rightarrow> 'a list \<Rightarrow> nat option \<times> int \<Rightarrow> nat option \<times> int" where
  "scan_nearest f i [] acc = acc"
| "scan_nearest f i (x # xs) acc =
     scan_nearest f (Suc i) xs
       (case f x of None \<Rightarrow> acc | Some d \<Rightarrow> if d < snd acc then (Some i, d) else acc)"

definition node_distance :: "int \<Rightarrow> int \<Rightarrow> DHTNode \<Rightarrow> int option" where
  "node_distance hash_space key n =
     (if dn_active n then Some (c_rem (dn_id n - key + hash_space) hash_space) else None)"

definition dht_find_successor :: "ChordRing \<Rightarrow> int \<Rightarrow> nat option" where
  "dht_find_successor ring key =
     fst (scan_nearest (node_distance (cr_hash_space ring) key) 0 (cr_nodes ring) (None, cr_hash_space ring + 1))"

section \<open>Chord\<close>

definition chord_init :: "int \<Rightarrow> ChordRing" where
  "chord_init hash_space =
     \<lparr>cr_nodes = [], cr_hash_space = (if hash_space > 0 then hash_space else DHT_HASH_SPACE), cr_replication_factor = 3,
      cr_finger_table = replicate DHT_MAX_NODES (replicate DHT_FINGER_TABLE_SIZE \<lparr>fe_start = -1, fe_node_id = -1\<rparr>)\<rparr>"

definition chord_lookup :: "ChordRing \<Rightarrow> int \<Rightarrow> int" where
  "chord_lookup ring key =
     (case dht_find_successor ring (dht_hash key (cr_hash_space ring)) of
        None \<Rightarrow> -1
      | Some si \<Rightarrow> dn_id (cr_nodes ring ! si))"

definition finger_entry :: "ChordRing \<Rightarrow> DHTNode \<Rightarrow> nat \<Rightarrow> DHTFingerEntry" where
  "finger_entry ring n k =
     (let start = c_rem (dn_id n + 2 ^ k) (cr_hash_space ring)
      in \<lparr>fe_start = start, fe_node_id = chord_lookup ring start\<rparr>)"

definition chord_build_finger_tables :: "ChordRing \<Rightarrow> ChordRing" where
  "chord_build_finger_tables ring =
     ring\<lparr>cr_finger_table :=
       fold (\<lambda>i ft. let n = cr_nodes ring ! i
                    in if dn_active n then ft[i := map (finger_entry ring n) [0..<DHT_FINGER_TABLE_SIZE]] else ft)
         [0..<length (cr_nodes ring)] (cr_finger_table ring)\<rparr>"

definition active_index :: "ChordRing \<Rightarrow> int \<Rightarrow> nat option" where
  "active_index ring node_id = find_index (\<lambda>n. dn_id n = node_id \<and> dn_active n) (cr_nodes ring)"

text \<open>The result is the index of the new node or \<open>-1\<close>.\<close>

definition chord_join :: "ChordRing \<Rightarrow> int \<Rightarrow> ChordRing \<times> int" where
  "chord_join ring node_id =
     (if length (cr_nodes ring) \<ge> DHT_MAX_NODES then (ring, -1)
      else if active_index ring node_id \<noteq> None then (ring, -1)
      else (chord_build_finger_tables
              (ring\<lparr>cr_nodes := cr_nodes ring @ [\<lparr>dn_id = node_id, dn_active = True, dn_keys = []\<rparr>]\<rparr>),
            int (length (cr_nodes ring))))"

definition hand_over :: "int list \<Rightarrow> int list \<Rightarrow> int list" where
  "hand_over ks keys = fold (\<lambda>key keys. if length keys < DHT_MAX_NODES then keys @ [key] else keys) ks keys"

definition chord_leave :: "ChordRing \<Rightarrow> int \<Rightarrow> ChordRing \<times> int" where
  "chord_leave ring node_id =
     (case active_index ring node_id of
        None \<Rightarrow> (ring, -1)
      | Some i \<Rightarrow>
          (let ns = cr_nodes ring;
               ns1 = (case find_index (\<lambda>j. j \<noteq> i \<and> dn_active (ns ! j)) [0..<length ns] of
                        None \<Rightarrow> ns
                      | Some succ \<Rightarrow> ns[succ := (ns ! succ)\<lparr>dn_keys := hand_over (dn_keys (ns ! i)) (dn_keys (ns ! succ))\<rparr>]);
               ns2 = ns1[i := (ns1 ! i)\<lparr>dn_active := False, dn_keys := []\<rparr>]
           in (chord_build_finger_tables (ring\<lparr>cr_nodes := ns2\<rparr>), 0)))"

definition chord_store :: "ChordRing \<Rightarrow> int \<Rightarrow> int \<Rightarrow> ChordRing" where
  "chord_store ring node_id key =
     (case active_index ring node_id of
        None \<Rightarrow> ring
      | Some i \<Rightarrow>
          (let n = cr_nodes ring ! i
           in if length (dn_keys n) \<ge> DHT_MAX_NODES then ring
              else if key \<in> set (dn_keys n) then ring
              else ring\<lparr>cr_nodes := (cr_nodes ring)[i := n\<lparr>dn_keys := dn_keys n @ [key]\<rparr>]\<rparr>))"

definition chord_has_key :: "ChordRing \<Rightarrow> int \<Rightarrow> int \<Rightarrow> bool" where
  "chord_has_key ring node_id key =
     (case active_index ring node_id of
        None \<Rightarrow> False
      | Some i \<Rightarrow> key \<in> set (dn_keys (cr_nodes ring ! i)))"

definition chord_finger_lookup :: "ChordRing \<Rightarrow> int \<Rightarrow> int \<Rightarrow> int" where
  "chord_finger_lookup ring node_id key =
     (case active_index ring node_id of
        None \<Rightarrow> -1
      | Some i \<Rightarrow>
          (case find (\<lambda>e. fe_node_id e \<ge> 0 \<and> dht_in_range (fe_start e) node_id (fe_node_id e) True)
                  (rev (take DHT_FINGER_TABLE_SIZE (cr_finger_table ring ! i))) of
             Some e \<Rightarrow> fe_node_id e
           | None \<Rightarrow> chord_lookup ring key))"

definition dht_rebalance_score :: "ChordRing \<Rightarrow> int" where
  "dht_rebalance_score ring =
     (let kcs = map (\<lambda>n. int (length (dn_keys n))) (filter dn_active (cr_nodes ring));
          max_kc = fold max kcs 0;
          min_kc = fold min kcs (int DHT_MAX_NODES + 1)
      in if kcs = [] then 100
         else let min_kc = (if min_kc = int DHT_MAX_NODES + 1 then 0 else min_kc)
              in if max_kc = 0 then 100 else 100 - (max_kc - min_kc) * 100 div max_kc)"

section \<open>Consistent hashing\<close>

definition ch_init :: "int \<Rightarrow> ConsistentHashRing" where
  "ch_init total_slots = \<lparr>ch_vnodes = [], ch_total_slots = (if total_slots > 0 then total_slots else DHT_HASH_SPACE)\<rparr>"

definition ch_add_vnode :: "int \<Rightarrow> nat \<Rightarrow> ConsistentHashRing \<Rightarrow> ConsistentHashRing" where
  "ch_add_vnode physical_node v chr =
     (if length (ch_vnodes chr) \<ge> DHT_MAX_NODES * DHT_MAX_VNODES then chr
      else chr\<lparr>ch_vnodes := ch_vnodes chr @
             [\<lparr>vn_id = length (ch_vnodes chr), vn_physical_node = physical_node,
               vn_position = dht_hash (physical_node * 1000 + int v) (ch_total_slots chr)\<rparr>]\<rparr>)"

definition ch_add_node :: "ConsistentHashRing \<Rightarrow> int \<Rightarrow> nat \<Rightarrow> ConsistentHashRing" where
  "ch_add_node chr physical_node num_vnodes = fold (ch_add_vnode physical_node) [0..<num_vnodes] chr"

definition ch_remove_node :: "ConsistentHashRing \<Rightarrow> int \<Rightarrow> ConsistentHashRing" where
  "ch_remove_node chr physical_node =
     chr\<lparr>ch_vnodes := filter (\<lambda>vn. vn_physical_node vn \<noteq> physical_node) (ch_vnodes chr)\<rparr>"

definition vnode_distance :: "int \<Rightarrow> int \<Rightarrow> VirtualNode \<Rightarrow> int option" where
  "vnode_distance total_slots hash vn = Some (c_rem (vn_position vn - hash + total_slots) total_slots)"

definition ch_lookup :: "ConsistentHashRing \<Rightarrow> int \<Rightarrow> int" where
  "ch_lookup chr key =
     (let hash = dht_hash key (ch_total_slots chr)
      in case fst (scan_nearest (vnode_distance (ch_total_slots chr) hash) 0 (ch_vnodes chr) (None, ch_total_slots chr + 1)) of
           None \<Rightarrow> -1
         | Some i \<Rightarrow> vn_physical_node (ch_vnodes chr ! i))"

section \<open>The nearest entry\<close>

text \<open>The search again, remembering the entry instead of its index.\<close>

definition pick :: "('a \<Rightarrow> int option) \<Rightarrow> 'a \<Rightarrow> 'a option \<times> int \<Rightarrow> 'a option \<times> int" where
  "pick f x acc = (case f x of None \<Rightarrow> acc | Some d \<Rightarrow> if d < snd acc then (Some x, d) else acc)"

definition nearest :: "('a \<Rightarrow> int option) \<Rightarrow> int \<Rightarrow> 'a list \<Rightarrow> 'a option" where
  "nearest f bound xs = fst (fold (pick f) xs (None, bound))"

lemma scan_nearest_pick:
  assumes "case b of None \<Rightarrow> True | Some i \<Rightarrow> i < length pre"
  shows "map_option ((!) (pre @ xs)) (fst (scan_nearest f (length pre) xs (b, d))) =
    fst (fold (pick f) xs (map_option ((!) (pre @ xs)) b, d))"
  using assms
proof (induction xs arbitrary: pre b d)
  case (Cons x xs)
  have b: "case b of None \<Rightarrow> True | Some i \<Rightarrow> i < length (pre @ [x])" using Cons.prems by (auto split: option.splits)
  have new: "case Some (length pre) of None \<Rightarrow> True | Some i \<Rightarrow> i < length (pre @ [x])" by simp
  show ?case
    using Cons.IH [OF b, of d] Cons.IH [OF new] by (cases "f x") (auto simp: pick_def)
qed simp

lemma scan_nearest_nearest:
  "map_option ((!) xs) (fst (scan_nearest f 0 xs (None, bound))) = nearest f bound xs"
  using scan_nearest_pick [where b = None and pre = "[]" and xs = xs and f = f and d = bound] by (simp add: nearest_def)

lemma fold_pick_cases:
  assumes "fold (pick f) xs (b0, d0) = (b, d)"
  shows "b = b0 \<and> d = d0 \<and> (\<forall>x \<in> set xs. \<forall>e. f x = Some e \<longrightarrow> d0 \<le> e) \<or>
    (\<exists>x \<in> set xs. b = Some x \<and> f x = Some d \<and> d < d0 \<and> (\<forall>y \<in> set xs. \<forall>e. f y = Some e \<longrightarrow> d \<le> e))"
  using assms
proof (induction xs arbitrary: b0 d0)
  case (Cons x xs)
  show ?case
  proof (cases "\<exists>e. f x = Some e \<and> e < d0")
    case True
    then obtain e where e: "f x = Some e" "e < d0" by blast
    then have "fold (pick f) xs (Some x, e) = (b, d)" using Cons.prems by (simp add: pick_def [of f x])
    from Cons.IH [OF this] e show ?thesis by (elim disjE) fastforce+
  next
    case False
    then have "pick f x (b0, d0) = (b0, d0)" by (auto simp: pick_def split: option.splits)
    then have "fold (pick f) xs (b0, d0) = (b, d)" using Cons.prems by simp
    from Cons.IH [OF this] False show ?thesis by (elim disjE) (fastforce simp: not_less)+
  qed
qed simp

lemma nearest_SomeD:
  assumes "nearest f bound xs = Some x"
  obtains d where "x \<in> set xs" "f x = Some d" "d < bound" "\<And>y e. y \<in> set xs \<Longrightarrow> f y = Some e \<Longrightarrow> d \<le> e"
  using fold_pick_cases [of f xs None bound] assms by (cases "fold (pick f) xs (None, bound)") (auto simp: nearest_def)

lemma nearest_NoneD:
  assumes "nearest f bound xs = None" and "y \<in> set xs" and "f y = Some e"
  shows "bound \<le> e"
  using fold_pick_cases [of f xs None bound] assms by (cases "fold (pick f) xs (None, bound)") (auto simp: nearest_def)

text \<open>More entries: the winner is the old one or one of the new.\<close>

lemma nearest_append: "nearest f bound (xs @ ys) = nearest f bound xs \<or> (\<exists>y \<in> set ys. nearest f bound (xs @ ys) = Some y)"
proof -
  obtain b d where acc: "fold (pick f) xs (None, bound) = (b, d)" by fastforce
  obtain b' d' where acc': "fold (pick f) ys (b, d) = (b', d')" by fastforce
  show ?thesis using fold_pick_cases [OF acc'] acc acc' by (auto simp: nearest_def)
qed

text \<open>Fewer entries: a winner that stays wins again.\<close>

lemma fold_pick_weaker:
  assumes "acc = acc' \<or> (\<exists>y. fst acc = Some y \<and> \<not> P y \<and> snd acc \<le> snd acc')"
    and "\<And>x. P x \<Longrightarrow> g x = f x" and "\<And>x. \<not> P x \<Longrightarrow> g x = None"
  shows "fold (pick f) xs acc = fold (pick g) xs acc' \<or>
    (\<exists>y. fst (fold (pick f) xs acc) = Some y \<and> \<not> P y \<and> snd (fold (pick f) xs acc) \<le> snd (fold (pick g) xs acc'))"
  using assms(1)
proof (induction xs arbitrary: acc acc')
  case (Cons x xs)
  have "pick f x acc = pick g x acc' \<or> (\<exists>y. fst (pick f x acc) = Some y \<and> \<not> P y \<and> snd (pick f x acc) \<le> snd (pick g x acc'))"
    using Cons.prems assms(2,3) [of x] by (cases "P x"; cases "f x") (auto simp: pick_def)
  then show ?case using Cons.IH by simp
qed simp

lemma nearest_weaker:
  assumes "\<And>w. nearest f bound xs = Some w \<Longrightarrow> P w"
    and "\<And>x. P x \<Longrightarrow> g x = f x" and "\<And>x. \<not> P x \<Longrightarrow> g x = None"
  shows "nearest g bound xs = nearest f bound xs"
proof -
  consider "fold (pick f) xs (None, bound) = fold (pick g) xs (None, bound)"
    | y where "fst (fold (pick f) xs (None, bound)) = Some y" "\<not> P y"
    using fold_pick_weaker [of "(None, bound)" "(None, bound)" P g f xs] assms(2,3) by auto
  then show ?thesis using assms(1) by cases (auto simp: nearest_def)
qed

lemma nearest_filter: "nearest f bound (filter P xs) = nearest (\<lambda>x. if P x then f x else None) bound xs"
proof -
  have "fold (pick f) (filter P xs) acc = fold (pick (\<lambda>x. if P x then f x else None)) xs acc" for acc
    by (induction xs arbitrary: acc) (auto simp: pick_def)
  then show ?thesis by (simp add: nearest_def)
qed

lemma fold_pick_shadow:
  assumes "acc = acc' \<or> fst acc = Some y \<and> snd acc \<le> snd acc'"
  shows "fold (pick f) xs acc = fold (pick f) xs acc' \<or>
    fst (fold (pick f) xs acc) = Some y \<and> snd (fold (pick f) xs acc) \<le> snd (fold (pick f) xs acc')"
  using assms
proof (induction xs arbitrary: acc acc')
  case (Cons x xs)
  have "pick f x acc = pick f x acc' \<or> fst (pick f x acc) = Some y \<and> snd (pick f x acc) \<le> snd (pick f x acc')"
    using Cons.prems by (cases "f x") (auto simp: pick_def)
  then show ?case using Cons.IH by simp
qed simp

lemma nearest_skip:
  assumes "nearest f bound (xs @ y # ys) \<noteq> Some y"
  shows "nearest f bound (xs @ ys) = nearest f bound (xs @ y # ys)"
proof -
  let ?acc = "fold (pick f) xs (None, bound)"
  have "pick f y ?acc = ?acc \<or> fst (pick f y ?acc) = Some y \<and> snd (pick f y ?acc) \<le> snd ?acc"
    by (cases "f y") (auto simp: pick_def)
  then show ?thesis using fold_pick_shadow [of "pick f y ?acc" ?acc y f ys] assms by (auto simp: nearest_def)
qed

lemma nearest_map: "nearest f bound (map h xs) = map_option h (nearest (\<lambda>x. f (h x)) bound xs)"
proof -
  have "fold (pick f) (map h xs) (map_option h b, d) = (case fold (pick (\<lambda>x. f (h x))) xs (b, d) of (b, d) \<Rightarrow> (map_option h b, d))" for b d
  proof (induction xs arbitrary: b d)
    case (Cons x xs)
    show ?case using Cons.IH [of b d] Cons.IH [of "Some x"] by (cases "f (h x)") (auto simp: pick_def)
  qed simp
  from this [of None bound] show ?thesis by (simp add: nearest_def split: prod.splits)
qed

section \<open>The rings keep the contract\<close>

lemma ch_lookup_nearest:
  "ch_lookup chr key =
     (case nearest (vnode_distance (ch_total_slots chr) (dht_hash key (ch_total_slots chr))) (ch_total_slots chr + 1) (ch_vnodes chr) of
        None \<Rightarrow> -1 | Some vn \<Rightarrow> vn_physical_node vn)"
  unfolding ch_lookup_def Let_def by (subst scan_nearest_nearest [symmetric]) (auto split: option.splits)

lemma ch_add_node_appends:
  "ch_total_slots (ch_add_node chr p n) = ch_total_slots chr \<and>
    (\<exists>vs. ch_vnodes (ch_add_node chr p n) = ch_vnodes chr @ vs \<and> (\<forall>v \<in> set vs. vn_physical_node v = p))"
proof (induction n)
  case (Suc n)
  then show ?case by (fastforce simp: ch_add_node_def ch_add_vnode_def)
qed (simp add: ch_add_node_def)

interpretation ch: hash_ring "\<lambda>_. True" ch_lookup "\<lambda>p chr. ch_add_node chr (fst p) (snd p)" fst "\<lambda>q chr. ch_remove_node chr q" "\<lambda>q. q"
proof
  fix p :: "int \<times> nat" and r k
  obtain vs where vs: "ch_total_slots (ch_add_node r (fst p) (snd p)) = ch_total_slots r"
    "ch_vnodes (ch_add_node r (fst p) (snd p)) = ch_vnodes r @ vs" "\<forall>v \<in> set vs. vn_physical_node v = fst p"
    using ch_add_node_appends by blast
  show "ch_lookup (ch_add_node r (fst p) (snd p)) k \<in> {ch_lookup r k, fst p}"
    using nearest_append [of _ _ "ch_vnodes r" vs] vs(3) unfolding ch_lookup_nearest vs(1,2) by (metis insertCI option.simps(5))
next
  fix r k q
  assume o: "ch_lookup r k \<noteq> q"
  let ?f = "vnode_distance (ch_total_slots r) (dht_hash k (ch_total_slots r))"
  have "nearest ?f (ch_total_slots r + 1) (filter (\<lambda>vn. vn_physical_node vn \<noteq> q) (ch_vnodes r)) =
      nearest ?f (ch_total_slots r + 1) (ch_vnodes r)"
    unfolding nearest_filter by (rule nearest_weaker [where P = "\<lambda>vn. vn_physical_node vn \<noteq> q"])
      (use o in \<open>auto simp: ch_lookup_nearest\<close>)
  then show "ch_lookup (ch_remove_node r q) k = ch_lookup r k" by (simp add: ch_lookup_nearest ch_remove_node_def)
qed

text \<open>
  Consistent hashing disturbs few keys: after any nodes have left and any others have joined, a key whose node stayed
  is found on that node or on one of the newcomers, never on another old node.
\<close>

theorem ch_minimal_disruption:
  assumes "ch_lookup chr key \<notin> set gone"
  shows "ch_lookup (fold (\<lambda>p chr. ch_add_node chr (fst p) (snd p)) joined (fold (\<lambda>q chr. ch_remove_node chr q) gone chr)) key
    \<in> insert (ch_lookup chr key) (fst ` set joined)"
  using ch.churn_owner [OF TrueI, of chr key gone joined] assms by simp

theorem ch_minimal_disruption_witness:
  "ch_lookup (fold (\<lambda>p chr. ch_add_node chr (fst p) (snd p)) [(3, 2)]
      (fold (\<lambda>q chr. ch_remove_node chr q) [2] (ch_add_node (ch_add_node (ch_init 100) 1 2) 2 2))) 1 \<in> {1, 3}"
proof -
  have o: "ch_lookup (ch_add_node (ch_add_node (ch_init 100) 1 2) 2 2) 1 = 1" by code_simp
  show ?thesis using ch_minimal_disruption [of "ch_add_node (ch_add_node (ch_init 100) 1 2) 2 2" 1 "[2]" "[(3, 2)]"] o by simp
qed

text \<open>Chord routes by the identifiers and the activity of its nodes alone.\<close>

definition node_tag :: "DHTNode \<Rightarrow> int \<times> bool" where
  "node_tag n = (dn_id n, dn_active n)"

definition tag_distance :: "int \<Rightarrow> int \<Rightarrow> int \<times> bool \<Rightarrow> int option" where
  "tag_distance hash_space key t = (if snd t then Some (c_rem (fst t - key + hash_space) hash_space) else None)"

lemma chord_lookup_nearest:
  "chord_lookup ring key =
     (case nearest (tag_distance (cr_hash_space ring) (dht_hash key (cr_hash_space ring))) (cr_hash_space ring + 1)
             (map node_tag (cr_nodes ring)) of
        None \<Rightarrow> -1 | Some t \<Rightarrow> fst t)"
proof -
  have f: "(\<lambda>x. tag_distance s k (node_tag x)) = node_distance s k" for s k
    by (auto simp: tag_distance_def node_tag_def node_distance_def)
  show ?thesis
    unfolding nearest_map f chord_lookup_def dht_find_successor_def
    by (subst scan_nearest_nearest [symmetric]) (auto simp: node_tag_def split: option.splits)
qed

lemma chord_build_finger_tables_same [simp]:
  "cr_nodes (chord_build_finger_tables r) = cr_nodes r" "cr_hash_space (chord_build_finger_tables r) = cr_hash_space r"
  by (simp_all add: chord_build_finger_tables_def)

lemma chord_leave_tags:
  assumes "active_index r q = Some i"
  shows "map node_tag (cr_nodes (fst (chord_leave r q))) = (map node_tag (cr_nodes r))[i := (q, False)]"
    and "cr_hash_space (fst (chord_leave r q)) = cr_hash_space r"
proof -
  note d = find_index_SomeD(1,2) [OF assms [unfolded active_index_def]]
  have t: "map node_tag (ns[s := (ns ! s)\<lparr>dn_keys := ks\<rparr>]) = map node_tag ns" for ns s ks
    by (cases "s < length ns") (auto simp: map_update node_tag_def list_update_same_conv list_update_beyond)
  have "dn_id (ns[s := (ns ! s)\<lparr>dn_keys := ks\<rparr>] ! i) = dn_id (ns ! i)" for ns :: "DHTNode list" and s ks
    by (cases "s < length ns") (auto simp: nth_list_update list_update_beyond)
  then show "map node_tag (cr_nodes (fst (chord_leave r q))) = (map node_tag (cr_nodes r))[i := (q, False)]"
    using assms d t
    by (auto simp: chord_leave_def Let_def map_update node_tag_def split: option.splits)
  show "cr_hash_space (fst (chord_leave r q)) = cr_hash_space r" using assms by (simp add: chord_leave_def Let_def)
qed

interpretation chord: hash_ring "\<lambda>_. True" chord_lookup "\<lambda>p r. fst (chord_join r p)" "\<lambda>p. p" "\<lambda>q r. fst (chord_leave r q)" "\<lambda>q. q"
proof
  fix p r k
  show "chord_lookup (fst (chord_join r p)) k \<in> {chord_lookup r k, p}"
  proof (cases "length (cr_nodes r) \<ge> DHT_MAX_NODES \<or> active_index r p \<noteq> None")
    case True
    then show ?thesis by (auto simp: chord_join_def)
  next
    case False
    then have "map node_tag (cr_nodes (fst (chord_join r p))) = map node_tag (cr_nodes r) @ [(p, True)]"
      "cr_hash_space (fst (chord_join r p)) = cr_hash_space r" by (auto simp: chord_join_def node_tag_def)
    then show ?thesis
      using nearest_append [of "tag_distance (cr_hash_space r) (dht_hash k (cr_hash_space r))" "cr_hash_space r + 1"
          "map node_tag (cr_nodes r)" "[(p, True)]"]
      unfolding chord_lookup_nearest by auto
  qed
next
  fix r k q
  assume o: "chord_lookup r k \<noteq> q"
  show "chord_lookup (fst (chord_leave r q)) k = chord_lookup r k"
  proof (cases "active_index r q")
    case None
    then show ?thesis by (simp add: chord_leave_def)
  next
    case (Some i)
    let ?f = "tag_distance (cr_hash_space r) (dht_hash k (cr_hash_space r))" and ?b = "cr_hash_space r + 1"
    let ?ts = "map node_tag (cr_nodes r)"
    note d = find_index_SomeD(1,2) [OF Some [unfolded active_index_def]]
    have "?ts ! i = (q, True)" using d by (simp add: node_tag_def)
    then have ts: "?ts = take i ?ts @ (q, True) # drop (Suc i) ?ts" using d(1) by (metis id_take_nth_drop length_map)
    have w: "nearest ?f ?b ?ts \<noteq> Some (q, True)" using o by (auto simp: chord_lookup_nearest)
    have "nearest ?f ?b (take i ?ts @ (q, False) # drop (Suc i) ?ts) = nearest ?f ?b (take i ?ts @ drop (Suc i) ?ts)"
      by (simp add: nearest_def pick_def [of _ "(q, False)"] tag_distance_def)
    also have "\<dots> = nearest ?f ?b ?ts" using nearest_skip w ts by metis
    finally show ?thesis
      using d(1) unfolding chord_lookup_nearest chord_leave_tags [OF Some] by (simp add: upd_conv_take_nth_drop)
  qed
qed

lemma clockwise:
  assumes "0 \<le> a" "a < space" "0 \<le> b" "b < space"
  shows "c_rem (b - a + space) space = dht_distance a b space"
proof (cases "a \<le> b")
  case True
  have "(b - a + space) mod space = (b - a) mod space" by simp
  then show ?thesis using True assms by (simp add: c_rem_def dht_distance_def)
next
  case False
  then have "(b - a + space) mod space = b - a + space" using assms by (intro mod_pos_pos_trivial) auto
  then show ?thesis using False assms by (simp add: c_rem_def dht_distance_def)
qed

text \<open>
  C27. In a Chord ring with a hash space of at most 2^30 (larger ones overflow an \<open>int\<close>), whose node identifiers lie in the hash space, from 0 to \<open>hash_space - 1\<close>, and of which some node is active, a
  lookup returns an active node, and no active node lies closer behind the position of the key in clockwise direction. In
  a ring without active nodes the lookup returns \<open>-1\<close>.
\<close>

theorem chord_lookup_successor:
  assumes "0 < cr_hash_space ring" and "\<forall>n \<in> set (cr_nodes ring). 0 \<le> dn_id n \<and> dn_id n < cr_hash_space ring"
  shows "if \<exists>n \<in> set (cr_nodes ring). dn_active n
    then \<exists>n \<in> set (cr_nodes ring). dn_active n \<and> chord_lookup ring key = dn_id n \<and>
      (\<forall>m \<in> set (cr_nodes ring). dn_active m \<longrightarrow>
        dht_distance (dht_hash key (cr_hash_space ring)) (dn_id n) (cr_hash_space ring) \<le>
        dht_distance (dht_hash key (cr_hash_space ring)) (dn_id m) (cr_hash_space ring))
    else chord_lookup ring key = -1"
proof (cases "\<exists>n \<in> set (cr_nodes ring). dn_active n")
  case True
  let ?s = "cr_hash_space ring" and ?k = "dht_hash key (cr_hash_space ring)"
  let ?f = "node_distance ?s ?k"
  have k: "0 \<le> ?k" "?k < ?s" using assms(1) by (simp_all add: dht_hash_def)
  have f: "dn_active n \<Longrightarrow> n \<in> set (cr_nodes ring) \<Longrightarrow> ?f n = Some (dht_distance ?k (dn_id n) ?s)" for n
    using clockwise [OF k] assms(2) by (simp add: node_distance_def)
  obtain a where a: "a \<in> set (cr_nodes ring)" "dn_active a" using True by blast
  have "dht_distance ?k (dn_id a) ?s < ?s + 1" using assms(2) a k by (auto simp: dht_distance_def)
  then obtain n where n: "nearest ?f (?s + 1) (cr_nodes ring) = Some n"
    using nearest_NoneD [where f = ?f, OF _ a(1) f [OF a(2,1)], of "?s + 1"] by (cases "nearest ?f (?s + 1) (cr_nodes ring)") auto
  from n obtain d where d: "n \<in> set (cr_nodes ring)" "?f n = Some d"
    "\<And>y e. y \<in> set (cr_nodes ring) \<Longrightarrow> ?f y = Some e \<Longrightarrow> d \<le> e" by (rule nearest_SomeD) blast
  have act: "dn_active n" using d(2) by (auto simp: node_distance_def split: if_splits)
  have "chord_lookup ring key = dn_id n"
    using n scan_nearest_nearest [of "cr_nodes ring" ?f "?s + 1"]
    by (auto simp: chord_lookup_def dht_find_successor_def split: option.splits)
  then show ?thesis using True d act f by (metis option.inject)
next
  case False
  let ?f = "node_distance (cr_hash_space ring) (dht_hash key (cr_hash_space ring))"
  have "nearest ?f best (cr_nodes ring) = None" for best
  proof (cases "nearest ?f best (cr_nodes ring)")
    case (Some n)
    then show ?thesis using False by (elim nearest_SomeD) (auto simp: node_distance_def split: if_splits)
  qed
  then have "chord_lookup ring key = -1"
    using scan_nearest_nearest [of "cr_nodes ring" ?f "cr_hash_space ring + 1"]
    by (auto simp: chord_lookup_def dht_find_successor_def split: option.splits)
  then show ?thesis using False by simp
qed

definition example_ring :: ChordRing where
  "example_ring = fst (chord_join (fst (chord_join (fst (chord_join (chord_init 256) 10)) 100)) 200)"

lemma example_ring_nodes:
  "cr_nodes example_ring = map (\<lambda>i. \<lparr>dn_id = i, dn_active = True, dn_keys = []\<rparr>) [10, 100, 200]" "cr_hash_space example_ring = 256"
  by (simp_all add: example_ring_def chord_join_def chord_init_def active_index_def DHT_MAX_NODES_def)

theorem chord_lookup_successor_witness:
  "\<exists>n \<in> set (cr_nodes example_ring). dn_active n \<and> chord_lookup example_ring 7 = dn_id n \<and>
    (\<forall>m \<in> set (cr_nodes example_ring). dn_active m \<longrightarrow>
      dht_distance (dht_hash 7 256) (dn_id n) 256 \<le> dht_distance (dht_hash 7 256) (dn_id m) 256)"
  using chord_lookup_successor [of example_ring 7] by (simp add: example_ring_nodes split: if_splits)

text \<open>
  A node that leaves hands its keys to the first active node of the array, not to its successor: after node 100 has left,
  the key it stored is looked up on node 200 but kept by node 10.
\<close>

lemma chord_leave_wrong_heir:
  "chord_lookup example_ring 2 = 100"
  "chord_lookup (fst (chord_leave (chord_store example_ring 100 2) 100)) 2 = 200"
  "\<not> chord_has_key (fst (chord_leave (chord_store example_ring 100 2) 100)) 200 2"
  "chord_has_key (fst (chord_leave (chord_store example_ring 100 2) 100)) 10 2"
  by code_simp+

text \<open>The starts of the fingers are positions, but they are hashed again before the lookup.\<close>

lemma chord_finger_hashed_twice:
  "fe_start (cr_finger_table example_ring ! 0 ! 0) = 11" "fe_node_id (cr_finger_table example_ring ! 0 ! 0) = 200"
  "dht_find_successor example_ring 11 = Some 1"
  by code_simp+

end
