(* ===== verification/LeaderElection.thy ===== *)
theory LeaderElection
  imports Net_Prelude
begin

text \<open>
  Leader election (\<open>mini-dist-system-theory/src/leader_election.c\<close>): the bully, ring and timeout algorithms over a network
  with one message queue. The circular queue of 64 cells, one of which stays empty, is the list of its waiting messages.
  Node numbers in messages are \<open>int\<close> as in the source; they index the node array. The results of \<open>rand\<close> are taken from
  \<open>le_rands\<close>. The message loop is a partial function, because it need not end.
\<close>

section \<open>Data\<close>

definition LE_MAX_NODES :: nat where "LE_MAX_NODES = 16"
definition LE_MAX_MSG :: nat where "LE_MAX_MSG = 64"

datatype LEMode = LE_BULLY | LE_RING | LE_RAFT_STYLE

datatype LEMsgType = LE_MSG_ELECTION | LE_MSG_ANSWER | LE_MSG_COORDINATOR | LE_MSG_HEARTBEAT

record LENode =
  nd_id :: int
  nd_priority :: int
  nd_is_leader :: bool
  nd_is_active :: bool
  nd_leader_id :: int
  nd_last_heartbeat_ms :: "64 word"
  nd_election_timeout_ms :: "64 word"

record LEMessage =
  lm_type :: LEMsgType
  lm_from :: int
  lm_to :: int
  lm_priority :: int
  lm_candidate_id :: int

record LENetwork =
  le_nodes :: "LENode list"
  le_mode :: LEMode
  le_sim_time_ms :: "64 word"
  le_elected_leader :: int
  le_election_in_progress :: bool
  le_queue :: "LEMessage list"
  le_ring_order :: "int list"
  le_rands :: "nat list"

definition le_node :: "LENetwork \<Rightarrow> int \<Rightarrow> LENode" where
  "le_node net i = le_nodes net ! nat i"

definition le_set :: "int \<Rightarrow> (LENode \<Rightarrow> LENode) \<Rightarrow> LENetwork \<Rightarrow> LENetwork" where
  "le_set i f net = net\<lparr>le_nodes := (le_nodes net)[nat i := f (le_nodes net ! nat i)]\<rparr>"

definition le_enqueue_msg :: "LEMessage \<Rightarrow> LENetwork \<Rightarrow> LENetwork" where
  "le_enqueue_msg msg net = (if length (le_queue net) + 1 = LE_MAX_MSG then net else net\<lparr>le_queue := le_queue net @ [msg]\<rparr>)"

definition le_dequeue_msg :: "LENetwork \<Rightarrow> (LEMessage \<times> LENetwork) option" where
  "le_dequeue_msg net = (case le_queue net of [] \<Rightarrow> None | m # q \<Rightarrow> Some (m, net\<lparr>le_queue := q\<rparr>))"

definition le_next_ring_node :: "LENetwork \<Rightarrow> int \<Rightarrow> int" where
  "le_next_ring_node net node_id =
     (case find_index (\<lambda>x. x = node_id) (take (length (le_nodes net)) (le_ring_order net)) of
        None \<Rightarrow> -1
      | Some i \<Rightarrow> le_ring_order net ! ((i + 1) mod length (le_nodes net)))"

text \<open>A random timeout, and the network with one result of \<open>rand\<close> fewer.\<close>

definition le_draw_timeout :: "LENetwork \<Rightarrow> 64 word \<times> LENetwork" where
  "le_draw_timeout net =
     (case le_rands net of
        [] \<Rightarrow> (150, net)
      | r # rs \<Rightarrow> (150 + of_nat (r mod 151), net\<lparr>le_rands := rs\<rparr>))"

definition le_fresh_node :: "nat list \<Rightarrow> int list option \<Rightarrow> nat \<Rightarrow> LENode" where
  "le_fresh_node rands priorities i =
     \<lparr>nd_id = int i, nd_priority = (case priorities of None \<Rightarrow> int i | Some ps \<Rightarrow> ps ! i), nd_is_leader = False, nd_is_active = True,
      nd_leader_id = -1, nd_last_heartbeat_ms = 0,
      nd_election_timeout_ms = 150 + of_nat ((if i < length rands then rands ! i else 0) mod 151)\<rparr>"

definition le_init_network :: "nat list \<Rightarrow> nat \<Rightarrow> int list option \<Rightarrow> LEMode \<Rightarrow> LENetwork" where
  "le_init_network rands n priorities mode =
     (let n = (if n > LE_MAX_NODES then LE_MAX_NODES else n)
      in \<lparr>le_nodes = map (le_fresh_node rands priorities) [0..<n], le_mode = mode, le_sim_time_ms = 0,
          le_elected_leader = -1, le_election_in_progress = False, le_queue = [],
          le_ring_order = map int [0..<n], le_rands = drop n rands\<rparr>)"

section \<open>Bully algorithm\<close>

definition bully_election_msg :: "LENetwork \<Rightarrow> int \<Rightarrow> int \<Rightarrow> LEMessage" where
  "bully_election_msg net node_id i =
     \<lparr>lm_type = LE_MSG_ELECTION, lm_from = node_id, lm_to = i, lm_priority = nd_priority (le_node net node_id),
      lm_candidate_id = node_id\<rparr>"

definition bully_coordinator_msg :: "LENetwork \<Rightarrow> int \<Rightarrow> int \<Rightarrow> LEMessage" where
  "bully_coordinator_msg net node_id i =
     \<lparr>lm_type = LE_MSG_COORDINATOR, lm_from = node_id, lm_to = i, lm_priority = nd_priority (le_node net node_id),
      lm_candidate_id = node_id\<rparr>"

definition bully_higher :: "LENetwork \<Rightarrow> int \<Rightarrow> int list" where
  "bully_higher net node_id =
     filter (\<lambda>i. i \<noteq> node_id \<and> nd_is_active (le_node net i) \<and> nd_priority (le_node net i) > nd_priority (le_node net node_id))
       (map int [0..<length (le_nodes net)])"

definition le_bully_start_election :: "LENetwork \<Rightarrow> int \<Rightarrow> LENetwork" where
  "le_bully_start_election net0 node_id =
     (let net = net0\<lparr>le_election_in_progress := True\<rparr>;
          hs = bully_higher net node_id;
          net1 = fold (\<lambda>i. le_enqueue_msg (bully_election_msg net node_id i)) hs net
      in if hs \<noteq> [] then net1
         else fold (\<lambda>i. le_enqueue_msg (bully_coordinator_msg net node_id i))
                (filter (\<lambda>i. i \<noteq> node_id) (map int [0..<length (le_nodes net)]))
                (le_set node_id (\<lambda>nd. nd\<lparr>nd_is_leader := True, nd_leader_id := node_id\<rparr>) net1
                   \<lparr>le_elected_leader := node_id, le_election_in_progress := False\<rparr>))"

definition le_bully_handle_election :: "LENetwork \<Rightarrow> LEMessage \<Rightarrow> LENetwork" where
  "le_bully_handle_election net msg =
     (let nd = le_node net (lm_to msg)
      in if \<not> nd_is_active nd then net
         else if nd_priority nd > lm_priority msg
         then le_bully_start_election
                (le_enqueue_msg \<lparr>lm_type = LE_MSG_ANSWER, lm_from = lm_to msg, lm_to = lm_from msg,
                   lm_priority = nd_priority nd, lm_candidate_id = lm_to msg\<rparr> net) (lm_to msg)
         else net)"

definition le_bully_handle_answer :: "LENetwork \<Rightarrow> LEMessage \<Rightarrow> LENetwork" where
  "le_bully_handle_answer net msg = net"

definition le_bully_handle_coordinator :: "LENetwork \<Rightarrow> LEMessage \<Rightarrow> LENetwork" where
  "le_bully_handle_coordinator net msg =
     net\<lparr>le_nodes := map (\<lambda>(i, nd). nd\<lparr>nd_leader_id := lm_candidate_id msg, nd_is_leader := (int i = lm_candidate_id msg)\<rparr>)
           (enumerate 0 (le_nodes net)),
         le_elected_leader := lm_candidate_id msg, le_election_in_progress := False\<rparr>"

section \<open>Ring algorithm\<close>

definition le_ring_start_election :: "LENetwork \<Rightarrow> int \<Rightarrow> LENetwork" where
  "le_ring_start_election net0 node_id =
     (let net = net0\<lparr>le_election_in_progress := True\<rparr>;
          nxt = le_next_ring_node net node_id
      in if nxt < 0 then net
         else le_enqueue_msg \<lparr>lm_type = LE_MSG_ELECTION, lm_from = node_id, lm_to = nxt,
                lm_priority = nd_priority (le_node net node_id), lm_candidate_id = node_id\<rparr> net)"

definition ring_forward :: "LENetwork \<Rightarrow> LEMessage \<Rightarrow> LENetwork" where
  "ring_forward net msg =
     (let nxt = le_next_ring_node net (lm_to msg)
      in if nxt \<ge> 0 then le_enqueue_msg (msg\<lparr>lm_to := nxt, lm_from := lm_to msg\<rparr>) net else net)"

definition le_ring_handle_election :: "LENetwork \<Rightarrow> LEMessage \<Rightarrow> LENetwork" where
  "le_ring_handle_election net msg =
     (let nd = le_node net (lm_to msg)
      in if \<not> nd_is_active nd then ring_forward net msg
         else if lm_priority msg > nd_priority nd then ring_forward net msg
         else if lm_priority msg < nd_priority nd
         then le_enqueue_msg \<lparr>lm_type = LE_MSG_ELECTION, lm_from = lm_to msg, lm_to = le_next_ring_node net (lm_to msg),
                lm_priority = nd_priority nd, lm_candidate_id = lm_to msg\<rparr> net
         else le_enqueue_msg \<lparr>lm_type = LE_MSG_COORDINATOR, lm_from = lm_to msg, lm_to = le_next_ring_node net (lm_to msg),
                lm_priority = nd_priority nd, lm_candidate_id = lm_to msg\<rparr>
                (le_set (lm_to msg) (\<lambda>nd. nd\<lparr>nd_is_leader := True, nd_leader_id := lm_to msg\<rparr>) net
                   \<lparr>le_elected_leader := lm_to msg, le_election_in_progress := False\<rparr>))"

definition le_ring_handle_coordinator :: "LENetwork \<Rightarrow> LEMessage \<Rightarrow> LENetwork" where
  "le_ring_handle_coordinator net msg =
     (if lm_to msg = lm_candidate_id msg then net
      else ring_forward
             (le_set (lm_to msg) (\<lambda>nd. nd\<lparr>nd_leader_id := lm_candidate_id msg, nd_is_leader := False\<rparr>) net
                \<lparr>le_elected_leader := lm_candidate_id msg\<rparr>) msg)"

section \<open>Timeouts\<close>

definition le_raft_election_timeout :: "LENetwork \<Rightarrow> int \<Rightarrow> LENetwork" where
  "le_raft_election_timeout net0 node_id =
     (let net = net0\<lparr>le_election_in_progress := True\<rparr>;
          others = filter (\<lambda>i. i \<noteq> node_id) (map int [0..<length (le_nodes net)]);
          votes = 1 + length (filter (\<lambda>i. \<not> nd_is_active (le_node net i)) others);
          net1 = fold (\<lambda>i. le_enqueue_msg \<lparr>lm_type = LE_MSG_HEARTBEAT, lm_from = node_id, lm_to = i,
                     lm_priority = nd_priority (le_node net node_id), lm_candidate_id = node_id\<rparr>)
                   (filter (\<lambda>i. nd_is_active (le_node net i)) others) net
      in if votes \<ge> length (le_nodes net) div 2 + 1
         then case le_draw_timeout net1 of (timeout, net2) \<Rightarrow>
                le_set node_id (\<lambda>nd. nd\<lparr>nd_is_leader := True, nd_leader_id := node_id, nd_election_timeout_ms := timeout\<rparr>) net2
                  \<lparr>le_elected_leader := node_id, le_election_in_progress := False\<rparr>
         else net1)"

definition le_raft_handle_heartbeat :: "LENetwork \<Rightarrow> LEMessage \<Rightarrow> LENetwork" where
  "le_raft_handle_heartbeat net msg =
     (case le_draw_timeout net of (timeout, net1) \<Rightarrow>
        le_set (lm_to msg) (\<lambda>nd. nd\<lparr>nd_last_heartbeat_ms := le_sim_time_ms net, nd_leader_id := lm_from msg,
            nd_election_timeout_ms := timeout\<rparr>) net1
          \<lparr>le_elected_leader := lm_from msg, le_election_in_progress := False\<rparr>)"

section \<open>The message loop\<close>

definition le_dispatch :: "LEMessage \<Rightarrow> LENetwork \<Rightarrow> LENetwork" where
  "le_dispatch msg net =
     (case le_mode net of
        LE_BULLY \<Rightarrow> (case lm_type msg of
            LE_MSG_ELECTION \<Rightarrow> le_bully_handle_election net msg
          | LE_MSG_ANSWER \<Rightarrow> le_bully_handle_answer net msg
          | LE_MSG_COORDINATOR \<Rightarrow> le_bully_handle_coordinator net msg
          | _ \<Rightarrow> net)
      | LE_RING \<Rightarrow> (case lm_type msg of
            LE_MSG_ELECTION \<Rightarrow> le_ring_handle_election net msg
          | LE_MSG_COORDINATOR \<Rightarrow> le_ring_handle_coordinator net msg
          | _ \<Rightarrow> net)
      | LE_RAFT_STYLE \<Rightarrow> if lm_type msg = LE_MSG_HEARTBEAT then le_raft_handle_heartbeat net msg else net)"

partial_function (option) le_process_messages :: "LENetwork \<Rightarrow> LENetwork option" where
  "le_process_messages net =
     (case le_dequeue_msg net of
        None \<Rightarrow> Some net
      | Some (msg, net1) \<Rightarrow> le_process_messages (le_dispatch msg net1))"

declare le_process_messages.simps [code]

definition le_tick_timeouts :: "LENetwork \<Rightarrow> LENetwork" where
  "le_tick_timeouts net =
     fold (\<lambda>i net. let nd = le_node net i
                   in if \<not> nd_is_active nd \<or> nd_is_leader nd then net
                      else if le_sim_time_ms net - nd_last_heartbeat_ms nd > nd_election_timeout_ms nd
                      then le_raft_election_timeout net i else net)
       (map int [0..<length (le_nodes net)]) net"

definition le_tick :: "LENetwork \<Rightarrow> LENetwork option" where
  "le_tick net0 =
     (let net = net0\<lparr>le_sim_time_ms := le_sim_time_ms net0 + 1\<rparr>;
          net1 = (if le_mode net = LE_RAFT_STYLE then le_tick_timeouts net else net);
          net2 = (if le_elected_leader net1 \<ge> 0 \<and> \<not> le_election_in_progress net1 \<and>
                     \<not> nd_is_active (le_node net1 (le_elected_leader net1))
                  then le_set (le_elected_leader net1) (\<lambda>l. l\<lparr>nd_is_leader := False\<rparr>) net1\<lparr>le_elected_leader := -1\<rparr>
                  else net1)
      in le_process_messages net2)"

section \<open>Queries\<close>

definition le_get_leader :: "LENetwork \<Rightarrow> int" where
  "le_get_leader net = le_elected_leader net"

definition le_is_leader :: "LENetwork \<Rightarrow> int \<Rightarrow> bool" where
  "le_is_leader net node_id =
     (if node_id < 0 \<or> node_id \<ge> int (length (le_nodes net)) then False else nd_is_leader (le_node net node_id))"

definition le_active_count :: "LENetwork \<Rightarrow> nat" where
  "le_active_count net = count_if nd_is_active (le_nodes net)"

definition le_all_agree_leader :: "LENetwork \<Rightarrow> bool" where
  "le_all_agree_leader net =
     (if le_elected_leader net < 0 then False
      else list_all (\<lambda>nd. nd_is_active nd \<longrightarrow> nd_leader_id nd = le_elected_leader net) (le_nodes net))"

section \<open>Queue and nodes\<close>

definition le_tags :: "LENetwork \<Rightarrow> (int \<times> bool) list" where
  "le_tags net = map (\<lambda>nd. (nd_priority nd, nd_is_active nd)) (le_nodes net)"

lemma length_le_tags [simp]: "length (le_tags net) = length (le_nodes net)"
  by (simp add: le_tags_def)

lemma le_node_tag:
  "i < length (le_nodes net) \<Longrightarrow> nd_priority (le_node net (int i)) = fst (le_tags net ! i)"
  "i < length (le_nodes net) \<Longrightarrow> nd_is_active (le_node net (int i)) = snd (le_tags net ! i)"
  by (simp_all add: le_tags_def le_node_def)

lemma le_tags_update [simp]:
  "le_tags (net\<lparr>le_election_in_progress := b\<rparr>) = le_tags net" "le_tags (net\<lparr>le_queue := q\<rparr>) = le_tags net"
  "le_tags (net\<lparr>le_elected_leader := l\<rparr>) = le_tags net" "le_tags (net\<lparr>le_nodes := ns\<rparr>) = map (\<lambda>nd. (nd_priority nd, nd_is_active nd)) ns"
  by (simp_all add: le_tags_def)

lemma le_set_tags:
  assumes "\<And>nd. nd_priority (f nd) = nd_priority nd \<and> nd_is_active (f nd) = nd_is_active nd"
  shows "le_tags (le_set i f net) = le_tags net"
proof (cases "nat i < length (le_nodes net)")
  case True
  then show ?thesis using assms by (intro nth_equalityI) (auto simp: le_set_def le_tags_def nth_list_update)
qed (simp add: le_set_def le_tags_def list_update_beyond)

lemma le_enqueue_many:
  assumes "length (le_queue net) + length ms \<le> 63"
  shows "fold le_enqueue_msg ms net = net\<lparr>le_queue := le_queue net @ ms\<rparr>"
  using assms
proof (induction ms arbitrary: net)
  case (Cons m ms)
  have "le_enqueue_msg m net = net\<lparr>le_queue := le_queue net @ [m]\<rparr>" using Cons.prems by (simp add: le_enqueue_msg_def LE_MAX_MSG_def)
  then show ?case using Cons.IH [of "net\<lparr>le_queue := le_queue net @ [m]\<rparr>"] Cons.prems by simp
qed simp

lemma le_enqueue_map:
  assumes "length (le_queue net) + length xs \<le> 63"
  shows "fold (\<lambda>x. le_enqueue_msg (f x)) xs net = net\<lparr>le_queue := le_queue net @ map f xs\<rparr>"
  using le_enqueue_many [of net "map f xs"] assms by (simp add: fold_map comp_def)

section \<open>The traffic of a bully election\<close>

definition higher_of :: "(int \<times> bool) list \<Rightarrow> nat \<Rightarrow> nat set" where
  "higher_of base i = {j. j < length base \<and> snd (base ! j) \<and> fst (base ! j) > fst (base ! i)}"

text \<open>How many messages an election message to a node with \<open>k\<close> higher ones can cause, itself included.\<close>

definition bully_cost :: "nat \<Rightarrow> nat \<Rightarrow> nat" where
  "bully_cost n k = (if k = 0 then n + 1 else 2 ^ (k - 1) * (n + 3))"

lemma bully_cost_sum: "0 < k \<Longrightarrow> (\<Sum>m<k. bully_cost n m) + 2 = bully_cost n k"
proof (induction k)
  case (Suc k)
  then show ?case by (cases k) (auto simp: bully_cost_def)
qed simp

lemma bully_cost_mono: "i \<le> j \<Longrightarrow> bully_cost n i \<le> bully_cost n j"
proof (cases "i = 0")
  case True
  have "n + 3 \<le> 2 ^ k * (n + 3)" for k :: nat by simp
  then show ?thesis using True by (auto simp: bully_cost_def intro: le_trans [of _ "n + 3"])
next
  case False
  assume "i \<le> j"
  then show ?thesis using False by (auto simp: bully_cost_def intro: power_increasing)
qed

lemma rank_sum:
  fixes p :: "'a \<Rightarrow> int"
  assumes "finite H" and "mono g"
  shows "(\<Sum>j\<in>H. g (card {x \<in> H. p x > p j})) \<le> (\<Sum>m<card H. g m :: nat)"
  using assms(1)
proof (induction "card H" arbitrary: H)
  case (Suc c)
  then have ne: "H \<noteq> {}" by auto
  obtain j where j: "j \<in> H" "\<And>x. x \<in> H \<Longrightarrow> p j \<le> p x" using arg_min_if_finite [OF Suc.prems ne, of p] by (metis not_less)
  let ?H = "H - {j}"
  have c: "card ?H = c" using Suc.hyps(2) j(1) Suc.prems by simp
  have "{x \<in> H. p x > p j} \<subseteq> ?H" by auto
  then have "card {x \<in> H. p x > p j} \<le> c" using card_mono [of ?H] Suc.prems c by force
  then have low: "g (card {x \<in> H. p x > p j}) \<le> g c" using assms(2) by (simp add: monoD)
  have "{x \<in> H. p x > p k} = {x \<in> ?H. p x > p k}" if "k \<in> ?H" for k using j that by (auto simp: not_less) (metis leD)
  then have "(\<Sum>k\<in>?H. g (card {x \<in> H. p x > p k})) = (\<Sum>k\<in>?H. g (card {x \<in> ?H. p x > p k}))" by (intro sum.cong) auto
  also have "\<dots> \<le> (\<Sum>m<c. g m)" using Suc.hyps(1) [of ?H] c Suc.prems by simp
  finally have "(\<Sum>k\<in>?H. g (card {x \<in> H. p x > p k})) \<le> (\<Sum>m<c. g m)" .
  then show ?case using low Suc.hyps(2) sum.remove [OF Suc.prems j(1), of "\<lambda>k. g (card {x \<in> H. p x > p k})"] by (simp flip: Suc.hyps(2))
qed simp

lemma higher_cost:
  assumes "higher_of base i \<noteq> {}"
  shows "(\<Sum>j\<in>higher_of base i. bully_cost n (card (higher_of base j))) + 2 \<le> bully_cost n (card (higher_of base i))"
proof -
  have fin: "finite (higher_of base i)" by (simp add: higher_of_def)
  have "higher_of base j = {x \<in> higher_of base i. fst (base ! x) > fst (base ! j)}" if "j \<in> higher_of base i" for j
    using that by (auto simp: higher_of_def)
  then have "(\<Sum>j\<in>higher_of base i. bully_cost n (card (higher_of base j))) =
      (\<Sum>j\<in>higher_of base i. bully_cost n (card {x \<in> higher_of base i. fst (base ! x) > fst (base ! j)}))"
    by (intro sum.cong) auto
  also have "\<dots> \<le> (\<Sum>m<card (higher_of base i). bully_cost n m)"
    using rank_sum [OF fin, of "bully_cost n" "\<lambda>x. fst (base ! x)"] bully_cost_mono by (simp add: mono_def)
  finally show ?thesis using bully_cost_sum [of "card (higher_of base i)" n] assms fin by (simp add: card_gt_0_iff)
qed

section \<open>The bully election elects a highest node\<close>

definition msg_cost :: "(int \<times> bool) list \<Rightarrow> LEMessage \<Rightarrow> nat" where
  "msg_cost base m =
     (if lm_type m = LE_MSG_ELECTION then bully_cost (length base) (card (higher_of base (nat (lm_to m)))) else 1)"

definition queue_cost :: "(int \<times> bool) list \<Rightarrow> LEMessage list \<Rightarrow> nat" where
  "queue_cost base q = sum_list (map (msg_cost base) q)"

lemma queue_cost_simps [simp]:
  "queue_cost base [] = 0" "queue_cost base (m # q) = msg_cost base m + queue_cost base q"
  "queue_cost base (q @ q') = queue_cost base q + queue_cost base q'"
  by (simp_all add: queue_cost_def)

lemma length_le_queue_cost: "length q \<le> queue_cost base q"
proof (induction q)
  case (Cons m q)
  have "1 \<le> msg_cost base m" by (simp add: msg_cost_def bully_cost_def)
  then show ?case using Cons by simp
qed simp

definition highest :: "(int \<times> bool) list \<Rightarrow> int \<Rightarrow> bool" where
  "highest base l \<longleftrightarrow> 0 \<le> l \<and> nat l < length base \<and> snd (base ! nat l) \<and> higher_of base (nat l) = {}"

definition bully_msg_ok :: "(int \<times> bool) list \<Rightarrow> LEMessage \<Rightarrow> bool" where
  "bully_msg_ok base m \<longleftrightarrow>
     (lm_type m = LE_MSG_ELECTION \<longrightarrow> 0 \<le> lm_to m \<and> nat (lm_to m) < length base \<and> snd (base ! nat (lm_to m)) \<and>
        fst (base ! nat (lm_to m)) > lm_priority m) \<and>
     (lm_type m = LE_MSG_COORDINATOR \<longrightarrow> highest base (lm_candidate_id m))"

definition bully_agreed :: "(int \<times> bool) list \<Rightarrow> LENetwork \<Rightarrow> bool" where
  "bully_agreed base net \<longleftrightarrow> highest base (le_elected_leader net) \<and>
     (\<forall>i<length (le_nodes net). nd_leader_id (le_nodes net ! i) = le_elected_leader net \<and>
        (nd_is_leader (le_nodes net ! i) \<longleftrightarrow> int i = le_elected_leader net))"

definition bully_inv :: "(int \<times> bool) list \<Rightarrow> LENetwork \<Rightarrow> bool" where
  "bully_inv base net \<longleftrightarrow> le_tags net = base \<and> le_mode net = LE_BULLY \<and> (\<forall>m \<in> set (le_queue net). bully_msg_ok base m) \<and>
     queue_cost base (le_queue net) \<le> 63 \<and>
     ((\<exists>m \<in> set (le_queue net). lm_type m = LE_MSG_ELECTION \<or> lm_type m = LE_MSG_COORDINATOR) \<or> bully_agreed base net)"

lemma bully_higher_tags:
  assumes "i < length (le_nodes net)"
  shows "distinct (bully_higher net (int i))" and "set (bully_higher net (int i)) = int ` higher_of (le_tags net) i"
proof -
  show "distinct (bully_higher net (int i))" by (simp add: bully_higher_def distinct_map)
  show "set (bully_higher net (int i)) = int ` higher_of (le_tags net) i"
    using assms by (auto simp: bully_higher_def higher_of_def le_node_tag)
qed

text \<open>The messages that a node sends when it starts an election.\<close>

definition bully_burst :: "LENetwork \<Rightarrow> nat \<Rightarrow> LEMessage list" where
  "bully_burst net i =
     (if bully_higher net (int i) \<noteq> [] then map (bully_election_msg net (int i)) (bully_higher net (int i))
      else map (bully_coordinator_msg net (int i)) (filter (\<lambda>j. j \<noteq> int i) (map int [0..<length (le_nodes net)])))"

lemma bully_start_election_eq:
  assumes "length (le_queue net) + length (bully_burst net i) \<le> 63" and "i < length (le_nodes net)"
  shows "le_queue (le_bully_start_election net (int i)) = le_queue net @ bully_burst net i"
    and "le_tags (le_bully_start_election net (int i)) = le_tags net"
    and "le_mode (le_bully_start_election net (int i)) = le_mode net"
    and "bully_higher net (int i) = [] \<Longrightarrow> le_elected_leader (le_bully_start_election net (int i)) = int i \<and>
      le_nodes (le_bully_start_election net (int i)) = (le_nodes net)[i := (le_nodes net ! i)\<lparr>nd_is_leader := True, nd_leader_id := int i\<rparr>]"
proof -
  let ?net = "net\<lparr>le_election_in_progress := True\<rparr>"
  have same: "bully_higher ?net = bully_higher net" "bully_election_msg ?net = bully_election_msg net"
    "bully_coordinator_msg ?net = bully_coordinator_msg net"
    by (auto simp: fun_eq_iff bully_higher_def bully_election_msg_def bully_coordinator_msg_def le_node_def)
  have tags: "le_tags (le_set (int i) (\<lambda>nd. nd\<lparr>nd_is_leader := True, nd_leader_id := int i\<rparr>) n) = le_tags n" for n
    by (rule le_set_tags) simp
  let ?res = "le_bully_start_election net (int i)"
  have "le_queue ?res = le_queue net @ bully_burst net i \<and> le_tags ?res = le_tags net \<and> le_mode ?res = le_mode net \<and>
    (bully_higher net (int i) = [] \<longrightarrow> le_elected_leader ?res = int i \<and>
      le_nodes ?res = (le_nodes net)[i := (le_nodes net ! i)\<lparr>nd_is_leader := True, nd_leader_id := int i\<rparr>])"
  proof (cases "bully_higher net (int i) = []")
    case True
    define os where "os = filter (\<lambda>j. j \<noteq> int i) (map int [0..<length (le_nodes net)])"
    define n1 where "n1 = le_set (int i) (\<lambda>nd. nd\<lparr>nd_is_leader := True, nd_leader_id := int i\<rparr>)
      ?net\<lparr>le_elected_leader := int i, le_election_in_progress := False\<rparr>"
    have n1: "le_queue n1 = le_queue net" "le_tags n1 = le_tags net" "le_mode n1 = le_mode net" "le_elected_leader n1 = int i"
      "le_nodes n1 = (le_nodes net)[i := (le_nodes net ! i)\<lparr>nd_is_leader := True, nd_leader_id := int i\<rparr>]"
      unfolding n1_def by (simp_all add: tags) (simp_all add: le_set_def)
    have burst: "bully_burst net i = map (bully_coordinator_msg net (int i)) os" by (simp add: bully_burst_def True os_def)
    have "?res = fold (\<lambda>j. le_enqueue_msg (bully_coordinator_msg net (int i) j)) os n1"
      unfolding le_bully_start_election_def Let_def same n1_def os_def by (simp add: True)
    also have "\<dots> = n1\<lparr>le_queue := le_queue n1 @ map (bully_coordinator_msg net (int i)) os\<rparr>"
      using assms(1) burst n1(1) by (intro le_enqueue_map) simp
    finally show ?thesis using n1 burst by simp
  next
    case False
    then show ?thesis
      using assms unfolding le_bully_start_election_def Let_def same bully_burst_def by (simp add: le_enqueue_map)
  qed
  then show "le_queue ?res = le_queue net @ bully_burst net i" "le_tags ?res = le_tags net" "le_mode ?res = le_mode net"
    "bully_higher net (int i) = [] \<Longrightarrow> le_elected_leader ?res = int i \<and>
      le_nodes ?res = (le_nodes net)[i := (le_nodes net ! i)\<lparr>nd_is_leader := True, nd_leader_id := int i\<rparr>]" by auto
qed

lemma bully_burst_cost:
  assumes "i < length (le_nodes net)"
  shows "queue_cost (le_tags net) (bully_burst net i) + 2 \<le> bully_cost (length (le_nodes net)) (card (higher_of (le_tags net) i))"
proof (cases "higher_of (le_tags net) i = {}")
  case True
  then have h: "bully_higher net (int i) = []" using bully_higher_tags(2) [OF assms] by auto
  have "length (filter (\<lambda>j. j \<noteq> int i) (map int [0..<length (le_nodes net)])) = length (le_nodes net) - 1"
  proof -
    have "distinct (filter (\<lambda>j. j \<noteq> int i) (map int [0..<length (le_nodes net)]))" by (simp add: distinct_map)
    moreover have "set (filter (\<lambda>j. j \<noteq> int i) (map int [0..<length (le_nodes net)])) = int ` ({0..<length (le_nodes net)} - {i})"
      by auto
    ultimately show ?thesis using assms distinct_card [symmetric] by (metis (no_types, lifting) card_Diff_singleton
        card_atLeastLessThan card_image finite_atLeastLessThan atLeastLessThan_iff diff_zero inj_on_of_nat zero_le)
  qed
  then have "queue_cost (le_tags net) (bully_burst net i) = length (le_nodes net) - 1"
    by (simp add: bully_burst_def h queue_cost_def msg_cost_def bully_coordinator_msg_def comp_def sum_list_triv)
  then show ?thesis using True assms by (simp add: bully_cost_def)
next
  case False
  then have h: "bully_higher net (int i) \<noteq> []" using bully_higher_tags(2) [OF assms] by auto
  have "queue_cost (le_tags net) (bully_burst net i) =
      sum_list (map (\<lambda>j. bully_cost (length (le_nodes net)) (card (higher_of (le_tags net) (nat j)))) (bully_higher net (int i)))"
    using h by (simp add: bully_burst_def queue_cost_def msg_cost_def bully_election_msg_def comp_def)
  also have "\<dots> = (\<Sum>j \<in> int ` higher_of (le_tags net) i. bully_cost (length (le_nodes net)) (card (higher_of (le_tags net) (nat j))))"
    using bully_higher_tags [OF assms] by (metis sum_list_distinct_conv_sum_set)
  also have "\<dots> = (\<Sum>j \<in> higher_of (le_tags net) i. bully_cost (length (le_nodes net)) (card (higher_of (le_tags net) j)))"
    by (subst sum.reindex) (auto simp: inj_on_def)
  finally show ?thesis using higher_cost [OF False] by simp
qed

lemma bully_burst_ok:
  assumes "i < length (le_nodes net)" and "snd (le_tags net ! i)" and "m \<in> set (bully_burst net i)"
  shows "bully_msg_ok (le_tags net) m"
proof (cases "bully_higher net (int i) = []")
  case True
  then have "highest (le_tags net) (int i)" using bully_higher_tags(2) [OF assms(1)] assms(1,2) by (auto simp: highest_def)
  then show ?thesis using True assms(3) by (auto simp: bully_burst_def bully_coordinator_msg_def bully_msg_ok_def)
next
  case False
  then have "m \<in> bully_election_msg net (int i) ` int ` higher_of (le_tags net) i"
    using assms(3) bully_higher_tags(2) [OF assms(1)] by (auto simp: bully_burst_def)
  then show ?thesis
    using assms(1) by (auto simp: bully_election_msg_def bully_msg_ok_def higher_of_def le_node_tag)
qed

text \<open>A burst announces a leader or asks a higher node, unless the network is a single node that then leads.\<close>

lemma bully_burst_progress:
  assumes "i < length (le_nodes net)" and "snd (le_tags net ! i)" and "length (le_queue net) + length (bully_burst net i) \<le> 63"
  shows "(\<exists>m \<in> set (bully_burst net i). lm_type m = LE_MSG_ELECTION \<or> lm_type m = LE_MSG_COORDINATOR) \<or>
    bully_agreed (le_tags net) (le_bully_start_election net (int i))"
proof (cases "bully_burst net i = []")
  case True
  then have h: "bully_higher net (int i) = []" and o: "\<forall>j<length (le_nodes net). j = i"
    by (auto simp: bully_burst_def filter_empty_conv split: if_splits)
  have "highest (le_tags net) (int i)" using h bully_higher_tags(2) [OF assms(1)] assms(1,2) by (auto simp: highest_def)
  moreover have "length (le_nodes net) = 1" using o [rule_format, of 0] o [rule_format, of 1] assms(1)
    by (cases "length (le_nodes net)"; cases "length (le_nodes net) - 1") auto
  moreover from this have "i = 0" using assms(1) by simp
  ultimately show ?thesis using bully_start_election_eq(4) [OF assms(3,1) h] by (simp add: bully_agreed_def)
next
  case False
  then obtain m where "m \<in> set (bully_burst net i)" by (cases "bully_burst net i") auto
  then show ?thesis by (auto simp: bully_burst_def bully_election_msg_def bully_coordinator_msg_def split: if_splits)
qed

lemma bully_start_inv:
  assumes "le_tags net = base" "le_mode net = LE_BULLY" "\<forall>m \<in> set (le_queue net). bully_msg_ok base m"
    and "i < length base" "snd (base ! i)" and "queue_cost base (le_queue net) + queue_cost base (bully_burst net i) \<le> 63"
  shows "bully_inv base (le_bully_start_election net (int i))"
    and "le_queue (le_bully_start_election net (int i)) = le_queue net @ bully_burst net i"
proof -
  have len: "length (le_queue net) + length (bully_burst net i) \<le> 63"
    using assms(6) length_le_queue_cost [of "le_queue net" base] length_le_queue_cost [of "bully_burst net i" base] by simp
  have i: "i < length (le_nodes net)" "snd (le_tags net ! i)" using assms(1,4,5) length_le_tags by metis+
  note eq = bully_start_election_eq [OF len i(1)]
  show "le_queue (le_bully_start_election net (int i)) = le_queue net @ bully_burst net i" by (rule eq(1))
  show "bully_inv base (le_bully_start_election net (int i))"
    using assms(1,2,3,6) eq(1-3) bully_burst_ok [OF i] bully_burst_progress [OF i len] by (auto simp: bully_inv_def)
qed

lemma bully_dispatch_inv:
  assumes inv: "bully_inv base net" and q: "le_queue net = m # q"
  shows "bully_inv base (le_dispatch m (net\<lparr>le_queue := q\<rparr>)) \<and>
    queue_cost base (le_queue (le_dispatch m (net\<lparr>le_queue := q\<rparr>))) < queue_cost base (le_queue net)"
proof -
  let ?net = "net\<lparr>le_queue := q\<rparr>"
  have base: "le_tags net = base" "le_mode net = LE_BULLY" "length (le_nodes net) = length base"
    using inv by (auto simp: bully_inv_def)
  have ok: "bully_msg_ok base m" "\<forall>x \<in> set q. bully_msg_ok base x" and cost: "queue_cost base (m # q) \<le> 63"
    using inv q by (auto simp: bully_inv_def)
  show ?thesis
  proof (cases "lm_type m")
    case LE_MSG_ELECTION
    define i where "i = nat (lm_to m)"
    have i: "lm_to m = int i" "i < length base" "snd (base ! i)" "fst (base ! i) > lm_priority m"
      using ok(1) LE_MSG_ELECTION by (auto simp: bully_msg_ok_def i_def)
    define ans where "ans = \<lparr>lm_type = LE_MSG_ANSWER, lm_from = lm_to m, lm_to = lm_from m,
      lm_priority = nd_priority (le_node ?net (int i)), lm_candidate_id = lm_to m\<rparr>"
    define n1 where "n1 = net\<lparr>le_queue := q @ [ans]\<rparr>"
    have c: "bully_cost (length base) (card (higher_of base i)) + queue_cost base q \<le> 63"
      using cost LE_MSG_ELECTION i(1) by (simp add: msg_cost_def)
    have b: "queue_cost base (bully_burst n1 i) + 2 \<le> bully_cost (length base) (card (higher_of base i))"
      using bully_burst_cost [of i n1] base i(2) by (simp add: n1_def)
    have a: "msg_cost base ans = 1" by (simp add: msg_cost_def ans_def)
    have n: "nd_is_active (le_node ?net (int i))" "nd_priority (le_node ?net (int i)) > lm_priority m"
      using le_node_tag [of i ?net] base i(2-4) by simp_all
    have "length q + 1 < 64" using c b length_le_queue_cost [of q base] by simp
    then have "le_enqueue_msg ans ?net = n1" by (simp add: le_enqueue_msg_def LE_MAX_MSG_def n1_def)
    then have d: "le_dispatch m ?net = le_bully_start_election n1 (int i)"
      using n LE_MSG_ELECTION base(2) i(1) by (simp add: le_dispatch_def le_bully_handle_election_def ans_def)
    have fit: "queue_cost base (le_queue n1) + queue_cost base (bully_burst n1 i) \<le> 63" using a b c by (simp add: n1_def)
    have "\<forall>x \<in> set (le_queue n1). bully_msg_ok base x" using ok(2) by (auto simp: n1_def bully_msg_ok_def ans_def)
    then have "bully_inv base (le_bully_start_election n1 (int i)) \<and>
        le_queue (le_bully_start_election n1 (int i)) = le_queue n1 @ bully_burst n1 i"
      using bully_start_inv [OF _ _ _ i(2,3) fit] base by (simp add: n1_def)
    then show ?thesis using d a b q LE_MSG_ELECTION i(1) by (simp add: n1_def msg_cost_def)
  next
    case LE_MSG_COORDINATOR
    have tags: "le_tags (le_bully_handle_coordinator ?net m) = base"
    proof (rule nth_equalityI)
      show "length (le_tags (le_bully_handle_coordinator ?net m)) = length base" using base by (simp add: le_bully_handle_coordinator_def)
      show "le_tags (le_bully_handle_coordinator ?net m) ! j = base ! j" if "j < length (le_tags (le_bully_handle_coordinator ?net m))" for j
        using that base(1) by (auto simp: le_bully_handle_coordinator_def le_tags_def nth_enumerate_eq)
    qed
    have "highest base (lm_candidate_id m)" using ok(1) LE_MSG_COORDINATOR by (simp add: bully_msg_ok_def)
    then have "bully_agreed base (le_bully_handle_coordinator ?net m)"
      by (auto simp: bully_agreed_def le_bully_handle_coordinator_def nth_enumerate_eq)
    then show ?thesis
      using LE_MSG_COORDINATOR base(2) ok(2) cost q tags
      by (simp add: le_dispatch_def bully_inv_def msg_cost_def) (simp add: le_bully_handle_coordinator_def)
  next
    case LE_MSG_ANSWER
    then show ?thesis using inv q base(2)
      by (auto simp: le_dispatch_def le_bully_handle_answer_def bully_inv_def msg_cost_def bully_agreed_def)
  next
    case LE_MSG_HEARTBEAT
    then show ?thesis using inv q base(2) by (auto simp: le_dispatch_def bully_inv_def msg_cost_def bully_agreed_def)
  qed
qed

lemma bully_terminates:
  assumes "bully_inv base net"
  shows "\<exists>net'. le_process_messages net = Some net' \<and> bully_inv base net' \<and> le_queue net' = []"
  using assms
proof (induction "queue_cost base (le_queue net)" arbitrary: net rule: less_induct)
  case less
  show ?case
  proof (cases "le_queue net")
    case Nil
    then show ?thesis using less.prems by (subst le_process_messages.simps) (simp add: le_dequeue_msg_def)
  next
    case (Cons m q)
    from bully_dispatch_inv [OF less.prems Cons] less.hyps show ?thesis
      by (subst le_process_messages.simps) (simp add: le_dequeue_msg_def Cons)
  qed
qed

text \<open>
  C28. In a network of at most five nodes, a bully election started by an active node ends, and all nodes then name the same
  active node, of highest priority, as their leader; it alone considers itself leader. (Five nodes send at most 62 messages;
  the queue holds 63.)
\<close>

theorem bully_elects_highest:
  assumes "le_mode net = LE_BULLY" and "le_queue net = []" and "length (le_nodes net) \<le> 5"
    and "s < length (le_nodes net)" and "nd_is_active (le_nodes net ! s)"
  shows "\<exists>net' l. le_process_messages (le_bully_start_election net (int s)) = Some net' \<and> le_queue net' = [] \<and>
    l < length (le_nodes net) \<and> nd_is_active (le_nodes net ! l) \<and>
    (\<forall>j<length (le_nodes net). nd_is_active (le_nodes net ! j) \<longrightarrow> nd_priority (le_nodes net ! j) \<le> nd_priority (le_nodes net ! l)) \<and>
    le_get_leader net' = int l \<and> le_all_agree_leader net' \<and> (\<forall>j<length (le_nodes net). le_is_leader net' (int j) \<longleftrightarrow> j = l)"
proof -
  let ?base = "le_tags net" and ?n = "length (le_nodes net)"
  have sub: "higher_of ?base s \<subseteq> {0..<?n} - {s}" by (auto simp: higher_of_def)
  have "card (higher_of ?base s) \<le> card ({0..<?n} - {s})" by (rule card_mono [OF _ sub]) simp
  then have "card (higher_of ?base s) \<le> 4" using assms(3,4) by simp
  then have "bully_cost ?n (card (higher_of ?base s)) \<le> bully_cost 5 4"
    using bully_cost_mono [of "card (higher_of ?base s)" 4 ?n] assms(3) by (simp add: bully_cost_def)
  then have "queue_cost ?base (bully_burst net s) \<le> 63" using bully_burst_cost [OF assms(4)] by (simp add: bully_cost_def)
  then have "bully_inv ?base (le_bully_start_election net (int s))"
    using assms by (intro bully_start_inv) (simp_all add: le_tags_def)
  then obtain net' where net': "le_process_messages (le_bully_start_election net (int s)) = Some net'"
    "bully_inv ?base net'" "le_queue net' = []" using bully_terminates by blast
  then have ag: "bully_agreed ?base net'" and tags: "le_tags net' = ?base" by (auto simp: bully_inv_def)
  then have len: "length (le_nodes net') = ?n" using length_le_tags by metis
  define l where "l = nat (le_elected_leader net')"
  have l: "le_elected_leader net' = int l" "l < ?n" "snd (?base ! l)" "higher_of ?base l = {}"
    using ag by (auto simp: bully_agreed_def highest_def l_def)
  have "\<forall>j<?n. nd_is_active (le_nodes net ! j) \<longrightarrow> nd_priority (le_nodes net ! j) \<le> nd_priority (le_nodes net ! l)"
  proof (intro allI impI)
    fix j
    assume "j < ?n" "nd_is_active (le_nodes net ! j)"
    moreover have "j \<notin> higher_of ?base l" using l(4) by simp
    ultimately show "nd_priority (le_nodes net ! j) \<le> nd_priority (le_nodes net ! l)"
      using l(2) by (simp add: higher_of_def le_tags_def not_less)
  qed
  moreover have "le_all_agree_leader net'" using ag l(1) by (auto simp: le_all_agree_leader_def bully_agreed_def list_all_length)
  moreover have "\<forall>j<?n. le_is_leader net' (int j) \<longleftrightarrow> j = l"
    using ag l(1) len by (auto simp: le_is_leader_def bully_agreed_def le_node_def)
  ultimately show ?thesis
    using net' l by (intro exI [of _ net'] exI [of _ l]) (simp add: le_get_leader_def le_tags_def)
qed

definition example_net :: "LEMode \<Rightarrow> int list \<Rightarrow> LENetwork" where
  "example_net mode ps = le_init_network [] (length ps) (Some ps) mode"

theorem bully_elects_highest_witness:
  "\<exists>net' l. le_process_messages (le_bully_start_election (example_net LE_BULLY [4, 9, 2]) (int 2)) = Some net' \<and> le_queue net' = [] \<and>
    l < length (le_nodes (example_net LE_BULLY [4, 9, 2])) \<and> nd_is_active (le_nodes (example_net LE_BULLY [4, 9, 2]) ! l) \<and>
    (\<forall>j<length (le_nodes (example_net LE_BULLY [4, 9, 2])). nd_is_active (le_nodes (example_net LE_BULLY [4, 9, 2]) ! j) \<longrightarrow>
      nd_priority (le_nodes (example_net LE_BULLY [4, 9, 2]) ! j) \<le> nd_priority (le_nodes (example_net LE_BULLY [4, 9, 2]) ! l)) \<and>
    le_get_leader net' = int l \<and> le_all_agree_leader net' \<and>
    (\<forall>j<length (le_nodes (example_net LE_BULLY [4, 9, 2])). le_is_leader net' (int j) \<longleftrightarrow> j = l)"
  by (rule bully_elects_highest) (simp_all add: example_net_def le_init_network_def le_fresh_node_def LE_MAX_NODES_def Let_def)

section \<open>The ring election elects the highest node\<close>

definition ring_election :: "LENetwork \<Rightarrow> nat \<Rightarrow> nat \<Rightarrow> int \<Rightarrow> LEMessage" where
  "ring_election net t c from =
     \<lparr>lm_type = LE_MSG_ELECTION, lm_from = from, lm_to = int t, lm_priority = nd_priority (le_nodes net ! c), lm_candidate_id = int c\<rparr>"

definition ring_net :: "LENetwork \<Rightarrow> bool" where
  "ring_net net \<longleftrightarrow> le_mode net = LE_RING \<and> le_ring_order net = map int [0..<length (le_nodes net)] \<and> le_nodes net \<noteq> []"

text \<open>The node of highest priority among active nodes of different priorities.\<close>

definition ring_max :: "LENetwork \<Rightarrow> nat \<Rightarrow> bool" where
  "ring_max net h \<longleftrightarrow> h < length (le_nodes net) \<and> nd_is_active (le_nodes net ! h) \<and>
     (\<forall>i<length (le_nodes net). \<forall>j<length (le_nodes net). nd_is_active (le_nodes net ! i) \<longrightarrow> nd_is_active (le_nodes net ! j) \<longrightarrow>
        i \<noteq> j \<longrightarrow> nd_priority (le_nodes net ! i) \<noteq> nd_priority (le_nodes net ! j)) \<and>
     (\<forall>j<length (le_nodes net). nd_is_active (le_nodes net ! j) \<longrightarrow> nd_priority (le_nodes net ! j) \<le> nd_priority (le_nodes net ! h))"

lemma ring_max_lower:
  assumes "ring_max net h" and "j < length (le_nodes net)" and "nd_is_active (le_nodes net ! j)" and "j \<noteq> h"
  shows "nd_priority (le_nodes net ! j) < nd_priority (le_nodes net ! h)"
proof -
  have "nd_priority (le_nodes net ! j) \<noteq> nd_priority (le_nodes net ! h)" and "nd_priority (le_nodes net ! j) \<le> nd_priority (le_nodes net ! h)"
    using assms unfolding ring_max_def by blast+
  then show ?thesis by simp
qed

lemma ring_next:
  assumes "ring_net net" and "i < length (le_nodes net)"
  shows "le_next_ring_node net (int i) = int ((i + 1) mod length (le_nodes net))"
proof -
  have "find_index (\<lambda>x. x = int i) (map int [0..<length (le_nodes net)]) = Some i"
    using assms(2) by (intro find_index_SomeI) auto
  moreover have "(i + 1) mod length (le_nodes net) < length (le_nodes net)" using assms(2) by (intro mod_less_divisor) auto
  ultimately show ?thesis using assms by (simp add: le_next_ring_node_def ring_net_def)
qed

lemma ring_step:
  assumes "le_queue net = [m]"
  shows "le_process_messages net = le_process_messages (le_dispatch m (net\<lparr>le_queue := []\<rparr>))"
  using assms by (subst le_process_messages.simps) (simp add: le_dequeue_msg_def)

lemma le_enqueue_empty: "le_queue net = [] \<Longrightarrow> le_enqueue_msg m net = net\<lparr>le_queue := [m]\<rparr>"
  by (simp add: le_enqueue_msg_def LE_MAX_MSG_def)

lemma ring_election_step:
  assumes net: "ring_net net" and t: "t < length (le_nodes net)" and "c \<noteq> t"
    and neq: "nd_is_active (le_nodes net ! t) \<Longrightarrow> nd_priority (le_nodes net ! t) \<noteq> nd_priority (le_nodes net ! c)"
  shows "\<exists>from'. le_process_messages (net\<lparr>le_queue := [ring_election net t c from]\<rparr>) =
    le_process_messages (net\<lparr>le_queue := [ring_election net ((t + 1) mod length (le_nodes net))
      (if nd_is_active (le_nodes net ! t) \<and> nd_priority (le_nodes net ! t) > nd_priority (le_nodes net ! c) then t else c) from']\<rparr>)"
proof -
  let ?net = "net\<lparr>le_queue := []\<rparr>"
  have nxt: "le_next_ring_node ?net (int t) = int ((t + 1) mod length (le_nodes net))"
    using ring_next [of ?net t] net t by (simp add: ring_net_def)
  have mode: "le_mode net = LE_RING" using net by (simp add: ring_net_def)
  show ?thesis
    by (subst ring_step, simp, rule exI [of _ "int t"])
      (use neq in \<open>auto simp: le_dispatch_def mode ring_election_def le_ring_handle_election_def Let_def le_node_def
          ring_forward_def nxt le_enqueue_empty\<close>)
qed

lemma ring_offset:
  fixes n :: nat
  assumes "j < n" and "k < n" and "j \<noteq> k"
  shows "(s + j) mod n \<noteq> (s + k) mod n"
proof -
  have "(s + a) mod n \<noteq> (s + b) mod n" if "a < b" "b < n" for a b :: nat
  proof
    assume "(s + a) mod n = (s + b) mod n"
    then have "n dvd (s + b) - (s + a)" using that by (subst mod_eq_dvd_iff_nat [symmetric]) auto
    then show False using that by (simp add: nat_dvd_not_less)
  qed
  then show ?thesis using assms by (metis nat_neq_iff)
qed

lemma ring_away: "h < n \<Longrightarrow> 0 < k \<Longrightarrow> k < n \<Longrightarrow> (h + k) mod n \<noteq> (h :: nat)"
  using ring_offset [of 0 n k h] by simp

lemma ring_phase1:
  assumes net: "ring_net net" and mx: "ring_max net ((s + d) mod length (le_nodes net))"
    and "d < length (le_nodes net)" and "k \<le> d" and "j < k" and "nd_is_active (le_nodes net ! ((s + j) mod length (le_nodes net)))"
  shows "\<exists>from'. le_process_messages (net\<lparr>le_queue := [ring_election net ((s + k) mod length (le_nodes net)) ((s + j) mod length (le_nodes net)) from]\<rparr>) =
    le_process_messages (net\<lparr>le_queue := [ring_election net ((s + d + 1) mod length (le_nodes net)) ((s + d) mod length (le_nodes net)) from']\<rparr>)"
  using assms(4-6)
proof (induction "d - k" arbitrary: k j "from")
  let ?n = "length (le_nodes net)"
  case 0
  then have k: "k = d" by simp
  have pos: "0 < ?n" using assms(3) by auto
  have ne: "(s + j) mod ?n \<noteq> (s + d) mod ?n" using ring_offset [of j ?n d s] 0 k assms(3) by auto
  then have "nd_priority (le_nodes net ! ((s + d) mod ?n)) > nd_priority (le_nodes net ! ((s + j) mod ?n))"
    using ring_max_lower [OF mx, of "(s + j) mod ?n"] 0 pos by (simp add: mod_less_divisor)
  then show ?case
    using ring_election_step [OF net, of "(s + d) mod ?n" "(s + j) mod ?n" "from"] ne mx pos
    by (auto simp: k mod_Suc_eq ring_max_def)
next
  let ?n = "length (le_nodes net)"
  case (Suc x)
  have pos: "0 < ?n" using assms(3) by auto
  have kd: "k < d" using Suc.hyps(2) by simp
  let ?t = "(s + k) mod ?n" and ?c = "(s + j) mod ?n"
  have ne: "?c \<noteq> ?t" using ring_offset [of j ?n k s] Suc.prems kd assms(3) by auto
  define j' where "j' = (if nd_is_active (le_nodes net ! ?t) \<and> nd_priority (le_nodes net ! ?t) > nd_priority (le_nodes net ! ?c) then k else j)"
  have j': "j' < k + 1" "nd_is_active (le_nodes net ! ((s + j') mod ?n))"
    "(if nd_is_active (le_nodes net ! ?t) \<and> nd_priority (le_nodes net ! ?t) > nd_priority (le_nodes net ! ?c) then ?t else ?c) = (s + j') mod ?n"
    using Suc.prems by (auto simp: j'_def)
  have nxt: "(?t + 1) mod ?n = (s + (k + 1)) mod ?n" by (simp add: mod_Suc_eq)
  have neq: "nd_is_active (le_nodes net ! ?t) \<Longrightarrow> nd_priority (le_nodes net ! ?t) \<noteq> nd_priority (le_nodes net ! ?c)"
    using mx ne Suc.prems(3) pos by (simp add: ring_max_def)
  obtain f where "le_process_messages (net\<lparr>le_queue := [ring_election net ?t ?c from]\<rparr>) =
      le_process_messages (net\<lparr>le_queue := [ring_election net ((s + (k + 1)) mod ?n) ((s + j') mod ?n) f]\<rparr>)"
    using ring_election_step [OF net _ ne neq, of "from"] pos unfolding j'(3) nxt by auto
  moreover have "x = d - (k + 1)" using Suc.hyps(2) by simp
  ultimately show ?case using Suc.hyps(1) [of "k + 1" j' f] kd j'(1,2) by auto
qed

lemma ring_phase2:
  assumes net: "ring_net net" and mx: "ring_max net h" and "1 \<le> k" and "k \<le> length (le_nodes net)"
  shows "\<exists>from'. le_process_messages (net\<lparr>le_queue := [ring_election net ((h + k) mod length (le_nodes net)) h from]\<rparr>) =
    le_process_messages (net\<lparr>le_queue := [ring_election net h h from']\<rparr>)"
  using assms(3,4)
proof (induction "length (le_nodes net) - k" arbitrary: k "from")
  case 0
  then have "(h + k) mod length (le_nodes net) = h" using mx by (simp add: ring_max_def)
  then show ?case by auto
next
  let ?n = "length (le_nodes net)"
  case (Suc x)
  let ?t = "(h + k) mod ?n"
  have kn: "k < ?n" and h: "h < ?n" using Suc.hyps(2) mx by (auto simp: ring_max_def)
  have ne: "h \<noteq> ?t" using ring_away [OF h _ kn] Suc.prems by simp
  have t: "?t < ?n" using h by (intro mod_less_divisor) auto
  have low: "nd_is_active (le_nodes net ! ?t) \<Longrightarrow> nd_priority (le_nodes net ! ?t) < nd_priority (le_nodes net ! h)"
    using ring_max_lower [OF mx t] ne by simp
  then have keep: "(if nd_is_active (le_nodes net ! ?t) \<and> nd_priority (le_nodes net ! ?t) > nd_priority (le_nodes net ! h) then ?t else h) = h"
    by auto
  have nxt: "(?t + 1) mod ?n = (h + (k + 1)) mod ?n" by (simp add: mod_Suc_eq)
  obtain f where "le_process_messages (net\<lparr>le_queue := [ring_election net ?t h from]\<rparr>) =
      le_process_messages (net\<lparr>le_queue := [ring_election net ((h + (k + 1)) mod ?n) h f]\<rparr>)"
    using ring_election_step [OF net t ne, of "from"] low [THEN less_imp_neq] unfolding keep nxt by auto
  moreover have "x = ?n - (k + 1)" using Suc.hyps(2) by simp
  ultimately show ?case using Suc.hyps(1) [of "k + 1" f] kn by auto
qed

lemma ring_claim:
  assumes net: "ring_net net" and mx: "ring_max net h"
  shows "\<exists>from' pr. le_process_messages (net\<lparr>le_queue := [ring_election net h h from]\<rparr>) =
    le_process_messages (le_set (int h) (\<lambda>nd. nd\<lparr>nd_is_leader := True, nd_leader_id := int h\<rparr>) net
      \<lparr>le_elected_leader := int h, le_election_in_progress := False,
       le_queue := [\<lparr>lm_type = LE_MSG_COORDINATOR, lm_from = from', lm_to = int ((h + 1) mod length (le_nodes net)), lm_priority = pr,
         lm_candidate_id = int h\<rparr>]\<rparr>)"
proof -
  let ?net = "net\<lparr>le_queue := []\<rparr>"
  have h: "h < length (le_nodes net)" "nd_is_active (le_nodes net ! h)" using mx by (auto simp: ring_max_def)
  have nxt: "le_next_ring_node ?net (int h) = int ((h + 1) mod length (le_nodes net))"
    using ring_next [of ?net h] net h by (simp add: ring_net_def)
  have mode: "le_mode net = LE_RING" using net by (simp add: ring_net_def)
  show ?thesis
    by (subst ring_step, simp, rule exI [of _ "int h"], rule exI [of _ "nd_priority (le_nodes net ! h)"])
      (simp add: le_dispatch_def mode ring_election_def le_ring_handle_election_def Let_def le_node_def nxt h le_set_def le_enqueue_empty)
qed

text \<open>The coordinator message has informed the nodes at distance less than \<open>k\<close> behind the leader.\<close>

definition ring_told :: "nat \<Rightarrow> nat \<Rightarrow> LENetwork \<Rightarrow> bool" where
  "ring_told h k net \<longleftrightarrow> ring_net net \<and> h < length (le_nodes net) \<and> le_elected_leader net = int h \<and>
     (\<forall>j<k. nd_leader_id (le_nodes net ! ((h + j) mod length (le_nodes net))) = int h \<and>
        (nd_is_leader (le_nodes net ! ((h + j) mod length (le_nodes net))) \<longleftrightarrow> (h + j) mod length (le_nodes net) = h))"

lemma ring_phase3:
  assumes "ring_told h k net" and "1 \<le> k" and "k \<le> length (le_nodes net)"
    and "le_queue net = [m]" and "lm_type m = LE_MSG_COORDINATOR" and "lm_candidate_id m = int h"
    and "lm_to m = int ((h + k) mod length (le_nodes net))"
  shows "\<exists>net'. le_process_messages net = Some net' \<and> le_queue net' = [] \<and> le_tags net' = le_tags net \<and>
    ring_told h (length (le_nodes net)) net'"
  using assms
proof (induction "length (le_nodes net) - k" arbitrary: k net m)
  case 0
  have "lm_to m = int h" using 0 by (simp add: ring_told_def)
  moreover have "le_mode net = LE_RING" using 0 by (simp add: ring_told_def ring_net_def)
  ultimately have "le_dispatch m (net\<lparr>le_queue := []\<rparr>) = net\<lparr>le_queue := []\<rparr>"
    using 0 by (simp add: le_dispatch_def le_ring_handle_coordinator_def)
  then have "le_process_messages net = Some (net\<lparr>le_queue := []\<rparr>)"
    using ring_step [OF 0(5)] by (simp add: le_process_messages.simps [of "net\<lparr>le_queue := []\<rparr>"] le_dequeue_msg_def)
  moreover have "k = length (le_nodes net)" using 0 by simp
  ultimately show ?case using 0(2) by (auto simp: ring_told_def ring_net_def)
next
  case (Suc x)
  let ?n = "length (le_nodes net)"
  let ?t = "(h + k) mod ?n"
  have kn: "k < ?n" and h: "h < ?n" using Suc by (auto simp: ring_told_def)
  have t: "?t < ?n" using h by (intro mod_less_divisor) auto
  have ne: "?t \<noteq> h" using ring_away [OF h _ kn] Suc.prems(2) by simp
  have rn: "ring_net net" and mode: "le_mode net = LE_RING" using Suc.prems(1) by (auto simp: ring_told_def ring_net_def)
  define n1 where "n1 = le_set (int ?t) (\<lambda>nd. nd\<lparr>nd_leader_id := int h, nd_is_leader := False\<rparr>) (net\<lparr>le_queue := []\<rparr>)
    \<lparr>le_elected_leader := int h\<rparr>"
  have n1: "length (le_nodes n1) = ?n" "le_queue n1 = []" "ring_net n1" "le_tags n1 = le_tags net"
    using rn le_set_tags by (auto simp: n1_def le_set_def ring_net_def le_tags_def map_update list_update_same_conv t)
  let ?m = "m\<lparr>lm_to := int ((?t + 1) mod ?n), lm_from := int ?t\<rparr>"
  have "le_dispatch m (net\<lparr>le_queue := []\<rparr>) = ring_forward n1 m"
    using Suc.prems mode ne by (simp add: le_dispatch_def le_ring_handle_coordinator_def n1_def le_set_def)
  also have "\<dots> = n1\<lparr>le_queue := [?m]\<rparr>"
    using ring_next [OF n1(3), of ?t] Suc.prems(7) t n1(1,2) by (simp add: ring_forward_def Let_def le_enqueue_empty)
  finally have step: "le_process_messages net = le_process_messages (n1\<lparr>le_queue := [?m]\<rparr>)" using ring_step [OF Suc.prems(4)] by simp
  have nodes: "le_nodes n1 = (le_nodes net)[?t := (le_nodes net ! ?t)\<lparr>nd_leader_id := int h, nd_is_leader := False\<rparr>]"
    by (simp add: n1_def le_set_def)
  have told: "ring_told h (k + 1) (n1\<lparr>le_queue := [?m]\<rparr>)"
    unfolding ring_told_def
  proof (intro conjI allI impI)
    show "ring_net (n1\<lparr>le_queue := [?m]\<rparr>)" using n1(3) by (simp add: ring_net_def)
    show "le_elected_leader (n1\<lparr>le_queue := [?m]\<rparr>) = int h" by (simp add: n1_def le_set_def)
    show "h < length (le_nodes (n1\<lparr>le_queue := [?m]\<rparr>))" using h n1(1) by simp
    fix j
    assume j: "j < k + 1"
    let ?i = "(h + j) mod ?n"
    have "nd_leader_id (le_nodes n1 ! ?i) = int h \<and> (nd_is_leader (le_nodes n1 ! ?i) \<longleftrightarrow> ?i = h)"
    proof (cases "j = k")
      case True
      then show ?thesis using t ne by (simp add: nodes)
    next
      case False
      then have "?i \<noteq> ?t" using ring_offset [of j ?n k h] j kn by simp
      then show ?thesis using Suc.prems(1) j False by (simp add: nodes ring_told_def)
    qed
    then show "nd_leader_id (le_nodes (n1\<lparr>le_queue := [?m]\<rparr>) ! ((h + j) mod length (le_nodes (n1\<lparr>le_queue := [?m]\<rparr>)))) = int h"
      "nd_is_leader (le_nodes (n1\<lparr>le_queue := [?m]\<rparr>) ! ((h + j) mod length (le_nodes (n1\<lparr>le_queue := [?m]\<rparr>)))) =
       ((h + j) mod length (le_nodes (n1\<lparr>le_queue := [?m]\<rparr>)) = h)" using n1(1) by simp_all
  qed
  have "\<exists>net'. le_process_messages (n1\<lparr>le_queue := [?m]\<rparr>) = Some net' \<and> le_queue net' = [] \<and>
      le_tags net' = le_tags (n1\<lparr>le_queue := [?m]\<rparr>) \<and> ring_told h (length (le_nodes (n1\<lparr>le_queue := [?m]\<rparr>))) net'"
    using Suc.prems Suc.hyps(2) kn n1(1) told by (intro Suc.hyps(1) [of _ "k + 1" ?m]) (auto simp: mod_Suc_eq)
  then show ?case using step n1 by simp
qed

text \<open>
  In the ring, with active nodes of different priorities, an election started by an active node ends after the message
  has gone round, and every node then names the active node of highest priority as leader; it alone considers itself leader.
\<close>

theorem ring_elects_highest:
  assumes "ring_net net" and "le_queue net = []" and "ring_max net h"
    and "s < length (le_nodes net)" and "nd_is_active (le_nodes net ! s)"
  shows "\<exists>net'. le_process_messages (le_ring_start_election net (int s)) = Some net' \<and> le_queue net' = [] \<and>
    le_get_leader net' = int h \<and> le_all_agree_leader net' \<and> (\<forall>j<length (le_nodes net). le_is_leader net' (int j) \<longleftrightarrow> j = h)"
proof -
  let ?n = "length (le_nodes net)" and ?net = "net\<lparr>le_election_in_progress := True\<rparr>"
  have h: "h < ?n" using assms(3) by (simp add: ring_max_def)
  have r: "ring_net ?net" "ring_max ?net h" using assms(1,3) by (simp_all add: ring_net_def ring_max_def)
  define d where "d = (h + (?n - s)) mod ?n"
  have d: "d < ?n" using h unfolding d_def by (intro mod_less_divisor) auto
  have sd: "(s + d) mod ?n = h" using h assms(4) by (simp add: d_def mod_add_right_eq)
  have start: "le_ring_start_election net (int s) = ?net\<lparr>le_queue := [ring_election ?net ((s + 1) mod ?n) s (int s)]\<rparr>"
    using ring_next [OF r(1), of s] assms(2,4)
    by (simp add: le_ring_start_election_def Let_def le_enqueue_empty ring_election_def le_node_def)
  have "\<exists>f. le_process_messages (?net\<lparr>le_queue := [ring_election ?net ((s + 1) mod ?n) s (int s)]\<rparr>) =
      le_process_messages (?net\<lparr>le_queue := [ring_election ?net ((h + 1) mod ?n) h f]\<rparr>)"
  proof (cases "d = 0")
    case True
    then show ?thesis using sd assms(4) by auto
  next
    case False
    then show ?thesis
      using ring_phase1 [OF r(1), of s d 1 0 "int s"] r(2) d sd assms(4,5) by (auto simp: mod_Suc_eq)
  qed
  then obtain f where 1: "le_process_messages (le_ring_start_election net (int s)) =
      le_process_messages (?net\<lparr>le_queue := [ring_election ?net ((h + 1) mod ?n) h f]\<rparr>)" using start by auto
  obtain g where 2: "le_process_messages (?net\<lparr>le_queue := [ring_election ?net ((h + 1) mod ?n) h f]\<rparr>) =
      le_process_messages (?net\<lparr>le_queue := [ring_election ?net h h g]\<rparr>)"
    using ring_phase2 [OF r, of 1 f] h by auto
  obtain e pr where 3: "le_process_messages (?net\<lparr>le_queue := [ring_election ?net h h g]\<rparr>) =
      le_process_messages (le_set (int h) (\<lambda>nd. nd\<lparr>nd_is_leader := True, nd_leader_id := int h\<rparr>) ?net
      \<lparr>le_elected_leader := int h, le_election_in_progress := False,
       le_queue := [\<lparr>lm_type = LE_MSG_COORDINATOR, lm_from = e, lm_to = int ((h + 1) mod ?n), lm_priority = pr, lm_candidate_id = int h\<rparr>]\<rparr>)"
    (is "_ = le_process_messages ?claimed") using ring_claim [OF r, of g] by auto
  have "ring_told h 1 ?claimed" using r h by (auto simp: ring_told_def ring_net_def le_set_def)
  then have "\<exists>net'. le_process_messages ?claimed = Some net' \<and> le_queue net' = [] \<and> le_tags net' = le_tags ?claimed \<and>
      ring_told h (length (le_nodes ?claimed)) net'"
    using h by (intro ring_phase3 [where k = 1]) (auto simp: le_set_def)
  then obtain net' where net': "le_process_messages ?claimed = Some net'" "le_queue net' = []" "le_tags net' = le_tags ?claimed"
    "ring_told h ?n net'" by (auto simp: le_set_def)
  then have len: "length (le_nodes net') = ?n" by (metis (no_types, lifting) LENetwork.select_convs(1) LENetwork.surjective
        LENetwork.update_convs(1,4,5,6) le_set_def length_le_tags length_list_update)
  have all: "nd_leader_id (le_nodes net' ! i) = int h \<and> (nd_is_leader (le_nodes net' ! i) \<longleftrightarrow> i = h)" if "i < ?n" for i
  proof -
    have "(h + (i + (?n - h)) mod ?n) mod ?n = i" using that h by (simp add: mod_add_right_eq)
    moreover have "(i + (?n - h)) mod ?n < ?n" using h by (intro mod_less_divisor) auto
    ultimately show ?thesis using net'(4) len by (auto simp: ring_told_def)
  qed
  have "le_elected_leader net' = int h" using net'(4) by (simp add: ring_told_def)
  then show ?thesis
    using 1 2 3 net' all len by (auto simp: le_get_leader_def le_all_agree_leader_def list_all_length le_is_leader_def le_node_def)
qed

theorem ring_elects_highest_witness:
  "\<exists>net'. le_process_messages (le_ring_start_election (example_net LE_RING [4, 9, 2]) (int 2)) = Some net' \<and> le_queue net' = [] \<and>
    le_get_leader net' = int 1 \<and> le_all_agree_leader net' \<and>
    (\<forall>j<length (le_nodes (example_net LE_RING [4, 9, 2])). le_is_leader net' (int j) \<longleftrightarrow> j = 1)"
proof (rule ring_elects_highest)
  have nodes: "le_nodes (example_net LE_RING [4, 9, 2]) = map (le_fresh_node [] (Some [4, 9, 2])) [0, 1, 2]"
    by (simp add: example_net_def le_init_network_def LE_MAX_NODES_def Let_def upt_rec numeral_2_eq_2)
  show "ring_max (example_net LE_RING [4, 9, 2]) 1"
    unfolding ring_max_def nodes by (auto simp: le_fresh_node_def less_Suc_eq numeral_3_eq_3)
qed (simp_all add: example_net_def le_init_network_def le_fresh_node_def ring_net_def LE_MAX_NODES_def Let_def)

section \<open>Elections that go wrong\<close>

text \<open>
  A candidate that fails after it sent its message leaves a message that no active node can beat or answer: the message
  goes round for ever and the message loop does not return.
\<close>

definition dead_candidate :: LENetwork where
  "dead_candidate =
     (let net = le_ring_start_election (example_net LE_RING [9, 4]) 0
      in le_set 0 (\<lambda>nd. nd\<lparr>nd_is_active := False\<rparr>) net)"

lemma ring_dead_candidate_loops: "le_process_messages dead_candidate = None"
proof -
  let ?msg = "\<lambda>from to. \<lparr>lm_type = LE_MSG_ELECTION, lm_from = from, lm_to = to, lm_priority = 9, lm_candidate_id = 0\<rparr>"
  let ?stuck = "\<lambda>net. net = dead_candidate\<lparr>le_queue := [?msg 0 1]\<rparr> \<or> net = dead_candidate\<lparr>le_queue := [?msg 1 0]\<rparr>"
  have d: "dead_candidate =
    \<lparr>le_nodes = [(le_fresh_node [] (Some [9, 4]) 0)\<lparr>nd_is_active := False\<rparr>, le_fresh_node [] (Some [9, 4]) 1], le_mode = LE_RING,
     le_sim_time_ms = 0, le_elected_leader = -1, le_election_in_progress = True, le_queue = [?msg 0 1], le_ring_order = [0, 1], le_rands = []\<rparr>"
    by (simp add: dead_candidate_def example_net_def le_init_network_def LE_MAX_NODES_def LE_MAX_MSG_def Let_def upt_rec
        le_ring_start_election_def le_next_ring_node_def le_enqueue_msg_def le_node_def le_set_def le_fresh_node_def)
  have hop: "le_dispatch (?msg 0 1) (dead_candidate\<lparr>le_queue := []\<rparr>) = dead_candidate\<lparr>le_queue := [?msg 1 0]\<rparr>"
    "le_dispatch (?msg 1 0) (dead_candidate\<lparr>le_queue := []\<rparr>) = dead_candidate\<lparr>le_queue := [?msg 0 1]\<rparr>"
    by (simp_all add: d le_dispatch_def le_ring_handle_election_def le_node_def le_fresh_node_def ring_forward_def
        le_next_ring_node_def le_enqueue_msg_def LE_MAX_MSG_def)
  have deq: "le_dequeue_msg (dead_candidate\<lparr>le_queue := [m]\<rparr>) = Some (m, dead_candidate\<lparr>le_queue := []\<rparr>)" for m
    by (simp add: le_dequeue_msg_def)
  have step: "\<exists>m net1. le_dequeue_msg net = Some (m, net1) \<and> ?stuck (le_dispatch m net1)" if "?stuck net" for net
    using that by (elim disjE) (simp_all add: deq hop)
  have "\<not> ?stuck net" if "le_process_messages net = Some y" for net y
    using that
  proof (rule le_process_messages.raw_induct [where P = "\<lambda>net y. \<not> ?stuck net", rotated])
    fix f net y
    assume ih: "\<And>net y. f net = Some y \<Longrightarrow> \<not> ?stuck net"
      and eq: "(case le_dequeue_msg net of None \<Rightarrow> Some net | Some (msg, net1) \<Rightarrow> f (le_dispatch msg net1)) = Some y"
    show "\<not> ?stuck net"
    proof
      assume "?stuck net"
      from step [OF this] obtain m net1 where m: "le_dequeue_msg net = Some (m, net1)" "?stuck (le_dispatch m net1)" by blast
      with eq have "f (le_dispatch m net1) = Some y" by simp
      from ih [OF this] m(2) show False by blast
    qed
  qed
  moreover have "dead_candidate = dead_candidate\<lparr>le_queue := [?msg 0 1]\<rparr>" by (simp add: d)
  ultimately show ?thesis by (cases "le_process_messages dead_candidate") blast+
qed

text \<open>Two nodes of equal priority: the message of one makes the other leader, although a higher node is active.\<close>

lemma ring_equal_priorities:
  "map_option le_get_leader (le_process_messages (le_ring_start_election (example_net LE_RING [4, 4, 9]) 0)) = Some 1"
  by code_simp

text \<open>The timeout election counts failed nodes as votes, and no active one: three active nodes elect nobody, and with one of them failed the election succeeds.\<close>

lemma raft_style_counts_the_dead:
  defines "kill i \<equiv> le_set i (\<lambda>nd. nd\<lparr>nd_is_active := False\<rparr>)"
  shows "le_is_leader (le_raft_election_timeout (example_net LE_RAFT_STYLE [1, 2, 3]) 0) 0 = False"
    and "le_is_leader (le_raft_election_timeout (kill 1 (example_net LE_RAFT_STYLE [1, 2, 3])) 0) 0 = True"
  unfolding kill_def by code_simp+

end
