(* ===== verification/Bytes.thy ===== *)
theory Bytes
  imports Net_Prelude
begin

unbundle bit_operations_syntax

text \<open>
  Bytes on the wire. A \<open>uint8_t\<close> buffer is a list of 8-bit words; \<open>(uint8_t)(x >> k)\<close> is
  \<open>ucast (drop_bit k x)\<close>. The codecs of the development write and read integers in network order with
  shifts; \<open>be_bytes\<close> and \<open>be_word\<close> are those loops, and the lemmas are their round trips.
\<close>

type_synonym byte = "8 word"

named_theorems byte_simps \<open>explicit shift expressions as network-order bytes\<close>

definition be_bytes :: "nat \<Rightarrow> 'a::len word \<Rightarrow> byte list" where
  "be_bytes n w = map (\<lambda>i. ucast (drop_bit (8 * i) w)) (rev [0..<n])"

definition be_word :: "byte list \<Rightarrow> 'a::len word" where
  "be_word bs = fold (\<lambda>b acc. push_bit 8 acc OR ucast b) bs 0"

lemma length_be_bytes [simp]: "length (be_bytes n w) = n"
  by (simp add: be_bytes_def)

lemma be_bytes_Suc: "be_bytes (Suc n) w = ucast (drop_bit (8 * n) w) # be_bytes n w"
  by (simp add: be_bytes_def)

lemma be_bytes_0 [simp]: "be_bytes 0 w = []"
  by (simp add: be_bytes_def)

lemma be_bytes_explicit [byte_simps]:
  "be_bytes 1 w = [ucast w]"
  "be_bytes 2 w = [ucast (drop_bit 8 w), ucast w]"
  "be_bytes 3 w = [ucast (drop_bit 16 w), ucast (drop_bit 8 w), ucast w]"
  "be_bytes 4 w = [ucast (drop_bit 24 w), ucast (drop_bit 16 w), ucast (drop_bit 8 w), ucast w]"
  by (simp_all add: numeral_eq_Suc be_bytes_Suc)

lemma be_step:
  fixes w acc :: "'a::len word"
  shows "push_bit m (push_bit 8 acc OR ucast (ucast (drop_bit m w) :: byte)) OR take_bit m w =
    push_bit (m + 8) acc OR take_bit (m + 8) w"
  by (rule bit_word_eqI) (auto simp: bit_simps)

lemma be_word_acc:
  fixes w :: "'a::len word"
  shows "fold (\<lambda>b acc. push_bit 8 acc OR ucast b) (be_bytes n w) acc = push_bit (8 * n) acc OR take_bit (8 * n) w"
proof (induction n arbitrary: acc)
  case (Suc n)
  then show ?case using be_step [of "8 * n" acc w] by (simp add: be_bytes_Suc add.commute)
qed simp

lemma be_word_be_bytes: "be_word (be_bytes n w) = take_bit (8 * n) w"
  by (simp add: be_word_def be_word_acc)

lemma take_bit_small:
  fixes w :: "'a::len word"
  assumes "unat w < 2 ^ n"
  shows "take_bit n w = w"
proof -
  have "unat (take_bit n w) = take_bit n (unat w)" by (simp add: unsigned_take_bit_eq)
  also have "\<dots> = unat w" using assms by (simp add: take_bit_nat_eq_self)
  finally show ?thesis by (simp only: word_unat_eq_iff)
qed

lemma be_round_trip: "unat w < 2 ^ (8 * n) \<Longrightarrow> be_word (be_bytes n w) = w"
  by (simp add: be_word_be_bytes take_bit_small)

lemma be_round_trip_full: "LENGTH('a::len) \<le> 8 * n \<Longrightarrow> be_word (be_bytes n w) = (w :: 'a word)"
  by (simp add: be_word_be_bytes take_bit_word_eq_self)

lemma be_word_explicit [byte_simps]:
  "be_word [a] = (ucast a :: 'a::len word)"
  "be_word [a, b] = (push_bit 8 (ucast a) OR ucast b :: 'a::len word)"
  "be_word [a, b, c] = (push_bit 16 (ucast a) OR push_bit 8 (ucast b) OR ucast c :: 'a::len word)"
  "be_word [a, b, c, d] =
     (push_bit 24 (ucast a) OR push_bit 16 (ucast b) OR push_bit 8 (ucast c) OR ucast d :: 'a::len word)"
  by (simp_all add: be_word_def push_bit_or or.assoc)

section \<open>Flags in the top bit of a byte\<close>

lemma byte_masks: "(0x80 :: byte) = push_bit 7 1" "(0x7F :: byte) = mask 7" "(0x0F :: byte) = mask 4"
  by (simp_all add: mask_eq_exp_minus_1)

lemma bit_byte_80: "bit (0x80 :: byte) n \<longleftrightarrow> n = 7"
proof -
  have "bit (push_bit 7 (1 :: byte)) n \<longleftrightarrow> n = 7"
    by (auto simp only: bit_push_bit_iff bit_1_iff possible_bit_word) auto
  then show ?thesis by (simp only: byte_masks(1))
qed

lemma low_byte_bits:
  assumes "unat (b :: byte) < 128" and "bit b n"
  shows "n < 7"
proof -
  have "take_bit 7 b = b" using assms(1) by (intro take_bit_small) simp
  then show ?thesis using assms(2) by (metis bit_take_bit_iff)
qed

lemma bit_flagged: "bit ((if f then 0x80 else 0x00) OR (b :: byte)) n \<longleftrightarrow> f \<and> n = 7 \<or> bit b n"
  by (cases f) (simp_all only: bit_or_iff bit_byte_80 if_True if_False bit_0_eq bot_apply bot_bool_def simp_thms)

lemma top_flag:
  fixes b :: byte
  assumes "unat b < 128"
  shows "((if f then 0x80 else 0x00) OR b) AND 0x80 \<noteq> 0 \<longleftrightarrow> f"
    and "((if f then 0x80 else 0x00) OR b) AND 0x7F = b"
    and "((if f then 0x80 else 0x00) OR b) AND 0x0F = b AND 0x0F"
proof -
  have "bit ((if f then 0x80 else 0x00) OR b) 7 \<longleftrightarrow> f"
    using low_byte_bits [OF assms, of 7] unfolding bit_flagged by blast
  then show "((if f then 0x80 else 0x00) OR b) AND 0x80 \<noteq> 0 \<longleftrightarrow> f"
    unfolding byte_masks(1) by (simp only: bit_iff_and_push_bit_not_eq_0)
  show "((if f then 0x80 else 0x00) OR b) AND 0x7F = b"
    unfolding byte_masks(2)
    by (rule bit_word_eqI) (unfold bit_and_iff bit_mask_iff bit_flagged, use low_byte_bits [OF assms] in auto)
  show "((if f then 0x80 else 0x00) OR b) AND 0x0F = b AND 0x0F"
    unfolding byte_masks(3) by (rule bit_word_eqI) (unfold bit_and_iff bit_mask_iff bit_flagged, auto)
qed

lemma low_nibble: "unat ((b :: byte) AND 0x0F) < 16"
proof -
  have "unat (take_bit 4 b) < 2 ^ 4" by (simp only: unsigned_take_bit_eq take_bit_nat_less_exp)
  then show ?thesis unfolding byte_masks(3) by (simp add: take_bit_eq_mask)
qed

lemma fold_nth_drop:
  assumes "k + n \<le> length xs"
  shows "fold (\<lambda>i. f (xs ! (k + i))) [0..<n] a = fold f (take n (drop k xs)) a"
proof -
  have "map (\<lambda>i. xs ! (k + i)) [0..<n] = take n (drop k xs)"
    using assms by (intro nth_equalityI) auto
  then show ?thesis by (metis (no_types, lifting) comp_apply fold_cong fold_map)
qed

lemma unat_of_nat_small: "n < 2 ^ LENGTH('a) \<Longrightarrow> unat (of_nat n :: 'a::len word) = n"
  by (simp add: unsigned_of_nat take_bit_nat_eq_self)

section \<open>Self-delimiting encodings\<close>

text \<open>
  The contract of an encoding that carries its own length: a decoder started at an encoded value returns it and
  the bytes that follow. Such an encoding is uniquely decodable.
\<close>

locale prefix_codec =
  fixes enc :: "'a \<Rightarrow> byte list" and dec :: "byte list \<Rightarrow> 'e + ('a \<times> byte list)" and ok :: "'a \<Rightarrow> bool"
  assumes round_trip: "ok x \<Longrightarrow> dec (enc x @ rest) = Inr (x, rest)"
begin

lemma unique: "ok x \<Longrightarrow> ok y \<Longrightarrow> enc x @ r = enc y @ s \<longleftrightarrow> x = y \<and> r = s"
  using round_trip [of x r] round_trip [of y s] by (metis Inr_inject prod.inject)

lemma sequence:
  assumes "list_all ok xs" and "list_all ok ys" and "length xs = length ys"
    and "concat (map enc xs) @ r = concat (map enc ys) @ s"
  shows "xs = ys \<and> r = s"
  using assms(3,1,2,4) by (induction xs ys rule: list_induct2) (auto simp: unique)

end

end
