(* ===== verification/WebSocket.thy ===== *)
theory WebSocket
  imports Bytes
begin

unbundle bit_operations_syntax

text \<open>
  WebSocket framing (\<open>mini-app-protocol/src/websocket.c\<close>): length encoding, masking, frame encoder and
  decoder, the text, close, ping and pong helpers, and the Base64 encoder of the handshake.

  A buffer is its list of bytes, \<open>size_t\<close> and \<open>uint64_t\<close> are 64-bit words. The encoder returns the bytes it
  wrote or the negative code; the decoder returns the frame, the number of bytes consumed and the input
  buffer afterwards, because it unmasks the payload in place. A null payload is \<open>None\<close>. The decoder's
  guards against null arguments are not modelled.
\<close>

section \<open>Data\<close>

definition WS_OP_TEXT :: byte where "WS_OP_TEXT = 0x1"
definition WS_OP_CLOSE :: byte where "WS_OP_CLOSE = 0x8"
definition WS_OP_PING :: byte where "WS_OP_PING = 0x9"
definition WS_OP_PONG :: byte where "WS_OP_PONG = 0xA"

record WSFrame =
  ws_fin :: bool
  ws_opcode :: byte
  ws_mask :: bool
  ws_payload_len :: "64 word"
  ws_masking_key :: "byte list"
  ws_payload :: "byte list option"

section \<open>Frames\<close>

definition ws_encode_length :: "64 word \<Rightarrow> bool \<Rightarrow> byte list" where
  "ws_encode_length len masked =
     (let first = (if masked then 0x80 else 0x00 :: byte)
      in if len \<le> 125 then [first OR ucast len]
         else if len \<le> 65535 then [first OR 126, ucast (drop_bit 8 len), ucast len]
         else (first OR 127) # map (\<lambda>i. ucast (drop_bit (i * 8) len)) (rev [0..<8]))"

definition ws_apply_mask :: "byte list \<Rightarrow> byte list \<Rightarrow> byte list" where
  "ws_apply_mask data key = map (\<lambda>i. data ! i XOR key ! (i mod 4)) [0..<length data]"

definition ws_frame_encode :: "WSFrame \<Rightarrow> 64 word \<Rightarrow> int + byte list" where
  "ws_frame_encode frame out_size =
     (let first_byte = (if ws_fin frame then 0x80 else 0x00) OR (ws_opcode frame AND 0x0F);
          len_buf = ws_encode_length (ws_payload_len frame) (ws_mask frame);
          total = 1 + of_nat (length len_buf) + (if ws_mask frame then 4 else 0) + ws_payload_len frame
      in if total > out_size then Inl (-2)
         else let hdr = first_byte # len_buf @ (if ws_mask frame then take 4 (ws_masking_key frame) else []);
                  body = (case ws_payload frame of
                            Some p \<Rightarrow> if ws_payload_len frame > 0
                                      then let d = take (unat (ws_payload_len frame)) p
                                           in if ws_mask frame then ws_apply_mask d (ws_masking_key frame) else d
                                      else []
                          | None \<Rightarrow> [])
              in Inr (hdr @ body))"

text \<open>The extended length: value and position after it, or the error code.\<close>

definition ws_decode_length :: "byte list \<Rightarrow> byte \<Rightarrow> int + (64 word \<times> nat)" where
  "ws_decode_length data len7 =
     (if len7 \<le> 125 then Inr (ucast len7, 2)
      else if len7 = 126
      then if 2 + 2 > length data then Inl (-3)
           else Inr (push_bit 8 (ucast (data ! 2)) OR ucast (data ! 3), 4)
      else if 2 + 8 > length data then Inl (-4)
           else Inr (fold (\<lambda>i acc. push_bit 8 acc OR ucast (data ! (2 + i))) [0..<8] 0, 10))"

definition ws_frame_decode :: "byte list \<Rightarrow> int + (WSFrame \<times> 64 word \<times> byte list)" where
  "ws_frame_decode data =
     (if length data < 2 then Inl (-2)
      else let fin = (data ! 0 AND 0x80 \<noteq> 0); opcode = data ! 0 AND 0x0F;
               masked = (data ! 1 AND 0x80 \<noteq> 0); len7 = data ! 1 AND 0x7F
           in case ws_decode_length data len7 of
                Inl e \<Rightarrow> Inl e
              | Inr (plen, pos1) \<Rightarrow>
                  (if masked \<and> pos1 + 4 > length data then Inl (-5)
                   else let key = (if masked then take 4 (drop pos1 data) else replicate 4 0);
                            pos = (if masked then pos1 + 4 else pos1)
                        in if of_nat pos + plen > (of_nat (length data) :: 64 word) then Inl (-6)
                           else let raw = take (unat plen) (drop pos data);
                                    payload = (if masked \<and> plen > 0 then ws_apply_mask raw key else raw)
                                in Inr (\<lparr>ws_fin = fin, ws_opcode = opcode, ws_mask = masked, ws_payload_len = plen,
                                         ws_masking_key = key, ws_payload = Some payload\<rparr>,
                                        of_nat pos + plen,
                                        take pos data @ payload @ drop (pos + unat plen) data)))"

section \<open>Messages\<close>

text \<open>A C string is the list of its bytes before the terminator, so \<open>strlen\<close> is its length.\<close>

definition ws_send_text :: "byte list \<Rightarrow> 64 word \<Rightarrow> int + byte list" where
  "ws_send_text text out_size =
     ws_frame_encode \<lparr>ws_fin = True, ws_opcode = WS_OP_TEXT, ws_mask = True,
       ws_payload_len = of_nat (length text), ws_masking_key = [0x12, 0x34, 0x56, 0x78],
       ws_payload = Some text\<rparr> out_size"

text \<open>Result: the text copied and the number of bytes read.\<close>

definition ws_recv_text :: "byte list \<Rightarrow> 64 word \<Rightarrow> int + (byte list \<times> 64 word)" where
  "ws_recv_text data text_size =
     (case ws_frame_decode data of
        Inl e \<Rightarrow> Inl e
      | Inr (frame, consumed, _) \<Rightarrow>
          (if ws_opcode frame \<noteq> WS_OP_TEXT \<or> \<not> ws_fin frame then Inl (-10)
           else let copy_len = (if ws_payload_len frame < text_size - 1 then ws_payload_len frame else text_size - 1)
                in Inr (case ws_payload frame of Some p \<Rightarrow> take (unat copy_len) p | None \<Rightarrow> [], consumed)))"

definition ws_send_close :: "16 word \<Rightarrow> byte list option \<Rightarrow> 64 word \<Rightarrow> int + byte list" where
  "ws_send_close code reason out_size =
     (let close_payload = [ucast (drop_bit 8 code), ucast code] @
            (case reason of Some r \<Rightarrow> take (if length r > 124 then 124 else length r) r | None \<Rightarrow> [])
      in ws_frame_encode \<lparr>ws_fin = True, ws_opcode = WS_OP_CLOSE, ws_mask = True,
           ws_payload_len = of_nat (length close_payload), ws_masking_key = [0xAB, 0xCD, 0xEF, 0x01],
           ws_payload = Some close_payload\<rparr> out_size)"

definition ws_send_ping :: "byte list option \<Rightarrow> 64 word \<Rightarrow> int + byte list" where
  "ws_send_ping payload out_size =
     ws_frame_encode \<lparr>ws_fin = True, ws_opcode = WS_OP_PING, ws_mask = True,
       ws_payload_len = (case payload of Some p \<Rightarrow> of_nat (length p) | None \<Rightarrow> 0),
       ws_masking_key = [0x9A, 0xBC, 0xDE, 0xF0], ws_payload = payload\<rparr> out_size"

definition ws_send_pong :: "byte list \<Rightarrow> 64 word \<Rightarrow> int + byte list" where
  "ws_send_pong ping_data out_size =
     ws_frame_encode \<lparr>ws_fin = True, ws_opcode = WS_OP_PONG, ws_mask = True,
       ws_payload_len = of_nat (length ping_data), ws_masking_key = [0x11, 0x22, 0x33, 0x44],
       ws_payload = Some ping_data\<rparr> out_size"

section \<open>Base64\<close>

definition ws_base64_table :: string where
  "ws_base64_table = ''ABCDEFGHIJKLMNOPQRSTUVWXYZabcdefghijklmnopqrstuvwxyz0123456789+/''"

text \<open>
  One output character, \<open>j\<close> counting down from 3. The index test is computed in \<open>size_t\<close>, so that
  \<open>i + (2 - j)\<close> wraps around when \<open>i = 0\<close> and \<open>j = 3\<close>.
\<close>

definition ws_base64_char :: "byte list \<Rightarrow> nat \<Rightarrow> 32 word \<Rightarrow> nat \<Rightarrow> char" where
  "ws_base64_char input i val j =
     (let idx = unat (drop_bit (j * 6) val AND 0x3F)
      in if (of_nat i + (2 - of_nat j) :: 64 word) \<ge> of_nat (length input) then CHR ''=''
         else ws_base64_table ! idx)"

definition ws_base64_group :: "byte list \<Rightarrow> nat \<Rightarrow> 32 word" where
  "ws_base64_group input i =
     (let v0 = push_bit 16 (ucast (input ! i));
          v1 = (if i + 1 < length input then v0 OR push_bit 8 (ucast (input ! (i + 1))) else v0)
      in if i + 2 < length input then v1 OR ucast (input ! (i + 2)) else v1)"

text \<open>\<open>room\<close> is \<open>out_size - 1\<close>, the characters that fit before the terminator.\<close>

function ws_base64_loop :: "byte list \<Rightarrow> nat \<Rightarrow> nat \<Rightarrow> string \<Rightarrow> string" where
  "ws_base64_loop input room i out =
     (if i < length input
      then ws_base64_loop input room (i + 3)
             (fold (\<lambda>j out. if length out \<ge> room then out
                            else out @ [ws_base64_char input i (ws_base64_group input i) j]) [3, 2, 1, 0] out)
      else out)"
  by pat_completeness auto
termination by (relation "measure (\<lambda>(input, room, i, out). length input - i)") auto

definition ws_base64_encode :: "byte list \<Rightarrow> 64 word \<Rightarrow> string" where
  "ws_base64_encode input out_size = ws_base64_loop input (unat (out_size - 1)) 0 []"

section \<open>Masking and lengths\<close>

lemma length_ws_apply_mask [simp]: "length (ws_apply_mask d k) = length d"
  by (simp add: ws_apply_mask_def)

lemma ws_apply_mask_Nil [simp]: "ws_apply_mask [] k = []"
  by (simp add: ws_apply_mask_def)

lemma nth_ws_apply_mask: "i < length d \<Longrightarrow> ws_apply_mask d k ! i = d ! i XOR k ! (i mod 4)"
  by (simp add: ws_apply_mask_def)

text \<open>Masking twice with the same key gives the data back.\<close>

lemma ws_apply_mask_involution: "ws_apply_mask (ws_apply_mask d k) k = d"
  by (rule nth_equalityI) (simp_all add: nth_ws_apply_mask xor.assoc)

lemma length_ws_encode_length:
  "length (ws_encode_length len m) = (if len \<le> 125 then 1 else if len \<le> 65535 then 3 else 9)"
  by (simp add: ws_encode_length_def Let_def)

lemma ws_encode_length_long:
  "\<not> len \<le> 65535 \<Longrightarrow> ws_encode_length len m = ((if m then 0x80 else 0x00) OR 127) # be_bytes 8 len"
proof -
  assume *: "\<not> len \<le> 65535"
  then have "\<not> len \<le> 125" by (auto simp: word_le_nat_alt)
  with * show ?thesis by (simp add: ws_encode_length_def be_bytes_def mult.commute Let_def)
qed

text \<open>Decoding a length that was encoded: the mask flag, the value and the position behind it.\<close>

lemma ws_length_round_trip:
  fixes len :: "64 word"
  assumes data: "data = fb # ws_encode_length len m @ rest"
  shows "data ! 1 AND 0x80 \<noteq> 0 \<longleftrightarrow> m"
    and "ws_decode_length data (data ! 1 AND 0x7F) = Inr (len, 1 + length (ws_encode_length len m))"
proof -
  have "(data ! 1 AND 0x80 \<noteq> 0 \<longleftrightarrow> m) \<and>
      ws_decode_length data (data ! 1 AND 0x7F) = Inr (len, 1 + length (ws_encode_length len m))"
  proof (cases "len \<le> 125")
    case True
    then have u: "unat (ucast len :: byte) = unat len" "unat len \<le> 125"
      by (auto simp: word_le_nat_alt unsigned_ucast_eq take_bit_nat_eq_self)
    then have small: "unat (ucast len :: byte) < 128" by simp
    have d1: "data ! 1 = (if m then 0x80 else 0x00) OR ucast len"
      using True by (simp add: data ws_encode_length_def Let_def)
    have uc: "ucast (ucast len :: byte) = len" using be_round_trip [of len 1] u(2) by (simp add: be_bytes_Suc byte_simps)
    have le: "(ucast len :: byte) \<le> 125" using u by (simp add: word_le_nat_alt)
    show ?thesis
      unfolding d1 top_flag [OF small] using True le uc
      by (simp add: ws_decode_length_def length_ws_encode_length)
  next
    case gt: False
    show ?thesis
    proof (cases "len \<le> 65535")
      case True
      then have buf: "ws_encode_length len m = [(if m then 0x80 else 0x00) OR 126, ucast (drop_bit 8 len), ucast len]"
        using gt by (simp add: ws_encode_length_def Let_def)
      have "unat len < 2 ^ 16" using True by (simp add: word_le_nat_alt)
      then have w: "push_bit 8 (ucast (ucast (drop_bit 8 len) :: byte)) OR ucast (ucast len :: byte) = len"
        using be_round_trip [of len 2] by (simp add: byte_simps)
      have d: "data ! 1 = (if m then 0x80 else 0x00) OR 126" "data ! 2 = ucast (drop_bit 8 len)" "data ! 3 = ucast len"
        "4 \<le> length data" by (simp_all add: data buf)
      have "unat (126 :: byte) < 128" by simp
      note T = top_flag [OF this, of m]
      show ?thesis unfolding d(1) T using w d by (simp add: ws_decode_length_def buf)
    next
      case False
      have buf: "ws_encode_length len m = ((if m then 0x80 else 0x00) OR 127) # be_bytes 8 len"
        using False by (rule ws_encode_length_long)
      have d: "data ! 1 = (if m then 0x80 else 0x00) OR 127" "take 8 (drop 2 data) = be_bytes 8 len" "2 + 8 \<le> length data"
        by (simp_all add: data buf)
      have "fold (\<lambda>i acc. push_bit 8 acc OR ucast (data ! (2 + i))) [0..<8] 0 = (be_word (be_bytes 8 len) :: 64 word)"
        using fold_nth_drop [OF d(3), of "\<lambda>b acc. push_bit 8 acc OR ucast b"] unfolding d(2) be_word_def .
      also have "\<dots> = len" by (rule be_round_trip_full) simp
      finally have f: "fold (\<lambda>i acc. push_bit 8 acc OR ucast (data ! (2 + i))) [0..<8] 0 = len" .
      have "unat (127 :: byte) < 128" by simp
      note T = top_flag [OF this, of m]
      show ?thesis unfolding d(1) T using f d(3) by (simp add: ws_decode_length_def buf)
    qed
  qed
  then show "data ! 1 AND 0x80 \<noteq> 0 \<longleftrightarrow> m"
    and "ws_decode_length data (data ! 1 AND 0x7F) = Inr (len, 1 + length (ws_encode_length len m))" by auto
qed

section \<open>Frame round trip\<close>

text \<open>A frame whose payload has the announced length, with a key of four bytes and no arithmetic overflow.\<close>

definition ws_frame_ok :: "WSFrame \<Rightarrow> byte list \<Rightarrow> bool" where
  "ws_frame_ok f p \<longleftrightarrow> ws_payload f = Some p \<and> unat (ws_payload_len f) = length p \<and>
     length (ws_masking_key f) = 4 \<and> unat (ws_opcode f) < 16"

definition ws_header :: "WSFrame \<Rightarrow> byte list" where
  "ws_header f = ((if ws_fin f then 0x80 else 0x00) OR (ws_opcode f AND 0x0F)) #
     ws_encode_length (ws_payload_len f) (ws_mask f) @ (if ws_mask f then ws_masking_key f else [])"

definition ws_body :: "WSFrame \<Rightarrow> byte list \<Rightarrow> byte list" where
  "ws_body f p = (if ws_mask f then ws_apply_mask p (ws_masking_key f) else p)"

lemma length_ws_body [simp]: "length (ws_body f p) = length p"
  by (simp add: ws_body_def)

lemma ws_frame_encode_eq:
  assumes "ws_frame_ok f p" and "ws_frame_encode f out_size = Inr bs"
  shows "bs = ws_header f @ ws_body f p"
proof -
  have z: "ws_payload_len f = 0 \<Longrightarrow> p = []" using assms(1) by (auto simp: ws_frame_ok_def)
  have nz: "ws_payload_len f \<noteq> 0 \<Longrightarrow> 0 < ws_payload_len f" by (simp add: word_gt_0)
  show ?thesis
  proof (cases "ws_payload_len f = 0")
    case True
    then show ?thesis using assms z
      by (auto simp: ws_frame_encode_def ws_frame_ok_def ws_header_def ws_body_def Let_def ws_apply_mask_def split: if_splits)
  next
    case False
    then show ?thesis using assms nz
      by (auto simp: ws_frame_encode_def ws_frame_ok_def ws_header_def ws_body_def Let_def split: if_splits)
  qed
qed

lemma opcode_nibble: "unat (b :: byte) < 16 \<Longrightarrow> b AND 0x0F = b"
  unfolding byte_masks(3) by (simp add: take_bit_eq_mask [symmetric] take_bit_small)

lemma ws_frame_decode_eq:
  assumes ok: "ws_frame_ok f p" and data: "data = ws_header f @ ws_body f p @ rest"
    and len: "length data < 2 ^ 64"
  shows "ws_frame_decode data =
    Inr (f\<lparr>ws_masking_key := if ws_mask f then ws_masking_key f else replicate 4 0\<rparr>,
         of_nat (length (ws_header f) + length p), ws_header f @ p @ rest)"
proof -
  let ?lb = "ws_encode_length (ws_payload_len f) (ws_mask f)" and ?h = "length (ws_header f)"
  let ?fb = "(if ws_fin f then 0x80 else 0x00) OR (ws_opcode f AND 0x0F)"
  have op: "unat (ws_opcode f AND 0x0F) < 128" using low_nibble [of "ws_opcode f"] by simp
  have d: "data = ?fb # ?lb @ ((if ws_mask f then ws_masking_key f else []) @ ws_body f p @ rest)"
    by (simp add: data ws_header_def)
  note L = ws_length_round_trip [OF d]
  have d0: "data ! 0 = ?fb" by (simp add: d)
  have opc: "ws_opcode f AND 0x0F AND 0x0F = ws_opcode f"
    using ok opcode_nibble [of "ws_opcode f"] by (simp add: ws_frame_ok_def)
  have len2: "\<not> length data < 2" by (simp add: d length_ws_encode_length)
  have key: "ws_mask f \<Longrightarrow> take 4 (drop (1 + length ?lb) data) = ws_masking_key f"
    using ok by (simp add: d ws_frame_ok_def)
  have hl: "?h = 1 + length ?lb + (if ws_mask f then 4 else 0)" using ok by (simp add: ws_header_def ws_frame_ok_def)
  have fits: "?h + length p \<le> length data" by (simp add: data)
  have plen: "unat (ws_payload_len f) = length p" using ok by (simp add: ws_frame_ok_def)
  have sum: "of_nat ?h + ws_payload_len f = (of_nat (?h + length p) :: 64 word)"
    by (simp add: plen [symmetric])
  have "unat (of_nat (?h + length p) :: 64 word) = ?h + length p" "unat (of_nat (length data) :: 64 word) = length data"
    using fits len by (simp_all only: unat_of_nat) simp_all
  then have le: "\<not> (of_nat ?h + ws_payload_len f > (of_nat (length data) :: 64 word))"
    using fits by (simp only: sum word_less_nat_alt not_less)
  have raw: "take (length p) (drop ?h data) = ws_body f p" "take ?h data = ws_header f"
    "drop (?h + length p) data = rest" by (simp_all add: data)
  have body: "(if ws_mask f \<and> ws_payload_len f > 0 then ws_apply_mask (ws_body f p) (ws_masking_key f) else ws_body f p) = p"
    using plen by (cases "ws_mask f") (auto simp: ws_body_def ws_apply_mask_involution word_gt_0)
  have room: "ws_mask f \<Longrightarrow> \<not> length data < 1 + length ?lb + 4" using fits hl by simp
  show ?thesis
  proof (cases "ws_mask f")
    case True
    then show ?thesis
      using L room key hl le raw body plen opc len2 ok sum
      unfolding ws_frame_decode_def d0 top_flag [OF op]
      by (cases f) (auto simp: Let_def ws_frame_ok_def split: if_splits)
  next
    case False
    then show ?thesis
      using L hl le raw body plen opc len2 ok sum
      unfolding ws_frame_decode_def d0 top_flag [OF op]
      by (simp add: Let_def ws_frame_ok_def)
  qed
qed

section \<open>Base64 against a reference\<close>

text \<open>Base64 as RFC 4648 defines it: three bytes give four characters, the last group is padded.\<close>

definition b64 :: "32 word \<Rightarrow> nat \<Rightarrow> char" where
  "b64 v j = ws_base64_table ! unat (drop_bit (j * 6) v AND 0x3F)"

fun base64 :: "byte list \<Rightarrow> string" where
  "base64 [] = []"
| "base64 [a] = (let v = push_bit 16 (ucast a) in [b64 v 3, b64 v 2, CHR ''='', CHR ''=''])"
| "base64 [a, b] = (let v = push_bit 16 (ucast a) OR push_bit 8 (ucast b) in [b64 v 3, b64 v 2, b64 v 1, CHR ''=''])"
| "base64 (a # b # c # r) =
     (let v = push_bit 16 (ucast a) OR push_bit 8 (ucast b) OR ucast c in [b64 v 3, b64 v 2, b64 v 1, b64 v 0] @ base64 r)"

text \<open>What the loop emits for the group at \<open>i\<close>, the wrap-around of the first index made visible.\<close>

lemma ws_base64_char_eq:
  assumes "i + 3 < 2 ^ 64" and "length input < 2 ^ 64" and "i < length input"
  shows "ws_base64_char input i v 3 = (if i = 0 then CHR ''='' else b64 v 3)"
    and "ws_base64_char input i v 2 = b64 v 2"
    and "ws_base64_char input i v 1 = (if i + 1 < length input then b64 v 1 else CHR ''='')"
    and "ws_base64_char input i v 0 = (if i + 2 < length input then b64 v 0 else CHR ''='')"
proof -
  have le: "(of_nat k :: 64 word) \<ge> of_nat (length input) \<longleftrightarrow> k \<ge> length input" if "k < 2 ^ 64" for k
    using that assms(2) by (simp add: word_le_nat_alt unat_of_nat)
  have "(of_nat i + (2 - of_nat 3) :: 64 word) \<ge> of_nat (length input) \<longleftrightarrow> i = 0"
  proof (cases "i = 0")
    case True
    have "(of_nat (length input) :: 64 word) \<le> -1" by (simp add: word_order.extremum)
    then show ?thesis using True by simp
  next
    case False
    then have "(of_nat i + (2 - of_nat 3) :: 64 word) = of_nat (i - 1)" by (simp add: of_nat_diff)
    then show ?thesis using False le [of "i - 1"] assms(1,3) by simp
  qed
  then show "ws_base64_char input i v 3 = (if i = 0 then CHR ''='' else b64 v 3)"
    by (simp add: ws_base64_char_def b64_def Let_def)
  show "ws_base64_char input i v 2 = b64 v 2"
    using le [of i] assms by (simp add: ws_base64_char_def b64_def Let_def)
  have e: "(of_nat i + (2 - of_nat 1) :: 64 word) = of_nat (i + 1)" "(of_nat i + (2 - of_nat 0) :: 64 word) = of_nat (i + 2)"
    by simp_all
  have l: "i + 1 < 2 ^ 64" "i + 2 < 2 ^ 64" using assms(1) by simp_all
  show "ws_base64_char input i v 1 = (if i + 1 < length input then b64 v 1 else CHR ''='')"
    unfolding ws_base64_char_def b64_def Let_def e(1) le [OF l(1)] by auto
  show "ws_base64_char input i v 0 = (if i + 2 < length input then b64 v 0 else CHR ''='')"
    unfolding ws_base64_char_def b64_def Let_def e(2) le [OF l(2)] by auto
qed

lemma base64_group:
  assumes "i < length input" and "v = ws_base64_group input i"
  shows "base64 (drop i input) =
    [b64 v 3, b64 v 2, if i + 1 < length input then b64 v 1 else CHR ''='',
     if i + 2 < length input then b64 v 0 else CHR ''=''] @ base64 (drop (i + 3) input)"
proof -
  have d0: "drop i input = input ! i # drop (i + 1) input" using assms(1) by (simp add: Cons_nth_drop_Suc)
  show ?thesis
  proof (cases "i + 1 < length input")
    case False
    then have "drop (i + 1) input = []" "drop (i + 3) input = []" by simp_all
    then show ?thesis using False assms(2) d0 by (simp add: ws_base64_group_def Let_def)
  next
    case True
    then have d1: "drop (i + 1) input = input ! (i + 1) # drop (i + 2) input" by (simp add: Cons_nth_drop_Suc)
    show ?thesis
    proof (cases "i + 2 < length input")
      case False
      then have "drop (i + 2) input = []" "drop (i + 3) input = []" by simp_all
      then show ?thesis using False True assms(2) d0 d1 by (simp add: ws_base64_group_def Let_def)
    next
      case last: True
      then have d2: "drop (i + 2) input = input ! (i + 2) # drop (i + 3) input"
        by (simp add: Cons_nth_drop_Suc numeral_3_eq_3)
      show ?thesis unfolding d0 d1 d2 using True last assms(2)
        by (simp add: ws_base64_group_def Let_def or.assoc)
    qed
  qed
qed

text \<open>One round of the outer loop when the four characters fit.\<close>

lemma ws_base64_round:
  assumes "length out + 4 \<le> room"
  shows "fold (\<lambda>j out. if length out \<ge> room then out else out @ [ws_base64_char input i v j]) [3, 2, 1, 0] out =
    out @ [ws_base64_char input i v 3, ws_base64_char input i v 2, ws_base64_char input i v 1, ws_base64_char input i v 0]"
  using assms by simp

lemma ws_base64_loop_tail:
  assumes "0 < i" and "length input + 3 < 2 ^ 64" and "length out + length (base64 (drop i input)) \<le> room"
  shows "ws_base64_loop input room i out = out @ base64 (drop i input)"
  using assms
proof (induction input room i out rule: ws_base64_loop.induct)
  case (1 input room i out)
  show ?case
  proof (cases "i < length input")
    case False
    then show ?thesis by simp
  next
    case True
    let ?v = "ws_base64_group input i"
    note g = base64_group [OF True refl]
    have b: "i + 3 < 2 ^ 64" "length input < 2 ^ 64" using True 1(3) by simp_all
    note c = ws_base64_char_eq [OF b True, of ?v]
    have room: "length out + 4 \<le> room" using 1(4) g by simp
    let ?out = "out @ [ws_base64_char input i ?v 3, ws_base64_char input i ?v 2, ws_base64_char input i ?v 1, ws_base64_char input i ?v 0]"
    have r: "ws_base64_loop input room i out = ws_base64_loop input room (i + 3) ?out"
      using True ws_base64_round [OF room, of input i ?v] by (subst ws_base64_loop.simps) simp
    also have "\<dots> = ?out @ base64 (drop (i + 3) input)"
    proof -
      have "ws_base64_loop input room (i + 3) (fold (\<lambda>j out. if length out \<ge> room then out
          else out @ [ws_base64_char input i ?v j]) [3, 2, 1, 0] out) =
        fold (\<lambda>j out. if length out \<ge> room then out else out @ [ws_base64_char input i ?v j]) [3, 2, 1, 0] out @
        base64 (drop (i + 3) input)"
        using 1(3,4) g unfolding ws_base64_round [OF room] by (intro 1(1) [OF True, unfolded ws_base64_round [OF room]]) auto
      then show ?thesis unfolding ws_base64_round [OF room] .
    qed
    also have "\<dots> = out @ base64 (drop i input)" unfolding g c using 1(2) by simp
    finally show ?thesis .
  qed
qed

section \<open>Findings\<close>

text \<open>
  The length check of the decoder wraps around: a header that announces \<open>2^64 - 10\<close> payload bytes passes it
  with no payload present, and zero bytes count as consumed.
\<close>

definition ws_huge :: "byte list" where
  "ws_huge = [0x82, 0x7F, 0xFF, 0xFF, 0xFF, 0xFF, 0xFF, 0xFF, 0xFF, 0xF6]"

lemma ws_decode_length_overflow:
  "case ws_frame_decode ws_huge of
     Inr (f, consumed, _) \<Rightarrow> ws_payload_len f = 0xFFFFFFFFFFFFFFF6 \<and> consumed = 0 | Inl _ \<Rightarrow> False"
proof -
  have l: "ws_decode_length ws_huge (ws_huge ! 1 AND 0x7F) = Inr (0xFFFFFFFFFFFFFFF6, 10)" by code_simp
  have d: "length ws_huge = 10" "\<not> ws_huge ! 1 AND 0x80 \<noteq> 0" by (simp_all add: ws_huge_def)
  have w: "(of_nat 10 + 0xFFFFFFFFFFFFFFF6 :: 64 word) = 0" by simp
  show ?thesis using l d w by (simp add: ws_frame_decode_def Let_def)
qed

text \<open>
  The decoder unmasks the caller's read-only buffer in place, so that decoding the same bytes again gives
  the masked payload.
\<close>

lemma ws_decode_twice:
  "case ws_frame_decode [0x81, 0x82, 1, 2, 3, 4, 0x49, 0x6B] of
     Inr (f, _, data') \<Rightarrow> ws_payload f = Some [0x48, 0x69] \<and>
       (case ws_frame_decode data' of Inr (f2, _, _) \<Rightarrow> ws_payload f2 = Some [0x49, 0x6B] | Inl _ \<Rightarrow> False)
   | Inl _ \<Rightarrow> False"
  by code_simp

section \<open>Properties\<close>

text \<open>
  Frame round trip: whatever follows it in the buffer, an encoded frame decodes to the same frame, with
  exactly its own bytes consumed: final flag, opcode, mask flag, length and payload are recovered for the
  three length formats, masked or not (the key of an unmasked frame comes back as zeros). The payload must
  have the announced length, the key four bytes and the opcode four bits, and the buffer be shorter than
  \<open>2^64\<close>.
\<close>

theorem ws_frame_round_trip:
  assumes "ws_frame_ok f p" and "ws_frame_encode f out_size = Inr bs" and "length (bs @ rest) < 2 ^ 64"
  shows "\<exists>data'. ws_frame_decode (bs @ rest) =
    Inr (f\<lparr>ws_masking_key := if ws_mask f then ws_masking_key f else replicate 4 0\<rparr>, of_nat (length bs), data')"
proof -
  have bs: "bs = ws_header f @ ws_body f p" by (rule ws_frame_encode_eq [OF assms(1,2)])
  then have "bs @ rest = ws_header f @ ws_body f p @ rest" by simp
  from ws_frame_decode_eq [OF assms(1) this assms(3)] show ?thesis by (simp add: bs)
qed

theorem ws_frame_round_trip_witness:
  "\<exists>data'. ws_frame_decode ([0x82, 0x83, 9, 8, 7, 6, 8, 10, 4] @ [0xFF]) =
    Inr (\<lparr>ws_fin = True, ws_opcode = 2, ws_mask = True, ws_payload_len = 3, ws_masking_key = [9, 8, 7, 6],
          ws_payload = Some [1, 2, 3]\<rparr>, 9, data')"
proof -
  let ?f = "\<lparr>ws_fin = True, ws_opcode = 2, ws_mask = True, ws_payload_len = 3, ws_masking_key = [9, 8, 7, 6],
          ws_payload = Some [1, 2, 3]\<rparr>"
  have "ws_frame_ok ?f [1, 2, 3]" by (simp add: ws_frame_ok_def)
  moreover have "ws_frame_encode ?f 100 = Inr [0x82, 0x83, 9, 8, 7, 6, 8, 10, 4]" by code_simp
  moreover have "length ([0x82, 0x83, 9, 8, 7, 6, 8, 10, 4] @ [0xFF :: byte]) < 2 ^ 64" by simp
  ultimately have "\<exists>data'. ws_frame_decode ([0x82, 0x83, 9, 8, 7, 6, 8, 10, 4] @ [0xFF]) =
      Inr (?f\<lparr>ws_masking_key := if ws_mask ?f then ws_masking_key ?f else replicate 4 0\<rparr>,
        of_nat (length [0x82, 0x83, 9, 8, 7, 6, 8, 10, 4 :: byte]), data')"
    by (rule ws_frame_round_trip)
  then show ?thesis by simp
qed

text \<open>
  The Base64 encoder of the handshake differs from RFC 4648 in its first character: the index test
  wraps around for the first group, so that whenever the output fits it is the standard encoding with
  its first character replaced by an equals sign.
\<close>

theorem ws_base64_first_char:
  assumes "input \<noteq> []" and "length input + 3 < 2 ^ 64" and "length (base64 input) \<le> unat (out_size - 1)"
  shows "ws_base64_encode input out_size = CHR ''='' # tl (base64 input)"
proof -
  let ?v = "ws_base64_group input 0" and ?room = "unat (out_size - 1)"
  have pos: "0 < length input" using assms(1) by simp
  note g = base64_group [OF pos refl]
  note c = ws_base64_char_eq [OF _ _ pos, of ?v]
  have room: "length [] + 4 \<le> ?room" using assms(3) g by simp
  have "ws_base64_encode input out_size = ws_base64_loop input ?room (0 + 3)
      ([] @ [ws_base64_char input 0 ?v 3, ws_base64_char input 0 ?v 2, ws_base64_char input 0 ?v 1, ws_base64_char input 0 ?v 0])"
    unfolding ws_base64_encode_def using pos ws_base64_round [OF room, of input 0 ?v]
    by (subst ws_base64_loop.simps) simp
  also have "\<dots> = [ws_base64_char input 0 ?v 3, ws_base64_char input 0 ?v 2, ws_base64_char input 0 ?v 1,
      ws_base64_char input 0 ?v 0] @ base64 (drop 3 input)"
    using assms(2,3) g by (subst ws_base64_loop_tail) simp_all
  also have "\<dots> = CHR ''='' # tl (base64 input)" using g c assms(2) by simp
  finally show ?thesis .
qed

theorem ws_base64_first_char_witness: "ws_base64_encode [77, 97, 110, 33] 32 = ''=WFuIQ==''"
proof -
  have "base64 [77, 97, 110, 33] = ''TWFuIQ==''" by code_simp
  then show ?thesis using ws_base64_first_char [of "[77, 97, 110, 33]" 32] by simp
qed

end
