(* ===== verification/WsHandshake.thy ===== *)
theory WsHandshake
  imports WebSocket
begin

unbundle bit_operations_syntax

text \<open>
  The opening handshake of \<open>mini-app-protocol/src/websocket.c\<close>: SHA-1, the client's request, the server's answer with
  the accept key, and both parsers. Text is a C string without its terminator. \<open>snprintf\<close> into a buffer of \<open>n\<close> bytes
  keeps the first \<open>n - 1\<close> characters and returns the full length. \<open>ws_sha1_hash\<close> pads into a buffer of 128 bytes;
  inputs of more than 119 bytes overrun it and give \<open>None\<close>. Null guards are not modelled.
\<close>

section \<open>SHA-1\<close>

definition rotl :: "nat \<Rightarrow> 32 word \<Rightarrow> 32 word" where
  "rotl n x = push_bit n x OR drop_bit (32 - n) x"

text \<open>The zero bytes after the 0x80 marker, up to 8 bytes before the end of a block.\<close>

definition sha1_zeros :: "nat \<Rightarrow> nat" where
  "sha1_zeros pad_len = (if pad_len mod 64 \<le> 56 then 56 - pad_len mod 64 else 120 - pad_len mod 64)"

definition sha1_padded :: "byte list \<Rightarrow> byte list" where
  "sha1_padded input =
     input @ [0x80] @ replicate (sha1_zeros (length input + 1)) 0 @ be_bytes 8 (of_nat (length input) * 8 :: 64 word)"

fun sha1_words :: "byte list \<Rightarrow> 32 word list" where
  "sha1_words (a # b # c # d # rest) =
     (push_bit 24 (ucast a) OR push_bit 16 (ucast b) OR push_bit 8 (ucast c) OR ucast d) # sha1_words rest"
| "sha1_words _ = []"

text \<open>The message schedule, newest word first.\<close>

fun sha1_extend :: "nat \<Rightarrow> 32 word list \<Rightarrow> 32 word list" where
  "sha1_extend 0 ws = ws"
| "sha1_extend (Suc k) ws = sha1_extend k (rotl 1 (ws ! 2 XOR ws ! 7 XOR ws ! 13 XOR ws ! 15) # ws)"

definition sha1_schedule :: "byte list \<Rightarrow> 32 word list" where
  "sha1_schedule block = rev (sha1_extend 64 (rev (sha1_words block)))"

type_synonym sha1_state = "32 word \<times> 32 word \<times> 32 word \<times> 32 word \<times> 32 word"

definition sha1_f :: "nat \<Rightarrow> 32 word \<Rightarrow> 32 word \<Rightarrow> 32 word \<Rightarrow> 32 word" where
  "sha1_f i b c d =
     (if i < 20 then (b AND c) OR (NOT b AND d)
      else if i < 40 then b XOR c XOR d
      else if i < 60 then (b AND c) OR (b AND d) OR (c AND d)
      else b XOR c XOR d)"

definition sha1_k :: "nat \<Rightarrow> 32 word" where
  "sha1_k i = (if i < 20 then 0x5A827999 else if i < 40 then 0x6ED9EBA1 else if i < 60 then 0x8F1BBCDC else 0xCA62C1D6)"

definition sha1_round :: "nat \<times> 32 word \<Rightarrow> sha1_state \<Rightarrow> sha1_state" where
  "sha1_round iw s =
     (case iw of (i, w) \<Rightarrow> case s of (a, b, c, d, e) \<Rightarrow>
        (rotl 5 a + sha1_f i b c d + e + sha1_k i + w, a, rotl 30 b, c, d))"

definition sha1_block :: "byte list \<Rightarrow> sha1_state \<Rightarrow> sha1_state" where
  "sha1_block block s =
     (case s of (h0, h1, h2, h3, h4) \<Rightarrow>
      case fold sha1_round (enumerate 0 (sha1_schedule block)) s of (a, b, c, d, e) \<Rightarrow>
        (h0 + a, h1 + b, h2 + c, h3 + d, h4 + e))"

function sha1_blocks :: "byte list \<Rightarrow> sha1_state \<Rightarrow> sha1_state" where
  "sha1_blocks data s = (if data = [] then s else sha1_blocks (drop 64 data) (sha1_block (take 64 data) s))"
  by pat_completeness auto
termination by (relation "measure (\<lambda>(data, s). length data)") auto

declare sha1_blocks.simps [simp del]

definition ws_sha1_hash :: "byte list \<Rightarrow> byte list option" where
  "ws_sha1_hash input =
     (if length input > 119 then None
      else case sha1_blocks (sha1_padded input) (0x67452301, 0xEFCDAB89, 0x98BADCFE, 0x10325476, 0xC3D2E1F0) of
        (a, b, c, d, e) \<Rightarrow> Some (be_bytes 4 a @ be_bytes 4 b @ be_bytes 4 c @ be_bytes 4 d @ be_bytes 4 e))"

section \<open>Messages\<close>

definition WS_GUID :: string where "WS_GUID = ''258EAFA5-E914-47DA-95CA-C5AB0DC85B11''"

record WSConnection =
  ws_host :: string
  ws_uri :: string
  ws_key :: string
  ws_accept :: string
  ws_handshake_done :: bool

definition crlf :: string where "crlf = [CHR 0x0D, CHR 0x0A]"

definition ws_handshake_client_init :: "string option \<Rightarrow> string option \<Rightarrow> WSConnection" where
  "ws_handshake_client_init host uri =
     \<lparr>ws_host = take 127 (case host of Some h \<Rightarrow> h | None \<Rightarrow> ''localhost''),
      ws_uri = take 255 (case uri of Some u \<Rightarrow> u | None \<Rightarrow> ''/''),
      ws_key = ''0123456789ABCDEF'', ws_accept = [], ws_handshake_done = False\<rparr>"

definition ws_handshake_server_init :: WSConnection where
  "ws_handshake_server_init = \<lparr>ws_host = [], ws_uri = [], ws_key = [], ws_accept = [], ws_handshake_done = False\<rparr>"

definition ws_request :: "WSConnection \<Rightarrow> string" where
  "ws_request conn =
     ''GET '' @ ws_uri conn @ '' HTTP/1.1'' @ crlf @ ''Host: '' @ ws_host conn @ crlf @ ''Upgrade: websocket'' @ crlf @
     ''Connection: Upgrade'' @ crlf @ ''Sec-WebSocket-Key: '' @ ws_key conn @ crlf @ ''Sec-WebSocket-Version: 13'' @ crlf @ crlf"

definition ws_handshake_build_client :: "WSConnection \<Rightarrow> nat \<Rightarrow> string \<times> nat" where
  "ws_handshake_build_client conn out_size = (take (out_size - 1) (ws_request conn), length (ws_request conn))"

fun strstr :: "string \<Rightarrow> string \<Rightarrow> string option" where
  "strstr [] pat = (if pat = [] then Some [] else None)"
| "strstr (c # s) pat = (if take (length pat) (c # s) = pat then Some (c # s) else strstr s pat)"

text \<open>The value of a header: up to the end of the line or the capacity of the field.\<close>

definition line_value :: "nat \<Rightarrow> string \<Rightarrow> string" where
  "line_value cap s = take (cap - 1) (takeWhile (\<lambda>c. c \<noteq> CHR 0x0D \<and> c \<noteq> CHR 0x0A) s)"

definition ws_handshake_parse_server :: "string \<Rightarrow> WSConnection \<Rightarrow> WSConnection \<times> int" where
  "ws_handshake_parse_server d conn =
     (if strstr d ''Upgrade: websocket'' = None \<and> strstr d ''Connection: Upgrade'' = None then (conn, -1)
      else if strstr d ''101'' = None then (conn, -2)
      else case strstr d ''Sec-WebSocket-Accept: '' of
        None \<Rightarrow> (conn, 0)
      | Some a \<Rightarrow> (conn\<lparr>ws_accept := line_value 32 (drop 22 a), ws_handshake_done := True\<rparr>, 0))"

definition ws_handshake_parse_client :: "string \<Rightarrow> WSConnection \<Rightarrow> WSConnection \<times> int" where
  "ws_handshake_parse_client d conn =
     (case strstr d ''Sec-WebSocket-Key: '' of
        None \<Rightarrow> (conn, -2)
      | Some k \<Rightarrow>
          (let conn1 = conn\<lparr>ws_key := line_value 64 (drop 19 k)\<rparr>
           in case strstr d ''Host: '' of
                None \<Rightarrow> (conn1, 0)
              | Some h \<Rightarrow> (conn1\<lparr>ws_host := line_value 128 (drop 6 h)\<rparr>, 0)))"

definition ascii_bytes :: "string \<Rightarrow> byte list" where
  "ascii_bytes s = map (\<lambda>c. of_nat (of_char c)) s"

definition ws_accept_key :: "WSConnection \<Rightarrow> string option" where
  "ws_accept_key conn =
     map_option (\<lambda>h. ws_base64_encode h 32) (ws_sha1_hash (ascii_bytes (take 255 (ws_key conn @ WS_GUID))))"

definition ws_response :: "string \<Rightarrow> string" where
  "ws_response encoded =
     ''HTTP/1.1 101 Switching Protocols'' @ crlf @ ''Upgrade: websocket'' @ crlf @ ''Connection: Upgrade'' @ crlf @
     ''Sec-WebSocket-Accept: '' @ encoded @ crlf @ crlf"

definition ws_handshake_build_server :: "WSConnection \<Rightarrow> nat \<Rightarrow> (string \<times> nat) option" where
  "ws_handshake_build_server conn out_size =
     map_option (\<lambda>e. (take (out_size - 1) (ws_response e), length (ws_response e))) (ws_accept_key conn)"

section \<open>The shape of the digest and of the accept key\<close>

lemma sha1_padded_blocks: "64 dvd length (sha1_padded input)"
proof -
  have "(m + 1 + sha1_zeros (m + 1) + 8) mod 64 = 0" for m :: nat
    unfolding sha1_zeros_def by (cases "(m + 1) mod 64 \<le> 56") presburger+
  from this [of "length input"] show ?thesis by (simp add: sha1_padded_def dvd_eq_mod_eq_0 ac_simps)
qed

lemma ws_sha1_hash_length: "ws_sha1_hash input = Some h \<Longrightarrow> length h = 20"
  by (auto simp: ws_sha1_hash_def split: if_splits prod.splits)

lemma ws_accept_key_defined:
  assumes "length (ws_key conn) < 64"
  shows "\<exists>k. ws_accept_key conn = Some k"
  using assms by (auto simp: ws_accept_key_def ws_sha1_hash_def ascii_bytes_def WS_GUID_def split: prod.splits)

lemma length_base64: "length (base64 xs) = 4 * ((length xs + 2) div 3)"
proof -
  have "(5 + n) div 3 = Suc (Suc (Suc n) div 3)" for n :: nat by presburger
  then show ?thesis by (induction xs rule: base64.induct) (simp_all add: Let_def)
qed

lemma base64_chars: "set (base64 xs) \<subseteq> insert (CHR ''='') (set ws_base64_table)"
proof -
  have "b64 v j \<in> set ws_base64_table" for v j
  proof -
    have m: "(0x3F :: 32 word) = mask 6" by (simp add: mask_eq_exp_minus_1)
    have "unat (take_bit 6 (drop_bit (j * 6) v)) < 2 ^ 6" by (simp only: unsigned_take_bit_eq take_bit_nat_less_exp)
    then have "unat (drop_bit (j * 6) v AND 0x3F) < length ws_base64_table"
      unfolding m by (simp add: take_bit_eq_mask ws_base64_table_def)
    then show ?thesis unfolding b64_def by (rule nth_mem)
  qed
  then show ?thesis by (induction xs rule: base64.induct) (auto simp: Let_def)
qed

lemma ws_accept_key_shape:
  assumes "ws_accept_key conn = Some k"
  shows "length k = 28" and "CHR 0x0D \<notin> set k" and "CHR 0x0A \<notin> set k"
proof -
  obtain h where h: "ws_sha1_hash (ascii_bytes (take 255 (ws_key conn @ WS_GUID))) = Some h" "k = ws_base64_encode h 32"
    using assms by (auto simp: ws_accept_key_def)
  have len: "length h = 20" using ws_sha1_hash_length [OF h(1)] .
  then have b: "length (base64 h) = 28" by (simp add: length_base64)
  have k: "k = CHR ''='' # tl (base64 h)" using ws_base64_first_char [of h 32] h(2) len b by force
  show "length k = 28" using k b by simp
  have "set (tl (base64 h)) \<subseteq> set (base64 h)" by (cases "base64 h") auto
  then have "set k \<subseteq> insert (CHR ''='') (set ws_base64_table)" using k base64_chars [of h] by auto
  then show "CHR 0x0D \<notin> set k" "CHR 0x0A \<notin> set k" by (auto simp: ws_base64_table_def)
qed

lemma line_value_crlf:
  assumes "CHR 0x0D \<notin> set v" and "CHR 0x0A \<notin> set v" and "length v < cap"
  shows "line_value cap (v @ crlf @ rest) = v"
proof -
  have "takeWhile (\<lambda>c. c \<noteq> CHR 0x0D \<and> c \<noteq> CHR 0x0A) (v @ crlf @ rest) = v"
    using assms(1,2) by (induction v) (auto simp: crlf_def)
  then show ?thesis using assms(3) by (simp add: line_value_def)
qed

section \<open>The answer is understood\<close>

lemma ws_response_parts:
  "strstr (ws_response k) ''Upgrade: websocket'' \<noteq> None" "strstr (ws_response k) ''101'' \<noteq> None"
  "strstr (ws_response k) ''Sec-WebSocket-Accept: '' = Some (''Sec-WebSocket-Accept: '' @ k @ crlf @ crlf)"
  unfolding ws_response_def crlf_def by simp_all

lemma ws_handshake_answer:
  assumes "length (ws_key server) < 64" and "256 \<le> out_size"
  shows "\<exists>k text n. ws_accept_key server = Some k \<and> ws_handshake_build_server server out_size = Some (text, n) \<and>
    ws_handshake_parse_server text client = (client\<lparr>ws_accept := k, ws_handshake_done := True\<rparr>, 0)"
proof -
  obtain k where k: "ws_accept_key server = Some k" using ws_accept_key_defined [OF assms(1)] by blast
  note shape = ws_accept_key_shape [OF k]
  have "length (ws_response k) < out_size - 1" using shape(1) assms(2) by (simp add: ws_response_def crlf_def)
  then have "ws_handshake_build_server server out_size = Some (ws_response k, length (ws_response k))"
    using k by (simp add: ws_handshake_build_server_def)
  moreover have "line_value 32 (k @ crlf @ crlf) = k" using line_value_crlf shape by simp
  ultimately show ?thesis using k ws_response_parts [of k] by (auto simp: ws_handshake_parse_server_def)
qed

end
