(* ===== verification/MqttPackets.thy ===== *)
theory MqttPackets
  imports Bytes
begin

unbundle bit_operations_syntax

text \<open>
  MQTT control packets (\<open>mini-app-protocol/src/mqtt.c\<close>): the remaining-length field, the encoders and the decoders.

  A C string is the list of its bytes before the terminator, \<open>size_t\<close> is a 64-bit word where it is computed with and a
  natural number where it indexes a buffer. An encoder returns \<open>None\<close> where it would overrun its four-byte length
  buffer, \<open>Some []\<close> where it returns 0 because the packet does not fit, and the packet otherwise. A decoder returns
  \<open>None\<close> where it would read behind the end of its input, and otherwise the structure it filled with the return code.
  A field filled by \<open>memcpy\<close> and a terminator holds the bytes before the first zero. Null guards are not modelled.
\<close>

section \<open>Data\<close>

definition MQTT_CONNECT :: byte where "MQTT_CONNECT = 0x10"
definition MQTT_CONNACK :: byte where "MQTT_CONNACK = 0x20"
definition MQTT_PUBLISH :: byte where "MQTT_PUBLISH = 0x30"
definition MQTT_PUBREL :: byte where "MQTT_PUBREL = 0x60"
definition MQTT_SUBSCRIBE :: byte where "MQTT_SUBSCRIBE = 0x82"
definition MQTT_SUBACK :: byte where "MQTT_SUBACK = 0x90"
definition MQTT_PINGREQ :: byte where "MQTT_PINGREQ = 0xC0"
definition MQTT_PINGRESP :: byte where "MQTT_PINGRESP = 0xD0"
definition MQTT_DISCONNECT :: byte where "MQTT_DISCONNECT = 0xE0"
definition MQTT_PROTOCOL_VERSION :: byte where "MQTT_PROTOCOL_VERSION = 5"
definition MQTT_MAX_CLIENT_ID :: nat where "MQTT_MAX_CLIENT_ID = 64"
definition MQTT_MAX_TOPIC :: nat where "MQTT_MAX_TOPIC = 256"
definition MQTT_MAX_USERNAME :: nat where "MQTT_MAX_USERNAME = 64"
definition MQTT_MAX_PASSWORD :: nat where "MQTT_MAX_PASSWORD = 64"
definition MQTT_MAX_WILL_TOPIC :: nat where "MQTT_MAX_WILL_TOPIC = 256"
definition MQTT_MAX_WILL_MSG :: nat where "MQTT_MAX_WILL_MSG = 256"

record MQTTConnect =
  mc_client_id :: "byte list"
  mc_clean_start :: bool
  mc_keep_alive :: "16 word"
  mc_username :: "byte list"
  mc_password :: "byte list"
  mc_will_topic :: "byte list"
  mc_will_message :: "byte list"
  mc_will_set :: bool
  mc_will_qos :: byte
  mc_will_retain :: bool

record MQTTTopic =
  mt_name :: "byte list"
  mt_qos :: byte

record MQTTPublish =
  mp_packet_id :: "16 word"
  mp_topic :: "byte list"
  mp_payload :: "byte list option"
  mp_payload_len :: "64 word"
  mp_qos :: byte
  mp_retain :: bool
  mp_dup :: bool

section \<open>The remaining length\<close>

function mqtt_encode_remaining_length :: "32 word \<Rightarrow> byte list" where
  "mqtt_encode_remaining_length v =
     (if drop_bit 7 v > 0
      then (ucast (v AND 0x7F) OR 0x80) # mqtt_encode_remaining_length (drop_bit 7 v)
      else [ucast (v AND 0x7F)])"
  by pat_completeness auto
termination
proof (relation "measure unat")
  fix v :: "32 word"
  assume pos: "drop_bit 7 v > 0"
  have eq: "unat (drop_bit 7 v) = unat v div 128" unfolding unat_drop_bit_eq by (simp add: drop_bit_eq_div)
  have "0 < unat (drop_bit 7 v)" using pos by (simp only: word_less_nat_alt unsigned_0)
  then have "unat v div 128 < unat v" unfolding eq by (intro div_less_dividend) auto
  then show "(drop_bit 7 v, v) \<in> measure unat" using eq by (simp only: in_measure)
qed simp

declare mqtt_encode_remaining_length.simps [simp del]

fun mqtt_rl_loop :: "byte list \<Rightarrow> 32 word \<Rightarrow> nat \<Rightarrow> nat \<Rightarrow> 32 word \<times> nat" where
  "mqtt_rl_loop [] val pos shift = (val, pos)"
| "mqtt_rl_loop (b # bs) val pos shift =
     (if pos < 4
      then let val' = val OR push_bit shift (ucast (b AND 0x7F))
           in if b AND 0x80 = 0 then (val', pos + 1) else mqtt_rl_loop bs val' (pos + 1) (shift + 7)
      else (val, pos))"

definition mqtt_decode_remaining_length :: "byte list \<Rightarrow> 32 word \<times> nat" where
  "mqtt_decode_remaining_length data = mqtt_rl_loop data 0 0 0"

section \<open>Encoders\<close>

definition mqtt_encode_utf8 :: "byte list \<Rightarrow> byte list" where
  "mqtt_encode_utf8 str =
     (let len = of_nat (length str) :: 64 word in [ucast (drop_bit 8 len), ucast len] @ str)"

text \<open>The common tail: length field, size check, copy. \<open>body\<close> is what follows the length field.\<close>

definition mqtt_finish :: "byte \<Rightarrow> 64 word \<Rightarrow> byte list \<Rightarrow> 64 word \<Rightarrow> byte list option" where
  "mqtt_finish header var_len body out_size =
     (let rl = mqtt_encode_remaining_length (ucast var_len)
      in if length rl > 4 then None
         else if 1 + of_nat (length rl) + var_len > out_size then Some []
         else Some (header # rl @ body))"

definition mqtt_connect_flags :: "MQTTConnect \<Rightarrow> byte" where
  "mqtt_connect_flags c =
     (if mc_clean_start c then 0x02 else 0) OR
     (if mc_will_set c
      then 0x04 OR push_bit 3 (mc_will_qos c AND 0x03) OR (if mc_will_retain c then 0x20 else 0) else 0) OR
     (if mc_username c \<noteq> [] then 0x80 else 0) OR
     (if mc_password c \<noteq> [] then 0x40 else 0)"

definition mqtt_connect_payload :: "MQTTConnect \<Rightarrow> byte list" where
  "mqtt_connect_payload c =
     mqtt_encode_utf8 (mc_client_id c) @
     (if mc_will_set c then mqtt_encode_utf8 (mc_will_topic c) @ mqtt_encode_utf8 (mc_will_message c) else []) @
     (if mc_username c \<noteq> [] then mqtt_encode_utf8 (mc_username c) else []) @
     (if mc_password c \<noteq> [] then mqtt_encode_utf8 (mc_password c) else [])"

definition mqtt_encode_connect :: "MQTTConnect \<Rightarrow> 64 word \<Rightarrow> byte list option" where
  "mqtt_encode_connect c out_size =
     (let var_header = [0x00, 0x04, 0x4D, 0x51, 0x54, 0x54, MQTT_PROTOCOL_VERSION, mqtt_connect_flags c,
                        ucast (drop_bit 8 (mc_keep_alive c)), ucast (mc_keep_alive c)];
          payload = mqtt_connect_payload c
      in if length payload > 2048 then None
         else mqtt_finish MQTT_CONNECT (10 + of_nat (length payload)) (var_header @ payload) out_size)"

definition mqtt_encode_connack :: "bool \<Rightarrow> byte \<Rightarrow> 64 word \<Rightarrow> byte list option" where
  "mqtt_encode_connack session_present return_code out_size =
     mqtt_finish MQTT_CONNACK 2 [if session_present then 0x01 else 0x00, return_code] out_size"

definition mqtt_publish_header :: "MQTTPublish \<Rightarrow> byte" where
  "mqtt_publish_header pub =
     MQTT_PUBLISH OR (if mp_dup pub then 0x08 else 0) OR (if mp_retain pub then 0x01 else 0) OR
     push_bit 1 (mp_qos pub AND 0x03)"

definition mqtt_encode_publish :: "MQTTPublish \<Rightarrow> 64 word \<Rightarrow> byte list option" where
  "mqtt_encode_publish pub out_size =
     (let topic_len = of_nat (length (mp_topic pub)) :: 64 word;
          var_len = 2 + topic_len + (if mp_qos pub > 0 then 2 else 0) + mp_payload_len pub
      in mqtt_finish (mqtt_publish_header pub) var_len
           ([ucast (drop_bit 8 topic_len), ucast topic_len] @ mp_topic pub @
            (if mp_qos pub > 0 then [ucast (drop_bit 8 (mp_packet_id pub)), ucast (mp_packet_id pub)] else []) @
            (case mp_payload pub of
               Some p \<Rightarrow> if mp_payload_len pub > 0 then take (unat (mp_payload_len pub)) p else []
             | None \<Rightarrow> []))
           out_size)"

definition mqtt_topic_bytes :: "MQTTTopic \<Rightarrow> byte list" where
  "mqtt_topic_bytes t =
     (let tlen = of_nat (length (mt_name t)) :: 64 word
      in [ucast (drop_bit 8 tlen), ucast tlen] @ mt_name t @ [mt_qos t AND 0x03])"

definition mqtt_encode_subscribe :: "16 word \<Rightarrow> MQTTTopic list \<Rightarrow> 64 word \<Rightarrow> byte list option" where
  "mqtt_encode_subscribe packet_id topics out_size =
     (let var_len = fold (\<lambda>t n. n + (2 + of_nat (length (mt_name t)) + 1)) topics 2
      in mqtt_finish MQTT_SUBSCRIBE var_len
           ([ucast (drop_bit 8 packet_id), ucast packet_id] @ concat (map mqtt_topic_bytes topics)) out_size)"

definition mqtt_encode_suback :: "16 word \<Rightarrow> byte list \<Rightarrow> 64 word \<Rightarrow> byte list option" where
  "mqtt_encode_suback packet_id return_codes out_size =
     mqtt_finish MQTT_SUBACK (2 + of_nat (length return_codes))
       ([ucast (drop_bit 8 packet_id), ucast packet_id] @ return_codes) out_size"

definition mqtt_encode_pingreq :: "64 word \<Rightarrow> byte list" where
  "mqtt_encode_pingreq out_size = (if out_size < 2 then [] else [MQTT_PINGREQ, 0x00])"

definition mqtt_encode_pingresp :: "64 word \<Rightarrow> byte list" where
  "mqtt_encode_pingresp out_size = (if out_size < 2 then [] else [MQTT_PINGRESP, 0x00])"

definition mqtt_encode_disconnect :: "64 word \<Rightarrow> byte list" where
  "mqtt_encode_disconnect out_size = (if out_size < 2 then [] else [MQTT_DISCONNECT, 0x00])"

section \<open>Decoders\<close>

definition cstr :: "byte list \<Rightarrow> byte list" where
  "cstr bs = takeWhile (\<lambda>b. b \<noteq> 0) bs"

definition byte_at :: "byte list \<Rightarrow> nat \<Rightarrow> byte option" where
  "byte_at data pos = (case drop pos data of a # _ \<Rightarrow> Some a | _ \<Rightarrow> None)"

definition u16_at :: "byte list \<Rightarrow> nat \<Rightarrow> 16 word option" where
  "u16_at data pos = (case drop pos data of a # b # _ \<Rightarrow> Some (push_bit 8 (ucast a) OR ucast b) | _ \<Rightarrow> None)"

definition bytes_at :: "byte list \<Rightarrow> nat \<Rightarrow> nat \<Rightarrow> byte list option" where
  "bytes_at data pos n = (if pos + n \<le> length data then Some (take n (drop pos data)) else None)"

definition mqtt_decode_packet :: "byte list \<Rightarrow> int + byte" where
  "mqtt_decode_packet data = (if length data < 2 then Inl (-1) else Inr (data ! 0 AND 0xF0))"

text \<open>
  One length-prefixed field of CONNECT: its new contents and the position after it. A field that does not fit keeps
  its old contents and is not skipped; an empty one is copied or kept, as the guard at its place says.
\<close>

definition mqtt_field :: "bool \<Rightarrow> nat \<Rightarrow> byte list \<Rightarrow> nat \<Rightarrow> byte list \<Rightarrow> (byte list \<times> nat) option" where
  "mqtt_field keep_empty cap data pos old =
     Option.bind (u16_at data pos) (\<lambda>n.
       if (keep_empty \<and> n = 0) \<or> unat n \<ge> cap then Some (old, pos + 2)
       else map_option (\<lambda>bs. (cstr bs, pos + 2 + unat n)) (bytes_at data (pos + 2) (unat n)))"

definition mqtt_connect_will :: "byte list \<Rightarrow> nat \<times> MQTTConnect \<Rightarrow> (nat \<times> MQTTConnect) option" where
  "mqtt_connect_will data s =
     (case s of (pos, c) \<Rightarrow>
        if mc_will_set c
        then Option.bind (mqtt_field False MQTT_MAX_WILL_TOPIC data pos (mc_will_topic c)) (\<lambda>(wt, pos).
             Option.bind (mqtt_field False MQTT_MAX_WILL_MSG data pos (mc_will_message c)) (\<lambda>(wm, pos).
               Some (pos, c\<lparr>mc_will_topic := wt, mc_will_message := wm\<rparr>)))
        else Some (pos, c))"

definition mqtt_connect_user :: "byte list \<Rightarrow> byte \<Rightarrow> nat \<times> MQTTConnect \<Rightarrow> (nat \<times> MQTTConnect) option" where
  "mqtt_connect_user data flags s =
     (case s of (pos, c) \<Rightarrow>
        if flags AND 0x80 \<noteq> 0
        then map_option (\<lambda>(un, pos). (pos, c\<lparr>mc_username := un\<rparr>))
               (mqtt_field True MQTT_MAX_USERNAME data pos (mc_username c))
        else Some (pos, c))"

definition mqtt_connect_pass :: "byte list \<Rightarrow> byte \<Rightarrow> nat \<times> MQTTConnect \<Rightarrow> (nat \<times> MQTTConnect) option" where
  "mqtt_connect_pass data flags s =
     (case s of (pos, c) \<Rightarrow>
        if flags AND 0x40 \<noteq> 0
        then map_option (\<lambda>(pw, pos). (pos, c\<lparr>mc_password := pw\<rparr>))
               (mqtt_field True MQTT_MAX_PASSWORD data pos (mc_password c))
        else Some (pos, c))"

definition mqtt_decode_connect :: "byte list \<Rightarrow> MQTTConnect \<Rightarrow> (MQTTConnect \<times> int) option" where
  "mqtt_decode_connect data c =
     (if length data < 14 then Some (c, -1)
      else if data ! 0 AND 0xF0 \<noteq> MQTT_CONNECT then Some (c, -2)
      else let pos = 1 + snd (mqtt_decode_remaining_length (drop 1 data))
           in Option.bind (u16_at data pos) (\<lambda>proto_len.
              let pos = pos + 2 + unat proto_len
              in Option.bind (byte_at data pos) (\<lambda>version.
                 Option.bind (byte_at data (pos + 1)) (\<lambda>flags.
                 Option.bind (u16_at data (pos + 2)) (\<lambda>keep_alive.
                 Option.bind (mqtt_field True MQTT_MAX_CLIENT_ID data (pos + 4) (mc_client_id c)) (\<lambda>(cid, pos).
                   let c1 = c\<lparr>mc_clean_start := flags AND 0x02 \<noteq> 0, mc_will_set := flags AND 0x04 \<noteq> 0,
                             mc_will_qos := drop_bit 3 flags AND 0x03, mc_will_retain := flags AND 0x20 \<noteq> 0,
                             mc_keep_alive := keep_alive, mc_client_id := cid\<rparr>
                   in Option.bind (mqtt_connect_will data (pos, c1)) (\<lambda>s.
                      Option.bind (mqtt_connect_user data flags s) (\<lambda>s.
                      Option.bind (mqtt_connect_pass data flags s) (\<lambda>(pos, c2). Some (c2, 0))))))))))"

definition mqtt_decode_publish :: "byte list \<Rightarrow> MQTTPublish \<Rightarrow> (MQTTPublish \<times> int) option" where
  "mqtt_decode_publish data pub =
     (if length data < 2 then Some (pub, -1)
      else if data ! 0 AND 0xF0 \<noteq> MQTT_PUBLISH then Some (pub, -2)
      else let pub1 = pub\<lparr>mp_dup := data ! 0 AND 0x08 \<noteq> 0, mp_retain := data ! 0 AND 0x01 \<noteq> 0,
                          mp_qos := drop_bit 1 (data ! 0) AND 0x03\<rparr>;
               pos = 1 + snd (mqtt_decode_remaining_length (drop 1 data))
           in Option.bind (u16_at data pos) (\<lambda>topic_len.
              if unat topic_len \<ge> MQTT_MAX_TOPIC then Some (pub1, -3)
              else Option.bind (bytes_at data (pos + 2) (unat topic_len)) (\<lambda>topic.
                let pub2 = pub1\<lparr>mp_topic := cstr topic\<rparr>; pos = pos + 2 + unat topic_len
                in Option.bind (if mp_qos pub2 > 0 then map_option (\<lambda>i. (pos + 2, pub2\<lparr>mp_packet_id := i\<rparr>)) (u16_at data pos)
                                else Some (pos, pub2)) (\<lambda>(pos, pub3).
                   Some (pub3\<lparr>mp_payload_len := of_nat (length data - pos), mp_payload := Some (drop pos data)\<rparr>, 0)))))"

text \<open>The topic loop of SUBSCRIBE, \<open>room\<close> being \<open>max_topics - topic_count\<close>.\<close>

fun mqtt_topic_loop :: "nat \<Rightarrow> byte list \<Rightarrow> nat \<Rightarrow> MQTTTopic list option" where
  "mqtt_topic_loop 0 data pos = Some []"
| "mqtt_topic_loop (Suc room) data pos =
     (if pos < length data
      then Option.bind (u16_at data pos) (\<lambda>tlen.
             if unat tlen \<ge> MQTT_MAX_TOPIC \<or> pos + 2 + unat tlen + 1 > length data then Some []
             else Option.bind (bytes_at data (pos + 2) (unat tlen)) (\<lambda>name.
                  Option.bind (byte_at data (pos + 2 + unat tlen)) (\<lambda>q.
                  map_option (\<lambda>ts. \<lparr>mt_name = cstr name, mt_qos = q AND 0x03\<rparr> # ts)
                    (mqtt_topic_loop room data (pos + 3 + unat tlen)))))
      else Some [])"

definition mqtt_decode_subscribe :: "byte list \<Rightarrow> nat \<Rightarrow> (16 word \<times> MQTTTopic list) option" where
  "mqtt_decode_subscribe data max_topics =
     (let pos = 1 + snd (mqtt_decode_remaining_length (drop 1 data))
      in Option.bind (u16_at data pos) (\<lambda>packet_id.
           map_option (\<lambda>ts. (packet_id, ts)) (mqtt_topic_loop max_topics data (pos + 2))))"

section \<open>The remaining length is read back\<close>

lemma low_bits_7: "ucast (v AND 0x7F) = (ucast (take_bit 7 v) :: byte)" for v :: "32 word"
  by (simp add: take_bit_eq_mask mask_eq_exp_minus_1)

lemma rl_byte:
  fixes v :: "32 word"
  shows "(ucast (v AND 0x7F) :: byte) AND 0x80 = 0" "(ucast (v AND 0x7F) OR 0x80 :: byte) AND 0x80 \<noteq> 0"
    "ucast ((ucast (v AND 0x7F) :: byte) AND 0x7F) = take_bit 7 v"
    "ucast ((ucast (v AND 0x7F) OR 0x80 :: byte) AND 0x7F) = take_bit 7 v"
proof -
  let ?b = "ucast (v AND 0x7F) :: byte"
  have small: "unat ?b < 128"
  proof -
    have "unat (take_bit 7 ?b) < 2 ^ 7" by (simp only: unsigned_take_bit_eq take_bit_nat_less_exp)
    moreover have "take_bit 7 ?b = ?b" unfolding low_bits_7 by (rule bit_word_eqI) (auto simp: bit_simps)
    ultimately show ?thesis by simp
  qed
  have up: "ucast ?b = take_bit 7 v" unfolding low_bits_7 by (rule bit_word_eqI) (auto simp: bit_simps)
  show "?b AND 0x80 = 0" using top_flag(1) [OF small, of False] by simp
  show "(?b OR 0x80) AND 0x80 \<noteq> 0" using top_flag(1) [OF small, of True] by (simp add: or.commute)
  show "ucast (?b AND 0x7F) = take_bit 7 v" using top_flag(2) [OF small, of False] up by simp
  show "ucast ((?b OR 0x80) AND 0x7F) = take_bit 7 v" using top_flag(2) [OF small, of True] up by (simp add: or.commute)
qed

lemma seven_bits: "take_bit 7 v OR push_bit 7 (drop_bit 7 v) = v" for v :: "32 word"
  by (rule bit_word_eqI) (auto simp: bit_simps, metis add_diff_inverse_nat)

lemma mqtt_rl_more:
  assumes "drop_bit 7 v > 0"
  shows "length (mqtt_encode_remaining_length v) = Suc (length (mqtt_encode_remaining_length (drop_bit 7 v)))"
    and "pos < 4 \<Longrightarrow> mqtt_rl_loop (mqtt_encode_remaining_length v @ rest) acc pos shift =
      mqtt_rl_loop (mqtt_encode_remaining_length (drop_bit 7 v) @ rest) (acc OR push_bit shift (take_bit 7 v)) (pos + 1) (shift + 7)"
proof -
  have e: "mqtt_encode_remaining_length v = (ucast (v AND 0x7F) OR 0x80) # mqtt_encode_remaining_length (drop_bit 7 v)"
    by (subst mqtt_encode_remaining_length.simps) (simp only: assms if_True)
  show "length (mqtt_encode_remaining_length v) = Suc (length (mqtt_encode_remaining_length (drop_bit 7 v)))"
    by (simp only: e list.size add_Suc_right add_0_right)
  show "pos < 4 \<Longrightarrow> mqtt_rl_loop (mqtt_encode_remaining_length v @ rest) acc pos shift =
      mqtt_rl_loop (mqtt_encode_remaining_length (drop_bit 7 v) @ rest) (acc OR push_bit shift (take_bit 7 v)) (pos + 1) (shift + 7)"
    by (simp only: e append_Cons mqtt_rl_loop.simps Let_def rl_byte if_True if_False)
qed

lemma mqtt_rl_last:
  assumes "\<not> drop_bit 7 v > 0"
  shows "length (mqtt_encode_remaining_length v) = 1"
    and "pos < 4 \<Longrightarrow> mqtt_rl_loop (mqtt_encode_remaining_length v @ rest) acc pos shift = (acc OR push_bit shift v, pos + 1)"
proof -
  have e: "mqtt_encode_remaining_length v = [ucast (v AND 0x7F)]"
    by (subst mqtt_encode_remaining_length.simps) (simp only: assms if_False)
  have "drop_bit 7 v = 0" using assms by (simp only: word_gt_0 not_not)
  then have "take_bit 7 v = v" using seven_bits [of v] by (simp only: push_bit_of_0 or.right_neutral)
  then show "pos < 4 \<Longrightarrow> mqtt_rl_loop (mqtt_encode_remaining_length v @ rest) acc pos shift = (acc OR push_bit shift v, pos + 1)"
    by (simp only: e append_Cons append_Nil mqtt_rl_loop.simps Let_def rl_byte if_True simp_thms)
  show "length (mqtt_encode_remaining_length v) = 1" by (simp add: e)
qed

lemma mqtt_rl_loop_encoded:
  assumes "unat v < 2 ^ (7 * (4 - pos))" and "pos < 4"
  shows "mqtt_rl_loop (mqtt_encode_remaining_length v @ rest) acc pos shift =
    (acc OR push_bit shift v, pos + length (mqtt_encode_remaining_length v))"
  using assms
proof (induction v arbitrary: acc pos shift rule: mqtt_encode_remaining_length.induct)
  case (1 v)
  show ?case
  proof (cases "drop_bit 7 v > 0")
    case True
    have eq: "unat (drop_bit 7 v) = unat v div 128" unfolding unat_drop_bit_eq by (simp add: drop_bit_eq_div)
    obtain k where k: "4 - pos = Suc k" and k': "4 - (pos + 1) = k" using 1(3) by (cases "4 - pos") auto
    have lt: "unat v div 128 < 2 ^ (7 * k)" using 1(2) k by (simp add: less_mult_imp_div_less power_add)
    have "k \<noteq> 0"
    proof
      assume "k = 0"
      then have "unat (drop_bit 7 v) = 0" using lt eq by simp
      then show False using True by (simp add: word_less_nat_alt)
    qed
    then have "unat (drop_bit 7 v) < 2 ^ (7 * (4 - (pos + 1)))" and "pos + 1 < 4" using lt k k' unfolding eq by auto
    then have "mqtt_rl_loop (mqtt_encode_remaining_length (drop_bit 7 v) @ rest) (acc OR push_bit shift (take_bit 7 v))
        (pos + 1) (shift + 7) = ((acc OR push_bit shift (take_bit 7 v)) OR push_bit (shift + 7) (drop_bit 7 v),
        pos + 1 + length (mqtt_encode_remaining_length (drop_bit 7 v)))"
      by (rule 1(1) [OF True])
    moreover have "push_bit shift (take_bit 7 v) OR push_bit (shift + 7) (drop_bit 7 v) = push_bit shift v"
      using seven_bits [of v] by (metis push_bit_or push_bit_push_bit)
    ultimately show ?thesis using mqtt_rl_more [OF True] 1(3) by (simp add: or.assoc)
  next
    case False
    then show ?thesis using mqtt_rl_last 1(3) by simp
  qed
qed

lemma mqtt_remaining_length_round_trip:
  assumes "unat v < 2 ^ 28"
  shows "mqtt_decode_remaining_length (mqtt_encode_remaining_length v @ rest) = (v, length (mqtt_encode_remaining_length v))"
  using mqtt_rl_loop_encoded [of v 0 rest 0 0] assms by (simp add: mqtt_decode_remaining_length_def)

lemma mqtt_remaining_length_bound: "unat v < 2 ^ 28 \<Longrightarrow> length (mqtt_encode_remaining_length v) \<le> 4"
proof -
  have "unat v < 2 ^ (7 * Suc k) \<Longrightarrow> length (mqtt_encode_remaining_length v) \<le> Suc k" for v k
  proof (induction k arbitrary: v)
    case (Suc k)
    have "unat (drop_bit 7 v) = unat v div 128" unfolding unat_drop_bit_eq by (simp add: drop_bit_eq_div)
    also have "\<dots> < 2 ^ (7 * Suc k)" using Suc.prems by (simp add: less_mult_imp_div_less power_add)
    finally show ?case using Suc.IH mqtt_rl_more(1) mqtt_rl_last(1) by (cases "drop_bit 7 v > 0") auto
  next
    case 0
    have "unat (drop_bit 7 v) = unat v div 128" unfolding unat_drop_bit_eq by (simp add: drop_bit_eq_div)
    then have "\<not> drop_bit 7 v > 0" using 0 by (simp add: word_less_nat_alt del: unat_div_distrib)
    then show ?case by (simp add: mqtt_rl_last(1))
  qed
  from this [of v 3] show "unat v < 2 ^ 28 \<Longrightarrow> length (mqtt_encode_remaining_length v) \<le> 4" by simp
qed

section \<open>Reading fields\<close>

lemma byte_at_drop: "drop pos data = b # rest \<Longrightarrow> byte_at data pos = Some b"
  by (simp add: byte_at_def)

lemma drop_next: "drop pos data = xs @ rest \<Longrightarrow> drop (pos + length xs) data = rest"
  by (metis add.commute append_eq_conv_conj drop_drop)

lemma u16_at_word:
  assumes "drop pos data = [ucast (drop_bit 8 w), ucast w] @ rest"
  shows "u16_at data pos = Some (w :: 16 word)"
  using assms be_round_trip_full [of 2 w] by (simp add: u16_at_def byte_simps)

lemma u16_at_len:
  assumes "drop pos data = [ucast (drop_bit 8 (of_nat n :: 64 word)), ucast (of_nat n :: 64 word)] @ rest" and "n < 65536"
  shows "u16_at data pos = Some (of_nat n)"
proof -
  have "(push_bit 8 (ucast (ucast (drop_bit 8 w) :: byte)) OR ucast (ucast w :: byte) :: 16 word) = ucast w" for w :: "64 word"
    by (rule bit_word_eqI) (auto simp: bit_simps)
  moreover have "ucast (of_nat n :: 64 word) = (of_nat n :: 16 word)"
    by (rule bit_word_eqI) (simp add: bit_simps)
  ultimately show ?thesis using assms(1) by (simp add: u16_at_def)
qed

lemma bytes_at_drop:
  assumes "drop pos data = xs @ rest" and "n = length xs" and "pos \<le> length data"
  shows "bytes_at data pos n = Some xs"
proof -
  have "length data - pos = length xs + length rest" using arg_cong [OF assms(1), of length] by simp
  then have "pos + length xs \<le> length data" using assms(3) by simp
  then show ?thesis using assms(1,2) by (simp add: bytes_at_def)
qed

lemma cstr_id [simp]: "0 \<notin> set bs \<Longrightarrow> cstr bs = bs"
  by (auto simp: cstr_def takeWhile_eq_all_conv)

lemma mqtt_field_encoded:
  assumes "drop pos data = mqtt_encode_utf8 str @ rest" and "length str < cap" and "cap \<le> 256"
    and "0 \<notin> set str" and "keep_empty \<Longrightarrow> str = [] \<Longrightarrow> old = []"
  shows "mqtt_field keep_empty cap data pos old = Some (str, pos + length (mqtt_encode_utf8 str))"
    and "drop (pos + length (mqtt_encode_utf8 str)) data = rest"
proof -
  have d: "drop pos data = [ucast (drop_bit 8 (of_nat (length str) :: 64 word)), ucast (of_nat (length str) :: 64 word)] @
    str @ rest" using assms(1) by (simp add: mqtt_encode_utf8_def Let_def)
  have u: "u16_at data pos = Some (of_nat (length str))" using u16_at_len [OF d] assms(2,3) by simp
  have n: "unat (of_nat (length str) :: 16 word) = length str" using assms(2,3) by (intro unat_of_nat_small) simp
  have "pos + 2 \<le> length data" using arg_cong [OF d, of length] by simp
  then have b: "bytes_at data (pos + 2) (length str) = Some str"
    using drop_next [OF d] by (intro bytes_at_drop) auto
  show "drop (pos + length (mqtt_encode_utf8 str)) data = rest" using drop_next [OF assms(1)] .
  have z: "(of_nat (length str) :: 16 word) = 0 \<longleftrightarrow> str = []" unfolding unat_eq_0 [symmetric] n by simp
  have l: "length (mqtt_encode_utf8 str) = 2 + length str" by (simp add: mqtt_encode_utf8_def Let_def)
  show "mqtt_field keep_empty cap data pos old = Some (str, pos + length (mqtt_encode_utf8 str))"
    unfolding mqtt_field_def u bind.bind_lunit n z l
    using b assms(2,4,5) by (cases "keep_empty \<and> str = []") (auto simp: not_le)
qed

section \<open>Packets are read back\<close>

lemma mqtt_finish_ok:
  assumes "unat var_len < 2 ^ 28" and "unat var_len + 5 \<le> unat out_size"
  obtains rl where "mqtt_finish header var_len body out_size = Some (header # rl @ body)"
    and "snd (mqtt_decode_remaining_length (rl @ body)) = length rl" and "rl \<noteq> []"
proof
  let ?rl = "mqtt_encode_remaining_length (ucast var_len)"
  have v: "unat (ucast var_len :: 32 word) = unat var_len"
    using assms(1) by (simp add: unsigned_ucast_eq take_bit_nat_eq_self)
  have l: "length ?rl \<le> 4" using mqtt_remaining_length_bound [of "ucast var_len"] assms(1) v by simp
  show "snd (mqtt_decode_remaining_length (?rl @ body)) = length ?rl"
    using mqtt_remaining_length_round_trip [of "ucast var_len" body] assms(1) v by simp
  show "?rl \<noteq> []" by (subst mqtt_encode_remaining_length.simps) simp
  have "unat (of_nat (length ?rl + 1) + var_len :: 64 word) = length ?rl + 1 + unat var_len"
    using l assms(1) by (subst unat_add_lem [THEN iffD1]) (simp_all add: unat_of_nat_small del: of_nat_Suc of_nat_add)
  then have "1 + of_nat (length ?rl) + var_len \<le> out_size"
    using l assms(2) by (simp add: word_le_nat_alt add.commute)
  then show "mqtt_finish header var_len body out_size = Some (header # ?rl @ body)"
    using l by (simp add: mqtt_finish_def Let_def not_le)
qed

lemma two_bits:
  assumes "unat (q :: byte) < 4"
  obtains "q = 0" | "q = 1" | "q = 2" | "q = 3"
proof -
  have "unat q = 0 \<or> unat q = 1 \<or> unat q = 2 \<or> unat q = 3" using assms by arith
  then have "q = 0 \<or> q = 1 \<or> q = 2 \<or> q = 3" by (simp add: word_unat_eq_iff)
  then show ?thesis using that by blast
qed

lemma mqtt_publish_header_bits:
  assumes "unat (mp_qos pub) < 4"
  shows "mqtt_publish_header pub AND 0xF0 = MQTT_PUBLISH" "mqtt_publish_header pub AND 0x08 \<noteq> 0 \<longleftrightarrow> mp_dup pub"
    "mqtt_publish_header pub AND 0x01 \<noteq> 0 \<longleftrightarrow> mp_retain pub"
    "drop_bit 1 (mqtt_publish_header pub) AND 0x03 = mp_qos pub"
  using assms by (auto elim!: two_bits simp: mqtt_publish_header_def MQTT_PUBLISH_def)

abbreviation id_bytes :: "MQTTPublish \<Rightarrow> byte list" where
  "id_bytes pub \<equiv> (if mp_qos pub > 0 then [ucast (drop_bit 8 (mp_packet_id pub)), ucast (mp_packet_id pub)] else [])"

lemma mqtt_publish_encoded:
  assumes "length (mp_topic pub) < 256" and "mp_payload pub = Some p" and "mp_payload_len pub = of_nat (length p)"
    and "length p < 2 ^ 27" and "length p + 300 \<le> unat out_size"
  obtains rl where "mqtt_encode_publish pub out_size =
      Some (mqtt_publish_header pub # rl @ mqtt_encode_utf8 (mp_topic pub) @ id_bytes pub @ p)"
    and "snd (mqtt_decode_remaining_length (rl @ mqtt_encode_utf8 (mp_topic pub) @ id_bytes pub @ p)) = length rl"
    and "rl \<noteq> []"
proof -
  let ?v = "2 + of_nat (length (mp_topic pub)) + (if mp_qos pub > 0 then 2 else 0) + mp_payload_len pub"
  have "?v = of_nat (2 + length (mp_topic pub) + (if mp_qos pub > 0 then 2 else 0) + length p)"
    by (simp add: assms(3))
  then have v: "unat ?v = 2 + length (mp_topic pub) + (if mp_qos pub > 0 then 2 else 0) + length p"
    using assms(1,4) by (simp only:) (rule unat_of_nat_small, simp)
  have small: "unat ?v < 2 ^ 28" and fits: "unat ?v + 5 \<le> unat out_size" unfolding v using assms(1,4,5) by auto
  have pl: "unat (mp_payload_len pub) = length p" unfolding assms(3) using assms(4) by (intro unat_of_nat_small) simp
  have body: "(case mp_payload pub of Some p \<Rightarrow> if mp_payload_len pub > 0 then take (unat (mp_payload_len pub)) p else []
      | None \<Rightarrow> []) = p"
    by (cases "mp_payload_len pub > 0") (use pl in \<open>auto simp: assms(2) word_gt_0\<close>)
  show thesis
    by (rule mqtt_finish_ok [OF small fits, of "mqtt_publish_header pub" "mqtt_encode_utf8 (mp_topic pub) @ id_bytes pub @ p"],
        rule that) (simp_all add: mqtt_encode_publish_def mqtt_encode_utf8_def Let_def body)
qed

lemma mqtt_publish_decoded:
  assumes data: "data = mqtt_publish_header pub # rl @ mqtt_encode_utf8 (mp_topic pub) @ id_bytes pub @ p"
    and pos: "snd (mqtt_decode_remaining_length (drop 1 data)) = length rl" and "rl \<noteq> []"
    and topic: "length (mp_topic pub) < 256" "0 \<notin> set (mp_topic pub)" and q: "unat (mp_qos pub) < 4"
    and "mp_payload pub = Some p" and "mp_payload_len pub = of_nat (length p)"
  shows "mqtt_decode_publish data old =
      Some (if mp_qos pub = 0 then pub\<lparr>mp_packet_id := mp_packet_id old\<rparr> else pub, 0)"
proof -
  let ?pos = "1 + length rl" and ?n = "length (mp_topic pub)"
  have d0: "drop ?pos data = [ucast (drop_bit 8 (of_nat ?n :: 64 word)), ucast (of_nat ?n :: 64 word)] @ mp_topic pub @ id_bytes pub @ p"
    by (simp add: data mqtt_encode_utf8_def Let_def)
  have u: "u16_at data ?pos = Some (of_nat ?n)" using u16_at_len [OF d0] topic(1) by simp
  have n: "unat (of_nat ?n :: 16 word) = ?n" using topic(1) by (intro unat_of_nat_small) simp
  have d1: "drop (?pos + 2) data = mp_topic pub @ id_bytes pub @ p" using drop_next [OF d0] by simp
  have b: "bytes_at data (?pos + 2) ?n = Some (mp_topic pub)"
    using bytes_at_drop [OF d1 refl] by (simp add: data mqtt_encode_utf8_def Let_def)
  have d2: "drop (?pos + 2 + ?n) data = id_bytes pub @ p" using drop_next [OF d1] .
  have d3: "drop (?pos + 2 + ?n + length (id_bytes pub)) data = p" using drop_next [OF d2] .
  have len: "length data - (?pos + 2 + ?n + length (id_bytes pub)) = length p" using arg_cong [OF d3, of length] by simp
  have h: "data ! 0 = mqtt_publish_header pub" and l: "\<not> length data < 2" using data assms(3) by (auto simp: mqtt_encode_utf8_def Let_def)
  have rec: "old\<lparr>mp_dup := mp_dup pub, mp_retain := mp_retain pub, mp_qos := mp_qos pub, mp_topic := mp_topic pub,
      mp_packet_id := i, mp_payload_len := of_nat (length p), mp_payload := Some p\<rparr> = pub\<lparr>mp_packet_id := i\<rparr>" for i
    using assms(7,8) by (cases pub; cases old) simp
  show ?thesis
  proof (cases "mp_qos pub = 0")
    case True
    then show ?thesis
      using d3 len rec [of "mp_packet_id old"]
      unfolding mqtt_decode_publish_def h pos Let_def u bind.bind_lunit n b mqtt_publish_header_bits [OF q]
      by (cases old) (simp add: l MQTT_MAX_TOPIC_def topic not_le)
  next
    case False
    then have "u16_at data (?pos + 2 + ?n) = Some (mp_packet_id pub)" using u16_at_word d2 by (simp add: word_gt_0)
    then show ?thesis
      using d3 len False rec [of "mp_packet_id pub"]
      unfolding mqtt_decode_publish_def h pos Let_def u bind.bind_lunit n b mqtt_publish_header_bits [OF q]
      by (cases old) (simp add: l MQTT_MAX_TOPIC_def topic not_le word_gt_0)
  qed
qed

text \<open>A PUBLISH packet that fits is read back as it was sent, whatever the receiving structure held.\<close>

theorem mqtt_publish_round_trip:
  assumes "length (mp_topic pub) < 256" and "0 \<notin> set (mp_topic pub)" and "unat (mp_qos pub) < 4"
    and "mp_payload pub = Some p" and "mp_payload_len pub = of_nat (length p)"
    and "length p < 2 ^ 27" and "length p + 300 \<le> unat out_size"
  shows "\<exists>packet. mqtt_encode_publish pub out_size = Some packet \<and> packet \<noteq> [] \<and>
    mqtt_decode_publish packet old =
      Some (if mp_qos pub = 0 then pub\<lparr>mp_packet_id := mp_packet_id old\<rparr> else pub, 0)"
  by (rule mqtt_publish_encoded [OF assms(1,4,5,6,7)], intro exI conjI, assumption, simp)
    (rule mqtt_publish_decoded [OF refl], use assms in simp_all)

theorem mqtt_publish_round_trip_witness:
  "\<exists>packet. mqtt_encode_publish \<lparr>mp_packet_id = 7, mp_topic = [0x61, 0x2F, 0x62], mp_payload = Some [1, 0, 2],
      mp_payload_len = 3, mp_qos = 2, mp_retain = True, mp_dup = False\<rparr> 400 = Some packet \<and> packet \<noteq> [] \<and>
    mqtt_decode_publish packet \<lparr>mp_packet_id = 0, mp_topic = [], mp_payload = None,
      mp_payload_len = 0, mp_qos = 0, mp_retain = False, mp_dup = False\<rparr> =
      Some (\<lparr>mp_packet_id = 7, mp_topic = [0x61, 0x2F, 0x62], mp_payload = Some [1, 0, 2],
        mp_payload_len = 3, mp_qos = 2, mp_retain = True, mp_dup = False\<rparr>, 0)"
  using mqtt_publish_round_trip [of "\<lparr>mp_packet_id = 7, mp_topic = [0x61, 0x2F, 0x62], mp_payload = Some [1, 0, 2],
      mp_payload_len = 3, mp_qos = 2, mp_retain = True, mp_dup = False\<rparr>" "[1, 0, 2]" 400] by simp

lemma mqtt_connect_flag_bits:
  fixes c :: MQTTConnect
  assumes "unat (mc_will_qos c) < 4"
  defines "f \<equiv> mqtt_connect_flags c"
  shows "f AND 0x02 \<noteq> 0 \<longleftrightarrow> mc_clean_start c" "f AND 0x04 \<noteq> 0 \<longleftrightarrow> mc_will_set c"
    "drop_bit 3 f AND 0x03 = (if mc_will_set c then mc_will_qos c else 0)"
    "f AND 0x20 \<noteq> 0 \<longleftrightarrow> mc_will_set c \<and> mc_will_retain c"
    "f AND 0x80 \<noteq> 0 \<longleftrightarrow> mc_username c \<noteq> []" "f AND 0x40 \<noteq> 0 \<longleftrightarrow> mc_password c \<noteq> []"
  unfolding f_def mqtt_connect_flags_def
  by (cases rule: two_bits [OF assms(1)]; cases "mc_clean_start c"; cases "mc_will_set c"; cases "mc_will_retain c";
      cases "mc_username c = []"; cases "mc_password c = []"; simp)+

text \<open>What a CONNECT packet carries: without a will its fields, quality and retain flag are not sent.\<close>

definition mqtt_connect_sent :: "MQTTConnect \<Rightarrow> MQTTConnect" where
  "mqtt_connect_sent c =
     (if mc_will_set c then c
      else c\<lparr>mc_will_topic := [], mc_will_message := [], mc_will_qos := 0, mc_will_retain := False\<rparr>)"

definition mqtt_connect_ok :: "MQTTConnect \<Rightarrow> bool" where
  "mqtt_connect_ok c \<longleftrightarrow> unat (mc_will_qos c) < 4 \<and>
     length (mc_client_id c) < 64 \<and> length (mc_username c) < 64 \<and> length (mc_password c) < 64 \<and>
     length (mc_will_topic c) < 256 \<and> length (mc_will_message c) < 256 \<and>
     0 \<notin> set (mc_client_id c) \<union> set (mc_username c) \<union> set (mc_password c) \<union> set (mc_will_topic c) \<union> set (mc_will_message c)"

definition mqtt_connect_zero :: MQTTConnect where
  "mqtt_connect_zero = \<lparr>mc_client_id = [], mc_clean_start = False, mc_keep_alive = 0, mc_username = [], mc_password = [],
     mc_will_topic = [], mc_will_message = [], mc_will_set = False, mc_will_qos = 0, mc_will_retain = False\<rparr>"

lemma length_mqtt_encode_utf8 [simp]: "length (mqtt_encode_utf8 s) = 2 + length s"
  by (simp add: mqtt_encode_utf8_def Let_def)

lemma length_mqtt_connect_payload: "mqtt_connect_ok c \<Longrightarrow> length (mqtt_connect_payload c) \<le> 709"
  by (auto simp: mqtt_connect_ok_def mqtt_connect_payload_def)

lemma mqtt_connect_encoded:
  assumes ok: "mqtt_connect_ok c" and "1000 \<le> unat out_size"
  obtains rl where "mqtt_encode_connect c out_size = Some (MQTT_CONNECT # rl @ [0x00, 0x04, 0x4D, 0x51, 0x54, 0x54,
      MQTT_PROTOCOL_VERSION, mqtt_connect_flags c, ucast (drop_bit 8 (mc_keep_alive c)), ucast (mc_keep_alive c)] @ mqtt_connect_payload c)"
    and "snd (mqtt_decode_remaining_length (rl @ [0x00, 0x04, 0x4D, 0x51, 0x54, 0x54,
      MQTT_PROTOCOL_VERSION, mqtt_connect_flags c, ucast (drop_bit 8 (mc_keep_alive c)), ucast (mc_keep_alive c)] @ mqtt_connect_payload c)) = length rl"
    and "rl \<noteq> []"
proof -
  note len = length_mqtt_connect_payload [OF ok]
  have "(10 + of_nat (length (mqtt_connect_payload c)) :: 64 word) = of_nat (10 + length (mqtt_connect_payload c))" by simp
  then have v: "unat (10 + of_nat (length (mqtt_connect_payload c)) :: 64 word) = 10 + length (mqtt_connect_payload c)"
    using len by (simp only:) (rule unat_of_nat_small, simp)
  have small: "unat (10 + of_nat (length (mqtt_connect_payload c)) :: 64 word) < 2 ^ 28"
    and fits: "unat (10 + of_nat (length (mqtt_connect_payload c)) :: 64 word) + 5 \<le> unat out_size"
    unfolding v using len assms(2) by auto
  show thesis
    by (rule mqtt_finish_ok [OF small fits, of MQTT_CONNECT "[0x00, 0x04, 0x4D, 0x51, 0x54, 0x54, MQTT_PROTOCOL_VERSION,
        mqtt_connect_flags c, ucast (drop_bit 8 (mc_keep_alive c)), ucast (mc_keep_alive c)] @ mqtt_connect_payload c"],
        rule that) (use len in \<open>simp_all add: mqtt_encode_connect_def Let_def\<close>)
qed

lemma mqtt_connect_will_encoded:
  assumes "drop pos data = (if mc_will_set c1 then mqtt_encode_utf8 wt @ mqtt_encode_utf8 wm else []) @ rest"
    and "length wt < 256" "length wm < 256" "0 \<notin> set wt" "0 \<notin> set wm"
  shows "\<exists>pos'. mqtt_connect_will data (pos, c1) =
      Some (pos', if mc_will_set c1 then c1\<lparr>mc_will_topic := wt, mc_will_message := wm\<rparr> else c1) \<and> drop pos' data = rest"
proof (cases "mc_will_set c1")
  case True
  then have d: "drop pos data = mqtt_encode_utf8 wt @ mqtt_encode_utf8 wm @ rest" using assms(1) by simp
  note f1 = mqtt_field_encoded [OF d, of 256 False "mc_will_topic c1"]
  then have d2: "drop (pos + length (mqtt_encode_utf8 wt)) data = mqtt_encode_utf8 wm @ rest" using assms(2,4) by blast
  show ?thesis
    using f1 mqtt_field_encoded [OF d2, of 256 False "mc_will_message c1"] True assms(2-5)
    by (simp add: mqtt_connect_will_def MQTT_MAX_WILL_TOPIC_def MQTT_MAX_WILL_MSG_def del: length_mqtt_encode_utf8)
qed (use assms(1) in \<open>simp add: mqtt_connect_will_def\<close>)

lemma mqtt_connect_user_encoded:
  assumes "drop pos data = (if s \<noteq> [] then mqtt_encode_utf8 s else []) @ rest" and "flags AND 0x80 \<noteq> 0 \<longleftrightarrow> s \<noteq> []"
    and "length s < 64" "0 \<notin> set s" and "mc_username c1 = []"
  shows "\<exists>pos'. mqtt_connect_user data flags (pos, c1) = Some (pos', c1\<lparr>mc_username := s\<rparr>) \<and> drop pos' data = rest"
proof (cases "s = []")
  case False
  then have d: "drop pos data = mqtt_encode_utf8 s @ rest" using assms(1) by simp
  show ?thesis
    using mqtt_field_encoded [OF d, of 64 True "mc_username c1"] False assms(2-5)
    by (simp add: mqtt_connect_user_def MQTT_MAX_USERNAME_def del: length_mqtt_encode_utf8)
qed (use assms in \<open>simp add: mqtt_connect_user_def\<close>)

lemma mqtt_connect_pass_encoded:
  assumes "drop pos data = (if s \<noteq> [] then mqtt_encode_utf8 s else []) @ rest" and "flags AND 0x40 \<noteq> 0 \<longleftrightarrow> s \<noteq> []"
    and "length s < 64" "0 \<notin> set s" and "mc_password c1 = []"
  shows "\<exists>pos'. mqtt_connect_pass data flags (pos, c1) = Some (pos', c1\<lparr>mc_password := s\<rparr>) \<and> drop pos' data = rest"
proof (cases "s = []")
  case False
  then have d: "drop pos data = mqtt_encode_utf8 s @ rest" using assms(1) by simp
  show ?thesis
    using mqtt_field_encoded [OF d, of 64 True "mc_password c1"] False assms(2-5)
    by (simp add: mqtt_connect_pass_def MQTT_MAX_PASSWORD_def del: length_mqtt_encode_utf8)
qed (use assms in \<open>simp add: mqtt_connect_pass_def\<close>)

lemma mqtt_connect_decoded:
  assumes ok: "mqtt_connect_ok c" and "rl \<noteq> []"
    and data: "data = MQTT_CONNECT # rl @ [0x00, 0x04, 0x4D, 0x51, 0x54, 0x54,
      MQTT_PROTOCOL_VERSION, mqtt_connect_flags c, ucast (drop_bit 8 (mc_keep_alive c)), ucast (mc_keep_alive c)] @ mqtt_connect_payload c"
    and pos: "snd (mqtt_decode_remaining_length (drop 1 data)) = length rl"
  shows "mqtt_decode_connect data mqtt_connect_zero = Some (mqtt_connect_sent c, 0)"
proof -
  let ?p = "1 + length rl" and ?f = "mqtt_connect_flags c"
  note okd = ok [unfolded mqtt_connect_ok_def]
  note bits = mqtt_connect_flag_bits [OF okd [THEN conjunct1]]
  have dd: "drop (?p + n) data = drop n ([0x00, 0x04, 0x4D, 0x51, 0x54, 0x54, MQTT_PROTOCOL_VERSION, ?f,
      ucast (drop_bit 8 (mc_keep_alive c)), ucast (mc_keep_alive c)] @ mqtt_connect_payload c)" for n
    by (simp add: data)
  have u: "u16_at data ?p = Some 4" using dd [of 0] by (simp add: u16_at_def)
  have v: "byte_at data (?p + 2 + 4) = Some MQTT_PROTOCOL_VERSION" "byte_at data (?p + 2 + 4 + 1) = Some ?f"
    using dd [of 6] dd [of 7] by (simp_all add: byte_at_def)
  have k: "u16_at data (?p + 2 + 4 + 2) = Some (mc_keep_alive c)"
    by (rule u16_at_word [where rest = "mqtt_connect_payload c"]) (use dd [of 8] in simp)
  have d: "drop (?p + 2 + 4 + 4) data = mqtt_connect_payload c" using dd [of 10] by simp
  define c1 where "c1 = mqtt_connect_zero\<lparr>mc_clean_start := ?f AND 0x02 \<noteq> 0, mc_will_set := ?f AND 0x04 \<noteq> 0,
    mc_will_qos := drop_bit 3 ?f AND 0x03, mc_will_retain := ?f AND 0x20 \<noteq> 0,
    mc_keep_alive := mc_keep_alive c, mc_client_id := mc_client_id c\<rparr>"
  have c1: "mc_will_set c1 = mc_will_set c" "mc_username c1 = []" "mc_password c1 = []"
    by (simp_all add: c1_def mqtt_connect_zero_def bits)
  note cid = mqtt_field_encoded [OF d [unfolded mqtt_connect_payload_def], of 64 True "[]"]
  define p1 where "p1 = ?p + 2 + 4 + 4 + length (mqtt_encode_utf8 (mc_client_id c))"
  have f1: "mqtt_field True 64 data (?p + 2 + 4 + 4) [] = Some (mc_client_id c, p1)" using cid(1) okd by (simp add: p1_def)
  have d1: "drop p1 data = (if mc_will_set c then mqtt_encode_utf8 (mc_will_topic c) @ mqtt_encode_utf8 (mc_will_message c) else []) @
     (if mc_username c \<noteq> [] then mqtt_encode_utf8 (mc_username c) else []) @
     (if mc_password c \<noteq> [] then mqtt_encode_utf8 (mc_password c) else [])"
    using cid(2) okd by (simp add: p1_def)
  define c2 where "c2 = (if mc_will_set c1 then c1\<lparr>mc_will_topic := mc_will_topic c, mc_will_message := mc_will_message c\<rparr> else c1)"
  have c2: "mc_username c2 = []" "mc_password c2 = []" using c1 by (simp_all add: c2_def)
  obtain p2 where w: "mqtt_connect_will data (p1, c1) = Some (p2, c2)"
    and d2: "drop p2 data = (if mc_username c \<noteq> [] then mqtt_encode_utf8 (mc_username c) else []) @
     (if mc_password c \<noteq> [] then mqtt_encode_utf8 (mc_password c) else [])"
    using mqtt_connect_will_encoded [OF d1 [folded c1(1)]] okd unfolding c2_def by auto
  obtain p3 where un: "mqtt_connect_user data ?f (p2, c2) = Some (p3, c2\<lparr>mc_username := mc_username c\<rparr>)"
    and d3: "drop p3 data = (if mc_password c \<noteq> [] then mqtt_encode_utf8 (mc_password c) else []) @ []"
    using mqtt_connect_user_encoded [OF d2 bits(5), of c2] okd c2 by auto
  obtain p4 where pw: "mqtt_connect_pass data ?f (p3, c2\<lparr>mc_username := mc_username c\<rparr>) =
      Some (p4, c2\<lparr>mc_username := mc_username c, mc_password := mc_password c\<rparr>)"
    using mqtt_connect_pass_encoded [OF d3 bits(6), of "c2\<lparr>mc_username := mc_username c\<rparr>"] okd c2 by auto
  have res: "c2\<lparr>mc_username := mc_username c, mc_password := mc_password c\<rparr> = mqtt_connect_sent c"
    unfolding c2_def c1_def bits by (cases c) (simp add: mqtt_connect_zero_def mqtt_connect_sent_def)
  have h: "data ! 0 = MQTT_CONNECT" and l: "\<not> length data < 14" using assms(2) by (auto simp: data mqtt_connect_payload_def Suc_le_eq)
  have n4: "unat (4 :: 16 word) = 4" and z: "mc_client_id mqtt_connect_zero = []" by (simp_all add: mqtt_connect_zero_def)
  show ?thesis
    unfolding mqtt_decode_connect_def h pos Let_def u bind.bind_lunit n4 v k MQTT_MAX_CLIENT_ID_def z
    using f1 w un pw by (simp add: l c1_def [symmetric] res MQTT_CONNECT_def)
qed

text \<open>
  A server that reads a CONNECT packet into a cleared structure finds what the client sent: identifier, credentials,
  keep-alive and, if there is one, the will.
\<close>

theorem mqtt_connect_round_trip:
  assumes "mqtt_connect_ok c" and "1000 \<le> unat out_size"
  shows "\<exists>packet. mqtt_encode_connect c out_size = Some packet \<and> packet \<noteq> [] \<and>
    mqtt_decode_connect packet mqtt_connect_zero = Some (mqtt_connect_sent c, 0)"
  by (rule mqtt_connect_encoded [OF assms], intro exI conjI, assumption, simp)
    (rule mqtt_connect_decoded [OF assms(1) _ refl], simp_all)

theorem mqtt_connect_round_trip_witness:
  "\<exists>packet. mqtt_encode_connect \<lparr>mc_client_id = [0x63, 0x31], mc_clean_start = True, mc_keep_alive = 60, mc_username = [0x75],
      mc_password = [], mc_will_topic = [0x77], mc_will_message = [], mc_will_set = True, mc_will_qos = 1,
      mc_will_retain = True\<rparr> 1024 = Some packet \<and> packet \<noteq> [] \<and>
    mqtt_decode_connect packet mqtt_connect_zero =
      Some (\<lparr>mc_client_id = [0x63, 0x31], mc_clean_start = True, mc_keep_alive = 60, mc_username = [0x75],
        mc_password = [], mc_will_topic = [0x77], mc_will_message = [], mc_will_set = True, mc_will_qos = 1,
        mc_will_retain = True\<rparr>, 0)"
  using mqtt_connect_round_trip [of "\<lparr>mc_client_id = [0x63, 0x31], mc_clean_start = True, mc_keep_alive = 60,
      mc_username = [0x75], mc_password = [], mc_will_topic = [0x77], mc_will_message = [], mc_will_set = True,
      mc_will_qos = 1, mc_will_retain = True\<rparr>" 1024]
  by (simp add: mqtt_connect_ok_def mqtt_connect_sent_def)

lemma mqtt_topic_loop_encoded:
  assumes "drop pos data = concat (map mqtt_topic_bytes ts)" and "length ts \<le> room" and "pos \<le> length data"
    and "\<forall>t \<in> set ts. length (mt_name t) < 256 \<and> 0 \<notin> set (mt_name t) \<and> unat (mt_qos t) < 4"
  shows "mqtt_topic_loop room data pos = Some ts"
  using assms
proof (induction ts arbitrary: pos room)
  case Nil
  then show ?case by (cases room) auto
next
  case (Cons t ts)
  obtain r where room: "room = Suc r" using Cons.prems(2) by (cases room) auto
  let ?n = "length (mt_name t)" and ?rest = "[mt_qos t AND 0x03] @ concat (map mqtt_topic_bytes ts)"
  have n: "?n < 256" using Cons.prems(4) by simp
  have d0: "drop pos data = [ucast (drop_bit 8 (of_nat ?n :: 64 word)), ucast (of_nat ?n :: 64 word)] @ mt_name t @ ?rest"
    using Cons.prems(1) by (simp add: mqtt_topic_bytes_def [of t] Let_def)
  have len: "pos + 3 + ?n \<le> length data" using arg_cong [OF d0, of length] Cons.prems(3) by simp
  have u: "u16_at data pos = Some (of_nat ?n)" using u16_at_len [OF d0] n by simp
  have un: "unat (of_nat ?n :: 16 word) = ?n" using n by (intro unat_of_nat_small) simp
  have d1: "drop (pos + 2) data = mt_name t @ ?rest" using drop_next [OF d0] by simp
  have b: "bytes_at data (pos + 2) ?n = Some (mt_name t)" using bytes_at_drop [OF d1 refl] len by simp
  have d2: "drop (pos + 2 + ?n) data = ?rest" using drop_next [OF d1] .
  have q: "byte_at data (pos + 2 + ?n) = Some (mt_qos t AND 0x03)" using byte_at_drop d2 by simp
  have d3: "drop (pos + 3 + ?n) data = concat (map mqtt_topic_bytes ts)" using drop_next [OF d2] by (simp add: eval_nat_numeral)
  have ih: "mqtt_topic_loop r data (pos + 3 + ?n) = Some ts" using Cons.IH [OF d3] Cons.prems(2,4) len room by simp
  have "unat (mt_qos t) < 4" using Cons.prems(4) by simp
  then have "mt_qos t AND 0x03 = mt_qos t" by (auto elim: two_bits)
  then show ?case
    unfolding room mqtt_topic_loop.simps u bind.bind_lunit un b q ih
    using len n Cons.prems(4) by (simp add: MQTT_MAX_TOPIC_def)
qed

lemma mqtt_subscribe_var_len:
  "fold (\<lambda>t n. n + (2 + of_nat (length (mt_name t)) + 1)) ts (of_nat k) =
    (of_nat (k + length (concat (map mqtt_topic_bytes ts))) :: 64 word)"
proof (induction ts arbitrary: k)
  case (Cons t ts)
  have "of_nat k + (2 + of_nat (length (mt_name t)) + 1) = (of_nat (k + length (mqtt_topic_bytes t)) :: 64 word)"
    by (simp add: mqtt_topic_bytes_def Let_def)
  then show ?case using Cons.IH [of "k + length (mqtt_topic_bytes t)"] by (simp only: fold.simps comp_apply) (simp add: add.assoc)
qed simp

text \<open>The topics and packet identifier of a SUBSCRIBE packet that fits are read back in order.\<close>

theorem mqtt_subscribe_round_trip:
  assumes "\<forall>t \<in> set ts. length (mt_name t) < 256 \<and> 0 \<notin> set (mt_name t) \<and> unat (mt_qos t) < 4"
    and "length ts \<le> max_topics" and "length (concat (map mqtt_topic_bytes ts)) + 7 \<le> unat out_size"
    and "length (concat (map mqtt_topic_bytes ts)) < 2 ^ 27"
  shows "\<exists>packet. mqtt_encode_subscribe packet_id ts out_size = Some packet \<and> packet \<noteq> [] \<and>
    mqtt_decode_subscribe packet max_topics = Some (packet_id, ts)"
proof -
  let ?c = "concat (map mqtt_topic_bytes ts)"
  let ?id = "[ucast (drop_bit 8 packet_id), ucast packet_id] :: byte list"
  have f: "fold (\<lambda>t n. n + (2 + of_nat (length (mt_name t)) + 1)) ts (2 :: 64 word) = of_nat (2 + length ?c)"
    using mqtt_subscribe_var_len [of ts 2] by simp
  have v: "unat (of_nat (2 + length ?c) :: 64 word) = 2 + length ?c" using assms(4) by (intro unat_of_nat_small) simp
  have s: "unat (of_nat (2 + length ?c) :: 64 word) < 2 ^ 28" "unat (of_nat (2 + length ?c) :: 64 word) + 5 \<le> unat out_size"
    unfolding v using assms(3,4) by auto
  obtain rl where rl: "mqtt_finish MQTT_SUBSCRIBE (of_nat (2 + length ?c)) (?id @ ?c) out_size = Some (MQTT_SUBSCRIBE # rl @ ?id @ ?c)"
    and pos: "snd (mqtt_decode_remaining_length (rl @ ?id @ ?c)) = length rl"
    using mqtt_finish_ok [OF s] by blast
  let ?d = "MQTT_SUBSCRIBE # rl @ ?id @ ?c"
  have "u16_at ?d (1 + length rl) = Some packet_id" by (rule u16_at_word [where rest = ?c]) simp
  moreover have "mqtt_topic_loop max_topics ?d (1 + length rl + 2) = Some ts"
    by (rule mqtt_topic_loop_encoded [OF _ assms(2) _ assms(1)]) simp_all
  ultimately have "mqtt_decode_subscribe ?d max_topics = Some (packet_id, ts)"
    using pos by (simp add: mqtt_decode_subscribe_def Let_def)
  then show ?thesis using rl f by (simp add: mqtt_encode_subscribe_def)
qed

theorem mqtt_subscribe_round_trip_witness:
  "\<exists>packet. mqtt_encode_subscribe 9 [\<lparr>mt_name = [0x61, 0x2F, 0x23], mt_qos = 1\<rparr>, \<lparr>mt_name = [0x62], mt_qos = 2\<rparr>] 64 = Some packet \<and>
    packet \<noteq> [] \<and> mqtt_decode_subscribe packet 4 = Some (9, [\<lparr>mt_name = [0x61, 0x2F, 0x23], mt_qos = 1\<rparr>, \<lparr>mt_name = [0x62], mt_qos = 2\<rparr>])"
  using mqtt_subscribe_round_trip [of "[\<lparr>mt_name = [0x61, 0x2F, 0x23], mt_qos = 1\<rparr>, \<lparr>mt_name = [0x62], mt_qos = 2\<rparr>]" 4 64 9]
  by (simp add: mqtt_topic_bytes_def Let_def)

section \<open>Malformed packets\<close>

text \<open>The dispatcher masks the reserved bits, so that no SUBSCRIBE packet is recognised as one.\<close>

lemma mqtt_subscribe_type_lost:
  "mqtt_encode_subscribe packet_id ts out_size = Some (b # bs) \<Longrightarrow> bs \<noteq> [] \<Longrightarrow>
    mqtt_decode_packet (b # bs) = Inr 0x80 \<and> 0x80 \<noteq> MQTT_SUBSCRIBE"
  by (auto simp: mqtt_encode_subscribe_def mqtt_finish_def Let_def mqtt_decode_packet_def MQTT_SUBSCRIBE_def
      neq_Nil_conv split: if_splits)

text \<open>A topic length that points behind the end of the packet is followed, not refused.\<close>

lemma mqtt_publish_short_overread: "mqtt_decode_publish [0x30, 0x02, 0x00, 0x05] old = None"
  by (simp add: mqtt_decode_publish_def mqtt_decode_remaining_length_def Let_def u16_at_def bytes_at_def MQTT_PUBLISH_def
      MQTT_MAX_TOPIC_def)

end
