(* ===== verification/MqttBroker.thy ===== *)
theory MqttBroker
  imports MqttPackets "HOL-Library.Sublist" "HOL-Library.Multiset"
begin

text \<open>
  The broker of \<open>mini-app-protocol/src/mqtt.c\<close>: topic filters, clients and subscriptions, routing of a publication, and
  the manager that tracks the handshakes of the delivery qualities. Arrays with their counters are lists; text is a C
  string as a list of bytes. A buffer that \<open>malloc\<close> returns is an argument (\<open>None\<close> when it fails). Null guards are not
  modelled.
\<close>

section \<open>Topic filters\<close>

definition slash :: byte where "slash = 0x2F"
definition plus_sign :: byte where "plus_sign = 0x2B"
definition hash_sign :: byte where "hash_sign = 0x23"

fun mqtt_topic_match :: "byte list \<Rightarrow> byte list \<Rightarrow> bool" where
  "mqtt_topic_match [] topic = (topic = [])"
| "mqtt_topic_match (c # f) [] = (c = hash_sign)"
| "mqtt_topic_match (c # f) (d # topic) =
     (if c = plus_sign then mqtt_topic_match f (dropWhile (\<lambda>x. x \<noteq> slash) (d # topic))
      else if c = hash_sign then True
      else if c = d then mqtt_topic_match f topic
      else False)"

section \<open>Broker\<close>

definition MQTT_MAX_SUBS_PER_CLIENT :: nat where "MQTT_MAX_SUBS_PER_CLIENT = 32"
definition MQTT_MAX_CLIENTS :: nat where "MQTT_MAX_CLIENTS = 64"

record MQTTClient =
  cl_client_id :: "byte list"
  cl_subscriptions :: "MQTTTopic list"
  cl_connected :: bool

type_synonym MQTTBroker = "MQTTClient list"

definition mqtt_broker_init :: MQTTBroker where
  "mqtt_broker_init = []"

definition mqtt_broker_connect :: "MQTTBroker \<Rightarrow> byte list \<Rightarrow> MQTTBroker \<times> int" where
  "mqtt_broker_connect broker client_id =
     (if length broker \<ge> MQTT_MAX_CLIENTS then (broker, -2)
      else (broker @ [\<lparr>cl_client_id = take (MQTT_MAX_CLIENT_ID - 1) client_id, cl_subscriptions = [], cl_connected = True\<rparr>], 0))"

definition client_index :: "MQTTBroker \<Rightarrow> byte list \<Rightarrow> nat option" where
  "client_index broker client_id = find_index (\<lambda>c. cl_client_id c = client_id) broker"

definition mqtt_broker_disconnect :: "MQTTBroker \<Rightarrow> byte list \<Rightarrow> MQTTBroker" where
  "mqtt_broker_disconnect broker client_id =
     (case client_index broker client_id of
        None \<Rightarrow> broker
      | Some i \<Rightarrow> broker[i := (broker ! i)\<lparr>cl_connected := False\<rparr>])"

definition mqtt_broker_subscribe :: "MQTTBroker \<Rightarrow> byte list \<Rightarrow> MQTTTopic list \<Rightarrow> MQTTBroker \<times> int" where
  "mqtt_broker_subscribe broker client_id topics =
     (case client_index broker client_id of
        None \<Rightarrow> (broker, -2)
      | Some i \<Rightarrow>
          (let c = broker ! i;
               room = MQTT_MAX_SUBS_PER_CLIENT - length (cl_subscriptions c)
           in (broker[i := c\<lparr>cl_subscriptions := cl_subscriptions c @ take room topics\<rparr>], 0)))"

text \<open>The loop over the clients, with the targets found so far.\<close>

fun mqtt_targets :: "byte list \<Rightarrow> nat \<Rightarrow> MQTTClient list \<Rightarrow> byte list list \<Rightarrow> byte list list" where
  "mqtt_targets topic max_targets [] found = found"
| "mqtt_targets topic max_targets (c # cs) found =
     (if length found < max_targets
      then if \<not> cl_connected c then mqtt_targets topic max_targets cs found
           else if list_ex (\<lambda>s. mqtt_topic_match (mt_name s) topic) (cl_subscriptions c)
           then mqtt_targets topic max_targets cs (found @ [cl_client_id c])
           else mqtt_targets topic max_targets cs found
      else found)"

definition mqtt_broker_handle_publish :: "MQTTBroker \<Rightarrow> MQTTPublish \<Rightarrow> nat \<Rightarrow> byte list list" where
  "mqtt_broker_handle_publish broker pub max_targets = mqtt_targets (mp_topic pub) max_targets broker []"

section \<open>Delivery qualities\<close>

datatype MQTTQoS = MQTT_QOS_0 | MQTT_QOS_1 | MQTT_QOS_2

datatype MQTTQoSState =
    MQTT_QOS_STATE_IDLE
  | MQTT_QOS_STATE_AWAITING_PUBACK
  | MQTT_QOS_STATE_AWAITING_PUBREC
  | MQTT_QOS_STATE_AWAITING_PUBREL
  | MQTT_QOS_STATE_AWAITING_PUBCOMP
  | MQTT_QOS_STATE_COMPLETE

record MQTTQoSTracker =
  qt_packet_id :: "16 word"
  qt_qos :: MQTTQoS
  qt_state :: MQTTQoSState
  qt_payload :: "byte list option"
  qt_payload_len :: nat
  qt_topic :: "byte list"
  qt_retain :: bool
  qt_retry_count :: "32 word"
  qt_max_retries :: "32 word"

type_synonym MQTTQoSManager = "MQTTQoSTracker list"

definition mqtt_qos_manager_init :: MQTTQoSManager where
  "mqtt_qos_manager_init = []"

definition mqtt_qos_find :: "MQTTQoSManager \<Rightarrow> 16 word \<Rightarrow> nat option" where
  "mqtt_qos_find mgr packet_id = find_index (\<lambda>t. qt_packet_id t = packet_id) mgr"

definition qos_payload :: "byte list option \<Rightarrow> byte list option \<Rightarrow> nat \<Rightarrow> byte list option" where
  "qos_payload mem payload len =
     (case mem of None \<Rightarrow> None
      | Some m \<Rightarrow> (case payload of None \<Rightarrow> Some m | Some p \<Rightarrow> Some (take len p)))"

definition mqtt_qos_track_outgoing ::
  "byte list option \<Rightarrow> MQTTQoSManager \<Rightarrow> 16 word \<Rightarrow> MQTTQoS \<Rightarrow> byte list \<Rightarrow> byte list option \<Rightarrow> nat \<Rightarrow> bool \<Rightarrow>
    MQTTQoSManager \<times> int" where
  "mqtt_qos_track_outgoing mem mgr packet_id qos topic payload payload_len retain =
     (if qos = MQTT_QOS_0 then (mgr, 0)
      else if length mgr \<ge> 64 then (mgr, -2)
      else (mgr @ [\<lparr>qt_packet_id = packet_id, qt_qos = qos,
                    qt_state = (if qos = MQTT_QOS_1 then MQTT_QOS_STATE_AWAITING_PUBACK else MQTT_QOS_STATE_AWAITING_PUBREC),
                    qt_payload = qos_payload mem payload payload_len, qt_payload_len = payload_len,
                    qt_topic = take (MQTT_MAX_TOPIC - 1) topic, qt_retain = retain,
                    qt_retry_count = 0, qt_max_retries = 5\<rparr>], 0))"

definition mqtt_qos_track_incoming ::
  "byte list option \<Rightarrow> MQTTQoSManager \<Rightarrow> 16 word \<Rightarrow> MQTTQoS \<Rightarrow> byte list \<Rightarrow> byte list option \<Rightarrow> nat \<Rightarrow> bool \<Rightarrow>
    MQTTQoSManager \<times> int" where
  "mqtt_qos_track_incoming mem mgr packet_id qos topic payload payload_len retain =
     (if qos = MQTT_QOS_0 then (mgr, 0)
      else if length mgr \<ge> 64 then (mgr, -2)
      else (mgr @ [\<lparr>qt_packet_id = packet_id, qt_qos = qos,
                    qt_state = (if qos = MQTT_QOS_1 then MQTT_QOS_STATE_COMPLETE else MQTT_QOS_STATE_AWAITING_PUBREL),
                    qt_payload = qos_payload mem payload payload_len, qt_payload_len = payload_len,
                    qt_topic = take (MQTT_MAX_TOPIC - 1) topic, qt_retain = retain,
                    qt_retry_count = 0, qt_max_retries = 5\<rparr>], 0))"

definition mqtt_qos_handle_puback :: "MQTTQoSManager \<Rightarrow> 16 word \<Rightarrow> MQTTQoSManager \<times> int" where
  "mqtt_qos_handle_puback mgr packet_id =
     (case mqtt_qos_find mgr packet_id of
        None \<Rightarrow> (mgr, -2)
      | Some i \<Rightarrow>
          if qt_state (mgr ! i) = MQTT_QOS_STATE_AWAITING_PUBACK
          then (mgr[i := (mgr ! i)\<lparr>qt_state := MQTT_QOS_STATE_COMPLETE, qt_payload := None\<rparr>], 0)
          else (mgr, -3))"

definition mqtt_qos_handle_pubrec :: "MQTTQoSManager \<Rightarrow> 16 word \<Rightarrow> MQTTQoSManager \<times> int" where
  "mqtt_qos_handle_pubrec mgr packet_id =
     (case mqtt_qos_find mgr packet_id of
        None \<Rightarrow> (mgr, -2)
      | Some i \<Rightarrow>
          if qt_state (mgr ! i) = MQTT_QOS_STATE_AWAITING_PUBREC
          then (mgr[i := (mgr ! i)\<lparr>qt_state := MQTT_QOS_STATE_AWAITING_PUBCOMP\<rparr>], 0)
          else (mgr, -3))"

definition mqtt_qos_handle_pubrel :: "MQTTQoSManager \<Rightarrow> 16 word \<Rightarrow> MQTTQoSManager \<times> int" where
  "mqtt_qos_handle_pubrel mgr packet_id =
     (case mqtt_qos_find mgr packet_id of
        None \<Rightarrow> (mgr, -2)
      | Some i \<Rightarrow>
          if qt_state (mgr ! i) = MQTT_QOS_STATE_AWAITING_PUBREL
          then (mgr[i := (mgr ! i)\<lparr>qt_state := MQTT_QOS_STATE_COMPLETE, qt_payload := None\<rparr>], 0)
          else (mgr, -3))"

definition mqtt_qos_handle_pubcomp :: "MQTTQoSManager \<Rightarrow> 16 word \<Rightarrow> MQTTQoSManager \<times> int" where
  "mqtt_qos_handle_pubcomp mgr packet_id =
     (case mqtt_qos_find mgr packet_id of
        None \<Rightarrow> (mgr, -2)
      | Some i \<Rightarrow>
          if qt_state (mgr ! i) = MQTT_QOS_STATE_AWAITING_PUBCOMP
          then (mgr[i := (mgr ! i)\<lparr>qt_state := MQTT_QOS_STATE_COMPLETE, qt_payload := None\<rparr>], 0)
          else (mgr, -3))"

definition qos_pending :: "MQTTQoSTracker \<Rightarrow> bool" where
  "qos_pending t \<longleftrightarrow> qt_state t \<noteq> MQTT_QOS_STATE_IDLE \<and> qt_state t \<noteq> MQTT_QOS_STATE_COMPLETE"

text \<open>The first pending tracker: return code, packet identifier and packet type, or \<open>-2\<close>.\<close>

definition mqtt_qos_get_next_action :: "MQTTQoSManager \<Rightarrow> MQTTQoSManager \<times> int \<times> (16 word \<times> byte) option" where
  "mqtt_qos_get_next_action mgr =
     (case find_index qos_pending mgr of
        None \<Rightarrow> (mgr, -2, None)
      | Some i \<Rightarrow>
          (let t = mgr ! i; retried = mgr[i := t\<lparr>qt_retry_count := qt_retry_count t + 1\<rparr>]
           in case qt_state t of
                MQTT_QOS_STATE_AWAITING_PUBREL \<Rightarrow> (mgr, 1, Some (qt_packet_id t, MQTT_PUBREL))
              | MQTT_QOS_STATE_AWAITING_PUBCOMP \<Rightarrow> (retried, 0, Some (qt_packet_id t, MQTT_PUBREL))
              | _ \<Rightarrow> (retried, 0, Some (qt_packet_id t, MQTT_PUBLISH))))"

definition mqtt_qos_remove :: "MQTTQoSManager \<Rightarrow> 16 word \<Rightarrow> MQTTQoSManager" where
  "mqtt_qos_remove mgr packet_id =
     (case mqtt_qos_find mgr packet_id of
        None \<Rightarrow> mgr
      | Some i \<Rightarrow> if i < length mgr - 1 then butlast (mgr[i := last mgr]) else butlast mgr)"

definition mqtt_qos_is_complete :: "MQTTQoSManager \<Rightarrow> 16 word \<Rightarrow> bool" where
  "mqtt_qos_is_complete mgr packet_id =
     (case mqtt_qos_find mgr packet_id of
        None \<Rightarrow> False
      | Some i \<Rightarrow> qt_state (mgr ! i) = MQTT_QOS_STATE_COMPLETE)"

section \<open>Filters match level by level\<close>

text \<open>Topics and filters as sequences of levels, separated by slashes.\<close>

fun levels :: "byte list \<Rightarrow> byte list list" where
  "levels [] = [[]]"
| "levels (c # s) = (if c = slash then [] # levels s else (c # hd (levels s)) # tl (levels s))"

fun unlevels :: "byte list list \<Rightarrow> byte list" where
  "unlevels [] = []"
| "unlevels [l] = l"
| "unlevels (l # ls) = l @ slash # unlevels ls"

text \<open>
  The documented meaning of a filter: a multi-level wildcard, the last level of its filter, stands for all remaining levels
  and for none (it matches the parent level too), a single-level wildcard for one level, any other level for itself.
\<close>

fun level_match :: "byte list list \<Rightarrow> byte list list \<Rightarrow> bool" where
  "level_match (f # fs) ts =
     (if f = [hash_sign] \<and> fs = [] then True
      else case ts of [] \<Rightarrow> False | t # ts \<Rightarrow> (f = [plus_sign] \<or> f = t) \<and> level_match fs ts)"
| "level_match [] ts = (ts = [])"

definition valid_filter :: "byte list \<Rightarrow> bool" where
  "valid_filter f \<longleftrightarrow> (\<forall>l \<in> set (levels f). l = [plus_sign] \<or> l = [hash_sign] \<or> plus_sign \<notin> set l \<and> hash_sign \<notin> set l) \<and>
     [hash_sign] \<notin> set (butlast (levels f))"

text \<open>The filter matches the topic only because its multi-level wildcard may stand for no level.\<close>

definition parent_match :: "byte list list \<Rightarrow> byte list list \<Rightarrow> bool" where
  "parent_match fs ts \<longleftrightarrow> last fs = [hash_sign] \<and> level_match (butlast fs) ts"

text \<open>What the character loop decides: its multi-level wildcard stands for one or more levels.\<close>

fun loop_match :: "byte list list \<Rightarrow> byte list list \<Rightarrow> bool" where
  "loop_match (f # fs) (t # ts) = (f = [hash_sign] \<or> (f = [plus_sign] \<or> f = t) \<and> loop_match fs ts)"
| "loop_match [] [] = True"
| "loop_match _ _ = False"

lemma loop_match_documented:
  assumes "[hash_sign] \<notin> set (butlast fs)" and "fs \<noteq> []" and "\<not> parent_match fs ts"
  shows "loop_match fs ts = level_match fs ts"
  using assms
proof (induction fs arbitrary: ts)
  case (Cons f fs)
  show ?case
  proof (cases "fs = []")
    case True
    have "loop_match [] us = (us = [])" for us by (cases us) simp_all
    then show ?thesis using True Cons.prems(3) by (cases ts) (auto simp: parent_match_def hash_sign_def plus_sign_def)
  next
    case False
    then show ?thesis using Cons by (cases ts) (auto simp: parent_match_def hash_sign_def plus_sign_def)
  qed
qed simp

lemmas sign_defs = slash_def plus_sign_def hash_sign_def

lemma levels_not_Nil [simp]: "levels s \<noteq> []"
  by (cases s) auto

lemma levels_no_slash: "l \<in> set (levels s) \<Longrightarrow> slash \<notin> set l"
proof (induction s arbitrary: l)
  case (Cons c s)
  obtain k ls where "levels s = k # ls" by (cases "levels s") auto
  then show ?case using Cons by (auto split: if_splits)
qed simp

lemma unlevels_Cons: "ls \<noteq> [] \<Longrightarrow> unlevels (l # ls) = l @ slash # unlevels ls"
  by (cases ls) auto

lemma unlevels_levels: "unlevels (levels s) = s"
proof (induction s)
  case (Cons c s)
  obtain l ls where l: "levels s = l # ls" by (cases "levels s") auto
  then show ?case using Cons by (cases ls) (auto simp: unlevels_Cons)
qed simp

text \<open>What follows a level: nothing or a slash.\<close>

definition at_level_end :: "byte list \<Rightarrow> bool" where
  "at_level_end s \<longleftrightarrow> s = [] \<or> hd s = slash"

lemma match_literal:
  assumes "slash \<notin> set l" "plus_sign \<notin> set l" "hash_sign \<notin> set l" "slash \<notin> set t" "at_level_end F" "at_level_end T"
  shows "mqtt_topic_match (l @ F) (t @ T) \<longleftrightarrow> l = t \<and> mqtt_topic_match F T"
  using assms
proof (induction l arbitrary: t)
  case Nil
  then show ?case by (cases t; cases F) (auto simp: at_level_end_def sign_defs)
next
  case (Cons c l)
  then show ?case by (cases t; cases T) (auto simp: at_level_end_def)
qed

lemma match_plus:
  assumes "slash \<notin> set t" "at_level_end T" "t @ T \<noteq> []"
  shows "mqtt_topic_match (plus_sign # F) (t @ T) \<longleftrightarrow> mqtt_topic_match F T"
proof -
  have "dropWhile (\<lambda>x. x \<noteq> slash) (t @ T) = T"
    using assms(1,2) by (induction t) (auto simp: at_level_end_def dropWhile_eq_self_iff)
  then show ?thesis using assms(3) by (cases "t @ T") auto
qed

lemma match_hash: "mqtt_topic_match (hash_sign # F) t"
  by (cases t) (auto simp: sign_defs)

definition level_rest :: "byte list list \<Rightarrow> byte list" where
  "level_rest ls = (if ls = [] then [] else slash # unlevels ls)"

lemma unlevels_rest: "unlevels (l # ls) = l @ level_rest ls"
  by (cases ls) (auto simp: level_rest_def)

lemma level_rest_end [simp]: "at_level_end (level_rest ls)"
  by (simp add: level_rest_def at_level_end_def)

lemma match_unlevels:
  assumes "\<forall>f \<in> set fs. slash \<notin> set f \<and> (f = [plus_sign] \<or> f = [hash_sign] \<or> plus_sign \<notin> set f \<and> hash_sign \<notin> set f)"
    and "\<forall>t \<in> set ts. slash \<notin> set t" and "fs \<noteq> []" and "ts \<noteq> []" and "last ts \<noteq> []"
  shows "mqtt_topic_match (unlevels fs) (unlevels ts) = loop_match fs ts"
  using assms
proof (induction fs ts rule: loop_match.induct)
  case (1 f fs t ts)
  have rest: "mqtt_topic_match (level_rest fs) (level_rest ts) = loop_match fs ts"
  proof (cases "fs = [] \<or> ts = []")
    case True
    then show ?thesis by (cases fs; cases ts) (auto simp: level_rest_def sign_defs)
  next
    case False
    then show ?thesis using 1 by (simp add: level_rest_def sign_defs)
  qed
  have ne: "t @ level_rest ts \<noteq> []" using 1(6) by (auto simp: level_rest_def)
  show ?case
    using 1(2,3) rest match_plus [OF _ level_rest_end ne] match_hash match_literal [OF _ _ _ _ level_rest_end level_rest_end]
    unfolding unlevels_rest by (auto simp: sign_defs)
qed auto

text \<open>
  The character loop decides the documented meaning of a valid filter for a topic whose last level is not empty, unless only
  the parent level would match.
\<close>

lemma mqtt_topic_match_level_wise:
  assumes "valid_filter f" and "last (levels t) \<noteq> []" and "\<not> parent_match (levels f) (levels t)"
  shows "mqtt_topic_match f t = level_match (levels f) (levels t)"
proof -
  have "mqtt_topic_match f t = loop_match (levels f) (levels t)"
    using match_unlevels [of "levels f" "levels t"] assms(1,2)
    by (auto simp: unlevels_levels valid_filter_def dest: levels_no_slash)
  then show ?thesis using loop_match_documented [of "levels f" "levels t"] assms(1,3) by (simp add: valid_filter_def)
qed

text \<open>
  The two exceptions: at the end of the topic a single-level wildcard does not match an empty level (\<open>a/+\<close> and \<open>a/\<close>),
  and a multi-level wildcard does not match the parent level (\<open>a/#\<close> and \<open>a\<close>).
\<close>

lemma mqtt_topic_match_end:
  "\<not> mqtt_topic_match [0x61, 0x2F, 0x2B] [0x61, 0x2F]" "mqtt_topic_match [0x61, 0x2F, 0x2B, 0x2F, 0x62] [0x61, 0x2F, 0x2F, 0x62]"
  "\<not> mqtt_topic_match [0x61, 0x2F, 0x23] [0x61]"
  by (simp_all add: sign_defs)

section \<open>Routing\<close>

lemma mqtt_targets_filter:
  "length found \<le> max_targets \<Longrightarrow> mqtt_targets topic max_targets cs found =
    take max_targets (found @ map cl_client_id (filter (\<lambda>c. cl_connected c \<and>
      (\<exists>s \<in> set (cl_subscriptions c). mqtt_topic_match (mt_name s) topic)) cs))"
  by (induction topic max_targets cs found rule: mqtt_targets.induct) (auto simp: list_ex_iff)

text \<open>
  C34. A publication reaches, in the order of the table and at most once per entry, the first \<open>max_targets\<close> entries of
  connected clients that have a subscription which matches the topic by the documented rules: level by level, \<open>+\<close> for one
  level, \<open>#\<close> for all remaining ones. The conditions: in every subscription of the table a wildcard is alone in its level and
  \<open>#\<close> is the last level, the last level of the topic is not empty, and no subscription matches the topic only by letting its
  \<open>#\<close> stand for no level at all, as \<open>a/#\<close> does for the parent level \<open>a\<close>.
\<close>

theorem mqtt_publish_reaches_subscribers:
  assumes "\<forall>c \<in> set broker. \<forall>s \<in> set (cl_subscriptions c).
      valid_filter (mt_name s) \<and> \<not> parent_match (levels (mt_name s)) (levels (mp_topic pub))"
    and "last (levels (mp_topic pub)) \<noteq> []"
  shows "mqtt_broker_handle_publish broker pub max_targets =
    take max_targets (map cl_client_id (filter (\<lambda>c. cl_connected c \<and>
      (\<exists>s \<in> set (cl_subscriptions c). level_match (levels (mt_name s)) (levels (mp_topic pub)))) broker))"
proof -
  have "filter (\<lambda>c. cl_connected c \<and> (\<exists>s \<in> set (cl_subscriptions c). mqtt_topic_match (mt_name s) (mp_topic pub))) broker =
      filter (\<lambda>c. cl_connected c \<and> (\<exists>s \<in> set (cl_subscriptions c). level_match (levels (mt_name s)) (levels (mp_topic pub)))) broker"
    using assms mqtt_topic_match_level_wise by (intro filter_cong refl) auto
  then show ?thesis by (simp add: mqtt_broker_handle_publish_def mqtt_targets_filter)
qed

text \<open>The filters \<open>a/+\<close>, \<open>a/#\<close> and \<open>b\<close> and the topic \<open>a/x\<close>.\<close>

definition demo_broker :: MQTTBroker where
  "demo_broker =
     [\<lparr>cl_client_id = [0x31], cl_subscriptions = [\<lparr>mt_name = [0x61, 0x2F, 0x2B], mt_qos = 0\<rparr>], cl_connected = True\<rparr>,
      \<lparr>cl_client_id = [0x32], cl_subscriptions = [\<lparr>mt_name = [0x62], mt_qos = 0\<rparr>], cl_connected = True\<rparr>,
      \<lparr>cl_client_id = [0x33], cl_subscriptions = [\<lparr>mt_name = [0x61, 0x2F, 0x23], mt_qos = 0\<rparr>], cl_connected = True\<rparr>]"

definition demo_publish :: MQTTPublish where
  "demo_publish = \<lparr>mp_packet_id = 0, mp_topic = [0x61, 0x2F, 0x78], mp_payload = None, mp_payload_len = 0, mp_qos = 0,
     mp_retain = False, mp_dup = False\<rparr>"

theorem mqtt_publish_reaches_subscribers_witness:
  "mqtt_broker_handle_publish demo_broker demo_publish 8 = [[0x31], [0x33]]"
proof -
  have "\<forall>c \<in> set demo_broker. \<forall>s \<in> set (cl_subscriptions c).
      valid_filter (mt_name s) \<and> \<not> parent_match (levels (mt_name s)) (levels (mp_topic demo_publish))"
    by (simp add: demo_broker_def demo_publish_def valid_filter_def parent_match_def sign_defs)
  then show ?thesis using mqtt_publish_reaches_subscribers [of demo_broker demo_publish 8]
    by (simp add: demo_broker_def demo_publish_def sign_defs)
qed

text \<open>
  A client that comes back gets a second entry, but its subscriptions go to the first, which is disconnected: it receives
  nothing.
\<close>

lemma mqtt_reconnected_client_lost:
  defines "b1 \<equiv> fst (mqtt_broker_connect mqtt_broker_init [0x63])"
  defines "b2 \<equiv> fst (mqtt_broker_connect (mqtt_broker_disconnect b1 [0x63]) [0x63])"
  defines "b3 \<equiv> fst (mqtt_broker_subscribe b2 [0x63] [\<lparr>mt_name = [0x61], mt_qos = 0\<rparr>])"
  shows "mp_topic pub = [0x61] \<Longrightarrow> mqtt_broker_handle_publish b3 pub 8 = []"
  by (simp add: b1_def b2_def b3_def mqtt_broker_init_def mqtt_broker_connect_def mqtt_broker_disconnect_def
      mqtt_broker_subscribe_def mqtt_broker_handle_publish_def client_index_def MQTT_MAX_CLIENTS_def MQTT_MAX_CLIENT_ID_def
      MQTT_MAX_SUBS_PER_CLIENT_def sign_defs)

section \<open>The handshakes of one message\<close>

text \<open>
  An abstract view of the manager: the handshake of one message as an automaton over the acknowledgements that carry its
  identifier. The events are the operations of the manager with their arguments.
\<close>

datatype qos_ack = PUBACK | PUBREC | PUBREL | PUBCOMP

fun qos_next :: "MQTTQoSState \<Rightarrow> qos_ack \<Rightarrow> MQTTQoSState" where
  "qos_next MQTT_QOS_STATE_AWAITING_PUBACK PUBACK = MQTT_QOS_STATE_COMPLETE"
| "qos_next MQTT_QOS_STATE_AWAITING_PUBREC PUBREC = MQTT_QOS_STATE_AWAITING_PUBCOMP"
| "qos_next MQTT_QOS_STATE_AWAITING_PUBREL PUBREL = MQTT_QOS_STATE_COMPLETE"
| "qos_next MQTT_QOS_STATE_AWAITING_PUBCOMP PUBCOMP = MQTT_QOS_STATE_COMPLETE"
| "qos_next s _ = s"

datatype qos_event =
    Ack qos_ack "16 word"
  | Track_out "byte list option" "16 word" MQTTQoS "byte list" "byte list option" nat bool
  | Track_in "byte list option" "16 word" MQTTQoS "byte list" "byte list option" nat bool
  | Next_action
  | Remove "16 word"

definition qos_handle :: "qos_ack \<Rightarrow> MQTTQoSManager \<Rightarrow> 16 word \<Rightarrow> MQTTQoSManager \<times> int" where
  "qos_handle a = (case a of PUBACK \<Rightarrow> mqtt_qos_handle_puback | PUBREC \<Rightarrow> mqtt_qos_handle_pubrec
     | PUBREL \<Rightarrow> mqtt_qos_handle_pubrel | PUBCOMP \<Rightarrow> mqtt_qos_handle_pubcomp)"

fun qos_event_step :: "qos_event \<Rightarrow> MQTTQoSManager \<Rightarrow> MQTTQoSManager" where
  "qos_event_step (Ack a i) mgr = fst (qos_handle a mgr i)"
| "qos_event_step (Track_out mem i q tp p n r) mgr = fst (mqtt_qos_track_outgoing mem mgr i q tp p n r)"
| "qos_event_step (Track_in mem i q tp p n r) mgr = fst (mqtt_qos_track_incoming mem mgr i q tp p n r)"
| "qos_event_step Next_action mgr = fst (mqtt_qos_get_next_action mgr)"
| "qos_event_step (Remove i) mgr = mqtt_qos_remove mgr i"

text \<open>Events that do not reuse or drop an identifier, and the acknowledgements that carry it.\<close>

fun keeps_id :: "16 word \<Rightarrow> qos_event \<Rightarrow> bool" where
  "keeps_id k (Track_out mem i q tp p n r) = (i \<noteq> k)"
| "keeps_id k (Track_in mem i q tp p n r) = (i \<noteq> k)"
| "keeps_id k (Remove i) = (i \<noteq> k)"
| "keeps_id k _ = True"

fun acks_of :: "16 word \<Rightarrow> qos_event list \<Rightarrow> qos_ack list" where
  "acks_of k [] = []"
| "acks_of k (Ack a i # es) = (if i = k then a # acks_of k es else acks_of k es)"
| "acks_of k (_ # es) = acks_of k es"

text \<open>The manager holds exactly one tracker for an identifier.\<close>

definition tracks :: "MQTTQoSManager \<Rightarrow> 16 word \<Rightarrow> MQTTQoSTracker \<Rightarrow> bool" where
  "tracks mgr k t \<longleftrightarrow> filter (\<lambda>t. qt_packet_id t = k) mgr = [t]"

lemma tracks_mset: "tracks mgr k t \<longleftrightarrow> filter_mset (\<lambda>t. qt_packet_id t = k) (mset mgr) = {#t#}"
  by (simp add: tracks_def flip: mset_filter)

lemma tracks_unique:
  assumes "tracks mgr k t" and "x \<in> set mgr" and "qt_packet_id x = k"
  shows "x = t"
proof -
  have "x \<in> set (filter (\<lambda>t. qt_packet_id t = k) mgr)" using assms(2,3) by simp
  then have "x \<in> set [t]" using assms(1) unfolding tracks_def by (simp only:)
  then show ?thesis by simp
qed

lemma tracks_find:
  assumes "tracks mgr k t"
  obtains i where "mqtt_qos_find mgr k = Some i" "i < length mgr" "mgr ! i = t" "qt_packet_id t = k"
proof -
  have "t \<in> set (filter (\<lambda>t. qt_packet_id t = k) mgr)" using assms by (simp add: tracks_def)
  then have t: "t \<in> set mgr" "qt_packet_id t = k" by auto
  then obtain i where i: "mqtt_qos_find mgr k = Some i"
    using find_index_None_iff [of "\<lambda>t. qt_packet_id t = k" mgr] by (cases "mqtt_qos_find mgr k") (auto simp: mqtt_qos_find_def)
  note d = find_index_SomeD [OF i [unfolded mqtt_qos_find_def]]
  then have "mgr ! i = t" using tracks_unique [OF assms] by simp
  then show thesis using that i d(1) t(2) by blast
qed

lemma tracks_update:
  assumes "tracks mgr k t" and "i < length mgr" and "qt_packet_id y = qt_packet_id (mgr ! i)"
  shows "tracks (mgr[i := y]) k (if qt_packet_id (mgr ! i) = k then y else t)"
proof -
  have m: "mset (mgr[i := y]) = add_mset y (mset mgr - {#mgr ! i#})" using assms(2) by (rule mset_update)
  show ?thesis
  proof (cases "qt_packet_id (mgr ! i) = k")
    case True
    then have "mgr ! i = t" using tracks_unique [OF assms(1)] assms(2) by simp
    then show ?thesis using assms True by (simp add: tracks_mset m)
  next
    case False
    then show ?thesis using assms by (simp add: tracks_mset m)
  qed
qed

lemma qos_handle_find:
  "qos_handle a mgr k =
     (case mqtt_qos_find mgr k of
        None \<Rightarrow> (mgr, -2)
      | Some i \<Rightarrow>
          if qos_next (qt_state (mgr ! i)) a \<noteq> qt_state (mgr ! i)
          then (mgr[i := (mgr ! i)\<lparr>qt_state := qos_next (qt_state (mgr ! i)) a,
                   qt_payload := (if qos_next (qt_state (mgr ! i)) a = MQTT_QOS_STATE_COMPLETE then None else qt_payload (mgr ! i))\<rparr>], 0)
          else (mgr, -3))"
  by (cases a; auto simp: qos_handle_def mqtt_qos_handle_puback_def mqtt_qos_handle_pubrec_def mqtt_qos_handle_pubrel_def
      mqtt_qos_handle_pubcomp_def split: option.splits; cases "qt_state (mgr ! the (mqtt_qos_find mgr k))"; simp)

lemma tracks_remove:
  assumes "tracks mgr k t" and "j \<noteq> k"
  shows "tracks (mqtt_qos_remove mgr j) k t"
proof (cases "mqtt_qos_find mgr j")
  case (Some i)
  note d = find_index_SomeD [OF Some [unfolded mqtt_qos_find_def]]
  have drop_last: "mset (butlast xs) = mset xs - {#last xs#}" if "xs \<noteq> []" for xs :: MQTTQoSManager
    using that by (induction xs rule: rev_induct) auto
  have ne: "mgr \<noteq> []" using d(1) by auto
  have "mset (mqtt_qos_remove mgr j) = mset mgr - {#mgr ! i#}"
  proof (cases "i < length mgr - 1")
    case True
    then have "last (mgr[i := last mgr]) = last mgr" using ne by (simp add: last_list_update)
    then show ?thesis
      using Some True d(1) ne drop_last [of "mgr[i := last mgr]"] by (simp add: mqtt_qos_remove_def mset_update)
  next
    case False
    then have "mgr ! i = last mgr" using d(1) ne by (simp add: last_conv_nth) (metis Suc_pred less_antisym length_greater_0_conv)
    then show ?thesis using Some False ne drop_last [of mgr] by (simp add: mqtt_qos_remove_def)
  qed
  then show ?thesis using assms d(2) by (simp add: tracks_mset)
qed (use assms in \<open>simp add: mqtt_qos_remove_def\<close>)

lemma tracks_next_action:
  assumes "tracks mgr k t"
  shows "\<exists>t'. tracks (fst (mqtt_qos_get_next_action mgr)) k t' \<and> qt_state t' = qt_state t \<and> qt_payload t' = qt_payload t \<and> qt_topic t' = qt_topic t"
proof (cases "find_index qos_pending mgr")
  case (Some i)
  note d = find_index_SomeD [OF Some]
  let ?y = "(mgr ! i)\<lparr>qt_retry_count := qt_retry_count (mgr ! i) + 1\<rparr>"
  have "tracks (mgr[i := ?y]) k (if qt_packet_id (mgr ! i) = k then ?y else t)"
    using tracks_update [OF assms d(1), of ?y] by simp
  moreover have "qt_packet_id (mgr ! i) = k \<Longrightarrow> mgr ! i = t" using tracks_unique [OF assms] d(1) by simp
  ultimately have "\<exists>t'. tracks (mgr[i := ?y]) k t' \<and> qt_state t' = qt_state t \<and> qt_payload t' = qt_payload t \<and> qt_topic t' = qt_topic t"
    by (cases "qt_packet_id (mgr ! i) = k") auto
  then show ?thesis
    using assms Some by (cases "qt_state (mgr ! i)") (auto simp: mqtt_qos_get_next_action_def Let_def)
qed (use assms in \<open>auto simp: mqtt_qos_get_next_action_def\<close>)

lemma tracks_handle:
  assumes "tracks mgr k t"
  shows "\<exists>t'. tracks (fst (qos_handle a mgr j)) k t' \<and> qt_state t' = (if j = k then qos_next (qt_state t) a else qt_state t) \<and>
    (qt_state t' \<noteq> MQTT_QOS_STATE_COMPLETE \<longrightarrow> qt_payload t' = qt_payload t) \<and> qt_topic t' = qt_topic t"
proof (cases "mqtt_qos_find mgr j")
  case (Some i)
  note d = find_index_SomeD [OF Some [unfolded mqtt_qos_find_def]]
  let ?s = "qos_next (qt_state (mgr ! i)) a"
  let ?y = "(mgr ! i)\<lparr>qt_state := ?s, qt_payload := (if ?s = MQTT_QOS_STATE_COMPLETE then None else qt_payload (mgr ! i))\<rparr>"
  have tr: "tracks (mgr[i := ?y]) k (if j = k then ?y else t)" using tracks_update [OF assms d(1), of ?y] d(2) by simp
  have t: "j = k \<Longrightarrow> mgr ! i = t" using tracks_unique [OF assms] d by simp
  show ?thesis
  proof (cases "?s = qt_state (mgr ! i)")
    case True
    then show ?thesis using assms t by (auto simp: qos_handle_find Some)
  next
    case False
    then show ?thesis
      by (intro exI [of _ "if j = k then ?y else t"]) (use tr t in \<open>auto simp: qos_handle_find Some\<close>)
  qed
next
  case None
  then have "j \<noteq> k" using tracks_find [OF assms] by (metis option.distinct(1))
  then show ?thesis using assms None by (auto simp: qos_handle_find)
qed

lemma tracks_step:
  assumes "tracks mgr k t" and "keeps_id k e"
  shows "\<exists>t'. tracks (qos_event_step e mgr) k t' \<and> qt_state t' = fold (\<lambda>a s. qos_next s a) (acks_of k [e]) (qt_state t) \<and>
    (qt_state t' \<noteq> MQTT_QOS_STATE_COMPLETE \<longrightarrow> qt_payload t' = qt_payload t) \<and> qt_topic t' = qt_topic t"
proof (cases e)
  case (Ack a j)
  then show ?thesis using tracks_handle [OF assms(1), of a j] by auto
next
  case Next_action
  then show ?thesis using tracks_next_action [OF assms(1)] by auto
next
  case (Remove j)
  then show ?thesis using tracks_remove [OF assms(1)] assms(2) by auto
qed (use assms in \<open>auto simp: tracks_def mqtt_qos_track_outgoing_def mqtt_qos_track_incoming_def\<close>)

lemma acks_of_Cons: "acks_of k (e # es) = acks_of k [e] @ acks_of k es"
  by (cases e) auto

lemma qos_complete_absorbs: "fold (\<lambda>a s. qos_next s a) as MQTT_QOS_STATE_COMPLETE = MQTT_QOS_STATE_COMPLETE"
  by (induction as) auto

lemma tracks_run:
  assumes "tracks mgr k t" and "list_all (keeps_id k) es"
  shows "\<exists>t'. tracks (fold qos_event_step es mgr) k t' \<and>
    qt_state t' = fold (\<lambda>a s. qos_next s a) (acks_of k es) (qt_state t) \<and>
    (qt_state t' \<noteq> MQTT_QOS_STATE_COMPLETE \<longrightarrow> qt_payload t' = qt_payload t) \<and> qt_topic t' = qt_topic t"
  using assms
proof (induction es arbitrary: mgr t)
  case (Cons e es)
  obtain t1 where t1: "tracks (qos_event_step e mgr) k t1"
      "qt_state t1 = fold (\<lambda>a s. qos_next s a) (acks_of k [e]) (qt_state t)"
      "qt_state t1 \<noteq> MQTT_QOS_STATE_COMPLETE \<longrightarrow> qt_payload t1 = qt_payload t" "qt_topic t1 = qt_topic t"
    using tracks_step [OF Cons.prems(1), of e] Cons.prems(2) by force
  obtain t2 where t2: "tracks (fold qos_event_step es (qos_event_step e mgr)) k t2"
      "qt_state t2 = fold (\<lambda>a s. qos_next s a) (acks_of k es) (qt_state t1)"
      "qt_state t2 \<noteq> MQTT_QOS_STATE_COMPLETE \<longrightarrow> qt_payload t2 = qt_payload t1" "qt_topic t2 = qt_topic t1"
    using Cons.IH [OF t1(1)] Cons.prems(2) by auto
  have "qt_state t1 = MQTT_QOS_STATE_COMPLETE \<Longrightarrow> qt_state t2 = MQTT_QOS_STATE_COMPLETE"
    using t2(2) by (simp add: qos_complete_absorbs)
  then show ?case using t1 t2 acks_of_Cons [of k e es] by (intro exI [of _ t2]) auto
qed auto

lemma qos2_outgoing_complete:
  "fold (\<lambda>a s. qos_next s a) as MQTT_QOS_STATE_AWAITING_PUBREC = MQTT_QOS_STATE_COMPLETE \<longleftrightarrow> subseq [PUBREC, PUBCOMP] as"
proof -
  have comp: "fold (\<lambda>a s. qos_next s a) as MQTT_QOS_STATE_AWAITING_PUBCOMP = MQTT_QOS_STATE_COMPLETE \<longleftrightarrow> subseq [PUBCOMP] as" for as
  proof (induction as)
    case (Cons a as)
    then show ?case by (cases a) (auto simp: qos_complete_absorbs subseq_singleton_left)
  qed simp
  show ?thesis
  proof (induction as)
    case (Cons a as)
    then show ?case by (cases a) (auto simp: comp)
  qed simp
qed

text \<open>
  C33. Exactly-once delivery, sender side. After a message with a fresh identifier is tracked at quality 2 in a table with a free
  entry, and whatever the manager does in between for other messages, or acknowledges for this one, the message is complete exactly when
  a PUBREC and later a PUBCOMP for it arrived; until then its payload and the first 255 bytes of its topic are kept for
  retransmission.
\<close>

theorem mqtt_qos2_completes:
  assumes "mqtt_qos_find mgr k = None" and "length mgr < 64" and "list_all (keeps_id k) es"
    and mgr'_def: "mgr' = fold qos_event_step es (fst (mqtt_qos_track_outgoing (Some mem) mgr k MQTT_QOS_2 topic (Some p) (length p) retain))"
  shows "(mqtt_qos_is_complete mgr' k \<longleftrightarrow> subseq [PUBREC, PUBCOMP] (acks_of k es)) \<and>
    (\<exists>i. mqtt_qos_find mgr' k = Some i \<and> qt_topic (mgr' ! i) = take 255 topic \<and>
      (\<not> mqtt_qos_is_complete mgr' k \<longrightarrow> qt_payload (mgr' ! i) = Some p))"
proof -
  obtain t where t: "tracks (fst (mqtt_qos_track_outgoing (Some mem) mgr k MQTT_QOS_2 topic (Some p) (length p) retain)) k t"
    "qt_state t = MQTT_QOS_STATE_AWAITING_PUBREC" "qt_payload t = Some p" "qt_topic t = take 255 topic"
    using assms(1,2)
    by (auto simp: tracks_def mqtt_qos_track_outgoing_def qos_payload_def MQTT_MAX_TOPIC_def mqtt_qos_find_def find_index_None_iff)
  obtain t' where t': "tracks mgr' k t'" "qt_state t' = fold (\<lambda>a s. qos_next s a) (acks_of k es) MQTT_QOS_STATE_AWAITING_PUBREC"
    "qt_state t' \<noteq> MQTT_QOS_STATE_COMPLETE \<longrightarrow> qt_payload t' = Some p" "qt_topic t' = take 255 topic"
    using tracks_run [OF t(1) assms(3)] t(2-4) unfolding mgr'_def by auto
  obtain i where i: "mqtt_qos_find mgr' k = Some i" "mgr' ! i = t'" using tracks_find [OF t'(1)] by metis
  then have "mqtt_qos_is_complete mgr' k \<longleftrightarrow> qt_state t' = MQTT_QOS_STATE_COMPLETE" by (simp add: mqtt_qos_is_complete_def)
  then show ?thesis using i t' qos2_outgoing_complete by auto
qed

theorem mqtt_qos2_completes_witness:
  "\<exists>mgr'. mgr' = fold qos_event_step [Next_action, Ack PUBCOMP 7, Track_in (Some []) 8 MQTT_QOS_2 [0x62] None 0 False,
       Ack PUBREC 7, Remove 8, Ack PUBCOMP 7]
     (fst (mqtt_qos_track_outgoing (Some [0, 0]) [] 7 MQTT_QOS_2 [0x61] (Some [1, 2]) (length [1, 2 :: byte]) False)) \<and>
     mqtt_qos_is_complete mgr' 7"
  using mqtt_qos2_completes [of "[]" 7 "[Next_action, Ack PUBCOMP 7, Track_in (Some []) 8 MQTT_QOS_2 [0x62] None 0 False,
      Ack PUBREC 7, Remove 8, Ack PUBCOMP 7]" _ "[0, 0]" "[0x61]" "[1, 2]" False, OF _ _ _ refl]
  by (simp add: mqtt_qos_find_def)

text \<open>
  Both directions share one table: an outgoing message hides an incoming one with the same identifier, whose PUBREL is
  refused.
\<close>

lemma mqtt_qos_directions_collide:
  "snd (mqtt_qos_handle_pubrel
     (fst (mqtt_qos_track_incoming mem (fst (mqtt_qos_track_outgoing mem [] 5 MQTT_QOS_2 tp p n r)) 5 MQTT_QOS_2 tp' p' n' r')) 5) = -3"
  by (simp add: mqtt_qos_track_incoming_def mqtt_qos_track_outgoing_def mqtt_qos_handle_pubrel_def mqtt_qos_find_def)

text \<open>The retry limit is never consulted: a message that is not acknowledged is offered for ever, before all others.\<close>

lemma mqtt_retry_without_limit:
  assumes "qt_state t = MQTT_QOS_STATE_AWAITING_PUBACK"
  shows "\<exists>t'. fold qos_event_step (replicate n Next_action) (t # ts) = t' # ts \<and> qt_state t' = MQTT_QOS_STATE_AWAITING_PUBACK \<and>
    qt_packet_id t' = qt_packet_id t"
  using assms
proof (induction n arbitrary: t)
  case (Suc n)
  have "qos_event_step Next_action (t # ts) = t\<lparr>qt_retry_count := qt_retry_count t + 1\<rparr> # ts"
    using Suc.prems by (simp add: mqtt_qos_get_next_action_def qos_pending_def)
  then show ?case using Suc.IH [of "t\<lparr>qt_retry_count := qt_retry_count t + 1\<rparr>"] Suc.prems
    by (simp del: qos_event_step.simps)
qed auto

end
