(* ===== verification/Http2.thy ===== *)
theory Http2
  imports Bytes
begin

unbundle bit_operations_syntax

text \<open>
  HTTP/2 framing (\<open>mini-app-protocol/src/http2_frames.c\<close>): frame headers, SETTINGS payloads, streams and flow
  control, header compression with the static and the dynamic table, and the priority tree.

  Buffers are byte lists and sizes natural numbers; a payload and its length are one list, the null payload
  being empty. A build operation returns the bytes it wrote, \<open>None\<close> standing for the failure value; a parse
  operation returns \<open>Inl\<close> of the negative code. Null guards are not modelled. A stream's \<open>outgoing_data\<close> is
  never filled by the source and is left out.
\<close>

section \<open>Frames\<close>

definition H2_FRAME_HEADER_SIZE :: nat where "H2_FRAME_HEADER_SIZE = 9"
definition H2_MAX_FRAME_SIZE :: nat where "H2_MAX_FRAME_SIZE = 16384"
definition H2_MAX_STREAMS :: nat where "H2_MAX_STREAMS = 16"
definition H2_MAX_HEADER_FIELDS :: nat where "H2_MAX_HEADER_FIELDS = 16"
definition H2_MAX_PRIORITY_NODES :: nat where "H2_MAX_PRIORITY_NODES = 32"

definition h2_frame_build :: "nat \<Rightarrow> byte \<Rightarrow> byte \<Rightarrow> 32 word \<Rightarrow> byte list \<Rightarrow> byte list option" where
  "h2_frame_build buf_size type flags stream_id payload =
     (let plen = of_nat (length payload) :: 64 word
      in if H2_FRAME_HEADER_SIZE + length payload > buf_size then None
         else Some ([ucast (drop_bit 16 plen), ucast (drop_bit 8 plen), ucast plen, type, flags,
                     ucast (drop_bit 24 stream_id), ucast (drop_bit 16 stream_id), ucast (drop_bit 8 stream_id),
                     ucast stream_id AND 0x7F] @ payload))"

record H2FrameHeader =
  h2_length :: "32 word"
  h2_type :: byte
  h2_flags :: byte
  h2_stream_id :: "32 word"

definition h2_frame_parse :: "byte list \<Rightarrow> int + (H2FrameHeader \<times> byte list)" where
  "h2_frame_parse data =
     (if length data < H2_FRAME_HEADER_SIZE then Inl (-1)
      else let len = push_bit 16 (ucast (data ! 0)) OR push_bit 8 (ucast (data ! 1)) OR ucast (data ! 2);
               sid = push_bit 24 (ucast (data ! 5 AND 0x7F)) OR push_bit 16 (ucast (data ! 6)) OR
                     push_bit 8 (ucast (data ! 7)) OR ucast (data ! 8);
               hdr = \<lparr>h2_length = len, h2_type = data ! 3, h2_flags = data ! 4, h2_stream_id = sid\<rparr>
           in if length data < H2_FRAME_HEADER_SIZE + unat len then Inl (-2)
              else Inr (hdr, take (unat len) (drop H2_FRAME_HEADER_SIZE data)))"

section \<open>Settings\<close>

record H2Settings =
  header_table_size :: "32 word"
  max_concurrent_streams :: "32 word"
  initial_window_size :: "32 word"
  max_frame_size :: "32 word"
  max_header_list_size :: "32 word"
  enable_push :: bool

definition h2_settings_init :: H2Settings where
  "h2_settings_init = \<lparr>header_table_size = 4096, max_concurrent_streams = 16, initial_window_size = 65535,
     max_frame_size = 16384, max_header_list_size = 0xFFFFFFFF, enable_push = True\<rparr>"

text \<open>The parameter table has 16-bit cells, so every value is cut to 16 bits on the way in.\<close>

definition h2_settings_params :: "H2Settings \<Rightarrow> (16 word \<times> 16 word) list" where
  "h2_settings_params s =
     [(1, ucast (header_table_size s AND 0xFFFF)), (2, if enable_push s then 1 else 0),
      (3, ucast (max_concurrent_streams s)), (4, ucast (initial_window_size s)),
      (5, ucast (max_frame_size s)), (6, ucast (max_header_list_size s))]"

definition h2_setting_bytes :: "16 word \<times> 16 word \<Rightarrow> byte list" where
  "h2_setting_bytes p =
     (case p of (ident, val) \<Rightarrow>
        [ucast (drop_bit 8 ident), ucast ident,
         ucast (drop_bit 24 (ucast val :: 32 word)), ucast (drop_bit 16 (ucast val :: 32 word)),
         ucast (drop_bit 8 (ucast val :: 32 word)), ucast (ucast val :: 32 word)])"

definition h2_settings_build :: "H2Settings \<Rightarrow> nat \<Rightarrow> byte list option" where
  "h2_settings_build s buf_size =
     (if buf_size < 36 then None else Some (concat (map h2_setting_bytes (h2_settings_params s))))"

definition h2_setting_apply :: "16 word \<Rightarrow> 32 word \<Rightarrow> H2Settings \<Rightarrow> H2Settings" where
  "h2_setting_apply ident val s =
     (if ident = 1 then s\<lparr>header_table_size := val\<rparr>
      else if ident = 2 then s\<lparr>enable_push := val \<noteq> 0\<rparr>
      else if ident = 3 then s\<lparr>max_concurrent_streams := val\<rparr>
      else if ident = 4 then s\<lparr>initial_window_size := val\<rparr>
      else if ident = 5 then s\<lparr>max_frame_size := val\<rparr>
      else if ident = 6 then s\<lparr>max_header_list_size := val\<rparr>
      else s)"

fun h2_settings_loop :: "byte list \<Rightarrow> H2Settings \<Rightarrow> H2Settings" where
  "h2_settings_loop (a # b # c # d # e # f # rest) s =
     h2_settings_loop rest
       (h2_setting_apply (push_bit 8 (ucast a) OR ucast b)
          (push_bit 24 (ucast c) OR push_bit 16 (ucast d) OR push_bit 8 (ucast e) OR ucast f) s)"
| "h2_settings_loop _ s = s"

definition h2_settings_parse :: "byte list \<Rightarrow> int + H2Settings" where
  "h2_settings_parse payload =
     (if length payload mod 6 \<noteq> 0 then Inl (-1) else Inr (h2_settings_loop payload h2_settings_init))"

section \<open>Streams and flow control\<close>

datatype H2StreamState =
  H2_STREAM_IDLE | H2_STREAM_RESERVED_LOCAL | H2_STREAM_RESERVED_REMOTE | H2_STREAM_OPEN
| H2_STREAM_HALF_CLOSED_LOCAL | H2_STREAM_HALF_CLOSED_REMOTE | H2_STREAM_TERMINATED

type_synonym header_field = "string \<times> string"

record H2Stream =
  hs_stream_id :: "32 word"
  hs_state :: H2StreamState
  hs_local_window :: "32 word"
  hs_remote_window :: "32 word"
  hs_headers :: "header_field list"

record H2Connection =
  hc_streams :: "H2Stream list"
  hc_local_settings :: H2Settings
  hc_remote_settings :: H2Settings
  hc_last_stream_id :: "32 word"
  hc_connection_window :: "32 word"
  hc_dynamic_table :: "header_field list"

definition h2_settings_exchange :: "H2Connection \<Rightarrow> H2Connection" where
  "h2_settings_exchange conn = conn\<lparr>hc_remote_settings := hc_local_settings conn\<rparr>"

definition h2_stream_open :: "H2Connection \<Rightarrow> int + (H2Connection \<times> 32 word)" where
  "h2_stream_open conn =
     (if length (hc_streams conn) \<ge> H2_MAX_STREAMS then Inl (-2)
      else let sid = hc_last_stream_id conn + 2;
               s = \<lparr>hs_stream_id = sid, hs_state = H2_STREAM_OPEN,
                    hs_local_window = initial_window_size (hc_remote_settings conn),
                    hs_remote_window = initial_window_size (hc_local_settings conn), hs_headers = []\<rparr>
           in Inr (conn\<lparr>hc_last_stream_id := sid, hc_streams := hc_streams conn @ [s]\<rparr>, sid))"

definition h2_stream_get :: "H2Connection \<Rightarrow> 32 word \<Rightarrow> nat option" where
  "h2_stream_get conn sid = find_index (\<lambda>s. hs_stream_id s = sid) (hc_streams conn)"

definition h2_put :: "nat \<Rightarrow> H2Stream \<Rightarrow> H2Connection \<Rightarrow> H2Connection" where
  "h2_put i s conn = conn\<lparr>hc_streams := (hc_streams conn)[i := s]\<rparr>"

definition h2_stream_close :: "H2Connection \<Rightarrow> 32 word \<Rightarrow> int + H2Connection" where
  "h2_stream_close conn sid =
     (case h2_stream_get conn sid of None \<Rightarrow> Inl (-2)
      | Some i \<Rightarrow> Inr (h2_put i ((hc_streams conn ! i)\<lparr>hs_state := H2_STREAM_TERMINATED\<rparr>) conn))"

text \<open>The increment is converted from \<open>int32_t\<close> to \<open>uint32_t\<close>.\<close>

definition h2_flow_control_update :: "H2Connection \<Rightarrow> 32 word \<Rightarrow> int \<Rightarrow> int + H2Connection" where
  "h2_flow_control_update conn sid increment =
     (if sid = 0
      then Inr (conn\<lparr>hc_connection_window := hc_connection_window conn + word_of_int increment\<rparr>)
      else case h2_stream_get conn sid of None \<Rightarrow> Inl (-2)
           | Some i \<Rightarrow>
               (let s = hc_streams conn ! i
                in Inr (h2_put i (s\<lparr>hs_remote_window := hs_remote_window s + word_of_int increment\<rparr>) conn)))"

definition h2_flow_control_can_send :: "H2Connection \<Rightarrow> 32 word \<Rightarrow> nat \<Rightarrow> bool" where
  "h2_flow_control_can_send conn sid amount =
     (case h2_stream_get conn sid of None \<Rightarrow> False
      | Some i \<Rightarrow> unat (hs_local_window (hc_streams conn ! i)) \<ge> amount \<and>
                  unat (initial_window_size (hc_remote_settings conn)) \<ge> amount)"

text \<open>
  Result: the new connection and the frame that was built, \<open>None\<close> when \<open>h2_frame_build\<close> refused it (its
  return value is not looked at).
\<close>

definition h2_send_data ::
    "H2Connection \<Rightarrow> 32 word \<Rightarrow> byte list \<Rightarrow> bool \<Rightarrow> int + (H2Connection \<times> byte list option)" where
  "h2_send_data conn sid data end_stream =
     (case h2_stream_get conn sid of None \<Rightarrow> Inl (-2)
      | Some i \<Rightarrow>
          (if \<not> h2_flow_control_can_send conn sid (length data) then Inl (-3)
           else let flags = (if end_stream then 0x01 else 0x00);
                    frame = h2_frame_build (H2_FRAME_HEADER_SIZE + H2_MAX_FRAME_SIZE) 0x00 flags sid data;
                    s = hc_streams conn ! i;
                    s1 = s\<lparr>hs_local_window := hs_local_window s - of_nat (length data)\<rparr>;
                    s2 = (if end_stream then s1\<lparr>hs_state := H2_STREAM_HALF_CLOSED_LOCAL\<rparr> else s1)
                in Inr (h2_put i s2 conn, frame)))"

section \<open>Header compression\<close>

definition static_table :: "header_field list" where
  "static_table = [
    ('':authority'', ''''), ('':method'', ''GET''), ('':method'', ''POST''), ('':path'', ''/''), 
    ('':path'', ''/index.html''), ('':scheme'', ''http''), ('':scheme'', ''https''), 
    ('':status'', ''200''), ('':status'', ''204''), ('':status'', ''206''), ('':status'', ''304''), 
    ('':status'', ''400''), ('':status'', ''404''), ('':status'', ''500''), (''accept-charset'', ''''), 
    (''accept-encoding'', ''gzip, deflate''), (''accept-language'', ''''), (''accept-ranges'', ''''), 
    (''accept'', ''''), (''access-control-allow-origin'', ''''), (''age'', ''''), (''allow'', ''''), 
    (''authorization'', ''''), (''cache-control'', ''''), (''content-disposition'', ''''), 
    (''content-encoding'', ''''), (''content-language'', ''''), (''content-length'', ''''), 
    (''content-location'', ''''), (''content-range'', ''''), (''content-type'', ''''), (''cookie'', ''''), 
    (''date'', ''''), (''etag'', ''''), (''expect'', ''''), (''expires'', ''''), (''from'', ''''), 
    (''host'', ''''), (''if-match'', ''''), (''if-modified-since'', ''''), (''if-none-match'', ''''), 
    (''if-range'', ''''), (''if-unmodified-since'', ''''), (''last-modified'', ''''), (''link'', ''''), 
    (''location'', ''''), (''max-forwards'', ''''), (''proxy-authenticate'', ''''), 
    (''proxy-authorization'', ''''), (''range'', ''''), (''referer'', ''''), (''refresh'', ''''), 
    (''retry-after'', ''''), (''server'', ''''), (''set-cookie'', ''''), 
    (''strict-transport-security'', ''''), (''transfer-encoding'', ''''), (''user-agent'', ''''), 
    (''vary'', ''''), (''via'', ''''), (''www-authenticate'', '''')]"

text \<open>The continuation bytes of an integer, least significant group first.\<close>

function hpack_int_tail :: "64 word \<Rightarrow> byte list" where
  "hpack_int_tail v =
     (if v \<ge> 0x80 then (ucast (v AND 0x7F) OR 0x80) # hpack_int_tail (drop_bit 7 v) else [ucast (v AND 0x7F)])"
  by pat_completeness auto
termination
proof (relation "measure unat")
  show "(drop_bit 7 v, v) \<in> measure unat" if "v \<ge> 0x80" for v :: "64 word"
  proof -
    have "0 < unat v" using that by (simp add: word_le_nat_alt)
    moreover have "unat (drop_bit 7 v) = unat v div 128"
      by (simp add: drop_bit_eq_div unat_div_distrib)
    ultimately show ?thesis by simp
  qed
qed simp

definition hpack_encode_int :: "nat \<Rightarrow> nat \<Rightarrow> 64 word \<Rightarrow> byte list option" where
  "hpack_encode_int out_size prefix_bits value =
     (let mask_b = (push_bit prefix_bits 1 - 1 :: byte); mask_v = ucast mask_b :: 64 word
      in if value < mask_v then (if out_size < 1 then None else Some [ucast value])
         else let bytes = mask_b # hpack_int_tail (value - mask_v)
              in if length bytes > out_size then None else Some bytes)"

definition bytes_of :: "string \<Rightarrow> byte list" where
  "bytes_of s = map (\<lambda>c. word_of_nat (of_char c)) s"

definition string_of :: "byte list \<Rightarrow> string" where
  "string_of bs = map (\<lambda>b. char_of (unat b)) bs"

definition hpack_encode_string :: "string \<Rightarrow> nat \<Rightarrow> byte list option" where
  "hpack_encode_string str out_size =
     (if out_size < length str + 2 then None
      else map_option (\<lambda>n. n @ bytes_of str) (hpack_encode_int out_size 7 (of_nat (length str))))"

text \<open>The search of the static table: the name must match, and the value unless the table's is empty.\<close>

definition static_match :: "header_field \<Rightarrow> nat option" where
  "static_match fld = find_index (\<lambda>e. fst fld = fst e \<and> (snd e = [] \<or> snd fld = snd e)) static_table"

text \<open>
  One field: an indexed field writes 0x80 and then overwrites it with the encoded index; a literal is preceded
  by a byte that carries 0x40 and the length of what follows. A failing field leaves the output undefined and
  the dynamic table as it is.
\<close>

definition h2_encode_field :: "nat \<Rightarrow> header_field \<Rightarrow> byte list option" where
  "h2_encode_field avail fld =
     (if avail = 0 then None
      else case static_match fld of
        Some j \<Rightarrow> hpack_encode_int avail 7 (of_nat (j + 1))
      | None \<Rightarrow>
          (case hpack_encode_string (fst fld) (avail - 1) of None \<Rightarrow> None
           | Some n \<Rightarrow>
               (case hpack_encode_string (snd fld) (avail - 1 - length n) of None \<Rightarrow> None
                | Some v \<Rightarrow> Some ((0x40 OR of_nat (length n + length v)) # n @ v))))"

definition table_add :: "header_field \<Rightarrow> header_field list \<Rightarrow> header_field list" where
  "table_add fld dyn = (if length dyn < 64 then dyn @ [fld] else dyn)"

fun h2_encode_fields ::
    "nat \<Rightarrow> header_field list \<Rightarrow> byte list \<Rightarrow> header_field list \<Rightarrow> byte list option \<times> header_field list" where
  "h2_encode_fields out_size [] out dyn = (Some out, dyn)"
| "h2_encode_fields out_size (f # fs) out dyn =
     (case h2_encode_field (out_size - length out) f of None \<Rightarrow> (None, dyn)
      | Some e \<Rightarrow>
          h2_encode_fields out_size fs (out @ e) (if static_match f = None then table_add f dyn else dyn))"

definition h2_header_encode ::
    "H2Connection \<Rightarrow> header_field list \<Rightarrow> nat \<Rightarrow> byte list option \<times> H2Connection" where
  "h2_header_encode conn block out_size =
     (case h2_encode_fields out_size block [] (hc_dynamic_table conn) of
        (r, dyn) \<Rightarrow> (r, conn\<lparr>hc_dynamic_table := dyn\<rparr>))"

text \<open>
  The continuation of a long index: bytes with the top bit, then one more if there is any. Result: the value and
  the bytes left. A shift beyond the width, undefined in C, gives no bits.
\<close>

fun h2_decode_extra :: "byte list \<Rightarrow> nat \<Rightarrow> 64 word \<Rightarrow> 64 word \<times> byte list" where
  "h2_decode_extra [] shift extra = (extra, [])"
| "h2_decode_extra (b # bs) shift extra =
     (if b AND 0x80 \<noteq> 0 then h2_decode_extra bs (shift + 7) (extra OR push_bit shift (ucast (b AND 0x7F)))
      else (extra OR push_bit shift (ucast b), bs))"

lemma h2_decode_extra_length: "length (snd (h2_decode_extra bs k e)) \<le> length bs"
  by (induction bs k e rule: h2_decode_extra.induct) auto

definition h2_decode_index :: "byte \<Rightarrow> byte list \<Rightarrow> 64 word \<times> byte list" where
  "h2_decode_index first rest =
     (let idx = ucast (first AND 0x7F)
      in if idx = 0x7F then (case h2_decode_extra rest 0 0 of (extra, r) \<Rightarrow> (idx + extra, r)) else (idx, rest))"

lemma h2_decode_index_length: "(x, r) = h2_decode_index b bs \<Longrightarrow> length r < Suc (length bs)"
  using h2_decode_extra_length [of bs 0 0] by (auto simp: h2_decode_index_def Let_def split: prod.splits if_splits)

definition h2_table_lookup :: "header_field list \<Rightarrow> 64 word \<Rightarrow> header_field option" where
  "h2_table_lookup dyn idx =
     (let table_idx = idx - 1
      in if table_idx < 61 then Some (static_table ! unat table_idx)
         else if unat (table_idx - 61) < length dyn then Some (dyn ! unat (table_idx - 61))
         else None)"

text \<open>
  A length-prefixed string: \<open>Inl\<close> carries whether the block is simply over (the loop's \<open>break\<close>) or the length
  exceeds the data (an error). The buffer is read back as a C string.
\<close>

datatype string_fault = BlockOver | TooLong

definition h2_decode_string :: "byte list \<Rightarrow> string_fault + (string \<times> byte list)" where
  "h2_decode_string bs =
     (case bs of [] \<Rightarrow> Inl BlockOver
      | b # rest \<Rightarrow>
          (let n = unat (b AND 0x7F)
           in if length rest < n then Inl TooLong
              else Inr (takeWhile (\<lambda>c. c \<noteq> CHR 0x00) (string_of (take n rest)), drop n rest)))"

lemma h2_decode_string_length: "h2_decode_string bs = Inr (s, r) \<Longrightarrow> length r < length bs"
  by (auto simp: h2_decode_string_def Let_def split: list.splits if_splits)

text \<open>
  The loop over a header block; \<open>count\<close> fields may still be stored. Result: the return code, the fields and the
  dynamic table.
\<close>

function h2_decode_fields ::
    "nat \<Rightarrow> byte list \<Rightarrow> header_field list \<Rightarrow> header_field list \<Rightarrow> int \<times> header_field list \<times> header_field list" where
  "h2_decode_fields count [] acc dyn = (0, acc, dyn)"
| "h2_decode_fields count (first # rest) acc dyn =
     (if count = 0 then (0, acc, dyn)
      else if first AND 0x80 \<noteq> 0 then
        (let (idx, r) = h2_decode_index first rest
         in case h2_table_lookup dyn idx of None \<Rightarrow> (-1, acc, dyn)
            | Some f \<Rightarrow> h2_decode_fields (count - 1) r (acc @ [f]) dyn)
      else if first AND 0x40 \<noteq> 0 \<or> first = 0 \<or> first AND 0x10 \<noteq> 0 then
        (case h2_decode_string rest of
           Inl BlockOver \<Rightarrow> (0, acc, dyn) | Inl TooLong \<Rightarrow> (-1, acc, dyn)
         | Inr (name, r) \<Rightarrow>
             (case h2_decode_string r of
                Inl BlockOver \<Rightarrow> (0, acc, dyn) | Inl TooLong \<Rightarrow> (-1, acc, dyn)
              | Inr (val, r') \<Rightarrow>
                  h2_decode_fields (count - 1) r' (acc @ [(name, val)])
                    (if first AND 0x40 \<noteq> 0 then table_add (name, val) dyn else dyn)))
      else h2_decode_fields count rest acc dyn)"
  by pat_completeness auto
termination
  by (relation "measure (\<lambda>(count, bs, acc, dyn). length bs)")
    (auto dest: h2_decode_index_length dest!: h2_decode_string_length)

definition h2_header_decode :: "H2Connection \<Rightarrow> byte list \<Rightarrow> int \<times> header_field list \<times> H2Connection" where
  "h2_header_decode conn data =
     (case h2_decode_fields H2_MAX_HEADER_FIELDS data [] (hc_dynamic_table conn) of
        (r, acc, dyn) \<Rightarrow> (r, acc, conn\<lparr>hc_dynamic_table := dyn\<rparr>))"

definition h2_send_headers ::
    "H2Connection \<Rightarrow> 32 word \<Rightarrow> header_field list \<Rightarrow> bool \<Rightarrow> int \<times> H2Connection \<times> byte list option" where
  "h2_send_headers conn sid headers end_stream =
     (case h2_stream_get conn sid of None \<Rightarrow> (-2, conn, None)
      | Some i \<Rightarrow>
          (case h2_header_encode conn headers 4096 of
             (None, conn') \<Rightarrow> (-3, conn', None)
           | (Some encoded, conn') \<Rightarrow>
               (let flags = 0x04 OR (if end_stream then 0x01 else 0x00);
                    frame = h2_frame_build (H2_FRAME_HEADER_SIZE + 4096) 0x01 flags sid encoded
                in (0, h2_put i ((hc_streams conn' ! i)\<lparr>hs_headers := headers\<rparr>) conn', frame))))"

section \<open>The priority tree\<close>

text \<open>
  The node array up to \<open>node_count\<close> is a list and nodes are addressed by their index, so that a node and its
  parent may be the same. A node removed from the tree is zeroed in place and its slot is not reused.
\<close>

record H2PriorityNode =
  pn_parent :: "32 word"
  pn_weight :: byte
  pn_self :: "32 word"
  pn_exclusive :: bool
  pn_children :: "32 word list"

type_synonym H2PriorityTree = "H2PriorityNode list"

definition zero_node :: H2PriorityNode where
  "zero_node = \<lparr>pn_parent = 0, pn_weight = 0, pn_self = 0, pn_exclusive = False, pn_children = []\<rparr>"

definition h2_priority_tree_init :: H2PriorityTree where
  "h2_priority_tree_init = [zero_node\<lparr>pn_weight := 16\<rparr>]"

definition h2_priority_find :: "H2PriorityTree \<Rightarrow> 32 word \<Rightarrow> nat option" where
  "h2_priority_find tree sid = find_index (\<lambda>n. pn_self n = sid) tree"

text \<open>\<open>child->parent_stream_id = p\<close> for a child that is found.\<close>

definition set_parent :: "32 word \<Rightarrow> 32 word \<Rightarrow> H2PriorityTree \<Rightarrow> H2PriorityTree" where
  "set_parent p c tree =
     (case h2_priority_find tree c of None \<Rightarrow> tree | Some k \<Rightarrow> tree[k := (tree ! k)\<lparr>pn_parent := p\<rparr>])"

definition h2_priority_add ::
    "H2PriorityTree \<Rightarrow> 32 word \<Rightarrow> 32 word \<Rightarrow> byte \<Rightarrow> bool \<Rightarrow> int + H2PriorityTree" where
  "h2_priority_add tree sid pid w exclusive =
     (if length tree \<ge> H2_MAX_PRIORITY_NODES then Inl (-1)
      else let weight = (if w < 1 then 1 else w)
           in case h2_priority_find tree pid of None \<Rightarrow> Inl (-2)
              | Some pi \<Rightarrow>
                  (let kids = pn_children (tree ! pi);
                       tree1 = (if exclusive then fold (set_parent sid) kids tree else tree)
                   in case h2_priority_find tree sid of
                        Some e \<Rightarrow>
                          Inr (tree1[e := (tree1 ! e)\<lparr>pn_parent := pid, pn_weight := weight, pn_exclusive := exclusive\<rparr>])
                      | None \<Rightarrow>
                          (let node = \<lparr>pn_parent = pid, pn_weight = weight, pn_self = sid, pn_exclusive = exclusive,
                                       pn_children = (if exclusive then kids else [])\<rparr>;
                               par = tree1 ! pi
                           in Inr (tree1[pi := par\<lparr>pn_children := (if exclusive then [] else pn_children par) @ [sid]\<rparr>]
                                   @ [node]))))"

text \<open>
  One round of the loop of \<open>h2_priority_remove\<close>: child number \<open>i\<close> of the node at \<open>ni\<close> gets the grandparent as
  parent and is appended to the children of the node at \<open>pi\<close>, which may be \<open>ni\<close> itself. \<open>None\<close> stands for a
  write beyond the array of 32 children.
\<close>

definition remove_step ::
    "nat \<Rightarrow> nat option \<Rightarrow> 32 word \<Rightarrow> nat \<Rightarrow> H2PriorityTree option \<Rightarrow> H2PriorityTree option" where
  "remove_step ni pi gp i tree_opt =
     (case tree_opt of None \<Rightarrow> None
      | Some tree \<Rightarrow>
          (if length (pn_children (tree ! ni)) \<le> i then Some tree
           else let c = pn_children (tree ! ni) ! i
                in case h2_priority_find tree c of None \<Rightarrow> Some tree
                   | Some k \<Rightarrow>
                       (let tree1 = tree[k := (tree ! k)\<lparr>pn_parent := gp\<rparr>]
                        in case pi of None \<Rightarrow> Some tree1
                           | Some q \<Rightarrow>
                               (if length (pn_children (tree1 ! q)) \<ge> H2_MAX_PRIORITY_NODES then None
                                else Some (tree1[q := (tree1 ! q)\<lparr>pn_children := pn_children (tree1 ! q) @ [c]\<rparr>])))))"

text \<open>The first entry of the parent's array that names the node is replaced by the last one.\<close>

definition swap_remove :: "'a \<Rightarrow> 'a list \<Rightarrow> 'a list" where
  "swap_remove x xs = (case find_index (\<lambda>y. y = x) xs of None \<Rightarrow> xs | Some i \<Rightarrow> butlast (xs[i := last xs]))"

definition h2_priority_remove :: "H2PriorityTree \<Rightarrow> 32 word \<Rightarrow> int + H2PriorityTree option" where
  "h2_priority_remove tree sid =
     (if sid = 0 then Inl (-2)
      else case h2_priority_find tree sid of None \<Rightarrow> Inl (-3)
           | Some ni \<Rightarrow>
               (let pi = h2_priority_find tree (pn_parent (tree ! ni));
                    gp = (case pi of None \<Rightarrow> 0 | Some q \<Rightarrow> pn_parent (tree ! q))
                in case fold (remove_step ni pi gp) [0..<H2_MAX_PRIORITY_NODES] (Some tree) of
                     None \<Rightarrow> Inr None
                   | Some tree1 \<Rightarrow>
                       (let tree2 = (case pi of None \<Rightarrow> tree1
                              | Some q \<Rightarrow> tree1[q := (tree1 ! q)\<lparr>pn_children := swap_remove sid (pn_children (tree1 ! q))\<rparr>])
                        in Inr (Some (tree2[ni := zero_node])))))"

definition live_children :: "H2PriorityTree \<Rightarrow> nat \<Rightarrow> H2PriorityNode list" where
  "live_children tree pi =
     List.map_filter (\<lambda>c. map_option ((!) tree) (h2_priority_find tree c)) (pn_children (tree ! pi))"

definition h2_share :: "32 word \<Rightarrow> 32 word \<Rightarrow> byte \<Rightarrow> 32 word" where
  "h2_share bandwidth total_weight w =
     (let share = ucast ((ucast bandwidth * ucast w :: 64 word) div ucast total_weight)
      in if share < 1 \<and> bandwidth > 0 then 1 else share)"

text \<open>
  The output array holds an id and a share per child; a child is written while two more cells fit. Result: the
  pairs written (their number is the return value) or the error code.
\<close>

definition h2_priority_allocate_bandwidth ::
    "H2PriorityTree \<Rightarrow> 32 word \<Rightarrow> 32 word \<Rightarrow> nat \<Rightarrow> int + (32 word \<times> 32 word) list" where
  "h2_priority_allocate_bandwidth tree pid bandwidth max_allocations =
     (case h2_priority_find tree pid of None \<Rightarrow> Inl (-2)
      | Some pi \<Rightarrow>
          (if pn_children (tree ! pi) = [] then Inl (-2)
           else let total_weight = sum_list (map (\<lambda>n. ucast (pn_weight n)) (live_children tree pi))
                in if total_weight = 0 then Inl (-3)
                   else Inr (take (max_allocations div 2)
                          (map (\<lambda>n. (pn_self n, h2_share bandwidth total_weight (pn_weight n)))
                             (live_children tree pi)))))"

section \<open>Runs and specifications\<close>

text \<open>
  A run of the operations of a connection; the log records for every accepted DATA frame its stream and length.
  \<open>local_window\<close> is what \<open>h2_flow_control_can_send\<close> consults for a stream.
\<close>

datatype h2_op =
  SendData "32 word" "byte list" bool
| SendHeaders "32 word" "header_field list" bool
| WindowUpdate "32 word" int
| StreamOpen
| StreamClose "32 word"
| SettingsExchange

definition h2_step :: "h2_op \<Rightarrow> H2Connection \<Rightarrow> H2Connection \<times> (32 word \<times> nat) list" where
  "h2_step ev conn =
     (case ev of
        SendData sid data fin \<Rightarrow>
          (case h2_send_data conn sid data fin of Inl _ \<Rightarrow> (conn, []) | Inr (c, _) \<Rightarrow> (c, [(sid, length data)]))
      | SendHeaders sid headers fin \<Rightarrow> (fst (snd (h2_send_headers conn sid headers fin)), [])
      | WindowUpdate sid inc \<Rightarrow> (case h2_flow_control_update conn sid inc of Inl _ \<Rightarrow> (conn, []) | Inr c \<Rightarrow> (c, []))
      | StreamOpen \<Rightarrow> (case h2_stream_open conn of Inl _ \<Rightarrow> (conn, []) | Inr (c, _) \<Rightarrow> (c, []))
      | StreamClose sid \<Rightarrow> (case h2_stream_close conn sid of Inl _ \<Rightarrow> (conn, []) | Inr c \<Rightarrow> (c, []))
      | SettingsExchange \<Rightarrow> (h2_settings_exchange conn, []))"

fun h2_run :: "h2_op list \<Rightarrow> H2Connection \<Rightarrow> H2Connection \<times> (32 word \<times> nat) list" where
  "h2_run [] conn = (conn, [])"
| "h2_run (ev # evs) conn =
     (let (c1, a1) = h2_step ev conn; (c2, a2) = h2_run evs c1 in (c2, a1 @ a2))"

definition sent_on :: "32 word \<Rightarrow> (32 word \<times> nat) list \<Rightarrow> nat" where
  "sent_on sid acc = sum_list (map snd (filter (\<lambda>p. fst p = sid) acc))"

fun h2_credit :: "32 word \<Rightarrow> h2_op list \<Rightarrow> nat" where
  "h2_credit sid [] = 0"
| "h2_credit sid (WindowUpdate k inc # evs) = (if k = sid then nat inc else 0) + h2_credit sid evs"
| "h2_credit sid (_ # evs) = h2_credit sid evs"

definition local_window :: "H2Connection \<Rightarrow> 32 word \<Rightarrow> nat option" where
  "local_window conn sid = map_option (\<lambda>i. unat (hs_local_window (hc_streams conn ! i))) (h2_stream_get conn sid)"

text \<open>Header fields that are sent as literals and fit the length bytes, and what they look like on the wire.\<close>

definition literal_field :: "header_field \<Rightarrow> bool" where
  "literal_field f \<longleftrightarrow> static_match f = None \<and> length (fst f) + length (snd f) < 126 \<and>
     CHR 0x00 \<notin> set (fst f) \<and> CHR 0x00 \<notin> set (snd f)"

definition literal_bytes :: "header_field \<Rightarrow> byte list" where
  "literal_bytes f = (0x40 OR of_nat (length (fst f) + length (snd f) + 2)) #
     (of_nat (length (fst f)) # bytes_of (fst f)) @ of_nat (length (snd f)) # bytes_of (snd f)"

definition conn0 :: H2Connection where
  "conn0 = \<lparr>hc_streams = [], hc_local_settings = h2_settings_init, hc_remote_settings = h2_settings_init,
     hc_last_stream_id = 0, hc_connection_window = 65535, hc_dynamic_table = []\<rparr>"

definition one_stream :: H2Connection where
  "one_stream = (case h2_stream_open conn0 of Inr (c, _) \<Rightarrow> c | Inl _ \<Rightarrow> conn0)"

definition demo_run :: "h2_op list" where
  "demo_run = [SendData 2 [1, 2, 3] False, WindowUpdate 4 100, StreamOpen, SendData 2 [4] True, SendData 9 [5] True]"

text \<open>
  The children arrays of a priority tree, the number of entries in all of them, the bound the operations keep,
  and the trees that they can produce.
\<close>

abbreviation kids :: "H2PriorityTree \<Rightarrow> 32 word list list" where
  "kids tree \<equiv> map pn_children tree"

definition entries :: "H2PriorityTree \<Rightarrow> nat" where
  "entries tree = sum_list (map length (kids tree))"

definition h2_tree_ok :: "H2PriorityTree \<Rightarrow> bool" where
  "h2_tree_ok tree \<longleftrightarrow> entries tree < length tree \<and> length tree \<le> H2_MAX_PRIORITY_NODES"

text \<open>How far the loop of \<open>h2_priority_remove\<close> has moved children over to the parent.\<close>

definition moved :: "H2PriorityTree \<Rightarrow> nat option \<Rightarrow> nat \<Rightarrow> H2PriorityTree \<Rightarrow> bool" where
  "moved tree pi i t \<longleftrightarrow>
     (case pi of None \<Rightarrow> kids t = kids tree
      | Some q \<Rightarrow> (\<exists>l. length l \<le> i \<and> kids t = (kids tree)[q := kids tree ! q @ l]))"

inductive h2_tree_reach :: "H2PriorityTree \<Rightarrow> bool" where
  reach_init: "h2_tree_reach h2_priority_tree_init"
| reach_add: "h2_tree_reach tree \<Longrightarrow> h2_priority_add tree sid pid w ex = Inr t \<Longrightarrow> h2_tree_reach t"
| reach_remove: "h2_tree_reach tree \<Longrightarrow> h2_priority_remove tree sid = Inr (Some t) \<Longrightarrow> h2_tree_reach t"

definition self_parent_tree :: H2PriorityTree where
  "self_parent_tree =
     (case h2_priority_add h2_priority_tree_init 1 0 8 False of Inl _ \<Rightarrow> []
      | Inr t1 \<Rightarrow> (case h2_priority_add t1 3 1 8 False of Inl _ \<Rightarrow> []
      | Inr t2 \<Rightarrow> (case h2_priority_add t2 1 1 8 False of Inl _ \<Rightarrow> [] | Inr t3 \<Rightarrow> t3)))"

definition chain_tree :: H2PriorityTree where
  "chain_tree =
     (case h2_priority_add h2_priority_tree_init 1 0 8 False of Inl _ \<Rightarrow> []
      | Inr t1 \<Rightarrow> (case h2_priority_add t1 3 1 8 False of Inl _ \<Rightarrow> []
      | Inr t2 \<Rightarrow> (case h2_priority_add t2 5 3 8 False of Inl _ \<Rightarrow> [] | Inr t3 \<Rightarrow> t3)))"

section \<open>Frames and settings\<close>

lemma stream_id_bytes:
  "(push_bit 24 (ucast (ucast (drop_bit 24 sid) AND (0x7F :: byte))) OR push_bit 16 (ucast (ucast (drop_bit 16 sid) :: byte)) OR
    push_bit 8 (ucast (ucast (drop_bit 8 sid) :: byte)) OR ucast (ucast (sid :: 32 word) AND (0x7F :: byte))) =
   sid AND 0x7FFFFF7F"
proof -
  have m: "(0x7FFFFF7F :: 32 word) = push_bit 8 (mask 23) OR mask 7" by (simp add: mask_eq_exp_minus_1)
  show ?thesis unfolding m byte_masks(2)
  proof (rule bit_word_eqI)
    fix n
    assume "n < LENGTH(32)"
    then show "bit (push_bit 24 (ucast (ucast (drop_bit 24 sid) AND (mask 7 :: byte))) OR
        push_bit 16 (ucast (ucast (drop_bit 16 sid) :: byte)) OR push_bit 8 (ucast (ucast (drop_bit 8 sid) :: byte)) OR
        ucast (ucast sid AND (mask 7 :: byte)) :: 32 word) n = bit (sid AND (push_bit 8 (mask 23) OR mask 7)) n"
      by (cases "16 \<le> n") (auto simp: bit_simps)
  qed
qed

lemma be_bytes3_64:
  "push_bit 16 (ucast (ucast (drop_bit 16 w) :: byte)) OR push_bit 8 (ucast (ucast (drop_bit 8 w) :: byte)) OR
    ucast (ucast (w :: 64 word) :: byte) = (ucast (take_bit 24 w) :: 32 word)"
proof (rule bit_word_eqI)
  fix n
  assume "n < LENGTH(32)"
  then show "bit (push_bit 16 (ucast (ucast (drop_bit 16 w) :: byte)) OR
      push_bit 8 (ucast (ucast (drop_bit 8 w) :: byte)) OR ucast (ucast w :: byte) :: 32 word) n =
      bit (ucast (take_bit 24 w) :: 32 word) n"
    by (cases "16 \<le> n") (auto simp: bit_simps)
qed

lemma frame_length_bytes:
  assumes "n < 2 ^ 24"
  shows "push_bit 16 (ucast (ucast (drop_bit 16 (of_nat n :: 64 word)) :: byte)) OR
    push_bit 8 (ucast (ucast (drop_bit 8 (of_nat n :: 64 word)) :: byte)) OR ucast (ucast (of_nat n :: 64 word) :: byte) =
    (of_nat n :: 32 word)"
proof -
  have u: "unat (of_nat n :: 64 word) = n" using assms by (intro unat_of_nat_small) simp
  have "take_bit 24 (of_nat n :: 64 word) = of_nat n" using assms by (intro take_bit_small) (simp only: u)
  moreover have "(ucast (of_nat n :: 64 word) :: 32 word) = of_nat n" 
    by (simp add: word_unat_eq_iff unsigned_ucast_eq unsigned_of_nat)
  ultimately show ?thesis unfolding be_bytes3_64 by simp
qed


text \<open>
  A frame built with room for it and a payload of less than 2^24 bytes is parsed back, whatever follows it:
  type, flags, length and payload are those given, and the stream identifier loses exactly bit 31, which the
  protocol reserves, and bit 7.
\<close>

theorem h2_frame_round_trip:
  assumes "length payload < 2 ^ 24" and "9 + length payload \<le> buf_size"
  shows "\<exists>bs. h2_frame_build buf_size type flags sid payload = Some bs \<and>
    h2_frame_parse (bs @ rest) =
      Inr (\<lparr>h2_length = of_nat (length payload), h2_type = type, h2_flags = flags,
            h2_stream_id = sid AND 0x7FFFFF7F\<rparr>, payload)"
proof -
  have "unat (of_nat (length payload) :: 32 word) = length payload"
    using assms(1) by (intro unat_of_nat_small) simp
  then show ?thesis
    using assms frame_length_bytes [OF assms(1)] stream_id_bytes [of sid]
    by (simp add: h2_frame_build_def h2_frame_parse_def H2_FRAME_HEADER_SIZE_def Let_def)
qed

theorem h2_frame_round_trip_witness:
  "\<exists>bs. h2_frame_build 64 0 1 5 [104, 105] = Some bs \<and>
    h2_frame_parse (bs @ [7]) = Inr (\<lparr>h2_length = 2, h2_type = 0, h2_flags = 1, h2_stream_id = 5\<rparr>, [104, 105])"
  using h2_frame_round_trip [of "[104, 105]" 64 0 1 5 "[7]"] by simp

text \<open>The bit that is cleared is the wrong one: stream 128 arrives as stream 0, the connection itself.\<close>

lemma h2_stream_128_becomes_0:
  "map_option h2_frame_parse (h2_frame_build 64 0 1 128 [104]) =
    Some (Inr (\<lparr>h2_length = 1, h2_type = 0, h2_flags = 1, h2_stream_id = 0\<rparr>, [104]))"
  by code_simp

lemma be_word4:
  "(push_bit 24 (ucast (ucast (drop_bit 24 w) :: byte)) OR push_bit 16 (ucast (ucast (drop_bit 16 w) :: byte)) OR
    push_bit 8 (ucast (ucast (drop_bit 8 w) :: byte)) OR ucast (ucast (w :: 32 word) :: byte)) = w"
  using be_round_trip_full [of 4 w] by (simp add: be_bytes_explicit be_word_explicit)

lemma be_word2:
  "(push_bit 8 (ucast (ucast (drop_bit 8 w) :: byte)) OR ucast (ucast (w :: 16 word) :: byte)) = w"
  using be_round_trip_full [of 2 w] by (simp add: be_bytes_explicit be_word_explicit)

lemma settings_loop_bytes:
  "h2_settings_loop (h2_setting_bytes (ident, val) @ rest) s = h2_settings_loop rest (h2_setting_apply ident (ucast val) s)"
  by (simp add: h2_setting_bytes_def be_word4 be_word2)

lemma settings_loop_concat:
  "h2_settings_loop (concat (map h2_setting_bytes ps)) s = fold (\<lambda>(i, v). h2_setting_apply i (ucast v)) ps s"
  by (induction ps arbitrary: s) (auto simp: settings_loop_bytes simp del: h2_settings_loop.simps(1))

lemma low_16: "ucast (ucast (w :: 32 word) :: 16 word) = w AND 0xFFFF"
proof -
  have m: "(0xFFFF :: 32 word) = mask 16" by (simp add: mask_eq_exp_minus_1)
  show ?thesis unfolding m by (rule bit_word_eqI) (auto simp: bit_simps)
qed

lemma length_setting_bytes [simp]: "length (h2_setting_bytes p) = 6"
  by (cases p) (simp add: h2_setting_bytes_def)

lemma settings_parse_concat:
  "h2_settings_parse (concat (map h2_setting_bytes ps)) =
    Inr (fold (\<lambda>(i, v). h2_setting_apply i (ucast v)) ps h2_settings_init)"
  by (simp add: h2_settings_parse_def settings_loop_concat length_concat comp_def sum_list_triv)

text \<open>
  A SETTINGS payload built from any settings is parsed back with the push flag intact and the low 16 bits of
  every other setting, whatever the receiver's settings were.
\<close>

theorem h2_settings_round_trip:
  assumes "36 \<le> buf_size"
  shows "\<exists>bs. h2_settings_build s buf_size = Some bs \<and>
    h2_settings_parse bs =
      Inr \<lparr>header_table_size = header_table_size s AND 0xFFFF, max_concurrent_streams = max_concurrent_streams s AND 0xFFFF,
           initial_window_size = initial_window_size s AND 0xFFFF, max_frame_size = max_frame_size s AND 0xFFFF,
           max_header_list_size = max_header_list_size s AND 0xFFFF, enable_push = enable_push s\<rparr>"
proof -
  have "fold (\<lambda>(i, v). h2_setting_apply i (ucast v)) (h2_settings_params s) h2_settings_init =
    \<lparr>header_table_size = header_table_size s AND 0xFFFF, max_concurrent_streams = max_concurrent_streams s AND 0xFFFF,
     initial_window_size = initial_window_size s AND 0xFFFF, max_frame_size = max_frame_size s AND 0xFFFF,
     max_header_list_size = max_header_list_size s AND 0xFFFF, enable_push = enable_push s\<rparr>"
    by (simp add: h2_settings_params_def h2_setting_apply_def h2_settings_init_def low_16 and.assoc)
  then show ?thesis using assms by (simp add: h2_settings_build_def settings_parse_concat)
qed

theorem h2_settings_round_trip_witness:
  "\<exists>bs. h2_settings_build h2_settings_init 36 = Some bs \<and>
    h2_settings_parse bs = Inr (h2_settings_init\<lparr>max_header_list_size := 0xFFFF\<rparr>)"
  using h2_settings_round_trip [of 36 h2_settings_init] by (simp add: h2_settings_init_def)

section \<open>Flow control\<close>

lemma sent_on_simps [simp]:
  "sent_on sid [] = 0" "sent_on sid [(k, n)] = (if k = sid then n else 0)"
  "sent_on sid (xs @ ys) = sent_on sid xs + sent_on sid ys"
  by (simp_all add: sent_on_def)

lemma h2_stream_getD:
  assumes "h2_stream_get conn sid = Some i"
  shows "i < length (hc_streams conn)" and "hs_stream_id (hc_streams conn ! i) = sid"
  using find_index_SomeD(1,2) [OF assms [unfolded h2_stream_get_def]] by auto

lemma h2_stream_get_put [simp]:
  assumes "hs_stream_id s = hs_stream_id (hc_streams conn ! i)"
  shows "h2_stream_get (h2_put i s conn) sid = h2_stream_get conn sid"
  using assms unfolding h2_stream_get_def h2_put_def by (simp add: find_index_update_other)

lemma hc_streams_put [simp]: "hc_streams (h2_put i s conn) = (hc_streams conn)[i := s]"
  by (simp add: h2_put_def)

lemma local_window_put:
  assumes "h2_stream_get conn k = Some i" and "hs_stream_id s = k"
  shows "local_window (h2_put i s conn) sid =
    (if sid = k then Some (unat (hs_local_window s)) else local_window conn sid)"
proof -
  note i = h2_stream_getD [OF assms(1)]
  have "j \<noteq> i" if "h2_stream_get conn sid = Some j" "sid \<noteq> k" for j
    using h2_stream_getD(2) [OF that(1)] i(2) that(2) by auto
  with assms i show ?thesis
    by (cases "h2_stream_get conn sid") (auto simp: local_window_def)
qed

lemma local_window_put_same:
  assumes "h2_stream_get conn k = Some i" and "hs_stream_id s = hs_stream_id (hc_streams conn ! i)"
    and "hs_local_window s = hs_local_window (hc_streams conn ! i)"
  shows "local_window (h2_put i s conn) sid = local_window conn sid"
  using local_window_put [OF assms(1), of s sid] assms h2_stream_getD(2) [OF assms(1)]
  by (auto simp: local_window_def)

lemma h2_stream_get_cong: "hc_streams c = hc_streams conn \<Longrightarrow> h2_stream_get c sid = h2_stream_get conn sid"
  by (simp add: h2_stream_get_def)

lemma local_window_cong: "hc_streams c = hc_streams conn \<Longrightarrow> local_window c sid = local_window conn sid"
  by (simp add: local_window_def h2_stream_get_def)

lemma local_window_cong2 [simp]: "local_window (conn\<lparr>hc_connection_window := x\<rparr>) sid = local_window conn sid"
  by (rule local_window_cong) simp

lemma h2_send_data_window:
  assumes "h2_send_data conn k data fin = Inr (c, frame)"
  shows "\<exists>w. local_window conn k = Some (w + length data) \<and>
    local_window c sid = (if sid = k then Some w else local_window conn sid)"
proof -
  from assms obtain i where i: "h2_stream_get conn k = Some i"
    and ok: "length data \<le> unat (hs_local_window (hc_streams conn ! i))"
    by (auto simp: h2_send_data_def h2_flow_control_can_send_def Let_def split: option.splits if_splits)
  let ?s = "hc_streams conn ! i"
  let ?w = "hs_local_window ?s"
  from assms i obtain s where c: "c = h2_put i s conn" "hs_stream_id s = hs_stream_id ?s"
    and s: "hs_local_window s = ?w - of_nat (length data)"
    by (auto simp: h2_send_data_def Let_def split: if_splits)
  have "length data < 2 ^ LENGTH(32)" using ok by (rule le_less_trans) (rule unsigned_less)
  then have "unat (of_nat (length data) :: 32 word) = length data" by (simp add: unsigned_of_nat take_bit_nat_eq_self)
  then have "unat (hs_local_window s) = unat ?w - length data"
    using ok s by (simp add: unat_sub_if_size word_le_nat_alt unat_sub)
  moreover have "local_window conn k = Some (unat ?w)" using i by (simp add: local_window_def)
  moreover have "local_window c sid = (if sid = k then Some (unat (hs_local_window s)) else local_window conn sid)"
    using local_window_put [OF i, of s sid] c h2_stream_getD(2) [OF i] by simp
  ultimately show ?thesis using ok by (intro exI [of _ "unat (hs_local_window s)"]) simp
qed

lemma h2_send_headers_window: "local_window (fst (snd (h2_send_headers conn k hs fin))) sid = local_window conn sid"
proof (cases "h2_stream_get conn k")
  case (Some i)
  obtain r c where e: "h2_header_encode conn hs 4096 = (r, c)" by (cases "h2_header_encode conn hs 4096")
  then have str: "hc_streams c = hc_streams conn" by (auto simp: h2_header_encode_def split: prod.splits)
  then have g: "h2_stream_get c k = Some i" using Some h2_stream_get_cong [OF str] by simp
  show ?thesis
  proof (cases r)
    case (Some bs)
    then show ?thesis
      using e g \<open>h2_stream_get conn k = Some i\<close> local_window_cong [OF str, of sid]
      by (simp add: h2_send_headers_def Let_def local_window_put_same [OF g])
  qed (use e Some local_window_cong [OF str] in \<open>simp add: h2_send_headers_def\<close>)
qed (simp add: h2_send_headers_def)

lemma h2_step_window:
  assumes "h2_step ev conn = (c, acc)" and "local_window conn sid = Some w"
  shows "\<exists>w'. local_window c sid = Some w' \<and> w' + sent_on sid acc = w"
proof (cases ev)
  case (SendData k data fin)
  show ?thesis
  proof (cases "h2_send_data conn k data fin")
    case (Inr cf)
    obtain c' frame where cf: "cf = (c', frame)" by fastforce
    from h2_send_data_window [of conn k data fin c' frame sid] Inr cf obtain w0 where
      "local_window conn k = Some (w0 + length data)"
      "local_window c' sid = (if sid = k then Some w0 else local_window conn sid)" by auto
    then show ?thesis using assms SendData Inr cf by (auto simp: h2_step_def)
  qed (use assms SendData in \<open>simp add: h2_step_def\<close>)
next
  case (SendHeaders k hs fin)
  then show ?thesis using assms h2_send_headers_window by (auto simp: h2_step_def)
next
  case (WindowUpdate k inc)
  have "local_window c sid = local_window conn sid"
  proof (cases "h2_stream_get conn k")
    case (Some i)
    then show ?thesis
      using assms(1) WindowUpdate
      by (auto simp: h2_step_def h2_flow_control_update_def Let_def local_window_put_same [OF Some] split: if_splits)
  qed (use assms(1) WindowUpdate in \<open>auto simp: h2_step_def h2_flow_control_update_def split: if_splits\<close>)
  then show ?thesis using assms WindowUpdate by (auto simp: h2_step_def split: sum.splits)
next
  case StreamOpen
  then show ?thesis using assms
    by (auto simp: h2_step_def h2_stream_open_def Let_def local_window_def h2_stream_get_def find_index_append
        nth_append dest: find_index_SomeD(1) split: if_splits)
next
  case (StreamClose k)
  then show ?thesis using assms
    by (cases "h2_stream_get conn k") (auto simp: h2_step_def h2_stream_close_def local_window_put_same)
next
  case SettingsExchange
  then show ?thesis using assms by (auto simp: h2_step_def h2_settings_exchange_def local_window_def h2_stream_get_def)
qed

text \<open>
  The counter that DATA is charged to is lowered by DATA and by nothing else, and is never raised: a WINDOW_UPDATE adds to
  another field and a settings exchange leaves the streams alone. Once its first window is used up a stream cannot send
  any more, whatever credit the peer grants.
\<close>

lemma h2_window_never_replenished:
  assumes "h2_run evs conn = (c, acc)" and "local_window conn sid = Some w"
  shows "\<exists>w'. local_window c sid = Some w' \<and> w' + sent_on sid acc = w"
  using assms
proof (induction evs arbitrary: conn acc w)
  case (Cons ev evs)
  obtain c1 a1 where s: "h2_step ev conn = (c1, a1)" by fastforce
  obtain c2 a2 where r: "h2_run evs c1 = (c2, a2)" by fastforce
  from h2_step_window [OF s Cons.prems(2)] obtain w1 where
    w1: "local_window c1 sid = Some w1" "w1 + sent_on sid a1 = w" by blast
  from Cons.IH [OF _ w1(1)] r s Cons.prems(1) obtain w2 where
    "local_window c sid = Some w2" "w2 + sent_on sid a2 = w1" by auto
  then show ?case using w1 r s Cons.prems(1) by auto
qed simp

text \<open>
  C32. Flow control of a stream, in every run of the operations of a connection without a settings exchange, for every
  stream that exists at its start: the bytes of DATA accepted on the stream never exceed the window at the start plus the
  credit that WINDOW_UPDATE frames grant to the stream. In a run that grants it no credit the bytes accepted plus the window
  left are exactly the window at the start: the counter never wraps and headers, openings, closings and the traffic of other
  streams do not touch it.
\<close>

theorem h2_window_conservation:
  assumes "h2_run evs conn = (c, acc)" and "local_window conn sid = Some w" and "SettingsExchange \<notin> set evs"
  shows "\<exists>w'. local_window c sid = Some w' \<and> sent_on sid acc \<le> w + h2_credit sid evs \<and>
    (h2_credit sid evs = 0 \<longrightarrow> w' + sent_on sid acc = w)"
  using h2_window_never_replenished [OF assms(1,2)] by auto

theorem h2_window_conservation_witness:
  "\<exists>w'. local_window (fst (h2_run demo_run one_stream)) 2 = Some w' \<and>
     w' + sent_on 2 (snd (h2_run demo_run one_stream)) = 65535"
proof -
  have "local_window one_stream 2 = Some 65535"
    by (simp add: one_stream_def conn0_def h2_stream_open_def Let_def H2_MAX_STREAMS_def local_window_def
        h2_stream_get_def h2_settings_init_def)
  moreover have "SettingsExchange \<notin> set demo_run" "h2_credit 2 demo_run = 0" by (simp_all add: demo_run_def)
  ultimately show ?thesis using h2_window_conservation [OF prod.collapse [symmetric]] by blast
qed

text \<open>A DATA payload longer than the frame buffer is accepted and charged, and no frame is built.\<close>

lemma h2_send_data_drops:
  assumes "local_window conn sid = Some w" and "H2_MAX_FRAME_SIZE < length data" and "length data \<le> w"
    and "length data \<le> unat (initial_window_size (hc_remote_settings conn))"
  shows "\<exists>c. h2_send_data conn sid data fin = Inr (c, None)"
  using assms
  by (auto simp: local_window_def h2_send_data_def h2_flow_control_can_send_def h2_frame_build_def Let_def)

section \<open>Integers and literal fields\<close>

declare hpack_int_tail.simps [simp del]

lemma septet_split: "push_bit k (v AND 0x7F) OR push_bit (k + 7) (drop_bit 7 v) = push_bit k (v :: 64 word)"
proof -
  have m: "(0x7F :: 64 word) = mask 7" by (simp add: mask_eq_exp_minus_1)
  show ?thesis unfolding m
  proof (rule bit_word_eqI)
    fix n
    assume "n < LENGTH(64)"
    then show "bit (push_bit k (v AND mask 7) OR push_bit (k + 7) (drop_bit 7 v)) n = bit (push_bit k v) n"
      by (cases "k + 7 \<le> n") (auto simp: bit_simps)
  qed
qed

lemma septet_byte:
  fixes v :: "64 word"
  shows "(ucast (v AND 0x7F) OR 0x80 :: byte) AND 0x80 \<noteq> 0"
    and "ucast ((ucast (v AND 0x7F) OR 0x80 :: byte) AND 0x7F) = v AND 0x7F"
proof -
  have m: "(0x7F :: 64 word) = mask 7" by (simp add: mask_eq_exp_minus_1)
  have s: "unat (ucast (v AND 0x7F) :: byte) < 128"
  proof -
    have "(ucast (v AND 0x7F) :: byte) = take_bit 7 (ucast v)"
      unfolding m by (rule bit_word_eqI) (auto simp: bit_simps)
    moreover have "unat (take_bit 7 (ucast v :: byte)) < 2 ^ 7" by (simp only: unsigned_take_bit_eq take_bit_nat_less_exp)
    ultimately show ?thesis by simp
  qed
  from top_flag(1) [OF s, of True] show "(ucast (v AND 0x7F) OR 0x80 :: byte) AND 0x80 \<noteq> 0" by (simp add: or.commute)
  have "(ucast (v AND 0x7F) OR 0x80 :: byte) AND 0x7F = ucast (v AND 0x7F)"
    using top_flag(2) [OF s, of True] by (simp add: or.commute)
  moreover have "ucast (ucast (v AND 0x7F) :: byte) = v AND 0x7F"
    unfolding m by (rule bit_word_eqI) (auto simp: bit_simps)
  ultimately show "ucast ((ucast (v AND 0x7F) OR 0x80 :: byte) AND 0x7F) = v AND 0x7F" by simp
qed

lemma last_septet:
  fixes v :: "64 word"
  assumes "\<not> 0x80 \<le> v"
  shows "v AND 0x7F = v" and "(ucast v :: byte) AND 0x80 = 0" and "ucast (ucast v :: byte) = v"
    and "(ucast v :: byte) AND 0x7F = ucast v"
proof -
  have m: "(0x7F :: 64 word) = mask 7" by (simp add: mask_eq_exp_minus_1)
  have t: "take_bit 7 v = v" using assms by (intro take_bit_small) (simp add: word_le_nat_alt)
  then show "v AND 0x7F = v" unfolding m by (simp add: take_bit_eq_mask)
  have b: "bit v n \<Longrightarrow> n < 7" for n using t by (metis bit_take_bit_iff)
  show "ucast (ucast v :: byte) = v" by (rule bit_word_eqI) (use b in \<open>fastforce simp: bit_simps\<close>)
  have "\<not> bit (ucast v :: byte) 7" using b [of 7] by (auto simp: bit_simps)
  then show "(ucast v :: byte) AND 0x80 = 0"
    unfolding byte_masks(1) by (metis bit_iff_and_push_bit_not_eq_0)
  show "(ucast v :: byte) AND 0x7F = ucast v"
    unfolding byte_masks(2) by (rule bit_word_eqI) (use b in \<open>auto simp: bit_simps\<close>)
qed

lemma decode_int_tail: "h2_decode_extra (hpack_int_tail v @ rest) k e = (e OR push_bit k v, rest)"
proof (induction v arbitrary: k e rule: hpack_int_tail.induct)
  case (1 v)
  show ?case
  proof (cases "0x80 \<le> v")
    case True
    then show ?thesis
      using 1 [OF True] septet_byte [of v] septet_split [of k v]
      by (simp add: hpack_int_tail.simps [of v] or.assoc)
  next
    case False
    then show ?thesis using last_septet [OF False] by (simp add: hpack_int_tail.simps [of v])
  qed
qed

lemma hpack_int_round_trip:
  assumes "hpack_encode_int out_size 7 v = Some (b # bs)"
  shows "h2_decode_index b (bs @ rest) = (v, rest)"
proof (cases "v < 0x7F")
  case True
  then have "\<not> 0x80 \<le> v" by (simp add: word_le_nat_alt word_less_nat_alt)
  note l = last_septet [OF this]
  have "b = ucast v" "bs = []" using assms True by (auto simp: hpack_encode_int_def Let_def split: if_splits)
  then show ?thesis using l True by (auto simp: h2_decode_index_def Let_def)
next
  case False
  then have "b = 0x7F" "bs = hpack_int_tail (v - 0x7F)"
    using assms by (auto simp: hpack_encode_int_def Let_def split: if_splits)
  then show ?thesis by (simp add: h2_decode_index_def decode_int_tail)
qed

lemma byte_flag_bits:
  fixes b :: byte
  shows "b AND 0x80 \<noteq> 0 \<longleftrightarrow> bit b 7" and "b AND 0x40 \<noteq> 0 \<longleftrightarrow> bit b 6"
proof -
  have m: "(0x40 :: byte) = push_bit 6 1" by simp
  show "b AND 0x80 \<noteq> 0 \<longleftrightarrow> bit b 7" unfolding byte_masks(1) by (simp only: bit_iff_and_push_bit_not_eq_0)
  show "b AND 0x40 \<noteq> 0 \<longleftrightarrow> bit b 6" unfolding m by (simp only: bit_iff_and_push_bit_not_eq_0)
qed

lemma literal_flag:
  assumes "k < 128"
  shows "(0x40 OR of_nat k :: byte) AND 0x80 = 0" and "(0x40 OR of_nat k :: byte) AND 0x40 \<noteq> 0"
proof -
  have "unat (of_nat k :: byte) < 128" using assms by (subst unat_of_nat_small) auto
  then have "\<not> bit (of_nat k :: byte) 7" using low_byte_bits by blast
  moreover have "\<not> bit (0x40 :: byte) 7" and s: "bit (0x40 :: byte) 6" by simp_all
  ultimately have "\<not> bit (0x40 OR of_nat k :: byte) 7" by (simp only: bit_or_iff simp_thms)
  then show "(0x40 OR of_nat k :: byte) AND 0x80 = 0" using byte_flag_bits(1) by blast
  show "(0x40 OR of_nat k :: byte) AND 0x40 \<noteq> 0" unfolding byte_flag_bits(2) using s by (simp only: bit_or_iff simp_thms)
qed

lemma string_of_bytes_of [simp]: "string_of (bytes_of s) = s"
proof -
  have "char_of (unat (of_nat (of_char c) :: byte)) = c" for c :: char
    by (subst unat_of_nat_small) simp_all
  then show ?thesis by (simp add: string_of_def bytes_of_def map_idI comp_def)
qed

lemma length_bytes_of [simp]: "length (bytes_of s) = length s"
  by (simp add: bytes_of_def)

lemma encode_short_string:
  assumes "length s < 127" and "length s + 2 \<le> n"
  shows "hpack_encode_string s n = Some (of_nat (length s) # bytes_of s)"
proof -
  have "(of_nat (length s) :: 64 word) < 127"
    using assms by (simp add: word_less_nat_alt unat_of_nat_small)
  moreover have "(ucast (of_nat (length s) :: 64 word) :: byte) = of_nat (length s)"
    by (simp add: word_unat_eq_iff unsigned_ucast_eq unsigned_of_nat)
  ultimately show ?thesis using assms by (simp add: hpack_encode_string_def hpack_encode_int_def Let_def)
qed

lemma decode_short_string:
  assumes "length s < 127" and "CHR 0x00 \<notin> set s"
  shows "h2_decode_string (of_nat (length s) # bytes_of s @ rest) = Inr (s, rest)"
proof -
  have u: "unat (of_nat (length s) :: byte) = length s" using assms by (intro unat_of_nat_small) simp
  have "(of_nat (length s) :: byte) AND 0x7F = of_nat (length s)"
    using top_flag(2) [of "of_nat (length s)" False] assms(1) by (simp add: u)
  moreover have "takeWhile (\<lambda>c. c \<noteq> CHR 0x00) s = s" using assms(2) by (simp add: takeWhile_eq_all_conv) blast
  ultimately show ?thesis using assms by (simp add: h2_decode_string_def Let_def u)
qed

text \<open>Length-prefixed strings keep the contract of a self-delimiting encoding.\<close>

interpretation hstr: prefix_codec "\<lambda>s. of_nat (length s) # bytes_of s" h2_decode_string
  "\<lambda>s. length s < 127 \<and> CHR 0x00 \<notin> set s"
  by unfold_locales (use decode_short_string in simp)

lemma length_literal_bytes [simp]: "length (literal_bytes f) = length (fst f) + length (snd f) + 3"
  by (simp add: literal_bytes_def)

lemma encode_literal:
  assumes "literal_field f" and "length (fst f) + length (snd f) + 4 \<le> n"
  shows "h2_encode_field n f = Some (literal_bytes f)"
  using assms by (simp add: h2_encode_field_def literal_field_def encode_short_string literal_bytes_def)

lemma decode_literal:
  assumes "literal_field f" and "0 < count"
  shows "h2_decode_fields count (literal_bytes f @ rest) acc dyn =
    h2_decode_fields (count - 1) rest (acc @ [f]) (table_add f dyn)"
proof -
  obtain n v where f: "f = (n, v)" by fastforce
  have "length n + length v + 2 < 128" using assms f by (simp add: literal_field_def)
  note fl = literal_flag [OF this]
  from assms f have "h2_decode_string (of_nat (length n) # bytes_of n @ xs) = Inr (n, xs)"
    "h2_decode_string (of_nat (length v) # bytes_of v @ xs) = Inr (v, xs)" for xs
    using hstr.round_trip [of n xs] hstr.round_trip [of v xs] by (simp_all add: literal_field_def)
  then show ?thesis using assms(2) fl unfolding f literal_bytes_def by simp
qed

lemma literal_bytes_unique:
  assumes "literal_field f" and "literal_field g" and "literal_bytes f @ r = literal_bytes g @ s"
  shows "f = g \<and> r = s"
proof -
  let ?e = "\<lambda>s. of_nat (length s) # bytes_of s"
  have ok: "length (fst h) < 127 \<and> CHR 0x00 \<notin> set (fst h)" "length (snd h) < 127 \<and> CHR 0x00 \<notin> set (snd h)"
    if "literal_field h" for h using that by (auto simp: literal_field_def)
  have "?e (fst f) @ ?e (snd f) @ r = ?e (fst g) @ ?e (snd g) @ s" using assms(3) by (simp add: literal_bytes_def)
  then have "fst f = fst g \<and> ?e (snd f) @ r = ?e (snd g) @ s"
    by (rule hstr.unique [THEN iffD1, OF ok(1) [OF assms(1)] ok(1) [OF assms(2)]])
  then show ?thesis
    using hstr.unique [THEN iffD1, OF ok(2) [OF assms(1)] ok(2) [OF assms(2)]] by (metis prod_eqI)
qed

lemma encode_literals:
  assumes "list_all literal_field fs" and "length out + sum_list (map (length \<circ> literal_bytes) fs) < n"
  shows "h2_encode_fields n fs out dyn = (Some (out @ concat (map literal_bytes fs)), fold table_add fs dyn)"
  using assms
proof (induction fs arbitrary: out dyn)
  case (Cons f fs)
  then have "h2_encode_field (n - length out) f = Some (literal_bytes f)"
    by (intro encode_literal) auto
  with Cons show ?case by (simp add: literal_field_def)
qed simp

lemma decode_literals:
  assumes "list_all literal_field fs" and "length fs \<le> count"
  shows "h2_decode_fields count (concat (map literal_bytes fs)) acc dyn = (0, acc @ fs, fold table_add fs dyn)"
  using assms by (induction fs arbitrary: count acc dyn) (simp_all add: decode_literal)

text \<open>
  A header block of at most 16 fields that are not in the static table, hold no NUL and take less than 126
  characters each, encoded with room for it, is decoded by any peer to the same fields in the same order, and
  sender and receiver enter the same fields into their dynamic tables.
\<close>

theorem h2_literal_round_trip:
  assumes "list_all literal_field fs" and "length fs \<le> 16"
    and "sum_list (map (\<lambda>f. length (fst f) + length (snd f) + 3) fs) < out_size"
  shows "\<exists>bs. h2_header_encode conn fs out_size = (Some bs, conn\<lparr>hc_dynamic_table := fold table_add fs (hc_dynamic_table conn)\<rparr>) \<and>
    h2_header_decode peer bs = (0, fs, peer\<lparr>hc_dynamic_table := fold table_add fs (hc_dynamic_table peer)\<rparr>)"
  using encode_literals [of fs "[]" out_size "hc_dynamic_table conn"]
    decode_literals [of fs 16 "[]" "hc_dynamic_table peer"] assms
  by (simp add: h2_header_encode_def h2_header_decode_def H2_MAX_HEADER_FIELDS_def comp_def)

theorem h2_literal_round_trip_witness:
  "\<exists>bs. h2_header_encode conn0 [(''x-id'', ''7'')] 64 = (Some bs, conn0\<lparr>hc_dynamic_table := [(''x-id'', ''7'')]\<rparr>) \<and>
    h2_header_decode conn0 bs = (0, [(''x-id'', ''7'')], conn0\<lparr>hc_dynamic_table := [(''x-id'', ''7'')]\<rparr>)"
proof -
  have "literal_field (''x-id'', ''7'')" by code_simp
  then show ?thesis
    using h2_literal_round_trip [of "[(''x-id'', ''7'')]" 64 conn0 conn0] by (simp add: conn0_def table_add_def)
qed

text \<open>
  A field of the static table is sent as its bare index, without the flag of an indexed field; the decoder skips
  the byte and the field is lost.
\<close>

lemma h2_indexed_lost:
  "fst (h2_encode_fields 64 [('':method'', ''GET'')] [] []) = Some [2]"
  "h2_decode_fields 16 [2] [] [] = (0, [], [])"
  by code_simp+

section \<open>Bounds of the priority tree\<close>

lemma kids_set_parent [simp]: "kids (set_parent p c tree) = kids tree"
  by (auto simp: set_parent_def map_update list_update_id intro!: list_update_same_conv [THEN iffD2]
      dest: find_index_SomeD(1) simp: h2_priority_find_def split: option.splits)

lemma kids_fold_set_parent [simp]: "kids (fold (set_parent p) cs tree) = kids tree"
  by (induction cs arbitrary: tree) simp_all

lemma length_kids_eq: "kids t = kids tree \<Longrightarrow> length t = length tree"
  by (metis length_map)

lemma two_le_sum_list:
  fixes xs :: "nat list"
  assumes "i < length xs" and "j < length xs" and "i \<noteq> j"
  shows "xs ! i + xs ! j \<le> sum_list xs"
proof -
  have "xs[i := 0] ! j \<le> sum_list (xs[i := 0])" using assms by (intro elem_le_sum_list) simp
  moreover have "sum_list (xs[i := 0]) = sum_list xs - xs ! i" using assms by (simp add: sum_list_update)
  moreover have "xs ! i \<le> sum_list xs" using assms by (intro elem_le_sum_list) simp
  ultimately show ?thesis using assms by simp
qed

lemma h2_priority_findD:
  assumes "h2_priority_find tree sid = Some i"
  shows "i < length tree" and "pn_self (tree ! i) = sid"
  using find_index_SomeD(1,2) [OF assms [unfolded h2_priority_find_def]] by auto

lemma entries_le: "i < length tree \<Longrightarrow> length (pn_children (tree ! i)) \<le> entries tree"
  using elem_le_sum_list [of i "map length (kids tree)"] by (simp add: entries_def)

lemma h2_tree_ok_children:
  assumes "h2_tree_ok tree" and "n \<in> set tree"
  shows "length (pn_children n) < H2_MAX_PRIORITY_NODES"
  using assms entries_le by (fastforce simp: h2_tree_ok_def in_set_conv_nth)

lemma h2_priority_add_ok:
  assumes "h2_tree_ok tree" and "h2_priority_add tree sid pid w ex = Inr t"
  shows "h2_tree_ok t"
proof -
  let ?k = "kids tree"
  from assms(2) obtain pi where pi: "h2_priority_find tree pid = Some pi" and lt: "length tree < H2_MAX_PRIORITY_NODES"
    by (auto simp: h2_priority_add_def Let_def split: if_splits option.splits)
  let ?t1 = "if ex then fold (set_parent sid) (pn_children (tree ! pi)) tree else tree"
  have k1: "kids ?t1 = ?k" by simp
  note len = length_kids_eq [OF k1]
  have le: "length (pn_children (tree ! pi)) \<le> entries tree" using h2_priority_findD(1) [OF pi] by (rule entries_le)
  show ?thesis
  proof (cases "h2_priority_find tree sid")
    case (Some e)
    have "pn_children (?t1 ! e) = ?k ! e" 
      using h2_priority_findD(1) [OF Some] len k1 by (metis nth_map)
    then have "kids t = ?k"
      using assms(2) pi Some lt k1 by (auto simp: h2_priority_add_def Let_def map_update split: if_splits)
    then show ?thesis using assms(1) length_kids_eq [of t tree] by (simp add: h2_tree_ok_def entries_def)
  next
    case None
    have "pn_children (?t1 ! pi) = ?k ! pi" 
      using h2_priority_findD(1) [OF pi] len k1 by (metis nth_map)
    then have "kids t = ?k[pi := (if ex then [] else ?k ! pi) @ [sid]] @ [if ex then ?k ! pi else []]"
      using assms(2) pi None lt k1 h2_priority_findD(1) [OF pi]
      by (cases ex) (auto simp: h2_priority_add_def Let_def map_update)
    moreover then have "length t = Suc (length tree)" by (metis length_append_singleton length_list_update length_map)
    ultimately show ?thesis
      using assms(1) lt le h2_priority_findD(1) [OF pi]
      by (auto simp: h2_tree_ok_def entries_def map_update sum_list_update)
  qed
qed

lemma moved_mono:
  assumes "moved tree pi a t" and "a \<le> b"
  shows "moved tree pi b t"
proof (cases pi)
  case (Some q)
  with assms(1) obtain l where "length l \<le> a" "kids t = (kids tree)[q := kids tree ! q @ l]" by (auto simp: moved_def)
  then have "length l \<le> b \<and> kids t = (kids tree)[q := kids tree ! q @ l]" using assms(2) by simp
  then show ?thesis unfolding moved_def Some option.case by blast
qed (use assms(1) in \<open>simp add: moved_def\<close>)

lemma remove_step_moved:
  assumes "moved tree pi (min i (length (kids tree ! ni))) t" and "remove_step ni pi gp i (Some t) = Some t'"
    and "ni < length tree" and "pi \<noteq> None \<longrightarrow> the pi < length tree \<and> the pi \<noteq> ni"
  shows "moved tree pi (min (Suc i) (length (kids tree ! ni))) t'"
proof -
  let ?k = "kids tree"
  have len: "length t = length tree"
    using assms(1) by (auto simp: moved_def split: option.splits dest: length_kids_eq) (metis length_list_update length_map)
  have ni: "pn_children (t ! ni) = ?k ! ni"
  proof -
    have "kids t ! ni = ?k ! ni" using assms by (auto simp: moved_def split: option.splits)
    then show ?thesis using len assms(3) by simp
  qed
  show ?thesis
  proof (cases "length (?k ! ni) \<le> i \<or> h2_priority_find t (?k ! ni ! i) = None")
    case True
    then have "t' = t" using assms(2) ni by (auto simp: remove_step_def Let_def split: if_splits)
    then show ?thesis using moved_mono [OF assms(1)] by simp
  next
    case False
    then obtain k where i: "i < length (?k ! ni)" and k: "h2_priority_find t (?k ! ni ! i) = Some k" by auto
    let ?t1 = "t[k := (t ! k)\<lparr>pn_parent := gp\<rparr>]"
    have k1: "kids ?t1 = kids t" by (simp add: map_update list_update_same_conv h2_priority_findD(1) [OF k])
    show ?thesis
    proof (cases pi)
      case None
      then show ?thesis using assms(1,2) ni i k k1 by (simp add: remove_step_def Let_def moved_def)
    next
      case (Some q)
      then have q: "q < length tree" using assms(4) by simp
      from assms(1) Some i obtain l where l: "length l \<le> i" "kids t = ?k[q := ?k ! q @ l]" by (auto simp: moved_def)
      have "pn_children (?t1 ! q) = kids t ! q" using k1 q len by (metis length_list_update nth_map)
      then have cq: "pn_children (?t1 ! q) = ?k ! q @ l" using l q by simp
      have "kids t' = (kids ?t1)[q := ?k ! q @ l @ [?k ! ni ! i]]"
        using assms(2) ni i k Some cq by (auto simp: remove_step_def Let_def map_update split: if_splits)
      then have "kids t' = ?k[q := ?k ! q @ l @ [?k ! ni ! i]]" using k1 l by simp
      then show ?thesis using l i Some
        by (auto simp: moved_def intro!: exI [of _ "l @ [?k ! ni ! i]"])
    qed
  qed
qed

lemma remove_step_no_overflow:
  assumes "moved tree (Some q) (min i (length (kids tree ! ni))) t" and "h2_tree_ok tree"
    and "ni < length tree" and "q < length tree" and "q \<noteq> ni"
  shows "remove_step ni (Some q) gp i (Some t) \<noteq> None"
proof -
  let ?k = "kids tree"
  from assms(1) obtain l where l: "length l \<le> min i (length (?k ! ni))" "kids t = ?k[q := ?k ! q @ l]"
    by (auto simp: moved_def)
  have len: "length t = length tree" using l(2) by (metis length_list_update length_map)
  have ni: "pn_children (t ! ni) = ?k ! ni" using l(2) len assms(3,5) by (metis nth_list_update_neq nth_map)
  have tq: "pn_children (t ! q) = ?k ! q @ l" using l(2) len assms(4) by (metis nth_list_update_eq length_map nth_map)
  have "length (?k ! q) + length (?k ! ni) \<le> entries tree"
    using two_le_sum_list [of q "map length ?k" ni] assms by (simp add: entries_def)
  then have "length (?k ! q) + length (?k ! ni) < H2_MAX_PRIORITY_NODES" using assms(2) by (simp add: h2_tree_ok_def)
  then have "length (?k ! q @ l) < H2_MAX_PRIORITY_NODES" using l(1) by simp
  moreover have "pn_children (t[k := (t ! k)\<lparr>pn_parent := gp\<rparr>] ! q) = ?k ! q @ l" for k
    using tq len assms(4) by (cases "k = q") auto
  ultimately show ?thesis by (auto simp: remove_step_def Let_def split: option.splits)
qed

lemma remove_step_None [simp]: "remove_step ni pi gp i None = None"
  by (simp add: remove_step_def)

lemma fold_remove_None [simp]: "fold (remove_step ni pi gp) is None = None"
  by (induction "is") simp_all

lemma fold_remove_moved:
  assumes "fold (remove_step ni pi gp) [0..<n] (Some tree) = Some t"
    and "ni < length tree" and "pi \<noteq> None \<longrightarrow> the pi < length tree \<and> the pi \<noteq> ni"
  shows "moved tree pi (min n (length (kids tree ! ni))) t"
  using assms(1)
proof (induction n arbitrary: t)
  case 0
  then show ?case by (auto simp: moved_def split: option.splits intro: exI [of _ "[]"])
next
  case (Suc n)
  then obtain t0 where "fold (remove_step ni pi gp) [0..<n] (Some tree) = Some t0"
    by (cases "fold (remove_step ni pi gp) [0..<n] (Some tree)") auto
  with Suc show ?case using remove_step_moved [OF _ _ assms(2,3)] by auto
qed

lemma fold_remove_total:
  assumes "h2_tree_ok tree" and "ni < length tree" and "pi \<noteq> None \<longrightarrow> the pi < length tree \<and> the pi \<noteq> ni"
  shows "fold (remove_step ni pi gp) [0..<n] (Some tree) \<noteq> None"
proof (induction n)
  case (Suc n)
  then obtain t0 where t0: "fold (remove_step ni pi gp) [0..<n] (Some tree) = Some t0" by auto
  note m = fold_remove_moved [OF t0 assms(2,3)]
  show ?case
  proof (cases pi)
    case None
    then have "remove_step ni pi gp n (Some t0) \<noteq> None" by (simp add: remove_step_def Let_def split: option.splits)
    then show ?thesis using t0 by simp
  next
    case (Some q)
    then show ?thesis using t0 remove_step_no_overflow [of tree q n ni t0 gp] m assms by auto
  qed
qed simp

text \<open>A node that is its own parent: only its own children array is written, and it is zeroed at the end.\<close>

lemma remove_step_self:
  assumes "\<exists>x. kids t = (kids tree)[ni := x]" and "remove_step ni (Some ni) gp i (Some t) = Some t'"
  shows "\<exists>x. kids t' = (kids tree)[ni := x]"
proof -
  have "kids (t[k := (t ! k)\<lparr>pn_parent := gp\<rparr>]) = kids t" if "h2_priority_find t c = Some k" for k c
    by (simp add: map_update list_update_same_conv h2_priority_findD(1) [OF that])
  with assms show ?thesis
    by (auto simp: remove_step_def Let_def map_update split: if_splits option.splits)
qed

lemma fold_remove_self:
  assumes "fold (remove_step ni (Some ni) gp) [0..<n] (Some tree) = Some t"
  shows "\<exists>x. kids t = (kids tree)[ni := x]"
  using assms
proof (induction n arbitrary: t)
  case 0
  then show ?case by (auto intro!: exI [of _ "kids tree ! ni"])
next
  case (Suc n)
  then obtain t0 where "fold (remove_step ni (Some ni) gp) [0..<n] (Some tree) = Some t0"
    by (cases "fold (remove_step ni (Some ni) gp) [0..<n] (Some tree)") auto
  with Suc show ?case using remove_step_self by auto
qed

lemma length_swap_remove: "length (swap_remove x xs) \<le> length xs"
  by (auto simp: swap_remove_def split: option.splits)

lemma kids_zeroed:
  assumes "ni < length tree" and "q < length tree" and "q \<noteq> ni"
    and "length ys \<le> length (kids tree ! q) + length (kids tree ! ni)"
  shows "sum_list (map length ((kids tree)[q := ys, ni := []])) \<le> entries tree"
proof -
  let ?ls = "map length (kids tree)"
  have s: "?ls ! q + ?ls ! ni \<le> sum_list ?ls" using assms by (intro two_le_sum_list) auto
  have "map length ((kids tree)[q := ys, ni := []]) = ?ls[q := length ys, ni := 0]" by (simp add: map_update)
  also have "sum_list \<dots> = sum_list ?ls + length ys - ?ls ! q + 0 - ?ls ! ni"
    using assms(1-3) by (simp add: sum_list_update)
  finally show ?thesis using s assms by (simp add: entries_def)
qed

lemma h2_priority_remove_ok:
  assumes "h2_tree_ok tree" and "h2_priority_remove tree sid = Inr (Some t)"
  shows "h2_tree_ok t"
proof -
  from assms(2) obtain ni where ni: "h2_priority_find tree sid = Some ni"
    by (auto simp: h2_priority_remove_def split: if_splits option.splits)
  note nl = h2_priority_findD(1) [OF ni]
  let ?pi = "h2_priority_find tree (pn_parent (tree ! ni))"
  let ?gp = "case ?pi of None \<Rightarrow> 0 | Some q \<Rightarrow> pn_parent (tree ! q)"
  from assms(2) ni obtain t1 where f: "fold (remove_step ni ?pi ?gp) [0..<H2_MAX_PRIORITY_NODES] (Some tree) = Some t1"
    and t: "t = (case ?pi of None \<Rightarrow> t1
      | Some q \<Rightarrow> t1[q := (t1 ! q)\<lparr>pn_children := swap_remove sid (pn_children (t1 ! q))\<rparr>])[ni := zero_node]"
    by (auto simp: h2_priority_remove_def Let_def split: if_splits option.splits)
  have zn: "pn_children zero_node = []" by (simp add: zero_node_def)
  have "length t = length tree \<and> sum_list (map length (kids t)) \<le> entries tree"
  proof (cases ?pi)
    case None
    with f have "kids t1 = kids tree" using fold_remove_moved [OF f nl] by (simp add: moved_def)
    then show ?thesis
      using None t nl zn length_kids_eq [of t1 tree] by (simp add: map_update sum_list_update entries_def)
  next
    case (Some q)
    note q = h2_priority_findD(1) [OF Some]
    show ?thesis
    proof (cases "q = ni")
      case True
      with f Some obtain x where x: "kids t1 = (kids tree)[ni := x]" using fold_remove_self by force
      then have "length t1 = length tree" by (metis length_list_update length_map)
      then show ?thesis using True Some t nl zn x by (simp add: map_update sum_list_update entries_def)
    next
      case False
      with f Some q nl have "moved tree ?pi (min H2_MAX_PRIORITY_NODES (length (kids tree ! ni))) t1"
        by (intro fold_remove_moved) auto
      then obtain l where l: "length l \<le> length (kids tree ! ni)" "kids t1 = (kids tree)[q := kids tree ! q @ l]"
        using Some by (auto simp: moved_def)
      then have len: "length t1 = length tree" by (metis length_list_update length_map)
      have "pn_children (t1 ! q) = kids tree ! q @ l" using l(2) q len by (metis nth_list_update_eq length_map nth_map)
      then have "kids t = (kids tree)[q := swap_remove sid (kids tree ! q @ l), ni := []]"
        using t Some l(2) zn by (simp add: map_update)
      moreover have "length (swap_remove sid (kids tree ! q @ l)) \<le> length (kids tree ! q) + length (kids tree ! ni)"
        using length_swap_remove [of sid "kids tree ! q @ l"] l(1) by simp
      ultimately show ?thesis using kids_zeroed [OF nl q False] t Some len by simp
    qed
  qed
  then show ?thesis using assms(1) by (simp add: h2_tree_ok_def entries_def)
qed

lemma h2_tree_reach_ok: "h2_tree_reach tree \<Longrightarrow> h2_tree_ok tree"
proof (induction rule: h2_tree_reach.induct)
  case reach_init
  show ?case by code_simp
qed (auto intro: h2_priority_add_ok h2_priority_remove_ok)

text \<open>
  In every priority tree that additions and removals produce, the node array holds at most 32 nodes, every
  children array less than 32 entries, and removing a node that is not its own parent writes inside its arrays.
\<close>

theorem h2_priority_bounds:
  assumes "h2_tree_reach tree"
  shows "length tree \<le> H2_MAX_PRIORITY_NODES \<and>
    list_all (\<lambda>n. length (pn_children n) < H2_MAX_PRIORITY_NODES) tree \<and>
    (h2_priority_find tree sid = Some ni \<longrightarrow> pn_parent (tree ! ni) \<noteq> sid \<longrightarrow> h2_priority_remove tree sid \<noteq> Inr None)"
proof (intro conjI impI)
  note ok = h2_tree_reach_ok [OF assms]
  show "length tree \<le> H2_MAX_PRIORITY_NODES" using ok by (simp add: h2_tree_ok_def)
  show "list_all (\<lambda>n. length (pn_children n) < H2_MAX_PRIORITY_NODES) tree"
    using h2_tree_ok_children [OF ok] by (simp add: list_all_iff)
  assume ni: "h2_priority_find tree sid = Some ni" and np: "pn_parent (tree ! ni) \<noteq> sid"
  let ?pi = "h2_priority_find tree (pn_parent (tree ! ni))"
  have "?pi \<noteq> None \<longrightarrow> the ?pi < length tree \<and> the ?pi \<noteq> ni"
    using h2_priority_findD(2) [OF ni] np h2_priority_findD [of tree "pn_parent (tree ! ni)"] by fastforce
  from fold_remove_total [OF ok h2_priority_findD(1) [OF ni] this,
      of "case ?pi of None \<Rightarrow> 0 | Some q \<Rightarrow> pn_parent (tree ! q)" H2_MAX_PRIORITY_NODES]
  obtain t1 where "fold (remove_step ni ?pi (case ?pi of None \<Rightarrow> 0 | Some q \<Rightarrow> pn_parent (tree ! q)))
    [0..<H2_MAX_PRIORITY_NODES] (Some tree) = Some t1" by blast
  then show "h2_priority_remove tree sid \<noteq> Inr None" using ni by (simp add: h2_priority_remove_def Let_def)
qed

lemma chain_tree_reach: "h2_tree_reach chain_tree"
proof -
  obtain t1 where 1: "h2_priority_add h2_priority_tree_init 1 0 8 False = Inr t1"
    and e1: "t1 = [\<lparr>pn_parent = 0, pn_weight = 16, pn_self = 0, pn_exclusive = False, pn_children = [1]\<rparr>,
      \<lparr>pn_parent = 0, pn_weight = 8, pn_self = 1, pn_exclusive = False, pn_children = []\<rparr>]"
    by (simp add: h2_priority_add_def h2_priority_tree_init_def zero_node_def h2_priority_find_def H2_MAX_PRIORITY_NODES_def)
  have "\<exists>t2. h2_priority_add t1 3 1 8 False = Inr t2 \<and> (\<exists>t3. h2_priority_add t2 5 3 8 False = Inr t3)"
    by (simp add: e1 h2_priority_add_def h2_priority_find_def H2_MAX_PRIORITY_NODES_def)
  then obtain t2 t3 where 2: "h2_priority_add t1 3 1 8 False = Inr t2" and 3: "h2_priority_add t2 5 3 8 False = Inr t3"
    by blast
  have "h2_tree_reach t3" by (rule reach_add [OF reach_add [OF reach_add [OF reach_init 1] 2] 3])
  then show ?thesis using 1 2 3 by (simp add: chain_tree_def)
qed

theorem h2_priority_bounds_witness:
  "h2_priority_find chain_tree 3 = Some 2 \<and> pn_parent (chain_tree ! 2) \<noteq> 3 \<and> h2_priority_remove chain_tree 3 \<noteq> Inr None"
proof -
  have "h2_priority_find chain_tree 3 = Some 2" and "pn_parent (chain_tree ! 2) \<noteq> 3" by code_simp+
  then show ?thesis using h2_priority_bounds [OF chain_tree_reach, of 3 2] by blast
qed

text \<open>
  Re-adding a stream with itself as parent is accepted; removing it then appends its children to its own array
  until the array overflows. Removing the middle of a chain leaves its child listed under the parent while the
  child names the grandparent.
\<close>

lemma h2_priority_self_parent_overflow:
  "h2_priority_remove self_parent_tree 1 = Inr None"
  by code_simp

lemma h2_priority_remove_wrong_parent:
  "case h2_priority_remove chain_tree 3 of Inr (Some t) \<Rightarrow>
     (case h2_priority_find t 5 of Some i \<Rightarrow> pn_parent (t ! i) = 0 \<and>
       (case h2_priority_find t 1 of Some j \<Rightarrow> pn_children (t ! j) = [5] | None \<Rightarrow> False) | None \<Rightarrow> False)
   | _ \<Rightarrow> False"
  by code_simp

end
