(* ===== verification/IpRouting.thy ===== *)
theory IpRouting
  imports Net_Prelude
begin

unbundle bit_operations_syntax

text \<open>
  CIDR arithmetic and the routing table of \<open>mini-network-base/src/ip_routing.c\<close>: adding, removing and looking up
  routes, sorting and aggregating the table, and the split-horizon check. The entries up to \<open>count\<close> are a list.
  An operation that returns a code returns the table and the code. \<open>qsort\<close> is a stable sort by the comparison's
  key; the order it leaves between equal entries is not specified in C and no lemma depends on it. Null guards, the
  printing functions and the text form of CIDR blocks are not modelled.
\<close>

section \<open>CIDR arithmetic\<close>

definition IP_ROUTE_MAX_ENTRIES :: nat where "IP_ROUTE_MAX_ENTRIES = 256"
definition IP_ROUTE_METRIC_MAX :: "16 word" where "IP_ROUTE_METRIC_MAX = 65535"

definition ip_prefix_to_mask :: "8 word \<Rightarrow> 32 word" where
  "ip_prefix_to_mask prefix_len =
     (if prefix_len = 0 then 0
      else let p = (if prefix_len > 32 then 32 else prefix_len)
           in if p = 32 then 0xFFFFFFFF else ucast (push_bit (unat (32 - p)) (0xFFFFFFFF :: 64 word)))"

definition ip_network_addr :: "32 word \<Rightarrow> 8 word \<Rightarrow> 32 word" where
  "ip_network_addr ip prefix_len = ip AND ip_prefix_to_mask prefix_len"

definition ip_broadcast_addr :: "32 word \<Rightarrow> 8 word \<Rightarrow> 32 word" where
  "ip_broadcast_addr network prefix_len = network OR NOT (ip_prefix_to_mask prefix_len)"

definition ip_in_subnet :: "32 word \<Rightarrow> 32 word \<Rightarrow> 8 word \<Rightarrow> bool" where
  "ip_in_subnet ip network prefix_len \<longleftrightarrow>
     ip AND ip_prefix_to_mask prefix_len = network AND ip_prefix_to_mask prefix_len"

definition ip_subnet_host_count :: "8 word \<Rightarrow> 32 word" where
  "ip_subnet_host_count prefix_len =
     (if prefix_len \<ge> 31 then 0 else push_bit (unat (32 - prefix_len)) 1 - 2)"

section \<open>The routing table\<close>

record IPRouteEntry =
  re_network :: "32 word"
  re_prefix_len :: "8 word"
  re_nexthop :: "32 word"
  re_interface_addr :: "32 word"
  re_metric :: "16 word"
  re_admin_distance :: "16 word"
  re_active :: bool
  re_age :: "32 word"

record IPRoutingTable =
  rt_entries :: "IPRouteEntry list"
  rt_default_gateway :: "32 word"
  rt_has_default :: bool

definition ip_routing_table_init :: IPRoutingTable where
  "ip_routing_table_init = \<lparr>rt_entries = [], rt_default_gateway = 0, rt_has_default = False\<rparr>"

definition ip_routing_add ::
    "IPRoutingTable \<Rightarrow> 32 word \<Rightarrow> 8 word \<Rightarrow> 32 word \<Rightarrow> 32 word \<Rightarrow> 16 word \<Rightarrow> IPRoutingTable \<times> int" where
  "ip_routing_add rt network prefix_len nexthop iface metric =
     (if length (rt_entries rt) \<ge> IP_ROUTE_MAX_ENTRIES then (rt, -2)
      else if prefix_len > 32 then (rt, -3)
      else case find_index (\<lambda>e. re_network e = network \<and> re_prefix_len e = prefix_len \<and> re_active e) (rt_entries rt) of
        Some i \<Rightarrow>
          (rt\<lparr>rt_entries := (rt_entries rt)[i := (rt_entries rt ! i)\<lparr>re_nexthop := nexthop,
              re_interface_addr := iface, re_metric := metric, re_age := 0\<rparr>]\<rparr>, 0)
      | None \<Rightarrow>
          (let e = \<lparr>re_network = network, re_prefix_len = prefix_len, re_nexthop = nexthop,
                    re_interface_addr = iface, re_metric = metric, re_admin_distance = 1, re_active = True, re_age = 0\<rparr>;
               rt' = (if prefix_len = 0 then rt\<lparr>rt_default_gateway := nexthop, rt_has_default := True\<rparr> else rt)
           in (rt'\<lparr>rt_entries := rt_entries rt @ [e]\<rparr>, 0)))"

definition ip_routing_remove :: "IPRoutingTable \<Rightarrow> 32 word \<Rightarrow> 8 word \<Rightarrow> IPRoutingTable \<times> int" where
  "ip_routing_remove rt network prefix_len =
     (case find_index (\<lambda>e. re_network e = network \<and> re_prefix_len e = prefix_len) (rt_entries rt) of
        None \<Rightarrow> (rt, -2)
      | Some i \<Rightarrow> (rt\<lparr>rt_entries := remove_at i (rt_entries rt)\<rparr>, 0))"

definition ip_routing_set_default :: "IPRoutingTable \<Rightarrow> 32 word \<Rightarrow> IPRoutingTable" where
  "ip_routing_set_default rt gateway = fst (ip_routing_add rt 0 0 gateway 0 1)"

text \<open>The scan of the lookup: the best entry so far, its prefix length and its metric.\<close>

definition lookup_step ::
    "32 word \<Rightarrow> IPRouteEntry \<Rightarrow> IPRouteEntry option \<times> 8 word \<times> 16 word \<Rightarrow> IPRouteEntry option \<times> 8 word \<times> 16 word" where
  "lookup_step dst e best =
     (case best of (b, best_prefix, best_metric) \<Rightarrow>
        if re_active e \<and> dst AND ip_prefix_to_mask (re_prefix_len e) = re_network e AND ip_prefix_to_mask (re_prefix_len e) \<and>
           (re_prefix_len e > best_prefix \<or> re_prefix_len e = best_prefix \<and> re_metric e < best_metric)
        then (Some e, re_prefix_len e, re_metric e) else best)"

definition ip_routing_lookup :: "IPRoutingTable \<Rightarrow> 32 word \<Rightarrow> int + IPRouteEntry" where
  "ip_routing_lookup rt dst =
     (case fold (lookup_step dst) (rt_entries rt) (None, 0, IP_ROUTE_METRIC_MAX) of
        (Some e, _) \<Rightarrow> Inr e
      | (None, _) \<Rightarrow>
          (if rt_has_default rt
           then case List.find (\<lambda>e. re_active e \<and> re_prefix_len e = 0) (rt_entries rt) of
                  Some e \<Rightarrow> Inr e | None \<Rightarrow> Inl (-2)
           else Inl (-2)))"

definition prefix_key :: "IPRouteEntry \<Rightarrow> nat" where
  "prefix_key e = (255 - unat (re_prefix_len e)) * 65536 + unat (re_metric e)"

definition ip_routing_sort_by_prefix :: "IPRoutingTable \<Rightarrow> IPRoutingTable" where
  "ip_routing_sort_by_prefix rt =
     (if length (rt_entries rt) < 2 then rt else rt\<lparr>rt_entries := sort_key prefix_key (rt_entries rt)\<rparr>)"

text \<open>One pair of the aggregation loops; the number counts the merged entries.\<close>

definition aggregate_pair :: "nat \<Rightarrow> nat \<Rightarrow> IPRouteEntry list \<times> int \<Rightarrow> IPRouteEntry list \<times> int" where
  "aggregate_pair i j st =
     (case st of (es, merged) \<Rightarrow>
        let a = es ! i; b = es ! j; pl = re_prefix_len a - 1; m = ip_prefix_to_mask pl
        in if re_active b \<and> re_prefix_len a = re_prefix_len b \<and> re_nexthop a = re_nexthop b \<and> re_prefix_len a \<noteq> 0 \<and>
              re_network a AND m = re_network b AND m
           then (es[i := a\<lparr>re_prefix_len := pl, re_network := re_network a AND m,
                           re_metric := (if re_metric a < re_metric b then re_metric a else re_metric b)\<rparr>,
                    j := b\<lparr>re_active := False\<rparr>], merged + 1)
           else st)"

definition aggregate_row :: "nat \<Rightarrow> nat \<Rightarrow> IPRouteEntry list \<times> int \<Rightarrow> IPRouteEntry list \<times> int" where
  "aggregate_row n i st = (if re_active (fst st ! i) then fold (aggregate_pair i) [Suc i..<n] st else st)"

definition ip_routing_aggregate :: "IPRoutingTable \<Rightarrow> IPRoutingTable \<times> int" where
  "ip_routing_aggregate rt =
     (let n = length (rt_entries rt)
      in if n < 2 then (rt, 0)
         else case fold (aggregate_row n) [0..<n] (rt_entries rt, 0) of
           (es, merged) \<Rightarrow> (rt\<lparr>rt_entries := filter re_active es\<rparr>, merged))"

definition ip_routing_split_horizon :: "IPRoutingTable \<Rightarrow> 32 word \<Rightarrow> 32 word \<Rightarrow> bool" where
  "ip_routing_split_horizon rt dest nexthop =
     (case ip_routing_lookup rt dest of Inr r \<Rightarrow> re_nexthop r \<noteq> nexthop | Inl _ \<Rightarrow> True)"

section \<open>Specification\<close>

definition matches :: "32 word \<Rightarrow> IPRouteEntry \<Rightarrow> bool" where
  "matches dst e \<longleftrightarrow> re_active e \<and> ip_in_subnet dst (re_network e) (re_prefix_len e)"

definition better :: "IPRouteEntry \<Rightarrow> IPRouteEntry \<Rightarrow> bool" where
  "better e f \<longleftrightarrow> re_prefix_len e > re_prefix_len f \<or> re_prefix_len e = re_prefix_len f \<and> re_metric e < re_metric f"

inductive rt_reach :: "IPRoutingTable \<Rightarrow> bool" where
  reach_init: "rt_reach ip_routing_table_init"
| reach_add: "rt_reach rt \<Longrightarrow> rt_reach (fst (ip_routing_add rt network prefix_len nexthop iface metric))"
| reach_remove: "rt_reach rt \<Longrightarrow> rt_reach (fst (ip_routing_remove rt network prefix_len))"
| reach_sort: "rt_reach rt \<Longrightarrow> rt_reach (ip_routing_sort_by_prefix rt)"

definition rt_ok :: "IPRoutingTable \<Rightarrow> bool" where
  "rt_ok rt \<longleftrightarrow> length (rt_entries rt) \<le> IP_ROUTE_MAX_ENTRIES \<and> list_all (\<lambda>e. re_prefix_len e \<le> 32 \<and> re_active e) (rt_entries rt) \<and>
     distinct (map (\<lambda>e. (re_network e, re_prefix_len e)) (rt_entries rt)) \<and>
     (list_ex (\<lambda>e. re_prefix_len e = 0) (rt_entries rt) \<longrightarrow> rt_has_default rt)"

section \<open>Masks\<close>

lemma bit_prefix_mask:
  assumes "p \<le> 32"
  shows "bit (ip_prefix_to_mask p) n \<longleftrightarrow> 32 - unat p \<le> n \<and> n < 32"
proof -
  have u: "unat p \<le> 32" using assms by (simp add: word_le_nat_alt)
  have s: "unat (32 - p) = 32 - unat p" using assms by (simp add: unat_sub)
  have f: "(0xFFFFFFFF :: 32 word) = mask 32" "(0xFFFFFFFF :: 64 word) = mask 32"
    by (simp_all add: mask_eq_exp_minus_1)
  consider "p = 0" | "p = 32" | "p \<noteq> 0" "p < 32" using assms by (auto simp: le_less)
  then show ?thesis
  proof cases
    case 3
    then have "ip_prefix_to_mask p = ucast (push_bit (32 - unat p) (mask 32 :: 64 word))"
      using s by (auto simp: ip_prefix_to_mask_def f)
    then show ?thesis using u by (auto simp: bit_simps)
  qed (simp_all add: ip_prefix_to_mask_def f(1) bit_mask_iff)
qed

lemma in_subnet_iff:
  assumes "p \<le> 32"
  shows "ip_in_subnet ip net p \<longleftrightarrow> (\<forall>n. 32 - unat p \<le> n \<longrightarrow> n < 32 \<longrightarrow> bit ip n = bit net n)"
  unfolding ip_in_subnet_def bit_eq_iff by (auto simp: bit_and_iff bit_prefix_mask [OF assms])

lemma in_subnet_wider:
  assumes "ip_in_subnet ip net p" and "p \<le> 32" and "q \<le> p"
  shows "ip_in_subnet ip net q"
  using assms by (auto simp: in_subnet_iff word_le_nat_alt)

lemma in_subnet_masked:
  assumes "p \<le> 32"
  shows "ip_in_subnet ip (net AND ip_prefix_to_mask p) p \<longleftrightarrow> ip_in_subnet ip net p"
  by (simp add: ip_in_subnet_def and.assoc)

section \<open>Lookup\<close>

lemma metric_top: "m \<le> IP_ROUTE_METRIC_MAX"
proof -
  have "unat m < 2 ^ LENGTH(16)" by (rule unsigned_less)
  then show ?thesis by (simp add: IP_ROUTE_METRIC_MAX_def word_le_nat_alt)
qed

lemma better_trans: "better e f \<Longrightarrow> better f h \<Longrightarrow> better e h"
  by (auto simp: better_def)

definition scan_ok :: "32 word \<Rightarrow> IPRouteEntry set \<Rightarrow> IPRouteEntry option \<times> 8 word \<times> 16 word \<Rightarrow> bool" where
  "scan_ok dst S st \<longleftrightarrow>
     (case st of (b, bp, bm) \<Rightarrow> case b of
        None \<Rightarrow> bp = 0 \<and> bm = IP_ROUTE_METRIC_MAX \<and>
          (\<forall>f \<in> S. matches dst f \<longrightarrow> re_prefix_len f = 0 \<and> re_metric f = IP_ROUTE_METRIC_MAX)
      | Some e \<Rightarrow> e \<in> S \<and> matches dst e \<and> bp = re_prefix_len e \<and> bm = re_metric e \<and>
          (\<forall>f \<in> S. matches dst f \<longrightarrow> \<not> better f e))"

lemma lookup_step_ok:
  assumes "scan_ok dst S (b, bp, bm)"
  shows "scan_ok dst (insert e S) (lookup_step dst e (b, bp, bm))"
proof -
  have step: "lookup_step dst e (b, bp, bm) =
    (if matches dst e \<and> (re_prefix_len e > bp \<or> re_prefix_len e = bp \<and> re_metric e < bm)
     then (Some e, re_prefix_len e, re_metric e) else (b, bp, bm))"
    by (simp add: lookup_step_def matches_def ip_in_subnet_def)
  show ?thesis
  proof (cases b)
    case None
    then show ?thesis
      using assms metric_top [of "re_metric e"] unfolding step
      by (auto simp: scan_ok_def better_def le_less word_gt_0)
  next
    case (Some h)
    then have h: "h \<in> S" "matches dst h" "bp = re_prefix_len h" "bm = re_metric h"
      "\<forall>f \<in> S. matches dst f \<longrightarrow> \<not> better f h" using assms by (auto simp: scan_ok_def)
    show ?thesis
    proof (cases "matches dst e \<and> better e h")
      case True
      then have "\<not> better f e" if "f \<in> S" "matches dst f" for f using h(5) that better_trans by blast
      then show ?thesis using True h(3,4) unfolding step scan_ok_def by (auto simp: better_def)
    next
      case False
      then show ?thesis using h Some unfolding step scan_ok_def by (auto simp: better_def)
    qed
  qed
qed

lemma lookup_scan: "scan_ok dst (set es) (fold (lookup_step dst) es (None, 0, IP_ROUTE_METRIC_MAX))"
proof (induction es rule: rev_induct)
  case (snoc e es)
  then show ?case using lookup_step_ok [of dst "set es"] by (cases "fold (lookup_step dst) es (None, 0, IP_ROUTE_METRIC_MAX)") simp
qed (simp add: scan_ok_def)

lemma lookup_longest:
  assumes "rt_ok rt"
  shows "case ip_routing_lookup rt dst of
      Inr e \<Rightarrow> e \<in> set (rt_entries rt) \<and> matches dst e \<and> list_all (\<lambda>f. matches dst f \<longrightarrow> \<not> better f e) (rt_entries rt)
    | Inl r \<Rightarrow> r = -2 \<and> \<not> list_ex (matches dst) (rt_entries rt)"
proof -
  let ?es = "rt_entries rt"
  obtain b bp bm where f: "fold (lookup_step dst) ?es (None, 0, IP_ROUTE_METRIC_MAX) = (b, bp, bm)" by (metis prod_cases3)
  note scan = lookup_scan [of dst ?es, unfolded f scan_ok_def prod.case]
  show ?thesis
  proof (cases b)
    case (Some e)
    then show ?thesis using f scan by (simp add: ip_routing_lookup_def list_all_iff)
  next
    case None
    then have worst: "\<forall>g \<in> set ?es. matches dst g \<longrightarrow> re_prefix_len g = 0 \<and> re_metric g = IP_ROUTE_METRIC_MAX" using scan by simp
    have any: "matches dst g \<longleftrightarrow> re_active g" if "re_prefix_len g = 0" for g
      using that by (simp add: matches_def ip_in_subnet_def ip_prefix_to_mask_def)
    show ?thesis
    proof (cases "List.find (\<lambda>e. re_active e \<and> re_prefix_len e = 0) ?es")
      case None
      then have "\<not> list_ex (matches dst) ?es" using worst by (auto simp: find_None_iff list_ex_iff matches_def)
      then show ?thesis using f \<open>b = None\<close> None by (simp add: ip_routing_lookup_def)
    next
      case (Some e)
      then have e: "e \<in> set ?es" "re_active e" "re_prefix_len e = 0" by (auto simp: find_Some_iff)
      then have "rt_has_default rt" using assms by (auto simp: rt_ok_def list_ex_iff)
      moreover have "re_metric e = IP_ROUTE_METRIC_MAX" using worst any e by blast
      moreover then have "list_all (\<lambda>g. matches dst g \<longrightarrow> \<not> better g e) ?es"
        using worst e(3) by (simp add: list_all_iff better_def)
      ultimately show ?thesis using f \<open>b = None\<close> Some e any [OF e(3)] by (simp add: ip_routing_lookup_def)
    qed
  qed
qed

section \<open>Invariant\<close>

abbreviation route_key :: "IPRouteEntry \<Rightarrow> 32 word \<times> 8 word" where
  "route_key e \<equiv> (re_network e, re_prefix_len e)"

lemma rt_ok_add:
  assumes "rt_ok rt"
  shows "rt_ok (fst (ip_routing_add rt net p nh ifc m))"
proof -
  let ?es = "rt_entries rt"
  let ?f = "find_index (\<lambda>e. re_network e = net \<and> re_prefix_len e = p \<and> re_active e) ?es"
  consider (refused) "length ?es \<ge> IP_ROUTE_MAX_ENTRIES \<or> p > 32"
    | (update) i where "?f = Some i" "\<not> length ?es \<ge> IP_ROUTE_MAX_ENTRIES" "\<not> p > 32"
    | (append) "?f = None" "\<not> length ?es \<ge> IP_ROUTE_MAX_ENTRIES" "\<not> p > 32"
    by (cases ?f) auto
  then show ?thesis
  proof cases
    case (update i)
    note i = find_index_SomeD(1) [OF update(1)]
    let ?e = "(?es ! i)\<lparr>re_nexthop := nh, re_interface_addr := ifc, re_metric := m, re_age := 0\<rparr>"
    have "map route_key (?es[i := ?e]) = map route_key ?es" by (simp add: map_update list_update_same_conv i)
    moreover have "list_ex (\<lambda>e. re_prefix_len e = 0) (?es[i := ?e]) \<longleftrightarrow> list_ex (\<lambda>e. re_prefix_len e = 0) ?es"
      using i by (auto simp: list_ex_length nth_list_update)
    moreover have "list_all (\<lambda>e. re_prefix_len e \<le> 32 \<and> re_active e) (?es[i := ?e])"
      using assms i by (auto simp: rt_ok_def list_all_length nth_list_update)
    ultimately show ?thesis using assms update by (simp add: ip_routing_add_def rt_ok_def)
  next
    case append
    then have "(net, p) \<notin> route_key ` set ?es"
      using assms by (auto simp: find_index_None_iff rt_ok_def list_all_iff)
    then show ?thesis using assms append by (auto simp: ip_routing_add_def rt_ok_def Let_def)
  qed (use assms in \<open>auto simp: ip_routing_add_def\<close>)
qed

lemma rt_ok_remove:
  assumes "rt_ok rt"
  shows "rt_ok (fst (ip_routing_remove rt net p))"
proof (cases "find_index (\<lambda>e. re_network e = net \<and> re_prefix_len e = p) (rt_entries rt)")
  case (Some i)
  have "set (remove_at i (rt_entries rt)) \<subseteq> set (rt_entries rt)" by (rule set_remove_at_subset)
  then show ?thesis
    using assms Some find_index_SomeD(1) [OF Some]
    by (auto simp: ip_routing_remove_def rt_ok_def list_all_iff list_ex_iff map_remove_at distinct_remove_at length_remove_at)
qed (use assms in \<open>simp add: ip_routing_remove_def\<close>)

lemma rt_ok_sort: "rt_ok rt \<Longrightarrow> rt_ok (ip_routing_sort_by_prefix rt)"
proof -
  have "distinct (map route_key (sort_key prefix_key es)) = distinct (map route_key es)" for es
    by (simp add: distinct_map)
  then show "rt_ok rt \<Longrightarrow> rt_ok (ip_routing_sort_by_prefix rt)"
    by (simp add: ip_routing_sort_by_prefix_def rt_ok_def list_all_iff list_ex_iff)
qed

lemma rt_reach_ok: "rt_reach rt \<Longrightarrow> rt_ok rt"
proof (induction rule: rt_reach.induct)
  case reach_init
  show ?case by (simp add: rt_ok_def ip_routing_table_init_def)
qed (simp_all add: rt_ok_add rt_ok_remove rt_ok_sort)

section \<open>Aggregation\<close>

text \<open>
  Every route survives aggregation as an entry at most as specific with the same next hop: \<open>absorbs\<close> relates a table
  before and after a step.
\<close>

definition absorbs :: "IPRouteEntry list \<Rightarrow> IPRouteEntry list \<Rightarrow> bool" where
  "absorbs es es' \<longleftrightarrow> length es' = length es \<and> list_all (\<lambda>e. re_prefix_len e \<le> 32) es' \<and>
     (\<forall>dst. \<forall>e \<in> set es. matches dst e \<longrightarrow>
        (\<exists>e' \<in> set es'. matches dst e' \<and> re_nexthop e' = re_nexthop e \<and> re_prefix_len e' \<le> re_prefix_len e))"

lemma absorbs_trans: "absorbs es es1 \<Longrightarrow> absorbs es1 es2 \<Longrightarrow> absorbs es es2"
  unfolding absorbs_def by (fastforce intro: order.trans)

lemma aggregate_pair_absorbs:
  assumes "list_all (\<lambda>e. re_prefix_len e \<le> 32) es" and "re_active (es ! i)" and "i < j" and "j < length es"
    and "aggregate_pair i j (es, m) = (es', m')"
  shows "absorbs es es' \<and> re_active (es' ! i)"
proof (cases "es' = es")
  case True
  then show ?thesis using assms by (auto simp: absorbs_def)
next
  case False
  let ?a = "es ! i" and ?b = "es ! j" and ?pl = "re_prefix_len (es ! i) - 1"
  let ?k = "ip_prefix_to_mask ?pl"
  let ?c = "?a\<lparr>re_prefix_len := ?pl, re_network := re_network ?a AND ?k,
    re_metric := (if re_metric ?a < re_metric ?b then re_metric ?a else re_metric ?b)\<rparr>"
  from assms(5) False have eq: "es' = es[i := ?c, j := ?b\<lparr>re_active := False\<rparr>]"
    and cond: "re_prefix_len ?a = re_prefix_len ?b" "re_nexthop ?a = re_nexthop ?b" "re_prefix_len ?a \<noteq> 0"
      "re_network ?a AND ?k = re_network ?b AND ?k"
    by (auto simp: aggregate_pair_def Let_def split: if_splits)
  have a32: "re_prefix_len ?a \<le> 32" using assms(1,3,4) by (simp add: list_all_length)
  then have pl: "?pl \<le> re_prefix_len ?a" "?pl \<le> 32"
    using cond(3) by (auto simp: word_le_nat_alt unat_minus_one)
  have c: "matches dst ?c" if "matches dst ?a \<or> matches dst ?b" for dst
  proof -
    have "ip_in_subnet dst (re_network ?a) ?pl \<or> ip_in_subnet dst (re_network ?b) ?pl"
      using that in_subnet_wider [OF _ a32 pl(1)] cond(1) by (auto simp: matches_def)
    then have "ip_in_subnet dst (re_network ?a AND ?k) ?pl"
      using in_subnet_masked [OF pl(2), of dst] cond(4) by metis
    then show ?thesis using assms(2) by (simp add: matches_def)
  qed
  have ci: "?c \<in> set es'" using assms(3,4) by (auto simp: eq in_set_conv_nth intro!: exI [of _ i])
  have "\<exists>e' \<in> set es'. matches dst e' \<and> re_nexthop e' = re_nexthop e \<and> re_prefix_len e' \<le> re_prefix_len e"
    if e: "e \<in> set es" "matches dst e" for dst e
  proof (cases "e = ?a \<or> e = ?b")
    case True
    then show ?thesis using c [of dst] e ci cond(1,2) pl(1) by (intro bexI [of _ ?c]) auto
  next
    case False
    then obtain k where "k < length es" "es ! k = e" "k \<noteq> i" "k \<noteq> j" using e(1) by (auto simp: in_set_conv_nth)
    then have "e \<in> set es'" by (auto simp: eq in_set_conv_nth intro!: exI [of _ k])
    then show ?thesis using e by auto
  qed
  moreover have "list_all (\<lambda>e. re_prefix_len e \<le> 32) es'"
    using assms(1,3,4) pl(2) by (auto simp: eq list_all_length nth_list_update)
  ultimately show ?thesis using assms(2-4) by (simp add: absorbs_def eq)
qed

lemma aggregate_row_absorbs:
  assumes "list_all (\<lambda>e. re_prefix_len e \<le> 32) es" and "aggregate_row (length es) i (es, m) = (es', m')"
  shows "absorbs es es'"
proof (cases "re_active (es ! i)")
  case True
  have "absorbs es (fst (fold (aggregate_pair i) js (es, m))) \<and> re_active (fst (fold (aggregate_pair i) js (es, m)) ! i)"
    if "set js \<subseteq> {Suc i..<length es}" for js
    using that
  proof (induction js rule: rev_induct)
    case Nil
    then show ?case using assms(1) True by (auto simp: absorbs_def)
  next
    case (snoc j js)
    obtain es1 m1 where f: "fold (aggregate_pair i) js (es, m) = (es1, m1)" by fastforce
    obtain es2 m2 where s: "aggregate_pair i j (es1, m1) = (es2, m2)" by fastforce
    have IH: "absorbs es es1" "re_active (es1 ! i)" using snoc f by auto
    then have "list_all (\<lambda>e. re_prefix_len e \<le> 32) es1" "length es1 = length es" by (auto simp: absorbs_def)
    with aggregate_pair_absorbs [OF _ IH(2) _ _ s] snoc.prems have "absorbs es1 es2 \<and> re_active (es2 ! i)" by auto
    then show ?case using f s absorbs_trans [OF IH(1)] by simp
  qed
  from this [of "[Suc i..<length es]"] True assms(2) show ?thesis by (simp add: aggregate_row_def)
qed (use assms in \<open>auto simp: aggregate_row_def absorbs_def\<close>)

lemma aggregate_absorbs:
  assumes "list_all (\<lambda>e. re_prefix_len e \<le> 32) es"
  shows "absorbs es (fst (fold (aggregate_row (length es)) is (es, 0)))"
proof (induction "is" rule: rev_induct)
  case Nil
  then show ?case using assms by (auto simp: absorbs_def)
next
  case (snoc i "is")
  obtain es1 m1 where f: "fold (aggregate_row (length es)) is (es, 0) = (es1, m1)" by fastforce
  obtain es2 m2 where s: "aggregate_row (length es) i (es1, m1) = (es2, m2)" by fastforce
  have IH: "absorbs es es1" using snoc f by simp
  then have "list_all (\<lambda>e. re_prefix_len e \<le> 32) es1" "length es1 = length es" by (auto simp: absorbs_def)
  then have "absorbs es1 es2" using aggregate_row_absorbs [of es1 i m1 es2 m2] s by simp
  then show ?case using f s absorbs_trans [OF IH] by simp
qed

section \<open>Properties\<close>

text \<open>
  C15. Longest prefix match: in every table that additions, removals and sorting produce, a lookup returns an active
  entry whose block contains the destination and than which no other matching entry has a longer prefix, or the same
  prefix and a smaller metric; it fails with \<open>-2\<close> exactly when no entry matches.
\<close>

theorem ip_lookup_longest_prefix:
  assumes "rt_reach rt"
  shows "case ip_routing_lookup rt dst of
      Inr e \<Rightarrow> e \<in> set (rt_entries rt) \<and> matches dst e \<and> list_all (\<lambda>f. matches dst f \<longrightarrow> \<not> better f e) (rt_entries rt)
    | Inl r \<Rightarrow> r = -2 \<and> \<not> list_ex (matches dst) (rt_entries rt)"
  using lookup_longest [OF rt_reach_ok [OF assms]] .

definition demo_table :: IPRoutingTable where
  "demo_table = fst (ip_routing_add (fst (ip_routing_add ip_routing_table_init 0x0A000000 8 1 0 10)) 0x0A010000 16 2 0 10)"

lemma demo_table_reach: "rt_reach demo_table"
  unfolding demo_table_def by (intro rt_reach.intros)

theorem ip_lookup_longest_prefix_witness:
  "case ip_routing_lookup demo_table 0x0A010203 of
     Inr e \<Rightarrow> re_nexthop e = 2 \<and> matches 0x0A010203 e | Inl _ \<Rightarrow> False"
proof -
  have "case ip_routing_lookup demo_table 0x0A010203 of Inr e \<Rightarrow> re_nexthop e = 2 | Inl _ \<Rightarrow> False" by code_simp
  then show ?thesis using ip_lookup_longest_prefix [OF demo_table_reach, of "0x0A010203"] by (auto split: sum.splits)
qed

text \<open>
  Aggregation loses no route: whatever destination an entry of a table covered before, an entry of the
  aggregated table covers it with the same next hop and a prefix that is not longer.
\<close>

theorem ip_aggregate_keeps_routes:
  assumes "rt_reach rt" and "e \<in> set (rt_entries rt)" and "matches dst e"
  shows "\<exists>e' \<in> set (rt_entries (fst (ip_routing_aggregate rt))).
    matches dst e' \<and> re_nexthop e' = re_nexthop e \<and> re_prefix_len e' \<le> re_prefix_len e"
proof (cases "length (rt_entries rt) < 2")
  case False
  let ?es = "rt_entries rt"
  obtain es' m where f: "fold (aggregate_row (length ?es)) [0..<length ?es] (?es, 0) = (es', m)" by fastforce
  have "list_all (\<lambda>e. re_prefix_len e \<le> 32) ?es" using rt_reach_ok [OF assms(1)] by (simp add: rt_ok_def list_all_iff)
  from aggregate_absorbs [OF this, of "[0..<length ?es]"] f assms(2,3) obtain e' where
    "e' \<in> set es'" "matches dst e'" "re_nexthop e' = re_nexthop e" "re_prefix_len e' \<le> re_prefix_len e"
    by (auto simp: absorbs_def)
  then show ?thesis using f False by (intro bexI [of _ e']) (simp_all add: ip_routing_aggregate_def matches_def)
qed (use assms in \<open>auto simp: ip_routing_aggregate_def\<close>)

definition halves :: IPRoutingTable where
  "halves = fst (ip_routing_add (fst (ip_routing_add ip_routing_table_init 0x0A000000 25 1 0 10)) 0x0A000080 25 1 0 20)"

theorem ip_aggregate_keeps_routes_witness:
  "\<exists>e' \<in> set (rt_entries (fst (ip_routing_aggregate halves))). matches 0x0A000085 e' \<and> re_nexthop e' = 1 \<and> re_prefix_len e' \<le> 25"
proof -
  have reach: "rt_reach halves" unfolding halves_def by (intro rt_reach.intros)
  have len: "length (rt_entries halves) = 2" by code_simp
  have m: "matches 0x0A000085 (rt_entries halves ! 1)" "re_nexthop (rt_entries halves ! 1) = 1" "re_prefix_len (rt_entries halves ! 1) = 25"
    by code_simp+
  have "rt_entries halves ! 1 \<in> set (rt_entries halves)" using len by (intro nth_mem) simp
  from ip_aggregate_keeps_routes [OF reach this m(1)] show ?thesis using m(2,3) by simp
qed

text \<open>
  Aggregation also claims addresses that no route covered: two halves of a block are merged into the block, which is
  then merged with an equal entry into a block twice as large.
\<close>

definition overlapping :: IPRoutingTable where
  "overlapping = fst (ip_routing_add halves 0x0A000000 24 1 0 30)"

lemma ip_aggregate_overclaims:
  "ip_routing_lookup overlapping 0x0A000105 = Inl (-2) \<and>
   (case ip_routing_lookup (fst (ip_routing_aggregate overlapping)) 0x0A000105 of Inr e \<Rightarrow> re_nexthop e = 1 | Inl _ \<Rightarrow> False)"
proof
  show "ip_routing_lookup overlapping 0x0A000105 = Inl (-2)" by code_simp
  show "case ip_routing_lookup (fst (ip_routing_aggregate overlapping)) 0x0A000105 of Inr e \<Rightarrow> re_nexthop e = 1 | Inl _ \<Rightarrow> False"
    by code_simp
qed

end
