(* ===== verification/Topology.thy ===== *)
theory Topology
  imports Net_Prelude
begin

unbundle bit_operations_syntax

text \<open>
  The topology graph of the routing module (\<open>mini-network-base/src/ip_routing.c\<close>) and its two shortest-path
  algorithms, Dijkstra's (OSPF) and Bellman-Ford (RIP).

  A graph is the list of its nodes up to \<open>node_count\<close>; the arrays \<open>neighbors\<close> and \<open>cost\<close> of a node up to
  \<open>neighbor_count\<close> are one list of pairs. Neighbours are addresses, resolved by a linear search. Distances and
  predecessors are arrays of 32-bit words, as in the source; the \<open>visited\<close> flags of Dijkstra's algorithm are a list
  that is written back to the nodes at the end. Null guards are not modelled.
\<close>

section \<open>The graph\<close>

definition IP_ROUTE_NETWORK_COUNT :: nat where "IP_ROUTE_NETWORK_COUNT = 32"

record IPNetworkNode =
  nn_addr :: "32 word"
  nn_links :: "(32 word \<times> 32 word) list"
  nn_visited :: bool
  nn_distance :: "32 word"
  nn_previous :: "32 word"

type_synonym IPTopologyGraph = "IPNetworkNode list"

definition ip_topology_init :: IPTopologyGraph where
  "ip_topology_init = []"

definition node_index :: "IPTopologyGraph \<Rightarrow> 32 word \<Rightarrow> nat option" where
  "node_index g na = find_index (\<lambda>n. nn_addr n = na) g"

definition ip_topology_add_node :: "IPTopologyGraph \<Rightarrow> 32 word \<Rightarrow> IPTopologyGraph \<times> int" where
  "ip_topology_add_node g addr =
     (if length g \<ge> IP_ROUTE_NETWORK_COUNT then (g, -2)
      else if node_index g addr \<noteq> None then (g, 0)
      else (g @ [\<lparr>nn_addr = addr, nn_links = [], nn_visited = False, nn_distance = 0,
                  nn_previous = of_nat (length g)\<rparr>], 0))"

definition ip_topology_add_edge ::
    "IPTopologyGraph \<Rightarrow> nat \<Rightarrow> nat \<Rightarrow> 32 word \<Rightarrow> IPTopologyGraph \<times> int" where
  "ip_topology_add_edge g from_i to_i cost =
     (if from_i \<ge> length g \<or> to_i \<ge> length g then (g, -2)
      else let n = g ! from_i; na = nn_addr (g ! to_i)
           in if length (nn_links n) \<ge> IP_ROUTE_NETWORK_COUNT then (g, -3)
              else case find_index (\<lambda>l. fst l = na) (nn_links n) of
                Some i \<Rightarrow> (g[from_i := n\<lparr>nn_links := (nn_links n)[i := (na, cost)]\<rparr>], 0)
              | None \<Rightarrow> (g[from_i := n\<lparr>nn_links := nn_links n @ [(na, cost)]\<rparr>], 0))"

section \<open>Dijkstra\<close>

definition DIST_INF :: "32 word" where "DIST_INF = 0xFFFFFFFF"

record dj =
  dj_visited :: "bool list"
  dj_dist :: "32 word list"
  dj_prev :: "32 word list"

definition dj_init :: "nat \<Rightarrow> nat \<Rightarrow> dj" where
  "dj_init n src = \<lparr>dj_visited = replicate n False, dj_dist = (replicate n DIST_INF)[src := 0],
     dj_prev = replicate n (of_nat n)\<rparr>"

text \<open>The search for the unvisited node of least distance; the node count stands for none.\<close>

definition dj_pick_step :: "dj \<Rightarrow> nat \<Rightarrow> nat \<times> 32 word \<Rightarrow> nat \<times> 32 word" where
  "dj_pick_step st i best =
     (if \<not> dj_visited st ! i \<and> dj_dist st ! i < snd best then (i, dj_dist st ! i) else best)"

definition dj_pick :: "nat \<Rightarrow> dj \<Rightarrow> nat" where
  "dj_pick n st = fst (fold (dj_pick_step st) [0..<n] (n, DIST_INF))"

definition dj_relax :: "IPTopologyGraph \<Rightarrow> nat \<Rightarrow> 32 word \<times> 32 word \<Rightarrow> dj \<Rightarrow> dj" where
  "dj_relax g u link st =
     (case node_index g (fst link) of None \<Rightarrow> st
      | Some v \<Rightarrow>
          (let w = snd link; du = dj_dist st ! u
           in if du = DIST_INF \<or> w > DIST_INF - du then st
              else let alt = du + w
                   in if alt < dj_dist st ! v
                      then st\<lparr>dj_dist := (dj_dist st)[v := alt], dj_prev := (dj_prev st)[v := of_nat u]\<rparr>
                      else st))"

definition dj_visit :: "IPTopologyGraph \<Rightarrow> nat \<Rightarrow> dj \<Rightarrow> dj" where
  "dj_visit g u st = fold (dj_relax g u) (nn_links (g ! u)) (st\<lparr>dj_visited := (dj_visited st)[u := True]\<rparr>)"

fun dj_rounds :: "nat \<Rightarrow> IPTopologyGraph \<Rightarrow> dj \<Rightarrow> dj" where
  "dj_rounds 0 g st = st"
| "dj_rounds (Suc k) g st =
     (let u = dj_pick (length g) st
      in if u = length g then st else dj_rounds k g (dj_visit g u st))"

definition set_visited :: "bool list \<Rightarrow> IPTopologyGraph \<Rightarrow> IPTopologyGraph" where
  "set_visited vis g = map2 (\<lambda>v n. n\<lparr>nn_visited := v\<rparr>) vis g"

definition ip_topology_dijkstra ::
    "IPTopologyGraph \<Rightarrow> nat \<Rightarrow> int + (IPTopologyGraph \<times> 32 word list \<times> 32 word list)" where
  "ip_topology_dijkstra g src =
     (if src \<ge> length g then Inl (-2)
      else let st = dj_rounds (length g) g (dj_init (length g) src)
           in Inr (set_visited (dj_visited st) g, dj_dist st, dj_prev st))"

section \<open>Bellman-Ford\<close>

definition IP_ROUTE_INF :: "32 word" where "IP_ROUTE_INF = 16"

type_synonym bf = "32 word list \<times> 32 word list \<times> bool"

definition bf_relax :: "IPTopologyGraph \<Rightarrow> nat \<Rightarrow> 32 word \<times> 32 word \<Rightarrow> bf \<Rightarrow> bf" where
  "bf_relax g u link st =
     (case st of (dist, prev, updated) \<Rightarrow>
        case node_index g (fst link) of None \<Rightarrow> st
        | Some v \<Rightarrow>
            (let w = snd link; du = dist ! u
             in if w > DIST_INF - du then st
                else let alt = du + w
                     in if alt < dist ! v
                        then if alt \<ge> IP_ROUTE_INF
                             then (dist[v := IP_ROUTE_INF], prev[v := of_nat (length g)], True)
                             else (dist[v := alt], prev[v := of_nat u], True)
                        else st))"

definition bf_node :: "IPTopologyGraph \<Rightarrow> nat \<Rightarrow> bf \<Rightarrow> bf" where
  "bf_node g u st = (if fst st ! u = DIST_INF then st else fold (bf_relax g u) (nn_links (g ! u)) st)"

fun bf_rounds :: "nat \<Rightarrow> IPTopologyGraph \<Rightarrow> 32 word list \<Rightarrow> 32 word list \<Rightarrow> 32 word list \<times> 32 word list" where
  "bf_rounds 0 g dist prev = (dist, prev)"
| "bf_rounds (Suc k) g dist prev =
     (case fold (bf_node g) [0..<length g] (dist, prev, False) of
        (dist', prev', updated) \<Rightarrow> if updated then bf_rounds k g dist' prev' else (dist', prev'))"

definition ip_topology_bellman_ford ::
    "IPTopologyGraph \<Rightarrow> nat \<Rightarrow> int + (32 word list \<times> 32 word list)" where
  "ip_topology_bellman_ford g src =
     (if src \<ge> length g then Inl (-2)
      else Inr (bf_rounds (length g - 1) g ((replicate (length g) DIST_INF)[src := 0])
                  (replicate (length g) (of_nat (length g)))))"

section \<open>Specification: walks and their costs\<close>

definition edge :: "IPTopologyGraph \<Rightarrow> nat \<Rightarrow> nat \<Rightarrow> nat \<Rightarrow> bool" where
  "edge g u v w \<longleftrightarrow> u < length g \<and> (\<exists>(na, c) \<in> set (nn_links (g ! u)). node_index g na = Some v \<and> w = unat c)"

inductive walk :: "IPTopologyGraph \<Rightarrow> nat \<Rightarrow> nat \<Rightarrow> nat \<Rightarrow> bool" for g s where
  walk_refl: "s < length g \<Longrightarrow> walk g s s 0"
| walk_step: "walk g s u c \<Longrightarrow> edge g u v w \<Longrightarrow> walk g s v (c + w)"

definition ospf_cost :: "IPTopologyGraph \<Rightarrow> nat \<Rightarrow> nat \<Rightarrow> nat" where
  "ospf_cost g s v =
     (case ip_topology_dijkstra g s of
        Inr (_, dist, _) \<Rightarrow> if v < length g then unat (dist ! v) else unat DIST_INF
      | Inl _ \<Rightarrow> unat DIST_INF)"

definition rip_cost :: "IPTopologyGraph \<Rightarrow> nat \<Rightarrow> nat \<Rightarrow> nat" where
  "rip_cost g s v =
     (case ip_topology_bellman_ford g s of
        Inr (dist, _) \<Rightarrow> if v < length g then unat (dist ! v) else unat DIST_INF
      | Inl _ \<Rightarrow> unat DIST_INF)"

definition topo_ok :: "IPTopologyGraph \<Rightarrow> bool" where
  "topo_ok g \<longleftrightarrow> length g \<le> IP_ROUTE_NETWORK_COUNT \<and> distinct (map nn_addr g) \<and>
     list_all (\<lambda>n. length (nn_links n) \<le> IP_ROUTE_NETWORK_COUNT \<and> distinct (map fst (nn_links n)) \<and>
       fst ` set (nn_links n) \<subseteq> nn_addr ` set g) g"

inductive topo_reach :: "IPTopologyGraph \<Rightarrow> bool" where
  topo_init: "topo_reach ip_topology_init"
| topo_node: "topo_reach g \<Longrightarrow> topo_reach (fst (ip_topology_add_node g addr))"
| topo_edge: "topo_reach g \<Longrightarrow> topo_reach (fst (ip_topology_add_edge g i j cost))"

definition square :: IPTopologyGraph where
  "square =
     (let g = fst (ip_topology_add_node (fst (ip_topology_add_node (fst (ip_topology_add_node ip_topology_init 10)) 20)) 30);
          g = fst (ip_topology_add_edge g 0 1 7); g = fst (ip_topology_add_edge g 0 2 2)
      in fst (ip_topology_add_edge g 2 1 3))"

abbreviation dist_at :: "dj \<Rightarrow> nat \<Rightarrow> nat" where
  "dist_at st v \<equiv> unat (dj_dist st ! v)"

definition dj_basic :: "IPTopologyGraph \<Rightarrow> nat \<Rightarrow> dj \<Rightarrow> bool" where
  "dj_basic g s st \<longleftrightarrow>
     length (dj_visited st) = length g \<and> length (dj_dist st) = length g \<and> length (dj_prev st) = length g \<and>
     s < length g \<and> dist_at st s = 0 \<and>
     (\<forall>v < length g. dj_dist st ! v \<noteq> DIST_INF \<longrightarrow> walk g s v (dist_at st v)) \<and>
     (\<forall>x < length g. \<forall>y < length g. dj_visited st ! x \<longrightarrow> \<not> dj_visited st ! y \<longrightarrow> dist_at st x \<le> dist_at st y) \<and>
     (\<forall>x < length g. dj_visited st ! x \<longrightarrow> dj_dist st ! x \<noteq> DIST_INF)"

definition dj_closed :: "IPTopologyGraph \<Rightarrow> dj \<Rightarrow> nat set \<Rightarrow> bool" where
  "dj_closed g st X \<longleftrightarrow> (\<forall>x \<in> X. \<forall>v w. edge g x v w \<longrightarrow> dist_at st v \<le> dist_at st x + w)"

definition visited_set :: "dj \<Rightarrow> nat set" where
  "visited_set st = {x. x < length (dj_visited st) \<and> dj_visited st ! x}"

definition dj_tree :: "IPTopologyGraph \<Rightarrow> nat \<Rightarrow> dj \<Rightarrow> bool" where
  "dj_tree g s st \<longleftrightarrow>
     (\<forall>v < length g. dj_prev st ! v \<noteq> of_nat (length g) \<longrightarrow>
        (\<exists>u w. dj_prev st ! v = of_nat u \<and> u < length g \<and> dj_visited st ! u \<and> edge g u v w \<and>
           dist_at st v = dist_at st u + w)) \<and>
     (\<forall>v < length g. v \<noteq> s \<longrightarrow> dj_dist st ! v \<noteq> DIST_INF \<longrightarrow> dj_prev st ! v \<noteq> of_nat (length g))"

text \<open>A route follows the predecessors back to the source: the walk that the array \<open>prev\<close> describes, with its cost.\<close>

inductive route :: "IPTopologyGraph \<Rightarrow> 32 word list \<Rightarrow> nat \<Rightarrow> nat \<Rightarrow> nat \<Rightarrow> bool" for g prev s where
  route_source: "route g prev s s 0"
| route_step: "route g prev s u c \<Longrightarrow> prev ! v = of_nat u \<Longrightarrow> edge g u v w \<Longrightarrow> route g prev s v (c + w)"

definition dj_routes :: "IPTopologyGraph \<Rightarrow> nat \<Rightarrow> dj \<Rightarrow> bool" where
  "dj_routes g s st \<longleftrightarrow> dj_prev st ! s = of_nat (length g) \<and>
     (\<forall>v < length g. dj_dist st ! v = DIST_INF \<longrightarrow> dj_prev st ! v = of_nat (length g)) \<and>
     (\<forall>v < length g. dj_visited st ! v \<longrightarrow> route g (dj_prev st) s v (dist_at st v))"

text \<open>The frame of one relaxation from \<open>u\<close>: visited nodes keep their distance, no distance grows.\<close>

definition dj_frame :: "IPTopologyGraph \<Rightarrow> nat \<Rightarrow> dj \<Rightarrow> dj \<Rightarrow> bool" where
  "dj_frame g u st st' \<longleftrightarrow> dj_visited st' = dj_visited st \<and>
     (\<forall>v < length g. dist_at st' v \<le> dist_at st v) \<and>
     (\<forall>v < length g. dj_visited st ! v \<longrightarrow> dist_at st' v = dist_at st v)"

definition dj_front :: "IPTopologyGraph \<Rightarrow> nat \<Rightarrow> nat \<Rightarrow> dj \<Rightarrow> bool" where
  "dj_front g s u st \<longleftrightarrow> dj_basic g s st \<and> dj_tree g s st \<and> dj_routes g s st \<and> u < length g \<and> dj_visited st ! u \<and>
     (\<forall>x < length g. dj_visited st ! x \<longrightarrow> dist_at st x \<le> dist_at st u) \<and>
     (\<forall>y < length g. \<not> dj_visited st ! y \<longrightarrow> dist_at st u \<le> dist_at st y)"

definition dj_inv :: "IPTopologyGraph \<Rightarrow> nat \<Rightarrow> dj \<Rightarrow> bool" where
  "dj_inv g s st \<longleftrightarrow> dj_basic g s st \<and> dj_tree g s st \<and> dj_routes g s st \<and> dj_closed g st (visited_set st)"

text \<open>Walks with their vertices, last one first.\<close>

inductive trail :: "IPTopologyGraph \<Rightarrow> nat \<Rightarrow> nat list \<Rightarrow> nat \<Rightarrow> bool" for g s where
  trail_refl: "s < length g \<Longrightarrow> trail g s [s] 0"
| trail_step: "trail g s (u # vs) c \<Longrightarrow> edge g u v w \<Longrightarrow> trail g s (v # u # vs) (c + w)"

definition bf_ok :: "IPTopologyGraph \<Rightarrow> nat \<Rightarrow> 32 word list \<Rightarrow> bool" where
  "bf_ok g s dist \<longleftrightarrow> length dist = length g \<and>
     (\<forall>v < length g. dist ! v < IP_ROUTE_INF \<longrightarrow> walk g s v (unat (dist ! v)))"

definition bf_moves :: "IPTopologyGraph \<Rightarrow> nat \<Rightarrow> bf \<Rightarrow> bf \<Rightarrow> bool" where
  "bf_moves g s st st' \<longleftrightarrow>
     (case st of (dist, _, upd) \<Rightarrow> case st' of (dist', _, upd') \<Rightarrow>
        bf_ok g s dist' \<and> (\<forall>v < length g. dist' ! v \<le> dist ! v) \<and> (\<not> upd' \<longrightarrow> dist' = dist \<and> \<not> upd))"

definition bf_settled :: "nat \<Rightarrow> nat \<Rightarrow> nat \<Rightarrow> 32 word list \<Rightarrow> 32 word list \<Rightarrow> bool" where
  "bf_settled u v w dist dist' \<longleftrightarrow> (unat (dist ! u) + w < 16 \<longrightarrow> unat (dist' ! v) \<le> unat (dist ! u) + w)"

definition bf_covers :: "IPTopologyGraph \<Rightarrow> nat \<Rightarrow> nat \<Rightarrow> 32 word list \<Rightarrow> bool" where
  "bf_covers g s k dist \<longleftrightarrow> (\<forall>v vs c. trail g s (v # vs) c \<longrightarrow> length vs \<le> k \<longrightarrow> c < 16 \<longrightarrow> unat (dist ! v) \<le> c)"

section \<open>Dijkstra finds least costs\<close>

lemma unat_DIST_INF: "unat DIST_INF = 2 ^ 32 - 1"
  by (simp add: DIST_INF_def)

lemma le_DIST_INF: "unat (x :: 32 word) \<le> unat DIST_INF"
proof -
  have "unat x < 2 ^ LENGTH(32)" by (rule unsigned_less)
  then show ?thesis by (simp add: unat_DIST_INF)
qed

lemma le_DIST_INF_word [simp]: "(x :: 32 word) \<le> DIST_INF"
  by (simp add: word_le_nat_alt le_DIST_INF)

lemma less_DIST_INF_iff: "x < DIST_INF \<longleftrightarrow> x \<noteq> DIST_INF"
  by (simp add: less_le)

lemma dj_pick_scan:
  assumes "fold (dj_pick_step st) [0..<k] (n, DIST_INF) = (u, m)" and "k \<le> n"
  shows "if u = n then m = DIST_INF \<and> (\<forall>i < k. \<not> dj_visited st ! i \<longrightarrow> dj_dist st ! i = DIST_INF)
    else u < k \<and> \<not> dj_visited st ! u \<and> m = dj_dist st ! u \<and> m \<noteq> DIST_INF \<and>
      (\<forall>i < k. \<not> dj_visited st ! i \<longrightarrow> m \<le> dj_dist st ! i)"
  using assms
proof (induction k arbitrary: u m)
  case (Suc k)
  obtain u0 m0 where f: "fold (dj_pick_step st) [0..<k] (n, DIST_INF) = (u0, m0)" by fastforce
  note IH = Suc.IH [OF f]
  from Suc.prems f have s: "dj_pick_step st k (u0, m0) = (u, m)" by simp
  show ?case
  proof (cases "\<not> dj_visited st ! k \<and> dj_dist st ! k < m0")
    case True
    then have "u = k" "m = dj_dist st ! k" using s by (auto simp: dj_pick_step_def)
    moreover have "m \<noteq> DIST_INF" using True \<open>m = _\<close> by (metis leD le_DIST_INF_word)
    ultimately show ?thesis using IH Suc.prems(2) True by (auto simp: less_Suc_eq split: if_splits intro: order.trans less_imp_le)
  next
    case False
    then have "u = u0" "m = m0" using s by (auto simp: dj_pick_step_def)
    then show ?thesis using IH Suc.prems(2) False
      by (auto simp: less_Suc_eq not_less split: if_splits intro: antisym)
  qed
qed simp

lemma dj_pick_cases:
  assumes "dj_pick n st = u"
  shows "u = n \<and> (\<forall>i < n. \<not> dj_visited st ! i \<longrightarrow> dj_dist st ! i = DIST_INF) \<or>
    u < n \<and> \<not> dj_visited st ! u \<and> dj_dist st ! u \<noteq> DIST_INF \<and>
      (\<forall>i < n. \<not> dj_visited st ! i \<longrightarrow> dist_at st u \<le> dist_at st i)"
proof -
  obtain m where f: "fold (dj_pick_step st) [0..<n] (n, DIST_INF) = (u, m)"
    using assms by (metis dj_pick_def prod.collapse)
  from dj_pick_scan [OF f order.refl] show ?thesis by (auto simp: word_le_nat_alt split: if_splits)
qed

lemma edge_target: "edge g u v w \<Longrightarrow> v < length g"
  by (auto simp: edge_def node_index_def dest: find_index_SomeD(1))

lemma no_wrap:
  assumes "\<not> w > DIST_INF - (d :: 32 word)"
  shows "unat (d + w) = unat d + unat w"
proof -
  have "unat (DIST_INF - d) = unat DIST_INF - unat d" by (rule unat_sub) simp
  then have "unat w \<le> unat DIST_INF - unat d" using assms by (simp add: not_less word_le_nat_alt)
  then have "unat d + unat w < 2 ^ LENGTH(32)" using le_DIST_INF [of d] by (simp add: unat_DIST_INF)
  then show ?thesis by (simp only: unat_add_lem)
qed

text \<open>The state after the distance of \<open>v\<close> improves over \<open>u\<close>.\<close>

lemma dj_improve_facts:
  assumes "dj_front g s u st" and "edge g u v w" and "unat alt = dist_at st u + w" and "unat alt < dist_at st v"
  shows "v < length g" and "\<not> dj_visited st ! v" and "alt \<noteq> DIST_INF" and "s \<noteq> v" and "u \<noteq> v"
    and "length (dj_dist st) = length g" and "length (dj_prev st) = length g" and "walk g s v (unat alt)"
proof -
  note front = assms(1) [unfolded dj_front_def]
  note basic = front [THEN conjunct1, unfolded dj_basic_def]
  show v: "v < length g" using edge_target [OF assms(2)] .
  show "\<not> dj_visited st ! v" using front v assms(3,4) by force
  then show "u \<noteq> v" using front by blast
  show "alt \<noteq> DIST_INF" using assms(4) le_DIST_INF [of "dj_dist st ! v"] by force
  show "s \<noteq> v" using basic assms(4) by force
  show "length (dj_dist st) = length g" "length (dj_prev st) = length g" using basic by auto
  have "walk g s u (dist_at st u)" using basic front by blast
  then show "walk g s v (unat alt)" using walk_step [OF _ assms(2)] assms(3) by simp
qed

lemma dj_improve_basic:
  assumes "dj_front g s u st" and "edge g u v w" and "unat alt = dist_at st u + w" and "unat alt < dist_at st v"
    and "length p = length g"
  shows "dj_basic g s (st\<lparr>dj_dist := (dj_dist st)[v := alt], dj_prev := p\<rparr>)"
proof -
  note front = assms(1) [unfolded dj_front_def]
  note basic = front [THEN conjunct1, unfolded dj_basic_def]
  note f = dj_improve_facts [OF assms(1-4)]
  let ?st = "st\<lparr>dj_dist := (dj_dist st)[v := alt], dj_prev := p\<rparr>"
  have dist: "dist_at ?st x = (if x = v then unat alt else dist_at st x)" for x using f by simp
  show ?thesis
    unfolding dj_basic_def
  proof (intro conjI allI impI)
    fix x assume "x < length g" "dj_dist ?st ! x \<noteq> DIST_INF"
    then show "walk g s x (dist_at ?st x)" using basic f dist by (cases "x = v") auto
  next
    fix x y assume "x < length g" "y < length g" "dj_visited ?st ! x" "\<not> dj_visited ?st ! y"
    then show "dist_at ?st x \<le> dist_at ?st y"
      using basic front assms(3) f(2) dist by (cases "y = v") (auto simp del: nth_list_update intro: trans_le_add1)
  qed (use basic f dist assms(5) in \<open>auto simp: nth_list_update\<close>)
qed

lemma dj_improve_tree:
  assumes "dj_front g s u st" and "edge g u v w" and "unat alt = dist_at st u + w" and "unat alt < dist_at st v"
    and "length g < 2 ^ 32"
  shows "dj_tree g s (st\<lparr>dj_dist := (dj_dist st)[v := alt], dj_prev := (dj_prev st)[v := of_nat u]\<rparr>)"
  unfolding dj_tree_def
proof (intro conjI allI impI)
  note front = assms(1) [unfolded dj_front_def]
  note f = dj_improve_facts [OF assms(1-4)]
  let ?st = "st\<lparr>dj_dist := (dj_dist st)[v := alt], dj_prev := (dj_prev st)[v := of_nat u]\<rparr>"
  fix x
  show "\<exists>y w. dj_prev ?st ! x = of_nat y \<and> y < length g \<and> dj_visited ?st ! y \<and> edge g y x w \<and>
      dist_at ?st x = dist_at ?st y + w" if x: "x < length g" "dj_prev ?st ! x \<noteq> of_nat (length g)"
  proof (cases "x = v")
    case True
    then show ?thesis using front assms(2,3) f by (intro exI [of _ u] exI [of _ w]) simp
  next
    case False
    then have "dj_prev st ! x \<noteq> of_nat (length g)" using x by simp
    with front x obtain y w where y: "dj_prev st ! x = of_nat y" "y < length g" "dj_visited st ! y" "edge g y x w"
      "dist_at st x = dist_at st y + w" unfolding dj_tree_def by blast
    then have "y \<noteq> v" using f by blast
    then show ?thesis using y False by (intro exI [of _ y] exI [of _ w]) simp
  qed
  show "dj_prev ?st ! x \<noteq> of_nat (length g)" if x: "x < length g" "x \<noteq> s" "dj_dist ?st ! x \<noteq> DIST_INF"
  proof (cases "x = v")
    case True
    have "(of_nat u :: 32 word) \<noteq> of_nat (length g)"
      using front assms(5) by (simp add: word_unat_eq_iff unsigned_of_nat take_bit_nat_eq_self)
    then show ?thesis using True f by simp
  qed (use x front in \<open>simp add: dj_tree_def\<close>)
qed

lemma of_nat_node_inj: "u < n \<Longrightarrow> v \<le> n \<Longrightarrow> n < 2 ^ 32 \<Longrightarrow> (of_nat u :: 32 word) = of_nat v \<longleftrightarrow> u = v"
  by (simp add: word_unat_eq_iff unsigned_of_nat take_bit_nat_eq_self)

text \<open>The routes of visited nodes use predecessors of visited nodes only, so they survive a change elsewhere.\<close>

lemma route_visited:
  assumes "route g (dj_prev st) s v c" and "dj_tree g s st" and "length g < 2 ^ 32" and "v < length g" and "dj_visited st ! v"
    and "\<And>x. x < length g \<Longrightarrow> dj_visited st ! x \<Longrightarrow> prev' ! x = dj_prev st ! x"
  shows "route g prev' s v c"
  using assms(1,4,5)
proof induction
  case route_source
  show ?case by (rule route.route_source)
next
  case (route_step u c v w)
  have u: "u < length g" using route_step.hyps(3) by (simp add: edge_def)
  have "dj_prev st ! v \<noteq> of_nat (length g)" using route_step.hyps(2) of_nat_node_inj [OF u _ assms(3), of "length g"] u by simp
  then obtain y where y: "dj_prev st ! v = of_nat y" "y < length g" "dj_visited st ! y"
    using assms(2) route_step.prems(1) unfolding dj_tree_def by blast
  then have "y = u" using of_nat_node_inj [OF u _ assms(3), of y] route_step.hyps(2) by simp
  then have "route g prev' s u c" using route_step.IH u y by simp
  then show ?case
    by (rule route.route_step) (use route_step.hyps(2,3) route_step.prems assms(6) in simp_all)
qed

lemma dj_improve_routes:
  assumes "dj_front g s u st" and "edge g u v w" and "unat alt = dist_at st u + w" and "unat alt < dist_at st v"
    and "length g < 2 ^ 32"
  shows "dj_routes g s (st\<lparr>dj_dist := (dj_dist st)[v := alt], dj_prev := (dj_prev st)[v := of_nat u]\<rparr>)"
proof -
  note f = dj_improve_facts [OF assms(1-4)]
  have tree: "dj_tree g s st" and routes: "dj_routes g s st" using assms(1) by (simp_all add: dj_front_def)
  have "route g ((dj_prev st)[v := of_nat u]) s x (dist_at st x)" if x: "x < length g" "dj_visited st ! x" for x
  proof (rule route_visited [OF _ tree assms(5) x])
    show "route g (dj_prev st) s x (dist_at st x)" using routes x by (simp add: dj_routes_def)
    show "(dj_prev st)[v := of_nat u] ! y = dj_prev st ! y" if "dj_visited st ! y" for y using that f(2) by (cases "y = v") auto
  qed
  moreover have "(dj_dist st)[v := alt] ! x = dj_dist st ! x" if "dj_visited st ! x" for x using that f(2) by (cases "x = v") simp_all
  moreover have "(dj_prev st)[v := of_nat u] ! x = of_nat (length g)" if "x < length g" "(dj_dist st)[v := alt] ! x = DIST_INF" for x
    using that f(1,3,6) routes by (cases "x = v") (auto simp: dj_routes_def)
  ultimately show ?thesis using routes f(4) by (auto simp: dj_routes_def)
qed

lemma dj_improve_front:
  assumes "dj_front g s u st" and "edge g u v w" and "unat alt = dist_at st u + w" and "unat alt < dist_at st v"
    and "length g < 2 ^ 32"
    and "st' = st\<lparr>dj_dist := (dj_dist st)[v := alt], dj_prev := (dj_prev st)[v := of_nat u]\<rparr>"
  shows "dj_front g s u st' \<and> dj_frame g u st st' \<and> dist_at st' v = unat alt"
proof -
  note f = dj_improve_facts [OF assms(1-4)]
  have dist: "dist_at st' x = (if x = v then unat alt else dist_at st x)" for x using f assms(6) by simp
  have "dj_basic g s st'" using dj_improve_basic [OF assms(1-4)] assms(6) f by simp
  moreover have "dj_tree g s st'" using dj_improve_tree [OF assms(1-5)] assms(6) by simp
  moreover have "dj_routes g s st'" using dj_improve_routes [OF assms(1-5)] assms(6) by simp
  moreover have "dj_visited st' = dj_visited st" using assms(6) by simp
  ultimately show ?thesis
    using assms(1,3,4) f dist by (auto simp: dj_front_def dj_frame_def)
qed

lemma far_edge: "w > DIST_INF - (d :: 32 word) \<Longrightarrow> unat (x :: 32 word) \<le> unat d + unat w"
proof -
  assume w: "w > DIST_INF - d"
  have "unat (DIST_INF - d) = unat DIST_INF - unat d" by (rule unat_sub) simp
  then show ?thesis using w le_DIST_INF [of x] by (simp add: word_less_nat_alt)
qed

lemma dj_relax_front:
  assumes "dj_front g s u st" and "link \<in> set (nn_links (g ! u))" and "length g < 2 ^ 32"
  shows "dj_front g s u (dj_relax g u link st) \<and> dj_frame g u st (dj_relax g u link st) \<and>
    (\<forall>v. node_index g (fst link) = Some v \<longrightarrow> dist_at (dj_relax g u link st) v \<le> dist_at st u + unat (snd link))"
proof (cases "node_index g (fst link)")
  case None
  then show ?thesis using assms(1) by (simp add: dj_relax_def dj_frame_def)
next
  case (Some v)
  let ?w = "snd link" and ?du = "dj_dist st ! u"
  have u: "u < length g" "?du \<noteq> DIST_INF" using assms(1) by (auto simp: dj_front_def dj_basic_def)
  have e: "edge g u v (unat ?w)" using assms(2) Some u by (cases link) (auto simp: edge_def)
  consider (far) "?w > DIST_INF - ?du" | (near) "\<not> ?w > DIST_INF - ?du" "\<not> ?du + ?w < dj_dist st ! v"
    | (better) "\<not> ?w > DIST_INF - ?du" "?du + ?w < dj_dist st ! v" by blast
  then show ?thesis
  proof cases
    case far
    then have "dj_relax g u link st = st" using Some by (simp add: dj_relax_def)
    then show ?thesis using assms(1) Some far_edge [OF far] by (simp add: dj_frame_def)
  next
    case near
    then have "dj_relax g u link st = st" using Some by (simp add: dj_relax_def Let_def)
    then show ?thesis using assms(1) Some near no_wrap [OF near(1)] by (simp add: dj_frame_def word_less_nat_alt)
  next
    case better
    let ?st = "st\<lparr>dj_dist := (dj_dist st)[v := ?du + ?w], dj_prev := (dj_prev st)[v := of_nat u]\<rparr>"
    have "dj_relax g u link st = ?st" using Some u better by (simp add: dj_relax_def Let_def)
    moreover have "dj_front g s u ?st \<and> dj_frame g u st ?st \<and> dist_at ?st v = unat (?du + ?w)"
      using better by (intro dj_improve_front [OF assms(1) e no_wrap _ assms(3)]) (simp_all add: word_less_nat_alt)
    ultimately show ?thesis using Some no_wrap [OF better(1)] by simp
  qed
qed

lemma dj_frame_trans:
  assumes "dj_frame g u st st1" and "dj_frame g u st1 st2"
  shows "dj_frame g u st st2"
  using assms unfolding dj_frame_def by (auto intro: order.trans)

lemma dj_relaxes_front:
  assumes "dj_front g s u st" and "set ls \<subseteq> set (nn_links (g ! u))" and "length g < 2 ^ 32"
  shows "dj_front g s u (fold (dj_relax g u) ls st) \<and> dj_frame g u st (fold (dj_relax g u) ls st) \<and>
    (\<forall>link \<in> set ls. \<forall>v. node_index g (fst link) = Some v \<longrightarrow>
       dist_at (fold (dj_relax g u) ls st) v \<le> dist_at st u + unat (snd link))"
  using assms(1,2)
proof (induction ls arbitrary: st)
  case Nil
  then show ?case by (simp add: dj_frame_def)
next
  case (Cons l ls)
  let ?st = "dj_relax g u l st"
  have l: "l \<in> set (nn_links (g ! u))" using Cons.prems by simp
  note one = dj_relax_front [OF Cons.prems(1) l assms(3)]
  have rest: "set ls \<subseteq> set (nn_links (g ! u))" using Cons.prems(2) by simp
  note IH = Cons.IH [OF one [THEN conjunct1] rest]
  have u: "u < length g" "dj_visited st ! u" using Cons.prems(1) by (auto simp: dj_front_def)
  have same: "dist_at ?st u = dist_at st u" using one u by (auto simp: dj_frame_def)
  have "dist_at (fold (dj_relax g u) ls ?st) v \<le> dist_at st u + unat (snd l)" if n: "node_index g (fst l) = Some v" for v
  proof -
    have "v < length g" using n by (auto simp: node_index_def dest: find_index_SomeD(1))
    then have "dist_at (fold (dj_relax g u) ls ?st) v \<le> dist_at ?st v" using IH by (auto simp: dj_frame_def)
    then show ?thesis using one n by force
  qed
  then show ?case using IH one same dj_frame_trans [of g u st ?st] by auto
qed

lemma dj_front_start:
  assumes "dj_basic g s st" and "dj_tree g s st" and "dj_routes g s st" and "u < length g" and "\<not> dj_visited st ! u"
    and "dj_dist st ! u \<noteq> DIST_INF"
    and "\<forall>i < length g. \<not> dj_visited st ! i \<longrightarrow> dist_at st u \<le> dist_at st i"
  shows "dj_front g s u (st\<lparr>dj_visited := (dj_visited st)[u := True]\<rparr>)"
proof -
  let ?st = "st\<lparr>dj_visited := (dj_visited st)[u := True]\<rparr>"
  note basic = assms(1) [unfolded dj_basic_def]
  have vis: "dj_visited ?st ! x \<longleftrightarrow> x = u \<or> dj_visited st ! x" if "x < length g" for x
    using that basic assms(4) by (auto simp: nth_list_update)
  have "dj_basic g s ?st"
    unfolding dj_basic_def using basic assms(4,6,7) vis by (auto simp: nth_list_update)
  moreover have "dj_tree g s ?st"
    unfolding dj_tree_def
  proof (intro conjI allI impI)
    fix v
    assume v: "v < length g" "dj_prev ?st ! v \<noteq> of_nat (length g)"
    then have "dj_prev st ! v \<noteq> of_nat (length g)" by simp
    with v assms(2) obtain y w where "dj_prev st ! v = of_nat y" "y < length g" "dj_visited st ! y" "edge g y v w"
      "dist_at st v = dist_at st y + w" unfolding dj_tree_def by blast
    then show "\<exists>y w. dj_prev ?st ! v = of_nat y \<and> y < length g \<and> dj_visited ?st ! y \<and> edge g y v w \<and>
      dist_at ?st v = dist_at ?st y + w" using vis [of y] by (intro exI [of _ y] exI [of _ w]) simp
  qed (use assms(2) in \<open>simp add: dj_tree_def\<close>)
  moreover have "route g (dj_prev st) s u (dist_at st u)"
  proof (cases "u = s")
    case True
    then show ?thesis using basic route_source [of g "dj_prev st" s] by simp
  next
    case False
    then obtain y w where y: "dj_prev st ! u = of_nat y" "y < length g" "dj_visited st ! y" "edge g y u w" "dist_at st u = dist_at st y + w"
      using assms(2,4,6) unfolding dj_tree_def by blast
    then have "route g (dj_prev st) s y (dist_at st y)" using assms(3) by (simp add: dj_routes_def)
    from route_step [OF this y(1,4)] show ?thesis using y(5) by simp
  qed
  then have "dj_routes g s ?st" using assms(3) vis by (auto simp: dj_routes_def)
  ultimately show ?thesis
    using basic assms(4,5,7) vis by (auto simp: dj_front_def nth_list_update)
qed

lemma dj_visit_inv:
  assumes "dj_inv g s st" and "u < length g" and "\<not> dj_visited st ! u" and "dj_dist st ! u \<noteq> DIST_INF"
    and "\<forall>i < length g. \<not> dj_visited st ! i \<longrightarrow> dist_at st u \<le> dist_at st i" and "length g < 2 ^ 32"
  shows "dj_inv g s (dj_visit g u st) \<and> dj_visited (dj_visit g u st) = (dj_visited st)[u := True]"
proof -
  let ?st = "st\<lparr>dj_visited := (dj_visited st)[u := True]\<rparr>" and ?st' = "dj_visit g u st"
  have inv: "dj_basic g s st" "dj_tree g s st" "dj_closed g st (visited_set st)" "dj_routes g s st" using assms(1) by (auto simp: dj_inv_def)
  have lv: "length (dj_visited st) = length g" using inv(1) by (simp add: dj_basic_def)
  from dj_relaxes_front [OF dj_front_start [OF inv(1,2,4) assms(2-5)] order.refl assms(6)]
  have front: "dj_front g s u ?st'" and frame: "dj_frame g u ?st ?st'"
    and new: "\<forall>link \<in> set (nn_links (g ! u)). \<forall>v. node_index g (fst link) = Some v \<longrightarrow>
      dist_at ?st' v \<le> dist_at st u + unat (snd link)"
    by (auto simp: dj_visit_def)
  have vis: "dj_visited ?st' = (dj_visited st)[u := True]" using frame by (simp add: dj_frame_def)
  have keep: "dist_at ?st' x = dist_at st x" if "x \<in> visited_set ?st'" for x
    using that frame vis lv by (auto simp: dj_frame_def visited_set_def)
  have "dj_closed g ?st' (visited_set ?st')"
    unfolding dj_closed_def
  proof (intro ballI allI impI)
    fix x v w
    assume x: "x \<in> visited_set ?st'" and e: "edge g x v w"
    have v: "v < length g" using edge_target [OF e] .
    have le: "dist_at ?st' v \<le> dist_at st v" using frame v by (simp add: dj_frame_def)
    show "dist_at ?st' v \<le> dist_at ?st' x + w"
    proof (cases "x = u")
      case True
      then show ?thesis using e new keep [OF x] by (force simp: edge_def)
    next
      case False
      then have "x \<in> visited_set st" using x vis by (auto simp: visited_set_def)
      then have "dist_at st v \<le> dist_at st x + w" using inv(3) e by (simp add: dj_closed_def)
      then show ?thesis using le keep [OF x] by simp
    qed
  qed
  then show ?thesis using front vis by (simp add: dj_inv_def dj_front_def)
qed

lemma dj_rounds_inv:
  assumes "dj_inv g s st" and "card {x. x < length g \<and> \<not> dj_visited st ! x} \<le> k" and "length g < 2 ^ 32"
  shows "dj_inv g s (dj_rounds k g st) \<and>
    (\<forall>x < length g. \<not> dj_visited (dj_rounds k g st) ! x \<longrightarrow> dj_dist (dj_rounds k g st) ! x = DIST_INF)"
  using assms(1,2)
proof (induction k arbitrary: st)
  case 0
  then show ?case by auto
next
  case (Suc k)
  let ?u = "dj_pick (length g) st"
  show ?case
  proof (cases "?u = length g")
    case True
    then show ?thesis using Suc.prems dj_pick_cases [of "length g" st] by simp
  next
    case False
    then have u: "?u < length g" "\<not> dj_visited st ! ?u" "dj_dist st ! ?u \<noteq> DIST_INF"
      "\<forall>i < length g. \<not> dj_visited st ! i \<longrightarrow> dist_at st ?u \<le> dist_at st i"
      using dj_pick_cases [of "length g" st] by auto
    let ?st = "dj_visit g ?u st"
    from dj_visit_inv [OF Suc.prems(1) u assms(3)]
    have inv: "dj_inv g s ?st" and vis: "dj_visited ?st = (dj_visited st)[?u := True]" by auto
    have "length (dj_visited st) = length g" using Suc.prems(1) by (simp add: dj_inv_def dj_basic_def)
    then have "{x. x < length g \<and> \<not> dj_visited ?st ! x} = {x. x < length g \<and> \<not> dj_visited st ! x} - {?u}"
      using vis u(1) by (auto simp: nth_list_update)
    then have "card {x. x < length g \<and> \<not> dj_visited ?st ! x} \<le> k" using Suc.prems(2) u(1,2) by simp
    from Suc.IH [OF inv this] show ?thesis using False by (simp add: Let_def)
  qed
qed

lemma dj_inv_init:
  assumes "s < length g" and "length g < 2 ^ 32"
  shows "dj_inv g s (dj_init (length g) s)"
proof -
  have "dj_dist (dj_init (length g) s) ! v = (if v = s then 0 else DIST_INF)" if "v < length g" for v
    using that by (simp add: dj_init_def nth_list_update)
  then show ?thesis
    using assms(1) walk_refl [OF assms(1)]
    by (auto simp: dj_inv_def dj_basic_def dj_tree_def dj_routes_def dj_closed_def visited_set_def) (auto simp: dj_init_def)
qed

lemma dj_dist_le_walk:
  assumes "dj_inv g s st" and "\<forall>x < length g. \<not> dj_visited st ! x \<longrightarrow> dj_dist st ! x = DIST_INF"
    and "walk g s v c"
  shows "dist_at st v \<le> c"
  using assms(3)
proof induction
  case walk_refl
  then show ?case using assms(1) by (simp add: dj_inv_def dj_basic_def)
next
  case (walk_step u c v w)
  have "u < length g" using walk_step.hyps(2) by (simp add: edge_def)
  show ?case
  proof (cases "dj_visited st ! u")
    case True
    then have "dist_at st v \<le> dist_at st u + w"
      using assms(1) \<open>u < length g\<close> walk_step.hyps(2)
      by (auto simp: dj_inv_def dj_closed_def visited_set_def dj_basic_def)
    then show ?thesis using walk_step.IH by simp
  next
    case False
    then have "dj_dist st ! u = DIST_INF" using assms(2) \<open>u < length g\<close> by simp
    then show ?thesis using walk_step.IH le_DIST_INF [of "dj_dist st ! v"] by simp
  qed
qed

section \<open>Bellman-Ford finds least costs below 16\<close>

lemma trail_suffix:
  assumes "trail g s (xs @ y # ys) c"
  shows "\<exists>c' \<le> c. trail g s (y # ys) c'"
  using assms
proof (induction xs arbitrary: c)
  case (Cons x xs)
  from Cons.prems obtain c1 where "trail g s (xs @ y # ys) c1" "c1 \<le> c"
    by (cases rule: trail.cases) (auto intro: le_add1)
  then show ?case using Cons.IH by (meson order.trans)
qed auto

lemma trail_vertices: "trail g s vs c \<Longrightarrow> set vs \<subseteq> {..<length g}"
  by (induction rule: trail.induct) (auto simp: edge_target)

lemma walk_trail:
  assumes "walk g s v c"
  shows "\<exists>vs c'. trail g s (v # vs) c' \<and> c' \<le> c \<and> distinct (v # vs)"
  using assms
proof induction
  case walk_refl
  then show ?case using trail_refl by fastforce
next
  case (walk_step u c v w)
  then obtain vs c' where t: "trail g s (u # vs) c'" "c' \<le> c" "distinct (u # vs)" by blast
  show ?case
  proof (cases "v \<in> set (u # vs)")
    case True
    then obtain xs ys where "u # vs = xs @ v # ys" by (meson split_list)
    then show ?thesis using t trail_suffix [of g s xs v ys c'] by (metis distinct_append order.trans trans_le_add1)
  next
    case False
    then show ?thesis using trail_step [OF t(1) walk_step.hyps(2)] t(2,3) by (intro exI [of _ "u # vs"] exI [of _ "c' + w"]) auto
  qed
qed

lemma trail_short:
  assumes "walk g s v c"
  shows "\<exists>vs c'. trail g s (v # vs) c' \<and> c' \<le> c \<and> length vs < length g"
proof -
  from walk_trail [OF assms] obtain vs c' where t: "trail g s (v # vs) c'" "c' \<le> c" "distinct (v # vs)" by blast
  have "card (set (v # vs)) \<le> card {..<length g}" using trail_vertices [OF t(1)] by (intro card_mono) auto
  then have "length vs < length g" using distinct_card [OF t(3)] by simp
  then show ?thesis using t by blast
qed

lemma unat_IP_ROUTE_INF: "unat IP_ROUTE_INF = 16"
  by (simp add: IP_ROUTE_INF_def)

text \<open>One relaxation: distances stay sound, never grow, and the edge is settled.\<close>

lemma bf_relax_step:
  assumes "bf_ok g s dist" and "u < length g" and "link \<in> set (nn_links (g ! u))"
    and "bf_relax g u link (dist, prev, upd) = (dist', prev', upd')"
  shows "bf_ok g s dist' \<and> (\<forall>v < length g. dist' ! v \<le> dist ! v) \<and> (\<not> upd' \<longrightarrow> dist' = dist \<and> \<not> upd) \<and>
    (\<forall>v. node_index g (fst link) = Some v \<longrightarrow> unat (dist ! u) + unat (snd link) < 16 \<longrightarrow>
       unat (dist' ! v) \<le> unat (dist ! u) + unat (snd link))"
proof (cases "node_index g (fst link)")
  case None
  then show ?thesis using assms by (auto simp: bf_relax_def)
next
  case (Some v)
  let ?du = "dist ! u" and ?w = "snd link"
  have e: "edge g u v (unat ?w)" using assms(2,3) Some by (cases link) (auto simp: edge_def)
  have v: "v < length g" using edge_target [OF e] .
  have len: "length dist = length g" using assms(1) by (simp add: bf_ok_def)
  show ?thesis
  proof (cases "?w > DIST_INF - ?du")
    case True
    have "unat DIST_INF \<le> unat ?du + unat ?w" using far_edge [OF True] .
    then show ?thesis using assms True Some by (auto simp: bf_relax_def unat_DIST_INF)
  next
    case False
    note alt = no_wrap [OF False]
    show ?thesis
    proof (cases "?du + ?w < dist ! v")
      case False
      then have "dist' = dist \<and> upd' = upd" using assms(4) Some \<open>\<not> ?w > _\<close> by (auto simp: bf_relax_def Let_def)
      then show ?thesis using assms(1) False alt Some by (auto simp: not_less word_le_nat_alt)
    next
      case True
      let ?new = "if IP_ROUTE_INF \<le> ?du + ?w then IP_ROUTE_INF else ?du + ?w"
      have d': "dist' = dist[v := ?new]" "upd'" using assms(4) Some \<open>\<not> ?w > _\<close> True
        by (auto simp: bf_relax_def Let_def split: if_splits)
      have "walk g s v (unat (?du + ?w))" if "\<not> IP_ROUTE_INF \<le> ?du + ?w"
      proof -
        have "?du < IP_ROUTE_INF" using that alt by (simp add: word_le_nat_alt word_less_nat_alt)
        then have "walk g s u (unat ?du)" using assms(1,2) by (simp add: bf_ok_def)
        then show ?thesis using walk_step [OF _ e] alt by simp
      qed
      then have "bf_ok g s dist'" using assms(1) d' v by (auto simp: bf_ok_def nth_list_update)
      moreover have "?new \<le> dist ! v" using True by (auto intro: less_imp_le order.trans)
      moreover have "unat ?new \<le> unat ?du + unat ?w" if "unat ?du + unat ?w < 16"
        using alt that by (simp add: word_le_nat_alt unat_IP_ROUTE_INF)
      ultimately show ?thesis using d' v len Some by (auto simp: nth_list_update)
    qed
  qed
qed

lemma bf_moves_trans: "bf_moves g s st st1 \<Longrightarrow> bf_moves g s st1 st2 \<Longrightarrow> bf_moves g s st st2"
  by (auto simp: bf_moves_def split: prod.splits) (meson order.trans)+

lemma bf_settled_mono:
  assumes "bf_settled u v w dist1 dist2" and "dist1 ! u \<le> dist ! u" and "dist' ! v \<le> dist2 ! v"
  shows "bf_settled u v w dist dist'"
  using assms by (auto simp: bf_settled_def word_le_nat_alt)

lemma bf_links:
  assumes "bf_ok g s (fst st)" and "u < length g" and "set ls \<subseteq> set (nn_links (g ! u))"
  shows "bf_moves g s st (fold (bf_relax g u) ls st) \<and>
    (\<forall>link \<in> set ls. \<forall>v. node_index g (fst link) = Some v \<longrightarrow>
       bf_settled u v (unat (snd link)) (fst st) (fst (fold (bf_relax g u) ls st)))"
  using assms(1,3)
proof (induction ls arbitrary: st)
  case Nil
  then show ?case by (auto simp: bf_moves_def split: prod.splits)
next
  case (Cons l ls)
  obtain dist prev upd where st: "st = (dist, prev, upd)" by (cases st)
  let ?st = "bf_relax g u l st" and ?fin = "fold (bf_relax g u) ls (bf_relax g u l st)"
  obtain dist1 prev1 upd1 where st1: "?st = (dist1, prev1, upd1)" by (cases ?st)
  have l: "l \<in> set (nn_links (g ! u))" using Cons.prems(2) by simp
  have one: "bf_moves g s st ?st"
    and set1: "\<forall>v. node_index g (fst l) = Some v \<longrightarrow> bf_settled u v (unat (snd l)) dist dist1"
    using bf_relax_step [OF _ assms(2) l, of s dist prev upd dist1 prev1 upd1] Cons.prems(1) st st1
    by (auto simp: bf_moves_def bf_settled_def)
  have ok1: "bf_ok g s (fst ?st)" using one by (simp add: bf_moves_def split: prod.splits)
  have rest: "set ls \<subseteq> set (nn_links (g ! u))" using Cons.prems(2) by simp
  note IH = Cons.IH [OF ok1 rest]
  have le: "fst ?fin ! v \<le> fst ?st ! v" "fst ?st ! v \<le> fst st ! v" if "v < length g" for v
    using IH one that by (auto simp: bf_moves_def split: prod.splits)
  have v: "v < length g" if "node_index g na = Some v" for na v
    using that by (auto simp: node_index_def dest: find_index_SomeD(1))
  have "bf_settled u v (unat (snd k)) (fst st) (fst ?fin)" if "k \<in> set (l # ls)" "node_index g (fst k) = Some v" for k v
  proof (cases "k = l")
    case True
    then show ?thesis using set1 that(2) bf_settled_mono [of u v _ dist dist1 dist] le(1) [OF v [OF that(2)]] st st1 by simp
  next
    case False
    then have "bf_settled u v (unat (snd k)) (fst ?st) (fst ?fin)" using IH that by simp
    then show ?thesis by (rule bf_settled_mono) (simp_all add: le(2) assms(2))
  qed
  moreover have "bf_moves g s st ?fin" using bf_moves_trans [OF one] IH by blast
  ultimately show ?case by simp
qed

lemma bf_nodes:
  assumes "bf_ok g s (fst st)" and "set us \<subseteq> {..<length g}"
  shows "bf_moves g s st (fold (bf_node g) us st) \<and>
    (\<forall>u \<in> set us. \<forall>v w. edge g u v w \<longrightarrow> bf_settled u v w (fst st) (fst (fold (bf_node g) us st)))"
  using assms
proof (induction us arbitrary: st)
  case Nil
  then show ?case by (auto simp: bf_moves_def split: prod.splits)
next
  case (Cons u us)
  let ?st = "bf_node g u st" and ?fin = "fold (bf_node g) us (bf_node g u st)"
  have u: "u < length g" using Cons.prems(2) by simp
  have one: "bf_moves g s st ?st \<and> (\<forall>v w. edge g u v w \<longrightarrow> bf_settled u v w (fst st) (fst ?st))"
  proof (cases "fst st ! u = DIST_INF")
    case True
    then show ?thesis using Cons.prems(1)
      by (auto simp: bf_node_def bf_moves_def bf_settled_def unat_DIST_INF split: prod.splits)
  next
    case False
    then show ?thesis using bf_links [OF Cons.prems(1) u order.refl] by (auto simp: bf_node_def edge_def)
  qed
  have ok1: "bf_ok g s (fst ?st)" using one by (simp add: bf_moves_def split: prod.splits)
  have rest: "set us \<subseteq> {..<length g}" using Cons.prems(2) by simp
  note IH = Cons.IH [OF ok1 rest]
  have le: "fst ?fin ! v \<le> fst ?st ! v" "fst ?st ! v \<le> fst st ! v" if "v < length g" for v
    using IH one that by (auto simp: bf_moves_def split: prod.splits)
  have "bf_settled x v w (fst st) (fst ?fin)" if "x \<in> set (u # us)" "edge g x v w" for x v w
  proof (cases "x = u")
    case True
    then have "bf_settled x v w (fst st) (fst ?st)" using one that by blast
    then show ?thesis by (rule bf_settled_mono) (simp_all add: le(1) edge_target [OF that(2)])
  next
    case False
    then have "bf_settled x v w (fst ?st) (fst ?fin)" using IH that by simp
    moreover have "x < length g" using that(2) by (simp add: edge_def)
    ultimately show ?thesis by (rule bf_settled_mono [OF _ le(2)]) simp_all
  qed
  then show ?case using bf_moves_trans [of g s st ?st ?fin] one IH by simp
qed

lemma bf_covers_round:
  assumes "bf_covers g s k dist" and "\<forall>u v w. edge g u v w \<longrightarrow> bf_settled u v w dist dist'"
    and "s < length g \<longrightarrow> dist' ! s \<le> dist ! s"
  shows "bf_covers g s (Suc k) dist'"
  unfolding bf_covers_def
proof (intro allI impI)
  fix v vs c
  assume t: "trail g s (v # vs) c" and len: "length vs \<le> Suc k" and c: "c < 16"
  from t show "unat (dist' ! v) \<le> c"
  proof (cases rule: trail.cases)
    case trail_refl
    then have "s < length g" by simp
    from assms(1) [unfolded bf_covers_def, rule_format, OF trail.trail_refl [OF this]] have "unat (dist ! s) \<le> 0" by simp
    then show ?thesis using trail_refl assms(3) by (simp add: word_le_nat_alt)
  next
    case (trail_step u ws c0 w)
    then have "unat (dist ! u) \<le> c0" using assms(1) len c by (simp add: bf_covers_def)
    moreover have "bf_settled u v w dist dist'" using assms(2) trail_step by blast
    ultimately show ?thesis using c trail_step by (simp add: bf_settled_def)
  qed
qed

lemma bf_covers_fixpoint:
  assumes "bf_covers g s 0 dist" and "\<forall>u v w. edge g u v w \<longrightarrow> bf_settled u v w dist dist" 
  shows "bf_covers g s k dist"
proof (induction k)
  case 0
  show ?case using assms(1) .
next
  case (Suc k)
  show ?case by (rule bf_covers_round [OF Suc assms(2)]) simp
qed

lemma bf_rounds_covers:
  assumes "bf_ok g s dist" and "bf_covers g s j dist" and "bf_rounds k g dist prev = (dist', prev')"
  shows "bf_ok g s dist' \<and> bf_covers g s (j + k) dist'"
  using assms
proof (induction k arbitrary: j dist prev)
  case (Suc k)
  obtain dist1 prev1 upd where f: "fold (bf_node g) [0..<length g] (dist, prev, False) = (dist1, prev1, upd)"
    by (metis prod_cases3)
  have moves: "bf_moves g s (dist, prev, False) (dist1, prev1, upd)"
    and settled: "\<forall>u v w. edge g u v w \<longrightarrow> bf_settled u v w dist dist1"
    using bf_nodes [of g s "(dist, prev, False)" "[0..<length g]"] Suc.prems(1) f
    by (simp_all add: atLeast0LessThan) (meson edge_def lessThan_iff)
  have ok1: "bf_ok g s dist1" using moves by (simp add: bf_moves_def)
  show ?case
  proof (cases upd)
    case True
    have "bf_covers g s (Suc j) dist1" using bf_covers_round [OF Suc.prems(2) settled] moves by (simp add: bf_moves_def)
    from Suc.IH [OF ok1 this] Suc.prems(3) f True show ?thesis by simp
  next
    case False
    then have same: "dist1 = dist" using moves by (simp add: bf_moves_def)
    have "bf_covers g s 0 dist" using Suc.prems(2) by (auto simp: bf_covers_def)
    then have "bf_covers g s (j + Suc k) dist" using bf_covers_fixpoint settled same by blast
    then show ?thesis using Suc.prems(3) f False same ok1 by simp
  qed
qed simp

lemma dijkstra_correct:
  assumes "src < length g" and "length g \<le> IP_ROUTE_NETWORK_COUNT"
  shows "\<exists>g' dist prev. ip_topology_dijkstra g src = Inr (g', dist, prev) \<and> length dist = length g \<and>
    (\<forall>v < length g.
       (\<forall>c. walk g src v c \<longrightarrow> unat (dist ! v) \<le> c) \<and>
       (dist ! v \<noteq> DIST_INF \<longrightarrow> walk g src v (unat (dist ! v))) \<and>
       (dist ! v \<noteq> DIST_INF \<longrightarrow> route g prev src v (unat (dist ! v))) \<and>
       (prev ! v = of_nat (length g) \<longleftrightarrow> v = src \<or> dist ! v = DIST_INF))"
proof -
  have small: "length g < 2 ^ 32" using assms(2) by (simp add: IP_ROUTE_NETWORK_COUNT_def)
  let ?st = "dj_rounds (length g) g (dj_init (length g) src)"
  have "card {x. x < length g \<and> \<not> dj_visited (dj_init (length g) src) ! x} \<le> length g"
    using card_mono [of "{x. x < length g}"] by (simp add: subset_eq)
  from dj_rounds_inv [OF dj_inv_init [OF assms(1) small] this small]
  have inv: "dj_inv g src ?st" and fin: "\<forall>x < length g. \<not> dj_visited ?st ! x \<longrightarrow> dj_dist ?st ! x = DIST_INF" by auto
  have b: "dj_basic g src ?st" and t: "dj_tree g src ?st" using inv by (auto simp: dj_inv_def)
  have walks: "dj_dist ?st ! v \<noteq> DIST_INF \<Longrightarrow> walk g src v (dist_at ?st v)" if "v < length g" for v
    using b that unfolding dj_basic_def by blast
  have routes: "dj_dist ?st ! v \<noteq> DIST_INF \<Longrightarrow> route g (dj_prev ?st) src v (dist_at ?st v)" if "v < length g" for v
    using inv fin that by (auto simp: dj_inv_def dj_routes_def)
  have tree: "dj_prev ?st ! v = of_nat (length g) \<longleftrightarrow> v = src \<or> dj_dist ?st ! v = DIST_INF" if v: "v < length g" for v
    using t v inv unfolding dj_inv_def dj_tree_def dj_routes_def by blast
  have "ip_topology_dijkstra g src = Inr (set_visited (dj_visited ?st) g, dj_dist ?st, dj_prev ?st)"
    using assms(1) by (simp add: ip_topology_dijkstra_def Let_def)
  moreover have "length (dj_dist ?st) = length g" using b by (simp add: dj_basic_def)
  ultimately show ?thesis using walks routes tree dj_dist_le_walk [OF inv fin] by blast
qed

lemma bellman_ford_correct:
  assumes "src < length g"
  shows "\<exists>dist prev. ip_topology_bellman_ford g src = Inr (dist, prev) \<and> length dist = length g \<and>
    (\<forall>v < length g.
       (dist ! v < IP_ROUTE_INF \<longrightarrow> walk g src v (unat (dist ! v))) \<and>
       (\<forall>c. walk g src v c \<longrightarrow> c < 16 \<longrightarrow> unat (dist ! v) \<le> c))"
proof -
  let ?d0 = "(replicate (length g) DIST_INF)[src := 0]" and ?n = "length g"
  obtain dist prev where r: "bf_rounds (?n - 1) g ?d0 (replicate ?n (of_nat ?n)) = (dist, prev)" by fastforce
  have "\<not> DIST_INF < IP_ROUTE_INF" by (simp add: DIST_INF_def IP_ROUTE_INF_def)
  then have ok0: "bf_ok g src ?d0" using walk_refl [OF assms] assms by (auto simp: bf_ok_def nth_list_update)
  have cov0: "bf_covers g src 0 ?d0"
    using assms by (auto simp: bf_covers_def elim: trail.cases)
  from bf_rounds_covers [OF ok0 cov0 r] have ok: "bf_ok g src dist" and cov: "bf_covers g src (?n - 1) dist" by auto
  have "unat (dist ! v) \<le> c" if "walk g src v c" "c < 16" for v c
  proof -
    from trail_short [OF that(1)] obtain vs c' where t: "trail g src (v # vs) c'" "c' \<le> c" "length vs < ?n" by blast
    then have "unat (dist ! v) \<le> c'" using cov that(2) by (simp add: bf_covers_def)
    then show ?thesis using t(2) by simp
  qed
  then show ?thesis using assms r ok by (simp add: ip_topology_bellman_ford_def bf_ok_def)
qed

section \<open>The contract of a distance computation\<close>

text \<open>
  Both algorithms keep the same contract with different bounds: costs below the bound are costs of walks, and no
  walk below the bound is cheaper. Two computations that keep it agree below both bounds.
\<close>

locale least_costs =
  fixes cost :: "IPTopologyGraph \<Rightarrow> nat \<Rightarrow> nat \<Rightarrow> nat" and bound :: nat
  assumes sound: "length g \<le> IP_ROUTE_NETWORK_COUNT \<Longrightarrow> cost g s v < bound \<Longrightarrow> walk g s v (cost g s v)"
    and least: "length g \<le> IP_ROUTE_NETWORK_COUNT \<Longrightarrow> walk g s v c \<Longrightarrow> c < bound \<Longrightarrow> cost g s v \<le> c"
begin

lemma below_iff: "length g \<le> IP_ROUTE_NETWORK_COUNT \<Longrightarrow> cost g s v < bound \<longleftrightarrow> (\<exists>c < bound. walk g s v c)"
  using sound least by (meson le_less_trans)

lemma triangle:
  assumes "length g \<le> IP_ROUTE_NETWORK_COUNT" and "edge g u v w" and "cost g s u + w < bound"
  shows "cost g s v \<le> cost g s u + w"
  using assms least walk_step sound by (meson add_lessD1)

end

locale two_least_costs = a: least_costs cost_a bound_a + b: least_costs cost_b bound_b
  for cost_a bound_a cost_b bound_b
begin

lemma agree:
  assumes "length g \<le> IP_ROUTE_NETWORK_COUNT" and "cost_a g s v < bound_a" and "cost_a g s v < bound_b"
  shows "cost_b g s v = cost_a g s v"
proof (rule antisym)
  show "cost_b g s v \<le> cost_a g s v" using a.sound b.least assms by blast
  then show "cost_a g s v \<le> cost_b g s v" using a.least b.sound assms by (meson le_less_trans)
qed

end

lemma walk_bounds: "walk g s v c \<Longrightarrow> s < length g \<and> v < length g"
  by (induction rule: walk.induct) (auto simp: edge_target)

interpretation ospf: least_costs ospf_cost "unat DIST_INF"
proof
  fix g :: IPTopologyGraph and s v
  assume small: "length g \<le> IP_ROUTE_NETWORK_COUNT"
  show "walk g s v (ospf_cost g s v)" if "ospf_cost g s v < unat DIST_INF"
  proof (cases "s < length g \<and> v < length g")
    case True
    then obtain g' dist prev where d: "ip_topology_dijkstra g s = Inr (g', dist, prev)" "dist ! v \<noteq> DIST_INF \<longrightarrow> walk g s v (unat (dist ! v))"
      using dijkstra_correct [OF _ small, of s] by blast
    then show ?thesis using that True by (auto simp: ospf_cost_def)
  qed (use that in \<open>auto simp: ospf_cost_def ip_topology_dijkstra_def split: sum.splits prod.splits if_splits\<close>)
  show "ospf_cost g s v \<le> c" if w: "walk g s v c" for c
  proof -
    obtain g' dist prev where "ip_topology_dijkstra g s = Inr (g', dist, prev)" "unat (dist ! v) \<le> c"
      using dijkstra_correct [OF _ small, of s] walk_bounds [OF w] w by blast
    then show ?thesis using walk_bounds [OF w] by (simp add: ospf_cost_def)
  qed
qed

interpretation rip: least_costs rip_cost 16
proof
  fix g :: IPTopologyGraph and s v
  show "walk g s v (rip_cost g s v)" if "rip_cost g s v < 16"
  proof (cases "s < length g \<and> v < length g")
    case True
    with bellman_ford_correct [of s g] that show ?thesis
      by (auto simp: rip_cost_def word_less_nat_alt unat_IP_ROUTE_INF)
  qed (use that in \<open>auto simp: rip_cost_def ip_topology_bellman_ford_def unat_DIST_INF split: sum.splits prod.splits if_splits\<close>)
  show "rip_cost g s v \<le> c" if "walk g s v c" "c < 16" for c
    using bellman_ford_correct [of s g] walk_bounds [OF that(1)] that by (auto simp: rip_cost_def)
qed

interpretation ospf_rip: two_least_costs rip_cost 16 ospf_cost "unat DIST_INF"
  by unfold_locales

section \<open>Building a graph\<close>

lemma node_index_own:
  assumes "distinct (map nn_addr g)" and "j < length g"
  shows "node_index g (nn_addr (g ! j)) = Some j"
  unfolding node_index_def
proof (rule find_index_SomeI)
  show "nn_addr (g ! k) \<noteq> nn_addr (g ! j)" if "k < j" for k
    using assms that nth_eq_iff_index_eq [OF assms(1), of k j] by auto
qed (use assms in auto)

lemma node_index_links [simp]: "node_index (g[i := (g ! i)\<lparr>nn_links := ls\<rparr>]) a = node_index g a"
  unfolding node_index_def by (rule find_index_update_other) simp

lemma node_index_iff:
  assumes "distinct (map nn_addr g)"
  shows "node_index g a = Some j \<longleftrightarrow> j < length g \<and> nn_addr (g ! j) = a"
  using node_index_own [OF assms] by (auto simp: node_index_def dest: find_index_SomeD)

lemma set_update_keyed:
  assumes "distinct (map fst ls)" and "find_index (\<lambda>l. fst l = a) ls = Some k"
  shows "set (ls[k := (a, c)]) = {l \<in> set ls. fst l \<noteq> a} \<union> {(a, c)}"
proof -
  note k = find_index_SomeD(1,2) [OF assms(2)]
  have "distinct ls" using assms(1) by (simp add: distinct_map)
  then have "set (ls[k := (a, c)]) = insert (a, c) (set ls - {ls ! k})" using k(1) by (rule set_update_distinct)
  moreover have "l = ls ! k" if "l \<in> set ls" "fst l = a" for l
    using assms(1) k that by (auto simp: distinct_map dest: inj_onD)
  ultimately show ?thesis using k by auto
qed

lemma add_edge_cases:
  assumes "ip_topology_add_edge g i j c = (g', 0)" and "topo_ok g"
  obtains ls where "i < length g" and "j < length g" and "g' = g[i := (g ! i)\<lparr>nn_links := ls\<rparr>]"
    and "set ls = {l \<in> set (nn_links (g ! i)). fst l \<noteq> nn_addr (g ! j)} \<union> {(nn_addr (g ! j), c)}"
    and "length ls \<le> IP_ROUTE_NETWORK_COUNT" and "distinct (map fst ls)"
proof -
  let ?ls = "nn_links (g ! i)" and ?a = "nn_addr (g ! j)"
  from assms(1) have ij: "i < length g" "j < length g" and room: "length ?ls < IP_ROUTE_NETWORK_COUNT"
    by (auto simp: ip_topology_add_edge_def Let_def split: if_splits)
  have d: "distinct (map fst ?ls)" using assms(2) ij by (auto simp: topo_ok_def list_all_length)
  show ?thesis
  proof (cases "find_index (\<lambda>l. fst l = ?a) ?ls")
    case None
    then have n: "?a \<notin> fst ` set ?ls" by (auto simp: find_index_None_iff)
    then have "set (?ls @ [(?a, c)]) = {l \<in> set ?ls. fst l \<noteq> ?a} \<union> {(?a, c)}" by force
    then show ?thesis using that [of "?ls @ [(?a, c)]"] assms(1) ij room d None n
      by (simp add: ip_topology_add_edge_def Let_def)
  next
    case (Some k)
    have "map fst (?ls[k := (?a, c)]) = map fst ?ls"
      using find_index_SomeD(2) [OF Some] by (simp add: map_update list_update_same_conv find_index_SomeD(1) [OF Some])
    then show ?thesis using that [of "?ls[k := (?a, c)]"] assms(1) ij room d Some set_update_keyed [OF d Some, of c]
      by (simp add: ip_topology_add_edge_def Let_def)
  qed
qed

lemma add_edge_edges:
  assumes "topo_ok g" and "ip_topology_add_edge g i j c = (g', 0)"
  shows "edge g' u v w \<longleftrightarrow> (if u = i \<and> v = j then w = unat c else edge g u v w)"
proof -
  obtain ls where ij: "i < length g" "j < length g" and g': "g' = g[i := (g ! i)\<lparr>nn_links := ls\<rparr>]"
    and ls: "set ls = {l \<in> set (nn_links (g ! i)). fst l \<noteq> nn_addr (g ! j)} \<union> {(nn_addr (g ! j), c)}"
      "length ls \<le> IP_ROUTE_NETWORK_COUNT" "distinct (map fst ls)"
    by (rule add_edge_cases [OF assms(2,1)])
  have d: "distinct (map nn_addr g)" using assms(1) by (simp add: topo_ok_def)
  have inj: "nn_addr (g ! v) = nn_addr (g ! j) \<longleftrightarrow> v = j" if "v < length g" for v
    using nth_eq_iff_index_eq [OF d, of v j] that ij by auto
  show ?thesis
  proof (cases "u = i")
    case True
    then show ?thesis
      using ij ls inj unfolding edge_def g' by (auto simp: node_index_iff [OF d])
  next
    case False
    then show ?thesis using ij unfolding edge_def g' by simp
  qed
qed

lemma topo_ok_edge:
  assumes "topo_ok g"
  shows "topo_ok (fst (ip_topology_add_edge g i j c))"
proof (cases "snd (ip_topology_add_edge g i j c) = 0")
  case True
  then obtain g' where r: "ip_topology_add_edge g i j c = (g', 0)" by (metis prod.collapse)
  obtain ls where ij: "i < length g" "j < length g"
    and g': "g' = g[i := (g ! i)\<lparr>nn_links := ls\<rparr>]"
    and ls: "set ls = {l \<in> set (nn_links (g ! i)). fst l \<noteq> nn_addr (g ! j)} \<union> {(nn_addr (g ! j), c)}"
      "length ls \<le> IP_ROUTE_NETWORK_COUNT" "distinct (map fst ls)"
    by (rule add_edge_cases [OF r assms])
  have addrs: "map nn_addr g' = map nn_addr g" by (simp add: g' map_update list_update_same_conv ij)
  then have sets: "nn_addr ` set g' = nn_addr ` set g" by (metis list.set_map)
  have "fst ` set ls \<subseteq> nn_addr ` set g" using ls(1) assms ij by (force simp: topo_ok_def list_all_iff)
  then have "list_all (\<lambda>n. length (nn_links n) \<le> IP_ROUTE_NETWORK_COUNT \<and> distinct (map fst (nn_links n)) \<and>
       fst ` set (nn_links n) \<subseteq> nn_addr ` set g) g'"
    using assms ls(2,3) ij unfolding g' topo_ok_def list_all_length by (auto simp: nth_list_update)
  then show ?thesis using r addrs sets assms unfolding topo_ok_def by (simp add: g')
next
  case False
  then have "fst (ip_topology_add_edge g i j c) = g"
    by (auto simp: ip_topology_add_edge_def Let_def split: option.splits if_splits)
  then show ?thesis using assms by simp
qed

lemma topo_ok_node: "topo_ok g \<Longrightarrow> topo_ok (fst (ip_topology_add_node g a))"
  by (auto simp: ip_topology_add_node_def topo_ok_def node_index_def find_index_None_iff list_all_iff)

lemma topo_reach_ok: "topo_reach g \<Longrightarrow> topo_ok g"
proof (induction rule: topo_reach.induct)
  case topo_init
  show ?case by (simp add: topo_ok_def ip_topology_init_def)
qed (simp_all add: topo_ok_edge topo_ok_node)

lemma square_reach: "topo_reach square"
  unfolding square_def Let_def by (intro topo_reach.intros)

section \<open>Properties\<close>

text \<open>
  C7. Dijkstra's algorithm on every graph that can be built and every source of it: the run returns, each distance
  is a lower bound of the cost of every walk from the source (costs as unbounded numbers, so no sum wraps), and every
  distance other than \<open>DIST_INF\<close> is the cost of a walk. The predecessors form a tree: following them from a node with such a
  distance leads back to the source along edges whose costs sum up to the distance, and exactly the source and the nodes at \<open>DIST_INF\<close>
  have no predecessor (the node count). In particular \<open>DIST_INF\<close> means that every walk costs at least 2^32 - 1.
\<close>

theorem ip_dijkstra_correct:
  assumes "topo_reach g" and "src < length g"
  shows "\<exists>g' dist prev. ip_topology_dijkstra g src = Inr (g', dist, prev) \<and> length dist = length g \<and>
    (\<forall>v < length g.
       (\<forall>c. walk g src v c \<longrightarrow> unat (dist ! v) \<le> c) \<and>
       (dist ! v \<noteq> DIST_INF \<longrightarrow> walk g src v (unat (dist ! v))) \<and>
       (dist ! v \<noteq> DIST_INF \<longrightarrow> route g prev src v (unat (dist ! v))) \<and>
       (prev ! v = of_nat (length g) \<longleftrightarrow> v = src \<or> dist ! v = DIST_INF))"
  using dijkstra_correct [OF assms(2)] topo_reach_ok [OF assms(1)] by (simp add: topo_ok_def)

theorem ip_dijkstra_correct_witness:
  "\<exists>g' dist prev. ip_topology_dijkstra square 0 = Inr (g', dist, prev) \<and> dist = [0, 5, 2] \<and>
     (\<forall>c. walk square 0 1 c \<longrightarrow> 5 \<le> c) \<and> walk square 0 1 5 \<and> route square prev 0 1 5 \<and> prev ! 0 = 3"
proof -
  have len: "length square = 3" by code_simp
  have d: "map_option (fst \<circ> snd) (case ip_topology_dijkstra square 0 of Inr r \<Rightarrow> Some r | Inl _ \<Rightarrow> None) = Some [0, 5, 2]"
    by code_simp
  obtain g' dist prev where r: "ip_topology_dijkstra square 0 = Inr (g', dist, prev)"
    and p: "\<forall>v < 3. (\<forall>c. walk square 0 v c \<longrightarrow> unat (dist ! v) \<le> c) \<and> (dist ! v \<noteq> DIST_INF \<longrightarrow> walk square 0 v (unat (dist ! v))) \<and>
       (dist ! v \<noteq> DIST_INF \<longrightarrow> route square prev 0 v (unat (dist ! v))) \<and> (prev ! v = of_nat 3 \<longleftrightarrow> v = 0 \<or> dist ! v = DIST_INF)"
    using ip_dijkstra_correct [OF square_reach, of 0] unfolding len by auto
  from r d have dist: "dist = [0, 5, 2]" by simp
  have "dist ! 1 = 5" "dist ! 1 \<noteq> DIST_INF" by (simp_all add: dist DIST_INF_def)
  moreover have "unat (5 :: 32 word) = 5" by simp
  ultimately show ?thesis using r dist p [rule_format, of 1] p [rule_format, of 0] by auto
qed

text \<open>
  Both routing algorithms of the module find the same costs: on every graph that can be built, from every
  source, a node has a RIP distance below the RIP infinity of 16 exactly if its OSPF distance is below 16, and then
  the two are equal.
\<close>

theorem ospf_rip_agree:
  assumes "topo_reach g"
  shows "(rip_cost g s v < 16 \<longleftrightarrow> ospf_cost g s v < 16) \<and> (rip_cost g s v < 16 \<longrightarrow> ospf_cost g s v = rip_cost g s v)"
proof -
  have small: "length g \<le> IP_ROUTE_NETWORK_COUNT" using topo_reach_ok [OF assms] by (simp add: topo_ok_def)
  have "ospf_cost g s v = rip_cost g s v" if "rip_cost g s v < 16"
    using ospf_rip.agree [OF small that] that by (simp add: unat_DIST_INF)
  moreover have "rip_cost g s v < 16" if "ospf_cost g s v < 16"
    using rip.below_iff [OF small] ospf.sound [OF small, of s v] that by (auto simp: unat_DIST_INF)
  ultimately show ?thesis by auto
qed

theorem ospf_rip_agree_witness: "rip_cost square 0 1 = 5 \<and> ospf_cost square 0 1 = 5"
proof -
  have "rip_cost square 0 1 = 5" by code_simp
  then show ?thesis using ospf_rip_agree [OF square_reach, of 0 1] by simp
qed

text \<open>
  Adding an edge to a graph that was built by the operations and being told 0 sets the cost of exactly that
  edge and leaves all others alone, and the graph stays well formed: at most 32 nodes with distinct addresses, and
  at most 32 links per node, each to a different existing node.
\<close>

theorem topology_edges_exact:
  assumes "topo_reach g" and "ip_topology_add_edge g i j c = (g', 0)"
  shows "topo_ok g' \<and> (edge g' u v w \<longleftrightarrow> (if u = i \<and> v = j then w = unat c else edge g u v w))"
  using add_edge_edges [OF topo_reach_ok [OF assms(1)] assms(2)] topo_ok_edge [OF topo_reach_ok [OF assms(1)], of i j c] assms(2)
  by simp

theorem topology_edges_exact_witness:
  "topo_ok (fst (ip_topology_add_edge square 0 1 9)) \<and> edge (fst (ip_topology_add_edge square 0 1 9)) 0 1 9 \<and>
     \<not> edge (fst (ip_topology_add_edge square 0 1 9)) 0 1 7"
proof -
  have "snd (ip_topology_add_edge square 0 1 9) = 0" by code_simp
  then have "ip_topology_add_edge square 0 1 9 = (fst (ip_topology_add_edge square 0 1 9), 0)" by (metis prod.collapse)
  from topology_edges_exact [OF square_reach this, of 0 1] show ?thesis by simp
qed

end
