(* ===== verification/IpPacket.thy ===== *)
theory IpPacket
  imports Bytes "HOL-Library.Multiset"
begin

unbundle bit_operations_syntax

text \<open>
  IP packets (\<open>mini-network-base/src/ip_packet.c\<close>): the header and its checksum, building and parsing, fragmentation
  and reassembly.

  The source copies the header structure to and from the wire as it lies in memory; \<open>hdr_bytes\<close> is its layout on a
  little-endian machine, 20 bytes without padding. The identification drawn from \<open>rand\<close> is an argument, and so is
  the outcome of each allocation. Header lengths other than 20 make \<open>memcpy\<close> run over the 20-byte structure; an
  operation that would do that returns \<open>None\<close>, as does one that subtracts below zero or writes behind its output. Null guards and printing are
  not modelled.
\<close>

section \<open>The header\<close>

definition IP_DEFAULT_TTL :: byte where "IP_DEFAULT_TTL = 64"
definition IP_FRAG_OFFSET_MASK :: "16 word" where "IP_FRAG_OFFSET_MASK = 0x1FFF"
definition IP_FLAG_DF :: "16 word" where "IP_FLAG_DF = 0x4000"
definition IP_FLAG_MF :: "16 word" where "IP_FLAG_MF = 0x2000"
definition IP_MAX_FRAGMENTS :: nat where "IP_MAX_FRAGMENTS = 64"

record IPHeader =
  version_ihl :: byte
  tos :: byte
  total_length :: "16 word"
  ip_id :: "16 word"
  flags_frag_offset :: "16 word"
  ttl :: byte
  protocol :: byte
  checksum :: "16 word"
  src_addr :: "32 word"
  dst_addr :: "32 word"

definition le2 :: "16 word \<Rightarrow> byte list" where
  "le2 w = [ucast w, ucast (drop_bit 8 w)]"

definition le4 :: "32 word \<Rightarrow> byte list" where
  "le4 w = [ucast w, ucast (drop_bit 8 w), ucast (drop_bit 16 w), ucast (drop_bit 24 w)]"

definition hdr_bytes :: "IPHeader \<Rightarrow> byte list" where
  "hdr_bytes h = [version_ihl h, tos h] @ le2 (total_length h) @ le2 (ip_id h) @ le2 (flags_frag_offset h) @
     [ttl h, protocol h] @ le2 (checksum h) @ le4 (src_addr h) @ le4 (dst_addr h)"

definition of_le2 :: "byte \<Rightarrow> byte \<Rightarrow> 16 word" where
  "of_le2 a b = ucast a OR push_bit 8 (ucast b)"

definition of_le4 :: "byte \<Rightarrow> byte \<Rightarrow> byte \<Rightarrow> byte \<Rightarrow> 32 word" where
  "of_le4 a b c d = ucast a OR push_bit 8 (ucast b) OR push_bit 16 (ucast c) OR push_bit 24 (ucast d)"

definition hdr_of :: "byte list \<Rightarrow> IPHeader" where
  "hdr_of d = \<lparr>version_ihl = d ! 0, tos = d ! 1, total_length = of_le2 (d ! 2) (d ! 3), ip_id = of_le2 (d ! 4) (d ! 5),
     flags_frag_offset = of_le2 (d ! 6) (d ! 7), ttl = d ! 8, protocol = d ! 9, checksum = of_le2 (d ! 10) (d ! 11),
     src_addr = of_le4 (d ! 12) (d ! 13) (d ! 14) (d ! 15), dst_addr = of_le4 (d ! 16) (d ! 17) (d ! 18) (d ! 19)\<rparr>"

definition ip_header_init :: "16 word \<Rightarrow> IPHeader" where
  "ip_header_init rid = \<lparr>version_ihl = 0x45, tos = 0, total_length = 0, ip_id = rid, flags_frag_offset = 0,
     ttl = IP_DEFAULT_TTL, protocol = 0, checksum = 0, src_addr = 0, dst_addr = 0\<rparr>"

definition ip_version :: "IPHeader \<Rightarrow> byte" where
  "ip_version h = drop_bit 4 (version_ihl h) AND 0x0F"

definition ip_ihl :: "IPHeader \<Rightarrow> byte" where
  "ip_ihl h = version_ihl h AND 0x0F"

definition ip_flag_df :: "IPHeader \<Rightarrow> bool" where
  "ip_flag_df h \<longleftrightarrow> flags_frag_offset h AND IP_FLAG_DF \<noteq> 0"

definition ip_flag_mf :: "IPHeader \<Rightarrow> bool" where
  "ip_flag_mf h \<longleftrightarrow> flags_frag_offset h AND IP_FLAG_MF \<noteq> 0"

definition ip_frag_offset :: "IPHeader \<Rightarrow> 16 word" where
  "ip_frag_offset h = flags_frag_offset h AND IP_FRAG_OFFSET_MASK"

section \<open>Checksum\<close>

fun checksum_sum :: "byte list \<Rightarrow> 32 word \<Rightarrow> 32 word" where
  "checksum_sum (a # b # rest) acc = checksum_sum rest (acc + (push_bit 8 (ucast a) OR ucast b))"
| "checksum_sum [a] acc = acc + push_bit 8 (ucast a)"
| "checksum_sum [] acc = acc"

text \<open>Carries are folded back until the acc fits 16 bits.\<close>

function checksum_fold :: "32 word \<Rightarrow> 32 word" where
  "checksum_fold acc =
     (if drop_bit 16 acc \<noteq> 0 then checksum_fold ((acc AND 0xFFFF) + drop_bit 16 acc) else acc)"
  by pat_completeness auto

lemma fold_carry:
  fixes acc :: "32 word"
  shows "unat ((acc AND 0xFFFF) + drop_bit 16 acc) = unat acc mod 65536 + unat acc div 65536"
proof -
  have m: "(0xFFFF :: 32 word) = mask 16" by (simp add: mask_eq_exp_minus_1)
  have a: "unat (acc AND 0xFFFF) = unat acc mod 65536"
    unfolding m take_bit_eq_mask [symmetric] by (simp only: unsigned_take_bit_eq) (simp add: take_bit_eq_mod)
  have d: "unat (drop_bit 16 acc) = unat acc div 65536" by (simp add: drop_bit_eq_div unat_div_distrib)
  have "unat acc < 2 ^ LENGTH(32)" by (rule unsigned_less)
  then have "unat (acc AND 0xFFFF) + unat (drop_bit 16 acc) < 2 ^ LENGTH(32)" unfolding a d by simp
  then show ?thesis unfolding a [symmetric] d [symmetric] by (simp only: unat_add_lem)
qed

termination checksum_fold
proof (relation "measure unat")
  show "((acc AND 0xFFFF) + drop_bit 16 acc, acc) \<in> measure unat" if "drop_bit 16 acc \<noteq> 0" for acc :: "32 word"
  proof -
    have "unat (drop_bit 16 acc) \<noteq> 0" using that by (simp only: unat_eq_0 not_False_eq_True)
    then have "0 < unat acc div 65536" by (simp add: drop_bit_eq_div unat_div_distrib)
    then have "unat acc mod 65536 + unat acc div 65536 < unat acc"
      using div_mult_mod_eq [of "unat acc" 65536] by linarith
    then show ?thesis by (simp only: in_measure fold_carry)
  qed
qed simp

declare checksum_fold.simps [simp del]

definition ip_checksum :: "byte list \<Rightarrow> 16 word" where
  "ip_checksum data = ucast (NOT (checksum_fold (checksum_sum data 0)))"

definition ip_checksum_header :: "IPHeader \<Rightarrow> 16 word" where
  "ip_checksum_header h = ip_checksum (hdr_bytes (h\<lparr>checksum := 0\<rparr>))"

definition ip_checksum_verify :: "IPHeader \<Rightarrow> bool" where
  "ip_checksum_verify h \<longleftrightarrow> ip_checksum_header h = checksum h \<or> ip_checksum (hdr_bytes h) = 0"

section \<open>Building and parsing\<close>

definition ip_build_packet :: "16 word \<Rightarrow> byte \<Rightarrow> 32 word \<Rightarrow> 32 word \<Rightarrow> byte list \<Rightarrow> int + byte list" where
  "ip_build_packet rid proto src dst payload =
     (let h = (ip_header_init rid)\<lparr>tos := 0, protocol := proto, src_addr := src, dst_addr := dst, flags_frag_offset := 0,
                total_length := of_nat (20 + length payload)\<rparr>
      in if unat (total_length h) < length payload then Inl (-3)
         else let h' = h\<lparr>checksum := ip_checksum_header (h\<lparr>checksum := 0\<rparr>)\<rparr>
              in Inr (hdr_bytes h' @ payload))"

definition ip_parse_header :: "byte list \<Rightarrow> int + (IPHeader \<times> nat)" where
  "ip_parse_header data =
     (if length data < 20 then Inl (-1)
      else let h = hdr_of data; ihl_bytes = unat (ip_ihl h) * 4
           in if ip_version h \<noteq> 4 then Inl (-2)
              else if ihl_bytes < 20 \<or> ihl_bytes > length data then Inl (-3)
              else Inr (h, ihl_bytes))"

section \<open>Fragmentation\<close>

record IPFragment =
  fr_data :: "byte list"
  fr_length :: nat
  fr_offset :: "16 word"
  fr_more :: bool
  fr_packet_id :: "16 word"

definition frag_header :: "IPHeader \<Rightarrow> nat \<Rightarrow> nat \<Rightarrow> bool \<Rightarrow> IPHeader" where
  "frag_header h offset chunk mf =
     (let f = h\<lparr>total_length := of_nat (20 + chunk),
                flags_frag_offset := (if mf then of_nat (offset div 8) OR IP_FLAG_MF else of_nat (offset div 8)),
                checksum := 0\<rparr>
      in f\<lparr>checksum := ip_checksum_header f\<rparr>)"

definition make_frag :: "IPHeader \<Rightarrow> byte list \<Rightarrow> nat \<Rightarrow> nat \<Rightarrow> IPFragment" where
  "make_frag h payload offset chunk =
     (let mf = offset + chunk < length payload; fh = frag_header h offset chunk mf
      in \<lparr>fr_data = hdr_bytes fh @ take chunk (drop offset payload), fr_length = unat (total_length fh),
          fr_offset = of_nat (offset div 8), fr_more = mf, fr_packet_id = ip_id h\<rparr>)"

text \<open>The loop stops after 64 fragments, whatever is left.\<close>

function frag_loop ::
    "(nat \<Rightarrow> bool) \<Rightarrow> IPHeader \<Rightarrow> byte list \<Rightarrow> nat \<Rightarrow> nat \<Rightarrow> nat \<Rightarrow> int + IPFragment list" where
  "frag_loop alloc h payload max_payload offset k =
     (if offset < length payload \<and> k < IP_MAX_FRAGMENTS
      then let chunk = min (length payload - offset) max_payload
           in if \<not> alloc k then Inl (-5)
              else map_sum id (\<lambda>fs. make_frag h payload offset chunk # fs)
                     (frag_loop alloc h payload max_payload (offset + chunk) (Suc k))
      else Inr [])"
  by pat_completeness auto
termination
  by (relation "measure (\<lambda>(alloc, h, payload, mp, offset, k). IP_MAX_FRAGMENTS - k)") auto

declare frag_loop.simps [simp del]

text \<open>The difference \<open>mtu - header_len\<close> is computed in \<open>size_t\<close> and wraps around for a small MTU.\<close>

definition frag_max_payload :: "16 word \<Rightarrow> nat" where
  "frag_max_payload mtu = unat ((ucast mtu :: 64 word) - 20) div 8 * 8"

definition ip_fragment :: "(nat \<Rightarrow> bool) \<Rightarrow> byte list \<Rightarrow> 16 word \<Rightarrow> (int + IPFragment list) option" where
  "ip_fragment alloc packet mtu =
     (if length packet < 20 then Some (Inl (-2))
      else let h = hdr_of packet; payload = drop 20 packet
           in if ip_ihl h \<noteq> 5 then None
              else Some (if payload = []
                then if \<not> alloc 0 then Inl (-3)
                     else Inr [\<lparr>fr_data = packet, fr_length = length packet, fr_offset = 0, fr_more = False, fr_packet_id = ip_id h\<rparr>]
                else if frag_max_payload mtu = 0 then Inl (-4)
                else frag_loop alloc h payload (frag_max_payload mtu) 0 0))"

section \<open>Reassembly\<close>

record IPFragmentBuffer =
  fb_fragments :: "IPFragment list"
  fb_total_assembled :: nat
  fb_packet_id :: "16 word"
  fb_complete :: bool

definition ip_fragment_buffer_init :: IPFragmentBuffer where
  "ip_fragment_buffer_init = \<lparr>fb_fragments = [], fb_total_assembled = 0, fb_packet_id = 0, fb_complete = False\<rparr>"

definition ip_fragment_buffer_free :: "IPFragmentBuffer \<Rightarrow> IPFragmentBuffer" where
  "ip_fragment_buffer_free buf = buf\<lparr>fb_fragments := [], fb_complete := False\<rparr>"

abbreviation sort_frags :: "IPFragment list \<Rightarrow> IPFragment list" where
  "sort_frags \<equiv> sort_key (\<lambda>f. unat (fr_offset f))"

text \<open>
  The copy loop: the payloads in order while they fit the capacity \<open>cap\<close> of the output, to which they are written from \<open>off\<close> on. A
  write behind the end of the output makes the result \<open>None\<close>.
\<close>

fun copy_payloads :: "nat \<Rightarrow> nat \<Rightarrow> nat \<Rightarrow> IPFragment list \<Rightarrow> byte list \<Rightarrow> (int + byte list) option" where
  "copy_payloads cap off hlen [] out = Some (Inr out)"
| "copy_payloads cap off hlen (f # fs) out =
     (let n = fr_length f - hlen
      in if length out + n > cap then Some (Inl (-3))
         else if n > 0 \<and> off + length out + n > cap then None
         else copy_payloads cap off hlen fs (out @ take n (drop hlen (fr_data f))))"

definition ip_reassemble_packet :: "IPFragment list \<Rightarrow> nat \<Rightarrow> (int + byte list) option" where
  "ip_reassemble_packet frags cap =
     (if frags = [] then Some (Inl (-2))
      else let fs = sort_frags frags; h = hdr_of (fr_data (hd fs))
           in if ip_ihl h \<noteq> 5 \<or> \<not> list_all (\<lambda>f. 20 \<le> fr_length f) fs then None
              else case copy_payloads cap 20 20 fs [] of
                None \<Rightarrow> None
              | Some (Inl r) \<Rightarrow> Some (Inl r)
              | Some (Inr payload) \<Rightarrow>
                  (let h' = h\<lparr>total_length := of_nat (20 + length payload), flags_frag_offset := 0, checksum := 0\<rparr>
                   in if cap < 20 then None else Some (Inr (hdr_bytes (h'\<lparr>checksum := ip_checksum_header h'\<rparr>) @ payload))))"

text \<open>
  One fragment delivered to a buffer, with an output array of \<open>cap\<close> bytes or none. Result: the buffer, the return
  code and the assembled payload when the code is 0 and there is one.
\<close>

definition ip_reassemble ::
    "IPFragmentBuffer \<Rightarrow> IPFragment \<Rightarrow> nat option \<Rightarrow> (IPFragmentBuffer \<times> int \<times> byte list option) option" where
  "ip_reassemble buf frag cap =
     (if length (fb_fragments buf) \<ge> IP_MAX_FRAGMENTS then Some (buf, -2, None)
      else if list_ex (\<lambda>f. fr_offset f = fr_offset frag) (fb_fragments buf) then Some (buf, 0, None)
      else let frags = fb_fragments buf @ [frag];
               buf1 = buf\<lparr>fb_fragments := frags, fb_packet_id := fr_packet_id frag\<rparr>;
               buf2 = (if fr_more frag then buf1
                       else buf1\<lparr>fb_total_assembled := unat (fr_offset frag) * 8 +
                              (fr_length frag - unat (ip_ihl (hdr_of (fr_data frag))) * 4)\<rparr>)
           in if list_all fr_more frags then Some (buf2, 1, None)
              else let fs = sort_frags frags; buf3 = buf2\<lparr>fb_fragments := fs\<rparr>
                   in case cap of
                        None \<Rightarrow> Some (buf3\<lparr>fb_complete := True\<rparr>, 0, None)
                      | Some c \<Rightarrow>
                          (if ip_ihl (hdr_of (fr_data (hd frags))) \<noteq> 5 \<or> \<not> list_all (\<lambda>f. 20 \<le> fr_length f) fs then None
                           else case copy_payloads c 0 20 fs [] of
                             None \<Rightarrow> None
                           | Some (Inl r) \<Rightarrow> Some (buf3, r, None)
                           | Some (Inr out) \<Rightarrow> Some (buf3\<lparr>fb_complete := True\<rparr>, 0, Some out)))"

section \<open>Layout\<close>

lemma of_le2_le2: "of_le2 (ucast w) (ucast (drop_bit 8 w)) = w"
  unfolding of_le2_def by (rule bit_word_eqI) (auto simp: bit_simps)

lemma of_le4_le4:
  "of_le4 (ucast w) (ucast (drop_bit 8 w)) (ucast (drop_bit 16 w)) (ucast (drop_bit 24 w)) = w"
  using be_round_trip_full [of 4 w] unfolding of_le4_def
  by (simp add: be_bytes_explicit be_word_explicit or.commute or.left_commute)

lemma length_hdr_bytes [simp]: "length (hdr_bytes h) = 20"
  by (simp add: hdr_bytes_def le2_def le4_def)

lemma hdr_of_bytes [simp]: "hdr_of (hdr_bytes h @ rest) = h"
  unfolding hdr_of_def hdr_bytes_def le2_def le4_def
  by (simp add: of_le2_le2 of_le4_le4)

lemma ip_ihl_update [simp]:
  "ip_ihl (h\<lparr>total_length := a\<rparr>) = ip_ihl h" "ip_ihl (h\<lparr>flags_frag_offset := b\<rparr>) = ip_ihl h"
  "ip_ihl (h\<lparr>checksum := c\<rparr>) = ip_ihl h"
  by (simp_all add: ip_ihl_def)

section \<open>Fragments\<close>

lemma ip_ihl_frag_header [simp]: "ip_ihl (frag_header h offset chunk mf) = ip_ihl h"
  by (simp add: frag_header_def Let_def)

lemma make_frag_fields:
  assumes "offset + chunk \<le> length payload" and "20 + length payload < 65536"
  shows "fr_length (make_frag h payload offset chunk) = 20 + chunk"
    and "take chunk (drop 20 (fr_data (make_frag h payload offset chunk))) = take chunk (drop offset payload)"
    and "unat (fr_offset (make_frag h payload offset chunk)) = offset div 8"
    and "hdr_of (fr_data (make_frag h payload offset chunk)) = frag_header h offset chunk (offset + chunk < length payload)"
proof -
  have "unat (of_nat (20 + chunk) :: 16 word) = 20 + chunk" using assms by (intro unat_of_nat_small) simp
  then show "fr_length (make_frag h payload offset chunk) = 20 + chunk"
    by (simp add: make_frag_def frag_header_def Let_def)
  have "offset div 8 < 2 ^ LENGTH(16)" using assms by simp
  then show "unat (fr_offset (make_frag h payload offset chunk)) = offset div 8"
    by (simp add: make_frag_def Let_def unat_of_nat_small)
qed (simp_all add: make_frag_def Let_def)

text \<open>The fragments of a payload from an offset on, when they fit the limit of 64.\<close>

lemma frag_loop_result:
  assumes "0 < mp" and "8 dvd mp" and "8 dvd offset" and "offset \<le> length payload" and "20 + length payload < 65536"
    and "length payload \<le> offset + (IP_MAX_FRAGMENTS - k) * mp"
  shows "\<exists>fs. frag_loop (\<lambda>_. True) h payload mp offset k = Inr fs \<and>
    list_all (\<lambda>f. 20 \<le> fr_length f \<and> offset div 8 \<le> unat (fr_offset f)) fs \<and>
    sorted_wrt (<) (map (\<lambda>f. unat (fr_offset f)) fs) \<and>
    (fs \<noteq> [] \<longrightarrow> (\<exists>chunk mf. hdr_of (fr_data (hd fs)) = frag_header h offset chunk mf)) \<and>
    (offset < length payload \<longrightarrow> fs \<noteq> []) \<and>
    (\<forall>cap off out. off + length out + (length payload - offset) \<le> cap \<longrightarrow> copy_payloads cap off 20 fs out = Some (Inr (out @ drop offset payload)))"
  using assms
proof (induction "length payload - offset" arbitrary: offset k rule: less_induct)
  case less
  show ?case
  proof (cases "offset < length payload")
    case False
    then show ?thesis using less.prems(4) by (simp add: frag_loop.simps)
  next
    case True
    let ?n = "min (length payload - offset) mp"
    let ?f = "make_frag h payload offset ?n"
    have k: "k < IP_MAX_FRAGMENTS" using True less.prems(6) by (cases "k < IP_MAX_FRAGMENTS") auto
    note ff = make_frag_fields [of offset ?n payload h, OF _ less.prems(5)]
    have le: "offset + ?n \<le> length payload" using True by simp
    show ?thesis
    proof (cases "length payload - offset \<le> mp")
      case last: True
      have "frag_loop (\<lambda>_. True) h payload mp offset k = Inr [?f]"
        using True k last by (subst frag_loop.simps) (simp add: frag_loop.simps Let_def)
      then show ?thesis using ff [OF le] last True by (auto simp: Let_def)
    next
      case False
      then have n: "?n = mp" by simp
      have small: "length payload - (offset + mp) < length payload - offset" using True less.prems(1) by simp
      have room: "length payload \<le> offset + mp + (IP_MAX_FRAGMENTS - Suc k) * mp"
        using less.prems(6) k by (simp add: Suc_diff_Suc algebra_simps flip: Suc_diff_Suc)
      have dvd: "8 dvd offset + mp" and fits: "offset + mp \<le> length payload" using less.prems(2,3) False by auto
      from less.hyps [OF small less.prems(1,2) dvd fits less.prems(5) room]
      obtain fs where fs: "frag_loop (\<lambda>_. True) h payload mp (offset + mp) (Suc k) = Inr fs"
        "list_all (\<lambda>f. 20 \<le> fr_length f \<and> (offset + mp) div 8 \<le> unat (fr_offset f)) fs"
        "sorted_wrt (<) (map (\<lambda>f. unat (fr_offset f)) fs)"
        "\<forall>cap off out. off + length out + (length payload - (offset + mp)) \<le> cap \<longrightarrow>
           copy_payloads cap off 20 fs out = Some (Inr (out @ drop (offset + mp) payload))" by blast
      have run: "frag_loop (\<lambda>_. True) h payload mp offset k = Inr (?f # fs)"
        using True k n fs(1) by (subst frag_loop.simps) (simp add: Let_def)
      have "offset div 8 < (offset + mp) div 8"
        using less.prems(1-3) by (auto elim!: dvdE)
      then have order: "sorted_wrt (<) (map (\<lambda>f. unat (fr_offset f)) (?f # fs))"
        "list_all (\<lambda>f. 20 \<le> fr_length f \<and> offset div 8 \<le> unat (fr_offset f)) (?f # fs)"
        using fs(2,3) ff(1,3) [OF le] by (auto simp: list_all_iff)
      have "copy_payloads cap off 20 (?f # fs) out = Some (Inr (out @ drop offset payload))"
        if "off + length out + (length payload - offset) \<le> cap" for cap off out
      proof -
        have "drop offset payload = take mp (drop offset payload) @ drop (offset + mp) payload"
          by (metis add.commute append_take_drop_id drop_drop)
        moreover have "length (take mp (drop offset payload)) = mp" using False by simp
        ultimately show ?thesis using fs(4) that ff(1,2) [OF le] n False by (simp add: Let_def) linarith
      qed
      then show ?thesis using run order ff(4) [OF le] by (intro exI [of _ "?f # fs"]) auto
    qed
  qed
qed

lemma frag_max_payload:
  assumes "28 \<le> mtu"
  shows "0 < frag_max_payload mtu" and "8 dvd frag_max_payload mtu"
proof -
  have u: "28 \<le> unat mtu" using assms by (simp add: word_le_nat_alt)
  have e: "unat (ucast mtu :: 64 word) = unat mtu"
  proof -
    have "unat mtu < 2 ^ LENGTH(16)" by (rule unsigned_less)
    then show ?thesis by (simp add: unsigned_ucast_eq take_bit_nat_eq_self)
  qed
  then have "(20 :: 64 word) \<le> ucast mtu" using u by (simp add: word_le_nat_alt)
  then have "unat ((ucast mtu :: 64 word) - 20) = unat mtu - 20" using e by (simp add: unat_sub)
  then show "0 < frag_max_payload mtu" "8 dvd frag_max_payload mtu"
    using u unfolding frag_max_payload_def by (simp_all add: div_greater_zero_iff)
qed

lemma sort_frags_perm:
  assumes "mset fs = mset frags" and "sorted_wrt (<) (map (\<lambda>f. unat (fr_offset f)) frags)"
  shows "sort_frags fs = frags"
proof (rule sort_key_inj_key_eq [OF assms(1)])
  have "distinct (map (\<lambda>f. unat (fr_offset f)) frags)" using assms(2) by (simp add: strict_sorted_iff)
  then have "inj_on (\<lambda>f. unat (fr_offset f)) (set frags)" by (simp add: distinct_map)
  then show "inj_on (\<lambda>f. unat (fr_offset f)) (set fs)" using mset_eq_setD [OF assms(1)] by simp
  show "sorted (map (\<lambda>f. unat (fr_offset f)) frags)" using assms(2) by (simp add: strict_sorted_iff)
qed

lemma fragment_reassemble:
  assumes "ip_ihl h = 5" and "payload \<noteq> []" and "20 + length payload < 65536" and "28 \<le> mtu"
    and "length payload \<le> IP_MAX_FRAGMENTS * frag_max_payload mtu" and "20 + length payload \<le> cap"
  shows "\<exists>frags. ip_fragment (\<lambda>_. True) (hdr_bytes h @ payload) mtu = Some (Inr frags) \<and>
    (\<forall>fs. mset fs = mset frags \<longrightarrow>
       ip_reassemble_packet fs cap =
         (let h' = h\<lparr>total_length := of_nat (20 + length payload), flags_frag_offset := 0, checksum := 0\<rparr>
          in Some (Inr (hdr_bytes (h'\<lparr>checksum := ip_checksum_header h'\<rparr>) @ payload))))"
proof -
  note mp = frag_max_payload [OF assms(4)]
  from frag_loop_result [OF mp, of 0 payload 0 h] assms(3,5) obtain frags where
    loop: "frag_loop (\<lambda>_. True) h payload (frag_max_payload mtu) 0 0 = Inr frags"
    and long: "list_all (\<lambda>f. 20 \<le> fr_length f) frags"
    and sorted: "sorted_wrt (<) (map (\<lambda>f. unat (fr_offset f)) frags)"
    and first: "frags \<noteq> [] \<longrightarrow> (\<exists>chunk mf. hdr_of (fr_data (hd frags)) = frag_header h 0 chunk mf)"
    and nonempty: "frags \<noteq> []"
    and copy: "\<forall>cap off out. off + length out + length payload \<le> cap \<longrightarrow> copy_payloads cap off 20 frags out = Some (Inr (out @ payload))"
    using assms(2) by (auto simp: list_all_iff)
  have "ip_fragment (\<lambda>_. True) (hdr_bytes h @ payload) mtu = Some (Inr frags)"
    using loop assms(1,2) mp(1) by (simp add: ip_fragment_def)
  moreover from first nonempty obtain chunk mf where hd: "hdr_of (fr_data (hd frags)) = frag_header h 0 chunk mf" by blast
  have "ip_reassemble_packet fs cap =
      (let h' = h\<lparr>total_length := of_nat (20 + length payload), flags_frag_offset := 0, checksum := 0\<rparr>
       in Some (Inr (hdr_bytes (h'\<lparr>checksum := ip_checksum_header h'\<rparr>) @ payload)))" if "mset fs = mset frags" for fs
  proof -
    have "fs \<noteq> []" using that nonempty by auto
    moreover have "copy_payloads cap 20 20 frags [] = Some (Inr payload)" "\<not> cap < 20" using copy assms(6) by simp_all
    moreover have "frag_header h 0 chunk mf\<lparr>total_length := a, flags_frag_offset := 0, checksum := 0\<rparr> =
      h\<lparr>total_length := a, flags_frag_offset := 0, checksum := 0\<rparr>" for a by (simp add: frag_header_def Let_def)
    ultimately show ?thesis
      using sort_frags_perm [OF that sorted] long hd assms(1) unfolding ip_reassemble_packet_def by (simp add: Let_def)
  qed
  ultimately show ?thesis by blast
qed

section \<open>Properties\<close>

text \<open>
  C36. A packet survives fragmentation: a packet built for a non-empty payload whose length with the 20-byte header fits 16 bits, fragmented
  for an MTU of at least 28 bytes into at most 64 fragments (all allocations succeeding), is reassembled from these fragments in any
  order, byte for byte, into a buffer with room for the header and the payload.
\<close>

theorem ip_fragment_round_trip:
  assumes "ip_build_packet rid proto src dst payload = Inr packet" and "payload \<noteq> []" and "20 + length payload < 65536"
    and "28 \<le> mtu" and "length payload \<le> IP_MAX_FRAGMENTS * frag_max_payload mtu" and "20 + length payload \<le> cap"
  shows "\<exists>frags. ip_fragment (\<lambda>_. True) packet mtu = Some (Inr frags) \<and>
    (\<forall>fs. mset fs = mset frags \<longrightarrow> ip_reassemble_packet fs cap = Some (Inr packet))"
proof -
  let ?h = "(ip_header_init rid)\<lparr>tos := 0, protocol := proto, src_addr := src, dst_addr := dst, flags_frag_offset := 0,
    total_length := of_nat (20 + length payload)\<rparr>"
  let ?h' = "?h\<lparr>checksum := ip_checksum_header (?h\<lparr>checksum := 0\<rparr>)\<rparr>"
  have packet: "packet = hdr_bytes ?h' @ payload"
    using assms(1) by (simp add: ip_build_packet_def Let_def split: if_splits)
  have "ip_ihl ?h' = 5" by (simp add: ip_ihl_def ip_header_init_def)
  from fragment_reassemble [OF this assms(2-6)] show ?thesis
    unfolding packet by (simp add: Let_def ip_header_init_def)
qed

definition demo_payload :: "byte list" where "demo_payload = replicate 20 7"

theorem ip_fragment_round_trip_witness:
  "\<exists>packet frags. ip_build_packet 9 6 1 2 demo_payload = Inr packet \<and>
     ip_fragment (\<lambda>_. True) packet 28 = Some (Inr frags) \<and> ip_reassemble_packet (rev frags) 100 = Some (Inr packet)"
proof -
  obtain packet where p: "ip_build_packet 9 6 1 2 demo_payload = Inr packet"
    by (simp add: ip_build_packet_def Let_def demo_payload_def)
  have mp: "frag_max_payload 28 = 8" by (simp add: frag_max_payload_def)
  have d: "demo_payload \<noteq> []" "length demo_payload = 20" by (simp_all add: demo_payload_def)
  from ip_fragment_round_trip [OF p, of 28 100] obtain frags where
    "ip_fragment (\<lambda>_. True) packet 28 = Some (Inr frags)"
    "\<forall>fs. mset fs = mset frags \<longrightarrow> ip_reassemble_packet fs 100 = Some (Inr packet)"
    using d mp by (auto simp: IP_MAX_FRAGMENTS_def)
  then show ?thesis using p by (intro exI [of _ packet] exI [of _ frags]) simp
qed

section \<open>Divergences\<close>

text \<open>
  \<open>ip_reassemble\<close> takes the arrival of the last fragment for the completion of the packet: the first and the last of
  three fragments give a complete packet with its middle missing.
\<close>

definition three_frags :: "IPFragment list" where
  "three_frags = (case ip_fragment (\<lambda>_. True) (hdr_bytes (ip_header_init 9) @ replicate 20 7) 28 of
     Some (Inr fs) \<Rightarrow> fs | _ \<Rightarrow> [])"

lemma ip_reassemble_gap:
  "length three_frags = 3"
  "(case ip_reassemble ip_fragment_buffer_init (three_frags ! 0) (Some 100) of
     Some (buf, r, _) \<Rightarrow> r = 1 \<and>
       (case ip_reassemble buf (three_frags ! 2) (Some 100) of
          Some (buf', r', out) \<Rightarrow> r' = 0 \<and> fb_complete buf' \<and> out = Some (replicate 12 7) | None \<Rightarrow> False)
   | None \<Rightarrow> False)"
  by code_simp+

text \<open>
  \<open>ip_reassemble_packet\<close> compares the payload alone with the capacity of the output: with room for the payload but not for the
  header as well it writes behind the end.
\<close>

lemma ip_reassemble_packet_overrun: "ip_reassemble_packet three_frags 20 = None"
  by code_simp

text \<open>An MTU below the header length wraps around, and the packet is sent in one piece whatever its size.\<close>

lemma ip_fragment_small_mtu: "frag_max_payload 19 = 2 ^ 64 - 8"
  by (simp add: frag_max_payload_def unsigned_minus_1_eq_mask mask_eq_exp_minus_1)

text \<open>The checksum is summed over big-endian pairs and stored in host order, so the packet's own sum is not zero.\<close>

lemma ip_checksum_host_order:
  "let h = ip_header_init 1 in ip_checksum (hdr_bytes (h\<lparr>checksum := ip_checksum_header h\<rparr>)) \<noteq> 0"
  by code_simp

end
