(* ===== verification/IcmpProto.thy ===== *)
theory IcmpProto
  imports IpPacket
begin

text \<open>
  ICMP messages (\<open>mini-network-base/src/icmp_proto.c\<close>): the Internet checksum, echo requests and replies, error messages and
  the name tables.

  A packet is a list of bytes; the capacity that the caller passes in \<open>*packet_len\<close> is an argument, and a builder returns the
  packet or its error code. The checksum routine repeats the loops of \<open>ip_packet.c\<close>, whose models are used. A payload is
  given with its length. Null arguments and printing are left out.
\<close>

section \<open>Messages\<close>

abbreviation ICMP_HEADER_SIZE :: nat where "ICMP_HEADER_SIZE \<equiv> 8"
abbreviation ICMP_MAX_DATA :: nat where "ICMP_MAX_DATA \<equiv> 1472"
abbreviation ICMP_TYPE_ECHO_REPLY :: byte where "ICMP_TYPE_ECHO_REPLY \<equiv> 0"
abbreviation ICMP_TYPE_DEST_UNREACHABLE :: byte where "ICMP_TYPE_DEST_UNREACHABLE \<equiv> 3"
abbreviation ICMP_TYPE_ECHO_REQUEST :: byte where "ICMP_TYPE_ECHO_REQUEST \<equiv> 8"
abbreviation ICMP_TYPE_TIME_EXCEEDED :: byte where "ICMP_TYPE_TIME_EXCEEDED \<equiv> 11"

record icmp_header =
  ih_type :: byte
  ih_code :: byte
  ih_checksum :: "16 word"
  ih_rest :: "32 word"

record icmp_echo =
  ie_type :: byte
  ie_code :: byte
  ie_checksum :: "16 word"
  ie_identifier :: "16 word"
  ie_sequence_number :: "16 word"
  ie_data :: "byte list"

definition icmp_checksum :: "byte list \<Rightarrow> 16 word" where
  "icmp_checksum data = ucast (NOT (checksum_fold (checksum_sum data 0)))"

definition icmp_checksum_verify :: "byte list \<Rightarrow> bool" where
  "icmp_checksum_verify data \<longleftrightarrow> length data \<ge> ICMP_HEADER_SIZE \<and> icmp_checksum data = 0"

definition icmp_header_init :: "byte \<Rightarrow> byte \<Rightarrow> icmp_header" where
  "icmp_header_init type code = \<lparr>ih_type = type, ih_code = code, ih_checksum = 0, ih_rest = 0\<rparr>"

definition be16 :: "byte \<Rightarrow> byte \<Rightarrow> 16 word" where
  "be16 a b = push_bit 8 (ucast a) OR ucast b"

definition icmp_parse_header :: "byte list \<Rightarrow> int + icmp_header" where
  "icmp_parse_header data =
     (if length data < ICMP_HEADER_SIZE then Inl (-1)
      else Inr \<lparr>ih_type = data ! 0, ih_code = data ! 1, ih_checksum = be16 (data ! 2) (data ! 3),
             ih_rest = push_bit 24 (ucast (data ! 4)) OR push_bit 16 (ucast (data ! 5)) OR push_bit 8 (ucast (data ! 6)) OR ucast (data ! 7)\<rparr>)"

text \<open>The last step of every builder: the sum over the packet with a zero checksum field goes into that field.\<close>

definition icmp_seal :: "byte list \<Rightarrow> byte list" where
  "icmp_seal packet = (let ck = icmp_checksum packet in
     packet[2 := ucast (drop_bit 8 ck AND 0xFF), 3 := ucast (ck AND 0xFF)])"

definition icmp_echo_build :: "16 word \<Rightarrow> 16 word \<Rightarrow> byte list \<Rightarrow> nat \<Rightarrow> int + byte list" where
  "icmp_echo_build identifier seq_num payload cap =
     (if length payload > ICMP_MAX_DATA then Inl (-2)
      else if ICMP_HEADER_SIZE + length payload > cap then Inl (-3)
      else Inr (icmp_seal ([ICMP_TYPE_ECHO_REQUEST, 0, 0, 0, ucast (drop_bit 8 identifier AND 0xFF), ucast (identifier AND 0xFF),
             ucast (drop_bit 8 seq_num AND 0xFF), ucast (seq_num AND 0xFF)] @ payload)))"

definition icmp_echo_reply :: "byte list \<Rightarrow> nat \<Rightarrow> int + byte list" where
  "icmp_echo_reply request cap =
     (if length request < ICMP_HEADER_SIZE then Inl (-2)
      else if request ! 0 \<noteq> ICMP_TYPE_ECHO_REQUEST then Inl (-3)
      else if length request > cap then Inl (-4)
      else Inr (icmp_seal (request[0 := ICMP_TYPE_ECHO_REPLY, 2 := 0, 3 := 0])))"

definition icmp_echo_parse :: "byte list \<Rightarrow> int + icmp_echo" where
  "icmp_echo_parse data =
     (if length data < ICMP_HEADER_SIZE then Inl (-1)
      else Inr \<lparr>ie_type = data ! 0, ie_code = data ! 1, ie_checksum = be16 (data ! 2) (data ! 3),
             ie_identifier = be16 (data ! 4) (data ! 5), ie_sequence_number = be16 (data ! 6) (data ! 7),
             ie_data = take ICMP_MAX_DATA (drop ICMP_HEADER_SIZE data)\<rparr>)"

definition icmp_error_packet :: "byte \<Rightarrow> byte \<Rightarrow> byte list \<Rightarrow> nat \<Rightarrow> int + byte list" where
  "icmp_error_packet type code original cap =
     (let embed_len = (if length original > 60 + 8 then 60 + 8 else length original) in
      if ICMP_HEADER_SIZE + embed_len > cap then Inl (-3)
      else Inr (icmp_seal ([type, code, 0, 0, 0, 0, 0, 0] @ take embed_len original)))"

definition icmp_time_exceeded_build :: "byte \<Rightarrow> byte list \<Rightarrow> nat \<Rightarrow> int + byte list" where
  "icmp_time_exceeded_build code original cap =
     (if code \<noteq> 0 \<and> code \<noteq> 1 then Inl (-2) else icmp_error_packet ICMP_TYPE_TIME_EXCEEDED code original cap)"

definition icmp_dest_unreachable_build :: "byte \<Rightarrow> byte list \<Rightarrow> nat \<Rightarrow> int + byte list" where
  "icmp_dest_unreachable_build code original cap =
     (if code > 15 then Inl (-2) else icmp_error_packet ICMP_TYPE_DEST_UNREACHABLE code original cap)"

definition icmp_type_name :: "byte \<Rightarrow> string" where
  "icmp_type_name type =
     (if type = 0 then ''Echo Reply'' else if type = 3 then ''Destination Unreachable'' else if type = 4 then ''Source Quench''
      else if type = 5 then ''Redirect'' else if type = 8 then ''Echo Request'' else if type = 9 then ''Router Advertisement''
      else if type = 10 then ''Router Solicitation'' else if type = 11 then ''Time Exceeded''
      else if type = 12 then ''Parameter Problem'' else if type = 13 then ''Timestamp''
      else if type = 14 then ''Timestamp Reply'' else ''Unknown'')"

definition icmp_code_name :: "byte \<Rightarrow> byte \<Rightarrow> string" where
  "icmp_code_name type code =
     (if type = ICMP_TYPE_DEST_UNREACHABLE
      then (if code = 0 then ''Net Unreachable'' else if code = 1 then ''Host Unreachable''
            else if code = 2 then ''Protocol Unreachable'' else if code = 3 then ''Port Unreachable''
            else if code = 4 then ''Fragmentation Needed'' else if code = 5 then ''Source Route Failed'' else ''Unknown Code'')
      else if type = ICMP_TYPE_TIME_EXCEEDED
      then (if code = 0 then ''TTL Exceeded'' else if code = 1 then ''Frag Reassembly Timeout'' else ''Unknown Code'')
      else '''')"

section \<open>The checksum is arithmetic modulo 65535\<close>

fun word_sum :: "byte list \<Rightarrow> nat" where
  "word_sum (a # b # rest) = 256 * unat a + unat b + word_sum rest"
| "word_sum [a] = 256 * unat a"
| "word_sum [] = 0"

lemma unat_byte: "unat (b :: byte) < 256"
  using unsigned_less [of b] by simp

lemma unat_pair: "unat (push_bit 8 (ucast (a :: byte)) OR ucast b :: 32 word) = 256 * unat a + unat (b :: byte)"
proof -
  have "push_bit 8 (ucast a) OR ucast b = (push_bit 8 (ucast a) + ucast b :: 32 word)" by (rule disjunctive_add [symmetric]) (auto simp: bit_simps dest: bit_imp_le_length)
  also have "\<dots> = of_nat (256 * unat a + unat b)" by (simp add: push_bit_eq_mult unsigned_ucast_eq)
  finally have "push_bit 8 (ucast a) OR ucast b = (of_nat (256 * unat a + unat b) :: 32 word)" .
  moreover have "256 * unat a + unat b < 2 ^ LENGTH(32)" using unat_byte [of a] unat_byte [of b] by simp
  ultimately show ?thesis by (simp only: unat_of_nat_small)
qed

lemma word_sum_bound: "word_sum data \<le> 65535 * length data"
proof (induction data rule: word_sum.induct)
  case (1 a b rest)
  then show ?case using unat_byte [of a] unat_byte [of b] by simp
next
  case (2 a)
  then show ?case using unat_byte [of a] by simp
qed simp

lemma checksum_sum_unat:
  "unat acc + word_sum data < 2 ^ 32 \<Longrightarrow> unat (checksum_sum data acc) = unat acc + word_sum data"
proof (induction data acc rule: checksum_sum.induct)
  case (1 a b rest acc)
  have "unat (acc + (push_bit 8 (ucast a) OR ucast b)) = unat acc + (256 * unat a + unat b)"
    using "1.prems" by (subst unat_add_lem [THEN iffD1]) (simp_all add: unat_pair)
  then show ?case using "1.IH" "1.prems" by simp
next
  case (2 a acc)
  have p: "unat (push_bit 8 (ucast a) :: 32 word) = 256 * unat a" using unat_pair [of a 0] by simp
  show ?case using "2.prems" by (simp add: unat_add_lem [THEN iffD1] p)
qed simp

lemma checksum_fold_mod:
  "unat (checksum_fold w) < 65536 \<and> unat (checksum_fold w) mod 65535 = unat w mod 65535 \<and> (checksum_fold w = 0 \<longleftrightarrow> w = 0)"
proof (induction w rule: checksum_fold.induct)
  case (1 w)
  show ?case
  proof (cases "drop_bit 16 w = 0")
    case True
    have "unat (drop_bit 16 w) = unat w div 65536" by (simp add: drop_bit_eq_div unat_div_distrib)
    then have "unat w < 65536" using True by (simp add: div_eq_0_iff)
    then show ?thesis using True by (simp add: checksum_fold.simps [of w])
  next
    case False
    let ?v = "(w AND 0xFFFF) + drop_bit 16 w"
    have v: "unat ?v = unat w mod 65536 + unat w div 65536" by (rule fold_carry)
    have "unat w = 65535 * (unat w div 65536) + unat ?v" using v div_mult_mod_eq [of "unat w" 65536] by simp
    then have "unat ?v mod 65535 = unat w mod 65535" by (metis mod_mult_self4)
    moreover have "?v = 0 \<longleftrightarrow> w = 0" using v by (auto simp: unat_eq_0 [symmetric])
    ultimately show ?thesis using "1.IH" [OF False] False by (simp add: checksum_fold.simps [of w])
  qed
qed

lemma ucast_not: "ucast (NOT (w :: 32 word)) = (NOT (ucast w) :: 16 word)"
  by (rule bit_word_eqI) (simp add: bit_simps)

lemma full_16: "n < 65536 \<Longrightarrow> n = 65535 \<longleftrightarrow> n mod 65535 = 0 \<and> n \<noteq> (0 :: nat)"
proof -
  assume "n < 65536"
  then have "n = 65535 \<or> n < 65535" by linarith
  then show ?thesis by auto
qed

lemma unat_not_16: "unat (NOT x :: 16 word) = 65535 - unat x"
proof -
  have "NOT x = - 1 - x" by (simp add: not_eq_complement)
  moreover have "unat (- 1 - x) = unat (- 1 :: 16 word) - unat x" by (rule unat_sub) simp
  moreover have "unat (- 1 :: 16 word) = 65535" by (simp add: unsigned_minus_1_eq_mask mask_eq_exp_minus_1)
  ultimately show ?thesis by simp
qed

text \<open>A packet passes the check exactly when its words add up to a positive multiple of 65535.\<close>

lemma icmp_checksum_zero:
  assumes "word_sum data < 2 ^ 32"
  shows "icmp_checksum data = 0 \<longleftrightarrow> word_sum data mod 65535 = 0 \<and> word_sum data \<noteq> 0"
proof -
  let ?w = "checksum_sum data 0" and ?f = "checksum_fold (checksum_sum data 0)"
  have w: "unat ?w = word_sum data" using checksum_sum_unat [of 0 data] assms by simp
  have f: "unat ?f < 65536" "unat ?f mod 65535 = word_sum data mod 65535" "?f = 0 \<longleftrightarrow> word_sum data = 0"
    using checksum_fold_mod [of ?w] w by (simp_all add: unat_eq_0 [symmetric])
  have "icmp_checksum data = 0 \<longleftrightarrow> (ucast ?f :: 16 word) = - 1"
    unfolding icmp_checksum_def ucast_not by (metis bit.double_compl bit.compl_zero)
  also have "\<dots> \<longleftrightarrow> unat (ucast ?f :: 16 word) = 65535" by (simp add: word_unat_eq_iff unsigned_minus_1_eq_mask mask_eq_exp_minus_1)
  also have "\<dots> \<longleftrightarrow> unat ?f = 65535" using f(1) by (simp add: unsigned_ucast_eq take_bit_nat_eq_self)
  also have "\<dots> \<longleftrightarrow> unat ?f mod 65535 = 0 \<and> unat ?f \<noteq> 0" using f(1) by (rule full_16)
  finally show ?thesis using f by (auto simp: unat_eq_0)
qed

section \<open>Built packets pass the check\<close>

text \<open>The sum splits at an aligned word.\<close>

lemma word_sum_append: "even (length xs) \<Longrightarrow> word_sum (xs @ ys) = word_sum xs + word_sum ys"
  by (induction xs rule: word_sum.induct) auto

lemma icmp_checksum_unat:
  assumes "word_sum data < 2 ^ 32"
  shows "unat (icmp_checksum data) < 65536" and "(word_sum data + unat (icmp_checksum data)) mod 65535 = 0"
    and "word_sum data + unat (icmp_checksum data) \<noteq> 0"
proof -
  let ?w = "checksum_sum data 0" and ?f = "checksum_fold (checksum_sum data 0)"
  have w: "unat ?w = word_sum data" using checksum_sum_unat [of 0 data] assms by simp
  have f: "unat ?f < 65536" "unat ?f mod 65535 = word_sum data mod 65535" "?f = 0 \<longleftrightarrow> word_sum data = 0"
    using checksum_fold_mod [of ?w] w by (simp_all add: unat_eq_0 [symmetric])
  have "unat (ucast ?f :: 16 word) = unat ?f" using f(1) by (simp add: unsigned_ucast_eq take_bit_nat_eq_self)
  then have c: "unat (icmp_checksum data) = 65535 - unat ?f" by (simp add: icmp_checksum_def ucast_not unat_not_16)
  show "unat (icmp_checksum data) < 65536" using c by simp
  have "(word_sum data + (65535 - unat ?f)) mod 65535 = (unat ?f + (65535 - unat ?f)) mod 65535"
    using f(2) by (metis mod_add_left_eq)
  then show "(word_sum data + unat (icmp_checksum data)) mod 65535 = 0" using c f(1) by simp
  show "word_sum data + unat (icmp_checksum data) \<noteq> 0" using c f by auto
qed

lemma length_icmp_seal [simp]: "length (icmp_seal p) = length p"
  by (simp add: icmp_seal_def Let_def)

lemma seal_bytes:
  fixes ck :: "16 word"
  shows "256 * unat (ucast (drop_bit 8 ck AND 0xFF) :: byte) + unat (ucast (ck AND 0xFF) :: byte) = unat ck"
proof -
  have m: "(0xFF :: 16 word) = mask 8" by (simp add: mask_eq_exp_minus_1)
  have "unat (ucast (ck AND 0xFF) :: byte) = unat ck mod 256"
    unfolding m take_bit_eq_mask [symmetric] unsigned_ucast_eq unsigned_take_bit_eq by (simp add: take_bit_eq_mod)
  moreover have "unat (ucast (drop_bit 8 ck AND 0xFF) :: byte) = unat ck div 256"
  proof -
    have "unat ck < 2 ^ LENGTH(16)" by (rule unsigned_less)
    then have "unat ck div 256 < 256" by simp
    moreover have "unat (drop_bit 8 ck) = unat ck div 256" by (simp add: drop_bit_eq_div unat_div_distrib)
    ultimately show ?thesis unfolding m take_bit_eq_mask [symmetric] unsigned_ucast_eq unsigned_take_bit_eq by (simp add: take_bit_eq_mod)
  qed
  ultimately show ?thesis by (metis div_mult_mod_eq mult.commute)
qed

text \<open>The contract of the builders: a header with a zero checksum field, and a packet that is not too long to be summed in 32 bits.\<close>

lemma icmp_seal_verifies:
  assumes "length rest \<le> 2 ^ 14"
  shows "icmp_checksum_verify (icmp_seal ([t, c, 0, 0, b4, b5, b6, b7] @ rest))"
proof -
  let ?p = "[t, c, 0, 0, b4, b5, b6, b7] @ rest" and ?ck = "icmp_checksum ([t, c, 0, 0, b4, b5, b6, b7] @ rest)"
  have b: "word_sum ?p < 2 ^ 31" using word_sum_bound [of ?p] assms by simp
  have sealed: "icmp_seal ?p = [t, c, ucast (drop_bit 8 ?ck AND 0xFF), ucast (?ck AND 0xFF), b4, b5, b6, b7] @ rest"
    by (simp add: icmp_seal_def Let_def)
  have "word_sum (icmp_seal ?p) = word_sum ?p + (256 * unat (ucast (drop_bit 8 ?ck AND 0xFF) :: byte) + unat (ucast (?ck AND 0xFF) :: byte))"
    unfolding sealed by simp
  then have s: "word_sum (icmp_seal ?p) = word_sum ?p + unat ?ck" by (simp only: seal_bytes)
  have "word_sum ?p < 2 ^ 32" using b by simp
  note ck = icmp_checksum_unat [OF this]
  have "word_sum (icmp_seal ?p) < 2 ^ 32" using b s ck(1) by simp
  then have "icmp_checksum (icmp_seal ?p) = 0" using icmp_checksum_zero [of "icmp_seal ?p"] s ck(2,3) by simp
  then show ?thesis by (simp add: icmp_checksum_verify_def)
qed

lemma be16_bytes: "be16 (ucast (drop_bit 8 w AND 0xFF)) (ucast (w AND 0xFF)) = w"
proof -
  have m: "(0xFF :: 16 word) = mask 8" by (simp add: mask_eq_exp_minus_1)
  show ?thesis unfolding be16_def m by (rule bit_word_eqI) (auto simp: bit_simps)
qed

text \<open>
  C35. A ping comes back: for a payload of at most \<open>ICMP_MAX_DATA\<close> bytes and buffers that hold the header and the payload, the request
  is built and passes the check, its reply is built and passes the check, and parsing the reply gives an echo reply with the
  identifier, the sequence number and the payload that were sent.
\<close>

theorem icmp_ping_round_trip:
  assumes "length payload \<le> ICMP_MAX_DATA" and "ICMP_HEADER_SIZE + length payload \<le> cap"
  shows "\<exists>request reply ck. icmp_echo_build identifier seq_num payload cap = Inr request \<and> icmp_checksum_verify request \<and>
    icmp_echo_reply request cap = Inr reply \<and> icmp_checksum_verify reply \<and>
    icmp_echo_parse reply = Inr \<lparr>ie_type = ICMP_TYPE_ECHO_REPLY, ie_code = 0, ie_checksum = ck, ie_identifier = identifier,
      ie_sequence_number = seq_num, ie_data = payload\<rparr>"
proof -
  define tail where "tail = [ucast (drop_bit 8 identifier AND 0xFF), ucast (identifier AND 0xFF),
    ucast (drop_bit 8 seq_num AND 0xFF), ucast (seq_num AND 0xFF)] @ payload"
  let ?q = "[ICMP_TYPE_ECHO_REQUEST, 0, 0, 0] @ tail" and ?r = "[ICMP_TYPE_ECHO_REPLY, 0, 0, 0] @ tail"
  have small: "length payload \<le> 2 ^ 14" using assms(1) by simp
  have build: "icmp_echo_build identifier seq_num payload cap = Inr (icmp_seal ?q)"
    using assms by (simp add: icmp_echo_build_def tail_def)
  have ok: "icmp_checksum_verify (icmp_seal ?q)" "icmp_checksum_verify (icmp_seal ?r)"
    using icmp_seal_verifies [OF small] by (simp_all add: tail_def)
  have "icmp_echo_reply (icmp_seal ?q) cap = Inr (icmp_seal ?r)"
    using assms(2) by (simp add: icmp_echo_reply_def tail_def) (simp add: icmp_seal_def Let_def)
  moreover have "icmp_echo_parse (icmp_seal ?r) = Inr \<lparr>ie_type = ICMP_TYPE_ECHO_REPLY, ie_code = 0, ie_checksum = icmp_checksum ?r,
      ie_identifier = identifier, ie_sequence_number = seq_num, ie_data = payload\<rparr>"
    using assms(1) be16_bytes [of "identifier"] be16_bytes [of "seq_num"] be16_bytes [of "icmp_checksum ?r"]
    by (simp add: icmp_echo_parse_def tail_def) (simp add: icmp_seal_def Let_def)
  ultimately show ?thesis using build ok by blast
qed

theorem icmp_ping_round_trip_witness:
  "\<exists>request reply ck. icmp_echo_build 0x1234 7 [104, 105] 64 = Inr request \<and> icmp_checksum_verify request \<and>
    icmp_echo_reply request 64 = Inr reply \<and> icmp_checksum_verify reply \<and>
    icmp_echo_parse reply = Inr \<lparr>ie_type = 0, ie_code = 0, ie_checksum = ck, ie_identifier = 0x1234, ie_sequence_number = 7, ie_data = [104, 105]\<rparr>"
  using icmp_ping_round_trip [of "[104, 105]" 64 "0x1234" 7] by simp

text \<open>
  Damage to one aligned 16-bit word of a packet that passes the check is detected, unless the word changes between 0 and
  65535, which are the same number modulo 65535.
\<close>

theorem icmp_word_damage_detected:
  assumes "icmp_checksum_verify (xs @ [a, b] @ ys)" and "even (length xs)" and "length (xs @ [a, b] @ ys) \<le> 2 ^ 14"
    and "(256 * unat a + unat b) mod 65535 \<noteq> (256 * unat c + unat d) mod 65535"
  shows "\<not> icmp_checksum_verify (xs @ [c, d] @ ys)"
proof
  assume bad: "icmp_checksum_verify (xs @ [c, d] @ ys)"
  have sum: "word_sum (xs @ [u, v] @ ys) = word_sum xs + word_sum ys + (256 * unat u + unat v)" for u v
    using assms(2) by (simp add: word_sum_append)
  have bound: "word_sum (xs @ [u, v] @ ys) < 2 ^ 32" for u v
    using word_sum_bound [of "xs @ [u, v] @ ys"] assms(3) by simp
  have "word_sum (xs @ [a, b] @ ys) mod 65535 = 0" "word_sum (xs @ [c, d] @ ys) mod 65535 = 0"
    using assms(1) bad icmp_checksum_zero [OF bound] unfolding icmp_checksum_verify_def by blast+
  then have "(word_sum xs + word_sum ys + (256 * unat a + unat b)) mod 65535 = (word_sum xs + word_sum ys + (256 * unat c + unat d)) mod 65535"
    unfolding sum by simp
  then have "(256 * unat a + unat b) mod 65535 = (256 * unat c + unat d) mod 65535"
    by (simp only: nat_mod_eq_iff add.assoc add_left_cancel)
  then show False using assms(4) by blast
qed

theorem icmp_word_damage_detected_witness:
  "icmp_checksum_verify ([0, 0] @ [0xFF, 0xFF] @ [0, 0, 0, 0]) \<and> \<not> icmp_checksum_verify ([0, 0] @ [0xFF, 0xFE] @ [0, 0, 0, 0])"
proof -
  have ok: "icmp_checksum_verify ([0, 0] @ [0xFF, 0xFF] @ [0, 0, 0, 0])"
    using icmp_checksum_zero [of "[0, 0] @ [0xFF, 0xFF] @ [0, 0, 0, 0]"] by (simp add: icmp_checksum_verify_def)
  then show ?thesis using icmp_word_damage_detected [of "[0, 0]" "0xFF" "0xFF" "[0, 0, 0, 0]" "0xFF" "0xFE"] by simp
qed

text \<open>Error messages pass the check as well and carry at most 68 bytes of the datagram they report.\<close>

lemma icmp_error_packets:
  assumes "icmp_time_exceeded_build code original cap = Inr packet \<or> icmp_dest_unreachable_build code original cap = Inr packet"
  shows "icmp_checksum_verify packet \<and> packet ! 1 = code \<and> drop ICMP_HEADER_SIZE packet = take 68 original"
proof -
  obtain t where p: "packet = icmp_seal ([t, code, 0, 0, 0, 0, 0, 0] @ take 68 original)"
    using assms by (auto simp: icmp_time_exceeded_build_def icmp_dest_unreachable_build_def icmp_error_packet_def Let_def split: if_splits)
  have "length (take 68 original) \<le> 2 ^ 14" by simp
  from icmp_seal_verifies [OF this] show ?thesis by (simp add: p) (simp add: icmp_seal_def Let_def)
qed

end
