(* ===== verification/Isolation.thy ===== *)
theory Isolation
  imports Net_Prelude
begin

text \<open>
  Isolation levels and checks of schedules (\<open>mini-dist-transaction/src/isolation_levels.c\<close>): the strength of a level, the
  anomalies it allows, detection of a cycle in the conflict graph by depth-first search over a compressed adjacency array,
  write skew, two-phase locking, and the version that a snapshot sees.

  A transaction identifier and a timestamp are 64-bit words. A cell of the adjacency array that has not been written is
  \<open>None\<close>; reading it makes the search \<open>None\<close>. Allocations succeed. Null arguments are left out.
\<close>

section \<open>Levels and anomalies\<close>

datatype isolation_level = ISO_READ_UNCOMMITTED | ISO_READ_COMMITTED | ISO_REPEATABLE_READ | ISO_SERIALIZABLE

record txn_context =
  tc_txn_id :: "64 word"
  tc_start_ts :: "64 word"
  tc_commit_ts :: "64 word"
  tc_level :: isolation_level
  tc_is_read_only :: bool

definition txn_init :: "64 word \<Rightarrow> isolation_level \<Rightarrow> txn_context" where
  "txn_init txn_id level = \<lparr>tc_txn_id = txn_id, tc_start_ts = 0, tc_commit_ts = 0, tc_level = level, tc_is_read_only = False\<rparr>"

fun iso_strength :: "isolation_level \<Rightarrow> nat" where
  "iso_strength ISO_READ_UNCOMMITTED = 0"
| "iso_strength ISO_READ_COMMITTED = 1"
| "iso_strength ISO_REPEATABLE_READ = 2"
| "iso_strength ISO_SERIALIZABLE = 3"

definition iso_at_least :: "isolation_level \<Rightarrow> isolation_level \<Rightarrow> bool" where
  "iso_at_least actual required \<longleftrightarrow> iso_strength actual \<ge> iso_strength required"

abbreviation ANOMALY_DIRTY_READ :: "32 word" where "ANOMALY_DIRTY_READ \<equiv> 1"
abbreviation ANOMALY_NONREPEATABLE :: "32 word" where "ANOMALY_NONREPEATABLE \<equiv> 2"
abbreviation ANOMALY_PHANTOM :: "32 word" where "ANOMALY_PHANTOM \<equiv> 4"
abbreviation ANOMALY_WRITE_SKEW :: "32 word" where "ANOMALY_WRITE_SKEW \<equiv> 8"
abbreviation ANOMALY_LOST_UPDATE :: "32 word" where "ANOMALY_LOST_UPDATE \<equiv> 16"

unbundle bit_operations_syntax

fun iso_possible_anomalies :: "isolation_level \<Rightarrow> 32 word" where
  "iso_possible_anomalies ISO_READ_UNCOMMITTED =
     ANOMALY_DIRTY_READ OR ANOMALY_NONREPEATABLE OR ANOMALY_PHANTOM OR ANOMALY_WRITE_SKEW OR ANOMALY_LOST_UPDATE"
| "iso_possible_anomalies ISO_READ_COMMITTED =
     ANOMALY_NONREPEATABLE OR ANOMALY_PHANTOM OR ANOMALY_WRITE_SKEW OR ANOMALY_LOST_UPDATE"
| "iso_possible_anomalies ISO_REPEATABLE_READ = ANOMALY_PHANTOM OR ANOMALY_WRITE_SKEW"
| "iso_possible_anomalies ISO_SERIALIZABLE = 0"

section \<open>The conflict graph and its search\<close>

record conflict_edge =
  ce_from_txn :: "64 word"
  ce_to_txn :: "64 word"
  ce_item :: string
  ce_is_read_write :: bool

record csr_graph =
  g_adj :: "nat option list"
  g_offsets :: "nat list"
  g_num_nodes :: nat
  g_cap :: nat

definition edge_range :: "csr_graph \<Rightarrow> nat \<Rightarrow> nat list" where
  "edge_range g node =
     [g_offsets g ! node ..< (if node + 1 < g_num_nodes g then g_offsets g ! (node + 1) else g_cap g)]"

function dfs_edges :: "csr_graph \<Rightarrow> nat \<Rightarrow> nat list \<Rightarrow> bool list \<Rightarrow> bool list \<Rightarrow> (bool \<times> bool list \<times> bool list) option" where
  "dfs_edges g node [] visited on_stack = Some (False, visited, on_stack[node := False])"
| "dfs_edges g node (e # es) visited on_stack =
     (case (if e < length (g_adj g) then g_adj g ! e else None) of
        None \<Rightarrow> None
      | Some neighbor \<Rightarrow>
          if neighbor \<ge> length visited then None
          else if \<not> visited ! neighbor then
            (case dfs_edges g neighbor (edge_range g neighbor) (visited[neighbor := True]) (on_stack[neighbor := True]) of
               None \<Rightarrow> None
             | Some (found, visited', on_stack') \<Rightarrow>
                 if found then Some (True, visited', on_stack') else dfs_edges g node es visited' on_stack')
          else if on_stack ! neighbor then Some (True, visited, on_stack)
          else dfs_edges g node es visited on_stack)"
  by pat_completeness auto

abbreviation unvisited :: "bool list \<Rightarrow> nat" where
  "unvisited visited \<equiv> length (filter Not visited)"

lemma unvisited_mark: "\<not> length vs \<le> n \<Longrightarrow> \<not> vs ! n \<Longrightarrow> unvisited (vs[n := True]) < unvisited vs"
proof (induction vs arbitrary: n)
  case (Cons v vs)
  then show ?case by (cases n) auto
qed simp

text \<open>A visit never clears a mark; the nested call of the search terminates because of this.\<close>

lemma dfs_edges_unvisited:
  "dfs_edges_dom (g, node, es, vs, st) \<Longrightarrow> dfs_edges g node es vs st = Some (r, vs', st') \<Longrightarrow> unvisited vs' \<le> unvisited vs"
proof (induction arbitrary: r vs' st' rule: dfs_edges.pinduct)
  case (1 g node visited on_stack)
  then show ?case by (simp add: dfs_edges.psimps)
next
  case (2 g node e es visited on_stack)
  obtain n where n: "(if e < length (g_adj g) then g_adj g ! e else None) = Some n" "\<not> length visited \<le> n"
    using "2.prems" by (auto simp: dfs_edges.psimps(2) [OF "2.hyps"] split: option.splits if_splits)
  show ?case
  proof (cases "visited ! n")
    case True
    then show ?thesis using "2.prems" n "2.IH"(3) [OF n]
      by (auto simp: dfs_edges.psimps(2) [OF "2.hyps"] split: if_splits)
  next
    case False
    then obtain found vs1 st1 where inner:
        "dfs_edges g n (edge_range g n) (visited[n := True]) (on_stack[n := True]) = Some (found, vs1, st1)"
      using "2.prems" n by (auto simp: dfs_edges.psimps(2) [OF "2.hyps"] split: option.splits if_splits)
    then have "unvisited vs1 \<le> unvisited visited"
      using "2.IH"(1) [OF n False inner] unvisited_mark [OF n(2) False] by simp
    moreover have "unvisited vs' \<le> unvisited vs1"
      using "2.prems" n False inner "2.IH"(2) [OF n False inner refl refl]
      by (auto simp: dfs_edges.psimps(2) [OF "2.hyps"] split: if_splits)
    ultimately show ?thesis by simp
  qed
qed

termination dfs_edges
proof (relation "inv_image (less_than <*lex*> less_than) (\<lambda>(g, node, es, vs, st). (unvisited vs, length es))", goal_cases)
  case 3
  then show ?case by (auto dest!: dfs_edges_unvisited unvisited_mark)
qed (auto dest: unvisited_mark)

definition dfs_cycle :: "csr_graph \<Rightarrow> nat \<Rightarrow> bool list \<Rightarrow> bool list \<Rightarrow> (bool \<times> bool list \<times> bool list) option" where
  "dfs_cycle g node visited on_stack =
     dfs_edges g node (edge_range g node) (visited[node := True]) (on_stack[node := True])"

abbreviation txn_index :: "64 word list \<Rightarrow> 64 word \<Rightarrow> nat option" where
  "txn_index txns t \<equiv> find_index (\<lambda>x. x = t) txns"

definition count_degree :: "64 word list \<Rightarrow> conflict_edge \<Rightarrow> nat list \<Rightarrow> nat list" where
  "count_degree txns e degrees = (case txn_index txns (ce_from_txn e) of None \<Rightarrow> degrees | Some j \<Rightarrow> degrees[j := degrees ! j + 1])"

fun prefix_offsets :: "nat \<Rightarrow> nat list \<Rightarrow> nat list" where
  "prefix_offsets acc [] = [acc]"
| "prefix_offsets acc (d # ds) = acc # prefix_offsets (acc + d) ds"

definition fill_edge :: "64 word list \<Rightarrow> nat list \<Rightarrow> conflict_edge \<Rightarrow> nat option list \<times> nat list \<Rightarrow> nat option list \<times> nat list" where
  "fill_edge txns offsets e = (\<lambda>(adj, degrees).
     case txn_index txns (ce_from_txn e) of
       None \<Rightarrow> (adj, degrees)
     | Some j \<Rightarrow> (case txn_index txns (ce_to_txn e) of
         None \<Rightarrow> (adj, degrees)
       | Some k \<Rightarrow> (adj[offsets ! j + degrees ! j := Some k], degrees[j := degrees ! j + 1])))"

definition ser_build_graph :: "conflict_edge list \<Rightarrow> 64 word list \<Rightarrow> csr_graph" where
  "ser_build_graph edges txns =
     (let degrees = fold (count_degree txns) edges (replicate (length txns) 0);
          total_edges = sum_list degrees;
          offsets = prefix_offsets 0 degrees;
          (adj, _) = fold (fill_edge txns offsets) edges (replicate total_edges None, replicate (length txns) 0)
      in \<lparr>g_adj = adj, g_offsets = offsets, g_num_nodes = length txns, g_cap = total_edges\<rparr>)"

fun ser_search :: "csr_graph \<Rightarrow> nat list \<Rightarrow> bool list \<Rightarrow> bool list \<Rightarrow> bool option" where
  "ser_search g [] visited on_stack = Some False"
| "ser_search g (i # is) visited on_stack =
     (if visited ! i then ser_search g is visited on_stack
      else (case dfs_cycle g i visited on_stack of
              None \<Rightarrow> None
            | Some (has_cycle, visited, on_stack) \<Rightarrow> if has_cycle then Some True else ser_search g is visited on_stack))"

definition ser_detect_cycle :: "conflict_edge list \<Rightarrow> 64 word list \<Rightarrow> bool option" where
  "ser_detect_cycle edges txns =
     (if edges = [] \<or> txns = [] then Some False
      else ser_search (ser_build_graph edges txns) [0..<length txns] (replicate (length txns) False) (replicate (length txns) False))"

section \<open>Checks of schedules\<close>

definition write_skew_step :: "64 word \<Rightarrow> 64 word \<Rightarrow> conflict_edge \<Rightarrow> bool \<times> bool \<Rightarrow> bool \<times> bool" where
  "write_skew_step txn_a txn_b e = (\<lambda>(a_reads_b_writes, b_reads_a_writes).
     if ce_is_read_write e
     then (if ce_from_txn e = txn_a \<and> ce_to_txn e = txn_b then True else a_reads_b_writes,
           if ce_from_txn e = txn_b \<and> ce_to_txn e = txn_a then True else b_reads_a_writes)
     else (a_reads_b_writes, b_reads_a_writes))"

definition si_detect_write_skew :: "conflict_edge list \<Rightarrow> 64 word \<Rightarrow> 64 word \<Rightarrow> bool" where
  "si_detect_write_skew edges txn_a txn_b \<longleftrightarrow>
     (if length edges < 2 then False
      else let (a_reads_b_writes, b_reads_a_writes) = fold (write_skew_step txn_a txn_b) edges (False, False)
           in a_reads_b_writes \<and> b_reads_a_writes)"

datatype lock_mode_iso = LOCK_SHARED | LOCK_EXCLUSIVE | LOCK_NONE

record lock_request =
  lr_txn_id :: "64 word"
  lr_item :: string
  lr_mode :: lock_mode_iso

text \<open>The second half of the function computes a flag that it discards; the answer is that of the first half.\<close>

fun s2pl_no_relock :: "lock_request list \<Rightarrow> bool" where
  "s2pl_no_relock [] \<longleftrightarrow> True"
| "s2pl_no_relock (l # ls) \<longleftrightarrow>
     \<not> list_ex (\<lambda>l'. lr_txn_id l = lr_txn_id l' \<and> lr_mode l = LOCK_NONE \<and> lr_mode l' \<noteq> LOCK_NONE) ls \<and> s2pl_no_relock ls"

fun s2pl_found_commit :: "64 word list \<Rightarrow> lock_request list \<Rightarrow> bool list" where
  "s2pl_found_commit txn_commit_order [] = []"
| "s2pl_found_commit txn_commit_order (l # ls) =
     (if lr_mode l = LOCK_EXCLUSIVE
      then [list_ex (\<lambda>l'. lr_txn_id l' = lr_txn_id l \<and> lr_mode l' = LOCK_NONE) ls \<or> List.member txn_commit_order (lr_txn_id l)]
      else []) @ s2pl_found_commit txn_commit_order ls"

definition s2pl_is_valid_schedule :: "lock_request list \<Rightarrow> 64 word list \<Rightarrow> bool" where
  "s2pl_is_valid_schedule locks txn_commit_order \<longleftrightarrow>
     (if \<not> s2pl_no_relock locks then False else let found_commit = s2pl_found_commit txn_commit_order locks in True)"

definition mvcc_visible_version_iso :: "64 word \<Rightarrow> 64 word \<Rightarrow> (64 word \<times> 64 word \<times> 64 word) list \<Rightarrow> 64 word" where
  "mvcc_visible_version_iso txn_start_ts txn_id versions =
     snd (fold (\<lambda>(version, v_txn_id, v_commit_ts) (best_ts, best_version).
       if v_txn_id \<noteq> txn_id \<and> v_commit_ts \<le> txn_start_ts \<and> v_commit_ts > best_ts then (v_commit_ts, version)
       else (best_ts, best_version)) versions (0, 0))"

section \<open>Depth-first search finds the cycles\<close>

text \<open>The marked indices of an array of flags.\<close>

definition marked :: "bool list \<Rightarrow> nat set" where
  "marked bs = {i. i < length bs \<and> bs ! i}"

lemma marked_update:
  "i < length bs \<Longrightarrow> marked (bs[i := True]) = insert i (marked bs)"
  "i < length bs \<Longrightarrow> marked (bs[i := False]) = marked bs - {i}"
  by (auto simp: marked_def nth_list_update)

lemma in_marked: "i < length bs \<Longrightarrow> i \<in> marked bs \<longleftrightarrow> bs ! i"
  by (simp add: marked_def)

text \<open>
  What the search relies on: the rows of the array are the successor lists of a relation on the node indices.
\<close>

locale adjacency =
  fixes g :: csr_graph and E :: "(nat \<times> nat) set" and n :: nat
  assumes row_defined: "i < n \<Longrightarrow> e \<in> set (edge_range g i) \<Longrightarrow> e < length (g_adj g) \<and> (\<exists>k < n. g_adj g ! e = Some k)"
    and row_edges: "i < n \<Longrightarrow> (i, k) \<in> E \<longleftrightarrow> (\<exists>e \<in> set (edge_range g i). g_adj g ! e = Some k)"
    and edges_from: "(i, k) \<in> E \<Longrightarrow> i < n"
begin

text \<open>Finished nodes are closed under successors and lie on no cycle.\<close>

definition finished_ok :: "nat set \<Rightarrow> bool" where
  "finished_ok F \<longleftrightarrow> E `` F \<subseteq> F \<and> (\<forall>x \<in> F. (x, x) \<notin> E\<^sup>+)"

lemma finished_reach: "finished_ok F \<Longrightarrow> x \<in> F \<Longrightarrow> (x, y) \<in> E\<^sup>* \<Longrightarrow> y \<in> F"
  by (rotate_tac 2, induction rule: rtrancl_induct) (auto simp: finished_ok_def)

lemma finished_insert:
  assumes "finished_ok F" and "E `` {x} \<subseteq> F" and "x \<notin> F"
  shows "finished_ok (insert x F)"
proof -
  have "(x, x) \<notin> E\<^sup>+"
  proof
    assume "(x, x) \<in> E\<^sup>+"
    then obtain y where "(x, y) \<in> E" "(y, x) \<in> E\<^sup>*" by (auto dest: tranclD)
    then show False using finished_reach [OF assms(1), of y x] assms(2,3) by auto
  qed
  then show ?thesis using assms by (auto simp: finished_ok_def)
qed

definition dfs_pre :: "nat \<Rightarrow> nat list \<Rightarrow> bool list \<Rightarrow> bool list \<Rightarrow> bool" where
  "dfs_pre node es vs st \<longleftrightarrow> length vs = n \<and> length st = n \<and> node \<in> marked st \<and> marked st \<subseteq> marked vs \<and>
     (\<forall>s \<in> marked st. (s, node) \<in> E\<^sup>*) \<and> finished_ok (marked vs - marked st) \<and> set es \<subseteq> set (edge_range g node) \<and>
     (\<forall>e \<in> set (edge_range g node) - set es. \<forall>k. g_adj g ! e = Some k \<longrightarrow> k \<in> marked vs - marked st)"

definition dfs_post :: "nat \<Rightarrow> bool list \<Rightarrow> bool list \<Rightarrow> bool \<Rightarrow> bool list \<Rightarrow> bool list \<Rightarrow> bool" where
  "dfs_post node vs st found vs' st' \<longleftrightarrow>
     (if found then \<not> acyclic E
      else length vs' = n \<and> length st' = n \<and> marked vs \<subseteq> marked vs' \<and> marked st' = marked st - {node} \<and> node \<in> marked vs' \<and>
        finished_ok (marked vs' - marked st'))"

lemma dfs_pre_step:
  assumes "dfs_pre node (e # es) vs st" and "g_adj g ! e = Some k" and "marked vs \<subseteq> marked vs'" and "length vs' = n"
    and "k \<in> marked vs' - marked st" and "finished_ok (marked vs' - marked st)"
  shows "dfs_pre node es vs' st"
proof -
  have "k' \<in> marked vs' - marked st" if "e' \<in> set (edge_range g node) - set es" "g_adj g ! e' = Some k'" for e' k'
    using that assms by (cases "e' = e") (auto simp: dfs_pre_def)
  then show ?thesis using assms by (auto simp: dfs_pre_def)
qed

lemma dfs_pre_enter:
  assumes "k < n" and "length vs = n" and "length st = n" and "k \<notin> marked vs" and "marked st \<subseteq> marked vs"
    and "\<forall>s \<in> marked st. (s, k) \<in> E\<^sup>*" and "finished_ok (marked vs - marked st)"
  shows "dfs_pre k (edge_range g k) (vs[k := True]) (st[k := True])"
proof -
  have "insert k (marked vs) - insert k (marked st) = marked vs - marked st" using assms by auto
  then show ?thesis using assms by (auto simp: dfs_pre_def marked_update)
qed

lemma dfs_edges_correct:
  "g' = g \<Longrightarrow> dfs_pre node es vs st \<Longrightarrow> \<exists>found vs' st'. dfs_edges g' node es vs st = Some (found, vs', st') \<and> dfs_post node vs st found vs' st'"
proof (induction g' node es vs st rule: dfs_edges.induct)
  case (1 g' node vs st)
  have pre: "length st = n" "node < n" "node \<in> marked vs" "node \<in> marked st" "marked st \<subseteq> marked vs" "finished_ok (marked vs - marked st)"
    using "1.prems" by (auto simp: dfs_pre_def marked_def)
  have "E `` {node} \<subseteq> marked vs - marked st"
    using "1.prems" row_edges [OF pre(2)] by (auto simp: dfs_pre_def)
  then have "finished_ok (insert node (marked vs - marked st))"
    using finished_insert [OF pre(6)] pre(4) by blast
  moreover have "insert node (marked vs - marked st) = marked vs - (marked st - {node})" using pre by auto
  ultimately show ?case using "1.prems" pre by (auto simp: dfs_post_def dfs_pre_def marked_update)
next
  case (2 g' node e es vs st)
  have pre: "length vs = n" "length st = n" "node < n" "marked st \<subseteq> marked vs" "finished_ok (marked vs - marked st)"
      "\<forall>s \<in> marked st. (s, node) \<in> E\<^sup>*" "e \<in> set (edge_range g node)"
    using "2.prems" by (auto simp: dfs_pre_def marked_def)
  obtain k where k: "e < length (g_adj g)" "g_adj g ! e = Some k" "k < n"
    using row_defined [OF pre(3) pre(7)] by blast
  have edge: "(node, k) \<in> E" using row_edges [OF pre(3)] pre(7) k(2) by blast
  have defined: "(if e < length (g_adj g') then g_adj g' ! e else None) = Some k" "\<not> length vs \<le> k"
    using k pre "2.prems"(1) by simp_all
  show ?case
  proof (cases "k \<in> marked vs")
    case False
    then have fresh: "\<not> vs ! k" using k pre by (simp add: in_marked)
    have "\<forall>s \<in> marked st. (s, k) \<in> E\<^sup>*" using pre(6) edge by (meson rtrancl.rtrancl_into_rtrancl)
    then have "dfs_pre k (edge_range g k) (vs[k := True]) (st[k := True])"
      using k pre False by (intro dfs_pre_enter) auto
    then obtain found vs1 st1 where inner: "dfs_edges g' k (edge_range g' k) (vs[k := True]) (st[k := True]) = Some (found, vs1, st1)"
        and post: "dfs_post k (vs[k := True]) (st[k := True]) found vs1 st1"
      using "2.IH"(1) [OF defined fresh "2.prems"(1)] "2.prems"(1) by auto
    show ?thesis
    proof (cases found)
      case True
      then show ?thesis using inner post fresh defined by (auto simp: dfs_post_def)
    next
      case not_found: False
      have "k \<notin> marked st" using False pre(4) by blast
      then have st1: "marked st1 = marked st" "length st1 = n" "length vs1 = n" "marked vs \<subseteq> marked vs1" "k \<in> marked vs1"
          "finished_ok (marked vs1 - marked st)"
        using post not_found k pre by (auto simp: dfs_post_def marked_update)
      then have "dfs_pre node es vs1 st1"
        using dfs_pre_step [OF "2.prems"(2) k(2), of vs1] \<open>k \<notin> marked st\<close> by (auto simp: dfs_pre_def)
      then obtain found' vs' st' where rest: "dfs_edges g' node es vs1 st1 = Some (found', vs', st')" "dfs_post node vs1 st1 found' vs' st'"
        using "2.IH"(2) [OF defined fresh inner refl refl] not_found "2.prems"(1) by auto
      have "dfs_post node vs st found' vs' st'"
        using rest(2) st1(1) subset_trans [OF st1(4), of "marked vs'"] by (auto simp: dfs_post_def split: if_splits)
      then show ?thesis using rest(1) inner not_found fresh defined by simp
    qed
  next
    case True
    then have seen: "vs ! k" using k pre by (simp add: in_marked)
    show ?thesis
    proof (cases "k \<in> marked st")
      case True
      then have "(k, node) \<in> E\<^sup>*" using pre(6) by blast
      then have "\<not> acyclic E" using edge by (auto simp: acyclic_def dest: rtrancl_into_trancl1)
      then show ?thesis using True seen defined k pre by (auto simp: dfs_post_def in_marked)
    next
      case False
      then have "\<not> st ! k" using k pre by (simp add: in_marked)
      moreover have "dfs_pre node es vs st"
        using dfs_pre_step [OF "2.prems"(2) k(2), of vs] True False pre by auto
      ultimately show ?thesis using "2.IH"(3) [OF defined] seen "2.prems"(1) defined k by auto
    qed
  qed
qed

lemma dfs_cycle_correct:
  assumes "k < n" and "length vs = n" and "marked st = {}" and "length st = n" and "k \<notin> marked vs" and "finished_ok (marked vs)"
  shows "\<exists>found vs' st'. dfs_cycle g k vs st = Some (found, vs', st') \<and>
    (if found then \<not> acyclic E
     else length vs' = n \<and> length st' = n \<and> marked vs \<subseteq> marked vs' \<and> marked st' = {} \<and> k \<in> marked vs' \<and> finished_ok (marked vs'))"
proof -
  have "dfs_pre k (edge_range g k) (vs[k := True]) (st[k := True])" using assms by (intro dfs_pre_enter) auto
  from dfs_edges_correct [OF refl this] obtain found vs' st' where
      dfs: "dfs_cycle g k vs st = Some (found, vs', st')" and post: "dfs_post k (vs[k := True]) (st[k := True]) found vs' st'"
    by (auto simp: dfs_cycle_def)
  have "if found then \<not> acyclic E
     else length vs' = n \<and> length st' = n \<and> marked vs \<subseteq> marked vs' \<and> marked st' = {} \<and> k \<in> marked vs' \<and> finished_ok (marked vs')"
    using post assms by (auto simp: dfs_post_def marked_update)
  then show ?thesis using dfs by blast
qed

lemma ser_search_correct:
  assumes "set is \<subseteq> {..<n}" and "{..<n} \<subseteq> marked vs \<union> set is" and "length vs = n" and "length st = n" and "marked st = {}"
    and "finished_ok (marked vs)"
  shows "ser_search g is vs st = Some (\<not> acyclic E)"
  using assms
proof (induction "is" arbitrary: vs st)
  case Nil
  have "(x, x) \<notin> E\<^sup>+" for x
  proof
    assume cyc: "(x, x) \<in> E\<^sup>+"
    then obtain y where "(x, y) \<in> E" by (auto dest: tranclD)
    then have "x \<in> marked vs" using edges_from Nil by auto
    then show False using cyc Nil by (auto simp: finished_ok_def)
  qed
  then show ?case by (simp add: acyclic_def)
next
  case (Cons i "is")
  show ?case
  proof (cases "vs ! i")
    case True
    then have "ser_search g is vs st = Some (\<not> acyclic E)"
      using Cons.prems by (intro Cons.IH) (auto simp: in_marked subset_iff)
    then show ?thesis using True by simp
  next
    case False
    obtain found vs' st' where dfs: "dfs_cycle g i vs st = Some (found, vs', st')"
        and post: "if found then \<not> acyclic E
          else length vs' = n \<and> length st' = n \<and> marked vs \<subseteq> marked vs' \<and> marked st' = {} \<and> i \<in> marked vs' \<and> finished_ok (marked vs')"
      using dfs_cycle_correct [of i vs st] Cons.prems False by (auto simp: in_marked)
    show ?thesis
    proof (cases found)
      case not_found: False
      then have "ser_search g is vs' st' = Some (\<not> acyclic E)" using Cons.prems post by (intro Cons.IH) auto
      then show ?thesis using dfs False not_found by simp
    qed (use dfs post False in simp)
  qed
qed

lemma ser_search_all: "ser_search g [0..<n] (replicate n False) (replicate n False) = Some (\<not> acyclic E)"
  by (rule ser_search_correct) (auto simp: marked_def finished_ok_def)

end

section \<open>The array holds the conflict graph\<close>

definition targets :: "64 word list \<Rightarrow> conflict_edge list \<Rightarrow> nat \<Rightarrow> nat list" where
  "targets txns es j = List.map_filter (\<lambda>e. if txn_index txns (ce_from_txn e) = Some j then txn_index txns (ce_to_txn e) else None) es"

lemma targets_simps [simp]:
  "targets txns [] j = []"
  "targets txns (es @ es') j = targets txns es j @ targets txns es' j"
  "targets txns [e] j = (if txn_index txns (ce_from_txn e) = Some j then case txn_index txns (ce_to_txn e) of None \<Rightarrow> [] | Some k \<Rightarrow> [k] else [])"
  by (simp_all add: targets_def map_filter_def split: option.splits)

lemma set_targets:
  "k \<in> set (targets txns es j) \<longleftrightarrow> (\<exists>e \<in> set es. txn_index txns (ce_from_txn e) = Some j \<and> txn_index txns (ce_to_txn e) = Some k)"
  by (force simp: targets_def map_filter_def)

lemma count_degree_fold:
  "length ds = length txns \<Longrightarrow> length (fold (count_degree txns) es ds) = length txns \<and>
    (\<forall>j < length txns. fold (count_degree txns) es ds ! j = ds ! j + length (filter (\<lambda>e. txn_index txns (ce_from_txn e) = Some j) es))"
proof (induction es arbitrary: ds)
  case (Cons e es)
  then show ?case
    by (cases "txn_index txns (ce_from_txn e)") (auto simp: count_degree_def nth_list_update dest: find_index_SomeD)
qed simp

lemma length_targets:
  "\<forall>e \<in> set es. txn_index txns (ce_from_txn e) = Some j \<longrightarrow> txn_index txns (ce_to_txn e) \<noteq> None \<Longrightarrow>
    length (targets txns es j) = length (filter (\<lambda>e. txn_index txns (ce_from_txn e) = Some j) es)"
  by (induction es) (auto simp: targets_def map_filter_simps split: option.splits)

lemma prefix_offsets_nth: "i \<le> length ds \<Longrightarrow> prefix_offsets a ds ! i = a + sum_list (take i ds)"
proof (induction ds arbitrary: a i)
  case (Cons d ds)
  then show ?case by (cases i) auto
qed simp

lemma sum_list_take_Suc: "j < length ds \<Longrightarrow> sum_list (take (Suc j) ds) = sum_list (take j ds) + (ds ! j :: nat)"
  by (simp add: take_Suc_conv_app_nth)

lemma sum_list_take_mono: "i \<le> j \<Longrightarrow> sum_list (take i ds) \<le> sum_list (take j (ds :: nat list))"
  by (metis append_take_drop_id le_add1 min.absorb1 sum_list_append take_take)

lemma rows_disjoint:
  assumes "j < length ds" and "j' < length ds" and "i < ds ! j" and "i' < ds ! j'" and "sum_list (take j ds) + i = sum_list (take j' ds) + (i' :: nat)"
  shows "j = j' \<and> i = i'"
proof -
  have "\<not> a < b" if "a < length ds" "b < length ds" "x < ds ! a" "sum_list (take a ds) + x = sum_list (take b ds) + y" for a b x y
    using that sum_list_take_mono [of "Suc a" b ds] sum_list_take_Suc [of a ds] by auto
  from this [OF assms(1,2,3,5)] this [OF assms(2,1,4) assms(5) [symmetric]] show ?thesis using assms(5) by auto
qed

lemma row_bound:
  assumes "j < length ds" and "i < ds ! j"
  shows "sum_list (take j ds) + i < sum_list (ds :: nat list)"
  using assms sum_list_take_mono [of "Suc j" "length ds" ds] sum_list_take_Suc [of j ds] by simp

definition filled :: "nat list \<Rightarrow> 64 word list \<Rightarrow> conflict_edge list \<Rightarrow> nat option list \<Rightarrow> nat list \<Rightarrow> bool" where
  "filled ds txns es adj deg \<longleftrightarrow> length adj = sum_list ds \<and> deg = map (\<lambda>j. length (targets txns es j)) [0..<length txns] \<and>
     (\<forall>j < length txns. \<forall>i < length (targets txns es j). adj ! (sum_list (take j ds) + i) = Some (targets txns es j ! i))"

lemma filled_step:
  assumes fl: "filled ds txns es adj deg" and len: "length ds = length txns"
    and bound: "\<forall>j < length txns. length (targets txns (es @ [e]) j) \<le> ds ! j"
  shows "case fill_edge txns (prefix_offsets 0 ds) e (adj, deg) of (adj', deg') \<Rightarrow> filled ds txns (es @ [e]) adj' deg'"
proof (cases "\<exists>j k. txn_index txns (ce_from_txn e) = Some j \<and> txn_index txns (ce_to_txn e) = Some k")
  case False
  then show ?thesis using fl by (auto simp: fill_edge_def filled_def split: option.splits cong: if_cong)
next
  case True
  then obtain j k where jk: "txn_index txns (ce_from_txn e) = Some j" "txn_index txns (ce_to_txn e) = Some k" by blast
  have j: "j < length txns" using find_index_SomeD(1) [OF jk(1)] .
  have room: "length (targets txns es j) < ds ! j" using bound j jk by auto
  let ?pos = "sum_list (take j ds) + length (targets txns es j)"
  have fill: "fill_edge txns (prefix_offsets 0 ds) e (adj, deg) = (adj[?pos := Some k], deg[j := length (targets txns es j) + 1])"
    using jk j fl len by (simp add: fill_edge_def filled_def prefix_offsets_nth)
  have tg: "targets txns (es @ [e]) j' = (if j' = j then targets txns es j @ [k] else targets txns es j')" for j'
    using jk by simp
  have "adj[?pos := Some k] ! (sum_list (take j' ds) + i) = Some (targets txns (es @ [e]) j' ! i)"
    if "j' < length txns" "i < length (targets txns (es @ [e]) j')" for j' i
  proof (cases "j' = j \<and> i = length (targets txns es j)")
    case True
    then show ?thesis using row_bound [of j ds "length (targets txns es j)"] room j len fl jk by (simp add: filled_def)
  next
    case False
    then have i: "i < length (targets txns es j')" using that(2) by (auto simp: tg less_Suc_eq simp del: targets_simps split: if_splits)
    moreover have "i < ds ! j'" using bound that by (meson less_le_trans)
    ultimately have "?pos \<noteq> sum_list (take j' ds) + i"
      using rows_disjoint [of j ds j' "length (targets txns es j)" i] False room j that(1) len by auto
    then show ?thesis using fl that(1) i by (simp add: filled_def nth_append)
  qed
  moreover have "deg[j := length (targets txns es j) + 1] = map (\<lambda>j. length (targets txns (es @ [e]) j)) [0..<length txns]"
    using fl j by (intro nth_equalityI) (auto simp: tg filled_def nth_list_update simp del: targets_simps)
  ultimately show ?thesis using fl unfolding fill filled_def by simp
qed

lemma filled_fold:
  assumes len: "length ds = length txns" and "\<forall>j < length txns. length (targets txns es j) \<le> ds ! j"
  shows "case fold (fill_edge txns (prefix_offsets 0 ds)) es (replicate (sum_list ds) None, replicate (length txns) 0) of
    (adj, deg) \<Rightarrow> filled ds txns es adj deg"
  using assms(2)
proof (induction es rule: rev_induct)
  case Nil
  then show ?case by (auto simp: filled_def intro!: nth_equalityI)
next
  case (snoc e es)
  have "\<forall>j < length txns. length (targets txns es j) \<le> ds ! j" using snoc.prems by (auto simp del: targets_simps(3))
  from snoc.IH [OF this] obtain adj deg where
      "fold (fill_edge txns (prefix_offsets 0 ds)) es (replicate (sum_list ds) None, replicate (length txns) 0) = (adj, deg)"
      "filled ds txns es adj deg"
    by (auto split: prod.splits)
  then show ?case using filled_step [OF _ len snoc.prems, of adj deg] by (simp del: targets_simps)
qed

text \<open>Every transaction that a listed transaction points to is listed.\<close>

definition txns_known :: "conflict_edge list \<Rightarrow> 64 word list \<Rightarrow> bool" where
  "txns_known edges txns \<longleftrightarrow> (\<forall>e \<in> set edges. ce_from_txn e \<in> set txns \<longrightarrow> ce_to_txn e \<in> set txns)"

definition conflict_graph :: "conflict_edge list \<Rightarrow> 64 word list \<Rightarrow> (64 word \<times> 64 word) set" where
  "conflict_graph edges txns = set (map (\<lambda>e. (ce_from_txn e, ce_to_txn e)) (filter (\<lambda>e. ce_from_txn e \<in> set txns) edges))"

definition index_graph :: "conflict_edge list \<Rightarrow> 64 word list \<Rightarrow> (nat \<times> nat) set" where
  "index_graph edges txns = {(j, k). k \<in> set (targets txns edges j)}"

lemma txn_index_Some: "txn_index txns t = Some j \<Longrightarrow> j < length txns \<and> txns ! j = t"
  using find_index_SomeD(1,2) [of "\<lambda>x. x = t" txns j] by simp

lemma txn_index_None: "txn_index txns t = None \<longleftrightarrow> t \<notin> set txns"
  by (auto simp: find_index_None_iff)

lemma txn_index_in: "txn_index txns t = Some j \<Longrightarrow> t \<in> set txns"
  using txn_index_None [of t txns] by auto

lemma txn_index_ex: "t \<in> set txns \<Longrightarrow> \<exists>j. txn_index txns t = Some j"
  using txn_index_None [of t txns] by auto

lemma conflict_graph_txns:
  "txns_known edges txns \<Longrightarrow> (s, t) \<in> conflict_graph edges txns \<Longrightarrow> s \<in> set txns \<and> t \<in> set txns"
  by (auto simp: conflict_graph_def txns_known_def)

lemma ser_build_graph_rows:
  assumes "txns_known edges txns"
  defines "g \<equiv> ser_build_graph edges txns"
  shows "j < length txns \<Longrightarrow> \<exists>a. edge_range g j = [a ..< a + length (targets txns edges j)] \<and> a + length (targets txns edges j) \<le> length (g_adj g) \<and>
    (\<forall>i < length (targets txns edges j). g_adj g ! (a + i) = Some (targets txns edges j ! i))"
proof -
  define ds where "ds = fold (count_degree txns) edges (replicate (length txns) 0)"
  have known: "\<forall>e \<in> set edges. txn_index txns (ce_from_txn e) = Some j \<longrightarrow> txn_index txns (ce_to_txn e) \<noteq> None" for j
  proof (intro ballI impI)
    fix e assume "e \<in> set edges" and ix: "txn_index txns (ce_from_txn e) = Some j"
    from ix have "ce_from_txn e \<in> set txns" by (rule txn_index_in)
    then show "txn_index txns (ce_to_txn e) \<noteq> None"
      using assms(1) \<open>e \<in> set edges\<close> by (simp add: txns_known_def txn_index_None)
  qed
  have ds: "length ds = length txns" "\<And>j. j < length txns \<Longrightarrow> ds ! j = length (targets txns edges j)"
    using count_degree_fold [of "replicate (length txns) 0" txns edges] length_targets [OF known] by (simp_all add: ds_def)
  obtain adj deg where fd: "fold (fill_edge txns (prefix_offsets 0 ds)) edges (replicate (sum_list ds) None, replicate (length txns) 0) = (adj, deg)"
    by fastforce
  then have fl: "filled ds txns edges adj deg" using filled_fold [of ds txns edges] ds by simp
  have g: "g = \<lparr>g_adj = adj, g_offsets = prefix_offsets 0 ds, g_num_nodes = length txns, g_cap = sum_list ds\<rparr>"
    using fd by (simp add: g_def ser_build_graph_def ds_def Let_def)
  assume j: "j < length txns"
  have "edge_range g j = [sum_list (take j ds) ..< sum_list (take j ds) + ds ! j]"
  proof (cases "j + 1 < length txns")
    case True
    then show ?thesis using j ds(1) by (simp add: edge_range_def g prefix_offsets_nth sum_list_take_Suc)
  next
    case False
    then have "sum_list ds = sum_list (take j ds) + ds ! j" using j ds(1) sum_list_take_Suc [of j ds] by simp
    then show ?thesis using False j ds(1) by (simp add: edge_range_def g prefix_offsets_nth)
  qed
  moreover have "sum_list (take j ds) + ds ! j \<le> length adj"
    using fl j ds(1) sum_list_take_mono [of "Suc j" "length ds" ds] sum_list_take_Suc [of j ds] by (simp add: filled_def)
  ultimately show ?thesis using fl j ds(2) [OF j] by (auto simp: g filled_def)
qed

lemma adjacency_build:
  assumes "txns_known edges txns"
  shows "adjacency (ser_build_graph edges txns) (index_graph edges txns) (length txns)"
proof
  fix i e assume "i < length txns" "e \<in> set (edge_range (ser_build_graph edges txns) i)"
  then obtain a x where "e = a + x" "x < length (targets txns edges i)" "a + length (targets txns edges i) \<le> length (g_adj (ser_build_graph edges txns))"
      "g_adj (ser_build_graph edges txns) ! e = Some (targets txns edges i ! x)"
    using ser_build_graph_rows [OF assms] by (metis atLeastLessThan_iff atLeastLessThan_upt le_iff_add nat_add_left_cancel_less)
  moreover from this have "targets txns edges i ! x < length txns"
    using nth_mem [of x "targets txns edges i"] by (auto simp: set_targets dest: txn_index_Some)
  ultimately show "e < length (g_adj (ser_build_graph edges txns)) \<and> (\<exists>k < length txns. g_adj (ser_build_graph edges txns) ! e = Some k)"
    by auto
next
  fix i k assume "i < length txns"
  from ser_build_graph_rows [OF assms this] obtain a where a: "edge_range (ser_build_graph edges txns) i = [a ..< a + length (targets txns edges i)]"
      "\<And>x. x < length (targets txns edges i) \<Longrightarrow> g_adj (ser_build_graph edges txns) ! (a + x) = Some (targets txns edges i ! x)"
    by blast
  have "(\<exists>e \<in> set (edge_range (ser_build_graph edges txns) i). g_adj (ser_build_graph edges txns) ! e = Some k) \<longleftrightarrow>
      (\<exists>x < length (targets txns edges i). g_adj (ser_build_graph edges txns) ! (a + x) = Some k)"
    unfolding a(1) set_upt image_add_atLeastLessThan' [of a 0, symmetric]
    by (force simp: nat_le_iff_add image_iff Bex_def)
  also have "\<dots> \<longleftrightarrow> k \<in> set (targets txns edges i)" by (auto simp: a(2) in_set_conv_nth)
  finally show "(i, k) \<in> index_graph edges txns \<longleftrightarrow>
      (\<exists>e \<in> set (edge_range (ser_build_graph edges txns) i). g_adj (ser_build_graph edges txns) ! e = Some k)"
    by (simp add: index_graph_def)
next
  fix i k assume "(i, k) \<in> index_graph edges txns"
  then show "i < length txns" by (auto simp: index_graph_def set_targets dest: txn_index_Some)
qed

text \<open>Indices and identifiers have the same cycles.\<close>

lemma index_graph_iff:
  "(j, k) \<in> index_graph edges txns \<longleftrightarrow> (\<exists>s t. (s, t) \<in> conflict_graph edges txns \<and> txn_index txns s = Some j \<and> txn_index txns t = Some k)"
  by (auto simp: index_graph_def set_targets conflict_graph_def dest: txn_index_in)

lemma index_trancl:
  "(j, k) \<in> (index_graph edges txns)\<^sup>+ \<Longrightarrow> \<exists>s t. (s, t) \<in> (conflict_graph edges txns)\<^sup>+ \<and> txn_index txns s = Some j \<and> txn_index txns t = Some k"
proof (induction rule: trancl_induct)
  case (base k)
  then show ?case using index_graph_iff by blast
next
  case (step k l)
  then obtain s t t' u where "(s, t) \<in> (conflict_graph edges txns)\<^sup>+" "txn_index txns s = Some j" "txn_index txns t = Some k"
      "(t', u) \<in> conflict_graph edges txns" "txn_index txns t' = Some k" "txn_index txns u = Some l"
    using index_graph_iff by blast
  moreover from this have "t = t'" using txn_index_Some by metis
  ultimately show ?case by (meson trancl.trancl_into_trancl)
qed

lemma trancl_index:
  assumes "txns_known edges txns"
  shows "(s, t) \<in> (conflict_graph edges txns)\<^sup>+ \<Longrightarrow> \<exists>j k. (j, k) \<in> (index_graph edges txns)\<^sup>+ \<and> txn_index txns s = Some j \<and> txn_index txns t = Some k"
proof (induction rule: trancl_induct)
  case (base t)
  then obtain j k where "txn_index txns s = Some j" "txn_index txns t = Some k"
    using conflict_graph_txns [OF assms] txn_index_ex by meson
  then show ?case using base index_graph_iff [of j k] by blast
next
  case (step t u)
  then obtain j k where jk: "(j, k) \<in> (index_graph edges txns)\<^sup>+" "txn_index txns s = Some j" "txn_index txns t = Some k" by blast
  obtain l where "txn_index txns u = Some l"
    using conflict_graph_txns [OF assms step.hyps(2)] txn_index_ex by meson
  moreover from this have "(k, l) \<in> index_graph edges txns" using index_graph_iff step.hyps jk by blast
  ultimately show ?case using jk by (meson trancl.trancl_into_trancl)
qed

lemma acyclic_index_graph:
  assumes "txns_known edges txns"
  shows "acyclic (index_graph edges txns) \<longleftrightarrow> acyclic (conflict_graph edges txns)"
proof -
  have "\<exists>s. (s, s) \<in> (conflict_graph edges txns)\<^sup>+" if cyc: "(j, j) \<in> (index_graph edges txns)\<^sup>+" for j
  proof -
    obtain s t where "(s, t) \<in> (conflict_graph edges txns)\<^sup>+" "txn_index txns s = Some j" "txn_index txns t = Some j"
      using index_trancl [OF cyc] by blast
    then show ?thesis using txn_index_Some by metis
  qed
  moreover have "\<exists>j. (j, j) \<in> (index_graph edges txns)\<^sup>+" if "(s, s) \<in> (conflict_graph edges txns)\<^sup>+" for s
    using trancl_index [OF assms that] by auto
  ultimately show ?thesis unfolding acyclic_def by blast
qed

text \<open>The search on the array that the code builds, for the edges whose ends are listed.\<close>

definition listed_edges :: "conflict_edge list \<Rightarrow> 64 word list \<Rightarrow> conflict_edge list" where
  "listed_edges edges txns = filter (\<lambda>e. ce_from_txn e \<notin> set txns \<or> ce_to_txn e \<in> set txns) edges"

lemma listed_edges_known: "txns_known (listed_edges edges txns) txns" "txns_known edges txns \<Longrightarrow> listed_edges edges txns = edges"
  by (auto simp: listed_edges_def txns_known_def intro: filter_True)

interpretation csr: adjacency "ser_build_graph (listed_edges edges txns) txns" "index_graph (listed_edges edges txns) txns" "length txns"
  for edges txns
  by (rule adjacency_build) (rule listed_edges_known)

text \<open>
  C8. Cycle detection is exact: when every transaction that a listed transaction points to is listed, the search reads only
  initialised cells, ends, and answers whether the conflict graph of the listed transactions has a cycle.
\<close>

theorem ser_detect_cycle_correct:
  assumes "txns_known edges txns"
  shows "ser_detect_cycle edges txns = Some (\<not> acyclic (conflict_graph edges txns))"
proof (cases "edges = [] \<or> txns = []")
  case True
  then have "conflict_graph edges txns = {}" by (auto simp: conflict_graph_def)
  then show ?thesis using True by (simp add: ser_detect_cycle_def acyclic_def)
next
  case False
  then show ?thesis
    using csr.ser_search_all [of edges txns] listed_edges_known(2) [OF assms] acyclic_index_graph [OF assms]
    by (simp add: ser_detect_cycle_def)
qed

text \<open>Three transactions that wait for each other in a circle.\<close>

theorem ser_detect_cycle_witness:
  "ser_detect_cycle [\<lparr>ce_from_txn = 10, ce_to_txn = 20, ce_item = ''x'', ce_is_read_write = True\<rparr>,
      \<lparr>ce_from_txn = 20, ce_to_txn = 30, ce_item = ''y'', ce_is_read_write = False\<rparr>,
      \<lparr>ce_from_txn = 30, ce_to_txn = 10, ce_item = ''z'', ce_is_read_write = True\<rparr>] [10, 20, 30] = Some True"
proof -
  let ?es = "[\<lparr>ce_from_txn = 10, ce_to_txn = 20, ce_item = ''x'', ce_is_read_write = True\<rparr>,
      \<lparr>ce_from_txn = 20, ce_to_txn = 30, ce_item = ''y'', ce_is_read_write = False\<rparr>,
      \<lparr>ce_from_txn = 30, ce_to_txn = 10, ce_item = ''z'', ce_is_read_write = True\<rparr>]"
  have "(10, 20) \<in> conflict_graph ?es [10, 20, 30]" "(20, 30) \<in> conflict_graph ?es [10, 20, 30]" "(30, 10) \<in> conflict_graph ?es [10, 20, 30]"
    by (simp_all add: conflict_graph_def)
  then have "\<not> acyclic (conflict_graph ?es [10, 20, 30])"
    unfolding acyclic_def by (meson trancl.r_into_trancl trancl.trancl_into_trancl)
  then show ?thesis using ser_detect_cycle_correct [of ?es "[10, 20, 30]"] by (simp add: txns_known_def)
qed

text \<open>An edge to a transaction that is not listed reserves a cell that is never written, and the search reads it.\<close>

lemma ser_unlisted_target_uninitialised:
  "ser_detect_cycle [\<lparr>ce_from_txn = 1, ce_to_txn = 2, ce_item = ''x'', ce_is_read_write = True\<rparr>] [1] = None"
  by code_simp

section \<open>The other checks\<close>

lemma write_skew_step_eq:
  "write_skew_step s t e (a, b) =
   (a \<or> ce_is_read_write e \<and> ce_from_txn e = s \<and> ce_to_txn e = t, b \<or> ce_is_read_write e \<and> ce_from_txn e = t \<and> ce_to_txn e = s)"
  by (simp only: write_skew_step_def prod.case split: if_split) blast

lemma write_skew_fold:
  "fold (write_skew_step s t) edges (a, b) =
   (a \<or> (\<exists>e \<in> set edges. ce_is_read_write e \<and> ce_from_txn e = s \<and> ce_to_txn e = t),
    b \<or> (\<exists>e \<in> set edges. ce_is_read_write e \<and> ce_from_txn e = t \<and> ce_to_txn e = s))"
  by (induction edges arbitrary: a b) (simp_all only: fold.simps id_apply comp_apply write_skew_step_eq list.set bex_simps disj_assoc empty_iff HOL.simp_thms)

text \<open>A write skew between two listed transactions is found by the cycle detection as well.\<close>

lemma write_skew_is_cycle:
  assumes "si_detect_write_skew edges s t" and "txns_known edges txns" and "s \<in> set txns" and "t \<in> set txns"
  shows "ser_detect_cycle edges txns = Some True"
proof -
  have "(s, t) \<in> conflict_graph edges txns" "(t, s) \<in> conflict_graph edges txns"
    using assms by (force simp: si_detect_write_skew_def write_skew_fold conflict_graph_def Let_def split: if_splits)+
  then have "\<not> acyclic (conflict_graph edges txns)"
    unfolding acyclic_def by (meson trancl.r_into_trancl trancl.trancl_into_trancl)
  moreover have "ser_search (ser_build_graph edges txns) [0..<length txns] (replicate (length txns) False) (replicate (length txns) False) =
      Some (\<not> acyclic (conflict_graph edges txns))"
    using csr.ser_search_all [of edges txns] listed_edges_known(2) [OF assms(2)] acyclic_index_graph [OF assms(2)] by simp
  moreover have "edges \<noteq> []" using assms(1) by (auto simp: si_detect_write_skew_def)
  ultimately show ?thesis using assms(3) by (auto simp: ser_detect_cycle_def)
qed

text \<open>A stronger level allows no anomaly that a weaker one excludes, and every step up excludes more.\<close>

lemma iso_at_least_anomalies:
  "iso_at_least l l' \<longleftrightarrow> iso_possible_anomalies l AND iso_possible_anomalies l' = iso_possible_anomalies l"
  by (cases l; cases l') (simp_all add: iso_at_least_def)

text \<open>The lock check accepts exactly the two-phase schedules: no transaction acquires a lock after it has released one.\<close>

lemma s2pl_two_phase:
  "s2pl_is_valid_schedule locks order \<longleftrightarrow>
    (\<forall>i j. i < j \<longrightarrow> j < length locks \<longrightarrow> lr_txn_id (locks ! i) = lr_txn_id (locks ! j) \<and> lr_mode (locks ! i) = LOCK_NONE \<longrightarrow>
       lr_mode (locks ! j) = LOCK_NONE)"
proof -
  have "s2pl_no_relock locks \<longleftrightarrow> sorted_wrt (\<lambda>l l'. lr_txn_id l = lr_txn_id l' \<and> lr_mode l = LOCK_NONE \<longrightarrow> lr_mode l' = LOCK_NONE) locks"
    by (induction locks) (auto simp: list_ex_iff)
  then show ?thesis unfolding sorted_wrt_iff_nth_less by (simp only: s2pl_is_valid_schedule_def Let_def if_bool_eq_disj) blast
qed

text \<open>
  A snapshot sees the newest version that another transaction committed no later than the snapshot's start; without one it
  sees version 0.
\<close>

lemma mvcc_visible_newest:
  fixes start txn defines "ok v \<equiv> fst (snd v) \<noteq> txn \<and> snd (snd v) \<le> start \<and> 0 < snd (snd v)"
  shows "if \<exists>v \<in> set versions. ok v
    then \<exists>v \<in> set versions. ok v \<and> mvcc_visible_version_iso start txn versions = fst v \<and> (\<forall>w \<in> set versions. ok w \<longrightarrow> snd (snd w) \<le> snd (snd v))
    else mvcc_visible_version_iso start txn versions = 0"
proof -
  let ?step = "\<lambda>(version, v_txn_id, v_commit_ts) (best_ts, best_version).
       if v_txn_id \<noteq> txn \<and> v_commit_ts \<le> start \<and> v_commit_ts > best_ts then (v_commit_ts, version) else (best_ts, best_version)"
  have "case fold ?step versions (0, 0) of (ts, ver) \<Rightarrow>
      (if \<exists>v \<in> set versions. ok v then \<exists>v \<in> set versions. ok v \<and> ver = fst v \<and> ts = snd (snd v) \<and> (\<forall>w \<in> set versions. ok w \<longrightarrow> snd (snd w) \<le> ts)
       else ts = 0 \<and> ver = 0)"
  proof (induction versions rule: rev_induct)
    case (snoc v vs)
    obtain a t c where v: "v = (a, t, c)" by (cases v) auto
    obtain ts ver where f: "fold ?step vs (0, 0) = (ts, ver)" by fastforce
    show ?case
    proof (cases "\<exists>w \<in> set vs. ok w")
      case True
      then obtain w where "w \<in> set vs" "ok w" "ver = fst w" "ts = snd (snd w)" "\<forall>w \<in> set vs. ok w \<longrightarrow> snd (snd w) \<le> ts"
        using snoc.IH f by auto
      then show ?thesis using f v True by (cases "ok v \<and> ts < c") (auto simp: ok_def intro!: bexI [of _ w])
    next
      case False
      then show ?thesis using snoc.IH f v by (auto simp: ok_def word_gt_0)
    qed
  qed simp
  then show ?thesis by (auto simp: mvcc_visible_version_iso_def split: prod.splits if_splits)
qed

end
