(* ===== verification/Swim.thy ===== *)
theory Swim
  imports Net_Prelude "HOL-Library.Monad_Syntax"
begin

text \<open>
  The membership protocol SWIM (\<open>mini-dist-protocol/src/swim.c\<close>): joining and leaving, direct and indirect probes,
  suspicion, dissemination and the protocol tick.

  The used slots of \<open>members\<close> are a list. The generator behind \<open>swim_rand\<close> is the code's; its global seed is a field of the
  cluster, and the clock reading that initialises it an argument. \<open>None\<close> is an access outside of the used slots, a read of
  an uninitialised message field or a division by zero. Only printing is left out.
\<close>

section \<open>State\<close>

abbreviation SWIM_MAX_MEMBERS :: nat where "SWIM_MAX_MEMBERS \<equiv> 16"
abbreviation SWIM_INDIRECT_PING_COUNT :: nat where "SWIM_INDIRECT_PING_COUNT \<equiv> 3"
abbreviation SWIM_PROTOCOL_PERIOD_MS :: "64 word" where "SWIM_PROTOCOL_PERIOD_MS \<equiv> 1000"
abbreviation SWIM_DEAD_TIMEOUT_MS :: "64 word" where "SWIM_DEAD_TIMEOUT_MS \<equiv> 3000"

datatype swim_member_state = SWIM_ALIVE | SWIM_SUSPECTED | SWIM_DEAD

datatype swim_message_type =
  SWIM_MSG_PING | SWIM_MSG_ACK | SWIM_MSG_INDIRECT_PING | SWIM_MSG_INDIRECT_ACK | SWIM_MSG_JOIN | SWIM_MSG_LEAVE

record swim_member =
  sm_id :: int
  sm_address :: "32 word"
  sm_state :: swim_member_state
  sm_incarnation :: "64 word"
  sm_ping_target :: int
  sm_suspect_since_ms :: "64 word"
  sm_last_heard_ms :: "64 word"
  sm_active :: bool

record swim_message =
  sg_type :: swim_message_type
  sg_sender_id :: int
  sg_target_id :: int
  sg_origin_id :: int
  sg_incarnation :: "64 word"
  sg_suspected :: bool
  sg_membership_changes :: "swim_member list"

record swim_cluster =
  sc_members :: "swim_member list"
  sc_protocol_time_ms :: "64 word"
  sc_ping_sequence_index :: nat
  sc_seed :: "64 word"

abbreviation member_count :: "swim_cluster \<Rightarrow> nat" where
  "member_count c \<equiv> length (sc_members c)"

definition swim_rand :: "swim_cluster \<Rightarrow> 64 word \<times> swim_cluster" where
  "swim_rand c = (let seed = sc_seed c * 1103515245 + 12345 in (seed div 65536 mod 32768, c\<lparr>sc_seed := seed\<rparr>))"

definition swim_init :: "64 word \<Rightarrow> nat \<Rightarrow> swim_cluster option" where
  "swim_init time n =
     (if n > SWIM_MAX_MEMBERS then None
      else Some \<lparr>sc_members = map (\<lambda>i. \<lparr>sm_id = int i, sm_address = 0xC0A80000 + of_nat i, sm_state = SWIM_ALIVE, sm_incarnation = 0,
               sm_ping_target = -1, sm_suspect_since_ms = 0, sm_last_heard_ms = 0, sm_active = True\<rparr>) [0..<n],
             sc_protocol_time_ms = 0, sc_ping_sequence_index = 0, sc_seed = time\<rparr>)"

text \<open>The loops that act on the first member with an identifier.\<close>

definition swim_find :: "swim_cluster \<Rightarrow> int \<Rightarrow> nat option" where
  "swim_find c i = find_index (\<lambda>m. sm_id m = i) (sc_members c)"

definition swim_update :: "int \<Rightarrow> (swim_member \<Rightarrow> swim_member) \<Rightarrow> swim_cluster \<Rightarrow> swim_cluster" where
  "swim_update i f c = (case swim_find c i of None \<Rightarrow> c | Some k \<Rightarrow> c\<lparr>sc_members := (sc_members c)[k := f (sc_members c ! k)]\<rparr>)"

section \<open>Messages\<close>

definition swim_apply_change :: "swim_member \<Rightarrow> swim_cluster \<Rightarrow> swim_cluster" where
  "swim_apply_change change c = swim_update (sm_id change) (\<lambda>m.
     if sm_incarnation change > sm_incarnation m
     then (let m = m\<lparr>sm_incarnation := sm_incarnation change, sm_state := sm_state change\<rparr> in
           if sm_state change = SWIM_SUSPECTED then m\<lparr>sm_suspect_since_ms := sc_protocol_time_ms c\<rparr> else m)
     else m) c"

definition swim_hear :: "(swim_member \<Rightarrow> bool) \<Rightarrow> swim_cluster \<Rightarrow> swim_cluster" where
  "swim_hear P c = c\<lparr>sc_members := map (\<lambda>m. if P m then m\<lparr>sm_last_heard_ms := sc_protocol_time_ms c\<rparr> else m) (sc_members c)\<rparr>"

definition swim_on_receive :: "swim_message \<Rightarrow> swim_cluster \<Rightarrow> swim_cluster option" where
  "swim_on_receive msg c = do {
     c \<leftarrow> (case sg_type msg of
        SWIM_MSG_PING \<Rightarrow> Some (swim_hear (\<lambda>m. sm_id m = sg_target_id msg \<and> sm_active m) c)
      | SWIM_MSG_ACK \<Rightarrow> Some (swim_hear (\<lambda>m. sm_id m = sg_sender_id msg) c)
      | SWIM_MSG_INDIRECT_PING \<Rightarrow> Some (swim_hear (\<lambda>m. sm_id m = sg_origin_id msg \<and> sm_active m) c)
      | SWIM_MSG_JOIN \<Rightarrow>
          (if swim_find c (sg_origin_id msg) = None \<and> member_count c < SWIM_MAX_MEMBERS
           then (case sg_membership_changes msg of
                   [] \<Rightarrow> None
                 | m # _ \<Rightarrow> Some (c\<lparr>sc_members := sc_members c @ [m\<lparr>sm_last_heard_ms := sc_protocol_time_ms c\<rparr>]\<rparr>))
           else Some c)
      | _ \<Rightarrow> Some c);
     Some (fold swim_apply_change (sg_membership_changes msg) c)
   }"

definition swim_create_ping :: "int \<Rightarrow> int \<Rightarrow> swim_message" where
  "swim_create_ping sender target = \<lparr>sg_type = SWIM_MSG_PING, sg_sender_id = sender, sg_target_id = target, sg_origin_id = sender,
     sg_incarnation = 0, sg_suspected = False, sg_membership_changes = []\<rparr>"

definition swim_create_ack :: "int \<Rightarrow> int \<Rightarrow> 64 word \<Rightarrow> swim_message" where
  "swim_create_ack sender target incarnation = \<lparr>sg_type = SWIM_MSG_ACK, sg_sender_id = sender, sg_target_id = target, sg_origin_id = sender,
     sg_incarnation = incarnation, sg_suspected = False, sg_membership_changes = []\<rparr>"

section \<open>Operations\<close>

definition swim_join :: "int \<Rightarrow> 32 word \<Rightarrow> int \<Rightarrow> swim_cluster \<Rightarrow> swim_cluster option" where
  "swim_join new_id address contact_id c =
     (if member_count c \<ge> SWIM_MAX_MEMBERS then Some c
      else let m = \<lparr>sm_id = new_id, sm_address = address, sm_state = SWIM_ALIVE, sm_incarnation = 0, sm_ping_target = -1,
                    sm_suspect_since_ms = 0, sm_last_heard_ms = sc_protocol_time_ms c, sm_active = True\<rparr>;
               c = c\<lparr>sc_members := sc_members c @ [m]\<rparr>
           in if contact_id \<ge> 0
              then swim_on_receive \<lparr>sg_type = SWIM_MSG_JOIN, sg_sender_id = new_id, sg_target_id = contact_id, sg_origin_id = new_id,
                     sg_incarnation = 0, sg_suspected = False, sg_membership_changes = [m]\<rparr> c
              else Some c)"

definition swim_leave :: "int \<Rightarrow> swim_cluster \<Rightarrow> swim_cluster" where
  "swim_leave member_id = swim_update member_id (\<lambda>m. m\<lparr>sm_state := SWIM_DEAD, sm_incarnation := sm_incarnation m + 1\<rparr>)"

definition swim_ping :: "nat \<Rightarrow> int \<Rightarrow> swim_cluster \<Rightarrow> (bool \<times> swim_cluster) option" where
  "swim_ping from_id target_id c =
     (if \<exists>m \<in> set (sc_members c). sm_id m = target_id \<and> sm_active m \<and> sm_state m \<noteq> SWIM_DEAD
      then if from_id < member_count c
           then Some (True, c\<lparr>sc_members := (sc_members c)[from_id := (sc_members c ! from_id)\<lparr>sm_ping_target := target_id\<rparr>]\<rparr>)
           else None
      else Some (False, c))"

definition swim_ping_success :: "int \<Rightarrow> 64 word \<Rightarrow> swim_cluster \<Rightarrow> bool \<times> swim_cluster" where
  "swim_ping_success target_id incarnation c =
     (swim_find c target_id \<noteq> None,
      swim_update target_id (\<lambda>m.
        let m = m\<lparr>sm_last_heard_ms := sc_protocol_time_ms c, sm_ping_target := -1\<rparr>;
            m = (if incarnation > sm_incarnation m then m\<lparr>sm_incarnation := incarnation\<rparr> else m)
        in if sm_state m = SWIM_SUSPECTED then m\<lparr>sm_state := SWIM_ALIVE, sm_incarnation := sm_incarnation m + 1\<rparr> else m) c)"

fun swim_indirect_responses :: "swim_cluster \<Rightarrow> int \<Rightarrow> int list \<Rightarrow> nat option" where
  "swim_indirect_responses c suspect_id [] = Some 0"
| "swim_indirect_responses c suspect_id (via # through_ids) =
     (if \<exists>m \<in> set (sc_members c). sm_id m = via \<and> sm_active m
      then if 0 \<le> suspect_id \<and> nat suspect_id < member_count c
           then do {
             r \<leftarrow> swim_indirect_responses c suspect_id through_ids;
             Some (if sm_active (sc_members c ! nat suspect_id) then r + 1 else r)
           }
           else None
      else swim_indirect_responses c suspect_id through_ids)"

definition swim_indirect_ping :: "swim_cluster \<Rightarrow> int \<Rightarrow> int list \<Rightarrow> bool option" where
  "swim_indirect_ping c suspect_id through_ids = map_option (\<lambda>responses. responses > 0) (swim_indirect_responses c suspect_id through_ids)"

definition swim_suspect :: "int \<Rightarrow> swim_cluster \<Rightarrow> swim_cluster" where
  "swim_suspect suspect_id c = swim_update suspect_id (\<lambda>m.
     if sm_state m = SWIM_ALIVE
     then m\<lparr>sm_state := SWIM_SUSPECTED, sm_suspect_since_ms := sc_protocol_time_ms c, sm_incarnation := sm_incarnation m + 1\<rparr>
     else m) c"

definition swim_confirm_dead :: "int \<Rightarrow> swim_cluster \<Rightarrow> swim_cluster" where
  "swim_confirm_dead member_id = swim_update member_id (\<lambda>m. m\<lparr>sm_state := SWIM_DEAD, sm_incarnation := sm_incarnation m + 1\<rparr>)"

definition swim_random_member :: "int \<Rightarrow> swim_cluster \<Rightarrow> int \<times> swim_cluster" where
  "swim_random_member exclude_id c =
     (let alive = filter (\<lambda>m. sm_id m \<noteq> exclude_id \<and> sm_active m \<and> sm_state m \<noteq> SWIM_DEAD) (sc_members c) in
      if alive = [] then (-1, c)
      else (case swim_rand c of (r, c) \<Rightarrow> (sm_id (alive ! (unat r mod length alive)), c)))"

definition swim_news :: "swim_cluster \<Rightarrow> swim_member list" where
  "swim_news c = take SWIM_MAX_MEMBERS (filter (\<lambda>m. sm_state m = SWIM_SUSPECTED \<or> sm_state m = SWIM_DEAD) (sc_members c))"

definition swim_disseminate_from :: "nat \<Rightarrow> swim_cluster \<Rightarrow> swim_cluster option" where
  "swim_disseminate_from i c =
     (if \<not> sm_active (sc_members c ! i) then Some c
      else case swim_random_member (int i) c of (target, c) \<Rightarrow>
        if target < 0 then Some c
        else swim_on_receive \<lparr>sg_type = SWIM_MSG_PING, sg_sender_id = int i, sg_target_id = target, sg_origin_id = int i,
               sg_incarnation = sm_incarnation (sc_members c ! i), sg_suspected = False, sg_membership_changes = swim_news c\<rparr> c)"

fun swim_disseminate_loop :: "nat list \<Rightarrow> swim_cluster \<Rightarrow> swim_cluster option" where
  "swim_disseminate_loop [] c = Some c"
| "swim_disseminate_loop (i # is) c = do { c \<leftarrow> swim_disseminate_from i c; swim_disseminate_loop is c }"

definition swim_disseminate :: "swim_cluster \<Rightarrow> swim_cluster option" where
  "swim_disseminate c = swim_disseminate_loop [0..<member_count c] c"

section \<open>The protocol tick\<close>

definition swim_expire :: "swim_cluster \<Rightarrow> swim_cluster" where
  "swim_expire c = c\<lparr>sc_members := map (\<lambda>m.
     if sm_active m \<and> sm_state m = SWIM_SUSPECTED \<and> sc_protocol_time_ms c - sm_suspect_since_ms m > SWIM_DEAD_TIMEOUT_MS
     then m\<lparr>sm_state := SWIM_DEAD, sm_incarnation := sm_incarnation m + 1\<rparr> else m) (sc_members c)\<rparr>"

definition swim_helpers :: "swim_cluster \<Rightarrow> int \<Rightarrow> int list" where
  "swim_helpers c target = take SWIM_INDIRECT_PING_COUNT (map sm_id (filter (\<lambda>m.
     sm_id m \<noteq> int (sc_ping_sequence_index c) \<and> sm_id m \<noteq> target \<and> sm_active m) (sc_members c)))"

definition swim_probe :: "swim_cluster \<Rightarrow> swim_cluster option" where
  "swim_probe c =
     (case swim_random_member (int (sc_ping_sequence_index c)) c of (target, c) \<Rightarrow>
      if target < 0 then Some c
      else do {
        (_, c) \<leftarrow> swim_ping (sc_ping_sequence_index c) target c;
        case swim_rand c of (r, c) \<Rightarrow>
        if r mod 100 < 20 then Some (snd (swim_ping_success target 0 c))
        else let indirect = swim_helpers c target in
             if indirect = [] then Some c
             else do {
               ok \<leftarrow> swim_indirect_ping c target indirect;
               Some (if ok then c else swim_suspect target c)
             }
      })"

definition swim_tick :: "64 word \<Rightarrow> swim_cluster \<Rightarrow> swim_cluster option" where
  "swim_tick delta_ms c =
     (let c = swim_expire (c\<lparr>sc_protocol_time_ms := sc_protocol_time_ms c + delta_ms\<rparr>) in
      if sc_protocol_time_ms c mod SWIM_PROTOCOL_PERIOD_MS < delta_ms \<or> sc_protocol_time_ms c < delta_ms
      then do {
        c \<leftarrow> swim_probe c;
        c \<leftarrow> (if member_count c = 0 then None
              else Some (c\<lparr>sc_ping_sequence_index := (sc_ping_sequence_index c + 1) mod member_count c\<rparr>));
        swim_disseminate c
      }
      else Some c)"

definition swim_count :: "swim_member_state \<Rightarrow> swim_cluster \<Rightarrow> nat" where
  "swim_count s c = length (filter (\<lambda>m. sm_state m = s) (sc_members c))"

abbreviation swim_alive_count :: "swim_cluster \<Rightarrow> nat" where "swim_alive_count \<equiv> swim_count SWIM_ALIVE"
abbreviation swim_suspected_count :: "swim_cluster \<Rightarrow> nat" where "swim_suspected_count \<equiv> swim_count SWIM_SUSPECTED"
abbreviation swim_dead_count :: "swim_cluster \<Rightarrow> nat" where "swim_dead_count \<equiv> swim_count SWIM_DEAD"

section \<open>Well-formed clusters\<close>

text \<open>
  The code uses identifiers as array indices. They agree when members join under the next free number, which is the case
  after \<open>swim_init\<close>; no operation ever clears \<open>active\<close>.
\<close>

definition swim_wf :: "swim_cluster \<Rightarrow> bool" where
  "swim_wf c \<longleftrightarrow> 0 < member_count c \<and> member_count c \<le> SWIM_MAX_MEMBERS \<and> sc_ping_sequence_index c < member_count c \<and>
     (\<forall>i < member_count c. sm_id (sc_members c ! i) = int i \<and> sm_active (sc_members c ! i))"

abbreviation state_at :: "swim_cluster \<Rightarrow> nat \<Rightarrow> swim_member_state" where
  "state_at c i \<equiv> sm_state (sc_members c ! i)"

named_theorems swim_simps \<open>effects of the operations on members and wf\<close>

lemma swim_find_wf:
  assumes "swim_wf c"
  shows "swim_find c k = (if 0 \<le> k \<and> nat k < member_count c then Some (nat k) else None)"
proof (cases "0 \<le> k \<and> nat k < member_count c")
  case True
  then show ?thesis using assms unfolding swim_find_def
    by (simp, intro find_index_SomeI) (auto simp: swim_wf_def)
next
  case False
  then show ?thesis using assms unfolding swim_find_def
    by (auto simp: find_index_None_iff swim_wf_def in_set_conv_nth)
qed

lemma swim_update_fields [swim_simps]:
  "member_count (swim_update k f c) = member_count c" "sc_protocol_time_ms (swim_update k f c) = sc_protocol_time_ms c"
  "sc_ping_sequence_index (swim_update k f c) = sc_ping_sequence_index c" "sc_seed (swim_update k f c) = sc_seed c"
  by (simp_all add: swim_update_def split: option.splits)

lemma swim_update_nth:
  assumes "swim_wf c" and "i < member_count c"
  shows "sc_members (swim_update k f c) ! i = (if k = int i then f (sc_members c ! i) else sc_members c ! i)"
  using assms by (auto simp: swim_update_def swim_find_wf nth_list_update)

lemma swim_update_wf:
  assumes "swim_wf c" and "\<And>m. sm_id (f m) = sm_id m \<and> sm_active (f m) = sm_active m"
  shows "swim_wf (swim_update k f c)"
  using assms by (simp add: swim_wf_def swim_update_fields swim_update_nth [OF assms(1)])

lemma swim_hear_fields [swim_simps]:
  "member_count (swim_hear P c) = member_count c" "i < member_count c \<Longrightarrow> sm_state (sc_members (swim_hear P c) ! i) = state_at c i"
  "i < member_count c \<Longrightarrow> sm_incarnation (sc_members (swim_hear P c) ! i) = sm_incarnation (sc_members c ! i)"
  "sc_ping_sequence_index (swim_hear P c) = sc_ping_sequence_index c" "sc_protocol_time_ms (swim_hear P c) = sc_protocol_time_ms c"
  by (simp_all add: swim_hear_def)

lemma swim_hear_wf: "swim_wf c \<Longrightarrow> swim_wf (swim_hear P c)"
  by (simp add: swim_wf_def swim_hear_def)

text \<open>A claim that is not newer than what is known changes nothing.\<close>

lemma swim_apply_stale:
  assumes "swim_wf c" and "i < member_count c" and "sm_id ch = int i" and "sm_incarnation ch \<le> sm_incarnation (sc_members c ! i)"
  shows "swim_apply_change ch c = c"
  using assms by (simp add: swim_apply_change_def swim_update_def swim_find_wf not_less [symmetric] Let_def)

lemma swim_fold_stale:
  assumes "swim_wf c" and "\<forall>ch \<in> set chs. \<exists>i < member_count c. sm_id ch = int i \<and> sm_incarnation ch \<le> sm_incarnation (sc_members c ! i)"
  shows "fold swim_apply_change chs c = c"
  using assms(2) by (induction chs) (auto simp: swim_apply_stale [OF assms(1)])

lemma swim_news_stale:
  assumes "swim_wf c" and "ch \<in> set (swim_news c)"
  shows "\<exists>i < member_count c. sm_id ch = int i \<and> ch = sc_members c ! i"
proof -
  have "ch \<in> set (sc_members c)" using assms(2) by (auto simp: swim_news_def dest: in_set_takeD)
  then show ?thesis using assms(1) by (auto simp: in_set_conv_nth swim_wf_def)
qed

text \<open>\<open>same_states c d\<close>: two well-formed clusters with the same members, phases and clock.\<close>

definition same_states :: "swim_cluster \<Rightarrow> swim_cluster \<Rightarrow> bool" where
  "same_states c d \<longleftrightarrow> swim_wf d \<and> member_count d = member_count c \<and> (\<forall>i < member_count c. state_at d i = state_at c i)"

lemma same_states_trans: "same_states c d \<Longrightarrow> same_states d e \<Longrightarrow> same_states c e"
  by (simp add: same_states_def)

lemma swim_random_member_wf:
  assumes "swim_wf c"
  obtains t seed where "swim_random_member e c = (t, c\<lparr>sc_seed := seed\<rparr>)"
    "t < 0 \<or> (\<exists>i < member_count c. t = int i \<and> t \<noteq> e \<and> state_at c i \<noteq> SWIM_DEAD)"
proof -
  let ?alive = "filter (\<lambda>m. sm_id m \<noteq> e \<and> sm_active m \<and> sm_state m \<noteq> SWIM_DEAD) (sc_members c)"
  show thesis
  proof (cases "?alive = []")
    case True
    then show thesis using that [of "-1" "sc_seed c"] by (simp add: swim_random_member_def)
  next
    case False
    let ?r = "fst (swim_rand c)"
    let ?m = "?alive ! (unat ?r mod length ?alive)"
    have "?m \<in> set ?alive" using False by (intro nth_mem) simp
    then obtain i where "i < member_count c" "?m = sc_members c ! i" "sm_id ?m \<noteq> e" "sm_state ?m \<noteq> SWIM_DEAD"
      by (auto simp: in_set_conv_nth simp del: length_filter_conv_card)
    moreover have "swim_random_member e c = (sm_id ?m, c\<lparr>sc_seed := sc_seed c * 1103515245 + 12345\<rparr>)"
      using False by (simp add: swim_random_member_def swim_rand_def Let_def)
    ultimately show thesis using that [of "sm_id ?m"] assms by (auto simp: swim_wf_def)
  qed
qed

lemma swim_wf_seed [simp]: "swim_wf (c\<lparr>sc_seed := s\<rparr>) = swim_wf c"
  by (simp add: swim_wf_def)

lemma swim_wf_next: "swim_wf d \<Longrightarrow> swim_wf (d\<lparr>sc_ping_sequence_index := k mod member_count d\<rparr>)"
  by (simp add: swim_wf_def)

lemma swim_disseminate_from_same:
  assumes "swim_wf c" and "i < member_count c"
  shows "\<exists>d. swim_disseminate_from i c = Some d \<and> same_states c d"
proof -
  obtain t seed where r: "swim_random_member (int i) c = (t, c\<lparr>sc_seed := seed\<rparr>)" using swim_random_member_wf [OF assms(1)] by metis
  have act: "sm_active (sc_members c ! i)" using assms by (simp add: swim_wf_def)
  show ?thesis
  proof (cases "t < 0")
    case True
    then show ?thesis using r act assms by (auto simp: swim_disseminate_from_def same_states_def)
  next
    case False
    let ?c = "c\<lparr>sc_seed := seed\<rparr>" and ?h = "swim_hear (\<lambda>m. sm_id m = t \<and> sm_active m) (c\<lparr>sc_seed := seed\<rparr>)"
    have wf: "swim_wf ?c" "swim_wf ?h" using assms(1) by (simp_all add: swim_hear_wf)
    have "fold swim_apply_change (swim_news ?c) ?h = ?h"
    proof (rule swim_fold_stale [OF wf(2)], rule ballI)
      fix ch assume "ch \<in> set (swim_news ?c)"
      then obtain j where "j < member_count c" "sm_id ch = int j" "ch = sc_members c ! j" using swim_news_stale [OF wf(1)] by auto
      then show "\<exists>i < member_count ?h. sm_id ch = int i \<and> sm_incarnation ch \<le> sm_incarnation (sc_members ?h ! i)"
        by (auto simp: swim_simps)
    qed
    then have "swim_disseminate_from i c = Some ?h"
      using False r act by (simp add: swim_disseminate_from_def swim_on_receive_def)
    then show ?thesis using wf(2) by (auto simp: same_states_def swim_simps)
  qed
qed

lemma swim_disseminate_loop_same:
  "swim_wf c \<Longrightarrow> set is \<subseteq> {..<member_count c} \<Longrightarrow> \<exists>d. swim_disseminate_loop is c = Some d \<and> same_states c d"
proof (induction "is" arbitrary: c)
  case Nil
  then show ?case by (simp add: same_states_def)
next
  case (Cons i "is")
  then obtain d where d: "swim_disseminate_from i c = Some d" "same_states c d" using swim_disseminate_from_same [of c i] by auto
  then obtain e where "swim_disseminate_loop is d = Some e" "same_states d e"
    using Cons.IH [of d] Cons.prems by (auto simp: same_states_def)
  then show ?case using d same_states_trans by auto
qed

lemma swim_disseminate_same: "swim_wf c \<Longrightarrow> \<exists>d. swim_disseminate c = Some d \<and> same_states c d"
  unfolding swim_disseminate_def by (rule swim_disseminate_loop_same) auto

section \<open>What a tick decides\<close>

text \<open>Helpers and suspects are always active, so an indirect probe always succeeds.\<close>

lemma swim_indirect_always:
  assumes "swim_wf c" and "t < member_count c" and "\<forall>v \<in> set vs. \<exists>m \<in> set (sc_members c). sm_id m = v \<and> sm_active m"
  shows "swim_indirect_responses c (int t) vs = Some (length vs)"
  using assms(3) assms(1,2) by (induction vs) (auto simp: swim_wf_def)

lemma swim_helpers_members: "v \<in> set (swim_helpers c t) \<Longrightarrow> \<exists>m \<in> set (sc_members c). sm_id m = v \<and> sm_active m"
  by (auto simp: swim_helpers_def dest!: in_set_takeD)

text \<open>\<open>refutes t c d\<close>: nothing but the suspicion of member \<open>t\<close> is lifted; an index outside of the cluster stands for nobody.\<close>

definition refutes :: "nat \<Rightarrow> swim_cluster \<Rightarrow> swim_cluster \<Rightarrow> bool" where
  "refutes t c d \<longleftrightarrow> swim_wf d \<and> member_count d = member_count c \<and> (\<forall>i < member_count c.
     state_at d i = (if state_at c i = SWIM_SUSPECTED \<and> i = t then SWIM_ALIVE else state_at c i))"

lemma refutes_none: "swim_wf d \<Longrightarrow> sc_members d = sc_members c \<Longrightarrow> refutes (member_count c) c d"
  by (auto simp: refutes_def)

lemma swim_ping_success_refutes:
  assumes "swim_wf c"
  shows "refutes t c (snd (swim_ping_success (int t) inc c))"
proof -
  have "swim_wf (snd (swim_ping_success (int t) inc c))"
    unfolding swim_ping_success_def snd_conv by (rule swim_update_wf [OF assms]) (simp add: Let_def split: if_split)
  then show ?thesis using assms
    by (auto simp: refutes_def swim_ping_success_def swim_update_nth swim_update_fields Let_def)
qed

lemma swim_probe_refutes:
  assumes "swim_wf c"
  shows "\<exists>d t. swim_probe c = Some d \<and> refutes t c d"
proof -
  obtain t seed where r: "swim_random_member (int (sc_ping_sequence_index c)) c = (t, c\<lparr>sc_seed := seed\<rparr>)"
      and t: "t < 0 \<or> (\<exists>i < member_count c. t = int i \<and> t \<noteq> int (sc_ping_sequence_index c) \<and> state_at c i \<noteq> SWIM_DEAD)"
    by (rule swim_random_member_wf [OF assms])
  show ?thesis
  proof (cases "t < 0")
    case True
    then have "swim_probe c = Some (c\<lparr>sc_seed := seed\<rparr>)" using r by (simp add: swim_probe_def)
    then show ?thesis using refutes_none [of "c\<lparr>sc_seed := seed\<rparr>" c] assms by auto
  next
    case False
    then obtain i where i: "i < member_count c" "t = int i" "state_at c i \<noteq> SWIM_DEAD" using t by blast
    have p: "sc_ping_sequence_index c < member_count c" using assms by (simp add: swim_wf_def)
    define c1 where "c1 = c\<lparr>sc_members := (sc_members c)[sc_ping_sequence_index c := (sc_members c ! sc_ping_sequence_index c)\<lparr>sm_ping_target := t\<rparr>],
      sc_seed := seed * 1103515245 + 12345\<rparr>"
    have "\<exists>m \<in> set (sc_members c). sm_id m = t \<and> sm_active m \<and> sm_state m \<noteq> SWIM_DEAD"
      using i assms by (auto simp: swim_wf_def intro!: bexI [OF _ nth_mem])
    then have ping: "swim_ping (sc_ping_sequence_index c) t (c\<lparr>sc_seed := seed\<rparr>) = Some (True, c1\<lparr>sc_seed := seed\<rparr>)"
      using p by (simp add: swim_ping_def c1_def)
    have c1: "swim_wf c1" "member_count c1 = member_count c" "\<And>j. j < member_count c \<Longrightarrow> state_at c1 j = state_at c j"
      using assms p by (auto simp: swim_wf_def c1_def nth_list_update)
    have lift: "refutes t' c d" if "refutes t' c1 d" for t' d using that c1 by (auto simp: refutes_def)
    let ?r = "(seed * 1103515245 + 12345) div 65536 mod 32768"
    have rand: "swim_rand (c1\<lparr>sc_seed := seed\<rparr>) = (?r, c1)" by (simp add: swim_rand_def c1_def Let_def)
    have probe: "swim_probe c = (if ?r mod 100 < 20 then Some (snd (swim_ping_success t 0 c1))
        else let indirect = swim_helpers c1 t in if indirect = [] then Some c1
          else do { ok \<leftarrow> swim_indirect_ping c1 t indirect; Some (if ok then c1 else swim_suspect t c1) })"
      using False r ping rand by (simp add: swim_probe_def Let_def)
    have "swim_indirect_ping c1 t (swim_helpers c1 t) = Some (swim_helpers c1 t \<noteq> [])"
      using swim_indirect_always [OF c1(1), of i "swim_helpers c1 t"] i c1(2) swim_helpers_members by (simp add: swim_indirect_ping_def)
    then have "swim_probe c = Some (if ?r mod 100 < 20 then snd (swim_ping_success t 0 c1) else c1)"
      unfolding probe by (simp add: Let_def)
    moreover have "refutes i c (snd (swim_ping_success t 0 c1))" "refutes (member_count c1) c c1"
      using lift [OF swim_ping_success_refutes [OF c1(1), of i 0]] lift [OF refutes_none [OF c1(1) refl]] i(2) by simp_all
    ultimately show ?thesis by (cases "?r mod 100 < 20") auto
  qed
qed

definition timed_out :: "64 word \<Rightarrow> swim_member \<Rightarrow> bool" where
  "timed_out now m \<longleftrightarrow> sm_state m = SWIM_SUSPECTED \<and> now - sm_suspect_since_ms m > SWIM_DEAD_TIMEOUT_MS"

lemma swim_expire_wf: "swim_wf c \<Longrightarrow> swim_wf (swim_expire c)"
  by (simp add: swim_wf_def swim_expire_def)

lemma swim_expire_state:
  assumes "swim_wf c" and "i < member_count c"
  shows "state_at (swim_expire c) i = (if timed_out (sc_protocol_time_ms c) (sc_members c ! i) then SWIM_DEAD else state_at c i)"
  using assms by (simp add: swim_expire_def timed_out_def swim_wf_def)

lemma swim_tick_refutes:
  assumes "swim_wf c"
  shows "\<exists>d t. swim_tick delta c = Some d \<and> refutes t (swim_expire (c\<lparr>sc_protocol_time_ms := sc_protocol_time_ms c + delta\<rparr>)) d"
proof -
  let ?c = "c\<lparr>sc_protocol_time_ms := sc_protocol_time_ms c + delta\<rparr>"
  let ?e = "swim_expire ?c"
  have wf: "swim_wf ?e" using assms by (intro swim_expire_wf) (simp add: swim_wf_def)
  show ?thesis
  proof (cases "sc_protocol_time_ms ?e mod SWIM_PROTOCOL_PERIOD_MS < delta \<or> sc_protocol_time_ms ?e < delta")
    case False
    then have "swim_tick delta c = Some ?e" by (simp add: swim_tick_def Let_def)
    then show ?thesis using refutes_none [OF wf refl] by blast
  next
    case True
    obtain d t where d: "swim_probe ?e = Some d" "refutes t ?e d" using swim_probe_refutes [OF wf] by blast
    let ?d = "d\<lparr>sc_ping_sequence_index := (sc_ping_sequence_index d + 1) mod member_count d\<rparr>"
    have "swim_wf ?d" using swim_wf_next [of d] d(2) unfolding refutes_def by blast
    then obtain f where f: "swim_disseminate ?d = Some f" "same_states ?d f" using swim_disseminate_same by blast
    have "member_count d \<noteq> 0" using d(2) by (auto simp: refutes_def swim_wf_def)
    then have "swim_tick delta c = Some f" using True d(1) f(1) by (simp add: swim_tick_def Let_def)
    moreover have "refutes t ?e f" using d(2) f(2) by (auto simp: refutes_def same_states_def)
    ultimately show ?thesis by blast
  qed
qed

text \<open>
  A tick of a well-formed cluster always returns, and its effect on the phases is exact: a member whose suspicion has
  outlasted the timeout is dead, one suspected member, the one that was probed and answered, may be alive again, and every
  other member keeps its phase. In particular a tick never starts a suspicion: the probe through helpers cannot fail.
\<close>

theorem swim_tick_effect:
  assumes "swim_wf c"
  shows "\<exists>d t. swim_tick delta c = Some d \<and> swim_wf d \<and> member_count d = member_count c \<and> (\<forall>i < member_count c.
    state_at d i = (if timed_out (sc_protocol_time_ms c + delta) (sc_members c ! i) then SWIM_DEAD
      else if state_at c i = SWIM_SUSPECTED \<and> i = t then SWIM_ALIVE else state_at c i))"
proof -
  let ?c = "c\<lparr>sc_protocol_time_ms := sc_protocol_time_ms c + delta\<rparr>"
  obtain d t where d: "swim_tick delta c = Some d" "refutes t (swim_expire ?c) d" using swim_tick_refutes [OF assms] by blast
  have "swim_wf ?c" using assms by (simp add: swim_wf_def)
  note expired = swim_expire_state [OF this]
  have count: "member_count (swim_expire ?c) = member_count c" by (simp add: swim_expire_def)
  have "state_at d i = (if timed_out (sc_protocol_time_ms c + delta) (sc_members c ! i) then SWIM_DEAD
      else if state_at c i = SWIM_SUSPECTED \<and> i = t then SWIM_ALIVE else state_at c i)" if i: "i < member_count c" for i
  proof -
    have "state_at d i = (if state_at (swim_expire ?c) i = SWIM_SUSPECTED \<and> i = t then SWIM_ALIVE else state_at (swim_expire ?c) i)"
      using d(2) i unfolding refutes_def count by blast
    then show ?thesis using expired [of i] i by auto
  qed
  moreover have "swim_wf d" "member_count d = member_count c" using d(2) unfolding refutes_def count by blast+
  ultimately show ?thesis using d(1) by blast
qed

text \<open>Two members, one of them suspected since time 0, after 4000 ms.\<close>

theorem swim_tick_effect_witness:
  "\<exists>d. (do { c \<leftarrow> swim_init 7 2; swim_tick 4000 (swim_suspect 1 c) }) = Some d \<and> state_at d 0 = SWIM_ALIVE \<and> state_at d 1 = SWIM_DEAD"
proof -
  define c where "c = swim_suspect 1 (the (swim_init 7 2))"
  have c: "sc_members c = [\<lparr>sm_id = 0, sm_address = 0xC0A80000, sm_state = SWIM_ALIVE, sm_incarnation = 0, sm_ping_target = -1,
        sm_suspect_since_ms = 0, sm_last_heard_ms = 0, sm_active = True\<rparr>,
      \<lparr>sm_id = 1, sm_address = 0xC0A80001, sm_state = SWIM_SUSPECTED, sm_incarnation = 1, sm_ping_target = -1,
        sm_suspect_since_ms = 0, sm_last_heard_ms = 0, sm_active = True\<rparr>]"
      "sc_protocol_time_ms c = 0" "sc_ping_sequence_index c = 0"
    by (simp_all add: c_def swim_suspect_def swim_update_def swim_find_def swim_init_def upt_rec)
  have "swim_wf c" by (auto simp: swim_wf_def c less_Suc_eq)
  then show ?thesis using swim_tick_effect [of c 4000]
    by (auto simp: c timed_out_def c_def [symmetric] swim_init_def less_Suc_eq) (auto simp: c_def swim_init_def)
qed

section \<open>Death is final\<close>

text \<open>
  The steps of a member: its own operations, under whatever identifiers members join, and messages of other members. A message may
  report anything about a member that is not dead here; about a dead one it reports death, or nothing newer than what is known.
  A JOIN message announces the member that it comes from. A call that reads or writes outside of the table is not a step.
\<close>

definition no_resurrection :: "swim_message \<Rightarrow> swim_cluster \<Rightarrow> bool" where
  "no_resurrection msg c \<longleftrightarrow> (\<forall>ch \<in> set (sg_membership_changes msg). \<forall>i < member_count c.
     sm_id ch = sm_id (sc_members c ! i) \<longrightarrow> state_at c i = SWIM_DEAD \<longrightarrow>
       sm_state ch = SWIM_DEAD \<or> sm_incarnation ch \<le> sm_incarnation (sc_members c ! i))"

definition announces_origin :: "swim_message \<Rightarrow> bool" where
  "announces_origin msg \<longleftrightarrow> (sg_type msg = SWIM_MSG_JOIN \<longrightarrow>
     (case sg_membership_changes msg of [] \<Rightarrow> True | m # _ \<Rightarrow> sm_id m = sg_origin_id msg))"

inductive swim_step :: "swim_cluster \<Rightarrow> swim_cluster \<Rightarrow> bool" where
  join: "swim_join new_id address contact c = Some d \<Longrightarrow> swim_step c d"
| leave: "swim_step c (swim_leave k c)"
| ping: "swim_ping from_id k c = Some (b, d) \<Longrightarrow> swim_step c d"
| ack: "swim_step c (snd (swim_ping_success k inc c))"
| suspect: "swim_step c (swim_suspect k c)"
| confirm: "swim_step c (swim_confirm_dead k c)"
| disseminate: "swim_disseminate c = Some d \<Longrightarrow> swim_step c d"
| receive: "announces_origin msg \<Longrightarrow> no_resurrection msg c \<Longrightarrow> swim_on_receive msg c = Some d \<Longrightarrow> swim_step c d"
| tick: "swim_tick delta c = Some d \<Longrightarrow> swim_step c d"

definition swim_start :: "swim_cluster \<Rightarrow> bool" where
  "swim_start c \<longleftrightarrow> (\<exists>time n. swim_init time n = Some c)"

text \<open>
  The loops act on the first entry with an identifier. An entry behind another one with the same identifier, which
  \<open>swim_join\<close> creates, is never touched and stays alive.
\<close>

definition swim_ok :: "swim_cluster \<Rightarrow> bool" where
  "swim_ok c \<longleftrightarrow> (\<forall>i < member_count c. swim_find c (sm_id (sc_members c ! i)) \<noteq> Some i \<longrightarrow> state_at c i = SWIM_ALIVE)"

definition buries :: "swim_cluster \<Rightarrow> swim_cluster \<Rightarrow> bool" where
  "buries c d \<longleftrightarrow> swim_ok d \<and> member_count c \<le> member_count d \<and>
     (\<forall>i < member_count c. state_at c i = SWIM_DEAD \<longrightarrow> state_at d i = SWIM_DEAD)"

lemma buries_trans: "buries c d \<Longrightarrow> buries d e \<Longrightarrow> buries c e"
  by (auto simp: buries_def)

text \<open>\<open>keeps c d\<close>: nothing that the states depend on has changed.\<close>

definition keeps :: "swim_cluster \<Rightarrow> swim_cluster \<Rightarrow> bool" where
  "keeps c d \<longleftrightarrow> map (\<lambda>m. (sm_id m, sm_state m, sm_incarnation m)) (sc_members d) =
     map (\<lambda>m. (sm_id m, sm_state m, sm_incarnation m)) (sc_members c)"

lemma keepsI:
  assumes "member_count d = member_count c"
    and "\<And>i. i < member_count c \<Longrightarrow> sm_id (sc_members d ! i) = sm_id (sc_members c ! i) \<and> state_at d i = state_at c i \<and>
      sm_incarnation (sc_members d ! i) = sm_incarnation (sc_members c ! i)"
  shows "keeps c d"
  using assms unfolding keeps_def by (intro nth_equalityI) auto

lemma keepsD:
  assumes "keeps c d"
  shows "member_count d = member_count c" "swim_find d k = swim_find c k"
    "i < member_count c \<Longrightarrow> sm_id (sc_members d ! i) = sm_id (sc_members c ! i) \<and> state_at d i = state_at c i \<and>
      sm_incarnation (sc_members d ! i) = sm_incarnation (sc_members c ! i)"
proof -
  show len: "member_count d = member_count c" using assms map_eq_imp_length_eq unfolding keeps_def by blast
  have nth: "sm_id (sc_members d ! i) = sm_id (sc_members c ! i) \<and> state_at d i = state_at c i \<and>
      sm_incarnation (sc_members d ! i) = sm_incarnation (sc_members c ! i)" if "i < member_count c" for i
    using arg_cong [where f = "\<lambda>xs. xs ! i", OF assms [unfolded keeps_def]] that len by simp
  then show "i < member_count c \<Longrightarrow> sm_id (sc_members d ! i) = sm_id (sc_members c ! i) \<and> state_at d i = state_at c i \<and>
      sm_incarnation (sc_members d ! i) = sm_incarnation (sc_members c ! i)" .
  have "map sm_id (sc_members d) = map sm_id (sc_members c)" using len nth by (intro nth_equalityI) simp_all
  then show "swim_find d k = swim_find c k" unfolding swim_find_def by (rule find_index_cong_keys)
qed

lemma keeps_trans: "keeps c d \<Longrightarrow> keeps d e \<Longrightarrow> keeps c e"
  by (simp add: keeps_def)

lemma keeps_ok: "keeps c d \<Longrightarrow> swim_ok d = swim_ok c"
  unfolding swim_ok_def using keepsD(1) [of c d] keepsD(2) [of c d] keepsD(3) [of c d] by auto

lemma keeps_buries: "keeps c d \<Longrightarrow> swim_ok c \<Longrightarrow> buries c d"
  using keeps_ok [of c d] keepsD [of c d] by (simp add: buries_def)

lemma keeps_fields [simp]:
  "keeps c (c\<lparr>sc_seed := s\<rparr>)" "keeps c (c\<lparr>sc_protocol_time_ms := t\<rparr>)" "keeps c (c\<lparr>sc_ping_sequence_index := k\<rparr>)" "keeps c c"
  by (simp_all add: keeps_def)

lemma keeps_hear: "keeps c (swim_hear P c)"
  by (rule keepsI) (simp_all add: swim_hear_def)

lemma keeps_ping: "swim_ping from_id k c = Some (b, d) \<Longrightarrow> keeps c d"
  by (rule keepsI) (auto simp: swim_ping_def nth_list_update split: if_splits)

lemma keeps_random: "swim_random_member e c = (t, d) \<Longrightarrow> keeps c d"
  by (auto simp: swim_random_member_def swim_rand_def Let_def split: if_splits)

lemma swim_update_at:
  assumes "i < member_count c"
  shows "sc_members (swim_update k f c) ! i = (if swim_find c k = Some i then f (sc_members c ! i) else sc_members c ! i)"
  using assms by (auto simp: swim_update_def nth_list_update split: option.split)

lemma swim_update_find:
  assumes "\<And>m. sm_id (f m) = sm_id m"
  shows "swim_find (swim_update k f c) j = swim_find c j"
proof -
  have "map sm_id (sc_members (swim_update k f c)) = map sm_id (sc_members c)"
    using assms by (intro nth_equalityI) (simp_all add: swim_update_fields swim_update_at)
  then show ?thesis unfolding swim_find_def by (rule find_index_cong_keys)
qed

lemma swim_find_id: "swim_find c k = Some i \<Longrightarrow> i < member_count c \<and> sm_id (sc_members c ! i) = k"
  unfolding swim_find_def using find_index_SomeD(1,2) [of "\<lambda>m. sm_id m = k" "sc_members c" i] by simp

lemma swim_ok_update:
  assumes "swim_ok c" and "\<And>m. sm_id (f m) = sm_id m"
  shows "swim_ok (swim_update k f c)"
  unfolding swim_ok_def
proof (intro allI impI)
  fix i assume i: "i < member_count (swim_update k f c)"
    and later: "swim_find (swim_update k f c) (sm_id (sc_members (swim_update k f c) ! i)) \<noteq> Some i"
  then have "swim_find c (sm_id (sc_members c ! i)) \<noteq> Some i"
    using assms(2) by (auto simp: swim_update_find swim_update_fields swim_update_at split: if_splits)
  moreover from this have "swim_find c k \<noteq> Some i" using swim_find_id by blast
  ultimately show "state_at (swim_update k f c) i = SWIM_ALIVE"
    using assms(1) i by (simp add: swim_ok_def swim_update_fields swim_update_at)
qed

lemma buries_update:
  assumes "swim_ok c" and "\<And>m. sm_id (f m) = sm_id m \<and> (sm_state m = SWIM_DEAD \<longrightarrow> sm_state (f m) = SWIM_DEAD)"
  shows "buries c (swim_update k f c)"
  using assms swim_ok_update [OF assms(1)] by (simp add: buries_def swim_update_fields swim_update_at)

lemma swim_ok_snoc:
  assumes "swim_ok c" and "sm_state m = SWIM_ALIVE \<or> swim_find c (sm_id m) = None"
  shows "swim_ok (c\<lparr>sc_members := sc_members c @ [m]\<rparr>)"
  unfolding swim_ok_def
proof (intro allI impI)
  let ?d = "c\<lparr>sc_members := sc_members c @ [m]\<rparr>"
  fix i assume i: "i < member_count ?d" and later: "swim_find ?d (sm_id (sc_members ?d ! i)) \<noteq> Some i"
  show "state_at ?d i = SWIM_ALIVE"
  proof (cases "i < member_count c")
    case True
    then have "swim_find c (sm_id (sc_members c ! i)) \<noteq> Some i"
      using later by (auto simp: swim_find_def find_index_append nth_append split: option.splits)
    then show ?thesis using assms(1) True by (simp add: swim_ok_def nth_append)
  next
    case False
    then have "i = member_count c" using i by simp
    then show ?thesis using assms(2) later by (auto simp: swim_find_def find_index_append)
  qed
qed

lemma buries_snoc:
  "swim_ok c \<Longrightarrow> sm_state m = SWIM_ALIVE \<or> swim_find c (sm_id m) = None \<Longrightarrow> buries c (c\<lparr>sc_members := sc_members c @ [m]\<rparr>)"
  using swim_ok_snoc [of c m] by (auto simp: buries_def nth_append)

lemma swim_apply_change_at:
  assumes "i < member_count c"
  shows "sm_id (sc_members (swim_apply_change ch c) ! i) = sm_id (sc_members c ! i)"
    and "swim_find c (sm_id ch) = Some i \<Longrightarrow> sm_incarnation (sc_members c ! i) < sm_incarnation ch \<Longrightarrow>
      state_at (swim_apply_change ch c) i = sm_state ch \<and> sm_incarnation (sc_members (swim_apply_change ch c) ! i) = sm_incarnation ch"
    and "\<not> (swim_find c (sm_id ch) = Some i \<and> sm_incarnation (sc_members c ! i) < sm_incarnation ch) \<Longrightarrow>
      sc_members (swim_apply_change ch c) ! i = sc_members c ! i"
  using assms by (auto simp: swim_apply_change_def swim_update_at Let_def)

lemma swim_apply_change_count: "member_count (swim_apply_change ch c) = member_count c"
  by (simp add: swim_apply_change_def swim_update_fields)

lemma swim_apply_change_ok: "swim_ok c \<Longrightarrow> swim_ok (swim_apply_change ch c)"
  unfolding swim_apply_change_def by (rule swim_ok_update) (simp_all add: Let_def)

text \<open>\<open>remembers c d\<close>: \<open>d\<close> has the members of \<open>c\<close> in their places, and knows at least as much about the dead ones.\<close>

definition remembers :: "swim_cluster \<Rightarrow> swim_cluster \<Rightarrow> bool" where
  "remembers c d \<longleftrightarrow> swim_ok d \<and> member_count c \<le> member_count d \<and> (\<forall>i < member_count c.
     sm_id (sc_members d ! i) = sm_id (sc_members c ! i) \<and>
     (state_at c i = SWIM_DEAD \<longrightarrow> state_at d i = SWIM_DEAD \<and> sm_incarnation (sc_members c ! i) \<le> sm_incarnation (sc_members d ! i)))"

lemma remembers_change:
  assumes "remembers c d"
    and "\<And>i. i < member_count c \<Longrightarrow> sm_id ch = sm_id (sc_members c ! i) \<Longrightarrow> state_at c i = SWIM_DEAD \<Longrightarrow>
      sm_state ch = SWIM_DEAD \<or> sm_incarnation ch \<le> sm_incarnation (sc_members c ! i)"
  shows "remembers c (swim_apply_change ch d)"
proof -
  let ?e = "swim_apply_change ch d"
  have "sm_id (sc_members ?e ! i) = sm_id (sc_members c ! i) \<and>
      (state_at c i = SWIM_DEAD \<longrightarrow> state_at ?e i = SWIM_DEAD \<and> sm_incarnation (sc_members c ! i) \<le> sm_incarnation (sc_members ?e ! i))"
    if i: "i < member_count c" for i
  proof -
    have d: "i < member_count d" "sm_id (sc_members d ! i) = sm_id (sc_members c ! i)"
        "state_at c i = SWIM_DEAD \<Longrightarrow> state_at d i = SWIM_DEAD \<and> sm_incarnation (sc_members c ! i) \<le> sm_incarnation (sc_members d ! i)"
      using assms(1) i by (auto simp: remembers_def)
    show ?thesis
    proof (cases "swim_find d (sm_id ch) = Some i \<and> sm_incarnation (sc_members d ! i) < sm_incarnation ch")
      case True
      then have "sm_id ch = sm_id (sc_members c ! i)" using swim_find_id d(2) by metis
      then show ?thesis
        using True swim_apply_change_at(1,2) [OF d(1), of ch] d(2,3) assms(2) [OF i] by fastforce
    next
      case False
      then show ?thesis using swim_apply_change_at(3) [OF d(1), of ch] d by simp
    qed
  qed
  then show ?thesis
    using assms(1) by (simp add: remembers_def swim_apply_change_count swim_apply_change_ok)
qed

lemma remembers_changes:
  assumes "remembers c d"
    and "\<forall>ch \<in> set chs. \<forall>i < member_count c. sm_id ch = sm_id (sc_members c ! i) \<longrightarrow> state_at c i = SWIM_DEAD \<longrightarrow>
      sm_state ch = SWIM_DEAD \<or> sm_incarnation ch \<le> sm_incarnation (sc_members c ! i)"
  shows "remembers c (fold swim_apply_change chs d)"
  using assms
proof (induction chs arbitrary: d)
  case Nil
  then show ?case by simp
next
  case (Cons ch chs)
  have "remembers c (swim_apply_change ch d)" by (rule remembers_change [OF Cons.prems(1)]) (use Cons.prems(2) in simp)
  then show ?case using Cons.IH Cons.prems(2) by simp
qed

lemma remembers_buries: "remembers c d \<Longrightarrow> buries c d"
  by (simp add: remembers_def buries_def)

lemma keeps_remembers: "keeps c d \<Longrightarrow> swim_ok c \<Longrightarrow> remembers c d"
  using keeps_ok [of c d] keepsD(1) [of c d] keepsD(3) [of c d] by (simp add: remembers_def)

lemma remembers_snoc:
  "swim_ok c \<Longrightarrow> sm_state m = SWIM_ALIVE \<or> swim_find c (sm_id m) = None \<Longrightarrow> remembers c (c\<lparr>sc_members := sc_members c @ [m]\<rparr>)"
  using swim_ok_snoc [of c m] by (auto simp: remembers_def nth_append)

lemma swim_receive_buries:
  assumes "swim_ok c" and "announces_origin msg" and "no_resurrection msg c" and "swim_on_receive msg c = Some d"
  shows "buries c d"
proof -
  from assms(4) obtain e where d: "d = fold swim_apply_change (sg_membership_changes msg) e"
      and "keeps c e \<or> (\<exists>m ms. swim_find c (sg_origin_id msg) = None \<and> sg_type msg = SWIM_MSG_JOIN \<and>
        sg_membership_changes msg = m # ms \<and> e = c\<lparr>sc_members := sc_members c @ [m\<lparr>sm_last_heard_ms := sc_protocol_time_ms c\<rparr>]\<rparr>)"
    unfolding swim_on_receive_def
    by (cases "sg_type msg") (force simp: keeps_hear split: if_splits list.splits)+
  then have "remembers c e"
  proof (elim disjE exE conjE)
    fix m ms assume new: "swim_find c (sg_origin_id msg) = None" "sg_type msg = SWIM_MSG_JOIN" "sg_membership_changes msg = m # ms"
      and e: "e = c\<lparr>sc_members := sc_members c @ [m\<lparr>sm_last_heard_ms := sc_protocol_time_ms c\<rparr>]\<rparr>"
    then have "swim_find c (sm_id m) = None" using assms(2) by (simp add: announces_origin_def)
    then show ?thesis unfolding e by (intro remembers_snoc [OF assms(1)]) simp
  qed (rule keeps_remembers [OF _ assms(1)])
  then show ?thesis using remembers_changes assms(3) unfolding d no_resurrection_def by (blast intro: remembers_buries)
qed

lemma swim_join_buries:
  assumes "swim_ok c" and "swim_join new_id address contact c = Some d"
  shows "buries c d"
proof (cases "member_count c \<ge> SWIM_MAX_MEMBERS")
  case True
  then show ?thesis using assms keeps_buries [of c c] by (simp add: swim_join_def)
next
  case False
  define m where "m = \<lparr>sm_id = new_id, sm_address = address, sm_state = SWIM_ALIVE, sm_incarnation = 0, sm_ping_target = -1,
    sm_suspect_since_ms = 0, sm_last_heard_ms = sc_protocol_time_ms c, sm_active = True\<rparr>"
  define e where "e = c\<lparr>sc_members := sc_members c @ [m]\<rparr>"
  have e: "buries c e" unfolding e_def by (rule buries_snoc [OF assms(1)]) (simp add: m_def)
  have "swim_find e new_id \<noteq> None"
    by (auto simp: e_def m_def swim_find_def find_index_append split: option.splits)
  then have "d = e \<or> d = swim_apply_change m e"
    using False assms(2) by (auto simp: swim_join_def swim_on_receive_def m_def [symmetric] e_def [symmetric] Let_def split: if_splits)
  moreover have "buries e (swim_apply_change m e)"
    unfolding swim_apply_change_def by (rule buries_update) (use e in \<open>simp_all add: m_def buries_def\<close>)
  ultimately show ?thesis using e buries_trans by blast
qed

text \<open>Dissemination sends the first entries of their identifiers only, with the incarnations that the receiver has already.\<close>

lemma keeps_stale:
  assumes "\<forall>ch \<in> set chs. \<forall>j. swim_find c (sm_id ch) = Some j \<longrightarrow> sm_incarnation ch \<le> sm_incarnation (sc_members c ! j)"
  shows "keeps c (fold swim_apply_change chs c)"
  using assms
proof (induction chs arbitrary: c)
  case Nil
  then show ?case by simp
next
  case (Cons ch chs)
  have same: "sc_members (swim_apply_change ch c) ! i = sc_members c ! i" if "i < member_count c" for i
    by (rule swim_apply_change_at(3) [OF that]) (use Cons.prems in \<open>auto simp: not_less\<close>)
  then have k: "keeps c (swim_apply_change ch c)" by (intro keepsI) (simp_all add: swim_apply_change_count)
  have "keeps (swim_apply_change ch c) (fold swim_apply_change chs (swim_apply_change ch c))"
    using Cons.prems same swim_find_id by (intro Cons.IH) (auto simp: keepsD(2) [OF k])
  then show ?case using keeps_trans [OF k] by simp
qed

lemma swim_news_first:
  assumes "swim_ok c" and "ch \<in> set (swim_news c)" and "swim_find c (sm_id ch) = Some j"
  shows "ch = sc_members c ! j"
proof -
  have "ch \<in> set (sc_members c)" "sm_state ch \<noteq> SWIM_ALIVE"
    using in_set_takeD [OF assms(2) [unfolded swim_news_def]] by auto
  then obtain i where "i < member_count c" "ch = sc_members c ! i" "state_at c i \<noteq> SWIM_ALIVE" by (auto simp: in_set_conv_nth)
  then show ?thesis using assms(1,3) by (auto simp: swim_ok_def)
qed

lemma keeps_disseminate_from:
  assumes "swim_ok c" and "swim_disseminate_from i c = Some d"
  shows "keeps c d"
proof -
  obtain t e where r: "swim_random_member (int i) c = (t, e)" by fastforce
  have e: "keeps c e" by (rule keeps_random [OF r])
  consider "d = c" | "d = e" | "d = fold swim_apply_change (swim_news e) (swim_hear (\<lambda>m. sm_id m = t \<and> sm_active m) e)"
    using assms(2) r by (auto simp: swim_disseminate_from_def swim_on_receive_def split: if_splits)
  then show ?thesis
  proof cases
    case 3
    let ?h = "swim_hear (\<lambda>m. sm_id m = t \<and> sm_active m) e"
    have ok: "swim_ok e" using keeps_ok [OF e] assms(1) by simp
    have "keeps ?h d" unfolding 3
    proof (rule keeps_stale, intro ballI allI impI)
      fix ch j assume ch: "ch \<in> set (swim_news e)" "swim_find ?h (sm_id ch) = Some j"
      then have "swim_find e (sm_id ch) = Some j" by (simp add: keepsD(2) [OF keeps_hear])
      then show "sm_incarnation ch \<le> sm_incarnation (sc_members ?h ! j)"
        using swim_news_first [OF ok ch(1)] swim_find_id keepsD(3) [OF keeps_hear] by (metis order_refl)
    qed
    then show ?thesis using keeps_trans [OF e] keeps_trans [OF keeps_hear] by blast
  qed (use e in simp_all)
qed

lemma keeps_disseminate_loop: "swim_ok c \<Longrightarrow> swim_disseminate_loop is c = Some d \<Longrightarrow> keeps c d"
proof (induction "is" arbitrary: c)
  case Nil
  then show ?case by simp
next
  case (Cons i "is")
  from Cons.prems(2) obtain e where e: "swim_disseminate_from i c = Some e" "swim_disseminate_loop is e = Some d"
    by (auto split: bind_splits)
  have k: "keeps c e" by (rule keeps_disseminate_from [OF Cons.prems(1) e(1)])
  then show ?case using Cons.IH [OF _ e(2)] Cons.prems(1) keeps_ok [OF k] keeps_trans by blast
qed

lemma swim_expire_buries:
  assumes "swim_ok c"
  shows "buries c (swim_expire c)"
proof -
  have "map sm_id (sc_members (swim_expire c)) = map sm_id (sc_members c)" by (simp add: swim_expire_def comp_def)
  then have find: "swim_find (swim_expire c) k = swim_find c k" for k unfolding swim_find_def by (rule find_index_cong_keys)
  have "swim_ok (swim_expire c)" unfolding swim_ok_def find using assms by (auto simp: swim_ok_def swim_expire_def)
  then show ?thesis by (simp add: buries_def swim_expire_def)
qed

lemma swim_ack_buries: "swim_ok c \<Longrightarrow> buries c (snd (swim_ping_success k inc c))"
  unfolding swim_ping_success_def snd_conv by (rule buries_update) (simp_all add: Let_def)

lemma swim_suspect_buries: "swim_ok c \<Longrightarrow> buries c (swim_suspect k c)"
  unfolding swim_suspect_def by (rule buries_update) simp_all

lemma swim_probe_buries:
  assumes "swim_ok c" and "swim_probe c = Some d"
  shows "buries c d"
proof -
  obtain t e where r: "swim_random_member (int (sc_ping_sequence_index c)) c = (t, e)" by fastforce
  have e: "keeps c e" by (rule keeps_random [OF r])
  show ?thesis
  proof (cases "t < 0")
    case True
    then show ?thesis using assms r keeps_buries [OF e] by (simp add: swim_probe_def)
  next
    case False
    then obtain b f where f: "swim_ping (sc_ping_sequence_index e) t e = Some (b, f)"
      using assms(2) r by (auto simp: swim_probe_def split: bind_splits)
    obtain x g where g: "swim_rand f = (x, g)" by fastforce
    have "keeps f g" using g by (auto simp: swim_rand_def Let_def)
    then have cg: "keeps c g" using keeps_trans [OF keeps_trans [OF e keeps_ping [OF f]]] by blast
    then have ok: "swim_ok g" using keeps_ok assms(1) by blast
    have "d = snd (swim_ping_success t 0 g) \<or> d = g \<or> d = swim_suspect t g"
      using False assms(2) r f g by (auto simp: swim_probe_def Let_def split: if_splits bind_splits)
    then show ?thesis
      using keeps_buries [OF cg assms(1)] swim_ack_buries [OF ok] swim_suspect_buries [OF ok] buries_trans by blast
  qed
qed

lemma swim_tick_buries:
  assumes "swim_ok c" and "swim_tick delta c = Some d"
  shows "buries c d"
proof -
  let ?c = "c\<lparr>sc_protocol_time_ms := sc_protocol_time_ms c + delta\<rparr>"
  let ?e = "swim_expire ?c"
  have ok: "swim_ok ?c" using assms(1) keeps_ok [OF keeps_fields(2)] by blast
  have e: "buries c ?e" by (rule buries_trans [OF keeps_buries [OF keeps_fields(2) assms(1)] swim_expire_buries [OF ok]])
  show ?thesis
  proof (cases "d = ?e")
    case True
    then show ?thesis using e by simp
  next
    case False
    then obtain f where f: "swim_probe ?e = Some f"
        "swim_disseminate (f\<lparr>sc_ping_sequence_index := (sc_ping_sequence_index f + 1) mod member_count f\<rparr>) = Some d"
      using assms(2) by (auto simp: swim_tick_def Let_def split: if_splits bind_splits)
    have "buries ?e f" by (rule swim_probe_buries [OF _ f(1)]) (use e in \<open>simp add: buries_def\<close>)
    then have cf: "buries c f" by (rule buries_trans [OF e])
    then have okf: "swim_ok f" by (simp add: buries_def)
    have "keeps f d"
      using f(2) keeps_disseminate_loop keeps_ok [OF keeps_fields(3)] okf keeps_trans [OF keeps_fields(3)] unfolding swim_disseminate_def by blast
    then show ?thesis using buries_trans [OF cf keeps_buries [OF _ okf]] by blast
  qed
qed

lemma swim_step_buries: "swim_step c d \<Longrightarrow> swim_ok c \<Longrightarrow> buries c d"
proof (induction rule: swim_step.induct)
  case (leave c k)
  then show ?case unfolding swim_leave_def by (intro buries_update) simp_all
next
  case (confirm c k)
  then show ?case unfolding swim_confirm_dead_def by (intro buries_update) simp_all
next
  case (disseminate c d)
  then show ?case using keeps_buries keeps_disseminate_loop unfolding swim_disseminate_def by blast
qed (blast intro: swim_join_buries keeps_buries keeps_ping swim_ack_buries swim_suspect_buries swim_receive_buries swim_tick_buries)+

lemma swim_start_ok: "swim_start c \<Longrightarrow> swim_ok c"
  by (auto simp: swim_start_def swim_init_def swim_ok_def split: if_splits)

interpretation swim: invariant_system swim_start swim_step swim_ok
  by unfold_locales (use swim_start_ok swim_step_buries in \<open>auto simp: buries_def\<close>)

text \<open>
  C9. Death is final: an entry of the member table that is dead in a reachable state is dead in every later state, through
  joins, leaves, probes, acknowledgements, suspicions, dissemination, ticks and messages in any order. Members join under
  whatever identifiers; one that joins under the identifier of a dead entry gets an entry of its own. The conditions: a
  received JOIN message announces the member that it comes from, no received message reports a dead member as living or
  suspected with a newer incarnation, and no call leaves the table (the code uses identifiers as indices in places).
\<close>

theorem swim_dead_is_final:
  assumes "reach swim_start swim_step c" and "swim_step\<^sup>*\<^sup>* c d" and "i < member_count c" and "state_at c i = SWIM_DEAD"
  shows "i < member_count d \<and> state_at d i = SWIM_DEAD"
  using assms(2)
proof (induction rule: rtranclp_induct)
  case (step d e)
  have "swim_ok d" using swim.reach_inv_rtranclp [OF swim.reach_inv [OF assms(1)] step.hyps(1)] .
  then show ?case using swim_step_buries [OF step.hyps(2)] step.IH by (auto simp: buries_def)
qed (use assms in simp)

text \<open>A member that joined as number 10 leaves, is acknowledged late and stays dead in place 3.\<close>

theorem swim_dead_is_final_witness:
  "\<exists>c. swim_join 10 1 0 (the (swim_init 7 3)) = Some c \<and> state_at (snd (swim_ping_success 10 9 (swim_leave 10 c))) 3 = SWIM_DEAD"
proof -
  let ?s = "the (swim_init 7 3)"
  have start: "swim_start ?s" unfolding swim_start_def by (rule exI [of _ 7], rule exI [of _ 3]) (simp add: swim_init_def)
  obtain c where c: "swim_join 10 1 0 ?s = Some c" "3 < member_count (swim_leave 10 c)" "state_at (swim_leave 10 c) 3 = SWIM_DEAD"
    by (simp add: swim_join_def swim_on_receive_def swim_apply_change_def swim_leave_def swim_update_def swim_find_def swim_init_def upt_rec)
  from start c(1) have "reach swim_start swim_step (swim_leave 10 c)" by (meson reach.intros swim_step.join swim_step.leave)
  moreover have "swim_step\<^sup>*\<^sup>* (swim_leave 10 c) (snd (swim_ping_success 10 9 (swim_leave 10 c)))" using swim_step.ack by blast
  ultimately show ?thesis using swim_dead_is_final c by blast
qed

section \<open>Where the code departs from the protocol\<close>

lemma swim_apply_change_wf: "swim_wf d \<Longrightarrow> swim_wf (swim_apply_change ch d)"
  unfolding swim_apply_change_def by (rule swim_update_wf) (simp_all add: Let_def)

text \<open>A newer report of a suspicion takes a dead member back, and an acknowledgement then makes it alive.\<close>

lemma swim_newer_suspicion_revives:
  assumes "swim_wf c" and "i < member_count c" and "sm_incarnation (sc_members c ! i) < inc"
  shows "state_at (snd (swim_ping_success (int i) 0 (swim_apply_change ((sc_members c ! i)\<lparr>sm_state := SWIM_SUSPECTED, sm_incarnation := inc\<rparr>) c))) i = SWIM_ALIVE"
proof -
  let ?ch = "(sc_members c ! i)\<lparr>sm_state := SWIM_SUSPECTED, sm_incarnation := inc\<rparr>"
  have "sm_id ?ch = int i" using assms by (simp add: swim_wf_def)
  then have "state_at (swim_apply_change ?ch c) i = SWIM_SUSPECTED"
    using assms by (simp add: swim_apply_change_def swim_update_nth Let_def)
  then show ?thesis using swim_ping_success_refutes [OF swim_apply_change_wf [OF assms(1)], of i ?ch 0] assms(2)
    by (simp add: refutes_def swim_apply_change_count)
qed

text \<open>Identifiers are used as indices: the indirect probe of a member that joined as number 40 reads outside of the table.\<close>

lemma swim_identifier_as_index:
  "(do { c \<leftarrow> swim_init 7 2; c \<leftarrow> swim_join 40 1 0 c; swim_indirect_ping c 40 [0] }) = None"
  by code_simp

end
