(* ===== verification/ElectionProtocols.thy ===== *)
theory ElectionProtocols
  imports Net_Prelude "HOL-Library.Monad_Syntax"
begin

text \<open>
  The elections of \<open>mini-dist-protocol/src/leader_election.c\<close>: the bully algorithm, the token ring and the choice of the
  lowest sequential node.

  A cluster is the list of its nodes, whose position is their number. The recursion of the bully algorithm and the token's
  round are total functions; the two loops of the ring that look for a live node can run forever, so they and the crash
  handler return an option. Printing and the message estimates, which are fixed expressions, are left out.
\<close>

abbreviation BULLY_MAX_NODES :: nat where "BULLY_MAX_NODES \<equiv> 10"
abbreviation RING_MAX_NODES :: nat where "RING_MAX_NODES \<equiv> 10"
abbreviation ZK_MAX_NODES :: nat where "ZK_MAX_NODES \<equiv> 10"

section \<open>The bully algorithm\<close>

datatype bully_state = BULLY_IDLE | BULLY_ELECTION | BULLY_LEADER

record bully_node =
  bn_id :: int
  bn_leader_id :: int
  bn_state :: bully_state
  bn_active :: bool
  bn_message_count :: int

type_synonym bully_cluster = "bully_node list"

definition bully_init :: "nat \<Rightarrow> bully_cluster option" where
  "bully_init n = (if n > BULLY_MAX_NODES then None
     else Some (map (\<lambda>i. \<lparr>bn_id = int i, bn_leader_id = -1, bn_state = BULLY_IDLE, bn_active = True, bn_message_count = 0\<rparr>) [0..<n]))"

definition bully_declare_leader :: "nat \<Rightarrow> bully_cluster \<Rightarrow> bully_cluster" where
  "bully_declare_leader leader c =
     (let c = map (\<lambda>(i, nd). nd\<lparr>bn_leader_id := int leader, bn_state := BULLY_LEADER,
            bn_message_count := (if i \<noteq> leader then bn_message_count nd + 1 else bn_message_count nd)\<rparr>) (enumerate 0 c)
      in c[leader := (c ! leader)\<lparr>bn_state := BULLY_LEADER\<rparr>])"

definition bully_contact :: "nat \<Rightarrow> nat \<Rightarrow> bully_cluster \<Rightarrow> bully_cluster" where
  "bully_contact initiator i c =
     (let c = c[i := (c ! i)\<lparr>bn_state := BULLY_ELECTION, bn_message_count := bn_message_count (c ! i) + 1\<rparr>]
      in c[initiator := (c ! initiator)\<lparr>bn_message_count := bn_message_count (c ! initiator) + 1\<rparr>])"

text \<open>The loop of \<open>bully_election\<close> from node \<open>i\<close> on, with the values of \<open>highest\<close> and \<open>any_response\<close>, and what follows it.\<close>

function bully_loop :: "nat \<Rightarrow> nat \<Rightarrow> nat \<Rightarrow> nat \<Rightarrow> bool \<Rightarrow> bully_cluster \<Rightarrow> nat \<times> bully_cluster" where
  "bully_loop n initiator i highest any_response c =
     (if i < n then
        (if i = initiator \<or> \<not> bn_active (c ! i) then bully_loop n initiator (i + 1) highest any_response c
         else let c = bully_contact initiator i c in
         if i > highest
         then (case bully_loop n i 0 i False c of (sub_winner, c) \<Rightarrow> bully_loop n initiator (i + 1) (if sub_winner > i then sub_winner else i) True c)
         else bully_loop n initiator (i + 1) highest any_response c)
      else (highest, if \<not> any_response \<and> bn_active (c ! initiator) then bully_declare_leader initiator c else c))"
  by pat_completeness auto
termination by (relation "inv_image (less_than <*lex*> less_than) (\<lambda>(n, initiator, i, highest, any, c). (n - highest, n - i))") auto

definition bully_election :: "nat \<Rightarrow> bully_cluster \<Rightarrow> nat \<times> bully_cluster" where
  "bully_election initiator c = bully_loop (length c) initiator 0 initiator False c"

definition highest_active :: "bully_cluster \<Rightarrow> int" where
  "highest_active c = fold (\<lambda>i h. if bn_active (c ! i) \<and> int i > h then int i else h) [0..<length c] (-1)"

definition bully_node_crash :: "int \<Rightarrow> bully_cluster \<Rightarrow> bully_cluster" where
  "bully_node_crash node_id c =
     (if node_id < 0 \<or> node_id \<ge> int (length c) then c
      else let k = nat node_id; c = c[k := (c ! k)\<lparr>bn_active := False, bn_state := BULLY_IDLE\<rparr>] in
      if bn_leader_id (c ! k) = node_id
      then let h = highest_active c in if h \<ge> 0 then snd (bully_election (nat h) c) else c
      else c)"

definition bully_node_recover :: "int \<Rightarrow> bully_cluster \<Rightarrow> bully_cluster" where
  "bully_node_recover node_id c =
     (if node_id < 0 \<or> node_id \<ge> int (length c) then c
      else let k = nat node_id; c = c[k := (c ! k)\<lparr>bn_active := True, bn_state := BULLY_IDLE\<rparr>] in
      if node_id > bn_leader_id (c ! 0) then snd (bully_election k c) else c)"

section \<open>The lowest sequential node\<close>

record zk_node =
  zn_id :: int
  zn_sequence :: int
  zn_leader_id :: int
  zn_active :: bool
  zn_message_count :: int

record zk_cluster =
  zk_nodes :: "zk_node list"
  zk_next_sequence :: int

definition zk_init :: "nat \<Rightarrow> zk_cluster option" where
  "zk_init n = (if n > ZK_MAX_NODES then None
     else Some \<lparr>zk_nodes = map (\<lambda>i. \<lparr>zn_id = int i, zn_sequence = -1, zn_leader_id = -1, zn_active = True, zn_message_count = 0\<rparr>) [0..<n],
            zk_next_sequence = 0\<rparr>)"

definition zk_create_ephemeral_sequential :: "int \<Rightarrow> zk_cluster \<Rightarrow> int \<times> zk_cluster" where
  "zk_create_ephemeral_sequential node_id c =
     (if node_id < 0 \<or> node_id \<ge> int (length (zk_nodes c)) then (-1, c)
      else let seq = zk_next_sequence c; k = nat node_id; nd = zk_nodes c ! k
           in (seq, c\<lparr>zk_nodes := (zk_nodes c)[k := nd\<lparr>zn_sequence := seq, zn_message_count := zn_message_count nd + 1\<rparr>],
                 zk_next_sequence := seq + 1\<rparr>))"

definition zk_watch_leader :: "int \<Rightarrow> zk_cluster \<Rightarrow> zk_cluster" where
  "zk_watch_leader node_id c =
     (case find_index (\<lambda>nd. zn_id nd = node_id) (zk_nodes c) of
        None \<Rightarrow> c
      | Some k \<Rightarrow> c\<lparr>zk_nodes := (zk_nodes c)[k := (zk_nodes c ! k)\<lparr>zn_message_count := zn_message_count (zk_nodes c ! k) + 1\<rparr>]\<rparr>)"

definition zk_create_at :: "nat \<Rightarrow> zk_cluster \<Rightarrow> zk_cluster" where
  "zk_create_at i c = (if zn_active (zk_nodes c ! i) then snd (zk_create_ephemeral_sequential (int i) c) else c)"

definition zk_create_all :: "zk_cluster \<Rightarrow> zk_cluster" where
  "zk_create_all c = fold zk_create_at [0..<length (zk_nodes c)] c"

definition zk_lowest_step :: "zk_cluster \<Rightarrow> nat \<Rightarrow> int \<times> int \<Rightarrow> int \<times> int" where
  "zk_lowest_step c i = (\<lambda>(lowest_id, lowest_seq).
     let nd = zk_nodes c ! i in
     if zn_active nd \<and> zn_sequence nd \<ge> 0 \<and> zn_sequence nd < lowest_seq then (zn_id nd, zn_sequence nd) else (lowest_id, lowest_seq))"

definition zk_lowest :: "zk_cluster \<Rightarrow> int" where
  "zk_lowest c = fst (fold (zk_lowest_step c) [0..<length (zk_nodes c)] (-1, 999999))"

definition zk_follow :: "int \<Rightarrow> nat \<Rightarrow> zk_cluster \<Rightarrow> zk_cluster" where
  "zk_follow lowest_id i c = zk_watch_leader (int i) (c\<lparr>zk_nodes := (zk_nodes c)[i := (zk_nodes c ! i)\<lparr>zn_leader_id := lowest_id\<rparr>]\<rparr>)"

definition zk_leader_election :: "zk_cluster \<Rightarrow> int \<times> zk_cluster" where
  "zk_leader_election c =
     (let c = zk_create_all c; lowest_id = zk_lowest c
      in (lowest_id, if lowest_id \<ge> 0 then fold (zk_follow lowest_id) [0..<length (zk_nodes c)] c else c))"

definition zk_node_crash :: "int \<Rightarrow> zk_cluster \<Rightarrow> zk_cluster" where
  "zk_node_crash node_id c =
     (if node_id < 0 \<or> node_id \<ge> int (length (zk_nodes c)) then c
      else let k = nat node_id; c = c\<lparr>zk_nodes := (zk_nodes c)[k := (zk_nodes c ! k)\<lparr>zn_active := False, zn_sequence := -1\<rparr>]\<rparr>
           in if zn_leader_id (zk_nodes c ! k) = node_id then snd (zk_leader_election c) else c)"

section \<open>The token ring\<close>

record ring_token =
  tok_candidate_id :: int
  tok_highest_id :: int
  tok_hop_count :: nat
  tok_complete :: bool

record ring_node =
  rn_id :: int
  rn_leader_id :: int
  rn_next_id :: nat
  rn_active :: bool
  rn_token :: ring_token
  rn_token_owner :: bool
  rn_message_count :: int

type_synonym ring_cluster = "ring_node list"

abbreviation zero_token :: ring_token where
  "zero_token \<equiv> \<lparr>tok_candidate_id = 0, tok_highest_id = 0, tok_hop_count = 0, tok_complete = False\<rparr>"

definition ring_init :: "nat \<Rightarrow> ring_cluster option" where
  "ring_init n = (if n > RING_MAX_NODES then None
     else Some (map (\<lambda>i. \<lparr>rn_id = int i, rn_leader_id = -1, rn_next_id = (i + 1) mod n, rn_active = True, rn_token = zero_token,
            rn_token_owner = False, rn_message_count = 0\<rparr>) [0..<n]))"

text \<open>The \<open>do\<close> loop that skips dead nodes; \<open>None\<close> is its \<open>break\<close>.\<close>

function ring_skip :: "ring_cluster \<Rightarrow> nat \<Rightarrow> nat \<Rightarrow> nat option" where
  "ring_skip c skipped candidate =
     (let candidate = (candidate + 1) mod length c; skipped = skipped + 1 in
      if skipped > length c then None
      else if rn_active (c ! candidate) then Some candidate
      else ring_skip c skipped candidate)"
  by pat_completeness auto
termination by (relation "measure (\<lambda>(c, skipped, _). length c + 1 - skipped)") auto

definition ring_next_live :: "ring_cluster \<Rightarrow> nat \<Rightarrow> nat option" where
  "ring_next_live c current = (let next = rn_next_id (c ! current) in if rn_active (c ! next) then Some next else ring_skip c 0 next)"

definition ring_visit :: "nat \<Rightarrow> ring_cluster \<Rightarrow> ring_cluster" where
  "ring_visit next c = c[next := (c ! next)\<lparr>rn_message_count := rn_message_count (c ! next) + 1, rn_token_owner := True\<rparr>]"

function ring_round :: "nat \<Rightarrow> nat \<Rightarrow> ring_token \<Rightarrow> ring_cluster \<Rightarrow> int \<times> ring_cluster" where
  "ring_round initiator current token c =
     (if \<not> tok_complete token \<and> tok_hop_count token < RING_MAX_NODES * 2
      then (case ring_next_live c current of
              None \<Rightarrow> (-1, c)
            | Some next \<Rightarrow>
                let c = ring_visit next c;
                    token = (if rn_id (c ! next) > tok_highest_id token then token\<lparr>tok_highest_id := rn_id (c ! next)\<rparr> else token);
                    token = token\<lparr>tok_hop_count := tok_hop_count token + 1\<rparr>
                in if next = initiator
                   then (tok_highest_id token, map (\<lambda>nd. nd\<lparr>rn_leader_id := tok_highest_id token, rn_token_owner := False\<rparr>) c)
                   else ring_round initiator next token (c[next := (c ! next)\<lparr>rn_token := token\<rparr>]))
      else (-1, c))"
  by pat_completeness auto
termination by (relation "measure (\<lambda>(_, _, token, _). RING_MAX_NODES * 2 - tok_hop_count token)") (auto simp: Let_def split: if_splits)

definition ring_election_proto :: "nat \<Rightarrow> ring_cluster \<Rightarrow> int \<times> ring_cluster" where
  "ring_election_proto initiator c =
     (let token = \<lparr>tok_candidate_id = int initiator, tok_highest_id = int initiator, tok_hop_count = 0, tok_complete = False\<rparr>;
          nd = c ! initiator
      in ring_round initiator initiator token
           (c[initiator := nd\<lparr>rn_token := token, rn_token_owner := True, rn_message_count := rn_message_count nd + 1\<rparr>]))"

definition ring_pass_token :: "int \<Rightarrow> ring_cluster \<Rightarrow> bool \<times> ring_cluster" where
  "ring_pass_token from_id c =
     (if from_id < 0 \<or> from_id \<ge> int (length c) then (False, c)
      else let k = nat from_id in
      if \<not> rn_token_owner (c ! k) then (False, c)
      else let next = rn_next_id (c ! k);
               c = c[next := (c ! next)\<lparr>rn_token := rn_token (c ! k), rn_token_owner := True\<rparr>]
           in (True, c[k := (c ! k)\<lparr>rn_token_owner := False, rn_message_count := rn_message_count (c ! k) + 1\<rparr>]))"

text \<open>The two loops of the crash handler: from \<open>k\<close> on, to the first node at which \<open>stop\<close> holds.\<close>

partial_function (option) ring_seek :: "(nat \<Rightarrow> bool) \<Rightarrow> nat \<Rightarrow> nat \<Rightarrow> nat option" where
  "ring_seek stop n k = (if stop k then Some k else ring_seek stop n ((k + 1) mod n))"

definition ring_node_crash :: "int \<Rightarrow> ring_cluster \<Rightarrow> ring_cluster option" where
  "ring_node_crash node_id c =
     (if node_id < 0 \<or> node_id \<ge> int (length c) then Some c
      else let k = nat node_id; n = length c; c = c[k := (c ! k)\<lparr>rn_active := False\<rparr>] in do {
        c \<leftarrow> (case find_index (\<lambda>nd. rn_next_id nd = k) c of
                None \<Rightarrow> Some c
              | Some i \<Rightarrow> do {
                  new_next \<leftarrow> ring_seek (\<lambda>j. rn_active (c ! j) \<or> j = i) n ((k + 1) mod n);
                  Some (c[i := (c ! i)\<lparr>rn_next_id := new_next\<rparr>])
                });
        if rn_leader_id (c ! k) = node_id
        then do {
          next_alive \<leftarrow> ring_seek (\<lambda>j. rn_active (c ! j)) n ((k + 1) mod n);
          Some (snd (ring_election_proto next_alive c))
        }
        else Some c
      })"

declare bully_loop.simps [simp del] ring_skip.simps [simp del] ring_round.simps [simp del]

section \<open>The bully algorithm elects the highest live node\<close>

definition bully_alive :: "bully_cluster \<Rightarrow> nat set" where
  "bully_alive c = {i. i < length c \<and> bn_active (c ! i)}"

abbreviation bully_led_by :: "nat \<Rightarrow> bully_cluster \<Rightarrow> bool" where
  "bully_led_by l c \<equiv> \<forall>nd \<in> set c. bn_leader_id nd = int l"

lemma finite_bully_alive [simp]: "finite (bully_alive c)"
  by (simp add: bully_alive_def)

lemma bully_contact_keeps:
  assumes "k < length c" and "i < length c"
  shows "length (bully_contact k i c) = length c" and "bully_alive (bully_contact k i c) = bully_alive c"
    and "map bn_leader_id (bully_contact k i c) = map bn_leader_id c"
proof -
  show "length (bully_contact k i c) = length c" by (simp add: bully_contact_def Let_def)
  show "bully_alive (bully_contact k i c) = bully_alive c"
    using assms by (auto simp: bully_contact_def Let_def bully_alive_def nth_list_update split: if_splits)
  show "map bn_leader_id (bully_contact k i c) = map bn_leader_id c"
    using assms by (intro nth_equalityI) (auto simp: bully_contact_def Let_def nth_list_update)
qed

lemma led_by_map: "bully_led_by l c \<longleftrightarrow> (\<forall>x \<in> set (map bn_leader_id c). x = int l)"
  by auto

lemma bully_declare_keeps:
  assumes "l < length c"
  shows "length (bully_declare_leader l c) = length c" and "bully_alive (bully_declare_leader l c) = bully_alive c"
    and "bully_led_by l (bully_declare_leader l c)"
  using assms by (auto simp: bully_declare_leader_def Let_def bully_alive_def nth_list_update nth_enumerate_eq in_set_conv_nth)

lemma bully_loop_elects:
  assumes "n = length c" and "i \<le> n" and "k \<in> bully_alive c"
    and "\<not> any \<and> h = k \<and> (\<forall>j \<in> bully_alive c. j < i \<longrightarrow> j \<le> k) \<or> any \<and> h = Max (bully_alive c) \<and> bully_led_by h c"
  shows "fst (bully_loop n k i h any c) = Max (bully_alive c) \<and> length (snd (bully_loop n k i h any c)) = n \<and>
    bully_alive (snd (bully_loop n k i h any c)) = bully_alive c \<and> bully_led_by (Max (bully_alive c)) (snd (bully_loop n k i h any c))"
  using assms
proof (induction n k i h any c rule: bully_loop.induct)
  case (1 n k i h any c)
  have k: "k < length c" "bn_active (c ! k)" using "1.prems"(3) by (auto simp: bully_alive_def)
  show ?case
  proof (cases "i < n")
    case False
    then have "i = n" using "1.prems"(2) by simp
    show ?thesis
    proof (cases any)
      case True
      have "bully_loop n k i h any c = (h, c)" using True False by (subst bully_loop.simps) simp
      then show ?thesis using "1.prems" True by simp
    next
      case not_any: False
      then have "Max (bully_alive c) = k"
        using "1.prems" \<open>i = n\<close> by (intro Max_eqI) (auto simp: bully_alive_def)
      moreover have "bully_loop n k i h any c = (h, bully_declare_leader k c)" using False not_any k by (subst bully_loop.simps) simp
      ultimately show ?thesis using "1.prems" not_any bully_declare_keeps [OF k(1)] by simp
    qed
  next
    case True
    then have i: "i < length c" using "1.prems"(1) by simp
    show ?thesis
    proof (cases "i = k \<or> \<not> bn_active (c ! i)")
      case skip: True
      have "\<not> any \<and> h = k \<and> (\<forall>j \<in> bully_alive c. j < i + 1 \<longrightarrow> j \<le> k) \<or> any \<and> h = Max (bully_alive c) \<and> bully_led_by h c"
        using "1.prems"(4) skip by (auto simp: bully_alive_def less_Suc_eq)
      moreover have eq: "bully_loop n k i h any c = bully_loop n k (i + 1) h any c" using True skip by (subst bully_loop.simps) simp
      ultimately show ?thesis using "1.IH"(1) [OF True skip] "1.prems"(1,3) True unfolding eq by simp
    next
      case reached: False
      let ?c = "bully_contact k i c"
      note keeps = bully_contact_keeps [OF k(1) i]
      have alive: "i \<in> bully_alive c" using reached i by (simp add: bully_alive_def)
      have led: "bully_led_by l ?c = bully_led_by l c" for l using keeps(3) by (simp only: led_by_map)
      show ?thesis
      proof (cases "i > h")
        case False
        have "\<not> any \<and> h = k \<and> (\<forall>j \<in> bully_alive ?c. j < i + 1 \<longrightarrow> j \<le> k) \<or> any \<and> h = Max (bully_alive ?c) \<and> bully_led_by h ?c"
          using "1.prems"(4) False led by (auto simp: keeps less_Suc_eq)
        moreover have eq: "bully_loop n k i h any c = bully_loop n k (i + 1) h any ?c"
          using True reached False by (subst bully_loop.simps) (simp add: Let_def)
        ultimately show ?thesis using "1.IH"(4) [OF True reached refl False] "1.prems"(1,3) True keeps unfolding eq by simp
      next
        case higher: True
        have sub: "fst (bully_loop n i 0 i False ?c) = Max (bully_alive c)" "length (snd (bully_loop n i 0 i False ?c)) = n"
            "bully_alive (snd (bully_loop n i 0 i False ?c)) = bully_alive c" "bully_led_by (Max (bully_alive c)) (snd (bully_loop n i 0 i False ?c))"
          using "1.IH"(2) [OF True reached refl higher] "1.prems"(1) keeps alive by auto
        obtain w d where wd: "bully_loop n i 0 i False ?c = (w, d)" by fastforce
        have "i \<le> w" using sub(1) wd alive by simp
        then have w: "(if w > i then w else i) = w" by simp
        have "fst (bully_loop n k (i + 1) w True d) = Max (bully_alive d) \<and> length (snd (bully_loop n k (i + 1) w True d)) = n \<and>
            bully_alive (snd (bully_loop n k (i + 1) w True d)) = bully_alive d \<and> bully_led_by (Max (bully_alive d)) (snd (bully_loop n k (i + 1) w True d))"
          using "1.IH"(3) [OF True reached refl higher wd [symmetric], unfolded w] sub wd True "1.prems"(3) by simp
        moreover have eq: "bully_loop n k i h any c = bully_loop n k (i + 1) w True d"
          using True reached higher wd by (subst bully_loop.simps) (simp add: Let_def w)
        ultimately show ?thesis using sub wd unfolding eq by simp
      qed
    qed
  qed
qed

lemma bully_election_elects:
  assumes "k \<in> bully_alive c"
  shows "fst (bully_election k c) = Max (bully_alive c)" and "length (snd (bully_election k c)) = length c"
    and "bully_alive (snd (bully_election k c)) = bully_alive c" and "bully_led_by (Max (bully_alive c)) (snd (bully_election k c))"
  using bully_loop_elects [of "length c" c 0 k False k] assms by (simp_all add: bully_election_def)

lemma highest_active_Max:
  assumes "bully_alive c \<noteq> {}"
  shows "highest_active c = int (Max (bully_alive c))"
proof -
  let ?h = "\<lambda>n. fold (\<lambda>i h. if bn_active (c ! i) \<and> int i > h then int i else h) [0..<n] (-1)"
  have "?h n = (if {i. i < n \<and> bn_active (c ! i)} = {} then -1 else int (Max {i. i < n \<and> bn_active (c ! i)})) \<and> ?h n < int n" for n
  proof (induction n)
    case (Suc n)
    have split: "{i. i < Suc n \<and> bn_active (c ! i)} = (if bn_active (c ! n) then {n} else {}) \<union> {i. i < n \<and> bn_active (c ! i)}"
      by (auto simp: less_Suc_eq)
    have "Max (insert n {i. i < n \<and> bn_active (c ! i)}) = n" by (rule Max_eqI) auto
    then show ?case using Suc by (auto simp: split)
  qed simp
  then show ?thesis using assms by (simp add: highest_active_def bully_alive_def)
qed

text \<open>
  A cluster after its first election. Any live node may start an election, nodes crash as long as one stays alive, and
  recover.
\<close>

definition bully_start :: "bully_cluster \<Rightarrow> bool" where
  "bully_start c \<longleftrightarrow> (\<exists>n k c0. bully_init n = Some c0 \<and> k < n \<and> c = snd (bully_election k c0))"

inductive bully_step :: "bully_cluster \<Rightarrow> bully_cluster \<Rightarrow> bool" where
  elect: "k \<in> bully_alive c \<Longrightarrow> bully_step c (snd (bully_election k c))"
| crash: "bully_alive c \<noteq> {nat k} \<Longrightarrow> bully_step c (bully_node_crash k c)"
| recover: "bully_step c (bully_node_recover k c)"

definition bully_agree :: "bully_cluster \<Rightarrow> bool" where
  "bully_agree c \<longleftrightarrow> bully_alive c \<noteq> {} \<and> bully_led_by (Max (bully_alive c)) c"

lemma bully_elect_agree: "k \<in> bully_alive c \<Longrightarrow> bully_agree (snd (bully_election k c))"
  using bully_election_elects [of k c] by (auto simp: bully_agree_def)

lemma bully_set_node:
  assumes "k < length c" and "bn_leader_id nd = bn_leader_id (c ! k)"
  shows "bully_alive (c[k := nd]) = (if bn_active nd then insert k (bully_alive c) else bully_alive c - {k})"
    and "bully_led_by l (c[k := nd]) = bully_led_by l c"
proof -
  show "bully_alive (c[k := nd]) = (if bn_active nd then insert k (bully_alive c) else bully_alive c - {k})"
    using assms(1) by (auto simp: bully_alive_def nth_list_update)
  have "map bn_leader_id (c[k := nd]) = map bn_leader_id c" using assms by (simp add: map_update list_update_same_conv)
  then show "bully_led_by l (c[k := nd]) = bully_led_by l c" by (simp only: led_by_map)
qed

lemma bully_crash_agree:
  assumes ok: "bully_agree c" and last: "bully_alive c \<noteq> {nat k}"
  shows "bully_agree (bully_node_crash k c)"
proof (cases "k < 0 \<or> k \<ge> int (length c)")
  case False
  define i where "i = nat k"
  define d where "d = c[i := (c ! i)\<lparr>bn_active := False, bn_state := BULLY_IDLE\<rparr>]"
  have i: "i < length c" "k = int i" using False by (auto simp: i_def)
  have d: "bully_alive d = bully_alive c - {i}" "\<And>l. bully_led_by l d = bully_led_by l c"
    using bully_set_node [OF i(1), of "(c ! i)\<lparr>bn_active := False, bn_state := BULLY_IDLE\<rparr>"] by (simp_all add: d_def)
  have leader: "bn_leader_id (d ! i) = int (Max (bully_alive c))" using ok i by (simp add: bully_agree_def d_def)
  have alive: "bully_alive d \<noteq> {}" using ok last by (auto simp: d(1) bully_agree_def i_def)
  show ?thesis
  proof (cases "bn_leader_id (d ! i) = k")
    case True
    have "bully_node_crash k c = snd (bully_election (Max (bully_alive d)) d)"
      using False True highest_active_Max [OF alive] by (simp add: bully_node_crash_def Let_def i_def [symmetric] d_def [symmetric])
    then show ?thesis using bully_elect_agree [of "Max (bully_alive d)" d] alive by simp
  next
    case other: False
    then have "Max (bully_alive c) \<in> bully_alive d" using leader i ok by (auto simp: d(1) bully_agree_def)
    then have "Max (bully_alive d) = Max (bully_alive c)" by (intro Max_eqI) (auto simp: d(1))
    moreover have "bully_node_crash k c = d"
      using False other by (simp add: bully_node_crash_def Let_def i_def [symmetric] d_def [symmetric])
    ultimately show ?thesis using alive ok d(2) by (simp add: bully_agree_def)
  qed
qed (use ok in \<open>auto simp: bully_node_crash_def\<close>)

lemma bully_recover_agree:
  assumes ok: "bully_agree c"
  shows "bully_agree (bully_node_recover k c)"
proof (cases "k < 0 \<or> k \<ge> int (length c)")
  case False
  define i where "i = nat k"
  define d where "d = c[i := (c ! i)\<lparr>bn_active := True, bn_state := BULLY_IDLE\<rparr>]"
  have i: "i < length c" "k = int i" using False by (auto simp: i_def)
  have d: "bully_alive d = insert i (bully_alive c)" "\<And>l. bully_led_by l d = bully_led_by l c"
    using bully_set_node [OF i(1), of "(c ! i)\<lparr>bn_active := True, bn_state := BULLY_IDLE\<rparr>"] by (simp_all add: d_def)
  have "0 < length d" using i by (auto simp: d_def)
  moreover have "bully_led_by (Max (bully_alive c)) d" using ok d(2) unfolding bully_agree_def by blast
  ultimately have leader: "bn_leader_id (d ! 0) = int (Max (bully_alive c))" using nth_mem [of 0 d] by blast
  show ?thesis
  proof (cases "k > bn_leader_id (d ! 0)")
    case True
    have "bully_node_recover k c = snd (bully_election i d)"
      using False True by (simp add: bully_node_recover_def Let_def i_def [symmetric] d_def [symmetric])
    then show ?thesis using bully_elect_agree [of i d] by (simp add: d(1))
  next
    case other: False
    then have "i \<le> Max (bully_alive c)" using leader i by simp
    then have "Max (bully_alive d) = Max (bully_alive c)" using ok by (simp add: d(1) bully_agree_def)
    moreover have "bully_node_recover k c = d"
      using False other by (simp add: bully_node_recover_def Let_def i_def [symmetric] d_def [symmetric])
    ultimately show ?thesis using ok d by (simp add: bully_agree_def)
  qed
qed (use ok in \<open>auto simp: bully_node_recover_def\<close>)

lemma bully_start_agree: "bully_start c \<Longrightarrow> bully_agree c"
  by (auto simp: bully_start_def bully_init_def bully_alive_def split: if_splits intro!: bully_elect_agree)

interpretation bully: invariant_system bully_start bully_step bully_agree
  using bully_start_agree
  by unfold_locales (auto elim!: bully_step.cases intro: bully_elect_agree bully_crash_agree bully_recover_agree)

text \<open>
  C29. After the first election, through all crashes that leave a node alive, recoveries and further elections started by any
  live node, every node names the same leader: the live node with the highest number.
\<close>

theorem bully_highest_leads:
  assumes "reach bully_start bully_step c"
  shows "\<exists>l \<in> bully_alive c. (\<forall>i \<in> bully_alive c. i \<le> l) \<and> (\<forall>nd \<in> set c. bn_leader_id nd = int l)"
proof -
  have ok: "bully_agree c" using bully.reach_inv [OF assms] .
  then have "Max (bully_alive c) \<in> bully_alive c" "\<forall>i \<in> bully_alive c. i \<le> Max (bully_alive c)" by (auto simp: bully_agree_def)
  then show ?thesis using ok unfolding bully_agree_def by blast
qed

lemma bully_demo_reached: "reach bully_start bully_step (bully_node_crash 2 (snd (bully_election 0 (the (bully_init 3)))))"
proof -
  let ?c = "snd (bully_election 0 (the (bully_init 3)))"
  have "bully_start ?c" unfolding bully_start_def by (intro exI [of _ 3] exI [of _ 0] exI [of _ "the (bully_init 3)"]) (simp add: bully_init_def)
  moreover have alive: "bully_alive (the (bully_init 3)) = {0, 1, 2}" by (auto simp: bully_alive_def bully_init_def)
  then have "bully_alive ?c = {0, 1, 2}" using bully_election_elects(3) [of 0 "the (bully_init 3)"] by simp
  then have "bully_step ?c (bully_node_crash 2 ?c)" by (intro bully_step.crash) auto
  ultimately show ?thesis by (meson reach_init reach_step)
qed

theorem bully_highest_leads_witness:
  "let c = bully_node_crash 2 (snd (bully_election 0 (the (bully_init 3)))) in
   reach bully_start bully_step c \<and> (\<exists>l \<in> bully_alive c. \<forall>nd \<in> set c. bn_leader_id nd = int l)"
  using bully_highest_leads [OF bully_demo_reached] bully_demo_reached by (auto simp: Let_def)

section \<open>The sequential election elects the lowest live node\<close>

definition zk_alive :: "zk_cluster \<Rightarrow> nat set" where
  "zk_alive c = {i. i < length (zk_nodes c) \<and> zn_active (zk_nodes c ! i)}"

text \<open>After the first \<open>n\<close> creations the live nodes below \<open>n\<close> carry increasing fresh numbers, all others are unchanged.\<close>

lemma zk_create_upto:
  assumes "n \<le> length (zk_nodes c)" and "0 \<le> zk_next_sequence c"
  defines "d \<equiv> fold zk_create_at [0..<n] c"
  shows "length (zk_nodes d) = length (zk_nodes c) \<and> zk_next_sequence c \<le> zk_next_sequence d \<and>
    zk_next_sequence d \<le> zk_next_sequence c + int n \<and>
    (\<forall>i < length (zk_nodes c). zn_active (zk_nodes d ! i) = zn_active (zk_nodes c ! i) \<and> zn_id (zk_nodes d ! i) = zn_id (zk_nodes c ! i)) \<and>
    (\<forall>i < n. zn_active (zk_nodes c ! i) \<longrightarrow> zk_next_sequence c \<le> zn_sequence (zk_nodes d ! i) \<and> zn_sequence (zk_nodes d ! i) < zk_next_sequence d \<and>
       (\<forall>j < i. zn_active (zk_nodes c ! j) \<longrightarrow> zn_sequence (zk_nodes d ! j) < zn_sequence (zk_nodes d ! i)))"
  using assms(1) unfolding d_def
proof (induction n)
  case (Suc n)
  let ?e = "fold zk_create_at [0..<n] c"
  have IH: "length (zk_nodes ?e) = length (zk_nodes c)" "zn_active (zk_nodes ?e ! n) = zn_active (zk_nodes c ! n)" using Suc by auto
  show ?case
  proof (cases "zn_active (zk_nodes c ! n)")
    case True
    then have step: "fold zk_create_at [0..<Suc n] c = ?e\<lparr>zk_nodes := (zk_nodes ?e)[n := (zk_nodes ?e ! n)\<lparr>zn_sequence := zk_next_sequence ?e,
        zn_message_count := zn_message_count (zk_nodes ?e ! n) + 1\<rparr>], zk_next_sequence := zk_next_sequence ?e + 1\<rparr>"
      using IH Suc.prems by (simp add: zk_create_at_def zk_create_ephemeral_sequential_def Let_def)
    show ?thesis unfolding step using Suc True by (auto simp: nth_list_update less_Suc_eq)
  next
    case False
    then have step: "fold zk_create_at [0..<Suc n] c = ?e" using IH by (simp add: zk_create_at_def)
    show ?thesis unfolding step using Suc False by (auto simp: less_Suc_eq)
  qed
qed simp

lemma zk_create_all_keeps:
  assumes "0 \<le> zk_next_sequence c"
  shows "length (zk_nodes (zk_create_all c)) = length (zk_nodes c)" "zk_alive (zk_create_all c) = zk_alive c"
    "i < length (zk_nodes c) \<Longrightarrow> zn_id (zk_nodes (zk_create_all c) ! i) = zn_id (zk_nodes c ! i)"
    "i \<in> zk_alive c \<Longrightarrow> 0 \<le> zn_sequence (zk_nodes (zk_create_all c) ! i) \<and>
       zn_sequence (zk_nodes (zk_create_all c) ! i) < zk_next_sequence c + int (length (zk_nodes c))"
    "i \<in> zk_alive c \<Longrightarrow> j \<in> zk_alive c \<Longrightarrow> j < i \<Longrightarrow> zn_sequence (zk_nodes (zk_create_all c) ! j) < zn_sequence (zk_nodes (zk_create_all c) ! i)"
  using zk_create_upto [of "length (zk_nodes c)" c] assms unfolding zk_create_all_def zk_alive_def by fastforce+

text \<open>While the sequence numbers of the live nodes increase, the scan keeps the first live node.\<close>

lemma zk_lowest_scan:
  assumes "\<And>i. i \<in> zk_alive c \<Longrightarrow> zn_id (zk_nodes c ! i) = int i \<and> 0 \<le> zn_sequence (zk_nodes c ! i) \<and> zn_sequence (zk_nodes c ! i) < 999999"
    and "\<And>i j. i \<in> zk_alive c \<Longrightarrow> j \<in> zk_alive c \<Longrightarrow> j < i \<Longrightarrow> zn_sequence (zk_nodes c ! j) < zn_sequence (zk_nodes c ! i)"
    and "m \<le> length (zk_nodes c)"
  shows "fold (zk_lowest_step c) [0..<m] (-1, 999999) = (if \<exists>i < m. i \<in> zk_alive c
    then let l = (LEAST i. i \<in> zk_alive c) in (int l, zn_sequence (zk_nodes c ! l)) else (-1, 999999))"
  using assms(3)
proof (induction m)
  case (Suc m)
  let ?l = "LEAST i. i \<in> zk_alive c"
  have act: "zn_active (zk_nodes c ! m) \<longleftrightarrow> m \<in> zk_alive c" using Suc.prems by (simp add: zk_alive_def)
  show ?case
  proof (cases "\<exists>i < m. i \<in> zk_alive c")
    case True
    then have l: "?l \<in> zk_alive c" "?l < m" by (auto intro: LeastI dest: Least_le)
    then have "\<not> (zn_active (zk_nodes c ! m) \<and> zn_sequence (zk_nodes c ! m) < zn_sequence (zk_nodes c ! ?l))" unfolding act using assms(2) [of m ?l] by auto
    moreover have "\<exists>i < Suc m. i \<in> zk_alive c" using True less_SucI by blast
    ultimately show ?thesis using Suc True by (auto simp: zk_lowest_step_def Let_def)
  next
    case False
    then have "?l = m" if "m \<in> zk_alive c" using that by (intro Least_equality) (auto simp: not_less [symmetric])
    then show ?thesis using Suc False act assms(1) [of m] by (auto simp: zk_lowest_step_def Let_def less_Suc_eq)
  qed
qed simp

lemma zk_watch_leaders: "map zn_leader_id (zk_nodes (zk_watch_leader k c)) = map zn_leader_id (zk_nodes c)"
proof -
  have "zn_leader_id (xs[j := (xs ! j)\<lparr>zn_message_count := v\<rparr>] ! i) = zn_leader_id (xs ! i)" if "i < length xs" for xs i j v
    using that by (cases "i = j") simp_all
  then show ?thesis by (intro nth_equalityI) (auto simp: zk_watch_leader_def split: option.split)
qed

lemma zk_follow_leaders:
  "m \<le> length (zk_nodes c) \<Longrightarrow> map zn_leader_id (zk_nodes (fold (zk_follow l) [0..<m] c)) = replicate m l @ drop m (map zn_leader_id (zk_nodes c))"
proof (induction m)
  case (Suc m)
  then have "m < length (map zn_leader_id (zk_nodes c))" by simp
  then show ?case using Suc by (simp add: zk_follow_def zk_watch_leaders map_update list_update_append drop_map [symmetric] Cons_nth_drop_Suc [symmetric] replicate_append_same)
qed simp

lemma zk_elects_lowest:
  assumes "zk_alive c \<noteq> {}" and "0 \<le> zk_next_sequence c" and "zk_next_sequence c + int (length (zk_nodes c)) \<le> 999999"
    and "\<forall>i < length (zk_nodes c). zn_id (zk_nodes c ! i) = int i"
  shows "fst (zk_leader_election c) = int (LEAST i. i \<in> zk_alive c)"
    "\<forall>nd \<in> set (zk_nodes (snd (zk_leader_election c))). zn_leader_id nd = int (LEAST i. i \<in> zk_alive c)"
proof -
  let ?d = "zk_create_all c" and ?l = "LEAST i. i \<in> zk_alive c"
  note keep = zk_create_all_keeps [OF assms(2)]
  have alive: "i < length (zk_nodes c)" if "i \<in> zk_alive c" for i using that by (simp add: zk_alive_def)
  have some: "\<exists>i < length (zk_nodes c). i \<in> zk_alive c" using assms(1) alive by blast
  have scan: "zn_id (zk_nodes ?d ! i) = int i \<and> 0 \<le> zn_sequence (zk_nodes ?d ! i) \<and> zn_sequence (zk_nodes ?d ! i) < 999999"
    if "i \<in> zk_alive ?d" for i
    using keep(3) [OF alive] keep(4) [of i] assms(3,4) alive that unfolding keep(2) by force
  have "fold (zk_lowest_step ?d) [0..<length (zk_nodes ?d)] (-1, 999999) = (int ?l, zn_sequence (zk_nodes ?d ! ?l))"
    using zk_lowest_scan [of ?d "length (zk_nodes ?d)", OF scan] keep(5) some unfolding keep(1,2) by (simp add: Let_def)
  then have low: "zk_lowest ?d = int ?l" by (simp add: zk_lowest_def)
  then show "fst (zk_leader_election c) = int ?l" by (simp add: zk_leader_election_def Let_def)
  have leaders: "map zn_leader_id (zk_nodes (snd (zk_leader_election c))) = replicate (length (zk_nodes ?d)) (int ?l)"
    using zk_follow_leaders [of "length (zk_nodes ?d)" ?d "int ?l"] low by (simp add: zk_leader_election_def Let_def)
  have "zn_leader_id nd \<in> set (replicate (length (zk_nodes ?d)) (int ?l))" if "nd \<in> set (zk_nodes (snd (zk_leader_election c)))" for nd
    using that unfolding leaders [symmetric] by simp
  then show "\<forall>nd \<in> set (zk_nodes (snd (zk_leader_election c))). zn_leader_id nd = int ?l" by (simp add: in_set_replicate)
qed

section \<open>The token ring elects the highest live node\<close>

definition ring_alive :: "ring_cluster \<Rightarrow> nat set" where
  "ring_alive c = {i. i < length c \<and> rn_active (c ! i)}"

text \<open>Every pointer skips dead nodes only.\<close>

definition ring_wf :: "ring_cluster \<Rightarrow> bool" where
  "ring_wf c \<longleftrightarrow> 0 < length c \<and> length c \<le> RING_MAX_NODES \<and> (\<forall>i < length c. rn_id (c ! i) = int i \<and>
     (\<exists>e. 1 \<le> e \<and> e \<le> length c \<and> rn_next_id (c ! i) = (i + e) mod length c \<and>
        (\<forall>d. 1 \<le> d \<and> d < e \<longrightarrow> \<not> rn_active (c ! ((i + d) mod length c)))))"

definition ring_frame :: "ring_cluster \<Rightarrow> ring_cluster \<Rightarrow> bool" where
  "ring_frame c d \<longleftrightarrow> map (\<lambda>nd. (rn_id nd, rn_next_id nd, rn_active nd)) c = map (\<lambda>nd. (rn_id nd, rn_next_id nd, rn_active nd)) d"

lemma ring_frame_nth:
  "ring_frame c d \<Longrightarrow> length d = length c"
  "ring_frame c d \<Longrightarrow> i < length c \<Longrightarrow> rn_id (d ! i) = rn_id (c ! i) \<and> rn_next_id (d ! i) = rn_next_id (c ! i) \<and> rn_active (d ! i) = rn_active (c ! i)"
proof -
  assume f: "ring_frame c d"
  from f show len: "length d = length c" using map_eq_imp_length_eq unfolding ring_frame_def by force
  assume "i < length c"
  then show "rn_id (d ! i) = rn_id (c ! i) \<and> rn_next_id (d ! i) = rn_next_id (c ! i) \<and> rn_active (d ! i) = rn_active (c ! i)"
    using f len arg_cong [where f = "\<lambda>xs. xs ! i", OF f [unfolded ring_frame_def]] by simp
qed

lemma ring_frame_wf: "ring_frame c d \<Longrightarrow> ring_wf c \<Longrightarrow> ring_wf d"
proof -
  assume f: "ring_frame c d" and wf: "ring_wf c"
  then have "0 < length c" by (simp add: ring_wf_def)
  then have "rn_active (d ! (k mod length c)) = rn_active (c ! (k mod length c))" for k using ring_frame_nth(2) [OF f] by simp
  then show "ring_wf d" using wf ring_frame_nth [OF f] unfolding ring_wf_def by simp
qed

lemma ring_frame_alive: "ring_frame c d \<Longrightarrow> ring_alive d = ring_alive c"
  using ring_frame_nth by (auto simp: ring_alive_def)

lemma ring_frame_update:
  assumes "rn_id nd = rn_id (c ! i)" and "rn_next_id nd = rn_next_id (c ! i)" and "rn_active nd = rn_active (c ! i)"
  shows "ring_frame c (c[i := nd])"
  using assms unfolding ring_frame_def by (cases "i < length c") (auto intro!: nth_equalityI simp: nth_list_update list_update_beyond)

lemma ring_frame_trans: "ring_frame c d \<Longrightarrow> ring_frame d e \<Longrightarrow> ring_frame c e"
  by (simp add: ring_frame_def)

lemma ring_skip_finds:
  assumes "1 \<le> d" and "skipped + d \<le> length c" and "rn_active (c ! ((k + d) mod length c))"
    and "\<forall>x. 1 \<le> x \<and> x < d \<longrightarrow> \<not> rn_active (c ! ((k + x) mod length c))"
  shows "ring_skip c skipped k = Some ((k + d) mod length c)"
  using assms
proof (induction d arbitrary: skipped k)
  case (Suc d)
  show ?case
  proof (cases "d = 0")
    case True
    then show ?thesis using Suc.prems by (simp add: ring_skip.simps [of c skipped k] Let_def)
  next
    case False
    have shift: "((k + 1) mod length c + x) mod length c = (k + Suc x) mod length c" for x by (simp add: mod_simps)
    have "\<not> rn_active (c ! ((k + 1) mod length c))" using Suc.prems(4) False by (elim allE [of _ 1]) simp
    moreover have "ring_skip c (skipped + 1) ((k + 1) mod length c) = Some (((k + 1) mod length c + d) mod length c)"
    proof (rule Suc.IH)
      show "rn_active (c ! (((k + 1) mod length c + d) mod length c))" unfolding shift by (rule Suc.prems(3))
      show "\<forall>x. 1 \<le> x \<and> x < d \<longrightarrow> \<not> rn_active (c ! (((k + 1) mod length c + x) mod length c))" unfolding shift using Suc.prems(4) by (meson Suc_less_eq le_SucI)
    qed (use False Suc.prems in auto)
    ultimately show ?thesis unfolding shift using Suc.prems(2) by (simp add: ring_skip.simps [of c skipped k] Let_def)
  qed
qed simp

text \<open>From a live node the token goes to the next live node on the ring.\<close>

lemma ring_next_finds:
  assumes "ring_wf c" and "k < length c" and "1 \<le> m" and "m \<le> length c" and "rn_active (c ! ((k + m) mod length c))"
  shows "\<exists>e. 1 \<le> e \<and> e \<le> m \<and> ring_next_live c k = Some ((k + e) mod length c) \<and> rn_active (c ! ((k + e) mod length c)) \<and>
    (\<forall>d. 1 \<le> d \<and> d < e \<longrightarrow> \<not> rn_active (c ! ((k + d) mod length c)))"
proof -
  obtain e0 where e0: "1 \<le> e0" "e0 \<le> length c" "rn_next_id (c ! k) = (k + e0) mod length c"
      "\<forall>d. 1 \<le> d \<and> d < e0 \<longrightarrow> \<not> rn_active (c ! ((k + d) mod length c))"
    using assms(1,2) by (auto simp: ring_wf_def)
  define e where "e = (LEAST e. 1 \<le> e \<and> rn_active (c ! ((k + e) mod length c)))"
  have e: "1 \<le> e" "rn_active (c ! ((k + e) mod length c))" "e \<le> m"
    using LeastI [of "\<lambda>e. 1 \<le> e \<and> rn_active (c ! ((k + e) mod length c))" m] Least_le [of "\<lambda>e. 1 \<le> e \<and> rn_active (c ! ((k + e) mod length c))" m] assms
    by (simp_all add: e_def)
  have below: "\<not> rn_active (c ! ((k + d) mod length c))" if "1 \<le> d" "d < e" for d
    using not_less_Least [of d "\<lambda>e. 1 \<le> e \<and> rn_active (c ! ((k + e) mod length c))"] that by (auto simp: e_def)
  have "e0 \<le> e" using e0(4) e(1,2) by (meson not_le)
  have "ring_next_live c k = Some ((k + e) mod length c)"
  proof (cases "rn_active (c ! ((k + e0) mod length c))")
    case True
    then have "e0 = e" using below [of e0] e0(1) \<open>e0 \<le> e\<close> by (meson le_less)
    then show ?thesis using True e0(3) by (simp add: ring_next_live_def Let_def)
  next
    case False
    then have "e0 \<noteq> e" using e(2) by auto
    have shift: "((k + e0) mod length c + x) mod length c = (k + (e0 + x)) mod length c" for x by (simp add: mod_simps add.assoc)
    have "ring_skip c 0 ((k + e0) mod length c) = Some (((k + e0) mod length c + (e - e0)) mod length c)"
    proof (rule ring_skip_finds)
      show "rn_active (c ! (((k + e0) mod length c + (e - e0)) mod length c))" unfolding shift using e(2) \<open>e0 \<le> e\<close> by simp
      show "\<forall>x. 1 \<le> x \<and> x < e - e0 \<longrightarrow> \<not> rn_active (c ! (((k + e0) mod length c + x) mod length c))" unfolding shift using below e0(1)
        by (metis add_leE le_add1 less_diff_conv2 add.commute \<open>e0 \<le> e\<close> less_diff_conv trans_le_add1)
    qed (use \<open>e0 \<le> e\<close> \<open>e0 \<noteq> e\<close> e(3) assms(4) in auto)
    then show ?thesis unfolding shift using False e0(3) \<open>e0 \<le> e\<close> by (simp add: ring_next_live_def Let_def)
  qed
  then show ?thesis using e below by blast
qed

text \<open>The live nodes within distance \<open>r\<close> of the initiator; at distance \<open>length c\<close> these are all.\<close>

definition ring_within :: "ring_cluster \<Rightarrow> nat \<Rightarrow> nat \<Rightarrow> nat set" where
  "ring_within c k r = {j \<in> ring_alive c. \<exists>d \<le> r. j = (k + d) mod length c}"

lemma ring_distance:
  assumes "k < n" and "j < n"
  shows "\<exists>d < n. j = (k + d) mod (n :: nat)"
proof (cases "k \<le> j")
  case True
  then have "j = (k + (j - k)) mod n" "j - k < n" using assms by simp_all
  then show ?thesis by blast
next
  case False
  then have "k + (n + j - k) = j + n" using assms by simp
  then have "j = (k + (n + j - k)) mod n" using assms(2) by simp
  then show ?thesis using False assms by (intro exI [of _ "n + j - k"]) simp
qed

lemma ring_within_all:
  assumes "k < length c"
  shows "ring_within c k (length c) = ring_alive c"
proof -
  have "\<exists>d \<le> length c. j = (k + d) mod length c" if "j \<in> ring_alive c" for j
    using ring_distance [OF assms, of j] that by (auto simp: ring_alive_def intro: less_imp_le)
  then show ?thesis by (auto simp: ring_within_def)
qed

lemma finite_ring_alive [simp]: "finite (ring_alive c)" "finite (ring_within c k r)"
  by (simp_all add: ring_alive_def ring_within_def)

lemma ring_within_extend:
  assumes "ring_wf c" and "rn_active (c ! ((k + (r + e)) mod length c))" and "1 \<le> e"
    and "\<And>d. 1 \<le> d \<Longrightarrow> d < e \<Longrightarrow> \<not> rn_active (c ! ((k + (r + d)) mod length c))"
  shows "ring_within c k (r + e) = insert ((k + (r + e)) mod length c) (ring_within c k r)"
proof -
  have len: "0 < length c" using assms(1) by (simp add: ring_wf_def)
  have "d \<le> r \<or> d = r + e" if "d \<le> r + e" "rn_active (c ! ((k + d) mod length c))" for d
  proof (rule ccontr)
    assume "\<not> (d \<le> r \<or> d = r + e)"
    then have "1 \<le> d - r" "d - r < e" "r + (d - r) = d" using that(1) by auto
    then show False using assms(4) [of "d - r"] that(2) by simp
  qed
  then show ?thesis using assms(2,3) len by (auto simp: ring_within_def ring_alive_def intro: le_add1 trans_le_add1)
qed

lemma ring_visit_frame: "ring_frame c (ring_visit i c)"
  unfolding ring_visit_def by (rule ring_frame_update) simp_all

lemma ring_round_elects:
  assumes "ring_wf c" and "k \<in> ring_alive c" and "r < length c" and "cur = (k + r) mod length c"
    and "tok_hop_count tok \<le> r" and "\<not> tok_complete tok" and "tok_highest_id tok = int (Max (ring_within c k r))"
  shows "fst (ring_round k cur tok c) = int (Max (ring_alive c)) \<and> ring_frame c (snd (ring_round k cur tok c)) \<and>
    (\<forall>nd \<in> set (snd (ring_round k cur tok c)). rn_leader_id nd = int (Max (ring_alive c)))"
  using assms
proof (induction k cur tok c arbitrary: r rule: ring_round.induct)
  case (1 k cur tok c)
  have len: "0 < length c" "length c \<le> RING_MAX_NODES" using "1.prems"(1) by (simp_all add: ring_wf_def)
  have k: "k < length c" "rn_active (c ! k)" using "1.prems"(2) by (auto simp: ring_alive_def)
  have cur: "cur < length c" using "1.prems"(4) len by simp
  have shift: "(cur + x) mod length c = (k + (r + x)) mod length c" for x using "1.prems"(4) by (simp add: mod_simps add.assoc)
  have home: "1 \<le> length c - r" "length c - r \<le> length c" "rn_active (c ! ((cur + (length c - r)) mod length c))"
    unfolding shift using "1.prems"(3) k by simp_all
  obtain e where e: "1 \<le> e" "e \<le> length c - r" "ring_next_live c cur = Some ((cur + e) mod length c)"
      "rn_active (c ! ((cur + e) mod length c))" "\<And>d. 1 \<le> d \<Longrightarrow> d < e \<Longrightarrow> \<not> rn_active (c ! ((cur + d) mod length c))"
    using ring_next_finds [OF "1.prems"(1) cur home] by blast
  define nx where "nx = (k + (r + e)) mod length c"
  define c1 where "c1 = ring_visit nx c"
  have nx: "nx < length c" "rn_active (c ! nx)" using len e(4) by (simp_all add: nx_def shift)
  have f1: "ring_frame c c1" unfolding c1_def by (rule ring_visit_frame)
  have within: "ring_within c k (r + e) = insert nx (ring_within c k r)"
    unfolding nx_def by (rule ring_within_extend [OF "1.prems"(1)]) (use e in \<open>simp_all add: shift\<close>)
  have "k \<in> ring_within c k r" using k "1.prems"(2) unfolding ring_within_def by (intro CollectI conjI exI [of _ 0]) simp_all
  then have ne: "ring_within c k r \<noteq> {}" by blast
  define tok1 where "tok1 = (if rn_id (c1 ! nx) > tok_highest_id tok then tok\<lparr>tok_highest_id := rn_id (c1 ! nx)\<rparr> else tok)
    \<lparr>tok_hop_count := tok_hop_count (if rn_id (c1 ! nx) > tok_highest_id tok then tok\<lparr>tok_highest_id := rn_id (c1 ! nx)\<rparr> else tok) + 1\<rparr>"
  have id: "rn_id (c1 ! nx) = int nx" using ring_frame_nth(2) [OF f1 nx(1)] "1.prems"(1) nx(1) by (simp add: ring_wf_def)
  have high: "tok_highest_id tok1 = int (Max (ring_within c k (r + e)))"
    unfolding within Max_insert [OF finite_ring_alive(2) ne] using "1.prems"(7) id by (simp add: tok1_def max_def)
  have hops: "tok_hop_count tok1 \<le> r + e" "\<not> tok_complete tok1" using "1.prems"(5,6) e(1) by (simp_all add: tok1_def)
  have guard: "\<not> tok_complete tok \<and> tok_hop_count tok < RING_MAX_NODES * 2" using "1.prems"(3,5,6) len by simp
  have nxt: "ring_next_live c cur = Some nx" using e(3) by (simp add: nx_def shift)
  have unf: "ring_round k cur tok c = (if nx = k
      then (tok_highest_id tok1, map (\<lambda>nd. nd\<lparr>rn_leader_id := tok_highest_id tok1, rn_token_owner := False\<rparr>) c1)
      else ring_round k nx tok1 (c1[nx := (c1 ! nx)\<lparr>rn_token := tok1\<rparr>]))"
    using guard nxt by (subst ring_round.simps) (simp add: Let_def c1_def tok1_def)
  show ?case
  proof (cases "nx = k")
    case True
    have "r + e = length c"
    proof (rule ccontr)
      assume "r + e \<noteq> length c"
      then have lt: "r + e < length c" "0 < r + e" using e "1.prems"(3) by auto
      then have "(k + (r + e)) mod length c \<noteq> k" using k(1) by (cases "k + (r + e) < length c") (auto simp: mod_if)
      then show False using True by (simp add: nx_def)
    qed
    then have "tok_highest_id tok1 = int (Max (ring_alive c))" using high ring_within_all [OF k(1)] by simp
    then show ?thesis unfolding unf using True f1 by (auto simp: ring_frame_def)
  next
    case False
    let ?c2 = "c1[nx := (c1 ! nx)\<lparr>rn_token := tok1\<rparr>]"
    have f2: "ring_frame c ?c2" using ring_frame_trans [OF f1 ring_frame_update] by simp
    have "r + e < length c" using e "1.prems"(3) False k(1) by (cases "r + e = length c") (auto simp: nx_def)
    moreover have "ring_within ?c2 k (r + e) = ring_within c k (r + e)" "ring_alive ?c2 = ring_alive c" "length ?c2 = length c"
      using ring_frame_alive [OF f2] ring_frame_nth(1) [OF f2] by (simp_all add: ring_within_def)
    ultimately have "fst (ring_round k nx tok1 ?c2) = int (Max (ring_alive ?c2)) \<and> ring_frame ?c2 (snd (ring_round k nx tok1 ?c2)) \<and>
        (\<forall>nd \<in> set (snd (ring_round k nx tok1 ?c2)). rn_leader_id nd = int (Max (ring_alive ?c2)))"
      using "1.IH" [OF guard nxt c1_def refl tok1_def False, of "r + e"] "1.prems"(2) ring_frame_wf [OF f2 "1.prems"(1)] high hops
      by (simp add: nx_def)
    then show ?thesis unfolding unf using False ring_frame_trans [OF f2] ring_frame_alive [OF f2] by simp
  qed
qed

lemma ring_election_elects:
  assumes "ring_wf c" and "k \<in> ring_alive c"
  shows "fst (ring_election_proto k c) = int (Max (ring_alive c))" "ring_frame c (snd (ring_election_proto k c))"
    "\<forall>nd \<in> set (snd (ring_election_proto k c)). rn_leader_id nd = int (Max (ring_alive c))"
proof -
  let ?tok = "\<lparr>tok_candidate_id = int k, tok_highest_id = int k, tok_hop_count = 0, tok_complete = False\<rparr>"
  let ?d = "c[k := (c ! k)\<lparr>rn_token := ?tok, rn_token_owner := True, rn_message_count := rn_message_count (c ! k) + 1\<rparr>]"
  have run: "ring_election_proto k c = ring_round k k ?tok ?d" by (simp add: ring_election_proto_def Let_def)
  have f: "ring_frame c ?d" by (rule ring_frame_update) simp_all
  have wf: "ring_wf ?d" and al: "ring_alive ?d = ring_alive c" using ring_frame_wf [OF f assms(1)] ring_frame_alive [OF f] by simp_all
  have k: "k < length ?d" using assms(2) by (simp add: ring_alive_def)
  have "ring_within ?d k 0 = {k}" using assms(2) k by (auto simp: ring_within_def al)
  then have "fst (ring_round k k ?tok ?d) = int (Max (ring_alive ?d)) \<and> ring_frame ?d (snd (ring_round k k ?tok ?d)) \<and>
      (\<forall>nd \<in> set (snd (ring_round k k ?tok ?d)). rn_leader_id nd = int (Max (ring_alive ?d)))"
    using assms(2) al k by (intro ring_round_elects [OF wf, where r = 0]) auto
  then show "fst (ring_election_proto k c) = int (Max (ring_alive c))" "ring_frame c (snd (ring_election_proto k c))"
    "\<forall>nd \<in> set (snd (ring_election_proto k c)). rn_leader_id nd = int (Max (ring_alive c))"
    using ring_frame_trans [OF f] unfolding run al by simp_all
qed

text \<open>The seek returns the first node on the ring at which it may stop, and it returns if there is one.\<close>

lemma ring_seek_finds:
  assumes "stop ((k + d) mod n)" and "k < n" and "\<And>x. x < d \<Longrightarrow> \<not> stop ((k + x) mod n)"
  shows "ring_seek stop n k = Some ((k + d) mod n)"
  using assms
proof (induction d arbitrary: k)
  case 0
  then show ?case by (simp add: ring_seek.simps)
next
  case (Suc d)
  have shift: "((k + 1) mod n + x) mod n = (k + Suc x) mod n" for x by (simp add: mod_simps)
  have "ring_seek stop n ((k + 1) mod n) = Some (((k + 1) mod n + d) mod n)"
    using Suc.prems by (intro Suc.IH) (simp_all only: shift, simp_all)
  then show ?case unfolding shift using Suc.prems(3) [of 0] Suc.prems(2) by (subst ring_seek.simps) simp
qed

lemma ring_seek_first:
  assumes "stop j" and "j < n" and "k < n"
  obtains d where "d < n" "ring_seek stop n k = Some ((k + d) mod n)" "stop ((k + d) mod n)" "\<And>x. x < d \<Longrightarrow> \<not> stop ((k + x) mod n)"
proof -
  let ?P = "\<lambda>d. stop ((k + d) mod n)"
  obtain d0 where d0: "d0 < n" "j = (k + d0) mod n" using ring_distance [OF assms(3,2)] by blast
  then have "?P d0" using assms(1) by simp
  then have "?P (LEAST d. ?P d)" "(LEAST d. ?P d) \<le> d0" "\<And>x. x < (LEAST d. ?P d) \<Longrightarrow> \<not> ?P x"
    by (rule LeastI, rule Least_le, blast dest: not_less_Least)
  then show thesis using ring_seek_finds [of stop k "LEAST d. ?P d" n] assms(3) d0(1) by (intro that [of "LEAST d. ?P d"]) auto
qed

lemma ring_seek_Some:
  assumes "ring_seek stop n k = Some y" and "k < n"
  shows "stop y \<and> y < n"
proof -
  have "k < n \<longrightarrow> stop y \<and> y < n"
  proof (rule ring_seek.raw_induct [OF _ assms(1)])
    fix seek :: "(nat \<Rightarrow> bool) \<Rightarrow> nat \<Rightarrow> nat \<Rightarrow> nat option" and stop n k y
    assume IH: "\<And>stop n k y. seek stop n k = Some y \<Longrightarrow> k < n \<longrightarrow> stop y \<and> y < n"
      and run: "(if stop k then Some k else seek stop n ((k + 1) mod n)) = Some y"
    show "k < n \<longrightarrow> stop y \<and> y < n" using IH [of stop n "(k + 1) mod n" y] run by (auto split: if_splits)
  qed
  then show ?thesis using assms(2) by simp
qed

lemma ring_dead_wf:
  assumes "ring_wf c" and "k < length c"
  shows "ring_wf (c[k := (c ! k)\<lparr>rn_active := False\<rparr>])"
proof -
  have "rn_active (c[k := (c ! k)\<lparr>rn_active := False\<rparr>] ! (j mod length c)) \<Longrightarrow> rn_active (c ! (j mod length c))" for j
    by (cases "j mod length c = k") (use assms(2) in auto)
  moreover have "rn_next_id (c[k := (c ! k)\<lparr>rn_active := False\<rparr>] ! j) = rn_next_id (c ! j)"
    "rn_id (c[k := (c ! k)\<lparr>rn_active := False\<rparr>] ! j) = rn_id (c ! j)" for j
    by (cases "j = k"; use assms(2) in simp)+
  ultimately show ?thesis using assms unfolding ring_wf_def by (simp, meson)
qed

text \<open>Moving the pointer past a dead node, to the next live node or back home, keeps the ring.\<close>

lemma ring_relink_distance:
  assumes "1 \<le> e0" and "e0 \<le> n" and "k = (i + e0) mod n" and "i < n" and "d < n" and "\<not> P k"
    and "\<forall>x. 1 \<le> x \<and> x < e0 \<longrightarrow> \<not> P ((i + x) mod n)"
    and "\<And>x. x < d \<Longrightarrow> \<not> P (((k + 1) mod n + x) mod n) \<and> ((k + 1) mod n + x) mod n \<noteq> i"
  shows "\<exists>e. 1 \<le> e \<and> e \<le> (n :: nat) \<and> ((k + 1) mod n + d) mod n = (i + e) mod n \<and> (\<forall>x. 1 \<le> x \<and> x < e \<longrightarrow> \<not> P ((i + x) mod n))"
proof (cases "e0 = n")
  case True
  then have k: "k = i" using assms(3,4) by simp
  have shift: "((k + 1) mod n + x) mod n = (i + Suc x) mod n" for x using k by (simp add: mod_simps)
  have "\<not> P ((i + x) mod n)" if "1 \<le> x" "x < Suc d" for x
    using assms(8) [of "x - 1"] that unfolding shift by simp
  then show ?thesis using assms(5) unfolding shift by (intro exI [of _ "Suc d"]) simp
next
  case False
  have shift: "((k + 1) mod n + x) mod n = (i + (e0 + 1 + x)) mod n" for x unfolding assms(3) by (simp add: mod_simps add.assoc)
  have "e0 + 1 + d \<le> n"
  proof (rule ccontr)
    assume "\<not> e0 + 1 + d \<le> n"
    then have "n - e0 - 1 < d" "i + (e0 + 1 + (n - e0 - 1)) = i + n" using False assms(2) by simp_all
    then show False using assms(4) assms(8) [of "n - e0 - 1"] unfolding shift by simp
  qed
  moreover have "\<not> P ((i + x) mod n)" if "1 \<le> x" "x < e0 + 1 + d" for x
  proof -
    consider "x < e0" | "x = e0" | "e0 < x" by linarith
    then show ?thesis
    proof cases
      case 1
      then show ?thesis using assms(7) that(1) by blast
    next
      case 2
      then show ?thesis using assms(3,6) by simp
    next
      case 3
      then have "x - e0 - 1 < d" "e0 + 1 + (x - e0 - 1) = x" using that(2) by simp_all
      then show ?thesis using assms(8) [of "x - e0 - 1"] unfolding shift by simp
    qed
  qed
  ultimately show ?thesis unfolding shift by (intro exI [of _ "e0 + 1 + d"]) simp
qed

lemma ring_relink_wf:
  assumes "ring_wf c" and "i < length c" and "rn_next_id (c ! i) = k" and "\<not> rn_active (c ! k)"
  shows "\<exists>nx. ring_seek (\<lambda>j. rn_active (c ! j) \<or> j = i) (length c) ((k + 1) mod length c) = Some nx \<and>
    ring_wf (c[i := (c ! i)\<lparr>rn_next_id := nx\<rparr>])"
proof -
  let ?n = "length c"
  have lt: "(k + 1) mod ?n < ?n" by (rule mod_less_divisor) (use assms(2) in linarith)
  obtain d where d: "d < ?n" "ring_seek (\<lambda>j. rn_active (c ! j) \<or> j = i) ?n ((k + 1) mod ?n) = Some (((k + 1) mod ?n + d) mod ?n)"
      "\<And>x. x < d \<Longrightarrow> \<not> (rn_active (c ! (((k + 1) mod ?n + x) mod ?n)) \<or> ((k + 1) mod ?n + x) mod ?n = i)"
    using ring_seek_first [of "\<lambda>j. rn_active (c ! j) \<or> j = i" i ?n "(k + 1) mod ?n"] assms(2) lt by blast
  obtain e0 where e0: "1 \<le> e0" "e0 \<le> ?n" "k = (i + e0) mod ?n" "\<forall>x. 1 \<le> x \<and> x < e0 \<longrightarrow> \<not> rn_active (c ! ((i + x) mod ?n))"
    using assms(1-3) unfolding ring_wf_def by blast
  obtain e where e: "1 \<le> e" "e \<le> ?n" "((k + 1) mod ?n + d) mod ?n = (i + e) mod ?n" "\<forall>x. 1 \<le> x \<and> x < e \<longrightarrow> \<not> rn_active (c ! ((i + x) mod ?n))"
    using ring_relink_distance [OF e0(1-3) assms(2) d(1), of "\<lambda>j. rn_active (c ! j)"] assms(4) e0(4) d(3) by blast
  let ?c = "c[i := (c ! i)\<lparr>rn_next_id := (i + e) mod ?n\<rparr>]"
  have act: "rn_active (?c ! j) = rn_active (c ! j)" "rn_id (?c ! j) = rn_id (c ! j)" for j by (cases "j = i"; use assms(2) in simp)+
  have "ring_wf ?c" unfolding ring_wf_def act
  proof (intro conjI allI impI)
    fix j assume "j < length ?c"
    then show "\<exists>e. 1 \<le> e \<and> e \<le> length ?c \<and> rn_next_id (?c ! j) = (j + e) mod length ?c \<and>
        (\<forall>d. 1 \<le> d \<and> d < e \<longrightarrow> \<not> rn_active (c ! ((j + d) mod length ?c)))"
      using e assms(1,2) by (cases "j = i") (auto simp: ring_wf_def)
  qed (use assms(1) in \<open>simp_all add: ring_wf_def\<close>)
  then show ?thesis using d(2) e(3) by simp
qed

lemma ring_crash_link:
  assumes "ring_wf c" and "k < length c"
  shows "\<exists>d. ring_wf d \<and> length d = length c \<and> ring_alive d = ring_alive c - {k} \<and> rn_leader_id (d ! k) = rn_leader_id (c ! k) \<and>
    ring_node_crash (int k) c = (if rn_leader_id (c ! k) = int k
      then map_option (\<lambda>nx. snd (ring_election_proto nx d)) (ring_seek (\<lambda>j. rn_active (d ! j)) (length d) ((k + 1) mod length d))
      else Some d)"
proof -
  let ?c = "c[k := (c ! k)\<lparr>rn_active := False\<rparr>]"
  have wf: "ring_wf ?c" and al: "ring_alive ?c = ring_alive c - {k}" and dead: "\<not> rn_active (?c ! k)" "rn_leader_id (?c ! k) = rn_leader_id (c ! k)"
    using ring_dead_wf [OF assms] assms(2) by (auto simp: ring_alive_def nth_list_update)
  show ?thesis
  proof (cases "find_index (\<lambda>nd. rn_next_id nd = k) ?c")
    case None
    then show ?thesis using wf al dead assms(2) by (intro exI [of _ ?c]) (auto simp: ring_node_crash_def Let_def split: bind_splits)
  next
    case (Some i)
    then have i: "i < length ?c" "rn_next_id (?c ! i) = k" by (auto dest: find_index_SomeD)
    obtain nx where nx: "ring_seek (\<lambda>j. rn_active (?c ! j) \<or> j = i) (length ?c) ((k + 1) mod length ?c) = Some nx"
        "ring_wf (?c[i := (?c ! i)\<lparr>rn_next_id := nx\<rparr>])" using ring_relink_wf [OF wf i dead(1)] by blast
    let ?d = "?c[i := (?c ! i)\<lparr>rn_next_id := nx\<rparr>]"
    have keep: "rn_active (?d ! j) = rn_active (?c ! j)" "rn_leader_id (?d ! j) = rn_leader_id (?c ! j)" for j by (cases "j = i"; use i(1) in simp)+
    have "ring_alive ?d = ring_alive ?c" by (simp add: ring_alive_def keep)
    then show ?thesis using nx al dead assms(2) Some keep
      by (intro exI [of _ ?d]) (simp add: ring_node_crash_def Let_def map_conv_bind_option comp_def)
  qed
qed

lemma ring_crash_effect:
  assumes "ring_wf c" and "k < length c"
  shows "ring_node_crash (int k) c = Some d \<Longrightarrow> ring_wf d \<and> ring_alive d = ring_alive c - {k} \<and>
      (rn_leader_id (c ! k) = int k \<longrightarrow> (\<forall>nd \<in> set d. rn_leader_id nd = int (Max (ring_alive d))))"
    and "ring_alive c - {k} \<noteq> {} \<Longrightarrow> \<exists>d. ring_node_crash (int k) c = Some d"
proof -
  obtain b where b: "ring_wf b" "length b = length c" "ring_alive b = ring_alive c - {k}"
      "ring_node_crash (int k) c = (if rn_leader_id (c ! k) = int k
        then map_option (\<lambda>nx. snd (ring_election_proto nx b)) (ring_seek (\<lambda>j. rn_active (b ! j)) (length b) ((k + 1) mod length b))
        else Some b)"
    using ring_crash_link [OF assms] by blast
  have lt: "(k + 1) mod length b < length b" by (rule mod_less_divisor) (use assms(2) b(2) in linarith)
  show "ring_wf d \<and> ring_alive d = ring_alive c - {k} \<and>
      (rn_leader_id (c ! k) = int k \<longrightarrow> (\<forall>nd \<in> set d. rn_leader_id nd = int (Max (ring_alive d))))"
    if run: "ring_node_crash (int k) c = Some d"
  proof (cases "rn_leader_id (c ! k) = int k")
    case True
    then obtain nx where nx: "ring_seek (\<lambda>j. rn_active (b ! j)) (length b) ((k + 1) mod length b) = Some nx" "d = snd (ring_election_proto nx b)"
      using run b(4) by auto
    then have "nx \<in> ring_alive b" using ring_seek_Some [OF nx(1) lt] by (simp add: ring_alive_def)
    note el = ring_election_elects [OF b(1) this]
    show ?thesis using el ring_frame_wf [OF el(2) b(1)] ring_frame_alive [OF el(2)] b(3) nx(2) by simp
  next
    case False
    then show ?thesis using run b by simp
  qed
  show "\<exists>d. ring_node_crash (int k) c = Some d" if other: "ring_alive c - {k} \<noteq> {}"
  proof -
    obtain j where j: "j < length b" "rn_active (b ! j)" using other unfolding b(3) [symmetric] by (auto simp: ring_alive_def)
    obtain e where "ring_seek (\<lambda>j. rn_active (b ! j)) (length b) ((k + 1) mod length b) = Some (((k + 1) mod length b + e) mod length b)"
      by (rule ring_seek_first [where stop = "\<lambda>j. rn_active (b ! j)", OF j(2) j(1) lt]) blast
    then show ?thesis using b(4) by simp
  qed
qed

text \<open>The ring's life: elections started by live nodes, token passing and crashes, in any order.\<close>

definition ring_start :: "ring_cluster \<Rightarrow> bool" where
  "ring_start c \<longleftrightarrow> (\<exists>n > 0. ring_init n = Some c)"

inductive ring_life_step :: "ring_cluster \<Rightarrow> ring_cluster \<Rightarrow> bool" where
  ring_elects: "k \<in> ring_alive c \<Longrightarrow> ring_life_step c (snd (ring_election_proto k c))"
| ring_passes: "ring_life_step c (snd (ring_pass_token i c))"
| ring_crashes: "ring_node_crash i c = Some d \<Longrightarrow> ring_life_step c d"

lemma ring_start_wf: "ring_start c \<Longrightarrow> ring_wf c"
  by (auto simp: ring_start_def ring_init_def ring_wf_def split: if_splits intro!: exI [of _ 1])

lemma ring_pass_frame: "ring_frame c (snd (ring_pass_token i c))"
  using ring_frame_trans [OF ring_frame_update ring_frame_update]
  by (auto simp: ring_pass_token_def Let_def ring_frame_def [of c c])

lemma ring_crash_wf: "ring_wf c \<Longrightarrow> ring_node_crash i c = Some d \<Longrightarrow> ring_wf d"
  using ring_crash_effect(1) [of c "nat i" d] by (cases "i < 0 \<or> i \<ge> int (length c)") (auto simp: ring_node_crash_def [of i c])

interpretation ring: invariant_system ring_start ring_life_step ring_wf
  by unfold_locales
    (auto elim!: ring_life_step.cases intro: ring_start_wf ring_crash_wf ring_frame_wf [OF ring_pass_frame] ring_frame_wf [OF ring_election_elects(2)])

text \<open>
  C30. In every state the ring can reach, an election started by any live node elects the highest live node and every node
  records it, although pointers may still lead to dead nodes. The crash of a node other than the last live one terminates, removes
  exactly that node, and when it was the leader by its own record all nodes record the highest survivor.
\<close>

theorem ring_election_highest:
  assumes "reach ring_start ring_life_step c" and "k \<in> ring_alive c"
  shows "fst (ring_election_proto k c) = int (Max (ring_alive c)) \<and>
    (\<forall>nd \<in> set (snd (ring_election_proto k c)). rn_leader_id nd = int (Max (ring_alive c))) \<and>
    (ring_alive c \<noteq> {k} \<longrightarrow> (\<exists>d. ring_node_crash (int k) c = Some d \<and> ring_alive d = ring_alive c - {k} \<and>
       (rn_leader_id (c ! k) = int k \<longrightarrow> (\<forall>nd \<in> set d. rn_leader_id nd = int (Max (ring_alive d))))))"
proof -
  have wf: "ring_wf c" using ring.reach_inv [OF assms(1)] .
  have k: "k < length c" using assms(2) by (simp add: ring_alive_def)
  have "ring_alive c - {k} \<noteq> {}" if "ring_alive c \<noteq> {k}" using that assms(2) by blast
  then show ?thesis using ring_election_elects(1,3) [OF wf assms(2)] ring_crash_effect [OF wf k] by metis
qed

text \<open>
  Four nodes, of which the first two crash in turn: the crash of node 1 repairs the pointer of the dead node 0, which comes first
  in the table, and the live node 3 keeps its pointer to the dead node 1.
\<close>

definition ring_demo_node :: "nat \<Rightarrow> nat \<Rightarrow> bool \<Rightarrow> ring_node" where
  "ring_demo_node i nx act = \<lparr>rn_id = int i, rn_leader_id = -1, rn_next_id = nx, rn_active = act, rn_token = zero_token,
     rn_token_owner = False, rn_message_count = 0\<rparr>"

abbreviation ring_demo :: ring_cluster where
  "ring_demo \<equiv> [ring_demo_node 0 2 False, ring_demo_node 1 2 False, ring_demo_node 2 3 True, ring_demo_node 3 1 True]"

lemma ring_demo_reached: "reach ring_start ring_life_step ring_demo"
proof -
  let ?c = "[ring_demo_node 0 1 True, ring_demo_node 1 2 True, ring_demo_node 2 3 True, ring_demo_node 3 0 True]"
  let ?d = "[ring_demo_node 0 1 False, ring_demo_node 1 2 True, ring_demo_node 2 3 True, ring_demo_node 3 1 True]"
  have "ring_init 4 = Some ?c" by (simp add: ring_init_def ring_demo_node_def upt_rec)
  then have "ring_start ?c" unfolding ring_start_def by (intro exI [of _ 4]) simp
  moreover have "ring_node_crash 0 ?c = Some ?d" by (simp add: ring_node_crash_def ring_demo_node_def Let_def ring_seek.simps)
  moreover have "ring_node_crash 1 ?d = Some ring_demo" by (simp add: ring_node_crash_def ring_demo_node_def Let_def ring_seek.simps)
  ultimately show ?thesis by (meson reach_init reach_step ring_crashes)
qed

lemma ring_demo_alive: "ring_alive ring_demo = {2, 3}"
  by (auto simp: ring_alive_def ring_demo_node_def less_Suc_eq numeral_eq_Suc)

theorem ring_election_highest_witness:
  "reach ring_start ring_life_step ring_demo \<and> 2 \<in> ring_alive ring_demo \<and> ring_alive ring_demo \<noteq> {2} \<and>
   fst (ring_election_proto 2 ring_demo) = 3 \<and> (\<exists>d. ring_node_crash 2 ring_demo = Some d \<and> ring_alive d = {3})"
  using ring_election_highest [OF ring_demo_reached, of 2] ring_demo_reached unfolding ring_demo_alive
  by (auto simp: insert_Diff_if)

section \<open>Observations on the elections\<close>

text \<open>\<open>bully_declare_leader\<close> gives every node, dead ones too, the state of a leader.\<close>

lemma bully_declares_everyone:
  "\<forall>nd \<in> set (bully_declare_leader k c). bn_state nd = BULLY_LEADER"
  by (auto simp: bully_declare_leader_def Let_def dest!: set_update_subset_insert [THEN subsetD])

text \<open>After all nodes have crashed, a node below the last leader recovers without an election: it follows a dead node.\<close>

lemma bully_recover_keeps_dead_leader:
  assumes "0 < length c" and "i < length c" and "bn_leader_id (c ! 0) = int l" and "i \<le> l"
  shows "bully_node_recover (int i) c = c[i := (c ! i)\<lparr>bn_active := True, bn_state := BULLY_IDLE\<rparr>]"
proof -
  have "bn_leader_id (c[i := (c ! i)\<lparr>bn_active := True, bn_state := BULLY_IDLE\<rparr>] ! 0) = int l"
    using assms by (cases "i = 0") simp_all
  then show ?thesis using assms by (simp add: bully_node_recover_def Let_def)
qed

text \<open>The crash of the last live node of a ring, when it leads, never returns.\<close>

lemma ring_last_crash_hangs:
  assumes "ring_wf c" and "ring_alive c = {k}" and "rn_leader_id (c ! k) = int k"
  shows "ring_node_crash (int k) c = None"
proof -
  have k: "k < length c" using assms(2) by (auto simp: ring_alive_def)
  obtain b where b: "length b = length c" "ring_alive b = {}"
      "ring_node_crash (int k) c = map_option (\<lambda>nx. snd (ring_election_proto nx b)) (ring_seek (\<lambda>j. rn_active (b ! j)) (length b) ((k + 1) mod length b))"
    using ring_crash_link [OF assms(1) k] assms(2,3) by auto
  have "(k + 1) mod length b < length b" by (rule mod_less_divisor) (use k b(1) in linarith)
  then have "ring_seek (\<lambda>j. rn_active (b ! j)) (length b) ((k + 1) mod length b) \<noteq> Some nx" for nx
    using ring_seek_Some [of "\<lambda>j. rn_active (b ! j)" "length b" "(k + 1) mod length b" nx] b(2) by (auto simp: ring_alive_def)
  then show ?thesis using b(3) by (metis not_None_eq option.map_disc_iff)
qed

text \<open>Once 999999 sequence numbers have been given out, the sequential election finds no leader.\<close>

lemma zk_sequence_exhausted:
  assumes "999999 \<le> zk_next_sequence c"
  shows "fst (zk_leader_election c) = -1"
proof -
  let ?d = "zk_create_all c"
  have high: "\<not> zn_sequence (zk_nodes ?d ! i) < 999999" if "i < length (zk_nodes ?d)" "zn_active (zk_nodes ?d ! i)" for i
    using zk_create_upto [of "length (zk_nodes c)" c] assms that unfolding zk_create_all_def by fastforce
  have "m \<le> length (zk_nodes ?d) \<Longrightarrow> fold (zk_lowest_step ?d) [0..<m] (-1, 999999) = (-1, 999999)" for m
    by (induction m) (use high in \<open>auto simp: zk_lowest_step_def Let_def\<close>)
  then show ?thesis by (simp add: zk_leader_election_def zk_lowest_def Let_def)
qed

end
