(* ===== verification/Crc32.thy ===== *)
theory Crc32
  imports Bytes
begin

text \<open>
  The cyclic redundancy check of \<open>mini-rpc-framework/src/rpc_protocol.c\<close> (lines 28 to 61): the table of remainders, the
  table-driven update, its final complement. The reference is the shift register that consumes one bit at a time, the
  least significant bit of each byte first. The table-driven routine computes the register, and the register's
  shift is linear and injective; therefore two messages that differ inside a window of at most 32 bits have different
  checksums, whatever surrounds the window.
\<close>

section \<open>The source's routine\<close>

definition crc32_shift :: "32 word \<Rightarrow> 32 word" where
  "crc32_shift crc = (if crc AND 1 \<noteq> 0 then drop_bit 1 crc XOR 0xEDB88320 else drop_bit 1 crc)"

definition g_crc32_table :: "32 word list" where
  "g_crc32_table = map (\<lambda>i. (crc32_shift ^^ 8) (of_nat i)) [0..<256]"

definition rpc_crc32_update :: "32 word \<Rightarrow> byte list \<Rightarrow> 32 word" where
  "rpc_crc32_update crc data =
     fold (\<lambda>b crc. drop_bit 8 crc XOR g_crc32_table ! unat ((crc XOR ucast b) AND 0xFF)) data crc"

definition rpc_crc32_finalize :: "32 word \<Rightarrow> 32 word" where
  "rpc_crc32_finalize crc = crc XOR 0xFFFFFFFF"

definition rpc_crc32_compute :: "byte list \<Rightarrow> 32 word" where
  "rpc_crc32_compute data = rpc_crc32_finalize (rpc_crc32_update 0xFFFFFFFF data)"

section \<open>The bitwise register\<close>

definition crc32_feed :: "bool \<Rightarrow> 32 word \<Rightarrow> 32 word" where
  "crc32_feed b crc = (if bit crc 0 \<noteq> b then drop_bit 1 crc XOR 0xEDB88320 else drop_bit 1 crc)"

definition byte_bits :: "byte \<Rightarrow> bool list" where
  "byte_bits b = map (bit b) [0..<8]"

abbreviation message_bits :: "byte list \<Rightarrow> bool list" where
  "message_bits bs \<equiv> concat (map byte_bits bs)"

primrec bits_word :: "bool list \<Rightarrow> 32 word" where
  "bits_word [] = 0"
| "bits_word (b # bs) = of_bool b XOR push_bit 1 (bits_word bs)"

section \<open>The shift is linear and injective\<close>

lemma xor_cancel: "x XOR z = y XOR z \<longleftrightarrow> x = y" for x y z :: "32 word"
proof
  assume "x XOR z = y XOR z"
  then have "(x XOR z) XOR z = (y XOR z) XOR z" by simp
  then show "x = y" by (simp only: xor.assoc xor_self_eq xor.right_neutral)
qed simp

lemma crc32_shift_alt: "crc32_shift x = drop_bit 1 x XOR (if odd x then 0xEDB88320 else 0)"
  by (simp add: crc32_shift_def and_one_eq odd_iff_mod_2_eq_one)

lemma crc32_shift_xor: "crc32_shift (x XOR y) = crc32_shift x XOR crc32_shift y"
  by (simp add: crc32_shift_alt even_xor_iff drop_bit_xor xor.assoc xor.left_commute)

lemma crc32_feed_shift: "crc32_feed b x = crc32_shift (x XOR of_bool b)"
proof -
  have "drop_bit 1 (x XOR of_bool b) = drop_bit 1 x" by (simp add: drop_bit_xor drop_bit_of_bool)
  then show ?thesis by (simp add: crc32_feed_def crc32_shift_alt even_xor_iff bit_0)
qed

lemma crc32_poly_top: "bit (0xEDB88320 :: 32 word) 31"
  by code_simp

lemma crc32_shift_zero:
  assumes "crc32_shift z = 0"
  shows "z = 0"
proof -
  have "\<not> bit (drop_bit 1 z) 31" using bit_imp_le_length [of z 32] by (auto simp: bit_drop_bit_eq)
  then have "bit (crc32_shift z) 31 \<longleftrightarrow> odd z"
    unfolding crc32_shift_alt bit_xor_iff using crc32_poly_top by simp
  then have even: "even z" using assms by simp
  then have shifted: "drop_bit 1 z = 0" using assms by (simp add: crc32_shift_alt)
  have "\<not> bit z n" for n
  proof (cases n)
    case 0
    then show ?thesis using even by (simp add: bit_0)
  next
    case (Suc m)
    have "bit z n \<longleftrightarrow> bit (drop_bit 1 z) m" by (simp add: bit_drop_bit_eq Suc)
    then show ?thesis using shifted by simp
  qed
  then show ?thesis by (intro bit_word_eqI) simp
qed

lemma crc32_shift_inj: "crc32_shift x = crc32_shift y \<longleftrightarrow> x = y"
proof
  assume "crc32_shift x = crc32_shift y"
  then have "crc32_shift (x XOR y) = 0" by (simp add: crc32_shift_xor)
  then have "x XOR y = 0" by (rule crc32_shift_zero)
  then have "x XOR y = y XOR y" by (simp only: xor_self_eq)
  then show "x = y" by (simp only: xor_cancel)
qed simp

lemma crc32_shifts_xor: "(crc32_shift ^^ k) (x XOR y) = (crc32_shift ^^ k) x XOR (crc32_shift ^^ k) y"
  by (induction k) (simp_all add: crc32_shift_xor)

lemma crc32_shifts_inj: "(crc32_shift ^^ k) x = (crc32_shift ^^ k) y \<longleftrightarrow> x = y"
  by (induction k) (simp_all add: crc32_shift_inj)

lemma crc32_shifts_high:
  "take_bit k x = 0 \<Longrightarrow> (crc32_shift ^^ k) x = drop_bit k x"
proof (induction k arbitrary: x)
  case (Suc k)
  have low: "\<not> bit x i" if "i \<le> k" for i
    using Suc.prems that by (metis bit_0_eq bit_take_bit_iff bot_apply bot_bool_def less_Suc_eq_le)
  have "crc32_shift x = drop_bit 1 x" using low [of 0] by (simp add: crc32_shift_alt bit_0)
  moreover have "take_bit k (drop_bit 1 x) = 0"
    by (rule bit_word_eqI) (use low in \<open>auto simp: bit_simps\<close>)
  ultimately show ?case using Suc.IH [of "drop_bit 1 x"] by (simp add: funpow_swap1 drop_bit_drop_bit)
qed simp

section \<open>Feeding up to 32 bits\<close>

lemma bit_push_one: "bit (push_bit 1 (w :: 32 word)) n \<longleftrightarrow> 0 < n \<and> n < 32 \<and> bit w (n - 1)"
  by (unfold bit_push_bit_iff) auto

lemma bits_word_bit: "bit (bits_word bs) n \<longleftrightarrow> n < 32 \<and> n < length bs \<and> bs ! n"
proof (induction bs arbitrary: n)
  case (Cons b bs)
  show ?case unfolding bits_word.simps bit_xor_iff bit_push_one Cons.IH by (cases n) auto
qed simp

lemma bits_word_inj:
  assumes "length bs = length cs" and "length bs \<le> 32" and "bits_word bs = bits_word cs"
  shows "bs = cs"
  using assms(1)
proof (rule nth_equalityI)
  fix i
  assume "i < length bs"
  then show "bs ! i = cs ! i" using bits_word_bit [of bs i] bits_word_bit [of cs i] assms by simp
qed

lemma crc32_shift_bits: "length bs < 32 \<Longrightarrow> crc32_shift (push_bit 1 (bits_word bs)) = bits_word bs"
proof (rule bit_word_eqI)
  fix n
  assume "length bs < 32" and "n < LENGTH(32)"
  moreover have "even (push_bit 1 (bits_word bs))" by simp
  ultimately show "bit (crc32_shift (push_bit 1 (bits_word bs))) n = bit (bits_word bs) n"
    unfolding crc32_shift_alt bit_xor_iff bit_drop_bit_eq comp_apply bit_push_one bits_word_bit by auto
qed

lemma crc32_feed_word:
  "length bs \<le> 32 \<Longrightarrow> fold crc32_feed bs c = (crc32_shift ^^ length bs) (c XOR bits_word bs)"
proof (induction bs arbitrary: c)
  case (Cons b bs)
  have "fold crc32_feed (b # bs) c = (crc32_shift ^^ length bs) (crc32_shift (c XOR of_bool b) XOR bits_word bs)"
    using Cons.prems by (simp add: Cons.IH crc32_feed_shift [of b c] del: of_bool_eq_iff split del: if_split)
  also have "\<dots> = (crc32_shift ^^ length bs) (crc32_shift ((c XOR of_bool b) XOR push_bit 1 (bits_word bs)))"
    using Cons.prems crc32_shift_bits [of bs] by (simp only: crc32_shift_xor [of "c XOR of_bool b"] length_Cons Suc_le_eq)
  finally show ?case by (simp only: funpow_swap1 funpow.simps comp_apply xor.assoc length_Cons bits_word.simps)
qed simp

lemma crc32_feed_inj: "fold crc32_feed bs c = fold crc32_feed bs d \<longleftrightarrow> c = d"
proof (induction bs arbitrary: c d)
  case (Cons b bs)
  have "crc32_feed b c = crc32_feed b d \<longleftrightarrow> c = d" by (simp only: crc32_feed_shift crc32_shift_inj xor_cancel)
  then show ?case by (simp only: fold_simps Cons.IH)
qed simp

lemma crc32_feed_window:
  assumes "length e = length f" and "length e \<le> 32" and "e \<noteq> f"
  shows "fold crc32_feed (p @ e @ s) c \<noteq> fold crc32_feed (p @ f @ s) c"
proof
  let ?d = "fold crc32_feed p c"
  assume "fold crc32_feed (p @ e @ s) c = fold crc32_feed (p @ f @ s) c"
  then have "fold crc32_feed e ?d = fold crc32_feed f ?d" by (simp add: crc32_feed_inj)
  then have "?d XOR bits_word e = ?d XOR bits_word f" using assms by (simp add: crc32_feed_word crc32_shifts_inj)
  then have "bits_word e = bits_word f" by (simp only: xor.commute [of ?d] xor_cancel)
  then show False using bits_word_inj assms by blast
qed

section \<open>The table computes the register\<close>

lemma length_byte_bits [simp]: "length (byte_bits b) = 8"
  by (simp add: byte_bits_def)

lemma bits_word_byte: "bits_word (byte_bits b) = ucast b"
proof (rule bit_word_eqI)
  fix n
  have "bit b n \<Longrightarrow> n < 8" using bit_imp_le_length [of b n] by simp
  then show "bit (bits_word (byte_bits b)) n = bit (ucast b :: 32 word) n" if "n < LENGTH(32)"
    using that by (auto simp: bits_word_bit byte_bits_def bit_ucast_iff)
qed

lemma crc32_table_entry: "g_crc32_table ! unat (x AND 0xFF) = (crc32_shift ^^ 8) (take_bit 8 x)"
proof -
  have low: "x AND 0xFF = take_bit 8 x" by (simp add: take_bit_eq_mask mask_eq_exp_minus_1)
  have "unat (take_bit 8 x) < 256"
    using take_bit_nat_less_exp [of 8 "unat x"] by (simp add: unsigned_take_bit_eq)
  then show ?thesis unfolding low g_crc32_table_def by simp
qed

lemma crc32_split: "(crc32_shift ^^ 8) x = drop_bit 8 x XOR (crc32_shift ^^ 8) (take_bit 8 x)"
proof -
  let ?h = "push_bit 8 (drop_bit 8 x)"
  have sum: "x = ?h XOR take_bit 8 x" by (rule bit_word_eqI) (auto simp: bit_simps)
  have "take_bit 8 ?h = 0" by (rule bit_word_eqI) (auto simp: bit_simps)
  then have "(crc32_shift ^^ 8) ?h = drop_bit 8 ?h" by (rule crc32_shifts_high)
  also have "\<dots> = drop_bit 8 x" by (rule bit_word_eqI) (auto simp: bit_simps dest: bit_imp_le_length)
  finally show ?thesis by (subst sum) (simp only: crc32_shifts_xor)
qed

lemma crc32_byte:
  "drop_bit 8 crc XOR g_crc32_table ! unat ((crc XOR ucast b) AND 0xFF) = fold crc32_feed (byte_bits b) crc"
proof -
  have "drop_bit 8 (ucast b :: 32 word) = 0"
    by (rule bit_word_eqI) (auto simp: bit_simps dest: bit_imp_le_length)
  then have "drop_bit 8 (crc XOR ucast b) = drop_bit 8 crc" by (simp add: drop_bit_xor)
  then show ?thesis
    by (simp add: crc32_table_entry crc32_feed_word bits_word_byte crc32_split [of "crc XOR ucast b"])
qed

lemma rpc_crc32_update_append: "rpc_crc32_update c (xs @ ys) = rpc_crc32_update (rpc_crc32_update c xs) ys"
  by (simp add: rpc_crc32_update_def)

lemma rpc_crc32_update_feed: "rpc_crc32_update c bs = fold crc32_feed (message_bits bs) c"
  by (induction bs arbitrary: c) (simp_all add: rpc_crc32_update_def crc32_byte)

lemma rpc_crc32_finalize_inj: "rpc_crc32_finalize a = rpc_crc32_finalize b \<longleftrightarrow> a = b"
  unfolding rpc_crc32_finalize_def by (rule xor_cancel)

section \<open>Properties\<close>

text \<open>The table-driven checksum is the bitwise one: for every message and starting value the update that looks up
  one table entry per byte leaves the register that results from shifting in the message bit by bit.\<close>

theorem crc32_table_is_bitwise:
  "rpc_crc32_update crc data = fold crc32_feed (concat (map byte_bits data)) crc"
  by (rule rpc_crc32_update_feed)

text \<open>Burst detection, as the header promises it: two messages that agree outside a window of at most 32
  consecutive bits and differ inside it have different checksums, for messages of any length and a window at any bit
  position.\<close>

theorem crc32_burst_detected:
  assumes "message_bits m = p @ e @ s" and "message_bits m' = p @ f @ s"
    and "length e = length f" and "length e \<le> 32" and "e \<noteq> f"
  shows "rpc_crc32_compute m \<noteq> rpc_crc32_compute m'"
  using crc32_feed_window [OF assms(3-5)]
  by (simp add: rpc_crc32_compute_def rpc_crc32_finalize_inj rpc_crc32_update_feed assms(1,2))

theorem crc32_burst_detected_witness:
  "rpc_crc32_compute [0x31, 0x32] \<noteq> rpc_crc32_compute [0x31, 0x33]"
proof (rule crc32_burst_detected [where p = "byte_bits 0x31" and s = "[]"])
  show "message_bits [0x31, 0x32] = byte_bits 0x31 @ byte_bits 0x32 @ []" by simp
  show "message_bits [0x31, 0x33] = byte_bits 0x31 @ byte_bits 0x33 @ []" by simp
  show "byte_bits 0x32 \<noteq> byte_bits 0x33" by code_simp
qed simp_all

end
