(* ===== verification/RpcProtocol.thy ===== *)
theory RpcProtocol
  imports Crc32 "HOL-Library.Monad_Syntax" "HOL-Library.Sublist"
begin

text \<open>
  The wire protocol of the RPC framework: the growing buffers of \<open>mini-rpc-framework/src/rpc_encoding.c\<close> (lines 7 to 42)
  and all of \<open>rpc_protocol.c\<close> except its checksum, which is \<open>Crc32\<close>, and the constant \<open>rpc_proto_error_bound\<close>.

  A buffer is the list of its \<open>len\<close> bytes with its capacity. Doubling the capacity never ends for a buffer of capacity
  zero (one that \<open>rpc_buffer_free\<close> has released), so growing is a partial function and every operation that may grow a
  buffer is in the option monad, \<open>None\<close> being no return. Allocation succeeds and a \<open>size_t\<close> does not overflow. The
  operations that fill several out-parameters return them as a tuple after the return code. A version is the
  32-bit value on the wire, since the source casts arbitrary values to the enum.
\<close>

section \<open>Buffers\<close>

record rpc_buffer =
  buf_data :: "byte list"
  buf_capacity :: nat

definition rpc_buffer_init :: rpc_buffer where
  "rpc_buffer_init = \<lparr>buf_data = [], buf_capacity = 4096\<rparr>"

definition rpc_buffer_free :: "rpc_buffer \<Rightarrow> rpc_buffer" where
  "rpc_buffer_free buf = \<lparr>buf_data = [], buf_capacity = 0\<rparr>"

partial_function (option) rpc_buffer_double :: "nat \<Rightarrow> nat \<Rightarrow> nat option" where
  "rpc_buffer_double newcap need = (if newcap < need then rpc_buffer_double (newcap * 2) need else Some newcap)"

declare rpc_buffer_double.simps [code]

definition rpc_buffer_reserve :: "rpc_buffer \<Rightarrow> nat \<Rightarrow> rpc_buffer option" where
  "rpc_buffer_reserve buf need =
     (if need \<le> buf_capacity buf then Some buf
      else do {
        newcap \<leftarrow> rpc_buffer_double (buf_capacity buf) need;
        Some (buf\<lparr>buf_capacity := newcap\<rparr>)
      })"

definition rpc_buffer_append :: "rpc_buffer \<Rightarrow> byte list \<Rightarrow> rpc_buffer option" where
  "rpc_buffer_append buf src = do {
     buf \<leftarrow> rpc_buffer_reserve buf (length (buf_data buf) + length src);
     Some (buf\<lparr>buf_data := buf_data buf @ src\<rparr>)
   }"

definition rpc_buffer_reset :: "rpc_buffer \<Rightarrow> rpc_buffer" where
  "rpc_buffer_reset buf = buf\<lparr>buf_data := []\<rparr>"

section \<open>Frames\<close>

definition write_u32be :: "32 word \<Rightarrow> byte list" where
  "write_u32be val = [ucast (drop_bit 24 val AND 0xFF), ucast (drop_bit 16 val AND 0xFF),
     ucast (drop_bit 8 val AND 0xFF), ucast (val AND 0xFF)]"

definition read_u32be :: "byte list \<Rightarrow> 32 word" where
  "read_u32be buf = push_bit 24 (ucast (buf ! 0)) OR push_bit 16 (ucast (buf ! 1)) OR
     push_bit 8 (ucast (buf ! 2)) OR ucast (buf ! 3)"

abbreviation RPC_PROTO_MAGIC :: "32 word" where "RPC_PROTO_MAGIC \<equiv> 0x52504321"
abbreviation RPC_PROTO_MAX_FRAME_SIZE :: nat where "RPC_PROTO_MAX_FRAME_SIZE \<equiv> 16777216"
abbreviation RPC_PROTO_MAX_CHUNK_SIZE :: nat where "RPC_PROTO_MAX_CHUNK_SIZE \<equiv> 65536"
abbreviation RPC_PROTO_HEADER_SIZE :: nat where "RPC_PROTO_HEADER_SIZE \<equiv> 22"
abbreviation RPC_PROTO_OVERHEAD :: nat where "RPC_PROTO_OVERHEAD \<equiv> 26"

abbreviation RPC_FRAME_STREAM_DATA :: byte where "RPC_FRAME_STREAM_DATA \<equiv> 1"
abbreviation RPC_FRAME_STREAM_END :: byte where "RPC_FRAME_STREAM_END \<equiv> 2"
abbreviation RPC_FRAME_KEEPALIVE :: byte where "RPC_FRAME_KEEPALIVE \<equiv> 3"

record rpc_frame =
  fr_magic :: "32 word"
  fr_version :: "32 word"
  fr_type :: byte
  fr_flags :: byte
  fr_stream :: "32 word"
  fr_sequence :: "32 word"
  fr_len :: "32 word"

definition zero_frame :: rpc_frame where
  "zero_frame = \<lparr>fr_magic = 0, fr_version = 0, fr_type = 0, fr_flags = 0, fr_stream = 0, fr_sequence = 0, fr_len = 0\<rparr>"

definition rpc_frame_header :: "rpc_frame \<Rightarrow> byte list" where
  "rpc_frame_header frame = write_u32be (fr_magic frame) @ write_u32be (fr_version frame) @ [fr_type frame, fr_flags frame] @
     write_u32be (fr_stream frame) @ write_u32be (fr_sequence frame) @ write_u32be (fr_len frame)"

definition rpc_proto_frame_build ::
    "rpc_frame \<Rightarrow> rpc_buffer \<Rightarrow> rpc_buffer \<Rightarrow> (int \<times> rpc_frame \<times> rpc_buffer) option" where
  "rpc_proto_frame_build frame payload out =
     (let plen = length (buf_data payload) in
      if plen > RPC_PROTO_MAX_FRAME_SIZE - RPC_PROTO_OVERHEAD then Some (-2, frame, out)
      else let total_len = of_nat (RPC_PROTO_HEADER_SIZE + plen + 4);
               frame = frame\<lparr>fr_len := total_len, fr_magic := RPC_PROTO_MAGIC\<rparr>;
               hdr = rpc_frame_header frame in
      do {
        out \<leftarrow> rpc_buffer_reserve (rpc_buffer_reset out) (unat total_len);
        out \<leftarrow> rpc_buffer_append out hdr;
        out \<leftarrow> rpc_buffer_append out (buf_data payload);
        let crc = rpc_crc32_finalize (rpc_crc32_update (rpc_crc32_update 0xFFFFFFFF hdr) (buf_data payload));
        out \<leftarrow> rpc_buffer_append out (write_u32be crc);
        Some (0, frame, out)
      })"

definition rpc_proto_frame_parse ::
    "rpc_buffer \<Rightarrow> rpc_frame \<Rightarrow> rpc_buffer \<Rightarrow> (int \<times> rpc_frame \<times> rpc_buffer) option" where
  "rpc_proto_frame_parse inb frame out =
     (let data = buf_data inb in
      if length data < RPC_PROTO_OVERHEAD then Some (-1, frame, out)
      else let frame = frame\<lparr>fr_magic := read_u32be data\<rparr> in
      if fr_magic frame \<noteq> RPC_PROTO_MAGIC then Some (-1, frame, out)
      else let frame = frame\<lparr>fr_version := read_u32be (drop 4 data), fr_type := data ! 8, fr_flags := data ! 9,
                 fr_stream := read_u32be (drop 10 data), fr_sequence := read_u32be (drop 14 data),
                 fr_len := read_u32be (drop 18 data)\<rparr> in
      if unat (fr_len frame) > RPC_PROTO_MAX_FRAME_SIZE then Some (-2, frame, out)
      else if fr_len frame \<noteq> of_nat (length data) then Some (-3, frame, out)
      else if unat (fr_len frame) < RPC_PROTO_OVERHEAD then None
      else let payload_len = unat (fr_len frame) - RPC_PROTO_OVERHEAD;
               stored_crc = read_u32be (drop (RPC_PROTO_HEADER_SIZE + payload_len) data);
               computed_crc = rpc_crc32_compute (take (unat (fr_len frame) - 4) data) in
      if stored_crc \<noteq> computed_crc then Some (-4, frame, out)
      else do {
        out \<leftarrow> rpc_buffer_reserve (rpc_buffer_reset out) payload_len;
        out \<leftarrow> rpc_buffer_append out (take payload_len (drop RPC_PROTO_HEADER_SIZE data));
        Some (0, frame, out)
      })"

section \<open>Versions\<close>

abbreviation RPC_PROTO_VER_1_0 :: "32 word" where "RPC_PROTO_VER_1_0 \<equiv> 0x00010000"
abbreviation RPC_PROTO_VER_ANY :: "32 word" where "RPC_PROTO_VER_ANY \<equiv> 0xFFFFFFFF"

definition rpc_proto_version_compare :: "32 word \<Rightarrow> 32 word \<Rightarrow> int" where
  "rpc_proto_version_compare a b =
     (if a = b then 0
      else if a = RPC_PROTO_VER_ANY \<or> b = RPC_PROTO_VER_ANY then 0
      else let ma = drop_bit 16 a; mb = drop_bit 16 b in
      if ma \<noteq> mb then (if ma > mb then 1 else -1)
      else let mia = drop_bit 8 a AND 0xFF; mib = drop_bit 8 b AND 0xFF in
      if mia \<noteq> mib then (if mia > mib then 1 else -1)
      else let pa = a AND 0xFF; pb = b AND 0xFF in
      if pa \<noteq> pb then (if pa > pb then 1 else -1) else 0)"

definition rpc_proto_version_negotiate :: "32 word \<Rightarrow> 32 word \<Rightarrow> 32 word" where
  "rpc_proto_version_negotiate lcl remote =
     (if lcl = RPC_PROTO_VER_ANY then remote
      else if remote = RPC_PROTO_VER_ANY then lcl
      else if lcl = remote then lcl
      else if rpc_proto_version_compare lcl remote \<le> 0 then lcl else remote)"

section \<open>Compression\<close>

text \<open>A codec gets the source and the capacity of the destination; it returns its code and the bytes it wrote, whose
  number is the value of \<open>dst_len\<close> afterwards. The two global arrays are one record.\<close>

datatype rpc_compress_algo = RPC_COMPRESS_NONE | RPC_COMPRESS_ZLIB | RPC_COMPRESS_LZ4 | RPC_COMPRESS_SNAPPY

type_synonym rpc_codec_fn = "byte list \<Rightarrow> nat \<Rightarrow> int \<times> byte list"

record rpc_codecs =
  g_compress_fns :: "rpc_compress_algo \<Rightarrow> rpc_codec_fn option"
  g_decompress_fns :: "rpc_compress_algo \<Rightarrow> rpc_codec_fn option"

definition compress_identity :: rpc_codec_fn where
  "compress_identity src dst_len = (if dst_len < length src then (-2, []) else (0, src))"

definition rpc_proto_compress_register ::
    "rpc_compress_algo \<Rightarrow> rpc_codec_fn option \<Rightarrow> rpc_codec_fn option \<Rightarrow> rpc_codecs \<Rightarrow> rpc_codecs" where
  "rpc_proto_compress_register algo compress decompress g =
     g\<lparr>g_compress_fns := (g_compress_fns g)(algo := compress),
       g_decompress_fns := (g_decompress_fns g)(algo := decompress)\<rparr>"

definition rpc_proto_compress ::
    "rpc_codecs \<Rightarrow> rpc_compress_algo \<Rightarrow> byte list \<Rightarrow> rpc_buffer \<Rightarrow> (int \<times> rpc_buffer) option" where
  "rpc_proto_compress g algo src out =
     (case (if algo = RPC_COMPRESS_NONE then None else g_compress_fns g algo) of
        None \<Rightarrow> do {
          out \<leftarrow> rpc_buffer_reserve (rpc_buffer_reset out) (length src);
          let (ret, dst) = compress_identity src (buf_capacity out);
          Some (ret, if ret = 0 then out\<lparr>buf_data := dst\<rparr> else out)
        }
      | Some f \<Rightarrow> do {
          out \<leftarrow> rpc_buffer_reserve (rpc_buffer_reset out) (length src + 256);
          let (ret, dst) = f src (buf_capacity out);
          if ret = 0 \<and> length dst < length src then Some (0, out\<lparr>buf_data := dst\<rparr>)
          else do {
            out \<leftarrow> rpc_buffer_reserve (rpc_buffer_reset out) (length src);
            Some (0, out\<lparr>buf_data := src\<rparr>)
          }
        })"

definition rpc_proto_decompress ::
    "rpc_codecs \<Rightarrow> rpc_compress_algo \<Rightarrow> byte list \<Rightarrow> rpc_buffer \<Rightarrow> (int \<times> rpc_buffer) option" where
  "rpc_proto_decompress g algo src out =
     (case (if algo = RPC_COMPRESS_NONE then None else g_decompress_fns g algo) of
        None \<Rightarrow> do {
          out \<leftarrow> rpc_buffer_reserve (rpc_buffer_reset out) (length src);
          Some (0, out\<lparr>buf_data := src\<rparr>)
        }
      | Some f \<Rightarrow> do {
          out \<leftarrow> rpc_buffer_reserve (rpc_buffer_reset out) (length src * 4 + 256);
          let (ret, dst) = f src (buf_capacity out);
          Some (ret, if ret = 0 then out\<lparr>buf_data := dst\<rparr> else out)
        })"

section \<open>Sessions\<close>

record rpc_negotiation =
  neg_version :: "32 word"
  neg_compression :: bool
  neg_algo :: rpc_compress_algo
  neg_encryption :: bool
  neg_multiplexing :: bool
  neg_max_frame_size :: "32 word"
  neg_max_streams :: "32 word"

record rpc_stream =
  st_id :: "32 word"
  st_next_sequence :: "32 word"
  st_active :: bool
  st_closed :: bool
  st_buffer :: rpc_buffer
  st_expected :: "32 word"
  st_high :: nat
  st_low :: nat

abbreviation RPC_PROTO_MAX_STREAMS :: nat where "RPC_PROTO_MAX_STREAMS \<equiv> 64"

record rpc_session =
  ss_negotiation :: rpc_negotiation
  ss_streams :: "rpc_stream list"
  ss_count :: int
  ss_handshake :: bool
  ss_next_id :: "32 word"
  ss_sent :: "64 word"
  ss_received :: "64 word"
  ss_crc_errors :: "64 word"

definition zero_stream :: rpc_stream where
  "zero_stream = \<lparr>st_id = 0, st_next_sequence = 0, st_active = False, st_closed = False,
     st_buffer = \<lparr>buf_data = [], buf_capacity = 0\<rparr>, st_expected = 0, st_high = 0, st_low = 0\<rparr>"

definition zero_session :: rpc_session where
  "zero_session = \<lparr>ss_negotiation = \<lparr>neg_version = 0, neg_compression = False, neg_algo = RPC_COMPRESS_NONE,
       neg_encryption = False, neg_multiplexing = False, neg_max_frame_size = 0, neg_max_streams = 0\<rparr>,
     ss_streams = replicate RPC_PROTO_MAX_STREAMS zero_stream, ss_count = 0, ss_handshake = False, ss_next_id = 0,
     ss_sent = 0, ss_received = 0, ss_crc_errors = 0\<rparr>"

definition rpc_proto_session_init :: rpc_session where
  "rpc_proto_session_init =
     zero_session\<lparr>ss_negotiation := (ss_negotiation zero_session)\<lparr>neg_version := RPC_PROTO_VER_1_0,
         neg_max_frame_size := of_nat RPC_PROTO_MAX_FRAME_SIZE, neg_max_streams := of_nat RPC_PROTO_MAX_STREAMS,
         neg_compression := False, neg_encryption := False, neg_multiplexing := True\<rparr>,
       ss_next_id := 1,
       ss_streams := map (\<lambda>s. s\<lparr>st_buffer := rpc_buffer_init, st_high := 1048576, st_low := 262144\<rparr>)
         (ss_streams zero_session)\<rparr>"

text \<open>Freeing a session: the indices of the slots whose buffers are released, and the zeroed session.\<close>

definition rpc_proto_session_free :: "rpc_session \<Rightarrow> nat list \<times> rpc_session" where
  "rpc_proto_session_free sess =
     (filter (\<lambda>i. st_active (ss_streams sess ! i)) [0..<length (ss_streams sess)], zero_session)"

definition bool_byte :: "bool \<Rightarrow> byte" where
  "bool_byte b = (if b then 1 else 0)"

definition rpc_handshake_payload :: "rpc_negotiation \<Rightarrow> byte list" where
  "rpc_handshake_payload n = write_u32be (neg_version n) @ [bool_byte (neg_compression n), bool_byte (neg_encryption n),
     bool_byte (neg_multiplexing n)] @ write_u32be (neg_max_frame_size n) @ write_u32be (neg_max_streams n)"

definition rpc_proto_build_handshake :: "rpc_session \<Rightarrow> rpc_buffer \<Rightarrow> (int \<times> rpc_session \<times> rpc_buffer) option" where
  "rpc_proto_build_handshake sess out = (let buf = rpc_handshake_payload (ss_negotiation sess) in do {
     out \<leftarrow> rpc_buffer_append (rpc_buffer_reset out) buf;
     out \<leftarrow> rpc_buffer_append out (write_u32be (rpc_crc32_compute buf));
     Some (0, sess\<lparr>ss_handshake := True\<rparr>, out)
   })"

definition rpc_proto_parse_handshake :: "rpc_session \<Rightarrow> rpc_buffer \<Rightarrow> int \<times> rpc_session" where
  "rpc_proto_parse_handshake sess inb =
     (let data = buf_data inb in
      if length data < 19 then (-1, sess)
      else let stored_crc = read_u32be (drop 15 data); computed_crc = rpc_crc32_compute (take 15 data) in
      if stored_crc \<noteq> computed_crc then (-2, sess\<lparr>ss_crc_errors := ss_crc_errors sess + 1\<rparr>)
      else (0, sess\<lparr>ss_negotiation := (ss_negotiation sess)\<lparr>
          neg_version := rpc_proto_version_negotiate RPC_PROTO_VER_1_0 (read_u32be data),
          neg_compression := data ! 4 \<noteq> 0, neg_encryption := data ! 5 \<noteq> 0, neg_multiplexing := data ! 6 \<noteq> 0,
          neg_max_frame_size := read_u32be (drop 7 data), neg_max_streams := read_u32be (drop 11 data)\<rparr>,
        ss_handshake := True\<rparr>))"

section \<open>Streams\<close>

definition find_stream :: "rpc_session \<Rightarrow> 32 word \<Rightarrow> nat option" where
  "find_stream sess sid = find_index (\<lambda>s. st_active s \<and> st_id s = sid) (ss_streams sess)"

definition rpc_proto_stream_open :: "rpc_session \<Rightarrow> int \<times> rpc_session" where
  "rpc_proto_stream_open sess =
     (case find_index (\<lambda>s. \<not> st_active s) (ss_streams sess) of
        None \<Rightarrow> (-1, sess)
      | Some i \<Rightarrow>
          (let s = (ss_streams sess ! i)\<lparr>st_id := ss_next_id sess, st_next_sequence := 0, st_active := True,
                 st_closed := False, st_expected := 0,
                 st_buffer := rpc_buffer_reset (st_buffer (ss_streams sess ! i))\<rparr> in
           (sint (st_id s), sess\<lparr>ss_next_id := ss_next_id sess + 1, ss_streams := (ss_streams sess)[i := s],
              ss_count := ss_count sess + 1\<rparr>)))"

definition rpc_proto_stream_send ::
    "rpc_session \<Rightarrow> 32 word \<Rightarrow> rpc_buffer \<Rightarrow> rpc_buffer \<Rightarrow> (int \<times> rpc_session \<times> rpc_buffer) option" where
  "rpc_proto_stream_send sess sid chunk framed_out =
     (case find_stream sess sid of
        None \<Rightarrow> Some (-1, sess, framed_out)
      | Some idx \<Rightarrow>
          (let s = ss_streams sess ! idx in
           if st_closed s then Some (-2, sess, framed_out)
           else if length (buf_data chunk) > RPC_PROTO_MAX_CHUNK_SIZE then Some (-3, sess, framed_out)
           else let frame = zero_frame\<lparr>fr_version := neg_version (ss_negotiation sess), fr_type := RPC_FRAME_STREAM_DATA,
                      fr_stream := sid, fr_sequence := st_next_sequence s,
                      fr_flags := if neg_compression (ss_negotiation sess) then 1 else 0\<rparr>;
                    sess = sess\<lparr>ss_streams := (ss_streams sess)[idx := s\<lparr>st_next_sequence := st_next_sequence s + 1\<rparr>]\<rparr> in
           do {
             (ret, frame, framed_out) \<leftarrow> rpc_proto_frame_build frame chunk framed_out;
             Some (ret, if ret = 0 then sess\<lparr>ss_sent := ss_sent sess + 1\<rparr> else sess, framed_out)
           }))"

definition rpc_proto_stream_recv ::
    "rpc_session \<Rightarrow> rpc_buffer \<Rightarrow> rpc_buffer \<Rightarrow> rpc_frame \<Rightarrow> (int \<times> rpc_session \<times> rpc_buffer \<times> rpc_frame) option" where
  "rpc_proto_stream_recv sess framed_in chunk_out frame_out = do {
     (ret, frame_out, chunk_out) \<leftarrow> rpc_proto_frame_parse framed_in frame_out chunk_out;
     if ret \<noteq> 0
     then Some (ret, if ret = -4 then sess\<lparr>ss_crc_errors := ss_crc_errors sess + 1\<rparr> else sess, chunk_out, frame_out)
     else let sess = sess\<lparr>ss_received := ss_received sess + 1\<rparr> in
     if fr_type frame_out \<noteq> RPC_FRAME_STREAM_DATA then Some (0, sess, chunk_out, frame_out)
     else case find_stream sess (fr_stream frame_out) of
        None \<Rightarrow> Some (0, sess, chunk_out, frame_out)
      | Some idx \<Rightarrow>
          (let s = ss_streams sess ! idx in
           if fr_sequence frame_out = st_expected s then do {
             b \<leftarrow> rpc_buffer_append (st_buffer s) (buf_data chunk_out);
             Some (0, sess\<lparr>ss_streams := (ss_streams sess)[idx := s\<lparr>st_buffer := b, st_expected := st_expected s + 1\<rparr>]\<rparr>,
               chunk_out, frame_out)
           }
           else Some (0, sess, chunk_out, frame_out))
   }"

definition rpc_proto_stream_close ::
    "rpc_session \<Rightarrow> 32 word \<Rightarrow> rpc_buffer \<Rightarrow> (int \<times> rpc_session \<times> rpc_buffer) option" where
  "rpc_proto_stream_close sess sid framed_out =
     (case find_stream sess sid of
        None \<Rightarrow> Some (-1, sess, framed_out)
      | Some idx \<Rightarrow>
          (let s = ss_streams sess ! idx;
               frame = zero_frame\<lparr>fr_version := neg_version (ss_negotiation sess), fr_type := RPC_FRAME_STREAM_END,
                 fr_stream := sid, fr_sequence := st_next_sequence s, fr_flags := 0\<rparr> in
           do {
             (ret, frame, framed_out) \<leftarrow> rpc_proto_frame_build frame rpc_buffer_init framed_out;
             Some (ret, if ret = 0
               then sess\<lparr>ss_streams := (ss_streams sess)[idx := s\<lparr>st_active := False, st_closed := True\<rparr>],
                 ss_count := ss_count sess - 1\<rparr>
               else sess, framed_out)
           }))"

definition rpc_proto_stream_is_backpressured :: "rpc_session \<Rightarrow> 32 word \<Rightarrow> bool" where
  "rpc_proto_stream_is_backpressured sess sid =
     (case find_stream sess sid of
        None \<Rightarrow> False
      | Some idx \<Rightarrow> length (buf_data (st_buffer (ss_streams sess ! idx))) > st_high (ss_streams sess ! idx))"

section \<open>Keepalive\<close>

definition rpc_proto_build_ping :: "32 word \<Rightarrow> rpc_buffer \<Rightarrow> (int \<times> rpc_buffer) option" where
  "rpc_proto_build_ping sid out = do {
     payload \<leftarrow> rpc_buffer_append rpc_buffer_init [0];
     (ret, frame, out) \<leftarrow> rpc_proto_frame_build (zero_frame\<lparr>fr_version := RPC_PROTO_VER_1_0,
       fr_type := RPC_FRAME_KEEPALIVE, fr_stream := sid, fr_sequence := 0, fr_flags := 0\<rparr>) payload out;
     Some (ret, out)
   }"

definition rpc_proto_build_pong :: "32 word \<Rightarrow> rpc_buffer \<Rightarrow> (int \<times> rpc_buffer) option" where
  "rpc_proto_build_pong sid out = do {
     payload \<leftarrow> rpc_buffer_append rpc_buffer_init [1];
     (ret, frame, out) \<leftarrow> rpc_proto_frame_build (zero_frame\<lparr>fr_version := RPC_PROTO_VER_1_0,
       fr_type := RPC_FRAME_KEEPALIVE, fr_stream := sid, fr_sequence := 0, fr_flags := 1\<rparr>) payload out;
     Some (ret, out)
   }"

definition rpc_proto_is_ping :: "rpc_frame \<Rightarrow> bool" where
  "rpc_proto_is_ping frame \<longleftrightarrow> fr_type frame = RPC_FRAME_KEEPALIVE \<and> fr_flags frame = 0"

definition rpc_proto_is_pong :: "rpc_frame \<Rightarrow> bool" where
  "rpc_proto_is_pong frame \<longleftrightarrow> fr_type frame = RPC_FRAME_KEEPALIVE \<and> fr_flags frame = 1"

definition rpc_proto_session_stats :: "rpc_session \<Rightarrow> 64 word \<times> 64 word \<times> 64 word" where
  "rpc_proto_session_stats sess = (ss_sent sess, ss_received sess, ss_crc_errors sess)"

section \<open>Buffers that can grow\<close>

lemma rpc_buffer_double_returns: "0 < c \<Longrightarrow> \<exists>d\<ge>c. rpc_buffer_double c n = Some d \<and> n \<le> d"
proof (induction "n - c" arbitrary: c rule: less_induct)
  case less
  show ?case
  proof (cases "c < n")
    case True
    with less obtain d where "d \<ge> c * 2" "rpc_buffer_double (c * 2) n = Some d" "n \<le> d"
      by (metis diff_less_mono2 less_add_same_cancel1 mult_2_right nat_0_less_mult_iff zero_less_numeral)
    then show ?thesis using True by (subst rpc_buffer_double.simps) auto
  next
    case False
    then show ?thesis by (subst rpc_buffer_double.simps) auto
  qed
qed

lemma rpc_buffer_double_zero: "0 < n \<Longrightarrow> rpc_buffer_double 0 n = None"
proof (rule ccontr)
  assume "0 < n" and "rpc_buffer_double 0 n \<noteq> None"
  then obtain d where "rpc_buffer_double 0 n = Some d" by auto
  then have "\<not> (0 = (0 :: nat) \<and> 0 < n)"
  proof (rule rpc_buffer_double.raw_induct [rotated, where P = "\<lambda>c n d. \<not> (c = 0 \<and> 0 < n)"], goal_cases)
    case (1 f c m d)
    then show ?case using 1(1) [of "c * 2" m d] by (auto split: if_splits)
  qed
  with \<open>0 < n\<close> show False by simp
qed

lemma rpc_buffer_reserve_ok:
  assumes "0 < buf_capacity b"
  obtains c where "0 < c" and "rpc_buffer_reserve b n = Some (b\<lparr>buf_capacity := c\<rparr>)"
proof (cases "n \<le> buf_capacity b")
  case True
  then show ?thesis using that [of "buf_capacity b"] assms by (simp add: rpc_buffer_reserve_def)
next
  case False
  obtain d where "buf_capacity b \<le> d" "rpc_buffer_double (buf_capacity b) n = Some d"
    using rpc_buffer_double_returns [OF assms] by blast
  then show ?thesis using that [of d] assms False by (simp add: rpc_buffer_reserve_def)
qed

lemma rpc_buffer_append_ok:
  assumes "0 < buf_capacity b"
  obtains c where "0 < c" and "rpc_buffer_append b src = Some \<lparr>buf_data = buf_data b @ src, buf_capacity = c\<rparr>"
proof -
  obtain c where "0 < c" "rpc_buffer_reserve b (length (buf_data b) + length src) = Some (b\<lparr>buf_capacity := c\<rparr>)"
    using rpc_buffer_reserve_ok [OF assms] .
  then show ?thesis using that [of c] by (simp add: rpc_buffer_append_def)
qed

lemma rpc_buffer_reserve_reset:
  assumes "0 < buf_capacity out"
  obtains c where "0 < c" and "rpc_buffer_reserve (rpc_buffer_reset out) n = Some \<lparr>buf_data = [], buf_capacity = c\<rparr>"
proof -
  have "0 < buf_capacity (rpc_buffer_reset out)" using assms by (simp add: rpc_buffer_reset_def)
  then obtain c where "0 < c" "rpc_buffer_reserve (rpc_buffer_reset out) n = Some ((rpc_buffer_reset out)\<lparr>buf_capacity := c\<rparr>)"
    by (rule rpc_buffer_reserve_ok)
  then show ?thesis using that [of c] by (simp add: rpc_buffer_reset_def)
qed

section \<open>Frames on the wire\<close>

lemma write_u32be_bytes: "write_u32be w = be_bytes 4 w"
proof -
  have "ucast (x AND 0xFF) = (ucast x :: byte)" for x :: "32 word"
  proof -
    have "(0xFF :: 32 word) = mask 8" by (simp add: mask_eq_exp_minus_1)
    then show ?thesis by (simp only: take_bit_eq_mask [symmetric]) (rule bit_word_eqI, simp add: bit_simps)
  qed
  then show ?thesis unfolding write_u32be_def byte_simps by simp
qed

lemma length_write_u32be [simp]: "length (write_u32be w) = 4"
  by (simp add: write_u32be_def)

lemma read_write_u32be [simp]: "read_u32be (write_u32be w @ r) = w"
proof -
  have "read_u32be (write_u32be w @ r) = be_word (write_u32be w)"
    by (simp add: read_u32be_def write_u32be_def byte_simps)
  then show ?thesis by (simp add: write_u32be_bytes be_round_trip_full)
qed

lemma length_rpc_frame_header [simp]: "length (rpc_frame_header f) = 22"
  by (simp add: rpc_frame_header_def)

definition rpc_frame_sealed :: "rpc_frame \<Rightarrow> byte list \<Rightarrow> rpc_frame" where
  "rpc_frame_sealed f p = f\<lparr>fr_len := of_nat (26 + length p), fr_magic := RPC_PROTO_MAGIC\<rparr>"

definition rpc_frame_body :: "rpc_frame \<Rightarrow> byte list \<Rightarrow> byte list" where
  "rpc_frame_body f p = rpc_frame_header (rpc_frame_sealed f p) @ p"

definition rpc_frame_wire :: "rpc_frame \<Rightarrow> byte list \<Rightarrow> byte list" where
  "rpc_frame_wire f p = rpc_frame_body f p @ write_u32be (rpc_crc32_compute (rpc_frame_body f p))"

lemma length_rpc_frame_wire [simp]: "length (rpc_frame_wire f p) = 26 + length p"
  by (simp add: rpc_frame_wire_def rpc_frame_body_def)

lemma rpc_proto_frame_build_ok:
  assumes "length (buf_data payload) \<le> 16777190" and "0 < buf_capacity out"
  obtains c where "0 < c" and "rpc_proto_frame_build f payload out =
    Some (0, rpc_frame_sealed f (buf_data payload), \<lparr>buf_data = rpc_frame_wire f (buf_data payload), buf_capacity = c\<rparr>)"
proof -
  let ?p = "buf_data payload" and ?h = "rpc_frame_header (rpc_frame_sealed f (buf_data payload))"
  obtain c1 where c1: "0 < c1" "rpc_buffer_reserve (rpc_buffer_reset out) (unat (of_nat (26 + length ?p) :: 32 word)) =
      Some \<lparr>buf_data = [], buf_capacity = c1\<rparr>"
    using rpc_buffer_reserve_reset [OF assms(2)] .
  obtain c2 where c2: "0 < c2" "rpc_buffer_append \<lparr>buf_data = [], buf_capacity = c1\<rparr> ?h =
      Some \<lparr>buf_data = ?h, buf_capacity = c2\<rparr>"
    using rpc_buffer_append_ok [of "\<lparr>buf_data = [], buf_capacity = c1\<rparr>" ?h] c1(1) by auto
  obtain c3 where c3: "0 < c3" "rpc_buffer_append \<lparr>buf_data = ?h, buf_capacity = c2\<rparr> ?p =
      Some \<lparr>buf_data = ?h @ ?p, buf_capacity = c3\<rparr>"
    using rpc_buffer_append_ok [of "\<lparr>buf_data = ?h, buf_capacity = c2\<rparr>" ?p] c2(1) by auto
  let ?crc = "write_u32be (rpc_crc32_compute (?h @ ?p))"
  obtain c4 where c4: "0 < c4" "rpc_buffer_append \<lparr>buf_data = ?h @ ?p, buf_capacity = c3\<rparr> ?crc =
      Some \<lparr>buf_data = (?h @ ?p) @ ?crc, buf_capacity = c4\<rparr>"
    using rpc_buffer_append_ok [of "\<lparr>buf_data = ?h @ ?p, buf_capacity = c3\<rparr>" ?crc] c3(1) by auto
  have crc: "rpc_crc32_finalize (rpc_crc32_update (rpc_crc32_update 0xFFFFFFFF ?h) ?p) = rpc_crc32_compute (?h @ ?p)"
    by (simp add: rpc_crc32_compute_def rpc_crc32_update_append)
  have sealed: "f\<lparr>fr_len := of_nat (22 + length ?p + 4), fr_magic := RPC_PROTO_MAGIC\<rparr> = rpc_frame_sealed f ?p"
    by (simp add: rpc_frame_sealed_def add.commute)
  have total: "22 + length ?p + 4 = 26 + length ?p" by simp
  show ?thesis
    using that [OF c4(1)] assms(1) c1(2) c2(2) c3(2) c4(2)
    unfolding rpc_proto_frame_build_def Let_def sealed crc
    unfolding total rpc_frame_wire_def rpc_frame_body_def by simp
qed

lemma rpc_frame_fields:
  fixes f :: rpc_frame
  shows "read_u32be (rpc_frame_header f @ r) = fr_magic f"
    and "read_u32be (drop 4 (rpc_frame_header f @ r)) = fr_version f"
    and "(rpc_frame_header f @ r) ! 8 = fr_type f"
    and "(rpc_frame_header f @ r) ! 9 = fr_flags f"
    and "read_u32be (drop 10 (rpc_frame_header f @ r)) = fr_stream f"
    and "read_u32be (drop 14 (rpc_frame_header f @ r)) = fr_sequence f"
    and "read_u32be (drop 18 (rpc_frame_header f @ r)) = fr_len f"
  unfolding rpc_frame_header_def append_assoc
  by (simp_all add: drop_append nth_append)

lemma unat_frame_len: "n \<le> 16777216 \<Longrightarrow> unat (of_nat n :: 32 word) = n"
  by (rule unat_of_nat_small) simp

lemma rpc_proto_frame_parse_checked:
  assumes "h = g\<lparr>fr_magic := read_u32be data, fr_version := read_u32be (drop 4 data), fr_type := data ! 8,
      fr_flags := data ! 9, fr_stream := read_u32be (drop 10 data), fr_sequence := read_u32be (drop 14 data),
      fr_len := read_u32be (drop 18 data)\<rparr>"
    and "buf_data inb = data" and "length data = n" and "26 \<le> n" and "read_u32be data = RPC_PROTO_MAGIC"
    and "fr_len h = of_nat n" and "unat (fr_len h) = n" and "n \<le> 16777216"
  shows "rpc_proto_frame_parse inb g out =
    (if read_u32be (drop (22 + (n - 26)) data) \<noteq> rpc_crc32_compute (take (n - 4) data) then Some (-4, h, out)
     else do {
       out \<leftarrow> rpc_buffer_reserve (rpc_buffer_reset out) (n - 26);
       out \<leftarrow> rpc_buffer_append out (take (n - 26) (drop 22 data));
       Some (0, h, out)
     })"
proof -
  have cond: "\<not> n < 26" "\<not> fr_magic (g\<lparr>fr_magic := read_u32be data\<rparr>) \<noteq> RPC_PROTO_MAGIC" "\<not> 16777216 < unat (fr_len h)"
    "\<not> fr_len h \<noteq> of_nat n" "\<not> unat (fr_len h) < 26"
    using assms by simp_all
  show ?thesis
    unfolding rpc_proto_frame_parse_def Let_def assms(2,3) assms(1) [symmetric] if_not_P [OF cond(1)] if_not_P [OF cond(2)]
      if_not_P [OF cond(3)] if_not_P [OF cond(4)] if_not_P [OF cond(5)]
    unfolding assms(7) by (rule refl)
qed

text \<open>Parsing the bytes of a header followed by a payload and any four bytes.\<close>

lemma rpc_proto_frame_parse_bytes:
  assumes "buf_data inb = rpc_frame_body f p @ t" and "length t = 4" and "length p \<le> 16777190" and "0 < buf_capacity out"
  obtains c where "0 < c" and "rpc_proto_frame_parse inb g out =
    (if read_u32be t = rpc_crc32_compute (rpc_frame_body f p)
     then Some (0, rpc_frame_sealed f p, \<lparr>buf_data = p, buf_capacity = c\<rparr>)
     else Some (-4, rpc_frame_sealed f p, out))"
proof -
  let ?s = "rpc_frame_sealed f p"
  have data: "buf_data inb = rpc_frame_header ?s @ p @ t" using assms(1) by (simp add: rpc_frame_body_def)
  have len: "unat (fr_len ?s) = 26 + length p" "fr_len ?s = of_nat (26 + length p)" "fr_magic ?s = RPC_PROTO_MAGIC"
    using unat_frame_len [of "26 + length p"] assms(3) by (simp_all add: rpc_frame_sealed_def)
  have frame: "g\<lparr>fr_magic := fr_magic ?s, fr_version := fr_version ?s, fr_type := fr_type ?s, fr_flags := fr_flags ?s,
      fr_stream := fr_stream ?s, fr_sequence := fr_sequence ?s, fr_len := fr_len ?s\<rparr> = ?s" by simp
  have body: "take (26 + length p - 4) (rpc_frame_header ?s @ p @ t) = rpc_frame_body f p"
    "drop (22 + (26 + length p - 26)) (rpc_frame_header ?s @ p @ t) = t"
    "take (26 + length p - 26) (drop 22 (rpc_frame_header ?s @ p @ t)) = p"
    by (simp_all add: rpc_frame_body_def)
  obtain c1 where c1: "0 < c1" "rpc_buffer_reserve (rpc_buffer_reset out) (26 + length p - 26) =
      Some \<lparr>buf_data = [], buf_capacity = c1\<rparr>"
    using rpc_buffer_reserve_reset [OF assms(4)] .
  obtain c where c: "0 < c" "rpc_buffer_append \<lparr>buf_data = [], buf_capacity = c1\<rparr> p =
      Some \<lparr>buf_data = p, buf_capacity = c\<rparr>"
    using rpc_buffer_append_ok [of "\<lparr>buf_data = [], buf_capacity = c1\<rparr>" p] c1(1) by auto
  have parse: "rpc_proto_frame_parse inb g out =
    (if read_u32be (drop (22 + (26 + length p - 26)) (rpc_frame_header ?s @ p @ t))
          \<noteq> rpc_crc32_compute (take (26 + length p - 4) (rpc_frame_header ?s @ p @ t)) then Some (-4, ?s, out)
     else do {
       out \<leftarrow> rpc_buffer_reserve (rpc_buffer_reset out) (26 + length p - 26);
       out \<leftarrow> rpc_buffer_append out (take (26 + length p - 26) (drop 22 (rpc_frame_header ?s @ p @ t)));
       Some (0, ?s, out)
     })"
  proof (rule rpc_proto_frame_parse_checked [OF _ data])
    show "?s = g\<lparr>fr_magic := read_u32be (rpc_frame_header ?s @ p @ t),
        fr_version := read_u32be (drop 4 (rpc_frame_header ?s @ p @ t)), fr_type := (rpc_frame_header ?s @ p @ t) ! 8,
        fr_flags := (rpc_frame_header ?s @ p @ t) ! 9, fr_stream := read_u32be (drop 10 (rpc_frame_header ?s @ p @ t)),
        fr_sequence := read_u32be (drop 14 (rpc_frame_header ?s @ p @ t)),
        fr_len := read_u32be (drop 18 (rpc_frame_header ?s @ p @ t))\<rparr>"
      unfolding rpc_frame_fields by (rule frame [symmetric])
    show "read_u32be (rpc_frame_header ?s @ p @ t) = RPC_PROTO_MAGIC" unfolding rpc_frame_fields by (rule len(3))
  qed (use assms(2,3) len(1,2) in simp_all)
  show ?thesis
    by (rule that [OF c(1)]) (unfold parse body c1(2), simp add: c(2))
qed

section \<open>The frame a buffer holds\<close>

text \<open>What the checks of the parser accept, without the out-parameters.\<close>

definition rpc_frame_read :: "byte list \<Rightarrow> (rpc_frame \<times> byte list) option" where
  "rpc_frame_read data =
     (let n = length data;
          f = zero_frame\<lparr>fr_magic := read_u32be data, fr_version := read_u32be (drop 4 data), fr_type := data ! 8,
            fr_flags := data ! 9, fr_stream := read_u32be (drop 10 data), fr_sequence := read_u32be (drop 14 data),
            fr_len := read_u32be (drop 18 data)\<rparr> in
      if 26 \<le> n \<and> n \<le> RPC_PROTO_MAX_FRAME_SIZE \<and> fr_magic f = RPC_PROTO_MAGIC \<and> unat (fr_len f) = n
        \<and> read_u32be (drop (n - 4) data) = rpc_crc32_compute (take (n - 4) data)
      then Some (f, take (n - 26) (drop 22 data)) else None)"

lemma rpc_frame_read_SomeD:
  assumes "rpc_frame_read data = Some (f, p)"
  shows "26 \<le> length data" and "read_u32be (drop (length data - 4) data) = rpc_crc32_compute (take (length data - 4) data)"
  using assms by (auto simp: rpc_frame_read_def Let_def split: if_splits)

lemma rpc_proto_frame_parse_Some:
  assumes "rpc_frame_read (buf_data inb) = Some (f, p)" and "0 < buf_capacity out"
  obtains c where "0 < c" and "rpc_proto_frame_parse inb g out = Some (0, f, \<lparr>buf_data = p, buf_capacity = c\<rparr>)"
proof -
  let ?d = "buf_data inb" and ?n = "length (buf_data inb)"
  have f: "f = g\<lparr>fr_magic := read_u32be ?d, fr_version := read_u32be (drop 4 ?d), fr_type := ?d ! 8,
      fr_flags := ?d ! 9, fr_stream := read_u32be (drop 10 ?d), fr_sequence := read_u32be (drop 14 ?d),
      fr_len := read_u32be (drop 18 ?d)\<rparr>"
    and ok: "26 \<le> ?n" "?n \<le> 16777216" "read_u32be ?d = RPC_PROTO_MAGIC" "unat (fr_len f) = ?n"
      "read_u32be (drop (?n - 4) ?d) = rpc_crc32_compute (take (?n - 4) ?d)" and p: "p = take (?n - 26) (drop 22 ?d)"
    using assms(1) by (auto simp: rpc_frame_read_def Let_def split: if_splits)
  have "fr_len f = of_nat ?n" using ok(4) by (metis word_of_nat_eq_iff unsigned_word_eqI unat_of_nat_small of_nat_unat ucast_id)
  note parse = rpc_proto_frame_parse_checked [OF f refl refl ok(1,3) this ok(4,2)]
  obtain c1 where c1: "0 < c1" "rpc_buffer_reserve (rpc_buffer_reset out) (?n - 26) = Some \<lparr>buf_data = [], buf_capacity = c1\<rparr>"
    using rpc_buffer_reserve_reset [OF assms(2)] .
  obtain c where c: "0 < c" "rpc_buffer_append \<lparr>buf_data = [], buf_capacity = c1\<rparr> p = Some \<lparr>buf_data = p, buf_capacity = c\<rparr>"
    using rpc_buffer_append_ok [of "\<lparr>buf_data = [], buf_capacity = c1\<rparr>" p] c1(1) by auto
  have "22 + (?n - 26) = ?n - 4" using ok(1) by simp
  then show ?thesis using that [OF c(1)] c(2) ok(5) unfolding parse p by (simp add: c1(2))
qed

lemma rpc_proto_frame_parse_None:
  assumes "rpc_frame_read (buf_data inb) = None" and "length (buf_data inb) < 4294967296"
  obtains ret f where "ret \<noteq> 0" and "rpc_proto_frame_parse inb g out = Some (ret, f, out)"
proof -
  let ?d = "buf_data inb" and ?n = "length (buf_data inb)"
  define f where "f = g\<lparr>fr_magic := read_u32be ?d, fr_version := read_u32be (drop 4 ?d), fr_type := ?d ! 8,
      fr_flags := ?d ! 9, fr_stream := read_u32be (drop 10 ?d), fr_sequence := read_u32be (drop 14 ?d),
      fr_len := read_u32be (drop 18 ?d)\<rparr>"
  have fields: "fr_magic f = read_u32be ?d" "fr_len f = read_u32be (drop 18 ?d)" by (simp_all add: f_def)
  have unat: "unat (of_nat ?n :: 32 word) = ?n" using assms(2) by (intro unat_of_nat_small) simp
  show ?thesis
  proof (cases "26 \<le> ?n \<and> fr_magic f = RPC_PROTO_MAGIC \<and> unat (fr_len f) \<le> 16777216 \<and> fr_len f = of_nat ?n")
    case True
    then have len: "unat (fr_len f) = ?n" "26 \<le> ?n" "?n \<le> 16777216" "read_u32be ?d = RPC_PROTO_MAGIC" "fr_len f = of_nat ?n"
      using unat fields by (metis)+
    have "read_u32be (drop (?n - 4) ?d) \<noteq> rpc_crc32_compute (take (?n - 4) ?d)"
      using assms(1) len fields by (auto simp: rpc_frame_read_def Let_def split: if_splits)
    moreover have "22 + (?n - 26) = ?n - 4" using len(2) by simp
    ultimately show ?thesis
      using that [of "-4" f] rpc_proto_frame_parse_checked [OF f_def refl refl len(2,4,5,1,3)] by simp
  next
    case False
    then have "\<exists>ret f. ret \<noteq> 0 \<and> rpc_proto_frame_parse inb g out = Some (ret, f, out)"
      unfolding fields by (auto simp: rpc_proto_frame_parse_def Let_def)
    then show ?thesis using that by blast
  qed
qed

lemma rpc_frame_read_wire:
  assumes "length p \<le> 16777190"
  shows "rpc_frame_read (rpc_frame_wire f p) = Some (rpc_frame_sealed f p, p)"
proof -
  let ?m = "\<lparr>buf_data = rpc_frame_wire f p, buf_capacity = 1\<rparr>"
  have t: "read_u32be (write_u32be w) = w" for w using read_write_u32be [of w "[]"] by simp
  obtain c where parse: "rpc_proto_frame_parse ?m zero_frame rpc_buffer_init =
      Some (0, rpc_frame_sealed f p, \<lparr>buf_data = p, buf_capacity = c\<rparr>)"
    using rpc_proto_frame_parse_bytes [of ?m f p "write_u32be (rpc_crc32_compute (rpc_frame_body f p))" rpc_buffer_init
        zero_frame] assms by (auto simp: rpc_frame_wire_def t rpc_buffer_init_def)
  show ?thesis
  proof (cases "rpc_frame_read (rpc_frame_wire f p)")
    case None
    then show ?thesis
      using rpc_proto_frame_parse_None [of ?m zero_frame rpc_buffer_init] parse assms by auto
  next
    case (Some fp)
    obtain g q where fp: "fp = (g, q)" by (cases fp)
    obtain d where "rpc_proto_frame_parse ?m zero_frame rpc_buffer_init = Some (0, g, \<lparr>buf_data = q, buf_capacity = d\<rparr>)"
      using rpc_proto_frame_parse_Some [of ?m g q rpc_buffer_init zero_frame] Some fp by (auto simp: rpc_buffer_init_def)
    then show ?thesis using parse Some fp by simp
  qed
qed

section \<open>In-order reception over a network that loses, repeats and reorders\<close>

primrec deliver_all :: "('m \<Rightarrow> 's \<Rightarrow> 's option) \<Rightarrow> 'm list \<Rightarrow> 's \<Rightarrow> 's option" where
  "deliver_all f [] s = Some s"
| "deliver_all f (m # ms) s = Option.bind (f m s) (deliver_all f ms)"

locale in_order_receiver =
  fixes deliver :: "'m \<Rightarrow> 's \<Rightarrow> 's option" and ok :: "'s \<Rightarrow> bool" and valid :: "'m \<Rightarrow> bool" and pos :: "'s \<Rightarrow> nat"
    and got :: "'s \<Rightarrow> 'a list" and number :: "'m \<Rightarrow> nat option" and payload :: "'m \<Rightarrow> 'a list" and limit :: nat
  assumes accept: "ok s \<Longrightarrow> valid m \<Longrightarrow> number m = Some (pos s) \<Longrightarrow> pos s < limit \<Longrightarrow>
      \<exists>s'. deliver m s = Some s' \<and> ok s' \<and> pos s' = Suc (pos s) \<and> got s' = got s @ payload m"
    and ignore: "ok s \<Longrightarrow> valid m \<Longrightarrow> number m \<noteq> Some (pos s) \<Longrightarrow>
      \<exists>s'. deliver m s = Some s' \<and> ok s' \<and> pos s' = pos s \<and> got s' = got s"
begin

definition numbered :: "'a list list \<Rightarrow> 'm \<Rightarrow> bool" where
  "numbered cs m \<longleftrightarrow> valid m \<and> (\<forall>i. number m = Some i \<longrightarrow> i < length cs \<and> payload m = cs ! i)"

definition upto_date :: "'a list list \<Rightarrow> 's \<Rightarrow> bool" where
  "upto_date cs s \<longleftrightarrow> ok s \<and> pos s \<le> length cs \<and> got s = concat (take (pos s) cs)"

lemma deliver_one:
  assumes "upto_date cs s" and "numbered cs m" and "length cs \<le> limit"
  obtains s' where "deliver m s = Some s'" and "upto_date cs s'"
    and "pos s' = (if number m = Some (pos s) then Suc (pos s) else pos s)"
proof (cases "number m = Some (pos s)")
  case True
  then have "pos s < length cs" "payload m = cs ! pos s" using assms(2) by (auto simp: numbered_def)
  with True accept [of s m] assms that show ?thesis
    by (auto simp: upto_date_def numbered_def take_Suc_conv_app_nth)
next
  case False
  with ignore [of s m] assms that show ?thesis by (auto simp: upto_date_def numbered_def)
qed

lemma deliver_prefix:
  assumes "upto_date cs s" and "\<forall>m \<in> set ms. numbered cs m" and "length cs \<le> limit"
  shows "\<exists>s'. deliver_all deliver ms s = Some s' \<and> upto_date cs s' \<and> pos s \<le> pos s' \<and>
    (\<forall>k. subseq [pos s..<k] (List.map_filter number ms) \<longrightarrow> k \<le> pos s')"
  using assms(1,2)
proof (induction ms arbitrary: s)
  case Nil
  then show ?case by (auto simp: List.map_filter_def dest: list_emb_Nil2)
next
  case (Cons m ms)
  obtain t where t: "deliver m s = Some t" "upto_date cs t" "pos t = (if number m = Some (pos s) then Suc (pos s) else pos s)"
    using deliver_one [OF Cons.prems(1) _ assms(3), of m] Cons.prems(2) by auto
  obtain s' where s': "deliver_all deliver ms t = Some s'" "upto_date cs s'" "pos t \<le> pos s'"
    "\<And>k. subseq [pos t..<k] (List.map_filter number ms) \<Longrightarrow> k \<le> pos s'"
    using Cons.IH [OF t(2)] Cons.prems(2) by auto
  have "k \<le> pos s'" if sub: "subseq [pos s..<k] (List.map_filter number (m # ms))" for k
  proof (cases "pos s < k")
    case True
    then have split: "[pos s..<k] = pos s # [Suc (pos s)..<k]" by (rule upt_conv_Cons)
    show ?thesis
    proof (cases "number m = Some (pos s)")
      case True
      then show ?thesis using sub s'(4) [of k] t(3) unfolding split by (simp add: List.map_filter_simps)
    next
      case False
      then have "subseq [pos t..<k] (List.map_filter number ms)"
        using sub t(3) by (auto simp: split List.map_filter_simps split: option.splits)
      then show ?thesis by (rule s'(4))
    qed
  next
    case False
    then show ?thesis using t(3) s'(3) by (auto split: if_splits)
  qed
  then show ?case using t s' by (auto split: if_splits)
qed

end

section \<open>The stream receiver meets the contract\<close>

type_synonym rpc_receiver = "rpc_session \<times> rpc_buffer \<times> rpc_frame"

definition rpc_deliver :: "rpc_buffer \<Rightarrow> rpc_receiver \<Rightarrow> rpc_receiver option" where
  "rpc_deliver m r = (case r of (sess, chunk, frame) \<Rightarrow>
     map_option (\<lambda>(ret, s, c, f). (s, c, f)) (rpc_proto_stream_recv sess m chunk frame))"

definition stream_at :: "rpc_session \<Rightarrow> 32 word \<Rightarrow> rpc_stream" where
  "stream_at sess sid = ss_streams sess ! the (find_stream sess sid)"

definition rpc_listening :: "32 word \<Rightarrow> rpc_receiver \<Rightarrow> bool" where
  "rpc_listening sid r \<longleftrightarrow> (case r of (sess, chunk, frame) \<Rightarrow>
     0 < buf_capacity chunk \<and> find_stream sess sid \<noteq> None \<and>
     (\<forall>s \<in> set (ss_streams sess). st_active s \<longrightarrow> 0 < buf_capacity (st_buffer s)))"

definition rpc_frame_number :: "32 word \<Rightarrow> rpc_buffer \<Rightarrow> nat option" where
  "rpc_frame_number sid m =
     (case rpc_frame_read (buf_data m) of
        None \<Rightarrow> None
      | Some (f, p) \<Rightarrow> if fr_type f = RPC_FRAME_STREAM_DATA \<and> fr_stream f = sid then Some (unat (fr_sequence f)) else None)"

abbreviation rpc_position :: "32 word \<Rightarrow> rpc_receiver \<Rightarrow> nat" where
  "rpc_position sid r \<equiv> unat (st_expected (stream_at (fst r) sid))"

abbreviation rpc_delivered :: "32 word \<Rightarrow> rpc_receiver \<Rightarrow> byte list" where
  "rpc_delivered sid r \<equiv> buf_data (st_buffer (stream_at (fst r) sid))"

lemma find_stream_SomeD:
  assumes "find_stream sess sid = Some i"
  shows "i < length (ss_streams sess)" and "st_active (ss_streams sess ! i)" and "st_id (ss_streams sess ! i) = sid"
  using find_index_SomeD [OF assms [unfolded find_stream_def]] by auto

lemma find_stream_update:
  assumes "st_active s = st_active (ss_streams sess ! i)" and "st_id s = st_id (ss_streams sess ! i)"
  shows "find_stream (sess\<lparr>ss_streams := (ss_streams sess)[i := s]\<rparr>) sid = find_stream sess sid"
  unfolding find_stream_def using assms by (simp add: find_index_update_other)

lemma find_stream_fields [simp]:
  "find_stream (sess\<lparr>ss_received := r\<rparr>) sid = find_stream sess sid"
  "find_stream (sess\<lparr>ss_sent := r\<rparr>) sid = find_stream sess sid"
  "find_stream (sess\<lparr>ss_crc_errors := r\<rparr>) sid = find_stream sess sid"
  by (simp_all add: find_stream_def)

lemma rpc_deliver_damaged:
  assumes "rpc_frame_read (buf_data m) = None" and "length (buf_data m) < 4294967296"
  obtains sess' f where "rpc_deliver m (sess, chunk, frame) = Some (sess', chunk, f)"
    and "ss_streams sess' = ss_streams sess"
proof -
  obtain ret f where "ret \<noteq> 0" "rpc_proto_frame_parse m frame chunk = Some (ret, f, chunk)"
    using rpc_proto_frame_parse_None [OF assms] .
  then show ?thesis using that by (auto simp: rpc_deliver_def rpc_proto_stream_recv_def)
qed

lemma rpc_deliver_ignored:
  assumes "rpc_frame_read (buf_data m) = Some (f, p)" and "0 < buf_capacity chunk"
    and "fr_type f = RPC_FRAME_STREAM_DATA \<Longrightarrow> find_stream sess (fr_stream f) = Some j \<Longrightarrow>
      fr_sequence f \<noteq> st_expected (ss_streams sess ! j)"
    and "\<And>i. fr_type f = RPC_FRAME_STREAM_DATA \<Longrightarrow> find_stream sess (fr_stream f) = Some i \<Longrightarrow> i = j"
  obtains sess' c where "0 < c" and "rpc_deliver m (sess, chunk, frame) = Some (sess', \<lparr>buf_data = p, buf_capacity = c\<rparr>, f)"
    and "ss_streams sess' = ss_streams sess"
proof -
  obtain c where "0 < c" "rpc_proto_frame_parse m frame chunk = Some (0, f, \<lparr>buf_data = p, buf_capacity = c\<rparr>)"
    using rpc_proto_frame_parse_Some [OF assms(1,2)] .
  moreover have "rpc_proto_stream_recv sess m chunk frame =
      Some (0, sess\<lparr>ss_received := ss_received sess + 1\<rparr>, \<lparr>buf_data = p, buf_capacity = c\<rparr>, f)" if "0 < c"
      "rpc_proto_frame_parse m frame chunk = Some (0, f, \<lparr>buf_data = p, buf_capacity = c\<rparr>)" for c
    using that assms(3,4)
    by (cases "find_stream sess (fr_stream f)") (simp_all add: rpc_proto_stream_recv_def Let_def)
  ultimately show ?thesis using that [of c "sess\<lparr>ss_received := ss_received sess + 1\<rparr>"] by (simp add: rpc_deliver_def)
qed

lemma rpc_deliver_accepted:
  assumes "rpc_frame_read (buf_data m) = Some (f, p)" and "0 < buf_capacity chunk"
    and "fr_type f = RPC_FRAME_STREAM_DATA" and "find_stream sess (fr_stream f) = Some j"
    and "fr_sequence f = st_expected (ss_streams sess ! j)" and "0 < buf_capacity (st_buffer (ss_streams sess ! j))"
  obtains sess' c d where "0 < c" and "0 < d"
    and "rpc_deliver m (sess, chunk, frame) = Some (sess', \<lparr>buf_data = p, buf_capacity = c\<rparr>, f)"
    and "ss_streams sess' = (ss_streams sess)[j := (ss_streams sess ! j)\<lparr>
      st_buffer := \<lparr>buf_data = buf_data (st_buffer (ss_streams sess ! j)) @ p, buf_capacity = d\<rparr>,
      st_expected := st_expected (ss_streams sess ! j) + 1\<rparr>]"
proof -
  obtain c where c: "0 < c" "rpc_proto_frame_parse m frame chunk = Some (0, f, \<lparr>buf_data = p, buf_capacity = c\<rparr>)"
    using rpc_proto_frame_parse_Some [OF assms(1,2)] .
  obtain d where d: "0 < d" "rpc_buffer_append (st_buffer (ss_streams sess ! j)) p =
      Some \<lparr>buf_data = buf_data (st_buffer (ss_streams sess ! j)) @ p, buf_capacity = d\<rparr>"
    using rpc_buffer_append_ok [OF assms(6)] .
  let ?s = "(ss_streams sess ! j)\<lparr>st_buffer := \<lparr>buf_data = buf_data (st_buffer (ss_streams sess ! j)) @ p, buf_capacity = d\<rparr>,
      st_expected := st_expected (ss_streams sess ! j) + 1\<rparr>"
  have "rpc_deliver m (sess, chunk, frame) =
    Some (sess\<lparr>ss_received := ss_received sess + 1, ss_streams := (ss_streams sess)[j := ?s]\<rparr>, \<lparr>buf_data = p, buf_capacity = c\<rparr>, f)"
    using c d assms(3-5) by (simp add: rpc_deliver_def rpc_proto_stream_recv_def Let_def)
  then show ?thesis using that [OF c(1) d(1)] by simp
qed

lemma find_stream_streams: "ss_streams s = ss_streams t \<Longrightarrow> find_stream s sid = find_stream t sid"
  by (simp add: find_stream_def)

lemma rpc_listening_streams:
  assumes "rpc_listening sid (sess, chunk, frame)" and "ss_streams sess' = ss_streams sess" and "0 < buf_capacity chunk'"
  shows "rpc_listening sid (sess', chunk', frame')" and "stream_at sess' sid = stream_at sess sid"
  using assms by (auto simp: rpc_listening_def stream_at_def find_stream_streams [OF assms(2)])

lemma rpc_listening_update:
  assumes listening: "rpc_listening sid (sess, chunk, frame)" and found: "find_stream sess n = Some j"
    and streams: "ss_streams sess' = (ss_streams sess)[j := (ss_streams sess ! j)\<lparr>st_buffer := b, st_expected := e\<rparr>]"
    and "0 < buf_capacity b" and "0 < buf_capacity chunk'"
  shows "rpc_listening sid (sess', chunk', frame')"
    and "stream_at sess' sid = (if n = sid then (stream_at sess sid)\<lparr>st_buffer := b, st_expected := e\<rparr> else stream_at sess sid)"
proof -
  have j: "j < length (ss_streams sess)" "st_id (ss_streams sess ! j) = n" using find_stream_SomeD [OF found] by auto
  have same: "find_stream sess' k = find_stream sess k" for k
    unfolding find_stream_def streams by (rule find_index_update_other) simp
  have "0 < buf_capacity (st_buffer s)" if "s \<in> set (ss_streams sess')" "st_active s" for s
  proof -
    have "s = (ss_streams sess ! j)\<lparr>st_buffer := b, st_expected := e\<rparr> \<or> s \<in> set (ss_streams sess)"
      using that(1) set_update_subset_insert unfolding streams by fast
    then show ?thesis using listening assms(4) that(2) by (auto simp: rpc_listening_def)
  qed
  then show "rpc_listening sid (sess', chunk', frame')" using listening assms(5) by (simp add: rpc_listening_def same)
  obtain i where i: "find_stream sess sid = Some i" using listening by (auto simp: rpc_listening_def)
  note i' = find_stream_SomeD [OF i]
  have "i = j \<longleftrightarrow> n = sid" using i i'(3) j(2) found option.inject [of i j] by metis
  then show "stream_at sess' sid = (if n = sid then (stream_at sess sid)\<lparr>st_buffer := b, st_expected := e\<rparr> else stream_at sess sid)"
    using j(1) by (auto simp: stream_at_def same i streams nth_list_update)
qed

lemma rpc_deliver_next:
  assumes listening: "rpc_listening sid r" and number: "rpc_frame_number sid m = Some (rpc_position sid r)"
    and "rpc_position sid r < 4294967295"
  shows "\<exists>r'. rpc_deliver m r = Some r' \<and> rpc_listening sid r' \<and> rpc_position sid r' = Suc (rpc_position sid r) \<and>
    rpc_delivered sid r' = rpc_delivered sid r @ snd (the (rpc_frame_read (buf_data m)))"
proof -
  obtain sess chunk frame where r: "r = (sess, chunk, frame)" by (cases r)
  obtain f p where f: "rpc_frame_read (buf_data m) = Some (f, p)" "fr_type f = RPC_FRAME_STREAM_DATA" "fr_stream f = sid"
    "fr_sequence f = st_expected (stream_at sess sid)"
    using number by (auto simp: rpc_frame_number_def r unsigned_word_eqI split: option.splits if_splits prod.splits)
  obtain j where j: "find_stream sess sid = Some j" using listening by (auto simp: rpc_listening_def r)
  have at: "stream_at sess sid = ss_streams sess ! j" by (simp add: stream_at_def j)
  have cap: "0 < buf_capacity chunk" "0 < buf_capacity (st_buffer (ss_streams sess ! j))"
    using listening find_stream_SomeD [OF j] by (auto simp: rpc_listening_def r)
  obtain sess' c d where new: "0 < c" "0 < d" "rpc_deliver m (sess, chunk, frame) = Some (sess', \<lparr>buf_data = p, buf_capacity = c\<rparr>, f)"
    "ss_streams sess' = (ss_streams sess)[j := (ss_streams sess ! j)\<lparr>
      st_buffer := \<lparr>buf_data = buf_data (st_buffer (ss_streams sess ! j)) @ p, buf_capacity = d\<rparr>,
      st_expected := st_expected (ss_streams sess ! j) + 1\<rparr>]"
    using rpc_deliver_accepted [OF f(1) cap(1) f(2)] j f(3,4) cap(2) at by metis
  note upd = rpc_listening_update [OF listening [unfolded r] j new(4), of "\<lparr>buf_data = p, buf_capacity = c\<rparr>"]
  have "unat (st_expected (stream_at sess sid) + 1) = Suc (unat (st_expected (stream_at sess sid)))"
    using assms(3) by (simp add: r unat_word_ariths)
  then show ?thesis using new(1-3) upd f(1) at by (simp add: r)
qed

lemma rpc_deliver_other:
  assumes listening: "rpc_listening sid r" and "length (buf_data m) < 4294967296"
    and number: "rpc_frame_number sid m \<noteq> Some (rpc_position sid r)"
  shows "\<exists>r'. rpc_deliver m r = Some r' \<and> rpc_listening sid r' \<and> rpc_position sid r' = rpc_position sid r \<and>
    rpc_delivered sid r' = rpc_delivered sid r"
proof -
  obtain sess chunk frame where r: "r = (sess, chunk, frame)" by (cases r)
  have chunk: "0 < buf_capacity chunk" using listening by (simp add: r rpc_listening_def)
  note keep = rpc_listening_streams [OF listening [unfolded r]]
  show ?thesis
  proof (cases "rpc_frame_read (buf_data m)")
    case None
    obtain sess' f where "rpc_deliver m (sess, chunk, frame) = Some (sess', chunk, f)" "ss_streams sess' = ss_streams sess"
      using rpc_deliver_damaged [OF None assms(2)] .
    then show ?thesis using keep [of sess' chunk] chunk by (simp add: r)
  next
    case (Some fp)
    then obtain f p where f: "rpc_frame_read (buf_data m) = Some (f, p)" by (cases fp) auto
    show ?thesis
    proof (cases "\<exists>j. fr_type f = RPC_FRAME_STREAM_DATA \<and> find_stream sess (fr_stream f) = Some j \<and>
        fr_sequence f = st_expected (ss_streams sess ! j)")
      case True
      then obtain j where j: "fr_type f = RPC_FRAME_STREAM_DATA" "find_stream sess (fr_stream f) = Some j"
        "fr_sequence f = st_expected (ss_streams sess ! j)" by blast
      then have foreign: "fr_stream f \<noteq> sid" using number f by (auto simp: rpc_frame_number_def r stream_at_def)
      have "0 < buf_capacity (st_buffer (ss_streams sess ! j))"
        using listening find_stream_SomeD [OF j(2)] by (auto simp: rpc_listening_def r)
      then obtain sess' c d where new: "0 < c" "0 < d"
        "rpc_deliver m (sess, chunk, frame) = Some (sess', \<lparr>buf_data = p, buf_capacity = c\<rparr>, f)"
        "ss_streams sess' = (ss_streams sess)[j := (ss_streams sess ! j)\<lparr>
          st_buffer := \<lparr>buf_data = buf_data (st_buffer (ss_streams sess ! j)) @ p, buf_capacity = d\<rparr>,
          st_expected := st_expected (ss_streams sess ! j) + 1\<rparr>]"
        by (rule rpc_deliver_accepted [OF f chunk j])
      then show ?thesis
        using rpc_listening_update [OF listening [unfolded r] j(2) new(4), of "\<lparr>buf_data = p, buf_capacity = c\<rparr>"] foreign
        by (simp add: r)
    next
      case False
      obtain sess' c where "0 < c" "rpc_deliver m (sess, chunk, frame) = Some (sess', \<lparr>buf_data = p, buf_capacity = c\<rparr>, f)"
        "ss_streams sess' = ss_streams sess"
        using rpc_deliver_ignored [OF f chunk, of sess "the (find_stream sess (fr_stream f))" frame] False by (metis option.sel)
      then show ?thesis using keep [of sess' "\<lparr>buf_data = p, buf_capacity = c\<rparr>"] by (simp add: r)
    qed
  qed
qed

interpretation rpc_in_order: in_order_receiver rpc_deliver "rpc_listening sid" "\<lambda>m. length (buf_data m) < 4294967296"
    "rpc_position sid" "rpc_delivered sid" "rpc_frame_number sid" "\<lambda>m. snd (the (rpc_frame_read (buf_data m)))" 4294967295 for sid
  by unfold_locales (use rpc_deliver_next rpc_deliver_other in blast)+

section \<open>The sender\<close>

text \<open>The frames of a list of chunks, each sent into a fresh buffer.\<close>

primrec rpc_send_all :: "rpc_session \<Rightarrow> 32 word \<Rightarrow> byte list list \<Rightarrow> (rpc_session \<times> rpc_buffer list) option" where
  "rpc_send_all sess sid [] = Some (sess, [])"
| "rpc_send_all sess sid (c # cs) = do {
     (ret, sess, out) \<leftarrow> rpc_proto_stream_send sess sid \<lparr>buf_data = c, buf_capacity = 4096\<rparr> rpc_buffer_init;
     (sess, outs) \<leftarrow> rpc_send_all sess sid cs;
     Some (sess, out # outs)
   }"

lemma rpc_proto_stream_send_ok:
  assumes "find_stream sess sid = Some i" and "\<not> st_closed (ss_streams sess ! i)" and "length (buf_data chunk) \<le> 65536"
    and "0 < buf_capacity out"
  obtains sess' c f where "rpc_proto_stream_send sess sid chunk out =
      Some (0, sess', \<lparr>buf_data = rpc_frame_wire f (buf_data chunk), buf_capacity = c\<rparr>)"
    and "fr_type f = RPC_FRAME_STREAM_DATA" and "fr_stream f = sid"
    and "fr_sequence f = st_next_sequence (ss_streams sess ! i)"
    and "find_stream sess' sid = Some i" and "\<not> st_closed (ss_streams sess' ! i)"
    and "st_next_sequence (ss_streams sess' ! i) = st_next_sequence (ss_streams sess ! i) + 1"
proof -
  let ?s = "ss_streams sess ! i"
  let ?f = "zero_frame\<lparr>fr_version := neg_version (ss_negotiation sess), fr_type := RPC_FRAME_STREAM_DATA,
    fr_stream := sid, fr_sequence := st_next_sequence ?s, fr_flags := if neg_compression (ss_negotiation sess) then 1 else 0\<rparr>"
  let ?sess = "sess\<lparr>ss_streams := (ss_streams sess)[i := ?s\<lparr>st_next_sequence := st_next_sequence ?s + 1\<rparr>]\<rparr>"
  obtain c where build: "rpc_proto_frame_build ?f chunk out = Some (0, rpc_frame_sealed ?f (buf_data chunk),
      \<lparr>buf_data = rpc_frame_wire ?f (buf_data chunk), buf_capacity = c\<rparr>)"
    using rpc_proto_frame_build_ok [of chunk out ?f] assms(3,4) by auto
  note i = find_stream_SomeD [OF assms(1)]
  have found: "find_stream ?sess sid = Some i" using assms(1) by (subst find_stream_update) simp_all
  show ?thesis
  proof (rule that [of "?sess\<lparr>ss_sent := ss_sent ?sess + 1\<rparr>" ?f c])
    show "rpc_proto_stream_send sess sid chunk out = Some (0, ?sess\<lparr>ss_sent := ss_sent ?sess + 1\<rparr>,
        \<lparr>buf_data = rpc_frame_wire ?f (buf_data chunk), buf_capacity = c\<rparr>)"
      unfolding rpc_proto_stream_send_def Let_def assms(1) option.case build using assms(2,3) by simp
  qed (use found i assms(2) in simp_all)
qed

lemma rpc_send_all_frames:
  assumes "find_stream sess sid = Some i" and "\<not> st_closed (ss_streams sess ! i)" and "\<forall>c \<in> set cs. length c \<le> 65536"
    and "unat (st_next_sequence (ss_streams sess ! i)) + length cs < 4294967296"
  shows "\<exists>sess' fs. rpc_send_all sess sid cs = Some (sess', fs) \<and> length fs = length cs \<and>
    (\<forall>j < length cs. length (buf_data (fs ! j)) < 4294967296 \<and>
      rpc_frame_number sid (fs ! j) = Some (unat (st_next_sequence (ss_streams sess ! i)) + j) \<and>
      snd (the (rpc_frame_read (buf_data (fs ! j)))) = cs ! j)"
  using assms
proof (induction cs arbitrary: sess)
  case (Cons c cs)
  let ?q = "unat (st_next_sequence (ss_streams sess ! i))"
  have chunk: "length (buf_data \<lparr>buf_data = c, buf_capacity = 4096\<rparr>) \<le> 65536" "0 < buf_capacity rpc_buffer_init"
    using Cons.prems(3) by (simp_all add: rpc_buffer_init_def)
  obtain sess1 d f where send: "rpc_proto_stream_send sess sid \<lparr>buf_data = c, buf_capacity = 4096\<rparr> rpc_buffer_init =
      Some (0, sess1, \<lparr>buf_data = rpc_frame_wire f c, buf_capacity = d\<rparr>)"
    and f: "fr_type f = RPC_FRAME_STREAM_DATA" "fr_stream f = sid" "fr_sequence f = st_next_sequence (ss_streams sess ! i)"
    and s1: "find_stream sess1 sid = Some i" "\<not> st_closed (ss_streams sess1 ! i)"
      "st_next_sequence (ss_streams sess1 ! i) = st_next_sequence (ss_streams sess ! i) + 1"
    by (rule rpc_proto_stream_send_ok [OF Cons.prems(1,2) chunk(1,2), unfolded rpc_buffer.select_convs])
  have next_q: "unat (st_next_sequence (ss_streams sess1 ! i)) = Suc ?q"
    using Cons.prems(4) by (simp add: s1(3) unat_word_ariths)
  obtain sess2 fs where fs: "rpc_send_all sess1 sid cs = Some (sess2, fs)" "length fs = length cs"
    "\<forall>j < length cs. length (buf_data (fs ! j)) < 4294967296 \<and> rpc_frame_number sid (fs ! j) = Some (Suc ?q + j) \<and>
      snd (the (rpc_frame_read (buf_data (fs ! j)))) = cs ! j"
    using Cons.IH [OF s1(1,2)] Cons.prems(3,4) unfolding next_q by auto
  have c: "length c \<le> 65536" using Cons.prems(3) by simp
  let ?m = "\<lparr>buf_data = rpc_frame_wire f c, buf_capacity = d\<rparr>"
  have read: "rpc_frame_read (rpc_frame_wire f c) = Some (rpc_frame_sealed f c, c)"
    using c by (intro rpc_frame_read_wire) simp
  then have "rpc_frame_number sid ?m = Some ?q" using f by (simp add: rpc_frame_number_def rpc_frame_sealed_def)
  then have "\<forall>j < length (c # cs). length (buf_data ((?m # fs) ! j)) < 4294967296 \<and>
      rpc_frame_number sid ((?m # fs) ! j) = Some (?q + j) \<and> snd (the (rpc_frame_read (buf_data ((?m # fs) ! j)))) = (c # cs) ! j"
    using fs(2,3) read c by (auto simp: nth_Cons split: nat.split)
  moreover have "rpc_send_all sess sid (c # cs) = Some (sess2, ?m # fs)" using send fs(1) by simp
  ultimately show ?case using fs(2) by (metis length_Cons)
qed simp

lemma subseq_map_filter: "subseq xs ys \<Longrightarrow> subseq (List.map_filter f xs) (List.map_filter f ys)"
proof (induction rule: list_emb.induct)
  case (list_emb_Cons xs ys y)
  then show ?case by (cases "f y") (auto simp: List.map_filter_simps)
next
  case (list_emb_Cons2 x y xs ys)
  then show ?case by (cases "f y") (auto simp: List.map_filter_simps)
qed (simp add: List.map_filter_simps)

lemma map_filter_numbers: "\<forall>j < length xs. f (xs ! j) = Some j \<Longrightarrow> List.map_filter f xs = [0..<length xs]"
proof -
  assume "\<forall>j < length xs. f (xs ! j) = Some j"
  then have "map f xs = map Some [0..<length xs]" by (intro nth_equalityI) simp_all
  then have "List.map_filter id (map f xs) = List.map_filter id (map Some [0..<length xs])" by simp
  then show ?thesis by (simp add: List.map_filter_def filter_map comp_def)
qed

section \<open>Properties\<close>

text \<open>
  C18. End-to-end delivery: fewer than 2^32 chunks of at most 64 KB are sent on an open stream on which nothing was sent before, to a receiver
  whose end of the stream is open, empty and expects the first number; the network hands the receiver any
  sequence of buffers, each of them one of the frames sent (lost, repeated or out of order at will) or something of less than 4 GB that is
  not an intact data frame of this stream. The receiver never gets stuck and has always delivered exactly a prefix of
  the chunks, in order and without repetition; if every frame arrives in order, whatever comes between, all of them.
\<close>

theorem rpc_stream_delivers:
  assumes "find_stream snd_sess sid = Some i" and "\<not> st_closed (ss_streams snd_sess ! i)"
    and "st_next_sequence (ss_streams snd_sess ! i) = 0"
    and "\<forall>c \<in> set cs. length c \<le> 65536" and "length cs < 4294967296"
    and "rpc_listening sid (rcv_sess, chunk, frame)" and "st_expected (stream_at rcv_sess sid) = 0"
    and "buf_data (st_buffer (stream_at rcv_sess sid)) = []"
  shows "\<exists>snd_sess' fs. rpc_send_all snd_sess sid cs = Some (snd_sess', fs) \<and>
    (\<forall>ms. (\<forall>m \<in> set ms. m \<in> set fs \<or> rpc_frame_number sid m = None \<and> length (buf_data m) < 4294967296) \<longrightarrow>
      (\<exists>rcv_sess' chunk' frame' k. deliver_all rpc_deliver ms (rcv_sess, chunk, frame) = Some (rcv_sess', chunk', frame') \<and>
        buf_data (st_buffer (stream_at rcv_sess' sid)) = concat (take k cs) \<and>
        k \<le> length cs \<and> (subseq fs ms \<longrightarrow> k = length cs)))"
proof -
  obtain snd_sess' fs where fs: "rpc_send_all snd_sess sid cs = Some (snd_sess', fs)" "length fs = length cs"
    "\<forall>j < length cs. length (buf_data (fs ! j)) < 4294967296 \<and> rpc_frame_number sid (fs ! j) = Some j \<and>
      snd (the (rpc_frame_read (buf_data (fs ! j)))) = cs ! j"
    using rpc_send_all_frames [OF assms(1,2,4)] assms(3,5) by auto
  have start: "rpc_in_order.upto_date sid cs (rcv_sess, chunk, frame)"
    using assms(6-8) by (simp add: rpc_in_order.upto_date_def)
  have genuine: "rpc_in_order.numbered sid cs m" if "m \<in> set fs" for m
    using that fs(2,3) unfolding rpc_in_order.numbered_def in_set_conv_nth by auto
  have noise: "rpc_in_order.numbered sid cs m" if "rpc_frame_number sid m = None" "length (buf_data m) < 4294967296" for m
    using that by (simp add: rpc_in_order.numbered_def)
  have "\<exists>rcv_sess' chunk' frame' k. deliver_all rpc_deliver ms (rcv_sess, chunk, frame) = Some (rcv_sess', chunk', frame') \<and>
        buf_data (st_buffer (stream_at rcv_sess' sid)) = concat (take k cs) \<and>
        k \<le> length cs \<and> (subseq fs ms \<longrightarrow> k = length cs)"
    if ms: "\<forall>m \<in> set ms. m \<in> set fs \<or> rpc_frame_number sid m = None \<and> length (buf_data m) < 4294967296" for ms
  proof -
    have "\<forall>m \<in> set ms. rpc_in_order.numbered sid cs m" using ms genuine noise by blast
    moreover have "length cs \<le> 4294967295" using assms(5) by simp
    ultimately obtain r where r: "deliver_all rpc_deliver ms (rcv_sess, chunk, frame) = Some r" "rpc_in_order.upto_date sid cs r"
      "\<forall>k. subseq [rpc_position sid (rcv_sess, chunk, frame)..<k] (List.map_filter (rpc_frame_number sid) ms) \<longrightarrow>
        k \<le> rpc_position sid r"
      using rpc_in_order.deliver_prefix [OF start] by blast
    have "rpc_position sid r = length cs" if "subseq fs ms"
      using subseq_map_filter [OF that, of "rpc_frame_number sid"] map_filter_numbers [of fs "rpc_frame_number sid"] fs(2,3)
        r(2,3) assms(7) by (auto simp: rpc_in_order.upto_date_def)
    then show ?thesis using r(1,2) by (cases r) (auto simp: rpc_in_order.upto_date_def)
  qed
  then show ?thesis using fs(1) by blast
qed

definition rpc_fresh_stream :: rpc_session where
  "rpc_fresh_stream = snd (rpc_proto_stream_open rpc_proto_session_init)"

lemma rpc_fresh_stream_slots:
  "ss_streams rpc_fresh_stream =
     (zero_stream\<lparr>st_buffer := rpc_buffer_init, st_high := 1048576, st_low := 262144, st_id := 1, st_active := True\<rparr>) #
     replicate 63 (zero_stream\<lparr>st_buffer := rpc_buffer_init, st_high := 1048576, st_low := 262144\<rparr>)"
proof -
  have "replicate 64 x = x # replicate 63 x" for x :: rpc_stream by (simp add: eval_nat_numeral)
  then have "ss_streams rpc_proto_session_init = zero_stream\<lparr>st_buffer := rpc_buffer_init, st_high := 1048576, st_low := 262144\<rparr> #
      replicate 63 (zero_stream\<lparr>st_buffer := rpc_buffer_init, st_high := 1048576, st_low := 262144\<rparr>)"
    by (simp add: rpc_proto_session_init_def zero_session_def)
  moreover have "ss_next_id rpc_proto_session_init = 1" by (simp add: rpc_proto_session_init_def)
  ultimately show ?thesis
    by (simp add: rpc_fresh_stream_def rpc_proto_stream_open_def Let_def zero_stream_def rpc_buffer_reset_def rpc_buffer_init_def)
qed

lemma rpc_fresh_stream_ready:
  shows "find_stream rpc_fresh_stream 1 = Some 0" and "\<not> st_closed (ss_streams rpc_fresh_stream ! 0)"
    and "st_next_sequence (ss_streams rpc_fresh_stream ! 0) = 0" and "st_expected (ss_streams rpc_fresh_stream ! 0) = 0"
    and "buf_data (st_buffer (ss_streams rpc_fresh_stream ! 0)) = []"
    and "\<forall>s \<in> set (ss_streams rpc_fresh_stream). st_active s \<longrightarrow> 0 < buf_capacity (st_buffer s)"
  by (simp_all add: find_stream_def rpc_fresh_stream_slots zero_stream_def rpc_buffer_init_def)

theorem rpc_stream_delivers_witness:
  "\<exists>snd_sess' fs. rpc_send_all rpc_fresh_stream 1 [[1, 2], [3]] = Some (snd_sess', fs) \<and>
    (\<exists>rcv_sess' chunk' frame'. deliver_all rpc_deliver (fs @ fs) (rpc_fresh_stream, rpc_buffer_init, zero_frame) =
        Some (rcv_sess', chunk', frame') \<and> buf_data (st_buffer (stream_at rcv_sess' 1)) = [1, 2, 3])"
proof -
  note ready = rpc_fresh_stream_ready
  have at: "stream_at rpc_fresh_stream 1 = ss_streams rpc_fresh_stream ! 0" by (simp add: stream_at_def ready(1))
  have "rpc_listening 1 (rpc_fresh_stream, rpc_buffer_init, zero_frame)"
    using ready by (simp add: rpc_listening_def rpc_buffer_init_def)
  then obtain snd_sess' fs where fs: "rpc_send_all rpc_fresh_stream 1 [[1, 2], [3]] = Some (snd_sess', fs)"
    "\<forall>ms. (\<forall>m \<in> set ms. m \<in> set fs \<or> rpc_frame_number 1 m = None \<and> length (buf_data m) < 4294967296) \<longrightarrow>
      (\<exists>rcv_sess' chunk' frame' k. deliver_all rpc_deliver ms (rpc_fresh_stream, rpc_buffer_init, zero_frame) =
          Some (rcv_sess', chunk', frame') \<and>
        buf_data (st_buffer (stream_at rcv_sess' 1)) = concat (take k [[1, 2], [3]]) \<and>
        k \<le> length [[1 :: byte, 2], [3]] \<and> (subseq fs ms \<longrightarrow> k = length [[1 :: byte, 2], [3]]))"
    using rpc_stream_delivers [OF ready(1-3), of "[[1, 2], [3]]" rpc_fresh_stream rpc_buffer_init zero_frame] ready(4,5) at
    by auto
  have "subseq fs (fs @ fs)" by (rule list_emb_append2) (rule subseq_order.order_refl)
  then show ?thesis using fs(1) spec [OF fs(2), of "fs @ fs"] by fastforce
qed

text \<open>
  C19. Damage is detected: if a frame that has been built is altered on the way inside a window of at most 32 consecutive bits of its
  header and payload, in any positions, while its checksum arrives as sent, the parser refuses it with an error code and
  leaves the output buffer as it was.
\<close>

theorem rpc_frame_burst_detected:
  assumes "rpc_proto_frame_build f payload out = Some (0, f', wire)" and "0 < buf_capacity out"
    and "buf_data wire = body @ trailer" and "length trailer = 4"
    and "buf_data received = body' @ trailer"
    and "message_bits body = p @ e @ s" and "message_bits body' = p @ e' @ s"
    and "length e = length e'" and "length e \<le> 32" and "e \<noteq> e'"
  shows "\<exists>ret g'. ret \<noteq> 0 \<and> rpc_proto_frame_parse received g out' = Some (ret, g', out')"
proof -
  have size: "length (buf_data payload) \<le> 16777190"
    using assms(1) by (auto simp: rpc_proto_frame_build_def Let_def split: if_splits)
  then have wire: "buf_data wire = rpc_frame_wire f (buf_data payload)"
    using rpc_proto_frame_build_ok [OF size assms(2), of f "buf_data wire = rpc_frame_wire f (buf_data payload)"] assms(1) by simp
  then have parts: "body = rpc_frame_body f (buf_data payload)" "trailer = write_u32be (rpc_crc32_compute body)"
    using assms(3,4) unfolding rpc_frame_wire_def by (auto simp: append_eq_append_conv)
  have trailer: "read_u32be trailer = rpc_crc32_compute body" using read_write_u32be [of _ "[]"] parts(2) by simp
  have bits: "length (message_bits b) = 8 * length b" for b by (induction b) simp_all
  have "length (message_bits body) = length (message_bits body')" unfolding assms(6,7) using assms(8) by simp
  then have len: "length body' = length body" by (simp add: bits)
  then have short: "length (buf_data received) < 4294967296"
    using size assms(4,5) parts(1) by (simp add: rpc_frame_body_def)
  have "rpc_crc32_compute body \<noteq> rpc_crc32_compute body'"
    using crc32_feed_window [OF assms(8-10)]
    by (simp add: rpc_crc32_compute_def rpc_crc32_finalize_inj rpc_crc32_update_feed assms(6,7))
  then have "rpc_frame_read (buf_data received) \<noteq> Some (h, q)" for h q
    using rpc_frame_read_SomeD(2) [of "buf_data received" h q] trailer unfolding assms(5) by (auto simp: assms(4))
  then have "rpc_frame_read (buf_data received) = None" by (cases "rpc_frame_read (buf_data received)") auto
  from rpc_proto_frame_parse_None [OF this short, of g out'] show ?thesis by metis
qed

theorem rpc_frame_burst_detected_witness:
  "\<exists>f' wire. rpc_proto_frame_build zero_frame \<lparr>buf_data = [1, 2], buf_capacity = 4096\<rparr> rpc_buffer_init = Some (0, f', wire) \<and>
    (\<exists>ret g'. ret \<noteq> 0 \<and> rpc_proto_frame_parse
      \<lparr>buf_data = take 22 (buf_data wire) @ [1, 3] @ drop 24 (buf_data wire), buf_capacity = 4096\<rparr> zero_frame rpc_buffer_init =
      Some (ret, g', rpc_buffer_init))"
proof -
  let ?pl = "\<lparr>buf_data = [1, 2 :: byte], buf_capacity = 4096\<rparr>"
  have init: "0 < buf_capacity rpc_buffer_init" by (simp add: rpc_buffer_init_def)
  obtain c where build: "rpc_proto_frame_build zero_frame ?pl rpc_buffer_init =
      Some (0, rpc_frame_sealed zero_frame [1, 2], \<lparr>buf_data = rpc_frame_wire zero_frame [1, 2], buf_capacity = c\<rparr>)"
    using rpc_proto_frame_build_ok [of ?pl rpc_buffer_init zero_frame] init by auto
  let ?h = "rpc_frame_header (rpc_frame_sealed zero_frame [1, 2])"
  let ?t = "write_u32be (rpc_crc32_compute (?h @ [1, 2]))"
  let ?r = "\<lparr>buf_data = (?h @ [1, 3]) @ ?t, buf_capacity = 4096\<rparr>"
  have "\<exists>ret g'. ret \<noteq> 0 \<and> rpc_proto_frame_parse ?r zero_frame rpc_buffer_init = Some (ret, g', rpc_buffer_init)"
  proof (rule rpc_frame_burst_detected [OF build init, where body = "?h @ [1, 2]" and trailer = ?t and body' = "?h @ [1, 3]"
        and p = "message_bits (?h @ [1])" and s = "[]" and e = "byte_bits 2" and e' = "byte_bits 3"])
    show "byte_bits 2 \<noteq> byte_bits 3" by code_simp
  qed (simp_all add: rpc_frame_wire_def rpc_frame_body_def)
  moreover have "take 22 (rpc_frame_wire zero_frame [1, 2]) @ [1, 3] @ drop 24 (rpc_frame_wire zero_frame [1, 2]) = (?h @ [1, 3]) @ ?t"
    by (simp add: rpc_frame_wire_def rpc_frame_body_def drop_append)
  ultimately show ?thesis using build by simp
qed

lemma version_fields:
  fixes a :: "32 word"
  shows "unat (drop_bit 16 a) = unat a div 65536" and "unat (drop_bit 8 a) = unat a div 256"
    and "unat (a AND 0xFF) = unat a mod 256"
proof -
  have shift: "unat (drop_bit n a) = unat a div 2 ^ n" for n
    using unsigned_less [of a, where 'a = nat]
    by (simp only: unsigned_drop_bit_eq) (simp add: drop_bit_eq_div take_bit_nat_eq_self)
  show "unat (drop_bit 16 a) = unat a div 65536" and "unat (drop_bit 8 a) = unat a div 256"
    unfolding shift by simp_all
  have "a AND 0xFF = take_bit 8 a" by (simp add: take_bit_eq_mask mask_eq_exp_minus_1)
  then show "unat (a AND 0xFF) = unat a mod 256" 
    by (simp only: unsigned_take_bit_eq) (simp add: take_bit_eq_mod)
qed

lemma version_lex:
  fixes x y :: nat
  assumes "x \<noteq> y"
  shows "x < y \<longleftrightarrow> x div 65536 < y div 65536 \<or> x div 65536 = y div 65536 \<and>
    (x div 256 mod 256 < y div 256 mod 256 \<or> x div 256 mod 256 = y div 256 mod 256 \<and> x mod 256 < y mod 256)"
proof -
  have "x = 65536 * (x div 65536) + 256 * (x div 256 mod 256) + x mod 256" for x :: nat
  proof -
    have "x div 65536 = x div 256 div 256" by (simp add: div_mult2_eq [symmetric])
    then show ?thesis using div_mult_mod_eq [of x 256] div_mult_mod_eq [of "x div 256" 256] by linarith
  qed
  note split = this [of x] this [of y]
  have small: "x div 256 mod 256 < 256" "y div 256 mod 256 < 256" "x mod 256 < 256" "y mod 256 < 256" by simp_all
  define p q r p' q' r' where "p = x div 65536" "q = x div 256 mod 256" "r = x mod 256"
    "p' = y div 65536" "q' = y div 256 mod 256" "r' = y mod 256"
  note defs = this
  show ?thesis using split small assms unfolding defs [symmetric] by linarith
qed

lemma negotiate_min: "rpc_proto_version_negotiate a b = min a b"
proof (cases "a = RPC_PROTO_VER_ANY \<or> b = RPC_PROTO_VER_ANY \<or> a = b")
  case True
  have "x \<le> RPC_PROTO_VER_ANY" for x :: "32 word"
    unfolding word_le_nat_alt using unsigned_less [of x, where 'a = nat] by simp
  then have top: "RPC_PROTO_VER_ANY \<le> x \<longleftrightarrow> x = RPC_PROTO_VER_ANY" for x :: "32 word" by (metis order_antisym order_refl)
  show ?thesis using True \<open>\<And>x. x \<le> RPC_PROTO_VER_ANY\<close> by (auto simp: rpc_proto_version_negotiate_def min_def top)
next
  case False
  then have "unat a \<noteq> unat b" by (simp add: word_unat_eq_iff)
  note lex = version_lex [OF this] version_lex [OF this [symmetric]]
  have "\<not> (unat a div 65536 = unat b div 65536 \<and> unat a div 256 mod 256 = unat b div 256 mod 256 \<and> unat a mod 256 = unat b mod 256)"
    using lex \<open>unat a \<noteq> unat b\<close> by (metis less_irrefl linorder_neqE_nat)
  then have "rpc_proto_version_compare a b \<le> 0 \<longleftrightarrow> a < b"
    using False lex(1)
    by (cases "unat a div 65536 = unat b div 65536"; cases "unat a div 256 mod 256 = unat b div 256 mod 256")
      (simp_all add: rpc_proto_version_compare_def Let_def word_less_nat_alt word_unat_eq_iff version_fields)
  then show ?thesis using False by (auto simp: rpc_proto_version_negotiate_def min_def)
qed

text \<open>Version negotiation: comparing major, minor and patch fields amounts to comparing the encoded versions, and
  negotiation picks the lower of the two, the wildcard counting as the highest; it is commutative.\<close>

theorem rpc_version_negotiation:
  "rpc_proto_version_negotiate a b = min a b \<and> rpc_proto_version_negotiate a b = rpc_proto_version_negotiate b a"
  by (simp add: negotiate_min min.commute)

text \<open>Handshake round trip: the peer that parses a handshake takes over the builder's capabilities and limits, with
  the lower of the builder's version and its own 1.0, and both sides regard the handshake as complete.\<close>

theorem rpc_handshake_round_trip:
  assumes "0 < buf_capacity out"
  shows "\<exists>wire. rpc_proto_build_handshake a out = Some (0, a\<lparr>ss_handshake := True\<rparr>, wire) \<and>
    rpc_proto_parse_handshake b wire = (0, b\<lparr>ss_handshake := True,
      ss_negotiation := (ss_negotiation a)\<lparr>neg_version := min RPC_PROTO_VER_1_0 (neg_version (ss_negotiation a)),
        neg_algo := neg_algo (ss_negotiation b)\<rparr>\<rparr>)"
proof -
  let ?n = "ss_negotiation a"
  let ?p = "rpc_handshake_payload ?n"
  let ?t = "write_u32be (rpc_crc32_compute ?p)"
  obtain c1 where c1: "0 < c1" "rpc_buffer_append (rpc_buffer_reset out) ?p = Some \<lparr>buf_data = ?p, buf_capacity = c1\<rparr>"
    using rpc_buffer_append_ok [of "rpc_buffer_reset out" ?p] assms unfolding rpc_buffer_reset_def by auto
  obtain c2 where c2: "rpc_buffer_append \<lparr>buf_data = ?p, buf_capacity = c1\<rparr> ?t = Some \<lparr>buf_data = ?p @ ?t, buf_capacity = c2\<rparr>"
    using rpc_buffer_append_ok [of "\<lparr>buf_data = ?p, buf_capacity = c1\<rparr>" ?t] c1(1) by auto
  have len: "length ?p = 15" by (simp add: rpc_handshake_payload_def)
  have crc: "read_u32be (drop 15 (?p @ ?t)) = rpc_crc32_compute ?p" "take 15 (?p @ ?t) = ?p"
    using read_write_u32be [of "rpc_crc32_compute ?p" "[]"] by (simp_all add: len)
  have fields: "read_u32be (?p @ ?t) = neg_version ?n" "(?p @ ?t) ! 4 \<noteq> 0 \<longleftrightarrow> neg_compression ?n"
    "(?p @ ?t) ! 5 \<noteq> 0 \<longleftrightarrow> neg_encryption ?n" "(?p @ ?t) ! 6 \<noteq> 0 \<longleftrightarrow> neg_multiplexing ?n"
    "read_u32be (drop 7 (?p @ ?t)) = neg_max_frame_size ?n" "read_u32be (drop 11 (?p @ ?t)) = neg_max_streams ?n"
    unfolding rpc_handshake_payload_def append_assoc by (simp_all add: drop_append nth_append bool_byte_def)
  have "rpc_proto_parse_handshake b \<lparr>buf_data = ?p @ ?t, buf_capacity = c2\<rparr> = (0, b\<lparr>ss_handshake := True,
      ss_negotiation := ?n\<lparr>neg_version := rpc_proto_version_negotiate RPC_PROTO_VER_1_0 (neg_version ?n),
        neg_algo := neg_algo (ss_negotiation b)\<rparr>\<rparr>)"
    unfolding rpc_proto_parse_handshake_def Let_def rpc_buffer.select_convs crc fields by (simp add: len)
  moreover have "rpc_proto_build_handshake a out = Some (0, a\<lparr>ss_handshake := True\<rparr>, \<lparr>buf_data = ?p @ ?t, buf_capacity = c2\<rparr>)"
    using c1(2) c2 by (simp add: rpc_proto_build_handshake_def Let_def)
  ultimately show ?thesis by (auto simp: negotiate_min)
qed

theorem rpc_handshake_round_trip_witness:
  "\<exists>wire. rpc_proto_build_handshake rpc_proto_session_init rpc_buffer_init =
      Some (0, rpc_proto_session_init\<lparr>ss_handshake := True\<rparr>, wire) \<and>
    fst (rpc_proto_parse_handshake rpc_proto_session_init wire) = 0"
  using rpc_handshake_round_trip [of rpc_buffer_init rpc_proto_session_init rpc_proto_session_init]
  by (auto simp: rpc_buffer_init_def)

section \<open>Behaviour at the edges\<close>

text \<open>A released buffer never grows again: appending to it does not return.\<close>

lemma rpc_buffer_freed_hangs: "rpc_buffer_append (rpc_buffer_free b) (x # xs) = None"
  by (simp add: rpc_buffer_append_def rpc_buffer_free_def rpc_buffer_reserve_def rpc_buffer_double_zero)

text \<open>Freeing a session releases only the buffers of active streams; the 64 allocated at initialisation are lost.\<close>

lemma rpc_session_free_leaks: "fst (rpc_proto_session_free rpc_proto_session_init) = []"
  by (simp add: rpc_proto_session_free_def rpc_proto_session_init_def zero_session_def zero_stream_def)

text \<open>A data frame for a stream that the sender has marked as compressed carries the chunk unchanged.\<close>

lemma rpc_send_flag_without_compression:
  assumes "find_stream sess sid = Some i" and "\<not> st_closed (ss_streams sess ! i)" and "length (buf_data chunk) \<le> 65536"
    and "0 < buf_capacity out" and "neg_compression (ss_negotiation sess)"
  shows "\<exists>sess' w f. rpc_proto_stream_send sess sid chunk out = Some (0, sess', w) \<and>
    rpc_frame_read (buf_data w) = Some (f, buf_data chunk) \<and> fr_flags f = 1"
proof -
  let ?f = "zero_frame\<lparr>fr_version := neg_version (ss_negotiation sess), fr_type := RPC_FRAME_STREAM_DATA,
    fr_stream := sid, fr_sequence := st_next_sequence (ss_streams sess ! i), fr_flags := 1\<rparr>"
  obtain c where build: "rpc_proto_frame_build ?f chunk out = Some (0, rpc_frame_sealed ?f (buf_data chunk),
      \<lparr>buf_data = rpc_frame_wire ?f (buf_data chunk), buf_capacity = c\<rparr>)"
    using rpc_proto_frame_build_ok [of chunk out ?f] assms(3,4) by auto
  have "rpc_frame_read (rpc_frame_wire ?f (buf_data chunk)) = Some (rpc_frame_sealed ?f (buf_data chunk), buf_data chunk)"
    using assms(3) by (intro rpc_frame_read_wire) simp
  moreover have "fr_flags (rpc_frame_sealed ?f (buf_data chunk)) = 1" by (simp add: rpc_frame_sealed_def)
  moreover have "\<exists>sess'. rpc_proto_stream_send sess sid chunk out =
      Some (0, sess', \<lparr>buf_data = rpc_frame_wire ?f (buf_data chunk), buf_capacity = c\<rparr>)"
    unfolding rpc_proto_stream_send_def Let_def assms(1) option.case if_P [OF assms(5)] build using assms(2,3) by simp
  ultimately show ?thesis by (metis rpc_buffer.select_convs(1))
qed

text \<open>A codec that does not shrink its input: compression stores the input as it is, and decompression applies the
  decoder to it.\<close>

definition doubling_codecs :: rpc_codecs where
  "doubling_codecs = rpc_proto_compress_register RPC_COMPRESS_LZ4 (Some (\<lambda>src n. (0, src @ src)))
     (Some (\<lambda>src n. (0, take (length src div 2) src))) \<lparr>g_compress_fns = (\<lambda>_. None), g_decompress_fns = (\<lambda>_. None)\<rparr>"

lemma rpc_compress_fallback_unmarked:
  "\<exists>w v. rpc_proto_compress doubling_codecs RPC_COMPRESS_LZ4 [7, 8] rpc_buffer_init = Some (0, w) \<and>
     rpc_proto_decompress doubling_codecs RPC_COMPRESS_LZ4 (buf_data w) rpc_buffer_init = Some (0, v) \<and> buf_data v = [7]"
  by (simp add: rpc_proto_compress_def rpc_proto_decompress_def doubling_codecs_def rpc_proto_compress_register_def
      rpc_buffer_reserve_def rpc_buffer_init_def rpc_buffer_reset_def)

text \<open>Closing a stream ends its slot's activity, and every later send finds no stream: the code for a closed stream
  is never returned.\<close>

lemma rpc_send_after_close:
  assumes "rpc_proto_stream_close sess sid out = Some (0, sess', w)"
    and "\<And>i j. i < length (ss_streams sess) \<Longrightarrow> j < length (ss_streams sess) \<Longrightarrow> st_active (ss_streams sess ! i) \<Longrightarrow>
      st_active (ss_streams sess ! j) \<Longrightarrow> st_id (ss_streams sess ! i) = st_id (ss_streams sess ! j) \<Longrightarrow> i = j"
  shows "rpc_proto_stream_send sess' sid chunk out' = Some (-1, sess', out')"
proof -
  obtain i where i: "find_stream sess sid = Some i"
    and s': "ss_streams sess' = (ss_streams sess)[i := (ss_streams sess ! i)\<lparr>st_active := False, st_closed := True\<rparr>]"
    using assms(1) by (auto simp: rpc_proto_stream_close_def Let_def bind_eq_Some_conv split: option.splits if_splits)
  note i' = find_stream_SomeD [OF i]
  have "\<not> (st_active (ss_streams sess' ! j) \<and> st_id (ss_streams sess' ! j) = sid)" if "j < length (ss_streams sess')" for j
    using that i' assms(2) [of i j] by (auto simp: s' nth_list_update split: if_splits)
  then have "find_stream sess' sid = None" unfolding find_stream_def find_index_None_iff by (metis in_set_conv_nth)
  then show ?thesis by (simp add: rpc_proto_stream_send_def)
qed

end
