(* ===== verification/RpcEncoding.thy ===== *)
theory RpcEncoding
  imports RpcProtocol
begin

text \<open>
  Values and messages of the RPC framework and their binary encoding (\<open>mini-rpc-framework/src/rpc_encoding.c\<close>, on the
  buffers of \<open>RpcProtocol\<close>). The JSON encoding, whose reader goes through \<open>atof\<close> and \<open>double\<close>, is left out, as are the two
  functions that only dispatch on the codec.

  An integer is a word of its width. A \<open>double\<close> is a value of a type \<open>'d\<close> that the development does not look into; the
  conversions between it and the bits of a \<open>float\<close> are parameters. A string is the list of its bytes before the terminator.
  The used slots of \<open>params\<close> are a list. \<open>None\<close> is an access outside of a buffer, or an append that does not return.
\<close>

section \<open>Values and messages\<close>

abbreviation RPC_MAX_PARAMS :: nat where "RPC_MAX_PARAMS \<equiv> 16"
abbreviation RPC_MAX_ARRAY_LEN :: nat where "RPC_MAX_ARRAY_LEN \<equiv> 64"

abbreviation RPC_TYPE_INT32 :: byte where "RPC_TYPE_INT32 \<equiv> 0"
abbreviation RPC_TYPE_INT64 :: byte where "RPC_TYPE_INT64 \<equiv> 1"
abbreviation RPC_TYPE_STRING :: byte where "RPC_TYPE_STRING \<equiv> 2"
abbreviation RPC_TYPE_BOOL :: byte where "RPC_TYPE_BOOL \<equiv> 3"
abbreviation RPC_TYPE_FLOAT :: byte where "RPC_TYPE_FLOAT \<equiv> 4"
abbreviation RPC_TYPE_ARRAY :: byte where "RPC_TYPE_ARRAY \<equiv> 5"
abbreviation RPC_TYPE_NULL :: byte where "RPC_TYPE_NULL \<equiv> 6"

text \<open>
  An array keeps its element type, its length and its block of 32-bit elements. \<open>V_TYPE_ONLY\<close> is a value whose tag has been
  set and whose payload has not: a null, a type outside of the enumeration, or what a failed decoding leaves.
\<close>

datatype 'd rpc_value =
  V_INT32 "32 word"
| V_INT64 "64 word"
| V_STRING "byte list"
| V_BOOL bool
| V_FLOAT 'd
| V_ARRAY byte "32 word" "32 word list"
| V_TYPE_ONLY byte

abbreviation V_NULL :: "'d rpc_value" where "V_NULL \<equiv> V_TYPE_ONLY RPC_TYPE_NULL"

fun rpc_value_type :: "'d rpc_value \<Rightarrow> byte" where
  "rpc_value_type (V_INT32 _) = RPC_TYPE_INT32"
| "rpc_value_type (V_INT64 _) = RPC_TYPE_INT64"
| "rpc_value_type (V_STRING _) = RPC_TYPE_STRING"
| "rpc_value_type (V_BOOL _) = RPC_TYPE_BOOL"
| "rpc_value_type (V_FLOAT _) = RPC_TYPE_FLOAT"
| "rpc_value_type (V_ARRAY _ _ _) = RPC_TYPE_ARRAY"
| "rpc_value_type (V_TYPE_ONLY t) = t"

record 'd rpc_message =
  msg_id :: "32 word"
  msg_method :: "byte list"
  msg_params :: "'d rpc_value list"
  msg_return_type :: byte
  msg_is_request :: bool
  msg_is_error :: bool
  msg_error :: "byte list"

definition rpc_message_init :: "'d rpc_message" where
  "rpc_message_init = \<lparr>msg_id = 0, msg_method = [], msg_params = [], msg_return_type = RPC_TYPE_NULL, msg_is_request = True,
     msg_is_error = False, msg_error = []\<rparr>"

definition rpc_value_free :: "'d rpc_value \<Rightarrow> 'd rpc_value" where
  "rpc_value_free v = V_NULL"

definition rpc_message_free :: "'d rpc_message \<Rightarrow> 'd rpc_message" where
  "rpc_message_free msg = rpc_message_init"

text \<open>The C code multiplies a signed 32-bit number; the overflow, undefined in C, is taken as wrap-around.\<close>

definition rpc_fnv1a_hash :: "byte list \<Rightarrow> 32 word" where
  "rpc_fnv1a_hash str = fold (\<lambda>c hash. (hash XOR ucast c) * 16777619) str 2166136261"

definition write_i32be :: "32 word \<Rightarrow> byte list" where
  "write_i32be val = [ucast (drop_bit 24 val AND 0xFF), ucast (drop_bit 16 val AND 0xFF),
     ucast (drop_bit 8 val AND 0xFF), ucast (val AND 0xFF)]"

definition read_i32be :: "byte list \<Rightarrow> 32 word" where
  "read_i32be buf = push_bit 24 (ucast (buf ! 0)) OR push_bit 16 (ucast (buf ! 1)) OR
     push_bit 8 (ucast (buf ! 2)) OR ucast (buf ! 3)"

definition write_i64be :: "64 word \<Rightarrow> byte list" where
  "write_i64be val = write_i32be (ucast (drop_bit 32 val AND 0xFFFFFFFF)) @ write_i32be (ucast (val AND 0xFFFFFFFF))"

definition read_i64be :: "byte list \<Rightarrow> 64 word" where
  "read_i64be buf = push_bit 32 (ucast (read_i32be buf)) OR (ucast (read_i32be (drop 4 buf)) AND 0xFFFFFFFF)"

section \<open>The binary encoder\<close>

fun rpc_append_all :: "rpc_buffer \<Rightarrow> byte list list \<Rightarrow> rpc_buffer option" where
  "rpc_append_all out [] = Some out"
| "rpc_append_all out (bs # bss) = do { out \<leftarrow> rpc_buffer_append out bs; rpc_append_all out bss }"

definition rpc_encode_param_binary :: "('d \<Rightarrow> 32 word) \<Rightarrow> rpc_buffer \<Rightarrow> 'd rpc_value \<Rightarrow> rpc_buffer option" where
  "rpc_encode_param_binary float_bits out v = do {
     out \<leftarrow> rpc_buffer_append out [rpc_value_type v];
     case v of
       V_INT32 x \<Rightarrow> rpc_buffer_append out (write_i32be x)
     | V_INT64 x \<Rightarrow> rpc_buffer_append out (write_i64be x)
     | V_STRING s \<Rightarrow> do {
         out \<leftarrow> rpc_buffer_append out (write_i32be (of_nat (length s)));
         rpc_buffer_append out s
       }
     | V_BOOL b \<Rightarrow> rpc_buffer_append out [if b then 1 else 0]
     | V_FLOAT d \<Rightarrow> rpc_buffer_append out (write_i32be (float_bits d))
     | V_ARRAY et n xs \<Rightarrow> do {
         out \<leftarrow> rpc_buffer_append out (write_i32be n);
         out \<leftarrow> rpc_buffer_append out [et];
         if et = RPC_TYPE_INT32 then
           (if sint n > int (length xs) then None else rpc_append_all out (map write_i32be (take (nat (sint n)) xs)))
         else Some out
       }
     | V_TYPE_ONLY t \<Rightarrow> if t < RPC_TYPE_NULL then None else Some out
   }"

fun rpc_encode_params :: "('d \<Rightarrow> 32 word) \<Rightarrow> rpc_buffer \<Rightarrow> 'd rpc_value list \<Rightarrow> rpc_buffer option" where
  "rpc_encode_params float_bits out [] = Some out"
| "rpc_encode_params float_bits out (v # vs) = do {
     out \<leftarrow> rpc_encode_param_binary float_bits out v;
     rpc_encode_params float_bits out vs
   }"

definition rpc_encode_binary :: "('d \<Rightarrow> 32 word) \<Rightarrow> 'd rpc_message \<Rightarrow> rpc_buffer \<Rightarrow> (int \<times> rpc_buffer) option" where
  "rpc_encode_binary float_bits msg out =
     (let out = rpc_buffer_reset out;
          msg_type = (if msg_is_error msg then 3 else if msg_is_request msg then 1 else 2) in
      do {
        out \<leftarrow> rpc_buffer_append out [msg_type];
        let len_pos = length (buf_data out);
        out \<leftarrow> rpc_buffer_append out [0, 0, 0, 0];
        out \<leftarrow> rpc_buffer_append out (write_i32be (rpc_fnv1a_hash (msg_method msg)));
        out \<leftarrow> rpc_buffer_append out [of_nat (length (msg_params msg))];
        out \<leftarrow> rpc_encode_params float_bits out (msg_params msg);
        let total_len = length (buf_data out) - len_pos - 4;
        Some (0, out\<lparr>buf_data := take len_pos (buf_data out) @ write_i32be (of_nat total_len) @ drop (len_pos + 4) (buf_data out)\<rparr>)
      })"

section \<open>The binary decoder\<close>

fun rpc_read_array :: "nat \<Rightarrow> byte list \<Rightarrow> nat \<Rightarrow> 32 word list \<times> nat" where
  "rpc_read_array 0 data pos = ([], pos)"
| "rpc_read_array (Suc n) data pos =
     (if pos + 4 \<le> length data
      then (case rpc_read_array n data (pos + 4) of (xs, pos') \<Rightarrow> (read_i32be (drop pos data) # xs, pos'))
      else ([], pos))"

definition rpc_decode_param_binary ::
    "(32 word \<Rightarrow> 'd) \<Rightarrow> byte list \<Rightarrow> nat \<Rightarrow> 'd rpc_value \<Rightarrow> (int \<times> nat \<times> 'd rpc_value) option" where
  "rpc_decode_param_binary of_float_bits data pos v =
     (let len = length data in
      if pos \<ge> len then Some (-1, pos, v)
      else let t = data ! pos; pos = pos + 1 in
      if t = RPC_TYPE_INT32 then
        (if pos + 4 > len then Some (-1, pos, V_TYPE_ONLY t)
         else Some (0, pos + 4, V_INT32 (read_i32be (drop pos data))))
      else if t = RPC_TYPE_INT64 then
        (if pos + 8 > len then Some (-1, pos, V_TYPE_ONLY t)
         else Some (0, pos + 8, V_INT64 (read_i64be (drop pos data))))
      else if t = RPC_TYPE_STRING then
        (if pos + 4 > len then Some (-1, pos, V_TYPE_ONLY t)
         else let slen = sint (read_i32be (drop pos data)); pos = pos + 4 in
         if int pos + slen \<ge> 2 ^ 31 then None
         else if int pos + slen > int len then Some (-1, pos, V_TYPE_ONLY t)
         else if slen < 0 then None
         else Some (0, pos + nat slen, V_STRING (takeWhile (\<lambda>c. c \<noteq> 0) (take (nat slen) (drop pos data)))))
      else if t = RPC_TYPE_BOOL then
        (if pos \<ge> len then None else Some (0, pos + 1, V_BOOL (data ! pos \<noteq> 0)))
      else if t = RPC_TYPE_FLOAT then
        (if pos + 4 > len then Some (-1, pos, V_TYPE_ONLY t)
         else Some (0, pos + 4, V_FLOAT (of_float_bits (read_i32be (drop pos data)))))
      else if t = RPC_TYPE_ARRAY then
        (if pos + 4 > len then Some (-1, pos, V_TYPE_ONLY t)
         else let arrlen = read_i32be (drop pos data); pos = pos + 4 in
         if pos \<ge> len then Some (-1, pos, V_TYPE_ONLY t)
         else let et = data ! pos; pos = pos + 1 in
         if et = RPC_TYPE_INT32 then
           (case rpc_read_array (nat (min (sint arrlen) (int RPC_MAX_ARRAY_LEN))) data pos of (xs, pos) \<Rightarrow>
              Some (0, pos, V_ARRAY et arrlen (xs @ replicate (RPC_MAX_ARRAY_LEN - length xs) 0)))
         else Some (0, pos, V_ARRAY et arrlen []))
      else Some (0, pos, V_TYPE_ONLY t))"

fun rpc_decode_params :: "(32 word \<Rightarrow> 'd) \<Rightarrow> byte list \<Rightarrow> nat \<Rightarrow> nat \<Rightarrow> 'd rpc_value list option" where
  "rpc_decode_params of_float_bits data 0 pos = Some []"
| "rpc_decode_params of_float_bits data (Suc n) pos = do {
     (r, pos, v) \<leftarrow> rpc_decode_param_binary of_float_bits data pos V_NULL;
     if r \<noteq> 0 then Some (v # replicate n V_NULL)
     else do { vs \<leftarrow> rpc_decode_params of_float_bits data n pos; Some (v # vs) }
   }"

definition rpc_decode_binary :: "(32 word \<Rightarrow> 'd) \<Rightarrow> rpc_buffer \<Rightarrow> (int \<times> 'd rpc_message) option" where
  "rpc_decode_binary of_float_bits inb =
     (let data = buf_data inb; msg = rpc_message_init in
      if length data < 10 then Some (-1, msg)
      else let mtype = data ! 0; pcount = unat (data ! 9) in
      do {
        vs \<leftarrow> rpc_decode_params of_float_bits data (min pcount RPC_MAX_PARAMS) 10;
        Some (0, msg\<lparr>msg_is_request := (mtype = 1), msg_is_error := (mtype = 3), msg_params := vs\<rparr>)
      })"

section \<open>The bytes of a message\<close>

fun payload_bytes :: "('d \<Rightarrow> 32 word) \<Rightarrow> 'd rpc_value \<Rightarrow> byte list" where
  "payload_bytes fb (V_INT32 x) = write_i32be x"
| "payload_bytes fb (V_INT64 x) = write_i64be x"
| "payload_bytes fb (V_STRING s) = write_i32be (of_nat (length s)) @ s"
| "payload_bytes fb (V_BOOL b) = [if b then 1 else 0]"
| "payload_bytes fb (V_FLOAT d) = write_i32be (fb d)"
| "payload_bytes fb (V_ARRAY et n xs) = write_i32be n @ [et] @ concat (map write_i32be xs)"
| "payload_bytes fb (V_TYPE_ONLY t) = []"

definition param_bytes :: "('d \<Rightarrow> 32 word) \<Rightarrow> 'd rpc_value \<Rightarrow> byte list" where
  "param_bytes fb v = rpc_value_type v # payload_bytes fb v"

definition message_bytes :: "('d \<Rightarrow> 32 word) \<Rightarrow> 'd rpc_message \<Rightarrow> byte list" where
  "message_bytes fb msg = (let body = concat (map (param_bytes fb) (msg_params msg)) in
     [if msg_is_error msg then 3 else if msg_is_request msg then 1 else 2] @ write_i32be (of_nat (5 + length body)) @
     write_i32be (rpc_fnv1a_hash (msg_method msg)) @ [of_nat (length (msg_params msg))] @ body)"

text \<open>
  A value that fits the format: a string that is shorter than \<open>INT_MAX\<close> and holds no terminator, a float that survives the
  conversions, an array of 32-bit elements that is not longer than \<open>RPC_MAX_ARRAY_LEN\<close>.
\<close>

fun value_ok :: "('d \<Rightarrow> 32 word) \<Rightarrow> (32 word \<Rightarrow> 'd) \<Rightarrow> 'd rpc_value \<Rightarrow> bool" where
  "value_ok fb ob (V_STRING s) \<longleftrightarrow> 0 \<notin> set s \<and> length s < 2 ^ 31"
| "value_ok fb ob (V_FLOAT d) \<longleftrightarrow> ob (fb d) = d"
| "value_ok fb ob (V_ARRAY et n xs) \<longleftrightarrow> et = RPC_TYPE_INT32 \<and> unat n = length xs \<and> length xs \<le> RPC_MAX_ARRAY_LEN"
| "value_ok fb ob (V_TYPE_ONLY t) \<longleftrightarrow> t \<ge> RPC_TYPE_NULL"
| "value_ok fb ob v \<longleftrightarrow> True"

text \<open>What the decoder returns: the block of an array always has room for \<open>RPC_MAX_ARRAY_LEN\<close> elements.\<close>

fun decoded_value :: "'d rpc_value \<Rightarrow> 'd rpc_value" where
  "decoded_value (V_ARRAY et n xs) = V_ARRAY et n (xs @ replicate (RPC_MAX_ARRAY_LEN - length xs) 0)"
| "decoded_value v = v"

lemma write_i32be_u32be: "write_i32be = write_u32be" and read_i32be_u32be: "read_i32be = read_u32be"
  by (rule ext, simp add: write_i32be_def write_u32be_def) (rule ext, simp add: read_i32be_def read_u32be_def)

lemma length_write_i32be [simp]: "length (write_i32be w) = 4"
  by (simp add: write_i32be_def)

lemma read_write_i32be [simp]: "read_i32be (write_i32be w @ r) = w"
  by (simp add: write_i32be_u32be read_i32be_u32be)

lemma length_write_i64be [simp]: "length (write_i64be w) = 8"
  by (simp add: write_i64be_def)

lemma read_write_i64be [simp]: "read_i64be (write_i64be w @ r) = w"
proof -
  have m: "(0xFFFFFFFF :: 64 word) = mask 32" by (simp add: mask_eq_exp_minus_1)
  have "push_bit 32 (ucast (ucast (drop_bit 32 w AND mask 32) :: 32 word)) OR (ucast (ucast (w AND mask 32) :: 32 word) AND mask 32) = w"
    by (rule bit_word_eqI) (auto simp: bit_simps)
  then show ?thesis by (simp add: read_i64be_def write_i64be_def m)
qed

lemma sint_small: "n < 2 ^ 31 \<Longrightarrow> sint (of_nat n :: 32 word) = int n"
  by (simp add: signed_of_nat signed_take_bit_int_eq_self)

lemma sint_unat_small: "unat (w :: 32 word) < 2 ^ 31 \<Longrightarrow> sint w = int (unat w)"
  using sint_small [of "unat w"] by simp

lemma rpc_append_all_ok:
  assumes "0 < buf_capacity out"
  shows "\<exists>c > 0. rpc_append_all out bss = Some \<lparr>buf_data = buf_data out @ concat bss, buf_capacity = c\<rparr>"
  using assms
proof (induction bss arbitrary: out)
  case (Cons bs bss)
  obtain c where "0 < c" "rpc_buffer_append out bs = Some \<lparr>buf_data = buf_data out @ bs, buf_capacity = c\<rparr>"
    using rpc_buffer_append_ok [OF Cons.prems] .
  then show ?case using Cons.IH [of "\<lparr>buf_data = buf_data out @ bs, buf_capacity = c\<rparr>"] by simp
qed auto

text \<open>Every branch of the encoder is a sequence of appends, so it returns and its output is the concatenation.\<close>

definition payload_chunks :: "('d \<Rightarrow> 32 word) \<Rightarrow> 'd rpc_value \<Rightarrow> byte list list" where
  "payload_chunks fb v = (case v of
     V_STRING s \<Rightarrow> [write_i32be (of_nat (length s)), s]
   | V_ARRAY et n xs \<Rightarrow> write_i32be n # [et] # map write_i32be xs
   | V_TYPE_ONLY t \<Rightarrow> []
   | _ \<Rightarrow> [payload_bytes fb v])"

lemma concat_payload_chunks: "concat (payload_chunks fb v) = payload_bytes fb v"
  by (cases v) (simp_all add: payload_chunks_def)

lemma rpc_encode_param_chunks:
  assumes "value_ok fb ob v"
  shows "rpc_encode_param_binary fb out v = rpc_append_all out ([rpc_value_type v] # payload_chunks fb v)"
proof (cases v)
  case (V_ARRAY et n xs)
  then have "sint n = int (length xs)" using assms sint_unat_small [of n] by simp
  then show ?thesis using V_ARRAY assms by (simp add: rpc_encode_param_binary_def payload_chunks_def)
next
  case (V_TYPE_ONLY t)
  then have "\<not> t < RPC_TYPE_NULL" using assms by (simp add: not_less)
  then show ?thesis using V_TYPE_ONLY by (simp add: rpc_encode_param_binary_def payload_chunks_def)
qed (simp_all add: rpc_encode_param_binary_def payload_chunks_def)

lemma rpc_encode_param_ok:
  assumes "value_ok fb ob v" and "0 < buf_capacity out"
  shows "\<exists>c > 0. rpc_encode_param_binary fb out v = Some \<lparr>buf_data = buf_data out @ param_bytes fb v, buf_capacity = c\<rparr>"
  using rpc_append_all_ok [OF assms(2), of "[rpc_value_type v] # payload_chunks fb v"]
  by (simp only: rpc_encode_param_chunks [OF assms(1)] concat.simps concat_payload_chunks param_bytes_def append.simps)

lemma rpc_encode_params_ok:
  assumes "\<forall>v \<in> set vs. value_ok fb ob v" and "0 < buf_capacity out"
  shows "\<exists>c > 0. rpc_encode_params fb out vs = Some \<lparr>buf_data = buf_data out @ concat (map (param_bytes fb) vs), buf_capacity = c\<rparr>"
  using assms
proof (induction vs arbitrary: out)
  case (Cons v vs)
  obtain c where "0 < c" "rpc_encode_param_binary fb out v = Some \<lparr>buf_data = buf_data out @ param_bytes fb v, buf_capacity = c\<rparr>"
    using rpc_encode_param_ok [of fb ob v out] Cons.prems by auto
  then show ?case using Cons.IH [of "\<lparr>buf_data = buf_data out @ param_bytes fb v, buf_capacity = c\<rparr>"] Cons.prems by simp
qed auto

lemma rpc_encode_binary_ok:
  assumes "\<forall>v \<in> set (msg_params msg). value_ok fb ob v" and "0 < buf_capacity out"
  shows "\<exists>c > 0. rpc_encode_binary fb msg out = Some (0, \<lparr>buf_data = message_bytes fb msg, buf_capacity = c\<rparr>)"
proof -
  let ?mt = "if msg_is_error msg then 3 else if msg_is_request msg then 1 else 2 :: byte" and ?h = "write_i32be (rpc_fnv1a_hash (msg_method msg))"
  let ?n = "of_nat (length (msg_params msg)) :: byte" and ?body = "concat (map (param_bytes fb) (msg_params msg))"
  have "0 < buf_capacity (rpc_buffer_reset out)" using assms(2) by (simp add: rpc_buffer_reset_def)
  then obtain c1 where c1: "0 < c1" "rpc_buffer_append (rpc_buffer_reset out) [?mt] = Some \<lparr>buf_data = [?mt], buf_capacity = c1\<rparr>"
    by (rule rpc_buffer_append_ok) (simp add: rpc_buffer_reset_def)
  obtain c2 where c2: "0 < c2" "rpc_buffer_append \<lparr>buf_data = [?mt], buf_capacity = c1\<rparr> [0, 0, 0, 0] = Some \<lparr>buf_data = [?mt, 0, 0, 0, 0], buf_capacity = c2\<rparr>"
    using c1(1) rpc_buffer_append_ok [of "\<lparr>buf_data = [?mt], buf_capacity = c1\<rparr>" "[0, 0, 0, 0]"] by auto
  obtain c3 where c3: "0 < c3" "rpc_buffer_append \<lparr>buf_data = [?mt, 0, 0, 0, 0], buf_capacity = c2\<rparr> ?h = Some \<lparr>buf_data = [?mt, 0, 0, 0, 0] @ ?h, buf_capacity = c3\<rparr>"
    using c2(1) rpc_buffer_append_ok [of "\<lparr>buf_data = [?mt, 0, 0, 0, 0], buf_capacity = c2\<rparr>" ?h] by auto
  obtain c4 where c4: "0 < c4" "rpc_buffer_append \<lparr>buf_data = [?mt, 0, 0, 0, 0] @ ?h, buf_capacity = c3\<rparr> [?n] = Some \<lparr>buf_data = [?mt, 0, 0, 0, 0] @ ?h @ [?n], buf_capacity = c4\<rparr>"
    using c3(1) rpc_buffer_append_ok [of "\<lparr>buf_data = [?mt, 0, 0, 0, 0] @ ?h, buf_capacity = c3\<rparr>" "[?n]"] by auto
  obtain c5 where c5: "0 < c5" "rpc_encode_params fb \<lparr>buf_data = [?mt, 0, 0, 0, 0] @ ?h @ [?n], buf_capacity = c4\<rparr> (msg_params msg) =
      Some \<lparr>buf_data = ([?mt, 0, 0, 0, 0] @ ?h @ [?n]) @ ?body, buf_capacity = c5\<rparr>"
    using c4(1) rpc_encode_params_ok [OF assms(1), of "\<lparr>buf_data = [?mt, 0, 0, 0, 0] @ ?h @ [?n], buf_capacity = c4\<rparr>"] by auto
  have "rpc_encode_binary fb msg out = Some (0, \<lparr>buf_data = message_bytes fb msg, buf_capacity = c5\<rparr>)"
    unfolding rpc_encode_binary_def Let_def c1(2) Option.bind.bind_lunit c2(2) c3(2) c4(2) c5(2)
    by (simp add: message_bytes_def Let_def)
  then show ?thesis using c5(1) by blast
qed

section \<open>Messages survive the binary encoding\<close>

lemma rpc_read_array_ok:
  "rpc_read_array (length xs) (pre @ concat (map write_i32be xs) @ post) (length pre) = (xs, length pre + 4 * length xs)"
proof (induction xs arbitrary: pre)
  case (Cons x xs)
  show ?case using Cons.IH [of "pre @ write_i32be x"] by simp
qed simp

lemma length_concat_i32be [simp]: "length (concat (map write_i32be xs)) = 4 * length xs"
  by (induction xs) simp_all

lemma rpc_decode_param_ok:
  assumes ok: "value_ok fb ob v" and len: "length (pre @ param_bytes fb v @ post) < 2 ^ 31"
  shows "rpc_decode_param_binary ob (pre @ param_bytes fb v @ post) (length pre) w =
    Some (0, length pre + length (param_bytes fb v), decoded_value v)"
proof (cases v)
  case (V_STRING s)
  have "sint (of_nat (length s) :: 32 word) = int (length s)" using len V_STRING by (intro sint_small) (simp add: param_bytes_def)
  moreover have "takeWhile (\<lambda>c. c \<noteq> 0) s = s" using ok V_STRING by (auto simp: takeWhile_eq_all_conv)
  ultimately show ?thesis using len V_STRING by (simp add: rpc_decode_param_binary_def param_bytes_def Let_def nth_append)
next
  case (V_ARRAY et n xs)
  have n: "sint n = int (length xs)" "length xs \<le> RPC_MAX_ARRAY_LEN" "et = 0" using ok V_ARRAY sint_unat_small [of n] by simp_all
  have "rpc_read_array (length xs) (pre @ RPC_TYPE_ARRAY # write_i32be n @ 0 # concat (map write_i32be xs) @ post) (6 + length pre) =
      (xs, 6 + length pre + 4 * length xs)"
    using rpc_read_array_ok [of xs "pre @ [RPC_TYPE_ARRAY] @ write_i32be n @ [0]" post] by (simp add: add.commute)
  then show ?thesis using n V_ARRAY by (simp add: rpc_decode_param_binary_def param_bytes_def Let_def nth_append)
next
  case (V_TYPE_ONLY t)
  then have "t \<noteq> 0" "t \<noteq> 1" "t \<noteq> 2" "t \<noteq> 3" "t \<noteq> 4" "t \<noteq> 5" using ok by (auto simp: word_le_nat_alt)
  then show ?thesis using V_TYPE_ONLY by (simp add: rpc_decode_param_binary_def param_bytes_def Let_def nth_append)
qed (use ok in \<open>simp_all add: rpc_decode_param_binary_def param_bytes_def Let_def nth_append\<close>)

lemma rpc_decode_params_ok:
  assumes "\<forall>v \<in> set vs. value_ok fb ob v" and "length (pre @ concat (map (param_bytes fb) vs)) < 2 ^ 31"
  shows "rpc_decode_params ob (pre @ concat (map (param_bytes fb) vs)) (length vs) (length pre) = Some (map decoded_value vs)"
  using assms
proof (induction vs arbitrary: pre)
  case (Cons v vs)
  have "rpc_decode_param_binary ob (pre @ param_bytes fb v @ concat (map (param_bytes fb) vs)) (length pre) V_NULL =
      Some (0, length pre + length (param_bytes fb v), decoded_value v)"
    using Cons.prems by (intro rpc_decode_param_ok) auto
  then show ?case using Cons.IH [of "pre @ param_bytes fb v"] Cons.prems by simp
qed simp

text \<open>
  C37. A message of at most sixteen values that fit the format, with an encoding of less than 2^31 bytes, is read back from its binary
  encoding: the encoder returns, and the decoder finds the kind of the message and every parameter, arrays in a block of full
  size. A request that is marked as an error comes back as an error. The bits of floating-point values are those of the given conversions.
\<close>

theorem rpc_binary_round_trip:
  assumes "\<forall>v \<in> set (msg_params msg). value_ok fb ob v" and "length (msg_params msg) \<le> RPC_MAX_PARAMS"
    and "length (message_bytes fb msg) < 2 ^ 31" and "0 < buf_capacity out"
  shows "\<exists>out' msg'. rpc_encode_binary fb msg out = Some (0, out') \<and> rpc_decode_binary ob out' = Some (0, msg') \<and>
    msg_params msg' = map decoded_value (msg_params msg) \<and> msg_is_error msg' = msg_is_error msg \<and>
    msg_is_request msg' = (msg_is_request msg \<and> \<not> msg_is_error msg)"
proof -
  obtain c where enc: "rpc_encode_binary fb msg out = Some (0, \<lparr>buf_data = message_bytes fb msg, buf_capacity = c\<rparr>)"
    using rpc_encode_binary_ok [OF assms(1,4)] by blast
  let ?body = "concat (map (param_bytes fb) (msg_params msg))"
  define pre where "pre = [if msg_is_error msg then 3 else if msg_is_request msg then 1 else 2 :: byte] @ write_i32be (of_nat (5 + length ?body)) @
    write_i32be (rpc_fnv1a_hash (msg_method msg)) @ [of_nat (length (msg_params msg))]"
  have data: "message_bytes fb msg = pre @ ?body" by (simp add: message_bytes_def pre_def Let_def)
  have pre: "length pre = 10" "pre ! 0 = (if msg_is_error msg then 3 else if msg_is_request msg then 1 else 2)"
    "pre ! 9 = of_nat (length (msg_params msg))"
    by (simp_all add: pre_def nth_append)
  have "unat (of_nat (length (msg_params msg)) :: byte) = length (msg_params msg)"
    using assms(2) by (intro unat_of_nat_small) simp
  moreover have "rpc_decode_params ob (pre @ ?body) (length (msg_params msg)) 10 = Some (map decoded_value (msg_params msg))"
    using rpc_decode_params_ok [OF assms(1), of pre] assms(3) pre(1) data by simp
  ultimately have "rpc_decode_binary ob \<lparr>buf_data = message_bytes fb msg, buf_capacity = c\<rparr> =
      Some (0, rpc_message_init\<lparr>msg_is_request := msg_is_request msg \<and> \<not> msg_is_error msg, msg_is_error := msg_is_error msg,
        msg_params := map decoded_value (msg_params msg)\<rparr>)"
    using assms(2) pre by (simp add: rpc_decode_binary_def data Let_def nth_append min_def)
  then show ?thesis using enc by auto
qed

text \<open>The theorem at a call with a number, a flag, a string and an array; floats are represented by their bits.\<close>

theorem rpc_binary_round_trip_witness:
  "\<exists>out' msg'. rpc_encode_binary id (rpc_message_init\<lparr>msg_method := [97, 100, 100],
       msg_params := [V_INT32 7, V_BOOL True, V_STRING [104, 105], V_ARRAY 0 2 [1, 2], V_FLOAT 5]\<rparr>) \<lparr>buf_data = [], buf_capacity = 16\<rparr> =
       Some (0, out') \<and> rpc_decode_binary id out' = Some (0, msg') \<and>
     msg_params msg' = [V_INT32 7, V_BOOL True, V_STRING [104, 105], V_ARRAY 0 2 ([1, 2] @ replicate 62 0), V_FLOAT 5] \<and>
     \<not> msg_is_error msg' \<and> msg_is_request msg'"
  using rpc_binary_round_trip [of "rpc_message_init\<lparr>msg_method := [97, 100, 100],
       msg_params := [V_INT32 7, V_BOOL True, V_STRING [104, 105], V_ARRAY 0 2 [1, 2], V_FLOAT 5]\<rparr>" id id "\<lparr>buf_data = [], buf_capacity = 16\<rparr>"]
  by (simp add: rpc_message_init_def message_bytes_def param_bytes_def Let_def)

section \<open>What the binary form loses and does not check\<close>

text \<open>
  Neither the name of the method nor the identifier of the call is in the binary form: whatever they were, the decoder leaves
  its initial values.
\<close>

lemma rpc_decode_params_header: "rpc_decode_binary ob inb = Some (r, msg) \<Longrightarrow> msg_id msg = 0 \<and> msg_method msg = []"
  by (auto simp: rpc_decode_binary_def rpc_message_init_def Let_def bind_eq_Some_conv split: if_splits)

lemma rpc_binary_forgets_call:
  assumes "rpc_encode_binary fb msg out = Some (r, out')" and "rpc_decode_binary ob out' = Some (r', msg')"
  shows "msg_id msg' = 0 \<and> msg_method msg' = []"
  using rpc_decode_params_header [OF assms(2)] .

text \<open>A boolean at the end of the input is read one byte past it.\<close>

lemma rpc_decode_bool_overread: "rpc_decode_param_binary ob (pre @ [RPC_TYPE_BOOL]) (length pre) v = None"
  by (simp add: rpc_decode_param_binary_def Let_def nth_append)

text \<open>A negative string length passes the bounds check and reaches \<open>memcpy\<close> as a size.\<close>

lemma rpc_decode_negative_string:
  assumes "sint n < 0" and "length (pre @ RPC_TYPE_STRING # write_i32be n @ post) < 2 ^ 31"
  shows "rpc_decode_param_binary ob (pre @ RPC_TYPE_STRING # write_i32be n @ post) (length pre) v = None"
  using assms by (simp add: rpc_decode_param_binary_def Let_def nth_append)

text \<open>An announced array length above the limit is kept, so encoding the decoded value again reads outside of its block.\<close>

lemma rpc_decoded_array_too_long:
  assumes "sint n > int RPC_MAX_ARRAY_LEN" and "length xs = RPC_MAX_ARRAY_LEN" and "0 < buf_capacity out"
  shows "\<exists>pos w. rpc_decode_param_binary ob (pre @ RPC_TYPE_ARRAY # write_i32be n @ 0 # concat (map write_i32be xs)) (length pre) v =
      Some (0, pos, w) \<and> rpc_encode_param_binary fb out w = None"
proof -
  have "rpc_read_array (length xs) (pre @ RPC_TYPE_ARRAY # write_i32be n @ 0 # concat (map write_i32be xs)) (6 + length pre) =
      (xs, 6 + length pre + 4 * length xs)"
    using rpc_read_array_ok [of xs "pre @ [RPC_TYPE_ARRAY] @ write_i32be n @ [0]" "[]"] by (simp add: add.commute)
  then have "rpc_decode_param_binary ob (pre @ RPC_TYPE_ARRAY # write_i32be n @ 0 # concat (map write_i32be xs)) (length pre) v =
      Some (0, 6 + length pre + 4 * length xs, V_ARRAY 0 n xs)"
    using assms by (simp add: rpc_decode_param_binary_def Let_def nth_append min_def)
  moreover have "rpc_encode_param_binary fb out (V_ARRAY 0 n xs) = None"
    using assms(1,2) by (cases "rpc_buffer_append out [RPC_TYPE_ARRAY]") (auto simp: rpc_encode_param_binary_def bind_eq_None_conv)
  ultimately show ?thesis by blast
qed

end
