(* ===== verification/LoadBalancer.thy ===== *)
theory LoadBalancer
  imports Net_Prelude
begin

unbundle bit_operations_syntax

text \<open>
  The balancer of \<open>mini-gateway-proxy/src/load_balancer.c\<close>: a table of at most 32 servers, round robin, smooth weighted
  round robin, least connections, consistent hashing and random choice. Its functions print progress, which is left out.
  A selection returns the index of a server or \<open>-1\<close> with the balancer after it; \<open>rand()\<close> is an argument. The rotation
  counter is a natural number; in the source its overflow after \<open>2 ^ 31\<close> selections is undefined.
\<close>

section \<open>Data\<close>

abbreviation LB_MAX_SERVERS :: nat where "LB_MAX_SERVERS \<equiv> 32"
abbreviation LB_VIRTUAL_NODES :: nat where "LB_VIRTUAL_NODES \<equiv> 150"
abbreviation LB_ADDR_SIZE :: nat where "LB_ADDR_SIZE \<equiv> 256"

datatype lb_algorithm = LB_ROUND_ROBIN | LB_WEIGHTED_ROUND_ROBIN | LB_LEAST_CONNECTIONS | LB_CONSISTENT_HASH | LB_RANDOM

record lb_server =
  sv_address :: string
  sv_port :: int
  sv_weight :: int
  sv_effective_weight :: int
  sv_current_weight :: int
  sv_active :: int
  sv_healthy :: bool

record lb_virtual_node =
  rn_hash :: "32 word"
  rn_server :: nat

record load_balancer =
  lb_servers :: "lb_server list"
  lb_algo :: lb_algorithm
  lb_rr_index :: nat
  lb_ring :: "lb_virtual_node list"

section \<open>Servers and the ring\<close>

definition lb_init :: "lb_algorithm \<Rightarrow> load_balancer" where
  "lb_init algo = \<lparr>lb_servers = [], lb_algo = algo, lb_rr_index = 0, lb_ring = []\<rparr>"

definition lb_hash_key :: "string \<Rightarrow> 32 word" where
  "lb_hash_key key = fold (\<lambda>c hash. (hash XOR of_char c) * 16777619) key 2166136261"

fun lb_ring_insert :: "('v \<Rightarrow> 32 word) \<Rightarrow> 'v \<Rightarrow> 'v list \<Rightarrow> 'v list" where
  "lb_ring_insert h x [] = [x]"
| "lb_ring_insert h x (y # ys) = (if h y < h x then y # lb_ring_insert h x ys else x # y # ys)"

definition lb_vnode_hash :: "string \<Rightarrow> nat \<Rightarrow> 32 word" where
  "lb_vnode_hash address v = lb_hash_key (strncpy_z 320 (address @ ''#'' @ nat_string v))"

definition lb_build_ring :: "load_balancer \<Rightarrow> load_balancer" where
  "lb_build_ring lb = lb\<lparr>lb_ring :=
     fold (\<lambda>i. fold (\<lambda>v. lb_ring_insert rn_hash
         \<lparr>rn_hash = lb_vnode_hash (sv_address (lb_servers lb ! i)) v, rn_server = i\<rparr>) [0..<LB_VIRTUAL_NODES])
       [0..<length (lb_servers lb)] []\<rparr>"

definition lb_full_address :: "string \<Rightarrow> int \<Rightarrow> string" where
  "lb_full_address addr port = strncpy_z LB_ADDR_SIZE (addr @ '':'' @ int_string port)"

definition lb_add_server :: "load_balancer \<Rightarrow> string \<Rightarrow> int \<Rightarrow> int \<Rightarrow> int \<times> load_balancer" where
  "lb_add_server lb addr port weight =
     (if length (lb_servers lb) \<ge> LB_MAX_SERVERS then (-1, lb)
      else let weight = (if weight \<le> 0 then 1 else weight);
               s = \<lparr>sv_address = lb_full_address addr port, sv_port = port, sv_weight = weight,
                 sv_effective_weight = weight, sv_current_weight = 0, sv_active = 0, sv_healthy = True\<rparr>;
               lb = lb\<lparr>lb_servers := lb_servers lb @ [s]\<rparr>;
               lb = (if lb_algo lb = LB_CONSISTENT_HASH then lb_build_ring lb else lb) in
      (int (length (lb_servers lb)) - 1, lb))"

definition lb_remove_server :: "load_balancer \<Rightarrow> string \<Rightarrow> int \<Rightarrow> int \<times> load_balancer" where
  "lb_remove_server lb addr port =
     (case find_index (\<lambda>s. sv_address s = lb_full_address addr port) (lb_servers lb) of
        None \<Rightarrow> (-1, lb)
      | Some i \<Rightarrow>
          (let lb = lb\<lparr>lb_servers := remove_at i (lb_servers lb)\<rparr> in
           (0, if lb_algo lb = LB_CONSISTENT_HASH then lb_build_ring lb else lb)))"

section \<open>Selection\<close>

fun lb_rr_loop :: "nat \<Rightarrow> load_balancer \<Rightarrow> int \<times> load_balancer" where
  "lb_rr_loop 0 lb = (-1, lb)"
| "lb_rr_loop (Suc tries) lb =
     (let idx = lb_rr_index lb mod length (lb_servers lb);
          lb = lb\<lparr>lb_rr_index := lb_rr_index lb + 1\<rparr> in
      if sv_healthy (lb_servers lb ! idx) then (int idx, lb) else lb_rr_loop tries lb)"

definition lb_select_round_robin :: "load_balancer \<Rightarrow> int \<times> load_balancer" where
  "lb_select_round_robin lb = lb_rr_loop (length (lb_servers lb)) lb"

definition lb_swrr_step :: "nat \<Rightarrow> lb_server list \<times> int \<times> nat option \<times> int \<Rightarrow> lb_server list \<times> int \<times> nat option \<times> int" where
  "lb_swrr_step i st = (case st of (ss, total_weight, best_idx, best_weight) \<Rightarrow>
     if \<not> sv_healthy (ss ! i) then (ss, total_weight, best_idx, best_weight)
     else let s = (ss ! i)\<lparr>sv_current_weight := sv_current_weight (ss ! i) + sv_effective_weight (ss ! i)\<rparr>;
              ss = ss[i := s]; total_weight = total_weight + sv_effective_weight s in
     if best_idx = None \<or> sv_current_weight s > best_weight then (ss, total_weight, Some i, sv_current_weight s)
     else (ss, total_weight, best_idx, best_weight))"

definition lb_select_weighted_rr :: "load_balancer \<Rightarrow> int \<times> load_balancer" where
  "lb_select_weighted_rr lb =
     (case fold lb_swrr_step [0..<length (lb_servers lb)] (lb_servers lb, 0, None, -1) of
        (ss, total_weight, None, best_weight) \<Rightarrow> (-1, lb\<lparr>lb_servers := ss\<rparr>)
      | (ss, total_weight, Some b, best_weight) \<Rightarrow>
          (int b, lb\<lparr>lb_servers := ss[b := (ss ! b)\<lparr>sv_current_weight := sv_current_weight (ss ! b) - total_weight\<rparr>]\<rparr>))"

definition lb_least_step :: "lb_server list \<Rightarrow> nat \<Rightarrow> nat option \<times> int \<Rightarrow> nat option \<times> int" where
  "lb_least_step ss i st = (case st of (best_idx, min_conn) \<Rightarrow>
     if \<not> sv_healthy (ss ! i) then st
     else if best_idx = None \<or> sv_active (ss ! i) < min_conn then (Some i, sv_active (ss ! i)) else st)"

definition lb_select_least_conn :: "load_balancer \<Rightarrow> int" where
  "lb_select_least_conn lb =
     (case fst (fold (lb_least_step (lb_servers lb)) [0..<length (lb_servers lb)] (None, -1)) of
        None \<Rightarrow> -1 | Some i \<Rightarrow> int i)"

function lb_ring_search :: "lb_virtual_node list \<Rightarrow> 32 word \<Rightarrow> int \<Rightarrow> int \<Rightarrow> int \<Rightarrow> int \<times> int" where
  "lb_ring_search ring h lo hi idx =
     (if lo \<le> hi then
        let mid = lo + (hi - lo) div 2 in
        if rn_hash (ring ! nat mid) \<ge> h then lb_ring_search ring h lo (mid - 1) mid
        else lb_ring_search ring h (mid + 1) hi idx
      else (lo, idx))"
  by pat_completeness auto
termination
  by (relation "measure (\<lambda>(ring, h, lo, hi, idx). nat (hi - lo + 1))") auto

declare lb_ring_search.simps [simp del]

definition lb_select_consistent_hash :: "load_balancer \<Rightarrow> string option \<Rightarrow> int \<times> load_balancer" where
  "lb_select_consistent_hash lb key =
     (case key of
        None \<Rightarrow> lb_select_round_robin lb
      | Some key \<Rightarrow>
          if lb_ring lb = [] then lb_select_round_robin lb
          else let h = lb_hash_key key;
                   (lo, idx) = lb_ring_search (lb_ring lb) h 0 (int (length (lb_ring lb)) - 1) 0;
                   idx = (if lo \<ge> int (length (lb_ring lb)) then 0 else idx) in
          (int (rn_server (lb_ring lb ! nat idx)), lb))"

definition lb_select_random :: "load_balancer \<Rightarrow> nat \<Rightarrow> int" where
  "lb_select_random lb rand =
     (let healthy_indices = filter (\<lambda>i. sv_healthy (lb_servers lb ! i)) [0..<length (lb_servers lb)] in
      if healthy_indices = [] then -1 else int (healthy_indices ! (rand mod length healthy_indices)))"

definition lb_select_server :: "load_balancer \<Rightarrow> string option \<Rightarrow> nat \<Rightarrow> int \<times> load_balancer" where
  "lb_select_server lb key rand =
     (if lb_servers lb = [] then (-1, lb)
      else case lb_algo lb of
        LB_ROUND_ROBIN \<Rightarrow> lb_select_round_robin lb
      | LB_WEIGHTED_ROUND_ROBIN \<Rightarrow> lb_select_weighted_rr lb
      | LB_LEAST_CONNECTIONS \<Rightarrow> (lb_select_least_conn lb, lb)
      | LB_CONSISTENT_HASH \<Rightarrow> lb_select_consistent_hash lb (Some (case key of Some k \<Rightarrow> k | None \<Rightarrow> ''default''))
      | LB_RANDOM \<Rightarrow> (lb_select_random lb rand, lb))"

section \<open>Health\<close>

definition lb_health_ping :: "load_balancer \<Rightarrow> int \<Rightarrow> bool \<Rightarrow> load_balancer" where
  "lb_health_ping lb index alive =
     (if index < 0 \<or> index \<ge> int (length (lb_servers lb)) then lb
      else let i = nat index; prev = sv_healthy (lb_servers lb ! i);
               lb = lb\<lparr>lb_servers := (lb_servers lb)[i := (lb_servers lb ! i)\<lparr>sv_healthy := alive\<rparr>]\<rparr> in
      if prev \<noteq> alive \<and> lb_algo lb = LB_CONSISTENT_HASH then lb_build_ring lb else lb)"

definition lb_check_one :: "nat \<Rightarrow> load_balancer \<Rightarrow> load_balancer" where
  "lb_check_one i lb =
     (let s = lb_servers lb ! i; was_healthy = sv_healthy s; healthy = sv_active s < 100;
          s = s\<lparr>sv_healthy := healthy\<rparr>;
          s = (if was_healthy \<and> \<not> healthy then s\<lparr>sv_current_weight := 0\<rparr> else s);
          s' = (if \<not> was_healthy \<and> healthy then s\<lparr>sv_effective_weight := sv_weight s\<rparr> else s);
          lb = lb\<lparr>lb_servers := (lb_servers lb)[i := s']\<rparr> in
      if was_healthy \<and> \<not> healthy \<and> lb_algo lb = LB_CONSISTENT_HASH then lb_build_ring lb else lb)"

definition lb_health_check :: "load_balancer \<Rightarrow> load_balancer" where
  "lb_health_check lb = fold lb_check_one [0..<length (lb_servers lb)] lb"

section \<open>Smooth scheduling\<close>

text \<open>
  A scheduler that adds to each candidate its weight, takes a candidate of greatest credit and charges it the total. In one
  cycle, as many selections as the total weight, every candidate is taken exactly as often as its weight says.
\<close>

primrec picks :: "('s \<Rightarrow> 'a \<times> 's) \<Rightarrow> nat \<Rightarrow> 's \<Rightarrow> 'a list \<times> 's" where
  "picks f 0 s = ([], s)"
| "picks f (Suc k) s = (case f s of (b, s') \<Rightarrow> case picks f k s' of (bs, t) \<Rightarrow> (b # bs, t))"

locale smooth_scheduler =
  fixes pick :: "'s \<Rightarrow> nat \<times> 's" and ok :: "'s \<Rightarrow> bool" and credit :: "'s \<Rightarrow> nat \<Rightarrow> int" and w :: "nat \<Rightarrow> int" and n :: nat
  assumes positive: "ok s \<Longrightarrow> i < n \<Longrightarrow> 0 < w i"
    and pick_ok: "ok s \<Longrightarrow> pick s = (b, s') \<Longrightarrow> b < n \<and> ok s'"
    and pick_credit: "ok s \<Longrightarrow> pick s = (b, s') \<Longrightarrow> i < n \<Longrightarrow>
      credit s' i = credit s i + w i - (if i = b then sum w {..<n} else 0)"
    and pick_max: "ok s \<Longrightarrow> pick s = (b, s') \<Longrightarrow> i < n \<Longrightarrow> credit s i + w i \<le> credit s b + w b"
begin

definition balanced :: "'s \<Rightarrow> bool" where
  "balanced s \<longleftrightarrow> ok s \<and> sum (credit s) {..<n} = 0 \<and> (\<forall>i < n. - sum w {..<n} < credit s i)"

lemma pick_balanced:
  assumes "balanced s" and "pick s = (b, s')"
  shows "balanced s'"
proof -
  let ?W = "sum w {..<n}"
  have ok: "ok s" and sum: "sum (credit s) {..<n} = 0" and low: "\<And>i. i < n \<Longrightarrow> - ?W < credit s i"
    using assms(1) by (auto simp: balanced_def)
  have b: "b < n" "ok s'" using pick_ok [OF ok assms(2)] by auto
  have W: "0 < ?W" using b(1) positive [OF ok] by (intro sum_pos) auto
  have "sum (credit s') {..<n} = (\<Sum>i<n. (credit s i + w i) - (if i = b then ?W else 0))"
    by (rule sum.cong) (use pick_credit [OF ok assms(2)] in auto)
  also have "\<dots> = (\<Sum>i<n. credit s i + w i) - (\<Sum>i<n. if i = b then ?W else 0)" by (rule sum_subtractf)
  also have "\<dots> = 0" using sum b(1) by (simp add: sum.distrib sum.delta')
  finally have zero: "sum (credit s') {..<n} = 0" .
  have top: "0 < credit s b + w b"
  proof (rule ccontr)
    assume "\<not> 0 < credit s b + w b"
    then have "credit s i + w i \<le> 0" if "i < n" for i using pick_max [OF ok assms(2) that] by simp
    then have "(\<Sum>i<n. credit s i + w i) \<le> 0" by (intro sum_nonpos) auto
    then show False using sum W by (simp add: sum.distrib)
  qed
  have "- ?W < credit s' i" if "i < n" for i
    using pick_credit [OF ok assms(2) that] positive [OF ok that] low [OF that] top by (cases "i = b") auto
  then show ?thesis using b(2) zero by (simp add: balanced_def)
qed

lemma picks_credit:
  assumes "balanced s" and "picks pick k s = (bs, t)"
  shows "balanced t" and "set bs \<subseteq> {..<n}" and "length bs = k"
    and "\<And>i. i < n \<Longrightarrow> credit t i = credit s i + int k * w i - sum w {..<n} * int (count_list bs i)"
proof -
  have "balanced t \<and> set bs \<subseteq> {..<n} \<and> length bs = k \<and>
      (\<forall>i < n. credit t i = credit s i + int k * w i - sum w {..<n} * int (count_list bs i))"
    using assms
  proof (induction k arbitrary: s bs)
    case (Suc k)
    obtain b s' cs where step: "pick s = (b, s')" "picks pick k s' = (cs, t)" "bs = b # cs"
      using Suc.prems(2) by (auto split: prod.splits)
    have ok: "ok s" using Suc.prems(1) by (simp add: balanced_def)
    have IH: "balanced t" "set cs \<subseteq> {..<n}" "length cs = k"
      "\<And>i. i < n \<Longrightarrow> credit t i = credit s' i + int k * w i - sum w {..<n} * int (count_list cs i)"
      using Suc.IH [OF pick_balanced [OF Suc.prems(1) step(1)] step(2)] by auto
    have "credit t i = credit s i + int (Suc k) * w i - sum w {..<n} * int (count_list bs i)" if "i < n" for i
      using IH(4) [OF that] pick_credit [OF ok step(1) that] unfolding step(3) by (cases "i = b") (simp_all add: algebra_simps)
    then show ?case using IH(1-3) pick_ok [OF ok step(1)] step(3) by auto
  qed simp
  then show "balanced t" and "set bs \<subseteq> {..<n}" and "length bs = k"
    and "\<And>i. i < n \<Longrightarrow> credit t i = credit s i + int k * w i - sum w {..<n} * int (count_list bs i)"
    by auto
qed

lemma cycle_fair:
  assumes "ok s" and "0 < n" and "\<And>i. i < n \<Longrightarrow> credit s i = 0" and "picks pick (nat (sum w {..<n})) s = (bs, t)"
  shows "ok t" and "\<And>i. i < n \<Longrightarrow> int (count_list bs i) = w i" and "\<And>i. i < n \<Longrightarrow> credit t i = 0"
proof -
  let ?W = "sum w {..<n}"
  have W: "0 < ?W" using assms(2) positive [OF assms(1)] by (intro sum_pos) auto
  have "balanced s" using assms(1,3) W by (simp add: balanced_def)
  note run = picks_credit [OF this assms(4)]
  show "ok t" using run(1) by (simp add: balanced_def)
  have final: "credit t i = ?W * (w i - int (count_list bs i))" if "i < n" for i
    using run(4) [OF that] assms(3) [OF that] W by (simp add: algebra_simps)
  have le: "int (count_list bs i) \<le> w i" if "i < n" for i
  proof -
    have "- ?W < ?W * (w i - int (count_list bs i))" using run(1) that unfolding balanced_def final [OF that, symmetric] by blast
    then have "?W * (-1) < ?W * (w i - int (count_list bs i))" by simp
    then have "-1 < w i - int (count_list bs i)" using mult_less_cancel_left_pos [OF W] by blast
    then show ?thesis by simp
  qed
  have "(\<Sum>i<n. int (count_list bs i)) = int (length bs)"
    using sum_count_set [OF run(2)] by (simp add: of_nat_sum [symmetric])
  then have "(\<Sum>i<n. w i - int (count_list bs i)) = 0" using run(3) W by (simp add: sum_subtractf)
  then have "\<forall>i \<in> {..<n}. w i - int (count_list bs i) = 0"
    using le by (subst (asm) sum_nonneg_eq_0_iff) auto
  then show eq: "int (count_list bs i) = w i" if "i < n" for i using that by auto
  show "credit t i = 0" if "i < n" for i using final [OF that] eq [OF that] by simp
qed

end

section \<open>The weighted scan\<close>

definition lb_bump :: "lb_server \<Rightarrow> lb_server" where
  "lb_bump s = (if sv_healthy s then s\<lparr>sv_current_weight := sv_current_weight s + sv_effective_weight s\<rparr> else s)"

lemma lb_swrr_scan:
  assumes "k \<le> length ss" and "fold lb_swrr_step [0..<k] (ss, 0, None, -1) = (ss', tot, best, bw)"
  shows "ss' = map lb_bump (take k ss) @ drop k ss \<and>
    tot = sum_list (map sv_effective_weight (filter sv_healthy (take k ss))) \<and>
    (case best of
       None \<Rightarrow> \<forall>i < k. \<not> sv_healthy (ss ! i)
     | Some b \<Rightarrow> b < k \<and> sv_healthy (ss ! b) \<and> bw = sv_current_weight (lb_bump (ss ! b)) \<and>
         (\<forall>i < k. sv_healthy (ss ! i) \<longrightarrow> sv_current_weight (lb_bump (ss ! i)) \<le> bw))"
  using assms
proof (induction k arbitrary: ss' tot best bw)
  case (Suc k)
  obtain ss1 t1 b1 w1 where fold1: "fold lb_swrr_step [0..<k] (ss, 0, None, -1) = (ss1, t1, b1, w1)"
    by (metis prod_cases4)
  have step: "lb_swrr_step k (ss1, t1, b1, w1) = (ss', tot, best, bw)" using Suc.prems(2) fold1 by simp
  have k: "k < length ss" using Suc.prems(1) by simp
  note IH = Suc.IH [OF _ fold1]
  have ss1: "ss1 = map lb_bump (take k ss) @ drop k ss" and t1: "t1 = sum_list (map sv_effective_weight (filter sv_healthy (take k ss)))"
    using IH k by auto
  have at: "ss1 ! k = ss ! k" "length ss1 = length ss" using k by (simp_all add: ss1 nth_append)
  have upd: "ss1[k := lb_bump (ss ! k)] = map lb_bump (take (Suc k) ss) @ drop (Suc k) ss"
    using k by (simp add: ss1 list_update_append take_Suc_conv_app_nth Cons_nth_drop_Suc [symmetric])
  have keep: "\<not> sv_healthy (ss ! k) \<Longrightarrow> ss1 = map lb_bump (take (Suc k) ss) @ drop (Suc k) ss"
    using k by (simp add: ss1 lb_bump_def take_Suc_conv_app_nth Cons_nth_drop_Suc)
  have IHb: "case b1 of None \<Rightarrow> \<forall>i < k. \<not> sv_healthy (ss ! i)
     | Some b \<Rightarrow> b < k \<and> sv_healthy (ss ! b) \<and> w1 = sv_current_weight (lb_bump (ss ! b)) \<and>
         (\<forall>i < k. sv_healthy (ss ! i) \<longrightarrow> sv_current_weight (lb_bump (ss ! i)) \<le> w1)"
    using IH k by simp
  show ?case
  proof (cases "sv_healthy (ss ! k)")
    case False
    then have same: "ss' = ss1" "tot = t1" "best = b1" "bw = w1" using step at by (auto simp: lb_swrr_step_def)
    show ?thesis using IHb False keep k unfolding same t1
      by (auto simp: take_Suc_conv_app_nth less_Suc_eq split: option.split)
  next
    case True
    let ?c = "sv_current_weight (lb_bump (ss ! k))"
    have new: "ss' = ss1[k := lb_bump (ss ! k)]" "tot = t1 + sv_effective_weight (ss ! k)"
      "(best, bw) = (if b1 = None \<or> w1 < ?c then (Some k, ?c) else (b1, w1))"
      using step True at by (auto simp: lb_swrr_step_def Let_def lb_bump_def split: if_splits)
    have "tot = sum_list (map sv_effective_weight (filter sv_healthy (take (Suc k) ss)))"
      using k True by (simp add: new(2) t1 take_Suc_conv_app_nth)
    moreover have "case best of None \<Rightarrow> \<forall>i < Suc k. \<not> sv_healthy (ss ! i)
     | Some b \<Rightarrow> b < Suc k \<and> sv_healthy (ss ! b) \<and> bw = sv_current_weight (lb_bump (ss ! b)) \<and>
         (\<forall>i < Suc k. sv_healthy (ss ! i) \<longrightarrow> sv_current_weight (lb_bump (ss ! i)) \<le> bw)"
      using new(3) IHb True by (cases b1) (auto simp: less_Suc_eq split: if_splits)
    ultimately show ?thesis using upd new(1) by simp
  qed
qed simp

lemma lb_bump_fields [simp]:
  "sv_healthy (lb_bump s) = sv_healthy s" "sv_effective_weight (lb_bump s) = sv_effective_weight s"
  "(lb_bump s)\<lparr>sv_current_weight := c\<rparr> = s\<lparr>sv_current_weight := c\<rparr>"
  by (simp_all add: lb_bump_def)

lemma lb_weighted_None:
  assumes "\<forall>s \<in> set (lb_servers lb). \<not> sv_healthy s"
  shows "lb_select_weighted_rr lb = (-1, lb)"
proof -
  obtain ss tot best bw where scan: "fold lb_swrr_step [0..<length (lb_servers lb)] (lb_servers lb, 0, None, -1) = (ss, tot, best, bw)"
    by (metis prod_cases4)
  note res = lb_swrr_scan [OF order_refl scan]
  have "map lb_bump (lb_servers lb) = lb_servers lb" using assms by (intro map_idI) (simp add: lb_bump_def)
  moreover have "best = None" using res assms by (auto split: option.splits)
  ultimately show ?thesis using res scan by (simp add: lb_select_weighted_rr_def)
qed

lemma lb_weighted_Some:
  assumes "s \<in> set (lb_servers lb)" and "sv_healthy s"
  obtains b where "b < length (lb_servers lb)" and "sv_healthy (lb_servers lb ! b)"
    and "\<forall>i < length (lb_servers lb). sv_healthy (lb_servers lb ! i) \<longrightarrow>
      sv_current_weight (lb_bump (lb_servers lb ! i)) \<le> sv_current_weight (lb_bump (lb_servers lb ! b))"
    and "lb_select_weighted_rr lb = (int b, lb\<lparr>lb_servers := (map lb_bump (lb_servers lb))
      [b := (lb_servers lb ! b)\<lparr>sv_current_weight := sv_current_weight (lb_bump (lb_servers lb ! b)) -
        sum_list (map sv_effective_weight (filter sv_healthy (lb_servers lb)))\<rparr>]\<rparr>)"
proof -
  obtain ss tot best bw where scan: "fold lb_swrr_step [0..<length (lb_servers lb)] (lb_servers lb, 0, None, -1) = (ss, tot, best, bw)"
    by (metis prod_cases4)
  note res = lb_swrr_scan [OF order_refl scan]
  obtain b where b: "best = Some b" using res assms by (cases best) (auto simp: in_set_conv_nth)
  show ?thesis
    by (rule that [of b]) (use res scan b in \<open>auto simp: lb_select_weighted_rr_def\<close>)
qed

section \<open>Weighted selection is a smooth scheduler\<close>

definition lb_still :: "load_balancer \<Rightarrow> load_balancer" where
  "lb_still lb = lb\<lparr>lb_servers := map (\<lambda>s. s\<lparr>sv_current_weight := 0\<rparr>) (lb_servers lb)\<rparr>"

definition lb_all_up :: "load_balancer \<Rightarrow> bool" where
  "lb_all_up lb \<longleftrightarrow> lb_servers lb \<noteq> [] \<and> (\<forall>s \<in> set (lb_servers lb). sv_healthy s \<and> 0 < sv_effective_weight s)"

definition lb_pick_weighted :: "load_balancer \<Rightarrow> nat \<times> load_balancer" where
  "lb_pick_weighted lb = (case lb_select_weighted_rr lb of (b, lb') \<Rightarrow> (nat b, lb'))"

lemma lb_still_fields:
  assumes "lb_still lb = lb_still lb0"
  shows "length (lb_servers lb) = length (lb_servers lb0)"
    and "i < length (lb_servers lb0) \<Longrightarrow> sv_healthy (lb_servers lb ! i) = sv_healthy (lb_servers lb0 ! i)"
    and "i < length (lb_servers lb0) \<Longrightarrow> sv_effective_weight (lb_servers lb ! i) = sv_effective_weight (lb_servers lb0 ! i)"
    and "lb_all_up lb \<longleftrightarrow> lb_all_up lb0"
proof -
  have m: "map (\<lambda>s. s\<lparr>sv_current_weight := 0\<rparr>) (lb_servers lb) = map (\<lambda>s. s\<lparr>sv_current_weight := 0\<rparr>) (lb_servers lb0)"
    using arg_cong [OF assms, of lb_servers] by (simp add: lb_still_def)
  then show len: "length (lb_servers lb) = length (lb_servers lb0)" by (rule map_eq_imp_length_eq)
  have at: "(lb_servers lb ! i)\<lparr>sv_current_weight := 0\<rparr> = (lb_servers lb0 ! i)\<lparr>sv_current_weight := 0\<rparr>"
    if "i < length (lb_servers lb0)" for i
    using arg_cong [OF m, of "\<lambda>xs. xs ! i"] that len by simp
  show h: "sv_healthy (lb_servers lb ! i) = sv_healthy (lb_servers lb0 ! i)" if "i < length (lb_servers lb0)" for i
    using arg_cong [OF at [OF that], of sv_healthy] by simp
  show e: "sv_effective_weight (lb_servers lb ! i) = sv_effective_weight (lb_servers lb0 ! i)" if "i < length (lb_servers lb0)" for i
    using arg_cong [OF at [OF that], of sv_effective_weight] by simp
  have up: "lb_all_up x \<longleftrightarrow> 0 < length (lb_servers x) \<and>
      (\<forall>i < length (lb_servers x). sv_healthy (lb_servers x ! i) \<and> 0 < sv_effective_weight (lb_servers x ! i))" for x
    by (auto simp: lb_all_up_def all_set_conv_all_nth)
  show "lb_all_up lb \<longleftrightarrow> lb_all_up lb0" unfolding up len using h e by auto
qed

lemma lb_all_up_filter:
  assumes "lb_all_up lb"
  shows "sum_list (map sv_effective_weight (filter sv_healthy (lb_servers lb))) =
    (\<Sum>i<length (lb_servers lb). sv_effective_weight (lb_servers lb ! i))"
proof -
  have "filter sv_healthy (lb_servers lb) = lb_servers lb" using assms by (intro filter_True) (simp add: lb_all_up_def)
  then show ?thesis by (simp add: sum_list_sum_nth atLeast0LessThan)
qed

lemma lb_pick_weighted_up:
  assumes "lb_all_up lb" and "lb_pick_weighted lb = (b, lb')"
  shows "b < length (lb_servers lb)" and "lb_still lb' = lb_still lb"
    and "\<And>i. i < length (lb_servers lb) \<Longrightarrow> sv_current_weight (lb_servers lb' ! i) =
      sv_current_weight (lb_servers lb ! i) + sv_effective_weight (lb_servers lb ! i) -
      (if i = b then \<Sum>i<length (lb_servers lb). sv_effective_weight (lb_servers lb ! i) else 0)"
    and "\<And>i. i < length (lb_servers lb) \<Longrightarrow>
      sv_current_weight (lb_servers lb ! i) + sv_effective_weight (lb_servers lb ! i) \<le>
      sv_current_weight (lb_servers lb ! b) + sv_effective_weight (lb_servers lb ! b)"
proof -
  let ?ss = "lb_servers lb" and ?W = "\<Sum>i<length (lb_servers lb). sv_effective_weight (lb_servers lb ! i)"
  obtain s where s: "s \<in> set ?ss" "sv_healthy s" using assms(1) by (cases ?ss) (auto simp: lb_all_up_def)
  obtain c where c: "c < length ?ss" "\<forall>i < length ?ss. sv_healthy (?ss ! i) \<longrightarrow>
      sv_current_weight (lb_bump (?ss ! i)) \<le> sv_current_weight (lb_bump (?ss ! c))"
    and sel: "lb_select_weighted_rr lb = (int c, lb\<lparr>lb_servers := (map lb_bump ?ss)
      [c := (?ss ! c)\<lparr>sv_current_weight := sv_current_weight (lb_bump (?ss ! c)) - ?W\<rparr>]\<rparr>)"
    using lb_weighted_Some [OF s] lb_all_up_filter [OF assms(1)] by metis
  have up: "sv_healthy (?ss ! i)" if "i < length ?ss" for i using assms(1) that by (simp add: lb_all_up_def)
  have bump: "sv_current_weight (lb_bump (?ss ! i)) = sv_current_weight (?ss ! i) + sv_effective_weight (?ss ! i)"
    if "i < length ?ss" for i using up [OF that] by (simp add: lb_bump_def)
  have b: "b = c" and lb': "lb' = lb\<lparr>lb_servers := (map lb_bump ?ss)
      [c := (?ss ! c)\<lparr>sv_current_weight := sv_current_weight (lb_bump (?ss ! c)) - ?W\<rparr>]\<rparr>"
    using assms(2) sel by (auto simp: lb_pick_weighted_def)
  show "b < length ?ss" using b c(1) by simp
  have "map (\<lambda>s. s\<lparr>sv_current_weight := 0\<rparr>) (lb_servers lb') = map (\<lambda>s. s\<lparr>sv_current_weight := 0\<rparr>) ?ss"
    by (rule nth_equalityI) (use c(1) in \<open>auto simp: lb' nth_list_update\<close>)
  then show "lb_still lb' = lb_still lb" by (simp add: lb_still_def lb')
  show "sv_current_weight (lb_servers lb' ! i) = sv_current_weight (?ss ! i) + sv_effective_weight (?ss ! i) - (if i = b then ?W else 0)"
    if "i < length ?ss" for i using that bump by (simp add: lb' b nth_list_update)
  show "sv_current_weight (?ss ! i) + sv_effective_weight (?ss ! i) \<le> sv_current_weight (?ss ! b) + sv_effective_weight (?ss ! b)"
    if "i < length ?ss" for i using c up that bump b by auto
qed

interpretation swrr: smooth_scheduler lb_pick_weighted "\<lambda>lb. lb_all_up lb0 \<and> lb_still lb = lb_still lb0"
    "\<lambda>lb i. sv_current_weight (lb_servers lb ! i)" "\<lambda>i. sv_effective_weight (lb_servers lb0 ! i)" "length (lb_servers lb0)" for lb0
proof
  fix lb b lb' i
  assume ok: "lb_all_up lb0 \<and> lb_still lb = lb_still lb0"
  note same = lb_still_fields [OF conjunct2 [OF ok]]
  then have up: "lb_all_up lb" using ok by simp
  show "i < length (lb_servers lb0) \<Longrightarrow> 0 < sv_effective_weight (lb_servers lb0 ! i)" using ok by (simp add: lb_all_up_def)
  assume pick: "lb_pick_weighted lb = (b, lb')"
  note after = lb_pick_weighted_up [OF up pick]
  show "b < length (lb_servers lb0) \<and> lb_all_up lb0 \<and> lb_still lb' = lb_still lb0" using after(1,2) ok same(1) by simp
  assume i: "i < length (lb_servers lb0)"
  have W: "(\<Sum>i<length (lb_servers lb). sv_effective_weight (lb_servers lb ! i)) =
      (\<Sum>i<length (lb_servers lb0). sv_effective_weight (lb_servers lb0 ! i))" unfolding same(1) by (rule sum.cong) (simp_all add: same(3))
  show "sv_current_weight (lb_servers lb' ! i) = sv_current_weight (lb_servers lb ! i) + sv_effective_weight (lb_servers lb0 ! i) -
      (if i = b then \<Sum>i<length (lb_servers lb0). sv_effective_weight (lb_servers lb0 ! i) else 0)"
    using after(3) [of i] i same(1,3) W by simp
  show "sv_current_weight (lb_servers lb ! i) + sv_effective_weight (lb_servers lb0 ! i) \<le>
      sv_current_weight (lb_servers lb ! b) + sv_effective_weight (lb_servers lb0 ! b)"
    using after(4) [of i] after(1) i same(1,3) by simp
qed

section \<open>Properties of the schedulers\<close>

text \<open>
  C20. Smooth weighted round robin is exactly fair: with at least one server, every server healthy with a positive weight and no credit
  outstanding, among as many selections as the sum of the weights each server is chosen exactly as often as its weight, and
  after this cycle the balancer is back in the state it started from.
\<close>

theorem lb_swrr_fair:
  assumes "lb_servers lb \<noteq> []"
    and "\<forall>s \<in> set (lb_servers lb). sv_healthy s \<and> 0 < sv_effective_weight s \<and> sv_current_weight s = 0"
  shows "\<exists>bs. picks lb_pick_weighted (nat (\<Sum>i<length (lb_servers lb). sv_effective_weight (lb_servers lb ! i))) lb = (bs, lb) \<and>
    (\<forall>i < length (lb_servers lb). int (count_list bs i) = sv_effective_weight (lb_servers lb ! i))"
proof -
  let ?W = "\<Sum>i<length (lb_servers lb). sv_effective_weight (lb_servers lb ! i)"
  obtain bs t where run: "picks lb_pick_weighted (nat ?W) lb = (bs, t)" by (cases "picks lb_pick_weighted (nat ?W) lb")
  have ok: "lb_all_up lb \<and> lb_still lb = lb_still lb" using assms by (simp add: lb_all_up_def)
  have zero: "sv_current_weight (lb_servers lb ! i) = 0" if "i < length (lb_servers lb)" for i using assms(2) that by simp
  note fair = swrr.cycle_fair [OF ok _ zero run]
  have pos: "0 < length (lb_servers lb)" using assms(1) by simp
  have len: "length (lb_servers t) = length (lb_servers lb)" using fair(1) [OF pos] lb_still_fields(1) by blast
  have "map (\<lambda>s. s\<lparr>sv_current_weight := 0\<rparr>) (lb_servers t) = lb_servers t"
    by (rule map_idI) (use fair(3) [OF pos] len in \<open>auto simp: in_set_conv_nth\<close>)
  moreover have "map (\<lambda>s. s\<lparr>sv_current_weight := 0\<rparr>) (lb_servers lb) = lb_servers lb"
    by (rule map_idI) (use assms(2) in auto)
  ultimately have "lb_still t = t" "lb_still lb = lb" by (simp_all add: lb_still_def)
  then have "t = lb" using fair(1) [OF pos] by simp
  then show ?thesis using run fair(2) [OF pos] by auto
qed

definition lb_two_servers :: load_balancer where
  "lb_two_servers = snd (lb_add_server (snd (lb_add_server (lb_init LB_WEIGHTED_ROUND_ROBIN) ''a'' 80 5)) ''b'' 80 2)"

lemma lb_two_servers_list:
  "lb_servers lb_two_servers =
    [\<lparr>sv_address = lb_full_address ''a'' 80, sv_port = 80, sv_weight = 5, sv_effective_weight = 5, sv_current_weight = 0,
       sv_active = 0, sv_healthy = True\<rparr>,
     \<lparr>sv_address = lb_full_address ''b'' 80, sv_port = 80, sv_weight = 2, sv_effective_weight = 2, sv_current_weight = 0,
       sv_active = 0, sv_healthy = True\<rparr>]"
  by (simp add: lb_two_servers_def lb_add_server_def lb_init_def Let_def)

theorem lb_swrr_fair_witness:
  "\<exists>bs. picks lb_pick_weighted 7 lb_two_servers = (bs, lb_two_servers) \<and> count_list bs 0 = 5 \<and> count_list bs 1 = 2"
proof -
  have "\<exists>bs. picks lb_pick_weighted 7 lb_two_servers = (bs, lb_two_servers) \<and>
      (\<forall>i < length (lb_servers lb_two_servers). int (count_list bs i) = sv_effective_weight (lb_servers lb_two_servers ! i))"
    using lb_swrr_fair [of lb_two_servers] by (simp add: lb_two_servers_list lessThan_Suc eval_nat_numeral)
  then show ?thesis by (force simp: lb_two_servers_list)
qed

lemma lb_rr_loop_healthy:
  assumes "lb_servers lb = ss" and "ss \<noteq> []" and "lb_rr_loop k lb = (r, lb')"
  shows "r = -1 \<and> (\<forall>j < k. \<not> sv_healthy (ss ! ((lb_rr_index lb + j) mod length ss))) \<or>
    (\<exists>i < length ss. r = int i \<and> sv_healthy (ss ! i))"
  using assms
proof (induction k arbitrary: lb)
  case (Suc k)
  let ?i = "lb_rr_index lb mod length ss"
  show ?case
  proof (cases "sv_healthy (ss ! ?i)")
    case True
    have "?i < length ss" using Suc.prems(2) by simp
    then show ?thesis using True Suc.prems(1,3) by (auto simp: Let_def)
  next
    case False
    then have "lb_rr_loop k (lb\<lparr>lb_rr_index := lb_rr_index lb + 1\<rparr>) = (r, lb')" using Suc.prems(1,3) by (simp add: Let_def)
    from Suc.IH [OF _ Suc.prems(2) this] Suc.prems(1) False show ?thesis
      by (auto simp: less_Suc_eq_0_disj)
  qed
qed simp

lemma residues_cover:
  assumes "i < n"
  shows "\<exists>j < n. (a + j) mod n = (i :: nat)"
proof -
  have "(a + (i + n - a mod n) mod n) mod n = i" using assms
    by (metis (no_types, lifting) add.commute add_diff_inverse_nat diff_add_inverse less_imp_le_nat linorder_not_less mod_add_left_eq
        mod_add_right_eq mod_add_self2 mod_less mod_less_divisor nat_le_iff_add order_less_le_trans trans_le_add2 zero_less_iff_neq_zero)
  then show ?thesis using assms by (metis mod_less_divisor not_less_zero zero_less_iff_neq_zero)
qed

lemma lb_least_scan:
  assumes "k \<le> length ss" and "fold (lb_least_step ss) [0..<k] (None, -1) = (best, m)"
  shows "case best of
       None \<Rightarrow> \<forall>i < k. \<not> sv_healthy (ss ! i)
     | Some b \<Rightarrow> b < k \<and> sv_healthy (ss ! b) \<and> m = sv_active (ss ! b) \<and>
         (\<forall>i < k. sv_healthy (ss ! i) \<longrightarrow> sv_active (ss ! b) \<le> sv_active (ss ! i))"
  using assms
proof (induction k arbitrary: best m)
  case (Suc k)
  obtain b1 m1 where fold1: "fold (lb_least_step ss) [0..<k] (None, -1) = (b1, m1)" by fastforce
  have step: "lb_least_step ss k (b1, m1) = (best, m)" using Suc.prems(2) fold1 by simp
  show ?case using step Suc.IH [OF _ fold1] Suc.prems(1)
    by (cases b1) (auto simp: lb_least_step_def less_Suc_eq split: if_splits, fastforce)
qed simp

lemma lb_least_conn_cases:
  "(\<forall>s \<in> set (lb_servers lb). \<not> sv_healthy s) \<and> lb_select_least_conn lb = -1 \<or>
   (\<exists>b < length (lb_servers lb). lb_select_least_conn lb = int b \<and> sv_healthy (lb_servers lb ! b) \<and>
     (\<forall>s \<in> set (lb_servers lb). sv_healthy s \<longrightarrow> sv_active (lb_servers lb ! b) \<le> sv_active s))"
proof -
  obtain best m where scan: "fold (lb_least_step (lb_servers lb)) [0..<length (lb_servers lb)] (None, -1) = (best, m)" by fastforce
  show ?thesis using lb_least_scan [OF order_refl scan] scan
    by (cases best) (auto simp: lb_select_least_conn_def all_set_conv_all_nth)
qed

lemma lb_round_robin_cases:
  assumes "lb_servers lb \<noteq> []" and "lb_select_round_robin lb = (r, lb')"
  shows "(\<forall>s \<in> set (lb_servers lb). \<not> sv_healthy s) \<and> r = -1 \<or> (\<exists>i < length (lb_servers lb). r = int i \<and> sv_healthy (lb_servers lb ! i))"
proof -
  note loop = lb_rr_loop_healthy [OF refl assms(1), of "length (lb_servers lb)" r lb']
  have "\<not> sv_healthy (lb_servers lb ! i)"
    if "\<forall>j < length (lb_servers lb). \<not> sv_healthy (lb_servers lb ! ((lb_rr_index lb + j) mod length (lb_servers lb)))"
      "i < length (lb_servers lb)" for i
    using that residues_cover [OF that(2), of "lb_rr_index lb"] by auto
  then show ?thesis using loop assms(2) by (auto simp: lb_select_round_robin_def all_set_conv_all_nth)
qed

text \<open>Only healthy servers are chosen: with every algorithm except consistent hashing, a selection returns the index
  of a healthy server if there is one, and \<open>-1\<close> exactly if there is none; with least connections no healthy server has
  fewer connections than the one returned.\<close>

theorem lb_select_healthy:
  assumes "lb_algo lb \<noteq> LB_CONSISTENT_HASH" and "lb_select_server lb key rand = (r, lb')"
  shows "(\<forall>s \<in> set (lb_servers lb). \<not> sv_healthy s) \<and> r = -1 \<or>
    (\<exists>i < length (lb_servers lb). r = int i \<and> sv_healthy (lb_servers lb ! i) \<and>
      (lb_algo lb = LB_LEAST_CONNECTIONS \<longrightarrow>
        (\<forall>s \<in> set (lb_servers lb). sv_healthy s \<longrightarrow> sv_active (lb_servers lb ! i) \<le> sv_active s)))"
proof (cases "lb_servers lb = []")
  case True
  then show ?thesis using assms(2) by (simp add: lb_select_server_def)
next
  case False
  let ?up = "filter (\<lambda>i. sv_healthy (lb_servers lb ! i)) [0..<length (lb_servers lb)]"
  show ?thesis
  proof (cases "lb_algo lb")
    case LB_ROUND_ROBIN
    then show ?thesis using lb_round_robin_cases [OF False, of r lb'] assms(2) False by (auto simp: lb_select_server_def)
  next
    case LB_WEIGHTED_ROUND_ROBIN
    then have sel: "lb_select_weighted_rr lb = (r, lb')" using assms(2) False by (simp add: lb_select_server_def)
    show ?thesis
    proof (cases "\<exists>s \<in> set (lb_servers lb). sv_healthy s")
      case True
      then show ?thesis using lb_weighted_Some [of _ lb] sel LB_WEIGHTED_ROUND_ROBIN by (metis fst_conv lb_algorithm.distinct(9))
    qed (use lb_weighted_None [of lb] sel in auto)
  next
    case LB_LEAST_CONNECTIONS
    then show ?thesis using lb_least_conn_cases [of lb] assms(2) False by (auto simp: lb_select_server_def)
  next
    case LB_RANDOM
    then have r: "r = lb_select_random lb rand" using assms(2) False by (auto simp: lb_select_server_def)
    show ?thesis
    proof (cases "?up = []")
      case True
      then have "\<forall>i < length (lb_servers lb). \<not> sv_healthy (lb_servers lb ! i)" by (auto simp: filter_empty_conv)
      then show ?thesis using True r by (auto simp: lb_select_random_def all_set_conv_all_nth)
    next
      case False
      then have "?up ! (rand mod length ?up) \<in> set ?up" by (intro nth_mem) simp
      then show ?thesis using False r LB_RANDOM by (auto simp: lb_select_random_def Let_def)
    qed
  qed (use assms(1) in simp)
qed

theorem lb_select_healthy_witness:
  "\<exists>i < length (lb_servers lb_two_servers). fst (lb_select_server lb_two_servers None 0) = int i \<and> sv_healthy (lb_servers lb_two_servers ! i)"
proof -
  have algo: "lb_algo lb_two_servers = LB_WEIGHTED_ROUND_ROBIN"
    by (simp add: lb_two_servers_def lb_add_server_def lb_init_def Let_def)
  obtain r lb' where "lb_select_server lb_two_servers None 0 = (r, lb')" by fastforce
  moreover have "\<exists>s \<in> set (lb_servers lb_two_servers). sv_healthy s" by (simp add: lb_two_servers_list)
  ultimately show ?thesis using lb_select_healthy [of lb_two_servers None 0 r lb'] algo by auto
qed

section \<open>Consistent hashing\<close>

abbreviation ring_sorted :: "('v \<Rightarrow> 32 word) \<Rightarrow> 'v list \<Rightarrow> bool" where
  "ring_sorted h r \<equiv> sorted (map h r)"

lemma set_lb_ring_insert [simp]: "set (lb_ring_insert h x r) = insert x (set r)"
  by (induction r) auto

lemma lb_ring_insert_sorted: "ring_sorted h r \<Longrightarrow> ring_sorted h (lb_ring_insert h x r)"
  by (induction r) (auto intro: less_imp_le order_trans)

lemma fold_ring_insert_sorted: "ring_sorted h r \<Longrightarrow> ring_sorted h (fold (lb_ring_insert h) xs r)"
  by (induction xs arbitrary: r) (simp_all add: lb_ring_insert_sorted)

lemma lb_ring_insert_map: "lb_ring_insert h (f x) (map f r) = map f (lb_ring_insert (\<lambda>y. h (f y)) x r)"
  by (induction r) auto

lemma fold_ring_insert_map: "fold (lb_ring_insert h) (map f xs) (map f r) = map f (fold (lb_ring_insert (\<lambda>y. h (f y))) xs r)"
  by (induction xs arbitrary: r) (simp_all add: lb_ring_insert_map)

lemma lb_ring_insert_filter:
  "ring_sorted h r \<Longrightarrow> filter P (lb_ring_insert h x r) = (if P x then lb_ring_insert h x (filter P r) else filter P r)"
proof (induction r)
  case (Cons y r)
  have front: "lb_ring_insert h x zs = x # zs" if "\<forall>z \<in> set zs. \<not> h z < h x" for zs
    using that by (cases zs) auto
  show ?case
  proof (cases "h y < h x")
    case True
    then show ?thesis using Cons by auto
  next
    case False
    then have "\<forall>z \<in> set (filter P (y # r)). \<not> h z < h x" 
      using Cons.prems by (auto simp: not_less intro: order_trans)
    from front [OF this] show ?thesis using False by simp
  qed
qed simp

lemma fold_ring_insert_filter:
  "ring_sorted h r \<Longrightarrow> filter P (fold (lb_ring_insert h) xs r) = fold (lb_ring_insert h) (filter P xs) (filter P r)"
  by (induction xs arbitrary: r) (simp_all add: lb_ring_insert_sorted lb_ring_insert_filter)

text \<open>The entry that owns a hash: the first one at or after it, or else the first of the ring.\<close>

definition ring_successor :: "('v \<Rightarrow> 32 word) \<Rightarrow> 'v list \<Rightarrow> 32 word \<Rightarrow> nat" where
  "ring_successor h r x = (case find_index (\<lambda>v. x \<le> h v) r of Some i \<Rightarrow> i | None \<Rightarrow> 0)"

lemma lb_ring_search_spec:
  assumes "ring_sorted rn_hash ring" and "0 \<le> lo" and "lo \<le> hi + 1" and "hi < int (length ring)"
    and "\<forall>i. int i < lo \<longrightarrow> rn_hash (ring ! i) < h"
    and "\<forall>i < length ring. hi < int i \<longrightarrow> h \<le> rn_hash (ring ! i)"
    and "hi + 1 < int (length ring) \<Longrightarrow> idx = hi + 1"
    and "lb_ring_search ring h lo hi idx = (lo', idx')"
  shows "if lo' \<ge> int (length ring) then \<forall>i < length ring. rn_hash (ring ! i) < h
    else idx' = lo' \<and> 0 \<le> idx' \<and> h \<le> rn_hash (ring ! nat idx') \<and> (\<forall>i. int i < idx' \<longrightarrow> rn_hash (ring ! i) < h)"
  using assms
proof (induction ring h lo hi idx rule: lb_ring_search.induct)
  case (1 ring h lo hi idx)
  let ?mid = "lo + (hi - lo) div 2"
  have mono: "rn_hash (ring ! i) \<le> rn_hash (ring ! j)" if "i \<le> j" "j < length ring" for i j
    using "1.prems"(1) that sorted_nth_mono [of "map rn_hash ring" i j] by simp
  show ?case
  proof (cases "lo \<le> hi")
    case True
    have mid: "lo \<le> ?mid" "?mid \<le> hi" using True by auto
    show ?thesis
    proof (cases "h \<le> rn_hash (ring ! nat ?mid)")
      case le: True
      have run: "lb_ring_search ring h lo (?mid - 1) ?mid = (lo', idx')"
        using "1.prems"(8) True le by (subst (asm) lb_ring_search.simps) (simp add: Let_def)
      have above: "h \<le> rn_hash (ring ! i)" if "i < length ring" "?mid - 1 < int i" for i
      proof -
        have "nat ?mid \<le> i" using that(2) by linarith
        from le mono [OF this that(1)] show ?thesis by (rule order_trans)
      qed
      show ?thesis
      proof (rule "1.IH"(1) [OF True refl le "1.prems"(1,2) _ _ "1.prems"(5) _ _ run])
        show "lo \<le> ?mid - 1 + 1" "?mid - 1 < int (length ring)" "?mid = ?mid - 1 + 1" using mid "1.prems"(4) by linarith+
        show "\<forall>i < length ring. ?mid - 1 < int i \<longrightarrow> h \<le> rn_hash (ring ! i)" using above by blast
      qed
    next
      case gt: False
      have run: "lb_ring_search ring h (?mid + 1) hi idx = (lo', idx')"
        using "1.prems"(8) True gt by (subst (asm) lb_ring_search.simps) (simp add: Let_def)
      have below: "rn_hash (ring ! i) < h" if "int i < ?mid + 1" for i
      proof -
        have "rn_hash (ring ! i) \<le> rn_hash (ring ! nat ?mid)" using mono [of i "nat ?mid"] that mid "1.prems"(2,4) by linarith
        then show ?thesis using gt by auto
      qed
      show ?thesis
      proof (rule "1.IH"(2) [OF True refl gt "1.prems"(1) _ _ "1.prems"(4) _ "1.prems"(6,7) run])
        show "0 \<le> ?mid + 1" "?mid + 1 \<le> hi + 1" using mid "1.prems"(2) by linarith+
        show "\<forall>i. int i < ?mid + 1 \<longrightarrow> rn_hash (ring ! i) < h" using below by blast
      qed
    qed
  next
    case False
    then have "lo' = lo" "idx' = idx" "lo = hi + 1" using "1.prems"(3,8) by (auto simp: lb_ring_search.simps)
    then show ?thesis using "1.prems" by (auto simp: nat_less_iff)
  qed
qed

lemma lb_ring_successor_found:
  assumes "ring_sorted rn_hash ring" and "ring \<noteq> []"
    and "lb_ring_search ring h 0 (int (length ring) - 1) 0 = (lo, idx)"
  shows "nat (if lo \<ge> int (length ring) then 0 else idx) = ring_successor rn_hash ring h"
proof -
  have len: "0 < length ring" using assms(2) by simp
  have spec: "if lo \<ge> int (length ring) then \<forall>i < length ring. rn_hash (ring ! i) < h
    else idx = lo \<and> 0 \<le> idx \<and> h \<le> rn_hash (ring ! nat idx) \<and> (\<forall>i. int i < idx \<longrightarrow> rn_hash (ring ! i) < h)"
    by (rule lb_ring_search_spec [OF assms(1) _ _ _ _ _ _ assms(3)]) (use len in auto)
  show ?thesis
  proof (cases "lo \<ge> int (length ring)")
    case True
    then have "find_index (\<lambda>v. h \<le> rn_hash v) ring = None"
      using spec by (auto simp: find_index_None_iff in_set_conv_nth not_le)
    then show ?thesis using True by (simp add: ring_successor_def)
  next
    case False
    have "find_index (\<lambda>v. h \<le> rn_hash v) ring = Some (nat idx)"
      by (rule find_index_SomeI) (use spec False in \<open>auto simp: not_le nat_less_iff\<close>)
    then show ?thesis using False by (simp add: ring_successor_def)
  qed
qed

lemma lb_consistent_hash_select:
  assumes "ring_sorted rn_hash (lb_ring lb)" and "lb_ring lb \<noteq> []"
  shows "lb_select_consistent_hash lb (Some key) =
    (int (rn_server (lb_ring lb ! ring_successor rn_hash (lb_ring lb) (lb_hash_key key))), lb)"
proof -
  obtain lo idx where run: "lb_ring_search (lb_ring lb) (lb_hash_key key) 0 (int (length (lb_ring lb)) - 1) 0 = (lo, idx)"
    by fastforce
  from lb_ring_successor_found [OF assms run] show ?thesis
    using assms(2) by (simp add: lb_select_consistent_hash_def run Let_def)
qed

section \<open>Owners by address\<close>

definition vnode_labels :: "string list \<Rightarrow> (32 word \<times> string) list" where
  "vnode_labels addrs = concat (map (\<lambda>a. map (\<lambda>v. (lb_vnode_hash a v, a)) [0..<LB_VIRTUAL_NODES]) addrs)"

definition label_ring :: "string list \<Rightarrow> (32 word \<times> string) list" where
  "label_ring addrs = fold (lb_ring_insert fst) (vnode_labels addrs) []"

definition ring_owner :: "(32 word \<times> 'n) list \<Rightarrow> 32 word \<Rightarrow> 'n option" where
  "ring_owner r x = (case find (\<lambda>e. x \<le> fst e) r of
     Some e \<Rightarrow> Some (snd e) | None \<Rightarrow> (case r of [] \<Rightarrow> None | e # _ \<Rightarrow> Some (snd e)))"

lemma fold_nested: "fold (\<lambda>i. fold (\<lambda>v. f (g i v)) vs) is r = fold f (concat (map (\<lambda>i. map (g i) vs) is)) r"
  by (induction "is" arbitrary: r) (simp_all add: fold_map comp_def)

lemma lb_build_ring_labels:
  "map (\<lambda>v. (rn_hash v, sv_address (lb_servers lb ! rn_server v))) (lb_ring (lb_build_ring lb)) =
     label_ring (map sv_address (lb_servers lb))"
    and lb_build_ring_sorted: "ring_sorted rn_hash (lb_ring (lb_build_ring lb))"
proof -
  let ?e = "\<lambda>i v. \<lparr>rn_hash = lb_vnode_hash (sv_address (lb_servers lb ! i)) v, rn_server = i\<rparr>"
  let ?es = "concat (map (\<lambda>i. map (?e i) [0..<LB_VIRTUAL_NODES]) [0..<length (lb_servers lb)])"
  let ?l = "\<lambda>v. (rn_hash v, sv_address (lb_servers lb ! rn_server v))"
  have ring: "lb_ring (lb_build_ring lb) = fold (lb_ring_insert rn_hash) ?es []"
    using fold_nested [of "lb_ring_insert rn_hash" ?e "[0..<LB_VIRTUAL_NODES]" "[0..<length (lb_servers lb)]" "[]"]
    by (simp add: lb_build_ring_def)
  show "ring_sorted rn_hash (lb_ring (lb_build_ring lb))" unfolding ring by (rule fold_ring_insert_sorted) simp
  have "map ?l ?es = concat (map (\<lambda>i. map (\<lambda>v. (lb_vnode_hash (sv_address (lb_servers lb ! i)) v, sv_address (lb_servers lb ! i)))
      [0..<LB_VIRTUAL_NODES]) [0..<length (lb_servers lb)])"
    by (simp add: map_concat comp_def)
  also have "\<dots> = vnode_labels (map (\<lambda>i. sv_address (lb_servers lb ! i)) [0..<length (lb_servers lb)])"
    by (simp add: vnode_labels_def comp_def)
  also have "map (\<lambda>i. sv_address (lb_servers lb ! i)) [0..<length (lb_servers lb)] = map sv_address (lb_servers lb)"
    by (rule nth_equalityI) simp_all
  finally have "map ?l ?es = vnode_labels (map sv_address (lb_servers lb))" .
  then show "map ?l (lb_ring (lb_build_ring lb)) = label_ring (map sv_address (lb_servers lb))"
    using fold_ring_insert_map [of fst ?l ?es "[]"] by (simp add: ring label_ring_def)
qed

lemma find_conv_index: "find P xs = map_option ((!) xs) (find_index P xs)"
  by (induction xs) (simp_all add: option.map_comp comp_def)

lemma ring_owner_successor:
  assumes "r \<noteq> []"
  shows "ring_owner (map (\<lambda>v. (h v, l v)) r) x = Some (l (r ! ring_successor h r x))"
proof -
  have "find_index (\<lambda>e. x \<le> fst e) (map (\<lambda>v. (h v, l v)) r) = find_index (\<lambda>v. x \<le> h v) r" by (induction r) simp_all
  moreover have "i < length r" if "find_index (\<lambda>v. x \<le> h v) r = Some i" for i using find_index_SomeD(1) [OF that] .
  ultimately show ?thesis
    using assms by (cases r) (auto simp: ring_owner_def find_conv_index ring_successor_def split: option.splits)
qed

lemma ring_owner_insert: "ring_owner (lb_ring_insert fst e r) x \<in> {ring_owner r x, Some (snd e)}"
proof -
  have found: "find P (lb_ring_insert fst e r) = Some y \<Longrightarrow> y = e \<or> find P r = Some y" for P y
    by (induction r) (auto split: if_splits)
  have none: "find P (lb_ring_insert fst e r) = None \<Longrightarrow> find P r = None" for P by (auto simp: find_None_iff)
  have front: "hd (lb_ring_insert fst e r) = e \<or> r \<noteq> [] \<and> hd (lb_ring_insert fst e r) = hd r" by (cases r) auto
  have ne: "lb_ring_insert fst e r \<noteq> []" by (cases r) auto
  show ?thesis
  proof (cases "find (\<lambda>e. x \<le> fst e) (lb_ring_insert fst e r)")
    case None
    from none [OF None] show ?thesis
      using None front ne by (cases r; cases "lb_ring_insert fst e r") (auto simp: ring_owner_def)
  next
    case (Some y)
    from found [OF Some] show ?thesis using Some by (auto simp: ring_owner_def)
  qed
qed

lemma ring_owner_inserts: "ring_owner (fold (lb_ring_insert fst) es r) x \<in> insert (ring_owner r x) (Some ` snd ` set es)"
proof (induction es arbitrary: r)
  case (Cons e es)
  show ?case using Cons.IH [of "lb_ring_insert fst e r"] ring_owner_insert [of e r x] by auto
qed simp

lemma ring_owner_filter:
  assumes "\<And>e. e \<in> set r \<Longrightarrow> \<not> P e \<Longrightarrow> snd e = q" and "ring_owner r x \<noteq> Some q"
  shows "ring_owner (filter P r) x = ring_owner r x"
proof (cases "find (\<lambda>e. x \<le> fst e) r")
  case (Some y)
  then have "snd y \<noteq> q" using assms(2) by (simp add: ring_owner_def)
  moreover have "y \<in> set r" using Some by (auto simp: find_Some_iff)
  ultimately have "P y" using assms(1) by blast
  have "find (\<lambda>e. x \<le> fst e) (filter P r) = Some y" using Some \<open>P y\<close> by (induction r) (auto split: if_splits)
  then show ?thesis using Some by (simp add: ring_owner_def)
next
  case None
  then have "find (\<lambda>e. x \<le> fst e) (filter P r) = None" by (auto simp: find_None_iff)
  then show ?thesis using None assms by (cases r) (auto simp: ring_owner_def)
qed

lemma label_ring_append: "label_ring (xs @ ys) = fold (lb_ring_insert fst) (vnode_labels ys) (label_ring xs)"
  by (simp add: label_ring_def vnode_labels_def)

lemma label_ring_add: "ring_owner (label_ring (xs @ [a])) x \<in> {ring_owner (label_ring xs) x, Some a}"
  using ring_owner_inserts [of "vnode_labels [a]" "label_ring xs" x] unfolding label_ring_append
  by (auto simp: vnode_labels_def)

lemma label_ring_remove:
  assumes "ring_owner (label_ring (xs @ q # ys)) x \<noteq> Some q"
  shows "ring_owner (label_ring (xs @ ys)) x = ring_owner (label_ring (xs @ q # ys)) x"
proof -
  let ?mark = "\<lambda>b. map (\<lambda>e. (fst e, snd e, b))"
  let ?es = "?mark True (vnode_labels xs) @ ?mark False (vnode_labels [q]) @ ?mark True (vnode_labels ys)"
  let ?r = "fold (lb_ring_insert fst) ?es []" and ?drop = "map (\<lambda>e. (fst e, fst (snd e)))"
  have unmark: "label_ring zs = ?drop (fold (lb_ring_insert fst) es [])" if "?drop es = vnode_labels zs" for zs es
    using fold_ring_insert_map [of fst "\<lambda>e. (fst e, fst (snd e))" es "[]"] that by (simp add: label_ring_def)
  have all: "label_ring (xs @ q # ys) = ?drop ?r"
    by (rule unmark) (simp add: vnode_labels_def comp_def map_concat)
  have "filter (\<lambda>e. snd (snd e)) ?r = fold (lb_ring_insert fst) (filter (\<lambda>e. snd (snd e)) ?es) []"
    using fold_ring_insert_filter [of fst "[]" "\<lambda>e. snd (snd e)" ?es] by simp
  then have rest: "label_ring (xs @ ys) = ?drop (filter (\<lambda>e. snd (snd e)) ?r)"
    using unmark [of "filter (\<lambda>e. snd (snd e)) ?es" "xs @ ys"] by (simp add: filter_map comp_def vnode_labels_def)
  have forget: "ring_owner (?drop r) x = map_option fst (ring_owner r x)" for r :: "(32 word \<times> string \<times> bool) list"
  proof -
    have "find (\<lambda>e. x \<le> fst e) (?drop r) = map_option (\<lambda>e. (fst e, fst (snd e))) (find (\<lambda>e. x \<le> fst e) r)" by (induction r) simp_all
    then show ?thesis by (cases r) (auto simp: ring_owner_def split: option.splits)
  qed
  have set: "set (fold (lb_ring_insert fst) es r) = set es \<union> set r" for es and r :: "(32 word \<times> string \<times> bool) list"
    by (induction es arbitrary: r) auto
  have dropped: "snd e = (q, False)" if "e \<in> set ?r" "\<not> snd (snd e)" for e
    using that unfolding set by (auto simp: vnode_labels_def)
  have "ring_owner ?r x \<noteq> Some (q, False)" using assms unfolding all forget by auto
  then have "ring_owner (filter (\<lambda>e. snd (snd e)) ?r) x = ring_owner ?r x"
    using ring_owner_filter [of ?r "\<lambda>e. snd (snd e)" "(q, False)" x] dropped by blast
  then show ?thesis unfolding all rest forget by simp
qed

section \<open>The balancer as a hash ring\<close>

definition lb_hashing :: "load_balancer \<Rightarrow> bool" where
  "lb_hashing lb \<longleftrightarrow> lb_algo lb = LB_CONSISTENT_HASH \<and> lb_build_ring lb = lb"

definition lb_owner :: "load_balancer \<Rightarrow> string \<Rightarrow> string option" where
  "lb_owner lb key = (case lb_select_server lb (Some key) 0 of (r, _) \<Rightarrow>
     if r < 0 then None else Some (sv_address (lb_servers lb ! nat r)))"

lemma lb_build_ring_idem [simp]: "lb_build_ring (lb_build_ring lb) = lb_build_ring lb"
  by (simp add: lb_build_ring_def)

lemma lb_build_ring_fields [simp]:
  "lb_servers (lb_build_ring lb) = lb_servers lb" "lb_algo (lb_build_ring lb) = lb_algo lb"
  by (simp_all add: lb_build_ring_def)

lemma lb_build_ring_nonempty:
  assumes "lb_servers lb \<noteq> []"
  shows "lb_ring (lb_build_ring lb) \<noteq> []"
proof -
  have "set (fold (lb_ring_insert fst) es r) = set es \<union> set r" for es and r :: "(32 word \<times> string) list"
    by (induction es arbitrary: r) auto
  then have "set (label_ring (map sv_address (lb_servers lb))) = set (vnode_labels (map sv_address (lb_servers lb)))"
    by (simp add: label_ring_def)
  moreover have "vnode_labels (map sv_address (lb_servers lb)) \<noteq> []"
    using assms by (cases "lb_servers lb") (simp_all add: vnode_labels_def)
  ultimately show ?thesis using lb_build_ring_labels [of lb] by auto
qed

lemma lb_owner_label:
  assumes "lb_hashing lb"
  shows "lb_owner lb key = ring_owner (label_ring (map sv_address (lb_servers lb))) (lb_hash_key key)"
proof (cases "lb_servers lb = []")
  case True
  then show ?thesis by (simp add: lb_owner_def lb_select_server_def label_ring_def vnode_labels_def ring_owner_def)
next
  case False
  have fix_ring: "lb_ring (lb_build_ring lb) = lb_ring lb" using assms by (simp add: lb_hashing_def)
  have labels: "map (\<lambda>v. (rn_hash v, sv_address (lb_servers lb ! rn_server v))) (lb_ring lb) =
      label_ring (map sv_address (lb_servers lb))"
    using lb_build_ring_labels [of lb] fix_ring by simp
  have ne: "lb_ring lb \<noteq> []" using lb_build_ring_nonempty [OF False] fix_ring by simp
  have "ring_sorted rn_hash (lb_ring lb)" using lb_build_ring_sorted [of lb] fix_ring by simp
  from lb_consistent_hash_select [OF this ne] show ?thesis
    using assms False ring_owner_successor [OF ne, of rn_hash "\<lambda>v. sv_address (lb_servers lb ! rn_server v)" "lb_hash_key key"]
    by (simp add: lb_owner_def lb_select_server_def lb_hashing_def labels)
qed

lemma lb_add_hashing:
  assumes "lb_hashing lb"
  shows "lb_hashing (snd (lb_add_server lb a p w))"
    and "map sv_address (lb_servers (snd (lb_add_server lb a p w))) \<in>
      {map sv_address (lb_servers lb), map sv_address (lb_servers lb) @ [lb_full_address a p]}"
  using assms by (auto simp: lb_add_server_def lb_hashing_def Let_def)

lemma lb_remove_hashing:
  assumes "lb_hashing lb"
  shows "lb_hashing (snd (lb_remove_server lb a p))"
    and "lb_servers (snd (lb_remove_server lb a p)) = lb_servers lb \<or>
      (\<exists>xs ys. map sv_address (lb_servers lb) = xs @ lb_full_address a p # ys \<and>
        map sv_address (lb_servers (snd (lb_remove_server lb a p))) = xs @ ys)"
proof -
  show "lb_hashing (snd (lb_remove_server lb a p))"
    using assms by (auto simp: lb_remove_server_def lb_hashing_def Let_def split: option.split)
  show "lb_servers (snd (lb_remove_server lb a p)) = lb_servers lb \<or>
      (\<exists>xs ys. map sv_address (lb_servers lb) = xs @ lb_full_address a p # ys \<and>
        map sv_address (lb_servers (snd (lb_remove_server lb a p))) = xs @ ys)"
  proof (cases "find_index (\<lambda>s. sv_address s = lb_full_address a p) (lb_servers lb)")
    case (Some i)
    note i = find_index_SomeD(1,2) [OF Some]
    have "map sv_address (lb_servers lb) = map sv_address (take i (lb_servers lb)) @ lb_full_address a p #
        map sv_address (drop (Suc i) (lb_servers lb))"
      using arg_cong [OF id_take_nth_drop [OF i(1)], of "map sv_address"] i(2) by simp
    then show ?thesis using Some by (auto simp: lb_remove_server_def remove_at_def Let_def)
  qed (simp add: lb_remove_server_def)
qed

interpretation lbr: hash_ring lb_hashing lb_owner "\<lambda>(a, p, w) lb. snd (lb_add_server lb a p w)"
    "\<lambda>(a, p, w). Some (lb_full_address a p)" "\<lambda>(a, p) lb. snd (lb_remove_server lb a p)" "\<lambda>(a, p). Some (lb_full_address a p)"
proof
  fix lb k and s :: "string \<times> int \<times> int" and q :: "string \<times> int"
  assume wf: "lb_hashing lb"
  obtain a p w where s: "s = (a, p, w)" by (cases s)
  obtain b t where q: "q = (b, t)" by (cases q)
  note add = lb_add_hashing [OF wf, of a p w] and remove = lb_remove_hashing [OF wf, of b t]
  show "lb_hashing ((\<lambda>(a, p, w) lb. snd (lb_add_server lb a p w)) s lb)" using add(1) s by simp
  show "lb_hashing ((\<lambda>(a, p) lb. snd (lb_remove_server lb a p)) q lb)" using remove(1) q by simp
  show "lb_owner ((\<lambda>(a, p, w) lb. snd (lb_add_server lb a p w)) s lb) k \<in> {lb_owner lb k, (\<lambda>(a, p, w). Some (lb_full_address a p)) s}"
    using add(2) label_ring_add [of "map sv_address (lb_servers lb)" "lb_full_address a p" "lb_hash_key k"]
    by (auto simp: s lb_owner_label [OF wf] lb_owner_label [OF add(1)])
  assume "lb_owner lb k \<noteq> (\<lambda>(a, p). Some (lb_full_address a p)) q"
  then have other: "ring_owner (label_ring (map sv_address (lb_servers lb))) (lb_hash_key k) \<noteq> Some (lb_full_address b t)"
    by (simp add: q lb_owner_label [OF wf])
  show "lb_owner ((\<lambda>(a, p) lb. snd (lb_remove_server lb a p)) q lb) k = lb_owner lb k"
    using remove(2) other label_ring_remove
    by (auto simp: q lb_owner_label [OF wf] lb_owner_label [OF remove(1)])
qed

definition lb_one_server :: load_balancer where
  "lb_one_server = snd (lb_add_server (lb_init LB_CONSISTENT_HASH) ''a'' 80 1)"

lemma lb_one_server_hashing: "lb_hashing lb_one_server" "lb_servers lb_one_server \<noteq> []"
  by (simp_all add: lb_one_server_def lb_add_server_def lb_init_def lb_hashing_def Let_def)

text \<open>The binary search on the ring finds the clockwise successor: with consistent hashing and at least one server, the
  server selected for a key is the one of the first virtual node, in the order of the hashes, whose hash is not below that
  of the key, and of the first virtual node of the ring if there is none.\<close>

theorem lb_consistent_hash_successor:
  assumes "lb_ring lb = lb_ring (lb_build_ring lb)" and "lb_ring lb \<noteq> []"
  shows "lb_select_consistent_hash lb (Some key) =
    (int (rn_server (case find (\<lambda>v. lb_hash_key key \<le> rn_hash v) (lb_ring lb) of Some v \<Rightarrow> v | None \<Rightarrow> hd (lb_ring lb))), lb)"
proof -
  have "ring_sorted rn_hash (lb_ring lb)" using lb_build_ring_sorted [of lb] assms(1) by simp
  from lb_consistent_hash_select [OF this assms(2)] show ?thesis
    using assms(2) by (auto simp: find_conv_index ring_successor_def hd_conv_nth split: option.split)
qed

theorem lb_consistent_hash_successor_witness:
  "lb_select_consistent_hash lb_one_server (Some ''k'') =
    (int (rn_server (case find (\<lambda>v. lb_hash_key ''k'' \<le> rn_hash v) (lb_ring lb_one_server) of Some v \<Rightarrow> v
      | None \<Rightarrow> hd (lb_ring lb_one_server))), lb_one_server)"
  using lb_consistent_hash_successor [of lb_one_server "''k''"] lb_build_ring_nonempty [OF lb_one_server_hashing(2)]
    lb_one_server_hashing(1) by (simp add: lb_hashing_def)

text \<open>Adding and removing servers disturbs few keys: with consistent hashing, after any servers have been removed and
  any others added, a key whose server stayed is still sent to that server or to one of the new ones.\<close>

theorem lb_minimal_disruption:
  assumes "lb_algo lb = LB_CONSISTENT_HASH" and "lb_build_ring lb = lb"
    and "\<forall>(a, p) \<in> set gone. lb_owner lb key \<noteq> Some (lb_full_address a p)"
  shows "lb_owner (fold (\<lambda>(a, p, w) lb. snd (lb_add_server lb a p w)) new
      (fold (\<lambda>(a, p) lb. snd (lb_remove_server lb a p)) gone lb)) key \<in>
    insert (lb_owner lb key) ((\<lambda>(a, p, w). Some (lb_full_address a p)) ` set new)"
  using assms by (intro lbr.churn_owner) (auto simp: lb_hashing_def)

theorem lb_minimal_disruption_witness:
  "lb_owner (fold (\<lambda>(a, p, w) lb. snd (lb_add_server lb a p w)) [(''b'', 80, 1)]
      (fold (\<lambda>(a, p) lb. snd (lb_remove_server lb a p)) [(''c'', 80)] lb_one_server)) ''k'' \<in>
    {lb_owner lb_one_server ''k'', Some (lb_full_address ''b'' 80)}"
proof -
  have "lb_owner lb_one_server ''k'' \<in> {None, Some (lb_full_address ''a'' 80)}"
  proof -
    have "lb_hashing (lb_init LB_CONSISTENT_HASH)" by (simp add: lb_hashing_def lb_init_def lb_build_ring_def)
    moreover have "lb_owner (lb_init LB_CONSISTENT_HASH) ''k'' = None"
      by (simp add: lb_owner_def lb_select_server_def lb_init_def)
    ultimately show ?thesis
      using lbr.add_owner [of "lb_init LB_CONSISTENT_HASH" "(''a'', 80, 1)" "''k''"] by (simp add: lb_one_server_def)
  qed
  moreover have "lb_full_address ''a'' 80 \<noteq> lb_full_address ''c'' 80"
    by (simp add: lb_full_address_def strncpy_z_def)
  ultimately have "\<forall>(a, p) \<in> set [(''c'', 80)]. lb_owner lb_one_server ''k'' \<noteq> Some (lb_full_address a p)" by auto
  then show ?thesis
    using lb_minimal_disruption [of lb_one_server "[(''c'', 80)]" "''k''" "[(''b'', 80, 1)]"] lb_one_server_hashing
    by (simp add: lb_hashing_def)
qed

section \<open>Behaviour at the edges\<close>

text \<open>The ring does not look at health: a server that is down stays on the ring and is selected.\<close>

lemma lb_hash_ignores_health:
  "lb_owner (lb_health_ping lb_one_server 0 False) key = lb_owner lb_one_server key \<and>
   \<not> sv_healthy (lb_servers (lb_health_ping lb_one_server 0 False) ! 0)"
proof -
  have srv: "length (lb_servers lb_one_server) = 1" by (simp add: lb_one_server_def lb_add_server_def lb_init_def Let_def)
  have addr: "map sv_address (lb_servers (lb_health_ping lb_one_server 0 False)) = map sv_address (lb_servers lb_one_server)"
    using srv by (cases "lb_servers lb_one_server") (simp_all add: lb_health_ping_def Let_def)
  have "lb_hashing (lb_health_ping lb_one_server 0 False)"
    using lb_one_server_hashing srv
    by (auto simp: lb_hashing_def lb_health_ping_def Let_def lb_one_server_def lb_add_server_def lb_init_def)
  then have "lb_owner (lb_health_ping lb_one_server 0 False) key = lb_owner lb_one_server key"
    using lb_one_server_hashing(1) by (simp add: lb_owner_label addr)
  moreover have "\<not> sv_healthy (lb_servers (lb_health_ping lb_one_server 0 False) ! 0)"
    using srv by (simp add: lb_health_ping_def Let_def)
  ultimately show ?thesis by simp
qed

end
