(* ===== verification/RateLimiter.thy ===== *)
theory RateLimiter
  imports Net_Prelude Complex_Main
begin

text \<open>
  The limiter of \<open>mini-gateway-proxy/src/rate_limiter.c\<close>: token bucket, leaky bucket, fixed window and sliding window log,
  with limiters per client below the common one. A \<open>double\<close> is a rational number, so rounding is left out; milliseconds
  and their differences are 64-bit words, since the subtraction \<open>now - window\<close> wraps. An operation gets one reading of the
  monotonic clock, in seconds and in milliseconds, for all the readings it takes. The ring buffer of the sliding window is
  the array of 1024 time stamps with its head, tail and count. The leaky bucket and the log inside a client's limiter are
  zeroed and never used, and are left out, as is printing.
\<close>

section \<open>Data\<close>

abbreviation RL_MAX_TIMESTAMPS :: nat where "RL_MAX_TIMESTAMPS \<equiv> 1024"
abbreviation RL_MAX_CLIENTS :: nat where "RL_MAX_CLIENTS \<equiv> 256"

datatype rl_algorithm = RL_TOKEN_BUCKET | RL_LEAKY_BUCKET | RL_FIXED_WINDOW | RL_SLIDING_WINDOW_LOG

record token_bucket =
  tb_tokens :: rat
  tb_capacity :: rat
  tb_refill_rate :: rat
  tb_last_refill :: rat

record leaky_bucket =
  lk_capacity :: rat
  lk_water_level :: rat
  lk_drain_rate :: rat
  lk_last_drain :: rat

record fixed_window =
  fw_window_size_ms :: "64 word"
  fw_max_requests :: int
  fw_current_count :: int
  fw_window_start_ms :: "64 word"

record sliding_window_log =
  sw_window_size_ms :: "64 word"
  sw_max_requests :: int
  sw_timestamps :: "64 word list"
  sw_timestamp_count :: nat
  sw_head :: nat
  sw_tail :: nat

record client_limiter =
  cl_client_id :: string
  cl_algorithm :: rl_algorithm
  cl_tb :: token_bucket
  cl_fw :: fixed_window
  cl_max_rps :: int

record rate_limiter =
  rl_algorithm :: rl_algorithm
  rl_rate :: rat
  rl_burst :: rat
  rl_tb :: token_bucket
  rl_lb :: leaky_bucket
  rl_fw :: fixed_window
  rl_sw :: sliding_window_log
  rl_clients :: "client_limiter list"

type_synonym reading = "rat \<times> 64 word"

definition zero_tb :: token_bucket where
  "zero_tb = \<lparr>tb_tokens = 0, tb_capacity = 0, tb_refill_rate = 0, tb_last_refill = 0\<rparr>"

definition zero_fw :: fixed_window where
  "zero_fw = \<lparr>fw_window_size_ms = 0, fw_max_requests = 0, fw_current_count = 0, fw_window_start_ms = 0\<rparr>"

definition c_int :: "rat \<Rightarrow> int" where
  "c_int x = (if x < 0 then \<lceil>x\<rceil> else \<lfloor>x\<rfloor>)"

section \<open>Operations\<close>

definition rl_init :: "rl_algorithm \<Rightarrow> rat \<Rightarrow> rat \<Rightarrow> 64 word \<Rightarrow> reading \<Rightarrow> rate_limiter" where
  "rl_init algo rate burst window_ms now =
     (let burst' = (if burst \<le> 0 then (if rate > 0 then rate else 10) else burst);
          window = (if window_ms > 0 then window_ms else 1000);
          rl = \<lparr>rl_algorithm = algo, rl_rate = rate, rl_burst = burst', rl_tb = zero_tb,
            rl_lb = \<lparr>lk_capacity = 0, lk_water_level = 0, lk_drain_rate = 0, lk_last_drain = 0\<rparr>, rl_fw = zero_fw,
            rl_sw = \<lparr>sw_window_size_ms = 0, sw_max_requests = 0, sw_timestamps = replicate RL_MAX_TIMESTAMPS 0,
              sw_timestamp_count = 0, sw_head = 0, sw_tail = 0\<rparr>, rl_clients = []\<rparr> in
      case algo of
        RL_TOKEN_BUCKET \<Rightarrow> rl\<lparr>rl_tb := \<lparr>tb_tokens = burst', tb_capacity = burst', tb_refill_rate = rate, tb_last_refill = fst now\<rparr>\<rparr>
      | RL_LEAKY_BUCKET \<Rightarrow> rl\<lparr>rl_lb := \<lparr>lk_capacity = burst', lk_water_level = 0, lk_drain_rate = rate, lk_last_drain = fst now\<rparr>\<rparr>
      | RL_FIXED_WINDOW \<Rightarrow> rl\<lparr>rl_fw := \<lparr>fw_window_size_ms = window, fw_max_requests = c_int rate, fw_current_count = 0,
          fw_window_start_ms = snd now\<rparr>\<rparr>
      | RL_SLIDING_WINDOW_LOG \<Rightarrow> rl\<lparr>rl_sw := (rl_sw rl)\<lparr>sw_window_size_ms := window, sw_max_requests := c_int rate\<rparr>\<rparr>)"

definition tb_refill :: "rat \<Rightarrow> token_bucket \<Rightarrow> token_bucket" where
  "tb_refill now tb =
     (let elapsed = now - tb_last_refill tb; new_tokens = elapsed * tb_refill_rate tb;
          tokens = tb_tokens tb + new_tokens in
      tb\<lparr>tb_tokens := if tokens > tb_capacity tb then tb_capacity tb else tokens, tb_last_refill := now\<rparr>)"

definition lk_drain :: "rat \<Rightarrow> leaky_bucket \<Rightarrow> leaky_bucket" where
  "lk_drain now lk =
     (let elapsed = now - lk_last_drain lk; drained = elapsed * lk_drain_rate lk;
          water_level = lk_water_level lk - drained in
      lk\<lparr>lk_water_level := if water_level < 0 then 0 else water_level, lk_last_drain := now\<rparr>)"

definition fw_roll :: "64 word \<Rightarrow> fixed_window \<Rightarrow> fixed_window" where
  "fw_roll now fw =
     (if now - fw_window_start_ms fw \<ge> fw_window_size_ms fw
      then fw\<lparr>fw_window_start_ms := now, fw_current_count := 0\<rparr> else fw)"

function sw_evict :: "64 word \<Rightarrow> sliding_window_log \<Rightarrow> sliding_window_log" where
  "sw_evict window_start sw =
     (if sw_timestamp_count sw > 0 \<and> sw_timestamps sw ! sw_head sw < window_start
      then sw_evict window_start (sw\<lparr>sw_head := (sw_head sw + 1) mod RL_MAX_TIMESTAMPS,
        sw_timestamp_count := sw_timestamp_count sw - 1\<rparr>)
      else sw)"
  by pat_completeness auto
termination
  by (relation "measure (\<lambda>(ws, sw). sw_timestamp_count sw)") auto

declare sw_evict.simps [simp del]

definition rl_refill_client :: "reading \<Rightarrow> client_limiter \<Rightarrow> client_limiter" where
  "rl_refill_client now cl =
     (case cl_algorithm cl of
        RL_TOKEN_BUCKET \<Rightarrow> cl\<lparr>cl_tb := tb_refill (fst now) (cl_tb cl)\<rparr>
      | RL_FIXED_WINDOW \<Rightarrow> cl\<lparr>cl_fw := fw_roll (snd now) (cl_fw cl)\<rparr>
      | _ \<Rightarrow> cl)"

definition rl_refill :: "reading \<Rightarrow> rate_limiter \<Rightarrow> rate_limiter" where
  "rl_refill now rl =
     (let rl = (case rl_algorithm rl of
          RL_TOKEN_BUCKET \<Rightarrow> rl\<lparr>rl_tb := tb_refill (fst now) (rl_tb rl)\<rparr>
        | RL_LEAKY_BUCKET \<Rightarrow> rl\<lparr>rl_lb := lk_drain (fst now) (rl_lb rl)\<rparr>
        | RL_FIXED_WINDOW \<Rightarrow> rl\<lparr>rl_fw := fw_roll (snd now) (rl_fw rl)\<rparr>
        | RL_SLIDING_WINDOW_LOG \<Rightarrow>
            rl\<lparr>rl_sw := sw_evict (snd now - sw_window_size_ms (rl_sw rl)) (rl_sw rl)\<rparr>) in
      rl\<lparr>rl_clients := map (rl_refill_client now) (rl_clients rl)\<rparr>)"

definition fw_take :: "fixed_window \<Rightarrow> bool \<times> fixed_window" where
  "fw_take fw = (if fw_current_count fw < fw_max_requests fw then (True, fw\<lparr>fw_current_count := fw_current_count fw + 1\<rparr>)
     else (False, fw))"

definition sw_take :: "64 word \<Rightarrow> sliding_window_log \<Rightarrow> bool \<times> sliding_window_log" where
  "sw_take now sw =
     (let sw = sw_evict (now - sw_window_size_ms sw) sw in
      if int (sw_timestamp_count sw) < sw_max_requests sw
      then (True, sw\<lparr>sw_timestamps := (sw_timestamps sw)[sw_tail sw := now],
        sw_tail := (sw_tail sw + 1) mod RL_MAX_TIMESTAMPS, sw_timestamp_count := sw_timestamp_count sw + 1\<rparr>)
      else (False, sw))"

definition rl_allow :: "reading \<Rightarrow> rate_limiter \<Rightarrow> bool \<times> rate_limiter" where
  "rl_allow now rl =
     (let rl = rl_refill now rl in
      case rl_algorithm rl of
        RL_TOKEN_BUCKET \<Rightarrow>
          if tb_tokens (rl_tb rl) \<ge> 1 then (True, rl\<lparr>rl_tb := (rl_tb rl)\<lparr>tb_tokens := tb_tokens (rl_tb rl) - 1\<rparr>\<rparr>)
          else (False, rl)
      | RL_LEAKY_BUCKET \<Rightarrow>
          if lk_water_level (rl_lb rl) + 1 \<le> lk_capacity (rl_lb rl)
          then (True, rl\<lparr>rl_lb := (rl_lb rl)\<lparr>lk_water_level := lk_water_level (rl_lb rl) + 1\<rparr>\<rparr>)
          else (False, rl)
      | RL_FIXED_WINDOW \<Rightarrow> (case fw_take (fw_roll (snd now) (rl_fw rl)) of (b, fw) \<Rightarrow> (b, rl\<lparr>rl_fw := fw\<rparr>))
      | RL_SLIDING_WINDOW_LOG \<Rightarrow> (case sw_take (snd now) (rl_sw rl) of (b, sw) \<Rightarrow> (b, rl\<lparr>rl_sw := sw\<rparr>)))"

definition rl_get_or_create_client :: "rate_limiter \<Rightarrow> string \<Rightarrow> reading \<Rightarrow> (nat \<times> rate_limiter) option" where
  "rl_get_or_create_client rl client_id now =
     (case find_index (\<lambda>cl. cl_client_id cl = client_id) (rl_clients rl) of
        Some i \<Rightarrow> Some (i, rl)
      | None \<Rightarrow>
          if length (rl_clients rl) \<ge> RL_MAX_CLIENTS then None
          else let cl = \<lparr>cl_client_id = strncpy_z 64 client_id, cl_algorithm = rl_algorithm rl, cl_tb = zero_tb,
                     cl_fw = zero_fw, cl_max_rps = c_int (rl_rate rl)\<rparr>;
                   cl = (case rl_algorithm rl of
                       RL_TOKEN_BUCKET \<Rightarrow> cl\<lparr>cl_tb := \<lparr>tb_tokens = rl_burst rl, tb_capacity = rl_burst rl,
                         tb_refill_rate = rl_rate rl, tb_last_refill = fst now\<rparr>\<rparr>
                     | RL_FIXED_WINDOW \<Rightarrow> cl\<lparr>cl_fw := \<lparr>fw_window_size_ms = fw_window_size_ms (rl_fw rl),
                         fw_max_requests = cl_max_rps cl, fw_current_count = 0, fw_window_start_ms = snd now\<rparr>\<rparr>
                     | _ \<Rightarrow> cl) in
          Some (length (rl_clients rl), rl\<lparr>rl_clients := rl_clients rl @ [cl]\<rparr>))"

definition rl_allow_client :: "reading \<Rightarrow> string \<Rightarrow> rate_limiter \<Rightarrow> bool \<times> rate_limiter" where
  "rl_allow_client now client_id rl =
     (case rl_get_or_create_client rl client_id now of
        None \<Rightarrow> (False, rl)
      | Some (i, rl) \<Rightarrow>
          (case cl_algorithm (rl_clients rl ! i) of
             RL_TOKEN_BUCKET \<Rightarrow>
               (let rl = rl_refill now rl in
                if tb_tokens (cl_tb (rl_clients rl ! i)) \<ge> 1 then
                  (case rl_allow now rl of
                     (False, rl) \<Rightarrow> (False, rl)
                   | (True, rl) \<Rightarrow>
                       let cl = rl_clients rl ! i; tb = cl_tb cl in
                       (True, rl\<lparr>rl_clients := (rl_clients rl)[i := cl\<lparr>cl_tb := tb\<lparr>tb_tokens := tb_tokens tb - 1\<rparr>\<rparr>]\<rparr>))
                else (False, rl))
           | RL_FIXED_WINDOW \<Rightarrow>
               (let cl = rl_clients rl ! i; cl = cl\<lparr>cl_fw := fw_roll (snd now) (cl_fw cl)\<rparr>;
                    rl = rl\<lparr>rl_clients := (rl_clients rl)[i := cl]\<rparr> in
                if fw_current_count (cl_fw cl) < fw_max_requests (cl_fw cl) then
                  (case rl_allow now rl of
                     (False, rl) \<Rightarrow> (False, rl)
                   | (True, rl) \<Rightarrow>
                       let cl = rl_clients rl ! i; fw = cl_fw cl in
                       (True, rl\<lparr>rl_clients := (rl_clients rl)[i := cl\<lparr>cl_fw := fw\<lparr>fw_current_count := fw_current_count fw + 1\<rparr>\<rparr>]\<rparr>))
                else (False, rl))
           | _ \<Rightarrow> rl_allow now rl))"

text \<open>The callback of \<open>rl_consume\<close> takes no argument; its result stands for it, and the second component tells
  whether it was called.\<close>

definition rl_consume :: "reading \<Rightarrow> int option \<Rightarrow> rate_limiter \<Rightarrow> (int \<times> bool) \<times> rate_limiter" where
  "rl_consume now func rl =
     (case rl_allow now rl of
        (True, rl) \<Rightarrow> (case func of Some r \<Rightarrow> ((r, True), rl) | None \<Rightarrow> ((0, False), rl))
      | (False, rl) \<Rightarrow> ((-1, False), rl))"

section \<open>Requests\<close>

text \<open>A request is a reading of the clock and possibly a client; serving a list of them gives the times of those admitted.\<close>

type_synonym request = "reading \<times> string option"

definition rl_serve :: "request \<Rightarrow> rate_limiter \<Rightarrow> bool \<times> rate_limiter" where
  "rl_serve q rl = (case q of (now, None) \<Rightarrow> rl_allow now rl | (now, Some client_id) \<Rightarrow> rl_allow_client now client_id rl)"

primrec rl_run :: "('q \<Rightarrow> 's \<Rightarrow> bool \<times> 's) \<Rightarrow> 'q list \<Rightarrow> 's \<Rightarrow> 'q list \<times> 's" where
  "rl_run serve [] s = ([], s)"
| "rl_run serve (q # qs) s = (case serve q s of (b, s') \<Rightarrow>
     case rl_run serve qs s' of (as, t) \<Rightarrow> (if b then q # as else as, t))"

text \<open>
  The contract of a metered limiter: an allowance that grows with time at the given rate up to a bound, and that every
  admission uses up by one.
\<close>

locale metered =
  fixes ok :: "'s \<Rightarrow> bool" and serve :: "'q \<Rightarrow> 's \<Rightarrow> bool \<times> 's" and time :: "'q \<Rightarrow> rat" and last_time :: "'s \<Rightarrow> rat"
    and allowance :: "'s \<Rightarrow> rat \<Rightarrow> rat" and rate :: rat and bound :: rat
  assumes serve_ok: "ok s \<Longrightarrow> last_time s \<le> time q \<Longrightarrow> serve q s = (b, s') \<Longrightarrow> ok s' \<and> last_time s' \<le> time q"
    and serve_allowance: "ok s \<Longrightarrow> last_time s \<le> time q \<Longrightarrow> serve q s = (b, s') \<Longrightarrow>
      allowance s' (time q) + of_bool b \<le> allowance s (time q)"
    and grows: "ok s \<Longrightarrow> last_time s \<le> t \<Longrightarrow> t \<le> u \<Longrightarrow> allowance s u \<le> allowance s t + rate * (u - t)"
    and bounds: "ok s \<Longrightarrow> last_time s \<le> t \<Longrightarrow> 0 \<le> allowance s t \<and> allowance s t \<le> bound"
begin

lemma run_ok:
  assumes "ok s" and "rl_run serve qs s = (as, s')" and "sorted (map time qs)" and "\<forall>q \<in> set qs. last_time s \<le> time q"
    and "last_time s \<le> u" and "\<forall>q \<in> set qs. time q \<le> u"
  shows "ok s' \<and> last_time s' \<le> u"
  using assms
proof (induction qs arbitrary: s as)
  case (Cons q qs)
  obtain b s1 as1 where step: "serve q s = (b, s1)" "rl_run serve qs s1 = (as1, s')"
    using Cons.prems(2) by (auto split: prod.splits)
  have s1: "ok s1" "last_time s1 \<le> time q" using serve_ok [OF Cons.prems(1) _ step(1)] Cons.prems(4) by auto
  show ?case
    by (rule Cons.IH [OF s1(1) step(2)]) (use Cons.prems s1(2) in \<open>auto intro: order_trans\<close>)
qed simp

lemma admitted_allowance:
  assumes "ok s" and "rl_run serve qs s = (as, s')" and "sorted (map time qs)" and "last_time s \<le> t"
    and "\<forall>q \<in> set qs. t \<le> time q \<and> time q \<le> u" and "t \<le> u"
  shows "of_nat (length as) \<le> allowance s t + rate * (u - t)"
  using assms
proof (induction qs arbitrary: s as t)
  case Nil
  then show ?case using grows [of s t u] bounds [of s u] by auto
next
  case (Cons q qs)
  obtain b s1 as1 where step: "serve q s = (b, s1)" "rl_run serve qs s1 = (as1, s')" "as = (if b then q # as1 else as1)"
    using Cons.prems(2) by (auto split: prod.splits)
  have t: "t \<le> time q" "last_time s \<le> time q" "time q \<le> u" using Cons.prems(4,5) by auto
  have s1: "ok s1" "last_time s1 \<le> time q" using serve_ok [OF Cons.prems(1) t(2) step(1)] by auto
  have "of_nat (length as1) \<le> allowance s1 (time q) + rate * (u - time q)"
    by (rule Cons.IH [OF s1(1) step(2) _ s1(2)]) (use Cons.prems(3,5) t(3) in auto)
  then have "of_nat (length as) \<le> allowance s (time q) + rate * (u - time q)"
    using serve_allowance [OF Cons.prems(1) t(2) step(1)] step(3) by (cases b) auto
  also have "\<dots> \<le> allowance s t + rate * (time q - t) + rate * (u - time q)"
    using grows [OF Cons.prems(1,4) t(1)] by simp
  also have "\<dots> = allowance s t + rate * (u - t)" by (simp add: algebra_simps)
  finally show ?case .
qed

lemma interval_bound:
  assumes "ok s" and "rl_run serve pre s = (as0, s1)" and "rl_run serve (q # post) s1 = (as, s2)"
    and "sorted (map time (pre @ q # post))" and "last_time s \<le> time (hd (pre @ [q]))"
  shows "of_nat (length as) \<le> bound + rate * (time (last (q # post)) - time q)"
proof -
  have sorted: "sorted (map time pre)" "sorted (map time (q # post))" "\<forall>p \<in> set pre. time p \<le> time q"
    using assms(4) by (auto simp: sorted_append)
  have start: "\<forall>p \<in> set pre. last_time s \<le> time p" "last_time s \<le> time q"
    using assms(5) sorted(1,3) by (cases pre; force intro: order_trans)+
  have s1: "ok s1" "last_time s1 \<le> time q" using run_ok [OF assms(1,2) sorted(1) start(1,2) sorted(3)] by auto
  have "\<forall>p \<in> set (q # post). time p \<le> time (last (q # post))"
    using sorted(2) by (induction post arbitrary: q) (auto split: if_splits)
  then have "of_nat (length as) \<le> allowance s1 (time q) + rate * (time (last (q # post)) - time q)"
    using sorted(2) by (intro admitted_allowance [OF s1(1) assms(3) sorted(2) s1(2)]) auto
  then show ?thesis using bounds [OF s1] by simp
qed

end

section \<open>Buckets\<close>

definition tb_state :: "rat \<Rightarrow> rat \<Rightarrow> rate_limiter \<Rightarrow> bool" where
  "tb_state rate cap rl \<longleftrightarrow> rl_algorithm rl = RL_TOKEN_BUCKET \<and> tb_capacity (rl_tb rl) = cap \<and> tb_refill_rate (rl_tb rl) = rate \<and>
     0 \<le> rate \<and> 0 \<le> tb_tokens (rl_tb rl) \<and> tb_tokens (rl_tb rl) \<le> cap"

definition lk_state :: "rat \<Rightarrow> rat \<Rightarrow> rate_limiter \<Rightarrow> bool" where
  "lk_state rate cap rl \<longleftrightarrow> rl_algorithm rl = RL_LEAKY_BUCKET \<and> lk_capacity (rl_lb rl) = cap \<and> lk_drain_rate (rl_lb rl) = rate \<and>
     0 \<le> rate \<and> 0 \<le> lk_water_level (rl_lb rl) \<and> lk_water_level (rl_lb rl) \<le> cap"

definition metered_state :: "rat \<Rightarrow> rat \<Rightarrow> rate_limiter \<Rightarrow> bool" where
  "metered_state rate cap rl \<longleftrightarrow> tb_state rate cap rl \<or> lk_state rate cap rl"

definition rl_last :: "rate_limiter \<Rightarrow> rat" where
  "rl_last rl = (if rl_algorithm rl = RL_TOKEN_BUCKET then tb_last_refill (rl_tb rl) else lk_last_drain (rl_lb rl))"

definition rl_credit :: "rate_limiter \<Rightarrow> rat" where
  "rl_credit rl = (if rl_algorithm rl = RL_TOKEN_BUCKET then tb_tokens (rl_tb rl)
     else lk_capacity (rl_lb rl) - lk_water_level (rl_lb rl))"

abbreviation rl_allowance :: "rat \<Rightarrow> rat \<Rightarrow> rate_limiter \<Rightarrow> rat \<Rightarrow> rat" where
  "rl_allowance rate cap rl t \<equiv> min cap (rl_credit rl + rate * (t - rl_last rl))"

lemma metered_clients [simp]:
  "metered_state rate cap (rl\<lparr>rl_clients := cs\<rparr>) = metered_state rate cap rl"
  "rl_credit (rl\<lparr>rl_clients := cs\<rparr>) = rl_credit rl" "rl_last (rl\<lparr>rl_clients := cs\<rparr>) = rl_last rl"
  by (simp_all add: metered_state_def tb_state_def lk_state_def rl_credit_def rl_last_def)

lemma metered_credit: "metered_state rate cap rl \<Longrightarrow> 0 \<le> rl_credit rl \<and> rl_credit rl \<le> cap \<and> 0 \<le> rate"
  by (auto simp: metered_state_def tb_state_def lk_state_def rl_credit_def)

lemma metered_refill:
  assumes "metered_state rate cap rl" and "rl_last rl \<le> fst now"
  shows "metered_state rate cap (rl_refill now rl)" and "rl_last (rl_refill now rl) = fst now"
    and "rl_credit (rl_refill now rl) = rl_allowance rate cap rl (fst now)"
proof -
  have comm: "(fst now - x) * y = y * (fst now - x)" for x y by (rule mult.commute)
  have e: "0 \<le> rate * (fst now - rl_last rl)" using assms metered_credit [OF assms(1)] by simp
  show "metered_state rate cap (rl_refill now rl)" and "rl_last (rl_refill now rl) = fst now"
    and "rl_credit (rl_refill now rl) = rl_allowance rate cap rl (fst now)"
    using assms(1) e unfolding metered_state_def
    by (elim disjE; simp add: metered_state_def tb_state_def lk_state_def rl_credit_def rl_last_def rl_refill_def tb_refill_def
        lk_drain_def Let_def min_def comm; linarith?)+
qed

lemma metered_allow:
  assumes "metered_state rate cap rl" and "rl_last rl \<le> fst now" and "rl_allow now rl = (b, rl')"
  shows "metered_state rate cap rl'" and "rl_last rl' = fst now"
    and "rl_credit rl' + of_bool b \<le> rl_allowance rate cap rl (fst now)"
proof -
  define r where "r = rl_refill now rl"
  note refill = metered_refill [OF assms(1,2), folded r_def]
  have "metered_state rate cap rl' \<and> rl_last rl' = fst now \<and> rl_credit rl' + of_bool b \<le> rl_credit r"
    using refill(1,2) assms(3) unfolding rl_allow_def Let_def r_def [symmetric]
    by (auto simp: metered_state_def tb_state_def lk_state_def rl_credit_def rl_last_def split: if_splits)
  then show "metered_state rate cap rl'" and "rl_last rl' = fst now"
    and "rl_credit rl' + of_bool b \<le> rl_allowance rate cap rl (fst now)"
    using refill(3) by auto
qed

lemma metered_step:
  assumes "metered_state rate cap rl" and "rl_last rl \<le> fst (fst q)" and "rl_serve q rl = (b, rl')"
  shows "metered_state rate cap rl' \<and> rl_last rl' \<le> fst (fst q) \<and>
    rl_allowance rate cap rl' (fst (fst q)) + of_bool b \<le> rl_allowance rate cap rl (fst (fst q))"
proof -
  obtain now co where q: "q = (now, co)" by (cases q)
  have finish: ?thesis if "metered_state rate cap rl'" "rl_last rl' = fst now"
      "rl_credit rl' + of_bool b \<le> rl_allowance rate cap rl (fst now)"
    using that q by (auto simp: min_def split: if_splits)
  have allow: ?thesis if "rl_allow now r = (b, rl')" "r = rl\<lparr>rl_clients := cs\<rparr>" for r cs
    using finish metered_allow [of rate cap r now b rl'] that assms(1,2) q by simp
  show ?thesis
  proof (cases co)
    case None
    then show ?thesis using allow [of rl "rl_clients rl"] assms(3) q by (simp add: rl_serve_def)
  next
    case (Some cid)
    then have serve: "rl_allow_client now cid rl = (b, rl')" using assms(3) q by (simp add: rl_serve_def)
    show ?thesis
    proof (cases "rl_get_or_create_client rl cid now")
      case None
      then show ?thesis using serve assms(1,2) q by (simp add: rl_allow_client_def)
    next
      case (Some ir)
      then have "snd ir = rl\<lparr>rl_clients := rl_clients (snd ir)\<rparr>"
        by (auto simp: rl_get_or_create_client_def Let_def split: option.splits if_splits)
      then obtain i cs where ir: "ir = (i, rl\<lparr>rl_clients := cs\<rparr>)" by (metis prod.collapse)
      define r where "r = rl\<lparr>rl_clients := cs\<rparr>"
      have r: "metered_state rate cap r" "rl_last r = rl_last rl" "rl_credit r = rl_credit rl" using assms(1) by (simp_all add: r_def)
      note refill = metered_refill [OF r(1), of now]
      define good where "good c x \<longleftrightarrow> metered_state rate cap x \<and> rl_last x = fst now \<and>
        rl_credit x + of_bool c \<le> rl_allowance rate cap rl (fst now)" for c x
      have clients: "good c (x\<lparr>rl_clients := ds\<rparr>) = good c x" for c x ds by (simp add: good_def)
      have again: "good c x" if "rl_allow now (rl_refill now r) = (c, x)" for c x
        using metered_allow [OF refill(1) _ that] refill(2,3) r assms(2) q by (auto simp: good_def)
      have plain: "good c x" if "rl_allow now (r\<lparr>rl_clients := ds\<rparr>) = (c, x)" for c x ds
        using metered_allow [of rate cap "r\<lparr>rl_clients := ds\<rparr>" now c x] that r assms(2) q by (simp add: good_def)
      have same: "r\<lparr>rl_clients := rl_clients r\<rparr> = r" by simp
      note client = serve [unfolded rl_allow_client_def Some ir option.case prod.case, folded r_def]
      have "good b rl' \<or> rl' = rl_refill now r \<and> \<not> b \<or> (\<exists>ds. rl' = r\<lparr>rl_clients := ds\<rparr>) \<and> \<not> b"
      proof (cases "cl_algorithm (rl_clients r ! i)")
        case RL_TOKEN_BUCKET
        obtain c x where x: "rl_allow now (rl_refill now r) = (c, x)" by fastforce
        show ?thesis using client again [OF x] RL_TOKEN_BUCKET x
          by (cases c) (auto simp: Let_def clients split: if_splits)
      next
        case RL_FIXED_WINDOW
        let ?ds = "(rl_clients r)[i := (rl_clients r ! i)\<lparr>cl_fw := fw_roll (snd now) (cl_fw (rl_clients r ! i))\<rparr>]"
        obtain c x where x: "rl_allow now (r\<lparr>rl_clients := ?ds\<rparr>) = (c, x)" by fastforce
        show ?thesis using client plain [OF x] RL_FIXED_WINDOW x
          by (cases c) (auto simp: Let_def clients split: if_splits)
      next
        case RL_LEAKY_BUCKET
        then show ?thesis using client plain [of "rl_clients r"] same by auto
      next
        case RL_SLIDING_WINDOW_LOG
        then show ?thesis using client plain [of "rl_clients r"] same by auto
      qed
      then show ?thesis
        using finish refill r assms(1,2) q by (auto simp: good_def)
    qed
  qed
qed

interpretation bucket: metered "metered_state rate cap" rl_serve "\<lambda>q. fst (fst q)" rl_last "rl_allowance rate cap" rate cap for rate cap
proof
  fix rl rl' :: rate_limiter and q :: request and b t u
  assume ok: "metered_state rate cap rl"
  note credit = metered_credit [OF ok]
  {
    assume t: "rl_last rl \<le> t"
    have pos: "0 \<le> rate * (t - rl_last rl)" using credit t by simp
    then show "0 \<le> rl_allowance rate cap rl t \<and> rl_allowance rate cap rl t \<le> cap" using credit by auto
    assume "t \<le> u"
    then have "0 \<le> rate * (u - t)" using credit by simp
    moreover have "rate * (u - rl_last rl) = rate * (t - rl_last rl) + rate * (u - t)" by (simp add: algebra_simps)
    ultimately show "rl_allowance rate cap rl u \<le> rl_allowance rate cap rl t + rate * (u - t)" by auto
  }
  assume "rl_last rl \<le> fst (fst q)" and "rl_serve q rl = (b, rl')"
  from metered_step [OF ok this]
  show "metered_state rate cap rl' \<and> rl_last rl' \<le> fst (fst q)"
    and "rl_allowance rate cap rl' (fst (fst q)) + of_bool b \<le> rl_allowance rate cap rl (fst (fst q))" by auto
qed

section \<open>Properties\<close>

text \<open>Rate and burst are respected: with the token bucket or the leaky bucket, whatever requests came before, and
  whether requests name clients or not, the requests admitted from any request \<open>q\<close> on are at most the burst size plus the
  rate times the time that has passed since \<open>q\<close>.\<close>

theorem rl_bucket_bound:
  assumes "algo = RL_TOKEN_BUCKET \<or> algo = RL_LEAKY_BUCKET" and "0 \<le> rate"
    and "rl_run rl_serve pre (rl_init algo rate burst window start) = (as0, rl1)"
    and "rl_run rl_serve (q # post) rl1 = (as, rl2)"
    and "sorted (map (\<lambda>q. fst (fst q)) (pre @ q # post))" and "fst start \<le> fst (fst (hd (pre @ [q])))"
  shows "of_nat (length as) \<le> rl_burst (rl_init algo rate burst window start) +
    rate * (fst (fst (last (q # post))) - fst (fst q))"
proof -
  let ?rl = "rl_init algo rate burst window start"
  have "metered_state rate (rl_burst ?rl) ?rl \<and> rl_last ?rl = fst start"
    using assms(1,2) by (auto simp: metered_state_def tb_state_def lk_state_def rl_last_def rl_init_def Let_def)
  then show ?thesis using bucket.interval_bound [OF _ assms(3,4,5)] assms(6) by auto
qed

theorem rl_bucket_bound_witness:
  "of_nat (length (fst (rl_run rl_serve [((1, 1000), None), ((1, 1000), None), ((2, 2000), None)]
      (rl_init RL_TOKEN_BUCKET 1 1 0 (0, 0))))) \<le> (2 :: rat)"
proof -
  obtain as rl2 where run: "rl_run rl_serve [((1, 1000), None), ((1, 1000), None), ((2, 2000), None)]
      (rl_init RL_TOKEN_BUCKET 1 1 0 (0, 0)) = (as, rl2)" by fastforce
  have burst: "rl_burst (rl_init RL_TOKEN_BUCKET 1 1 0 (0, 0)) = 1" by (simp add: rl_init_def Let_def)
  have "of_nat (length as) \<le> rl_burst (rl_init RL_TOKEN_BUCKET 1 1 0 (0, 0)) + 1 * (2 - 1)"
    using rl_bucket_bound [of RL_TOKEN_BUCKET 1 "[]" 1 0 "(0, 0)" "[]" _ "((1, 1000), None)" "[((1, 1000), None), ((2, 2000), None)]" as rl2]
      run by simp
  then show ?thesis using run burst by simp
qed

section \<open>The sliding window log\<close>

definition sw_queue :: "sliding_window_log \<Rightarrow> 64 word list" where
  "sw_queue sw = map (\<lambda>i. sw_timestamps sw ! ((sw_head sw + i) mod RL_MAX_TIMESTAMPS)) [0..<sw_timestamp_count sw]"

definition sw_ok :: "sliding_window_log \<Rightarrow> bool" where
  "sw_ok sw \<longleftrightarrow> length (sw_timestamps sw) = RL_MAX_TIMESTAMPS \<and> sw_head sw < RL_MAX_TIMESTAMPS \<and>
     sw_timestamp_count sw \<le> RL_MAX_TIMESTAMPS \<and> sw_tail sw = (sw_head sw + sw_timestamp_count sw) mod RL_MAX_TIMESTAMPS"

lemma length_sw_queue [simp]: "length (sw_queue sw) = sw_timestamp_count sw"
  by (simp add: sw_queue_def)

lemma sw_queue_Cons:
  assumes "sw_ok sw" and "0 < sw_timestamp_count sw"
  shows "sw_queue sw = sw_timestamps sw ! sw_head sw #
      sw_queue (sw\<lparr>sw_head := (sw_head sw + 1) mod RL_MAX_TIMESTAMPS, sw_timestamp_count := sw_timestamp_count sw - 1\<rparr>)"
    and "sw_ok (sw\<lparr>sw_head := (sw_head sw + 1) mod RL_MAX_TIMESTAMPS, sw_timestamp_count := sw_timestamp_count sw - 1\<rparr>)"
proof -
  obtain n where n: "sw_timestamp_count sw = Suc n" using assms(2) gr0_implies_Suc by blast
  have mod: "((sw_head sw + 1) mod 1024 + i) mod 1024 = (sw_head sw + Suc i) mod 1024" for i by (simp add: mod_simps)
  have head: "sw_head sw mod 1024 = sw_head sw" using assms(1) by (simp add: sw_ok_def)
  show "sw_queue sw = sw_timestamps sw ! sw_head sw #
      sw_queue (sw\<lparr>sw_head := (sw_head sw + 1) mod RL_MAX_TIMESTAMPS, sw_timestamp_count := sw_timestamp_count sw - 1\<rparr>)"
  proof (rule nth_equalityI)
    fix i
    assume "i < length (sw_queue sw)"
    then show "sw_queue sw ! i = (sw_timestamps sw ! sw_head sw #
        sw_queue (sw\<lparr>sw_head := (sw_head sw + 1) mod RL_MAX_TIMESTAMPS, sw_timestamp_count := sw_timestamp_count sw - 1\<rparr>)) ! i"
      using mod head n by (cases i) (auto simp: sw_queue_def simp del: upt_Suc)
  qed (simp add: n)
  show "sw_ok (sw\<lparr>sw_head := (sw_head sw + 1) mod RL_MAX_TIMESTAMPS, sw_timestamp_count := sw_timestamp_count sw - 1\<rparr>)"
    using assms n mod [of n] by (auto simp: sw_ok_def)
qed

lemma sw_evict_queue:
  assumes "sw_ok sw"
  shows "sw_ok (sw_evict ws sw) \<and> sw_queue (sw_evict ws sw) = dropWhile (\<lambda>x. x < ws) (sw_queue sw) \<and>
    sw_window_size_ms (sw_evict ws sw) = sw_window_size_ms sw \<and> sw_max_requests (sw_evict ws sw) = sw_max_requests sw"
  using assms
proof (induction ws sw rule: sw_evict.induct)
  case (1 ws sw)
  show ?case
  proof (cases "0 < sw_timestamp_count sw")
    case True
    note q = sw_queue_Cons [OF "1.prems" True]
    show ?thesis
    proof (cases "sw_timestamps sw ! sw_head sw < ws")
      case less: True
      show ?thesis using "1.IH" [OF _ q(2)] True less by (subst (1 2 3 4) sw_evict.simps) (simp add: q(1))
    next
      case False
      then show ?thesis using "1.prems" True by (subst (1 2 3 4) sw_evict.simps) (simp add: q(1))
    qed
  next
    case False
    then have "sw_queue sw = []" by (simp add: sw_queue_def)
    then show ?thesis using "1.prems" False by (subst (1 2 3 4) sw_evict.simps) simp
  qed
qed

lemma sw_push_queue:
  assumes "sw_ok sw" and "sw_timestamp_count sw < RL_MAX_TIMESTAMPS"
  shows "sw_ok (sw\<lparr>sw_timestamps := (sw_timestamps sw)[sw_tail sw := now],
        sw_tail := (sw_tail sw + 1) mod RL_MAX_TIMESTAMPS, sw_timestamp_count := sw_timestamp_count sw + 1\<rparr>)"
    and "sw_queue (sw\<lparr>sw_timestamps := (sw_timestamps sw)[sw_tail sw := now],
        sw_tail := (sw_tail sw + 1) mod RL_MAX_TIMESTAMPS, sw_timestamp_count := sw_timestamp_count sw + 1\<rparr>) = sw_queue sw @ [now]"
proof -
  have tail: "sw_tail sw = (sw_head sw + sw_timestamp_count sw) mod 1024" "sw_tail sw < length (sw_timestamps sw)"
    using assms(1) by (auto simp: sw_ok_def)
  have other: "(sw_head sw + i) mod 1024 \<noteq> sw_tail sw" if i: "i < sw_timestamp_count sw" for i
  proof
    assume "(sw_head sw + i) mod 1024 = sw_tail sw"
    then have "1024 dvd (sw_head sw + sw_timestamp_count sw) - (sw_head sw + i)"
      unfolding tail(1) by (intro mod_eq_dvd_iff_nat [THEN iffD1]) (use i in auto)
    then have "1024 dvd sw_timestamp_count sw - i" by simp
    then show False using i assms(2) by (auto dest: dvd_imp_le)
  qed
  show "sw_ok (sw\<lparr>sw_timestamps := (sw_timestamps sw)[sw_tail sw := now],
        sw_tail := (sw_tail sw + 1) mod RL_MAX_TIMESTAMPS, sw_timestamp_count := sw_timestamp_count sw + 1\<rparr>)"
    using assms by (simp add: sw_ok_def mod_simps)
  show "sw_queue (sw\<lparr>sw_timestamps := (sw_timestamps sw)[sw_tail sw := now],
        sw_tail := (sw_tail sw + 1) mod RL_MAX_TIMESTAMPS, sw_timestamp_count := sw_timestamp_count sw + 1\<rparr>) = sw_queue sw @ [now]"
  proof -
    have "map (\<lambda>i. (sw_timestamps sw)[sw_tail sw := now] ! ((sw_head sw + i) mod 1024)) [0..<sw_timestamp_count sw] = sw_queue sw"
      unfolding sw_queue_def by (rule map_cong [OF refl]) (simp add: nth_list_update_neq [OF not_sym [OF other]])
    moreover have "(sw_timestamps sw)[sw_tail sw := now] ! ((sw_head sw + sw_timestamp_count sw) mod 1024) = now"
      using tail(2) unfolding tail(1) [symmetric] by simp
    ultimately show ?thesis by (simp add: sw_queue_def [of "_\<lparr>sw_timestamp_count := _\<rparr>"])
  qed
qed

text \<open>The log after some admissions: what is no longer in the buffer is older than the window of the last request.\<close>

definition sw_history :: "64 word list \<Rightarrow> nat \<Rightarrow> sliding_window_log \<Rightarrow> bool" where
  "sw_history adm t sw \<longleftrightarrow> sw_ok sw \<and> sw_max_requests sw \<le> 1024 \<and> (\<forall>x \<in> set adm. unat x \<le> t) \<and>
     (\<exists>old. adm = old @ sw_queue sw \<and> (\<forall>x \<in> set old. unat x + unat (sw_window_size_ms sw) < t)) \<and>
     (\<forall>u. length (filter (\<lambda>x. u \<le> unat x \<and> unat x \<le> u + unat (sw_window_size_ms sw)) adm) \<le> nat (sw_max_requests sw))"

lemma sw_evict_history:
  assumes h: "sw_history adm t sw" and now: "t \<le> unat now" "sw_window_size_ms sw \<le> now"
  shows "sw_history adm (unat now) (sw_evict (now - sw_window_size_ms sw) sw)"
proof -
  let ?w = "sw_window_size_ms sw" and ?q = "sw_queue sw"
  obtain old where ok: "sw_ok sw" "sw_max_requests sw \<le> 1024" "\<forall>x \<in> set adm. unat x \<le> t" "adm = old @ ?q"
      "\<forall>x \<in> set old. unat x + unat ?w < t"
    and few: "\<forall>u. length (filter (\<lambda>x. u \<le> unat x \<and> unat x \<le> u + unat ?w) adm) \<le> nat (sw_max_requests sw)"
    using h by (auto simp: sw_history_def)
  note new = sw_evict_queue [OF ok(1), of "now - ?w"]
  let ?gone = "takeWhile (\<lambda>x. x < now - ?w) ?q"
  have ws: "unat (now - ?w) = unat now - unat ?w" "unat ?w \<le> unat now" using now(2) by (simp_all add: unat_sub word_le_nat_alt)
  have gone: "\<forall>x \<in> set (old @ ?gone). unat x + unat ?w < unat now"
    using ok(5) now(1) ws set_takeWhileD [of _ "\<lambda>x. x < now - ?w" ?q] by (fastforce simp: word_less_nat_alt)
  have "adm = (old @ ?gone) @ sw_queue (sw_evict (now - ?w) sw)" using ok(4) new by simp
  then have "\<exists>old. adm = old @ sw_queue (sw_evict (now - ?w) sw) \<and> (\<forall>x \<in> set old. unat x + unat ?w < unat now)"
    using gone by blast
  moreover have "\<forall>x \<in> set adm. unat x \<le> unat now" using ok(3) now(1) by auto
  ultimately show ?thesis using new ok(2) few unfolding sw_history_def by simp
qed

lemma sw_push_history:
  assumes h: "sw_history adm (unat now) sw" and room: "int (sw_timestamp_count sw) < sw_max_requests sw"
  shows "sw_history (adm @ [now]) (unat now) (sw\<lparr>sw_timestamps := (sw_timestamps sw)[sw_tail sw := now],
        sw_tail := (sw_tail sw + 1) mod RL_MAX_TIMESTAMPS, sw_timestamp_count := sw_timestamp_count sw + 1\<rparr>)"
    (is "sw_history _ _ ?sw")
proof -
  let ?w = "sw_window_size_ms sw"
  obtain old where ok: "sw_ok sw" "sw_max_requests sw \<le> 1024" "\<forall>x \<in> set adm. unat x \<le> unat now" "adm = old @ sw_queue sw"
      "\<forall>x \<in> set old. unat x + unat ?w < unat now"
    and few: "\<And>u. length (filter (\<lambda>x. u \<le> unat x \<and> unat x \<le> u + unat ?w) adm) \<le> nat (sw_max_requests sw)"
    using h by (auto simp: sw_history_def)
  note new = sw_push_queue [OF ok(1), of now]
  have split: "adm @ [now] = old @ sw_queue ?sw" using ok(2,4) new(2) room by simp
  have "length (filter (\<lambda>x. u \<le> unat x \<and> unat x \<le> u + unat ?w) (adm @ [now])) \<le> nat (sw_max_requests sw)" for u
  proof (cases "unat now \<le> u + unat ?w")
    case True
    then have "\<not> u \<le> unat x" if "x \<in> set old" for x using bspec [OF ok(5) that] by linarith
    then have "filter (\<lambda>x. u \<le> unat x \<and> unat x \<le> u + unat ?w) old = []" unfolding filter_empty_conv by blast
    then have "length (filter (\<lambda>x. u \<le> unat x \<and> unat x \<le> u + unat ?w) (adm @ [now])) \<le> length (sw_queue ?sw)"
      unfolding split filter_append using length_filter_le [of _ "sw_queue ?sw"] by simp
    also have "\<dots> \<le> nat (sw_max_requests sw)" using room by simp
    finally show ?thesis .
  next
    case False
    then show ?thesis using few [of u] by simp
  qed
  moreover have "sw_ok ?sw" using new(1) ok(2) room by simp
  moreover have "\<forall>x \<in> set (adm @ [now]). unat x \<le> unat now" using ok(3) by simp
  moreover have "\<exists>old. adm @ [now] = old @ sw_queue ?sw \<and> (\<forall>x \<in> set old. unat x + unat ?w < unat now)"
    using split ok(5) by blast
  ultimately show ?thesis using ok(2) unfolding sw_history_def by simp
qed

lemma sw_take_history:
  assumes "sw_history adm t sw" and "t \<le> unat now" and "sw_window_size_ms sw \<le> now" and "sw_take now sw = (b, sw')"
  shows "sw_history (adm @ (if b then [now] else [])) (unat now) sw'"
    and "sw_window_size_ms sw' = sw_window_size_ms sw" and "sw_max_requests sw' = sw_max_requests sw"
  using sw_evict_history [OF assms(1-3)] sw_push_history [of adm now "sw_evict (now - sw_window_size_ms sw) sw"]
    sw_evict_queue [of sw "now - sw_window_size_ms sw"] assms(1,4)
  by (auto simp: sw_take_def Let_def sw_history_def [of adm t sw] split: if_splits)

definition rl_sliding :: "64 word \<Rightarrow> int \<Rightarrow> 64 word list \<Rightarrow> nat \<Rightarrow> rate_limiter \<Rightarrow> bool" where
  "rl_sliding w m adm t rl \<longleftrightarrow> rl_algorithm rl = RL_SLIDING_WINDOW_LOG \<and> (\<forall>cl \<in> set (rl_clients rl). cl_algorithm cl = RL_SLIDING_WINDOW_LOG) \<and>
     sw_window_size_ms (rl_sw rl) = w \<and> sw_max_requests (rl_sw rl) = m \<and> sw_history adm t (rl_sw rl)"

lemma rl_sliding_allow:
  assumes "rl_sliding w m adm t rl" and "t \<le> unat (snd now)" and "w \<le> snd now" and "rl_allow now rl = (b, rl')"
  shows "rl_sliding w m (adm @ (if b then [snd now] else [])) (unat (snd now)) rl'"
proof -
  let ?sw = "rl_sw rl"
  have s: "rl_algorithm rl = RL_SLIDING_WINDOW_LOG" "sw_history adm t ?sw" "sw_window_size_ms ?sw = w" "sw_max_requests ?sw = m"
    "\<forall>cl \<in> set (rl_clients rl). cl_algorithm cl = RL_SLIDING_WINDOW_LOG"
    using assms(1) by (simp_all add: rl_sliding_def)
  let ?e = "sw_evict (snd now - w) ?sw"
  have e: "sw_history adm (unat (snd now)) ?e" "sw_window_size_ms ?e = w" "sw_max_requests ?e = m"
    using sw_evict_history [OF s(2) assms(2)] sw_evict_queue [of ?sw "snd now - w"] s(2-4) assms(3) by (auto simp: sw_history_def)
  obtain sw' where take: "sw_take (snd now) ?e = (b, sw')"
    and rl': "rl' = rl\<lparr>rl_sw := sw', rl_clients := map (rl_refill_client now) (rl_clients rl)\<rparr>"
    using assms(4) s(1,3) by (auto simp: rl_allow_def rl_refill_def Let_def split: prod.splits)
  note new = sw_take_history [OF e(1) order_refl _ take]
  show ?thesis using new e(2,3) assms(3) s by (auto simp: rl_sliding_def rl' rl_refill_client_def)
qed

lemma rl_sliding_serve:
  assumes "rl_sliding w m adm t rl" and "t \<le> unat (snd (fst q))" and "w \<le> snd (fst q)" and "rl_serve q rl = (b, rl')"
  shows "\<exists>t'. t' \<le> unat (snd (fst q)) \<and> t \<le> t' \<and> rl_sliding w m (adm @ (if b then [snd (fst q)] else [])) t' rl'"
proof -
  obtain now co where q: "q = (now, co)" by (cases q)
  show ?thesis
  proof (cases co)
    case None
    then show ?thesis using rl_sliding_allow [OF assms(1), of now b rl'] assms(2-4) q by (auto simp: rl_serve_def)
  next
    case (Some cid)
    then have serve: "rl_allow_client now cid rl = (b, rl')" using assms(4) q by (simp add: rl_serve_def)
    show ?thesis
    proof (cases "rl_get_or_create_client rl cid now")
      case None
      then show ?thesis using serve assms(1,2) q by (auto simp: rl_allow_client_def)
    next
      case (Some ir)
      obtain i r where ir: "ir = (i, r)" by (cases ir)
      have r: "rl_sliding w m adm t r" "i < length (rl_clients r)"
        using Some ir assms(1) by (auto simp: rl_get_or_create_client_def rl_sliding_def Let_def dest: find_index_SomeD(1)
            split: option.splits if_splits)
      then have "cl_algorithm (rl_clients r ! i) = RL_SLIDING_WINDOW_LOG" by (simp add: rl_sliding_def)
      then have "rl_allow now r = (b, rl')" using serve Some ir by (simp add: rl_allow_client_def)
      then show ?thesis using rl_sliding_allow [OF r(1), of now b rl'] assms(2,3) q by auto
    qed
  qed
qed

lemma rl_sliding_run:
  assumes "rl_sliding w m adm t rl" and "rl_run rl_serve qs rl = (as, rl')" and "sorted (map (\<lambda>q. unat (snd (fst q))) qs)"
    and "\<forall>q \<in> set qs. t \<le> unat (snd (fst q)) \<and> w \<le> snd (fst q)"
  shows "\<exists>t'. rl_sliding w m (adm @ map (\<lambda>q. snd (fst q)) as) t' rl'"
  using assms
proof (induction qs arbitrary: rl adm t as)
  case (Cons q qs)
  obtain b r as1 where step: "rl_serve q rl = (b, r)" "rl_run rl_serve qs r = (as1, rl')" "as = (if b then q # as1 else as1)"
    using Cons.prems(2) by (auto split: prod.splits)
  obtain t' where t': "t' \<le> unat (snd (fst q))" "rl_sliding w m (adm @ (if b then [snd (fst q)] else [])) t' r"
    using rl_sliding_serve [OF Cons.prems(1) _ _ step(1)] Cons.prems(4) by auto
  have "\<exists>t''. rl_sliding w m ((adm @ (if b then [snd (fst q)] else [])) @ map (\<lambda>q. snd (fst q)) as1) t'' rl'"
    by (rule Cons.IH [OF t'(2) step(2)]) (use Cons.prems(3,4) t'(1) in auto)
  then show ?case using step(3) by (cases b) auto
qed auto

text \<open>
  C21. The sliding window is exact: while the clock readings do not decrease, none lies before the end of the first window and the
  limit fits the log of 1024 entries, in every interval of the window's length, wherever it begins, no more requests are
  admitted than the limit, whether they name clients or not.
\<close>

theorem rl_sliding_window_bound:
  assumes "rl_run rl_serve qs (rl_init RL_SLIDING_WINDOW_LOG rate burst window start) = (as, rl')"
    and "0 < window" and "c_int rate \<le> 1024"
    and "sorted (map (\<lambda>q. unat (snd (fst q))) qs)" and "\<forall>q \<in> set qs. window \<le> snd (fst q)"
  shows "length (filter (\<lambda>q. u \<le> unat (snd (fst q)) \<and> unat (snd (fst q)) \<le> u + unat window) as) \<le> nat (c_int rate)"
proof -
  let ?rl = "rl_init RL_SLIDING_WINDOW_LOG rate burst window start"
  have "rl_sliding window (c_int rate) [] 0 ?rl"
    using assms(2,3) by (simp add: rl_sliding_def rl_init_def Let_def sw_history_def sw_ok_def sw_queue_def)
  then obtain t' where "rl_sliding window (c_int rate) (map (\<lambda>q. snd (fst q)) as) t' rl'"
    using rl_sliding_run [OF _ assms(1,4)] assms(5) by fastforce
  then have "length (filter (\<lambda>x. u \<le> unat x \<and> unat x \<le> u + unat window) (map (\<lambda>q. snd (fst q)) as)) \<le> nat (c_int rate)"
    by (auto simp: rl_sliding_def sw_history_def)
  then show ?thesis by (simp add: filter_map comp_def)
qed

theorem rl_sliding_window_bound_witness:
  "length (filter (\<lambda>q. 2000 \<le> unat (snd (fst q)) \<and> unat (snd (fst q)) \<le> 2000 + unat (1000 :: 64 word))
     (fst (rl_run rl_serve [((2, 2000), None), ((2, 2500), Some ''c'')] (rl_init RL_SLIDING_WINDOW_LOG 1 0 1000 (0, 0))))) \<le> 1"
proof -
  obtain as rl' where run: "rl_run rl_serve [((2, 2000), None), ((2, 2500), Some ''c'')]
      (rl_init RL_SLIDING_WINDOW_LOG 1 0 1000 (0, 0)) = (as, rl')" by fastforce
  have "c_int 1 = 1" by (simp add: c_int_def)
  then show ?thesis using rl_sliding_window_bound [OF run, of 2000] run by simp
qed

section \<open>Behaviour at the edges\<close>

text \<open>Before the clock has reached the length of the window, the start of the window wraps to the far end of the range,
  every entry counts as old, and nothing is limited.\<close>

lemma rl_sliding_window_wraps:
  "fst (rl_allow (0, 5) (snd (rl_allow (0, 5) (rl_init RL_SLIDING_WINDOW_LOG 1 0 1000 (0, 5)))))"
proof -
  let ?t = "(replicate 1024 0)[0 := 5 :: 64 word]"
  have lt: "(5 :: 64 word) < - 995" by code_simp
  have empty: "sw_evict ws sw = sw" if "sw_timestamp_count sw = 0" for ws sw using that by (simp add: sw_evict.simps)
  have drop: "sw_evict (- 995) \<lparr>sw_window_size_ms = 1000, sw_max_requests = 1, sw_timestamps = ?t, sw_timestamp_count = Suc 0,
        sw_head = 0, sw_tail = Suc 0\<rparr> = \<lparr>sw_window_size_ms = 1000, sw_max_requests = 1, sw_timestamps = ?t, sw_timestamp_count = 0,
        sw_head = 1, sw_tail = 1\<rparr>"
    by (subst sw_evict.simps) (simp add: empty lt)
  show ?thesis
    by (simp add: rl_init_def Let_def c_int_def rl_allow_def rl_refill_def sw_take_def empty drop)
qed

text \<open>The identifier of a client is stored cut off after 63 characters but compared in full: a longer one is never found
  again, and each of its requests gets a new bucket.\<close>

lemma rl_long_client_recreated:
  assumes "63 < length cid" and "\<forall>cl \<in> set (rl_clients rl). length (cl_client_id cl) < 64" and "length (rl_clients rl) < RL_MAX_CLIENTS"
  shows "\<exists>rl'. rl_get_or_create_client rl cid now = Some (length (rl_clients rl), rl') \<and>
    length (rl_clients rl') = Suc (length (rl_clients rl))"
proof -
  have "find_index (\<lambda>cl. cl_client_id cl = cid) (rl_clients rl) = None" using assms(1,2) by (auto simp: find_index_None_iff)
  then show ?thesis using assms(3) by (simp add: rl_get_or_create_client_def Let_def)
qed

end
