(* ===== verification/HttpMessage.thy ===== *)
theory HttpMessage
  imports Net_Prelude
begin

text \<open>
  The HTTP messages of \<open>mini-gateway-proxy/src/http_message.c\<close>: requests with their headers, the parser of a request and
  its printer, responses, chunked transfer encoding, normalisation of URIs, query strings and content types. Left out are
  the negotiation of the \<open>Accept\<close> header, which scores with \<open>double\<close>, and the security audit, which prints a report.

  A C string is a list of characters without NUL; a buffer with a length is a list that may contain it. The raw buffer of
  a request is the list of its \<open>raw_len\<close> characters; \<open>strtok_r\<close> overwrites the delimiter behind each token with NUL, as
  the model does. A parser that would search past the end of a full buffer returns \<open>None\<close>, as does a printer that would
  write past the end of its buffer.
\<close>

section \<open>The parts of the C library that the module uses\<close>

abbreviation NUL :: char where "NUL \<equiv> CHR 0x00"
abbreviation CR :: char where "CR \<equiv> CHR 0x0D"
abbreviation LF :: char where "LF \<equiv> CHR 0x0A"
abbreviation TAB :: char where "TAB \<equiv> CHR 0x09"

definition c_isspace :: "char \<Rightarrow> bool" where
  "c_isspace c \<longleftrightarrow> c \<in> {CHR '' '', TAB, LF, CHR 0x0B, CHR 0x0C, CR}"

definition c_tolower :: "char \<Rightarrow> char" where
  "c_tolower c = (let n = (of_char c :: nat) in if 65 \<le> n \<and> n \<le> 90 then char_of (n + 32) else c)"

definition strcaseeq :: "string \<Rightarrow> string \<Rightarrow> bool" where
  "strcaseeq s t \<longleftrightarrow> map c_tolower s = map c_tolower t"

fun strstr_at :: "string \<Rightarrow> string \<Rightarrow> nat option" where
  "strstr_at pat [] = (if pat = [] then Some 0 else None)"
| "strstr_at pat (c # s) = (if take (length pat) (c # s) = pat then Some 0 else map_option Suc (strstr_at pat s))"

text \<open>A \<open>%s\<close> conversion of \<open>sscanf\<close> with a width: skip white space, take at most that many other characters.\<close>

definition scan_word :: "nat \<Rightarrow> string \<Rightarrow> (string \<times> string) option" where
  "scan_word n s =
     (let s = dropWhile c_isspace s; w = take n (takeWhile (\<lambda>c. \<not> c_isspace c) s) in
      if w = [] then None else Some (w, drop (length w) s))"

text \<open>One call of \<open>strtok_r\<close>: the token, the characters it leaves in the buffer up to the next position, and the rest.\<close>

definition strtok :: "(char \<Rightarrow> bool) \<Rightarrow> string \<Rightarrow> (string \<times> string \<times> string) option" where
  "strtok delim s =
     (let lead = takeWhile delim s; s' = dropWhile delim s;
          tok = takeWhile (\<lambda>c. \<not> delim c) s'; rest = dropWhile (\<lambda>c. \<not> delim c) s' in
      if s' = [] then None
      else Some (tok, lead @ tok @ (if rest = [] then [] else [NUL]), tl rest))"

lemma strtok_shorter: "strtok delim s = Some (tok, used, rest) \<Longrightarrow> length rest < length s"
proof -
  assume *: "strtok delim s = Some (tok, used, rest)"
  let ?s' = "dropWhile delim s"
  have ne: "?s' \<noteq> []" and rest: "rest = tl (dropWhile (\<lambda>c. \<not> delim c) ?s')"
    using * by (auto simp: strtok_def Let_def split: if_splits)
  have "length (dropWhile (\<lambda>c. \<not> delim c) ?s') \<le> length ?s'" by (rule length_dropWhile_le)
  moreover have "length ?s' \<le> length s" by (rule length_dropWhile_le)
  ultimately show ?thesis using ne rest by (cases "dropWhile (\<lambda>c. \<not> delim c) ?s'") (auto simp: le_less_trans)
qed

definition c_isdigit :: "char \<Rightarrow> bool" where
  "c_isdigit c \<longleftrightarrow> 48 \<le> (of_char c :: nat) \<and> (of_char c :: nat) \<le> 57"

definition digits_value :: "string \<Rightarrow> nat" where
  "digits_value s = fold (\<lambda>c v. v * 10 + (of_char c - 48)) s 0"

text \<open>\<open>atol\<close>; the value of a number that does not fit is the nearest one that does, as \<open>strtol\<close> has it.\<close>

definition atol :: "string \<Rightarrow> int" where
  "atol s =
     (let s = dropWhile c_isspace s;
          neg = (s \<noteq> [] \<and> hd s = CHR ''-'');
          s = (if s \<noteq> [] \<and> hd s \<in> {CHR ''-'', CHR ''+''} then tl s else s);
          v = int (digits_value (takeWhile c_isdigit s)) in
      if neg then max (- 9223372036854775808) (- v) else min 9223372036854775807 v)"

section \<open>Requests\<close>

abbreviation HM_MAX_HEADERS :: nat where "HM_MAX_HEADERS \<equiv> 64"
abbreviation HM_MAX_HEADER_LEN :: nat where "HM_MAX_HEADER_LEN \<equiv> 256"
abbreviation HM_MAX_VALUE_LEN :: nat where "HM_MAX_VALUE_LEN \<equiv> 1024"
abbreviation HM_MAX_URI :: nat where "HM_MAX_URI \<equiv> 2048"
abbreviation HM_MAX_METHOD :: nat where "HM_MAX_METHOD \<equiv> 16"
abbreviation HM_MAX_BODY :: nat where "HM_MAX_BODY \<equiv> 65536"

datatype http_method = HM_GET | HM_POST | HM_PUT | HM_DELETE | HM_PATCH | HM_HEAD | HM_OPTIONS | HM_CONNECT | HM_TRACE
datatype http_version = HM_VER_1_0 | HM_VER_1_1 | HM_VER_2_0
datatype http_parse_state = HM_START_LINE | HM_HEADERS | HM_BODY | HM_COMPLETE | HM_ERROR
datatype transfer_encoding = HM_TE_IDENTITY | HM_TE_CHUNKED | HM_TE_COMPRESS | HM_TE_DEFLATE | HM_TE_GZIP

record http_header =
  hh_name :: string
  hh_value :: string

record http_request =
  rq_method :: string
  rq_uri :: string
  rq_version :: http_version
  rq_headers :: "http_header list"
  rq_body :: string
  rq_keep_alive :: bool
  rq_te :: transfer_encoding
  rq_parse_state :: http_parse_state
  rq_content_length :: nat
  rq_content_length_set :: bool
  rq_raw :: string

definition hm_request_init :: http_request where
  "hm_request_init = \<lparr>rq_method = [], rq_uri = [], rq_version = HM_VER_1_1, rq_headers = [], rq_body = [], rq_keep_alive = True,
     rq_te = HM_TE_IDENTITY, rq_parse_state = HM_START_LINE, rq_content_length = 0, rq_content_length_set = False, rq_raw = []\<rparr>"

definition hm_method_enum :: "string \<Rightarrow> http_method" where
  "hm_method_enum m = (if m = ''GET'' then HM_GET else if m = ''POST'' then HM_POST else if m = ''PUT'' then HM_PUT
     else if m = ''DELETE'' then HM_DELETE else if m = ''PATCH'' then HM_PATCH else if m = ''HEAD'' then HM_HEAD
     else if m = ''OPTIONS'' then HM_OPTIONS else if m = ''CONNECT'' then HM_CONNECT else if m = ''TRACE'' then HM_TRACE
     else HM_GET)"

fun hm_method_str :: "http_method \<Rightarrow> string" where
  "hm_method_str HM_GET = ''GET''"
| "hm_method_str HM_POST = ''POST''"
| "hm_method_str HM_PUT = ''PUT''"
| "hm_method_str HM_DELETE = ''DELETE''"
| "hm_method_str HM_PATCH = ''PATCH''"
| "hm_method_str HM_HEAD = ''HEAD''"
| "hm_method_str HM_OPTIONS = ''OPTIONS''"
| "hm_method_str HM_CONNECT = ''CONNECT''"
| "hm_method_str HM_TRACE = ''TRACE''"


definition hm_parse_request_line :: "http_request \<Rightarrow> string \<Rightarrow> int \<times> http_request" where
  "hm_parse_request_line req line =
     (case scan_word 15 line of
        None \<Rightarrow> (-1, req)
      | Some (method, line) \<Rightarrow>
          (case scan_word 2047 line of
             None \<Rightarrow> (-1, req)
           | Some (uri, line) \<Rightarrow>
               (case scan_word 15 line of
                  None \<Rightarrow> (-1, req)
                | Some (version, _) \<Rightarrow>
                    (let req = req\<lparr>rq_method := strncpy_z HM_MAX_METHOD method, rq_uri := strncpy_z HM_MAX_URI uri\<rparr> in
                     if version = ''HTTP/1.0'' then (0, req\<lparr>rq_version := HM_VER_1_0, rq_keep_alive := False\<rparr>)
                     else (0, req\<lparr>rq_version := HM_VER_1_1\<rparr>)))))"

definition strip_end :: "char set \<Rightarrow> string \<Rightarrow> string" where
  "strip_end cs s = rev (dropWhile (\<lambda>c. c \<in> cs) (rev s))"

definition header_value :: "string \<Rightarrow> string" where
  "header_value s = strip_end {CR, LF, CHR '' ''} (dropWhile (\<lambda>c. c \<in> {CHR '' '', TAB}) s)"

definition hm_apply_header :: "http_header \<Rightarrow> http_request \<Rightarrow> http_request" where
  "hm_apply_header h req =
     (let req = (if strcaseeq (hh_name h) ''Content-Length''
            then req\<lparr>rq_content_length := unat (of_int (atol (hh_value h)) :: 64 word), rq_content_length_set := True\<rparr> else req);
          req = (if strcaseeq (hh_name h) ''Connection'' \<and> strcaseeq (hh_value h) ''close''
            then req\<lparr>rq_keep_alive := False\<rparr> else req);
          req = (if strcaseeq (hh_name h) ''Transfer-Encoding'' then
              (if strcaseeq (hh_value h) ''chunked'' then req\<lparr>rq_te := HM_TE_CHUNKED\<rparr>
               else if strcaseeq (hh_value h) ''gzip'' then req\<lparr>rq_te := HM_TE_GZIP\<rparr>
               else if strcaseeq (hh_value h) ''deflate'' then req\<lparr>rq_te := HM_TE_DEFLATE\<rparr> else req)
            else req) in
      req\<lparr>rq_headers := rq_headers req @ [h]\<rparr>)"

definition hm_parse_header_line :: "http_request \<Rightarrow> string \<Rightarrow> int \<times> http_request" where
  "hm_parse_header_line req line =
     (if CHR '':'' \<notin> set line then (-1, req)
      else let name = strncpy_z HM_MAX_HEADER_LEN (takeWhile (\<lambda>c. c \<noteq> CHR '':'') line);
               value = header_value (tl (dropWhile (\<lambda>c. c \<noteq> CHR '':'') line)) in
      if length (rq_headers req) \<ge> HM_MAX_HEADERS then (-1, req)
      else let h = \<lparr>hh_name = name, hh_value = strncpy_z HM_MAX_VALUE_LEN value\<rparr> in
      if strcaseeq name ''Host'' \<and> value = [] then (-1, req)
      else (0, hm_apply_header h req))"

function hm_header_lines :: "http_request \<Rightarrow> string \<Rightarrow> string \<Rightarrow> int \<times> http_request \<times> string" where
  "hm_header_lines req seen s =
     (case strtok (\<lambda>c. c \<in> {CR, LF}) s of
        None \<Rightarrow> (0, req, seen @ s)
      | Some (line, used, rest) \<Rightarrow>
          (case hm_parse_header_line req line of (r, req) \<Rightarrow>
             if r < 0 then (-1, req, seen @ used @ rest) else hm_header_lines req (seen @ used) rest))"
  by pat_completeness auto
termination
  by (relation "measure (\<lambda>(req, seen, s). length s)") (auto dest: strtok_shorter)

declare hm_header_lines.simps [simp del]

definition hm_parse_request :: "http_request \<Rightarrow> string \<Rightarrow> (int \<times> http_request) option" where
  "hm_parse_request req data =
     (if data = [] then Some (-1, req)
      else let raw = rq_raw req @ take (HM_MAX_BODY - length (rq_raw req)) data;
               req = req\<lparr>rq_raw := raw\<rparr> in
      case strstr_at [CR, LF, CR, LF] (takeWhile (\<lambda>c. c \<noteq> NUL) raw) of
        None \<Rightarrow>
          if length raw \<ge> HM_MAX_BODY
          then (if NUL \<in> set raw then Some (-1, req\<lparr>rq_parse_state := HM_ERROR\<rparr>) else None)
          else Some (0, req)
      | Some p \<Rightarrow>
          (let head = take p raw; tail = NUL # drop (p + 1) raw in
           case strtok (\<lambda>c. c \<in> {CR, LF}) head of
             None \<Rightarrow> Some (-1, req\<lparr>rq_raw := head @ tail, rq_parse_state := HM_ERROR\<rparr>)
           | Some (line, used, rest) \<Rightarrow>
               (case hm_parse_request_line req line of (r, req) \<Rightarrow>
                  if r < 0 then Some (-1, req\<lparr>rq_raw := used @ rest @ tail, rq_parse_state := HM_ERROR\<rparr>)
                  else case hm_header_lines req used rest of (r, req, head) \<Rightarrow>
                    let req = req\<lparr>rq_raw := head @ tail\<rparr> in
                    if r < 0 then Some (-1, req\<lparr>rq_parse_state := HM_ERROR\<rparr>)
                    else let req = (if rq_content_length_set req \<and> rq_content_length req > 0
                           then req\<lparr>rq_body := take (rq_content_length req) (drop (p + 4) raw)\<rparr> else req) in
                    Some (0, req\<lparr>rq_parse_state := HM_COMPLETE\<rparr>))))"

definition hm_header_index :: "http_request \<Rightarrow> string \<Rightarrow> nat option" where
  "hm_header_index req name = find_index (\<lambda>h. strcaseeq (hh_name h) name) (rq_headers req)"

definition hm_set_header :: "http_request \<Rightarrow> string \<Rightarrow> string \<Rightarrow> int \<times> http_request" where
  "hm_set_header req name value =
     (if length (rq_headers req) \<ge> HM_MAX_HEADERS then (-1, req)
      else case hm_header_index req name of
        Some i \<Rightarrow> (0, req\<lparr>rq_headers := (rq_headers req)[i := (rq_headers req ! i)\<lparr>hh_value := strncpy_z HM_MAX_VALUE_LEN value\<rparr>]\<rparr>)
      | None \<Rightarrow> (0, req\<lparr>rq_headers := rq_headers req @
          [\<lparr>hh_name = strncpy_z HM_MAX_HEADER_LEN name, hh_value = strncpy_z HM_MAX_VALUE_LEN value\<rparr>]\<rparr>))"

definition hm_get_header :: "http_request \<Rightarrow> string \<Rightarrow> string option" where
  "hm_get_header req name = map_option (\<lambda>i. hh_value (rq_headers req ! i)) (hm_header_index req name)"

definition hm_remove_header :: "http_request \<Rightarrow> string \<Rightarrow> int \<times> http_request" where
  "hm_remove_header req name =
     (case hm_header_index req name of
        Some i \<Rightarrow> (0, req\<lparr>rq_headers := remove_at i (rq_headers req)\<rparr>)
      | None \<Rightarrow> (-1, req))"

definition hm_method_is :: "http_request \<Rightarrow> string \<Rightarrow> bool" where
  "hm_method_is req method = strcaseeq (rq_method req) method"

text \<open>Printing: \<open>Some None\<close> is a null pointer, \<open>None\<close> a write past the end of the buffer.\<close>

definition header_line :: "http_header \<Rightarrow> string" where
  "header_line h = hh_name h @ '': '' @ hh_value h @ [CR, LF]"

fun hm_print_headers :: "string \<Rightarrow> http_header list \<Rightarrow> string option" where
  "hm_print_headers buf [] = Some buf"
| "hm_print_headers buf (h # hs) =
     (if length buf + length (header_line h) \<ge> HM_MAX_BODY then None else hm_print_headers (buf @ header_line h) hs)"

definition hm_print_end :: "string option \<Rightarrow> string \<Rightarrow> string \<Rightarrow> string option option" where
  "hm_print_end buf end body =
     (case buf of
        None \<Rightarrow> Some None
      | Some buf \<Rightarrow>
          if length buf + length end \<ge> HM_MAX_BODY then Some None
          else if length (buf @ end @ body) > HM_MAX_BODY then None else Some (Some (buf @ end @ body)))"


section \<open>Responses\<close>

record http_response =
  rs_status_code :: int
  rs_reason :: string
  rs_headers :: "http_header list"
  rs_body :: string

definition hm_status_reason :: "int \<Rightarrow> string" where
  "hm_status_reason code =
     (case map_of [(100, ''Continue''), (101, ''Switching Protocols''), (200, ''OK''), (201, ''Created''), (204, ''No Content''),
        (301, ''Moved Permanently''), (302, ''Found''), (304, ''Not Modified''), (400, ''Bad Request''), (401, ''Unauthorized''),
        (403, ''Forbidden''), (404, ''Not Found''), (405, ''Method Not Allowed''), (408, ''Request Timeout''), (409, ''Conflict''),
        (429, ''Too Many Requests''), (500, ''Internal Server Error''), (502, ''Bad Gateway''), (503, ''Service Unavailable''),
        (504, ''Gateway Timeout'')] code of
        Some r \<Rightarrow> r
      | None \<Rightarrow> if 200 \<le> code \<and> code < 300 then ''OK''
          else if 300 \<le> code \<and> code < 400 then ''Redirect''
          else if 400 \<le> code \<and> code < 500 then ''Client Error''
          else if 500 \<le> code \<and> code < 600 then ''Server Error'' else ''Unknown'')"

definition hm_response_init :: "int \<Rightarrow> string option \<Rightarrow> http_response" where
  "hm_response_init code reason = \<lparr>rs_status_code = code,
     rs_reason = strncpy_z 64 (case reason of Some r \<Rightarrow> r | None \<Rightarrow> hm_status_reason code), rs_headers = [], rs_body = []\<rparr>"

definition hm_response_set_header :: "http_response \<Rightarrow> string \<Rightarrow> string \<Rightarrow> int \<times> http_response" where
  "hm_response_set_header resp name value =
     (if length (rs_headers resp) \<ge> HM_MAX_HEADERS then (-1, resp)
      else (0, resp\<lparr>rs_headers := rs_headers resp @
        [\<lparr>hh_name = strncpy_z HM_MAX_HEADER_LEN name, hh_value = strncpy_z HM_MAX_VALUE_LEN value\<rparr>]\<rparr>))"

definition hm_response_set_body :: "http_response \<Rightarrow> string \<Rightarrow> int \<times> http_response" where
  "hm_response_set_body resp body = (0, resp\<lparr>rs_body := take (HM_MAX_BODY - 1) body\<rparr>)"

definition hm_response_set_json :: "http_response \<Rightarrow> string \<Rightarrow> int \<times> http_response" where
  "hm_response_set_json resp json =
     (0, snd (hm_response_set_header (resp\<lparr>rs_body := take (HM_MAX_BODY - 1) json\<rparr>) ''Content-Type'' ''application/json''))"

definition hm_response_set_html :: "http_response \<Rightarrow> string \<Rightarrow> int \<times> http_response" where
  "hm_response_set_html resp html =
     (0, snd (hm_response_set_header (resp\<lparr>rs_body := take (HM_MAX_BODY - 1) html\<rparr>) ''Content-Type'' ''text/html; charset=utf-8''))"

definition hm_build_response :: "http_response \<Rightarrow> string option option" where
  "hm_build_response resp =
     hm_print_end
       (hm_print_headers (''HTTP/1.1 '' @ int_string (rs_status_code resp) @ '' '' @ rs_reason resp @ [CR, LF]) (rs_headers resp))
       (''Content-Length: '' @ nat_string (length (rs_body resp)) @ [CR, LF, CR, LF]) (rs_body resp)"

section \<open>Chunked transfer encoding\<close>

text \<open>The digit loop skips every character that is neither a hexadecimal digit nor a carriage return; the size wraps.\<close>

definition hex_value :: "char \<Rightarrow> nat option" where
  "hex_value c = (let n = of_char c in
     if 48 \<le> n \<and> n \<le> 57 then Some (n - 48)
     else if 97 \<le> n \<and> n \<le> 102 then Some (n - 97 + 10)
     else if 65 \<le> n \<and> n \<le> 70 then Some (n - 65 + 10) else None)"

fun chunk_digits :: "nat \<Rightarrow> string \<Rightarrow> nat \<times> string" where
  "chunk_digits v [] = (v, [])"
| "chunk_digits v (c # s) =
     (case hex_value c of
        Some d \<Rightarrow> chunk_digits ((v * 16 + d) mod 2 ^ 64) s
      | None \<Rightarrow> if c = CR then (v, c # s) else chunk_digits v s)"

definition skip_line :: "string \<Rightarrow> string" where
  "skip_line s = tl (dropWhile (\<lambda>c. c \<noteq> LF) s)"

lemma length_skip_line_le: "length (skip_line s) \<le> length s"
  using length_dropWhile_le [of "\<lambda>c. c \<noteq> LF" s] by (simp add: skip_line_def)

lemma chunk_digits_shorter: "length (snd (chunk_digits v s)) \<le> length s"
  by (induction v s rule: chunk_digits.induct) (auto split: option.splits)

lemma chunk_digits_progress: "fst (chunk_digits v s) \<noteq> v \<Longrightarrow> length (snd (chunk_digits v s)) < length s"
proof (induction v s rule: chunk_digits.induct)
  case (2 v c s)
  show ?case
  proof (cases "hex_value c")
    case None
    then show ?thesis using 2 by (cases "c = CR") auto
  next
    case (Some d)
    then show ?thesis using chunk_digits_shorter [of "(v * 16 + d) mod 2 ^ 64" s] by simp
  qed
qed simp

function hm_chunked_decode :: "string \<Rightarrow> string" where
  "hm_chunked_decode s =
     (case chunk_digits 0 s of (n, s1) \<Rightarrow>
        if n = 0 then []
        else let s2 = skip_line s1 in take n s2 @ hm_chunked_decode (skip_line (drop n s2)))"
  by pat_completeness auto
termination
proof (relation "measure length", goal_cases)
  case (2 s n s1 s2)
  have "length (skip_line (drop n s2)) \<le> length (drop n s2)" by (rule length_skip_line_le)
  also have "\<dots> \<le> length s2" by simp
  also have "\<dots> \<le> length s1" using 2 length_skip_line_le by simp
  also have "\<dots> < length s" using 2 chunk_digits_progress [of 0 s] by (metis fst_conv snd_conv)
  finally show ?case by simp
qed simp

declare hm_chunked_decode.simps [simp del]

text \<open>What \<open>%zx\<close> prints.\<close>

definition hex_digit :: "nat \<Rightarrow> char" where
  "hex_digit d = (if d < 10 then char_of (48 + d) else char_of (87 + d))"

fun hex_string :: "nat \<Rightarrow> string" where
  "hex_string n = (if n < 16 then [hex_digit n] else hex_string (n div 16) @ [hex_digit (n mod 16)])"

declare hex_string.simps [simp del]

definition hm_chunked_encode :: "string \<Rightarrow> string" where
  "hm_chunked_encode input = hex_string (length input) @ [CR, LF] @ input @ [CR, LF, CHR ''0'', CR, LF, CR, LF]"

section \<open>Methods and URIs\<close>

definition hm_validate_method :: "string \<Rightarrow> bool" where
  "hm_validate_method m \<longleftrightarrow>
     m \<in> set [''GET'', ''POST'', ''PUT'', ''DELETE'', ''PATCH'', ''HEAD'', ''OPTIONS'', ''CONNECT'', ''TRACE'']"

definition hm_validate_uri :: "string \<Rightarrow> bool" where
  "hm_validate_uri uri \<longleftrightarrow> uri \<noteq> [] \<and> hd uri = CHR ''/'' \<and>
     (\<forall>c \<in> set uri. \<not> ((of_char c :: nat) \<le> 31 \<or> (of_char c :: nat) = 127)) \<and> length uri < HM_MAX_URI"

fun percent_decode :: "string \<Rightarrow> string" where
  "percent_decode (c # a # b # s) =
     (if c = CHR ''%'' \<and> hex_value a \<noteq> None \<and> hex_value b \<noteq> None
      then char_of (the (hex_value a) * 16 + the (hex_value b)) # percent_decode s
      else c # percent_decode (a # b # s))"
| "percent_decode s = s"

fun collapse_slashes :: "string \<Rightarrow> string" where
  "collapse_slashes (c # d # s) =
     (if c = CHR ''/'' \<and> d = CHR ''/'' then collapse_slashes (d # s) else c # collapse_slashes (d # s))"
| "collapse_slashes s = s"

definition hm_normalize_uri :: "string \<Rightarrow> string" where
  "hm_normalize_uri uri = collapse_slashes (takeWhile (\<lambda>c. c \<noteq> NUL) (percent_decode uri))"

section \<open>Query strings and content types\<close>

definition split_first :: "char \<Rightarrow> string \<Rightarrow> string \<times> string" where
  "split_first d s = (takeWhile (\<lambda>c. c \<noteq> d) s, tl (dropWhile (\<lambda>c. c \<noteq> d) s))"

definition query_param :: "string \<Rightarrow> http_header" where
  "query_param pair = (case split_first (CHR ''='') pair of (k, v) \<Rightarrow>
     \<lparr>hh_name = strncpy_z HM_MAX_HEADER_LEN k, hh_value = strncpy_z HM_MAX_VALUE_LEN v\<rparr>)"

fun query_params :: "nat \<Rightarrow> string \<Rightarrow> http_header list" where
  "query_params 0 s = []"
| "query_params (Suc n) s =
     (case strtok (\<lambda>c. c = CHR ''&'') s of
        None \<Rightarrow> []
      | Some (pair, _, rest) \<Rightarrow> query_param pair # query_params n rest)"

text \<open>\<open>None\<close> is the copy of \<open>SIZE_MAX\<close> bytes that an empty destination asks for.\<close>

definition hm_parse_query_string :: "string \<Rightarrow> nat \<Rightarrow> int \<Rightarrow> (string \<times> http_header list) option" where
  "hm_parse_query_string uri path_size max_params =
     (if CHR ''?'' \<in> set uri then
        (if path_size = 0 then None
         else case split_first (CHR ''?'') uri of (path, qs) \<Rightarrow>
           Some (strncpy_z path_size path, query_params (nat max_params) (strncpy_z HM_MAX_URI qs)))
      else Some (strncpy_z path_size uri, []))"

definition hm_parse_content_type :: "string \<Rightarrow> nat \<Rightarrow> nat \<Rightarrow> (string \<times> string) option" where
  "hm_parse_content_type ct mt_size cs_size =
     (if cs_size = 0 then None
      else if CHR '';'' \<in> set ct then
        (if mt_size = 0 then None
         else case split_first (CHR '';'') ct of (media, rest) \<Rightarrow>
           Some (strip_end {CHR '' ''} (strncpy_z mt_size media),
             case strstr_at ''charset='' rest of
               None \<Rightarrow> []
             | Some p \<Rightarrow> strip_end {CHR '' '', CHR '';''} (strncpy_z cs_size (drop (p + 8) rest))))
      else Some (strncpy_z mt_size ct, []))"

section \<open>Chunks survive the wire\<close>

text \<open>The encoding of RFC 7230 for a body sent in several chunks: each with its size line, then the chunk of size zero.\<close>

definition chunk :: "string \<Rightarrow> string" where
  "chunk x = hex_string (length x) @ [CR, LF] @ x @ [CR, LF]"

definition last_chunk :: string where
  "last_chunk = [CHR ''0'', CR, LF, CR, LF]"

lemma hex_value_hex_digit: "d < 16 \<Longrightarrow> hex_value (hex_digit d) = Some d"
  by (simp add: hex_value_def hex_digit_def Let_def)

lemma hex_value_CR [simp]: "hex_value CR = None"
  by (simp add: hex_value_def)

lemma chunk_digits_append:
  "\<forall>c \<in> set ds. hex_value c \<noteq> None \<Longrightarrow> chunk_digits v (ds @ s) = chunk_digits (fst (chunk_digits v ds)) s"
proof (induction ds arbitrary: v)
  case (Cons c ds)
  then obtain d where "hex_value c = Some d" by auto
  with Cons show ?case by simp
qed simp

lemma hex_string_step:
  "n < 16 \<Longrightarrow> hex_string n = [hex_digit n]"
  "16 \<le> n \<Longrightarrow> hex_string n = hex_string (n div 16) @ [hex_digit (n mod 16)]"
  by (subst hex_string.simps, simp)+

lemma hex_string_digits: "c \<in> set (hex_string n) \<Longrightarrow> hex_value c \<noteq> None"
proof (induction n rule: less_induct)
  case (less n)
  show ?case
  proof (cases "n < 16")
    case False
    then have "c \<in> set (hex_string (n div 16)) \<or> c = hex_digit (n mod 16)" using less.prems by (auto simp: hex_string_step(2))
    then show ?thesis using less.IH [of "n div 16"] False by (auto simp: hex_value_hex_digit)
  qed (use less.prems in \<open>simp add: hex_string_step(1) hex_value_hex_digit\<close>)
qed

lemma chunk_digits_hex_string: "n < 2 ^ 64 \<Longrightarrow> fst (chunk_digits 0 (hex_string n)) = n"
proof (induction n rule: less_induct)
  case (less n)
  show ?case
  proof (cases "n < 16")
    case False
    have "fst (chunk_digits 0 (hex_string (n div 16))) = n div 16" using less.IH [of "n div 16"] less.prems False by simp
    then show ?thesis using False less.prems
      by (simp add: hex_string_step(2) chunk_digits_append hex_string_digits hex_value_hex_digit)
  qed (simp add: hex_string_step(1) hex_value_hex_digit)
qed

lemma chunk_digits_size_line: "n < 2 ^ 64 \<Longrightarrow> chunk_digits 0 (hex_string n @ CR # s) = (n, CR # s)"
  by (simp add: chunk_digits_append hex_string_digits chunk_digits_hex_string)

lemma hm_chunked_decode_last: "hm_chunked_decode last_chunk = []"
  by (subst hm_chunked_decode.simps) (simp add: last_chunk_def hex_value_def)

lemma hm_chunked_decode_chunk:
  assumes "x \<noteq> []" and "length x < 2 ^ 64"
  shows "hm_chunked_decode (chunk x @ s) = x @ hm_chunked_decode s"
  using assms
  by (subst hm_chunked_decode.simps) (simp add: chunk_def chunk_digits_size_line skip_line_def)

text \<open>
  The decoder delivers the body of every chunked message, however the sender has cut it into chunks: the output is the
  concatenation of the chunks.
\<close>

theorem hm_chunked_decode_stream:
  assumes "\<forall>x \<in> set xs. x \<noteq> [] \<and> length x < 2 ^ 64"
  shows "hm_chunked_decode (concat (map chunk xs) @ last_chunk) = concat xs"
  using assms by (induction xs) (simp_all add: hm_chunked_decode_last hm_chunked_decode_chunk)

theorem hm_chunked_decode_stream_witness:
  "hm_chunked_decode (concat (map chunk [''Wiki'', ''pedia in chunks'']) @ last_chunk) = ''Wikipedia in chunks''"
  by (subst hm_chunked_decode_stream) simp_all

text \<open>What the encoder writes, the decoder reads back, the empty body included.\<close>

theorem hm_chunked_round_trip:
  assumes "length x < 2 ^ 64"
  shows "hm_chunked_decode (hm_chunked_encode x) = x"
proof (cases "x = []")
  case True
  then show ?thesis
    by (subst hm_chunked_decode.simps) (simp add: hm_chunked_encode_def hex_string.simps [of 0] hex_digit_def hex_value_def)
next
  case False
  have "hm_chunked_encode x = chunk x @ last_chunk" by (simp add: hm_chunked_encode_def chunk_def last_chunk_def)
  then show ?thesis using False assms by (simp add: hm_chunked_decode_chunk hm_chunked_decode_last)
qed

theorem hm_chunked_round_trip_witness: "hm_chunked_decode (hm_chunked_encode ''hello'') = ''hello''"
  by (rule hm_chunked_round_trip) simp

text \<open>The output never outgrows the input, whatever the input: an output buffer of the input's size is enough.\<close>

lemma length_hm_chunked_decode: "length (hm_chunked_decode s) \<le> length s"
proof (induction s rule: hm_chunked_decode.induct)
  case (1 s)
  obtain n s1 where d: "chunk_digits 0 s = (n, s1)" by (cases "chunk_digits 0 s")
  let ?s2 = "skip_line s1"
  show ?case
  proof (cases "n = 0")
    case True
    then show ?thesis by (subst hm_chunked_decode.simps) (simp add: d)
  next
    case False
    have IH: "length (hm_chunked_decode (skip_line (drop n ?s2))) \<le> length (skip_line (drop n ?s2))"
      using "1.IH" d False by simp
    have "length (skip_line (drop n ?s2)) \<le> length (drop n ?s2)" by (rule length_skip_line_le)
    then have "length (take n ?s2 @ hm_chunked_decode (skip_line (drop n ?s2))) \<le> length ?s2" using IH by auto
    also have "\<dots> \<le> length s" using length_skip_line_le [of s1] chunk_digits_shorter [of 0 s] d by simp
    finally show ?thesis using False by (subst hm_chunked_decode.simps) (simp add: d Let_def)
  qed
qed

text \<open>A chunk extension changes the size: its letters \<open>a\<close> to \<open>f\<close> count as digits.\<close>

lemma hm_chunked_extension_misread: "chunk_digits 0 (''5;a=b'' @ [CR, LF]) = (1451, [CR, LF])"
  by (simp add: hex_value_def)

section \<open>Normalised URIs\<close>

lemma collapse_slashes_hd: "s \<noteq> [] \<Longrightarrow> collapse_slashes s \<noteq> [] \<and> hd (collapse_slashes s) = hd s"
  by (induction s rule: collapse_slashes.induct) auto

lemma collapse_slashes_none: "\<not> (\<exists>u v. collapse_slashes s = u @ ''//'' @ v)"
proof (induction s rule: collapse_slashes.induct)
  case (1 c d s)
  have hd: "hd (collapse_slashes (d # s)) = d" and ne: "collapse_slashes (d # s) \<noteq> []"
    using collapse_slashes_hd [of "d # s"] by simp_all
  show ?case
  proof (cases "c = CHR ''/'' \<and> d = CHR ''/''")
    case False
    have "False" if "c # collapse_slashes (d # s) = u @ ''//'' @ v" for u v
      using that 1(2) False hd ne by (cases u) auto
    then show ?thesis using False by auto
  qed (use 1 in simp)
qed (auto simp: Cons_eq_append_conv)

lemma set_collapse_slashes: "set (collapse_slashes s) \<subseteq> set s"
  by (induction s rule: collapse_slashes.induct) auto

lemma length_collapse_slashes: "length (collapse_slashes s) \<le> length s"
  by (induction s rule: collapse_slashes.induct) auto

lemma length_percent_decode: "length (percent_decode s) \<le> length s"
  by (induction s rule: percent_decode.induct) auto

lemma percent_decode_id: "CHR ''%'' \<notin> set s \<Longrightarrow> percent_decode s = s"
  by (induction s rule: percent_decode.induct) auto

lemma collapse_slashes_id: "\<not> (\<exists>u v. s = u @ ''//'' @ v) \<Longrightarrow> collapse_slashes s = s"
proof (induction s rule: collapse_slashes.induct)
  case (1 c d s)
  have "\<not> (c = CHR ''/'' \<and> d = CHR ''/'')" using 1(3) [unfolded not_ex, THEN spec [of _ "[]"]] by auto
  moreover have "\<not> (\<exists>u v. d # s = u @ ''//'' @ v)" using 1(3) by (metis append_Cons)
  ultimately show ?case using 1(2) by auto
qed simp_all

text \<open>
  Normalisation works in place: the result is never longer than the URI, contains neither a NUL nor two slashes in a
  row, and a URI without percent signs and double slashes is returned as it is.
\<close>

theorem hm_normalize_uri_normal:
  "length (hm_normalize_uri uri) \<le> length uri \<and> NUL \<notin> set (hm_normalize_uri uri) \<and>
   \<not> (\<exists>u v. hm_normalize_uri uri = u @ ''//'' @ v) \<and>
   (CHR ''%'' \<notin> set uri \<and> NUL \<notin> set uri \<and> \<not> (\<exists>u v. uri = u @ ''//'' @ v) \<longrightarrow> hm_normalize_uri uri = uri)"
proof (intro conjI impI)
  let ?d = "takeWhile (\<lambda>c. c \<noteq> NUL) (percent_decode uri)"
  have "length (hm_normalize_uri uri) \<le> length ?d" by (simp add: hm_normalize_uri_def length_collapse_slashes)
  also have "\<dots> \<le> length (percent_decode uri)" by (rule length_takeWhile_le)
  finally show "length (hm_normalize_uri uri) \<le> length uri" using length_percent_decode [of uri] by simp
  have "NUL \<notin> set ?d" by (auto dest: set_takeWhileD)
  then show "NUL \<notin> set (hm_normalize_uri uri)" using set_collapse_slashes [of ?d] by (auto simp: hm_normalize_uri_def)
  show "\<not> (\<exists>u v. hm_normalize_uri uri = u @ ''//'' @ v)" by (simp only: hm_normalize_uri_def collapse_slashes_none not_False_eq_True)
  assume "CHR ''%'' \<notin> set uri \<and> NUL \<notin> set uri \<and> \<not> (\<exists>u v. uri = u @ ''//'' @ v)"
  then have "CHR ''%'' \<notin> set uri" and "\<not> (\<exists>u v. uri = u @ ''//'' @ v)" and "takeWhile (\<lambda>c. c \<noteq> NUL) uri = uri"
    by (auto simp: takeWhile_eq_all_conv)
  then show "hm_normalize_uri uri = uri" unfolding hm_normalize_uri_def by (metis percent_decode_id collapse_slashes_id)
qed

theorem hm_normalize_uri_normal_witness:
  "hm_normalize_uri ''/a/b'' = ''/a/b'' \<and> hm_normalize_uri ''/a%2F/b'' = ''/a/b''"
proof
  have "\<not> (\<exists>u v. ''/a/b'' = u @ ''//'' @ v)" by (auto simp: Cons_eq_append_conv)
  then show "hm_normalize_uri ''/a/b'' = ''/a/b''" using hm_normalize_uri_normal [of "''/a/b''"] by simp
  show "hm_normalize_uri ''/a%2F/b'' = ''/a/b''" by code_simp
qed

text \<open>
  Normalisation does not remove dot segments: an encoded path traversal comes out as a plain one. It also decodes only
  once, so that a doubly encoded traversal survives for the next decoder.
\<close>

lemma hm_normalize_uri_traversal: "hm_normalize_uri ''/a/%2e%2e/%2E%2E/etc'' = ''/a/../../etc''"
  by code_simp

lemma hm_normalize_uri_once: "hm_normalize_uri ''/%252e%252e/etc'' = ''/%2e%2e/etc''"
  by code_simp

section \<open>Tokens and the end of the header section\<close>

function toks :: "(char \<Rightarrow> bool) \<Rightarrow> string \<Rightarrow> string list" where
  "toks delim s = (case strtok delim s of None \<Rightarrow> [] | Some (t, _, rest) \<Rightarrow> t # toks delim rest)"
  by pat_completeness auto
termination
  by (relation "measure (\<lambda>(delim, s). length s)") (auto dest: strtok_shorter)

declare toks.simps [simp del]

lemma toks_Nil [simp]: "toks delim [] = []"
  by (subst toks.simps) (simp add: strtok_def)

lemma toks_delim [simp]: "delim d \<Longrightarrow> toks delim (d # s) = toks delim s"
  by (subst (1 2) toks.simps) (simp add: strtok_def Let_def)

lemma takeWhile_token:
  assumes "\<forall>c \<in> set l. \<not> delim c" and "delim d"
  shows "takeWhile (\<lambda>c. \<not> delim c) (l @ d # s) = l" and "dropWhile (\<lambda>c. \<not> delim c) (l @ d # s) = d # s"
  using assms by (induction l) auto

lemma takeWhile_whole:
  assumes "\<forall>c \<in> set l. \<not> delim c"
  shows "takeWhile (\<lambda>c. \<not> delim c) l = l" and "dropWhile (\<lambda>c. \<not> delim c) l = []"
  using assms by (induction l) auto

lemma toks_token:
  assumes "l \<noteq> []" and "\<forall>c \<in> set l. \<not> delim c" and "delim d"
  shows "toks delim (l @ d # s) = l # toks delim s"
proof -
  have "dropWhile delim (l @ d # s) = l @ d # s" using assms(1,2) by (cases l) auto
  then show ?thesis using assms(1) takeWhile_token [OF assms(2,3)] by (subst toks.simps) (simp add: strtok_def Let_def)
qed

lemma toks_last:
  assumes "l \<noteq> []" and "\<forall>c \<in> set l. \<not> delim c"
  shows "toks delim l = [l]"
proof -
  have "dropWhile delim l = l" using assms by (cases l) auto
  then show ?thesis using assms(1)
    by (subst toks.simps) (simp add: strtok_def Let_def takeWhile_whole [OF assms(2)])
qed

lemma toks_ConsD: "toks delim s = t # ts \<Longrightarrow> \<exists>used rest. strtok delim s = Some (t, used, rest) \<and> toks delim rest = ts"
  by (subst (asm) toks.simps) (auto split: option.splits)

abbreviation eol :: "char \<Rightarrow> bool" where "eol \<equiv> \<lambda>c. c \<in> {CR, LF}"
abbreviation header_end :: string where "header_end \<equiv> [CR, LF, CR, LF]"

definition line_ok :: "string \<Rightarrow> bool" where
  "line_ok l \<longleftrightarrow> l \<noteq> [] \<and> CR \<notin> set l \<and> LF \<notin> set l \<and> NUL \<notin> set l"

definition lines_text :: "string list \<Rightarrow> string" where
  "lines_text ls = concat (map (\<lambda>l. l @ [CR, LF]) ls)"

lemma lines_text_simps [simp]: "lines_text [] = []" "lines_text (l # ls) = l @ CR # LF # lines_text ls"
  by (simp_all add: lines_text_def)

lemma lines_text_append: "lines_text (ks @ ls) = lines_text ks @ lines_text ls"
  by (simp add: lines_text_def)

lemma length_lines_text: "ls \<noteq> [] \<Longrightarrow> 2 \<le> length (lines_text ls)"
  by (cases ls) auto

lemma lines_text_NUL: "\<forall>l \<in> set ls. line_ok l \<Longrightarrow> NUL \<notin> set (lines_text ls @ [CR, LF])"
  by (induction ls) (auto simp: line_ok_def)

lemma strstr_skip: "CR \<notin> set l \<Longrightarrow> strstr_at (CR # pat) (l @ s) = map_option (\<lambda>p. length l + p) (strstr_at (CR # pat) s)"
proof (induction l)
  case Nil
  show ?case by (cases "strstr_at (CR # pat) s") auto
next
  case (Cons c l)
  then show ?case by (cases "strstr_at (CR # pat) s") auto
qed

lemma strstr_line_break:
  "x \<noteq> CR \<Longrightarrow> strstr_at header_end (CR # LF # x # s) = map_option (\<lambda>p. Suc (Suc p)) (strstr_at header_end (x # s))"
  by (simp add: option.map_comp comp_def)

lemma strstr_lines:
  assumes "ls \<noteq> []" and "\<forall>l \<in> set ls. line_ok l"
  shows "strstr_at header_end (lines_text ls @ CR # LF # rest) = Some (length (lines_text ls) - 2)"
  using assms
proof (induction ls rule: list_nonempty_induct)
  case (single l)
  then show ?case using strstr_skip [of l "[LF, CR, LF]" "header_end @ rest"] by (simp add: line_ok_def)
next
  case (cons l ls)
  obtain x t where t: "lines_text ls @ CR # LF # rest = x # t" "x \<noteq> CR"
    using cons by (cases ls) (auto simp: line_ok_def neq_Nil_conv)
  show ?case
    using cons strstr_skip [of l "[LF, CR, LF]" "CR # LF # x # t"] length_lines_text [OF cons(1)]
    by (simp add: line_ok_def t strstr_line_break del: strstr_at.simps)
qed

lemma toks_lines:
  assumes "ls \<noteq> []" and "\<forall>l \<in> set ls. line_ok l"
  shows "toks eol (take (length (lines_text ls) - 2) (lines_text ls @ s)) = ls"
  using assms
proof (induction ls rule: list_nonempty_induct)
  case (single l)
  then show ?case using toks_last [of l eol] by (auto simp: line_ok_def)
next
  case (cons l ls)
  obtain k where k: "length (lines_text ls) = Suc (Suc k)" using length_lines_text [OF cons(1)] by (metis Suc_diff_le diff_Suc_1 numeral_2_eq_2 le_Suc_ex add_2_eq_Suc)
  then have "take (length (lines_text (l # ls)) - 2) (lines_text (l # ls) @ s) =
      l @ CR # LF # take (length (lines_text ls) - 2) (lines_text ls @ s)"
    by simp
  moreover have "toks eol (l @ CR # LF # u) = l # toks eol u" for u
    using toks_token [of l eol CR "LF # u"] cons.prems by (auto simp: line_ok_def)
  ultimately show ?case using cons by (simp only:) simp
qed




section \<open>Requests survive printing and parsing\<close>

fun hm_fold_lines :: "http_request \<Rightarrow> string list \<Rightarrow> int \<times> http_request" where
  "hm_fold_lines req [] = (0, req)"
| "hm_fold_lines req (l # ls) =
     (case hm_parse_header_line req l of (r, req') \<Rightarrow> if r < 0 then (-1, req') else hm_fold_lines req' ls)"

lemma hm_header_lines_fold:
  "\<exists>raw. hm_header_lines req seen s = (fst (hm_fold_lines req (toks eol s)), snd (hm_fold_lines req (toks eol s)), raw)"
proof (induction req seen s rule: hm_header_lines.induct)
  case (1 req seen s)
  show ?case
  proof (cases "strtok eol s")
    case None
    then show ?thesis by (simp add: hm_header_lines.simps [of req seen s] toks.simps [of _ s])
  next
    case (Some x)
    obtain line used rest where x: "x = (line, used, rest)" by (cases x)
    obtain r req' where h: "hm_parse_header_line req line = (r, req')" by (cases "hm_parse_header_line req line")
    show ?thesis
      using Some x h "1.IH" [OF Some x [symmetric] refl h [symmetric]]
      by (cases "r < 0") (simp_all add: hm_header_lines.simps [of req seen s] toks.simps [of _ s])
  qed
qed

definition hm_header_ok :: "http_header \<Rightarrow> bool" where
  "hm_header_ok h \<longleftrightarrow>
     length (hh_name h) < HM_MAX_HEADER_LEN \<and> length (hh_value h) < HM_MAX_VALUE_LEN \<and>
     set (hh_name h) \<inter> {CHR '':'', CR, LF, NUL} = {} \<and> set (hh_value h) \<inter> {CR, LF, NUL} = {} \<and>
     (hh_value h \<noteq> [] \<longrightarrow> hd (hh_value h) \<notin> {CHR '' '', TAB} \<and> last (hh_value h) \<noteq> CHR '' '') \<and>
     \<not> (strcaseeq (hh_name h) ''Host'' \<and> hh_value h = [])"

abbreviation is_content_length :: "http_header \<Rightarrow> bool" where
  "is_content_length h \<equiv> strcaseeq (hh_name h) ''Content-Length''"



lemma scan_word_space [simp]: "scan_word n (CHR '' '' # s) = scan_word n s"
  by (simp add: scan_word_def c_isspace_def)





lemma strip_end_id: "s = [] \<or> last s \<notin> cs \<Longrightarrow> strip_end cs s = s"
  by (cases s rule: rev_cases) (auto simp: strip_end_def)

lemma header_eta: "\<lparr>hh_name = hh_name h, hh_value = hh_value h\<rparr> = (h :: http_header)"
  by (cases h) simp

lemma hm_parse_header_line_ok:
  assumes "hm_header_ok h" and "length (rq_headers req) < HM_MAX_HEADERS"
  shows "hm_parse_header_line req (hh_name h @ '': '' @ hh_value h) = (0, hm_apply_header h req)"
proof -
  let ?line = "hh_name h @ CHR '':'' # CHR '' '' # hh_value h"
  have name: "\<forall>c \<in> set (hh_name h). \<not> c = CHR '':''" using assms(1) by (auto simp: hm_header_ok_def)
  note split = takeWhile_token [of "hh_name h" "\<lambda>c. c = CHR '':''", OF name refl]
  have val: "header_value (CHR '' '' # hh_value h) = hh_value h"
  proof -
    have "dropWhile (\<lambda>c. c \<in> {CHR '' '', TAB}) (hh_value h) = hh_value h"
      using assms(1) by (cases "hh_value h") (auto simp: hm_header_ok_def)
    moreover have "strip_end {CR, LF, CHR '' ''} (hh_value h) = hh_value h"
      using assms(1) by (intro strip_end_id) (auto simp: hm_header_ok_def dest: last_in_set)
    ultimately show ?thesis by (simp add: header_value_def)
  qed
  show ?thesis using assms val
    by (simp add: header_eta hm_parse_header_line_def split hm_header_ok_def Let_def)
qed

lemma rq_headers_apply: "rq_headers (hm_apply_header h req) = rq_headers req @ [h]"
  by (simp add: hm_apply_header_def Let_def)

lemma hm_fold_lines_ok:
  "\<forall>h \<in> set hs. hm_header_ok h \<Longrightarrow> length (rq_headers req) + length hs \<le> HM_MAX_HEADERS \<Longrightarrow>
    hm_fold_lines req (map (\<lambda>h. hh_name h @ '': '' @ hh_value h) hs) = (0, fold hm_apply_header hs req)"
proof (induction hs arbitrary: req)
  case (Cons h hs)
  then have "hm_parse_header_line req (hh_name h @ '': '' @ hh_value h) = (0, hm_apply_header h req)"
    by (intro hm_parse_header_line_ok) auto
  then show ?case using Cons by (simp add: rq_headers_apply)
qed simp

lemma hm_apply_header_frame:
  "rq_method (hm_apply_header h req) = rq_method req" "rq_uri (hm_apply_header h req) = rq_uri req"
  "rq_version (hm_apply_header h req) = rq_version req" "rq_body (hm_apply_header h req) = rq_body req"
  by (simp_all add: hm_apply_header_def Let_def)


lemma content_length_apply:
  "rq_content_length_set (hm_apply_header h req) \<longleftrightarrow> rq_content_length_set req \<or> is_content_length h"
  "rq_content_length (hm_apply_header h req) =
     (if is_content_length h then unat (of_int (atol (hh_value h)) :: 64 word) else rq_content_length req)"
  by (simp_all add: hm_apply_header_def Let_def)


text \<open>\<open>atol\<close> reads what \<open>%d\<close> has printed.\<close>

lemma nat_string_step:
  "n < 10 \<Longrightarrow> nat_string n = [char_of (48 + n)]"
  "10 \<le> n \<Longrightarrow> nat_string n = nat_string (n div 10) @ [char_of (48 + n mod 10)]"
  by (subst nat_string.simps, simp)+

lemma nat_string_ne: "nat_string n \<noteq> []"
  by (subst nat_string.simps) simp

lemma nat_string_digits: "c \<in> set (nat_string n) \<Longrightarrow> c_isdigit c"
proof (induction n rule: less_induct)
  case (less n)
  show ?case
  proof (cases "n < 10")
    case False
    then have "c \<in> set (nat_string (n div 10)) \<or> c = char_of (48 + n mod 10)" using less.prems by (auto simp: nat_string_step(2))
    then show ?thesis using less.IH [of "n div 10"] False by (auto simp: c_isdigit_def)
  qed (use less.prems in \<open>simp add: nat_string_step(1) c_isdigit_def\<close>)
qed

lemma digits_value_nat_string: "digits_value (nat_string n) = n"
proof (induction n rule: less_induct)
  case (less n)
  then show ?case using less.IH [of "n div 10"]
    by (cases "n < 10") (simp_all add: nat_string_step digits_value_def)
qed

lemma atol_nat_string:
  assumes "n < 2 ^ 63"
  shows "atol (nat_string n) = int n"
proof -
  obtain c s where s: "nat_string n = c # s" using nat_string_ne by (cases "nat_string n") auto
  then have "c_isdigit c" using nat_string_digits [of c n] by simp
  then have c: "\<not> c_isspace c" "c \<noteq> CHR ''-''" "c \<noteq> CHR ''+''" by (auto simp: c_isdigit_def c_isspace_def)
  have "takeWhile c_isdigit (nat_string n) = nat_string n" using nat_string_digits by (auto simp: takeWhile_eq_all_conv)
  then have "digits_value (takeWhile c_isdigit (c # s)) = n" using s digits_value_nat_string [of n] by simp
  then show ?thesis using c assms unfolding atol_def s by (simp del: takeWhile.simps)
qed

lemma unat_content_length: "n \<le> HM_MAX_BODY \<Longrightarrow> unat (of_int (atol (nat_string n)) :: 64 word) = n"
  by (simp add: atol_nat_string unsigned_of_nat take_bit_nat_eq_self)

abbreviation header_text :: "http_header \<Rightarrow> string" where
  "header_text h \<equiv> hh_name h @ '': '' @ hh_value h"


lemma hm_print_headers_text: "hm_print_headers buf hs = Some out \<Longrightarrow> out = buf @ lines_text (map header_text hs)"
  by (induction buf hs rule: hm_print_headers.induct) (auto simp: header_line_def split: if_splits)








text \<open>The parser on a complete buffer that holds header lines, the empty line and a body.\<close>

lemma hm_parse_request_lines:
  assumes d: "d \<noteq> []" and raw: "rq_raw req @ d = lines_text (l # ls) @ CR # LF # body" and len: "length (rq_raw req @ d) \<le> HM_MAX_BODY"
    and ok: "\<forall>k \<in> set (l # ls). line_ok k"
    and first: "hm_parse_request_line (req\<lparr>rq_raw := rq_raw req @ d\<rparr>) l = (0, req1)" and rest: "hm_fold_lines req1 ls = (0, req2)"
  shows "\<exists>raw'. hm_parse_request req d =
    Some (0, req2\<lparr>rq_raw := raw', rq_parse_state := HM_COMPLETE,
      rq_body := if rq_content_length_set req2 \<and> rq_content_length req2 > 0 then take (rq_content_length req2) body else rq_body req2\<rparr>)"
proof -
  let ?raw = "rq_raw req @ d" and ?p = "length (lines_text (l # ls)) - 2"
  have nul: "takeWhile (\<lambda>c. c \<noteq> NUL) ?raw = lines_text (l # ls) @ CR # LF # takeWhile (\<lambda>c. c \<noteq> NUL) body"
  proof -
    have "\<forall>c \<in> set (lines_text (l # ls) @ [CR, LF]). c \<noteq> NUL" using lines_text_NUL [OF ok] by blast
    then show ?thesis using takeWhile_append2 [of "lines_text (l # ls) @ [CR, LF]" "\<lambda>c. c \<noteq> NUL" body] raw by auto
  qed
  have p: "strstr_at header_end (takeWhile (\<lambda>c. c \<noteq> NUL) ?raw) = Some ?p" unfolding nul using ok by (intro strstr_lines) auto
  have "toks eol (take ?p ?raw) = l # ls" unfolding raw using ok by (intro toks_lines) auto
  then obtain used rest' where t: "strtok eol (take ?p ?raw) = Some (l, used, rest')" "toks eol rest' = ls"
    by (blast dest: toks_ConsD)
  obtain raw' where h: "hm_header_lines req1 used rest' = (0, req2, raw')"
    using hm_header_lines_fold [of req1 used rest'] rest t(2) by auto
  have "?p + 4 = length (lines_text (l # ls) @ [CR, LF])" by simp
  then have body: "drop (?p + 4) ?raw = body" unfolding raw by (simp del: lines_text_simps)
  have "take (HM_MAX_BODY - length (rq_raw req)) d = d" using len by simp
  then have eq: "hm_parse_request req d = (let r = req2\<lparr>rq_raw := raw' @ NUL # drop (?p + 1) ?raw\<rparr>;
      r = (if rq_content_length_set r \<and> rq_content_length r > 0 then r\<lparr>rq_body := take (rq_content_length r) body\<rparr> else r) in
      Some (0, r\<lparr>rq_parse_state := HM_COMPLETE\<rparr>))"
    unfolding hm_parse_request_def Let_def using d p t(1) first h
    by (simp only: body list.distinct if_False option.case prod.case) (simp only: if_False less_irrefl)
  show ?thesis unfolding eq Let_def by (rule exI [of _ "raw' @ NUL # drop (?p + 1) ?raw"]) simp
qed




text \<open>
  A body that comes with a later segment is lost: the parser reports the request complete and the later segment finds an
  empty start line.
\<close>

lemma hm_late_body_lost:
  "\<exists>r. hm_parse_request hm_request_init (''POST /a HTTP/1.1'' @ [CR, LF] @ ''content-length: 2'' @ [CR, LF, CR, LF]) = Some (0, r) \<and>
     rq_parse_state r = HM_COMPLETE \<and> rq_content_length r = 2 \<and> rq_body r = []"
proof -
  let ?d = "''POST /a HTTP/1.1'' @ [CR, LF] @ ''content-length: 2'' @ [CR, LF, CR, LF]"
  let ?h = "\<lparr>hh_name = ''content-length'', hh_value = ''2''\<rparr>"
  let ?r = "hm_request_init\<lparr>rq_raw := ?d, rq_method := ''POST'', rq_uri := ''/a''\<rparr>"
  have "strcaseeq ''content-length'' ''Content-Length''" "\<not> strcaseeq ''content-length'' ''Host''" "nat_string 2 = ''2''"
    by code_simp+
  then have h: "hm_header_ok ?h" and cl: "rq_content_length (hm_apply_header ?h ?r) = 2" "rq_body (hm_apply_header ?h ?r) = []"
    using unat_content_length [of 2]
    by (simp_all add: hm_header_ok_def content_length_apply hm_apply_header_frame hm_request_init_def)
  have "hm_parse_request_line (hm_request_init\<lparr>rq_raw := ?d\<rparr>) ''POST /a HTTP/1.1'' = (0, ?r)"
    by (simp add: hm_parse_request_line_def scan_word_def c_isspace_def hm_request_init_def)
  moreover have "hm_fold_lines ?r [''content-length: 2''] = (0, hm_apply_header ?h ?r)"
    using hm_fold_lines_ok [of "[?h]" ?r] h by (simp add: hm_request_init_def)
  ultimately show ?thesis
    using hm_parse_request_lines [of ?d hm_request_init "''POST /a HTTP/1.1''" "[''content-length: 2'']" "[]" ?r "hm_apply_header ?h ?r"] cl
    by (auto simp: hm_request_init_def line_ok_def)
qed

text \<open>A method that does not fit runs into the URI instead of being refused.\<close>

lemma hm_long_method_splits:
  "hm_parse_request_line r ''VERSION-CONTROLLED /x HTTP/1.1'' =
     (0, r\<lparr>rq_method := ''VERSION-CONTROL'', rq_uri := ''LED'', rq_version := HM_VER_1_1\<rparr>)"
  by (simp add: hm_parse_request_line_def scan_word_def c_isspace_def)

text \<open>What is printed as HTTP/2.0 is read as HTTP/1.1.\<close>

lemma hm_version_2_read_as_1_1:
  "snd (hm_parse_request_line r ''GET / HTTP/2.0'') =
   snd (hm_parse_request_line r ''GET / HTTP/1.1'')"
  by (simp add: hm_parse_request_line_def scan_word_def c_isspace_def)

section \<open>Headers as a map\<close>

text \<open>The table of headers stands for a map from lower-case names to values, the first entry of a name counting.\<close>

definition hm_headers_map :: "http_request \<Rightarrow> string \<rightharpoonup> string" where
  "hm_headers_map req = map_of (map (\<lambda>h. (map c_tolower (hh_name h), hh_value h)) (rq_headers req))"

definition hm_headers_distinct :: "http_request \<Rightarrow> bool" where
  "hm_headers_distinct req \<longleftrightarrow> distinct (map (\<lambda>h. map c_tolower (hh_name h)) (rq_headers req))"

lemma map_of_find_index:
  "map_of (map (\<lambda>h. (f h, g h)) hs) k = map_option (\<lambda>i. g (hs ! i)) (find_index (\<lambda>h. f h = k) hs)"
  by (induction hs) (auto simp: option.map_comp comp_def)

lemma hm_headers_map_index:
  "hm_headers_map req (map c_tolower n) = map_option (\<lambda>i. hh_value (rq_headers req ! i)) (hm_header_index req n)"
  by (simp add: hm_headers_map_def map_of_find_index hm_header_index_def strcaseeq_def)

lemma map_of_update_nth:
  assumes "find_index (\<lambda>h. f h = k) hs = Some i" and "f h' = k"
  shows "map_of (map (\<lambda>h. (f h, g h)) (hs[i := h'])) = (map_of (map (\<lambda>h. (f h, g h)) hs))(k \<mapsto> g h')"
  using assms
proof (induction hs arbitrary: i)
  case (Cons h hs)
  then show ?case by (cases "f h = k") (auto simp: fun_upd_twist)
qed simp

lemma map_of_remove_nth:
  assumes "find_index (\<lambda>h. f h = k) hs = Some i" and "distinct (map f hs)"
  shows "map_of (map (\<lambda>h. (f h, g h)) (remove_at i hs)) = (map_of (map (\<lambda>h. (f h, g h)) hs))(k := None)"
  using assms
proof (induction hs arbitrary: i)
  case (Cons h hs)
  show ?case
  proof (cases "f h = k")
    case True
    then have "map_of (map (\<lambda>h. (f h, g h)) hs) k = None" using Cons.prems(2) by (auto simp: map_of_eq_None_iff image_iff)
    then show ?thesis using True Cons.prems by (auto simp: fun_upd_idem)
  next
    case False
    then obtain j where "find_index (\<lambda>h. f h = k) hs = Some j" "i = Suc j" using Cons.prems by auto
    then show ?thesis using Cons False by (auto simp: remove_at_def fun_upd_twist)
  qed
qed simp

lemma hm_set_header_map:
  assumes "length (rq_headers req) < HM_MAX_HEADERS" and "length n < HM_MAX_HEADER_LEN" and "length v < HM_MAX_VALUE_LEN"
  shows "fst (hm_set_header req n v) = 0"
    and "hm_headers_map (snd (hm_set_header req n v)) = (hm_headers_map req)(map c_tolower n \<mapsto> v)"
proof -
  show "fst (hm_set_header req n v) = 0" using assms by (simp add: hm_set_header_def split: option.split)
  let ?f = "\<lambda>h. map c_tolower (hh_name h)" and ?k = "map c_tolower n"
  show "hm_headers_map (snd (hm_set_header req n v)) = (hm_headers_map req)(?k \<mapsto> v)"
  proof (cases "hm_header_index req n")
    case None
    then have "hm_headers_map req ?k = None" using hm_headers_map_index [of req n] by simp
    then have "[?k \<mapsto> v] ++ hm_headers_map req = (hm_headers_map req)(?k \<mapsto> v)"
      by (auto simp: map_add_def fun_eq_iff split: option.splits)
    then show ?thesis using None assms by (simp add: hm_set_header_def hm_headers_map_def)
  next
    case (Some i)
    note i = find_index_SomeD [OF Some [unfolded hm_header_index_def]]
    show ?thesis
      using Some assms i(2) map_of_update_nth [of ?f ?k "rq_headers req" i "(rq_headers req ! i)\<lparr>hh_value := v\<rparr>" hh_value]
      by (simp add: hm_set_header_def hm_headers_map_def hm_header_index_def strcaseeq_def)
  qed
qed

lemma hm_remove_header_map:
  assumes "hm_headers_distinct req"
  shows "hm_headers_map (snd (hm_remove_header req n)) = (hm_headers_map req)(map c_tolower n := None)"
proof (cases "hm_header_index req n")
  case None
  then show ?thesis using hm_headers_map_index [of req n] by (simp add: hm_remove_header_def fun_upd_idem)
next
  case (Some i)
  then show ?thesis
    using assms map_of_remove_nth [of "\<lambda>h. map c_tolower (hh_name h)" "map c_tolower n" "rq_headers req" i hh_value]
    by (simp add: hm_remove_header_def hm_headers_map_def hm_header_index_def strcaseeq_def hm_headers_distinct_def)
qed

text \<open>
  The header table refines a map with case-insensitive keys: a lookup reads the map, a set of a name and value that fit
  updates it while the table is not full, and a removal from a table without repeated names deletes the key.
\<close>

theorem hm_headers_refine_map:
  "hm_get_header req n = hm_headers_map req (map c_tolower n) \<and>
   (length (rq_headers req) < HM_MAX_HEADERS \<and> length n < HM_MAX_HEADER_LEN \<and> length v < HM_MAX_VALUE_LEN \<longrightarrow>
     fst (hm_set_header req n v) = 0 \<and> hm_headers_map (snd (hm_set_header req n v)) = (hm_headers_map req)(map c_tolower n \<mapsto> v)) \<and>
   (hm_headers_distinct req \<longrightarrow>
     hm_headers_map (snd (hm_remove_header req n)) = (hm_headers_map req)(map c_tolower n := None))"
  by (simp add: hm_headers_map_index hm_get_header_def hm_set_header_map hm_remove_header_map)

theorem hm_headers_refine_map_witness:
  "hm_get_header (snd (hm_set_header hm_request_init ''Accept'' ''text/html'')) ''ACCEPT'' = Some ''text/html'' \<and>
   hm_get_header (snd (hm_remove_header (snd (hm_set_header hm_request_init ''Accept'' ''text/html'')) ''accept'')) ''Accept'' = None"
proof -
  let ?r = "snd (hm_set_header hm_request_init ''Accept'' ''text/html'')"
  have lower: "map c_tolower ''ACCEPT'' = map c_tolower ''Accept''" "map c_tolower ''accept'' = map c_tolower ''Accept''" by code_simp+
  have d: "hm_headers_distinct ?r" by (simp add: hm_headers_distinct_def hm_set_header_def hm_request_init_def hm_header_index_def)
  note r = hm_headers_refine_map [of hm_request_init "''Accept''" "''text/html''"]
  then have "hm_headers_map ?r (map c_tolower ''ACCEPT'') = Some ''text/html''" unfolding lower by (simp add: hm_request_init_def)
  moreover have "hm_headers_map (snd (hm_remove_header ?r ''accept'')) (map c_tolower ''Accept'') = None"
    using hm_headers_refine_map [of ?r "''accept''"] d unfolding lower by simp
  ultimately show ?thesis using hm_headers_refine_map [of ?r "''ACCEPT''"]
      hm_headers_refine_map [of "snd (hm_remove_header ?r ''accept'')" "''Accept''"] by simp
qed

text \<open>A full table refuses the update of a header that it holds.\<close>

lemma hm_set_header_full:
  "length (rq_headers req) = HM_MAX_HEADERS \<Longrightarrow> hm_get_header req n = Some v \<Longrightarrow> hm_set_header req n w = (-1, req)"
  by (simp add: hm_set_header_def)

section \<open>Query strings and content types survive the wire\<close>

abbreviation amp :: "char \<Rightarrow> bool" where "amp \<equiv> \<lambda>c. c = CHR ''&''"

abbreviation query_pair :: "http_header \<Rightarrow> string" where
  "query_pair h \<equiv> hh_name h @ CHR ''='' # hh_value h"

fun query_text :: "http_header list \<Rightarrow> string" where
  "query_text [] = []"
| "query_text [h] = query_pair h"
| "query_text (h # hs) = query_pair h @ CHR ''&'' # query_text hs"

definition query_ok :: "http_header \<Rightarrow> bool" where
  "query_ok h \<longleftrightarrow> set (hh_name h) \<inter> {CHR ''='', CHR ''&''} = {} \<and> CHR ''&'' \<notin> set (hh_value h) \<and>
     length (hh_name h) < HM_MAX_HEADER_LEN \<and> length (hh_value h) < HM_MAX_VALUE_LEN"

lemma query_params_toks: "query_params n s = map query_param (take n (toks amp s))"
proof (induction n arbitrary: s)
  case (Suc n)
  then show ?case by (simp add: toks.simps [of _ s] split: option.split)
qed simp

lemma toks_query_text: "\<forall>h \<in> set hs. query_ok h \<Longrightarrow> toks amp (query_text hs) = map query_pair hs"
proof (induction hs rule: query_text.induct)
  case (2 h)
  then show ?case using toks_last [of "query_pair h" amp] by (auto simp: query_ok_def)
next
  case (3 h k hs)
  then show ?case using toks_token [of "query_pair h" amp "CHR ''&''" "query_text (k # hs)"] by (auto simp: query_ok_def)
qed simp

lemma split_first_append: "d \<notin> set s \<Longrightarrow> split_first d (s @ d # t) = (s, t)"
  by (induction s) (auto simp: split_first_def)

lemma query_param_pair: "query_ok h \<Longrightarrow> query_param (query_pair h) = h"
  by (simp add: query_param_def query_ok_def split_first_append header_eta)

text \<open>
  A query string is read back pair by pair in the order in which it has been written, repeated keys included.
\<close>

theorem hm_query_round_trip:
  assumes "CHR ''?'' \<notin> set path" and "length path < path_size" and "\<forall>h \<in> set hs. query_ok h"
    and "length (query_text hs) < HM_MAX_URI" and "int (length hs) \<le> max_params"
  shows "hm_parse_query_string (path @ CHR ''?'' # query_text hs) path_size max_params = Some (path, hs)"
proof -
  have "map query_param (map query_pair hs) = hs" using assms(3) by (induction hs) (auto simp: query_param_pair)
  then show ?thesis using assms toks_query_text [OF assms(3)]
    by (simp add: hm_parse_query_string_def split_first_append query_params_toks)
qed

theorem hm_query_round_trip_witness:
  "hm_parse_query_string ''/s?q=a&q=b'' 64 8 = Some (''/s'', [\<lparr>hh_name = ''q'', hh_value = ''a''\<rparr>, \<lparr>hh_name = ''q'', hh_value = ''b''\<rparr>])"
  using hm_query_round_trip [of "''/s''" 64 "[\<lparr>hh_name = ''q'', hh_value = ''a''\<rparr>, \<lparr>hh_name = ''q'', hh_value = ''b''\<rparr>]" 8]
  by (simp add: query_ok_def)

lemma hm_content_type_round_trip:
  assumes "CHR '';'' \<notin> set media" and "media = [] \<or> last media \<noteq> CHR '' ''" and "length media < mt_size"
    and "cs = [] \<or> last cs \<notin> {CHR '' '', CHR '';''}" and "length cs < cs_size"
  shows "hm_parse_content_type (media @ ''; charset='' @ cs) mt_size cs_size = Some (media, cs)"
  using assms by (simp add: hm_parse_content_type_def split_first_append strip_end_id)

text \<open>A response announces the length of the body that follows.\<close>

lemma hm_build_response_text:
  assumes "hm_build_response resp = Some (Some s)"
  shows "s = lines_text ((''HTTP/1.1 '' @ int_string (rs_status_code resp) @ '' '' @ rs_reason resp) #
    map header_text (rs_headers resp) @ [''Content-Length: '' @ nat_string (length (rs_body resp))]) @ CR # LF # rs_body resp"
proof -
  let ?start = "''HTTP/1.1 '' @ int_string (rs_status_code resp) @ '' '' @ rs_reason resp @ [CR, LF]"
  obtain buf where "hm_print_headers ?start (rs_headers resp) = Some buf"
      and "s = buf @ ''Content-Length: '' @ nat_string (length (rs_body resp)) @ [CR, LF, CR, LF] @ rs_body resp"
    using assms by (auto simp: hm_build_response_def hm_print_end_def split: option.splits if_splits)
  then show ?thesis by (auto dest: hm_print_headers_text simp: lines_text_append)
qed

text \<open>A body that fills its array makes the printer write past its buffer, which is no longer than the array.\<close>

lemma hm_build_response_overflow:
  assumes "length body = HM_MAX_BODY - 1"
  shows "hm_build_response (snd (hm_response_set_body (hm_response_init 200 None) body)) = None"
proof -
  have "int_string 200 = ''200''" by code_simp
  moreover have "length (nat_string 65535) = 5" by (simp add: nat_string_step)
  ultimately show ?thesis using assms
    by (simp add: hm_build_response_def hm_response_set_body_def hm_response_init_def hm_status_reason_def hm_print_end_def)
qed

end
