(* ===== verification/ConnectionPool.thy ===== *)
theory ConnectionPool
  imports Net_Prelude "HOL-Library.Monad_Syntax"
begin

text \<open>
  Connection pools and their manager (\<open>mini-gateway-proxy/src/connection_pool.c\<close>).

  The used slots of \<open>connections\<close> and of \<open>pools\<close> are lists; a pointer to a connection is its index, in the manager together
  with the index of its pool. All clock readings of one call coincide and are an argument. Closing a file descriptor has no
  other effect than its field. \<open>None\<close> of a call is a call that does not return or a write past the array of 64 slots.
  The utilization, a quotient of two counters, and the printing of statistics are left out.
\<close>

section \<open>State\<close>

abbreviation CP_MAX_POOLS :: nat where "CP_MAX_POOLS \<equiv> 16"
abbreviation CP_MAX_CONN :: nat where "CP_MAX_CONN \<equiv> 64"
abbreviation CP_MAX_HOST_LEN :: nat where "CP_MAX_HOST_LEN \<equiv> 256"

datatype cp_conn_state = CP_IDLE | CP_ACTIVE | CP_CLOSING | CP_ERROR
datatype cp_eviction_policy = CP_EVICT_FIFO | CP_EVICT_LRU | CP_EVICT_LIFO

record cp_connection =
  cn_fd :: int
  cn_host :: string
  cn_port :: int
  cn_state :: cp_conn_state
  cn_created_at :: timespec
  cn_last_used :: timespec
  cn_idle_start :: timespec
  cn_request_count :: int
  cn_keep_alive :: bool

record connection_pool =
  cp_connections :: "cp_connection list"
  cp_max_conn :: int
  cp_max_idle_ms :: int
  cp_max_lifetime_ms :: int
  cp_max_requests_per_conn :: int
  cp_evict_policy :: cp_eviction_policy
  cp_host :: string
  cp_port :: int
  cp_active_count :: int
  cp_idle_count :: int
  cp_total_created :: "64 word"
  cp_total_destroyed :: "64 word"
  cp_total_reused :: "64 word"

record pool_manager =
  pm_pools :: "connection_pool list"
  pm_default_max_conn :: int
  pm_default_max_idle_ms :: int
  pm_default_max_lifetime_ms :: int
  pm_default_max_requests :: int

definition timespec_less :: "timespec \<Rightarrow> timespec \<Rightarrow> bool" where
  "timespec_less a b \<longleftrightarrow> tv_sec a < tv_sec b \<or> (tv_sec a = tv_sec b \<and> tv_nsec a < tv_nsec b)"

definition cp_elapsed_ms :: "timespec \<Rightarrow> timespec \<Rightarrow> 64 word" where
  "cp_elapsed_ms now t = word_of_int (tv_sec now - tv_sec t) * 1000 + word_of_int (tv_nsec now - tv_nsec t) div 1000000"

abbreviation conn_at :: "connection_pool \<Rightarrow> nat \<Rightarrow> cp_connection" where
  "conn_at cp i \<equiv> cp_connections cp ! i"

definition set_conn :: "nat \<Rightarrow> cp_connection \<Rightarrow> connection_pool \<Rightarrow> connection_pool" where
  "set_conn i c cp = cp\<lparr>cp_connections := (cp_connections cp)[i := c]\<rparr>"

definition cp_init :: "string \<Rightarrow> int \<Rightarrow> int \<Rightarrow> connection_pool" where
  "cp_init host port max_conn = \<lparr>cp_connections = [], cp_max_conn = (if max_conn > 0 then max_conn else int CP_MAX_CONN),
     cp_max_idle_ms = 60000, cp_max_lifetime_ms = 3600000, cp_max_requests_per_conn = 1000, cp_evict_policy = CP_EVICT_LRU,
     cp_host = strncpy_z CP_MAX_HOST_LEN host, cp_port = port, cp_active_count = 0, cp_idle_count = 0, cp_total_created = 0,
     cp_total_destroyed = 0, cp_total_reused = 0\<rparr>"

section \<open>Evicting and closing\<close>

definition evict_better :: "cp_eviction_policy \<Rightarrow> cp_connection \<Rightarrow> cp_connection \<Rightarrow> bool" where
  "evict_better policy c best = (case policy of
     CP_EVICT_FIFO \<Rightarrow> tv_sec (cn_idle_start c) < tv_sec (cn_idle_start best)
   | CP_EVICT_LRU \<Rightarrow> tv_sec (cn_last_used c) < tv_sec (cn_last_used best)
   | CP_EVICT_LIFO \<Rightarrow> False)"

text \<open>The scans keep the best slot so far; \<open>pick\<close> is the comparison. A policy that stops at the first slot never finds a better one.\<close>

definition scan_slot :: "(cp_connection \<Rightarrow> cp_connection \<Rightarrow> bool) \<Rightarrow> connection_pool \<Rightarrow> nat \<Rightarrow> nat option \<Rightarrow> nat option" where
  "scan_slot better cp i best =
     (if cn_state (conn_at cp i) = CP_IDLE
      then (case best of None \<Rightarrow> Some i | Some b \<Rightarrow> if better (conn_at cp i) (conn_at cp b) then Some i else best)
      else best)"

definition scan_idle :: "(cp_connection \<Rightarrow> cp_connection \<Rightarrow> bool) \<Rightarrow> connection_pool \<Rightarrow> nat option" where
  "scan_idle better cp = fold (scan_slot better cp) [0..<length (cp_connections cp)] None"

definition close_conn :: "cp_connection \<Rightarrow> cp_connection" where
  "close_conn c = c\<lparr>cn_fd := -1, cn_state := CP_CLOSING\<rparr>"

function cp_evict_loop :: "nat \<Rightarrow> nat \<Rightarrow> connection_pool \<Rightarrow> nat \<times> connection_pool" where
  "cp_evict_loop evicted count cp =
     (if evicted < count \<and> cp_idle_count cp > 0
      then case scan_idle (evict_better (cp_evict_policy cp)) cp of
             None \<Rightarrow> (evicted, cp)
           | Some target \<Rightarrow> cp_evict_loop (evicted + 1) count ((set_conn target (close_conn (conn_at cp target)) cp)
               \<lparr>cp_idle_count := cp_idle_count cp - 1, cp_total_destroyed := cp_total_destroyed cp + 1\<rparr>)
      else (evicted, cp))"
  by pat_completeness auto
termination by (relation "measure (\<lambda>(evicted, count, _). count - evicted)") auto

definition cp_evict :: "int \<Rightarrow> connection_pool \<Rightarrow> int \<times> connection_pool" where
  "cp_evict count cp = (if count \<le> 0 then (-1, cp) else case cp_evict_loop 0 (nat count) cp of (evicted, cp) \<Rightarrow> (int evicted, cp))"

definition cp_close_idle_at :: "timespec \<Rightarrow> nat \<Rightarrow> int \<times> connection_pool \<Rightarrow> int \<times> connection_pool" where
  "cp_close_idle_at now i = (\<lambda>(closed, cp).
     if cn_state (conn_at cp i) \<noteq> CP_IDLE then (closed, cp)
     else if cp_elapsed_ms now (cn_idle_start (conn_at cp i)) \<ge> word_of_int (cp_max_idle_ms cp)
     then (closed + 1, (set_conn i (close_conn (conn_at cp i)) cp)
             \<lparr>cp_idle_count := cp_idle_count cp - 1, cp_total_destroyed := cp_total_destroyed cp + 1\<rparr>)
     else (closed, cp))"

definition cp_close_idle :: "timespec \<Rightarrow> connection_pool \<Rightarrow> int \<times> connection_pool" where
  "cp_close_idle now cp = fold (cp_close_idle_at now) [0..<length (cp_connections cp)] (0, cp)"

definition cp_close_expired_at :: "timespec \<Rightarrow> nat \<Rightarrow> int \<times> connection_pool \<Rightarrow> int \<times> connection_pool" where
  "cp_close_expired_at now i = (\<lambda>(closed, cp).
     if cn_state (conn_at cp i) = CP_CLOSING \<or> cn_state (conn_at cp i) = CP_ERROR then (closed, cp)
     else if cp_elapsed_ms now (cn_created_at (conn_at cp i)) \<ge> word_of_int (cp_max_lifetime_ms cp)
     then (let active = (if cn_state (conn_at cp i) = CP_ACTIVE then cp_active_count cp - 1 else cp_active_count cp);
               idle = (if cn_state (conn_at cp i) = CP_IDLE then cp_idle_count cp - 1 else cp_idle_count cp)
           in (closed + 1, (set_conn i (close_conn (conn_at cp i)) cp)
             \<lparr>cp_active_count := active, cp_idle_count := idle, cp_total_destroyed := cp_total_destroyed cp + 1\<rparr>))
     else (closed, cp))"

definition cp_close_expired :: "timespec \<Rightarrow> connection_pool \<Rightarrow> int \<times> connection_pool" where
  "cp_close_expired now cp = fold (cp_close_expired_at now) [0..<length (cp_connections cp)] (0, cp)"

definition cp_health_check_at :: "nat \<Rightarrow> connection_pool \<Rightarrow> connection_pool" where
  "cp_health_check_at i cp =
     (if cn_state (conn_at cp i) = CP_ERROR
      then (set_conn i (close_conn (conn_at cp i)) cp)\<lparr>cp_total_destroyed := cp_total_destroyed cp + 1\<rparr> else cp)"

definition cp_health_check :: "connection_pool \<Rightarrow> connection_pool" where
  "cp_health_check cp = fold cp_health_check_at [0..<length (cp_connections cp)] cp"

definition cp_pool_size :: "connection_pool \<Rightarrow> nat" where
  "cp_pool_size cp = length (cp_connections cp)"

section \<open>Acquiring and releasing\<close>

definition acquire_better :: "cp_eviction_policy \<Rightarrow> cp_connection \<Rightarrow> cp_connection \<Rightarrow> bool" where
  "acquire_better policy c best \<longleftrightarrow> policy = CP_EVICT_LRU \<and> timespec_less (cn_last_used c) (cn_last_used best)"

definition fresh_conn :: "timespec \<Rightarrow> connection_pool \<Rightarrow> cp_connection" where
  "fresh_conn now cp = \<lparr>cn_fd = -1, cn_host = strncpy_z CP_MAX_HOST_LEN (cp_host cp), cn_port = cp_port cp, cn_state = CP_ACTIVE,
     cn_created_at = now, cn_last_used = now, cn_idle_start = \<lparr>tv_sec = 0, tv_nsec = 0\<rparr>, cn_request_count = 0, cn_keep_alive = True\<rparr>"

partial_function (option) cp_acquire :: "timespec \<Rightarrow> connection_pool \<Rightarrow> (nat option \<times> connection_pool) option" where
  "cp_acquire now cp =
     (case scan_idle (acquire_better (cp_evict_policy cp)) cp of
        Some i \<Rightarrow> Some (Some i, (set_conn i ((conn_at cp i)\<lparr>cn_state := CP_ACTIVE, cn_last_used := now\<rparr>) cp)
          \<lparr>cp_active_count := cp_active_count cp + 1, cp_idle_count := cp_idle_count cp - 1, cp_total_reused := cp_total_reused cp + 1\<rparr>)
      | None \<Rightarrow>
          if int (length (cp_connections cp)) \<ge> cp_max_conn cp
          then if cp_idle_count cp > 0 then cp_acquire now (snd (cp_evict 1 cp)) else Some (None, cp)
          else if length (cp_connections cp) \<ge> CP_MAX_CONN then None
          else Some (Some (length (cp_connections cp)), cp\<lparr>cp_connections := cp_connections cp @ [fresh_conn now cp],
                 cp_active_count := cp_active_count cp + 1, cp_total_created := cp_total_created cp + 1\<rparr>))"

definition cp_release_conn :: "timespec \<Rightarrow> bool \<Rightarrow> connection_pool \<Rightarrow> cp_connection \<Rightarrow> (cp_connection \<times> connection_pool) option" where
  "cp_release_conn now keep_alive cp conn =
     (if cn_state conn \<noteq> CP_ACTIVE then None
      else let conn = conn\<lparr>cn_keep_alive := keep_alive\<rparr> in
      if keep_alive \<and> cn_fd conn \<ge> 0 \<and> cn_request_count conn < cp_max_requests_per_conn cp
      then Some (conn\<lparr>cn_state := CP_IDLE, cn_idle_start := now\<rparr>,
             cp\<lparr>cp_active_count := cp_active_count cp - 1, cp_idle_count := cp_idle_count cp + 1\<rparr>)
      else Some (close_conn conn,
             cp\<lparr>cp_active_count := cp_active_count cp - 1, cp_total_destroyed := cp_total_destroyed cp + 1\<rparr>))"

definition cp_release :: "timespec \<Rightarrow> nat \<Rightarrow> bool \<Rightarrow> connection_pool \<Rightarrow> int \<times> connection_pool" where
  "cp_release now i keep_alive cp =
     (case cp_release_conn now keep_alive cp (conn_at cp i) of
        None \<Rightarrow> (-1, cp)
      | Some (conn, cp) \<Rightarrow> (0, set_conn i conn cp))"

section \<open>The manager\<close>

definition pm_init :: pool_manager where
  "pm_init = \<lparr>pm_pools = [], pm_default_max_conn = 32, pm_default_max_idle_ms = 60000, pm_default_max_lifetime_ms = 1800000,
     pm_default_max_requests = 10000\<rparr>"

definition pm_find :: "pool_manager \<Rightarrow> string \<Rightarrow> int \<Rightarrow> nat option" where
  "pm_find pm host port = find_index (\<lambda>cp. cp_host cp = host \<and> cp_port cp = port) (pm_pools pm)"

definition pm_get_or_create_pool :: "string \<Rightarrow> int \<Rightarrow> pool_manager \<Rightarrow> nat option \<times> pool_manager" where
  "pm_get_or_create_pool host port pm =
     (case pm_find pm host port of
        Some i \<Rightarrow> (Some i, pm)
      | None \<Rightarrow>
          if length (pm_pools pm) \<ge> CP_MAX_POOLS then (None, pm)
          else (Some (length (pm_pools pm)), pm\<lparr>pm_pools := pm_pools pm @ [cp_init host port (pm_default_max_conn pm)]\<rparr>))"

definition pm_borrow :: "timespec \<Rightarrow> string \<Rightarrow> int \<Rightarrow> pool_manager \<Rightarrow> ((nat \<times> nat) option \<times> pool_manager) option" where
  "pm_borrow now host port pm =
     (case pm_get_or_create_pool host port pm of
        (None, pm) \<Rightarrow> Some (None, pm)
      | (Some p, pm) \<Rightarrow> do {
          (r, cp) \<leftarrow> cp_acquire now (pm_pools pm ! p);
          Some (map_option (\<lambda>i. (p, i)) r, pm\<lparr>pm_pools := (pm_pools pm)[p := cp]\<rparr>)
        })"

text \<open>The connection is that of the handle; the counters are those of the first pool with its host and port.\<close>

definition pm_return :: "timespec \<Rightarrow> nat \<times> nat \<Rightarrow> pool_manager \<Rightarrow> int \<times> pool_manager" where
  "pm_return now handle pm =
     (case handle of (p, i) \<Rightarrow>
      let conn = conn_at (pm_pools pm ! p) i in
      case pm_find pm (cn_host conn) (cn_port conn) of
        None \<Rightarrow> (-1, pm)
      | Some q \<Rightarrow> (case cp_release_conn now (cn_keep_alive conn) (pm_pools pm ! q) conn of
          None \<Rightarrow> (-1, pm)
        | Some (conn, cp) \<Rightarrow>
            let pools = (pm_pools pm)[q := cp]
            in (0, pm\<lparr>pm_pools := pools[p := set_conn i conn (pools ! p)]\<rparr>)))"

definition pm_reap_idle :: "timespec \<Rightarrow> pool_manager \<Rightarrow> pool_manager" where
  "pm_reap_idle now pm = pm\<lparr>pm_pools := map (\<lambda>cp. snd (cp_close_idle now cp)) (pm_pools pm)\<rparr>"

section \<open>The counters of a pool are exact\<close>

lemma count_if_update:
  "i < length xs \<Longrightarrow> int (count_if P (xs[i := y])) = int (count_if P xs) + (if P y then 1 else 0) - (if P (xs ! i) then 1 else 0)"
proof (induction xs arbitrary: i)
  case (Cons x xs)
  show ?case
  proof (cases i)
    case (Suc k)
    then show ?thesis using Cons.IH [of k] Cons.prems by (simp split: if_splits)
  qed simp
qed simp

lemma count_if_snoc: "int (count_if P (xs @ [x])) = int (count_if P xs) + (if P x then 1 else 0)"
  by (induction xs) auto

definition in_state :: "cp_conn_state \<Rightarrow> connection_pool \<Rightarrow> int" where
  "in_state s cp = int (count_if (\<lambda>c. cn_state c = s) (cp_connections cp))"

text \<open>
  Well-formed pools; \<open>e\<close> is the number of connections that clients have reported as broken so far. A report takes the
  connection out of the active state and no operation ever accounts for it.
\<close>

definition cp_wf :: "nat \<Rightarrow> connection_pool \<Rightarrow> bool" where
  "cp_wf e cp \<longleftrightarrow> cp_active_count cp = in_state CP_ACTIVE cp + int e \<and> cp_idle_count cp = in_state CP_IDLE cp \<and>
     cp_total_destroyed cp = word_of_int (in_state CP_CLOSING cp) \<and> cp_total_created cp = word_of_int (int (length (cp_connections cp))) \<and>
     int (length (cp_connections cp)) \<le> cp_max_conn cp \<and> length (cp_connections cp) \<le> CP_MAX_CONN"

lemma set_conn_fields [simp]:
  "cp_active_count (set_conn i c cp) = cp_active_count cp" "cp_idle_count (set_conn i c cp) = cp_idle_count cp"
  "cp_total_destroyed (set_conn i c cp) = cp_total_destroyed cp" "cp_total_created (set_conn i c cp) = cp_total_created cp"
  "cp_max_conn (set_conn i c cp) = cp_max_conn cp" "length (cp_connections (set_conn i c cp)) = length (cp_connections cp)"
  "cp_evict_policy (set_conn i c cp) = cp_evict_policy cp" "cp_max_idle_ms (set_conn i c cp) = cp_max_idle_ms cp"
  "cp_max_lifetime_ms (set_conn i c cp) = cp_max_lifetime_ms cp"
  by (simp_all add: set_conn_def)

lemma in_state_set_conn:
  "i < length (cp_connections cp) \<Longrightarrow> in_state s (set_conn i c cp) =
    in_state s cp + (if cn_state c = s then 1 else 0) - (if cn_state (conn_at cp i) = s then 1 else 0)"
  by (simp add: in_state_def set_conn_def count_if_update)

lemma in_state_fields [simp]:
  "in_state s (cp\<lparr>cp_active_count := a\<rparr>) = in_state s cp" "in_state s (cp\<lparr>cp_idle_count := b\<rparr>) = in_state s cp"
  "in_state s (cp\<lparr>cp_total_destroyed := d\<rparr>) = in_state s cp" "in_state s (cp\<lparr>cp_total_created := e\<rparr>) = in_state s cp"
  "in_state s (cp\<lparr>cp_total_reused := f\<rparr>) = in_state s cp"
  by (simp_all add: in_state_def)

lemma in_state_snoc:
  "in_state s (cp\<lparr>cp_connections := cp_connections cp @ [c]\<rparr>) = in_state s cp + (if cn_state c = s then 1 else 0)"
  by (simp add: in_state_def count_if_snoc)

lemma fresh_conn_state [simp]: "cn_state (fresh_conn now cp) = CP_ACTIVE"
  by (simp add: fresh_conn_def)

lemma close_conn_state [simp]: "cn_state (close_conn c) = CP_CLOSING"
  by (simp add: close_conn_def)

lemma scan_idle_upto:
  assumes irrefl: "\<And>c. \<not> better c c" and trans: "\<And>a b c. better a b \<Longrightarrow> better b c \<Longrightarrow> better a c"
  shows "case fold (scan_slot better cp) [0..<n] None of None \<Rightarrow> \<forall>j < n. cn_state (conn_at cp j) \<noteq> CP_IDLE
    | Some b \<Rightarrow> b < n \<and> cn_state (conn_at cp b) = CP_IDLE \<and>
        (\<forall>j < n. cn_state (conn_at cp j) = CP_IDLE \<longrightarrow> \<not> better (conn_at cp j) (conn_at cp b))"
proof (induction n)
  case (Suc n)
  show ?case
  proof (cases "fold (scan_slot better cp) [0..<n] None")
    case None
    then show ?thesis using Suc irrefl by (auto simp: scan_slot_def [of better cp n] less_Suc_eq)
  next
    case (Some b)
    then show ?thesis using Suc irrefl trans by (auto simp: scan_slot_def [of better cp n] less_Suc_eq split: if_splits)
  qed
qed simp

lemma scan_idle_spec:
  assumes "\<And>c. \<not> better c c" and "\<And>a b c. better a b \<Longrightarrow> better b c \<Longrightarrow> better a c"
  shows "case scan_idle better cp of None \<Rightarrow> \<forall>j < length (cp_connections cp). cn_state (conn_at cp j) \<noteq> CP_IDLE
    | Some b \<Rightarrow> b < length (cp_connections cp) \<and> cn_state (conn_at cp b) = CP_IDLE \<and>
        (\<forall>j < length (cp_connections cp). cn_state (conn_at cp j) = CP_IDLE \<longrightarrow> \<not> better (conn_at cp j) (conn_at cp b))"
  unfolding scan_idle_def by (rule scan_idle_upto [OF assms])

lemma better_order:
  "\<not> evict_better p c c" "evict_better p a b \<Longrightarrow> evict_better p b c \<Longrightarrow> evict_better p a c"
  "\<not> acquire_better p c c" "acquire_better p a b \<Longrightarrow> acquire_better p b c \<Longrightarrow> acquire_better p a c"
  by (auto simp: evict_better_def acquire_better_def timespec_less_def split: cp_eviction_policy.splits)

lemma cp_evict_scan:
  "case scan_idle (evict_better p) cp of None \<Rightarrow> \<forall>j < length (cp_connections cp). cn_state (conn_at cp j) \<noteq> CP_IDLE
    | Some b \<Rightarrow> b < length (cp_connections cp) \<and> cn_state (conn_at cp b) = CP_IDLE \<and>
        (\<forall>j < length (cp_connections cp). cn_state (conn_at cp j) = CP_IDLE \<longrightarrow> \<not> evict_better p (conn_at cp j) (conn_at cp b))"
  by (rule scan_idle_spec) (use better_order in blast)+

lemma acquire_scan:
  "case scan_idle (acquire_better p) cp of None \<Rightarrow> \<forall>j < length (cp_connections cp). cn_state (conn_at cp j) \<noteq> CP_IDLE
    | Some b \<Rightarrow> b < length (cp_connections cp) \<and> cn_state (conn_at cp b) = CP_IDLE \<and>
        (\<forall>j < length (cp_connections cp). cn_state (conn_at cp j) = CP_IDLE \<longrightarrow> \<not> acquire_better p (conn_at cp j) (conn_at cp b))"
  by (rule scan_idle_spec) (use better_order in blast)+

lemma acquire_scan_none: "\<forall>c \<in> set (cp_connections cp). cn_state c \<noteq> CP_IDLE \<Longrightarrow> scan_idle (acquire_better p) cp = None"
  using acquire_scan [where p = p and cp = cp] by (auto split: option.splits)

lemma idle_none: "(\<forall>j < length (cp_connections cp). cn_state (conn_at cp j) \<noteq> CP_IDLE) \<longleftrightarrow> in_state CP_IDLE cp = 0"
  by (simp add: in_state_def count_if_eq_0 all_set_conv_all_nth)

text \<open>Closing an idle connection and accounting for it keeps the pool well-formed.\<close>

lemma close_idle_wf:
  assumes "cp_wf e cp" and "i < length (cp_connections cp)" and "cn_state (conn_at cp i) = CP_IDLE"
  shows "cp_wf e ((set_conn i (close_conn (conn_at cp i)) cp)
    \<lparr>cp_idle_count := cp_idle_count cp - 1, cp_total_destroyed := cp_total_destroyed cp + 1\<rparr>)"
  using assms by (simp add: cp_wf_def in_state_set_conn)

lemma cp_evict_loop_wf: "cp_wf e cp \<Longrightarrow> cp_wf e (snd (cp_evict_loop k n cp))"
proof (induction k n cp rule: cp_evict_loop.induct)
  case (1 k n cp)
  show ?case
  proof (cases "k < n \<and> cp_idle_count cp > 0")
    case True
    then show ?thesis using cp_evict_scan [where p = "cp_evict_policy cp" and cp = cp] "1.prems" "1.IH" [OF True] close_idle_wf [OF "1.prems"]
      by (cases "scan_idle (evict_better (cp_evict_policy cp)) cp") (simp_all add: cp_evict_loop.simps [of k n cp])
  qed (use "1.prems" in \<open>auto simp: cp_evict_loop.simps [of k n cp]\<close>)
qed

lemma cp_evict_wf: "cp_wf e cp \<Longrightarrow> cp_wf e (snd (cp_evict n cp))"
  using cp_evict_loop_wf [of e cp 0 "nat n"] by (auto simp: cp_evict_def split: prod.splits)

lemma cp_close_idle_at_wf:
  "cp_wf e (snd p) \<Longrightarrow> i < length (cp_connections (snd p)) \<Longrightarrow>
    cp_wf e (snd (cp_close_idle_at now i p)) \<and> length (cp_connections (snd (cp_close_idle_at now i p))) = length (cp_connections (snd p))"
  by (auto simp: cp_close_idle_at_def close_idle_wf split: prod.splits)

lemma cp_close_expired_at_wf:
  "cp_wf e (snd p) \<Longrightarrow> i < length (cp_connections (snd p)) \<Longrightarrow>
    cp_wf e (snd (cp_close_expired_at now i p)) \<and> length (cp_connections (snd (cp_close_expired_at now i p))) = length (cp_connections (snd p))"
  by (cases "cn_state (conn_at (snd p) i)") (auto simp: cp_close_expired_at_def cp_wf_def in_state_set_conn Let_def split: prod.splits)

lemma fold_slots_wf:
  assumes "\<And>i p. cp_wf e (snd p) \<Longrightarrow> i < length (cp_connections (snd p)) \<Longrightarrow>
      cp_wf e (snd (f i p)) \<and> length (cp_connections (snd (f i p))) = length (cp_connections (snd p))"
    and "cp_wf e cp"
  shows "cp_wf e (snd (fold f [0..<length (cp_connections cp)] (0, cp)))"
proof -
  have "cp_wf e (snd (fold f [0..<n] (0, cp))) \<and> length (cp_connections (snd (fold f [0..<n] (0, cp)))) = length (cp_connections cp)"
    if "n \<le> length (cp_connections cp)" for n
    using that assms by (induction n) simp_all
  then show ?thesis by simp
qed

lemma cp_close_idle_wf: "cp_wf e cp \<Longrightarrow> cp_wf e (snd (cp_close_idle now cp))"
  unfolding cp_close_idle_def by (rule fold_slots_wf) (rule cp_close_idle_at_wf)

lemma cp_close_expired_wf: "cp_wf e cp \<Longrightarrow> cp_wf e (snd (cp_close_expired now cp))"
  unfolding cp_close_expired_def by (rule fold_slots_wf) (rule cp_close_expired_at_wf)

lemma cp_health_check_wf:
  assumes "cp_wf e cp"
  shows "cp_wf e (cp_health_check cp)"
proof -
  have "cp_wf e (fold cp_health_check_at [0..<n] cp) \<and> length (cp_connections (fold cp_health_check_at [0..<n] cp)) = length (cp_connections cp)"
    if "n \<le> length (cp_connections cp)" for n
    using that assms by (induction n) (auto simp: cp_health_check_at_def cp_wf_def in_state_set_conn)
  then show ?thesis by (simp add: cp_health_check_def)
qed

lemma cp_release_wf:
  assumes "cp_wf e cp" and "i < length (cp_connections cp)"
  shows "cp_wf e (snd (cp_release now i keep cp))"
  using assms by (auto simp: cp_release_def cp_release_conn_def cp_wf_def in_state_set_conn Let_def split: option.splits)

text \<open>What an acquisition does to a well-formed pool, in its three cases.\<close>

lemma cp_acquire_reuse:
  assumes "scan_idle (acquire_better (cp_evict_policy cp)) cp = Some i"
  shows "cp_acquire now cp = Some (Some i, (set_conn i ((conn_at cp i)\<lparr>cn_state := CP_ACTIVE, cn_last_used := now\<rparr>) cp)
    \<lparr>cp_active_count := cp_active_count cp + 1, cp_idle_count := cp_idle_count cp - 1, cp_total_reused := cp_total_reused cp + 1\<rparr>)"
  using assms by (simp add: cp_acquire.simps [of now cp])

lemma cp_acquire_full:
  assumes "cp_wf e cp" and "scan_idle (acquire_better (cp_evict_policy cp)) cp = None" and "int (length (cp_connections cp)) = cp_max_conn cp"
  shows "cp_acquire now cp = Some (None, cp)"
proof -
  have "cp_idle_count cp = 0"
    using acquire_scan [where p = "cp_evict_policy cp" and cp = cp] assms(1,2) idle_none [of cp] by (simp add: cp_wf_def)
  then show ?thesis using assms(2,3) by (simp add: cp_acquire.simps [of now cp])
qed

lemma cp_acquire_fresh:
  assumes "scan_idle (acquire_better (cp_evict_policy cp)) cp = None" and "int (length (cp_connections cp)) < cp_max_conn cp"
    and "length (cp_connections cp) < CP_MAX_CONN"
  shows "cp_acquire now cp = Some (Some (length (cp_connections cp)), cp\<lparr>cp_connections := cp_connections cp @ [fresh_conn now cp],
    cp_active_count := cp_active_count cp + 1, cp_total_created := cp_total_created cp + 1\<rparr>)"
  using assms by (simp add: cp_acquire.simps [of now cp])

lemma cp_acquire_cases:
  assumes "cp_wf e cp"
  obtains (reuse) i where "scan_idle (acquire_better (cp_evict_policy cp)) cp = Some i"
  | (full) "scan_idle (acquire_better (cp_evict_policy cp)) cp = None" "int (length (cp_connections cp)) = cp_max_conn cp"
  | (fresh) "scan_idle (acquire_better (cp_evict_policy cp)) cp = None" "int (length (cp_connections cp)) < cp_max_conn cp"
  using assms by (cases "scan_idle (acquire_better (cp_evict_policy cp)) cp") (auto simp: cp_wf_def le_less)

lemma cp_acquire_wf:
  assumes "cp_wf e cp" and "cp_acquire now cp = Some (r, cp')"
  shows "cp_wf e cp'"
  using assms(1)
proof (cases rule: cp_acquire_cases)
  case (reuse i)
  have "i < length (cp_connections cp)" "cn_state (conn_at cp i) = CP_IDLE"
    using acquire_scan [where p = "cp_evict_policy cp" and cp = cp] reuse by auto
  then show ?thesis using assms cp_acquire_reuse [OF reuse, of now] by (auto simp: cp_wf_def in_state_set_conn)
next
  case full
  then show ?thesis using assms cp_acquire_full by auto
next
  case fresh
  have room: "length (cp_connections cp) < CP_MAX_CONN"
    using assms(2) fresh by (auto simp: cp_acquire.simps [of now cp] split: if_splits)
  then show ?thesis using assms cp_acquire_fresh [OF fresh room, of now] fresh
    by (auto simp: cp_wf_def in_state_snoc)
qed

section \<open>Pools in use\<close>

text \<open>
  The steps of a pool and of its clients, who may set the descriptor, the request counter and the keep-alive flag of a
  connection they hold, mark it as broken, and set the public policy field. The second component counts the marks. An
  acquisition that writes past the array is not a step.
\<close>

inductive cp_step :: "connection_pool \<times> nat \<Rightarrow> connection_pool \<times> nat \<Rightarrow> bool" where
  acquire: "cp_acquire now cp = Some (r, cp') \<Longrightarrow> cp_step (cp, e) (cp', e)"
| release: "i < length (cp_connections cp) \<Longrightarrow> cp_step (cp, e) (snd (cp_release now i keep cp), e)"
| evict: "cp_step (cp, e) (snd (cp_evict n cp), e)"
| close_idle: "cp_step (cp, e) (snd (cp_close_idle now cp), e)"
| close_expired: "cp_step (cp, e) (snd (cp_close_expired now cp), e)"
| health_check: "cp_step (cp, e) (cp_health_check cp, e)"
| client: "i < length (cp_connections cp) \<Longrightarrow> cn_state (conn_at cp i) = CP_ACTIVE \<Longrightarrow>
    cp_step (cp, e) (set_conn i ((conn_at cp i)\<lparr>cn_fd := fd, cn_request_count := n, cn_keep_alive := keep\<rparr>) cp, e)"
| broken: "i < length (cp_connections cp) \<Longrightarrow> cn_state (conn_at cp i) = CP_ACTIVE \<Longrightarrow>
    cp_step (cp, e) (set_conn i ((conn_at cp i)\<lparr>cn_state := CP_ERROR\<rparr>) cp, e + 1)"
| policy: "cp_step (cp, e) (cp\<lparr>cp_evict_policy := p\<rparr>, e)"

definition cp_start :: "connection_pool \<times> nat \<Rightarrow> bool" where
  "cp_start s \<longleftrightarrow> (\<exists>host port max_conn. s = (cp_init host port max_conn, 0))"

definition cp_inv :: "connection_pool \<times> nat \<Rightarrow> bool" where
  "cp_inv s \<longleftrightarrow> cp_wf (snd s) (fst s)"

lemma cp_step_wf: "cp_step s s' \<Longrightarrow> cp_inv s \<Longrightarrow> cp_inv s'"
  unfolding cp_inv_def
proof (induction rule: cp_step.induct)
  case (client i cp e fd n keep)
  then show ?case by (simp add: cp_wf_def in_state_set_conn)
next
  case (broken i cp e)
  then show ?case by (simp add: cp_wf_def in_state_set_conn)
next
  case (policy cp e p)
  then show ?case by (simp add: cp_wf_def in_state_def)
qed (simp_all add: cp_acquire_wf cp_release_wf cp_evict_wf cp_close_idle_wf cp_close_expired_wf cp_health_check_wf)

lemma cp_start_wf: "cp_start s \<Longrightarrow> cp_inv s"
  by (auto simp: cp_start_def cp_init_def cp_inv_def cp_wf_def in_state_def)

interpretation pool: invariant_system cp_start cp_step cp_inv
  using cp_start_wf cp_step_wf by unfold_locales auto

text \<open>
  C40. The counters of a pool in every reachable state, whatever its clients do with the connections they hold, for any
  \<open>max_conn\<close> and as long as no acquisition writes past the array: \<open>idle_count\<close> is the number of idle connections,
  \<open>active_count\<close> is the number of active connections plus the number \<open>e\<close> of connections that clients have marked as broken
  since the start (so it is exact while no client has), the totals of created and destroyed connections are the numbers of
  slots ever filled and of closed slots, and there are never more slots than \<open>max_conn\<close> and than the array has.
\<close>

theorem cp_counters_exact:
  assumes "reach cp_start cp_step (cp, e)"
  shows "cp_active_count cp = int (count_if (\<lambda>c. cn_state c = CP_ACTIVE) (cp_connections cp)) + int e \<and>
    cp_idle_count cp = int (count_if (\<lambda>c. cn_state c = CP_IDLE) (cp_connections cp)) \<and>
    unat (cp_total_destroyed cp) = count_if (\<lambda>c. cn_state c = CP_CLOSING) (cp_connections cp) \<and>
    unat (cp_total_created cp) = cp_pool_size cp \<and> int (cp_pool_size cp) \<le> cp_max_conn cp \<and> cp_pool_size cp \<le> CP_MAX_CONN"
proof -
  have wf: "cp_wf e cp" using pool.reach_inv [OF assms] by (simp add: cp_inv_def)
  then have len: "length (cp_connections cp) \<le> CP_MAX_CONN" by (simp add: cp_wf_def)
  have "unat (word_of_int (int n) :: 64 word) = n" if "n \<le> CP_MAX_CONN" for n
    using that by (simp add: unat_of_nat take_bit_nat_eq_self)
  from this [OF len] this [OF order_trans [OF count_if_le len]] show ?thesis using wf
    by (simp add: cp_wf_def in_state_def cp_pool_size_def)
qed

text \<open>
  C39. Acquiring from a reachable pool (connections that clients have marked as broken included) whose \<open>max_conn\<close> is at
  most 64, the size of the array, always returns. It hands out an idle connection if there is one, under the LRU policy one
  that no idle connection was used before, a new connection if there is none and a slot is left, and nothing exactly when no
  connection is idle and every slot is taken. The connection was not in use, is in use afterwards, and no other connection
  changes.
\<close>

theorem cp_acquire_exclusive:
  assumes "reach cp_start cp_step (cp, e)" and "cp_max_conn cp \<le> int CP_MAX_CONN"
  shows "\<exists>r cp'. cp_acquire now cp = Some (r, cp') \<and>
    (r = None \<longleftrightarrow> (\<forall>j < cp_pool_size cp. cn_state (conn_at cp j) \<noteq> CP_IDLE) \<and> int (cp_pool_size cp) = cp_max_conn cp) \<and>
    (case r of None \<Rightarrow> cp' = cp
     | Some i \<Rightarrow> cn_state (conn_at cp' i) = CP_ACTIVE \<and> (\<forall>j < cp_pool_size cp. j \<noteq> i \<longrightarrow> conn_at cp' j = conn_at cp j) \<and>
       (if i < cp_pool_size cp
        then cn_state (conn_at cp i) = CP_IDLE \<and> (cp_evict_policy cp = CP_EVICT_LRU \<longrightarrow> (\<forall>j < cp_pool_size cp.
          cn_state (conn_at cp j) = CP_IDLE \<longrightarrow> \<not> timespec_less (cn_last_used (conn_at cp j)) (cn_last_used (conn_at cp i))))
        else i = cp_pool_size cp \<and> (\<forall>j < cp_pool_size cp. cn_state (conn_at cp j) \<noteq> CP_IDLE)))"
proof -
  have wf: "cp_wf e cp" using pool.reach_inv [OF assms(1)] by (simp add: cp_inv_def)
  note scan = acquire_scan [where p = "cp_evict_policy cp" and cp = cp]
  from wf show ?thesis
  proof (cases rule: cp_acquire_cases)
    case (reuse i)
    then have "i < length (cp_connections cp)" "cn_state (conn_at cp i) = CP_IDLE"
        "\<forall>j < length (cp_connections cp). cn_state (conn_at cp j) = CP_IDLE \<longrightarrow> \<not> acquire_better (cp_evict_policy cp) (conn_at cp j) (conn_at cp i)"
      using scan by auto
    then show ?thesis unfolding cp_acquire_reuse [OF reuse]
      by (auto simp: cp_pool_size_def set_conn_def acquire_better_def)
  next
    case full
    then show ?thesis using cp_acquire_full [OF wf full, of now] scan by (simp add: cp_pool_size_def)
  next
    case fresh
    then have "length (cp_connections cp) < CP_MAX_CONN" using assms(2) by simp
    then show ?thesis using cp_acquire_fresh [OF fresh, of now] scan fresh
      by (simp add: cp_pool_size_def nth_append fresh_conn_def)
  qed
qed

text \<open>A pool of two: a connection is taken, used and given back; the next client gets it again.\<close>

definition cp_demo :: connection_pool where
  "cp_demo = (let now = \<lparr>tv_sec = 5, tv_nsec = 0\<rparr>; cp = snd (the (cp_acquire now (cp_init ''h'' 80 2)))
     in snd (cp_release now 0 True (set_conn 0 ((conn_at cp 0)\<lparr>cn_fd := 7, cn_request_count := 1, cn_keep_alive := True\<rparr>) cp)))"

lemma cp_demo_value:
  "cp_demo = \<lparr>cp_connections = [\<lparr>cn_fd = 7, cn_host = ''h'', cn_port = 80, cn_state = CP_IDLE, cn_created_at = \<lparr>tv_sec = 5, tv_nsec = 0\<rparr>,
       cn_last_used = \<lparr>tv_sec = 5, tv_nsec = 0\<rparr>, cn_idle_start = \<lparr>tv_sec = 5, tv_nsec = 0\<rparr>, cn_request_count = 1, cn_keep_alive = True\<rparr>],
     cp_max_conn = 2, cp_max_idle_ms = 60000, cp_max_lifetime_ms = 3600000, cp_max_requests_per_conn = 1000, cp_evict_policy = CP_EVICT_LRU,
     cp_host = ''h'', cp_port = 80, cp_active_count = 0, cp_idle_count = 1, cp_total_created = 1, cp_total_destroyed = 0, cp_total_reused = 0\<rparr>"
  by (simp add: cp_demo_def cp_init_def cp_acquire.simps scan_idle_def fresh_conn_def cp_release_def cp_release_conn_def set_conn_def Let_def)

lemma cp_demo_acquired:
  obtains cp where "cp_acquire \<lparr>tv_sec = 5, tv_nsec = 0\<rparr> (cp_init ''h'' 80 2) = Some (Some 0, cp)" "length (cp_connections cp) = 1"
    "cn_state (conn_at cp 0) = CP_ACTIVE" "reach cp_start cp_step (cp, 0)"
proof -
  have start: "reach cp_start cp_step (cp_init ''h'' 80 2, 0)" by (rule reach_init) (auto simp: cp_start_def)
  obtain cp where acq: "cp_acquire \<lparr>tv_sec = 5, tv_nsec = 0\<rparr> (cp_init ''h'' 80 2) = Some (Some 0, cp)" "length (cp_connections cp) = 1"
      "cn_state (conn_at cp 0) = CP_ACTIVE"
    by (simp add: cp_acquire.simps cp_init_def scan_idle_def fresh_conn_def)
  then show ?thesis using that reach_step [OF start cp_step.acquire [OF acq(1)]] by blast
qed

lemma cp_demo_reach: "reach cp_start cp_step (cp_demo, 0)"
proof -
  let ?now = "\<lparr>tv_sec = 5, tv_nsec = 0\<rparr>"
  obtain cp where acq: "cp_acquire ?now (cp_init ''h'' 80 2) = Some (Some 0, cp)" "length (cp_connections cp) = 1"
      "cn_state (conn_at cp 0) = CP_ACTIVE" "reach cp_start cp_step (cp, 0)" by (rule cp_demo_acquired)
  let ?used = "set_conn 0 ((conn_at cp 0)\<lparr>cn_fd := 7, cn_request_count := 1, cn_keep_alive := True\<rparr>) cp"
  have "cp_step (cp, 0) (?used, 0)" using acq by (intro cp_step.client) simp_all
  from reach_step [OF acq(4) this] have 2: "reach cp_start cp_step (?used, 0)" .
  have "cp_step (?used, 0) (snd (cp_release ?now 0 True ?used), 0)" using acq by (intro cp_step.release) simp
  from reach_step [OF 2 this] have "reach cp_start cp_step (snd (cp_release ?now 0 True ?used), 0)" .
  then show ?thesis using acq by (simp add: cp_demo_def Let_def)
qed

theorem cp_acquire_exclusive_witness:
  "\<exists>cp'. cp_acquire \<lparr>tv_sec = 9, tv_nsec = 0\<rparr> cp_demo = Some (Some 0, cp') \<and> cn_state (conn_at cp' 0) = CP_ACTIVE"
proof -
  have v: "cp_pool_size cp_demo = 1" "cn_state (conn_at cp_demo 0) = CP_IDLE" "cp_max_conn cp_demo = 2"
    by (simp_all add: cp_demo_value cp_pool_size_def)
  then have "cp_max_conn cp_demo \<le> int CP_MAX_CONN" by simp
  from cp_acquire_exclusive [OF cp_demo_reach this, of "\<lparr>tv_sec = 9, tv_nsec = 0\<rparr>"] show ?thesis
    using v by (fastforce split: option.splits if_splits)
qed

text \<open>
  A connection that its client marks as broken: the health check closes the slot and counts it as destroyed, but
  \<open>active_count\<close> still counts it.
\<close>

definition cp_broken :: connection_pool where
  "cp_broken = (let cp = snd (the (cp_acquire \<lparr>tv_sec = 5, tv_nsec = 0\<rparr> (cp_init ''h'' 80 2)))
     in cp_health_check (set_conn 0 ((conn_at cp 0)\<lparr>cn_state := CP_ERROR\<rparr>) cp))"

lemma cp_broken_still_active:
  "map cn_state (cp_connections cp_broken) = [CP_CLOSING] \<and> cp_active_count cp_broken = 1 \<and> cp_total_destroyed cp_broken = 1"
  by (simp add: cp_broken_def cp_init_def cp_acquire.simps scan_idle_def fresh_conn_def cp_health_check_def cp_health_check_at_def
      set_conn_def close_conn_def Let_def)

theorem cp_counters_exact_witness:
  "cp_active_count cp_demo = 0 \<and> cp_active_count cp_broken = int (count_if (\<lambda>c. cn_state c = CP_ACTIVE) (cp_connections cp_broken)) + 1"
proof -
  obtain cp where acq: "cp_acquire \<lparr>tv_sec = 5, tv_nsec = 0\<rparr> (cp_init ''h'' 80 2) = Some (Some 0, cp)" "length (cp_connections cp) = 1"
      "cn_state (conn_at cp 0) = CP_ACTIVE" "reach cp_start cp_step (cp, 0)" by (rule cp_demo_acquired)
  let ?bad = "set_conn 0 ((conn_at cp 0)\<lparr>cn_state := CP_ERROR\<rparr>) cp"
  have "cp_step (cp, 0) (?bad, 0 + 1)" using acq by (intro cp_step.broken) simp_all
  from reach_step [OF reach_step [OF acq(4) this] cp_step.health_check]
  have "reach cp_start cp_step (cp_broken, 1)" using acq by (simp add: cp_broken_def Let_def)
  then show ?thesis using cp_counters_exact [OF cp_demo_reach] cp_counters_exact by (simp add: cp_demo_value)
qed

section \<open>The manager and the limits of the code\<close>

text \<open>A closed slot is never filled again: once every slot has been used, the pool is exhausted for good.\<close>

lemma cp_closed_slots_exhaust:
  assumes "cp_wf e cp" and "int (cp_pool_size cp) = cp_max_conn cp" and "\<forall>c \<in> set (cp_connections cp). cn_state c = CP_CLOSING"
  shows "cp_acquire now cp = Some (None, cp)"
proof -
  have "scan_idle (acquire_better (cp_evict_policy cp)) cp = None" using assms(3) by (intro acquire_scan_none) auto
  then show ?thesis using cp_acquire_full [OF assms(1)] assms(2) by (simp add: cp_pool_size_def)
qed

text \<open>The module never opens a descriptor, so a new connection that is released for reuse is closed.\<close>

lemma cp_fresh_never_idle:
  assumes "scan_idle (acquire_better (cp_evict_policy cp)) cp = None" and "int (cp_pool_size cp) < cp_max_conn cp"
    and "cp_acquire now cp = Some (Some i, cp')"
  shows "cn_state (conn_at (snd (cp_release now' i True cp')) i) = CP_CLOSING"
proof -
  have "length (cp_connections cp) < CP_MAX_CONN"
    using assms by (auto simp: cp_acquire.simps [of now cp] cp_pool_size_def split: if_splits)
  then show ?thesis using assms cp_acquire_fresh [OF assms(1), of now]
    by (auto simp: cp_pool_size_def cp_release_def cp_release_conn_def fresh_conn_def set_conn_def nth_append)
qed

text \<open>Nanoseconds are subtracted unsigned: 0.2 s of idling across a full second count as centuries.\<close>

lemma cp_elapsed_borrow:
  "cp_elapsed_ms \<lparr>tv_sec = 11, tv_nsec = 100000000\<rparr> \<lparr>tv_sec = 10, tv_nsec = 900000000\<rparr> \<ge> word_of_int 60000"
  by code_simp

text \<open>\<open>cp_init\<close> does not limit \<open>max_conn\<close> to the size of the array; the acquisition after the 64th writes past it.\<close>

lemma cp_oversized_pool_overflows:
  assumes "length (cp_connections cp) = CP_MAX_CONN" and "cp_max_conn cp > int CP_MAX_CONN"
    and "\<forall>c \<in> set (cp_connections cp). cn_state c \<noteq> CP_IDLE"
  shows "cp_acquire now cp = None"
proof -
  have "scan_idle (acquire_better (cp_evict_policy cp)) cp = None" using assms(3) by (intro acquire_scan_none) auto
  then show ?thesis using assms by (simp add: cp_acquire.simps [of now cp])
qed

text \<open>A host name that does not fit is stored truncated and never found again: every request creates another pool.\<close>

lemma pm_long_host_duplicates:
  assumes "length host \<ge> CP_MAX_HOST_LEN" and "pm_find pm host port = None" and "length (pm_pools pm) < CP_MAX_POOLS"
  shows "pm_find (snd (pm_get_or_create_pool host port pm)) host port = None"
proof -
  have "strncpy_z CP_MAX_HOST_LEN host \<noteq> host"
    using assms(1) length_strncpy_z [of CP_MAX_HOST_LEN host] by auto
  then show ?thesis using assms(3) assms(2) [unfolded pm_find_def find_index_None_iff] unfolding pm_get_or_create_pool_def assms(2)
    by (simp add: pm_find_def find_index_None_iff cp_init_def)
qed

text \<open>The manager finds the pool that it has created for a name that fits, and leaves the others alone.\<close>

lemma pm_get_or_create_finds:
  assumes "length host < CP_MAX_HOST_LEN" and "pm_get_or_create_pool host port pm = (Some p, pm')"
  shows "p < length (pm_pools pm') \<and> cp_host (pm_pools pm' ! p) = host \<and> cp_port (pm_pools pm' ! p) = port \<and>
    pm_get_or_create_pool host port pm' = (Some p, pm') \<and> (\<forall>q < length (pm_pools pm). pm_pools pm' ! q = pm_pools pm ! q)"
proof (cases "pm_find pm host port")
  case None
  then have pm': "pm' = pm\<lparr>pm_pools := pm_pools pm @ [cp_init host port (pm_default_max_conn pm)]\<rparr>" "p = length (pm_pools pm)"
    using assms(2) by (auto simp: pm_get_or_create_pool_def split: if_splits)
  have "pm_find pm' host port = Some p"
    using None assms(1) unfolding pm_find_def pm' by (simp add: find_index_append cp_init_def pm_find_def)
  then show ?thesis using assms(1) by (simp add: pm' pm_get_or_create_pool_def cp_init_def nth_append)
next
  case (Some q)
  then have "pm' = pm" "p = q" using assms(2) by (auto simp: pm_get_or_create_pool_def)
  then show ?thesis using Some find_index_SomeD(1,2) [OF Some [unfolded pm_find_def]] by (simp add: pm_get_or_create_pool_def)
qed

end
