(* ===== verification/Spec2Isabelle.thy ===== *)
theory Spec2Isabelle
  imports TwoPC Saga Tcc Xa Fencing DistLock LockGraph Idempotency Wal Mvcc Occ Crdt TimeOrdering
    CircuitBreaker Paxos RaftReplication RaftCluster Dht LeaderElection WebSocket WsHandshake MqttBroker Http2 IpRouting Topology IpPacket IcmpProto
    Isolation Swim ElectionProtocols RpcProtocol RpcEncoding LoadBalancer RateLimiter HttpMessage ConnectionPool
begin

text \<open>
  A verification library for mini-network-dist-proto.

  The repository is a set of C libraries that implement network and distributed-systems protocols in memory:
  \<open>mini-dist-transaction\<close> (atomic commitment, sagas, locks, logs, concurrency control), \<open>mini-dist-protocol\<close>
  (Paxos, Raft, gossip, membership), \<open>mini-dist-system-theory\<close> (replicated data types, logical clocks, simulations),
  \<open>mini-app-protocol\<close> (WebSocket, HTTP/2, MQTT, gRPC), \<open>mini-gateway-proxy\<close> (circuit breaker, balancing, proxying),
  \<open>mini-network-base\<close> (IP, routing, congestion control) and \<open>mini-rpc-framework\<close>. The libraries do not call each
  other; inside a library most modules stand alone, and the calls that exist are modelled as calls. The locks of
  \<open>dist_lock.c\<close> are used by Redlock, the counters of \<open>crdt.c\<close> by the PN counter, the frame builder of
  \<open>http2_frames.c\<close> by its send operations, and the checksum of \<open>ip_packet.c\<close> by building, fragmenting and reassembling.

  \<^bold>\<open>Theories and sources.\<close>

  \<^item> \<open>Net_Prelude\<close>: strings, linear search, slot removal, counting; the locales \<open>invariant_system\<close> (reachable
    states and invariants), \<open>slot_table\<close> (a keyed array with find-or-create), \<open>quorum_system\<close> (majorities) and
    \<open>hash_ring\<close> (few keys move when nodes come and go).
  \<^item> \<open>TwoPC\<close>: \<open>two_pc.c\<close>, coordinators of two- and three-phase commit. Agreement over runs that call the operations in
    any order: a commit is unanimous, and after it only participants that enlist or vote late differ (locale
    \<open>atomic_commit\<close>); the exact condition under which a transaction commits.
  \<^item> \<open>Saga\<close>: \<open>saga.c\<close>. Execution refines a recursive specification of nested scopes; backward recovery restores
    the world. \<open>Tcc\<close>: \<open>tcc.c\<close>, all or nothing. \<open>Xa\<close>: \<open>xa.c\<close>, unanimity.
  \<^item> \<open>Fencing\<close>: \<open>fencing.c\<close>. A guarded resource refuses writers with old tokens (locale \<open>fenced_resource\<close>).
    Tokens are returned as pointers into the store or copied, and the difference is part of the model.
  \<^item> \<open>DistLock\<close>, \<open>LockGraph\<close>: \<open>dist_lock.c\<close>. Mutual exclusion under a lease, for one manager and for Redlock; the
    Floyd-Warshall pass computes the transitive closure of the matrix it is given.
  \<^item> \<open>Idempotency\<close>: \<open>idempotency.c\<close>, recognition of duplicates with LRU eviction, retries with backoff.
  \<^item> \<open>Wal\<close>: \<open>wal.c\<close>. What is appended is found, also after wrap-around; recovery of a log without aborts leaves
    exactly the writes of the committed transactions.
  \<^item> \<open>Mvcc\<close>, \<open>Occ\<close>: \<open>mvcc.c\<close>, \<open>occ.c\<close>. Stable snapshots, first committer wins, committed reads are current.
  \<^item> \<open>Crdt\<close>: \<open>crdt.c\<close>. Merges are convergent (locale \<open>convergent\<close>), the counter counts every increment, the two-phase
    set refines finite sets. \<open>TimeOrdering\<close>: \<open>time_ordering.c\<close>. Lamport's clock condition; vector clocks characterise
    causality.
  \<^item> \<open>CircuitBreaker\<close>: \<open>circuit_breaker.c\<close>. Opening at the threshold, shielding while open, recovery.
  \<^item> \<open>Paxos\<close>, \<open>Raft\<close>: the modules of \<open>mini-dist-protocol\<close>. Uniqueness of the chosen value over arbitrary message
    orders, with the discipline that the proof needs; log matching of a replication round. \<open>RaftReplication\<close>:
    commitment over whole runs with a single leader, from the initial cluster on.
  \<^item> \<open>RaftCluster\<close>: \<open>raft.c\<close> of \<open>mini-dist-system-theory\<close>, a cluster whose nodes exchange messages through a bounded
    queue. At most one leader per term in every reachable state; leaders only extend their logs.
  \<^item> \<open>Dht\<close>: \<open>dht.c\<close>. Chord and consistent hashing keep an ordered ring of hashes (contract \<open>hash_ring\<close>, kept
    by both): a lookup finds the successor of the key, a new node takes keys from its successor only.
  \<^item> \<open>LeaderElection\<close>: \<open>leader_election.c\<close> of \<open>mini-dist-system-theory\<close>, its queue of 63 messages and the loop that
    drains it. The bully algorithm (up to five nodes, the number whose messages fit the queue) and the ring algorithm
    end and elect the live node of highest priority.
  \<^item> \<open>ElectionProtocols\<close>: \<open>leader_election.c\<close> of \<open>mini-dist-protocol\<close>. Through all crashes and recoveries that leave a node
    alive the bully election keeps the highest live node as everybody's leader; the token ring elects the highest live
    node although its pointers may lead to dead nodes; the sequential election elects the lowest live node.
  \<^item> \<open>Swim\<close>: \<open>swim.c\<close>, membership with its messages and its tick. A death is final, under whatever identifiers
    members join, as long as no newer incarnation is heard of; the exact effect of a tick.
  \<^item> \<open>Isolation\<close>: \<open>isolation_levels.c\<close>, anomalies of histories and the conflict graph. The depth-first search
    finds a cycle exactly if the graph has one.
  \<^item> \<open>Bytes\<close>: network byte order, flag bits, and the contract \<open>prefix_codec\<close> of self-delimiting encodings.
    \<open>WebSocket\<close>: \<open>websocket.c\<close>, frame round trip. \<open>WsHandshake\<close>: its opening handshake with SHA-1; the server's answer
    always fits and is read back by the client. \<open>Http2\<close>: \<open>http2_frames.c\<close>, round trips of frames, settings, integers
    and literal fields, the flow-control window of a stream, bounds of the priority tree.
  \<^item> \<open>MqttPackets\<close>, \<open>MqttBroker\<close>: \<open>mqtt.c\<close>. Round trips of CONNECT, PUBLISH and SUBSCRIBE; a publication reaches the
    subscribers whose filters match level by level by the documented rules, with the two cases set apart that the code decides
    otherwise; the delivery manager refines one automaton per message.
  \<^item> \<open>IpPacket\<close>: \<open>ip_packet.c\<close>, checksum, fragmentation and reassembly in any order. \<open>IcmpProto\<close>: \<open>icmp_proto.c\<close>, a ping comes
    back with its data, damage to one word is detected. \<open>IpRouting\<close> and \<open>Topology\<close>:
    \<open>ip_routing.c\<close>. Lookup is longest-prefix match; aggregation loses no route; Dijkstra and Bellman-Ford find the
    least costs of walks, through the contract \<open>least_costs\<close> that both keep, and therefore agree below 16.

  \<^item> \<open>LoadBalancer\<close>: \<open>load_balancer.c\<close>. Smooth weighted round robin is exactly fair over a cycle (locale
    \<open>smooth_scheduler\<close>), only healthy servers are chosen, the ring's binary search finds the successor and the ring
    keeps the contract \<open>hash_ring\<close> of \<open>Net_Prelude\<close>.
  \<^item> \<open>RateLimiter\<close>: \<open>rate_limiter.c\<close>. Both buckets respect rate and burst over every interval (locale \<open>metered\<close>), the
    sliding window admits at most its limit in every interval of its length.
  \<^item> \<open>ConnectionPool\<close>: \<open>connection_pool.c\<close>. The counters in every reachable state, up to connections reported as broken,
    which \<open>active_count\<close> keeps counting; a connection is handed to one user at a time.
  \<^item> \<open>HttpMessage\<close>: \<open>http_message.c\<close>. A printed request is parsed back however it is cut into segments, the chunk decoder
    inverts every chunking, the header table refines a case-insensitive map, query strings are read back.
  \<^item> \<open>Crc32\<close>, \<open>RpcProtocol\<close>: \<open>rpc_protocol.c\<close> and the buffers of \<open>rpc_encoding.c\<close>. The table-driven checksum is the
    bitwise one and detects every burst of 32 bits; a stream delivers a prefix of what was sent over a network that
    loses, repeats, reorders and damages frames (locale \<open>in_order_receiver\<close>). \<open>RpcEncoding\<close>: values and messages of
    \<open>rpc_encoding.c\<close>, round trip of the binary form.

  \<^bold>\<open>How code is translated.\<close> The conventions stand at the head of \<open>Net_Prelude\<close>: a struct is a record, an enum a
  datatype, an array with its counter a list, a fixed-width unsigned integer a word of that width where its
  wrap-around can be observed, a byte buffer a list of 8-bit words. An operation that mutates through a pointer returns
  the new state; a return code is an \<open>int\<close>, a failing operation returns \<open>Inl\<close> of its code or the unchanged state with
  it. Where C leaves the behaviour undefined the model returns \<open>None\<close> and the theory says so. Clock readings, random
  numbers, allocations and callbacks are arguments, quantified in the theorems. Guards against null pointers and
  functions that only print are left out throughout.

  \<^bold>\<open>Loops and bounds.\<close> Loops over an array are folds or structural recursion over its list. The loops whose number of
  rounds depends on data (\<open>wal\<close> scans, HPACK integers, header blocks, the checksum's carries, fragmentation) are
  total functions with a measure. Rounds that the source bounds by a constant or a count (node count in Dijkstra and
  Bellman-Ford, 32 children in the priority tree, three attempts of multi-Paxos) recurse on that number, and the
  theorems show that it suffices. The message loop of the elections, the
  search for a live node of the ring and the doubling of an RPC buffer, which can run forever, are partial functions into
  \<open>option\<close>; their theorems state that they return. No definition uses fuel beyond these bounds of the source.

  \<^bold>\<open>What the theorems assume.\<close> Each property is stated over all reachable states or over all inputs with the
  capacity limits of the arrays written out; a witness applies it to a concrete run. Where the code does not keep a
  promise of its comments or of the protocol, the property carries the extra condition, and a separate lemma shows
  the behaviour without it on a concrete input (two leaders in one Raft term, a commit revoked by a late timeout, a
  removed element of the observed-remove set that returns, a reassembly that closes over a gap).

  \<^bold>\<open>Not modelled.\<close> Input and output: sockets, threads, the transport, server, stubs and interceptors of the
  RPC framework, the reverse proxy and the gateway built over it, DNS queries, TLS and printing. Text formatting: the JSON
  form of RPC values, REST responses, server-sent events, the text form of CIDR blocks. Simulations driven by \<open>rand\<close>
  and floating point: gossip, congestion control, Byzantine agreement. Outside the scope chosen here: gRPC framing,
  snapshots, the middleware chain, service discovery and the RPC registry. The remaining files print explanations or
  drive the modules (examples, demonstrations, tests).
\<close>

end
